(* ===== verification/Prelude.thy ===== *)
theory Prelude
  imports Main "HOL-Library.Word" "HOL-Library.Monad_Syntax"
begin

unbundle bit_operations_syntax

text \<open>
  The vocabulary every component shares: the C integer types at their width, byte
  buffers, loads and stores that fail outside a buffer, and the little-endian and
  network-order codecs of 16 and 32 bit integers.

  C code that reads or writes memory is modelled in the option monad: \<open>None\<close> is an
  access outside its object (undefined behaviour in C), \<open>Some\<close> is a run that stayed in
  bounds. A theorem \<open>f x = Some y\<close> therefore says both that \<open>f\<close> is memory safe on \<open>x\<close> and
  what it returns.
\<close>

section \<open>Types\<close>

type_synonym u8 = "8 word"
type_synonym u16 = "16 word"
type_synonym u32 = "32 word"
type_synonym bytes = "u8 list"

named_theorems mem_simps \<open>loads and stores on byte buffers\<close>

lemma u8_bound: "unat (a :: u8) < 256"
  using unsigned_less [of a] by simp

lemma u16_bound: "unat (a :: u16) < 65536"
  using unsigned_less [of a] by simp

lemma u32_bound: "unat (a :: u32) < 2 ^ 32"
  using unsigned_less [of a] by simp

lemma unat8_of_nat: "n < 256 \<Longrightarrow> unat (of_nat n :: u8) = n"
  by (simp add: unsigned_of_nat take_bit_nat_eq_self)

lemma unat16_of_nat: "n < 65536 \<Longrightarrow> unat (of_nat n :: u16) = n"
  by (simp add: unsigned_of_nat take_bit_nat_eq_self)

lemma unat32_of_nat: "n < 2 ^ 32 \<Longrightarrow> unat (of_nat n :: u32) = n"
  by (simp add: unsigned_of_nat take_bit_nat_eq_self)

lemma unat_add_small: "unat x + unat y < 2 ^ 32 \<Longrightarrow> unat (x + y :: u32) = unat x + unat y"
  by (simp add: unat_word_ariths)

lemma sint_small:
  assumes "unat (w :: u32) < 2 ^ 31"
  shows "sint w = int (unat w)"
proof -
  have "int (unat w) < 2 ^ 31" using assms by (simp only: of_nat_less_numeral_power_cancel_iff)
  moreover have "- (2 ^ 31) \<le> int (unat w)" by (rule order_trans [of _ 0]) simp_all
  ultimately have "signed_take_bit 31 (int (unat w)) = int (unat w)" by (intro signed_take_bit_int_eq_self)
  then show ?thesis by (simp add: sint_uint)
qed

lemma unat_and_mask16: "unat (u AND 0xFFFF :: u32) = unat u mod 65536"
proof -
  have "u AND 0xFFFF = take_bit 16 u" by (simp add: take_bit_eq_mask mask_eq_exp_minus_1)
  then show ?thesis by (simp only: unsigned_take_bit_eq) (simp add: take_bit_eq_mod)
qed

lemma unat_drop16: "unat (drop_bit 16 u :: u32) = unat u div 65536"
  unfolding unat_drop_bit_eq by (simp add: drop_bit_eq_div)

section \<open>Bit operations as arithmetic\<close>

lemma unat_or_disj: "x AND y = 0 \<Longrightarrow> unat (x OR y :: 'a::len word) = unat x + unat y"
  by (metis disjunctive_add_eq_or unsigned_0 unsigned_and_eq unsigned_or_eq)

lemma unat_push:
  assumes "unat (a :: 'a::len word) * 2 ^ k < 2 ^ LENGTH('a)"
  shows "unat (push_bit k a) = unat a * 2 ^ k"
  using assms unfolding unsigned_push_bit_eq by (simp add: take_bit_nat_eq_self push_bit_eq_mult)

lemma unat_push_or:
  assumes "unat (a :: 'a::len word) * 2 ^ k < 2 ^ LENGTH('a)" and "unat b < 2 ^ k"
  shows "unat (push_bit k a OR b) = unat a * 2 ^ k + unat b"
proof -
  have "unat (take_bit k b) = unat b" using assms(2) by (simp add: unsigned_take_bit_eq take_bit_nat_eq_self)
  then have b: "b = take_bit k b" by (simp add: word_unat_eq_iff)
  have "push_bit k a AND b = 0" by (subst b) (auto simp: bit_eq_iff bit_simps)
  with assms(1) show ?thesis by (simp add: unat_or_disj unat_push)
qed

lemma and_255: "w AND 0xFF = take_bit 8 (w :: 'a::len word)"
  by (simp add: take_bit_eq_mask mask_eq_exp_minus_1)

lemma drop_and_65280: "drop_bit 8 (w AND 0xFF00) = take_bit 8 (drop_bit 8 (w :: 'a::len word))"
proof -
  have m: "(0xFF00 :: 'a word) = push_bit 8 (mask 8)" by (simp add: mask_eq_exp_minus_1 push_bit_eq_mult)
  have "drop_bit 8 (w AND push_bit 8 (mask 8)) = take_bit 8 (drop_bit 8 w)"
    by (rule bit_word_eqI) (auto simp: bit_simps dest: bit_imp_le_length)
  then show ?thesis by (simp only: m)
qed

lemma unat_take8: "unat (take_bit 8 (w :: 'a::len word)) = unat w mod 256"
  by (simp only: unsigned_take_bit_eq) (simp add: take_bit_eq_mod)

lemma unat_drop8: "unat (drop_bit 8 (w :: 'a::len word)) = unat w div 256"
  unfolding unat_drop_bit_eq by (simp add: drop_bit_eq_div)

lemma unat_swap16:
  assumes "16 \<le> LENGTH('a::len)"
  shows "unat (push_bit 8 (w AND 0xFF) OR drop_bit 8 (w AND 0xFF00) :: 'a word)
    = unat w mod 256 * 256 + unat w div 256 mod 256"
proof -
  have "unat w mod 256 * 256 < (2::nat) ^ 16" by simp
  also have "\<dots> \<le> 2 ^ LENGTH('a)" using assms power_increasing [of 16 "LENGTH('a)" "2::nat"] by simp
  finally show ?thesis
    by (simp only: and_255 drop_and_65280) (simp add: unat_push_or unat_take8 unat_drop8)
qed

section \<open>Loads and stores\<close>

definition rd_at :: "bytes \<Rightarrow> nat \<Rightarrow> nat \<Rightarrow> bytes option" where
  "rd_at b off n = (if off + n \<le> length b then Some (take n (drop off b)) else None)"

definition wr_at :: "bytes \<Rightarrow> nat \<Rightarrow> bytes \<Rightarrow> bytes option" where
  "wr_at b off d =
     (if off + length d \<le> length b then Some (take off b @ d @ drop (off + length d) b) else None)"

definition byte_at :: "bytes \<Rightarrow> nat \<Rightarrow> u8 option" where
  "byte_at b i = (if i < length b then Some (b ! i) else None)"

lemma rd_at_Some [mem_simps]: "off + n \<le> length b \<Longrightarrow> rd_at b off n = Some (take n (drop off b))"
  by (simp add: rd_at_def)

lemma wr_at_Some [mem_simps]:
  "off + length d \<le> length b \<Longrightarrow> wr_at b off d = Some (take off b @ d @ drop (off + length d) b)"
  by (simp add: wr_at_def)

lemma byte_at_Some [mem_simps]: "i < length b \<Longrightarrow> byte_at b i = Some (b ! i)"
  by (simp add: byte_at_def)

lemma wr_at_length [mem_simps]: "wr_at b off d = Some b' \<Longrightarrow> length b' = length b"
  by (auto simp: wr_at_def split: if_splits)

lemma rd_at_length: "rd_at b off n = Some d \<Longrightarrow> length d = n"
  by (auto simp: rd_at_def split: if_splits)

lemma wr_at_eq_None [mem_simps]: "wr_at b off d = None \<longleftrightarrow> length b < off + length d"
  by (auto simp: wr_at_def)

lemma rd_at_eq_None [mem_simps]: "rd_at b off n = None \<longleftrightarrow> length b < off + n"
  by (auto simp: rd_at_def)

lemma rd_wr_same: "wr_at b off d = Some b' \<Longrightarrow> rd_at b' off (length d) = Some d"
  by (auto simp: wr_at_def rd_at_def split: if_splits)

lemma wr_at_nth:
  assumes "wr_at b off d = Some b'" and "i < length b"
  shows "b' ! i = (if off \<le> i \<and> i < off + length d then d ! (i - off) else b ! i)"
  using assms by (auto simp: wr_at_def nth_append min_def split: if_splits)

lemma rd_wr_disjoint:
  assumes "wr_at b off d = Some b'" and "o2 + n \<le> off \<or> off + length d \<le> o2"
  shows "rd_at b' o2 n = rd_at b o2 n"
proof -
  have len: "length b' = length b" using assms(1) by (rule wr_at_length)
  have "take n (drop o2 b') = take n (drop o2 b)" if "o2 + n \<le> length b"
    using that assms len by (intro nth_equalityI) (auto simp: wr_at_nth)
  then show ?thesis by (simp add: rd_at_def len)
qed

text \<open>Consecutive bytes through a moving pointer, \<open>*ptr++ = x\<close>: the buffer and the position.\<close>

definition put :: "bytes \<Rightarrow> bytes \<times> nat \<Rightarrow> (bytes \<times> nat) option" where
  "put d s = map_option (\<lambda>b. (b, snd s + length d)) (wr_at (fst s) (snd s) d)"

lemma wr_at_append:
  assumes "wr_at b off d = Some b1" and "wr_at b1 (off + length d) e = Some b2"
  shows "wr_at b off (d @ e) = Some b2"
  using assms by (auto simp: wr_at_def ac_simps split: if_splits)

lemma put_put:
  "off + length (d @ e) \<le> length b \<Longrightarrow> put d (b, off) \<bind> put e = put (d @ e) (b, off)"
  by (auto simp: put_def wr_at_def ac_simps)

lemma put_Some:
  "off + length d \<le> length b \<Longrightarrow>
     put d (b, off) = Some (take off b @ d @ drop (off + length d) b, off + length d)"
  by (simp add: put_def wr_at_def)

section \<open>Integers in memory\<close>

text \<open>The Cortex-M4 is little endian; packet headers are in network order.\<close>

definition le16 :: "u16 \<Rightarrow> bytes" where
  "le16 w = [ucast w, ucast (drop_bit 8 w)]"

definition of_le16 :: "bytes \<Rightarrow> u16" where
  "of_le16 b = (case b of [b0, b1] \<Rightarrow> ucast b0 OR push_bit 8 (ucast b1) | _ \<Rightarrow> 0)"

definition le32 :: "u32 \<Rightarrow> bytes" where
  "le32 w = [ucast w, ucast (drop_bit 8 w), ucast (drop_bit 16 w), ucast (drop_bit 24 w)]"

definition of_le32 :: "bytes \<Rightarrow> u32" where
  "of_le32 b = (case b of [b0, b1, b2, b3] \<Rightarrow>
       ucast b0 OR push_bit 8 (ucast b1) OR push_bit 16 (ucast b2) OR push_bit 24 (ucast b3)
     | _ \<Rightarrow> 0)"

definition be16 :: "u16 \<Rightarrow> bytes" where
  "be16 w = [ucast (drop_bit 8 w), ucast w]"

definition of_be16 :: "bytes \<Rightarrow> u16" where
  "of_be16 b = of_le16 (rev b)"

definition be32 :: "u32 \<Rightarrow> bytes" where
  "be32 w = [ucast (drop_bit 24 w), ucast (drop_bit 16 w), ucast (drop_bit 8 w), ucast w]"

definition of_be32 :: "bytes \<Rightarrow> u32" where
  "of_be32 b = of_le32 (rev b)"

lemma take_drop_split:
  "off + n \<le> length b \<Longrightarrow> take off b @ take n (drop off b) @ drop (off + n) b = b"
  by (metis append_take_drop_id drop_drop add.commute)

lemma take_drop_splice:
  assumes "a + n \<le> length B" "off + length d \<le> n"
  shows "take n (drop a (take (a + off) B @ d @ drop (a + off + length d) B))
    = take off (take n (drop a B)) @ d @ drop (off + length d) (take n (drop a B))"
proof -
  have "drop a (take (a + off) B) = take off (drop a B)" by (simp add: drop_take)
  moreover have "drop (off + length d) (take n (drop a B)) = take (n - off - length d) (drop (a + off + length d) B)"
    by (simp add: drop_take add.commute add.left_commute)
  moreover have "length (take (a + off) B) = a + off" using assms by simp
  ultimately show ?thesis using assms by simp
qed
lemma byte_bit_high: "8 \<le> n \<Longrightarrow> \<not> bit (x :: u8) n"
  using bit_imp_le_length [of x n] by auto

lemma u32_bit_high: "32 \<le> n \<Longrightarrow> \<not> bit (x :: u32) n"
  using bit_imp_le_length [of x n] by auto

lemma bit_le32:
  fixes x :: u32
  shows "bit (of_le32 (le32 x)) n \<longleftrightarrow> bit x n"
proof (cases "n < 32")
  case True
  then consider "n < 8" | "8 \<le> n" "n < 16" | "16 \<le> n" "n < 24" | "24 \<le> n" "n < 32" by linarith
  then show ?thesis by cases (auto simp: le32_def of_le32_def bit_simps)
next
  case False
  then show ?thesis by (simp add: u32_bit_high)
qed

text \<open>What every client of an integer in memory relies on: a fixed width and a bijection.\<close>

locale byte_codec =
  fixes enc :: "'a \<Rightarrow> bytes" and dec :: "bytes \<Rightarrow> 'a" and width :: nat
  assumes enc_length: "length (enc x) = width"
    and dec_enc: "dec (enc x) = x"
    and enc_dec: "length b = width \<Longrightarrow> enc (dec b) = b"
begin

lemma load_store: "wr_at b off (enc x) = Some b' \<Longrightarrow> map_option dec (rd_at b' off width) = Some x"
  using rd_wr_same [of b off "enc x" b'] by (simp add: enc_length dec_enc)

lemma load_append: "dec (take width (enc x @ r)) = x"
  by (simp add: enc_length dec_enc)

lemma store_load: "rd_at b off width = Some d \<Longrightarrow> wr_at b off (enc (dec d)) = Some b"
  using rd_at_length [of b off width d] take_drop_split [of off width b]
  by (auto simp: rd_at_def wr_at_def enc_dec split: if_splits)

lemma enc_inj: "enc x = enc y \<longleftrightarrow> x = y"
  using dec_enc by metis

lemma dec_inj: "length a = width \<Longrightarrow> length b = width \<Longrightarrow> dec a = dec b \<longleftrightarrow> a = b"
  using enc_dec by metis

end

lemma list2_cases: "length b = 2 \<Longrightarrow> (\<And>x y. b = [x, y] \<Longrightarrow> P) \<Longrightarrow> P"
  by (cases b; cases "tl b"; auto)

lemma list4_cases: "length b = 4 \<Longrightarrow> (\<And>w x y z. b = [w, x, y, z] \<Longrightarrow> P) \<Longrightarrow> P"
  by (auto simp: numeral_eq_Suc length_Suc_conv)

interpretation le16: byte_codec le16 of_le16 2
proof
  show "length (le16 x) = 2" for x by (simp add: le16_def)
  show "of_le16 (le16 x) = x" for x
    unfolding le16_def of_le16_def list.case by (rule bit_word_eqI) (auto simp: bit_simps)
  show "le16 (of_le16 b) = b" if "length b = 2" for b
    using that
    by (elim list2_cases) (auto simp: le16_def of_le16_def bit_simps byte_bit_high intro!: bit_word_eqI)
qed

interpretation le32: byte_codec le32 of_le32 4
proof
  show "length (le32 x) = 4" for x by (simp add: le32_def)
  show "of_le32 (le32 x) = x" for x
    by (rule bit_word_eqI) (simp add: bit_le32)
  show "le32 (of_le32 b) = b" if "length b = 4" for b
    using that
    by (elim list4_cases) (auto simp: le32_def of_le32_def bit_simps byte_bit_high intro!: bit_word_eqI)
qed

lemma be16_rev: "be16 w = rev (le16 w)"
  by (simp add: be16_def le16_def)

lemma be32_rev: "be32 w = rev (le32 w)"
  by (simp add: be32_def le32_def)

interpretation be16: byte_codec be16 of_be16 2
  by unfold_locales (simp_all add: be16_rev of_be16_def le16.enc_length le16.dec_enc le16.enc_dec)

interpretation be32: byte_codec be32 of_be32 4
  by unfold_locales (simp_all add: be32_rev of_be32_def le32.enc_length le32.dec_enc le32.enc_dec)

lemmas codec_length [simp] = le16.enc_length le32.enc_length be16.enc_length be32.enc_length
lemmas codec_dec_enc [simp] = le16.dec_enc le32.dec_enc be16.dec_enc be32.dec_enc

end
