(* ===== verification/Pbuf.thy ===== *)
theory Pbuf
  imports Prelude
begin

text \<open>
  The packet buffers of lwIP, \<open>src/core/pbuf.c\<close>: buffers in a store addressed by their
  pool slot or heap address, chained through \<open>next\<close> and shared through reference counts.

  \<open>pool\<close> and \<open>ref_pool\<close> are the free lists of the fixed-size pools MEMP_PBUF_POOL and
  MEMP_PBUF (last freed, first handed out, as \<open>memp.c\<close> does). \<open>mem_malloc\<close> is a function of
  the state: the address the heap of \<open>mem.c\<close> would return for a request, or \<open>None\<close> when it
  is full. The payload area behind the buffer at \<open>a\<close> is \<open>blk a\<close>; it keeps its old contents
  when a buffer is freed and handed out again. A dangling pointer or an access outside a
  block is \<open>None\<close>. \<open>LWIP_ASSERT\<close> and the test of \<open>LWIP_ERROR\<close> have no effect of their own in
  this port: \<open>LWIP_PLATFORM_ASSERT(message)\<close> of \<open>arch/cc.h\<close> loops when its argument is zero, and
  the argument it is given is the message, a string literal. So a failed assertion continues.
  Custom buffers (only \<open>ip_frag.c\<close> makes them) are outside the model: freeing one is \<open>None\<close>.
\<close>

section \<open>Buffers and their store\<close>

datatype pbuf_layer = PBUF_TRANSPORT | PBUF_IP | PBUF_LINK | PBUF_RAW
datatype pbuf_type = PBUF_RAM | PBUF_ROM | PBUF_REF | PBUF_POOL

record pbuf =
  p_next :: "nat option"
  p_payload :: nat \<comment> \<open>offset of the payload pointer in the block\<close>
  p_tot_len :: u16
  p_len :: u16
  p_type :: pbuf_type
  p_flags :: u8
  p_ref :: u16

record pbuf_mem =
  heap :: "nat \<Rightarrow> pbuf option"
  blk :: "nat \<Rightarrow> bytes"
  pool :: "nat list"
  ref_pool :: "nat list"
  pbuf_free_ooseq_pending :: bool
  mem_malloc :: "nat \<Rightarrow> (nat \<Rightarrow> pbuf option) \<Rightarrow> nat option"

definition PBUF_FLAG_IS_CUSTOM :: u8 where "PBUF_FLAG_IS_CUSTOM = 2"
definition SIZEOF_STRUCT_PBUF :: nat where "SIZEOF_STRUCT_PBUF = 16"
definition PBUF_LINK_HLEN :: nat where "PBUF_LINK_HLEN = 14"
definition PBUF_IP_HLEN :: nat where "PBUF_IP_HLEN = 20"
definition PBUF_TRANSPORT_HLEN :: nat where "PBUF_TRANSPORT_HLEN = 20"
definition PBUF_POOL_BUFSIZE_ALIGNED :: nat where "PBUF_POOL_BUFSIZE_ALIGNED = 1516"

definition LWIP_MEM_ALIGN_SIZE :: "nat \<Rightarrow> nat" where
  "LWIP_MEM_ALIGN_SIZE n = (n + 3) div 4 * 4"

definition upd :: "nat \<Rightarrow> (pbuf \<Rightarrow> pbuf) \<Rightarrow> pbuf_mem \<Rightarrow> pbuf_mem option" where
  "upd a f s = (case heap s a of None \<Rightarrow> None
     | Some p \<Rightarrow> Some (s\<lparr>heap := (heap s)(a \<mapsto> f p)\<rparr>))"

section \<open>Freeing\<close>

definition release :: "nat \<Rightarrow> pbuf_type \<Rightarrow> pbuf_mem \<Rightarrow> pbuf_mem" where
  "release a t s = (case t of
       PBUF_POOL \<Rightarrow> s\<lparr>heap := (heap s)(a := None), pool := a # pool s\<rparr>
     | PBUF_ROM \<Rightarrow> s\<lparr>heap := (heap s)(a := None), ref_pool := a # ref_pool s\<rparr>
     | PBUF_REF \<Rightarrow> s\<lparr>heap := (heap s)(a := None), ref_pool := a # ref_pool s\<rparr>
     | PBUF_RAM \<Rightarrow> s\<lparr>heap := (heap s)(a := None)\<rparr>)"

text \<open>
  The loop of \<open>pbuf_free\<close>; every turn either stops or removes a buffer from the store, so
  the fuel of \<open>pbuf_free\<close> (one more than any 16-bit chain can hold) is only reached by a
  cyclic chain. The count is a \<open>u8_t\<close>.
\<close>

fun pbuf_free_loop :: "nat \<Rightarrow> nat option \<Rightarrow> u8 \<Rightarrow> pbuf_mem \<Rightarrow> (u8 \<times> pbuf_mem) option" where
  "pbuf_free_loop fuel None count s = Some (count, s)"
| "pbuf_free_loop 0 (Some a) count s = None"
| "pbuf_free_loop (Suc fuel) (Some a) count s = do {
     p \<leftarrow> heap s a;
     if p_ref p - 1 = 0 then
       (if p_flags p AND PBUF_FLAG_IS_CUSTOM \<noteq> 0 then None
        else pbuf_free_loop fuel (p_next p) (count + 1) (release a (p_type p) s))
     else Some (count, s\<lparr>heap := (heap s)(a \<mapsto> p\<lparr>p_ref := p_ref p - 1\<rparr>)\<rparr>)
   }"

definition chain_fuel :: nat where "chain_fuel = 65536"

definition pbuf_free :: "nat option \<Rightarrow> pbuf_mem \<Rightarrow> (u8 \<times> pbuf_mem) option" where
  "pbuf_free q s = (case q of None \<Rightarrow> Some (0, s) | Some a \<Rightarrow> pbuf_free_loop chain_fuel (Some a) 0 s)"

section \<open>Allocation\<close>

definition pbuf_pool_is_empty :: "pbuf_mem \<Rightarrow> pbuf_mem" where
  "pbuf_pool_is_empty s = s\<lparr>pbuf_free_ooseq_pending := True\<rparr>"

definition memp_malloc_pool :: "pbuf_mem \<Rightarrow> nat option \<times> pbuf_mem" where
  "memp_malloc_pool s = (case pool s of [] \<Rightarrow> (None, s) | a # as \<Rightarrow> (Some a, s\<lparr>pool := as\<rparr>))"

definition memp_malloc_ref :: "pbuf_mem \<Rightarrow> nat option \<times> pbuf_mem" where
  "memp_malloc_ref s = (case ref_pool s of [] \<Rightarrow> (None, s) | a # as \<Rightarrow> (Some a, s\<lparr>ref_pool := as\<rparr>))"

definition layer_offset :: "pbuf_layer \<Rightarrow> nat" where
  "layer_offset layer = (case layer of
       PBUF_TRANSPORT \<Rightarrow> PBUF_LINK_HLEN + PBUF_IP_HLEN + PBUF_TRANSPORT_HLEN
     | PBUF_IP \<Rightarrow> PBUF_LINK_HLEN + PBUF_IP_HLEN
     | PBUF_LINK \<Rightarrow> PBUF_LINK_HLEN
     | PBUF_RAW \<Rightarrow> 0)"

text \<open>
  The tail of a pool chain: \<open>p\<close> is its head (freed when the pool runs dry), \<open>r\<close> the last
  buffer so far, \<open>rem\<close> the bytes still without a buffer. Each turn stores at least one byte.
\<close>

fun alloc_tail :: "nat \<Rightarrow> nat \<Rightarrow> nat \<Rightarrow> nat \<Rightarrow> pbuf_mem \<Rightarrow> (nat option \<times> pbuf_mem) option" where
  "alloc_tail fuel p r 0 s = Some (Some p, s)"
| "alloc_tail 0 p r (Suc m) s = None"
| "alloc_tail (Suc fuel) p r (Suc m) s = (let rem_len = Suc m in
     case memp_malloc_pool s of
       (None, s1) \<Rightarrow> do { (c, s2) \<leftarrow> pbuf_free (Some p) (pbuf_pool_is_empty s1); Some (None, s2) }
     | (Some q, s1) \<Rightarrow>
         (let l = min rem_len PBUF_POOL_BUFSIZE_ALIGNED;
                   b = \<lparr>p_next = None, p_payload = 0, p_tot_len = of_nat rem_len, p_len = of_nat l,
                        p_type = PBUF_POOL, p_flags = 0, p_ref = 1\<rparr>
               in do {
                 s2 \<leftarrow> upd r (\<lambda>x. x\<lparr>p_next := Some q\<rparr>) (s1\<lparr>heap := (heap s1)(q \<mapsto> b)\<rparr>);
                 alloc_tail fuel p q (rem_len - l) s2 }))"

definition pbuf_alloc :: "pbuf_layer \<Rightarrow> u16 \<Rightarrow> pbuf_type \<Rightarrow> pbuf_mem \<Rightarrow> (nat option \<times> pbuf_mem) option" where
  "pbuf_alloc layer length0 type s = (let offset = layer_offset layer in
     case type of
       PBUF_POOL \<Rightarrow>
         (case memp_malloc_pool s of
            (None, s1) \<Rightarrow> Some (None, pbuf_pool_is_empty s1)
          | (Some p, s1) \<Rightarrow>
              (let l = min (unat length0) (PBUF_POOL_BUFSIZE_ALIGNED - LWIP_MEM_ALIGN_SIZE offset);
                   b = \<lparr>p_next = None, p_payload = LWIP_MEM_ALIGN_SIZE offset, p_tot_len = length0,
                        p_len = of_nat l, p_type = PBUF_POOL, p_flags = 0, p_ref = 1\<rparr>
               in alloc_tail chain_fuel p p (unat length0 - l) (s1\<lparr>heap := (heap s1)(p \<mapsto> b)\<rparr>)))
     | PBUF_RAM \<Rightarrow>
         (case mem_malloc s ((LWIP_MEM_ALIGN_SIZE (SIZEOF_STRUCT_PBUF + offset)
                + LWIP_MEM_ALIGN_SIZE (unat length0)) mod 65536) (heap s) of
            None \<Rightarrow> Some (None, s)
          | Some p \<Rightarrow>
              (let n = (LWIP_MEM_ALIGN_SIZE (SIZEOF_STRUCT_PBUF + offset)
                         + LWIP_MEM_ALIGN_SIZE (unat length0)) mod 65536 - SIZEOF_STRUCT_PBUF;
                   b = \<lparr>p_next = None, p_payload = LWIP_MEM_ALIGN_SIZE offset, p_tot_len = length0,
                        p_len = length0, p_type = PBUF_RAM, p_flags = 0, p_ref = 1\<rparr>
               in Some (Some p, s\<lparr>heap := (heap s)(p \<mapsto> b),
                                 blk := (blk s)(p := take n (blk s p @ replicate n 0))\<rparr>)))
     | _ \<Rightarrow>
         (case memp_malloc_ref s of
            (None, s1) \<Rightarrow> Some (None, s1)
          | (Some p, s1) \<Rightarrow>
              (let b = \<lparr>p_next = None, p_payload = 0, p_tot_len = length0, p_len = length0,
                        p_type = type, p_flags = 0, p_ref = 1\<rparr>
               in Some (Some p, s1\<lparr>heap := (heap s1)(p \<mapsto> b), blk := (blk s1)(p := [])\<rparr>))))"

section \<open>Shrinking, headers, chaining\<close>

text \<open>\<open>mem_trim\<close> gives the tail of a heap block back; the block keeps \<open>newsize\<close> bytes.\<close>

definition mem_trim :: "nat \<Rightarrow> nat \<Rightarrow> pbuf_mem \<Rightarrow> pbuf_mem" where
  "mem_trim a newsize s = s\<lparr>blk := (blk s)(a := take (newsize - SIZEOF_STRUCT_PBUF) (blk s a))\<rparr>"

fun realloc_loop :: "nat \<Rightarrow> nat \<Rightarrow> u16 \<Rightarrow> u16 \<Rightarrow> pbuf_mem \<Rightarrow> (nat \<times> u16 \<times> pbuf_mem) option" where
  "realloc_loop 0 q rem_len grow s = None"
| "realloc_loop (Suc fuel) q rem_len grow s = do {
     b \<leftarrow> heap s q;
     if rem_len > p_len b then do {
       s1 \<leftarrow> upd q (\<lambda>x. x\<lparr>p_tot_len := p_tot_len x + grow\<rparr>) s;
       n \<leftarrow> p_next b;
       realloc_loop fuel n (rem_len - p_len b) grow s1 }
     else Some (q, rem_len, s) }"

definition pbuf_realloc :: "nat \<Rightarrow> u16 \<Rightarrow> pbuf_mem \<Rightarrow> pbuf_mem option" where
  "pbuf_realloc p new_len s = do {
     b \<leftarrow> heap s p;
     if new_len \<ge> p_tot_len b then Some s
     else do {
       (q, rem_len, s1) \<leftarrow> realloc_loop chain_fuel p new_len (new_len - p_tot_len b) s;
       bq \<leftarrow> heap s1 q;
       let s2 = (if p_type bq = PBUF_RAM \<and> rem_len \<noteq> p_len bq
                 then mem_trim q (SIZEOF_STRUCT_PBUF + p_payload bq + unat rem_len) s1 else s1);
       s3 \<leftarrow> upd q (\<lambda>x. x\<lparr>p_len := rem_len, p_tot_len := rem_len\<rparr>) s2;
       s4 \<leftarrow> (case p_next bq of None \<Rightarrow> Some s3
              | Some n \<Rightarrow> map_option snd (pbuf_free (Some n) s3));
       upd q (\<lambda>x. x\<lparr>p_next := None\<rparr>) s4 } }"

text \<open>\<open>pbuf_header\<close> returns 0 when the payload pointer moved and 1 when there is no room.\<close>

definition pbuf_header :: "nat option \<Rightarrow> int \<Rightarrow> pbuf_mem \<Rightarrow> (u8 \<times> pbuf_mem) option" where
  "pbuf_header p inc s = (case p of None \<Rightarrow> Some (0, s) | Some a \<Rightarrow>
     if inc = 0 then Some (0, s)
     else do {
       b \<leftarrow> heap s a;
       let moved = b\<lparr>p_payload := nat (int (p_payload b) - inc),
                     p_len := p_len b + of_int inc, p_tot_len := p_tot_len b + of_int inc\<rparr>;
       if inc < 0 \<and> - inc > int (unat (p_len b)) then Some (1, s)
       else if p_type b = PBUF_RAM \<or> p_type b = PBUF_POOL then
         (if int (p_payload b) - inc < 0 then Some (1, s)
          else Some (0, s\<lparr>heap := (heap s)(a \<mapsto> moved)\<rparr>))
       else if inc < 0 then Some (0, s\<lparr>heap := (heap s)(a \<mapsto> moved)\<rparr>)
       else Some (1, s) })"

fun clen_loop :: "nat \<Rightarrow> nat option \<Rightarrow> u8 \<Rightarrow> pbuf_mem \<Rightarrow> u8 option" where
  "clen_loop fuel None n s = Some n"
| "clen_loop 0 (Some a) n s = None"
| "clen_loop (Suc fuel) (Some a) n s = do { b \<leftarrow> heap s a; clen_loop fuel (p_next b) (n + 1) s }"

definition pbuf_clen :: "nat option \<Rightarrow> pbuf_mem \<Rightarrow> u8 option" where
  "pbuf_clen p s = clen_loop chain_fuel p 0 s"

definition pbuf_ref :: "nat option \<Rightarrow> pbuf_mem \<Rightarrow> pbuf_mem option" where
  "pbuf_ref p s = (case p of None \<Rightarrow> Some s | Some a \<Rightarrow> upd a (\<lambda>b. b\<lparr>p_ref := p_ref b + 1\<rparr>) s)"

fun cat_loop :: "nat \<Rightarrow> nat \<Rightarrow> u16 \<Rightarrow> pbuf_mem \<Rightarrow> (nat \<times> pbuf_mem) option" where
  "cat_loop 0 p t_len s = None"
| "cat_loop (Suc fuel) p t_len s = do {
     b \<leftarrow> heap s p;
     case p_next b of
       None \<Rightarrow> Some (p, s)
     | Some n \<Rightarrow> do {
         s1 \<leftarrow> upd p (\<lambda>x. x\<lparr>p_tot_len := p_tot_len x + t_len\<rparr>) s;
         cat_loop fuel n t_len s1 } }"

definition pbuf_cat :: "nat option \<Rightarrow> nat option \<Rightarrow> pbuf_mem \<Rightarrow> pbuf_mem option" where
  "pbuf_cat h t s = (case (h, t) of
     (Some h, Some t) \<Rightarrow> do {
       tb \<leftarrow> heap s t;
       (p, s1) \<leftarrow> cat_loop chain_fuel h (p_tot_len tb) s;
       upd p (\<lambda>x. x\<lparr>p_tot_len := p_tot_len x + p_tot_len tb, p_next := Some t\<rparr>) s1 }
   | _ \<Rightarrow> Some s)"

definition pbuf_chain :: "nat option \<Rightarrow> nat option \<Rightarrow> pbuf_mem \<Rightarrow> pbuf_mem option" where
  "pbuf_chain h t s = do { s1 \<leftarrow> pbuf_cat h t s; pbuf_ref t s1 }"

definition pbuf_dechain :: "nat \<Rightarrow> pbuf_mem \<Rightarrow> (nat option \<times> pbuf_mem) option" where
  "pbuf_dechain p s = do {
     b \<leftarrow> heap s p;
     case p_next b of
       None \<Rightarrow> Some (None, s)
     | Some q \<Rightarrow> do {
         s1 \<leftarrow> upd q (\<lambda>x. x\<lparr>p_tot_len := p_tot_len b - p_len b\<rparr>) s;
         s2 \<leftarrow> upd p (\<lambda>x. x\<lparr>p_next := None, p_tot_len := p_len b\<rparr>) s1;
         (tail_gone, s3) \<leftarrow> pbuf_free (Some q) s2;
         Some (if tail_gone > 0 then None else Some q, s3) } }"

section \<open>Copying\<close>

text \<open>\<open>payload_read\<close> and \<open>payload_write\<close> are \<open>MEMCPY\<close> from and to \<open>p->payload + off\<close>.\<close>

definition payload_read :: "nat \<Rightarrow> nat \<Rightarrow> nat \<Rightarrow> pbuf_mem \<Rightarrow> bytes option" where
  "payload_read a off n s = do { b \<leftarrow> heap s a; rd_at (blk s a) (p_payload b + off) n }"

definition payload_write :: "nat \<Rightarrow> nat \<Rightarrow> bytes \<Rightarrow> pbuf_mem \<Rightarrow> pbuf_mem option" where
  "payload_write a off d s = do {
     b \<leftarrow> heap s a;
     m \<leftarrow> wr_at (blk s a) (p_payload b + off) d;
     Some (s\<lparr>blk := (blk s)(a := m)\<rparr>) }"

text \<open>The copied bytes are returned as a list, what the code stores from \<open>dataptr\<close> on.\<close>

fun copy_partial_loop :: "nat \<Rightarrow> nat option \<Rightarrow> nat \<Rightarrow> nat \<Rightarrow> bytes \<Rightarrow> pbuf_mem \<Rightarrow> bytes option" where
  "copy_partial_loop fuel None n offset acc s = Some acc"
| "copy_partial_loop 0 (Some a) n offset acc s = (if n = 0 then Some acc else None)"
| "copy_partial_loop (Suc fuel) (Some a) n offset acc s =
     (if n = 0 then Some acc
      else do {
        b \<leftarrow> heap s a;
        if offset \<noteq> 0 \<and> offset \<ge> unat (p_len b)
        then copy_partial_loop fuel (p_next b) n (offset - unat (p_len b)) acc s
        else do {
          let l = min n (unat (p_len b) - offset);
          d \<leftarrow> payload_read a offset l s;
          copy_partial_loop fuel (p_next b) (n - l) 0 (acc @ d) s } })"

definition pbuf_copy_partial :: "nat option \<Rightarrow> u16 \<Rightarrow> u16 \<Rightarrow> pbuf_mem \<Rightarrow> bytes option" where
  "pbuf_copy_partial buf n offset s = copy_partial_loop chain_fuel buf (unat n) (unat offset) [] s"

datatype err_t = ERR_OK | ERR_MEM | ERR_BUF | ERR_TIMEOUT | ERR_RTE | ERR_INPROGRESS | ERR_VAL
  | ERR_WOULDBLOCK | ERR_USE | ERR_ISCONN | ERR_ABRT | ERR_RST | ERR_CLSD | ERR_CONN | ERR_ARG | ERR_IF

fun take_loop :: "nat \<Rightarrow> nat option \<Rightarrow> bytes \<Rightarrow> pbuf_mem \<Rightarrow> pbuf_mem option" where
  "take_loop fuel p [] s = Some s"
| "take_loop fuel None (x # xs) s = None"
| "take_loop 0 (Some a) (x # xs) s = None"
| "take_loop (Suc fuel) (Some a) (x # xs) s = do {
     b \<leftarrow> heap s a;
     let l = min (length (x # xs)) (unat (p_len b));
     s1 \<leftarrow> payload_write a 0 (take l (x # xs)) s;
     take_loop fuel (p_next b) (drop l (x # xs)) s1 }"

definition pbuf_take :: "nat option \<Rightarrow> bytes \<Rightarrow> pbuf_mem \<Rightarrow> (err_t \<times> pbuf_mem) option" where
  "pbuf_take buf d s = (case buf of None \<Rightarrow> Some (ERR_OK, s) | Some a \<Rightarrow> do {
     b \<leftarrow> heap s a;
     if unat (p_tot_len b) < length d then Some (ERR_ARG, s)
     else do { s1 \<leftarrow> take_loop chain_fuel buf d s; Some (ERR_OK, s1) } })"

section \<open>Chains\<close>

text \<open>
  \<open>pchain s p as\<close>: the chain from \<open>p\<close> has the buffers \<open>as\<close>, each with its payload inside its
  block; \<open>chain_data\<close> is the packet the chain holds.
\<close>

definition in_block :: "pbuf_mem \<Rightarrow> nat \<Rightarrow> pbuf \<Rightarrow> bool" where
  "in_block s a b \<longleftrightarrow> p_payload b + unat (p_len b) \<le> length (blk s a)"

fun pchain :: "pbuf_mem \<Rightarrow> nat option \<Rightarrow> nat list \<Rightarrow> bool" where
  "pchain s p [] \<longleftrightarrow> p = None"
| "pchain s p (a # as) \<longleftrightarrow> p = Some a \<and>
     (case heap s a of None \<Rightarrow> False | Some b \<Rightarrow> in_block s a b \<and> pchain s (p_next b) as)"

definition buf_data :: "pbuf_mem \<Rightarrow> nat \<Rightarrow> bytes" where
  "buf_data s a = (case heap s a of None \<Rightarrow> []
     | Some b \<Rightarrow> take (unat (p_len b)) (drop (p_payload b) (blk s a)))"

definition chain_data :: "pbuf_mem \<Rightarrow> nat list \<Rightarrow> bytes" where
  "chain_data s as = concat (map (buf_data s) as)"

definition ref_one :: "pbuf_mem \<Rightarrow> nat \<Rightarrow> bool" where
  "ref_one s a \<longleftrightarrow> (case heap s a of None \<Rightarrow> False | Some b \<Rightarrow> p_ref b = 1)"

definition not_custom :: "pbuf_mem \<Rightarrow> nat \<Rightarrow> bool" where
  "not_custom s a \<longleftrightarrow> (case heap s a of None \<Rightarrow> False | Some b \<Rightarrow> p_flags b AND PBUF_FLAG_IS_CUSTOM = 0)"

definition of_type :: "pbuf_mem \<Rightarrow> pbuf_type set \<Rightarrow> nat \<Rightarrow> bool" where
  "of_type s T a \<longleftrightarrow> (case heap s a of None \<Rightarrow> False | Some b \<Rightarrow> p_type b \<in> T)"

lemma chain_data_simps [simp]:
  "chain_data s [] = []" "chain_data s (a # as) = buf_data s a @ chain_data s as"
  "chain_data s (as @ bs) = chain_data s as @ chain_data s bs"
  by (simp_all add: chain_data_def)

lemma pchain_Some [elim!]:
  assumes "pchain s (Some a) xs"
  obtains b as where "xs = a # as" "heap s a = Some b" "in_block s a b" "pchain s (p_next b) as"
  using assms by (cases xs) (auto split: option.splits)

lemma pchain_None [simp]: "pchain s None as \<longleftrightarrow> as = []"
  by (cases as) auto

lemma buf_data_Some: "heap s a = Some b \<Longrightarrow> buf_data s a = take (unat (p_len b)) (drop (p_payload b) (blk s a))"
  by (simp add: buf_data_def)

lemma buf_data_length: "heap s a = Some b \<Longrightarrow> in_block s a b \<Longrightarrow> length (buf_data s a) = unat (p_len b)"
  by (simp add: buf_data_Some in_block_def)

lemma payload_read_in_block:
  assumes "heap s a = Some b" "in_block s a b" "off + n \<le> unat (p_len b)"
  shows "payload_read a off n s = Some (take n (drop off (buf_data s a)))"
  using assms
  by (simp add: payload_read_def in_block_def rd_at_def buf_data_Some drop_take min_def add.commute)

lemma pchain_upd:
  assumes "\<And>a. a \<in> set as \<Longrightarrow> heap s' a = heap s a" and "\<And>a. a \<in> set as \<Longrightarrow> blk s' a = blk s a"
  shows "pchain s' p as = pchain s p as"
  using assms by (induction as arbitrary: p) (auto simp: in_block_def split: option.splits)

lemma chain_data_upd:
  assumes "\<And>a. a \<in> set as \<Longrightarrow> heap s' a = heap s a" and "\<And>a. a \<in> set as \<Longrightarrow> blk s' a = blk s a"
  shows "chain_data s' as = chain_data s as"
  using assms unfolding chain_data_def by (intro arg_cong [of _ _ concat] map_cong) (simp_all add: buf_data_def split: option.split)

section \<open>Reading a chain\<close>

lemma clen_loop_chain:
  "pchain s p as \<Longrightarrow> length as \<le> fuel \<Longrightarrow> clen_loop fuel p n s = Some (n + of_nat (length as))"
proof (induction fuel p n s arbitrary: as rule: clen_loop.induct)
  case (3 fuel a n s)
  then show ?case by (auto simp: ac_simps)
qed auto

lemma copy_partial_loop_chain:
  "pchain s p as \<Longrightarrow> length as \<le> fuel \<Longrightarrow>
     copy_partial_loop fuel p n off acc s = Some (acc @ take n (drop off (chain_data s as)))"
proof (induction fuel p n off acc s arbitrary: as rule: copy_partial_loop.induct)
  case (3 fuel a n off acc s)
  then obtain b as' where as: "as = a # as'" "heap s a = Some b" "in_block s a b" "pchain s (p_next b) as'"
    "length as' \<le> fuel" by auto
  note len = buf_data_length [OF as(2,3)]
  show ?case
  proof (cases "n = 0")
    case False
    show ?thesis
    proof (cases "off \<noteq> 0 \<and> off \<ge> unat (p_len b)")
      case True
      then show ?thesis using "3.IH"(1) [OF False as(2) True as(4,5)] as len False by simp
    next
      case off: False
      define l where "l = min n (unat (p_len b) - off)"
      have rd: "payload_read a off l s = Some (take l (drop off (buf_data s a)))"
        using off as by (intro payload_read_in_block) (auto simp: l_def)
      have "take l (drop off (buf_data s a)) @ take (n - l) (chain_data s as')
          = take n (drop off (buf_data s a @ chain_data s as'))"
        using off by (auto simp: l_def len min_def)
      then show ?thesis
        using "3.IH"(2) [OF False as(2) off l_def rd as(4,5)] as off False rd
        by (auto simp: l_def [symmetric] Let_def)
    qed
  qed simp
qed auto


section \<open>Freeing a chain\<close>

text \<open>
  \<open>gone\<close> is the part of a chain that \<open>pbuf_free\<close> returns to the pools: the buffers up to
  the first one somebody else also refers to, which loses one reference.
\<close>

definition gone :: "pbuf_mem \<Rightarrow> nat list \<Rightarrow> nat list" where
  "gone s as = takeWhile (ref_one s) as"

definition heap_after_free :: "pbuf_mem \<Rightarrow> nat list \<Rightarrow> nat \<Rightarrow> pbuf option" where
  "heap_after_free s as x =
     (if x \<in> set (gone s as) then None
      else if [x] = take 1 (dropWhile (ref_one s) as)
      then map_option (\<lambda>b. b\<lparr>p_ref := p_ref b - 1\<rparr>) (heap s x)
      else heap s x)"

lemma takeWhile_cong': "(\<And>x. x \<in> set xs \<Longrightarrow> P x = Q x) \<Longrightarrow> takeWhile P xs = takeWhile Q xs"
  by (induction xs) auto

lemma dropWhile_cong': "(\<And>x. x \<in> set xs \<Longrightarrow> P x = Q x) \<Longrightarrow> dropWhile P xs = dropWhile Q xs"
  by (induction xs) auto

lemma release_heap [simp]: "heap (release a t s) = (heap s)(a := None)"
  by (simp add: release_def split: pbuf_type.split)

lemma release_blk [simp]: "blk (release a t s) = blk s"
  by (simp add: release_def split: pbuf_type.split)

lemma release_malloc [simp]: "mem_malloc (release a t s) = mem_malloc s"
  by (simp add: release_def split: pbuf_type.split)

lemma release_pool: "pool (release a t s) = (if t = PBUF_POOL then a # pool s else pool s)"
  by (simp add: release_def split: pbuf_type.split)

lemma release_ref_pool: "ref_pool (release a t s) = (if t = PBUF_ROM \<or> t = PBUF_REF then a # ref_pool s else ref_pool s)"
  by (simp add: release_def split: pbuf_type.split)

lemma filter_cong': "(\<And>x. x \<in> set xs \<Longrightarrow> P x = Q x) \<Longrightarrow> filter P xs = filter Q xs"
  by (induction xs) auto

lemma minus_one_eq_0: "(x :: u16) - 1 = 0 \<longleftrightarrow> x = 1"
  by (metis diff_eq_eq add_0)

lemma pbuf_free_loop_chain:
  assumes "pchain s p as" "distinct as" "\<forall>a \<in> set as. not_custom s a" "length as \<le> fuel"
  shows "\<exists>s'. pbuf_free_loop fuel p c s = Some (c + of_nat (length (gone s as)), s')
     \<and> heap s' = heap_after_free s as \<and> blk s' = blk s \<and> mem_malloc s' = mem_malloc s
     \<and> pool s' = rev (filter (of_type s {PBUF_POOL}) (gone s as)) @ pool s
     \<and> ref_pool s' = rev (filter (of_type s {PBUF_ROM, PBUF_REF}) (gone s as)) @ ref_pool s"
  using assms
proof (induction fuel p c s arbitrary: as rule: pbuf_free_loop.induct)
  case (1 fuel c s)
  then show ?case by (auto simp: gone_def heap_after_free_def)
next
  case (2 a c s)
  then show ?case by auto
next
  case (3 fuel a c s)
  then obtain b as' where as: "as = a # as'" "heap s a = Some b" "in_block s a b" "pchain s (p_next b) as'"
    "length as' \<le> fuel" and d: "a \<notin> set as'" "distinct as'"
    and nc: "\<forall>a \<in> set as'. not_custom s a" "p_flags b AND PBUF_FLAG_IS_CUSTOM = 0"
    by (auto simp: not_custom_def)
  show ?case
  proof (cases "p_ref b = 1")
    case False
    then show ?thesis using as(1,2) d(1) 
      by (auto simp: gone_def heap_after_free_def ref_one_def minus_one_eq_0 fun_eq_iff)
  next
    case True
    define s1 where "s1 = release a (p_type b) s"
    have h1: "heap s1 = (heap s)(a := None)" "blk s1 = blk s" by (simp_all add: s1_def)
    have eq: "ref_one s1 x = ref_one s x" "of_type s1 T x = of_type s T x" "not_custom s1 x = not_custom s x"
      if "x \<in> set as'" for x T using that d(1) by (auto simp: ref_one_def of_type_def not_custom_def h1)
    have ch: "pchain s1 (p_next b) as'" using as(4) d(1) by (subst pchain_upd [of _ _ s]) (auto simp: h1)
    have g: "gone s1 as' = gone s as'" unfolding gone_def by (rule takeWhile_cong') (rule eq)
    have dw: "dropWhile (ref_one s1) as' = dropWhile (ref_one s) as'" by (rule dropWhile_cong') (rule eq)
    have sub: "set (gone s as') \<subseteq> set as'" unfolding gone_def by (auto dest: set_takeWhileD)
    then have f: "filter (of_type s1 T) (gone s as') = filter (of_type s T) (gone s as')" for T
      by (intro filter_cong' eq) auto
    have sub2: "set (dropWhile (ref_one s) as') \<subseteq> set as'" by (auto dest: set_dropWhileD)
    have r1: "ref_one s a" using as True by (simp add: ref_one_def)
    have ga: "gone s as = a # gone s as'" using r1 by (simp add: gone_def as)
    have ha: "heap_after_free s1 as' = heap_after_free s as"
    proof
      fix x show "heap_after_free s1 as' x = heap_after_free s as x"
        using sub sub2 d(1) r1 unfolding heap_after_free_def g dw ga h1
        by (cases "dropWhile (ref_one s) as'") (auto simp: as(1))
    qed
    have nn: "p_ref b - 1 = 0" "\<not> p_flags b AND PBUF_FLAG_IS_CUSTOM \<noteq> 0" using True nc by simp_all
    have nc1: "\<forall>a \<in> set as'. not_custom s1 a" using nc eq by simp
    have run: "pbuf_free_loop (Suc fuel) (Some a) c s = pbuf_free_loop fuel (p_next b) (c + 1) s1"
      using nn by (simp add: as(2) s1_def)
    have ta: "of_type s T a = (p_type b \<in> T)" for T by (simp add: of_type_def as(2))
    have pl: "pool s1 = (if of_type s {PBUF_POOL} a then a # pool s else pool s)"
      "ref_pool s1 = (if of_type s {PBUF_ROM, PBUF_REF} a then a # ref_pool s else ref_pool s)"
      unfolding s1_def release_pool release_ref_pool ta by simp_all
    from "3.IH" [OF as(2) nn, folded s1_def, OF ch d(2) nc1 as(5)] obtain s' where
      s': "pbuf_free_loop fuel (p_next b) (c + 1) s1 = Some (c + 1 + of_nat (length (gone s1 as')), s')"
      "heap s' = heap_after_free s1 as'" "blk s' = blk s1" "mem_malloc s' = mem_malloc s1"
      "pool s' = rev (filter (of_type s1 {PBUF_POOL}) (gone s1 as')) @ pool s1"
      "ref_pool s' = rev (filter (of_type s1 {PBUF_ROM, PBUF_REF}) (gone s1 as')) @ ref_pool s1"
      by blast
    show ?thesis unfolding run s'(1) ga g ha [symmetric]
      by (intro exI [of _ s'] conjI) (simp_all add: s' g f pl h1 s1_def [THEN arg_cong [of _ _ mem_malloc]])
  qed
qed

text \<open>A chain nobody else refers to goes back whole.\<close>

lemma gone_all: "\<forall>a \<in> set as. ref_one s a \<Longrightarrow> gone s as = as"
  by (simp add: gone_def takeWhile_eq_all_conv)

section \<open>Allocating a pool chain\<close>

text \<open>
  \<open>pool_ok\<close>: the free slots and the pool buffers in use are the slots of the pool, each of
  them once, and every slot has a block of the configured size.
\<close>

definition PBUF_POOL_SIZE :: nat where "PBUF_POOL_SIZE = 16"

definition pool_ok :: "nat set \<Rightarrow> pbuf_mem \<Rightarrow> bool" where
  "pool_ok slots s \<longleftrightarrow> finite slots \<and> card slots = PBUF_POOL_SIZE
     \<and> distinct (pool s) \<and> (\<forall>a \<in> set (pool s). heap s a = None)
     \<and> set (pool s) \<union> {a. of_type s {PBUF_POOL} a} = slots
     \<and> (\<forall>a \<in> slots. length (blk s a) = PBUF_POOL_BUFSIZE_ALIGNED)"

text \<open>
  \<open>exclusive\<close>: a chain its holder owns alone. \<open>tot_lens s k as\<close>: every \<open>tot_len\<close> is the
  length of the data from its buffer on, \<open>k\<close> bytes still to be linked included.
\<close>

definition exclusive :: "pbuf_mem \<Rightarrow> nat \<Rightarrow> nat list \<Rightarrow> bool" where
  "exclusive s p as \<longleftrightarrow> pchain s (Some p) as \<and> distinct as \<and> (\<forall>a \<in> set as. ref_one s a \<and> not_custom s a)"

fun tot_lens :: "pbuf_mem \<Rightarrow> nat \<Rightarrow> nat list \<Rightarrow> bool" where
  "tot_lens s k [] \<longleftrightarrow> True"
| "tot_lens s k (a # as) \<longleftrightarrow>
     (case heap s a of None \<Rightarrow> False
      | Some b \<Rightarrow> unat (p_tot_len b) = length (chain_data s (a # as)) + k \<and> tot_lens s k as)"

definition owned :: "pbuf_mem \<Rightarrow> nat \<Rightarrow> nat list \<Rightarrow> bool" where
  "owned s p as \<longleftrightarrow> exclusive s p as \<and> tot_lens s 0 as"

lemma pbuf_free_exclusive:
  assumes "exclusive s p as" "length as \<le> chain_fuel"
  shows "\<exists>s'. pbuf_free (Some p) s = Some (of_nat (length as), s')
     \<and> heap s' = (\<lambda>x. if x \<in> set as then None else heap s x) \<and> blk s' = blk s \<and> mem_malloc s' = mem_malloc s
     \<and> pool s' = rev (filter (of_type s {PBUF_POOL}) as) @ pool s
     \<and> ref_pool s' = rev (filter (of_type s {PBUF_ROM, PBUF_REF}) as) @ ref_pool s"
proof -
  from assms(1) have g: "gone s as = as" and d: "dropWhile (ref_one s) as = []"
    by (auto simp: exclusive_def gone_all dropWhile_eq_Nil_conv)
  have h: "heap_after_free s as = (\<lambda>x. if x \<in> set as then None else heap s x)"
    by (simp add: heap_after_free_def g d fun_eq_iff)
  show ?thesis using assms pbuf_free_loop_chain [of s "Some p" as chain_fuel 0]
    by (simp add: exclusive_def pbuf_free_def g h)
qed

lemma pool_ok_free:
  assumes "pool_ok slots s" "exclusive s p as" "length as \<le> chain_fuel"
    and "pbuf_free (Some p) s = Some (n, s')"
  shows "pool_ok slots s'"
proof -
  have h: "heap s' = (\<lambda>x. if x \<in> set as then None else heap s x)" "blk s' = blk s"
    "pool s' = rev (filter (of_type s {PBUF_POOL}) as) @ pool s"
    using pbuf_free_exclusive [OF assms(2,3)] assms(4) by auto
  have d: "distinct as" using assms(2) by (simp add: exclusive_def)
  have t: "of_type s' {PBUF_POOL} a \<longleftrightarrow> a \<notin> set as \<and> of_type s {PBUF_POOL} a" for a
    by (simp add: of_type_def h)
  have n: "of_type s {PBUF_POOL} a \<Longrightarrow> a \<notin> set (pool s)" for a
    using assms(1) by (auto simp: pool_ok_def of_type_def)
  show ?thesis using assms(1) d n unfolding pool_ok_def t h(2,3)
    by (auto simp: h(1))
qed

lemma pool_ok_pending [simp]: "pool_ok slots (s\<lparr>pbuf_free_ooseq_pending := x\<rparr>) = pool_ok slots s"
  by (simp add: pool_ok_def of_type_def)

lemma exclusive_pending [simp]: "exclusive (s\<lparr>pbuf_free_ooseq_pending := x\<rparr>) p as = exclusive s p as"
proof -
  have "pchain (s\<lparr>pbuf_free_ooseq_pending := x\<rparr>) (Some p) as = pchain s (Some p) as"
    by (rule pchain_upd) simp_all
  then show ?thesis by (simp only: exclusive_def) (simp add: ref_one_def not_custom_def)
qed

lemma exclusive_length:
  assumes "pool_ok slots s" "exclusive s p as" "set as \<subseteq> slots"
  shows "length as \<le> chain_fuel"
proof -
  have "length as = card (set as)" using assms(2) by (simp add: exclusive_def distinct_card)
  also have "\<dots> \<le> card slots" using assms by (intro card_mono) (auto simp: pool_ok_def)
  finally show ?thesis using assms(1) by (simp add: pool_ok_def PBUF_POOL_SIZE_def chain_fuel_def)
qed

text \<open>Linking a fresh buffer \<open>q\<close> behind the last buffer of a chain.\<close>

definition link :: "nat \<Rightarrow> nat \<Rightarrow> pbuf \<Rightarrow> pbuf_mem \<Rightarrow> pbuf_mem" where
  "link r q b s = s\<lparr>heap := (\<lambda>x. if x = q then Some b
     else if x = r then map_option (\<lambda>y. y\<lparr>p_next := Some q\<rparr>) (heap s x) else heap s x)\<rparr>"

lemma link_sels [simp]: "blk (link r q b s) = blk s" "pool (link r q b s) = pool s"
  "mem_malloc (link r q b s) = mem_malloc s" "heap (link r q b s) q = Some b"
  by (simp_all add: link_def)

lemma link_others: "x \<noteq> q \<Longrightarrow> x \<noteq> r \<Longrightarrow> heap (link r q b s) x = heap s x"
  by (simp add: link_def)

lemma link_fields:
  assumes "x \<noteq> q"
  shows "ref_one (link r q b s) x = ref_one s x" "not_custom (link r q b s) x = not_custom s x"
    "of_type (link r q b s) T x = of_type s T x" "buf_data (link r q b s) x = buf_data s x"
  using assms by (auto simp: ref_one_def not_custom_def of_type_def buf_data_def link_def split: option.split)

lemma link_chain:
  assumes "pchain s p as" "as \<noteq> []" "distinct as" "q \<notin> set as" "in_block s q b" "p_next b = None"
  shows "pchain (link (last as) q b s) p (as @ [q])"
  using assms
proof (induction as arbitrary: p)
  case (Cons a as)
  show ?case
  proof (cases as)
    case Nil
    then show ?thesis using Cons.prems by (auto simp: in_block_def link_def split: option.splits)
  next
    case (Cons a2 as2)
    then have "a \<noteq> last as" using \<open>distinct (a # as)\<close> by (metis last_in_set distinct.simps(2) list.discI)
    then have "heap (link (last as) q b s) a = heap s a" using Cons.prems by (simp add: link_others)
    moreover from Cons.prems obtain x where "heap s a = Some x" "in_block s a x" "pchain s (p_next x) as"
      by (auto split: option.splits)
    moreover from this have "pchain (link (last as) q b s) (p_next x) (as @ [q])"
      using Cons.IH Cons.prems Cons by simp
    ultimately show ?thesis using Cons.prems Cons by (simp add: in_block_def)
  qed
qed simp

lemma link_chain_data: "q \<notin> set as \<Longrightarrow> chain_data (link r q b s) as = chain_data s as"
  unfolding chain_data_def by (metis (mono_tags, lifting) link_fields(4) map_eq_conv)

lemma link_tot_lens:
  assumes "tot_lens s (k + unat (p_len b)) as" "q \<notin> set as" "in_block s q b"
    and "unat (p_tot_len b) = unat (p_len b) + k"
  shows "tot_lens (link r q b s) k (as @ [q])"
  using assms(1,2)
proof (induction as)
  case Nil
  have "length (buf_data (link r q b s) q) = unat (p_len b)"
    using assms(3) by (intro buf_data_length) (simp_all add: in_block_def)
  then show ?case using assms(4) by simp
next
  case (Cons a as)
  have l: "length (buf_data (link r q b s) q) = unat (p_len b)"
    using assms(3) by (intro buf_data_length) (simp_all add: in_block_def)
  from Cons.prems obtain x where x: "heap s a = Some x"
    "unat (p_tot_len x) = length (chain_data s (a # as)) + (k + unat (p_len b))" "tot_lens s (k + unat (p_len b)) as"
    by (auto split: option.splits)
  from x(1) Cons.prems obtain y where y: "heap (link r q b s) a = Some y" "p_tot_len y = p_tot_len x"
    by (cases "a = r") (auto simp: link_def)
  have "chain_data (link r q b s) (a # as @ [q]) = chain_data s (a # as) @ buf_data (link r q b s) q"
    using Cons.prems(2) link_chain_data [of q "a # as" r b s] by simp
  from arg_cong [OF this, of length] show ?case using Cons.IH x y Cons.prems l by simp
qed


definition set_pool :: "nat list \<Rightarrow> pbuf_mem \<Rightarrow> pbuf_mem" where
  "set_pool as s = s\<lparr>pool := as\<rparr>"

lemma set_pool_sels [simp]: "heap (set_pool as s) = heap s" "blk (set_pool as s) = blk s"
  "pool (set_pool as s) = as" "mem_malloc (set_pool as s) = mem_malloc s"
  "ref_one (set_pool as s) = ref_one s" "not_custom (set_pool as s) = not_custom s"
  "of_type (set_pool as s) = of_type s" "buf_data (set_pool as s) = buf_data s"
  by (simp_all add: set_pool_def ref_one_def not_custom_def of_type_def buf_data_def fun_eq_iff split: option.split)

lemma set_pool_chain [simp]: "pchain (set_pool qs s) p as = pchain s p as"
  "chain_data (set_pool qs s) = chain_data s"
  by (rule pchain_upd; simp) (rule ext, rule chain_data_upd; simp)

lemma set_pool_tot_lens [simp]: "tot_lens (set_pool qs s) k as = tot_lens s k as"
  by (induction as) (simp_all split: option.split)

lemma pool_ok_link:
  assumes "pool_ok slots s" "pool s = q # qs" "r \<noteq> q" "p_type b = PBUF_POOL"
  shows "pool_ok slots (link r q b (set_pool qs s))"
proof -
  have t: "of_type (link r q b (set_pool qs s)) {PBUF_POOL} x \<longleftrightarrow> x = q \<or> of_type s {PBUF_POOL} x" for x
    using assms(4) link_fields(3) [of x q r b "set_pool qs s"]
    by (cases "x = q") (simp_all add: of_type_def)
  have h: "heap (link r q b (set_pool qs s)) x = None \<longleftrightarrow> x \<noteq> q \<and> heap s x = None" for x
    by (simp add: link_def)
  have "set qs \<union> {a. a = q \<or> of_type s {PBUF_POOL} a} = slots"
    using assms(1,2) by (auto simp: pool_ok_def)
  then show ?thesis using assms(1,2) unfolding pool_ok_def t h link_sels set_pool_sels
    by auto
qed

lemma exclusive_link:
  assumes "exclusive s p as" "as \<noteq> []" "heap s q = None" "in_block s q b" "p_next b = None" "p_ref b = 1"
    "p_flags b = 0"
  shows "exclusive (link (last as) q b (set_pool qs s)) p (as @ [q])"
proof -
  have q: "q \<notin> set as" using assms(1,3) by (auto simp: exclusive_def ref_one_def)
  have f: "ref_one (link (last as) q b (set_pool qs s)) x = (if x = q then True else ref_one s x)"
    "not_custom (link (last as) q b (set_pool qs s)) x = (if x = q then True else not_custom s x)" for x
    using assms(6,7) link_fields [of x q "last as" b "set_pool qs s"]
    by (simp_all add: ref_one_def not_custom_def)
  have "pchain (link (last as) q b (set_pool qs s)) (Some p) (as @ [q])"
    using assms q by (intro link_chain) (simp_all add: exclusive_def in_block_def)
  then show ?thesis using assms(1) q unfolding exclusive_def f by auto
qed

lemma exclusive_heap: "exclusive s p as \<Longrightarrow> a \<in> set as \<Longrightarrow> \<exists>b. heap s a = Some b"
  by (auto simp: exclusive_def ref_one_def split: option.splits)

text \<open>
  The tail of a chain is allocated whole, or everything allocated so far goes back.
\<close>

lemma alloc_tail_spec:
  assumes "pool_ok slots s" "exclusive s p as" "tot_lens s rem as" "as \<noteq> []" "last as = r" "set as \<subseteq> slots"
    and "rem \<le> fuel" "rem < 65536"
  shows "\<exists>q s'. alloc_tail fuel p r rem s = Some (q, s') \<and> pool_ok slots s' \<and>
     (case q of
        None \<Rightarrow> heap s' = (\<lambda>x. if x \<in> set as then None else heap s x)
      | Some p' \<Rightarrow> p' = p \<and> (\<exists>bs. owned s' p (as @ bs) \<and> set bs \<subseteq> set (pool s)
           \<and> (\<forall>x. x \<notin> set (as @ bs) \<longrightarrow> heap s' x = heap s x)
           \<and> length (chain_data s' (as @ bs)) = length (chain_data s as) + rem))"
  using assms
proof (induction fuel arbitrary: r rem s as)
  case 0
  then show ?case by (intro exI [of _ "Some p"]) (auto simp: owned_def intro!: exI [of _ "[]"])
next
  case (Suc fuel)
  show ?case
  proof (cases rem)
    case 0
    with Suc.prems show ?thesis
      by (intro exI [of _ "Some p"]) (auto simp: owned_def intro!: exI [of _ "[]"])
  next
    case (Suc m)
    note prems = Suc.prems [unfolded Suc]
    show ?thesis
  proof (cases "pool s")
    case Nil
    let ?s1 = "pbuf_pool_is_empty s"
    have ex: "exclusive ?s1 p as" "pool_ok slots ?s1" and h: "heap ?s1 = heap s"
      using prems by (simp_all add: pbuf_pool_is_empty_def)
    have le: "length as \<le> chain_fuel" using prems exclusive_length by blast
    from pbuf_free_exclusive [OF ex(1) le] obtain c s' where s': "pbuf_free (Some p) ?s1 = Some (c, s')"
      "heap s' = (\<lambda>x. if x \<in> set as then None else heap s x)" unfolding h by blast
    with pool_ok_free [OF ex(2,1) le s'(1)] Nil show ?thesis
      unfolding Suc by (simp add: Let_def memp_malloc_pool_def)
  next
    case (Cons q qs)
    define l where "l = min (Suc m) PBUF_POOL_BUFSIZE_ALIGNED"
    define b where "b = \<lparr>p_next = None, p_payload = 0, p_tot_len = of_nat (Suc m), p_len = of_nat l,
      p_type = PBUF_POOL, p_flags = 0, p_ref = 1\<rparr>"
    define s2 where "s2 = link r q b (set_pool qs s)"
    have un: "unat (of_nat (Suc m) :: u16) = Suc m" "unat (of_nat l :: u16) = l" "l \<le> Suc m" "0 < l"
      using prems(8) by (simp_all add: unat16_of_nat l_def PBUF_POOL_BUFSIZE_ALIGNED_def del: of_nat_Suc)
    have qh: "heap s q = None" and qb: "q \<in> slots" "length (blk s q) = PBUF_POOL_BUFSIZE_ALIGNED"
      using prems(1) Cons by (auto simp: pool_ok_def)
    have qas: "q \<notin> set as" using exclusive_heap [OF prems(2)] qh by force
    have rq: "r \<in> set as" "r \<noteq> q" using prems(4,5) qas by auto
    have ib: "in_block s q b" using un qb by (simp add: in_block_def b_def l_def)
    have ok2: "pool_ok slots s2" unfolding s2_def
      by (rule pool_ok_link) (use prems(1) Cons rq in \<open>simp_all add: b_def\<close>)
    have ex2: "exclusive s2 p (as @ [q])"
      unfolding s2_def \<open>last as = r\<close> [symmetric]
      by (rule exclusive_link) (use prems qh ib in \<open>simp_all add: b_def\<close>)
    have tl2: "tot_lens s2 (Suc m - l) (as @ [q])" unfolding s2_def
      using prems(3) qas ib un by (intro link_tot_lens) (simp_all add: b_def in_block_def del: of_nat_Suc)
    have cd2: "length (chain_data s2 (as @ [q])) = length (chain_data s as) + l"
    proof -
      have "length (buf_data s2 q) = unat (p_len b)"
        using ib by (intro buf_data_length) (simp_all add: s2_def in_block_def)
      then show ?thesis using link_chain_data [OF qas, of r b "set_pool qs s"] un
        by (simp add: s2_def b_def)
    qed
    obtain br where br: "heap s r = Some br" using exclusive_heap [OF prems(2) rq(1)] by blast
    have u: "upd r (\<lambda>x. x\<lparr>p_next := Some q\<rparr>) (s\<lparr>pool := qs, heap := (heap s)(q \<mapsto> b)\<rparr>) = Some s2"
      using rq br by (auto simp: upd_def s2_def link_def set_pool_def fun_eq_iff)
    have run: "alloc_tail (Suc fuel) p r (Suc m) s = alloc_tail fuel p q (Suc m - l) s2"
      using u by (simp add: Let_def memp_malloc_pool_def Cons l_def [symmetric] b_def [symmetric] del: of_nat_Suc)
    have h2: "heap s2 x = heap s x" if "x \<noteq> q" "x \<notin> set as" for x
    proof -
      from that rq have "x \<noteq> r" by auto
      with that show ?thesis by (simp add: s2_def link_others)
    qed
    have pl: "pool s2 = qs" by (simp add: s2_def)
    have side: "as @ [q] \<noteq> []" "last (as @ [q]) = q" "set (as @ [q]) \<subseteq> slots"
      "Suc m - l \<le> fuel" "Suc m - l < 65536" using prems(6-8) un qb by auto
    from Suc.IH [OF ok2 ex2 tl2 side] obtain q' s' where IH: "alloc_tail fuel p q (Suc m - l) s2 = Some (q', s')"
      "pool_ok slots s'"
      "case q' of
        None \<Rightarrow> heap s' = (\<lambda>x. if x \<in> set (as @ [q]) then None else heap s2 x)
      | Some p' \<Rightarrow> p' = p \<and> (\<exists>bs. owned s' p ((as @ [q]) @ bs) \<and> set bs \<subseteq> set (pool s2)
           \<and> (\<forall>x. x \<notin> set ((as @ [q]) @ bs) \<longrightarrow> heap s' x = heap s2 x)
           \<and> length (chain_data s' ((as @ [q]) @ bs)) = length (chain_data s2 (as @ [q])) + (Suc m - l))"
      by blast
    show ?thesis unfolding Suc run IH(1)
    proof (intro exI conjI)
      show "case q' of None \<Rightarrow> heap s' = (\<lambda>x. if x \<in> set as then None else heap s x)
        | Some p' \<Rightarrow> p' = p \<and> (\<exists>bs. owned s' p (as @ bs) \<and> set bs \<subseteq> set (pool s)
           \<and> (\<forall>x. x \<notin> set (as @ bs) \<longrightarrow> heap s' x = heap s x)
           \<and> length (chain_data s' (as @ bs)) = length (chain_data s as) + Suc m)"
      proof (cases q')
        case None
        then show ?thesis using IH(3) h2 qh by (auto simp: fun_eq_iff)
      next
        case (Some p')
        with IH(3) obtain bs where "p' = p" "owned s' p (as @ q # bs)" "set bs \<subseteq> set qs"
          "\<forall>x. x \<notin> set (as @ q # bs) \<longrightarrow> heap s' x = heap s2 x"
          "length (chain_data s' (as @ q # bs)) = length (chain_data s2 (as @ [q])) + (Suc m - l)"
          by (auto simp: pl)
        then show ?thesis using Some cd2 un h2 Cons by (auto intro!: exI [of _ "q # bs"])
      qed
    qed (use IH in simp_all)
  qed
  qed
qed

text \<open>
  The first buffer of a pool chain, then the tail: \<open>pbuf_alloc\<close> hands out a chain of exactly
  the requested size that the caller owns alone, or fails and leaves every buffer as it was.
\<close>

lemma pool_ok_first:
  assumes "pool_ok slots s" "pool s = q # qs" "p_type b = PBUF_POOL"
  shows "pool_ok slots (set_pool qs s\<lparr>heap := (heap s)(q \<mapsto> b)\<rparr>)"
proof -
  have t: "of_type (set_pool qs s\<lparr>heap := (heap s)(q \<mapsto> b)\<rparr>) {PBUF_POOL} x \<longleftrightarrow> x = q \<or> of_type s {PBUF_POOL} x" for x
    using assms(3) by (auto simp: of_type_def)
  have "set qs \<union> {a. a = q \<or> of_type s {PBUF_POOL} a} = slots"
    using assms(1,2) by (auto simp: pool_ok_def)
  then show ?thesis using assms(1,2) unfolding pool_ok_def t by auto
qed

lemma layer_offset_bound: "LWIP_MEM_ALIGN_SIZE (layer_offset layer) \<le> 56"
  by (cases layer) (simp_all add: layer_offset_def LWIP_MEM_ALIGN_SIZE_def PBUF_LINK_HLEN_def
      PBUF_IP_HLEN_def PBUF_TRANSPORT_HLEN_def)

lemma pbuf_alloc_pool_spec:
  assumes "pool_ok slots s"
  shows "\<exists>q s'. pbuf_alloc layer n PBUF_POOL s = Some (q, s') \<and> pool_ok slots s' \<and>
     (case q of
        None \<Rightarrow> heap s' = heap s
      | Some p \<Rightarrow> \<exists>as. owned s' p as \<and> set as \<subseteq> set (pool s) \<and> length (chain_data s' as) = unat n
           \<and> (\<forall>x. x \<notin> set as \<longrightarrow> heap s' x = heap s x))"
proof (cases "pool s")
  case Nil
  then show ?thesis using assms
    by (simp add: pbuf_alloc_def Let_def memp_malloc_pool_def) (simp add: pbuf_pool_is_empty_def)
next
  case (Cons q qs)
  define o1 where "o1 = LWIP_MEM_ALIGN_SIZE (layer_offset layer)"
  define l where "l = min (unat n) (PBUF_POOL_BUFSIZE_ALIGNED - o1)"
  define b where "b = \<lparr>p_next = None, p_payload = o1, p_tot_len = n, p_len = of_nat l,
      p_type = PBUF_POOL, p_flags = 0, p_ref = 1\<rparr>"
  define s1 where "s1 = set_pool qs s\<lparr>heap := (heap s)(q \<mapsto> b)\<rparr>"
  have o1: "o1 \<le> 56" unfolding o1_def by (rule layer_offset_bound)
  have n: "unat n < 65536" by (rule u16_bound)
  have un: "unat (of_nat l :: u16) = l" "l \<le> unat n" using n by (simp_all add: unat16_of_nat l_def)
  have h1: "heap s1 q = Some b" and ib: "in_block s1 q b"
    and old: "heap s q = None" "q \<in> slots"
    using assms Cons un o1 by (auto simp: s1_def in_block_def pool_ok_def b_def l_def PBUF_POOL_BUFSIZE_ALIGNED_def)
  have ok1: "pool_ok slots s1" unfolding s1_def
    by (rule pool_ok_first [OF assms Cons]) (simp add: b_def)
  have ex1: "exclusive s1 q [q]"
    using h1 ib by (simp add: exclusive_def ref_one_def not_custom_def b_def)
  have cd: "length (chain_data s1 [q]) = l" using buf_data_length [OF h1 ib] un by (simp add: b_def)
  have tl1: "tot_lens s1 (unat n - l) [q]" using h1 cd un by (simp add: b_def)
  have run: "pbuf_alloc layer n PBUF_POOL s = alloc_tail chain_fuel q q (unat n - l) s1"
    by (simp add: pbuf_alloc_def Let_def memp_malloc_pool_def Cons o1_def [symmetric] l_def [symmetric]
        b_def [symmetric] s1_def set_pool_def)
  have pl: "pool s1 = qs" by (simp add: s1_def)
  have "\<exists>q' s'. alloc_tail chain_fuel q q (unat n - l) s1 = Some (q', s') \<and> pool_ok slots s' \<and>
     (case q' of
        None \<Rightarrow> heap s' = (\<lambda>x. if x \<in> set [q] then None else heap s1 x)
      | Some p' \<Rightarrow> p' = q \<and> (\<exists>bs. owned s' q ([q] @ bs) \<and> set bs \<subseteq> set (pool s1)
           \<and> (\<forall>x. x \<notin> set ([q] @ bs) \<longrightarrow> heap s' x = heap s1 x)
           \<and> length (chain_data s' ([q] @ bs)) = length (chain_data s1 [q]) + (unat n - l)))"
    by (rule alloc_tail_spec [OF ok1 ex1 tl1]) (use old n in \<open>simp_all add: chain_fuel_def\<close>)
  then obtain q' s' where s': "alloc_tail chain_fuel q q (unat n - l) s1 = Some (q', s')" "pool_ok slots s'"
     "case q' of
        None \<Rightarrow> heap s' = (\<lambda>x. if x \<in> set [q] then None else heap s1 x)
      | Some p' \<Rightarrow> p' = q \<and> (\<exists>bs. owned s' q ([q] @ bs) \<and> set bs \<subseteq> set (pool s1)
           \<and> (\<forall>x. x \<notin> set ([q] @ bs) \<longrightarrow> heap s' x = heap s1 x)
           \<and> length (chain_data s' ([q] @ bs)) = length (chain_data s1 [q]) + (unat n - l))"
    by blast
  have h1o: "heap s1 x = heap s x" if "x \<noteq> q" for x using that by (simp add: s1_def)
  show ?thesis
  proof (cases q')
    case None
    then have "heap s' = heap s" using s'(3) old h1o by (auto simp: fun_eq_iff)
    then show ?thesis using s' run None by simp
  next
    case (Some p')
    with s'(3) obtain bs where "p' = q" "owned s' q (q # bs)" "set bs \<subseteq> set qs"
      "\<forall>x. x \<notin> set (q # bs) \<longrightarrow> heap s' x = heap s1 x" "length (chain_data s' (q # bs)) = unat n"
      by (auto simp: cd un pl simp del: chain_data_simps)
    then show ?thesis using s'(1,2) run Some Cons h1o
      by (simp del: chain_data_simps) (rule exI [of _ "q # bs"], auto)
  qed
qed

section \<open>Writing a chain\<close>


lemma payload_write_in_block:
  assumes "heap s a = Some b" "in_block s a b" "length d \<le> unat (p_len b)"
  shows "\<exists>s'. payload_write a 0 d s = Some s' \<and> heap s' = heap s \<and> pool s' = pool s \<and> ref_pool s' = ref_pool s
     \<and> (\<forall>x. x \<noteq> a \<longrightarrow> blk s' x = blk s x) \<and> (\<forall>x. length (blk s' x) = length (blk s x))
     \<and> buf_data s' a = d @ drop (length d) (buf_data s a)"
proof -
  have w: "payload_write a 0 d s = Some (s\<lparr>blk := (blk s)(a := take (p_payload b) (blk s a) @ d
      @ drop (p_payload b + length d) (blk s a))\<rparr>)"
    using assms by (simp add: payload_write_def in_block_def wr_at_def)
  have "take (unat (p_len b)) (drop (p_payload b) (take (p_payload b) (blk s a) @ d
      @ drop (p_payload b + length d) (blk s a)))
      = d @ drop (length d) (take (unat (p_len b)) (drop (p_payload b) (blk s a)))"
    using assms by (simp add: in_block_def min_def drop_take add.commute)
  then show ?thesis using assms unfolding w
    by (auto simp: buf_data_def in_block_def min_def)
qed

lemma take_loop_chain:
  assumes "pchain s p as" "distinct as" "length d \<le> length (chain_data s as)" "length as \<le> fuel"
  shows "\<exists>s'. take_loop fuel p d s = Some s' \<and> heap s' = heap s \<and> pool s' = pool s \<and> ref_pool s' = ref_pool s
     \<and> (\<forall>x. x \<notin> set as \<longrightarrow> blk s' x = blk s x) \<and> (\<forall>x. length (blk s' x) = length (blk s x))
     \<and> chain_data s' as = d @ drop (length d) (chain_data s as)"
  using assms
proof (induction as arbitrary: fuel p d s)
  case Nil
  then show ?case by simp
next
  case (Cons a as)
  show ?case
  proof (cases d)
    case Nil
    then show ?thesis by simp
  next
    case d: (Cons y ys)
    from Cons.prems obtain f b where b: "fuel = Suc f" "p = Some a" "heap s a = Some b" "in_block s a b"
      "pchain s (p_next b) as" "length as \<le> f" "a \<notin> set as" "distinct as"
      by (cases fuel) (auto split: option.splits)
    define l where "l = min (length d) (unat (p_len b))"
    have len: "length (buf_data s a) = unat (p_len b)" using b by (intro buf_data_length)
    have "length (take l d) \<le> unat (p_len b)" by (simp add: l_def)
    from payload_write_in_block [OF b(3,4) this] obtain s1 where s1: "payload_write a 0 (take l d) s = Some s1"
      "heap s1 = heap s" "pool s1 = pool s" "ref_pool s1 = ref_pool s" "\<forall>x. x \<noteq> a \<longrightarrow> blk s1 x = blk s x"
      "\<forall>x. length (blk s1 x) = length (blk s x)" "buf_data s1 a = take l d @ drop (length (take l d)) (buf_data s a)"
      by blast
    have ch: "pchain s1 (p_next b) as" and cd: "chain_data s1 as = chain_data s as"
      using b s1 pchain_upd [of as s1 s] chain_data_upd [of as s1 s] by force+
    have "length (drop l d) \<le> length (chain_data s1 as)"
      using Cons.prems(3) len cd by (auto simp: l_def)
    from Cons.IH [OF ch b(8) this b(6)] obtain s2 where s2: "take_loop f (p_next b) (drop l d) s1 = Some s2"
      "heap s2 = heap s1" "pool s2 = pool s1" "ref_pool s2 = ref_pool s1" "\<forall>x. x \<notin> set as \<longrightarrow> blk s2 x = blk s1 x"
      "\<forall>x. length (blk s2 x) = length (blk s1 x)"
      "chain_data s2 as = drop l d @ drop (length (drop l d)) (chain_data s1 as)" by blast
    have bd: "buf_data s2 a = buf_data s1 a" using s2 b by (simp add: buf_data_def split: option.split)
    have "take_loop fuel p d s = Some s2"
      using b s1 s2 d by (simp add: l_def)
    moreover have "chain_data s2 (a # as) = d @ drop (length d) (chain_data s (a # as))"
      using s1(7) s2(7) len by (auto simp: bd cd l_def min_def)
    ultimately show ?thesis using s1 s2 by simp
  qed
qed

lemma pbuf_take_chain:
  assumes "pchain s (Some p) as" "distinct as" "length as \<le> chain_fuel" "tot_lens s 0 as"
  shows "\<exists>e s'. pbuf_take (Some p) d s = Some (e, s') \<and> heap s' = heap s \<and> pool s' = pool s
     \<and> (if length d \<le> length (chain_data s as) then e = ERR_OK \<and> chain_data s' as = d @ drop (length d) (chain_data s as)
        else e = ERR_ARG \<and> s' = s)"
proof -
  from assms(1) obtain b as' where b: "as = p # as'" "heap s p = Some b" by auto
  with assms(4) have "unat (p_tot_len b) = length (chain_data s as)" by simp
  with b show ?thesis using take_loop_chain [OF assms(1,2) _ assms(3), of d] by (auto simp: pbuf_take_def)
qed

section \<open>Headers\<close>

text \<open>A header that was made visible can be hidden again, and the buffer is as before.\<close>

lemma pbuf_header_ok:
  assumes "heap s a = Some b" "p_type b = PBUF_RAM \<or> p_type b = PBUF_POOL" "0 < n" "n \<le> p_payload b"
    and "unat (p_len b) + n < 65536" "unat (p_tot_len b) + n < 65536"
  shows "\<exists>b'. pbuf_header (Some a) (int n) s = Some (0, s\<lparr>heap := (heap s)(a \<mapsto> b')\<rparr>)
     \<and> p_payload b' = p_payload b - n \<and> unat (p_len b') = unat (p_len b) + n
     \<and> unat (p_tot_len b') = unat (p_tot_len b) + n
     \<and> p_next b' = p_next b \<and> p_ref b' = p_ref b \<and> p_flags b' = p_flags b \<and> p_type b' = p_type b
     \<and> pbuf_header (Some a) (- int n) (s\<lparr>heap := (heap s)(a \<mapsto> b')\<rparr>) = Some (0, s\<lparr>heap := (heap s)(a \<mapsto> b)\<rparr>)"
proof -
  define b' where "b' = b\<lparr>p_payload := nat (int (p_payload b) - int n),
                     p_len := p_len b + of_int (int n), p_tot_len := p_tot_len b + of_int (int n)\<rparr>"
  have n: "unat (of_nat n :: u16) = n" using assms by (simp add: unat16_of_nat)
  have l: "unat (p_len b') = unat (p_len b) + n" "unat (p_tot_len b') = unat (p_tot_len b) + n"
    using assms n by (simp_all add: b'_def unat_word_ariths)
  have p: "p_payload b' = p_payload b - n" "p_type b' = p_type b" using assms(4) by (simp_all add: b'_def nat_diff_distrib)
  have u: "pbuf_header (Some a) (int n) s = Some (0, s\<lparr>heap := (heap s)(a \<mapsto> b')\<rparr>)"
    using assms by (auto simp: pbuf_header_def b'_def)
  have "int (unat (p_len b')) = int (unat (p_len b)) + int n" using l by simp
  then have ui: "uint (p_len b') = uint (p_len b) + int n" by simp
  have restored: "b'\<lparr>p_payload := nat (int (p_payload b') - (- int n)),
      p_len := p_len b' + of_int (- int n), p_tot_len := p_tot_len b' + of_int (- int n)\<rparr> = b"
    using assms(4) by (simp add: b'_def)
  have "pbuf_header (Some a) (- int n) (s\<lparr>heap := (heap s)(a \<mapsto> b')\<rparr>) = Some (0, s\<lparr>heap := (heap s)(a \<mapsto> b)\<rparr>)"
    using assms l(2) p restored ui by (auto simp: pbuf_header_def Let_def)
  moreover have "p_next b' = p_next b" "p_ref b' = p_ref b" "p_flags b' = p_flags b" by (simp_all add: b'_def)
  ultimately show ?thesis using u p l by blast
qed

section \<open>Editing the first buffer of a chain\<close>

text \<open>\<open>hd_edit m m' p\<close>: only the data, the length fields and the payload pointer of \<open>p\<close> changed.\<close>

definition hd_edit :: "pbuf_mem \<Rightarrow> pbuf_mem \<Rightarrow> nat \<Rightarrow> bool" where
  "hd_edit m m' p \<longleftrightarrow> pool m' = pool m \<and> ref_pool m' = ref_pool m \<and> mem_malloc m' = mem_malloc m
     \<and> (\<forall>a. a \<noteq> p \<longrightarrow> heap m' a = heap m a \<and> blk m' a = blk m a) \<and> length (blk m' p) = length (blk m p)
     \<and> (case (heap m p, heap m' p) of
          (Some b, Some b') \<Rightarrow> p_next b' = p_next b \<and> p_ref b' = p_ref b \<and> p_flags b' = p_flags b \<and> p_type b' = p_type b
        | _ \<Rightarrow> heap m' p = heap m p)"

lemma hd_edit_refl [simp]: "hd_edit m m p"
  by (simp add: hd_edit_def split: option.split)

lemma hd_edit_trans: "hd_edit m m1 p \<Longrightarrow> hd_edit m1 m2 p \<Longrightarrow> hd_edit m m2 p"
  by (auto simp: hd_edit_def split: option.splits)

lemma hd_edit_fields:
  assumes "hd_edit m m' p"
  shows "of_type m' T x = of_type m T x" "ref_one m' x = ref_one m x" "not_custom m' x = not_custom m x"
    "length (blk m' x) = length (blk m x)" "heap m' x = None \<longleftrightarrow> heap m x = None"
  using assms
  by (cases "x = p"; auto simp: hd_edit_def of_type_def ref_one_def not_custom_def split: option.splits)+

lemma hd_edit_pool_ok: "hd_edit m m' p \<Longrightarrow> pool_ok slots m' = pool_ok slots m"
  using hd_edit_fields [of m m' p]
  by (simp add: pool_ok_def hd_edit_def)

lemma hd_edit_rest:
  assumes "hd_edit m m' p" "p \<notin> set as"
  shows "pchain m' q as = pchain m q as" "chain_data m' as = chain_data m as" "tot_lens m' k as = tot_lens m k as"
proof -
  have h: "heap m' a = heap m a" "blk m' a = blk m a" if "a \<in> set as" for a
    using that assms by (auto simp: hd_edit_def)
  show "pchain m' q as = pchain m q as" "chain_data m' as = chain_data m as"
    by (rule pchain_upd chain_data_upd; use h in simp)+
  show "tot_lens m' k as = tot_lens m k as" using h
    by (induction as) (auto simp: buf_data_def chain_data_upd [of _ m' m] split: option.split)
qed

lemma hd_edit_owned:
  assumes "hd_edit m m' p" "owned m p (p # rest)" "heap m' p = Some b'" "in_block m' p b'"
    and "unat (p_tot_len b') = unat (p_len b') + length (chain_data m rest)"
  shows "owned m' p (p # rest)"
proof -
  from assms(2) obtain b where b: "heap m p = Some b" "in_block m p b" "pchain m (p_next b) rest" "p \<notin> set rest"
    "tot_lens m 0 rest" by (auto simp: owned_def exclusive_def split: option.splits)
  have "p_next b' = p_next b" using assms(1,3) b(1) by (simp add: hd_edit_def)
  with assms b hd_edit_fields [OF assms(1)] hd_edit_rest [OF assms(1) b(4)] show ?thesis
    by (auto simp: owned_def exclusive_def buf_data_length)
qed

lemma pbuf_header_chain:
  assumes "owned m p (p # rest)" "heap m p = Some b" "p_type b = PBUF_RAM \<or> p_type b = PBUF_POOL"
    and "0 < n" "n \<le> p_payload b" "unat (p_tot_len b) + n < 65536"
  shows "\<exists>m' b' h. pbuf_header (Some p) (int n) m = Some (0, m') \<and> hd_edit m m' p \<and> owned m' p (p # rest)
     \<and> heap m' p = Some b' \<and> p_payload b' = p_payload b - n \<and> unat (p_len b') = unat (p_len b) + n
     \<and> unat (p_tot_len b') = unat (p_tot_len b) + n \<and> p_type b' = p_type b
     \<and> length h = n \<and> chain_data m' (p # rest) = h @ chain_data m (p # rest)"
proof -
  from assms(1,2) have m: "in_block m p b" "p \<notin> set rest"
    "unat (p_tot_len b) = length (buf_data m p) + length (chain_data m rest)"
    by (auto simp: owned_def exclusive_def)
  have len: "length (buf_data m p) = unat (p_len b)" using assms(2) m(1) by (rule buf_data_length)
  then have le: "unat (p_len b) + n < 65536" using m assms(6) by simp
  from pbuf_header_ok [OF assms(2,3,4,5) le assms(6)] obtain b' where
    b': "pbuf_header (Some p) (int n) m = Some (0, m\<lparr>heap := (heap m)(p \<mapsto> b')\<rparr>)"
      "p_payload b' = p_payload b - n" "unat (p_len b') = unat (p_len b) + n"
      "unat (p_tot_len b') = unat (p_tot_len b) + n"
    and f: "p_next b' = p_next b" "p_ref b' = p_ref b" "p_flags b' = p_flags b" "p_type b' = p_type b"
    by blast
  let ?m = "m\<lparr>heap := (heap m)(p \<mapsto> b')\<rparr>"
  have ed: "hd_edit m ?m p" using assms(2) f by (simp add: hd_edit_def)
  have ib: "in_block ?m p b'" using m(1) b' assms(5) by (simp add: in_block_def)
  have ow: "owned ?m p (p # rest)"
    by (rule hd_edit_owned [OF ed assms(1) _ ib]) (use m(3) len b' in simp_all)
  have "take (n + unat (p_len b)) (drop (p_payload b - n) (blk m p))
      = take n (drop (p_payload b - n) (blk m p)) @ take (unat (p_len b)) (drop (p_payload b) (blk m p))"
    unfolding take_add using assms(5) by simp
  then have "buf_data ?m p = take n (drop (p_payload b - n) (blk m p)) @ buf_data m p"
    using assms(2) b' by (simp add: buf_data_def add.commute)
  then have "chain_data ?m (p # rest) = take n (drop (p_payload b - n) (blk m p)) @ chain_data m (p # rest)"
    using hd_edit_rest(2) [OF ed m(2)] by simp
  moreover have "length (take n (drop (p_payload b - n) (blk m p))) = n"
    using m(1) assms(5) by (simp add: in_block_def)
  ultimately show ?thesis using b' f ed ow by (intro exI [of _ ?m] exI [of _ b']) auto
qed

lemma payload_write_chain:
  assumes "owned m p (p # rest)" "heap m p = Some b" "off + length d \<le> unat (p_len b)"
  shows "\<exists>m'. payload_write p off d m = Some m' \<and> hd_edit m m' p \<and> owned m' p (p # rest) \<and> heap m' = heap m
     \<and> chain_data m' (p # rest) = take off (chain_data m (p # rest)) @ d @ drop (off + length d) (chain_data m (p # rest))"
proof -
  from assms(1,2) have m: "in_block m p b" "p \<notin> set rest"
    "unat (p_tot_len b) = length (buf_data m p) + length (chain_data m rest)"
    by (auto simp: owned_def exclusive_def)
  have len: "length (buf_data m p) = unat (p_len b)" using assms(2) m(1) by (rule buf_data_length)
  define x where "x = take (p_payload b + off) (blk m p) @ d @ drop (p_payload b + off + length d) (blk m p)"
  let ?m = "m\<lparr>blk := (blk m)(p := x)\<rparr>"
  have w: "payload_write p off d m = Some ?m"
    using assms(2,3) m(1) by (simp add: payload_write_def in_block_def wr_at_def x_def)
  have lx: "length x = length (blk m p)" using assms(3) m(1) by (simp add: x_def in_block_def)
  have ed: "hd_edit m ?m p" using assms(2) lx by (simp add: hd_edit_def)
  have ib: "in_block ?m p b" using m(1) lx by (simp add: in_block_def)
  have ow: "owned ?m p (p # rest)"
    by (rule hd_edit_owned [OF ed assms(1) _ ib]) (use m(3) len assms(2) in simp_all)
  have bd: "buf_data ?m p = take off (buf_data m p) @ d @ drop (off + length d) (buf_data m p)"
    using assms(2,3) m(1)
      take_drop_splice [of "p_payload b" "unat (p_len b)" "blk m p" off d]
    by (simp add: buf_data_def in_block_def x_def)
  have "chain_data ?m (p # rest) = buf_data ?m p @ chain_data m rest"
    using hd_edit_rest(2) [OF ed m(2)] by simp
  then have "chain_data ?m (p # rest) = take off (chain_data m (p # rest)) @ d @ drop (off + length d) (chain_data m (p # rest))"
    using assms(3) len by (simp add: bd)
  with w ed ow show ?thesis by (intro exI [of _ ?m]) simp
qed

section \<open>Packets of one buffer\<close>

text \<open>The allocation of a packet that fits the first buffer, exactly.\<close>

lemma pbuf_alloc_single:
  assumes "pool_ok slots m" "pool m = q # qs" "unat n \<le> 1460"
  shows "\<exists>b m'. pbuf_alloc PBUF_TRANSPORT n PBUF_POOL m = Some (Some q, m') \<and> heap m' = (heap m)(q \<mapsto> b)
     \<and> blk m' = blk m \<and> pool m' = qs \<and> ref_pool m' = ref_pool m \<and> mem_malloc m' = mem_malloc m
     \<and> p_payload b = 56 \<and> p_len b = n \<and> p_tot_len b = n \<and> p_type b = PBUF_POOL \<and> p_next b = None
     \<and> p_ref b = 1 \<and> p_flags b = 0 \<and> owned m' q [q] \<and> length (chain_data m' [q]) = unat n"
proof -
  define b where "b = \<lparr>p_next = None, p_payload = 56, p_tot_len = n, p_len = n, p_type = PBUF_POOL, p_flags = 0, p_ref = 1\<rparr>"
  define m' where "m' = m\<lparr>pool := qs, heap := (heap m)(q \<mapsto> b)\<rparr>"
  have o1: "LWIP_MEM_ALIGN_SIZE (layer_offset PBUF_TRANSPORT) = 56"
    by (simp add: layer_offset_def LWIP_MEM_ALIGN_SIZE_def PBUF_LINK_HLEN_def PBUF_IP_HLEN_def PBUF_TRANSPORT_HLEN_def)
  have len: "length (blk m q) = 1516"
    using assms(1,2) by (auto simp: pool_ok_def PBUF_POOL_BUFSIZE_ALIGNED_def)
  have mi: "min (unat n) (PBUF_POOL_BUFSIZE_ALIGNED - 56) = unat n"
    using assms(3) by (simp add: PBUF_POOL_BUFSIZE_ALIGNED_def)
  have "pbuf_alloc PBUF_TRANSPORT n PBUF_POOL m = Some (Some q, m')"
    by (simp add: pbuf_alloc_def Let_def memp_malloc_pool_def assms(2) o1 mi m'_def b_def chain_fuel_def)
  moreover have "in_block m' q b" using assms(3) len by (simp add: in_block_def m'_def b_def)
  moreover from this have "length (buf_data m' q) = unat n"
    by (subst buf_data_length [of m' q b]) (simp_all add: m'_def b_def)
  ultimately show ?thesis
    by (intro exI [of _ b] exI [of _ m'])
      (simp add: owned_def exclusive_def ref_one_def not_custom_def, simp add: m'_def b_def in_block_def)
qed

lemma pbuf_alloc_empty:
  assumes "pool m = []"
  shows "pbuf_alloc layer n PBUF_POOL m = Some (None, m\<lparr>pbuf_free_ooseq_pending := True\<rparr>)"
  by (simp add: pbuf_alloc_def Let_def memp_malloc_pool_def assms pbuf_pool_is_empty_def)

lemma pool_ok_same:
  assumes "pool_ok slots m" "heap m' = heap m" "pool m' = pool m" "\<forall>a. length (blk m' a) = length (blk m a)"
  shows "pool_ok slots m'"
proof -
  have "of_type m' T x = of_type m T x" for T x by (simp add: of_type_def assms(2))
  then show ?thesis using assms by (simp add: pool_ok_def)
qed

lemma exclusive_same:
  assumes "heap m' = heap m" "\<forall>a. length (blk m' a) = length (blk m a)"
  shows "exclusive m' p as = exclusive m p as"
proof -
  have "pchain m' q as = pchain m q as" for q
    using assms by (induction as arbitrary: q) (simp_all add: in_block_def split: option.split)
  then show ?thesis using assms(1) by (simp add: exclusive_def ref_one_def not_custom_def)
qed


section \<open>The pools at start, and examples\<close>

text \<open>\<open>memp_init\<close> threads the slots of each pool onto its free list, the last one first.\<close>

definition memp_init :: "pbuf_mem \<Rightarrow> pbuf_mem" where
  "memp_init s = s\<lparr>heap := Map.empty, pool := rev [0..<PBUF_POOL_SIZE], ref_pool := rev [PBUF_POOL_SIZE..<PBUF_POOL_SIZE + 16]\<rparr>"

definition zeroed :: pbuf_mem where
  "zeroed = \<lparr>heap = Map.empty, blk = (\<lambda>a. replicate PBUF_POOL_BUFSIZE_ALIGNED 0), pool = [], ref_pool = [],
     pbuf_free_ooseq_pending = False, mem_malloc = (\<lambda>n h. None)\<rparr>"

lemma pool_ok_init: "pool_ok {0..<16} (memp_init zeroed)"
  by (auto simp: pool_ok_def memp_init_def zeroed_def PBUF_POOL_SIZE_def of_type_def)

section \<open>Properties\<close>

text \<open>
  C1: Allocating from the pool is all or nothing. It never faults; when it fails every buffer is
  as before, when it succeeds the caller alone owns a chain of free slots that holds exactly the
  requested number of bytes, its \<open>tot_len\<close> fields add up, and no other buffer is touched.
\<close>

theorem pbuf_alloc_all_or_nothing:
  assumes "pool_ok slots s"
  shows "\<exists>q s'. pbuf_alloc layer n PBUF_POOL s = Some (q, s') \<and> pool_ok slots s' \<and>
     (case q of
        None \<Rightarrow> heap s' = heap s
      | Some p \<Rightarrow> \<exists>as. owned s' p as \<and> set as \<subseteq> set (pool s) \<and> length (chain_data s' as) = unat n
           \<and> (\<forall>x. x \<notin> set as \<longrightarrow> heap s' x = heap s x))"
  using assms by (rule pbuf_alloc_pool_spec)

theorem pbuf_alloc_all_or_nothing_witness:
  "\<exists>q s'. pbuf_alloc PBUF_RAW 3000 PBUF_POOL (memp_init zeroed) = Some (q, s') \<and> pool_ok {0..<16} s'"
  using pbuf_alloc_all_or_nothing [OF pool_ok_init, of PBUF_RAW 3000] by blast

text \<open>
  Freeing what was allocated from the pool undoes the allocation: the same buffers exist and
  the same slots are free.
\<close>

theorem pbuf_alloc_free_roundtrip:
  assumes "pool_ok slots s" and "pbuf_alloc layer n PBUF_POOL s = Some (Some p, s')"
  shows "\<exists>k s''. pbuf_free (Some p) s' = Some (k, s'') \<and> heap s'' = heap s \<and> set (pool s'') = set (pool s)
     \<and> pool_ok slots s''"
proof -
  from pbuf_alloc_pool_spec [OF assms(1), of layer n] assms(2) obtain as where
    as: "pool_ok slots s'" "owned s' p as" "set as \<subseteq> set (pool s)" "\<forall>x. x \<notin> set as \<longrightarrow> heap s' x = heap s x" by auto
  have ex: "exclusive s' p as" using as(2) by (simp add: owned_def)
  have sl: "set as \<subseteq> slots" using as(3) assms(1) by (auto simp: pool_ok_def)
  note le = exclusive_length [OF as(1) ex sl]
  from pbuf_free_exclusive [OF ex le] obtain k s'' where f: "pbuf_free (Some p) s' = Some (k, s'')"
    "heap s'' = (\<lambda>x. if x \<in> set as then None else heap s' x)" by blast
  have h: "heap s'' = heap s"
    using f(2) as(3,4) assms(1) by (auto simp: fun_eq_iff pool_ok_def)
  have ok: "pool_ok slots s''" by (rule pool_ok_free [OF as(1) ex le f(1)])
  have fr: "set (pool m) = slots - {a. of_type m {PBUF_POOL} a}" if "pool_ok slots m" for m
    using that by (auto simp: pool_ok_def of_type_def)
  have "of_type s'' T x = of_type s T x" for T x by (simp add: of_type_def h)
  then have "set (pool s'') = set (pool s)" using fr [OF ok] fr [OF assms(1)] by simp
  with f(1) h ok show ?thesis by blast
qed

theorem pbuf_alloc_free_roundtrip_witness:
  "\<exists>p s' k s''. pbuf_alloc PBUF_TRANSPORT 1 PBUF_POOL (memp_init zeroed) = Some (Some p, s')
     \<and> pbuf_free (Some p) s' = Some (k, s'') \<and> heap s'' = heap (memp_init zeroed)"
proof -
  have "pool (memp_init zeroed) = 15 # rev [0..<15]" using upt_Suc_append [of 0 15] by (simp add: memp_init_def PBUF_POOL_SIZE_def)
  from pbuf_alloc_single [OF pool_ok_init this, of 1] obtain s' where
    a: "pbuf_alloc PBUF_TRANSPORT 1 PBUF_POOL (memp_init zeroed) = Some (Some 15, s')" by auto
  with pbuf_alloc_free_roundtrip [OF pool_ok_init a] show ?thesis by blast
qed

text \<open>
  Bytes stored in a chain with \<open>pbuf_take\<close> are the bytes \<open>pbuf_copy_partial\<close> reads back,
  however the chain is split; a chain that is too short is reported and left alone.
\<close>

theorem pbuf_take_copy_roundtrip:
  assumes "owned s p as" and "length as \<le> chain_fuel"
  shows "\<exists>e s'. pbuf_take (Some p) d s = Some (e, s') \<and>
     (if length d \<le> length (chain_data s as)
      then e = ERR_OK \<and> pbuf_copy_partial (Some p) (of_nat (length d)) 0 s' = Some d
      else e = ERR_ARG \<and> s' = s)"
proof -
  have a: "pchain s (Some p) as" "distinct as" "tot_lens s 0 as" using assms(1) by (simp_all add: owned_def exclusive_def)
  from pbuf_take_chain [OF a(1,2) assms(2) a(3), of d] obtain e s' where t: "pbuf_take (Some p) d s = Some (e, s')"
    "if length d \<le> length (chain_data s as) then e = ERR_OK \<and> chain_data s' as = d @ drop (length d) (chain_data s as)
     else e = ERR_ARG \<and> s' = s" by blast
  show ?thesis
  proof (cases "length d \<le> length (chain_data s as)")
    case True
    from a(1) obtain b as' where b: "as = p # as'" "heap s p = Some b" by auto
    then have "length (chain_data s as) < 65536" using a(3) u16_bound [of "p_tot_len b"] by simp
    then have un: "unat (of_nat (length d) :: u16) = length d" using True by (intro unat16_of_nat) simp
    from take_loop_chain [OF a(1,2) True assms(2)] obtain s2 where s2: "take_loop chain_fuel (Some p) d s = Some s2"
      "heap s2 = heap s" "\<forall>x. length (blk s2 x) = length (blk s x)" "chain_data s2 as = d @ drop (length d) (chain_data s as)"
      by blast
    have "s' = s2"
    proof -
      have "unat (p_tot_len b) = length (chain_data s as)" using a(3) b by simp
      then show ?thesis using t(1) s2(1) b(2) True by (simp add: pbuf_take_def)
    qed
    moreover have ps: "pchain s2 q xs = pchain s q xs" for q xs
      using s2(2,3) by (induction xs arbitrary: q) (simp_all add: in_block_def split: option.split)
    have "pbuf_copy_partial (Some p) (of_nat (length d)) 0 s2 = Some d"
      using copy_partial_loop_chain [of s2 "Some p" as chain_fuel "length d" 0 "[]"] ps a(1) assms(2) s2(4) un
      by (simp add: pbuf_copy_partial_def)
    ultimately show ?thesis using t True by auto
  next
    case False
    with t show ?thesis by auto
  qed
qed

theorem pbuf_take_copy_roundtrip_witness:
  "\<exists>p s. \<exists>e s'. pbuf_take (Some p) [1, 2, 3] s = Some (e, s') \<and> e = ERR_OK
     \<and> pbuf_copy_partial (Some p) 3 0 s' = Some [1, 2, 3]"
proof -
  let ?b = "\<lparr>p_next = None, p_payload = 0, p_tot_len = 4, p_len = 4, p_type = PBUF_POOL, p_flags = 0, p_ref = 1\<rparr>"
  let ?s = "zeroed\<lparr>heap := [7 \<mapsto> ?b]\<rparr>"
  have o: "owned ?s 7 [7]"
    by (simp add: owned_def exclusive_def in_block_def ref_one_def not_custom_def buf_data_def zeroed_def
        PBUF_POOL_BUFSIZE_ALIGNED_def)
  have l: "length [7::nat] \<le> chain_fuel" "length (chain_data ?s [7]) = 4"
    by (simp_all add: chain_fuel_def buf_data_def zeroed_def PBUF_POOL_BUFSIZE_ALIGNED_def)
  from pbuf_take_copy_roundtrip [OF o l(1), of "[1, 2, 3]"] l(2) show ?thesis by (auto simp: numeral_eq_Suc)
qed

text \<open>
  \<open>pbuf_free\<close> on a chain returns exactly the buffers up to the first one that somebody else
  refers to; that one loses one reference, and the rest of the chain is untouched. Each freed
  buffer goes to the pool of its type, and the result is their number.
\<close>

theorem pbuf_free_shared_chain:
  assumes "pchain s (Some p) as" "distinct as" "\<forall>a \<in> set as. not_custom s a" "length as \<le> chain_fuel"
  shows "\<exists>s'. pbuf_free (Some p) s = Some (of_nat (length (gone s as)), s') \<and> heap s' = heap_after_free s as
     \<and> blk s' = blk s \<and> pool s' = rev (filter (of_type s {PBUF_POOL}) (gone s as)) @ pool s
     \<and> ref_pool s' = rev (filter (of_type s {PBUF_ROM, PBUF_REF}) (gone s as)) @ ref_pool s"
  using pbuf_free_loop_chain [OF assms, of 0] by (auto simp: pbuf_free_def)

theorem pbuf_free_shared_chain_witness:
  "\<exists>s'. pbuf_free (Some 1) (zeroed\<lparr>heap :=
       [1 \<mapsto> \<lparr>p_next = Some 2, p_payload = 0, p_tot_len = 4, p_len = 2, p_type = PBUF_POOL, p_flags = 0, p_ref = 1\<rparr>,
        2 \<mapsto> \<lparr>p_next = None, p_payload = 0, p_tot_len = 2, p_len = 2, p_type = PBUF_POOL, p_flags = 0, p_ref = 2\<rparr>]\<rparr>)
     = Some (1, s') \<and> pool s' = [1]"
proof -
  let ?s = "zeroed\<lparr>heap :=
       [1 \<mapsto> \<lparr>p_next = Some 2, p_payload = 0, p_tot_len = 4, p_len = 2, p_type = PBUF_POOL, p_flags = 0, p_ref = 1\<rparr>,
        2 \<mapsto> \<lparr>p_next = None, p_payload = 0, p_tot_len = 2, p_len = 2, p_type = PBUF_POOL, p_flags = 0, p_ref = 2\<rparr>]\<rparr>"
  have h: "pchain ?s (Some 1) [1, 2]" "distinct [1 :: nat, 2]" "\<forall>a \<in> set [1, 2]. not_custom ?s a"
    "length [1 :: nat, 2] \<le> chain_fuel"
    by (simp_all add: in_block_def zeroed_def PBUF_POOL_BUFSIZE_ALIGNED_def not_custom_def chain_fuel_def)
  have g: "gone ?s [1, 2] = [1]" by (simp add: gone_def ref_one_def)
  from pbuf_free_shared_chain [OF h] show ?thesis unfolding g by (auto simp: of_type_def zeroed_def)
qed

end
