(* ===== verification/Chksum.thy ===== *)
theory Chksum
  imports Pbuf
begin

text \<open>
  The Internet checksum, \<open>src/core/ipv4/inet_chksum.c\<close>: the three versions of
  \<open>lwip_standard_chksum\<close> and the checksums over buffer chains that use the configured one
  (version 2). The lemmas relate each of them to one number, the sum of the little-endian
  16-bit words of the data reduced to the range 0..65535 by end-around carry (\<open>norm16\<close>).
\<close>

section \<open>The code\<close>

definition FOLD_U32T :: "u32 \<Rightarrow> u32" where
  "FOLD_U32T u = drop_bit 16 u + (u AND 0xFFFF)"

definition SWAP_BYTES_IN_WORD :: "u32 \<Rightarrow> u32" where
  "SWAP_BYTES_IN_WORD w = push_bit 8 (w AND 0xFF) OR drop_bit 8 (w AND 0xFF00)"

definition htons :: "u16 \<Rightarrow> u16" where
  "htons n = push_bit 8 (n AND 0xFF) OR drop_bit 8 (n AND 0xFF00)"

definition htonl :: "u32 \<Rightarrow> u32" where
  "htonl n = push_bit 24 (n AND 0xFF) OR push_bit 8 (n AND 0xFF00)
             OR drop_bit 8 (n AND 0xFF0000) OR drop_bit 24 (n AND 0xFF000000)"

fun chksum1_loop :: "bytes \<Rightarrow> u32 \<Rightarrow> u32" where
  "chksum1_loop (a # b # r) acc = chksum1_loop r (acc + ucast (push_bit 8 (ucast a :: u16) OR ucast b))"
| "chksum1_loop [a] acc = acc + ucast (push_bit 8 (ucast a :: u16))"
| "chksum1_loop [] acc = acc"

definition lwip_standard_chksum1 :: "bytes \<Rightarrow> u16" where
  "lwip_standard_chksum1 data =
     (let acc = FOLD_U32T (chksum1_loop data 0);
          acc = (if acc AND 0xFFFF0000 \<noteq> 0 then FOLD_U32T acc else acc)
      in htons (ucast acc))"

text \<open>
  Version 2 adds 16-bit words at even addresses; \<open>odd\<close> is the low bit of the data pointer.
  The loop returns the sum and the byte left over, which the code keeps in \<open>t\<close>.
\<close>

fun words_loop :: "bytes \<Rightarrow> u32 \<Rightarrow> u32 \<times> u8 option" where
  "words_loop (a # b # r) acc = words_loop r (acc + ucast (of_le16 [a, b]))"
| "words_loop [a] acc = (acc, Some a)"
| "words_loop [] acc = (acc, None)"

definition low_byte :: "u16 \<Rightarrow> u8 option \<Rightarrow> u16" where
  "low_byte t b = (case b of None \<Rightarrow> t | Some a \<Rightarrow> (t AND 0xFF00) OR ucast a)"

definition first_odd :: "bool \<Rightarrow> bytes \<Rightarrow> u16 \<times> bytes" where
  "first_odd is_odd data = (case data of
       [] \<Rightarrow> (0, [])
     | a # r \<Rightarrow> (if is_odd then (push_bit 8 (ucast a), r) else (0, data)))"

definition lwip_standard_chksum2 :: "bool \<Rightarrow> bytes \<Rightarrow> u16" where
  "lwip_standard_chksum2 is_odd data =
     (let (t, ps) = first_odd is_odd data;
          (acc, rest) = words_loop ps 0;
          acc = FOLD_U32T (FOLD_U32T (acc + ucast (low_byte t rest)))
      in ucast (if is_odd then SWAP_BYTES_IN_WORD acc else acc))"

text \<open>The configured version.\<close>

abbreviation LWIP_CHKSUM :: "bool \<Rightarrow> bytes \<Rightarrow> u16" where
  "LWIP_CHKSUM \<equiv> lwip_standard_chksum2"

definition inet_chksum :: "bool \<Rightarrow> bytes \<Rightarrow> u16" where
  "inet_chksum is_odd data = NOT (LWIP_CHKSUM is_odd data)"

text \<open>One turn of the loop over a chain, and the loop; blocks are word aligned.\<close>

definition chain_add :: "bool \<Rightarrow> bytes \<Rightarrow> u32 \<times> bool \<Rightarrow> u32 \<times> bool" where
  "chain_add is_odd data st = (case st of (acc, swapped) \<Rightarrow>
     let acc = FOLD_U32T (acc + ucast (LWIP_CHKSUM is_odd data))
     in if length data mod 2 \<noteq> 0 then (SWAP_BYTES_IN_WORD acc, \<not> swapped) else (acc, swapped))"

fun chain_loop :: "nat \<Rightarrow> nat option \<Rightarrow> u32 \<times> bool \<Rightarrow> pbuf_mem \<Rightarrow> (u32 \<times> bool) option" where
  "chain_loop fuel None st s = Some st"
| "chain_loop 0 (Some q) st s = None"
| "chain_loop (Suc fuel) (Some q) st s = do {
     b \<leftarrow> heap s q;
     d \<leftarrow> payload_read q 0 (unat (p_len b)) s;
     chain_loop fuel (p_next b) (chain_add (odd (p_payload b)) d st) s }"

definition pseudo_sum :: "u32 \<Rightarrow> u32 \<Rightarrow> u8 \<Rightarrow> u16 \<Rightarrow> u32" where
  "pseudo_sum src dest proto proto_len =
     (src AND 0xFFFF) + (drop_bit 16 src AND 0xFFFF) + (dest AND 0xFFFF) + (drop_bit 16 dest AND 0xFFFF)
     + ucast (htons (ucast proto)) + ucast (htons proto_len)"

definition chain_result :: "u32 \<Rightarrow> u32 \<times> bool \<Rightarrow> u16" where
  "chain_result pseudo st = (case st of (acc, swapped) \<Rightarrow>
     let acc = (if swapped then SWAP_BYTES_IN_WORD acc else acc);
         acc = FOLD_U32T (FOLD_U32T (acc + pseudo))
     in ucast (NOT (acc AND 0xFFFF)))"

definition inet_chksum_pseudo :: "nat option \<Rightarrow> u32 \<Rightarrow> u32 \<Rightarrow> u8 \<Rightarrow> u16 \<Rightarrow> pbuf_mem \<Rightarrow> u16 option" where
  "inet_chksum_pseudo p src dest proto proto_len s =
     map_option (chain_result (pseudo_sum src dest proto proto_len)) (chain_loop chain_fuel p (0, False) s)"

definition inet_chksum_pbuf :: "nat option \<Rightarrow> pbuf_mem \<Rightarrow> u16 option" where
  "inet_chksum_pbuf p s = do {
     (acc, swapped) \<leftarrow> chain_loop chain_fuel p (0, False) s;
     let acc = (if swapped then SWAP_BYTES_IN_WORD acc else acc);
     Some (ucast (NOT (acc AND 0xFFFF))) }"

section \<open>The reference sum\<close>

text \<open>\<open>le_sum\<close> adds the little-endian words exactly; \<open>norm16\<close> is its end-around-carry value.\<close>

fun le_sum :: "bytes \<Rightarrow> nat" where
  "le_sum (a # b # r) = unat a + 256 * unat b + le_sum r"
| "le_sum [a] = unat a"
| "le_sum [] = 0"

definition norm16 :: "nat \<Rightarrow> nat" where
  "norm16 n = (if n = 0 then 0 else (n - 1) mod 65535 + 1)"

lemma norm16_le: "norm16 n \<le> 65535"
proof -
  have "(n - 1) mod 65535 + 1 \<le> 65535" by (simp add: Suc_leI)
  then show ?thesis by (simp add: norm16_def)
qed

lemma norm16_eq_0 [simp]: "norm16 n = 0 \<longleftrightarrow> n = 0"
  by (simp add: norm16_def)

lemma norm16_cong: "norm16 n mod 65535 = n mod 65535"
proof (cases n)
  case 0
  then show ?thesis by (simp add: norm16_def)
next
  case (Suc m)
  have "(m mod 65535 + 1) mod 65535 = (m + 1) mod 65535" by (rule mod_add_left_eq)
  with Suc show ?thesis by (simp add: norm16_def)
qed

lemma norm16_unique:
  assumes "r \<le> 65535" and "r mod 65535 = n mod 65535" and "r = 0 \<longleftrightarrow> n = 0"
  shows "r = norm16 n"
proof -
  have "norm16 n \<le> 65535" and "norm16 n mod 65535 = r mod 65535"
    using norm16_le norm16_cong assms(2) by simp_all
  moreover have "r = 0 \<longleftrightarrow> norm16 n = 0" using assms(3) by simp
  ultimately show ?thesis using assms(1)
    by (cases "r = 65535"; cases "norm16 n = 65535") auto
qed

lemma le_sum_Cons: "le_sum (a # r) mod 65535 = (unat a + 256 * le_sum r) mod 65535"
proof (induction r arbitrary: a)
  case Nil
  show ?case by simp
next
  case (Cons b r)
  have "(256 * le_sum (b # r)) mod 65535 = (256 * (unat b + 256 * le_sum r)) mod 65535"
    using Cons.IH [of b] by (metis mod_mult_right_eq)
  also have "\<dots> = (256 * unat b + le_sum r + 65535 * le_sum r) mod 65535"
    by (simp add: algebra_simps)
  also have "\<dots> = (256 * unat b + le_sum r) mod 65535" by (rule mod_mult_self2)
  finally have "(unat a + 256 * le_sum (b # r)) mod 65535 = (unat a + (256 * unat b + le_sum r)) mod 65535"
    by (metis mod_add_right_eq)
  then show ?case by (simp add: add.assoc)
qed

lemma le_sum_eq_0: "le_sum xs = 0 \<longleftrightarrow> (\<forall>x \<in> set xs. x = 0)"
  by (induction xs rule: le_sum.induct) (auto simp: unat_eq_zero)

lemma le_sum_append:
  "le_sum (xs @ ys) mod 65535 =
     (le_sum xs + (if even (length xs) then 1 else 256) * le_sum ys) mod 65535"
proof (induction xs rule: le_sum.induct)
  case (1 a b r)
  let ?k = "if even (length r) then 1 else 256 :: nat"
  have "(unat a + 256 * unat b + le_sum (r @ ys)) mod 65535
      = (unat a + 256 * unat b + (le_sum r + ?k * le_sum ys)) mod 65535"
    using "1.IH" by (rule mod_add_cong [OF refl])
  then show ?case by (simp add: add.assoc)
next
  case (2 a)
  then show ?case using le_sum_Cons [of a ys] by simp
next
  case 3
  then show ?case by simp
qed

lemma le_sum_bound: "le_sum xs \<le> 65535 * ((length xs + 1) div 2)"
proof (induction xs rule: le_sum.induct)
  case (1 a b r)
  have "unat a < 256" "unat b < 256" using u8_bound by simp_all
  with 1 show ?case by simp
next
  case (2 a)
  have "unat a < 256" by (rule u8_bound)
  then show ?case by simp
qed simp

section \<open>Word operations as arithmetic\<close>

lemma unat_fold: "unat (FOLD_U32T u) = unat u div 65536 + unat u mod 65536"
proof -
  have "unat u < 2 ^ 32" by (rule u32_bound)
  then have "unat u div 65536 + unat u mod 65536 < 2 ^ 32" by simp
  then show ?thesis
    by (simp add: FOLD_U32T_def unat_word_ariths unat_and_mask16 unat_drop16)
qed

lemma fold_cong: "(n div 65536 + n mod 65536) mod 65535 = (n :: nat) mod 65535"
proof -
  have "n = 65536 * (n div 65536) + n mod 65536" by simp
  then have "n mod 65535 = (n div 65536 + n mod 65536 + 65535 * (n div 65536)) mod 65535" by simp
  also have "\<dots> = (n div 65536 + n mod 65536) mod 65535" by (rule mod_mult_self2)
  finally show ?thesis by simp
qed

lemma fold_eq_0: "n div 65536 + n mod 65536 = 0 \<longleftrightarrow> n = (0 :: nat)"
  using mult_div_mod_eq [of 65536 n] by auto

lemma fold_small: "m \<le> 131070 \<Longrightarrow> m div 65536 + m mod 65536 \<le> (65535 :: nat)"
proof -
  assume m: "m \<le> 131070"
  have eq: "65536 * (m div 65536) + m mod 65536 = m" and lt: "m mod 65536 < 65536" by simp_all
  from m eq have "m div 65536 \<le> 1" by linarith
  then consider "m div 65536 = 0" | "m div 65536 = 1" by linarith
  then show ?thesis using eq lt m by cases simp_all
qed

lemma unat_fold_fold: "unat (FOLD_U32T (FOLD_U32T u)) = norm16 (unat u)"
proof (rule norm16_unique)
  have "unat u div 65536 \<le> 65535" using u32_bound [of u] by simp
  moreover have "unat u mod 65536 \<le> 65535" by simp
  ultimately have "unat (FOLD_U32T u) \<le> 131070" unfolding unat_fold by linarith
  then show "unat (FOLD_U32T (FOLD_U32T u)) \<le> 65535"
    unfolding unat_fold [of "FOLD_U32T u"] by (rule fold_small)
  show "unat (FOLD_U32T (FOLD_U32T u)) mod 65535 = unat u mod 65535"
    by (simp only: unat_fold fold_cong)
  show "unat (FOLD_U32T (FOLD_U32T u)) = 0 \<longleftrightarrow> unat u = 0"
    by (simp only: unat_fold fold_eq_0)
qed

lemma unat_swap:
  assumes "unat w < 65536"
  shows "unat (SWAP_BYTES_IN_WORD w) = unat w mod 256 * 256 + unat w div 256"
proof -
  have "unat w div 256 < 256" using assms by simp
  then show ?thesis by (simp add: SWAP_BYTES_IN_WORD_def unat_swap16 del: push_bit_and drop_bit_and)
qed

lemma unat_htons: "unat (htons n) = unat n mod 256 * 256 + unat n div 256"
proof -
  have "unat n div 256 < 256" using u16_bound [of n] by simp
  then show ?thesis by (simp add: htons_def unat_swap16 del: push_bit_and drop_bit_and)
qed

lemma swap_cong: "(m mod 256 * 256 + m div 256) mod 65535 = (256 * m) mod (65535 :: nat)"
proof -
  have "256 * (256 * q + r) = r * 256 + q + 65535 * q" for q r :: nat by simp
  from this [of "m div 256" "m mod 256"]
  have "256 * m = m mod 256 * 256 + m div 256 + 65535 * (m div 256)" by (simp only: mult_div_mod_eq)
  then show ?thesis by (simp only: mod_mult_self2)
qed

lemma swap_eq_0: "m mod 256 * 256 + m div 256 = 0 \<longleftrightarrow> m = (0 :: nat)"
  using mult_div_mod_eq [of 256 m] by auto

lemma htons_htons: "htons (htons n) = n"
proof -
  have "unat n div 256 < 256" using u16_bound [of n] by simp
  then show ?thesis by (simp add: word_unat_eq_iff unat_htons)
qed

section \<open>The three versions compute the reference sum\<close>

lemma unat_ucast16: "unat (ucast (x :: u16) :: u32) = unat x"
  by (simp add: unsigned_ucast_eq take_bit_nat_eq_self u16_bound [THEN less_trans])

lemma unat_ucast8: "unat (ucast (x :: u8) :: u16) = unat x"
  by (simp add: unsigned_ucast_eq take_bit_nat_eq_self u8_bound [THEN less_trans])

lemma unat_le16: "unat (of_le16 [a, b]) = unat a + 256 * unat b"
proof -
  have "of_le16 [a, b] = push_bit 8 (ucast b) OR ucast a" by (simp add: of_le16_def or.commute)
  moreover have "unat b * 256 < 65536" using u8_bound [of b] by simp
  ultimately show ?thesis using unat_push_or [of "ucast b :: u16" 8 "ucast a"] u8_bound [of a]
    by (simp add: unat_ucast8)
qed

lemma words_loop_sum:
  assumes "words_loop ps acc = (s, rest)" and "unat acc + le_sum ps < 2 ^ 32"
  shows "unat s + (case rest of None \<Rightarrow> 0 | Some a \<Rightarrow> unat a) = unat acc + le_sum ps"
  using assms
proof (induction ps arbitrary: acc rule: le_sum.induct)
  case (1 a b r)
  have "unat (acc + ucast (of_le16 [a, b])) = unat acc + (unat a + 256 * unat b)"
    using "1.prems"(2) by (subst unat_add_small) (simp_all add: unat_ucast16 unat_le16)
  then show ?case using "1.IH" [of "acc + ucast (of_le16 [a, b])"] "1.prems" by simp
qed auto

lemma low_part:
  assumes "unat (t::u16) mod 256 = 0"
  shows "t AND 0xFF00 = t" "t AND ucast (a::u8) = 0"
proof -
  have "take_bit 8 t = 0" using assms by (simp add: word_unat_eq_iff unat_take8)
  then have b: "\<not> bit t n" if "n < 8" for n using that by (metis bit_0_eq bit_take_bit_iff bot_apply bot_bool_def)
  then have b': "8 \<le> n" if "bit t n" for n using b [of n] that by (cases "n < 8") auto
  have m: "(0xFF00 :: u16) = push_bit 8 (mask 8)" by (simp add: mask_eq_exp_minus_1 push_bit_eq_mult)
  show "t AND 0xFF00 = t" unfolding m
    by (rule bit_word_eqI) (auto simp: bit_simps dest: b')
  show "t AND ucast a = 0"
    by (rule bit_word_eqI) (auto simp: bit_simps dest: b' byte_bit_high [of _ a])
qed
lemma low_byte_sum:
  assumes "unat t mod 256 = 0"
  shows "unat (low_byte t rest) = unat t + (case rest of None \<Rightarrow> 0 | Some a \<Rightarrow> unat a)"
  using low_part [OF assms] by (cases rest) (simp_all add: low_byte_def unat_or_disj unat_ucast8)

lemma words_chksum:
  assumes "words_loop ps 0 = (acc, rest)" "unat t mod 256 = 0" "unat t + le_sum ps < 2 ^ 32"
  shows "unat (FOLD_U32T (FOLD_U32T (acc + ucast (low_byte t rest)))) = norm16 (unat t + le_sum ps)"
proof -
  have "unat acc + (case rest of None \<Rightarrow> 0 | Some a \<Rightarrow> unat a) = le_sum ps"
    using words_loop_sum [OF assms(1)] assms(3) by simp
  then have "unat acc + unat (low_byte t rest) = unat t + le_sum ps"
    using low_byte_sum [OF assms(2), of rest] by simp
  then have "unat (acc + ucast (low_byte t rest)) = unat t + le_sum ps"
    using assms(3) by (subst unat_add_small) (simp_all add: unat_ucast16)
  then show ?thesis by (simp add: unat_fold_fold)
qed

lemma unat_ucast_16: "unat (ucast (x :: u32) :: u16) = unat x mod 65536"
  by (simp add: unsigned_ucast_eq take_bit_eq_mod)

lemma unat_ucast_norm: "unat x = norm16 n \<Longrightarrow> unat (ucast (x :: u32) :: u16) = norm16 n"
  using norm16_le [of n] by (simp add: unat_ucast_16)

lemma norm16_swap:
  assumes "unat w = norm16 n"
  shows "unat (SWAP_BYTES_IN_WORD w) = norm16 (256 * n)"
proof (rule norm16_unique)
  have w: "unat w < 65536" using norm16_le [of n] assms by simp
  note sw = unat_swap [OF w]
  have "unat w div 256 \<le> 255" using w by simp
  moreover have "unat w mod 256 \<le> 255" by simp
  ultimately show "unat (SWAP_BYTES_IN_WORD w) \<le> 65535" unfolding sw by linarith
  show "unat (SWAP_BYTES_IN_WORD w) mod 65535 = (256 * n) mod 65535"
    unfolding sw swap_cong assms by (metis mod_mult_right_eq norm16_cong)
  show "unat (SWAP_BYTES_IN_WORD w) = 0 \<longleftrightarrow> 256 * n = 0"
    unfolding sw swap_eq_0 using assms by simp
qed

lemma norm16_eqI: "a mod 65535 = b mod 65535 \<Longrightarrow> (a = 0 \<longleftrightarrow> b = 0) \<Longrightarrow> norm16 a = norm16 b"
  by (intro norm16_unique norm16_le) (simp_all add: norm16_cong)

lemma first_odd_sum:
  assumes "first_odd is_odd data = (t, ps)"
  shows "unat t mod 256 = 0"
    and "norm16 ((if is_odd then 256 else 1) * (unat t + le_sum ps)) = norm16 (le_sum data)"
    and "length data \<le> 0x20000 \<Longrightarrow> unat t + le_sum ps < 2 ^ 32"
proof -
  have "unat t mod 256 = 0 \<and> norm16 ((if is_odd then 256 else 1) * (unat t + le_sum ps)) = norm16 (le_sum data)
     \<and> (length data \<le> 0x20000 \<longrightarrow> unat t + le_sum ps < 2 ^ 32)"
  proof (cases "is_odd \<and> data \<noteq> []")
    case False
    then have "t = 0" "ps = data" using assms by (auto simp: first_odd_def split: list.splits if_splits)
    moreover have "le_sum ps < 2 ^ 32" if "length ps \<le> 0x20000"
    proof -
      have "(length ps + 1) div 2 \<le> 65536" using that by simp
      then have "65535 * ((length ps + 1) div 2) \<le> 65535 * 65536" by (rule mult_le_mono2)
      with le_sum_bound [of ps] show ?thesis by simp
    qed
    ultimately show ?thesis using False by auto
  next
    case True
    then obtain a where a: "data = a # ps" and t: "t = push_bit 8 (ucast a)" and o: "is_odd"
      using assms by (auto simp: first_odd_def split: list.splits)
    have ut: "unat t = 256 * unat a" using u8_bound [of a] unfolding t
      by (subst unat_push) (simp_all add: unat_ucast8)
    have c: "(256 * (256 * unat a + le_sum ps)) mod 65535 = le_sum (a # ps) mod 65535"
    proof -
      have "(256 * (256 * unat a + le_sum ps)) mod 65535 = (unat a + 256 * le_sum ps + 65535 * unat a) mod 65535"
        by (simp add: algebra_simps)
      also have "\<dots> = (unat a + 256 * le_sum ps) mod 65535" by (rule mod_mult_self2)
      finally show ?thesis by (simp add: le_sum_Cons)
    qed
    have z: "256 * (256 * unat a + le_sum ps) = 0 \<longleftrightarrow> le_sum (a # ps) = 0"
      unfolding le_sum_eq_0 [of "a # ps"] by (auto simp: le_sum_eq_0 unat_eq_zero)
    have "unat t + le_sum ps < 2 ^ 32" if "length data \<le> 0x20000"
    proof -
      have "(length ps + 1) div 2 \<le> 65536" using that a by simp
      then have "65535 * ((length ps + 1) div 2) \<le> 65535 * 65536" by (rule mult_le_mono2)
      with le_sum_bound [of ps] u8_bound [of a] show ?thesis unfolding ut by simp
    qed
    then show ?thesis using norm16_eqI [OF c z] o by (simp add: ut a)
  qed
  then show "unat t mod 256 = 0"
    and "norm16 ((if is_odd then 256 else 1) * (unat t + le_sum ps)) = norm16 (le_sum data)"
    and "length data \<le> 0x20000 \<Longrightarrow> unat t + le_sum ps < 2 ^ 32" by blast+
qed

lemma unat_chksum2:
  assumes "length data \<le> 0x20000"
  shows "unat (lwip_standard_chksum2 is_odd data) = norm16 (le_sum data)"
proof -
  obtain t ps where f: "first_odd is_odd data = (t, ps)" by fastforce
  obtain acc rest where w: "words_loop ps 0 = (acc, rest)" by fastforce
  have s: "unat (FOLD_U32T (FOLD_U32T (acc + ucast (low_byte t rest)))) = norm16 (unat t + le_sum ps)"
    using first_odd_sum [OF f] assms by (intro words_chksum [OF w]) auto
  define u where "u = FOLD_U32T (FOLD_U32T (acc + ucast (low_byte t rest)))"
  have r: "lwip_standard_chksum2 is_odd data = ucast (if is_odd then SWAP_BYTES_IN_WORD u else u)"
    by (simp add: lwip_standard_chksum2_def f w u_def)
  have "unat (if is_odd then SWAP_BYTES_IN_WORD u else u) = norm16 (le_sum data)"
    using norm16_swap [OF s] s first_odd_sum(2) [OF f] by (cases is_odd) (simp_all add: u_def)
  then show ?thesis unfolding r by (rule unat_ucast_norm)
qed

fun be_sum :: "bytes \<Rightarrow> nat" where
  "be_sum (a # b # r) = 256 * unat a + unat b + be_sum r"
| "be_sum [a] = 256 * unat a"
| "be_sum [] = 0"

lemma be_sum_cong: "(256 * be_sum xs) mod 65535 = le_sum xs mod 65535"
proof (induction xs rule: le_sum.induct)
  case (1 a b r)
  have "256 * be_sum (a # b # r) = unat a + 256 * unat b + 256 * be_sum r + 65535 * unat a"
    by (simp add: algebra_simps)
  then have "(256 * be_sum (a # b # r)) mod 65535 = (unat a + 256 * unat b + 256 * be_sum r) mod 65535"
    by (simp only: mod_mult_self2)
  also have "\<dots> = (unat a + 256 * unat b + le_sum r) mod 65535" by (rule mod_add_cong [OF refl "1.IH"])
  finally show ?case by simp
next
  case (2 a)
  have "256 * be_sum [a] = unat a + 65535 * unat a" by simp
  then show ?case by (simp only: mod_mult_self2 le_sum.simps)
qed simp

lemma be_sum_eq_0: "be_sum xs = 0 \<longleftrightarrow> le_sum xs = 0"
  by (induction xs rule: le_sum.induct) auto

lemma be_sum_bound: "be_sum xs \<le> 65535 * ((length xs + 1) div 2)"
proof (induction xs rule: be_sum.induct)
  case (1 a b r)
  have "unat a < 256" "unat b < 256" using u8_bound by simp_all
  with 1 show ?case by simp
next
  case (2 a)
  have "unat a < 256" by (rule u8_bound)
  then show ?case by simp
qed simp

lemma unat_chksum1_loop: "unat acc + be_sum xs < 2 ^ 32 \<Longrightarrow> unat (chksum1_loop xs acc) = unat acc + be_sum xs"
proof (induction xs acc rule: chksum1_loop.induct)
  case (1 a b r acc)
  have "unat (push_bit 8 (ucast a) OR ucast b :: u16) = 256 * unat a + unat b"
    using u8_bound [of a] u8_bound [of b] by (subst unat_push_or) (simp_all add: unat_ucast8)
  then have "unat (acc + ucast (push_bit 8 (ucast a) OR ucast b :: u16)) = unat acc + (256 * unat a + unat b)"
    using "1.prems" by (subst unat_add_small) (simp_all add: unat_ucast16)
  then show ?case using 1 by simp
next
  case (2 a acc)
  have "unat (push_bit 8 (ucast a) :: u16) = 256 * unat a"
    using u8_bound [of a] by (subst unat_push) (simp_all add: unat_ucast8)
  then show ?case using "2.prems" by (simp, subst unat_add_small) (simp_all add: unat_ucast16)
qed simp

lemma fold_if: "(if u AND 0xFFFF0000 \<noteq> 0 then FOLD_U32T u else u) = FOLD_U32T u"
proof (cases "u AND 0xFFFF0000 = 0")
  case True
  have m: "(0xFFFF0000 :: u32) = push_bit 16 (mask 16)" by (simp add: mask_eq_exp_minus_1 push_bit_eq_mult)
  have "drop_bit 16 u = drop_bit 16 (u AND 0xFFFF0000)" unfolding m
    by (rule bit_word_eqI) (auto simp: bit_simps dest: bit_imp_le_length)
  then have "drop_bit 16 u = 0" using True by simp
  then have "unat u div 65536 = 0" using unat_drop16 [of u] by simp
  then show ?thesis using True by (simp add: word_unat_eq_iff unat_fold)
qed simp

lemma unat_chksum1:
  assumes "length data < 65536"
  shows "unat (lwip_standard_chksum1 data) = norm16 (le_sum data)"
proof -
  have "(length data + 1) div 2 \<le> 32768" using assms by simp
  then have "65535 * ((length data + 1) div 2) \<le> 65535 * 32768" by (rule mult_le_mono2)
  with be_sum_bound [of data] have "unat (chksum1_loop data 0) = be_sum data"
    using unat_chksum1_loop [of 0 data] by simp
  then have f: "unat (FOLD_U32T (FOLD_U32T (chksum1_loop data 0))) = norm16 (be_sum data)"
    by (simp add: unat_fold_fold)
  define w where "w = (ucast (FOLD_U32T (FOLD_U32T (chksum1_loop data 0))) :: u16)"
  have w: "unat w = norm16 (be_sum data)" unfolding w_def by (rule unat_ucast_norm [OF f])
  have r: "lwip_standard_chksum1 data = htons w"
    unfolding lwip_standard_chksum1_def Let_def fold_if by (simp add: w_def)
  have "unat (htons w) = norm16 (le_sum data)"
  proof (rule norm16_unique)
    show "unat (htons w) \<le> 65535" using u16_bound [of "htons w"] by simp
    show "unat (htons w) mod 65535 = le_sum data mod 65535"
      unfolding unat_htons swap_cong w
      by (metis be_sum_cong mod_mult_right_eq norm16_cong)
    show "unat (htons w) = 0 \<longleftrightarrow> le_sum data = 0"
      unfolding unat_htons swap_eq_0 w by (simp add: be_sum_eq_0)
  qed
  then show ?thesis by (simp add: r)
qed

section \<open>Chains of buffers\<close>

definition odd_factor :: "nat \<Rightarrow> nat" where
  "odd_factor n = (if even n then 1 else 256)"

lemma odd_factor_append:
  "odd_factor (length d) * (odd_factor (length D) * le_sum D + le_sum d) mod 65535
     = odd_factor (length (D @ d)) * le_sum (D @ d) mod 65535"
proof -
  have app: "odd_factor (length (D @ d)) * le_sum (D @ d) mod 65535
      = odd_factor (length (D @ d)) * (le_sum D + odd_factor (length D) * le_sum d) mod 65535"
    using le_sum_append [of D d] unfolding odd_factor_def by (metis mod_mult_right_eq)
  have m: "(x + 65535 * y) mod 65535 = x mod 65535" for x y :: nat by (rule mod_mult_self2)
  have e: "(y * 256 + z) mod 65535 = (y * 256 + z * 65536) mod 65535"
    "(y * 65536 + z * 256) mod 65535 = (y + z * 256) mod 65535" for y z :: nat
    using m [of "y * 256 + z" z] m [of "y + z * 256" y] by (simp_all add: algebra_simps)
  show ?thesis unfolding app using e [of "le_sum D" "le_sum d"]
    by (cases "even (length D)"; cases "even (length d)") (simp_all add: odd_factor_def algebra_simps)
qed

definition chain_inv :: "bytes \<Rightarrow> u32 \<times> bool \<Rightarrow> bool" where
  "chain_inv D st \<longleftrightarrow> snd st = odd (length D) \<and> unat (fst st) = norm16 (odd_factor (length D) * le_sum D)"

lemma norm16_add: "norm16 (norm16 a + norm16 b) = norm16 (a + b)"
  using mod_add_cong [OF norm16_cong norm16_cong] by (rule norm16_eqI) simp

lemma unat_fold_small: "unat u \<le> 131070 \<Longrightarrow> unat (FOLD_U32T u) = norm16 (unat u)"
  by (rule norm16_unique) (simp_all only: unat_fold fold_small fold_cong fold_eq_0)

lemma chain_add_inv:
  assumes "chain_inv D st" "length d \<le> 0x20000"
  shows "chain_inv (D @ d) (chain_add is_odd d st)"
proof -
  obtain acc swapped where st: "st = (acc, swapped)" by fastforce
  define u where "u = FOLD_U32T (acc + ucast (LWIP_CHKSUM is_odd d))"
  let ?a = "odd_factor (length D) * le_sum D"
  have a: "unat acc = norm16 ?a" and sw: "swapped = odd (length D)" using assms(1) by (simp_all add: chain_inv_def st)
  have c: "unat (LWIP_CHKSUM is_odd d) = norm16 (le_sum d)" by (rule unat_chksum2 [OF assms(2)])
  have "unat (acc + ucast (LWIP_CHKSUM is_odd d)) = norm16 ?a + norm16 (le_sum d)"
    using norm16_le [of ?a] norm16_le [of "le_sum d"] a c
    by (subst unat_add_small) (simp_all add: unat_ucast16)
  then have u: "unat u = norm16 (?a + le_sum d)"
    using norm16_le [of ?a] norm16_le [of "le_sum d"]
    by (simp add: u_def unat_fold_small norm16_add)
  have z: "odd_factor (length (D @ d)) * le_sum (D @ d) = 0 \<longleftrightarrow> odd_factor (length d) * (?a + le_sum d) = 0"
  proof -
    have "le_sum (D @ d) = 0 \<longleftrightarrow> le_sum D = 0 \<and> le_sum d = 0" by (auto simp: le_sum_eq_0)
    then show ?thesis by (auto simp: odd_factor_def)
  qed
  have n: "norm16 (odd_factor (length d) * (?a + le_sum d)) = norm16 (odd_factor (length (D @ d)) * le_sum (D @ d))"
    by (rule norm16_eqI [OF odd_factor_append]) (simp only: z)
  have c: "chain_add is_odd d st = (if even (length d) then (u, swapped) else (SWAP_BYTES_IN_WORD u, \<not> swapped))"
    by (simp add: chain_add_def st Let_def u_def even_iff_mod_2_eq_zero)
  show ?thesis
  proof (cases "even (length d)")
    case True
    then show ?thesis using u n sw by (simp add: chain_inv_def c odd_factor_def)
  next
    case False
    then have "chain_add is_odd d st = (SWAP_BYTES_IN_WORD u, \<not> swapped)" by (simp add: c)
    moreover have "unat (SWAP_BYTES_IN_WORD u) = norm16 (odd_factor (length (D @ d)) * le_sum (D @ d))"
      using norm16_swap [OF u] n False by (simp only: odd_factor_def if_False)
    ultimately show ?thesis using False sw by (simp add: chain_inv_def)
  qed
qed

lemma chain_loop_inv:
  assumes "pchain s p as" "length as \<le> fuel" "chain_inv D st"
  shows "\<exists>st'. chain_loop fuel p st s = Some st' \<and> chain_inv (D @ chain_data s as) st'"
  using assms
proof (induction as arbitrary: fuel p D st)
  case Nil
  then show ?case by simp
next
  case (Cons a as)
  then obtain f b where b: "fuel = Suc f" "p = Some a" "heap s a = Some b" "in_block s a b"
      "pchain s (p_next b) as" "length as \<le> f"
    by (cases fuel) (auto split: option.splits)
  have len: "length (buf_data s a) = unat (p_len b)" by (rule buf_data_length [OF b(3,4)])
  have rd: "payload_read a 0 (unat (p_len b)) s = Some (buf_data s a)"
    using payload_read_in_block [OF b(3,4), of 0 "unat (p_len b)"] len by simp
  have "length (buf_data s a) \<le> 0x20000" using len u16_bound [of "p_len b"] by simp
  from Cons.IH [OF b(5,6) chain_add_inv [OF Cons.prems(3) this, of "odd (p_payload b)"]] show ?case
    using b rd by simp
qed

lemma chain_inv_0: "chain_inv [] (0, False)"
  by (simp add: chain_inv_def)

lemma chain_swap_back:
  assumes "chain_inv D (acc, swapped)"
  shows "unat (if swapped then SWAP_BYTES_IN_WORD acc else acc) = norm16 (le_sum D)"
proof (cases swapped)
  case True
  then have a: "unat acc = norm16 (256 * le_sum D)" using assms by (simp add: chain_inv_def odd_factor_def)
  have "norm16 (256 * (256 * le_sum D)) = norm16 (le_sum D)"
    using mod_mult_self2 [of "le_sum D" 65535 "le_sum D"] by (intro norm16_eqI) simp_all
  with norm16_swap [OF a] True show ?thesis by simp
next
  case False
  then show ?thesis using assms by (simp add: chain_inv_def odd_factor_def)
qed

lemma unat_not16: "unat (NOT (w :: u16)) = 65535 - unat w"
proof -
  have "NOT w = - w - 1" by (rule not_eq_complement)
  also have "\<dots> = 65535 - w" by simp
  finally show ?thesis using u16_bound [of w] by (simp add: unat_sub word_le_nat_alt)
qed


lemma ucast_not_mask: "(ucast (NOT ((u :: u32) AND 0xFFFF)) :: u16) = NOT (ucast u)"
proof -
  have m: "(0xFFFF :: u32) = mask 16" by (simp add: mask_eq_exp_minus_1)
  show ?thesis unfolding m by (rule bit_word_eqI) (auto simp: bit_simps)
qed

text \<open>
  The checksum of a chain depends on its bytes only, not on how they are split into buffers
  nor on the alignment of the pieces.
\<close>

lemma inet_chksum_pbuf_chain:
  assumes "pchain s p as" "length as \<le> chain_fuel"
  shows "\<exists>w. inet_chksum_pbuf p s = Some w \<and> unat w = 65535 - norm16 (le_sum (chain_data s as))"
proof -
  from chain_loop_inv [OF assms chain_inv_0] obtain acc swapped where
    st: "chain_loop chain_fuel p (0, False) s = Some (acc, swapped)" and i: "chain_inv (chain_data s as) (acc, swapped)"
    by auto
  define u where "u = (if swapped then SWAP_BYTES_IN_WORD acc else acc)"
  have "unat u = norm16 (le_sum (chain_data s as))" unfolding u_def by (rule chain_swap_back [OF i])
  moreover have "(ucast (NOT (u AND 0xFFFF)) :: u16) = NOT (ucast u)"
    by (rule ucast_not_mask)
  ultimately show ?thesis using norm16_le [of "le_sum (chain_data s as)"]
    by (simp add: inet_chksum_pbuf_def st Let_def u_def [symmetric] unat_not16 unat_ucast_16)
qed


lemma pseudo_bound: "unat (pseudo_sum src dest proto n) \<le> 6 * 65535"
proof -
  have h: "unat (ucast (w :: u16) :: u32) \<le> 65535" for w using u16_bound [of w] by (simp add: unat_ucast16)
  have a: "unat (w AND 0xFFFF :: u32) \<le> 65535" for w by (simp add: unat_and_mask16)
  have add: "unat (x + y) \<le> m + n" if "unat (x :: u32) \<le> m" "unat y \<le> n" for x y m n
    using that by (simp add: unat_word_ariths)
  have "6 * 65535 = 65535 + 65535 + 65535 + 65535 + 65535 + (65535 :: nat)" by simp
  then show ?thesis unfolding pseudo_sum_def by (simp only:) (intro add a h)
qed

lemma inet_chksum_pseudo_chain:
  assumes "pchain s p as" "length as \<le> chain_fuel"
  shows "\<exists>w. inet_chksum_pseudo p src dest proto n s = Some w \<and>
    unat w = 65535 - norm16 (le_sum (chain_data s as) + unat (pseudo_sum src dest proto n))"
proof -
  from chain_loop_inv [OF assms chain_inv_0] obtain acc swapped where
    st: "chain_loop chain_fuel p (0, False) s = Some (acc, swapped)" and i: "chain_inv (chain_data s as) (acc, swapped)"
    by auto
  define u where "u = (if swapped then SWAP_BYTES_IN_WORD acc else acc)"
  define ps where "ps = pseudo_sum src dest proto n"
  let ?d = "le_sum (chain_data s as)"
  have u: "unat u = norm16 ?d" unfolding u_def by (rule chain_swap_back [OF i])
  have "unat (u + ps) = norm16 ?d + unat ps"
    using pseudo_bound [of src dest proto n] norm16_le [of ?d] u
    by (subst unat_add_small) (simp_all add: ps_def)
  moreover have "norm16 (norm16 ?d + unat ps) = norm16 (?d + unat ps)"
    using mod_add_cong [OF norm16_cong refl] by (rule norm16_eqI) simp
  ultimately have f: "unat (FOLD_U32T (FOLD_U32T (u + ps))) = norm16 (?d + unat ps)"
    by (simp add: unat_fold_fold)
  have "chain_result ps (acc, swapped) = NOT (ucast (FOLD_U32T (FOLD_U32T (u + ps))))"
    unfolding chain_result_def Let_def prod.case u_def by (rule ucast_not_mask)
  then show ?thesis using unat_ucast_norm [OF f]
    by (simp add: inet_chksum_pseudo_def st unat_not16 ps_def)
qed

text \<open>Storing the checksum in a zeroed field makes the checksum of the whole zero.\<close>

lemma le_sum_le16: "le_sum (le16 w) = unat w"
  using unat_le16 [of "ucast w" "ucast (drop_bit 8 w)"] le16.dec_enc [of w]
  by (simp add: le16_def)

lemma inet_chksum_stored:
  assumes "even (length a)" "length (a @ b) + 2 \<le> 0x20000"
  shows "inet_chksum o2 (a @ le16 (inet_chksum o1 (a @ [0, 0] @ b)) @ b) = 0"
proof -
  define c where "c = inet_chksum o1 (a @ [0, 0] @ b)"
  have ap: "le_sum (x @ y) = le_sum x + le_sum y" if "even (length x)" for x y
    using that by (induction x rule: le_sum.induct) auto
  define S where "S = le_sum a + le_sum b"
  have "le_sum (a @ [0, 0] @ b) = S" using ap [OF assms(1)] by (simp add: S_def)
  then have c: "unat c = 65535 - norm16 S" using assms(2) norm16_le [of S]
    by (simp add: c_def inet_chksum_def unat_not16 unat_chksum2)
  have "le_sum (a @ le16 c @ b) = S + unat c"
    using ap [OF assms(1)] ap [of "le16 c" b] by (simp add: S_def le_sum_le16)
  moreover have "65535 = norm16 (S + unat c)"
  proof (rule norm16_unique)
    have "(S + unat c) mod 65535 = (norm16 S + unat c) mod 65535"
      by (rule mod_add_cong) (simp_all add: norm16_cong)
    also have "norm16 S + unat c = 65535" using c norm16_le [of S] by simp
    finally show "65535 mod 65535 = (S + unat c) mod 65535" by simp
    show "(65535 :: nat) = 0 \<longleftrightarrow> S + unat c = 0" using c by (cases "S = 0") (simp_all add: norm16_def)
  qed simp
  ultimately have "unat (lwip_standard_chksum2 o2 (a @ le16 c @ b)) = 65535"
    using assms(2) by (simp add: unat_chksum2)
  then have "unat (inet_chksum o2 (a @ le16 c @ b)) = 0" by (simp add: inet_chksum_def unat_not16)
  then show ?thesis by (simp add: c_def unat_eq_zero)
qed

section \<open>Properties\<close>

text \<open>
  C4: The two ways to sum a block, byte pairs in network order with deferred carries (version 1)
  and words in memory order with the alignment of the block corrected by a swap (version 2),
  give the same checksum, for every alignment.
\<close>

theorem chksum_versions_agree:
  assumes "length data < 65536"
  shows "lwip_standard_chksum1 data = lwip_standard_chksum2 is_odd data"
  using assms by (simp add: word_unat_eq_iff unat_chksum1 unat_chksum2)

theorem chksum_versions_agree_witness:
  "lwip_standard_chksum1 [0x45, 0, 0xFF, 1, 7] = lwip_standard_chksum2 True [0x45, 0, 0xFF, 1, 7]"
  by (rule chksum_versions_agree) simp

text \<open>
  The checksum over a chain with its pseudo header is a function of the bytes of the packet:
  two chains with the same bytes get the same checksum, however they are split into buffers
  (odd lengths included) and wherever the payloads lie.
\<close>

theorem inet_chksum_pseudo_split:
  assumes "pchain s p as" "length as \<le> chain_fuel" "pchain t q bs" "length bs \<le> chain_fuel"
    and "chain_data s as = chain_data t bs"
  shows "inet_chksum_pseudo p src dest proto n s = inet_chksum_pseudo q src dest proto n t
     \<and> inet_chksum_pseudo p src dest proto n s \<noteq> None"
  using inet_chksum_pseudo_chain [OF assms(1,2), of src dest proto n]
    inet_chksum_pseudo_chain [OF assms(3,4), of src dest proto n] assms(5)
  by (auto simp: word_unat_eq_iff)

theorem inet_chksum_pseudo_split_witness:
  "inet_chksum_pseudo (Some 1) 5 6 17 4
     (zeroed\<lparr>heap := [1 \<mapsto> \<lparr>p_next = Some 2, p_payload = 1, p_tot_len = 4, p_len = 1, p_type = PBUF_POOL, p_flags = 0, p_ref = 1\<rparr>,
                    2 \<mapsto> \<lparr>p_next = None, p_payload = 8, p_tot_len = 3, p_len = 3, p_type = PBUF_POOL, p_flags = 0, p_ref = 1\<rparr>]\<rparr>)
   = inet_chksum_pseudo (Some 3) 5 6 17 4
     (zeroed\<lparr>heap := [3 \<mapsto> \<lparr>p_next = None, p_payload = 0, p_tot_len = 4, p_len = 4, p_type = PBUF_POOL, p_flags = 0, p_ref = 1\<rparr>]\<rparr>)"
  (is "inet_chksum_pseudo _ _ _ _ _ ?s = inet_chksum_pseudo _ _ _ _ _ ?t")
proof -
  have "pchain ?s (Some 1) [1, 2]" "length [1 :: nat, 2] \<le> chain_fuel" "pchain ?t (Some 3) [3]" "length [3 :: nat] \<le> chain_fuel"
    "chain_data ?s [1, 2] = chain_data ?t [3]"
    by (simp_all add: in_block_def zeroed_def PBUF_POOL_BUFSIZE_ALIGNED_def chain_fuel_def buf_data_def) (simp add: numeral_eq_Suc)
  from inet_chksum_pseudo_split [OF this, of 5 6 17 4] show ?thesis by blast
qed

text \<open>
  A block that carries its own checksum verifies: writing \<open>inet_chksum\<close> of the block with a
  zeroed field into that field makes the checksum of the block zero, for every alignment of the
  writer and of the reader.
\<close>

theorem inet_chksum_verifies:
  assumes "even (length a)" "length (a @ b) + 2 \<le> 0x20000"
  shows "inet_chksum o2 (a @ le16 (inet_chksum o1 (a @ [0, 0] @ b)) @ b) = 0"
  using assms by (rule inet_chksum_stored)

theorem inet_chksum_verifies_witness:
  "inet_chksum True ([1, 2] @ le16 (inet_chksum False ([1, 2] @ [0, 0] @ [9, 9, 9])) @ [9, 9, 9]) = 0"
  by (rule inet_chksum_verifies) simp_all

end
