(* ===== verification/Ip.thy ===== *)
theory Ip
  imports Chksum
begin

text \<open>
  The network state and the output side of IP: \<open>ip_route\<close>, \<open>ip_output_if\<close> and \<open>ip_output\<close> of
  \<open>src/core/ipv4/ip.c\<close>, the broadcast test of \<open>ip_addr.c\<close>.

  Addresses are the \<open>u32\<close> in memory order the code compares. What leaves the modelled layers
  (\<open>netif->output\<close>, \<open>ip_frag\<close>, \<open>icmp_dest_unreach\<close>) is recorded in \<open>events\<close> with the bytes of
  the packet; \<open>link_err\<close> is the answer of the layer below. The lower layer neither frees nor
  keeps the packet, as the contract of \<open>netif->output\<close> asks.
\<close>

section \<open>State\<close>

record netif =
  nif_ip :: u32
  nif_mask :: u32
  nif_mtu :: u16
  nif_flags :: u8

record udp_pcb =
  local_ip :: u32
  remote_ip :: u32
  so_options :: u8
  pcb_tos :: u8
  pcb_ttl :: u8
  u_flags :: u8
  local_port :: u16
  remote_port :: u16
  recv :: "nat option"

datatype net_event =
    Netif_output (ev_data: bytes) (ev_dest: u32)
  | Ip_frag bytes u32
  | Icmp_dest_unreach bytes u8

record net =
  pbufs :: pbuf_mem
  netif_list :: "netif list"
  netif_default :: "netif option"
  ip_id :: u16
  current_iphdr_src :: u32
  current_iphdr_dest :: u32
  udp_pcbs :: "nat list"
  pcb :: "nat \<Rightarrow> udp_pcb option"
  pcb_pool :: "nat list"
  udp_port :: u16
  events :: "net_event list"
  link_err :: "net_event \<Rightarrow> err_t"

text \<open>A buffer operation on the network state.\<close>

definition with_pbufs :: "(pbuf_mem \<Rightarrow> ('a \<times> pbuf_mem) option) \<Rightarrow> net \<Rightarrow> ('a \<times> net) option" where
  "with_pbufs f s = map_option (\<lambda>(r, m). (r, s\<lparr>pbufs := m\<rparr>)) (f (pbufs s))"

definition do_pbufs :: "(pbuf_mem \<Rightarrow> pbuf_mem option) \<Rightarrow> net \<Rightarrow> net option" where
  "do_pbufs f s = map_option (\<lambda>m. s\<lparr>pbufs := m\<rparr>) (f (pbufs s))"

definition emit :: "net_event \<Rightarrow> net \<Rightarrow> err_t \<times> net" where
  "emit e s = (link_err s e, s\<lparr>events := events s @ [e]\<rparr>)"

definition packet :: "nat \<Rightarrow> net \<Rightarrow> bytes option" where
  "packet p s = do { b \<leftarrow> heap (pbufs s) p; pbuf_copy_partial (Some p) (p_tot_len b) 0 (pbufs s) }"

section \<open>Addresses\<close>

definition IPADDR_ANY :: u32 where "IPADDR_ANY = 0"
definition IPADDR_BROADCAST :: u32 where "IPADDR_BROADCAST = 0xFFFFFFFF"
definition NETIF_FLAG_UP :: u8 where "NETIF_FLAG_UP = 1"
definition NETIF_FLAG_BROADCAST :: u8 where "NETIF_FLAG_BROADCAST = 2"

definition ip_addr_isany :: "u32 \<Rightarrow> bool" where
  "ip_addr_isany a \<longleftrightarrow> a = IPADDR_ANY"

definition ip_addr_netcmp :: "u32 \<Rightarrow> u32 \<Rightarrow> u32 \<Rightarrow> bool" where
  "ip_addr_netcmp a b m \<longleftrightarrow> a AND m = b AND m"

definition ip_addr_ismulticast :: "u32 \<Rightarrow> bool" where
  "ip_addr_ismulticast a \<longleftrightarrow> a AND htonl 0xF0000000 = htonl 0xE0000000"

definition ip4_addr_isbroadcast :: "u32 \<Rightarrow> netif \<Rightarrow> bool" where
  "ip4_addr_isbroadcast addr n \<longleftrightarrow>
     (if NOT addr = IPADDR_ANY \<or> addr = IPADDR_ANY then True
      else if nif_flags n AND NETIF_FLAG_BROADCAST = 0 then False
      else if addr = nif_ip n then False
      else ip_addr_netcmp addr (nif_ip n) (nif_mask n)
           \<and> addr AND NOT (nif_mask n) = IPADDR_BROADCAST AND NOT (nif_mask n))"

section \<open>Output\<close>

definition netif_is_up :: "netif \<Rightarrow> bool" where
  "netif_is_up n \<longleftrightarrow> nif_flags n AND NETIF_FLAG_UP \<noteq> 0"

definition ip_route :: "u32 \<Rightarrow> net \<Rightarrow> netif option" where
  "ip_route dest s =
     (case List.find (\<lambda>n. netif_is_up n \<and> ip_addr_netcmp dest (nif_ip n) (nif_mask n)) (netif_list s) of
        Some n \<Rightarrow> Some n
      | None \<Rightarrow> (case netif_default s of
            None \<Rightarrow> None
          | Some n \<Rightarrow> if netif_is_up n then Some n else None))"

definition IP_HLEN :: nat where "IP_HLEN = 20"

definition LWIP_MAKE_U16 :: "u8 \<Rightarrow> u8 \<Rightarrow> u32" where
  "LWIP_MAKE_U16 a b = push_bit 8 (ucast a) OR ucast b"

text \<open>The header checksum computed on the fly, the fields as they lie in memory.\<close>

definition chksum_inline :: "u8 \<Rightarrow> u8 \<Rightarrow> u32 \<Rightarrow> u8 \<Rightarrow> u8 \<Rightarrow> u16 \<Rightarrow> u16 \<Rightarrow> u32 \<Rightarrow> u16" where
  "chksum_inline proto ttl dest tos v_hl len ident src =
     (let c = LWIP_MAKE_U16 proto ttl + (dest AND 0xFFFF) + drop_bit 16 dest + LWIP_MAKE_U16 tos v_hl
              + ucast len + ucast ident + (src AND 0xFFFF) + drop_bit 16 src;
          c = drop_bit 16 c + (c AND 0xFFFF);
          c = drop_bit 16 c + c
      in ucast (NOT c))"

definition ip_header :: "u8 \<Rightarrow> u16 \<Rightarrow> u16 \<Rightarrow> u8 \<Rightarrow> u8 \<Rightarrow> u32 \<Rightarrow> u32 \<Rightarrow> bytes" where
  "ip_header tos tot_len ident ttl proto src dest =
     [0x45, tos] @ le16 (htons tot_len) @ le16 (htons ident) @ [0, 0, ttl, proto]
     @ le16 (chksum_inline proto ttl dest tos 0x45 (htons tot_len) (htons ident) src) @ le32 src @ le32 dest"

definition ip_output_if :: "nat \<Rightarrow> u32 \<Rightarrow> u32 \<Rightarrow> u8 \<Rightarrow> u8 \<Rightarrow> u8 \<Rightarrow> netif \<Rightarrow> net \<Rightarrow> (err_t \<times> net) option" where
  "ip_output_if p src dest ttl tos proto netif s = do {
     (r, s) \<leftarrow> with_pbufs (pbuf_header (Some p) (int IP_HLEN)) s;
     if r \<noteq> 0 then Some (ERR_BUF, s)
     else do {
       b \<leftarrow> heap (pbufs s) p;
       s \<leftarrow> do_pbufs (payload_write p 0 (ip_header tos (p_tot_len b) (ip_id s) ttl proto
               (if ip_addr_isany src then nif_ip netif else src) dest)) s;
       let s = s\<lparr>ip_id := ip_id s + 1\<rparr>;
       d \<leftarrow> packet p s;
       if nif_mtu netif \<noteq> 0 \<and> p_tot_len b > nif_mtu netif then Some (emit (Ip_frag d dest) s)
       else Some (emit (Netif_output d dest) s) } }"

definition ip_output :: "nat \<Rightarrow> u32 \<Rightarrow> u32 \<Rightarrow> u8 \<Rightarrow> u8 \<Rightarrow> u8 \<Rightarrow> net \<Rightarrow> (err_t \<times> net) option" where
  "ip_output p src dest ttl tos proto s = (case ip_route dest s of
       None \<Rightarrow> Some (ERR_RTE, s)
     | Some netif \<Rightarrow> ip_output_if p src dest ttl tos proto netif s)"

section \<open>Facts\<close>

lemma packet_chain:
  assumes "owned (pbufs s) p (p # rest)" "length (p # rest) \<le> chain_fuel"
  shows "packet p s = Some (chain_data (pbufs s) (p # rest))"
proof -
  from assms(1) obtain b where b: "heap (pbufs s) p = Some b" "unat (p_tot_len b) = length (chain_data (pbufs s) (p # rest))"
    by (auto simp: owned_def exclusive_def split: option.splits)
  have "pchain (pbufs s) (Some p) (p # rest)" using assms(1) by (simp add: owned_def exclusive_def)
  from copy_partial_loop_chain [OF this assms(2), of "unat (p_tot_len b)" 0 "[]"] b show ?thesis
    by (simp add: packet_def pbuf_copy_partial_def del: pchain.simps)
qed
section \<open>The header checksum\<close>

lemma unat_make16: "unat (LWIP_MAKE_U16 a b) = 256 * unat a + unat b"
proof -
  have "unat (ucast a :: u32) = unat a" "unat (ucast b :: u32) = unat b" for a b :: u8
    using u8_bound [of a] u8_bound [of b] by (simp_all add: unsigned_ucast_eq take_bit_nat_eq_self)
  then show ?thesis using u8_bound [of a] u8_bound [of b]
    by (simp add: LWIP_MAKE_U16_def unat_push_or)
qed

lemma le_sum_append_even: "even (length x) \<Longrightarrow> le_sum (x @ y) = le_sum x + le_sum y"
  by (induction x rule: le_sum.induct) auto

lemma le_sum_le32: "le_sum (le32 w) = unat (w AND 0xFFFF) + unat (drop_bit 16 w)"
proof -
  have s: "le32 w = le16 (ucast w) @ le16 (ucast (drop_bit 16 w))"
    by (simp add: le32_def le16_def) (auto intro!: bit_word_eqI simp: bit_simps)
  have d: "unat (drop_bit 16 w) < 65536" using u32_bound [of w] by (simp add: unat_drop16)
  have u: "unat (ucast x :: u16) = unat x mod 65536" for x :: u32 by (simp add: unsigned_ucast_eq take_bit_eq_mod)
  show ?thesis unfolding s using d
    by (simp add: le_sum_append_even le_sum_le16 u unat_and_mask16)
qed

lemma unat_sum2: "unat (a :: u32) \<le> m \<Longrightarrow> unat b \<le> n \<Longrightarrow> m + n < 2 ^ 32 \<Longrightarrow> unat (a + b) = unat a + unat b"
  by (subst unat_add_small) simp_all

text \<open>The second fold of the inline sum keeps the carry outside the 16 bits that are stored.\<close>

lemma inline_fold:
  assumes "unat c \<le> 10 * 65535"
  shows "ucast (NOT (let c = drop_bit 16 c + (c AND 0xFFFF) in drop_bit 16 c + c)) = NOT (ucast (FOLD_U32T (FOLD_U32T c)) :: u16)"
proof -
  define d where "d = FOLD_U32T c"
  have ud: "unat d = unat c div 65536 + unat c mod 65536" by (simp add: d_def unat_fold)
  have "unat (drop_bit 16 d + d) mod 65536 = unat (FOLD_U32T d) mod 65536"
  proof -
    have "unat d \<le> 131070" using assms unfolding ud by linarith
    then have "unat (drop_bit 16 d + d) = unat d div 65536 + unat d"
      by (subst unat_add_small) (simp_all add: unat_drop16)
    also have "\<dots> mod 65536 = (unat d div 65536 + unat d mod 65536) mod 65536" by presburger
    finally show ?thesis by (simp add: unat_fold)
  qed
  then have "ucast (drop_bit 16 d + d) = (ucast (FOLD_U32T d) :: u16)"
    by (simp add: word_unat_eq_iff unat_ucast_16)
  moreover have "(ucast (NOT (x :: u32)) :: u16) = NOT (ucast x)" for x
    by (rule bit_word_eqI) (auto simp: bit_simps)
  ultimately show ?thesis by (simp add: Let_def d_def FOLD_U32T_def)
qed

lemma unat_chksum_inline:
  "unat (chksum_inline proto ttl dest tos v_hl len ident src)
     = 65535 - norm16 (le_sum ([v_hl, tos] @ le16 len @ le16 ident @ [0, 0, ttl, proto] @ [0, 0] @ le32 src @ le32 dest))"
proof -
  define c where "c = LWIP_MAKE_U16 proto ttl + (dest AND 0xFFFF) + drop_bit 16 dest + LWIP_MAKE_U16 tos v_hl
              + ucast len + ucast ident + (src AND 0xFFFF) + drop_bit 16 src"
  have m: "unat (LWIP_MAKE_U16 a b) \<le> 65535" for a b
    using u8_bound [of a] u8_bound [of b] by (simp add: unat_make16)
  have a: "unat (w AND 0xFFFF :: u32) \<le> 65535" "unat (drop_bit 16 w) \<le> 65535" for w :: u32
    using u32_bound [of w] by (simp_all add: unat_and_mask16 unat_drop16)
  have h: "unat (ucast (w :: u16) :: u32) \<le> 65535" for w using u16_bound [of w] by (simp add: unat_ucast16)
  have uc: "unat c = unat (LWIP_MAKE_U16 proto ttl) + unat (dest AND 0xFFFF) + unat (drop_bit 16 dest)
     + unat (LWIP_MAKE_U16 tos v_hl) + unat (ucast len :: u32) + unat (ucast ident :: u32)
     + unat (src AND 0xFFFF) + unat (drop_bit 16 src)"
    using m [of proto ttl] m [of tos v_hl] a [of dest] a [of src] h [of len] h [of ident]
    unfolding c_def by (simp add: unat_word_ariths)
  have s: "le_sum ([v_hl, tos] @ le16 len @ le16 ident @ [0, 0, ttl, proto] @ [0, 0] @ le32 src @ le32 dest) = unat c"
    unfolding uc by (simp add: le_sum_append_even le_sum_le16 le_sum_le32 unat_make16 unat_ucast16 del: append_Cons append_Nil
        add: append_Cons [of _ "[]", symmetric])
  have "chksum_inline proto ttl dest tos v_hl len ident src = NOT (ucast (FOLD_U32T (FOLD_U32T c)))"
    unfolding chksum_inline_def c_def [symmetric]
    using inline_fold [of c] m [of proto ttl] m [of tos v_hl] a [of dest] a [of src] h [of len] h [of ident]
    by (simp add: Let_def uc)
  then show ?thesis unfolding s
    by (simp add: unat_not16 unat_ucast_norm [OF unat_fold_fold])
qed

text \<open>The inline sum is the checksum \<open>inet_chksum\<close> computes, so the header verifies.\<close>

lemma chksum_inline_eq:
  "chksum_inline proto ttl dest tos v_hl len ident src
     = inet_chksum is_odd ([v_hl, tos] @ le16 len @ le16 ident @ [0, 0, ttl, proto] @ [0, 0] @ le32 src @ le32 dest)"
  by (simp add: word_unat_eq_iff unat_chksum_inline inet_chksum_def unat_not16 unat_chksum2
      del: append_Cons append_Nil)

lemma ip_header_length [simp]: "length (ip_header tos tot_len ident ttl proto src dest) = 20"
  by (simp add: ip_header_def)

text \<open>A packet with room for the header leaves as header and payload.\<close>

lemma with_pbufs_Some: "f (pbufs s) = Some (r, m) \<Longrightarrow> with_pbufs f s = Some (r, s\<lparr>pbufs := m\<rparr>)"
  by (simp add: with_pbufs_def)

lemma do_pbufs_Some: "f (pbufs s) = Some m \<Longrightarrow> do_pbufs f s = Some (s\<lparr>pbufs := m\<rparr>)"
  by (simp add: do_pbufs_def)

definition ip_event :: "netif \<Rightarrow> bytes \<Rightarrow> u32 \<Rightarrow> net_event" where
  "ip_event netif d dest =
     (if nif_mtu netif \<noteq> 0 \<and> length d > unat (nif_mtu netif) then Ip_frag d dest else Netif_output d dest)"

lemma ip_output_if_chain:
  assumes "owned (pbufs s) p (p # rest)" "length (p # rest) \<le> chain_fuel" "heap (pbufs s) p = Some b"
    and "p_type b = PBUF_RAM \<or> p_type b = PBUF_POOL" "20 \<le> p_payload b" "unat (p_tot_len b) + 20 < 65536"
    and "d = ip_header tos (p_tot_len b + 20) (ip_id s) ttl proto
           (if ip_addr_isany src then nif_ip netif else src) dest @ chain_data (pbufs s) (p # rest)"
  shows "\<exists>m. ip_output_if p src dest ttl tos proto netif s
       = Some (link_err s (ip_event netif d dest),
           s\<lparr>pbufs := m, ip_id := ip_id s + 1, events := events s @ [ip_event netif d dest]\<rparr>)
     \<and> hd_edit (pbufs s) m p \<and> owned m p (p # rest)"
proof -
  from pbuf_header_chain [OF assms(1,3,4) _ assms(5,6)] obtain m1 b1 h where
    m1: "pbuf_header (Some p) 20 (pbufs s) = Some (0, m1)" "hd_edit (pbufs s) m1 p" "owned m1 p (p # rest)"
      "heap m1 p = Some b1" "unat (p_len b1) = unat (p_len b) + 20" "unat (p_tot_len b1) = unat (p_tot_len b) + 20"
      "length h = 20" "chain_data m1 (p # rest) = h @ chain_data (pbufs s) (p # rest)" by auto
  have tl: "p_tot_len b1 = p_tot_len b + 20"
    using m1(6) assms(6) by (simp add: word_unat_eq_iff unat_word_ariths)
  let ?hd = "ip_header tos (p_tot_len b1) (ip_id s) ttl proto (if ip_addr_isany src then nif_ip netif else src) dest"
  from payload_write_chain [OF m1(3,4), of 0 ?hd] m1(5,7,8) obtain m2 where
    m2: "payload_write p 0 ?hd m1 = Some m2" "hd_edit m1 m2 p" "owned m2 p (p # rest)" "heap m2 = heap m1"
      "chain_data m2 (p # rest) = ?hd @ chain_data (pbufs s) (p # rest)" by (auto simp del: chain_data_simps)
  have cd: "chain_data m2 (p # rest) = d" using m2(5) by (simp add: tl assms(7))
  have ld: "length d = unat (p_tot_len b1)"
  proof -
    have "unat (p_tot_len b1) = length (chain_data m2 (p # rest))"
      using m2(3,4) m1(4) by (simp add: owned_def)
    then show ?thesis by (simp only: cd)
  qed
  let ?s2 = "s\<lparr>pbufs := m2, ip_id := ip_id s + 1\<rparr>"
  have pk: "packet p ?s2 = Some d" using packet_chain [of ?s2 p rest] m2(3) assms(2) cd by simp
  have "ip_output_if p src dest ttl tos proto netif s
       = Some (link_err s (ip_event netif d dest), ?s2\<lparr>events := events s @ [ip_event netif d dest]\<rparr>)"
    using m1(1,4) m2(1) pk ld
    by (simp add: ip_output_if_def IP_HLEN_def with_pbufs_def do_pbufs_def emit_def ip_event_def word_less_nat_alt)
  moreover have "hd_edit (pbufs s) m2 p" using m1(2) m2(2) by (rule hd_edit_trans)
  ultimately show ?thesis using m2(3) by (intro exI [of _ m2]) simp
qed

section \<open>Properties\<close>

text \<open>
  The checksum computed on the fly while the header fields are stored is the one the
  receiver's \<open>inet_chksum\<close> expects: the checksum over every header that \<open>ip_output_if\<close> writes is
  zero.
\<close>

theorem ip_header_verifies: "inet_chksum is_odd (ip_header tos tot_len ident ttl proto src dest) = 0"
proof -
  have "ip_header tos tot_len ident ttl proto src dest = ([0x45, tos] @ le16 (htons tot_len) @ le16 (htons ident)
      @ [0, 0, ttl, proto]) @ le16 (inet_chksum is_odd (([0x45, tos] @ le16 (htons tot_len) @ le16 (htons ident)
      @ [0, 0, ttl, proto]) @ [0, 0] @ (le32 src @ le32 dest))) @ (le32 src @ le32 dest)"
    by (simp add: ip_header_def chksum_inline_eq [of _ _ _ _ _ _ _ _ is_odd])
  also have "inet_chksum is_odd \<dots> = 0" by (rule inet_chksum_stored) simp_all
  finally show ?thesis .
qed

end
