(* ===== verification/Udp.thy ===== *)
theory Udp
  imports Ip
begin

text \<open>
  UDP, \<open>src/core/udp.c\<close>: control blocks from a fixed pool, the list \<open>udp_pcbs\<close> they are linked
  into by \<open>udp_bind\<close> (its order matters: \<open>udp_input\<close> moves the block it found to the front),
  port allocation, sending and the delivery of a datagram to the bound block's callback.

  The list is kept as the sequence of block addresses its \<open>next\<close> fields spell out. A callback
  is the number of a function; the call is the last act of \<open>udp_input\<close> and is returned as such.
\<close>

section \<open>Control blocks\<close>

definition UDP_HLEN :: nat where "UDP_HLEN = 8"
definition UDP_TTL :: u8 where "UDP_TTL = 255"
definition IP_PROTO_UDP :: u8 where "IP_PROTO_UDP = 17"
definition UDP_FLAGS_NOCHKSUM :: u8 where "UDP_FLAGS_NOCHKSUM = 1"
definition UDP_FLAGS_CONNECTED :: u8 where "UDP_FLAGS_CONNECTED = 4"
definition UDP_LOCAL_PORT_RANGE_START :: u16 where "UDP_LOCAL_PORT_RANGE_START = 0xC000"
definition UDP_LOCAL_PORT_RANGE_END :: u16 where "UDP_LOCAL_PORT_RANGE_END = 0xFFFF"

definition pcb_upd :: "nat \<Rightarrow> (udp_pcb \<Rightarrow> udp_pcb) \<Rightarrow> net \<Rightarrow> net option" where
  "pcb_upd a f s = (case pcb s a of None \<Rightarrow> None | Some b \<Rightarrow> Some (s\<lparr>pcb := (pcb s)(a \<mapsto> f b)\<rparr>))"

definition port_used :: "net \<Rightarrow> u16 \<Rightarrow> bool" where
  "port_used s port \<longleftrightarrow> list_ex (\<lambda>a. case pcb s a of None \<Rightarrow> False | Some b \<Rightarrow> local_port b = port) (udp_pcbs s)"

definition next_port :: "u16 \<Rightarrow> u16" where
  "next_port port = (if port = UDP_LOCAL_PORT_RANGE_END then UDP_LOCAL_PORT_RANGE_START else port + 1)"

text \<open>\<open>k\<close> is what is left of the 0x3fff retries; the result is the port (0: none) and \<open>udp_port\<close>.\<close>

fun new_port_loop :: "nat \<Rightarrow> (u16 \<Rightarrow> bool) \<Rightarrow> u16 \<Rightarrow> u16 \<times> u16" where
  "new_port_loop k used port = (let port = next_port port in
     if used port then (case k of 0 \<Rightarrow> (0, port) | Suc k \<Rightarrow> new_port_loop k used port)
     else (port, port))"

declare new_port_loop.simps [simp del]

definition udp_new_port :: "net \<Rightarrow> u16 \<times> net" where
  "udp_new_port s = (case new_port_loop (unat (UDP_LOCAL_PORT_RANGE_END - UDP_LOCAL_PORT_RANGE_START))
       (port_used s) (udp_port s) of (r, port) \<Rightarrow> (r, s\<lparr>udp_port := port\<rparr>))"

definition udp_new :: "net \<Rightarrow> nat option \<times> net" where
  "udp_new s = (case pcb_pool s of
       [] \<Rightarrow> (None, s)
     | a # as \<Rightarrow> (Some a, s\<lparr>pcb_pool := as, pcb := (pcb s)(a \<mapsto>
         \<lparr>local_ip = 0, remote_ip = 0, so_options = 0, pcb_tos = 0, pcb_ttl = UDP_TTL, u_flags = 0,
          local_port = 0, remote_port = 0, recv = None\<rparr>)\<rparr>))"

definition udp_bind :: "nat \<Rightarrow> u32 \<Rightarrow> u16 \<Rightarrow> net \<Rightarrow> (err_t \<times> net) option" where
  "udp_bind p ipaddr port s = do {
     b0 \<leftarrow> pcb s p;
     if list_ex (\<lambda>a. a \<noteq> p \<and> (case pcb s a of None \<Rightarrow> False | Some b \<Rightarrow>
            local_port b = port \<and> (ip_addr_isany (local_ip b) \<or> ip_addr_isany ipaddr \<or> local_ip b = ipaddr)))
          (udp_pcbs s)
     then Some (ERR_USE, s)
     else do {
       s \<leftarrow> pcb_upd p (\<lambda>b. b\<lparr>local_ip := ipaddr\<rparr>) s;
       let (port, s) = (if port = 0 then udp_new_port s else (port, s));
       if port = 0 then Some (ERR_USE, s)
       else do {
         s \<leftarrow> pcb_upd p (\<lambda>b. b\<lparr>local_port := port\<rparr>) s;
         Some (ERR_OK, if p \<in> set (udp_pcbs s) then s else s\<lparr>udp_pcbs := p # udp_pcbs s\<rparr>) } } }"

definition udp_connect :: "nat \<Rightarrow> u32 \<Rightarrow> u16 \<Rightarrow> net \<Rightarrow> (err_t \<times> net) option" where
  "udp_connect p ipaddr port s = do {
     b \<leftarrow> pcb s p;
     (err, s) \<leftarrow> (if local_port b = 0 then udp_bind p (local_ip b) (local_port b) s else Some (ERR_OK, s));
     if err \<noteq> ERR_OK then Some (err, s)
     else do {
       s \<leftarrow> pcb_upd p (\<lambda>b. b\<lparr>remote_ip := ipaddr, remote_port := port,
                               u_flags := u_flags b OR UDP_FLAGS_CONNECTED\<rparr>) s;
       Some (ERR_OK, if p \<in> set (udp_pcbs s) then s else s\<lparr>udp_pcbs := p # udp_pcbs s\<rparr>) } }"

definition udp_disconnect :: "nat \<Rightarrow> net \<Rightarrow> net option" where
  "udp_disconnect p s =
     pcb_upd p (\<lambda>b. b\<lparr>remote_ip := 0, remote_port := 0, u_flags := u_flags b AND NOT UDP_FLAGS_CONNECTED\<rparr>) s"

definition udp_recv :: "nat \<Rightarrow> nat option \<Rightarrow> net \<Rightarrow> net option" where
  "udp_recv p f s = pcb_upd p (\<lambda>b. b\<lparr>recv := f\<rparr>) s"

definition udp_remove :: "nat \<Rightarrow> net \<Rightarrow> net option" where
  "udp_remove p s = do {
     b \<leftarrow> pcb s p;
     Some (s\<lparr>udp_pcbs := remove1 p (udp_pcbs s), pcb := (pcb s)(p := None), pcb_pool := p # pcb_pool s\<rparr>) }"

section \<open>Sending\<close>

text \<open>The header is put in front of the packet, in its own buffer when there is no room.\<close>

definition udp_add_header :: "nat \<Rightarrow> net \<Rightarrow> (nat option \<times> net) option" where
  "udp_add_header p s = do {
     (r, s) \<leftarrow> with_pbufs (pbuf_header (Some p) (int UDP_HLEN)) s;
     if r = 0 then Some (Some p, s)
     else do {
       (q, s) \<leftarrow> with_pbufs (pbuf_alloc PBUF_IP (of_nat UDP_HLEN) PBUF_RAM) s;
       case q of
         None \<Rightarrow> Some (None, s)
       | Some q \<Rightarrow> do {
           b \<leftarrow> heap (pbufs s) p;
           s \<leftarrow> (if p_tot_len b \<noteq> 0 then do_pbufs (pbuf_chain (Some q) (Some p)) s else Some s);
           Some (Some q, s) } } }"

definition udp_drop_header :: "nat \<Rightarrow> nat \<Rightarrow> net \<Rightarrow> net option" where
  "udp_drop_header q p s = (if q \<noteq> p then map_option snd (with_pbufs (pbuf_free (Some q)) s) else Some s)"

definition udp_checksum :: "nat \<Rightarrow> u32 \<Rightarrow> u32 \<Rightarrow> net \<Rightarrow> u16 option" where
  "udp_checksum q src_ip dst_ip s = do {
     b \<leftarrow> heap (pbufs s) q;
     c \<leftarrow> inet_chksum_pseudo (Some q) src_ip dst_ip IP_PROTO_UDP (p_tot_len b) (pbufs s);
     Some (if c = 0 then 0xFFFF else c) }"

text \<open>The length, the checksum and the call of \<open>ip_output_if\<close>, for a source address already chosen.\<close>

definition udp_output :: "udp_pcb \<Rightarrow> nat \<Rightarrow> nat \<Rightarrow> u32 \<Rightarrow> u32 \<Rightarrow> netif \<Rightarrow> net \<Rightarrow> (err_t \<times> net) option" where
  "udp_output b q p src_ip dst_ip netif s = do {
     qb \<leftarrow> heap (pbufs s) q;
     s \<leftarrow> do_pbufs (payload_write q 4 (le16 (htons (p_tot_len qb)))) s;
     s \<leftarrow> (if u_flags b AND UDP_FLAGS_NOCHKSUM = 0
            then do { c \<leftarrow> udp_checksum q src_ip dst_ip s; do_pbufs (payload_write q 6 (le16 c)) s }
            else Some s);
     (err, s) \<leftarrow> ip_output_if q src_ip dst_ip (pcb_ttl b) (pcb_tos b) IP_PROTO_UDP netif s;
     s \<leftarrow> udp_drop_header q p s;
     Some (err, s) }"

definition udp_sendto_if :: "nat \<Rightarrow> nat \<Rightarrow> u32 \<Rightarrow> u16 \<Rightarrow> netif \<Rightarrow> net \<Rightarrow> (err_t \<times> net) option" where
  "udp_sendto_if u p dst_ip dst_port netif s = do {
     b \<leftarrow> pcb s u;
     (err, s) \<leftarrow> (if local_port b = 0 then udp_bind u (local_ip b) (local_port b) s else Some (ERR_OK, s));
     if err \<noteq> ERR_OK then Some (err, s)
     else do {
       (q, s) \<leftarrow> udp_add_header p s;
       case q of
         None \<Rightarrow> Some (ERR_MEM, s)
       | Some q \<Rightarrow> do {
           b \<leftarrow> pcb s u;
           s \<leftarrow> do_pbufs (payload_write q 0 (le16 (htons (local_port b)) @ le16 (htons dst_port))) s;
           s \<leftarrow> do_pbufs (payload_write q 6 (le16 0)) s;
           if ip_addr_isany (local_ip b) then udp_output b q p (nif_ip netif) dst_ip netif s
           else if local_ip b \<noteq> nif_ip netif then do { s \<leftarrow> udp_drop_header q p s; Some (ERR_VAL, s) }
           else udp_output b q p (local_ip b) dst_ip netif s } } }"

definition udp_sendto :: "nat \<Rightarrow> nat \<Rightarrow> u32 \<Rightarrow> u16 \<Rightarrow> net \<Rightarrow> (err_t \<times> net) option" where
  "udp_sendto u p dst_ip dst_port s = (case ip_route dst_ip s of
       None \<Rightarrow> Some (ERR_RTE, s)
     | Some netif \<Rightarrow> udp_sendto_if u p dst_ip dst_port netif s)"

definition udp_send :: "nat \<Rightarrow> nat \<Rightarrow> net \<Rightarrow> (err_t \<times> net) option" where
  "udp_send u p s = do { b \<leftarrow> pcb s u; udp_sendto u p (remote_ip b) (remote_port b) s }"

section \<open>Receiving\<close>

definition local_match :: "net \<Rightarrow> netif \<Rightarrow> u16 \<Rightarrow> bool \<Rightarrow> udp_pcb \<Rightarrow> bool" where
  "local_match s inp dest broadcast b \<longleftrightarrow> local_port b = dest \<and>
     (\<not> broadcast \<and> ip_addr_isany (local_ip b)
      \<or> local_ip b = current_iphdr_dest s
      \<or> broadcast \<and> (ip_addr_isany (local_ip b)
                     \<or> ip_addr_netcmp (local_ip b) (current_iphdr_dest s) (nif_mask inp)))"

fun match_loop :: "(udp_pcb \<Rightarrow> bool) \<Rightarrow> u16 \<Rightarrow> net \<Rightarrow> nat list \<Rightarrow> nat option \<Rightarrow> (nat option \<times> nat option) option" where
  "match_loop lm src s [] uncon = Some (None, uncon)"
| "match_loop lm src s (a # as) uncon = do {
     b \<leftarrow> pcb s a;
     let uncon = (if lm b \<and> uncon = None \<and> u_flags b AND UDP_FLAGS_CONNECTED = 0 then Some a else uncon);
     if lm b \<and> remote_port b = src \<and> (ip_addr_isany (remote_ip b) \<or> remote_ip b = current_iphdr_src s)
     then Some (Some a, uncon)
     else match_loop lm src s as uncon }"

definition udp_find_pcb :: "netif \<Rightarrow> u16 \<Rightarrow> u16 \<Rightarrow> bool \<Rightarrow> net \<Rightarrow> (nat option \<times> net) option" where
  "udp_find_pcb inp src dest broadcast s = do {
     (found, uncon) \<leftarrow> match_loop (local_match s inp dest broadcast) src s (udp_pcbs s) None;
     case found of
       Some a \<Rightarrow> Some (Some a, s\<lparr>udp_pcbs := a # remove1 a (udp_pcbs s)\<rparr>)
     | None \<Rightarrow> Some (uncon, s) }"

text \<open>
  How \<open>udp_input\<close> ends: the packet was dealt with, or as its last act it calls the function
  number \<open>f\<close> that \<open>udp_recv\<close> registered, \<open>pcb->recv(pcb->recv_arg, pcb, p, addr, port)\<close>.
\<close>

datatype udp_action = Udp_done | Udp_call nat nat nat u32 u16

definition drop_packet :: "nat \<Rightarrow> net \<Rightarrow> (udp_action \<times> net) option" where
  "drop_packet p s = map_option (\<lambda>(n, s). (Udp_done, s)) (with_pbufs (pbuf_free (Some p)) s)"

definition udp_deliver :: "nat option \<Rightarrow> nat \<Rightarrow> nat \<Rightarrow> bool \<Rightarrow> u16 \<Rightarrow> net \<Rightarrow> (udp_action \<times> net) option" where
  "udp_deliver u p hlen broadcast src s = (case u of
       Some u \<Rightarrow> do {
         b \<leftarrow> pcb s u;
         case recv b of
           Some f \<Rightarrow> Some (Udp_call f u p (current_iphdr_src s) src, s)
         | None \<Rightarrow> drop_packet p s }
     | None \<Rightarrow> do {
         s \<leftarrow> (if \<not> broadcast \<and> \<not> ip_addr_ismulticast (current_iphdr_dest s)
                then do {
                  (r, s) \<leftarrow> with_pbufs (pbuf_header (Some p) (int (hlen + UDP_HLEN))) s;
                  d \<leftarrow> packet p s;
                  Some (snd (emit (Icmp_dest_unreach d 3) s)) }
                else Some s);
         drop_packet p s })"

definition udp_input :: "nat \<Rightarrow> netif \<Rightarrow> net \<Rightarrow> (udp_action \<times> net) option" where
  "udp_input p inp s = do {
     b \<leftarrow> heap (pbufs s) p;
     vhl \<leftarrow> payload_read p 0 1 (pbufs s);
     let hlen = unat (hd vhl AND 0x0F) * 4;
     (short, s) \<leftarrow> (if unat (p_tot_len b) < hlen + UDP_HLEN then Some (1, s)
                    else with_pbufs (pbuf_header (Some p) (- int hlen)) s);
     if short \<noteq> 0 then drop_packet p s
     else do {
       h \<leftarrow> payload_read p 0 UDP_HLEN (pbufs s);
       let broadcast = ip4_addr_isbroadcast (current_iphdr_dest s) inp;
       let src = htons (of_le16 (take 2 h));
       let dest = htons (of_le16 (take 2 (drop 2 h)));
       (u, s) \<leftarrow> udp_find_pcb inp src dest broadcast s;
       if u \<noteq> None \<or> nif_ip inp = current_iphdr_dest s then do {
         b \<leftarrow> heap (pbufs s) p;
         c \<leftarrow> (if of_le16 (drop 6 h) \<noteq> 0
                then inet_chksum_pseudo (Some p) (current_iphdr_src s) (current_iphdr_dest s) IP_PROTO_UDP
                       (p_tot_len b) (pbufs s)
                else Some 0);
         if c \<noteq> 0 then drop_packet p s
         else do {
           (r, s) \<leftarrow> with_pbufs (pbuf_header (Some p) (- int UDP_HLEN)) s;
           if r \<noteq> 0 then drop_packet p s
           else udp_deliver u p hlen broadcast src s } }
       else drop_packet p s } }"

section \<open>Sending a datagram\<close>

definition udp_header :: "u16 \<Rightarrow> u16 \<Rightarrow> u16 \<Rightarrow> u16 \<Rightarrow> bytes" where
  "udp_header sp dp len chk = le16 (htons sp) @ le16 (htons dp) @ le16 (htons len) @ le16 chk"

lemma udp_header_length [simp]: "length (udp_header sp dp len chk) = 8"
  by (simp add: udp_header_def)

lemma le_sum_udp_header:
  "le_sum (udp_header sp dp len chk @ d) = le_sum (udp_header sp dp len 0 @ d) + unat chk"
  by (simp add: udp_header_def le_sum_append_even le_sum_le16)

text \<open>\<open>checksum_ok\<close>: a receiver accepts the checksum of the datagram.\<close>

definition checksum_ok :: "u32 \<Rightarrow> u32 \<Rightarrow> bytes \<Rightarrow> bool" where
  "checksum_ok src dst d \<longleftrightarrow>
     norm16 (le_sum d + unat (pseudo_sum src dst IP_PROTO_UDP (of_nat (length d)))) = 65535"

lemma udp_checksum_chain:
  assumes "owned (pbufs s) p (p # rest)" "length (p # rest) \<le> chain_fuel"
    and "chain_data (pbufs s) (p # rest) = udp_header sp dp len 0 @ d"
  shows "\<exists>c. udp_checksum p src dst s = Some c \<and> c \<noteq> 0 \<and> checksum_ok src dst (udp_header sp dp len c @ d)"
proof -
  from assms(1) obtain b where b: "heap (pbufs s) p = Some b"
    "unat (p_tot_len b) = length (chain_data (pbufs s) (p # rest))" "pchain (pbufs s) (Some p) (p # rest)"
    by (auto simp: owned_def exclusive_def split: option.splits)
  have tl: "p_tot_len b = of_nat (length (udp_header sp dp len 0 @ d))"
    using arg_cong [OF b(2), of "of_nat :: nat \<Rightarrow> u16"] unfolding assms(3) by simp
  let ?ps = "pseudo_sum src dst IP_PROTO_UDP (p_tot_len b)"
  let ?n = "le_sum (udp_header sp dp len 0 @ d) + unat ?ps"
  from inet_chksum_pseudo_chain [OF b(3) assms(2), of src dst IP_PROTO_UDP "p_tot_len b"] obtain w where
    w: "inet_chksum_pseudo (Some p) src dst IP_PROTO_UDP (p_tot_len b) (pbufs s) = Some w"
      "unat w = 65535 - norm16 ?n" unfolding assms(3) by blast
  define c where "c = (if w = 0 then 0xFFFF else w)"
  have cn: "c \<noteq> 0" by (simp add: c_def)
  have un: "unat c = (if norm16 ?n = 65535 then 65535 else 65535 - norm16 ?n)"
    using w(2) norm16_le [of ?n] by (auto simp: c_def unat_eq_zero)
  have "65535 = norm16 (?n + unat c)"
  proof (rule norm16_unique)
    have "(?n + unat c) mod 65535 = (norm16 ?n + unat c) mod 65535"
      by (rule mod_add_cong) (simp_all add: norm16_cong)
    also have "\<dots> = 0" using un norm16_le [of ?n] by (cases "norm16 ?n = 65535") simp_all
    finally show "65535 mod 65535 = (?n + unat c) mod 65535" by simp
    show "(65535 :: nat) = 0 \<longleftrightarrow> ?n + unat c = 0" using cn by (simp add: unat_eq_zero)
  qed simp
  then have "checksum_ok src dst (udp_header sp dp len c @ d)"
    unfolding checksum_ok_def le_sum_udp_header [of _ _ _ c] by (simp add: tl algebra_simps)
  moreover have "udp_checksum p src dst s = Some c"
    using b(1) w(1) by (simp add: udp_checksum_def c_def)
  ultimately show ?thesis using cn by blast
qed

lemma pick_write:
  assumes "owned m p (p # rest)" "heap m p = Some b" "off + length d \<le> unat (p_len b)"
    and "chain_data m (p # rest) = c" "c' = take off c @ d @ drop (off + length d) c"
  shows "\<exists>m'. payload_write p off d m = Some m' \<and> hd_edit m m' p \<and> owned m' p (p # rest) \<and> heap m' = heap m
     \<and> chain_data m' (p # rest) = c'"
  using payload_write_chain [OF assms(1-3)] unfolding assms(4,5) .

text \<open>
  A packet the sender owns, with room for the headers, leaves as one IP packet whose UDP
  header carries the ports, the length and a checksum the receiver accepts; the sender still
  owns the packet.
\<close>

lemma udp_sendto_if_chain:
  assumes "owned (pbufs s) p (p # rest)" "length (p # rest) \<le> chain_fuel" "heap (pbufs s) p = Some b"
    and "p_type b = PBUF_RAM \<or> p_type b = PBUF_POOL" "28 \<le> p_payload b" "unat (p_tot_len b) + 28 < 65536"
    and u: "pcb s u = Some ub" "local_port ub \<noteq> 0" "local_ip ub = nif_ip netif \<or> ip_addr_isany (local_ip ub)"
  shows "\<exists>m c. let src = nif_ip netif;
       dgram = udp_header (local_port ub) dst_port (p_tot_len b + 8) c @ chain_data (pbufs s) (p # rest);
       d = ip_header (pcb_tos ub) (p_tot_len b + 28) (ip_id s) (pcb_ttl ub) IP_PROTO_UDP src dst_ip @ dgram
     in udp_sendto_if u p dst_ip dst_port netif s
       = Some (link_err s (ip_event netif d dst_ip),
           s\<lparr>pbufs := m, ip_id := ip_id s + 1, events := events s @ [ip_event netif d dst_ip]\<rparr>)
     \<and> hd_edit (pbufs s) m p \<and> owned m p (p # rest)
     \<and> (if u_flags ub AND UDP_FLAGS_NOCHKSUM = 0 then c \<noteq> 0 \<and> checksum_ok src dst_ip dgram else c = 0)"
proof -
  have r8: "8 \<le> p_payload b" "unat (p_tot_len b) + 8 < 65536" "0 < (8::nat)" using assms(5,6) by simp_all
  let ?D = "chain_data (pbufs s) (p # rest)"
  from pbuf_header_chain [OF assms(1,3,4) r8(3,1,2)] obtain m1 b1 h where
    m1: "pbuf_header (Some p) 8 (pbufs s) = Some (0, m1)" "hd_edit (pbufs s) m1 p" "owned m1 p (p # rest)"
      "heap m1 p = Some b1" "p_payload b1 = p_payload b - 8" "unat (p_len b1) = unat (p_len b) + 8"
      "unat (p_tot_len b1) = unat (p_tot_len b) + 8" "p_type b1 = p_type b"
      "length h = 8" "chain_data m1 (p # rest) = h @ ?D" by auto
  have tl: "p_tot_len b1 = p_tot_len b + 8"
    using m1(7) assms(6) by (simp add: word_unat_eq_iff unat_word_ariths)
  let ?sp = "le16 (htons (local_port ub))" and ?dp = "le16 (htons dst_port)" and ?tl = "le16 (htons (p_tot_len b1))"
  have ex: "\<exists>m'. payload_write p 0 (?sp @ ?dp) m1 = Some m' \<and> hd_edit m1 m' p \<and> owned m' p (p # rest)
      \<and> heap m' = heap m1 \<and> chain_data m' (p # rest) = ?sp @ ?dp @ drop 4 h @ ?D"
    by (rule pick_write [OF m1(3,4) _ m1(10)]) (use m1(6,9) in simp_all)
  then obtain m2 where m2: "payload_write p 0 (?sp @ ?dp) m1 = Some m2" "hd_edit m1 m2 p" "owned m2 p (p # rest)"
    "heap m2 = heap m1" "chain_data m2 (p # rest) = ?sp @ ?dp @ drop 4 h @ ?D" by blast
  note h2 = m1(4) [folded m2(4)]
  have ex: "\<exists>m'. payload_write p 6 (le16 0) m2 = Some m' \<and> hd_edit m2 m' p \<and> owned m' p (p # rest)
      \<and> heap m' = heap m2 \<and> chain_data m' (p # rest) = ?sp @ ?dp @ take 2 (drop 4 h) @ le16 0 @ ?D"
    by (rule pick_write [OF m2(3) h2 _ m2(5)]) (use m1(6,9) in simp_all)
  then obtain m3 where m3: "payload_write p 6 (le16 0) m2 = Some m3" "hd_edit m2 m3 p" "owned m3 p (p # rest)"
    "heap m3 = heap m2" "chain_data m3 (p # rest) = ?sp @ ?dp @ take 2 (drop 4 h) @ le16 0 @ ?D" by blast
  note h3 = h2 [folded m3(4)]
  have ex: "\<exists>m'. payload_write p 4 ?tl m3 = Some m' \<and> hd_edit m3 m' p \<and> owned m' p (p # rest)
      \<and> heap m' = heap m3 \<and> chain_data m' (p # rest) = udp_header (local_port ub) dst_port (p_tot_len b1) 0 @ ?D"
    by (rule pick_write [OF m3(3) h3 _ m3(5)]) (use m1(6,9) in \<open>simp_all add: udp_header_def\<close>)
  then obtain m4 where m4: "payload_write p 4 ?tl m3 = Some m4" "hd_edit m3 m4 p" "owned m4 p (p # rest)"
    "heap m4 = heap m3" "chain_data m4 (p # rest) = udp_header (local_port ub) dst_port (p_tot_len b1) 0 @ ?D" by blast
  note h4 = h3 [folded m4(4)]
  let ?s4 = "s\<lparr>pbufs := m4\<rparr>"
  let ?src = "nif_ip netif"
  have "\<exists>c. udp_checksum p ?src dst_ip ?s4 = Some c \<and> c \<noteq> 0
     \<and> checksum_ok ?src dst_ip (udp_header (local_port ub) dst_port (p_tot_len b1) c @ ?D)"
    by (rule udp_checksum_chain [OF _ assms(2)]) (use m4(3,5) in simp_all)
  then obtain c where c: "udp_checksum p ?src dst_ip ?s4 = Some c" "c \<noteq> 0"
     "checksum_ok ?src dst_ip (udp_header (local_port ub) dst_port (p_tot_len b1) c @ ?D)" by blast
  have ex: "\<exists>m'. payload_write p 6 (le16 c) m4 = Some m' \<and> hd_edit m4 m' p \<and> owned m' p (p # rest)
      \<and> heap m' = heap m4 \<and> chain_data m' (p # rest) = udp_header (local_port ub) dst_port (p_tot_len b1) c @ ?D"
    by (rule pick_write [OF m4(3) h4 _ m4(5)]) (use m1(6) in \<open>simp_all add: udp_header_def\<close>)
  then obtain m5 where m5: "payload_write p 6 (le16 c) m4 = Some m5" "hd_edit m4 m5 p" "owned m5 p (p # rest)"
    "heap m5 = heap m4" "chain_data m5 (p # rest) = udp_header (local_port ub) dst_port (p_tot_len b1) c @ ?D" by blast
  have ed4: "hd_edit (pbufs s) m4 p" using m1(2) m2(2) m3(2) m4(2) hd_edit_trans by blast
  have ed5: "hd_edit (pbufs s) m5 p" using ed4 m5(2) by (rule hd_edit_trans)
  define nochk where "nochk \<longleftrightarrow> u_flags ub AND UDP_FLAGS_NOCHKSUM \<noteq> 0"
  define m6 where "m6 = (if nochk then m4 else m5)"
  define c6 where "c6 = (if nochk then 0 else c)"
  let ?dgram = "udp_header (local_port ub) dst_port (p_tot_len b1) c6 @ ?D"
  have m6: "owned m6 p (p # rest)" "heap m6 p = Some b1" "hd_edit (pbufs s) m6 p" "chain_data m6 (p # rest) = ?dgram"
    using m4 m5 h4 ed4 ed5 by (simp_all add: m6_def c6_def)
  let ?d = "ip_header (pcb_tos ub) (p_tot_len b1 + 20) (ip_id s) (pcb_ttl ub) IP_PROTO_UDP ?src dst_ip @ ?dgram"
  let ?s6 = "s\<lparr>pbufs := m6\<rparr>"
  have src: "(if ip_addr_isany (local_ip ub) then nif_ip netif else local_ip ub) = ?src" using u(3) by auto
  have "\<exists>m. ip_output_if p ?src dst_ip (pcb_ttl ub) (pcb_tos ub) IP_PROTO_UDP netif ?s6
       = Some (link_err ?s6 (ip_event netif ?d dst_ip),
           ?s6\<lparr>pbufs := m, ip_id := ip_id ?s6 + 1, events := events ?s6 @ [ip_event netif ?d dst_ip]\<rparr>)
     \<and> hd_edit (pbufs ?s6) m p \<and> owned m p (p # rest)"
  proof (rule ip_output_if_chain [OF _ assms(2)])
    show "owned (pbufs ?s6) p (p # rest)" "heap (pbufs ?s6) p = Some b1" using m6 by simp_all
    show "?d = ip_header (pcb_tos ub) (p_tot_len b1 + 20) (ip_id ?s6) (pcb_ttl ub) IP_PROTO_UDP
      (if ip_addr_isany ?src then nif_ip netif else ?src) dst_ip @ chain_data (pbufs ?s6) (p # rest)"
      using m6(4) by simp
  qed (use m1(5,7,8) assms(4-6) in simp_all)
  then obtain m where m: "ip_output_if p ?src dst_ip (pcb_ttl ub) (pcb_tos ub) IP_PROTO_UDP netif ?s6
       = Some (link_err s (ip_event netif ?d dst_ip),
           s\<lparr>pbufs := m, ip_id := ip_id s + 1, events := events s @ [ip_event netif ?d dst_ip]\<rparr>)"
     "hd_edit m6 m p" "owned m p (p # rest)" by auto
  have run1: "udp_output ub p p ?src dst_ip netif (s\<lparr>pbufs := m3\<rparr>)
       = Some (link_err s (ip_event netif ?d dst_ip),
           s\<lparr>pbufs := m, ip_id := ip_id s + 1, events := events s @ [ip_event netif ?d dst_ip]\<rparr>)"
  proof (cases nochk)
    case True
    then show ?thesis using m(1) m4(1) h3 nochk_def
      by (simp add: udp_output_def do_pbufs_def udp_drop_header_def m6_def c6_def)
  next
    case False
    then show ?thesis using m(1) m4(1) m5(1) h3 nochk_def c(1)
      by (simp add: udp_output_def do_pbufs_def udp_drop_header_def m6_def c6_def)
  qed
  have "udp_sendto_if u p dst_ip dst_port netif s = udp_output ub p p ?src dst_ip netif (s\<lparr>pbufs := m3\<rparr>)"
    using u m1(1) m2(1) m3(1)
    by (auto simp: udp_sendto_if_def udp_add_header_def UDP_HLEN_def with_pbufs_def do_pbufs_def)
  note run = this [unfolded run1]
  have e: "p_tot_len b1 + 20 = p_tot_len b + 28" by (simp add: tl)
  have "hd_edit (pbufs s) m p" using m6(3) m(2) by (rule hd_edit_trans)
  then show ?thesis using run m(3) c(2,3)
    by (intro exI [of _ m] exI [of _ c6]) (simp add: Let_def e tl [symmetric] c6_def nochk_def)
qed

section \<open>Ports\<close>

definition in_range :: "u16 \<Rightarrow> bool" where
  "in_range port \<longleftrightarrow> 49152 \<le> unat port"

lemma next_port_offset:
  assumes "in_range port"
  shows "in_range (next_port port)" "unat (next_port port) - 49152 = (unat port - 49152 + 1) mod 16384"
proof -
  have "in_range (next_port port) \<and> unat (next_port port) - 49152 = (unat port - 49152 + 1) mod 16384"
  proof (cases "port = 0xFFFF")
    case True
    then show ?thesis by (simp add: in_range_def next_port_def UDP_LOCAL_PORT_RANGE_START_def UDP_LOCAL_PORT_RANGE_END_def)
  next
    case False
    have "unat port < 65536" by (rule u16_bound)
    moreover have "unat port \<noteq> 65535" using False by (simp add: word_unat_eq_iff)
    ultimately show ?thesis using False assms
      by (simp add: next_port_def UDP_LOCAL_PORT_RANGE_START_def UDP_LOCAL_PORT_RANGE_END_def in_range_def
          unat_word_ariths)
  qed
  then show "in_range (next_port port)" "unat (next_port port) - 49152 = (unat port - 49152 + 1) mod 16384" by blast+
qed

lemma next_port_iter:
  assumes "in_range port"
  shows "in_range ((next_port ^^ i) port) \<and> unat ((next_port ^^ i) port) - 49152 = (unat port - 49152 + i) mod 16384"
proof (induction i)
  case 0
  have "unat port < 65536" by (rule u16_bound)
  then show ?case using assms by simp
next
  case (Suc i)
  then show ?case using next_port_offset [of "(next_port ^^ i) port"] by (simp add: mod_Suc_eq)
qed

lemma mod_add_inj:
  assumes "(x + i) mod m = (x + j) mod (m :: nat)" "i < m" "j < m"
  shows "i = j"
proof -
  have le: "i = j" if "i \<le> j" "(x + i) mod m = (x + j) mod m" "j < m" for i j
  proof -
    have "m dvd (x + j) - (x + i)" using that mod_eq_dvd_iff_nat [of "x + i" "x + j" m] by simp
    then have "m dvd j - i" by simp
    moreover have "j - i < m" using that by simp
    ultimately have "j - i = 0" by (metis dvd_imp_le gr0I not_less)
    with that show ?thesis by simp
  qed
  show ?thesis using le [of i j] le [of j i] assms by (cases "i \<le> j") simp_all
qed

lemma next_port_inj:
  assumes "in_range port" "i < 16384" "j < 16384" "(next_port ^^ i) port = (next_port ^^ j) port"
  shows "i = j"
proof -
  have "(unat port - 49152 + i) mod 16384 = (unat port - 49152 + j) mod 16384"
    using next_port_iter [OF assms(1), of i] next_port_iter [OF assms(1), of j] assms(4) by simp
  with assms(2,3) show ?thesis using mod_add_inj by blast
qed

lemma new_port_loop_spec:
  assumes "in_range port" "new_port_loop k used port = (r, q)"
  shows "in_range q \<and> (if r = 0 then \<forall>i \<le> k. used ((next_port ^^ Suc i) port) else r = q \<and> \<not> used r)"
  using assms
proof (induction k arbitrary: port)
  case 0
  note n = next_port_offset(1) [OF 0(1)]
  have "next_port port \<noteq> 0" using n by (auto simp: in_range_def)
  then show ?case using 0(2) n by (auto simp: new_port_loop.simps [of 0] Let_def split: if_splits)
next
  case (Suc k)
  note n = next_port_offset(1) [OF Suc.prems(1)]
  have nz: "next_port port \<noteq> 0" using n by (auto simp: in_range_def)
  show ?case
  proof (cases "used (next_port port)")
    case True
    then have "new_port_loop k used (next_port port) = (r, q)"
      using Suc.prems(2) by (simp add: new_port_loop.simps [of "Suc k"] Let_def)
    note IH = Suc.IH [OF n this]
    show ?thesis
    proof (cases "r = 0")
      case r: True
      have "used ((next_port ^^ Suc i) port)" if "i \<le> Suc k" for i
        using IH r True that by (cases i) (auto simp: funpow_swap1)
      then show ?thesis using IH r by simp
    qed (use IH in auto)
  next
    case False
    then show ?thesis using Suc.prems(2) n nz by (auto simp: new_port_loop.simps [of "Suc k"] Let_def)
  qed
qed

lemma port_used_iff: "port_used s port \<longleftrightarrow> (\<exists>a \<in> set (udp_pcbs s). \<exists>b. pcb s a = Some b \<and> local_port b = port)"
  by (auto simp: port_used_def list_ex_iff split: option.splits)

lemma udp_new_port_spec:
  assumes "in_range (udp_port s)" "length (udp_pcbs s) \<le> 0x3FFF"
  shows "\<exists>port. udp_new_port s = (port, s\<lparr>udp_port := port\<rparr>) \<and> in_range port \<and> \<not> port_used s port"
proof -
  obtain r q where l: "new_port_loop 0x3FFF (port_used s) (udp_port s) = (r, q)" by fastforce
  note sp = new_port_loop_spec [OF assms(1) l]
  have e: "udp_new_port s = (r, s\<lparr>udp_port := q\<rparr>)"
    using l by (simp add: udp_new_port_def UDP_LOCAL_PORT_RANGE_START_def UDP_LOCAL_PORT_RANGE_END_def)
  have "r \<noteq> 0"
  proof
    assume "r = 0"
    with sp have u: "port_used s ((next_port ^^ i) (udp_port s))" if "i \<in> {1..0x4000}" for i
      using that by (cases i) auto
    let ?P = "(\<lambda>a. case pcb s a of None \<Rightarrow> 0 | Some b \<Rightarrow> local_port b) ` set (udp_pcbs s)"
    have "(\<lambda>i. (next_port ^^ i) (next_port (udp_port s))) ` {..<0x4000} \<subseteq> ?P"
    proof
      fix x assume "x \<in> (\<lambda>i. (next_port ^^ i) (next_port (udp_port s))) ` {..<0x4000}"
      then obtain i where "i < 0x4000" "x = (next_port ^^ Suc i) (udp_port s)" by (auto simp: funpow_swap1)
      with u [of "Suc i"] show "x \<in> ?P" by (force simp: port_used_iff)
    qed
    moreover have "inj_on (\<lambda>i. (next_port ^^ i) (next_port (udp_port s))) {..<0x4000}"
      using next_port_inj [OF next_port_offset(1) [OF assms(1)]] by (intro inj_onI) simp
    ultimately have "card {..<0x4000 :: nat} \<le> card ?P" by (metis card_image card_mono finite_imageI finite_set)
    also have "\<dots> \<le> length (udp_pcbs s)" by (meson card_image_le card_length finite_set le_trans)
    finally show False using assms(2) by simp
  qed
  then show ?thesis using sp e by auto
qed

text \<open>
  \<open>udp_ok\<close>: the linked blocks are allocated and distinct, and no two of them can both be
  the receiver of a datagram: they differ in the port, or in two specific local addresses.
\<close>

definition overlap :: "udp_pcb \<Rightarrow> udp_pcb \<Rightarrow> bool" where
  "overlap b c \<longleftrightarrow> local_port b = local_port c \<and>
     (ip_addr_isany (local_ip b) \<or> ip_addr_isany (local_ip c) \<or> local_ip b = local_ip c)"

definition udp_ok :: "net \<Rightarrow> bool" where
  "udp_ok s \<longleftrightarrow> distinct (udp_pcbs s) \<and> length (udp_pcbs s) \<le> 0x3FFF \<and> in_range (udp_port s)
     \<and> (\<forall>a \<in> set (udp_pcbs s). pcb s a \<noteq> None)
     \<and> (\<forall>a \<in> set (udp_pcbs s). \<forall>c \<in> set (udp_pcbs s). a \<noteq> c \<longrightarrow> \<not> overlap (the (pcb s a)) (the (pcb s c)))
     \<and> (\<forall>a \<in> set (pcb_pool s). pcb s a = None)"

lemma udp_bind_ok:
  assumes "udp_ok s" "pcb s p \<noteq> None" "length (udp_pcbs s) < 0x3FFF" "udp_bind p ipaddr port s = Some (e, s')"
  shows "udp_ok s'" "e = ERR_OK \<Longrightarrow> p \<in> set (udp_pcbs s') \<and> local_ip (the (pcb s' p)) = ipaddr
       \<and> (port \<noteq> 0 \<longrightarrow> local_port (the (pcb s' p)) = port)"
proof -
  from assms(2) obtain b where b: "pcb s p = Some b" by blast
  define s1 where "s1 = s\<lparr>pcb := (pcb s)(p \<mapsto> b\<lparr>local_ip := ipaddr\<rparr>)\<rparr>"
  have "udp_ok s' \<and> (e = ERR_OK \<longrightarrow> p \<in> set (udp_pcbs s') \<and> local_ip (the (pcb s' p)) = ipaddr
       \<and> (port \<noteq> 0 \<longrightarrow> local_port (the (pcb s' p)) = port))"
  proof (cases "\<exists>a \<in> set (udp_pcbs s). a \<noteq> p \<and> local_port (the (pcb s a)) = port \<and>
      (ip_addr_isany (local_ip (the (pcb s a))) \<or> ip_addr_isany ipaddr \<or> local_ip (the (pcb s a)) = ipaddr)")
    case True
    then have "e = ERR_USE" "s' = s" using assms(1,4) b
      by (auto simp: udp_bind_def list_ex_iff udp_ok_def split: option.splits if_splits)
    then show ?thesis using assms(1) by simp
  next
    case False
    then have nc: "\<not> list_ex (\<lambda>a. a \<noteq> p \<and> (case pcb s a of None \<Rightarrow> False | Some b \<Rightarrow>
            local_port b = port \<and> (ip_addr_isany (local_ip b) \<or> ip_addr_isany ipaddr \<or> local_ip b = ipaddr)))
          (udp_pcbs s)"
      by (force simp: list_ex_iff split: option.splits)
    have pu: "port_used s1 x = port_used s x" for x
    proof -
      have "(case pcb s1 a of None \<Rightarrow> False | Some c \<Rightarrow> local_port c = x)
          = (case pcb s a of None \<Rightarrow> False | Some c \<Rightarrow> local_port c = x)" for a
        using b by (simp add: s1_def)
      then show ?thesis by (simp add: port_used_def) (simp add: s1_def)
    qed
    define pn where "pn = (if port = 0 then udp_new_port s1 else (port, s1))"
    have "\<exists>q. pn = (q, s1\<lparr>udp_port := (if port = 0 then q else udp_port s)\<rparr>) \<and> q \<noteq> 0 \<and> in_range (if port = 0 then q else udp_port s)
       \<and> (\<forall>c \<in> set (udp_pcbs s). c \<noteq> p \<longrightarrow> \<not> overlap (b\<lparr>local_ip := ipaddr, local_port := q\<rparr>) (the (pcb s c)))
       \<and> (port \<noteq> 0 \<longrightarrow> q = port)"
    proof (cases "port = 0")
      case True
      have "in_range (udp_port s1)" "length (udp_pcbs s1) \<le> 0x3FFF"
        using assms(1) by (simp_all add: udp_ok_def s1_def)
      from udp_new_port_spec [OF this] obtain q where q: "udp_new_port s1 = (q, s1\<lparr>udp_port := q\<rparr>)" "in_range q"
        "\<not> port_used s q" by (auto simp: pu)
      have "q \<noteq> 0" using q(2) by (auto simp: in_range_def)
      with q True assms(1) show ?thesis
        by (force simp: pn_def overlap_def port_used_iff udp_ok_def)
    next
      case p0: False
      then show ?thesis using False assms(1) by (auto simp: pn_def overlap_def udp_ok_def s1_def)
    qed
    then obtain q where q: "pn = (q, s1\<lparr>udp_port := (if port = 0 then q else udp_port s)\<rparr>)" "q \<noteq> 0"
       "in_range (if port = 0 then q else udp_port s)"
       "\<forall>c \<in> set (udp_pcbs s). c \<noteq> p \<longrightarrow> \<not> overlap (b\<lparr>local_ip := ipaddr, local_port := q\<rparr>) (the (pcb s c))"
       "port \<noteq> 0 \<longrightarrow> q = port" by blast
    define s3 where "s3 = s\<lparr>pcb := (pcb s)(p \<mapsto> b\<lparr>local_ip := ipaddr, local_port := q\<rparr>),
       udp_port := (if port = 0 then q else udp_port s),
       udp_pcbs := (if p \<in> set (udp_pcbs s) then udp_pcbs s else p # udp_pcbs s)\<rparr>"
    have "e = ERR_OK \<and> s' = s3" using assms(4) b nc q(1,2)
      by (auto simp: udp_bind_def pcb_upd_def s1_def [symmetric] pn_def [symmetric] s3_def)
        (auto simp: s1_def)
    moreover have "udp_ok s3"
      using assms(1,3) b q(3,4) by (auto simp: udp_ok_def s3_def overlap_def)
    ultimately show ?thesis using q(5) by (simp add: s3_def)
  qed
  then show "udp_ok s'" "e = ERR_OK \<Longrightarrow> p \<in> set (udp_pcbs s') \<and> local_ip (the (pcb s' p)) = ipaddr
       \<and> (port \<noteq> 0 \<longrightarrow> local_port (the (pcb s' p)) = port)" by blast+
qed

lemma udp_new_ok:
  assumes "udp_ok s" "distinct (pcb_pool s)" "udp_new s = (Some p, s')"
  shows "udp_ok s'" "pcb s' p \<noteq> None" "p \<notin> set (udp_pcbs s')"
proof -
  from assms(3) obtain as b where p: "pcb_pool s = p # as"
    "s' = s\<lparr>pcb_pool := as, pcb := (pcb s)(p \<mapsto> b)\<rparr>" by (auto simp: udp_new_def split: list.splits)
  then have n: "pcb s p = None" "p \<notin> set as" using assms(1,2) by (auto simp: udp_ok_def)
  with assms(1) have m: "p \<notin> set (udp_pcbs s)" by (auto simp: udp_ok_def)
  then have "(if a = p then Some b else pcb s a) = pcb s a" if "a \<in> set (udp_pcbs s)" for a using that by auto
  with assms(1) p n show "udp_ok s'" by (auto simp: udp_ok_def)
  show "pcb s' p \<noteq> None" "p \<notin> set (udp_pcbs s')" using p m by simp_all
qed

lemma udp_remove_ok:
  assumes "udp_ok s" "udp_remove p s = Some s'"
  shows "udp_ok s'" "p \<notin> set (udp_pcbs s')"
  using assms by (auto simp: udp_remove_def udp_ok_def length_remove1 split: Option.bind_splits)

section \<open>One-buffer answers\<close>

text \<open>
  \<open>sent_bytes\<close>: the IP packet that carries \<open>d\<close> from the bound block \<open>ub\<close>. The two lemmas
  send a one-buffer packet and give the buffer back: one event, no buffer lost.
\<close>

definition sent_bytes :: "udp_pcb \<Rightarrow> netif \<Rightarrow> u16 \<Rightarrow> u32 \<Rightarrow> u16 \<Rightarrow> u16 \<Rightarrow> bytes \<Rightarrow> bytes" where
  "sent_bytes ub netif ident dst_ip dst_port c d =
     ip_header (pcb_tos ub) (of_nat (length d) + 28) ident (pcb_ttl ub) IP_PROTO_UDP (nif_ip netif) dst_ip
     @ udp_header (local_port ub) dst_port (of_nat (length d) + 8) c @ d"

definition can_send :: "net \<Rightarrow> nat \<Rightarrow> udp_pcb \<Rightarrow> netif \<Rightarrow> u32 \<Rightarrow> bool" where
  "can_send s u ub netif dst_ip \<longleftrightarrow> pcb s u = Some ub \<and> local_port ub \<noteq> 0 \<and> ip_route dst_ip s = Some netif
     \<and> (local_ip ub = nif_ip netif \<or> ip_addr_isany (local_ip ub)) \<and> u_flags ub AND UDP_FLAGS_NOCHKSUM = 0"

lemma send_and_free:
  assumes "owned (pbufs s) q [q]" "heap (pbufs s) q = Some b" "p_type b = PBUF_POOL" "p_payload b = 56"
    and "chain_data (pbufs s) [q] = d" "length d \<le> 1460" "can_send s u ub netif dst_ip"
  shows "\<exists>m c. let e = ip_event netif (sent_bytes ub netif (ip_id s) dst_ip dst_port c d) dst_ip in
     (do { (err, s) \<leftarrow> udp_sendto u q dst_ip dst_port s; map_option snd (with_pbufs (pbuf_free (Some q)) s) })
       = Some (s\<lparr>pbufs := m, ip_id := ip_id s + 1, events := events s @ [e]\<rparr>)
     \<and> heap m = (heap (pbufs s))(q := None) \<and> pool m = q # pool (pbufs s)
     \<and> (\<forall>a. length (blk m a) = length (blk (pbufs s) a)) \<and> (\<forall>a. a \<noteq> q \<longrightarrow> blk m a = blk (pbufs s) a)
     \<and> checksum_ok (nif_ip netif) dst_ip (udp_header (local_port ub) dst_port (of_nat (length d) + 8) c @ d)"
proof -
  have tl: "unat (p_tot_len b) = length d" using assms(1,2,5) by (simp add: owned_def)
  have tl2: "p_tot_len b = of_nat (length d)"
    using arg_cong [OF tl, of "of_nat :: nat \<Rightarrow> u16"] by simp
  have u: "pcb s u = Some ub" "local_port ub \<noteq> 0" "local_ip ub = nif_ip netif \<or> ip_addr_isany (local_ip ub)"
    "ip_route dst_ip s = Some netif" "u_flags ub AND UDP_FLAGS_NOCHKSUM = 0"
    using assms(7) by (simp_all add: can_send_def)
  have "length [q] \<le> chain_fuel" "p_type b = PBUF_RAM \<or> p_type b = PBUF_POOL" "28 \<le> p_payload b"
    "unat (p_tot_len b) + 28 < 65536" using assms(3,4,6) tl by (simp_all add: chain_fuel_def)
  from udp_sendto_if_chain [OF assms(1) this(1) assms(2) this(2,3,4) u(1,2,3), of dst_port dst_ip] obtain m c where
    m: "udp_sendto_if u q dst_ip dst_port netif s
       = Some (link_err s (ip_event netif (sent_bytes ub netif (ip_id s) dst_ip dst_port c d) dst_ip),
           s\<lparr>pbufs := m, ip_id := ip_id s + 1,
             events := events s @ [ip_event netif (sent_bytes ub netif (ip_id s) dst_ip dst_port c d) dst_ip]\<rparr>)"
     "hd_edit (pbufs s) m q" "owned m q [q]"
     "checksum_ok (nif_ip netif) dst_ip (udp_header (local_port ub) dst_port (of_nat (length d) + 8) c @ d)"
    using u(5) unfolding Let_def sent_bytes_def assms(5) tl2 by auto
  have ex: "exclusive m q [q]" using m(3) by (simp add: owned_def)
  have fu: "length [q] \<le> chain_fuel" by (simp add: chain_fuel_def)
  have ty: "of_type m {PBUF_POOL} q" using hd_edit_fields(1) [OF m(2)] assms(2,3) by (simp add: of_type_def)
  from pbuf_free_exclusive [OF ex fu] obtain m' where m': "pbuf_free (Some q) m = Some (1, m')"
    "heap m' = (\<lambda>x. if x \<in> set [q] then None else heap m x)" "blk m' = blk m" "pool m' = q # pool m"
    using ty by auto
  have "heap m' = (heap (pbufs s))(q := None)" using m' m(2) by (auto simp: fun_eq_iff hd_edit_def)
  moreover have "pool m' = q # pool (pbufs s)" using m' m(2) by (simp add: hd_edit_def)
  moreover have "\<forall>a. length (blk m' a) = length (blk (pbufs s) a)"
    using m'(3) hd_edit_fields(4) [OF m(2)] by simp
  moreover have "\<forall>a. a \<noteq> q \<longrightarrow> blk m' a = blk (pbufs s) a" using m'(3) m(2) by (simp add: hd_edit_def)
  moreover have "udp_sendto u q dst_ip dst_port s = udp_sendto_if u q dst_ip dst_port netif s"
    by (simp add: udp_sendto_def u(4))
  ultimately show ?thesis using m(1,4) m'(1)
    by (intro exI [of _ m'] exI [of _ c]) (simp add: Let_def with_pbufs_def)
qed

text \<open>Sending changes the buffers, the packet counter and what was sent, nothing else.\<close>

definition net_frame :: "net \<Rightarrow> net \<Rightarrow> bool" where
  "net_frame n n' \<longleftrightarrow> pcb n' = pcb n \<and> udp_pcbs n' = udp_pcbs n \<and> pcb_pool n' = pcb_pool n \<and> udp_port n' = udp_port n
     \<and> netif_list n' = netif_list n \<and> netif_default n' = netif_default n \<and> link_err n' = link_err n"

lemma net_frame_refl [simp]: "net_frame n n"
  by (simp add: net_frame_def)

lemma net_frame_can_send: "net_frame n n' \<Longrightarrow> can_send n' u ub netif dst = can_send n u ub netif dst"
  by (simp add: net_frame_def can_send_def ip_route_def cong: option.case_cong)

section \<open>Datagram handlers\<close>

text \<open>
  What the delivery of datagrams relies on when it calls a registered function: the function
  takes the packet over and gives every buffer back, keeps the invariant of its own state and
  leaves the control blocks and interfaces alone. \<open>dest\<close> is the address it answers to.
\<close>

definition sendable :: "nat \<Rightarrow> u32 \<Rightarrow> net \<Rightarrow> bool" where
  "sendable u dst n \<longleftrightarrow> (\<exists>ub netif. can_send n u ub netif dst)"

lemma sendable_frame: "net_frame n n' \<Longrightarrow> sendable u dst n' = sendable u dst n"
  by (simp add: sendable_def net_frame_can_send)

lemma exclusive_slots:
  assumes "exclusive (pbufs n) p as" "pool_ok slots (pbufs n)" "pool_ok slots (pbufs n')" "set as \<subseteq> slots"
    and "\<And>a. a \<in> set as \<Longrightarrow> heap (pbufs n') a = heap (pbufs n) a"
  shows "exclusive (pbufs n') p as"
proof -
  have l: "length (blk (pbufs n') a) = length (blk (pbufs n) a)" if "a \<in> set as" for a
    using that assms(2-4) by (auto simp: pool_ok_def)
  have "pchain (pbufs n') q as = pchain (pbufs n) q as" for q
    using assms(5) l by (induction as arbitrary: q) (auto simp: in_block_def split: option.splits)
  then show ?thesis using assms(1,5) by (simp add: exclusive_def ref_one_def not_custom_def)
qed

text \<open>A queue of datagrams (packet, sender, port), served one after the other.\<close>

type_synonym datagram = "nat \<times> u32 \<times> u16"

fun serve :: "(nat \<Rightarrow> nat \<Rightarrow> u32 \<Rightarrow> u16 \<Rightarrow> 's \<Rightarrow> net \<Rightarrow> ('s \<times> net) option) \<Rightarrow> nat \<Rightarrow> datagram list \<Rightarrow> 's \<Rightarrow> net \<Rightarrow> ('s \<times> net) option" where
  "serve h u [] s n = Some (s, n)"
| "serve h u ((p, addr, port) # ds) s n = do { (s, n) \<leftarrow> h u p addr port s n; serve h u ds s n }"

definition waiting :: "nat set \<Rightarrow> net \<Rightarrow> datagram \<Rightarrow> nat list \<Rightarrow> bool" where
  "waiting slots n d as \<longleftrightarrow> exclusive (pbufs n) (fst d) as \<and> set as \<subseteq> slots"

locale udp_handler =
  fixes h :: "nat \<Rightarrow> nat \<Rightarrow> u32 \<Rightarrow> u16 \<Rightarrow> 's \<Rightarrow> net \<Rightarrow> ('s \<times> net) option"
    and inv :: "'s \<Rightarrow> bool" and dest :: "u32 \<Rightarrow> u32"
  assumes handles: "pool_ok slots (pbufs n) \<Longrightarrow> exclusive (pbufs n) p as \<Longrightarrow> length as \<le> chain_fuel
      \<Longrightarrow> sendable u (dest addr) n \<Longrightarrow> inv s \<Longrightarrow>
      \<exists>s' n'. h u p addr port s n = Some (s', n') \<and> inv s' \<and> pool_ok slots (pbufs n') \<and> net_frame n n'
        \<and> heap (pbufs n') = (\<lambda>x. if x \<in> set as then None else heap (pbufs n) x)"
begin

text \<open>A whole queue of datagrams is served without a fault and without losing a buffer.\<close>

lemma serve_queue:
  assumes "pool_ok slots (pbufs n)" "inv s" "\<forall>(p, addr, port) \<in> set ds. sendable u (dest addr) n"
    and "list_all2 (waiting slots n) ds ass"
    and "distinct (concat ass)"
  shows "\<exists>s' n'. serve h u ds s n = Some (s', n') \<and> inv s' \<and> pool_ok slots (pbufs n') \<and> net_frame n n'
    \<and> heap (pbufs n') = (\<lambda>x. if x \<in> set (concat ass) then None else heap (pbufs n) x)"
  using assms
proof (induction ds arbitrary: ass s n)
  case Nil
  then show ?case by simp
next
  case (Cons d ds)
  obtain p addr port where d: "d = (p, addr, port)" by (cases d)
  from Cons.prems(4) obtain as ass' where as0: "ass = as # ass'" "waiting slots n d as" "list_all2 (waiting slots n) ds ass'"
    by (auto simp: list_all2_Cons1)
  then have as: "ass = as # ass'" "exclusive (pbufs n) p as" "set as \<subseteq> slots" "list_all2 (waiting slots n) ds ass'"
    by (simp_all add: waiting_def d)
  have le: "length as \<le> chain_fuel" by (rule exclusive_length [OF Cons.prems(1) as(2,3)])
  from handles [OF Cons.prems(1) as(2) le _ Cons.prems(2), of u addr port] Cons.prems(3) d obtain s1 n1 where
    s1: "h u p addr port s n = Some (s1, n1)" "inv s1" "pool_ok slots (pbufs n1)" "net_frame n n1"
      "heap (pbufs n1) = (\<lambda>x. if x \<in> set as then None else heap (pbufs n) x)" by auto
  have dj: "set as \<inter> set (concat ass') = {}" "distinct (concat ass')" using Cons.prems(5) as(1) by auto
  have ex: "list_all2 (waiting slots n1) ds ass'"
  proof (rule list_all2_all_nthI)
    show "length ds = length ass'" using as(4) by (rule list_all2_lengthD)
    fix i assume i: "i < length ds"
    with as(4) have e: "waiting slots n (ds ! i) (ass' ! i)" by (rule list_all2_nthD)
    have "set (ass' ! i) \<subseteq> set (concat ass')" using i list_all2_lengthD [OF as(4)] by (auto intro!: bexI [of _ "ass' ! i"])
    then have "heap (pbufs n1) a = heap (pbufs n) a" if "a \<in> set (ass' ! i)" for a
      using that dj(1) by (auto simp: s1(5))
    with e show "waiting slots n1 (ds ! i) (ass' ! i)"
      using exclusive_slots [OF _ Cons.prems(1) s1(3)] by (simp add: waiting_def)
  qed
  have "\<forall>(p, addr, port) \<in> set ds. sendable u (dest addr) n1"
    using Cons.prems(3) sendable_frame [OF s1(4)] by auto
  from Cons.IH [OF s1(3,2) this ex dj(2)] obtain s' n' where
    "serve h u ds s1 n1 = Some (s', n')" "inv s'" "pool_ok slots (pbufs n')" "net_frame n1 n'"
    "heap (pbufs n') = (\<lambda>x. if x \<in> set (concat ass') then None else heap (pbufs n1) x)" by blast
  then show ?case using s1(1,4,5) d as(1)
    by (intro exI [of _ s'] exI [of _ n']) (auto simp: net_frame_def)
qed

end

section \<open>A network to run on\<close>

text \<open>
  The interface of the application (address and flags as \<open>app.c\<close> gives them), one block bound
  to \<open>port\<close>, and a received packet \<open>d\<close> in slot 0.
\<close>

definition app_netif :: netif where
  "app_netif = \<lparr>nif_ip = of_le32 [192, 168, 7, 1], nif_mask = of_le32 [255, 255, 255, 0], nif_mtu = 1500, nif_flags = 0x33\<rparr>"

definition bound_pcb :: "u16 \<Rightarrow> udp_pcb" where
  "bound_pcb port = \<lparr>local_ip = 0, remote_ip = 0, so_options = 0, pcb_tos = 0, pcb_ttl = UDP_TTL, u_flags = 0,
     local_port = port, remote_port = 0, recv = None\<rparr>"

definition rx_pbuf :: "bytes \<Rightarrow> pbuf" where
  "rx_pbuf d = \<lparr>p_next = None, p_payload = 42, p_tot_len = of_nat (length d), p_len = of_nat (length d),
     p_type = PBUF_POOL, p_flags = 0, p_ref = 1\<rparr>"

definition rx_net :: "u16 \<Rightarrow> bytes \<Rightarrow> net" where
  "rx_net port d = \<lparr>
     pbufs = \<lparr>heap = [0 \<mapsto> rx_pbuf d],
              blk = (\<lambda>a. replicate 1516 0)(0 := replicate 42 0 @ d @ replicate (1474 - length d) 0),
              pool = rev [1..<16], ref_pool = [], pbuf_free_ooseq_pending = False, mem_malloc = (\<lambda>n h. None)\<rparr>,
     netif_list = [app_netif], netif_default = Some app_netif, ip_id = 0, current_iphdr_src = 0, current_iphdr_dest = 0,
     udp_pcbs = [0], pcb = [0 \<mapsto> bound_pcb port], pcb_pool = [1, 2, 3], udp_port = 0xC000, events = [],
     link_err = (\<lambda>e. ERR_OK)\<rparr>"

lemma rx_net_ok:
  assumes "length d \<le> 1474" "port \<noteq> 0"
  shows "pool_ok {0..<16} (pbufs (rx_net port d))" "exclusive (pbufs (rx_net port d)) 0 [0]"
    "owned (pbufs (rx_net port d)) 0 [0]"
    "buf_data (pbufs (rx_net port d)) 0 = d" "can_send (rx_net port d) 0 (bound_pcb port) app_netif dst"
    "sendable 0 dst (rx_net port d)" "waiting {0..<16} (rx_net port d) (0, src, sport) [0]"
proof -
  have un: "unat (of_nat (length d) :: u16) = length d" using assms(1) by (intro unat16_of_nat) simp
  show ok: "pool_ok {0..<16} (pbufs (rx_net port d))"
    using assms(1) by (auto simp: pool_ok_def rx_net_def of_type_def rx_pbuf_def PBUF_POOL_SIZE_def PBUF_POOL_BUFSIZE_ALIGNED_def)
  show bd: "buf_data (pbufs (rx_net port d)) 0 = d" by (simp add: buf_data_def rx_net_def rx_pbuf_def un)
  show ex: "exclusive (pbufs (rx_net port d)) 0 [0]"
    using assms(1) by (simp add: exclusive_def rx_net_def rx_pbuf_def in_block_def ref_one_def not_custom_def un)
  show "owned (pbufs (rx_net port d)) 0 [0]"
    using ex bd by (simp add: owned_def) (simp add: rx_net_def rx_pbuf_def un)
  show cs: "can_send (rx_net port d) 0 (bound_pcb port) app_netif dst"
    using assms(2) by (simp add: can_send_def rx_net_def bound_pcb_def ip_route_def app_netif_def netif_is_up_def
        NETIF_FLAG_UP_def ip_addr_isany_def IPADDR_ANY_def split: option.split)
  then show "sendable 0 dst (rx_net port d)" by (auto simp: sendable_def)
  show "waiting {0..<16} (rx_net port d) (0, src, sport) [0]" using ex by (simp add: waiting_def)
qed

section \<open>Properties\<close>

text \<open>
  Automatic port allocation always succeeds: with fewer blocks than ports in the ephemeral
  range the search ends at a port of the range that no bound block uses, and remembers it.
\<close>

theorem udp_new_port_finds:
  assumes "in_range (udp_port s)" "length (udp_pcbs s) \<le> 0x3FFF"
  shows "\<exists>port. udp_new_port s = (port, s\<lparr>udp_port := port\<rparr>) \<and> in_range port \<and> \<not> port_used s port"
  using assms by (rule udp_new_port_spec)

theorem udp_new_port_finds_witness:
  "\<exists>port. udp_new_port (rx_net 0xC001 []) = (port, (rx_net 0xC001 [])\<lparr>udp_port := port\<rparr>) \<and> in_range port \<and> port \<noteq> 0xC001"
proof -
  have h: "in_range (udp_port (rx_net 0xC001 []))" "length (udp_pcbs (rx_net 0xC001 [])) \<le> 0x3FFF"
    by (simp_all add: rx_net_def in_range_def)
  have "port_used (rx_net 0xC001 []) 0xC001" by (simp add: port_used_iff rx_net_def bound_pcb_def)
  with udp_new_port_finds [OF h] show ?thesis by metis
qed



text \<open>
  C6: A packet the sender owns, with room for the headers, leaves as one IP packet: an IP header
  with the length, the ports and the length in the UDP header, a UDP checksum the receiver
  accepts, and the data. The sender still owns the packet, no buffer is allocated or lost.
\<close>

theorem udp_sendto_datagram:
  assumes "owned (pbufs s) p (p # rest)" "length (p # rest) \<le> chain_fuel" "heap (pbufs s) p = Some b"
    and "p_type b = PBUF_RAM \<or> p_type b = PBUF_POOL" "28 \<le> p_payload b" "unat (p_tot_len b) + 28 < 65536"
    and "can_send s u ub netif dst_ip"
  shows "\<exists>m c. let dgram = udp_header (local_port ub) dst_port (p_tot_len b + 8) c @ chain_data (pbufs s) (p # rest);
       d = ip_header (pcb_tos ub) (p_tot_len b + 28) (ip_id s) (pcb_ttl ub) IP_PROTO_UDP (nif_ip netif) dst_ip @ dgram
     in udp_sendto u p dst_ip dst_port s
       = Some (link_err s (ip_event netif d dst_ip),
           s\<lparr>pbufs := m, ip_id := ip_id s + 1, events := events s @ [ip_event netif d dst_ip]\<rparr>)
     \<and> hd_edit (pbufs s) m p \<and> owned m p (p # rest) \<and> checksum_ok (nif_ip netif) dst_ip dgram"
proof -
  have u: "pcb s u = Some ub" "local_port ub \<noteq> 0" "local_ip ub = nif_ip netif \<or> ip_addr_isany (local_ip ub)"
    "ip_route dst_ip s = Some netif" "u_flags ub AND UDP_FLAGS_NOCHKSUM = 0"
    using assms(7) by (simp_all add: can_send_def)
  have "udp_sendto u p dst_ip dst_port s = udp_sendto_if u p dst_ip dst_port netif s"
    by (simp add: udp_sendto_def u(4))
  moreover from udp_sendto_if_chain [OF assms(1-6) u(1-3), of dst_port dst_ip] obtain m c where
    "let dgram = udp_header (local_port ub) dst_port (p_tot_len b + 8) c @ chain_data (pbufs s) (p # rest);
       d = ip_header (pcb_tos ub) (p_tot_len b + 28) (ip_id s) (pcb_ttl ub) IP_PROTO_UDP (nif_ip netif) dst_ip @ dgram
     in udp_sendto_if u p dst_ip dst_port netif s
       = Some (link_err s (ip_event netif d dst_ip),
           s\<lparr>pbufs := m, ip_id := ip_id s + 1, events := events s @ [ip_event netif d dst_ip]\<rparr>)
     \<and> hd_edit (pbufs s) m p \<and> owned m p (p # rest) \<and> checksum_ok (nif_ip netif) dst_ip dgram"
    using u(5) unfolding Let_def by auto
  ultimately show ?thesis by (intro exI [of _ m] exI [of _ c]) (simp add: Let_def)
qed

theorem udp_sendto_datagram_witness:
  "\<exists>e s'. udp_sendto 0 0 9 1000 (rx_net 67 [1, 2, 3]) = Some (e, s') \<and> length (events s') = 1"
proof -
  have b: "heap (pbufs (rx_net 67 [1, 2, 3])) 0 = Some (rx_pbuf [1, 2, 3])" by (simp add: rx_net_def)
  have l: "length [0 :: nat] \<le> chain_fuel" by (simp add: chain_fuel_def)
  have r: "p_type (rx_pbuf [1, 2, 3]) = PBUF_RAM \<or> p_type (rx_pbuf [1, 2, 3]) = PBUF_POOL"
    "28 \<le> p_payload (rx_pbuf [1, 2, 3])" "unat (p_tot_len (rx_pbuf [1, 2, 3])) + 28 < 65536" by (simp_all add: rx_pbuf_def)
  have n: "length [1, 2, 3 :: u8] \<le> 1474" "(67 :: u16) \<noteq> 0" by simp_all
  have "events (rx_net 67 [1, 2, 3]) = []" by (simp add: rx_net_def)
  with udp_sendto_datagram [OF rx_net_ok(3) [OF n] l b r rx_net_ok(5) [OF n], of 1000 9] show ?thesis
    by (auto simp: Let_def)
qed

end
