(* ===== verification/Dhcp_Server.thy ===== *)
theory Dhcp_Server
  imports Udp
begin

text \<open>
  The DHCP server, \<open>src/lrndis/dhcp-server/dhserver.c\<close>: a table of addresses with the hardware
  address each is leased to, the option list of a message, and the handler that answers
  DISCOVER with OFFER and REQUEST with ACK.

  \<open>dhcp_data\<close> is the global \<open>DHCP_TYPE dhcp_data\<close>, 516 bytes that keep the last message; the
  fields are at the offsets the compiler gives them. Pointers into the table or the option
  area are indices.
\<close>

section \<open>Data\<close>

record dhcp_entry =
  mac :: bytes
  addr :: bytes
  subnet :: bytes
  lease :: u32

record dhcp_config =
  c_addr :: bytes
  c_port :: u16
  c_dns :: bytes
  domain :: "bytes option"
  num_entry :: nat
  entries :: "dhcp_entry list"

record dhserver =
  dhcp_data :: bytes
  dh_pcb :: "nat option"
  config :: "dhcp_config option"

definition DHCP_DISCOVER :: u8 where "DHCP_DISCOVER = 1"
definition DHCP_OFFER :: u8 where "DHCP_OFFER = 2"
definition DHCP_REQUEST :: u8 where "DHCP_REQUEST = 3"
definition DHCP_ACK :: u8 where "DHCP_ACK = 5"

definition DHCP_SUBNETMASK :: u8 where "DHCP_SUBNETMASK = 1"
definition DHCP_ROUTER :: u8 where "DHCP_ROUTER = 3"
definition DHCP_DNSSERVER :: u8 where "DHCP_DNSSERVER = 6"
definition DHCP_DNSDOMAIN :: u8 where "DHCP_DNSDOMAIN = 15"
definition DHCP_IPADDRESS :: u8 where "DHCP_IPADDRESS = 50"
definition DHCP_LEASETIME :: u8 where "DHCP_LEASETIME = 51"
definition DHCP_SERVERID :: u8 where "DHCP_SERVERID = 54"
definition DHCP_END :: u8 where "DHCP_END = 255"

definition dp_op :: nat where "dp_op = 0"
definition dp_secs :: nat where "dp_secs = 8"
definition dp_flags :: nat where "dp_flags = 10"
definition dp_yiaddr :: nat where "dp_yiaddr = 16"
definition dp_chaddr :: nat where "dp_chaddr = 28"
definition dp_magic :: nat where "dp_magic = 236"
definition dp_options :: nat where "dp_options = 240"
definition sizeof_dp_options :: nat where "sizeof_dp_options = 275"
definition sizeof_dhcp_data :: nat where "sizeof_dhcp_data = 516"
definition magic_cookie :: bytes where "magic_cookie = [0x63, 0x82, 0x53, 0x63]"

lemmas dhcp_offsets = dp_op_def dp_secs_def dp_flags_def dp_yiaddr_def dp_chaddr_def dp_magic_def
  dp_options_def sizeof_dp_options_def sizeof_dhcp_data_def

section \<open>The address table\<close>

text \<open>The loop of the three searches: the first entry that satisfies a test.\<close>

fun scan :: "(dhcp_entry \<Rightarrow> bool) \<Rightarrow> nat \<Rightarrow> dhcp_entry list \<Rightarrow> nat \<Rightarrow> nat option option" where
  "scan P 0 es i = Some None"
| "scan P (Suc k) es i = (if i < length es then (if P (es ! i) then Some (Some i) else scan P k es (i + 1)) else None)"

definition entry_by_ip :: "u32 \<Rightarrow> dhcp_config \<Rightarrow> nat option option" where
  "entry_by_ip ip c = scan (\<lambda>e. of_le32 (addr e) = ip) (num_entry c) (entries c) 0"

definition entry_by_mac :: "bytes \<Rightarrow> dhcp_config \<Rightarrow> nat option option" where
  "entry_by_mac m c = scan (\<lambda>e. mac e = m) (num_entry c) (entries c) 0"

definition is_vacant :: "dhcp_entry \<Rightarrow> bool" where
  "is_vacant e \<longleftrightarrow> mac e = [0, 0, 0, 0, 0, 0]"

definition vacant_address :: "dhcp_config \<Rightarrow> nat option option" where
  "vacant_address c = scan is_vacant (num_entry c) (entries c) 0"

definition set_mac :: "nat \<Rightarrow> bytes \<Rightarrow> dhcp_config \<Rightarrow> dhcp_config" where
  "set_mac i m c = c\<lparr>entries := (entries c)[i := (entries c ! i)\<lparr>mac := m\<rparr>]\<rparr>"

definition free_entry :: "nat \<Rightarrow> dhcp_config \<Rightarrow> dhcp_config" where
  "free_entry i c = set_mac i [0, 0, 0, 0, 0, 0] c"

section \<open>Options\<close>

text \<open>The result is the index of the option in \<open>attrs\<close>, \<open>None\<close> for NULL.\<close>

function find_loop :: "bytes \<Rightarrow> nat \<Rightarrow> u8 \<Rightarrow> nat \<Rightarrow> nat option option" where
  "find_loop attrs sz attr i =
     (if i + 1 < sz then
        (case (byte_at attrs (i + 1), byte_at attrs i) of
           (Some l, Some t) \<Rightarrow>
             (let next = i + unat l + 2 in
              if next > sz then Some None
              else if t = attr then Some (Some i)
              else find_loop attrs sz attr next)
         | _ \<Rightarrow> None)
      else Some None)"
  by pat_completeness auto

termination by (relation "measure (\<lambda>(attrs, sz, attr, i). sz - i)") auto

declare find_loop.simps [simp del]

definition find_dhcp_option :: "bytes \<Rightarrow> nat \<Rightarrow> u8 \<Rightarrow> nat option option" where
  "find_dhcp_option attrs sz attr = find_loop attrs sz attr 0"

text \<open>\<open>dest\<close> is the object behind the pointer; the result is the object and the bytes written.\<close>

definition fill_options :: "bytes \<Rightarrow> nat \<Rightarrow> u8 \<Rightarrow> bytes option \<Rightarrow> u32 \<Rightarrow> u32 \<Rightarrow> u32 \<Rightarrow> u32 \<Rightarrow> u32 \<Rightarrow> (bytes \<times> nat) option" where
  "fill_options dest off msg_type dname dns lease_time serverid router netmask = do {
     s \<leftarrow> put [53, 1, msg_type] (dest, off);
     s \<leftarrow> put ([DHCP_SERVERID, 4] @ le32 serverid) s;
     s \<leftarrow> put ([DHCP_LEASETIME, 4] @ be32 lease_time) s;
     s \<leftarrow> put ([DHCP_SUBNETMASK, 4] @ le32 netmask) s;
     s \<leftarrow> (if router \<noteq> 0 then put ([DHCP_ROUTER, 4] @ le32 router) s else Some s);
     s \<leftarrow> (case dname of Some d \<Rightarrow> put ([DHCP_DNSDOMAIN, of_nat (length d)] @ d) s | None \<Rightarrow> Some s);
     s \<leftarrow> (if dns \<noteq> 0 then put ([DHCP_DNSSERVER, 4] @ le32 dns) s else Some s);
     (b, ptr) \<leftarrow> put [DHCP_END] s;
     Some (b, ptr - off) }"

section \<open>The handler\<close>

text \<open>The fields of a reply, the option area cleared and filled.\<close>

definition reply_options :: "u8 \<Rightarrow> dhcp_config \<Rightarrow> dhcp_entry \<Rightarrow> bytes \<Rightarrow> bytes option" where
  "reply_options msg_type c e d = do {
     d \<leftarrow> wr_at d dp_options (replicate sizeof_dp_options 0);
     (d, n) \<leftarrow> fill_options d dp_options msg_type (domain c) (of_le32 (c_dns c)) (lease e)
                 (of_le32 (c_addr c)) (of_le32 (c_addr c)) (of_le32 (subnet e));
     Some d }"

definition reply_header :: "bytes \<Rightarrow> bytes \<Rightarrow> bytes option" where
  "reply_header yiaddr d = do {
     d \<leftarrow> wr_at d dp_op [2];
     d \<leftarrow> wr_at d dp_secs (le16 0);
     d \<leftarrow> wr_at d dp_flags (le16 0);
     d \<leftarrow> wr_at d dp_yiaddr yiaddr;
     wr_at d dp_magic magic_cookie }"

text \<open>\<open>pbuf_alloc\<close>, then the copy, the broadcast and \<open>pbuf_free\<close> of the answer.\<close>

definition send_reply :: "nat \<Rightarrow> u16 \<Rightarrow> nat \<Rightarrow> bytes \<Rightarrow> net \<Rightarrow> net option" where
  "send_reply upcb port pp d n = do {
     n \<leftarrow> do_pbufs (payload_write pp 0 d) n;
     (err, n) \<leftarrow> udp_sendto upcb pp IPADDR_BROADCAST port n;
     map_option snd (with_pbufs (pbuf_free (Some pp)) n) }"

definition dhcp_discover :: "nat \<Rightarrow> u16 \<Rightarrow> dhserver \<Rightarrow> net \<Rightarrow> (dhserver \<times> net) option" where
  "dhcp_discover upcb port s n = do {
     c \<leftarrow> config s;
     m \<leftarrow> rd_at (dhcp_data s) dp_chaddr 6;
     e0 \<leftarrow> entry_by_mac m c;
     e1 \<leftarrow> (case e0 of None \<Rightarrow> vacant_address c | Some i \<Rightarrow> Some (Some i));
     case e1 of
       None \<Rightarrow> Some (s, n)
     | Some i \<Rightarrow> do {
         let e = entries c ! i;
         d \<leftarrow> reply_header (le32 (of_le32 (addr e))) (dhcp_data s);
         d \<leftarrow> reply_options DHCP_OFFER c e d;
         let s = s\<lparr>dhcp_data := d\<rparr>;
         (pp, n) \<leftarrow> with_pbufs (pbuf_alloc PBUF_TRANSPORT (of_nat sizeof_dhcp_data) PBUF_POOL) n;
         case pp of
           None \<Rightarrow> Some (s, n)
         | Some pp \<Rightarrow> do { n \<leftarrow> send_reply upcb port pp d n; Some (s, n) } } }"

definition dhcp_request :: "nat \<Rightarrow> u16 \<Rightarrow> dhserver \<Rightarrow> net \<Rightarrow> (dhserver \<times> net) option" where
  "dhcp_request upcb port s n = do {
     opts \<leftarrow> rd_at (dhcp_data s) dp_options sizeof_dp_options;
     o1 \<leftarrow> find_dhcp_option opts sizeof_dp_options DHCP_IPADDRESS;
     case o1 of None \<Rightarrow> Some (s, n) | Some o1 \<Rightarrow> do {
     l \<leftarrow> byte_at opts (o1 + 1);
     if l \<noteq> 4 then Some (s, n) else do {
     c \<leftarrow> config s;
     m \<leftarrow> rd_at (dhcp_data s) dp_chaddr 6;
     e0 \<leftarrow> entry_by_mac m c;
     let c = (case e0 of Some i \<Rightarrow> free_entry i c | None \<Rightarrow> c);
     let s = s\<lparr>config := Some c\<rparr>;
     ip \<leftarrow> rd_at opts (o1 + 2) 4;
     e1 \<leftarrow> entry_by_ip (of_le32 ip) c;
     case e1 of None \<Rightarrow> Some (s, n) | Some i \<Rightarrow>
     (let e = entries c ! i in
     if \<not> is_vacant e then Some (s, n) else do {
       d \<leftarrow> reply_header ip (dhcp_data s);
       d \<leftarrow> reply_options DHCP_ACK c e d;
       let s = s\<lparr>dhcp_data := d\<rparr>;
       (pp, n) \<leftarrow> with_pbufs (pbuf_alloc PBUF_TRANSPORT (of_nat sizeof_dhcp_data) PBUF_POOL) n;
       case pp of
         None \<Rightarrow> Some (s, n)
       | Some pp \<Rightarrow> do {
           m \<leftarrow> rd_at d dp_chaddr 6;
           let s = s\<lparr>config := Some (set_mac i m c)\<rparr>;
           n \<leftarrow> send_reply upcb port pp d n;
           Some (s, n) } }) } } }"

definition dhcp_udp_recv_proc :: "nat \<Rightarrow> nat \<Rightarrow> u16 \<Rightarrow> dhserver \<Rightarrow> net \<Rightarrow> (dhserver \<times> net) option" where
  "dhcp_udp_recv_proc upcb p port s n = do {
     b \<leftarrow> heap (pbufs n) p;
     x \<leftarrow> payload_read p 0 (min (unat (p_len b)) sizeof_dhcp_data) (pbufs n);
     d \<leftarrow> wr_at (dhcp_data s) 0 x;
     let s = s\<lparr>dhcp_data := d\<rparr>;
     t \<leftarrow> byte_at d (dp_options + 2);
     (s, n) \<leftarrow> (if t = DHCP_DISCOVER then dhcp_discover upcb port s n
                else if t = DHCP_REQUEST then dhcp_request upcb port s n
                else Some (s, n));
     (k, n) \<leftarrow> with_pbufs (pbuf_free (Some p)) n;
     Some (s, n) }"

section \<open>Starting and stopping\<close>

definition DHCP_RECV_PROC :: nat where "DHCP_RECV_PROC = 1"

definition dhserv_free :: "dhserver \<Rightarrow> net \<Rightarrow> (dhserver \<times> net) option" where
  "dhserv_free s n = (case dh_pcb s of
       None \<Rightarrow> Some (s, n)
     | Some u \<Rightarrow> do { n \<leftarrow> udp_remove u n; Some (s\<lparr>dh_pcb := None\<rparr>, n) })"

definition dhserv_init :: "dhcp_config \<Rightarrow> dhserver \<Rightarrow> net \<Rightarrow> (err_t \<times> dhserver \<times> net) option" where
  "dhserv_init c s n = do {
     (s, n) \<leftarrow> dhserv_free s n;
     let (u, n) = udp_new n;
     let s = s\<lparr>dh_pcb := u\<rparr>;
     case u of
       None \<Rightarrow> Some (ERR_MEM, s, n)
     | Some u \<Rightarrow> do {
         (err, n) \<leftarrow> udp_bind u IPADDR_ANY (c_port c) n;
         if err \<noteq> ERR_OK then do { (s, n) \<leftarrow> dhserv_free s n; Some (err, s, n) }
         else do {
           n \<leftarrow> udp_recv u (Some DHCP_RECV_PROC) n;
           Some (ERR_OK, s\<lparr>config := Some c\<rparr>, n) } } }"

section \<open>Options: reading back what was written\<close>

definition tlv :: "u8 \<times> bytes \<Rightarrow> bytes" where
  "tlv x = [fst x, of_nat (length (snd x))] @ snd x"

definition tlvs :: "(u8 \<times> bytes) list \<Rightarrow> bytes" where
  "tlvs xs = concat (map tlv xs)"

lemma tlvs_simps [simp]: "tlvs [] = []" "tlvs (x # xs) = tlv x @ tlvs xs" "tlvs (xs @ ys) = tlvs xs @ tlvs ys"
  by (simp_all add: tlvs_def)

lemma tlv_length [simp]: "length (tlv x) = length (snd x) + 2"
  by (simp add: tlv_def)

text \<open>The search reads inside the area only and returns an option of the asked type that lies inside.\<close>

lemma find_loop_safe:
  assumes "sz \<le> length attrs"
  shows "\<exists>r. find_loop attrs sz attr i = Some r \<and>
     (case r of None \<Rightarrow> True | Some j \<Rightarrow> i \<le> j \<and> j + 1 < sz \<and> attrs ! j = attr \<and> j + 2 + unat (attrs ! (j + 1)) \<le> sz)"
  using assms
proof (induction "sz - i" arbitrary: i rule: less_induct)
  case less
  define n where "n = i + unat (attrs ! (i + 1)) + 2"
  show ?case
  proof (cases "i + 1 < sz")
    case True
    then have st: "find_loop attrs sz attr i =
        (if n > sz then Some None else if attrs ! i = attr then Some (Some i) else find_loop attrs sz attr n)"
      using less.prems by (subst find_loop.simps) (simp add: byte_at_def Let_def n_def)
    show ?thesis
    proof (cases "n > sz \<or> attrs ! i = attr")
      case stop: True
      then show ?thesis using True st by (auto simp: n_def)
    next
      case False
      have "sz - n < sz - i" "i < n" using True by (simp_all add: n_def)
      with less.hyps [of n] less.prems False st show ?thesis by (auto split: option.splits)
    qed
  next
    case False
    then show ?thesis by (subst find_loop.simps) simp
  qed
qed

text \<open>On a well-formed list it finds the first option of the asked type.\<close>

lemma find_loop_tlvs:
  assumes "\<forall>x \<in> set xs. length (snd x) < 256 \<and> fst x \<noteq> attr" "length v < 256"
    and "sz = length attrs" "attrs = pre @ tlvs xs @ tlv (attr, v) @ post" "i = length pre"
  shows "find_loop attrs sz attr i = Some (Some (length pre + length (tlvs xs)))"
  using assms
proof (induction xs arbitrary: pre i)
  case Nil
  then have "attrs ! (i + 1) = of_nat (length v)" "attrs ! i = attr" by (simp_all add: tlv_def nth_append)
  with Nil show ?case by (subst find_loop.simps) (simp add: byte_at_def Let_def unat8_of_nat tlv_def)
next
  case (Cons x xs)
  have a: "attrs ! (i + 1) = of_nat (length (snd x))" "attrs ! i = fst x"
    using Cons.prems by (simp_all add: tlv_def nth_append)
  have "find_loop attrs sz attr (length (pre @ tlv x)) = Some (Some (length (pre @ tlv x) + length (tlvs xs)))"
    by (rule Cons.IH) (use Cons.prems in simp_all)
  moreover have "find_loop attrs sz attr i = find_loop attrs sz attr (length (pre @ tlv x))"
    using Cons.prems a by (subst find_loop.simps) (simp add: byte_at_def Let_def unat8_of_nat)
  ultimately show ?case by (simp add: add.assoc)
qed

lemma find_dhcp_option_tlvs:
  assumes "\<forall>x \<in> set xs. length (snd x) < 256 \<and> fst x \<noteq> attr" "length v < 256"
  shows "find_dhcp_option (tlvs xs @ tlv (attr, v) @ post) (length (tlvs xs @ tlv (attr, v) @ post)) attr
      = Some (Some (length (tlvs xs)))"
  unfolding find_dhcp_option_def by (subst find_loop_tlvs [OF assms refl, of _ "[]" post]) simp_all

text \<open>What \<open>fill_options\<close> writes, as an option list.\<close>

definition option_list :: "u8 \<Rightarrow> bytes option \<Rightarrow> u32 \<Rightarrow> u32 \<Rightarrow> u32 \<Rightarrow> u32 \<Rightarrow> u32 \<Rightarrow> (u8 \<times> bytes) list" where
  "option_list msg_type dname dns lease_time serverid router netmask =
     [(53, [msg_type]), (DHCP_SERVERID, le32 serverid), (DHCP_LEASETIME, be32 lease_time), (DHCP_SUBNETMASK, le32 netmask)]
     @ (if router \<noteq> 0 then [(DHCP_ROUTER, le32 router)] else [])
     @ (case dname of Some d \<Rightarrow> [(DHCP_DNSDOMAIN, d)] | None \<Rightarrow> [])
     @ (if dns \<noteq> 0 then [(DHCP_DNSSERVER, le32 dns)] else [])"

definition filled :: "u8 \<Rightarrow> bytes option \<Rightarrow> u32 \<Rightarrow> u32 \<Rightarrow> u32 \<Rightarrow> u32 \<Rightarrow> u32 \<Rightarrow> bytes" where
  "filled msg_type dname dns lease_time serverid router netmask =
     tlvs (option_list msg_type dname dns lease_time serverid router netmask) @ [DHCP_END]"

lemma put_bind:
  "off + length d \<le> length b \<Longrightarrow> put d (b, off) \<bind> f = f (take off b @ d @ drop (off + length d) b, off + length d)"
  by (simp add: put_Some)

lemma put_chain:
  assumes "off + length x + length d \<le> length b"
  shows "put d (take off b @ x @ drop (off + length x) b, off + length x)
     = Some (take off b @ (x @ d) @ drop (off + length (x @ d)) b, off + length (x @ d))"
  using assms by (simp add: put_Some add.assoc add.commute [of "length d"])

lemma fill_options_spec:
  assumes "off + length (filled msg_type dname dns lease_time serverid router netmask) \<le> length dest"
  shows "fill_options dest off msg_type dname dns lease_time serverid router netmask
     = Some (take off dest @ filled msg_type dname dns lease_time serverid router netmask
             @ drop (off + length (filled msg_type dname dns lease_time serverid router netmask)) dest,
             length (filled msg_type dname dns lease_time serverid router netmask))"
proof -
  let ?S = "\<lambda>x. (take off dest @ x @ drop (off + length x) dest, off + length x)"
  have go: "put d (?S x) = Some (?S (x @ d))" if "off + length x + length d \<le> length dest" for x d
    using that by (rule put_chain)
  have st: "(dest, off) = ?S []" by simp
  define o1 where "o1 = [53, 1, msg_type]"
  define o2 where "o2 = [DHCP_SERVERID, 4] @ le32 serverid"
  define o3 where "o3 = [DHCP_LEASETIME, 4] @ be32 lease_time"
  define o4 where "o4 = [DHCP_SUBNETMASK, 4] @ le32 netmask"
  define o5 where "o5 = (if router \<noteq> 0 then [DHCP_ROUTER, 4] @ le32 router else [])"
  define o6 where "o6 = (case dname of Some d \<Rightarrow> [DHCP_DNSDOMAIN, of_nat (length d)] @ d | None \<Rightarrow> [])"
  define o7 where "o7 = (if dns \<noteq> 0 then [DHCP_DNSSERVER, 4] @ le32 dns else [])"
  have f: "filled msg_type dname dns lease_time serverid router netmask = o1 @ o2 @ o3 @ o4 @ o5 @ o6 @ o7 @ [DHCP_END]"
    by (simp add: filled_def option_list_def tlv_def o1_def o2_def o3_def o4_def o5_def o6_def o7_def split: option.split)
  note a = assms [unfolded f]
  have s5: "(if router \<noteq> 0 then put ([DHCP_ROUTER, 4] @ le32 router) (?S x) else Some (?S x)) = Some (?S (x @ o5))"
    if "off + length x + length o5 \<le> length dest" for x
    using go [of x o5] that unfolding o5_def by (cases "router = 0") simp_all
  have s6: "(case dname of Some d \<Rightarrow> put ([DHCP_DNSDOMAIN, of_nat (length d)] @ d) (?S x) | None \<Rightarrow> Some (?S x)) = Some (?S (x @ o6))"
    if "off + length x + length o6 \<le> length dest" for x
    using go [of x o6] that unfolding o6_def by (cases dname) simp_all
  have s7: "(if dns \<noteq> 0 then put ([DHCP_DNSSERVER, 4] @ le32 dns) (?S x) else Some (?S x)) = Some (?S (x @ o7))"
    if "off + length x + length o7 \<le> length dest" for x
    using go [of x o7] that unfolding o7_def by (cases "dns = 0") simp_all
  have "fill_options dest off msg_type dname dns lease_time serverid router netmask
     = Some (fst (?S (o1 @ o2 @ o3 @ o4 @ o5 @ o6 @ o7 @ [DHCP_END])), length (o1 @ o2 @ o3 @ o4 @ o5 @ o6 @ o7 @ [DHCP_END]))"
    unfolding fill_options_def o1_def [symmetric] o2_def [symmetric] o3_def [symmetric] o4_def [symmetric]
    apply (subst st, subst go)
    subgoal using a by simp
    apply (simp only: bind.bind_lunit, subst go)
    subgoal using a by simp
    apply (simp only: bind.bind_lunit, subst go)
    subgoal using a by simp
    apply (simp only: bind.bind_lunit, subst go)
    subgoal using a by simp
    apply (simp only: bind.bind_lunit, subst s5)
    subgoal using a by simp
    apply (simp only: bind.bind_lunit, subst s6)
    subgoal using a by simp
    apply (simp only: bind.bind_lunit, subst s7)
    subgoal using a by simp
    apply (simp only: bind.bind_lunit, subst go)
    subgoal using a by simp
    apply simp
    done
  then show ?thesis by (simp add: f)
qed

section \<open>The address table\<close>

lemma scan_spec:
  assumes "i + k \<le> length es"
  shows "\<exists>r. scan P k es i = Some r \<and>
     (case r of None \<Rightarrow> \<forall>j. i \<le> j \<and> j < i + k \<longrightarrow> \<not> P (es ! j)
      | Some j \<Rightarrow> i \<le> j \<and> j < i + k \<and> P (es ! j) \<and> (\<forall>l. i \<le> l \<and> l < j \<longrightarrow> \<not> P (es ! l)))"
  using assms
proof (induction k arbitrary: i)
  case 0
  then show ?case by auto
next
  case (Suc k)
  show ?case
  proof (cases "P (es ! i)")
    case True
    then show ?thesis using Suc.prems by auto
  next
    case False
    obtain r where r: "scan P k es (i + 1) = Some r"
     "case r of None \<Rightarrow> \<forall>j. i + 1 \<le> j \<and> j < i + 1 + k \<longrightarrow> \<not> P (es ! j)
      | Some j \<Rightarrow> i + 1 \<le> j \<and> j < i + 1 + k \<and> P (es ! j) \<and> (\<forall>l. i + 1 \<le> l \<and> l < j \<longrightarrow> \<not> P (es ! l))"
      using Suc.IH [of "i + 1"] Suc.prems by auto
    have "\<not> P (es ! l)" if "i \<le> l" "i + 1 \<le> l \<longrightarrow> \<not> P (es ! l)" for l
      using that False by (cases "l = i") auto
    with r False Suc.prems show ?thesis
      by (cases r) (auto simp: Suc_le_eq)
  qed
qed

text \<open>
  \<open>table_ok\<close>: the table is as long as the code believes, its fields have their C sizes, the
  options of a reply fit the option area, and no hardware address holds two leases.
\<close>

definition entry_ok :: "dhcp_entry \<Rightarrow> bool" where
  "entry_ok e \<longleftrightarrow> length (mac e) = 6 \<and> length (addr e) = 4 \<and> length (subnet e) = 4"

definition unique_macs :: "dhcp_entry list \<Rightarrow> bool" where
  "unique_macs es \<longleftrightarrow> (\<forall>i j. i < length es \<and> j < length es \<and> i \<noteq> j \<and> \<not> is_vacant (es ! i) \<longrightarrow> mac (es ! i) \<noteq> mac (es ! j))"

definition table_ok :: "dhcp_config \<Rightarrow> bool" where
  "table_ok c \<longleftrightarrow> num_entry c = length (entries c) \<and> (\<forall>e \<in> set (entries c). entry_ok e) \<and> unique_macs (entries c)
     \<and> length (c_addr c) = 4 \<and> length (c_dns c) = 4 \<and> (case domain c of None \<Rightarrow> True | Some d \<Rightarrow> length d \<le> 239)"

lemma scan_table:
  assumes "table_ok c"
  shows "\<exists>r. scan P (num_entry c) (entries c) 0 = Some r \<and>
     (case r of None \<Rightarrow> \<forall>j < length (entries c). \<not> P (entries c ! j)
      | Some j \<Rightarrow> j < length (entries c) \<and> P (entries c ! j) \<and> (\<forall>l < j. \<not> P (entries c ! l)))"
  using scan_spec [of 0 "num_entry c" "entries c" P] assms by (auto simp: table_ok_def split: option.splits)

lemma set_mac_sels [simp]: "num_entry (set_mac i m c) = num_entry c" "length (entries (set_mac i m c)) = length (entries c)"
  "c_addr (set_mac i m c) = c_addr c" "c_dns (set_mac i m c) = c_dns c" "domain (set_mac i m c) = domain c"
  "c_port (set_mac i m c) = c_port c"
  by (simp_all add: set_mac_def)

lemma set_mac_nth: "j < length (entries c) \<Longrightarrow> entries (set_mac i m c) ! j = (if j = i then (entries c ! j)\<lparr>mac := m\<rparr> else entries c ! j)"
  by (auto simp: set_mac_def nth_list_update)

lemma set_mac_ok:
  assumes "table_ok c" "i < length (entries c)" "length m = 6"
    and "\<forall>j < length (entries c). j \<noteq> i \<longrightarrow> mac (entries c ! j) \<noteq> m \<or> is_vacant (entries c ! j)"
  shows "table_ok (set_mac i m c)"
proof -
  have v: "is_vacant (entries (set_mac i m c) ! j) \<longleftrightarrow> (if j = i then m = [0,0,0,0,0,0] else is_vacant (entries c ! j))"
    if "j < length (entries c)" for j using that by (simp add: set_mac_nth is_vacant_def)
  have "unique_macs (entries (set_mac i m c))"
    using assms unfolding unique_macs_def
    by (auto simp: set_mac_nth v table_ok_def unique_macs_def) (auto simp: is_vacant_def)
  moreover have "\<forall>e \<in> set (entries (set_mac i m c)). entry_ok e"
    using assms by (auto simp: set_mac_def table_ok_def entry_ok_def dest!: set_update_subset_insert [THEN subsetD])
  ultimately show ?thesis using assms(1) by (simp add: table_ok_def)
qed

lemma free_entry_ok: "table_ok c \<Longrightarrow> i < length (entries c) \<Longrightarrow> table_ok (free_entry i c)"
  unfolding free_entry_def by (rule set_mac_ok) (auto simp: is_vacant_def)

text \<open>\<open>same_leases\<close>: between two tables only the leases of one hardware address differ.\<close>

definition same_leases :: "bytes \<Rightarrow> dhcp_config \<Rightarrow> dhcp_config \<Rightarrow> bool" where
  "same_leases m c c' \<longleftrightarrow> length (entries c') = length (entries c)
     \<and> (\<forall>i < length (entries c). addr (entries c' ! i) = addr (entries c ! i) \<and> subnet (entries c' ! i) = subnet (entries c ! i)
          \<and> lease (entries c' ! i) = lease (entries c ! i)
          \<and> (\<not> is_vacant (entries c ! i) \<and> mac (entries c ! i) \<noteq> m \<longrightarrow> mac (entries c' ! i) = mac (entries c ! i)))"

lemma same_leases_refl [simp]: "same_leases m c c"
  by (simp add: same_leases_def)

text \<open>The client's own lease is given up first: \<open>release m c\<close>.\<close>

definition give_up :: "bytes \<Rightarrow> dhcp_config \<Rightarrow> dhcp_config" where
  "give_up m c = (case entry_by_mac m c of Some (Some i) \<Rightarrow> free_entry i c | _ \<Rightarrow> c)"

lemma give_up_ok:
  assumes "table_ok c"
  shows "table_ok (give_up m c)" "same_leases m c (give_up m c)"
    "\<forall>j < length (entries c). mac (entries (give_up m c) ! j) = m \<longrightarrow> is_vacant (entries (give_up m c) ! j)"
    "\<exists>r. entry_by_mac m c = Some r \<and> (case r of Some i \<Rightarrow> free_entry i c | None \<Rightarrow> c) = give_up m c"
proof -
  from scan_table [OF assms, of "\<lambda>e. mac e = m"] obtain r where r: "entry_by_mac m c = Some r"
    "case r of None \<Rightarrow> \<forall>j < length (entries c). mac (entries c ! j) \<noteq> m
      | Some j \<Rightarrow> j < length (entries c) \<and> mac (entries c ! j) = m \<and> (\<forall>l < j. mac (entries c ! l) \<noteq> m)"
    by (auto simp: entry_by_mac_def)
  have g: "give_up m c = (case r of Some i \<Rightarrow> free_entry i c | None \<Rightarrow> c)"
    by (simp add: give_up_def r(1) split: option.split)
  then show "\<exists>r. entry_by_mac m c = Some r \<and> (case r of Some i \<Rightarrow> free_entry i c | None \<Rightarrow> c) = give_up m c"
    using r(1) by auto
  show "table_ok (give_up m c)" "same_leases m c (give_up m c)"
    unfolding g using r(2) assms free_entry_ok
    by (auto split: option.splits simp: same_leases_def free_entry_def set_mac_nth)
  show "\<forall>j < length (entries c). mac (entries (give_up m c) ! j) = m \<longrightarrow> is_vacant (entries (give_up m c) ! j)"
  proof (cases r)
    case None
    then show ?thesis using r(2) by (simp add: g)
  next
    case (Some i)
    have i: "i < length (entries c)" "mac (entries c ! i) = m" using Some r(2) by simp_all
    show ?thesis
    proof (intro allI impI)
      fix j assume j: "j < length (entries c)" "mac (entries (give_up m c) ! j) = m"
      show "is_vacant (entries (give_up m c) ! j)"
      proof (cases "j = i")
        case True
        then show ?thesis using j by (simp add: g Some free_entry_def set_mac_nth is_vacant_def)
      next
        case False
        then have "mac (entries c ! j) = mac (entries c ! i)" using j i by (simp add: g Some free_entry_def set_mac_nth)
        moreover have "unique_macs (entries c)" using assms by (simp add: table_ok_def)
        ultimately have "is_vacant (entries c ! j)" using i(1) j(1) False unfolding unique_macs_def by metis
        then show ?thesis using False j by (simp add: g Some free_entry_def set_mac_nth)
      qed
    qed
  qed
qed

section \<open>The reply\<close>

text \<open>The message after the handler edited it: header fields, cookie, options, zeros.\<close>

definition reply_bytes :: "u8 \<Rightarrow> dhcp_config \<Rightarrow> dhcp_entry \<Rightarrow> bytes \<Rightarrow> bytes \<Rightarrow> bytes" where
  "reply_bytes t c e yiaddr d =
     (let f = filled t (domain c) (of_le32 (c_dns c)) (lease e) (of_le32 (c_addr c)) (of_le32 (c_addr c)) (of_le32 (subnet e))
      in [2] @ take 7 (drop 1 d) @ [0, 0, 0, 0] @ take 4 (drop 12 d) @ yiaddr @ take 216 (drop 20 d) @ magic_cookie
         @ f @ replicate (sizeof_dp_options - length f) 0 @ drop 515 d)"

lemma filled_length:
  "length (filled t dn dns l sid r m) \<le> 36 + (case dn of None \<Rightarrow> 0 | Some d \<Rightarrow> length d)"
  by (simp add: filled_def option_list_def split: option.split)

lemma le16_0 [simp]: "le16 0 = [0, 0]"
  by (simp add: le16_def)

lemma reply_header_spec:
  assumes "length d = 516" "length yiaddr = 4"
  shows "reply_header yiaddr d = Some ([2] @ take 7 (drop 1 d) @ [0, 0, 0, 0] @ take 4 (drop 12 d) @ yiaddr
     @ take 216 (drop 20 d) @ magic_cookie @ drop 240 d)"
proof -
  have a: "wr_at d dp_op [2] = Some ([2] @ drop 1 d)" using assms by (simp add: wr_at_def dhcp_offsets)
  let ?d1 = "[2] @ drop 1 d"
  have b: "wr_at ?d1 dp_secs (le16 0) = Some ([2] @ take 7 (drop 1 d) @ [0, 0] @ drop 10 d)"
    using assms by (simp add: wr_at_def dhcp_offsets)
  let ?d2 = "[2] @ take 7 (drop 1 d) @ [0, 0] @ drop 10 d"
  have c: "wr_at ?d2 dp_flags (le16 0) = Some ([2] @ take 7 (drop 1 d) @ [0, 0, 0, 0] @ drop 12 d)"
    using assms by (simp add: wr_at_def dhcp_offsets)
  let ?d3 = "[2] @ take 7 (drop 1 d) @ [0, 0, 0, 0] @ drop 12 d"
  have e: "wr_at ?d3 dp_yiaddr yiaddr = Some ([2] @ take 7 (drop 1 d) @ [0, 0, 0, 0] @ take 4 (drop 12 d) @ yiaddr @ drop 20 d)"
    using assms by (simp add: wr_at_def dhcp_offsets)
  let ?d4 = "[2] @ take 7 (drop 1 d) @ [0, 0, 0, 0] @ take 4 (drop 12 d) @ yiaddr @ drop 20 d"
  have f: "wr_at ?d4 dp_magic magic_cookie = Some ([2] @ take 7 (drop 1 d) @ [0, 0, 0, 0] @ take 4 (drop 12 d) @ yiaddr
     @ take 216 (drop 20 d) @ magic_cookie @ drop 240 d)"
    using assms by (simp add: wr_at_def dhcp_offsets magic_cookie_def)
  show ?thesis unfolding reply_header_def a bind.bind_lunit b c e f ..
qed

lemma reply_options_spec:
  assumes "length h = 240" "length d = 276" "case domain c of None \<Rightarrow> True | Some d \<Rightarrow> length d \<le> 239"
  shows "reply_options t c e (h @ d) = Some (h @ (let f = filled t (domain c) (of_le32 (c_dns c)) (lease e)
      (of_le32 (c_addr c)) (of_le32 (c_addr c)) (of_le32 (subnet e)) in f @ replicate (sizeof_dp_options - length f) 0 @ drop 275 d))"
proof -
  define f where "f = filled t (domain c) (of_le32 (c_dns c)) (lease e) (of_le32 (c_addr c)) (of_le32 (c_addr c)) (of_le32 (subnet e))"
  have lf: "length f \<le> 275"
    using filled_length [of t "domain c" "of_le32 (c_dns c)" "lease e" "of_le32 (c_addr c)" "of_le32 (c_addr c)" "of_le32 (subnet e)"]
      assms(3) by (simp add: f_def split: option.splits)
  have a: "wr_at (h @ d) dp_options (replicate sizeof_dp_options 0) = Some (h @ replicate 275 0 @ drop 275 d)"
    using assms by (simp add: wr_at_def dhcp_offsets)
  let ?b = "h @ replicate 275 0 @ drop 275 d"
  have "fill_options ?b dp_options t (domain c) (of_le32 (c_dns c)) (lease e) (of_le32 (c_addr c)) (of_le32 (c_addr c)) (of_le32 (subnet e))
     = Some (take dp_options ?b @ f @ drop (dp_options + length f) ?b, length f)"
    unfolding f_def by (rule fill_options_spec) (use lf assms f_def in \<open>simp add: dhcp_offsets\<close>)
  also have "take dp_options ?b @ f @ drop (dp_options + length f) ?b = h @ f @ replicate (275 - length f) 0 @ drop 275 d"
    using assms lf by (simp add: dhcp_offsets)
  finally show ?thesis unfolding reply_options_def a bind.bind_lunit
    by (simp add: f_def Let_def dhcp_offsets)
qed

lemma reply_ok:
  assumes "length d = 516" "length yiaddr = 4" "table_ok c"
  shows "(do { d \<leftarrow> reply_header yiaddr d; reply_options t c e d }) = Some (reply_bytes t c e yiaddr d)"
    and "length (reply_bytes t c e yiaddr d) = 516"
    and "take 6 (drop 28 (reply_bytes t c e yiaddr d)) = take 6 (drop 28 d)"
proof -
  let ?h = "[2] @ take 7 (drop 1 d) @ [0, 0, 0, 0] @ take 4 (drop 12 d) @ yiaddr @ take 216 (drop 20 d) @ magic_cookie"
  have h: "length ?h = 240" using assms by (simp add: magic_cookie_def)
  have dm: "case domain c of None \<Rightarrow> True | Some d \<Rightarrow> length d \<le> 239" using assms(3) by (simp add: table_ok_def)
  have rh: "reply_header yiaddr d = Some (?h @ drop 240 d)" using reply_header_spec [OF assms(1,2)] by simp
  have ro: "reply_options t c e (?h @ drop 240 d) = Some (reply_bytes t c e yiaddr d)"
    using assms(1) by (subst reply_options_spec [OF h _ dm]) (simp_all add: reply_bytes_def Let_def)
  show "(do { d \<leftarrow> reply_header yiaddr d; reply_options t c e d }) = Some (reply_bytes t c e yiaddr d)"
    unfolding rh bind.bind_lunit ro ..
  have "length (filled t (domain c) (of_le32 (c_dns c)) (lease e) (of_le32 (c_addr c)) (of_le32 (c_addr c)) (of_le32 (subnet e))) \<le> 275"
    using filled_length [of t "domain c" "of_le32 (c_dns c)" "lease e" "of_le32 (c_addr c)" "of_le32 (c_addr c)" "of_le32 (subnet e)"]
      dm by (simp split: option.splits)
  then show "length (reply_bytes t c e yiaddr d) = 516"
    using assms by (simp add: reply_bytes_def Let_def magic_cookie_def dhcp_offsets)
  have "take 6 (drop 28 (a @ b @ z)) = take 6 (drop (28 - length a) b)" if "length a = 20" "14 \<le> length b" for a b z :: bytes
    using that by simp
  from this [of "[2] @ take 7 (drop 1 d) @ [0, 0, 0, 0] @ take 4 (drop 12 d) @ yiaddr" "take 216 (drop 20 d)"]
  show "take 6 (drop 28 (reply_bytes t c e yiaddr d)) = take 6 (drop 28 d)"
    using assms by (simp add: reply_bytes_def Let_def drop_take min_def)
qed

section \<open>What the two requests do\<close>

text \<open>
  The decision of the handler on a message \<open>d\<close>: the table afterwards when no answer is sent,
  and the entry and the message of the answer.
\<close>

definition chaddr :: "bytes \<Rightarrow> bytes" where
  "chaddr d = take 6 (drop dp_chaddr d)"

definition options_of :: "bytes \<Rightarrow> bytes" where
  "options_of d = take sizeof_dp_options (drop dp_options d)"

definition offer_of :: "bytes \<Rightarrow> dhcp_config \<Rightarrow> nat option" where
  "offer_of d c = (case the (entry_by_mac (chaddr d) c) of Some i \<Rightarrow> Some i | None \<Rightarrow> the (vacant_address c))"

definition requested_ip :: "bytes \<Rightarrow> bytes option" where
  "requested_ip d = (case the (find_dhcp_option (options_of d) sizeof_dp_options DHCP_IPADDRESS) of
       None \<Rightarrow> None
     | Some o1 \<Rightarrow> if options_of d ! (o1 + 1) = 4 then Some (take 4 (drop (o1 + 2) (options_of d))) else None)"

definition grant_of :: "bytes \<Rightarrow> dhcp_config \<Rightarrow> dhcp_config \<times> nat option" where
  "grant_of d c = (case requested_ip d of
       None \<Rightarrow> (c, None)
     | Some ip \<Rightarrow> (let c1 = give_up (chaddr d) c in
         case the (entry_by_ip (of_le32 ip) c1) of
           None \<Rightarrow> (c1, None)
         | Some i \<Rightarrow> (c1, if is_vacant (entries c1 ! i) then Some i else None)))"

text \<open>The network state after an answer was sent or could not be.\<close>

definition sent :: "nat \<Rightarrow> u16 \<Rightarrow> bytes \<Rightarrow> net \<Rightarrow> net \<Rightarrow> bool" where
  "sent u port d n n' \<longleftrightarrow> (\<exists>m c ub netif. n' = n\<lparr>pbufs := m, ip_id := ip_id n + 1,
       events := events n @ [ip_event netif (sent_bytes ub netif (ip_id n) IPADDR_BROADCAST port c d) IPADDR_BROADCAST]\<rparr>
     \<and> can_send n u ub netif IPADDR_BROADCAST
     \<and> heap m = heap (pbufs n) \<and> pool m = pool (pbufs n) \<and> (\<forall>a. length (blk m a) = length (blk (pbufs n) a))
     \<and> (\<forall>a. a \<notin> set (pool m) \<longrightarrow> blk m a = blk (pbufs n) a)
     \<and> checksum_ok (nif_ip netif) IPADDR_BROADCAST (udp_header (local_port ub) port (of_nat (length d) + 8) c @ d))"

lemma reply_alloc_send:
  assumes "pool_ok slots (pbufs n)" "pool (pbufs n) = q # qs" "length d = 516" "can_send n u ub netif IPADDR_BROADCAST"
  shows "\<exists>n1 n'. with_pbufs (pbuf_alloc PBUF_TRANSPORT (of_nat sizeof_dhcp_data) PBUF_POOL) n = Some (Some q, n1)
     \<and> send_reply u port q d n1 = Some n' \<and> sent u port d n n'"
proof -
  have un: "unat (of_nat sizeof_dhcp_data :: u16) = 516" by (simp add: sizeof_dhcp_data_def)
  then have le: "unat (of_nat sizeof_dhcp_data :: u16) \<le> 1460" by simp
  from pbuf_alloc_single [OF assms(1,2) le] obtain b m1 where
    m1: "pbuf_alloc PBUF_TRANSPORT (of_nat sizeof_dhcp_data) PBUF_POOL (pbufs n) = Some (Some q, m1)"
      "heap m1 = (heap (pbufs n))(q \<mapsto> b)" "blk m1 = blk (pbufs n)" "pool m1 = qs" "p_payload b = 56"
      "p_len b = of_nat sizeof_dhcp_data" "p_type b = PBUF_POOL" "owned m1 q [q]"
      "length (chain_data m1 [q]) = 516" unfolding un by blast
  have h1: "heap m1 q = Some b" by (simp add: m1(2))
  have "\<exists>m'. payload_write q 0 d m1 = Some m' \<and> hd_edit m1 m' q \<and> owned m' q [q] \<and> heap m' = heap m1
     \<and> chain_data m' [q] = d"
    by (rule pick_write [OF m1(8) h1 _ refl]) (use m1(6,9) assms(3) un in simp_all)
  then obtain m2 where m2: "payload_write q 0 d m1 = Some m2" "hd_edit m1 m2 q" "owned m2 q [q]" "heap m2 = heap m1"
    "chain_data m2 [q] = d" by blast
  let ?n2 = "n\<lparr>pbufs := m2\<rparr>"
  have cs: "can_send ?n2 u ub netif IPADDR_BROADCAST" using assms(4) by (simp add: can_send_def ip_route_def cong: option.case_cong)
  have "\<exists>m c. let e = ip_event netif (sent_bytes ub netif (ip_id ?n2) IPADDR_BROADCAST port c d) IPADDR_BROADCAST in
     (do { (err, s) \<leftarrow> udp_sendto u q IPADDR_BROADCAST port ?n2; map_option snd (with_pbufs (pbuf_free (Some q)) s) })
       = Some (?n2\<lparr>pbufs := m, ip_id := ip_id ?n2 + 1, events := events ?n2 @ [e]\<rparr>)
     \<and> heap m = (heap (pbufs ?n2))(q := None) \<and> pool m = q # pool (pbufs ?n2)
     \<and> (\<forall>a. length (blk m a) = length (blk (pbufs ?n2) a)) \<and> (\<forall>a. a \<noteq> q \<longrightarrow> blk m a = blk (pbufs ?n2) a)
     \<and> checksum_ok (nif_ip netif) IPADDR_BROADCAST (udp_header (local_port ub) port (of_nat (length d) + 8) c @ d)"
    by (rule send_and_free [OF _ _ m1(7,5) _ _ cs]) (use m2 h1 assms(3) in simp_all)
  then obtain m c where m: "(do { (err, s) \<leftarrow> udp_sendto u q IPADDR_BROADCAST port ?n2; map_option snd (with_pbufs (pbuf_free (Some q)) s) })
       = Some (n\<lparr>pbufs := m, ip_id := ip_id n + 1, events := events n @
           [ip_event netif (sent_bytes ub netif (ip_id n) IPADDR_BROADCAST port c d) IPADDR_BROADCAST]\<rparr>)"
     "heap m = (heap m2)(q := None)" "pool m = q # pool m2"
     "\<forall>a. length (blk m a) = length (blk m2 a)" "\<forall>a. a \<noteq> q \<longrightarrow> blk m a = blk m2 a"
     "checksum_ok (nif_ip netif) IPADDR_BROADCAST (udp_header (local_port ub) port (of_nat (length d) + 8) c @ d)"
    by (auto simp: Let_def)
  have hq: "heap (pbufs n) q = None" using assms(1,2) by (simp add: pool_ok_def)
  have hm: "heap m = heap (pbufs n)" using m(2) m2(4) m1(2) hq by (simp add: fun_eq_iff)
  have pm: "pool m = pool (pbufs n)" using m(3) m2(2) m1(4) assms(2) by (simp add: hd_edit_def)
  have lm: "\<forall>a. length (blk m a) = length (blk (pbufs n) a)"
    using m(4) hd_edit_fields(4) [OF m2(2)] m1(3) by simp
  have bm: "\<forall>a. a \<notin> set (pool m) \<longrightarrow> blk m a = blk (pbufs n) a"
    using m(5) m2(2) m1(3) pm assms(2) by (auto simp: hd_edit_def)
  have "send_reply u port q d (n\<lparr>pbufs := m1\<rparr>) = Some (n\<lparr>pbufs := m, ip_id := ip_id n + 1, events := events n @
           [ip_event netif (sent_bytes ub netif (ip_id n) IPADDR_BROADCAST port c d) IPADDR_BROADCAST]\<rparr>)"
    using m(1) m2(1) by (simp add: send_reply_def do_pbufs_def)
  moreover have "sent u port d n (n\<lparr>pbufs := m, ip_id := ip_id n + 1, events := events n @
           [ip_event netif (sent_bytes ub netif (ip_id n) IPADDR_BROADCAST port c d) IPADDR_BROADCAST]\<rparr>)"
    unfolding sent_def using hm pm lm bm m(6) assms(4)
    by (intro exI [of _ m] exI [of _ c] exI [of _ ub] exI [of _ netif]) simp
  ultimately show ?thesis using m1(1) by (simp add: with_pbufs_def)
qed

definition no_buffer :: "net \<Rightarrow> net" where
  "no_buffer n = n\<lparr>pbufs := (pbufs n)\<lparr>pbuf_free_ooseq_pending := True\<rparr>\<rparr>"

definition answered :: "nat \<Rightarrow> u16 \<Rightarrow> bytes \<Rightarrow> net \<Rightarrow> net \<Rightarrow> bool" where
  "answered u port d n n' \<longleftrightarrow> (if pool (pbufs n) = [] then n' = no_buffer n else sent u port d n n')"


lemma entry_lengths: "table_ok c \<Longrightarrow> i < length (entries c) \<Longrightarrow> entry_ok (entries c ! i)"
  by (simp add: table_ok_def)

text \<open>DISCOVER: the client's own entry or the first vacant one is offered; the table is not touched.\<close>

lemma dhcp_discover_spec:
  assumes "config s = Some c" "table_ok c" "length (dhcp_data s) = 516" "pool_ok slots (pbufs n)"
    and "can_send n u ub netif IPADDR_BROADCAST"
  shows "\<exists>s' n'. dhcp_discover u port s n = Some (s', n') \<and> config s' = Some c \<and> length (dhcp_data s') = 516
     \<and> (case offer_of (dhcp_data s) c of
          None \<Rightarrow> s' = s \<and> n' = n
        | Some i \<Rightarrow> i < length (entries c)
            \<and> dhcp_data s' = reply_bytes DHCP_OFFER c (entries c ! i) (addr (entries c ! i)) (dhcp_data s)
            \<and> answered u port (dhcp_data s') n n')"
proof -
  let ?d = "dhcp_data s"
  have ch: "rd_at ?d dp_chaddr 6 = Some (chaddr ?d)" using assms(3) by (simp add: rd_at_def dhcp_offsets chaddr_def)
  from scan_table [OF assms(2), of "\<lambda>e. mac e = chaddr ?d"] obtain r0 where r0: "entry_by_mac (chaddr ?d) c = Some r0"
    "\<forall>i. r0 = Some i \<longrightarrow> i < length (entries c)" by (fastforce simp: entry_by_mac_def)
  from scan_table [OF assms(2), of is_vacant] obtain r1 where r1: "vacant_address c = Some r1"
    "\<forall>i. r1 = Some i \<longrightarrow> i < length (entries c)" by (fastforce simp: vacant_address_def)
  define r where "r = (case r0 of None \<Rightarrow> r1 | Some i \<Rightarrow> Some i)"
  have r: "(case r0 of None \<Rightarrow> vacant_address c | Some i \<Rightarrow> Some (Some i)) = Some r" "offer_of ?d c = r"
    "\<forall>i. r = Some i \<longrightarrow> i < length (entries c)"
    using r0 r1 by (auto simp: r_def offer_of_def split: option.splits)
  show ?thesis
  proof (cases r)
    case None
    then show ?thesis using assms(1,3) ch r0(1) r by (simp add: dhcp_discover_def)
  next
    case (Some i)
    let ?e = "entries c ! i"
    have i: "i < length (entries c)" "length (addr ?e) = 4"
      using r(3) Some entry_lengths [OF assms(2), of i] by (simp_all add: entry_ok_def)
    have le: "le32 (of_le32 (addr ?e)) = addr ?e" using i(2) by (rule le32.enc_dec)
    define d' where "d' = reply_bytes DHCP_OFFER c ?e (addr ?e) ?d"
    have "(do { d \<leftarrow> reply_header (addr ?e) ?d; reply_options DHCP_OFFER c ?e d }) = Some d'" "length d' = 516"
      unfolding d'_def using reply_ok [OF assms(3) i(2) assms(2)] by blast+
    then obtain h where h: "reply_header (addr ?e) ?d = Some h" "reply_options DHCP_OFFER c ?e h = Some d'" "length d' = 516"
      by (auto split: Option.bind_splits)
    note run = dhcp_discover_def assms(1) ch r0(1) r(1) Some le h
    show ?thesis
    proof (cases "pool (pbufs n)")
      case Nil
      have "dhcp_discover u port s n = Some (s\<lparr>dhcp_data := d'\<rparr>, no_buffer n)"
        using run by (simp add: with_pbufs_def pbuf_alloc_empty [OF Nil] no_buffer_def)
      then show ?thesis using assms(1) i(1) h(3) r(2) Some Nil by (simp add: answered_def d'_def)
    next
      case (Cons q qs)
      from reply_alloc_send [OF assms(4) Cons h(3) assms(5)] obtain n1 n' where
        "with_pbufs (pbuf_alloc PBUF_TRANSPORT (of_nat sizeof_dhcp_data) PBUF_POOL) n = Some (Some q, n1)"
        "send_reply u port q d' n1 = Some n'" "sent u port d' n n'" by blast
      with run have "dhcp_discover u port s n = Some (s\<lparr>dhcp_data := d'\<rparr>, n')" "sent u port d' n n'" by simp_all
      then show ?thesis using assms(1) i(1) h(3) r(2) Some Cons by (simp add: answered_def d'_def)
    qed
  qed
qed

text \<open>REQUEST: the client's old lease goes, the asked address is granted when it is vacant then.\<close>

lemma dhcp_request_spec:
  assumes "config s = Some c" "table_ok c" "length (dhcp_data s) = 516" "pool_ok slots (pbufs n)"
    and "can_send n u ub netif IPADDR_BROADCAST" "grant_of (dhcp_data s) c = (c1, g)"
  shows "\<exists>s' n'. dhcp_request u port s n = Some (s', n') \<and> length (dhcp_data s') = 516
     \<and> (case g of
          None \<Rightarrow> s' = s\<lparr>config := Some c1\<rparr> \<and> n' = n
        | Some i \<Rightarrow> i < length (entries c)
            \<and> dhcp_data s' = reply_bytes DHCP_ACK c1 (entries c1 ! i) (the (requested_ip (dhcp_data s))) (dhcp_data s)
            \<and> answered u port (dhcp_data s') n n'
            \<and> config s' = Some (if pool (pbufs n) = [] then c1 else set_mac i (chaddr (dhcp_data s)) c1))"
proof -
  let ?d = "dhcp_data s"
  have op: "rd_at ?d dp_options sizeof_dp_options = Some (options_of ?d)" "length (options_of ?d) = 275"
    using assms(3) by (simp_all add: rd_at_def dhcp_offsets options_of_def)
  have ch: "rd_at ?d dp_chaddr 6 = Some (chaddr ?d)" using assms(3) by (simp add: rd_at_def dhcp_offsets chaddr_def)
  have "sizeof_dp_options \<le> length (options_of ?d)" using op(2) by (simp add: sizeof_dp_options_def)
  from find_loop_safe [OF this, of DHCP_IPADDRESS 0] obtain fo where fo:
    "find_dhcp_option (options_of ?d) sizeof_dp_options DHCP_IPADDRESS = Some fo"
    "\<forall>j. fo = Some j \<longrightarrow> j + 1 < 275 \<and> j + 2 + unat (options_of ?d ! (j + 1)) \<le> 275"
    unfolding find_dhcp_option_def by (fastforce simp: sizeof_dp_options_def)
  show ?thesis
  proof (cases "requested_ip ?d")
    case None
    then have g: "c1 = c" "g = None" using assms(6) by (simp_all add: grant_of_def)
    have "dhcp_request u port s n = Some (s, n)"
      using None fo op by (auto simp: dhcp_request_def requested_ip_def byte_at_def split: option.splits if_splits)
    moreover have "s\<lparr>config := Some c\<rparr> = s" using assms(1) by simp
    ultimately show ?thesis using g assms(3) by simp
  next
    case (Some ip)
    then obtain o1 where o1: "fo = Some o1" "options_of ?d ! (o1 + 1) = 4" "ip = take 4 (drop (o1 + 2) (options_of ?d))"
      using fo(1) by (auto simp: requested_ip_def split: option.splits if_splits)
    have l4: "byte_at (options_of ?d) (o1 + 1) = Some 4" and rip: "rd_at (options_of ?d) (o1 + 2) 4 = Some ip" and lip: "length ip = 4"
      using fo(2) o1 op(2) by (auto simp: byte_at_def rd_at_def)
    let ?c1 = "give_up (chaddr ?d) c"
    note gu = give_up_ok [OF assms(2), of "chaddr ?d"]
    from gu(4) obtain r where r: "entry_by_mac (chaddr ?d) c = Some r" "(case r of Some i \<Rightarrow> free_entry i c | None \<Rightarrow> c) = ?c1"
      by blast
    have len1: "length (entries ?c1) = length (entries c)" using gu(2) by (simp add: same_leases_def)
    from scan_table [OF gu(1), of "\<lambda>e. of_le32 (addr e) = of_le32 ip"] obtain r1 where r1:
      "entry_by_ip (of_le32 ip) ?c1 = Some r1" "\<forall>i. r1 = Some i \<longrightarrow> i < length (entries c)"
      unfolding len1 by (fastforce simp: entry_by_ip_def)
    have c1: "c1 = ?c1" "g = (case r1 of None \<Rightarrow> None | Some i \<Rightarrow> if is_vacant (entries ?c1 ! i) then Some i else None)"
      using assms(6) Some r1(1) by (auto simp: grant_of_def Let_def split: option.splits)
    note run = dhcp_request_def op(1) fo(1) o1(1) l4 assms(1) ch r rip r1(1) Let_def
    show ?thesis
    proof (cases g)
      case None
      then have "dhcp_request u port s n = Some (s\<lparr>config := Some c1\<rparr>, n)"
        using run c1 by (auto split: option.splits if_splits)
      then show ?thesis using None assms(3) by simp
    next
      case g: (Some i)
      then have i: "r1 = Some i" "is_vacant (entries c1 ! i)" "i < length (entries c)"
        using c1 r1(2) by (auto split: option.splits if_splits)
      let ?e = "entries c1 ! i"
      define d' where "d' = reply_bytes DHCP_ACK c1 ?e ip ?d"
      have ok1: "table_ok c1" using gu(1) c1 by simp
      have "(do { d \<leftarrow> reply_header ip ?d; reply_options DHCP_ACK c1 ?e d }) = Some d'" "length d' = 516"
        "take 6 (drop 28 d') = take 6 (drop 28 ?d)"
        unfolding d'_def using reply_ok [OF assms(3) lip ok1] by blast+
      then obtain h where h: "reply_header ip ?d = Some h" "reply_options DHCP_ACK c1 ?e h = Some d'" "length d' = 516"
        "rd_at d' dp_chaddr 6 = Some (chaddr ?d)"
        by (auto simp: rd_at_def dhcp_offsets chaddr_def split: Option.bind_splits)
      show ?thesis
      proof (cases "pool (pbufs n)")
        case Nil
        have "dhcp_request u port s n = Some (s\<lparr>dhcp_data := d', config := Some c1\<rparr>, no_buffer n)"
          using run i h c1(1) [symmetric]
          by (simp add: with_pbufs_def pbuf_alloc_empty [OF Nil] no_buffer_def)
        then show ?thesis using i g h(3) Nil Some by (simp add: answered_def d'_def)
      next
        case (Cons q qs)
        from reply_alloc_send [OF assms(4) Cons h(3) assms(5)] obtain n1 n' where
          "with_pbufs (pbuf_alloc PBUF_TRANSPORT (of_nat sizeof_dhcp_data) PBUF_POOL) n = Some (Some q, n1)"
          "send_reply u port q d' n1 = Some n'" "sent u port d' n n'" by blast
        with run i h c1(1) [symmetric] have
          "dhcp_request u port s n = Some (s\<lparr>dhcp_data := d', config := Some (set_mac i (chaddr ?d) c1)\<rparr>, n')"
          "sent u port d' n n'" by simp_all
        then show ?thesis using i g h(3) Cons Some by (simp add: answered_def d'_def)
      qed
    qed
  qed
qed

section \<open>The handler\<close>

definition request_result :: "bytes \<Rightarrow> dhcp_config \<Rightarrow> net \<Rightarrow> dhcp_config" where
  "request_result d c n = (case grant_of d c of
       (c1, None) \<Rightarrow> c1
     | (c1, Some i) \<Rightarrow> if pool (pbufs n) = [] then c1 else set_mac i (chaddr d) c1)"

lemma requested_ip_length:
  assumes "length d = 516" "requested_ip d = Some ip"
  shows "length ip = 4"
proof -
  have "length (options_of d) = 275" using assms(1) by (simp add: options_of_def dhcp_offsets)
  moreover from this have "sizeof_dp_options \<le> length (options_of d)" by (simp add: sizeof_dp_options_def)
  from find_loop_safe [OF this, of DHCP_IPADDRESS 0] obtain fo where
    "find_dhcp_option (options_of d) sizeof_dp_options DHCP_IPADDRESS = Some fo"
    "\<forall>j. fo = Some j \<longrightarrow> j + 1 < 275 \<and> j + 2 + unat (options_of d ! (j + 1)) \<le> 275"
    unfolding find_dhcp_option_def by (fastforce simp: sizeof_dp_options_def)
  ultimately show ?thesis using assms(2) by (auto simp: requested_ip_def split: option.splits if_splits)
qed

lemma grant_cases:
  assumes "table_ok c" "grant_of d c = (c1, g)"
  shows "c1 = c \<and> g = None \<or> c1 = give_up (chaddr d) c \<and>
    (case g of None \<Rightarrow> True | Some i \<Rightarrow> i < length (entries c) \<and> is_vacant (entries c1 ! i)
       \<and> (\<exists>ip. requested_ip d = Some ip \<and> of_le32 (addr (entries c ! i)) = of_le32 ip))"
proof (cases "requested_ip d")
  case None
  then show ?thesis using assms(2) by (simp add: grant_of_def)
next
  case (Some ip)
  let ?c1 = "give_up (chaddr d) c"
  note gu = give_up_ok [OF assms(1), of "chaddr d"]
  have len1: "length (entries ?c1) = length (entries c)" using gu(2) by (simp add: same_leases_def)
  from scan_table [OF gu(1), of "\<lambda>e. of_le32 (addr e) = of_le32 ip"] obtain r1 where r1:
    "entry_by_ip (of_le32 ip) ?c1 = Some r1"
    "\<forall>i. r1 = Some i \<longrightarrow> i < length (entries c) \<and> of_le32 (addr (entries ?c1 ! i)) = of_le32 ip"
    unfolding len1 by (fastforce simp: entry_by_ip_def)
  have "addr (entries ?c1 ! i) = addr (entries c ! i)" if "i < length (entries c)" for i
    using gu(2) that by (simp add: same_leases_def)
  then show ?thesis using assms(2) Some r1
    by (auto simp: grant_of_def Let_def split: option.splits if_splits)
qed

lemma request_result_ok:
  assumes "table_ok c" "length d = 516"
  shows "table_ok (request_result d c n)" "same_leases (chaddr d) c (request_result d c n)"
proof -
  obtain c1 g where g: "grant_of d c = (c1, g)" by fastforce
  note gu = give_up_ok [OF assms(1), of "chaddr d"]
  have "table_ok (request_result d c n) \<and> same_leases (chaddr d) c (request_result d c n)"
  proof (cases "g = None \<or> pool (pbufs n) = []")
    case True
    then show ?thesis using grant_cases [OF assms(1) g] gu(1,2) assms(1)
      by (auto simp: request_result_def g split: option.split)
  next
    case False
    then obtain i where i: "g = Some i" "c1 = give_up (chaddr d) c" "i < length (entries c)" "is_vacant (entries c1 ! i)"
      using grant_cases [OF assms(1) g] by auto
    have len: "length (entries c1) = length (entries c)" using gu(2) i(2) by (simp add: same_leases_def)
    have r: "request_result d c n = set_mac i (chaddr d) c1" using False i(1) by (simp add: request_result_def g)
    have "table_ok (set_mac i (chaddr d) c1)"
      using gu(1,3) i len assms(2) by (intro set_mac_ok) (auto simp: chaddr_def dhcp_offsets)
    moreover have "same_leases (chaddr d) c (set_mac i (chaddr d) c1)"
      using gu(2) i len unfolding same_leases_def
      by (auto simp: set_mac_nth is_vacant_def)
    ultimately show ?thesis by (simp add: r)
  qed
  then show "table_ok (request_result d c n)" "same_leases (chaddr d) c (request_result d c n)" by blast+
qed

lemma answered_bufs:
  assumes "answered u port d n n'"
  shows "heap (pbufs n') = heap (pbufs n)" "pool (pbufs n') = pool (pbufs n)"
    "\<forall>a. length (blk (pbufs n') a) = length (blk (pbufs n) a)"
    "events n' = events n \<or> (\<exists>e. events n' = events n @ [e])" "net_frame n n'"
  using assms by (auto simp: answered_def no_buffer_def sent_def net_frame_def split: if_splits)

text \<open>The message the handler works on: the datagram over what the last one left.\<close>

definition message :: "nat \<Rightarrow> dhserver \<Rightarrow> net \<Rightarrow> bytes" where
  "message p s n = (let x = take 516 (buf_data (pbufs n) p) in x @ drop (length x) (dhcp_data s))"

lemma dhcp_recv_spec:
  assumes "config s = Some c" "table_ok c" "length (dhcp_data s) = 516" "pool_ok slots (pbufs n)"
    and "can_send n u ub netif IPADDR_BROADCAST" "exclusive (pbufs n) p as" "length as \<le> chain_fuel"
    and "d = message p s n"
  shows "\<exists>s' n' n1. dhcp_udp_recv_proc u p port s n = Some (s', n') \<and> pool_ok slots (pbufs n')
     \<and> heap (pbufs n') = (\<lambda>x. if x \<in> set as then None else heap (pbufs n) x)
     \<and> length (dhcp_data s') = 516 \<and> events n' = events n1 \<and> net_frame n n'
     \<and> config s' = Some (if d ! 242 = DHCP_REQUEST then request_result d c n else c)
     \<and> (if d ! 242 = DHCP_DISCOVER then
          (case offer_of d c of None \<Rightarrow> events n1 = events n
           | Some i \<Rightarrow> i < length (entries c) \<and> answered u port (reply_bytes DHCP_OFFER c (entries c ! i) (addr (entries c ! i)) d) n n1)
        else if d ! 242 = DHCP_REQUEST then
          (case grant_of d c of (c1, None) \<Rightarrow> events n1 = events n
           | (c1, Some i) \<Rightarrow> answered u port (reply_bytes DHCP_ACK c1 (entries c1 ! i) (the (requested_ip d)) d) n n1)
        else events n1 = events n)"
proof -
  from assms(6) obtain b where b: "heap (pbufs n) p = Some b" "in_block (pbufs n) p b"
    by (auto simp: exclusive_def)
  define x where "x = take 516 (buf_data (pbufs n) p)"
  have lx: "length x = min (unat (p_len b)) 516" using buf_data_length [OF b] by (simp add: x_def)
  have rd: "payload_read p 0 (min (unat (p_len b)) sizeof_dhcp_data) (pbufs n) = Some x"
    using payload_read_in_block [OF b, of 0 "min (unat (p_len b)) 516"] buf_data_length [OF b]
    by (simp add: x_def sizeof_dhcp_data_def min_def)
  have d: "wr_at (dhcp_data s) 0 x = Some d" "length d = 516"
    using assms(3,8) lx by (simp_all add: wr_at_def message_def x_def [symmetric] Let_def)
  let ?s = "s\<lparr>dhcp_data := d\<rparr>"
  have t: "byte_at d (dp_options + 2) = Some (d ! 242)" using d(2) by (simp add: byte_at_def dhcp_offsets)
  define mid where "mid = (if d ! 242 = DHCP_DISCOVER then dhcp_discover u port ?s n
                else if d ! 242 = DHCP_REQUEST then dhcp_request u port ?s n else Some (?s, n))"
  have ne: "DHCP_DISCOVER \<noteq> DHCP_REQUEST" by (simp add: DHCP_DISCOVER_def DHCP_REQUEST_def)
  have "\<exists>s' n1. mid = Some (s', n1) \<and> length (dhcp_data s') = 516
     \<and> heap (pbufs n1) = heap (pbufs n) \<and> pool (pbufs n1) = pool (pbufs n)
     \<and> (\<forall>a. length (blk (pbufs n1) a) = length (blk (pbufs n) a)) \<and> net_frame n n1
     \<and> config s' = Some (if d ! 242 = DHCP_REQUEST then request_result d c n else c)
     \<and> (if d ! 242 = DHCP_DISCOVER then
          (case offer_of d c of None \<Rightarrow> events n1 = events n
           | Some i \<Rightarrow> i < length (entries c) \<and> answered u port (reply_bytes DHCP_OFFER c (entries c ! i) (addr (entries c ! i)) d) n n1)
        else if d ! 242 = DHCP_REQUEST then
          (case grant_of d c of (c1, None) \<Rightarrow> events n1 = events n
           | (c1, Some i) \<Rightarrow> answered u port (reply_bytes DHCP_ACK c1 (entries c1 ! i) (the (requested_ip d)) d) n n1)
        else events n1 = events n)"
  proof (cases "d ! 242 = DHCP_DISCOVER")
    case True
    have cfg: "config ?s = Some c" "length (dhcp_data ?s) = 516" using assms(1) d(2) by simp_all
    from dhcp_discover_spec [OF cfg(1) assms(2) cfg(2) assms(4,5), of port] obtain s' n' where
      dd: "dhcp_discover u port ?s n = Some (s', n')" "config s' = Some c" "length (dhcp_data s') = 516"
      "case offer_of d c of None \<Rightarrow> s' = ?s \<and> n' = n
        | Some i \<Rightarrow> i < length (entries c)
            \<and> dhcp_data s' = reply_bytes DHCP_OFFER c (entries c ! i) (addr (entries c ! i)) d
            \<and> answered u port (dhcp_data s') n n'" by (auto cong: option.case_cong if_cong)
    then show ?thesis using True ne answered_bufs [of u port "dhcp_data s'" n n']
      by (intro exI [of _ s'] exI [of _ n']) (auto simp: mid_def split: option.splits)
  next
    case nd: False
    show ?thesis
    proof (cases "d ! 242 = DHCP_REQUEST")
      case True
      obtain c1 g where g: "grant_of (dhcp_data ?s) c = (c1, g)" by fastforce
      have cfg: "config ?s = Some c" "length (dhcp_data ?s) = 516" using assms(1) d(2) by simp_all
      from dhcp_request_spec [OF cfg(1) assms(2) cfg(2) assms(4,5) g, of port] obtain s' n' where
        dr: "dhcp_request u port ?s n = Some (s', n')" "length (dhcp_data s') = 516"
        "case g of None \<Rightarrow> s' = ?s\<lparr>config := Some c1\<rparr> \<and> n' = n
        | Some i \<Rightarrow> i < length (entries c)
            \<and> dhcp_data s' = reply_bytes DHCP_ACK c1 (entries c1 ! i) (the (requested_ip d)) d
            \<and> answered u port (dhcp_data s') n n'
            \<and> config s' = Some (if pool (pbufs n) = [] then c1 else set_mac i (chaddr d) c1)" by (auto cong: option.case_cong if_cong)
      then show ?thesis using True nd g answered_bufs [of u port "dhcp_data s'" n n']
        by (intro exI [of _ s'] exI [of _ n']) (auto simp: mid_def request_result_def split: option.splits)
    next
      case False
      then show ?thesis using nd d(2) assms(1) by (simp add: mid_def)
    qed
  qed
  then obtain s' n1 where mid: "mid = Some (s', n1)" "length (dhcp_data s') = 516"
     "heap (pbufs n1) = heap (pbufs n)" "pool (pbufs n1) = pool (pbufs n)"
     "\<forall>a. length (blk (pbufs n1) a) = length (blk (pbufs n) a)" "net_frame n n1"
     "config s' = Some (if d ! 242 = DHCP_REQUEST then request_result d c n else c)"
     "if d ! 242 = DHCP_DISCOVER then
          (case offer_of d c of None \<Rightarrow> events n1 = events n
           | Some i \<Rightarrow> i < length (entries c) \<and> answered u port (reply_bytes DHCP_OFFER c (entries c ! i) (addr (entries c ! i)) d) n n1)
        else if d ! 242 = DHCP_REQUEST then
          (case grant_of d c of (c1, None) \<Rightarrow> events n1 = events n
           | (c1, Some i) \<Rightarrow> answered u port (reply_bytes DHCP_ACK c1 (entries c1 ! i) (the (requested_ip d)) d) n n1)
        else events n1 = events n" by blast
  have ex: "exclusive (pbufs n1) p as" using exclusive_same [OF mid(3,5)] assms(6) by simp
  have ok: "pool_ok slots (pbufs n1)" by (rule pool_ok_same [OF assms(4) mid(3-5)])
  from pbuf_free_exclusive [OF ex assms(7)] obtain k m' where fr: "pbuf_free (Some p) (pbufs n1) = Some (k, m')"
    "heap m' = (\<lambda>x. if x \<in> set as then None else heap (pbufs n1) x)" by blast
  have run: "dhcp_udp_recv_proc u p port s n = Some (s', n1\<lparr>pbufs := m'\<rparr>)"
    using b(1) rd d(1) t mid(1) fr(1)
    by (simp add: dhcp_udp_recv_proc_def mid_def [symmetric] with_pbufs_def)
  show ?thesis
  proof (intro exI conjI)
    show "dhcp_udp_recv_proc u p port s n = Some (s', n1\<lparr>pbufs := m'\<rparr>)" by (rule run)
    show "pool_ok slots (pbufs (n1\<lparr>pbufs := m'\<rparr>))" using pool_ok_free [OF ok ex assms(7) fr(1)] by simp
    show "heap (pbufs (n1\<lparr>pbufs := m'\<rparr>)) = (\<lambda>x. if x \<in> set as then None else heap (pbufs n) x)"
      using fr(2) unfolding mid(3) by simp
    show "events (n1\<lparr>pbufs := m'\<rparr>) = events n1" by simp
    show "net_frame n (n1\<lparr>pbufs := m'\<rparr>)" using mid(6) by (simp add: net_frame_def)
  qed (rule mid)+
qed

text \<open>The handler as the delivery of datagrams sees it.\<close>

definition dhcp_inv :: "dhserver \<Rightarrow> bool" where
  "dhcp_inv s \<longleftrightarrow> (\<exists>c. config s = Some c \<and> table_ok c) \<and> length (dhcp_data s) = 516"

definition dhcp_handler :: "nat \<Rightarrow> nat \<Rightarrow> u32 \<Rightarrow> u16 \<Rightarrow> dhserver \<Rightarrow> net \<Rightarrow> (dhserver \<times> net) option" where
  "dhcp_handler u p src port s n = dhcp_udp_recv_proc u p port s n"

lemma message_length: "length (dhcp_data s) = 516 \<Longrightarrow> length (message p s n) = 516"
  by (simp add: message_def Let_def)

interpretation dhcp: udp_handler dhcp_handler dhcp_inv "\<lambda>_. IPADDR_BROADCAST"
proof
  fix slots n p as u src s port
  assume a: "pool_ok slots (pbufs n)" "exclusive (pbufs n) p as" "length as \<le> chain_fuel"
    "sendable u IPADDR_BROADCAST n" "dhcp_inv s"
  then obtain c ub netif where c: "config s = Some c" "table_ok c" "length (dhcp_data s) = 516"
    "can_send n u ub netif IPADDR_BROADCAST" by (auto simp: dhcp_inv_def sendable_def)
  let ?d = "message p s n"
  have "table_ok (if ?d ! 242 = DHCP_REQUEST then request_result ?d c n else c)"
    using c(2) request_result_ok(1) [OF c(2) message_length [OF c(3)]] by simp
  with dhcp_recv_spec [OF c(1,2,3) a(1) c(4) a(2,3) refl, of port]
  show "\<exists>s' n'. dhcp_handler u p src port s n = Some (s', n') \<and> dhcp_inv s' \<and> pool_ok slots (pbufs n')
    \<and> net_frame n n' \<and> heap (pbufs n') = (\<lambda>x. if x \<in> set as then None else heap (pbufs n) x)"
    unfolding dhcp_handler_def dhcp_inv_def by blast
qed

section \<open>The application's table\<close>

definition stm_entry :: "u8 \<Rightarrow> dhcp_entry" where
  "stm_entry k = \<lparr>mac = replicate 6 0, addr = [192, 168, 7, k], subnet = [255, 255, 255, 0], lease = 24 * 60 * 60\<rparr>"

definition stm_config :: dhcp_config where
  "stm_config = \<lparr>c_addr = [192, 168, 7, 1], c_port = 67, c_dns = [192, 168, 7, 1], domain = Some [115, 116, 109],
     num_entry = 3, entries = [stm_entry 2, stm_entry 3, stm_entry 4]\<rparr>"

definition stm_server :: "dhcp_config \<Rightarrow> dhserver" where
  "stm_server c = \<lparr>dhcp_data = replicate 516 0, dh_pcb = Some 0, config = Some c\<rparr>"

lemma stm_config_ok: "table_ok stm_config"
  by (auto simp: table_ok_def stm_config_def stm_entry_def entry_ok_def unique_macs_def is_vacant_def nth_Cons numeral_eq_Suc
      split: nat.splits)

text \<open>A message of client 1..6 with the given option area.\<close>

definition client_mac :: bytes where "client_mac = [1, 2, 3, 4, 5, 6]"

definition client_msg :: "bytes \<Rightarrow> bytes" where
  "client_msg opts = replicate 28 0 @ client_mac @ replicate 206 0 @ opts @ replicate (276 - length opts) 0"

lemma client_msg_facts:
  assumes "length opts \<le> 275" "length old = 516"
  shows "length (client_msg opts) = 516" "chaddr (client_msg opts) = client_mac"
    "options_of (client_msg opts) = opts @ replicate (275 - length opts) 0"
    "message 0 (s\<lparr>dhcp_data := old\<rparr>) (rx_net port (client_msg opts)) = client_msg opts"
proof -
  show l: "length (client_msg opts) = 516" using assms(1) by (simp add: client_msg_def client_mac_def)
  show "chaddr (client_msg opts) = client_mac" by (simp add: chaddr_def client_msg_def client_mac_def dhcp_offsets)
  show "options_of (client_msg opts) = opts @ replicate (275 - length opts) 0"
    using assms(1) by (simp add: options_of_def client_msg_def client_mac_def dhcp_offsets)
  have "length (client_msg opts) \<le> 1474" using l by simp
  then have "buf_data (pbufs (rx_net port (client_msg opts))) 0 = client_msg opts"
    using l by (simp add: buf_data_def rx_net_def rx_pbuf_def unat16_of_nat)
  then show "message 0 (s\<lparr>dhcp_data := old\<rparr>) (rx_net port (client_msg opts)) = client_msg opts"
    using l assms(2) by (simp add: message_def Let_def)
qed

section \<open>Properties\<close>

text \<open>
  C7: Every option \<open>fill_options\<close> writes is found again: the list lies at the destination, the
  rest of the object is untouched, and the search of \<open>find_dhcp_option\<close> over it returns, for the
  type of each option, the place where exactly its value is stored.
\<close>

theorem dhcp_options_roundtrip:
  assumes "case dname of None \<Rightarrow> True | Some d \<Rightarrow> length d < 256"
    and "off + length (filled t dname dns l sid router m) \<le> length dest"
    and "(ty, v) \<in> set (option_list t dname dns l sid router m)"
  shows "\<exists>dest' n j. fill_options dest off t dname dns l sid router m = Some (dest', n)
     \<and> length dest' = length dest \<and> take off dest' = take off dest \<and> drop (off + n) dest' = drop (off + n) dest
     \<and> find_dhcp_option (take n (drop off dest')) n ty = Some (Some j)
     \<and> take (length v) (drop (off + j + 2) dest') = v"
proof -
  let ?ol = "option_list t dname dns l sid router m" and ?f = "filled t dname dns l sid router m"
  have dist: "distinct (map fst ?ol)"
    by (simp add: option_list_def DHCP_SERVERID_def DHCP_LEASETIME_def DHCP_SUBNETMASK_def DHCP_ROUTER_def
        DHCP_DNSDOMAIN_def DHCP_DNSSERVER_def split: option.split)
  have small: "\<forall>x \<in> set ?ol. length (snd x) < 256" using assms(1)
    by (auto simp: option_list_def split: option.splits)
  from assms(3) obtain xs ys where sp: "?ol = xs @ (ty, v) # ys" by (metis split_list)
  have xs: "\<forall>x \<in> set xs. length (snd x) < 256 \<and> fst x \<noteq> ty" "length v < 256"
    using dist small unfolding sp by auto
  have f: "?f = tlvs xs @ tlv (ty, v) @ (tlvs ys @ [DHCP_END])" by (simp add: filled_def sp)
  have fi: "find_dhcp_option ?f (length ?f) ty = Some (Some (length (tlvs xs)))"
    unfolding f by (rule find_dhcp_option_tlvs [OF xs])
  let ?d = "take off dest @ ?f @ drop (off + length ?f) dest"
  have w: "fill_options dest off t dname dns l sid router m = Some (?d, length ?f)" by (rule fill_options_spec [OF assms(2)])
  have lo: "length (take off dest) = off" using assms(2) by simp
  have dr: "drop off ?d = ?f @ drop (off + length ?f) dest" using lo by simp
  have "drop (off + length (tlvs xs) + 2) ?d = drop (length (tlvs xs) + 2) (drop off ?d)"
    by (simp only: drop_drop add_ac)
  also have "\<dots> = v @ tlvs ys @ [DHCP_END] @ drop (off + length ?f) dest"
    by (simp only: dr) (simp add: f tlv_def)
  finally have v: "take (length v) (drop (off + length (tlvs xs) + 2) ?d) = v" by simp
  show ?thesis
    using w fi v assms(2) dr by (intro exI [of _ ?d] exI [of _ "length ?f"] exI [of _ "length (tlvs xs)"]) simp
qed

theorem dhcp_options_roundtrip_witness:
  "\<exists>dest' n j. fill_options (replicate 100 0) 10 DHCP_ACK (Some [115, 116, 109]) 5 86400 6 7 8 = Some (dest', n)
     \<and> find_dhcp_option (take n (drop 10 dest')) n DHCP_DNSDOMAIN = Some (Some j)
     \<and> take 3 (drop (10 + j + 2) dest') = [115, 116, 109]"
proof -
  have "case Some [115, 116, 109 :: u8] of None \<Rightarrow> True | Some d \<Rightarrow> length d < 256"
    "10 + length (filled DHCP_ACK (Some [115, 116, 109]) 5 86400 6 7 8) \<le> length (replicate 100 (0 :: u8))"
    "(DHCP_DNSDOMAIN, [115, 116, 109]) \<in> set (option_list DHCP_ACK (Some [115, 116, 109]) 5 86400 6 7 8)"
    by (simp_all add: filled_def option_list_def)
  from dhcp_options_roundtrip [OF this] show ?thesis by (auto simp: numeral_3_eq_3)
qed

text \<open>
  The option search never reads outside the area, whatever bytes a client sent, and always
  ends; what it finds is an option of the asked type whose value lies inside the area.
\<close>

theorem dhcp_find_option_safe:
  assumes "sz \<le> length attrs"
  shows "\<exists>r. find_dhcp_option attrs sz attr = Some r \<and>
     (case r of None \<Rightarrow> True | Some j \<Rightarrow> j + 1 < sz \<and> attrs ! j = attr \<and> j + 2 + unat (attrs ! (j + 1)) \<le> sz)"
  using find_loop_safe [OF assms, of attr 0] by (auto simp: find_dhcp_option_def split: option.splits)

theorem dhcp_find_option_safe_witness:
  "\<exists>r. find_dhcp_option [53, 200, 3, 50] 4 50 = Some r"
  using dhcp_find_option_safe [of 4 "[53, 200, 3, 50]" 50] by auto

text \<open>
  C8: Any sequence of datagrams, well-formed or not, is handled without a fault and without a
  leak: every received buffer is given back, the answers' buffers too, and the table stays sound.
\<close>

theorem dhcp_serves_any_queue:
  assumes "pool_ok slots (pbufs n)" "dhcp_inv s" "sendable u IPADDR_BROADCAST n"
    and "list_all2 (waiting slots n) ds ass" "distinct (concat ass)"
  shows "\<exists>s' n'. serve dhcp_handler u ds s n = Some (s', n') \<and> dhcp_inv s' \<and> pool_ok slots (pbufs n')
    \<and> heap (pbufs n') = (\<lambda>x. if x \<in> set (concat ass) then None else heap (pbufs n) x)"
  using dhcp.serve_queue [OF assms(1,2) _ assms(4,5), of u] assms(3) by auto

theorem dhcp_serves_any_queue_witness:
  "\<exists>s' n'. serve dhcp_handler 0 [(0, 0, 68)] (stm_server stm_config) (rx_net 67 [1, 1, 6, 0]) = Some (s', n')
     \<and> heap (pbufs n') 0 = None"
proof -
  have n: "length [1, 1, 6, 0 :: u8] \<le> 1474" "(67 :: u16) \<noteq> 0" by simp_all
  have i: "dhcp_inv (stm_server stm_config)" using stm_config_ok by (simp add: dhcp_inv_def stm_server_def)
  have w: "list_all2 (waiting {0..<16} (rx_net 67 [1, 1, 6, 0])) [(0, 0, 68)] [[0]]" using rx_net_ok(7) [OF n] by simp
  from dhcp_serves_any_queue [OF rx_net_ok(1) [OF n] i rx_net_ok(6) [OF n] w] show ?thesis by auto
qed

text \<open>
  C9: No message can take a lease from another client: after any datagram the addresses of the
  table are the same, every entry leased to a hardware address other than the sender's is
  unchanged, no address is leased twice, and only a REQUEST changes the table at all.
\<close>

theorem dhcp_leases_safe:
  assumes "config s = Some c" "table_ok c" "length (dhcp_data s) = 516" "pool_ok slots (pbufs n)"
    and "can_send n u ub netif IPADDR_BROADCAST" "exclusive (pbufs n) p as" "length as \<le> chain_fuel"
  shows "\<exists>s' n' c'. dhcp_udp_recv_proc u p port s n = Some (s', n') \<and> config s' = Some c' \<and> table_ok c'
     \<and> same_leases (chaddr (message p s n)) c c' \<and> (message p s n ! 242 \<noteq> DHCP_REQUEST \<longrightarrow> c' = c)"
proof -
  let ?d = "message p s n"
  let ?c = "if ?d ! 242 = DHCP_REQUEST then request_result ?d c n else c"
  have "table_ok ?c" "same_leases (chaddr ?d) c ?c"
    using assms(2) request_result_ok [OF assms(2) message_length [OF assms(3)]] by simp_all
  moreover obtain s' n' where "dhcp_udp_recv_proc u p port s n = Some (s', n')" "config s' = Some ?c"
    using dhcp_recv_spec [OF assms refl, of port] by blast
  ultimately show ?thesis by (intro exI [of _ s'] exI [of _ n'] exI [of _ ?c]) simp
qed

theorem dhcp_leases_safe_witness:
  "\<exists>s' n' c'. dhcp_udp_recv_proc 0 0 68 (stm_server stm_config) (rx_net 67 [1, 1, 6, 0]) = Some (s', n')
     \<and> config s' = Some c' \<and> table_ok c'"
proof -
  have n: "length [1, 1, 6, 0 :: u8] \<le> 1474" "(67 :: u16) \<noteq> 0" "length [0 :: nat] \<le> chain_fuel" by (simp_all add: chain_fuel_def)
  have c: "config (stm_server stm_config) = Some stm_config" "length (dhcp_data (stm_server stm_config)) = 516"
    by (simp_all add: stm_server_def)
  from dhcp_leases_safe [OF c(1) stm_config_ok c(2) rx_net_ok(1) [OF n(1,2)] rx_net_ok(5) [OF n(1,2)] rx_net_ok(2) [OF n(1,2)] n(3)]
  show ?thesis by blast
qed


text \<open>\<open>carries u port d n n'\<close>: exactly one packet was sent, the UDP datagram with data \<open>d\<close>.\<close>

definition carries :: "nat \<Rightarrow> u16 \<Rightarrow> bytes \<Rightarrow> net \<Rightarrow> net \<Rightarrow> bool" where
  "carries u port d n n' \<longleftrightarrow> (\<exists>ub netif c. can_send n u ub netif IPADDR_BROADCAST
     \<and> events n' = events n @ [ip_event netif (sent_bytes ub netif (ip_id n) IPADDR_BROADCAST port c d) IPADDR_BROADCAST])"

lemma answered_carries:
  "answered u port d n n1 \<Longrightarrow> pool (pbufs n) \<noteq> [] \<Longrightarrow> events n' = events n1 \<Longrightarrow> carries u port d n n'"
  unfolding answered_def sent_def carries_def by (auto, blast)

text \<open>
  C10: A granted REQUEST is acknowledged and recorded: when the asked address is vacant after
  the client gave its old lease up, and a buffer is free, one ACK leaves that names the asked
  address, and the entry with that address holds the client's hardware address afterwards.
\<close>

theorem dhcp_request_granted:
  assumes "config s = Some c" "table_ok c" "length (dhcp_data s) = 516" "pool_ok slots (pbufs n)"
    and "can_send n u ub netif IPADDR_BROADCAST" "exclusive (pbufs n) p as" "length as \<le> chain_fuel"
    and "d = message p s n" "d ! 242 = DHCP_REQUEST" "grant_of d c = (c1, Some i)" "pool (pbufs n) \<noteq> []"
  shows "\<exists>s' n' c' ip. dhcp_udp_recv_proc u p port s n = Some (s', n') \<and> config s' = Some c'
     \<and> requested_ip d = Some ip \<and> addr (entries c' ! i) = ip \<and> mac (entries c' ! i) = chaddr d
     \<and> carries u port (reply_bytes DHCP_ACK c1 (entries c1 ! i) ip d) n n'"
proof -
  from grant_cases [OF assms(2,10)] obtain ip where g: "c1 = give_up (chaddr d) c" "i < length (entries c)"
    "requested_ip d = Some ip" "of_le32 (addr (entries c ! i)) = of_le32 ip" by auto
  have ld: "length d = 516" using assms(3,8) message_length by simp
  have lip: "length ip = 4" by (rule requested_ip_length [OF ld g(3)])
  have la: "length (addr (entries c ! i)) = 4" using entry_lengths [OF assms(2) g(2)] by (simp add: entry_ok_def)
  have ai: "addr (entries c ! i) = ip" using g(4) le32.dec_inj [OF la lip] by simp
  have sl: "same_leases (chaddr d) c c1" using give_up_ok(2) [OF assms(2)] g(1) by simp
  then have l1: "i < length (entries c1)" "addr (entries c1 ! i) = ip" using g(2) ai by (simp_all add: same_leases_def)
  have ne: "DHCP_REQUEST \<noteq> DHCP_DISCOVER" by (simp add: DHCP_DISCOVER_def DHCP_REQUEST_def)
  have rr: "request_result d c n = set_mac i (chaddr d) c1" using assms(10,11) by (simp add: request_result_def)
  from dhcp_recv_spec [OF assms(1-8), of port] obtain s' n' n1 where r:
    "dhcp_udp_recv_proc u p port s n = Some (s', n')" "events n' = events n1" "config s' = Some (request_result d c n)"
    "answered u port (reply_bytes DHCP_ACK c1 (entries c1 ! i) ip d) n n1"
    using assms(9,10) ne g(3) by auto
  have "carries u port (reply_bytes DHCP_ACK c1 (entries c1 ! i) ip d) n n'"
    by (rule answered_carries [OF r(4) assms(11) r(2)])
  moreover have "addr (entries (set_mac i (chaddr d) c1) ! i) = ip" "mac (entries (set_mac i (chaddr d) c1) ! i) = chaddr d"
    using l1 by (simp_all add: set_mac_nth)
  ultimately show ?thesis using r(1,3) g(3) unfolding rr by blast
qed

definition request_msg :: bytes where
  "request_msg = client_msg ([53, 1, 3, 50, 4, 192, 168, 7, 3, 255])"

lemma request_msg_facts:
  "length request_msg = 516" "chaddr request_msg = client_mac" "request_msg ! 242 = DHCP_REQUEST"
  "requested_ip request_msg = Some [192, 168, 7, 3]"
  "message 0 (stm_server c) (rx_net port request_msg) = request_msg"
proof -
  let ?o = "[53, 1, 3, 50, 4, 192, 168, 7, 3, 255] :: bytes"
  have l: "length ?o \<le> 275" by simp
  note f = client_msg_facts [OF l, folded request_msg_def]
  show "length request_msg = 516" "chaddr request_msg = client_mac" using f(1,2) [of "replicate 516 0"] by simp_all
  show "request_msg ! 242 = DHCP_REQUEST"
    by (simp add: request_msg_def client_msg_def client_mac_def DHCP_REQUEST_def nth_append)
  have op: "options_of request_msg = tlvs [(53, [3])] @ tlv (DHCP_IPADDRESS, [192, 168, 7, 3]) @ 255 # replicate 265 0"
    using f(3) [of "replicate 516 0"] by (simp add: tlv_def DHCP_IPADDRESS_def)
  have "find_dhcp_option (options_of request_msg) sizeof_dp_options DHCP_IPADDRESS = Some (Some 3)"
    using find_dhcp_option_tlvs [of "[(53, [3])]" DHCP_IPADDRESS "[192, 168, 7, 3]" "255 # replicate 265 0"]
    unfolding op by (simp add: sizeof_dp_options_def DHCP_IPADDRESS_def)
  then show "requested_ip request_msg = Some [192, 168, 7, 3]"
    by (simp add: requested_ip_def) (simp add: op tlv_def)
  show "message 0 (stm_server c) (rx_net port request_msg) = request_msg"
    using f(4) [of "replicate 516 0" "stm_server c" port] by (simp add: stm_server_def)
qed

lemma rx_request:
  "length request_msg \<le> 1474" "(67 :: u16) \<noteq> 0" "length [0 :: nat] \<le> chain_fuel" "pool (pbufs (rx_net 67 request_msg)) \<noteq> []"
  "config (stm_server c) = Some c" "length (dhcp_data (stm_server c)) = 516"
  by (simp_all add: request_msg_facts chain_fuel_def rx_net_def stm_server_def)

lemmas rx_request_net = rx_net_ok(1) [OF rx_request(1,2)] rx_net_ok(5) [OF rx_request(1,2)] rx_net_ok(2) [OF rx_request(1,2)] rx_request(3)

theorem dhcp_request_granted_witness:
  "\<exists>s' n' c'. dhcp_udp_recv_proc 0 0 68 (stm_server stm_config) (rx_net 67 request_msg) = Some (s', n')
     \<and> config s' = Some c' \<and> mac (entries c' ! 1) = client_mac"
proof -
  have gu: "give_up client_mac stm_config = stm_config"
    by (simp add: give_up_def entry_by_mac_def stm_config_def stm_entry_def client_mac_def numeral_eq_Suc)
  have "of_le32 [192, 168, 7, 2] \<noteq> (of_le32 [192, 168, 7, 3] :: u32)" by (simp add: le32.dec_inj)
  then have "entry_by_ip (of_le32 [192, 168, 7, 3]) stm_config = Some (Some 1)"
    by (simp add: entry_by_ip_def stm_config_def stm_entry_def numeral_3_eq_3)
  then have "grant_of request_msg stm_config = (stm_config, Some 1)"
    by (simp add: grant_of_def request_msg_facts gu Let_def) (simp add: stm_config_def stm_entry_def is_vacant_def numeral_eq_Suc)
  from dhcp_request_granted [OF rx_request(5) stm_config_ok rx_request(6) rx_request_net
      request_msg_facts(5) [symmetric] request_msg_facts(3) this rx_request(4)] show ?thesis
    unfolding request_msg_facts by blast
qed



definition stm_leased :: dhcp_config where
  "stm_leased = set_mac 1 client_mac stm_config"

lemma stm_leased_ok: "table_ok stm_leased"
  unfolding stm_leased_def
  by (rule set_mac_ok [OF stm_config_ok]) (auto simp: stm_config_def stm_entry_def client_mac_def is_vacant_def nth_Cons numeral_eq_Suc
      split: nat.splits)


text \<open>
  A refused REQUEST still costs the client its lease. The code frees the sender's entry
  before it looks at the asked address; when that address belongs to somebody else no answer is
  sent (no NAK either) and the sender holds nothing any more.
\<close>

theorem dhcp_refused_request_drops_lease:
  assumes "config s = Some c" "table_ok c" "length (dhcp_data s) = 516" "pool_ok slots (pbufs n)"
    and "can_send n u ub netif IPADDR_BROADCAST" "exclusive (pbufs n) p as" "length as \<le> chain_fuel"
    and "d = message p s n" "d ! 242 = DHCP_REQUEST" "requested_ip d \<noteq> None" "snd (grant_of d c) = None"
  shows "\<exists>s' n' c'. dhcp_udp_recv_proc u p port s n = Some (s', n') \<and> events n' = events n \<and> config s' = Some c'
     \<and> length (entries c') = length (entries c)
     \<and> (\<forall>i < length (entries c'). mac (entries c' ! i) = chaddr d \<longrightarrow> is_vacant (entries c' ! i))"
proof -
  obtain c1 where g: "grant_of d c = (c1, None)" using assms(11) by (metis prod.collapse)
  have c1: "c1 = give_up (chaddr d) c" using g assms(10) by (auto simp: grant_of_def Let_def split: option.splits)
  have len: "length (entries c1) = length (entries c)"
    using give_up_ok(2) [OF assms(2), of "chaddr d"] by (simp add: c1 same_leases_def)
  have ne: "DHCP_REQUEST \<noteq> DHCP_DISCOVER" by (simp add: DHCP_DISCOVER_def DHCP_REQUEST_def)
  from dhcp_recv_spec [OF assms(1-8), of port] obtain s' n' where
    "dhcp_udp_recv_proc u p port s n = Some (s', n')" "events n' = events n" "config s' = Some (request_result d c n)"
    using assms(9) g ne by auto
  moreover have "request_result d c n = c1" by (simp add: request_result_def g)
  ultimately show ?thesis using give_up_ok(3) [OF assms(2), of "chaddr d"] len by (auto simp: c1)
qed

definition stm_two :: dhcp_config where
  "stm_two = set_mac 1 [9, 9, 9, 9, 9, 9] (set_mac 0 client_mac stm_config)"

lemma stm_two_entries:
  "entries stm_two = [(stm_entry 2)\<lparr>mac := client_mac\<rparr>, (stm_entry 3)\<lparr>mac := [9, 9, 9, 9, 9, 9]\<rparr>, stm_entry 4]"
  "num_entry stm_two = Suc (Suc (Suc 0))"
  "c_addr stm_two = [192, 168, 7, 1]" "c_dns stm_two = [192, 168, 7, 1]" "domain stm_two = Some [115, 116, 109]"
  by (simp_all add: stm_two_def set_mac_def stm_config_def)

lemma stm_two_ok: "table_ok stm_two"
proof -
  have m: "mac (entries stm_two ! 0) = client_mac" "mac (entries stm_two ! 1) = [9, 9, 9, 9, 9, 9]"
    "mac (entries stm_two ! 2) = replicate 6 0" "client_mac \<noteq> [9, 9, 9, 9, 9, 9]"
    by (simp_all add: stm_two_entries stm_entry_def client_mac_def)
  have z: "replicate 6 (0 :: u8) = [0, 0, 0, 0, 0, 0]" by (simp add: numeral_eq_Suc)
  have three: "i < Suc (Suc (Suc 0)) \<longleftrightarrow> i = 0 \<or> i = Suc 0 \<or> i = Suc (Suc 0)" for i :: nat by auto
  have "unique_macs (entries stm_two)"
    unfolding unique_macs_def using m by (auto simp: stm_two_entries three is_vacant_def nth_Cons' stm_entry_def client_mac_def z)
  then show ?thesis
    by (auto simp: table_ok_def stm_two_entries entry_ok_def stm_entry_def client_mac_def)
qed

theorem dhcp_refused_request_drops_lease_witness:
  "mac (entries stm_two ! 0) = client_mac \<and>
   (\<exists>s' n' c'. dhcp_udp_recv_proc 0 0 68 (stm_server stm_two) (rx_net 67 request_msg) = Some (s', n')
     \<and> events n' = [] \<and> config s' = Some c' \<and> mac (entries c' ! 0) \<noteq> client_mac)"
proof -
  have ips: "of_le32 [192, 168, 7, 2] \<noteq> (of_le32 [192, 168, 7, 3] :: u32)" by (simp add: le32.dec_inj)
  note e = stm_two_entries
  have gu: "give_up client_mac stm_two = free_entry 0 stm_two"
    by (simp add: give_up_def entry_by_mac_def e)
  have "entry_by_ip (of_le32 [192, 168, 7, 3]) (free_entry 0 stm_two) = Some (Some 1)"
    using ips by (simp add: entry_by_ip_def free_entry_def set_mac_def e stm_entry_def)
  then have g: "snd (grant_of request_msg stm_two) = None"
    by (simp add: grant_of_def request_msg_facts gu Let_def) (simp add: free_entry_def set_mac_def e is_vacant_def)
  have r: "requested_ip request_msg \<noteq> None" by (simp add: request_msg_facts)
  have ev: "events (rx_net 67 request_msg) = []" by (simp add: rx_net_def)
  from dhcp_refused_request_drops_lease [OF rx_request(5) stm_two_ok rx_request(6) rx_request_net
      request_msg_facts(5) [symmetric] request_msg_facts(3) r g, of 68]
  obtain s' n' c' where s': "dhcp_udp_recv_proc 0 0 68 (stm_server stm_two) (rx_net 67 request_msg) = Some (s', n')"
    "events n' = []" "config s' = Some c'" "length (entries c') = length (entries stm_two)"
    "\<forall>i < length (entries c'). mac (entries c' ! i) = client_mac \<longrightarrow> is_vacant (entries c' ! i)"
    unfolding request_msg_facts ev by blast
  have "0 < length (entries c')" using s'(4) by (simp add: e)
  then have "mac (entries c' ! 0) \<noteq> client_mac"
    using s'(5) by (auto simp: is_vacant_def client_mac_def)
  then show ?thesis using s'(1-3) by (auto simp: e)
qed

end
