(* ===== verification/Dns_Server.thy ===== *)
theory Dns_Server
  imports Udp
begin

text \<open>
  The DNS server, \<open>src/lrndis/dns-server/dnserver.c\<close>: the parser of a question and the
  handler that answers a query with one address record.

  \<open>query\<close> is the static \<open>dns_query_t\<close> that keeps the last name; \<open>query_proc\<close> is the callback
  the user registered, a function from the name (a C string) to the address, \<open>None\<close> for
  \<open>false\<close>. Codes of the parser are negative integers, as in the code.
\<close>

section \<open>Data\<close>

definition DNS_MAX_HOST_NAME_LEN :: nat where "DNS_MAX_HOST_NAME_LEN = 128"
definition sizeof_dns_header :: nat where "sizeof_dns_header = 12"

record dns_query =
  q_name :: bytes
  q_type :: u16
  q_Class :: u16

record dnserver =
  dn_pcb :: "nat option"
  query :: dns_query
  query_proc :: "(bytes \<Rightarrow> u32 option) option"

text \<open>The string a \<open>char *\<close> points to: up to the first zero, which must be inside the object.\<close>

definition c_string :: "bytes \<Rightarrow> bytes option" where
  "c_string b = (if 0 \<in> set b then Some (takeWhile (\<lambda>x. x \<noteq> 0) b) else None)"

section \<open>Parsing\<close>

text \<open>
  The label loop: position and remaining size of the input, length and contents of the name,
  number of labels. The result is the error code, or the state after the empty label.
\<close>

datatype label_end = Bad int | Good nat nat nat

function label_loop :: "bytes \<Rightarrow> nat \<Rightarrow> nat \<Rightarrow> nat \<Rightarrow> nat \<Rightarrow> bytes \<Rightarrow> (label_end \<times> bytes) option" where
  "label_loop data ptr sz len lables name =
     (if sz = 0 then Some (Bad (- 1), name)
      else case byte_at data ptr of None \<Rightarrow> None | Some lable_len \<Rightarrow>
        (let ptr = ptr + 1; sz' = sz - 1; l = unat lable_len in
         if l = 0 then Some (Good ptr sz' len, name)
         else if lables > 0 \<and> len = DNS_MAX_HOST_NAME_LEN then Some (Bad (- 2), name)
         else case (if lables > 0 then wr_at name len [46] else Some name) of None \<Rightarrow> None | Some name \<Rightarrow>
          (let len = (if lables > 0 then len + 1 else len) in
           if l > sz' then Some (Bad (- 1), name)
           else if len + l \<ge> DNS_MAX_HOST_NAME_LEN then Some (Bad (- 2), name)
           else case rd_at data ptr l of None \<Rightarrow> None | Some x \<Rightarrow>
             (case wr_at name len x of None \<Rightarrow> None | Some name \<Rightarrow>
                label_loop data (ptr + l) (sz' - l) (len + l) (lables + 1) name))))"
  by pat_completeness auto

termination by (relation "measure (\<lambda>(data, ptr, sz, len, lables, name). sz)") auto

declare label_loop.simps [simp del]

definition parse_next_query :: "bytes \<Rightarrow> nat \<Rightarrow> dns_query \<Rightarrow> (int \<times> dns_query) option" where
  "parse_next_query data sz q = do {
     (r, name) \<leftarrow> label_loop data 0 sz 0 0 (q_name q);
     let q = q\<lparr>q_name := name\<rparr>;
     case r of
       Bad e \<Rightarrow> Some (e, q)
     | Good ptr sz len \<Rightarrow>
         if sz < 4 then Some (- 1, q)
         else do {
           name \<leftarrow> wr_at name len [0];
           t \<leftarrow> rd_at data ptr 2;
           c \<leftarrow> rd_at data (ptr + 2) 2;
           Some (int (ptr + 4), \<lparr>q_name = name, q_type = of_le16 t, q_Class = of_le16 c\<rparr>) } }"

section \<open>The handler\<close>

definition dns_answer :: "u32 \<Rightarrow> bytes" where
  "dns_answer host = le16 (htons 0xC00C) @ le16 (htons 1) @ le16 (htons 1) @ le32 (htonl 32) @ le16 (htons 4) @ le32 host"

definition dns_free :: "nat \<Rightarrow> dnserver \<Rightarrow> net \<Rightarrow> (dnserver \<times> net) option" where
  "dns_free p s n = do { (k, n) \<leftarrow> with_pbufs (pbuf_free (Some p)) n; Some (s, n) }"

text \<open>The answer to a query of \<open>len\<close> bytes, header included, in the buffer \<open>out\<close>.\<close>

definition dns_reply :: "nat \<Rightarrow> nat \<Rightarrow> nat \<Rightarrow> u32 \<Rightarrow> u32 \<Rightarrow> u16 \<Rightarrow> nat \<Rightarrow> net \<Rightarrow> net option" where
  "dns_reply upcb p len host addr port out n = do {
     x \<leftarrow> payload_read p 0 len (pbufs n);
     n \<leftarrow> do_pbufs (payload_write out 0 x) n;
     f \<leftarrow> payload_read out 2 1 (pbufs n);
     n \<leftarrow> do_pbufs (payload_write out 2 [hd f OR 0x80]) n;
     n \<leftarrow> do_pbufs (payload_write out 6 (le16 (htons 1))) n;
     n \<leftarrow> do_pbufs (payload_write out len (dns_answer host)) n;
     (err, n) \<leftarrow> udp_sendto upcb out addr port n;
     map_option snd (with_pbufs (pbuf_free (Some out)) n) }"

definition dns_udp_recv_proc :: "nat \<Rightarrow> nat \<Rightarrow> u32 \<Rightarrow> u16 \<Rightarrow> dnserver \<Rightarrow> net \<Rightarrow> (dnserver \<times> net) option" where
  "dns_udp_recv_proc upcb p addr port s n = do {
     b \<leftarrow> heap (pbufs n) p;
     if unat (p_len b) \<le> sizeof_dns_header then dns_free p s n
     else do {
     h \<leftarrow> payload_read p 0 sizeof_dns_header (pbufs n);
     if h ! 2 AND 0x80 \<noteq> 0 then dns_free p s n
     else if htons (of_le16 (take 2 (drop 4 h))) \<noteq> 1 then dns_free p s n
     else do {
     data \<leftarrow> payload_read p sizeof_dns_header (unat (p_len b) - sizeof_dns_header) (pbufs n);
     (len, q) \<leftarrow> parse_next_query data (unat (p_len b) - sizeof_dns_header) (query s);
     let s = s\<lparr>query := q\<rparr>;
     if len < 0 then dns_free p s n
     else do {
     name \<leftarrow> c_string (q_name q);
     proc \<leftarrow> query_proc s;
     case proc name of None \<Rightarrow> dns_free p s n | Some host \<Rightarrow> do {
     let len = nat len + sizeof_dns_header;
     (out, n) \<leftarrow> with_pbufs (pbuf_alloc PBUF_TRANSPORT (of_nat (len + 16)) PBUF_POOL) n;
     case out of None \<Rightarrow> dns_free p s n | Some out \<Rightarrow> do {
     n \<leftarrow> dns_reply upcb p len host addr port out n;
     dns_free p s n } } } } } }"

section \<open>Starting and stopping\<close>

definition DNS_RECV_PROC :: nat where "DNS_RECV_PROC = 2"

definition dnserv_free :: "dnserver \<Rightarrow> net \<Rightarrow> (dnserver \<times> net) option" where
  "dnserv_free s n = (case dn_pcb s of
       None \<Rightarrow> Some (s, n)
     | Some u \<Rightarrow> do { n \<leftarrow> udp_remove u n; Some (s\<lparr>dn_pcb := None\<rparr>, n) })"

definition dnserv_init :: "u32 \<Rightarrow> u16 \<Rightarrow> (bytes \<Rightarrow> u32 option) \<Rightarrow> dnserver \<Rightarrow> net \<Rightarrow> (err_t \<times> dnserver \<times> net) option" where
  "dnserv_init bind_ip port qp s n = do {
     (s, n) \<leftarrow> dnserv_free s n;
     let (u, n) = udp_new n;
     let s = s\<lparr>dn_pcb := u\<rparr>;
     case u of
       None \<Rightarrow> Some (ERR_MEM, s, n)
     | Some u \<Rightarrow> do {
         (err, n) \<leftarrow> udp_bind u bind_ip port n;
         if err \<noteq> ERR_OK then do { (s, n) \<leftarrow> dnserv_free s n; Some (err, s, n) }
         else do {
           n \<leftarrow> udp_recv u (Some DNS_RECV_PROC) n;
           Some (ERR_OK, s\<lparr>query_proc := Some qp\<rparr>, n) } } }"

section \<open>The parser is safe and exact\<close>

lemma label_loop_safe:
  assumes "ptr + sz \<le> length data" "length name = 128" "len < 128"
  shows "\<exists>r name'. label_loop data ptr sz len lables name = Some (r, name') \<and> length name' = 128 \<and>
     (case r of Bad e \<Rightarrow> e = - 1 \<or> e = - 2 | Good ptr' sz' len' \<Rightarrow> ptr < ptr' \<and> ptr' + sz' = ptr + sz \<and> len' < 128
        \<and> ptr' + len \<le> ptr + len' + (if lables > 0 then 1 else 2))"
  using assms
proof (induction sz arbitrary: ptr len lables name rule: less_induct)
  case (less sz)
  show ?case
  proof (cases "sz = 0")
    case True
    then show ?thesis using less.prems by (subst label_loop.simps) simp
  next
    case False
    define l where "l = unat (data ! ptr)"
    have b: "byte_at data ptr = Some (data ! ptr)" using False less.prems by (simp add: byte_at_def)
    define len1 where "len1 = (if lables > 0 then len + 1 else len)"
    define n1 where "n1 = (if lables > 0 then take len name @ [46] @ drop (len + 1) name else name)"
    have n1: "(if lables > 0 then wr_at name len [46] else Some name) = Some n1" "length n1 = 128" "len1 \<le> 128"
      using less.prems by (auto simp: wr_at_def n1_def len1_def)
    have st: "label_loop data ptr sz len lables name =
      (if l = 0 then Some (Good (ptr + 1) (sz - 1) len, name)
       else if l > sz - 1 then Some (Bad (- 1), n1)
       else if len1 + l \<ge> 128 then Some (Bad (- 2), n1)
       else label_loop data (ptr + 1 + l) (sz - 1 - l) (len1 + l) (lables + 1)
              (take len1 n1 @ take l (drop (ptr + 1) data) @ drop (len1 + l) n1))"
      using False less.prems n1 b
      by (subst label_loop.simps)
        (auto simp: Let_def l_def [symmetric] len1_def [symmetric] DNS_MAX_HOST_NAME_LEN_def rd_at_def wr_at_def)
    show ?thesis
    proof (cases "l \<noteq> 0 \<and> l \<le> sz - 1 \<and> len1 + l < 128")
      case True
      have "\<exists>r name'. label_loop data (ptr + 1 + l) (sz - 1 - l) (len1 + l) (lables + 1)
              (take len1 n1 @ take l (drop (ptr + 1) data) @ drop (len1 + l) n1) = Some (r, name') \<and> length name' = 128 \<and>
         (case r of Bad e \<Rightarrow> e = - 1 \<or> e = - 2 | Good ptr' sz' len' \<Rightarrow>
            ptr + 1 + l < ptr' \<and> ptr' + sz' = ptr + 1 + l + (sz - 1 - l) \<and> len' < 128
            \<and> ptr' + (len1 + l) \<le> ptr + 1 + l + len' + (if lables + 1 > 0 then 1 else 2))"
        by (rule less.IH) (use True False less.prems n1 in auto)
      then obtain r name' where "label_loop data ptr sz len lables name = Some (r, name')" "length name' = 128"
         "case r of Bad e \<Rightarrow> e = - 1 \<or> e = - 2 | Good ptr' sz' len' \<Rightarrow>
            ptr + 1 + l < ptr' \<and> ptr' + sz' = ptr + 1 + l + (sz - 1 - l) \<and> len' < 128
            \<and> ptr' + (len1 + l) \<le> ptr + 1 + l + len' + (if lables + 1 > 0 then 1 else 2)"
        using True st by auto
      then show ?thesis using True False by (cases r) (auto simp: len1_def split: if_splits)
    next
      case stop: False
      then show ?thesis using False less.prems n1 by (auto simp: st)
    qed
  qed
qed

lemma parse_next_query_safe:
  assumes "sz \<le> length data" "length (q_name q) = 128"
  shows "\<exists>r q'. parse_next_query data sz q = Some (r, q') \<and> length (q_name q') = 128
     \<and> (r = - 1 \<or> r = - 2 \<or> 5 \<le> r \<and> r \<le> int sz \<and> r \<le> 133 \<and> 0 \<in> set (q_name q'))"
proof -
  from label_loop_safe [of 0 sz data "q_name q" 0 0] assms obtain r name' where
    r: "label_loop data 0 sz 0 0 (q_name q) = Some (r, name')" "length name' = 128"
      "case r of Bad e \<Rightarrow> e = - 1 \<or> e = - 2 | Good ptr' sz' len' \<Rightarrow> 0 < ptr' \<and> ptr' + sz' = sz \<and> len' < 128 \<and> ptr' \<le> len' + 2"
    by (auto cong: label_end.case_cong)
  show ?thesis
  proof (cases r)
    case (Bad e)
    then show ?thesis using r by (auto simp: parse_next_query_def)
  next
    case (Good ptr sz' len)
    then show ?thesis using r assms
      by (auto simp: parse_next_query_def wr_at_def rd_at_def)
  qed
qed

text \<open>A well-formed question: labels, the empty label, type and class.\<close>

definition label_bytes :: "bytes \<Rightarrow> bytes" where
  "label_bytes l = of_nat (length l) # l"

fun dotted :: "bytes list \<Rightarrow> bytes" where
  "dotted [] = []"
| "dotted [l] = l"
| "dotted (l # ls) = l @ [46] @ dotted ls"

fun dotted_tail :: "nat \<Rightarrow> bytes list \<Rightarrow> bytes" where
  "dotted_tail k [] = []"
| "dotted_tail k (l # ls) = (if k > 0 then [46] else []) @ l @ dotted_tail (k + 1) ls"

lemma dotted_tail_0: "dotted_tail 0 ls = dotted ls"
proof -
  have t: "dotted_tail (Suc k) xs = (if xs = [] then [] else [46] @ dotted xs)" for k xs
    by (induction xs arbitrary: k rule: dotted.induct) auto
  show ?thesis
  proof (cases ls)
    case (Cons l ls')
    then show ?thesis using t [of 0 ls'] by (cases ls') simp_all
  qed simp
qed

lemma label_loop_exact:
  assumes "\<forall>l \<in> set ls. 0 < length l \<and> length l < 256" "ptr + sz = length data" "length name = 128"
    and "len + length (dotted_tail k ls) < 128" "drop ptr data = concat (map label_bytes ls) @ 0 # post" "ptr \<le> length data"
  shows "label_loop data ptr sz len k name =
     Some (Good (ptr + length (concat (map label_bytes ls)) + 1) (length post) (len + length (dotted_tail k ls)),
           take len name @ dotted_tail k ls @ drop (len + length (dotted_tail k ls)) name)"
  using assms
proof (induction ls arbitrary: ptr sz len k name)
  case Nil
  have n0: "data ! ptr = 0" by (rule nth_via_drop) (use Nil.prems(5) in simp)
  have "length (drop ptr data) = length post + 1" using Nil.prems(5) by simp
  with n0 have d: "ptr < length data" "data ! ptr = 0" "length data = ptr + 1 + length post" by auto
  then show ?case using Nil.prems by (subst label_loop.simps) (simp add: byte_at_def Let_def)
next
  case (Cons l ls)
  let ?r = "concat (map label_bytes ls) @ 0 # post"
  have dr: "drop ptr data = of_nat (length l) # l @ ?r" using Cons.prems(5) by (simp add: label_bytes_def [of l])
  then have lt: "ptr < length data" using drop_eq_Nil [of ptr data] by force
  then have b: "data ! ptr = of_nat (length l)" "drop (ptr + 1) data = l @ ?r"
    using dr by (metis hd_drop_conv_nth list.sel(1), metis add.commute drop_drop drop0 drop_Suc_Cons One_nat_def)
  have ll: "unat (of_nat (length l) :: u8) = length l" "0 < length l" using Cons.prems(1) by (simp_all add: unat8_of_nat)
  have len: "length data = ptr + 1 + length l + length ?r" using arg_cong [OF b(2), of length] lt by simp
  define len1 where "len1 = (if k > 0 then len + 1 else len)"
  define n1 where "n1 = (if k > 0 then take len name @ [46] @ drop (len + 1) name else name)"
  have le: "len1 + length l + length (dotted_tail (k + 1) ls) < 128" using Cons.prems(4) by (simp add: len1_def split: if_splits)
  have n1: "(if k > 0 then wr_at name len [46] else Some name) = Some n1" "length n1 = 128"
    using Cons.prems(3,4) by (auto simp: wr_at_def n1_def)
  let ?n2 = "take len1 n1 @ l @ drop (len1 + length l) n1"
  have st: "label_loop data ptr sz len k name = label_loop data (ptr + 1 + length l) (sz - 1 - length l) (len1 + length l) (k + 1) ?n2"
    using Cons.prems(2,4) lt b ll n1 le len
    by (subst label_loop.simps)
      (simp add: byte_at_def Let_def len1_def [symmetric] DNS_MAX_HOST_NAME_LEN_def rd_at_def wr_at_def)
  have "label_loop data (ptr + 1 + length l) (sz - 1 - length l) (len1 + length l) (k + 1) ?n2 =
     Some (Good (ptr + 1 + length l + length (concat (map label_bytes ls)) + 1) (length post)
            (len1 + length l + length (dotted_tail (k + 1) ls)),
           take (len1 + length l) ?n2 @ dotted_tail (k + 1) ls @ drop (len1 + length l + length (dotted_tail (k + 1) ls)) ?n2)"
  proof (rule Cons.IH)
    show "drop (ptr + 1 + length l) data = ?r" using b(2) by (metis append_eq_conv_conj drop_drop add.commute)
  qed (use Cons.prems len n1 le in auto)
  moreover have "take (len1 + length l) ?n2 @ dotted_tail (k + 1) ls @ drop (len1 + length l + length (dotted_tail (k + 1) ls)) ?n2
     = take len name @ dotted_tail k (l # ls) @ drop (len + length (dotted_tail k (l # ls))) name"
    using n1 le Cons.prems(3) by (auto simp: n1_def len1_def min_def ac_simps)
  moreover have "len1 + length l + length (dotted_tail (k + 1) ls) = len + length (dotted_tail k (l # ls))"
    by (simp add: len1_def)
  moreover have "ptr + 1 + length l + length (concat (map label_bytes ls)) + 1
      = ptr + length (concat (map label_bytes (l # ls))) + 1" by (simp add: label_bytes_def [of l])
  ultimately show ?case unfolding st by (simp only:)
qed

lemma parse_next_query_exact:
  assumes "\<forall>l \<in> set ls. 0 < length l \<and> length l < 256" "length (q_name q) = 128" "length (dotted ls) < 128"
    and "data = concat (map label_bytes ls) @ [0] @ le16 t @ le16 c @ post"
  shows "parse_next_query data (length data) q = Some (int (length data - length post),
     \<lparr>q_name = dotted ls @ [0] @ drop (length (dotted ls) + 1) (q_name q), q_type = t, q_Class = c\<rparr>)"
proof -
  have "label_loop data 0 (length data) 0 0 (q_name q) =
     Some (Good (0 + length (concat (map label_bytes ls)) + 1) (length (le16 t @ le16 c @ post)) (0 + length (dotted_tail 0 ls)),
           take 0 (q_name q) @ dotted_tail 0 ls @ drop (0 + length (dotted_tail 0 ls)) (q_name q))"
    by (rule label_loop_exact) (use assms in \<open>simp_all add: dotted_tail_0\<close>)
  then show ?thesis using assms(2,3)
    by (simp add: parse_next_query_def dotted_tail_0 wr_at_def rd_at_def assms(4))
qed

section \<open>The handler\<close>

text \<open>The question found in a query, and the answer sent for it.\<close>

definition is_query :: "bytes \<Rightarrow> bool" where
  "is_query d \<longleftrightarrow> 12 < length d \<and> d ! 2 AND 0x80 = 0 \<and> htons (of_le16 (take 2 (drop 4 d))) = 1"

definition reply_to :: "bytes \<Rightarrow> nat \<Rightarrow> u32 \<Rightarrow> bytes" where
  "reply_to d len host = take 2 d @ [d ! 2 OR 0x80] @ take 3 (drop 3 d) @ le16 (htons 1) @ take (len - 8) (drop 8 d) @ dns_answer host"

lemma dns_answer_length [simp]: "length (dns_answer host) = 16"
  by (simp add: dns_answer_def)

text \<open>\<open>replied\<close>: one packet to the asker left, the buffers are as before.\<close>

definition replied :: "nat \<Rightarrow> u32 \<Rightarrow> u16 \<Rightarrow> bytes \<Rightarrow> net \<Rightarrow> net \<Rightarrow> bool" where
  "replied u dst port d n n' \<longleftrightarrow> (\<exists>m c ub netif. n' = n\<lparr>pbufs := m, ip_id := ip_id n + 1,
       events := events n @ [ip_event netif (sent_bytes ub netif (ip_id n) dst port c d) dst]\<rparr>
     \<and> can_send n u ub netif dst
     \<and> heap m = heap (pbufs n) \<and> pool m = pool (pbufs n) \<and> (\<forall>a. length (blk m a) = length (blk (pbufs n) a))
     \<and> checksum_ok (nif_ip netif) dst (udp_header (local_port ub) port (of_nat (length d) + 8) c @ d))"

lemma dns_reply_spec:
  assumes "pool_ok slots (pbufs n)" "pool (pbufs n) = q # qs" "can_send n u ub netif addr"
    and "exclusive (pbufs n) p as" "heap (pbufs n) p = Some b" "d = buf_data (pbufs n) p"
    and "12 < len" "len \<le> length d" "len + 16 \<le> 1460"
  shows "\<exists>n1 n'. with_pbufs (pbuf_alloc PBUF_TRANSPORT (of_nat (len + 16)) PBUF_POOL) n = Some (Some q, n1)
     \<and> dns_reply u p len host addr port q n1 = Some n' \<and> replied u addr port (reply_to d len host) n n'"
proof -
  have un: "unat (of_nat (len + 16) :: u16) = len + 16" using assms(9) by (intro unat16_of_nat) simp
  then have le: "unat (of_nat (len + 16) :: u16) \<le> 1460" using assms(9) by simp
  from pbuf_alloc_single [OF assms(1,2) le] obtain b1 m1 where
    m1: "pbuf_alloc PBUF_TRANSPORT (of_nat (len + 16)) PBUF_POOL (pbufs n) = Some (Some q, m1)"
      "heap m1 = (heap (pbufs n))(q \<mapsto> b1)" "blk m1 = blk (pbufs n)" "pool m1 = qs" "p_payload b1 = 56"
      "p_len b1 = of_nat (len + 16)" "p_type b1 = PBUF_POOL" "owned m1 q [q]"
      "length (chain_data m1 [q]) = len + 16" unfolding un by blast
  have hq: "heap (pbufs n) q = None" using assms(1,2) by (simp add: pool_ok_def)
  then have pq: "p \<noteq> q" using assms(5) by auto
  have h1: "heap m1 q = Some b1" "heap m1 p = Some b" using pq assms(5) by (simp_all add: m1(2))
  have ib: "in_block (pbufs n) p b" using assms(4,5) by (auto simp: exclusive_def)
  then have ib1: "in_block m1 p b" by (simp add: in_block_def m1(3))
  have bd1: "buf_data m1 p = d" using assms(5,6) h1(2) by (simp add: buf_data_def m1(3))
  have ld: "length d = unat (p_len b)" using buf_data_length [OF assms(5) ib] assms(6) by simp
  have r0: "payload_read p 0 len m1 = Some (take len d)"
    using payload_read_in_block [OF h1(2) ib1, of 0 len] assms(8) ld bd1 by simp
  have ul: "unat (p_len b1) = len + 16" using m1(6) un by simp
  define X where "X = drop len (chain_data m1 [q])"
  have lX: "length X = 16" using m1(9) by (simp add: X_def)
  have ex: "\<exists>m'. payload_write q 0 (take len d) m1 = Some m' \<and> hd_edit m1 m' q \<and> owned m' q [q] \<and> heap m' = heap m1
     \<and> chain_data m' [q] = take len d @ X"
    by (rule pick_write [OF m1(8) h1(1) _ refl]) (use assms(8) ul in \<open>simp_all add: X_def\<close>)
  then obtain m2 where m2: "payload_write q 0 (take len d) m1 = Some m2" "hd_edit m1 m2 q" "owned m2 q [q]" "heap m2 = heap m1"
    "chain_data m2 [q] = take len d @ X" by blast
  note h2 = h1(1) [folded m2(4)]
  have ib2: "in_block m2 q b1" using m2(3) h2 by (simp add: owned_def exclusive_def)
  have "buf_data m2 q = take len d @ X" using m2(5) by simp
  then have r2: "payload_read q 2 1 m2 = Some [d ! 2]"
    using payload_read_in_block [OF h2 ib2, of 2 1] ul assms(7,8) by (simp add: take_Suc_conv_app_nth hd_drop_conv_nth take_Suc)
  have ex: "\<exists>m'. payload_write q 2 [d ! 2 OR 0x80] m2 = Some m' \<and> hd_edit m2 m' q \<and> owned m' q [q] \<and> heap m' = heap m2
     \<and> chain_data m' [q] = take 2 d @ [d ! 2 OR 0x80] @ take (len - 3) (drop 3 d) @ X"
    by (rule pick_write [OF m2(3) h2 _ m2(5)]) (use assms(7,8) ul in \<open>simp_all add: drop_take min_def\<close>)
  then obtain m3 where m3: "payload_write q 2 [d ! 2 OR 0x80] m2 = Some m3" "hd_edit m2 m3 q" "owned m3 q [q]" "heap m3 = heap m2"
    "chain_data m3 [q] = take 2 d @ [d ! 2 OR 0x80] @ take (len - 3) (drop 3 d) @ X" by blast
  note h3 = h2 [folded m3(4)]
  have ex: "\<exists>m'. payload_write q 6 (le16 (htons 1)) m3 = Some m' \<and> hd_edit m3 m' q \<and> owned m' q [q] \<and> heap m' = heap m3
     \<and> chain_data m' [q] = take 2 d @ [d ! 2 OR 0x80] @ take 3 (drop 3 d) @ le16 (htons 1) @ take (len - 8) (drop 8 d) @ X"
  proof (rule pick_write [OF m3(3) h3 _ m3(5)])
    have "3 \<le> len - 3" using assms(7) by simp
    then show "take 2 d @ [d ! 2 OR 0x80] @ take 3 (drop 3 d) @ le16 (htons 1) @ take (len - 8) (drop 8 d) @ X
        = take 6 (take 2 d @ [d ! 2 OR 0x80] @ take (len - 3) (drop 3 d) @ X) @ le16 (htons 1)
          @ drop (6 + length (le16 (htons 1))) (take 2 d @ [d ! 2 OR 0x80] @ take (len - 3) (drop 3 d) @ X)"
      using assms(7,8) by (simp add: drop_take min_def)
  qed (use assms(7) ul in simp)
  then obtain m4 where m4: "payload_write q 6 (le16 (htons 1)) m3 = Some m4" "hd_edit m3 m4 q" "owned m4 q [q]" "heap m4 = heap m3"
    "chain_data m4 [q] = take 2 d @ [d ! 2 OR 0x80] @ take 3 (drop 3 d) @ le16 (htons 1) @ take (len - 8) (drop 8 d) @ X" by blast
  note h4 = h3 [folded m4(4)]
  have ex: "\<exists>m'. payload_write q len (dns_answer host) m4 = Some m' \<and> hd_edit m4 m' q \<and> owned m' q [q] \<and> heap m' = heap m4
     \<and> chain_data m' [q] = reply_to d len host"
  proof (rule pick_write [OF m4(3) h4 _ m4(5)])
    define P where "P = take 2 d @ [d ! 2 OR 0x80] @ take 3 (drop 3 d) @ le16 (htons 1) @ take (len - 8) (drop 8 d)"
    have "length P = len" using assms(7,8) by (simp add: P_def)
    then have "P @ dns_answer host = take len (P @ X) @ dns_answer host @ drop (len + length (dns_answer host)) (P @ X)"
      using lX by simp
    then show "reply_to d len host = take len (take 2 d @ [d ! 2 OR 0x80] @ take 3 (drop 3 d) @ le16 (htons 1)
          @ take (len - 8) (drop 8 d) @ X) @ dns_answer host @ drop (len + length (dns_answer host))
          (take 2 d @ [d ! 2 OR 0x80] @ take 3 (drop 3 d) @ le16 (htons 1) @ take (len - 8) (drop 8 d) @ X)"
      by (simp only: P_def reply_to_def append_assoc)
  qed (use ul in simp)
  then obtain m5 where m5: "payload_write q len (dns_answer host) m4 = Some m5" "hd_edit m4 m5 q" "owned m5 q [q]" "heap m5 = heap m4"
    "chain_data m5 [q] = reply_to d len host" by blast
  note h5 = h4 [folded m5(4)]
  have ed: "hd_edit m1 m5 q" using m2(2) m3(2) m4(2) m5(2) hd_edit_trans by blast
  let ?n5 = "n\<lparr>pbufs := m5\<rparr>" and ?d = "reply_to d len host"
  have cs: "can_send ?n5 u ub netif addr" using assms(3) by (simp add: can_send_def ip_route_def cong: option.case_cong)
  have lr: "length ?d \<le> 1460" using assms(7-9) by (simp add: reply_to_def)
  have "\<exists>m c. let e = ip_event netif (sent_bytes ub netif (ip_id ?n5) addr port c ?d) addr in
     (do { (err, s) \<leftarrow> udp_sendto u q addr port ?n5; map_option snd (with_pbufs (pbuf_free (Some q)) s) })
       = Some (?n5\<lparr>pbufs := m, ip_id := ip_id ?n5 + 1, events := events ?n5 @ [e]\<rparr>)
     \<and> heap m = (heap (pbufs ?n5))(q := None) \<and> pool m = q # pool (pbufs ?n5)
     \<and> (\<forall>a. length (blk m a) = length (blk (pbufs ?n5) a)) \<and> (\<forall>a. a \<noteq> q \<longrightarrow> blk m a = blk (pbufs ?n5) a)
     \<and> checksum_ok (nif_ip netif) addr (udp_header (local_port ub) port (of_nat (length ?d) + 8) c @ ?d)"
    by (rule send_and_free [OF _ _ m1(7,5) _ lr cs]) (use m5 h5 in simp_all)
  then obtain m c where m: "(do { (err, s) \<leftarrow> udp_sendto u q addr port ?n5; map_option snd (with_pbufs (pbuf_free (Some q)) s) })
       = Some (n\<lparr>pbufs := m, ip_id := ip_id n + 1, events := events n @
           [ip_event netif (sent_bytes ub netif (ip_id n) addr port c ?d) addr]\<rparr>)"
     "heap m = (heap m5)(q := None)" "pool m = q # pool m5" "\<forall>a. length (blk m a) = length (blk m5 a)"
     "checksum_ok (nif_ip netif) addr (udp_header (local_port ub) port (of_nat (length ?d) + 8) c @ ?d)"
    by (auto simp: Let_def)
  have hm: "heap m = heap (pbufs n)" using m(2) m2(4) m3(4) m4(4) m5(4) m1(2) hq by (simp add: fun_eq_iff)
  have pm: "pool m = pool (pbufs n)" using m(3) ed m1(4) assms(2) by (simp add: hd_edit_def)
  have lm: "\<forall>a. length (blk m a) = length (blk (pbufs n) a)" using m(4) hd_edit_fields(4) [OF ed] m1(3) by simp
  let ?n' = "n\<lparr>pbufs := m, ip_id := ip_id n + 1, events := events n @ [ip_event netif (sent_bytes ub netif (ip_id n) addr port c ?d) addr]\<rparr>"
  have "dns_reply u p len host addr port q (n\<lparr>pbufs := m1\<rparr>) = Some ?n'"
    using m(1) r0 m2(1) r2 m3(1) m4(1) m5(1) by (simp add: dns_reply_def do_pbufs_def)
  moreover have "replied u addr port ?d n ?n'"
    unfolding replied_def using hm pm lm m(5) assms(3)
    by (intro exI [of _ m] exI [of _ c] exI [of _ ub] exI [of _ netif]) simp
  ultimately show ?thesis using m1(1) by (simp add: with_pbufs_def)
qed

lemma replied_bufs:
  assumes "replied u dst port d n n'"
  shows "heap (pbufs n') = heap (pbufs n)" "pool (pbufs n') = pool (pbufs n)"
    "\<forall>a. length (blk (pbufs n') a) = length (blk (pbufs n) a)" "net_frame n n'"
  using assms by (auto simp: replied_def net_frame_def)

text \<open>The asked name and the length of the question, when the query is one the server parses.\<close>

definition question :: "bytes \<Rightarrow> dns_query \<Rightarrow> (nat \<times> bytes) option" where
  "question d q = (case parse_next_query (drop 12 d) (length d - 12) q of
       Some (r, q') \<Rightarrow> if r < 0 then None else Some (nat r + 12, the (c_string (q_name q')))
     | None \<Rightarrow> None)"

lemma dns_free_spec:
  assumes "pool_ok slots (pbufs n)" "exclusive (pbufs n) p as" "length as \<le> chain_fuel"
  shows "\<exists>m. dns_free p s n = Some (s, n\<lparr>pbufs := m\<rparr>) \<and> pool_ok slots m
     \<and> heap m = (\<lambda>x. if x \<in> set as then None else heap (pbufs n) x)"
proof -
  from pbuf_free_exclusive [OF assms(2,3)] obtain k m where
    m: "pbuf_free (Some p) (pbufs n) = Some (k, m)" "heap m = (\<lambda>x. if x \<in> set as then None else heap (pbufs n) x)" by blast
  then show ?thesis using pool_ok_free [OF assms m(1)]
    by (intro exI [of _ m]) (simp add: dns_free_def with_pbufs_def)
qed

lemma dns_recv_spec:
  assumes "pool_ok slots (pbufs n)" "exclusive (pbufs n) p as" "length as \<le> chain_fuel" "can_send n u ub netif addr"
    and "length (q_name (query s)) = 128" "query_proc s = Some qp" "d = buf_data (pbufs n) p"
  shows "\<exists>s' n' n1. dns_udp_recv_proc u p addr port s n = Some (s', n') \<and> pool_ok slots (pbufs n')
     \<and> heap (pbufs n') = (\<lambda>x. if x \<in> set as then None else heap (pbufs n) x)
     \<and> length (q_name (query s')) = 128 \<and> query_proc s' = Some qp \<and> net_frame n n' \<and> events n' = events n1
     \<and> (case (if is_query d then question d (query s) else None) of
          None \<Rightarrow> events n1 = events n
        | Some (len, name) \<Rightarrow> (case qp name of
            None \<Rightarrow> events n1 = events n
          | Some host \<Rightarrow> if pool (pbufs n) = [] then events n1 = events n
                          else replied u addr port (reply_to d len host) n n1))"
proof -
  from assms(2) obtain b where b: "heap (pbufs n) p = Some b" "in_block (pbufs n) p b"
    by (auto simp: exclusive_def)
  have ld: "length d = unat (p_len b)" using buf_data_length [OF b] assms(7) by simp
  have rd: "payload_read p off k (pbufs n) = Some (take k (drop off d))" if "off + k \<le> length d" for off k
    using payload_read_in_block [OF b, of off k] that ld assms(7) by simp
  have quit: "\<exists>n'. dns_free p s1 n1 = Some (s1, n') \<and> pool_ok slots (pbufs n')
     \<and> heap (pbufs n') = (\<lambda>x. if x \<in> set as then None else heap (pbufs n) x) \<and> net_frame n n' \<and> events n' = events n1"
    if "heap (pbufs n1) = heap (pbufs n)" "pool (pbufs n1) = pool (pbufs n)"
      "\<forall>a. length (blk (pbufs n1) a) = length (blk (pbufs n) a)" "net_frame n n1" for s1 n1
  proof -
    from dns_free_spec [OF pool_ok_same [OF assms(1) that(1-3)] _ assms(3), of p s1] exclusive_same [OF that(1,3)] assms(2)
    obtain m where "dns_free p s1 n1 = Some (s1, n1\<lparr>pbufs := m\<rparr>)" "pool_ok slots m"
      "heap m = (\<lambda>x. if x \<in> set as then None else heap (pbufs n1) x)" by blast
    then show ?thesis using that(4) unfolding that(1) by (intro exI [of _ "n1\<lparr>pbufs := m\<rparr>"]) (simp add: net_frame_def)
  qed
  note same = quit [OF refl refl _ net_frame_refl, simplified]
  show ?thesis
  proof (cases "is_query d")
    case False
    then have "dns_udp_recv_proc u p addr port s n = dns_free p s n"
      using b(1) rd [of 0 12] ld
      by (auto simp: dns_udp_recv_proc_def is_query_def sizeof_dns_header_def min_def drop_take)
    with same [of s] False assms(5,6) show ?thesis by auto
  next
    case True
    then have l12: "12 < length d" by (simp add: is_query_def)
    have sz: "length d - 12 \<le> length (drop 12 d)" by simp
    from parse_next_query_safe [OF sz assms(5)] obtain r q' where
      r: "parse_next_query (drop 12 d) (length d - 12) (query s) = Some (r, q')" "length (q_name q') = 128"
        "r = - 1 \<or> r = - 2 \<or> 5 \<le> r \<and> r \<le> int (length d - 12) \<and> r \<le> 133 \<and> 0 \<in> set (q_name q')" by blast
    let ?s1 = "s\<lparr>query := q'\<rparr>"
    have hd: "payload_read p 0 sizeof_dns_header (pbufs n) = Some (take 12 d)"
      "payload_read p sizeof_dns_header (unat (p_len b) - sizeof_dns_header) (pbufs n) = Some (drop 12 d)"
      using rd [of 0 12] rd [of 12 "length d - 12"] l12 ld by (simp_all add: sizeof_dns_header_def)
    have fl: "take 12 d ! 2 AND 0x80 = 0" "htons (of_le16 (take 2 (drop 4 (take 12 d)))) = 1"
      using True by (simp_all add: is_query_def drop_take min_def)
    note run = dns_udp_recv_proc_def b(1) hd fl r(1) [unfolded ld [symmetric]]
    have big: "\<not> unat (p_len b) \<le> sizeof_dns_header" "unat (p_len b) - sizeof_dns_header = length d - 12"
      using l12 ld by (simp_all add: sizeof_dns_header_def)
    show ?thesis
    proof (cases "r < 0")
      case neg: True
      have "dns_udp_recv_proc u p addr port s n = dns_free p ?s1 n"
        using run neg big by simp
      moreover have "question d (query s) = None" using r(1) neg by (simp add: question_def)
      ultimately show ?thesis using same [of ?s1] True r(2) assms(6) by auto
    next
      case nn: False
      then have rr: "5 \<le> r" "r \<le> int (length d - 12)" "r \<le> 133" "0 \<in> set (q_name q')" using r(3) by auto
      define name where "name = takeWhile (\<lambda>x. x \<noteq> 0) (q_name q')"
      have cs: "c_string (q_name q') = Some name" using rr(4) by (simp add: c_string_def name_def)
      define len where "len = nat r + 12"
      have lb: "12 < len" "len \<le> length d" "len + 16 \<le> 1460" using rr l12 by (simp_all add: len_def)
      have qn: "question d (query s) = Some (len, name)" using r(1) nn cs by (simp add: question_def len_def)
      show ?thesis
      proof (cases "qp name")
        case None
        have "dns_udp_recv_proc u p addr port s n = dns_free p ?s1 n"
          using run nn big cs assms(6) None by simp
        then show ?thesis using same [of ?s1] True r(2) assms(6) None qn by auto
      next
        case (Some host)
        show ?thesis
        proof (cases "pool (pbufs n)")
          case Nil
          let ?n1 = "n\<lparr>pbufs := (pbufs n)\<lparr>pbuf_free_ooseq_pending := True\<rparr>\<rparr>"
          have "dns_udp_recv_proc u p addr port s n = dns_free p ?s1 ?n1"
            using run nn big cs assms(6) Some by (simp add: with_pbufs_def pbuf_alloc_empty [OF Nil])
          moreover have "\<exists>n'. dns_free p ?s1 ?n1 = Some (?s1, n') \<and> pool_ok slots (pbufs n')
             \<and> heap (pbufs n') = (\<lambda>x. if x \<in> set as then None else heap (pbufs n) x) \<and> net_frame n n' \<and> events n' = events ?n1"
            by (rule quit) (simp_all add: net_frame_def)
          ultimately show ?thesis using True r(2) assms(6) Some qn Nil by auto
        next
          case (Cons q qs)
          from dns_reply_spec [OF assms(1) Cons assms(4,2) b(1) assms(7) lb] obtain n1 n2 where
            n2: "with_pbufs (pbuf_alloc PBUF_TRANSPORT (of_nat (len + 16)) PBUF_POOL) n = Some (Some q, n1)"
              "dns_reply u p len host addr port q n1 = Some n2" "replied u addr port (reply_to d len host) n n2" by blast
          have "dns_udp_recv_proc u p addr port s n = dns_free p ?s1 n2"
            using run nn big cs assms(6) Some n2(1,2) by (simp add: len_def sizeof_dns_header_def)
          moreover from quit [OF replied_bufs [OF n2(3)], of ?s1] obtain n' where
             "dns_free p ?s1 n2 = Some (?s1, n')" "pool_ok slots (pbufs n')"
             "heap (pbufs n') = (\<lambda>x. if x \<in> set as then None else heap (pbufs n) x)" "net_frame n n'" "events n' = events n2"
            by blast
          ultimately show ?thesis using True r(2) assms(6) Some qn Cons n2(3)
            by (intro exI [of _ ?s1] exI [of _ n'] exI [of _ n2]) simp
        qed
      qed
    qed
  qed
qed

text \<open>The handler as the delivery of datagrams sees it.\<close>

definition dns_inv :: "dnserver \<Rightarrow> bool" where
  "dns_inv s \<longleftrightarrow> length (q_name (query s)) = 128 \<and> query_proc s \<noteq> None"

interpretation dns: udp_handler dns_udp_recv_proc dns_inv "\<lambda>addr. addr"
proof
  fix slots n p as u addr s port
  assume a: "pool_ok slots (pbufs n)" "exclusive (pbufs n) p as" "length as \<le> chain_fuel"
    "sendable u addr n" "dns_inv s"
  then obtain qp ub netif where c: "length (q_name (query s)) = 128" "query_proc s = Some qp"
    "can_send n u ub netif addr" by (auto simp: dns_inv_def sendable_def)
  from dns_recv_spec [OF a(1-3) c(3,1,2) refl, of port]
  show "\<exists>s' n'. dns_udp_recv_proc u p addr port s n = Some (s', n') \<and> dns_inv s' \<and> pool_ok slots (pbufs n')
    \<and> net_frame n n' \<and> heap (pbufs n') = (\<lambda>x. if x \<in> set as then None else heap (pbufs n) x)"
    unfolding dns_inv_def by blast
qed

section \<open>The application's names\<close>

text \<open>\<open>dns_query_proc\<close> of \<open>src/project/app.c\<close>: the two names of the device itself.\<close>

definition run_stm :: bytes where "run_stm = [114, 117, 110, 46, 115, 116, 109]"
definition www_run_stm :: bytes where "www_run_stm = [119, 119, 119, 46] @ run_stm"

definition dns_query_proc :: "bytes \<Rightarrow> u32 option" where
  "dns_query_proc name = (if name = run_stm \<or> name = www_run_stm then Some (of_le32 [192, 168, 7, 1]) else None)"

text \<open>A query: identifier, flags, the four counts, then the question and what follows it.\<close>

definition query_msg :: "u16 \<Rightarrow> u8 \<Rightarrow> u8 \<Rightarrow> bytes \<Rightarrow> bytes list \<Rightarrow> u16 \<Rightarrow> u16 \<Rightarrow> bytes \<Rightarrow> bytes" where
  "query_msg ident f1 f2 counts ls t c post =
     le16 ident @ [f1, f2] @ le16 (htons 1) @ counts @ concat (map label_bytes ls) @ [0] @ le16 t @ le16 c @ post"

definition reply_msg :: "u16 \<Rightarrow> u8 \<Rightarrow> u8 \<Rightarrow> bytes \<Rightarrow> bytes list \<Rightarrow> u16 \<Rightarrow> u16 \<Rightarrow> u32 \<Rightarrow> bytes" where
  "reply_msg ident f1 f2 counts ls t c host =
     le16 ident @ [f1 OR 0x80, f2] @ le16 (htons 1) @ le16 (htons 1) @ drop 2 counts
     @ concat (map label_bytes ls) @ [0] @ le16 t @ le16 c @ dns_answer host"

definition good_labels :: "bytes list \<Rightarrow> bool" where
  "good_labels ls \<longleftrightarrow> (\<forall>l \<in> set ls. 0 < length l \<and> length l < 256 \<and> 0 \<notin> set l) \<and> length (dotted ls) < 128"

lemma dotted_no_zero: "\<forall>l \<in> set ls. 0 \<notin> set l \<Longrightarrow> 0 \<notin> set (dotted ls)"
  by (induction ls rule: dotted.induct) auto

lemma c_string_prefix: "0 \<notin> set s \<Longrightarrow> c_string (s @ 0 # r) = Some s"
  by (induction s) (auto simp: c_string_def split: if_splits)

lemma query_msg_question:
  assumes "good_labels ls" "length counts = 6" "length (q_name q) = 128" "d = query_msg ident f1 f2 counts ls t c post"
  shows "question d q = Some (length d - length post, dotted ls)"
    and "f1 AND 0x80 = 0 \<Longrightarrow> is_query d"
    and "reply_to d (length d - length post) host = reply_msg ident f1 f2 counts ls t c host"
proof -
  let ?x = "concat (map label_bytes ls) @ [0] @ le16 t @ le16 c"
  have d: "d = le16 ident @ [f1, f2] @ le16 (htons 1) @ counts @ ?x @ post" by (simp add: assms(4) query_msg_def)
  have dr: "drop 12 d = ?x @ post" using assms(2) by (simp add: d)
  have l: "length d - 12 = length (drop 12 d)" by simp
  have g: "\<forall>l \<in> set ls. 0 < length l \<and> length l < 256" "length (dotted ls) < 128" "0 \<notin> set (dotted ls)"
    using assms(1) dotted_no_zero [of ls] unfolding good_labels_def by blast+
  have "parse_next_query (drop 12 d) (length d - 12) q = Some (int (length (drop 12 d) - length post),
     \<lparr>q_name = dotted ls @ [0] @ drop (length (dotted ls) + 1) (q_name q), q_type = t, q_Class = c\<rparr>)"
    unfolding l by (rule parse_next_query_exact [OF g(1) assms(3) g(2)]) (use dr in simp)
  moreover have "length d = 12 + length ?x + length post" using assms(2) by (simp add: d)
  ultimately show "question d q = Some (length d - length post, dotted ls)"
    using g(3) by (simp add: question_def c_string_prefix)
  have n2: "d ! 2 = f1" "take 2 (drop 4 d) = le16 (htons 1)" "12 < length d"
    using assms(2) by (simp_all add: d nth_append)
  then show "f1 AND 0x80 = 0 \<Longrightarrow> is_query d" by (simp add: is_query_def htons_htons)
  have "length d - length post = 12 + length ?x" using assms(2) by (simp add: d)
  then show "reply_to d (length d - length post) host = reply_msg ident f1 f2 counts ls t c host"
    using assms(2) n2(1) by (simp add: reply_to_def reply_msg_def) (simp add: d)
qed

section \<open>Properties\<close>

text \<open>
  The parser is exact on well-formed questions: labels of total dotted length under 128
  give the dotted name, zero-terminated in the buffer, the type and class of the question, and
  the number of bytes consumed.
\<close>

theorem dns_question_parsed:
  assumes "\<forall>l \<in> set ls. 0 < length l \<and> length l < 256" "length (q_name q) = 128" "length (dotted ls) < 128"
  shows "let data = concat (map label_bytes ls) @ [0] @ le16 t @ le16 c @ post in
     parse_next_query data (length data) q = Some (int (length data - length post),
       \<lparr>q_name = dotted ls @ [0] @ drop (length (dotted ls) + 1) (q_name q), q_type = t, q_Class = c\<rparr>)"
  using parse_next_query_exact [OF assms refl] by (simp add: Let_def)

theorem dns_question_parsed_witness:
  "\<exists>q. parse_next_query ([3, 114, 117, 110, 3, 115, 116, 109, 0] @ le16 256 @ le16 256) 13
       \<lparr>q_name = replicate 128 0, q_type = 0, q_Class = 0\<rparr> = Some (13, q) \<and> take 8 (q_name q) = run_stm @ [0]"
proof -
  have "\<forall>l \<in> set [[114, 117, 110], [115, 116, 109 :: u8]]. 0 < length l \<and> length l < 256"
    "length (q_name \<lparr>q_name = replicate 128 0, q_type = 0, q_Class = 0\<rparr>) = 128" "length (dotted [[114, 117, 110], [115, 116, 109 :: u8]]) < 128"
    by simp_all
  from dns_question_parsed [OF this, of 256 256 "[]"] show ?thesis by (simp add: label_bytes_def run_stm_def Let_def)
qed

text \<open>
  C12: The parser is safe and total: whatever bytes arrive, it stays inside the input and inside
  the 128 bytes of the name, terminates, and answers one of its two error codes or the number of
  bytes of the question, which is positive and not more than the input; then the name is terminated.
\<close>

theorem dns_parse_safe:
  assumes "sz \<le> length data" "length (q_name q) = 128"
  shows "\<exists>r q'. parse_next_query data sz q = Some (r, q') \<and> length (q_name q') = 128
     \<and> (r = - 1 \<or> r = - 2 \<or> 5 \<le> r \<and> r \<le> int sz \<and> r \<le> 133 \<and> 0 \<in> set (q_name q'))"
  by (rule parse_next_query_safe [OF assms])

theorem dns_parse_safe_witness:
  "\<exists>r q'. parse_next_query [200, 1, 2] 3 \<lparr>q_name = replicate 128 0, q_type = 0, q_Class = 0\<rparr> = Some (r, q')
     \<and> length (q_name q') = 128"
  using dns_parse_safe [of 3 "[200, 1, 2]" "\<lparr>q_name = replicate 128 0, q_type = 0, q_Class = 0\<rparr>"] by auto

text \<open>
  C13: A query for a name the application knows is answered: exactly one datagram goes to the
  asker's address and port, the question repeated with the response flag and one address record
  behind it, under a checksum that verifies; the buffers end as they were, less the query's.
\<close>

theorem dns_query_answered:
  assumes "pool_ok slots (pbufs n)" "exclusive (pbufs n) p as" "length as \<le> chain_fuel" "can_send n u ub netif src"
    and "length (q_name (query s)) = 128" "query_proc s = Some qp" "pool (pbufs n) \<noteq> []"
    and "buf_data (pbufs n) p = query_msg ident f1 f2 counts ls t c post"
    and "f1 AND 0x80 = 0" "length counts = 6" "good_labels ls" "qp (dotted ls) = Some host"
  shows "\<exists>s' n' n1. dns_udp_recv_proc u p src port s n = Some (s', n')
     \<and> heap (pbufs n') = (\<lambda>x. if x \<in> set as then None else heap (pbufs n) x) \<and> events n' = events n1
     \<and> replied u src port (reply_msg ident f1 f2 counts ls t c host) n n1"
proof -
  note q = query_msg_question [OF assms(11,10,5) assms(8)]
  from dns_recv_spec [OF assms(1-6) refl, of port] show ?thesis
    using assms(7,12) q(1) q(2) [OF assms(9)] q(3) [of host] by auto
qed

definition stm_dns :: dnserver where
  "stm_dns = \<lparr>dn_pcb = Some 0, query = \<lparr>q_name = replicate 128 0, q_type = 0, q_Class = 0\<rparr>, query_proc = Some dns_query_proc\<rparr>"

theorem dns_query_answered_witness:
  "\<exists>s' n' n1. dns_udp_recv_proc 0 0 9 1000 stm_dns (rx_net 53 (query_msg 7 1 0 (replicate 6 0) [[114, 117, 110], [115, 116, 109]] 256 256 []))
      = Some (s', n') \<and> events n' = events n1
     \<and> replied 0 9 1000 (reply_msg 7 1 0 (replicate 6 0) [[114, 117, 110], [115, 116, 109]] 256 256 (of_le32 [192, 168, 7, 1]))
         (rx_net 53 (query_msg 7 1 0 (replicate 6 0) [[114, 117, 110], [115, 116, 109]] 256 256 [])) n1"
proof -
  let ?ls = "[[114, 117, 110], [115, 116, 109]] :: bytes list"
  let ?q = "query_msg 7 1 0 (replicate 6 0) ?ls 256 256 []"
  have n: "length ?q \<le> 1474" "(53 :: u16) \<noteq> 0" "length [0 :: nat] \<le> chain_fuel"
    by (simp_all add: query_msg_def label_bytes_def chain_fuel_def)
  have g: "good_labels ?ls" "dns_query_proc (dotted ?ls) = Some (of_le32 [192, 168, 7, 1])"
    by (simp_all add: good_labels_def dns_query_proc_def run_stm_def)
  have s: "length (q_name (query stm_dns)) = 128" "query_proc stm_dns = Some dns_query_proc" "(1 :: u8) AND 0x80 = 0" by (simp_all add: stm_dns_def)
  have p: "pool (pbufs (rx_net 53 ?q)) \<noteq> []" "length (replicate 6 (0 :: u8)) = 6" by (simp_all add: rx_net_def)
  from dns_query_answered [OF rx_net_ok(1,2) [OF n(1,2)] n(3) rx_net_ok(5) [OF n(1,2), of 9] s(1,2) p(1)
      rx_net_ok(4) [OF n(1,2)] s(3) p(2) g, of 1000] show ?thesis by blast
qed

text \<open>
  C14: Any sequence of datagrams is handled without a fault and without a leak, also when the
  pool is empty and no answer can be built.
\<close>

theorem dns_serves_any_queue:
  assumes "pool_ok slots (pbufs n)" "dns_inv s" "\<forall>(p, src, port) \<in> set ds. sendable u src n"
    and "list_all2 (waiting slots n) ds ass" "distinct (concat ass)"
  shows "\<exists>s' n'. serve dns_udp_recv_proc u ds s n = Some (s', n') \<and> dns_inv s' \<and> pool_ok slots (pbufs n')
    \<and> heap (pbufs n') = (\<lambda>x. if x \<in> set (concat ass) then None else heap (pbufs n) x)"
  using dns.serve_queue [OF assms(1,2) _ assms(4,5), of u] assms(3) by auto

theorem dns_serves_any_queue_witness:
  "\<exists>s' n'. serve dns_udp_recv_proc 0 [(0, 9, 1000)] stm_dns (rx_net 53 [1, 2, 3]) = Some (s', n') \<and> heap (pbufs n') 0 = None"
proof -
  have n: "length [1, 2, 3 :: u8] \<le> 1474" "(53 :: u16) \<noteq> 0" by simp_all
  have i: "dns_inv stm_dns" "\<forall>(p, src, port) \<in> set [(0 :: nat, 9, 1000 :: u16)]. sendable 0 src (rx_net 53 [1, 2, 3])"
    using rx_net_ok(6) [OF n, of 9] by (simp_all add: dns_inv_def stm_dns_def)
  have w: "list_all2 (waiting {0..<16} (rx_net 53 [1, 2, 3])) [(0, 9, 1000)] [[0]]" using rx_net_ok(7) [OF n] by simp
  from dns_serves_any_queue [OF rx_net_ok(1) [OF n] i w] show ?thesis by auto
qed

end
