(* ===== verification/Otg_Core.thy ===== *)
theory Otg_Core
  imports Prelude
begin

text \<open>
  The USB controller as the device stack uses it, \<open>src/usb-core/otg-driver/usb_core.c\<close> (device
  part) with the register layouts of \<open>usb_regs.h\<close>.

  Registers. \<open>regs\<close> holds what was last written; \<open>hw k r v\<close> is what the \<open>k\<close>-th read finds in
  register \<open>r\<close> when \<open>v\<close> was last written, so a statement for all \<open>hw\<close> holds for every behaviour
  of the controller; \<open>writes\<close> records all writes in order. Bit fields are pairs of offset and
  width. Register blocks exist for the endpoints below \<open>dev_endpoints\<close> only: the code keeps a
  table of 15 pointers of which \<open>USB_OTG_SelectCore\<close> fills these, the others are NULL.

  Memory. A pointer is an object of the program and an offset, NULL is \<open>None\<close>; \<open>mem\<close> gives the
  bytes of each object. An access outside its object, through NULL, or to an endpoint that does
  not exist is a fault, \<open>None\<close>. Endpoint 0 exists from \<open>USB_OTG_SelectCore\<close> on and is not checked.

  Build. The full-speed core in device mode: \<open>dma_enable\<close>, \<open>low_power\<close> and \<open>Sof_output\<close> stay 0, so
  their branches are left out, as are delays, which have no effect on the state.
\<close>

unbundle bit_operations_syntax

section \<open>State\<close>

datatype reg =
    DIEPCTL nat | DIEPINT nat | DIEPTSIZ nat | DTXFSTS nat
  | DOEPCTL nat | DOEPINT nat | DOEPTSIZ nat | DFIFO nat | DIEPTXF nat
  | DIEPTXF0 | DCFG | DCTL | DSTS | DIEPMSK | DOEPMSK | DAINT | DAINTMSK | DIEPEMPMSK
  | GOTGINT | GAHBCFG | GUSBCFG | GRSTCTL | GINTSTS | GINTMSK | GRXSTSP | GRXFSIZ | GCCFG | PCGCCTL

datatype region =
    R_setup_packet | R_device_config | R_ep_status | R_default_cfg | R_cfg_status | R_StrDesc
  | R_DeviceDesc | R_LangIDDesc | R_CfgDesc | R_encapsulated | R_usb_rx | R_rndis_rx | R_first
  | R_notify | R_pad | R_frame

text \<open>
  The sizes of the objects. The FIFO writer fetches whole words, up to three bytes behind the last
  one it was asked for; these bytes are never sent, and belong here to the objects it reads: the
  descriptors of 18 and 75 bytes, the literal of one byte behind \<open>R_pad\<close> and the literal behind
  \<open>R_notify\<close>. \<open>R_device_config\<close> is no object of its own.
\<close>

definition region_size :: "region \<Rightarrow> nat" where
  "region_size r = (case r of R_setup_packet \<Rightarrow> 24 | R_device_config \<Rightarrow> 0 | R_ep_status \<Rightarrow> 4 | R_default_cfg \<Rightarrow> 4 | R_cfg_status \<Rightarrow> 4
     | R_StrDesc \<Rightarrow> 64 | R_DeviceDesc \<Rightarrow> 20 | R_LangIDDesc \<Rightarrow> 4 | R_CfgDesc \<Rightarrow> 76 | R_encapsulated \<Rightarrow> 120 | R_usb_rx \<Rightarrow> 64
     | R_rndis_rx \<Rightarrow> 1558 | R_first \<Rightarrow> 64 | R_notify \<Rightarrow> 12 | R_pad \<Rightarrow> 4 | R_frame \<Rightarrow> 1518)"

type_synonym ptr = "(region \<times> nat) option"

record ep =
  ep_num :: u8
  is_in :: u8
  is_stall :: u8
  ep_type :: u8
  data_pid_start :: u8
  even_odd_frame :: u8
  tx_fifo_num :: u16
  maxpacket :: u32
  xfer_buff :: ptr
  xfer_len :: u32
  xfer_count :: u32
  rem_data_len :: u32
  total_data_len :: u32
  ctl_data_len :: u32

record 'c usb =
  regs :: "reg \<Rightarrow> u32"
  hw :: "nat \<Rightarrow> reg \<Rightarrow> u32 \<Rightarrow> u32"
  reads :: nat
  writes :: "(reg \<times> u32) list"
  mem :: "region \<Rightarrow> bytes"
  speed :: u8
  mps :: u16
  host_channels :: u8
  dev_endpoints :: u8
  TotalFifoSize :: u16
  phy_itface :: u8
  device_config :: u8
  device_state :: u8
  device_status :: u8
  device_old_status :: u8
  device_address :: u8
  connection_status :: u8
  test_mode :: u8
  DevRemoteWakeup :: u32
  SET_TEST_MODE :: u32
  in_ep :: "ep list"
  out_ep :: "ep list"
  pConfig_descriptor :: ptr
  cls :: 'c

section \<open>Bit fields\<close>

type_synonym field = "nat \<times> nat"

definition get_fld :: "field \<Rightarrow> u32 \<Rightarrow> u32" where
  "get_fld f v = take_bit (snd f) (drop_bit (fst f) v)"

definition set_fld :: "field \<Rightarrow> u32 \<Rightarrow> u32 \<Rightarrow> u32" where
  "set_fld f x v = (v AND NOT (push_bit (fst f) (mask (snd f)))) OR push_bit (fst f) (take_bit (snd f) x)"

lemma get_set_same: "fst f + snd f \<le> 32 \<Longrightarrow> get_fld f (set_fld f x v) = take_bit (snd f) x"
  unfolding get_fld_def set_fld_def by (rule bit_word_eqI) (auto simp: bit_simps)

lemma get_set_other:
  "fst f + snd f \<le> 32 \<Longrightarrow> fst f + snd f \<le> fst g \<or> fst g + snd g \<le> fst f \<Longrightarrow> get_fld f (set_fld g x v) = get_fld f v"
  unfolding get_fld_def set_fld_def by (rule bit_word_eqI) (auto simp: bit_simps)

definition gahbcfg_glblintrmsk :: field where "gahbcfg_glblintrmsk = (0, 1)"
definition gusbcfg_physel :: field where "gusbcfg_physel = (6, 1)"
definition gusbcfg_usbtrdtim :: field where "gusbcfg_usbtrdtim = (10, 4)"
definition gusbcfg_force_host :: field where "gusbcfg_force_host = (29, 1)"
definition gusbcfg_force_dev :: field where "gusbcfg_force_dev = (30, 1)"
definition grstctl_csftrst :: field where "grstctl_csftrst = (0, 1)"
definition grstctl_rxfflsh :: field where "grstctl_rxfflsh = (4, 1)"
definition grstctl_txfflsh :: field where "grstctl_txfflsh = (5, 1)"
definition grstctl_txfnum :: field where "grstctl_txfnum = (6, 5)"
definition grstctl_ahbidle :: field where "grstctl_ahbidle = (31, 1)"
definition gint_modemismatch :: field where "gint_modemismatch = (1, 1)"
definition gint_otgintr :: field where "gint_otgintr = (2, 1)"
definition gint_sofintr :: field where "gint_sofintr = (3, 1)"
definition gint_rxstsqlvl :: field where "gint_rxstsqlvl = (4, 1)"
definition gint_usbsuspend :: field where "gint_usbsuspend = (11, 1)"
definition gint_usbreset :: field where "gint_usbreset = (12, 1)"
definition gint_enumdone :: field where "gint_enumdone = (13, 1)"
definition gint_inepintr :: field where "gint_inepintr = (18, 1)"
definition gint_outepintr :: field where "gint_outepintr = (19, 1)"
definition gint_incomplisoin :: field where "gint_incomplisoin = (20, 1)"
definition gint_incomplisoout :: field where "gint_incomplisoout = (21, 1)"
definition gint_sessreqintr :: field where "gint_sessreqintr = (30, 1)"
definition gint_wkupintr :: field where "gint_wkupintr = (31, 1)"
definition fsiz_startaddr :: field where "fsiz_startaddr = (0, 16)"
definition fsiz_depth :: field where "fsiz_depth = (16, 16)"
definition gccfg_pwdn :: field where "gccfg_pwdn = (16, 1)"
definition gccfg_vbussensingA :: field where "gccfg_vbussensingA = (18, 1)"
definition gccfg_vbussensingB :: field where "gccfg_vbussensingB = (19, 1)"
definition dcfg_devspd :: field where "dcfg_devspd = (0, 2)"
definition dcfg_devaddr :: field where "dcfg_devaddr = (4, 7)"
definition dcfg_perfrint :: field where "dcfg_perfrint = (11, 2)"
definition dctl_rmtwkupsig :: field where "dctl_rmtwkupsig = (0, 1)"
definition dctl_sftdiscon :: field where "dctl_sftdiscon = (1, 1)"
definition dctl_tstctl :: field where "dctl_tstctl = (4, 3)"
definition dctl_cgnpinnak :: field where "dctl_cgnpinnak = (8, 1)"
definition dsts_suspsts :: field where "dsts_suspsts = (0, 1)"
definition dsts_enumspd :: field where "dsts_enumspd = (1, 2)"
definition dsts_soffn :: field where "dsts_soffn = (8, 14)"
definition epint_xfercompl :: field where "epint_xfercompl = (0, 1)"
definition epint_epdisabled :: field where "epint_epdisabled = (1, 1)"
definition epint_timeout :: field where "epint_timeout = (3, 1)"
definition epint_setup :: field where "epint_setup = (3, 1)"
definition epint_intktxfemp :: field where "epint_intktxfemp = (4, 1)"
definition epint_inepnakeff :: field where "epint_inepnakeff = (6, 1)"
definition epint_emptyintr :: field where "epint_emptyintr = (7, 1)"
definition epint_txfifoundrn :: field where "epint_txfifoundrn = (8, 1)"
definition daint_in :: field where "daint_in = (0, 16)"
definition daint_out :: field where "daint_out = (16, 16)"
definition depctl_mps :: field where "depctl_mps = (0, 11)"
definition depctl_usbactep :: field where "depctl_usbactep = (15, 1)"
definition depctl_naksts :: field where "depctl_naksts = (17, 1)"
definition depctl_eptype :: field where "depctl_eptype = (18, 2)"
definition depctl_stall :: field where "depctl_stall = (21, 1)"
definition depctl_txfnum :: field where "depctl_txfnum = (22, 4)"
definition depctl_cnak :: field where "depctl_cnak = (26, 1)"
definition depctl_snak :: field where "depctl_snak = (27, 1)"
definition depctl_setd0pid :: field where "depctl_setd0pid = (28, 1)"
definition depctl_setd1pid :: field where "depctl_setd1pid = (29, 1)"
definition depctl_epdis :: field where "depctl_epdis = (30, 1)"
definition depctl_epena :: field where "depctl_epena = (31, 1)"
definition xfrsiz_xfersize :: field where "xfrsiz_xfersize = (0, 19)"
definition xfrsiz_pktcnt :: field where "xfrsiz_pktcnt = (19, 10)"
definition xfrsiz_mc :: field where "xfrsiz_mc = (29, 2)"
definition xfrsiz0_xfersize :: field where "xfrsiz0_xfersize = (0, 7)"
definition xfrsiz0_pktcnt :: field where "xfrsiz0_pktcnt = (19, 2)"
definition xfrsiz0_supcnt :: field where "xfrsiz0_supcnt = (30, 2)"
definition dtxfsts_txfspcavail :: field where "dtxfsts_txfspcavail = (0, 16)"
definition drxsts_epnum :: field where "drxsts_epnum = (0, 4)"
definition drxsts_bcnt :: field where "drxsts_bcnt = (4, 11)"
definition drxsts_pktsts :: field where "drxsts_pktsts = (17, 4)"
definition gotgint_sesenddet :: field where "gotgint_sesenddet = (2, 1)"

section \<open>Access\<close>

definition rd :: "reg \<Rightarrow> 'c usb \<Rightarrow> u32 \<times> 'c usb" where
  "rd r s = (hw s (reads s) r (regs s r), s\<lparr>reads := reads s + 1\<rparr>)"

definition wr :: "reg \<Rightarrow> u32 \<Rightarrow> 'c usb \<Rightarrow> 'c usb" where
  "wr r v s = s\<lparr>regs := (regs s)(r := v), writes := writes s @ [(r, v)]\<rparr>"

definition modify_reg :: "reg \<Rightarrow> u32 \<Rightarrow> u32 \<Rightarrow> 'c usb \<Rightarrow> 'c usb" where
  "modify_reg r clear_mask set_mask s = (let (v, s) = rd r s in wr r ((v AND NOT clear_mask) OR set_mask) s)"

definition has_ep :: "u8 \<Rightarrow> 'c usb \<Rightarrow> bool" where
  "has_ep n s \<longleftrightarrow> n < dev_endpoints s"

text \<open>The bytes of an object; the address of \<open>device_config\<close> points into the state itself.\<close>

definition load :: "region \<Rightarrow> 'c usb \<Rightarrow> bytes" where
  "load r s = (if r = R_device_config then [device_config s, device_state s, device_status s, device_old_status s]
     else mem s r)"

definition load_at :: "ptr \<Rightarrow> nat \<Rightarrow> 'c usb \<Rightarrow> bytes option" where
  "load_at p n s = (case p of None \<Rightarrow> if n = 0 then Some [] else None | Some (r, off) \<Rightarrow> rd_at (load r s) off n)"

definition store_at :: "ptr \<Rightarrow> bytes \<Rightarrow> 'c usb \<Rightarrow> 'c usb option" where
  "store_at p d s = (case p of None \<Rightarrow> if d = [] then Some s else None
     | Some (r, off) \<Rightarrow> if r = R_device_config then None
         else do { b \<leftarrow> wr_at (mem s r) off d; Some (s\<lparr>mem := (mem s)(r := b)\<rparr>) })"

definition ptr_add :: "ptr \<Rightarrow> nat \<Rightarrow> ptr" where
  "ptr_add p n = map_option (\<lambda>(r, off). (r, off + n)) p"

section \<open>Packets\<close>

fun write_words :: "nat \<Rightarrow> ptr \<Rightarrow> nat \<Rightarrow> 'c usb \<Rightarrow> 'c usb option" where
  "write_words 0 src f s = Some s"
| "write_words (Suc k) src f s = do {
     x \<leftarrow> load_at src 4 s;
     write_words k (ptr_add src 4) f (wr (DFIFO f) (of_le32 x) s) }"

definition USB_OTG_WritePacket :: "ptr \<Rightarrow> u8 \<Rightarrow> u16 \<Rightarrow> 'c usb \<Rightarrow> 'c usb option" where
  "USB_OTG_WritePacket src ch_ep_num len s =
     (if ch_ep_num < host_channels s then write_words ((unat len + 3) div 4) src (unat ch_ep_num) s else None)"

fun read_words :: "nat \<Rightarrow> ptr \<Rightarrow> 'c usb \<Rightarrow> 'c usb option" where
  "read_words 0 dest s = Some s"
| "read_words (Suc k) dest s = do {
     let (v, s) = rd (DFIFO 0) s;
     s \<leftarrow> store_at dest (le32 v) s;
     read_words k (ptr_add dest 4) s }"

definition USB_OTG_ReadPacket :: "ptr \<Rightarrow> u16 \<Rightarrow> 'c usb \<Rightarrow> 'c usb option" where
  "USB_OTG_ReadPacket dest len s = read_words ((unat len + 3) div 4) dest s"

section \<open>The core\<close>

definition DEVICE_MODE :: u8 where "DEVICE_MODE = 0"
definition HOST_MODE :: u8 where "HOST_MODE = 1"
definition USB_OTG_EMBEDDED_PHY :: u8 where "USB_OTG_EMBEDDED_PHY = 2"
definition USB_OTG_SPEED_FULL :: u8 where "USB_OTG_SPEED_FULL = 1"
definition USB_OTG_SPEED_HIGH :: u8 where "USB_OTG_SPEED_HIGH = 0"
definition USB_OTG_MAX_EP0_SIZE :: u32 where "USB_OTG_MAX_EP0_SIZE = 64"
definition USB_OTG_MAX_TX_FIFOS :: nat where "USB_OTG_MAX_TX_FIFOS = 15"
definition EP_TYPE_CTRL :: u8 where "EP_TYPE_CTRL = 0"
definition EP_TYPE_ISOC :: u8 where "EP_TYPE_ISOC = 1"
definition EP_TYPE_BULK :: u8 where "EP_TYPE_BULK = 2"
definition EP_TYPE_INTR :: u8 where "EP_TYPE_INTR = 3"

definition USB_OTG_EnableCommonInt :: "'c usb \<Rightarrow> 'c usb" where
  "USB_OTG_EnableCommonInt s = (let
     s = wr GOTGINT 0xFFFFFFFF s;
     s = wr GINTSTS 0xBFFFFFFF s
     in wr GINTMSK (set_fld gint_usbsuspend 1 (set_fld gint_wkupintr 1 0)) s)"

text \<open>
  A wait loop of the driver: reads until field \<open>f\<close> differs from \<open>v\<close>, or until the counter
  passes 200000. The result says whether it gave up, and the last value.
\<close>

fun poll :: "nat \<Rightarrow> reg \<Rightarrow> field \<Rightarrow> u32 \<Rightarrow> 'c usb \<Rightarrow> bool \<times> u32 \<times> 'c usb" where
  "poll 0 r f v s = (let (x, s) = rd r s in (True, x, s))"
| "poll (Suc k) r f v s = (let (x, s) = rd r s in
     if get_fld f x = v then poll k r f v s else (False, x, s))"

definition poll_limit :: nat where "poll_limit = 200000"

definition USB_OTG_CoreReset :: "'c usb \<Rightarrow> 'c usb" where
  "USB_OTG_CoreReset s = (case poll poll_limit GRSTCTL grstctl_ahbidle 0 s of (timeout, x, s) \<Rightarrow>
     if timeout then s
     else (case poll poll_limit GRSTCTL grstctl_csftrst 1 (wr GRSTCTL (set_fld grstctl_csftrst 1 x) s) of
       (timeout, x, s) \<Rightarrow> s))"

definition USB_OTG_SelectCore :: "'c usb \<Rightarrow> 'c usb" where
  "USB_OTG_SelectCore s = s\<lparr>speed := USB_OTG_SPEED_FULL, mps := 64, host_channels := 8, dev_endpoints := 4,
     TotalFifoSize := 320, phy_itface := USB_OTG_EMBEDDED_PHY\<rparr>"

definition USB_OTG_CoreInit :: "'c usb \<Rightarrow> 'c usb" where
  "USB_OTG_CoreInit s = (let
     (v, s) = rd GUSBCFG s;
     s = wr GUSBCFG (set_fld gusbcfg_physel 1 v) s;
     s = USB_OTG_CoreReset s
     in wr GCCFG (set_fld gccfg_vbussensingB 1 (set_fld gccfg_vbussensingA 1 (set_fld gccfg_pwdn 1 0))) s)"

definition USB_OTG_EnableGlobalInt :: "'c usb \<Rightarrow> 'c usb" where
  "USB_OTG_EnableGlobalInt s = modify_reg GAHBCFG 0 (set_fld gahbcfg_glblintrmsk 1 0) s"

definition USB_OTG_DisableGlobalInt :: "'c usb \<Rightarrow> 'c usb" where
  "USB_OTG_DisableGlobalInt s = modify_reg GAHBCFG (set_fld gahbcfg_glblintrmsk 1 0) 0 s"

definition USB_OTG_FlushTxFifo :: "u32 \<Rightarrow> 'c usb \<Rightarrow> 'c usb" where
  "USB_OTG_FlushTxFifo num s =
     snd (snd (poll poll_limit GRSTCTL grstctl_txfflsh 1
       (wr GRSTCTL (set_fld grstctl_txfnum num (set_fld grstctl_txfflsh 1 0)) s)))"

definition USB_OTG_FlushRxFifo :: "'c usb \<Rightarrow> 'c usb" where
  "USB_OTG_FlushRxFifo s =
     snd (snd (poll poll_limit GRSTCTL grstctl_rxfflsh 1 (wr GRSTCTL (set_fld grstctl_rxfflsh 1 0) s)))"

definition USB_OTG_SetCurrentMode :: "u8 \<Rightarrow> 'c usb \<Rightarrow> 'c usb" where
  "USB_OTG_SetCurrentMode mode s = (let
     (v, s) = rd GUSBCFG s;
     v = set_fld gusbcfg_force_dev 0 (set_fld gusbcfg_force_host 0 v);
     v = (if mode = HOST_MODE then set_fld gusbcfg_force_host 1 v
          else if mode = DEVICE_MODE then set_fld gusbcfg_force_dev 1 v else v)
     in wr GUSBCFG v s)"

definition USB_OTG_GetMode :: "'c usb \<Rightarrow> u32 \<times> 'c usb" where
  "USB_OTG_GetMode s = (let (v, s) = rd GINTSTS s in (v AND 1, s))"

definition USB_OTG_IsDeviceMode :: "'c usb \<Rightarrow> bool \<times> 'c usb" where
  "USB_OTG_IsDeviceMode s = (let (v, s) = USB_OTG_GetMode s in (v \<noteq> ucast HOST_MODE, s))"

definition USB_OTG_IsHostMode :: "'c usb \<Rightarrow> bool \<times> 'c usb" where
  "USB_OTG_IsHostMode s = (let (v, s) = USB_OTG_GetMode s in (v = ucast HOST_MODE, s))"

definition USB_OTG_ReadCoreItr :: "'c usb \<Rightarrow> u32 \<times> 'c usb" where
  "USB_OTG_ReadCoreItr s = (let (a, s) = rd GINTSTS s; (b, s) = rd GINTMSK s in (a AND b, s))"

definition USB_OTG_ReadOtgItr :: "'c usb \<Rightarrow> u32 \<times> 'c usb" where
  "USB_OTG_ReadOtgItr s = rd GOTGINT s"

definition USB_OTG_InitDevSpeed :: "u32 \<Rightarrow> 'c usb \<Rightarrow> 'c usb" where
  "USB_OTG_InitDevSpeed sp s = (let (v, s) = rd DCFG s in wr DCFG (set_fld dcfg_devspd sp v) s)"

definition USB_OTG_EnableDevInt :: "'c usb \<Rightarrow> 'c usb" where
  "USB_OTG_EnableDevInt s = (let
     s = wr GINTMSK 0 s;
     s = wr GINTSTS 0xBFFFFFFF s;
     s = USB_OTG_EnableCommonInt s;
     m = fold (\<lambda>f. set_fld f 1) [gint_rxstsqlvl, gint_usbsuspend, gint_usbreset, gint_enumdone, gint_inepintr,
           gint_outepintr, gint_sofintr, gint_incomplisoin, gint_incomplisoout, gint_sessreqintr, gint_otgintr] 0
     in modify_reg GINTMSK m m s)"

text \<open>The two loops of \<open>USB_OTG_CoreInitDev\<close> over the endpoints.\<close>

definition idle_in_ep :: "nat \<Rightarrow> 'c usb \<Rightarrow> 'c usb" where
  "idle_in_ep i s = (let
     (v, s) = rd (DIEPCTL i) s;
     v = (if get_fld depctl_epena v \<noteq> 0 then set_fld depctl_snak 1 (set_fld depctl_epdis 1 0) else 0)
     in wr (DIEPINT i) 0xFF (wr (DIEPTSIZ i) 0 (wr (DIEPCTL i) v s)))"

definition idle_out_ep :: "nat \<Rightarrow> 'c usb \<Rightarrow> 'c usb" where
  "idle_out_ep i s = (let
     (v, s) = rd (DOEPCTL i) s;
     v = (if get_fld depctl_epena v \<noteq> 0 then set_fld depctl_snak 1 (set_fld depctl_epdis 1 0) else 0)
     in wr (DOEPINT i) 0xFF (wr (DOEPTSIZ i) 0 (wr (DOEPCTL i) v s)))"

definition RX_FIFO_FS_SIZE :: u32 where "RX_FIFO_FS_SIZE = 128"
definition TX0_FIFO_FS_SIZE :: u32 where "TX0_FIFO_FS_SIZE = 64"
definition TX1_FIFO_FS_SIZE :: u32 where "TX1_FIFO_FS_SIZE = 64"
definition TX2_FIFO_FS_SIZE :: u32 where "TX2_FIFO_FS_SIZE = 64"
definition TX3_FIFO_FS_SIZE :: u32 where "TX3_FIFO_FS_SIZE = 0"

definition fifo_size :: "u32 \<Rightarrow> u32 \<Rightarrow> u32" where
  "fifo_size start depth = set_fld fsiz_startaddr start (set_fld fsiz_depth depth 0)"

definition USB_OTG_CoreInitDev :: "'c usb \<Rightarrow> 'c usb" where
  "USB_OTG_CoreInitDev s = (let
     s = wr PCGCCTL 0 s;
     (v, s) = rd DCFG s;
     s = wr DCFG (set_fld dcfg_perfrint 0 v) s;
     s = USB_OTG_InitDevSpeed 3 s;
     s = wr GRXFSIZ RX_FIFO_FS_SIZE s;
     s = wr DIEPTXF0 (fifo_size RX_FIFO_FS_SIZE TX0_FIFO_FS_SIZE) s;
     a = RX_FIFO_FS_SIZE + TX0_FIFO_FS_SIZE;
     s = wr (DIEPTXF 0) (fifo_size a TX1_FIFO_FS_SIZE) s;
     a = a + TX1_FIFO_FS_SIZE;
     s = wr (DIEPTXF 1) (fifo_size a TX2_FIFO_FS_SIZE) s;
     a = a + TX2_FIFO_FS_SIZE;
     s = wr (DIEPTXF 2) (fifo_size a TX3_FIFO_FS_SIZE) s;
     s = USB_OTG_FlushTxFifo 0x10 s;
     s = USB_OTG_FlushRxFifo s;
     s = wr DIEPMSK 0 s;
     s = wr DOEPMSK 0 s;
     s = wr DAINT 0xFFFFFFFF s;
     s = wr DAINTMSK 0 s;
     s = fold idle_in_ep [0..<unat (dev_endpoints s)] s;
     s = fold idle_out_ep [0..<unat (dev_endpoints s)] s;
     m = set_fld epint_txfifoundrn 1 0;
     s = modify_reg DIEPMSK m m s
     in USB_OTG_EnableDevInt s)"

datatype usb_speed = USB_SPEED_UNKNOWN | USB_SPEED_LOW | USB_SPEED_FULL | USB_SPEED_HIGH

definition USB_OTG_GetDeviceSpeed :: "'c usb \<Rightarrow> usb_speed \<times> 'c usb" where
  "USB_OTG_GetDeviceSpeed s = (let (v, s) = rd DSTS s; e = get_fld dsts_enumspd v in
     (if e = 0 then USB_SPEED_HIGH else if e = 1 \<or> e = 3 then USB_SPEED_FULL
      else if e = 2 then USB_SPEED_LOW else USB_SPEED_UNKNOWN, s))"

section \<open>Endpoints\<close>

definition USB_OTG_EP0Activate :: "'c usb \<Rightarrow> 'c usb" where
  "USB_OTG_EP0Activate s = (let
     (dsts, s) = rd DSTS s;
     (v, s) = rd (DIEPCTL 0) s;
     e = get_fld dsts_enumspd dsts;
     v = (if e = 0 \<or> e = 1 \<or> e = 3 then set_fld depctl_mps 0 v
          else if e = 2 then set_fld depctl_mps 3 v else v);
     s = wr (DIEPCTL 0) v s;
     m = set_fld dctl_cgnpinnak 1 0
     in modify_reg DCTL m m s)"

definition ctl_reg :: "ep \<Rightarrow> reg" where
  "ctl_reg e = (if is_in e = 1 then DIEPCTL (unat (ep_num e)) else DOEPCTL (unat (ep_num e)))"

definition daint_bit :: "ep \<Rightarrow> u32" where
  "daint_bit e = (let b = push_bit (unat (ep_num e)) 1 in
     if is_in e = 1 then set_fld daint_in b 0 else set_fld daint_out b 0)"

definition USB_OTG_EPActivate :: "ep \<Rightarrow> 'c usb \<Rightarrow> 'c usb option" where
  "USB_OTG_EPActivate e s = (if \<not> has_ep (ep_num e) s then None else
     (let (v, s) = rd (ctl_reg e) s;
          s = (if get_fld depctl_usbactep v = 0
               then wr (ctl_reg e) (set_fld depctl_usbactep 1 (set_fld depctl_setd0pid 1
                      (set_fld depctl_txfnum (ucast (tx_fifo_num e)) (set_fld depctl_eptype (ucast (ep_type e))
                        (set_fld depctl_mps (maxpacket e) v))))) s
               else s)
      in Some (modify_reg DAINTMSK 0 (daint_bit e) s)))"

definition USB_OTG_EPDeactivate :: "ep \<Rightarrow> 'c usb \<Rightarrow> 'c usb option" where
  "USB_OTG_EPDeactivate e s = (if \<not> has_ep (ep_num e) s then None else
     Some (modify_reg DAINTMSK (daint_bit e) 0 (wr (ctl_reg e) 0 s)))"

definition enable_ep :: "u32 \<Rightarrow> u32" where
  "enable_ep v = set_fld depctl_epena 1 (set_fld depctl_cnak 1 v)"

text \<open>The packet count divides by \<open>maxpacket\<close>; the core would fault on a zero divisor.\<close>

definition start_in :: "ep \<Rightarrow> 'c usb \<Rightarrow> 'c usb option" where
  "start_in e s = (let
     n = unat (ep_num e);
     (depctl, s) = rd (DIEPCTL n) s;
     (deptsiz, s) = rd (DIEPTSIZ n) s in
     if xfer_len e \<noteq> 0 \<and> maxpacket e = 0 then None else do {
     let deptsiz = (if xfer_len e = 0 then set_fld xfrsiz_pktcnt 1 (set_fld xfrsiz_xfersize 0 deptsiz)
       else (let d = set_fld xfrsiz_pktcnt ((xfer_len e - 1 + maxpacket e) div maxpacket e)
                       (set_fld xfrsiz_xfersize (xfer_len e) deptsiz)
             in if ep_type e = EP_TYPE_ISOC then set_fld xfrsiz_mc 1 d else d));
     let s = wr (DIEPTSIZ n) deptsiz s;
     let s = (if ep_type e \<noteq> EP_TYPE_ISOC \<and> xfer_len e > 0 then modify_reg DIEPEMPMSK 0 (push_bit n 1) s else s);
     let (depctl, s) = (if ep_type e = EP_TYPE_ISOC
       then (let (dsts, s) = rd DSTS s in
             (if get_fld dsts_soffn dsts AND 1 = 0 then set_fld depctl_setd1pid 1 depctl
              else set_fld depctl_setd0pid 1 depctl, s))
       else (depctl, s));
     let s = wr (DIEPCTL n) (enable_ep depctl) s;
     if ep_type e = EP_TYPE_ISOC then USB_OTG_WritePacket (xfer_buff e) (ep_num e) (ucast (xfer_len e)) s
     else Some s })"

definition start_out :: "ep \<Rightarrow> 'c usb \<Rightarrow> 'c usb option" where
  "start_out e s = (let
     n = unat (ep_num e);
     (depctl, s) = rd (DOEPCTL n) s;
     (deptsiz, s) = rd (DOEPTSIZ n) s in
     if xfer_len e \<noteq> 0 \<and> maxpacket e = 0 then None else (let
     deptsiz = (if xfer_len e = 0 then set_fld xfrsiz_pktcnt 1 (set_fld xfrsiz_xfersize (maxpacket e) deptsiz)
       else (let d = set_fld xfrsiz_pktcnt ((xfer_len e + (maxpacket e - 1)) div maxpacket e) deptsiz
             in set_fld xfrsiz_xfersize (get_fld xfrsiz_pktcnt d * maxpacket e) d));
     s = wr (DOEPTSIZ n) deptsiz s;
     depctl = (if ep_type e = EP_TYPE_ISOC
       then (if even_odd_frame e \<noteq> 0 then set_fld depctl_setd1pid 1 depctl else set_fld depctl_setd0pid 1 depctl)
       else depctl)
     in Some (wr (DOEPCTL n) (enable_ep depctl) s)))"

definition USB_OTG_EPStartXfer :: "ep \<Rightarrow> 'c usb \<Rightarrow> 'c usb option" where
  "USB_OTG_EPStartXfer e s = (if \<not> has_ep (ep_num e) s then None
     else if is_in e = 1 then start_in e s else start_out e s)"

text \<open>Endpoint 0 sends one packet at a time: the length in the endpoint is cut to it.\<close>

definition USB_OTG_EP0StartXfer :: "ep \<Rightarrow> 'c usb \<Rightarrow> ep \<times> 'c usb" where
  "USB_OTG_EP0StartXfer e s = (if is_in e = 1 then (let
       (depctl, s) = rd (DIEPCTL 0) s;
       (deptsiz, s) = rd (DIEPTSIZ 0) s;
       e = (if xfer_len e > maxpacket e then e\<lparr>xfer_len := maxpacket e\<rparr> else e);
       s = wr (DIEPTSIZ 0) (set_fld xfrsiz0_pktcnt 1 (set_fld xfrsiz0_xfersize (xfer_len e) deptsiz)) s;
       s = wr (DIEPCTL 0) (enable_ep depctl) s;
       s = (if xfer_len e > 0 then modify_reg DIEPEMPMSK 0 (push_bit (unat (ep_num e)) 1) s else s)
     in (e, s))
   else (let
       n = unat (ep_num e);
       (depctl, s) = rd (DOEPCTL n) s;
       (deptsiz, s) = rd (DOEPTSIZ n) s;
       e = (if xfer_len e = 0 then e else e\<lparr>xfer_len := maxpacket e\<rparr>);
       s = wr (DOEPTSIZ n) (set_fld xfrsiz0_pktcnt 1 (set_fld xfrsiz0_xfersize (maxpacket e) deptsiz)) s
     in (e, wr (DOEPCTL n) (enable_ep depctl) s)))"

definition USB_OTG_EPSetStall :: "ep \<Rightarrow> 'c usb \<Rightarrow> 'c usb option" where
  "USB_OTG_EPSetStall e s = (if \<not> has_ep (ep_num e) s then None
     else if is_in e = 1 then (let
       (v, s) = rd (ctl_reg e) s;
       v = (if get_fld depctl_epena v \<noteq> 0 then set_fld depctl_epdis 1 v else v)
       in Some (wr (ctl_reg e) (set_fld depctl_stall 1 v) s))
     else (let (v, s) = rd (ctl_reg e) s in Some (wr (ctl_reg e) (set_fld depctl_stall 1 v) s)))"

definition USB_OTG_EPClearStall :: "ep \<Rightarrow> 'c usb \<Rightarrow> 'c usb option" where
  "USB_OTG_EPClearStall e s = (if \<not> has_ep (ep_num e) s then None else (let
     (v, s) = rd (ctl_reg e) s;
     v = set_fld depctl_stall 0 v;
     v = (if ep_type e = EP_TYPE_INTR \<or> ep_type e = EP_TYPE_BULK then set_fld depctl_setd0pid 1 v else v)
     in Some (wr (ctl_reg e) v s)))"

definition USB_OTG_ReadDevAllOutEp_itr :: "'c usb \<Rightarrow> u32 \<times> 'c usb" where
  "USB_OTG_ReadDevAllOutEp_itr s = (let (a, s) = rd DAINT s; (b, s) = rd DAINTMSK s in
     (drop_bit 16 ((a AND b) AND 0xFFFF0000), s))"

definition USB_OTG_ReadDevOutEP_itr :: "u8 \<Rightarrow> 'c usb \<Rightarrow> (u32 \<times> 'c usb) option" where
  "USB_OTG_ReadDevOutEP_itr epnum s = (if \<not> has_ep epnum s then None else
     (let (a, s) = rd (DOEPINT (unat epnum)) s; (b, s) = rd DOEPMSK s in Some (a AND b, s)))"

definition USB_OTG_ReadDevAllInEPItr :: "'c usb \<Rightarrow> u32 \<times> 'c usb" where
  "USB_OTG_ReadDevAllInEPItr s = (let (a, s) = rd DAINT s; (b, s) = rd DAINTMSK s in ((a AND b) AND 0xFFFF, s))"

definition USB_OTG_EP0_OutStart :: "'c usb \<Rightarrow> 'c usb" where
  "USB_OTG_EP0_OutStart s =
     wr (DOEPTSIZ 0) (set_fld xfrsiz0_xfersize (8 * 3) (set_fld xfrsiz0_pktcnt 1 (set_fld xfrsiz0_supcnt 3 0))) s"

definition USB_OTG_ActiveRemoteWakeup :: "'c usb \<Rightarrow> 'c usb" where
  "USB_OTG_ActiveRemoteWakeup s = (if DevRemoteWakeup s \<noteq> 0 then
     (let (v, s) = rd DSTS s in
      if get_fld dsts_suspsts v = 1 then
        (let m = set_fld dctl_rmtwkupsig 1 0 in modify_reg DCTL m 0 (modify_reg DCTL 0 m s))
      else s) else s)"

text \<open>Without power management the clock is never gated.\<close>

definition USB_OTG_UngateClock :: "'c usb \<Rightarrow> 'c usb" where
  "USB_OTG_UngateClock s = s"

definition USB_OTG_StopDevice :: "'c usb \<Rightarrow> 'c usb" where
  "USB_OTG_StopDevice s = (let
     s = s\<lparr>device_status := 1\<rparr>;
     s = fold (\<lambda>i s. wr (DOEPINT i) 0xFF (wr (DIEPINT i) 0xFF s)) [0..<unat (dev_endpoints s)] s;
     s = wr DIEPMSK 0 s;
     s = wr DOEPMSK 0 s;
     s = wr DAINTMSK 0 s;
     s = wr DAINT 0xFFFFFFFF s;
     s = USB_OTG_FlushRxFifo s
     in USB_OTG_FlushTxFifo 0x10 s)"

definition USB_OTG_EP_TX_DIS :: u32 where "USB_OTG_EP_TX_DIS = 0"
definition USB_OTG_EP_TX_STALL :: u32 where "USB_OTG_EP_TX_STALL = 0x10"
definition USB_OTG_EP_TX_NAK :: u32 where "USB_OTG_EP_TX_NAK = 0x20"
definition USB_OTG_EP_TX_VALID :: u32 where "USB_OTG_EP_TX_VALID = 0x30"
definition USB_OTG_EP_RX_DIS :: u32 where "USB_OTG_EP_RX_DIS = 0"
definition USB_OTG_EP_RX_STALL :: u32 where "USB_OTG_EP_RX_STALL = 0x1000"
definition USB_OTG_EP_RX_NAK :: u32 where "USB_OTG_EP_RX_NAK = 0x2000"
definition USB_OTG_EP_RX_VALID :: u32 where "USB_OTG_EP_RX_VALID = 0x3000"

definition USB_OTG_GetEPStatus :: "ep \<Rightarrow> 'c usb \<Rightarrow> (u32 \<times> 'c usb) option" where
  "USB_OTG_GetEPStatus e s = (if \<not> has_ep (ep_num e) s then None else
     (let (v, s) = rd (ctl_reg e) s in
      Some (if get_fld depctl_stall v = 1 then (if is_in e = 1 then USB_OTG_EP_TX_STALL else USB_OTG_EP_RX_STALL)
            else if get_fld depctl_naksts v = 1 then (if is_in e = 1 then USB_OTG_EP_TX_NAK else USB_OTG_EP_RX_NAK)
            else (if is_in e = 1 then USB_OTG_EP_TX_VALID else USB_OTG_EP_RX_VALID), s)))"

text \<open>The endpoint may be changed (\<open>even_odd_frame\<close>), so it is returned.\<close>

definition USB_OTG_SetEPStatus :: "ep \<Rightarrow> u32 \<Rightarrow> 'c usb \<Rightarrow> (ep \<times> 'c usb) option" where
  "USB_OTG_SetEPStatus e Status s = (if \<not> has_ep (ep_num e) s then None else (let
     (v, s) = rd (ctl_reg e) s;
     valid = set_fld depctl_epena 1 (set_fld depctl_usbactep 1 (set_fld depctl_cnak 1 v)) in
     if is_in e = 1 then
       (if Status = USB_OTG_EP_TX_STALL then map_option (Pair e) (USB_OTG_EPSetStall e s)
        else if Status = USB_OTG_EP_TX_NAK then Some (e, wr (ctl_reg e) (set_fld depctl_snak 1 v) s)
        else if Status = USB_OTG_EP_TX_VALID then
          (if get_fld depctl_stall v = 1
           then (let e = e\<lparr>even_odd_frame := 0\<rparr> in map_option (Pair e) (USB_OTG_EPClearStall e s))
           else Some (e, wr (ctl_reg e) valid s))
        else if Status = USB_OTG_EP_TX_DIS then Some (e, wr (ctl_reg e) (set_fld depctl_usbactep 0 v) s)
        else Some (e, wr (ctl_reg e) v s))
     else
       (if Status = USB_OTG_EP_RX_STALL then Some (e, wr (ctl_reg e) (set_fld depctl_stall 1 v) s)
        else if Status = USB_OTG_EP_RX_NAK then Some (e, wr (ctl_reg e) (set_fld depctl_snak 1 v) s)
        else if Status = USB_OTG_EP_RX_VALID then
          (if get_fld depctl_stall v = 1
           then (let e = e\<lparr>even_odd_frame := 0\<rparr> in map_option (Pair e) (USB_OTG_EPClearStall e s))
           else Some (e, wr (ctl_reg e) valid s))
        else if Status = USB_OTG_EP_RX_DIS then Some (e, wr (ctl_reg e) (set_fld depctl_usbactep 0 v) s)
        else Some (e, wr (ctl_reg e) v s))))"

section \<open>What the driver leaves alone\<close>

text \<open>Accesses to the controller change its registers and nothing else.\<close>

definition io :: "'c usb \<Rightarrow> 'c usb \<Rightarrow> bool" where
  "io s s' \<longleftrightarrow> s' = s\<lparr>regs := regs s', reads := reads s', writes := writes s'\<rparr>"

lemma io_refl [simp]: "io s s"
  by (simp add: io_def)

lemma io_trans [trans]:
  assumes "io s t" "io t u"
  shows "io s u"
proof -
  have "u = t\<lparr>regs := regs u, reads := reads u, writes := writes u\<rparr>" using assms(2) by (simp add: io_def)
  also have "t = s\<lparr>regs := regs t, reads := reads t, writes := writes t\<rparr>" using assms(1) by (simp add: io_def)
  finally show ?thesis by (simp add: io_def)
qed

lemma io_sym:
  assumes "io s t"
  shows "io t s"
proof -
  obtain a b c where "t = s\<lparr>regs := a, reads := b, writes := c\<rparr>" using assms unfolding io_def by blast
  then show ?thesis by (simp add: io_def)
qed

lemma io_upd [simp]: "io s (s\<lparr>regs := a\<rparr>)" "io s (s\<lparr>reads := b\<rparr>)" "io s (s\<lparr>writes := c\<rparr>)"
  by (simp_all add: io_def)

lemma io_wr [simp]: "io s (wr r v t) \<longleftrightarrow> io s t"
proof
  assume "io s (wr r v t)"
  moreover have "io (wr r v t) t" by (simp add: wr_def io_def)
  ultimately show "io s t" by (rule io_trans)
next
  assume "io s t"
  moreover have "io t (wr r v t)" by (simp add: wr_def io_def)
  ultimately show "io s (wr r v t)" by (rule io_trans)
qed

lemma io_reads [simp]: "io s (t\<lparr>reads := n\<rparr>) \<longleftrightarrow> io s t"
proof
  assume "io s (t\<lparr>reads := n\<rparr>)"
  moreover have "io (t\<lparr>reads := n\<rparr>) t" by (simp add: io_def)
  ultimately show "io s t" by (rule io_trans)
next
  assume "io s t"
  moreover have "io t (t\<lparr>reads := n\<rparr>)" by simp
  ultimately show "io s (t\<lparr>reads := n\<rparr>)" by (rule io_trans)
qed

lemma io_sels:
  assumes "io s s'"
  shows "hw s' = hw s" "mem s' = mem s" "speed s' = speed s" "mps s' = mps s" "host_channels s' = host_channels s"
    "dev_endpoints s' = dev_endpoints s" "TotalFifoSize s' = TotalFifoSize s" "phy_itface s' = phy_itface s"
    "device_config s' = device_config s" "device_state s' = device_state s" "device_status s' = device_status s"
    "device_old_status s' = device_old_status s" "device_address s' = device_address s"
    "connection_status s' = connection_status s" "test_mode s' = test_mode s" "DevRemoteWakeup s' = DevRemoteWakeup s"
    "SET_TEST_MODE s' = SET_TEST_MODE s" "in_ep s' = in_ep s" "out_ep s' = out_ep s"
    "pConfig_descriptor s' = pConfig_descriptor s" "cls s' = cls s"
proof -
  obtain a b c where "s' = s\<lparr>regs := a, reads := b, writes := c\<rparr>" using assms unfolding io_def by blast
  then show "hw s' = hw s" "mem s' = mem s" "speed s' = speed s" "mps s' = mps s" "host_channels s' = host_channels s"
    "dev_endpoints s' = dev_endpoints s" "TotalFifoSize s' = TotalFifoSize s" "phy_itface s' = phy_itface s"
    "device_config s' = device_config s" "device_state s' = device_state s" "device_status s' = device_status s"
    "device_old_status s' = device_old_status s" "device_address s' = device_address s"
    "connection_status s' = connection_status s" "test_mode s' = test_mode s" "DevRemoteWakeup s' = DevRemoteWakeup s"
    "SET_TEST_MODE s' = SET_TEST_MODE s" "in_ep s' = in_ep s" "out_ep s' = out_ep s"
    "pConfig_descriptor s' = pConfig_descriptor s" "cls s' = cls s" by simp_all
qed

lemma rd_io: "rd r s = (v, s') \<Longrightarrow> io s s'"
  by (auto simp: rd_def)

lemma io_modify_reg [simp]: "io s (modify_reg r a b t) \<longleftrightarrow> io s t"
  by (simp add: modify_reg_def rd_def)

lemma io_fold:
  assumes "\<And>x t. io t (f x t)"
  shows "io s (fold f xs s)"
  by (induction xs arbitrary: s) (auto intro: assms io_trans)

lemma poll_io: "poll k r f v s = (b, x, s') \<Longrightarrow> io s s'"
proof (induction k arbitrary: s)
  case (Suc k)
  have n: "io s (s\<lparr>reads := Suc (reads s)\<rparr>)" by simp
  show ?case using Suc.prems io_trans [OF n] Suc.IH [of "s\<lparr>reads := Suc (reads s)\<rparr>"]
    by (auto simp: rd_def split: if_splits)
qed (auto simp: rd_def)

lemma io_poll: "io s (snd (snd (poll k r f v t))) \<longleftrightarrow> io s t"
proof (cases "poll k r f v t")
  case (fields b x u)
  note p = poll_io [OF fields]
  show ?thesis using p io_sym [OF p] fields by (auto intro: io_trans)
qed

named_theorems io_simps \<open>functions that change registers only\<close>

lemma io_core [io_simps]:
  "io s (USB_OTG_EnableCommonInt s)" "io s (USB_OTG_EnableGlobalInt s)" "io s (USB_OTG_DisableGlobalInt s)"
  "io s (USB_OTG_FlushTxFifo n s)" "io s (USB_OTG_FlushRxFifo s)" "io s (USB_OTG_SetCurrentMode m s)"
  "io s (USB_OTG_InitDevSpeed sp s)" "io s (USB_OTG_EnableDevInt s)" "io s (idle_in_ep i s)" "io s (idle_out_ep i s)"
  "io s (USB_OTG_EP0Activate s)" "io s (USB_OTG_EP0_OutStart s)" "io s (USB_OTG_ActiveRemoteWakeup s)"
  by (simp_all add: USB_OTG_EnableCommonInt_def USB_OTG_EnableGlobalInt_def USB_OTG_DisableGlobalInt_def
    USB_OTG_FlushTxFifo_def USB_OTG_FlushRxFifo_def USB_OTG_SetCurrentMode_def USB_OTG_InitDevSpeed_def
    USB_OTG_EnableDevInt_def idle_in_ep_def idle_out_ep_def USB_OTG_EP0Activate_def USB_OTG_EP0_OutStart_def
    USB_OTG_ActiveRemoteWakeup_def rd_def Let_def io_poll)

lemma start_in_ok:
  assumes "maxpacket e \<noteq> 0 \<or> xfer_len e = 0" "ep_type e \<noteq> EP_TYPE_ISOC"
  shows "\<exists>s'. start_in e s = Some s' \<and> io s s'"
  using assms by (auto simp: start_in_def rd_def Let_def)

lemma start_out_ok:
  assumes "maxpacket e \<noteq> 0 \<or> xfer_len e = 0"
  shows "\<exists>s'. start_out e s = Some s' \<and> io s s'"
  using assms by (auto simp: start_out_def rd_def Let_def)

lemma start_xfer_ok:
  assumes "has_ep (ep_num e) s" "maxpacket e \<noteq> 0 \<or> xfer_len e = 0" "ep_type e \<noteq> EP_TYPE_ISOC"
  shows "\<exists>s'. USB_OTG_EPStartXfer e s = Some s' \<and> io s s'"
  using assms(1) start_in_ok [OF assms(2,3), of s] start_out_ok [OF assms(2), of s] by (simp add: USB_OTG_EPStartXfer_def)

lemma activate_ok:
  assumes "has_ep (ep_num e) s"
  shows "\<exists>s'. USB_OTG_EPActivate e s = Some s' \<and> io s s'"
  using assms by (auto simp: USB_OTG_EPActivate_def rd_def Let_def)

lemma deactivate_ok:
  assumes "has_ep (ep_num e) s"
  shows "\<exists>s'. USB_OTG_EPDeactivate e s = Some s' \<and> io s s'"
  using assms by (auto simp: USB_OTG_EPDeactivate_def rd_def Let_def)

lemma set_stall_ok:
  assumes "has_ep (ep_num e) s"
  shows "\<exists>s'. USB_OTG_EPSetStall e s = Some s' \<and> io s s'"
  using assms by (auto simp: USB_OTG_EPSetStall_def rd_def Let_def)

lemma clear_stall_ok:
  assumes "has_ep (ep_num e) s"
  shows "\<exists>s'. USB_OTG_EPClearStall e s = Some s' \<and> io s s'"
  using assms by (auto simp: USB_OTG_EPClearStall_def rd_def Let_def)

definition cut_ep0 :: "ep \<Rightarrow> ep" where
  "cut_ep0 e = (if is_in e = 1 then (if xfer_len e > maxpacket e then e\<lparr>xfer_len := maxpacket e\<rparr> else e)
     else if xfer_len e = 0 then e else e\<lparr>xfer_len := maxpacket e\<rparr>)"

lemma ep0_start:
  "\<exists>s'. USB_OTG_EP0StartXfer e s = (cut_ep0 e, s') \<and> io s s'"
  by (auto simp: USB_OTG_EP0StartXfer_def cut_ep0_def rd_def Let_def)

lemma write_words_io: "write_words k p f s = Some s' \<Longrightarrow> io s s'"
proof (induction k arbitrary: p s)
  case (Suc k)
  then obtain x where "load_at p 4 s = Some x" "write_words k (ptr_add p 4) f (wr (DFIFO f) (of_le32 x) s) = Some s'"
    by (auto split: bind_splits)
  with Suc.IH have "io (wr (DFIFO f) (of_le32 x) s) s'" by blast
  moreover have "io s (wr (DFIFO f) (of_le32 x) s)" by simp
  ultimately show ?case by (rule io_trans [rotated])
qed simp

end
