(* ===== verification/Usb_Dcd.thy ===== *)
theory Usb_Dcd
  imports Otg_Core
begin

text \<open>
  The endpoint layer of the device driver, \<open>src/usb-core/otg-driver/usb_dcd.c\<close>.

  An endpoint address has its direction in bit 7 and its number in the rest. The code indexes
  two arrays of 15 endpoints with the number; an index outside them is a fault.
\<close>

section \<open>Endpoints in the device\<close>

definition ep_index :: "u8 \<Rightarrow> nat" where
  "ep_index a = unat (a AND 0x7F)"

definition get_in :: "u8 \<Rightarrow> 'c usb \<Rightarrow> ep option" where
  "get_in a s = (if ep_index a < length (in_ep s) then Some (in_ep s ! ep_index a) else None)"

definition get_out :: "u8 \<Rightarrow> 'c usb \<Rightarrow> ep option" where
  "get_out a s = (if ep_index a < length (out_ep s) then Some (out_ep s ! ep_index a) else None)"

definition put_in :: "u8 \<Rightarrow> ep \<Rightarrow> 'c usb \<Rightarrow> 'c usb" where
  "put_in a e s = s\<lparr>in_ep := (in_ep s)[ep_index a := e]\<rparr>"

definition put_out :: "u8 \<Rightarrow> ep \<Rightarrow> 'c usb \<Rightarrow> 'c usb" where
  "put_out a e s = s\<lparr>out_ep := (out_ep s)[ep_index a := e]\<rparr>"

definition dir_in :: "u8 \<Rightarrow> bool" where
  "dir_in a \<longleftrightarrow> a AND 0x80 = 0x80"

definition get_ep :: "u8 \<Rightarrow> 'c usb \<Rightarrow> ep option" where
  "get_ep a s = (if dir_in a then get_in a s else get_out a s)"

definition put_ep :: "u8 \<Rightarrow> ep \<Rightarrow> 'c usb \<Rightarrow> 'c usb" where
  "put_ep a e s = (if dir_in a then put_in a e s else put_out a e s)"

definition addressed :: "u8 \<Rightarrow> ep \<Rightarrow> ep" where
  "addressed a e = e\<lparr>ep_num := a AND 0x7F, is_in := (if dir_in a then 1 else 0)\<rparr>"

section \<open>Operations\<close>

text \<open>The two loops of \<open>DCD_Init\<close>.\<close>

definition init_ep :: "u8 \<Rightarrow> nat \<Rightarrow> ep \<Rightarrow> ep" where
  "init_ep dir i e = e\<lparr>is_in := dir, ep_num := of_nat i, tx_fifo_num := of_nat i, ep_type := EP_TYPE_CTRL,
     maxpacket := USB_OTG_MAX_EP0_SIZE, xfer_buff := None, xfer_len := 0\<rparr>"

definition init_eps :: "u8 \<Rightarrow> nat \<Rightarrow> ep list \<Rightarrow> ep list option" where
  "init_eps dir n es = (if n \<le> length es then Some (fold (\<lambda>i es. es[i := init_ep dir i (es ! i)]) [0..<n] es) else None)"

definition USB_OTG_DEFAULT :: u8 where "USB_OTG_DEFAULT = 1"
definition USB_OTG_ADDRESSED :: u8 where "USB_OTG_ADDRESSED = 2"
definition USB_OTG_CONFIGURED :: u8 where "USB_OTG_CONFIGURED = 3"
definition USB_OTG_SUSPENDED :: u8 where "USB_OTG_SUSPENDED = 4"

definition DCD_Init :: "'c usb \<Rightarrow> 'c usb option" where
  "DCD_Init s = do {
     let s = (USB_OTG_SelectCore s)\<lparr>device_status := USB_OTG_DEFAULT, device_address := 0\<rparr>;
     ie \<leftarrow> init_eps 1 (unat (dev_endpoints s)) (in_ep s);
     oe \<leftarrow> init_eps 0 (unat (dev_endpoints s)) (out_ep s);
     let s = s\<lparr>in_ep := ie, out_ep := oe\<rparr>;
     let s = USB_OTG_DisableGlobalInt s;
     let s = USB_OTG_CoreInit s;
     let s = USB_OTG_SetCurrentMode DEVICE_MODE s;
     let s = USB_OTG_CoreInitDev s;
     Some (USB_OTG_EnableGlobalInt s) }"

definition DCD_EP_Open :: "u8 \<Rightarrow> u16 \<Rightarrow> u8 \<Rightarrow> 'c usb \<Rightarrow> 'c usb option" where
  "DCD_EP_Open ep_addr ep_mps type s = do {
     e \<leftarrow> get_ep ep_addr s;
     let e = (addressed ep_addr e)\<lparr>maxpacket := ucast ep_mps, ep_type := type\<rparr>;
     let e = (if is_in e \<noteq> 0 then e\<lparr>tx_fifo_num := ucast (ep_num e)\<rparr> else e);
     let e = (if type = EP_TYPE_BULK then e\<lparr>data_pid_start := 0\<rparr> else e);
     USB_OTG_EPActivate e (put_ep ep_addr e s) }"

definition DCD_EP_Close :: "u8 \<Rightarrow> 'c usb \<Rightarrow> 'c usb option" where
  "DCD_EP_Close ep_addr s = do {
     e \<leftarrow> get_ep ep_addr s;
     let e = addressed ep_addr e;
     USB_OTG_EPDeactivate e (put_ep ep_addr e s) }"

definition DCD_EP_PrepareRx :: "u8 \<Rightarrow> ptr \<Rightarrow> u16 \<Rightarrow> 'c usb \<Rightarrow> 'c usb option" where
  "DCD_EP_PrepareRx ep_addr pbuf buf_len s = do {
     e \<leftarrow> get_out ep_addr s;
     let e = e\<lparr>xfer_buff := pbuf, xfer_len := ucast buf_len, xfer_count := 0, is_in := 0, ep_num := ep_addr AND 0x7F\<rparr>;
     if ep_num e = 0
     then (let (e, s) = USB_OTG_EP0StartXfer e s in Some (put_out ep_addr e s))
     else USB_OTG_EPStartXfer e (put_out ep_addr e s) }"

definition DCD_EP_Tx :: "u8 \<Rightarrow> ptr \<Rightarrow> u32 \<Rightarrow> 'c usb \<Rightarrow> 'c usb option" where
  "DCD_EP_Tx ep_addr pbuf buf_len s = do {
     e \<leftarrow> get_in ep_addr s;
     let e = e\<lparr>is_in := 1, ep_num := ep_addr AND 0x7F, xfer_buff := pbuf, xfer_count := 0, xfer_len := buf_len\<rparr>;
     if ep_num e = 0
     then (let (e, s) = USB_OTG_EP0StartXfer e s in Some (put_in ep_addr e s))
     else USB_OTG_EPStartXfer e (put_in ep_addr e s) }"

text \<open>An OUT endpoint is indexed with the whole address here, which has bit 7 clear.\<close>

definition DCD_EP_Stall :: "u8 \<Rightarrow> 'c usb \<Rightarrow> 'c usb option" where
  "DCD_EP_Stall epnum s = do {
     e \<leftarrow> get_ep epnum s;
     let e = (addressed epnum e)\<lparr>is_stall := 1\<rparr>;
     USB_OTG_EPSetStall e (put_ep epnum e s) }"

definition DCD_EP_ClrStall :: "u8 \<Rightarrow> 'c usb \<Rightarrow> 'c usb option" where
  "DCD_EP_ClrStall epnum s = do {
     e \<leftarrow> get_ep epnum s;
     let e = (addressed epnum e)\<lparr>is_stall := 0\<rparr>;
     USB_OTG_EPClearStall e (put_ep epnum e s) }"

definition DCD_EP_Flush :: "u8 \<Rightarrow> 'c usb \<Rightarrow> 'c usb" where
  "DCD_EP_Flush epnum s = (if dir_in epnum then USB_OTG_FlushTxFifo (ucast (epnum AND 0x7F)) s else USB_OTG_FlushRxFifo s)"

definition DCD_EP_SetAddress :: "u8 \<Rightarrow> 'c usb \<Rightarrow> 'c usb" where
  "DCD_EP_SetAddress address s = modify_reg DCFG 0 (set_fld dcfg_devaddr (ucast address) 0) s"

definition DCD_DevConnect :: "'c usb \<Rightarrow> 'c usb" where
  "DCD_DevConnect s = (let (v, s) = rd DCTL s in wr DCTL (set_fld dctl_sftdiscon 0 v) s)"

definition DCD_DevDisconnect :: "'c usb \<Rightarrow> 'c usb" where
  "DCD_DevDisconnect s = (let (v, s) = rd DCTL s in wr DCTL (set_fld dctl_sftdiscon 1 v) s)"

definition DCD_GetEPStatus :: "u8 \<Rightarrow> 'c usb \<Rightarrow> (u32 \<times> 'c usb) option" where
  "DCD_GetEPStatus epnum s = do { e \<leftarrow> get_ep epnum s; USB_OTG_GetEPStatus e s }"

definition DCD_SetEPStatus :: "u8 \<Rightarrow> u32 \<Rightarrow> 'c usb \<Rightarrow> 'c usb option" where
  "DCD_SetEPStatus epnum Status s = do {
     e \<leftarrow> get_ep epnum s;
     (e, s) \<leftarrow> USB_OTG_SetEPStatus e Status s;
     Some (put_ep epnum e s) }"

section \<open>What the operations do\<close>

lemma get_in_Some: "ep_index a < length (in_ep s) \<Longrightarrow> get_in a s = Some (in_ep s ! ep_index a)"
  by (simp add: get_in_def)

lemma get_out_Some: "ep_index a < length (out_ep s) \<Longrightarrow> get_out a s = Some (out_ep s ! ep_index a)"
  by (simp add: get_out_def)

lemma has_ep_io: "io s s' \<Longrightarrow> has_ep n s' = has_ep n s"
  by (simp add: has_ep_def io_sels)

lemma has_ep_put [simp]: "has_ep n (put_in a e s) = has_ep n s" "has_ep n (put_out a e s) = has_ep n s"
  "has_ep n (put_ep a e s) = has_ep n s"
  by (simp_all add: has_ep_def put_in_def put_out_def put_ep_def)

lemma io_put:
  assumes "io s t"
  shows "io (put_in a e s) (put_in a e t)" "io (put_out a e s) (put_out a e t)"
proof -
  obtain x y z where "t = s\<lparr>regs := x, reads := y, writes := z\<rparr>" using assms unfolding io_def by blast
  then show "io (put_in a e s) (put_in a e t)" "io (put_out a e s) (put_out a e t)" by (simp_all add: io_def put_in_def put_out_def)
qed

definition tx_ep :: "u8 \<Rightarrow> ptr \<Rightarrow> u32 \<Rightarrow> ep \<Rightarrow> ep" where
  "tx_ep a p n e = e\<lparr>is_in := 1, ep_num := a AND 0x7F, xfer_buff := p, xfer_count := 0, xfer_len := n\<rparr>"

lemma DCD_EP_Tx_ok:
  assumes "ep_index a < length (in_ep s)" "a AND 0x7F < dev_endpoints s" "a AND 0x7F \<noteq> 0"
    "maxpacket (in_ep s ! ep_index a) \<noteq> 0" "ep_type (in_ep s ! ep_index a) \<noteq> EP_TYPE_ISOC"
  shows "\<exists>s'. DCD_EP_Tx a p n s = Some s' \<and> io (put_in a (tx_ep a p n (in_ep s ! ep_index a)) s) s'"
proof -
  let ?e = "tx_ep a p n (in_ep s ! ep_index a)"
  have "has_ep (ep_num ?e) (put_in a ?e s)" using assms(2) by (simp add: has_ep_def tx_ep_def put_in_def)
  from start_xfer_ok [OF this] assms obtain s' where "USB_OTG_EPStartXfer ?e (put_in a ?e s) = Some s'" "io (put_in a ?e s) s'"
    by (auto simp: tx_ep_def)
  then show ?thesis using assms by (auto simp: DCD_EP_Tx_def get_in_Some tx_ep_def)
qed

lemma DCD_EP_Tx_ep0:
  assumes "in_ep s \<noteq> []"
  shows "\<exists>s'. DCD_EP_Tx 0 p n s = Some s' \<and> io (put_in 0 (cut_ep0 (tx_ep 0 p n (in_ep s ! 0))) s) s'"
proof -
  obtain t where t: "USB_OTG_EP0StartXfer (tx_ep 0 p n (in_ep s ! 0)) s = (cut_ep0 (tx_ep 0 p n (in_ep s ! 0)), t)" "io s t"
    using ep0_start by blast
  then show ?thesis using assms io_put(1) [OF t(2), of 0] by (simp add: DCD_EP_Tx_def get_in_def ep_index_def tx_ep_def)
qed

definition rx_ep :: "u8 \<Rightarrow> ptr \<Rightarrow> u16 \<Rightarrow> ep \<Rightarrow> ep" where
  "rx_ep a p n e = e\<lparr>xfer_buff := p, xfer_len := ucast n, xfer_count := 0, is_in := 0, ep_num := a AND 0x7F\<rparr>"

lemma DCD_EP_PrepareRx_ok:
  assumes "ep_index a < length (out_ep s)" "a AND 0x7F < dev_endpoints s" "a AND 0x7F \<noteq> 0"
    "maxpacket (out_ep s ! ep_index a) \<noteq> 0" "ep_type (out_ep s ! ep_index a) \<noteq> EP_TYPE_ISOC"
  shows "\<exists>s'. DCD_EP_PrepareRx a p n s = Some s' \<and> io (put_out a (rx_ep a p n (out_ep s ! ep_index a)) s) s'"
proof -
  let ?e = "rx_ep a p n (out_ep s ! ep_index a)"
  have "has_ep (ep_num ?e) (put_out a ?e s)" using assms(2) by (simp add: has_ep_def rx_ep_def put_out_def)
  from start_xfer_ok [OF this] assms obtain s' where "USB_OTG_EPStartXfer ?e (put_out a ?e s) = Some s'" "io (put_out a ?e s) s'"
    by (auto simp: rx_ep_def)
  then show ?thesis using assms by (auto simp: DCD_EP_PrepareRx_def get_out_Some rx_ep_def)
qed

lemma DCD_EP_PrepareRx_ep0:
  assumes "out_ep s \<noteq> []"
  shows "\<exists>s'. DCD_EP_PrepareRx 0 p n s = Some s' \<and> io (put_out 0 (cut_ep0 (rx_ep 0 p n (out_ep s ! 0))) s) s'"
proof -
  obtain t where t: "USB_OTG_EP0StartXfer (rx_ep 0 p n (out_ep s ! 0)) s = (cut_ep0 (rx_ep 0 p n (out_ep s ! 0)), t)" "io s t"
    using ep0_start by blast
  then show ?thesis using assms io_put(2) [OF t(2), of 0] by (simp add: DCD_EP_PrepareRx_def get_out_def ep_index_def rx_ep_def)
qed

definition ep_exists :: "u8 \<Rightarrow> 'c usb \<Rightarrow> bool" where
  "ep_exists a s \<longleftrightarrow> ep_index a < length (if dir_in a then in_ep s else out_ep s) \<and> has_ep (a AND 0x7F) s"

definition the_ep :: "u8 \<Rightarrow> 'c usb \<Rightarrow> ep" where
  "the_ep a s = (if dir_in a then in_ep s else out_ep s) ! ep_index a"

lemma get_ep_Some: "ep_exists a s \<Longrightarrow> get_ep a s = Some (the_ep a s)"
  by (simp add: ep_exists_def get_ep_def get_in_def get_out_def the_ep_def split: if_splits)

definition opened :: "u8 \<Rightarrow> u16 \<Rightarrow> u8 \<Rightarrow> ep \<Rightarrow> ep" where
  "opened a n type e = (let
     e = (addressed a e)\<lparr>maxpacket := ucast n, ep_type := type\<rparr>;
     e = (if is_in e \<noteq> 0 then e\<lparr>tx_fifo_num := ucast (ep_num e)\<rparr> else e)
     in if type = EP_TYPE_BULK then e\<lparr>data_pid_start := 0\<rparr> else e)"

lemma opened_num [simp]: "ep_num (opened a n type e) = a AND 0x7F"
  by (simp add: opened_def addressed_def Let_def)

lemma addressed_num [simp]: "ep_num (addressed a e) = a AND 0x7F"
  by (simp add: addressed_def)

lemma DCD_EP_Open_ok:
  assumes "ep_exists a s"
  shows "\<exists>s'. DCD_EP_Open a n type s = Some s' \<and> io (put_ep a (opened a n type (the_ep a s)) s) s'"
proof -
  have "has_ep (ep_num (opened a n type (the_ep a s))) (put_ep a (opened a n type (the_ep a s)) s)"
    using assms by (simp add: ep_exists_def)
  from activate_ok [OF this] show ?thesis using get_ep_Some [OF assms] by (simp add: DCD_EP_Open_def opened_def Let_def)
qed

lemma DCD_EP_Close_ok:
  assumes "ep_exists a s"
  shows "\<exists>s'. DCD_EP_Close a s = Some s' \<and> io (put_ep a (addressed a (the_ep a s)) s) s'"
proof -
  have "has_ep (ep_num (addressed a (the_ep a s))) (put_ep a (addressed a (the_ep a s)) s)"
    using assms by (simp add: ep_exists_def)
  from deactivate_ok [OF this] show ?thesis using get_ep_Some [OF assms] by (simp add: DCD_EP_Close_def Let_def)
qed

lemma DCD_EP_Stall_ok:
  assumes "ep_exists a s"
  shows "\<exists>s'. DCD_EP_Stall a s = Some s' \<and> io (put_ep a ((addressed a (the_ep a s))\<lparr>is_stall := 1\<rparr>) s) s'"
proof -
  have "has_ep (ep_num ((addressed a (the_ep a s))\<lparr>is_stall := 1\<rparr>)) (put_ep a ((addressed a (the_ep a s))\<lparr>is_stall := 1\<rparr>) s)"
    using assms by (simp add: ep_exists_def)
  from set_stall_ok [OF this] show ?thesis using get_ep_Some [OF assms] by (simp add: DCD_EP_Stall_def Let_def)
qed

lemma DCD_EP_ClrStall_ok:
  assumes "ep_exists a s"
  shows "\<exists>s'. DCD_EP_ClrStall a s = Some s' \<and> io (put_ep a ((addressed a (the_ep a s))\<lparr>is_stall := 0\<rparr>) s) s'"
proof -
  have "has_ep (ep_num ((addressed a (the_ep a s))\<lparr>is_stall := 0\<rparr>)) (put_ep a ((addressed a (the_ep a s))\<lparr>is_stall := 0\<rparr>) s)"
    using assms by (simp add: ep_exists_def)
  from clear_stall_ok [OF this] show ?thesis using get_ep_Some [OF assms] by (simp add: DCD_EP_ClrStall_def Let_def)
qed

text \<open>Conversely, an endpoint without registers is a fault.\<close>

lemma DCD_EP_Stall_fault: "\<not> has_ep (a AND 0x7F) s \<Longrightarrow> DCD_EP_Stall a s = None"
  by (auto simp: DCD_EP_Stall_def USB_OTG_EPSetStall_def split: bind_splits)

section \<open>A device that can run\<close>

text \<open>
  After \<open>DCD_Init\<close>: the endpoint arrays are whole, and each endpoint that has registers has a
  packet size and is not isochronous (the library supports such endpoints, no class here has one).
\<close>

definition ep_ready :: "ep \<Rightarrow> bool" where
  "ep_ready e \<longleftrightarrow> maxpacket e \<noteq> 0 \<and> ep_type e \<noteq> EP_TYPE_ISOC"

definition usb_ok :: "'c usb \<Rightarrow> bool" where
  "usb_ok s \<longleftrightarrow> length (in_ep s) = 15 \<and> length (out_ep s) = 15 \<and> dev_endpoints s = 4
     \<and> (\<forall>i < 4. ep_ready (in_ep s ! i) \<and> ep_ready (out_ep s ! i))"

lemma usb_ok_io: "io s t \<Longrightarrow> usb_ok t = usb_ok s"
  by (simp add: usb_ok_def io_sels)

lemma ready_update:
  assumes "ep_ready (xs ! j)" "ep_ready e"
  shows "ep_ready (xs[i := e] ! j)"
proof (cases "i < length xs")
  case True
  then show ?thesis using assms by (simp add: nth_list_update)
next
  case False
  then show ?thesis using assms(1) by (simp add: list_update_beyond)
qed

lemma usb_ok_put: "usb_ok s \<Longrightarrow> ep_ready e \<Longrightarrow> usb_ok (put_in a e s)" "usb_ok s \<Longrightarrow> ep_ready e \<Longrightarrow> usb_ok (put_out a e s)"
  by (auto simp: usb_ok_def put_in_def put_out_def ready_update)

lemma usb_ok_upd [simp]: "usb_ok (s\<lparr>cls := c\<rparr>) = usb_ok s" "usb_ok (s\<lparr>mem := m\<rparr>) = usb_ok s" "usb_ok (s\<lparr>device_state := d\<rparr>) = usb_ok s"
  by (simp_all add: usb_ok_def)

lemma load_cong:
  assumes "mem t = mem s" "device_config t = device_config s" "device_state t = device_state s"
    "device_status t = device_status s" "device_old_status t = device_old_status s"
  shows "load_at p n t = load_at p n s"
  using assms by (auto simp: load_at_def load_def split: option.split)

section \<open>Memory\<close>

lemma store_at_Some:
  "r \<noteq> R_device_config \<Longrightarrow> off + length d \<le> length (mem s r) \<Longrightarrow>
     store_at (Some (r, off)) d s = Some (s\<lparr>mem := (mem s)(r := take off (mem s r) @ d @ drop (off + length d) (mem s r))\<rparr>)"
  by (simp add: store_at_def wr_at_Some)

lemma load_at_Some:
  "r \<noteq> R_device_config \<Longrightarrow> off + n \<le> length (mem s r) \<Longrightarrow> load_at (Some (r, off)) n s = Some (take n (drop off (mem s r)))"
  by (simp add: load_at_def load_def rd_at_Some)

lemma load_at_length: "load_at p n s = Some d \<Longrightarrow> length d = n"
  by (auto simp: load_at_def rd_at_length split: option.splits if_splits)

lemma load_at_part:
  assumes "load_at p n s = Some d" "k + m \<le> n"
  shows "load_at (ptr_add p k) m s = Some (take m (drop k d))"
proof (cases p)
  case None
  then show ?thesis using assms by (auto simp: load_at_def ptr_add_def split: if_splits)
next
  case (Some q)
  obtain r off where "q = (r, off)" by fastforce
  with Some assms show ?thesis
    by (auto simp: load_at_def ptr_add_def rd_at_def min_def drop_take add.commute split: if_splits)
qed

lemma load_at_other:
  assumes "p = Some (r, off)" "r \<noteq> q"
  shows "load_at p n (s\<lparr>mem := (mem s)(q := b)\<rparr>) = load_at p n s"
  using assms by (simp add: load_at_def load_def)

text \<open>The packets that carry a transfer of the bytes \<open>m\<close>: full ones, then the rest.\<close>

fun packets :: "bytes \<Rightarrow> bytes list" where
  "packets m = (if length m \<le> 64 then [m] else take 64 m # packets (drop 64 m))"

declare packets.simps [simp del]


end
