(* ===== verification/Usbd_Req.thy ===== *)
theory Usbd_Req
  imports Usb_Dcd
begin

text \<open>
  Control transfers of the device library: \<open>src/usb-core/dev-driver/usbd_ioreq.c\<close> (the stages
  of a control transfer), \<open>usbd_req.c\<close> (the standard requests), \<open>USBD_SetCfg\<close> and \<open>USBD_ClrCfg\<close> of
  \<open>usbd_core.c\<close>, and the device's descriptors of \<open>src/lrndis/rndis-stm32/usbd_desc.c\<close>.

  The class driver is a record of its callbacks, the first argument of each function that calls
  it; a callback the code tests for NULL is an option. The user callbacks of
  \<open>src/usb-files/usbd_usr.c\<close> are empty functions and leave the state as it is. The descriptor
  functions are called directly: \<open>usr_device\<close> is always \<open>USR_desc\<close>.
\<close>

unbundle bit_operations_syntax

section \<open>Stages of a control transfer\<close>

definition USB_OTG_EP0_IDLE :: u8 where "USB_OTG_EP0_IDLE = 0"
definition USB_OTG_EP0_SETUP :: u8 where "USB_OTG_EP0_SETUP = 1"
definition USB_OTG_EP0_DATA_IN :: u8 where "USB_OTG_EP0_DATA_IN = 2"
definition USB_OTG_EP0_DATA_OUT :: u8 where "USB_OTG_EP0_DATA_OUT = 3"
definition USB_OTG_EP0_STATUS_IN :: u8 where "USB_OTG_EP0_STATUS_IN = 4"
definition USB_OTG_EP0_STATUS_OUT :: u8 where "USB_OTG_EP0_STATUS_OUT = 5"

definition USBD_CtlSendData :: "ptr \<Rightarrow> u16 \<Rightarrow> 'c usb \<Rightarrow> 'c usb option" where
  "USBD_CtlSendData pbuf len s = do {
     e \<leftarrow> get_in 0 s;
     let s = put_in 0 (e\<lparr>total_data_len := ucast len, rem_data_len := ucast len\<rparr>) s;
     DCD_EP_Tx 0 pbuf (ucast len) (s\<lparr>device_state := USB_OTG_EP0_DATA_IN\<rparr>) }"

definition USBD_CtlContinueSendData :: "ptr \<Rightarrow> u16 \<Rightarrow> 'c usb \<Rightarrow> 'c usb option" where
  "USBD_CtlContinueSendData pbuf len s = DCD_EP_Tx 0 pbuf (ucast len) s"

definition USBD_CtlPrepareRx :: "ptr \<Rightarrow> u16 \<Rightarrow> 'c usb \<Rightarrow> 'c usb option" where
  "USBD_CtlPrepareRx pbuf len s = do {
     e \<leftarrow> get_out 0 s;
     let s = put_out 0 (e\<lparr>total_data_len := ucast len, rem_data_len := ucast len\<rparr>) s;
     DCD_EP_PrepareRx 0 pbuf len (s\<lparr>device_state := USB_OTG_EP0_DATA_OUT\<rparr>) }"

definition USBD_CtlContinueRx :: "ptr \<Rightarrow> u16 \<Rightarrow> 'c usb \<Rightarrow> 'c usb option" where
  "USBD_CtlContinueRx pbuf len s = DCD_EP_PrepareRx 0 pbuf len s"

definition USBD_CtlSendStatus :: "'c usb \<Rightarrow> 'c usb option" where
  "USBD_CtlSendStatus s = do {
     s \<leftarrow> DCD_EP_Tx 0 None 0 (s\<lparr>device_state := USB_OTG_EP0_STATUS_IN\<rparr>);
     Some (USB_OTG_EP0_OutStart s) }"

definition USBD_CtlReceiveStatus :: "'c usb \<Rightarrow> 'c usb option" where
  "USBD_CtlReceiveStatus s = do {
     s \<leftarrow> DCD_EP_PrepareRx 0 None 0 (s\<lparr>device_state := USB_OTG_EP0_STATUS_OUT\<rparr>);
     Some (USB_OTG_EP0_OutStart s) }"

definition USBD_GetRxCount :: "u8 \<Rightarrow> 'c usb \<Rightarrow> u16 option" where
  "USBD_GetRxCount epnum s = (if unat epnum < length (out_ep s) then Some (ucast (xfer_count (out_ep s ! unat epnum))) else None)"

section \<open>Descriptors\<close>

definition USBD_DeviceDesc :: bytes where
  "USBD_DeviceDesc = [18, 0x01, 0x00, 0x02, 0xE0, 0x00, 0x00, 0x40, 0x44, 0x4E, 0x53, 0x49, 0xFF, 0xFF, 1, 2, 3, 1]"

definition USBD_LangIDDesc :: bytes where
  "USBD_LangIDDesc = [4, 3, 0x09, 0x04]"

definition str_bytes :: "string \<Rightarrow> bytes" where
  "str_bytes = map of_char"

text \<open>\<open>desc\<close> is a string literal without its terminating zero; the counters are 8 bits wide.\<close>

definition USBD_GetLen :: "bytes \<Rightarrow> u8" where
  "USBD_GetLen buf = of_nat (length (takeWhile (\<lambda>c. c \<noteq> 0) buf))"

fun unicode_loop :: "bytes \<Rightarrow> u8 \<Rightarrow> 'c usb \<Rightarrow> 'c usb option" where
  "unicode_loop [] idx s = Some s"
| "unicode_loop (c # desc) idx s = (if c = 0 then Some s else do {
     s \<leftarrow> store_at (Some (R_StrDesc, unat idx)) [c] s;
     s \<leftarrow> store_at (Some (R_StrDesc, unat (idx + 1))) [0] s;
     unicode_loop desc (idx + 2) s })"

definition USBD_GetString :: "bytes \<Rightarrow> 'c usb \<Rightarrow> (u16 \<times> 'c usb) option" where
  "USBD_GetString desc s = do {
     let len = (ucast (USBD_GetLen desc) :: u16) * 2 + 2;
     s \<leftarrow> store_at (Some (R_StrDesc, 0)) [ucast len] s;
     s \<leftarrow> store_at (Some (R_StrDesc, 1)) [3] s;
     s \<leftarrow> unicode_loop desc 2 s;
     Some (len, s) }"

definition string_desc :: "string \<Rightarrow> 'c usb \<Rightarrow> (ptr \<times> u16 \<times> 'c usb) option" where
  "string_desc t s = map_option (\<lambda>(len, s). (Some (R_StrDesc, 0), len, s)) (USBD_GetString (str_bytes t) s)"

definition USBD_USR_DeviceDescriptor :: "u8 \<Rightarrow> 'c usb \<Rightarrow> (ptr \<times> u16 \<times> 'c usb) option" where
  "USBD_USR_DeviceDescriptor sp s = Some (Some (R_DeviceDesc, 0), of_nat (length USBD_DeviceDesc), s)"

definition USBD_USR_LangIDStrDescriptor :: "u8 \<Rightarrow> 'c usb \<Rightarrow> (ptr \<times> u16 \<times> 'c usb) option" where
  "USBD_USR_LangIDStrDescriptor sp s = Some (Some (R_LangIDDesc, 0), of_nat (length USBD_LangIDDesc), s)"

definition USBD_USR_ProductStrDescriptor :: "u8 \<Rightarrow> 'c usb \<Rightarrow> (ptr \<times> u16 \<times> 'c usb) option" where
  "USBD_USR_ProductStrDescriptor sp s = (if sp = 0 then string_desc ''STM32F4 RNDIS'' s else string_desc ''STM32F4 RNDIS'' s)"

definition USBD_USR_ManufacturerStrDescriptor :: "u8 \<Rightarrow> 'c usb \<Rightarrow> (ptr \<times> u16 \<times> 'c usb) option" where
  "USBD_USR_ManufacturerStrDescriptor sp s = string_desc ''Fetisov Sergey'' s"

definition USBD_USR_SerialStrDescriptor :: "u8 \<Rightarrow> 'c usb \<Rightarrow> (ptr \<times> u16 \<times> 'c usb) option" where
  "USBD_USR_SerialStrDescriptor sp s = (if sp = USB_OTG_SPEED_HIGH then string_desc ''00000000123B'' s
     else string_desc ''00000000123C'' s)"

definition USBD_USR_ConfigStrDescriptor :: "u8 \<Rightarrow> 'c usb \<Rightarrow> (ptr \<times> u16 \<times> 'c usb) option" where
  "USBD_USR_ConfigStrDescriptor sp s = (if sp = USB_OTG_SPEED_HIGH then string_desc ''RNDIS Config'' s
     else string_desc ''RNDIS Config'' s)"

definition USBD_USR_InterfaceStrDescriptor :: "u8 \<Rightarrow> 'c usb \<Rightarrow> (ptr \<times> u16 \<times> 'c usb) option" where
  "USBD_USR_InterfaceStrDescriptor sp s = (if sp = 0 then string_desc ''RNDIS Interface'' s
     else string_desc ''RNDIS Interface'' s)"

section \<open>Requests\<close>

record setup_req =
  bmRequest :: u8
  bRequest :: u8
  wValue :: u16
  wIndex :: u16
  wLength :: u16

record 'c class_cb =
  Init :: "u8 \<Rightarrow> 'c usb \<Rightarrow> 'c usb option"
  DeInit :: "u8 \<Rightarrow> 'c usb \<Rightarrow> 'c usb option"
  Setup :: "setup_req \<Rightarrow> 'c usb \<Rightarrow> 'c usb option"
  EP0_TxSent :: "('c usb \<Rightarrow> 'c usb option) option"
  EP0_RxReady :: "('c usb \<Rightarrow> 'c usb option) option"
  DataIn :: "(u8 \<Rightarrow> 'c usb \<Rightarrow> 'c usb option) option"
  DataOut :: "(u8 \<Rightarrow> 'c usb \<Rightarrow> 'c usb option) option"
  SOF :: "('c usb \<Rightarrow> 'c usb option) option"
  IsoINIncomplete :: "'c usb \<Rightarrow> 'c usb option"
  IsoOUTIncomplete :: "'c usb \<Rightarrow> 'c usb option"
  GetConfigDescriptor :: "u8 \<Rightarrow> 'c usb \<Rightarrow> (ptr \<times> u16 \<times> 'c usb) option"

definition SWAPBYTE :: "bytes \<Rightarrow> nat \<Rightarrow> u16" where
  "SWAPBYTE b i = ucast (b ! i) + push_bit 8 (ucast (b ! (i + 1)))"

definition USBD_ParseSetupRequest :: "'c usb \<Rightarrow> (setup_req \<times> 'c usb) option" where
  "USBD_ParseSetupRequest s = do {
     p \<leftarrow> load_at (Some (R_setup_packet, 0)) 8 s;
     e \<leftarrow> get_in 0 s;
     let req = \<lparr>bmRequest = p ! 0, bRequest = p ! 1, wValue = SWAPBYTE p 2, wIndex = SWAPBYTE p 4, wLength = SWAPBYTE p 6\<rparr>;
     let s = put_in 0 (e\<lparr>ctl_data_len := ucast (wLength req)\<rparr>) s;
     Some (req, s\<lparr>device_state := USB_OTG_EP0_SETUP\<rparr>) }"

definition USBD_CtlError :: "'c usb \<Rightarrow> 'c usb option" where
  "USBD_CtlError s = do {
     s \<leftarrow> DCD_EP_Stall 0x80 s;
     s \<leftarrow> DCD_EP_Stall 0 s;
     Some (USB_OTG_EP0_OutStart s) }"

definition USBD_SetCfg :: "'c class_cb \<Rightarrow> u8 \<Rightarrow> 'c usb \<Rightarrow> 'c usb option" where
  "USBD_SetCfg cb cfgidx s = Init cb cfgidx s"

definition USBD_ClrCfg :: "'c class_cb \<Rightarrow> u8 \<Rightarrow> 'c usb \<Rightarrow> 'c usb option" where
  "USBD_ClrCfg cb cfgidx s = DeInit cb cfgidx s"

text \<open>
  The descriptor a request asks for: \<open>Some None\<close> is a request the device refuses. The length of
  the device descriptor is cut to 8 while the device has no address.
\<close>

definition find_descriptor :: "'c class_cb \<Rightarrow> setup_req \<Rightarrow> 'c usb \<Rightarrow> (ptr \<times> u16 \<times> 'c usb) option option" where
  "find_descriptor cb req s = (let kind = drop_bit 8 (wValue req); idx = wValue req AND 0xFF in
     if kind = 1 then map_option (\<lambda>(p, len, s).
       Some (p, if wLength req = 64 \<or> device_status s = USB_OTG_DEFAULT then 8 else len, s)) (USBD_USR_DeviceDescriptor (speed s) s)
     else if kind = 2 then do {
       (p, len, s) \<leftarrow> GetConfigDescriptor cb (speed s) s;
       s \<leftarrow> store_at (ptr_add p 1) [2] s;
       Some (Some (p, len, s\<lparr>pConfig_descriptor := p\<rparr>)) }
     else if kind = 3 then
       (if idx = 0 then map_option Some (USBD_USR_LangIDStrDescriptor (speed s) s)
        else if idx = 1 then map_option Some (USBD_USR_ManufacturerStrDescriptor (speed s) s)
        else if idx = 2 then map_option Some (USBD_USR_ProductStrDescriptor (speed s) s)
        else if idx = 3 then map_option Some (USBD_USR_SerialStrDescriptor (speed s) s)
        else if idx = 4 then map_option Some (USBD_USR_ConfigStrDescriptor (speed s) s)
        else if idx = 5 then map_option Some (USBD_USR_InterfaceStrDescriptor (speed s) s)
        else Some None)
     else Some None)"

definition USBD_GetDescriptor :: "'c class_cb \<Rightarrow> setup_req \<Rightarrow> 'c usb \<Rightarrow> 'c usb option" where
  "USBD_GetDescriptor cb req s = do {
     r \<leftarrow> find_descriptor cb req s;
     case r of None \<Rightarrow> USBD_CtlError s
     | Some (p, len, s) \<Rightarrow>
         if len \<noteq> 0 \<and> wLength req \<noteq> 0 then USBD_CtlSendData p (min len (wLength req)) s else Some s }"

definition USBD_SetAddress :: "setup_req \<Rightarrow> 'c usb \<Rightarrow> 'c usb option" where
  "USBD_SetAddress req s =
     (if wIndex req = 0 \<and> wLength req = 0 then
        (let dev_addr = (ucast (wValue req) :: u8) AND 0x7F in
         if device_status s = USB_OTG_CONFIGURED then USBD_CtlError s
         else do {
           s \<leftarrow> USBD_CtlSendStatus (DCD_EP_SetAddress dev_addr (s\<lparr>device_address := dev_addr\<rparr>));
           Some (s\<lparr>device_status := (if dev_addr \<noteq> 0 then USB_OTG_ADDRESSED else USB_OTG_DEFAULT)\<rparr>) })
      else USBD_CtlError s)"

definition USBD_CFG_MAX_NUM :: u8 where "USBD_CFG_MAX_NUM = 1"
definition USBD_ITF_MAX_NUM :: u8 where "USBD_ITF_MAX_NUM = 1"

definition USBD_SetConfig :: "'c class_cb \<Rightarrow> setup_req \<Rightarrow> 'c usb \<Rightarrow> 'c usb option" where
  "USBD_SetConfig cb req s = (let cfgidx = ucast (wValue req) :: u8 in
     if cfgidx > USBD_CFG_MAX_NUM then USBD_CtlError s
     else if device_status s = USB_OTG_ADDRESSED then
       (if cfgidx \<noteq> 0 then do {
          s \<leftarrow> USBD_SetCfg cb cfgidx (s\<lparr>device_config := cfgidx, device_status := USB_OTG_CONFIGURED\<rparr>);
          USBD_CtlSendStatus s }
        else USBD_CtlSendStatus s)
     else if device_status s = USB_OTG_CONFIGURED then
       (if cfgidx = 0 then do {
          s \<leftarrow> USBD_ClrCfg cb cfgidx (s\<lparr>device_status := USB_OTG_ADDRESSED, device_config := cfgidx\<rparr>);
          USBD_CtlSendStatus s }
        else if cfgidx \<noteq> device_config s then do {
          s \<leftarrow> USBD_ClrCfg cb (device_config s) s;
          s \<leftarrow> USBD_SetCfg cb cfgidx (s\<lparr>device_config := cfgidx\<rparr>);
          USBD_CtlSendStatus s }
        else USBD_CtlSendStatus s)
     else USBD_CtlError s)"

definition USBD_GetConfig :: "setup_req \<Rightarrow> 'c usb \<Rightarrow> 'c usb option" where
  "USBD_GetConfig req s =
     (if wLength req \<noteq> 1 then USBD_CtlError s
      else if device_status s = USB_OTG_ADDRESSED then USBD_CtlSendData (Some (R_default_cfg, 0)) 1 s
      else if device_status s = USB_OTG_CONFIGURED then USBD_CtlSendData (Some (R_device_config, 0)) 1 s
      else USBD_CtlError s)"

definition USBD_GetStatus :: "setup_req \<Rightarrow> 'c usb \<Rightarrow> 'c usb option" where
  "USBD_GetStatus req s =
     (if device_status s = USB_OTG_ADDRESSED \<or> device_status s = USB_OTG_CONFIGURED then do {
        let v = 1 OR (if DevRemoteWakeup s \<noteq> 0 then 2 else 0);
        s \<leftarrow> store_at (Some (R_cfg_status, 0)) (le32 v) s;
        USBD_CtlSendData (Some (R_cfg_status, 0)) 2 s }
      else USBD_CtlError s)"

definition USBD_SetFeature :: "'c class_cb \<Rightarrow> setup_req \<Rightarrow> 'c usb \<Rightarrow> 'c usb option" where
  "USBD_SetFeature cb req s =
     (if wValue req = 1 then do {
        s \<leftarrow> Setup cb req (s\<lparr>DevRemoteWakeup := 1\<rparr>);
        USBD_CtlSendStatus s }
      else if wValue req = 2 \<and> wIndex req AND 0xFF = 0 then
        (let (dctl, s) = rd DCTL s;
             mode = drop_bit 8 (wIndex req);
             dctl = (if mode = 1 then set_fld dctl_tstctl 1 dctl
               else if mode = 2 then set_fld dctl_tstctl 2 dctl
               else if mode = 3 then set_fld dctl_tstctl 3 dctl
               else if mode = 4 then set_fld dctl_tstctl 4 dctl
               else if mode = 5 then set_fld dctl_tstctl 5 dctl
               else dctl)
         in USBD_CtlSendStatus (s\<lparr>SET_TEST_MODE := dctl, test_mode := 1\<rparr>))
      else Some s)"

definition USBD_ClrFeature :: "'c class_cb \<Rightarrow> setup_req \<Rightarrow> 'c usb \<Rightarrow> 'c usb option" where
  "USBD_ClrFeature cb req s =
     (if device_status s = USB_OTG_ADDRESSED \<or> device_status s = USB_OTG_CONFIGURED then
        (if wValue req = 1 then do {
           s \<leftarrow> Setup cb req (s\<lparr>DevRemoteWakeup := 0\<rparr>);
           USBD_CtlSendStatus s }
         else Some s)
      else USBD_CtlError s)"

definition USBD_StdDevReq :: "'c class_cb \<Rightarrow> setup_req \<Rightarrow> 'c usb \<Rightarrow> 'c usb option" where
  "USBD_StdDevReq cb req s = (let r = bRequest req in
     if r = 0x06 then USBD_GetDescriptor cb req s
     else if r = 0x05 then USBD_SetAddress req s
     else if r = 0x09 then USBD_SetConfig cb req s
     else if r = 0x08 then USBD_GetConfig req s
     else if r = 0x00 then USBD_GetStatus req s
     else if r = 0x03 then USBD_SetFeature cb req s
     else if r = 0x01 then USBD_ClrFeature cb req s
     else USBD_CtlError s)"

definition USBD_StdItfReq :: "'c class_cb \<Rightarrow> setup_req \<Rightarrow> 'c usb \<Rightarrow> 'c usb option" where
  "USBD_StdItfReq cb req s =
     (if device_status s = USB_OTG_CONFIGURED then
        (if ucast (wIndex req) \<le> USBD_ITF_MAX_NUM then do {
           s \<leftarrow> Setup cb req s;
           if wLength req = 0 then USBD_CtlSendStatus s else Some s }
         else USBD_CtlError s)
      else USBD_CtlError s)"

text \<open>Stalling from the address state is what the three requests share.\<close>

definition stall_unless_ep0 :: "u8 \<Rightarrow> 'c usb \<Rightarrow> 'c usb option" where
  "stall_unless_ep0 ep_addr s = (if ep_addr \<noteq> 0x00 \<and> ep_addr \<noteq> 0x80 then DCD_EP_Stall ep_addr s else Some s)"

text \<open>An OUT endpoint is indexed with the whole address, which has bit 7 clear.\<close>

definition USBD_StdEPReq :: "'c class_cb \<Rightarrow> setup_req \<Rightarrow> 'c usb \<Rightarrow> 'c usb option" where
  "USBD_StdEPReq cb req s = (let ep_addr = ucast (wIndex req) :: u8; r = bRequest req in
     if r = 0x03 then
       (if device_status s = USB_OTG_ADDRESSED then stall_unless_ep0 ep_addr s
        else if device_status s = USB_OTG_CONFIGURED then do {
          s \<leftarrow> (if wValue req = 0 then stall_unless_ep0 ep_addr s else Some s);
          s \<leftarrow> Setup cb req s;
          USBD_CtlSendStatus s }
        else USBD_CtlError s)
     else if r = 0x01 then
       (if device_status s = USB_OTG_ADDRESSED then stall_unless_ep0 ep_addr s
        else if device_status s = USB_OTG_CONFIGURED then
          (if wValue req = 0 then do {
             s \<leftarrow> (if ep_addr \<noteq> 0x00 \<and> ep_addr \<noteq> 0x80 then do { s \<leftarrow> DCD_EP_ClrStall ep_addr s; Setup cb req s } else Some s);
             USBD_CtlSendStatus s }
           else Some s)
        else USBD_CtlError s)
     else if r = 0x00 then
       (if device_status s = USB_OTG_ADDRESSED then stall_unless_ep0 ep_addr s
        else if device_status s = USB_OTG_CONFIGURED then do {
          e \<leftarrow> get_ep ep_addr s;
          s \<leftarrow> store_at (Some (R_ep_status, 0)) (le32 (if is_stall e \<noteq> 0 then 1 else 0)) s;
          USBD_CtlSendData (Some (R_ep_status, 0)) 2 s }
        else USBD_CtlError s)
     else Some s)"

section \<open>String descriptors\<close>

definition unicode :: "bytes \<Rightarrow> bytes" where
  "unicode desc = concat (map (\<lambda>c. [c, 0]) desc)"

definition string_descriptor :: "bytes \<Rightarrow> bytes" where
  "string_descriptor desc = of_nat (2 * length desc + 2) # 3 # unicode desc"

lemma unicode_length [simp]: "length (unicode desc) = 2 * length desc"
  by (induction desc) (simp_all add: unicode_def)

lemma unicode_Cons [simp]: "unicode (c # desc) = c # 0 # unicode desc" "unicode [] = []"
  by (simp_all add: unicode_def)

definition set_str :: "bytes \<Rightarrow> 'c usb \<Rightarrow> 'c usb" where
  "set_str b s = s\<lparr>mem := (mem s)(R_StrDesc := b)\<rparr>"

lemma store_str:
  "off + length d \<le> length (mem s R_StrDesc) \<Longrightarrow> store_at (Some (R_StrDesc, off)) d s =
     Some (set_str (take off (mem s R_StrDesc) @ d @ drop (off + length d) (mem s R_StrDesc)) s)"
  by (simp add: store_at_Some set_str_def)

lemma unicode_loop_spec:
  assumes "0 \<notin> set desc" "unat idx + 2 * length desc \<le> length (mem s R_StrDesc)" "length (mem s R_StrDesc) \<le> 256"
  shows "unicode_loop desc idx s = Some (set_str (take (unat idx) (mem s R_StrDesc) @ unicode desc
     @ drop (unat idx + 2 * length desc) (mem s R_StrDesc)) s)"
  using assms
proof (induction desc arbitrary: idx s)
  case Nil
  then show ?case by (simp add: set_str_def)
next
  case (Cons c desc)
  define b where "b = mem s R_StrDesc"
  define i where "i = unat idx"
  have i: "i + 2 + 2 * length desc \<le> length b" "length b \<le> 256" "c \<noteq> 0" using Cons.prems by (simp_all add: b_def i_def)
  have u: "unat (idx + 1) = i + 1" using i by (simp add: i_def unat_word_ariths)
  show ?case
  proof (cases "desc = []")
    case True
    have s1: "store_at (Some (R_StrDesc, i)) [c] s = Some (set_str (take i b @ [c] @ drop (i + 1) b) s)"
      unfolding b_def by (subst store_str) (use i in \<open>simp_all add: b_def\<close>)
    have s2: "store_at (Some (R_StrDesc, i + 1)) [0] (set_str (take i b @ [c] @ drop (i + 1) b) s)
       = Some (set_str (take i b @ [c, 0] @ drop (i + 2) b) s)"
      by (subst store_str) (use i in \<open>simp_all add: set_str_def min_def\<close>)
    show ?thesis using i s1 s2 True by (simp add: u i_def [symmetric] b_def)
  next
    case False
    then have l: "1 \<le> length desc" by (cases desc) simp_all
    have u2: "unat (idx + 2) = i + 2" using i l by (simp add: i_def unat_word_ariths)
    have s1: "store_at (Some (R_StrDesc, i)) [c] s = Some (set_str (take i b @ [c] @ drop (i + 1) b) s)"
      unfolding b_def by (subst store_str) (use i in \<open>simp_all add: b_def\<close>)
    define t where "t = set_str (take i b @ [c, 0] @ drop (i + 2) b) s"
    have s2: "store_at (Some (R_StrDesc, i + 1)) [0] (set_str (take i b @ [c] @ drop (i + 1) b) s) = Some t"
      by (subst store_str) (use i in \<open>simp_all add: set_str_def min_def t_def\<close>)
    have "unicode_loop desc (idx + 2) t = Some (set_str (take (i + 2) (mem t R_StrDesc) @ unicode desc
       @ drop (i + 2 + 2 * length desc) (mem t R_StrDesc)) t)"
      using Cons.IH [of "idx + 2" t] Cons.prems(1) i u2 by (simp add: t_def set_str_def)
    then show ?thesis using i s1 s2
      by (simp add: u i_def [symmetric] b_def [symmetric]) (simp add: t_def set_str_def min_def add.commute)
  qed
qed

lemma ucast_of_nat_8: "ucast (of_nat n :: u16) = (of_nat n :: u8)"
  by (rule bit_word_eqI) (simp add: bit_simps)

lemma GetString_spec:
  assumes "0 \<notin> set desc" "length desc \<le> 31" "length (mem s R_StrDesc) = 64"
  shows "USBD_GetString desc s = Some (of_nat (2 * length desc + 2),
     set_str (string_descriptor desc @ drop (2 * length desc + 2) (mem s R_StrDesc)) s)"
proof -
  define b where "b = mem s R_StrDesc"
  have tw: "takeWhile (\<lambda>c. c \<noteq> 0) desc = desc" using assms(1) by (auto simp: takeWhile_eq_all_conv)
  have "(ucast (of_nat (length desc) :: u8) :: u16) = of_nat (length desc)"
    by (rule word_unat_eq_iff [THEN iffD2]) (use assms(2) in \<open>simp add: unsigned_ucast_eq unsigned_of_nat take_bit_nat_eq_self\<close>)
  then have len: "(ucast (USBD_GetLen desc) :: u16) * 2 + 2 = of_nat (2 * length desc + 2)"
    by (simp add: USBD_GetLen_def tw)
  have l8: "ucast (of_nat (2 * length desc + 2) :: u16) = (of_nat (2 * length desc + 2) :: u8)"
    by (rule ucast_of_nat_8)
  define l :: u8 where "l = of_nat (2 * length desc + 2)"
  have s1: "store_at (Some (R_StrDesc, 0)) [l] s = Some (set_str (l # drop 1 b) s)"
    by (subst store_str) (simp_all add: assms(3) b_def)
  define c where "c = l # 3 # drop 2 b"
  have c: "length c = 64" "take 2 c = [l, 3]" using assms(3) by (simp_all add: c_def b_def)
  have dc: "drop (2 + k) c = drop (k + 2) b" for k by (simp add: c_def add.commute)
  have s2: "store_at (Some (R_StrDesc, 1)) [3] (set_str (l # drop 1 b) s) = Some (set_str c s)"
    by (subst store_str) (simp_all add: set_str_def b_def assms(3) c_def numeral_2_eq_2)
  have "unicode_loop desc 2 (set_str c s) = Some (set_str (take 2 c @ unicode desc @ drop (2 + 2 * length desc) c) (set_str c s))"
    using unicode_loop_spec [of desc 2 "set_str c s"] assms c(1) by (simp add: set_str_def)
  then have "unicode_loop desc 2 (set_str c s) = Some (set_str (string_descriptor desc @ drop (2 * length desc + 2) b) s)"
    unfolding dc c(2) by (simp add: set_str_def string_descriptor_def l_def)
  then show ?thesis using s1 s2 unfolding USBD_GetString_def len Let_def l8 l_def [symmetric] b_def [symmetric] by simp
qed

section \<open>Properties\<close>

text \<open>
  String descriptors. For a text of at most 31 characters the descriptor is its length, the
  type 3 and the text in UTF-16; the loop stays inside the 64 bytes of \<open>USBD_StrDesc\<close>, its 8-bit
  index does not wrap, and nothing else in memory changes.
\<close>

theorem usb_string_descriptor:
  assumes "0 \<notin> set desc" "length desc \<le> 31" "length (mem s R_StrDesc) = 64"
  shows "\<exists>s'. USBD_GetString desc s = Some (of_nat (2 * length desc + 2), s')
     \<and> take (2 * length desc + 2) (mem s' R_StrDesc) = [of_nat (2 * length desc + 2), 3] @ concat (map (\<lambda>c. [c, 0]) desc)
     \<and> length (mem s' R_StrDesc) = 64 \<and> (\<forall>r. r \<noteq> R_StrDesc \<longrightarrow> mem s' r = mem s r)"
proof -
  have u: "length (unicode desc) = 2 * length desc" by (induction desc) (simp_all add: unicode_def)
  show ?thesis using GetString_spec [OF assms] assms(2,3)
    by (auto simp: set_str_def string_descriptor_def u) (simp add: unicode_def)
qed

definition blank_usb :: "unit usb" where
  "blank_usb = \<lparr>regs = \<lambda>_. 0, hw = \<lambda>k r v. v, reads = 0, writes = [], mem = \<lambda>r. replicate (region_size r) 0, speed = 1, mps = 64,
     host_channels = 8, dev_endpoints = 4, TotalFifoSize = 320, phy_itface = 2, device_config = 0, device_state = 0, device_status = 1,
     device_old_status = 0, device_address = 0, connection_status = 1, test_mode = 0, DevRemoteWakeup = 0, SET_TEST_MODE = 0, in_ep = [],
     out_ep = [], pConfig_descriptor = None, cls = ()\<rparr>"

theorem usb_string_descriptor_witness:
  "\<exists>s'. USBD_GetString (str_bytes ''RNDIS'') blank_usb = Some (12, s')
     \<and> take 12 (mem s' R_StrDesc) = [12, 3, 82, 0, 78, 0, 68, 0, 73, 0, 83, 0]"
proof -
  have "0 \<notin> set (str_bytes ''RNDIS'')" "length (str_bytes ''RNDIS'') \<le> 31" "length (mem blank_usb R_StrDesc) = 64"
    by (simp_all add: str_bytes_def blank_usb_def region_size_def)
  from usb_string_descriptor [OF this] show ?thesis by (auto simp: str_bytes_def)
qed

end
