(* ===== verification/Usbd_Core.thy ===== *)
theory Usbd_Core
  imports Usbd_Req
begin

text \<open>
  The device core, \<open>src/usb-core/dev-driver/usbd_core.c\<close>: what the interrupt handler calls for
  each event on the bus. The board support functions that \<open>USBD_Init\<close> calls (clocks, pins,
  interrupt controller) and the user callbacks do not touch the state modelled here.
\<close>

unbundle bit_operations_syntax

definition USBD_DeInit :: "'c usb \<Rightarrow> 'c usb" where
  "USBD_DeInit s = s"

definition USBD_Init :: "'c usb \<Rightarrow> 'c usb option" where
  "USBD_Init s = DCD_Init (USBD_DeInit s)"

definition USBD_SetupStage :: "'c class_cb \<Rightarrow> 'c usb \<Rightarrow> 'c usb option" where
  "USBD_SetupStage cb s = do {
     (req, s) \<leftarrow> USBD_ParseSetupRequest s;
     let r = bmRequest req AND 0x1F;
     if r = 0x00 then USBD_StdDevReq cb req s
     else if r = 0x01 then USBD_StdItfReq cb req s
     else if r = 0x02 then USBD_StdEPReq cb req s
     else DCD_EP_Stall (bmRequest req AND 0x80) s }"

definition USBD_DataOutStage :: "'c class_cb \<Rightarrow> u8 \<Rightarrow> 'c usb \<Rightarrow> 'c usb option" where
  "USBD_DataOutStage cb epnum s =
     (if epnum = 0 then do {
        e \<leftarrow> get_out 0 s;
        if device_state s = USB_OTG_EP0_DATA_OUT then
          (if rem_data_len e > maxpacket e
           then (let e = e\<lparr>rem_data_len := rem_data_len e - maxpacket e\<rparr> in
             USBD_CtlContinueRx (xfer_buff e) (ucast (min (rem_data_len e) (maxpacket e))) (put_out 0 e s))
           else do {
             s \<leftarrow> (case EP0_RxReady cb of None \<Rightarrow> Some s
                  | Some f \<Rightarrow> if device_status s = USB_OTG_CONFIGURED then f s else Some s);
             USBD_CtlSendStatus s })
        else Some s }
      else (case DataOut cb of None \<Rightarrow> Some s
            | Some f \<Rightarrow> if device_status s = USB_OTG_CONFIGURED then f epnum s else Some s))"

definition USBD_RunTestMode :: "'c usb \<Rightarrow> 'c usb" where
  "USBD_RunTestMode s = wr DCTL (SET_TEST_MODE s) s"

text \<open>The remainder by \<open>maxpacket\<close> would fault on zero. \<open>ctl_data_len\<close> is cleared after the empty packet is started.\<close>

definition data_in_ep0 :: "'c class_cb \<Rightarrow> 'c usb \<Rightarrow> 'c usb option" where
  "data_in_ep0 cb s = do {
     e \<leftarrow> get_in 0 s;
     if device_state s = USB_OTG_EP0_DATA_IN then
       (if rem_data_len e > maxpacket e
        then (let e = e\<lparr>rem_data_len := rem_data_len e - maxpacket e\<rparr> in
          USBD_CtlContinueSendData (xfer_buff e) (ucast (rem_data_len e)) (put_in 0 e s))
        else if maxpacket e = 0 then None
        else if total_data_len e mod maxpacket e = 0 \<and> total_data_len e \<ge> maxpacket e \<and> total_data_len e < ctl_data_len e
        then do {
          s \<leftarrow> USBD_CtlContinueSendData None 0 s;
          e \<leftarrow> get_in 0 s;
          Some (put_in 0 (e\<lparr>ctl_data_len := 0\<rparr>) s) }
        else do {
          s \<leftarrow> (case EP0_TxSent cb of None \<Rightarrow> Some s
               | Some f \<Rightarrow> if device_status s = USB_OTG_CONFIGURED then f s else Some s);
          USBD_CtlReceiveStatus s })
     else Some s }"

definition USBD_DataInStage :: "'c class_cb \<Rightarrow> u8 \<Rightarrow> 'c usb \<Rightarrow> 'c usb option" where
  "USBD_DataInStage cb epnum s =
     (if epnum = 0 then do {
        s \<leftarrow> data_in_ep0 cb s;
        Some (if test_mode s = 1 then (USBD_RunTestMode s)\<lparr>test_mode := 0\<rparr> else s) }
      else (case DataIn cb of None \<Rightarrow> Some s
            | Some f \<Rightarrow> if device_status s = USB_OTG_CONFIGURED then f epnum s else Some s))"

definition USBD_Reset :: "'c usb \<Rightarrow> 'c usb option" where
  "USBD_Reset s = do {
     s \<leftarrow> DCD_EP_Open 0x00 (ucast USB_OTG_MAX_EP0_SIZE) EP_TYPE_CTRL s;
     s \<leftarrow> DCD_EP_Open 0x80 (ucast USB_OTG_MAX_EP0_SIZE) EP_TYPE_CTRL s;
     Some (s\<lparr>device_status := USB_OTG_DEFAULT\<rparr>) }"

definition USBD_Resume :: "'c usb \<Rightarrow> 'c usb" where
  "USBD_Resume s = (let s = s\<lparr>device_status := device_old_status s\<rparr> in s\<lparr>device_status := USB_OTG_CONFIGURED\<rparr>)"

definition USBD_Suspend :: "'c usb \<Rightarrow> 'c usb" where
  "USBD_Suspend s = s\<lparr>device_old_status := device_status s, device_status := USB_OTG_SUSPENDED\<rparr>"

definition USBD_SOF :: "'c class_cb \<Rightarrow> 'c usb \<Rightarrow> 'c usb option" where
  "USBD_SOF cb s = (case SOF cb of None \<Rightarrow> Some s | Some f \<Rightarrow> f s)"

definition USBD_IsoINIncomplete :: "'c class_cb \<Rightarrow> 'c usb \<Rightarrow> 'c usb option" where
  "USBD_IsoINIncomplete cb s = IsoINIncomplete cb s"

definition USBD_IsoOUTIncomplete :: "'c class_cb \<Rightarrow> 'c usb \<Rightarrow> 'c usb option" where
  "USBD_IsoOUTIncomplete cb s = IsoOUTIncomplete cb s"

definition USBD_DevConnected :: "'c usb \<Rightarrow> 'c usb" where
  "USBD_DevConnected s = s\<lparr>connection_status := 1\<rparr>"

definition USBD_DevDisconnected :: "'c class_cb \<Rightarrow> 'c usb \<Rightarrow> 'c usb option" where
  "USBD_DevDisconnected cb s = do {
     s \<leftarrow> DeInit cb 0 s;
     Some (s\<lparr>connection_status := 0\<rparr>) }"

section \<open>An example\<close>

text \<open>
  A device as \<open>DCD_Init\<close> leaves it, with data endpoints of 64 bytes: its registers keep what is
  written to them, and there is room in the FIFO of endpoint 0.
\<close>

definition idle_ep :: ep where
  "idle_ep = \<lparr>ep_num = 0, is_in = 0, is_stall = 0, ep_type = EP_TYPE_BULK, data_pid_start = 0, even_odd_frame = 0, tx_fifo_num = 0,
     maxpacket = 64, xfer_buff = None, xfer_len = 0, xfer_count = 0, rem_data_len = 0, total_data_len = 0, ctl_data_len = 0\<rparr>"

definition idle_usb :: "'c \<Rightarrow> 'c usb" where
  "idle_usb c = \<lparr>regs = \<lambda>_. 0, hw = \<lambda>k r v. if r = DTXFSTS 0 then 64 else v, reads = 0, writes = [],
     mem = \<lambda>r. replicate (region_size r) 0, speed = 1, mps = 64, host_channels = 8, dev_endpoints = 4, TotalFifoSize = 320,
     phy_itface = 2, device_config = 0, device_state = 0, device_status = USB_OTG_DEFAULT, device_old_status = 0, device_address = 0,
     connection_status = 1, test_mode = 0, DevRemoteWakeup = 0, SET_TEST_MODE = 0, in_ep = replicate 15 idle_ep,
     out_ep = replicate 15 idle_ep, pConfig_descriptor = None, cls = c\<rparr>"

lemma idle_usb_ok [simp]: "usb_ok (idle_usb c)"
  by (simp add: usb_ok_def idle_usb_def ep_ready_def idle_ep_def EP_TYPE_BULK_def EP_TYPE_ISOC_def)

lemma idle_usb_sels [simp]:
  "mem (idle_usb c) r = replicate (region_size r) 0" "cls (idle_usb c) = c" "device_status (idle_usb c) = USB_OTG_DEFAULT"
  "device_config (idle_usb c) = 0" "device_address (idle_usb c) = 0" "test_mode (idle_usb c) = 0" "host_channels (idle_usb c) = 8"
  "dev_endpoints (idle_usb c) = 4" "i < 15 \<Longrightarrow> in_ep (idle_usb c) ! i = idle_ep" "i < 15 \<Longrightarrow> out_ep (idle_usb c) ! i = idle_ep"
  "length (in_ep (idle_usb c)) = 15" "length (out_ep (idle_usb c)) = 15"
  by (simp_all add: idle_usb_def)

end
