(* ===== verification/Dcd_Int.thy ===== *)
theory Dcd_Int
  imports Usbd_Core
begin

text \<open>
  The interrupt handler of the device, \<open>src/usb-core/otg-driver/usb_dcd_int.c\<close>: it reads what
  happened from the controller, moves packets between FIFOs and buffers, and calls the stages of
  \<open>Usbd_Core\<close>, which the code reaches through the table \<open>USBD_DCD_INT_fops\<close>. Return values are
  left out: the one caller, the interrupt vector, ignores them.
\<close>

unbundle bit_operations_syntax

section \<open>FIFOs\<close>

definition tx_chunk :: "ep \<Rightarrow> u32" where
  "tx_chunk e = min (xfer_len e - xfer_count e) (maxpacket e)"

definition words_of :: "u32 \<Rightarrow> u32" where
  "words_of len = (len + 3) div 4"

text \<open>The loop of \<open>DCD_WriteEmptyTxFifo\<close>; \<open>len32b\<close> is the size of the packet last considered.\<close>

partial_function (option) empty_fifo_loop :: "u32 \<Rightarrow> u32 \<Rightarrow> u32 \<Rightarrow> 'c usb \<Rightarrow> 'c usb option" where
  "empty_fifo_loop epnum txstatus len32b s = do {
     e \<leftarrow> get_in (ucast epnum) s;
     if get_fld dtxfsts_txfspcavail txstatus > len32b \<and> xfer_count e < xfer_len e \<and> xfer_len e \<noteq> 0 then do {
       let len = tx_chunk e;
       s \<leftarrow> USB_OTG_WritePacket (xfer_buff e) (ucast epnum) (ucast len) s;
       let s = put_in (ucast epnum) (e\<lparr>xfer_buff := ptr_add (xfer_buff e) (unat len), xfer_count := xfer_count e + len\<rparr>) s;
       let (txstatus, s) = rd (DTXFSTS (unat epnum)) s;
       empty_fifo_loop epnum txstatus (words_of len) s }
     else Some s }"

definition DCD_WriteEmptyTxFifo :: "u32 \<Rightarrow> 'c usb \<Rightarrow> 'c usb option" where
  "DCD_WriteEmptyTxFifo epnum s = do {
     e \<leftarrow> get_in (ucast epnum) s;
     if \<not> has_ep (ucast epnum) s then None
     else (let (txstatus, s) = rd (DTXFSTS (unat epnum)) s in
       empty_fifo_loop epnum txstatus (words_of (tx_chunk e)) s) }"

definition STS_DATA_UPDT :: u32 where "STS_DATA_UPDT = 2"
definition STS_SETUP_UPDT :: u32 where "STS_SETUP_UPDT = 6"

definition rx_status :: "u32 \<Rightarrow> 'c usb \<Rightarrow> 'c usb option" where
  "rx_status status s = (let n = ucast (get_fld drxsts_epnum status) :: u8; bcnt = get_fld drxsts_bcnt status in
     if get_fld drxsts_pktsts status = STS_DATA_UPDT then
       (if bcnt \<noteq> 0 then do {
          e \<leftarrow> get_out n s;
          s \<leftarrow> USB_OTG_ReadPacket (xfer_buff e) (ucast bcnt) s;
          Some (put_out n (e\<lparr>xfer_buff := ptr_add (xfer_buff e) (unat bcnt), xfer_count := xfer_count e + bcnt\<rparr>) s) }
        else Some s)
     else if get_fld drxsts_pktsts status = STS_SETUP_UPDT then do {
       s \<leftarrow> USB_OTG_ReadPacket (Some (R_setup_packet, 0)) 8 s;
       e \<leftarrow> get_out n s;
       Some (put_out n (e\<lparr>xfer_count := xfer_count e + bcnt\<rparr>) s) }
     else Some s)"

definition DCD_HandleRxStatusQueueLevel_ISR :: "'c usb \<Rightarrow> 'c usb option" where
  "DCD_HandleRxStatusQueueLevel_ISR s = (let
     m = set_fld gint_rxstsqlvl 1 0;
     s = modify_reg GINTMSK m 0 s;
     (status, s) = rd GRXSTSP s in
     map_option (modify_reg GINTMSK 0 m) (rx_status status s))"

section \<open>Endpoint events\<close>

definition DCD_ReadDevInEP :: "u8 \<Rightarrow> 'c usb \<Rightarrow> (u32 \<times> 'c usb) option" where
  "DCD_ReadDevInEP epnum s = (let
     (msk, s) = rd DIEPMSK s;
     (emp, s) = rd DIEPEMPMSK s;
     msk = msk OR push_bit 7 (drop_bit (unat epnum) emp AND 1) in
     if has_ep epnum s then (let (v, s) = rd (DIEPINT (unat epnum)) s in Some (v AND msk, s)) else None)"

text \<open>
  The macros that acknowledge an event overwrite the variable holding the events with the one
  acknowledged: the result is the variable and the state.
\<close>

definition CLEAR_IN_EP_INTR :: "u32 \<Rightarrow> field \<Rightarrow> 'c usb \<Rightarrow> u32 \<times> 'c usb" where
  "CLEAR_IN_EP_INTR epnum intr s = (let v = set_fld intr 1 0 in (v, wr (DIEPINT (unat epnum)) v s))"

definition CLEAR_OUT_EP_INTR :: "u32 \<Rightarrow> field \<Rightarrow> 'c usb \<Rightarrow> u32 \<times> 'c usb" where
  "CLEAR_OUT_EP_INTR epnum intr s = (let v = set_fld intr 1 0 in (v, wr (DOEPINT (unat epnum)) v s))"

definition ack_in :: "u32 \<Rightarrow> field \<Rightarrow> u32 \<times> 'c usb \<Rightarrow> u32 \<times> 'c usb" where
  "ack_in epnum f vs = (if get_fld f (fst vs) \<noteq> 0 then CLEAR_IN_EP_INTR epnum f (snd vs) else vs)"

definition in_ep_isr :: "'c class_cb \<Rightarrow> u32 \<Rightarrow> 'c usb \<Rightarrow> 'c usb option" where
  "in_ep_isr cb epnum s = do {
     (v, s) \<leftarrow> DCD_ReadDevInEP (ucast epnum) s;
     (v, s) \<leftarrow> (if get_fld epint_xfercompl v \<noteq> 0 then do {
         let s = modify_reg DIEPEMPMSK (push_bit (unat epnum) 1) 0 s;
         let (v, s) = CLEAR_IN_EP_INTR epnum epint_xfercompl s;
         s \<leftarrow> USBD_DataInStage cb (ucast epnum) s;
         Some (v, s) }
       else Some (v, s));
     let (v, s) = ack_in epnum epint_epdisabled (ack_in epnum epint_inepnakeff (ack_in epnum epint_intktxfemp
                   (ack_in epnum epint_timeout (v, s))));
     if get_fld epint_emptyintr v \<noteq> 0 then do {
       s \<leftarrow> DCD_WriteEmptyTxFifo epnum s;
       Some (snd (CLEAR_IN_EP_INTR epnum epint_emptyintr s)) }
     else Some s }"

definition out_ep_isr :: "'c class_cb \<Rightarrow> u32 \<Rightarrow> 'c usb \<Rightarrow> 'c usb option" where
  "out_ep_isr cb epnum s = do {
     (v, s) \<leftarrow> USB_OTG_ReadDevOutEP_itr (ucast epnum) s;
     (v, s) \<leftarrow> (if get_fld epint_xfercompl v \<noteq> 0 then do {
         let (v, s) = CLEAR_OUT_EP_INTR epnum epint_xfercompl s;
         s \<leftarrow> USBD_DataOutStage cb (ucast epnum) s;
         Some (v, s) }
       else Some (v, s));
     let (v, s) = (if get_fld epint_epdisabled v \<noteq> 0 then CLEAR_OUT_EP_INTR epnum epint_epdisabled s else (v, s));
     if get_fld epint_setup v \<noteq> 0 then do {
       s \<leftarrow> USBD_SetupStage cb s;
       Some (snd (CLEAR_OUT_EP_INTR epnum epint_setup s)) }
     else Some s }"

lemma drop_bit_shrinks: "w \<noteq> 0 \<Longrightarrow> unat (drop_bit (Suc 0) (w :: u32)) < unat w"
proof -
  assume "w \<noteq> 0"
  then have "unat w \<noteq> 0" by (simp add: unat_eq_0)
  then have "unat w div 2 < unat w" by simp
  then show ?thesis using unat_div [of w 2] by (simp add: drop_bit_eq_div)
qed

function each_ep :: "(u32 \<Rightarrow> 'c usb \<Rightarrow> 'c usb option) \<Rightarrow> u32 \<Rightarrow> u32 \<Rightarrow> 'c usb \<Rightarrow> 'c usb option" where
  "each_ep isr ep_intr epnum s = (if ep_intr = 0 then Some s else do {
     s \<leftarrow> (if ep_intr AND 1 \<noteq> 0 then isr epnum s else Some s);
     each_ep isr (drop_bit 1 ep_intr) (epnum + 1) s })"
  by pat_completeness auto
termination by (relation "measure (\<lambda>(isr, w, n, s). unat w)") (auto simp: drop_bit_shrinks)

declare each_ep.simps [simp del]

definition DCD_HandleInEP_ISR :: "'c class_cb \<Rightarrow> 'c usb \<Rightarrow> 'c usb option" where
  "DCD_HandleInEP_ISR cb s = (let (w, s) = USB_OTG_ReadDevAllInEPItr s in each_ep (in_ep_isr cb) w 0 s)"

definition DCD_HandleOutEP_ISR :: "'c class_cb \<Rightarrow> 'c usb \<Rightarrow> 'c usb option" where
  "DCD_HandleOutEP_ISR cb s = (let (w, s) = USB_OTG_ReadDevAllOutEp_itr s in each_ep (out_ep_isr cb) w 0 s)"

section \<open>Bus events\<close>

definition DCD_SessionRequest_ISR :: "'c usb \<Rightarrow> 'c usb" where
  "DCD_SessionRequest_ISR s = wr GINTSTS (set_fld gint_sessreqintr 1 0) (USBD_DevConnected s)"

definition DCD_OTG_ISR :: "'c class_cb \<Rightarrow> 'c usb \<Rightarrow> 'c usb option" where
  "DCD_OTG_ISR cb s = (let (v, s) = rd GOTGINT s in do {
     s \<leftarrow> (if get_fld gotgint_sesenddet v \<noteq> 0 then USBD_DevDisconnected cb s else Some s);
     Some (wr GOTGINT v s) })"

definition DCD_HandleResume_ISR :: "'c usb \<Rightarrow> 'c usb" where
  "DCD_HandleResume_ISR s = wr GINTSTS (set_fld gint_wkupintr 1 0) (USBD_Resume (modify_reg DCTL (set_fld dctl_rmtwkupsig 1 0) 0 s))"

definition DCD_HandleUSBSuspend_ISR :: "'c usb \<Rightarrow> 'c usb" where
  "DCD_HandleUSBSuspend_ISR s = (let (dsts, s) = rd DSTS (USBD_Suspend s) in wr GINTSTS (set_fld gint_usbsuspend 1 0) s)"

definition DCD_HandleSof_ISR :: "'c class_cb \<Rightarrow> 'c usb \<Rightarrow> 'c usb option" where
  "DCD_HandleSof_ISR cb s = map_option (wr GINTSTS (set_fld gint_sofintr 1 0)) (USBD_SOF cb s)"

definition DCD_HandleUsbReset_ISR :: "'c usb \<Rightarrow> 'c usb option" where
  "DCD_HandleUsbReset_ISR s = (let
     s = modify_reg DCTL (set_fld dctl_rmtwkupsig 1 0) 0 s;
     s = USB_OTG_FlushTxFifo 0 s;
     s = fold (\<lambda>i s. wr (DOEPINT i) 0xFF (wr (DIEPINT i) 0xFF s)) [0..<unat (dev_endpoints s)] s;
     s = wr DAINT 0xFFFFFFFF s;
     s = wr DAINTMSK (set_fld daint_out 1 (set_fld daint_in 1 0)) s;
     s = wr DOEPMSK (set_fld epint_epdisabled 1 (set_fld epint_xfercompl 1 (set_fld epint_setup 1 0))) s;
     s = wr DIEPMSK (set_fld epint_epdisabled 1 (set_fld epint_timeout 1 (set_fld epint_xfercompl 1 0))) s;
     (dcfg, s) = rd DCFG s;
     s = wr DCFG (set_fld dcfg_devaddr 0 dcfg) s;
     s = USB_OTG_EP0_OutStart s;
     s = wr GINTSTS (set_fld gint_usbreset 1 0) s
     in USBD_Reset s)"

definition DCD_HandleEnumDone_ISR :: "'c usb \<Rightarrow> 'c usb" where
  "DCD_HandleEnumDone_ISR s = (let
     s = USB_OTG_EP0Activate s;
     (gusbcfg, s) = rd GUSBCFG s;
     (sp, s) = USB_OTG_GetDeviceSpeed s;
     (gusbcfg, s) = (if sp = USB_SPEED_HIGH
       then (set_fld gusbcfg_usbtrdtim 9 gusbcfg, s\<lparr>speed := USB_OTG_SPEED_HIGH, mps := 512\<rparr>)
       else (set_fld gusbcfg_usbtrdtim 5 gusbcfg, s\<lparr>speed := USB_OTG_SPEED_FULL, mps := 64\<rparr>));
     s = wr GUSBCFG gusbcfg s
     in wr GINTSTS (set_fld gint_enumdone 1 0) s)"

definition DCD_IsoINIncomplete_ISR :: "'c class_cb \<Rightarrow> 'c usb \<Rightarrow> 'c usb option" where
  "DCD_IsoINIncomplete_ISR cb s = map_option (wr GINTSTS (set_fld gint_incomplisoin 1 0)) (USBD_IsoINIncomplete cb s)"

definition DCD_IsoOUTIncomplete_ISR :: "'c class_cb \<Rightarrow> 'c usb \<Rightarrow> 'c usb option" where
  "DCD_IsoOUTIncomplete_ISR cb s = map_option (wr GINTSTS (set_fld gint_incomplisoout 1 0)) (USBD_IsoOUTIncomplete cb s)"

section \<open>The handler\<close>

definition on_flag :: "u32 \<Rightarrow> field \<Rightarrow> ('c usb \<Rightarrow> 'c usb option) \<Rightarrow> 'c usb \<Rightarrow> 'c usb option" where
  "on_flag v f h s = (if get_fld f v \<noteq> 0 then h s else Some s)"

definition USBD_OTG_ISR_Handler :: "'c class_cb \<Rightarrow> 'c usb \<Rightarrow> 'c usb option" where
  "USBD_OTG_ISR_Handler cb s = (let (dev, s) = USB_OTG_IsDeviceMode s in
     if \<not> dev then Some s else
     (let (v, s) = USB_OTG_ReadCoreItr s in
      if v = 0 then Some s else do {
        s \<leftarrow> on_flag v gint_outepintr (DCD_HandleOutEP_ISR cb) s;
        s \<leftarrow> on_flag v gint_inepintr (DCD_HandleInEP_ISR cb) s;
        s \<leftarrow> on_flag v gint_modemismatch (\<lambda>s. Some (wr GINTSTS (set_fld gint_modemismatch 1 0) s)) s;
        s \<leftarrow> on_flag v gint_wkupintr (\<lambda>s. Some (DCD_HandleResume_ISR s)) s;
        s \<leftarrow> on_flag v gint_usbsuspend (\<lambda>s. Some (DCD_HandleUSBSuspend_ISR s)) s;
        s \<leftarrow> on_flag v gint_sofintr (DCD_HandleSof_ISR cb) s;
        s \<leftarrow> on_flag v gint_rxstsqlvl DCD_HandleRxStatusQueueLevel_ISR s;
        s \<leftarrow> on_flag v gint_usbreset DCD_HandleUsbReset_ISR s;
        s \<leftarrow> on_flag v gint_enumdone (\<lambda>s. Some (DCD_HandleEnumDone_ISR s)) s;
        s \<leftarrow> on_flag v gint_incomplisoin (DCD_IsoINIncomplete_ISR cb) s;
        s \<leftarrow> on_flag v gint_incomplisoout (DCD_IsoOUTIncomplete_ISR cb) s;
        s \<leftarrow> on_flag v gint_sessreqintr (\<lambda>s. Some (DCD_SessionRequest_ISR s)) s;
        on_flag v gint_otgintr (DCD_OTG_ISR cb) s }))"

end
