(* ===== verification/Usb_Control.thy ===== *)
theory Usb_Control
  imports Dcd_Int
begin

text \<open>The data stage of a control transfer to the host, followed across interrupts: from
  \<open>USBD_CtlSendData\<close> (usbd_ioreq.c) through \<open>DCD_EP_Tx\<close> and the transmit interrupts of endpoint 0
  (\<open>USBD_DataInStage\<close> of usbd_core.c) to the status stage.\<close>

unbundle bit_operations_syntax

section \<open>A control transfer to the host, as a whole\<close>

text \<open>The bytes written to the FIFO of endpoint \<open>f\<close>, and the packet they make up.\<close>

definition fifo_bytes :: "nat \<Rightarrow> (reg \<times> u32) list \<Rightarrow> bytes" where
  "fifo_bytes f ws = concat (map (\<lambda>w. if fst w = DFIFO f then le32 (snd w) else []) ws)"

lemma fifo_bytes_simps [simp]:
  "fifo_bytes f [] = []" "fifo_bytes f (ws @ vs) = fifo_bytes f ws @ fifo_bytes f vs"
  "fifo_bytes f [(r, v)] = (if r = DFIFO f then le32 v else [])"
  by (simp_all add: fifo_bytes_def)

text \<open>
  One packet of endpoint 0: the controller asks for data when the transfer is not empty, sends
  the packet, and reports that it is done. The run ends when the data stage is over.
\<close>

definition ep0_packet :: "'c class_cb \<Rightarrow> 'c usb \<Rightarrow> (bytes \<times> 'c usb) option" where
  "ep0_packet cb s = do {
     let n = xfer_len (in_ep s ! 0);
     t \<leftarrow> (if n \<noteq> 0 then DCD_WriteEmptyTxFifo 0 s else Some s);
     let d = take (unat n) (fifo_bytes 0 (drop (length (writes s)) (writes t)));
     u \<leftarrow> USBD_DataInStage cb 0 t;
     Some (d, u) }"

fun ep0_stage :: "'c class_cb \<Rightarrow> nat \<Rightarrow> 'c usb \<Rightarrow> (bytes list \<times> 'c usb) option" where
  "ep0_stage cb 0 s = None"
| "ep0_stage cb (Suc k) s = do {
     (d, s) \<leftarrow> ep0_packet cb s;
     if device_state s \<noteq> USB_OTG_EP0_DATA_IN then Some ([d], s)
     else do { (ds, s) \<leftarrow> ep0_stage cb k s; Some (d # ds, s) } }"

text \<open>Room in the FIFO of endpoint 0 for a packet whenever the driver looks.\<close>

definition fifo_free :: "'c usb \<Rightarrow> bool" where
  "fifo_free s \<longleftrightarrow> (\<forall>k v. get_fld dtxfsts_txfspcavail (hw s k (DTXFSTS 0) v) > 16)"

lemma ptr_add_0 [simp]: "ptr_add p 0 = p"
  by (cases p) (auto simp: ptr_add_def)

lemma ptr_add_add: "ptr_add (ptr_add p a) b = ptr_add p (a + b)"
  by (cases p) (auto simp: ptr_add_def add.assoc)

lemma load_at_wr [simp]: "load_at p n (wr r v s) = load_at p n s"
  by (rule load_cong) (simp_all add: wr_def)

lemma write_words_spec:
  assumes "load_at p (4 * k) s = Some d"
  shows "\<exists>s'. write_words k p f s = Some s' \<and> io s s' \<and> (\<exists>ws. writes s' = writes s @ ws \<and> fifo_bytes f ws = d)"
  using assms
proof (induction k arbitrary: p s d)
  case 0
  then have "d = []" using load_at_length [OF 0] by simp
  then show ?case by (intro exI [of _ s]) (auto intro: exI [of _ "[]"])
next
  case (Suc k)
  define x where "x = take 4 d"
  have ld: "length d = 4 * k + 4" using load_at_length [OF Suc.prems] by simp
  have x: "load_at p 4 s = Some x" using load_at_part [OF Suc.prems, of 0 4] by (simp add: x_def)
  define t where "t = wr (DFIFO f) (of_le32 x) s"
  have "load_at (ptr_add p 4) (4 * k) t = Some (drop 4 d)"
    using load_at_part [OF Suc.prems, of 4 "4 * k"] ld by (simp add: t_def)
  from Suc.IH [OF this] obtain s' ws where s': "write_words k (ptr_add p 4) f t = Some s'" "io t s'" "writes s' = writes t @ ws"
    "fifo_bytes f ws = drop 4 d" by blast
  have "io s t" by (simp add: t_def)
  then have "io s s'" using s'(2) by (rule io_trans)
  moreover have "writes s' = writes s @ (DFIFO f, of_le32 x) # ws" using s'(3) by (simp add: t_def wr_def)
  moreover have "length x = 4" using ld by (simp add: x_def)
  then have "le32 (of_le32 x) = x" by (rule le32.enc_dec)
  then have "fifo_bytes f ((DFIFO f, of_le32 x) # ws) = d"
    using s'(4) fifo_bytes_simps(2) [of f "[(DFIFO f, of_le32 x)]" ws] by (simp add: x_def)
  ultimately show ?case using x s'(1) by (auto simp: t_def)
qed

lemma write_packet_spec:
  assumes "load_at p (4 * ((unat len + 3) div 4)) s = Some d" "n < host_channels s"
  shows "\<exists>s'. USB_OTG_WritePacket p n len s = Some s' \<and> io s s' \<and> (\<exists>ws. writes s' = writes s @ ws \<and> fifo_bytes (unat n) ws = d)"
  using write_words_spec [OF assms(1)] assms(2) by (simp add: USB_OTG_WritePacket_def)

lemma rd_spec: "\<exists>v s'. rd r s = (v, s') \<and> io s s' \<and> writes s' = writes s \<and> v = hw s (reads s) r (regs s r)"
  by (simp add: rd_def)

lemma fill_fifo:
  assumes "in_ep s ! 0 = e" "in_ep s \<noteq> []" "0 < dev_endpoints s" "0 < host_channels s" "fifo_free s"
    "xfer_count e = 0" "xfer_len e \<noteq> 0" "xfer_len e \<le> maxpacket e" "unat (xfer_len e) = n" "n \<le> 64"
    "load_at (xfer_buff e) (4 * ((n + 3) div 4)) s = Some d"
  shows "\<exists>s'. DCD_WriteEmptyTxFifo 0 s = Some s' \<and> io (put_in 0 (e\<lparr>xfer_buff := ptr_add (xfer_buff e) n, xfer_count := xfer_len e\<rparr>) s) s'
     \<and> (\<exists>ws. writes s' = writes s @ ws \<and> fifo_bytes 0 ws = d)"
proof -
  let ?e = "e\<lparr>xfer_buff := ptr_add (xfer_buff e) n, xfer_count := xfer_len e\<rparr>"
  from rd_spec [of "DTXFSTS 0" s] obtain st s1 where s1: "rd (DTXFSTS 0) s = (st, s1)" "io s s1" "writes s1 = writes s"
    "st = hw s (reads s) (DTXFSTS 0) (regs s (DTXFSTS 0))" by blast
  have g: "get_in 0 t = Some (in_ep t ! 0)" if "in_ep t \<noteq> []" for t :: "'a usb" using that by (simp add: get_in_def ep_index_def)
  have ch: "tx_chunk e = xfer_len e" using assms(6,8) by (simp add: tx_chunk_def min_def)
  have w: "unat (words_of (xfer_len e)) \<le> 16"
  proof -
    have "unat (xfer_len e + 3) = n + 3" using assms(9,10) by (subst unat_add_small) simp_all
    then show ?thesis using assms(10) by (simp add: words_of_def unat_div)
  qed
  have room: "get_fld dtxfsts_txfspcavail st > words_of (xfer_len e)"
  proof -
    have "get_fld dtxfsts_txfspcavail st > 16" using assms(5) s1(4) by (simp add: fifo_free_def)
    then show ?thesis using w by (simp add: word_less_nat_alt)
  qed
  have cond: "xfer_count e < xfer_len e" using assms(6,7) by (simp add: word_gt_0)
  have u: "unat (ucast (xfer_len e) :: u16) = n"
    using assms(9,10) by (simp add: unsigned_ucast_eq take_bit_nat_eq_self)
  have "load_at (xfer_buff e) (4 * ((unat (ucast (xfer_len e) :: u16) + 3) div 4)) s1 = Some d"
    unfolding u using assms(11) load_cong [of s1 s] io_sels [OF s1(2)] by simp
  from write_packet_spec [OF this, of 0] assms(4) io_sels(5) [OF s1(2)] obtain s2 ws where
    s2: "USB_OTG_WritePacket (xfer_buff e) 0 (ucast (xfer_len e)) s1 = Some s2" "io s1 s2" "writes s2 = writes s @ ws" "fifo_bytes 0 ws = d"
    by (auto simp: s1(3))
  have ie: "in_ep s1 = in_ep s" "in_ep s2 = in_ep s" using io_sels(18) [OF s1(2)] io_sels(18) [OF s2(2)] by simp_all
  from rd_spec [of "DTXFSTS 0" "put_in 0 ?e s2"] obtain st2 s3 where s3: "rd (DTXFSTS 0) (put_in 0 ?e s2) = (st2, s3)"
    "io (put_in 0 ?e s2) s3" "writes s3 = writes (put_in 0 ?e s2)" by blast
  have e3: "in_ep s3 ! 0 = ?e" "in_ep s3 \<noteq> []" using io_sels(18) [OF s3(2)] assms(2) ie by (simp_all add: put_in_def ep_index_def)
  have "DCD_WriteEmptyTxFifo 0 s = empty_fifo_loop 0 st (words_of (xfer_len e)) s1"
    using assms(1,2,3) g [of s] s1(1) by (simp add: DCD_WriteEmptyTxFifo_def has_ep_def ch)
  also have "\<dots> = empty_fifo_loop 0 st2 (words_of (xfer_len e)) s3"
    using g [of s1] assms(1,2,6,7) ie room cond s2(1) s3(1) assms(9) by (subst empty_fifo_loop.simps) (simp add: ch Let_def)
  also have "\<dots> = Some s3" using g [OF e3(2)] by (subst empty_fifo_loop.simps) (simp add: e3)
  finally have "DCD_WriteEmptyTxFifo 0 s = Some s3" .
  moreover have "io (put_in 0 ?e s) s3" using io_trans [OF io_put(1) [OF io_trans [OF s1(2) s2(2)]] s3(2)] .
  moreover have "writes s3 = writes s @ ws" using s3(3) s2(3) by (simp add: put_in_def)
  ultimately show ?thesis using s2(4) by blast
qed

definition same_env :: "'c usb \<Rightarrow> 'c usb \<Rightarrow> bool" where
  "same_env s s' \<longleftrightarrow> hw s' = hw s \<and> mem s' = mem s \<and> dev_endpoints s' = dev_endpoints s \<and> host_channels s' = host_channels s
     \<and> length (in_ep s') = length (in_ep s) \<and> length (out_ep s') = length (out_ep s) \<and> test_mode s' = test_mode s
     \<and> device_status s' = device_status s"

lemma same_env_io: "io (put_in a e s) s' \<Longrightarrow> same_env s s' \<and> device_state s' = device_state s"
  "io (put_out a e s) s' \<Longrightarrow> same_env s s' \<and> device_state s' = device_state s"
  by (simp_all add: io_sels same_env_def put_in_def put_out_def)

lemma same_env_trans: "same_env s t \<Longrightarrow> same_env t u \<Longrightarrow> same_env s u"
  by (simp add: same_env_def)

lemma ep0_of_io: "io (put_in 0 e s) s' \<Longrightarrow> in_ep s \<noteq> [] \<Longrightarrow> in_ep s' ! 0 = e"
  by (simp add: io_sels put_in_def ep_index_def)

lemma send_ep0:
  assumes "in_ep s \<noteq> []" "maxpacket (in_ep s ! 0) = 64"
  shows "\<exists>s'. DCD_EP_Tx 0 p n s = Some s' \<and> same_env s s' \<and> device_state s' = device_state s
     \<and> in_ep s' ! 0 = (in_ep s ! 0)\<lparr>is_in := 1, ep_num := 0, xfer_buff := p, xfer_count := 0, xfer_len := min n 64\<rparr>"
proof -
  from DCD_EP_Tx_ep0 [OF assms(1), of p n] obtain s' where
    s': "DCD_EP_Tx 0 p n s = Some s'" "io (put_in 0 (cut_ep0 (tx_ep 0 p n (in_ep s ! 0))) s) s'" by blast
  have "cut_ep0 (tx_ep 0 p n (in_ep s ! 0)) = (in_ep s ! 0)\<lparr>is_in := 1, ep_num := 0, xfer_buff := p, xfer_count := 0, xfer_len := min n 64\<rparr>"
    using assms(2) by (simp add: cut_ep0_def tx_ep_def min_def not_less)
  then show ?thesis using s' same_env_io(1) [OF s'(2)] ep0_of_io [OF s'(2) assms(1)] by auto
qed

lemma receive_status_ok:
  assumes "out_ep s \<noteq> []"
  shows "\<exists>s'. USBD_CtlReceiveStatus s = Some s' \<and> device_state s' = USB_OTG_EP0_STATUS_OUT \<and> test_mode s' = test_mode s"
proof -
  let ?s = "s\<lparr>device_state := USB_OTG_EP0_STATUS_OUT\<rparr>"
  from DCD_EP_PrepareRx_ep0 [of ?s None 0] assms obtain t where
    t: "DCD_EP_PrepareRx 0 None 0 ?s = Some t" "io (put_out 0 (cut_ep0 (rx_ep 0 None 0 (out_ep s ! 0))) ?s) t" by auto
  have "device_state t = USB_OTG_EP0_STATUS_OUT" "test_mode t = test_mode s"
    by (simp_all add: io_sels [OF t(2)] put_out_def)
  moreover have "io t (USB_OTG_EP0_OutStart t)" by (rule io_core)
  ultimately show ?thesis using t(1) by (simp add: USBD_CtlReceiveStatus_def io_sels)
qed

text \<open>In the data stage of a transfer of \<open>n\<close> bytes of which \<open>r\<close> are left, the first at \<open>p\<close>.\<close>

definition sending :: "nat \<Rightarrow> u32 \<Rightarrow> ptr \<Rightarrow> nat \<Rightarrow> 'c usb \<Rightarrow> bool" where
  "sending n w p r s \<longleftrightarrow> in_ep s \<noteq> [] \<and> out_ep s \<noteq> [] \<and> 0 < dev_endpoints s \<and> 0 < host_channels s \<and> fifo_free s
     \<and> device_state s = USB_OTG_EP0_DATA_IN \<and> test_mode s \<noteq> 1 \<and> n < 65536 \<and> r \<le> n
     \<and> (let e = in_ep s ! 0 in xfer_buff e = p \<and> xfer_count e = 0 \<and> xfer_len e = of_nat (min r 64) \<and> rem_data_len e = of_nat r
         \<and> total_data_len e = of_nat n \<and> ctl_data_len e = w \<and> maxpacket e = 64)"

lemma fifo_free_env: "same_env s s' \<Longrightarrow> fifo_free s' = fifo_free s"
  by (simp add: same_env_def fifo_free_def)

text \<open>Filling the FIFO: the packet is on its way, the endpoint points behind it.\<close>

lemma packet_out:
  assumes "sending n w p r s" "m = min r 64" "load_at p (4 * ((m + 3) div 4)) s = Some d"
  shows "\<exists>t. (if xfer_len (in_ep s ! 0) \<noteq> 0 then DCD_WriteEmptyTxFifo 0 s else Some s) = Some t \<and> same_env s t
     \<and> device_state t = USB_OTG_EP0_DATA_IN
     \<and> take (unat (xfer_len (in_ep s ! 0))) (fifo_bytes 0 (drop (length (writes s)) (writes t))) = take m d
     \<and> in_ep t ! 0 = (in_ep s ! 0)\<lparr>xfer_buff := ptr_add p m, xfer_count := of_nat m\<rparr>"
proof -
  define e where "e = in_ep s ! 0"
  have e: "xfer_buff e = p" "xfer_count e = 0" "xfer_len e = of_nat m" "maxpacket e = 64"
    using assms(1) by (simp_all add: sending_def Let_def e_def assms(2))
  have m: "m \<le> 64" "unat (of_nat m :: u32) = m" using assms(2) unat32_of_nat [of m] by simp_all
  show ?thesis
  proof (cases "m = 0")
    case True
    have "in_ep s ! 0 = (in_ep s ! 0)\<lparr>xfer_buff := ptr_add p m, xfer_count := of_nat m\<rparr>"
      using e True by (simp add: e_def [symmetric])
    then show ?thesis using assms(1) e True by (auto simp: e_def [symmetric] same_env_def sending_def)
  next
    case False
    have nz: "xfer_len e \<noteq> 0" using m(2) False e(3) by auto
    have le: "xfer_len e \<le> maxpacket e" using m e(3,4) by (simp add: word_le_nat_alt)
    have un: "unat (xfer_len e) = m" using e(3) m(2) by simp
    have ne: "in_ep s \<noteq> []" "0 < dev_endpoints s" "0 < host_channels s" "fifo_free s" using assms(1) by (simp_all add: sending_def)
    from fill_fifo [OF e_def [symmetric] ne e(2) nz le un m(1), of d] assms(3) e(1) obtain t ws where
      t: "DCD_WriteEmptyTxFifo 0 s = Some t" "io (put_in 0 (e\<lparr>xfer_buff := ptr_add p m, xfer_count := xfer_len e\<rparr>) s) t"
        "writes t = writes s @ ws" "fifo_bytes 0 ws = d" by auto
    have "device_state t = USB_OTG_EP0_DATA_IN" "same_env s t" using same_env_io(1) [OF t(2)] assms(1) by (simp_all add: sending_def)
    moreover have "in_ep t ! 0 = e\<lparr>xfer_buff := ptr_add p m, xfer_count := of_nat m\<rparr>"
      using ep0_of_io [OF t(2) ne(1)] e(3) by simp
    ultimately show ?thesis using t nz un by (simp add: e_def [symmetric])
  qed
qed

definition sent_out :: "nat \<Rightarrow> u32 \<Rightarrow> ptr \<Rightarrow> nat \<Rightarrow> 'c usb \<Rightarrow> bool" where
  "sent_out n w p r s \<longleftrightarrow> in_ep s \<noteq> [] \<and> out_ep s \<noteq> [] \<and> 0 < dev_endpoints s \<and> 0 < host_channels s \<and> fifo_free s
     \<and> device_state s = USB_OTG_EP0_DATA_IN \<and> test_mode s \<noteq> 1 \<and> n < 65536 \<and> r \<le> n
     \<and> (let e = in_ep s ! 0 in xfer_buff e = p \<and> rem_data_len e = of_nat r \<and> total_data_len e = of_nat n \<and> ctl_data_len e = w \<and> maxpacket e = 64)"

lemma u32_nat: "n < 65536 \<Longrightarrow> unat (of_nat n :: u32) = n"
  by (rule unat32_of_nat) simp

lemma stage_more:
  assumes "sent_out n w p r t" "64 < r"
  shows "\<exists>u. USBD_DataInStage cb 0 t = Some u \<and> same_env t u \<and> sending n w p (r - 64) u"
proof -
  define e where "e = in_ep t ! 0"
  have e: "xfer_buff e = p" "rem_data_len e = of_nat r" "total_data_len e = of_nat n" "ctl_data_len e = w" "maxpacket e = 64"
    and ne: "in_ep t \<noteq> []" and r: "r < 65536" "r \<le> n" "n < 65536" and tm: "test_mode t \<noteq> 1" "device_state t = USB_OTG_EP0_DATA_IN"
    using assms(1) by (simp_all add: sent_out_def Let_def e_def)
  define e' where "e' = e\<lparr>rem_data_len := rem_data_len e - maxpacket e\<rparr>"
  have gt: "(of_nat r :: u32) > 64" using u32_nat [OF r(1)] assms(2) by (simp add: word_less_nat_alt)
  have sub: "(of_nat r - 64 :: u32) = of_nat (r - 64)" using assms(2) by (simp add: of_nat_diff)
  have uc: "ucast (ucast (of_nat (r - 64) :: u32) :: u16) = (of_nat (r - 64) :: u32)"
    using r(1) by (simp add: word_unat_eq_iff unsigned_ucast_eq take_bit_nat_eq_self unsigned_of_nat del: of_nat_diff)
  define t' where "t' = put_in 0 e' t"
  have t': "in_ep t' \<noteq> []" "in_ep t' ! 0 = e'" "maxpacket e' = 64" "same_env t t'" "device_state t' = device_state t"
    using ne e(5) by (simp_all add: t'_def put_in_def ep_index_def e'_def same_env_def)
  from send_ep0 [of t' p "of_nat (r - 64)"] t' obtain u where
    u: "DCD_EP_Tx 0 p (of_nat (r - 64)) t' = Some u" "same_env t' u" "device_state u = device_state t"
      "in_ep u ! 0 = e'\<lparr>is_in := 1, ep_num := 0, xfer_buff := p, xfer_count := 0, xfer_len := min (of_nat (r - 64)) 64\<rparr>" by auto
  have g: "get_in 0 t = Some e" using ne by (simp add: get_in_def ep_index_def e_def)
  have "data_in_ep0 cb t = Some u"
    using g tm(2) gt u(1) by (simp add: data_in_ep0_def e Let_def e'_def sub USBD_CtlContinueSendData_def uc t'_def)
  then have "USBD_DataInStage cb 0 t = Some u"
    using tm(1) t'(4) u(2) by (simp add: USBD_DataInStage_def same_env_def)
  moreover have mn: "min (of_nat (r - 64)) 64 = (of_nat (min (r - 64) 64) :: u32)"
    using u32_nat [of "r - 64"] r(1) by (auto simp: min_def word_le_nat_alt)
  have env: "same_env t u" using same_env_trans [OF t'(4) u(2)] .
  have "sending n w p (r - 64) u"
    using assms(1) env u(3,4) fifo_free_env [OF env] tm(2) r
    by (auto simp: sending_def sent_out_def same_env_def mn e'_def e sub Let_def)
  ultimately show ?thesis using env by blast
qed

lemma mod_64: "n < 65536 \<Longrightarrow> (of_nat n mod 64 = (0 :: u32)) \<longleftrightarrow> n mod 64 = 0"
proof -
  assume n: "n < 65536"
  have "unat (of_nat n mod 64 :: u32) = n mod 64" using unat_mod [of "of_nat n :: u32" 64] u32_nat [OF n] by simp
  then show ?thesis by (metis unat_eq_0)
qed

lemma stage_last:
  assumes "sent_out n w p r t" "r \<le> 64" "EP0_TxSent cb = None"
  shows "\<exists>u. USBD_DataInStage cb 0 t = Some u \<and>
     (if n mod 64 = 0 \<and> 64 \<le> n \<and> n < unat w
      then same_env t u \<and> sent_out n 0 None r u \<and> xfer_len (in_ep u ! 0) = 0
      else device_state u = USB_OTG_EP0_STATUS_OUT)"
proof -
  define e where "e = in_ep t ! 0"
  have e: "xfer_buff e = p" "rem_data_len e = of_nat r" "total_data_len e = of_nat n" "ctl_data_len e = w" "maxpacket e = 64"
    and ne: "in_ep t \<noteq> []" "out_ep t \<noteq> []" and r: "r \<le> n" "n < 65536" and tm: "test_mode t \<noteq> 1" "device_state t = USB_OTG_EP0_DATA_IN"
    using assms(1) by (simp_all add: sent_out_def Let_def e_def)
  have g: "get_in 0 t = Some e" using ne by (simp add: get_in_def ep_index_def e_def)
  have le: "\<not> (of_nat r :: u32) > 64" using u32_nat [of r] assms(2) by (simp add: word_less_nat_alt)
  have c: "(of_nat n :: u32) mod 64 = 0 \<and> 64 \<le> (of_nat n :: u32) \<and> of_nat n < w \<longleftrightarrow> n mod 64 = 0 \<and> 64 \<le> n \<and> n < unat w"
    using mod_64 [OF r(2)] u32_nat [OF r(2)] by (simp add: word_less_nat_alt word_le_nat_alt)
  show ?thesis
  proof (cases "n mod 64 = 0 \<and> 64 \<le> n \<and> n < unat w")
    case True
    from send_ep0 [OF ne(1), of None 0] e(5) obtain v where
      v: "DCD_EP_Tx 0 None 0 t = Some v" "same_env t v" "device_state v = device_state t"
        "in_ep v ! 0 = e\<lparr>is_in := 1, ep_num := 0, xfer_buff := None, xfer_count := 0, xfer_len := 0\<rparr>" by (auto simp: e_def)
    have nv: "in_ep v \<noteq> []" using v(2) ne by (auto simp: same_env_def)
    define u where "u = put_in 0 ((in_ep v ! 0)\<lparr>ctl_data_len := 0\<rparr>) v"
    have "data_in_ep0 cb t = Some u"
      using g tm(2) le e c True v(1) nv by (simp add: data_in_ep0_def USBD_CtlContinueSendData_def get_in_def ep_index_def u_def)
    moreover have env: "same_env v u" by (simp add: same_env_def u_def put_in_def)
    ultimately have "USBD_DataInStage cb 0 t = Some u" using tm(1) v(2) by (simp add: USBD_DataInStage_def same_env_def)
    moreover have env: "same_env t u" using same_env_trans [OF v(2) env] .
    moreover have "in_ep u ! 0 = (in_ep v ! 0)\<lparr>ctl_data_len := 0\<rparr>" "device_state u = USB_OTG_EP0_DATA_IN"
      using nv v(3) tm(2) by (simp_all add: u_def put_in_def ep_index_def)
    ultimately show ?thesis using True assms(1) fifo_free_env [OF env] v(4) e by (auto simp: sent_out_def same_env_def Let_def)
  next
    case False
    from receive_status_ok [OF ne(2)] obtain u where u: "USBD_CtlReceiveStatus t = Some u" "device_state u = USB_OTG_EP0_STATUS_OUT"
      "test_mode u = test_mode t" by blast
    have nc: "\<not> ((of_nat n :: u32) mod 64 = 0 \<and> 64 \<le> (of_nat n :: u32) \<and> of_nat n < w)" unfolding c by (rule False)
    have "data_in_ep0 cb t = Some u"
      using g tm(2) le e u(1) assms(3) by (simp add: data_in_ep0_def if_not_P [OF nc])
    then have "USBD_DataInStage cb 0 t = Some u" using tm(1) u(3) by (simp add: USBD_DataInStage_def)
    then show ?thesis using u(2) False by auto
  qed
qed

definition ctl_packets :: "bytes \<Rightarrow> nat \<Rightarrow> bytes list" where
  "ctl_packets d w = packets d @ (if length d mod 64 = 0 \<and> 64 \<le> length d \<and> length d < w then [[]] else [])"

lemma sending_sent_out:
  assumes "sending n w p r s" "same_env s t" "device_state t = USB_OTG_EP0_DATA_IN"
    "in_ep t ! 0 = (in_ep s ! 0)\<lparr>xfer_buff := q, xfer_count := c\<rparr>"
  shows "sent_out n w q r t"
  using assms fifo_free_env [OF assms(2)] by (auto simp: sending_def sent_out_def same_env_def Let_def)

lemma DATA_IN_ne: "USB_OTG_EP0_STATUS_OUT \<noteq> USB_OTG_EP0_DATA_IN"
  by (simp add: USB_OTG_EP0_STATUS_OUT_def USB_OTG_EP0_DATA_IN_def)

lemma stage_runs:
  assumes "EP0_TxSent cb = None" "q \<noteq> R_device_config" "load_at (Some (q, off)) (4 * ((r + 3) div 4)) s = Some d" "sending n w (Some (q, off)) r s"
  shows "\<exists>s'. ep0_stage cb (r div 64 + 2) s =
     Some (packets (take r d) @ (if n mod 64 = 0 \<and> 64 \<le> n \<and> n < unat w then [[]] else []), s') \<and> device_state s' = USB_OTG_EP0_STATUS_OUT"
  using assms(3,4)
proof (induction r arbitrary: off s d rule: less_induct)
  case (less r)
  define p where "p = Some (q, off)"
  note prems = less.prems [folded p_def]
  define m where "m = min r 64"
  have ld: "length d = 4 * ((r + 3) div 4)" using load_at_length [OF prems(1)] .
  have r: "r \<le> 4 * ((r + 3) div 4)" by simp
  have mr: "4 * ((m + 3) div 4) \<le> 4 * ((r + 3) div 4)" by (simp add: m_def div_le_mono)
  have lm: "load_at p (4 * ((m + 3) div 4)) s = Some (take (4 * ((m + 3) div 4)) d)"
    using load_at_part [OF prems(1), of 0 "4 * ((m + 3) div 4)"] mr by simp
  from packet_out [OF prems(2) m_def lm] obtain t where
    t: "(if xfer_len (in_ep s ! 0) \<noteq> 0 then DCD_WriteEmptyTxFifo 0 s else Some s) = Some t" "same_env s t"
      "device_state t = USB_OTG_EP0_DATA_IN"
      "take (unat (xfer_len (in_ep s ! 0))) (fifo_bytes 0 (drop (length (writes s)) (writes t))) = take m (take (4 * ((m + 3) div 4)) d)"
      "in_ep t ! 0 = (in_ep s ! 0)\<lparr>xfer_buff := ptr_add p m, xfer_count := of_nat m\<rparr>" by blast
  have "m \<le> 4 * ((m + 3) div 4)" by simp
  then have tm: "take m (take (4 * ((m + 3) div 4)) d) = take m d" by (simp add: min_def)
  note so = sending_sent_out [OF prems(2) t(2,3,5)]
  have pk: "ep0_packet cb s = (case USBD_DataInStage cb 0 t of None \<Rightarrow> None | Some u \<Rightarrow> Some (take m d, u))"
    unfolding ep0_packet_def Let_def t(1) bind.bind_lunit t(4) tm by (simp split: option.split)
  have tr: "length (take r d) = r" using ld r by simp
  show ?case
  proof (cases "64 < r")
    case True
    then have m: "m = 64" by (simp add: m_def)
    from stage_more [OF so True, of cb] obtain u where u: "USBD_DataInStage cb 0 t = Some u" "same_env t u"
      "sending n w (ptr_add p m) (r - 64) u" by blast
    have eq: "4 * ((r + 3) div 4) = 64 + 4 * ((r - 64 + 3) div 4)"
    proof -
      have "r + 3 = (r - 64 + 3) + 16 * 4" using True by simp
      then show ?thesis by (simp only: div_mult_self1) simp
    qed
    have "load_at (ptr_add p 64) (4 * ((r - 64 + 3) div 4)) s = Some (drop 64 d)"
      using load_at_part [OF prems(1), of 64 "4 * ((r - 64 + 3) div 4)"] ld eq by simp
    moreover have "load_at (ptr_add p 64) k u = load_at (ptr_add p 64) k s" for k
      using same_env_trans [OF t(2) u(2)] assms(2) by (simp add: p_def ptr_add_def load_at_def load_def same_env_def)
    ultimately have lu: "load_at (Some (q, off + 64)) (4 * ((r - 64 + 3) div 4)) u = Some (drop 64 d)" by (simp add: p_def ptr_add_def)
    have "sending n w (Some (q, off + 64)) (r - 64) u" using u(3) by (simp add: m p_def ptr_add_def)
    from less.IH [OF _ lu this] True obtain s' where s': "ep0_stage cb ((r - 64) div 64 + 2) u =
       Some (packets (take (r - 64) (drop 64 d)) @ (if n mod 64 = 0 \<and> 64 \<le> n \<and> n < unat w then [[]] else []), s')"
       "device_state s' = USB_OTG_EP0_STATUS_OUT" by auto
    have k: "r div 64 + 2 = Suc ((r - 64) div 64 + 2)" using True by (simp add: le_div_geq)
    have "take r d = take 64 d @ take (r - 64) (drop 64 d)" using take_add [of 64 "r - 64" d] True by simp
    then have pk2: "packets (take r d) = take 64 d # packets (take (r - 64) (drop 64 d))"
      using tr True by (subst packets.simps) simp
    have "device_state u = USB_OTG_EP0_DATA_IN" using u(3) by (simp add: sending_def)
    then show ?thesis unfolding k using pk u(1) s' pk2 by (simp add: m)
  next
    case False
    then have m: "m = r" by (simp add: m_def)
    have pk2: "packets (take r d) = [take r d]" using tr False by (subst packets.simps) simp
    have k: "r div 64 + 2 = Suc (Suc (r div 64))" by simp
    from stage_last [OF so _ assms(1)] False obtain u where u: "USBD_DataInStage cb 0 t = Some u"
      "if n mod 64 = 0 \<and> 64 \<le> n \<and> n < unat w then same_env t u \<and> sent_out n 0 None r u \<and> xfer_len (in_ep u ! 0) = 0
       else device_state u = USB_OTG_EP0_STATUS_OUT" by auto
    show ?thesis
    proof (cases "n mod 64 = 0 \<and> 64 \<le> n \<and> n < unat w")
      case zlp: True
      then have z: "sent_out n 0 None r u" "xfer_len (in_ep u ! 0) = 0" using u(2) by simp_all
      from stage_last [OF z(1) _ assms(1)] False obtain v where v: "USBD_DataInStage cb 0 u = Some v" "device_state v = USB_OTG_EP0_STATUS_OUT" by auto
      have "ep0_packet cb u = Some ([], v)" using z(2) v(1) by (simp add: ep0_packet_def)
      moreover have "device_state u = USB_OTG_EP0_DATA_IN" using z(1) by (simp add: sent_out_def)
      ultimately show ?thesis unfolding k using pk u(1) v(2) pk2 zlp DATA_IN_ne by (simp add: m)
    next
      case nz: False
      then have "device_state u = USB_OTG_EP0_STATUS_OUT" using u(2) by (simp only: if_False)
      then show ?thesis unfolding k if_not_P [OF nz] using pk u(1) pk2 DATA_IN_ne by (simp add: m)
    qed
  qed
qed

section \<open>The transfer\<close>

lemma control_data_stage:
  assumes "usb_ok s" "0 < host_channels s" "maxpacket (in_ep s ! 0) = 64" "fifo_free s" "test_mode s \<noteq> 1" "EP0_TxSent cb = None"
    "q \<noteq> R_device_config" "load_at (Some (q, off)) (4 * ((unat len + 3) div 4)) s = Some d"
  shows "\<exists>t u. USBD_CtlSendData (Some (q, off)) len s = Some t
     \<and> ep0_stage cb (unat len div 64 + 2) t = Some (ctl_packets (take (unat len) d) (unat (ctl_data_len (in_ep s ! 0))), u)
     \<and> device_state u = USB_OTG_EP0_STATUS_OUT"
proof -
  define n where "n = unat len"
  have n: "n < 65536" unfolding n_def by (rule order_less_le_trans [OF unsigned_less]) simp
  define e where "e = (in_ep s ! 0)\<lparr>total_data_len := ucast len, rem_data_len := ucast len\<rparr>"
  define s1 where "s1 = (put_in 0 e s)\<lparr>device_state := USB_OTG_EP0_DATA_IN\<rparr>"
  have ne: "in_ep s \<noteq> []" "out_ep s \<noteq> []" "0 < dev_endpoints s" using assms(1) by (auto simp: usb_ok_def)
  have g: "get_in 0 s = Some (in_ep s ! 0)" using ne by (simp add: get_in_def ep_index_def)
  have s1: "in_ep s1 \<noteq> []" "in_ep s1 ! 0 = e" "maxpacket (in_ep s1 ! 0) = 64" "same_env s s1" "device_state s1 = USB_OTG_EP0_DATA_IN"
    using ne assms(3) by (simp_all add: s1_def put_in_def ep_index_def e_def same_env_def)
  from send_ep0 [OF s1(1,3), of "Some (q, off)" "ucast len"] obtain t where
    t: "DCD_EP_Tx 0 (Some (q, off)) (ucast len) s1 = Some t" "same_env s1 t" "device_state t = device_state s1"
      "in_ep t ! 0 = e\<lparr>is_in := 1, ep_num := 0, xfer_buff := Some (q, off), xfer_count := 0, xfer_len := min (ucast len) 64\<rparr>"
    by (auto simp: s1(2))
  have u: "(ucast len :: u32) = of_nat n" by (simp add: n_def word_unat_eq_iff unsigned_ucast_eq take_bit_nat_eq_self)
  have mn: "min (of_nat n) 64 = (of_nat (min n 64) :: u32)" using u32_nat [OF n] by (auto simp: min_def word_le_nat_alt)
  have env: "same_env s t" using same_env_trans [OF s1(4) t(2)] .
  have "sending n (ctl_data_len (in_ep s ! 0)) (Some (q, off)) n t"
    using env ne n assms(2-5) fifo_free_env [OF env] t(3,4) s1(5)
    by (auto simp: sending_def same_env_def Let_def mn u e_def)
  moreover have "load_at (Some (q, off)) (4 * ((n + 3) div 4)) t = Some d"
    using assms(7,8) env by (simp add: load_at_def load_def same_env_def n_def)
  ultimately obtain v where v: "ep0_stage cb (n div 64 + 2) t =
      Some (packets (take n d) @ (if n mod 64 = 0 \<and> 64 \<le> n \<and> n < unat (ctl_data_len (in_ep s ! 0)) then [[]] else []), v)"
      "device_state v = USB_OTG_EP0_STATUS_OUT" using stage_runs [OF assms(6,7)] by blast
  have "length (take n d) = n" using load_at_length [OF assms(8)] by (simp add: n_def)
  moreover have "USBD_CtlSendData (Some (q, off)) len s = Some t"
    using g t(1) by (simp add: USBD_CtlSendData_def e_def s1_def)
  ultimately show ?thesis using v by (auto simp: ctl_packets_def n_def)
qed

section \<open>Properties\<close>

text \<open>
  C32: A control transfer to the host is complete and correct. Once \<open>USBD_CtlSendData\<close> has been
  given \<open>len\<close> bytes, the packets that leave through the FIFO of endpoint 0 over the following
  transmit interrupts are those bytes in packets of 64, the last one shorter, and an empty packet
  when the host asked for more than a whole number of packets; then the device waits for the
  status stage. This holds for every behaviour of the registers that leaves room in the FIFO.
\<close>

theorem control_in_transfer:
  assumes "usb_ok s" "0 < host_channels s" "maxpacket (in_ep s ! 0) = 64" "fifo_free s" "test_mode s \<noteq> 1" "EP0_TxSent cb = None"
    "q \<noteq> R_device_config" "load_at (Some (q, off)) (4 * ((unat len + 3) div 4)) s = Some d"
  shows "\<exists>t u. USBD_CtlSendData (Some (q, off)) len s = Some t
     \<and> ep0_stage cb (unat len div 64 + 2) t = Some (ctl_packets (take (unat len) d) (unat (ctl_data_len (in_ep s ! 0))), u)
     \<and> device_state u = USB_OTG_EP0_STATUS_OUT"
  by (rule control_data_stage [OF assms])

definition no_class :: "'c class_cb" where
  "no_class = \<lparr>Init = \<lambda>_. Some, DeInit = \<lambda>_. Some, Setup = \<lambda>_. Some, EP0_TxSent = None, EP0_RxReady = None, DataIn = None, DataOut = None,
     SOF = None, IsoINIncomplete = Some, IsoOUTIncomplete = Some, GetConfigDescriptor = \<lambda>_ s. Some (None, 0, s)\<rparr>"

theorem control_in_transfer_witness:
  "\<exists>t u. USBD_CtlSendData (Some (R_encapsulated, 0)) 100 (idle_usb ()) = Some t
     \<and> ep0_stage no_class 3 t = Some ([replicate 64 0, replicate 36 0], u) \<and> device_state u = USB_OTG_EP0_STATUS_OUT"
proof -
  let ?s = "idle_usb ()"
  have a: "usb_ok ?s" "0 < host_channels ?s" "maxpacket (in_ep ?s ! 0) = 64" "test_mode ?s \<noteq> 1"
    "EP0_TxSent (no_class :: unit class_cb) = None" "R_encapsulated \<noteq> R_device_config" by (simp_all add: idle_ep_def no_class_def)
  have f: "fifo_free ?s" by (simp add: fifo_free_def idle_usb_def get_fld_def dtxfsts_txfspcavail_def mask_eq_exp_minus_1)
  have l: "load_at (Some (R_encapsulated, 0)) (4 * ((unat (100 :: u16) + 3) div 4)) ?s = Some (replicate 100 0)"
    by (simp add: load_at_Some region_size_def)
  have p: "packets (replicate 100 0) = [replicate 64 0, replicate 36 0]" by (subst packets.simps, simp, subst packets.simps, simp)
  have k: "unat (100 :: u16) div 64 + 2 = 3" by simp
  show ?thesis using control_in_transfer [OF a(1-3) f a(4-6) l] unfolding k by (simp add: ctl_packets_def p del: ep0_stage.simps)
qed

end
