(* ===== verification/Timers.thy ===== *)
theory Timers
  imports Prelude
begin

text \<open>
  Time and software timers, \<open>src/project/time.c\<close> and \<open>time.h\<close>: the microsecond clock that
  combines the SysTick counter with the millisecond count of its interrupt, the busy wait, and
  the list of software timers.

  Hardware. \<open>now\<close> counts processor ticks. The counter runs down from \<open>systick_period - 1\<close> to 0;
  each time it reaches 0 the interrupt handler \<open>SysTick_Handler\<close> runs and COUNTFLAG is set until
  the control register is read. Every access takes at least one tick; \<open>pace\<close> says how many more
  the \<open>k\<close>-th access takes (other interrupts, wait states), so a statement for all \<open>pace\<close> is a
  statement for all timings. Timers are linked through their \<open>next\<close> pointers as in the code:
  an address is a \<open>nat\<close>, NULL is \<open>None\<close>; a fault or a loop that does not end gives \<open>None\<close>.
\<close>

section \<open>The clock\<close>

type_synonym u64 = "64 word"

definition SystemCoreClock :: nat where "SystemCoreClock = 144000000"
definition ticksPerUs :: nat where "ticksPerUs = SystemCoreClock div 1000000"
definition systick_period :: nat where "systick_period = SystemCoreClock div 1000"

definition STMR_ACTIVE :: u32 where "STMR_ACTIVE = 1"

record stmr_t =
  t_period :: u32
  t_event :: u32
  t_flags :: u32
  t_data :: "nat option"
  t_proc :: "nat option"
  t_next :: "nat option"

record timers =
  tmrs :: "nat \<Rightarrow> stmr_t option"
  stmrs :: "nat option"
  now :: nat
  ctrl_read :: nat
  accesses :: nat
  pace :: "nat \<Rightarrow> nat"

definition tick :: "'a timers_scheme \<Rightarrow> 'a timers_scheme" where
  "tick s = s\<lparr>now := now s + 1 + pace s (accesses s), accesses := accesses s + 1\<rparr>"

text \<open>How often the counter has reached 0 up to tick \<open>t\<close>; the handler ran as often.\<close>

definition zero_events :: "nat \<Rightarrow> nat" where
  "zero_events t = (t + 1) div systick_period"

definition SysTick_Handler :: "u64 \<Rightarrow> u64" where
  "SysTick_Handler usAddition = usAddition + 1000"

definition usAddition :: "nat \<Rightarrow> u64" where
  "usAddition t = (SysTick_Handler ^^ zero_events t) 0"

definition systick_val :: "nat \<Rightarrow> u32" where
  "systick_val t = of_nat (systick_period - 1 - t mod systick_period)"

definition read_val :: "'a timers_scheme \<Rightarrow> u32 \<times> 'a timers_scheme" where
  "read_val s = (let s = tick s in (systick_val (now s), s))"

definition read_addition :: "'a timers_scheme \<Rightarrow> u64 \<times> 'a timers_scheme" where
  "read_addition s = (let s = tick s in (usAddition (now s), s))"

definition read_ctrl :: "'a timers_scheme \<Rightarrow> bool \<times> 'a timers_scheme" where
  "read_ctrl s = (let s = tick s in (zero_events (now s) \<noteq> zero_events (ctrl_read s), s\<lparr>ctrl_read := now s\<rparr>))"

partial_function (option) utime_loop :: "'a timers_scheme \<Rightarrow> (u64 \<times> 'a timers_scheme) option" where
  "utime_loop s =
     (let (ticks, s) = read_val s; (res, s) = read_addition s; (flag, s) = read_ctrl s in
      if flag then utime_loop s
      else Some (res + ucast (1000 - ticks div of_nat ticksPerUs), s))"

definition utime :: "'a timers_scheme \<Rightarrow> (u64 \<times> 'a timers_scheme) option" where
  "utime s = utime_loop (snd (read_ctrl s))"

definition mtime :: "'a timers_scheme \<Rightarrow> (u64 \<times> 'a timers_scheme) option" where
  "mtime s = do { (t, s) \<leftarrow> utime s; Some (t div 1000, s) }"

text \<open>\<open>us\<close> is an \<open>int\<close>; the comparison converts it to \<open>uint64_t\<close>.\<close>

partial_function (option) usleep_loop :: "u64 \<Rightarrow> int \<Rightarrow> 'a timers_scheme \<Rightarrow> 'a timers_scheme option" where
  "usleep_loop t us s = do {
     (t1, s) \<leftarrow> utime s;
     if t1 - t \<ge> word_of_int us then Some s
     else if t1 < t then Some s
     else usleep_loop t us s }"

definition usleep :: "int \<Rightarrow> 'a timers_scheme \<Rightarrow> 'a timers_scheme option" where
  "usleep us s = do { (t, s) \<leftarrow> utime s; usleep_loop t us s }"

section \<open>Software timers\<close>

definition upd_tmr :: "nat \<Rightarrow> (stmr_t \<Rightarrow> stmr_t) \<Rightarrow> 'a timers_scheme \<Rightarrow> 'a timers_scheme option" where
  "upd_tmr a f s = (case tmrs s a of None \<Rightarrow> None | Some b \<Rightarrow> Some (s\<lparr>tmrs := (tmrs s)(a \<mapsto> f b)\<rparr>))"

text \<open>\<open>call f t\<close> is the call \<open>t->proc(t)\<close> of the timer function number \<open>f\<close>.\<close>

partial_function (option) stmr_loop ::
  "(nat \<Rightarrow> nat \<Rightarrow> 'a timers_scheme \<Rightarrow> 'a timers_scheme option) \<Rightarrow> u32 \<Rightarrow> nat option \<Rightarrow> 'a timers_scheme
     \<Rightarrow> 'a timers_scheme option" where
  "stmr_loop call time tmr s = (case tmr of None \<Rightarrow> Some s | Some t \<Rightarrow> do {
     b \<leftarrow> tmrs s t;
     if t_flags b AND STMR_ACTIVE = 0 then stmr_loop call time (t_next b) s
     else if time - t_event b < t_period b then stmr_loop call time (t_next b) s
     else do {
       f \<leftarrow> t_proc b;
       s \<leftarrow> call f t s;
       (e, s) \<leftarrow> utime s;
       s \<leftarrow> upd_tmr t (\<lambda>b. b\<lparr>t_event := ucast e\<rparr>) s;
       stmr_loop call time (t_next b) s } })"

definition stmr :: "(nat \<Rightarrow> nat \<Rightarrow> 'a timers_scheme \<Rightarrow> 'a timers_scheme option) \<Rightarrow> 'a timers_scheme \<Rightarrow> 'a timers_scheme option" where
  "stmr call s = do { (time, s) \<leftarrow> utime s; stmr_loop call (ucast time) (stmrs s) s }"

definition stmr_init :: "nat \<Rightarrow> 'a timers_scheme \<Rightarrow> 'a timers_scheme option" where
  "stmr_init tmr s = do {
     s \<leftarrow> upd_tmr tmr (\<lambda>b. \<lparr>t_period = 0, t_event = 0, t_flags = 0, t_data = None, t_proc = None, t_next = stmrs s\<rparr>) s;
     Some (s\<lparr>stmrs := Some tmr\<rparr>) }"

definition stmr_add :: "nat \<Rightarrow> 'a timers_scheme \<Rightarrow> 'a timers_scheme option" where
  "stmr_add tmr s = do {
     s \<leftarrow> upd_tmr tmr (\<lambda>b. b\<lparr>t_next := stmrs s\<rparr>) s;
     Some (s\<lparr>stmrs := Some tmr\<rparr>) }"

partial_function (option) free_loop :: "nat \<Rightarrow> nat \<Rightarrow> 'a timers_scheme \<Rightarrow> 'a timers_scheme option" where
  "free_loop tmr t s = do {
     b \<leftarrow> tmrs s t;
     case t_next b of
       None \<Rightarrow> Some s
     | Some n \<Rightarrow>
         if n = tmr then do {
           c \<leftarrow> tmrs s tmr;
           s \<leftarrow> upd_tmr t (\<lambda>b. b\<lparr>t_next := t_next c\<rparr>) s;
           upd_tmr tmr (\<lambda>b. b\<lparr>t_next := None\<rparr>) s }
         else free_loop tmr n s }"

definition stmr_free :: "nat \<Rightarrow> 'a timers_scheme \<Rightarrow> 'a timers_scheme option" where
  "stmr_free tmr s = (case stmrs s of
       None \<Rightarrow> Some s
     | Some h \<Rightarrow>
         if tmr = h then do {
           b \<leftarrow> tmrs s tmr;
           upd_tmr tmr (\<lambda>b. b\<lparr>t_next := None\<rparr>) (s\<lparr>stmrs := t_next b\<rparr>) }
         else free_loop tmr h s)"

definition stmr_stop :: "nat \<Rightarrow> 'a timers_scheme \<Rightarrow> 'a timers_scheme option" where
  "stmr_stop tmr s = upd_tmr tmr (\<lambda>b. b\<lparr>t_flags := t_flags b AND NOT STMR_ACTIVE\<rparr>) s"

definition stmr_run :: "nat \<Rightarrow> 'a timers_scheme \<Rightarrow> 'a timers_scheme option" where
  "stmr_run tmr s = do {
     s \<leftarrow> upd_tmr tmr (\<lambda>b. b\<lparr>t_flags := t_flags b OR STMR_ACTIVE\<rparr>) s;
     (e, s) \<leftarrow> utime s;
     upd_tmr tmr (\<lambda>b. b\<lparr>t_event := ucast e\<rparr>) s }"

section \<open>The clock is exact\<close>

definition max_pace :: nat where "max_pace = 1000"

definition paced :: "'a timers_scheme \<Rightarrow> bool" where
  "paced s \<longleftrightarrow> (\<forall>k. pace s k < max_pace)"

text \<open>Only time has passed.\<close>

definition clocked :: "'a timers_scheme \<Rightarrow> 'a timers_scheme \<Rightarrow> bool" where
  "clocked s s' \<longleftrightarrow> (\<exists>n c a. s' = s\<lparr>now := n, ctrl_read := c, accesses := a\<rparr> \<and> now s \<le> n)"

lemma clocked_refl [simp]: "clocked s s"
  unfolding clocked_def by (intro exI [of _ "now s"] exI [of _ "ctrl_read s"] exI [of _ "accesses s"]) simp

lemma clocked_trans: "clocked s s' \<Longrightarrow> clocked s' s'' \<Longrightarrow> clocked s s''"
  unfolding clocked_def by fastforce

lemma clocked_sels:
  assumes "clocked s s'"
  shows "tmrs s' = tmrs s" "stmrs s' = stmrs s" "pace s' = pace s" "now s \<le> now s'" "paced s' = paced s"
    "timers.more s' = timers.more s"
  using assms by (auto simp: clocked_def paced_def)

definition micros :: "nat \<Rightarrow> nat" where
  "micros t = 1 + t div ticksPerUs"

lemma zero_events_mono: "a \<le> b \<Longrightarrow> zero_events a \<le> zero_events b"
  by (simp add: zero_events_def div_le_mono)

lemma period_ticks: "systick_period = 1000 * ticksPerUs" "ticksPerUs = 144"
  by (simp_all add: systick_period_def ticksPerUs_def SystemCoreClock_def)

lemma handler_iter: "(SysTick_Handler ^^ n) 0 = of_nat (1000 * n)"
  by (induction n) (simp_all add: SysTick_Handler_def algebra_simps)

text \<open>Counter and handler agree when the counter did not reach 0 between the two reads of the flag.\<close>

lemma reading_exact:
  assumes "t0 < t" "zero_events t = zero_events t0"
  shows "1000 * zero_events t + (1000 - (systick_period - 1 - t mod systick_period) div ticksPerUs) = micros t"
proof -
  let ?P = systick_period
  have P: "?P = 144000" by (simp add: period_ticks)
  have q: "t + 1 = (t mod ?P + 1) + ?P * (t div ?P)" using mult_div_mod_eq [of ?P t] by simp
  have m: "t mod ?P \<noteq> ?P - 1"
  proof
    assume "t mod ?P = ?P - 1"
    then have "t + 1 = ?P * (t div ?P + 1)" using q P by (simp add: algebra_simps)
    then have "(t + 1) div ?P = t div ?P + 1" using P by simp
    moreover have "(t0 + 1) div ?P \<le> t div ?P" using assms(1) by (intro div_le_mono) simp
    ultimately show False using assms(2) by (simp add: zero_events_def)
  qed
  have "t mod ?P < ?P" using P by simp
  then have "t mod ?P + 1 < ?P" using m by linarith
  then have "(t + 1) div ?P = t div ?P" using q P by (metis add.right_neutral div_less div_mult_self2 zero_neq_numeral add.commute)
  then have z: "zero_events t = t div ?P" by (simp add: zero_events_def)
  define m a b where "m = t mod ?P" and "a = m div 144" and "b = m mod 144"
  have ml: "m < 144000" by (simp add: m_def P)
  have ab: "m = 144 * a + b" "b < 144" "a < 1000" using ml by (simp_all add: a_def b_def)
  have "?P - 1 - m = 144 * (999 - a) + (143 - b)" using ab P by simp
  then have d: "(?P - 1 - m) div 144 = 999 - a" using ab(2) by simp
  have "t = 144 * (1000 * (t div ?P) + a) + b" using ab(1) mult_div_mod_eq [of ?P t] by (simp add: m_def P)
  then have "t div 144 = 1000 * (t div ?P) + a" using ab(2)
    by (metis add.commute add_cancel_right_right div_less div_mult_self4 zero_neq_numeral)
  then show ?thesis using d ab(3) by (simp add: z micros_def period_ticks(2) m_def [symmetric])
qed

text \<open>One pass of the reading loop: three accesses.\<close>

definition after_pass :: "'a timers_scheme \<Rightarrow> 'a timers_scheme" where
  "after_pass s = (let s' = tick (tick (tick s)) in s'\<lparr>ctrl_read := now s'\<rparr>)"

lemma tick_sels [simp]:
  "now (tick s) = now s + 1 + pace s (accesses s)" "pace (tick s) = pace s" "ctrl_read (tick s) = ctrl_read s"
  by (simp_all add: tick_def)

lemma tick_clocked: "clocked s (tick s)"
  unfolding clocked_def tick_def
  by (intro exI [of _ "now s + 1 + pace s (accesses s)"] exI [of _ "ctrl_read s"] exI [of _ "accesses s + 1"]) simp

lemma set_ctrl_clocked: "clocked s (s\<lparr>ctrl_read := c\<rparr>)"
  unfolding clocked_def by (intro exI [of _ "now s"] exI [of _ c] exI [of _ "accesses s"]) simp

lemma read_ctrl_clocked: "clocked s (snd (read_ctrl s))"
  unfolding read_ctrl_def Let_def using clocked_trans [OF tick_clocked set_ctrl_clocked] by simp

lemma after_pass_clocked: "clocked s (after_pass s)"
  unfolding after_pass_def Let_def
  using clocked_trans [OF clocked_trans [OF clocked_trans [OF tick_clocked tick_clocked] tick_clocked] set_ctrl_clocked] .

lemma utime_loop_pass:
  "utime_loop s = (if zero_events (now (after_pass s)) \<noteq> zero_events (ctrl_read s) then utime_loop (after_pass s)
     else Some (usAddition (now (tick (tick s))) + ucast (1000 - systick_val (now (tick s)) div of_nat ticksPerUs), after_pass s))"
  by (subst utime_loop.simps) (simp add: Let_def read_val_def read_addition_def read_ctrl_def after_pass_def)

lemma after_pass_time:
  assumes "paced s"
  shows "now s < now (tick s)" "now (tick s) < now (tick (tick s))" "now (tick (tick s)) < now (after_pass s)"
    "now (after_pass s) \<le> now s + 3 * max_pace" "ctrl_read (after_pass s) = now (after_pass s)" "paced (after_pass s)"
proof -
  have p: "pace s k < max_pace" for k using assms by (simp add: paced_def)
  show "now s < now (tick s)" "now (tick s) < now (tick (tick s))" "now (tick (tick s)) < now (after_pass s)"
    "ctrl_read (after_pass s) = now (after_pass s)"
    by (simp_all add: after_pass_def Let_def)
  show "now (after_pass s) \<le> now s + 3 * max_pace"
    using p [of "accesses s"] p [of "accesses (tick s)"] p [of "accesses (tick (tick s))"] by (simp add: after_pass_def Let_def)
  show "paced (after_pass s)" using assms clocked_sels(5) [OF after_pass_clocked] by blast
qed

text \<open>The value one pass computes is the time of the counter read, when the flag stays clear.\<close>

lemma pass_value:
  assumes "ctrl_read s \<le> now s" "zero_events (now (after_pass s)) = zero_events (ctrl_read s)" "paced s"
  shows "usAddition (now (tick (tick s))) + ucast (1000 - systick_val (now (tick s)) div of_nat ticksPerUs)
     = of_nat (micros (now (tick s)))"
proof -
  let ?v = "now (tick s)" and ?a = "now (tick (tick s))"
  note t = after_pass_time [OF assms(3)]
  have o: "ctrl_read s < ?v" "?v \<le> ?a" "?a \<le> now (after_pass s)" using assms(1) t(1-3) by linarith+
  then have le: "zero_events (ctrl_read s) \<le> zero_events ?v" "zero_events ?v \<le> zero_events ?a"
    "zero_events ?a \<le> zero_events (now (after_pass s))" by (auto intro: zero_events_mono)
  then have z: "zero_events ?v = zero_events (ctrl_read s)" "zero_events ?a = zero_events ?v" using assms(2) by linarith+
  define r where "r = (systick_period - 1 - ?v mod systick_period) div ticksPerUs"
  have small: "systick_period - 1 - ?v mod systick_period < 2 ^ 32" by (simp add: period_ticks)
  have uv: "unat (systick_val ?v) = systick_period - 1 - ?v mod systick_period"
    unfolding systick_val_def by (rule unat32_of_nat) (use small in simp)
  have "r < 1000" by (simp add: r_def period_ticks)
  have "unat (systick_val ?v div of_nat ticksPerUs) = r"
    unfolding r_def unat_div uv by (simp add: period_ticks(2))
  then have "unat (1000 - systick_val ?v div of_nat ticksPerUs) = 1000 - r"
    using \<open>r < 1000\<close> by (subst unat_sub) (simp_all add: word_le_nat_alt)
  then have "ucast (1000 - systick_val ?v div of_nat ticksPerUs) = (of_nat (1000 - r) :: u64)"
    by (metis of_nat_unat)
  then have "usAddition ?a + ucast (1000 - systick_val ?v div of_nat ticksPerUs)
      = (of_nat (1000 * zero_events ?v + (1000 - r)) :: u64)"
    by (simp add: usAddition_def handler_iter z(2) del: tick_sels)
  also have "1000 * zero_events ?v + (1000 - r) = micros ?v"
    unfolding r_def by (rule reading_exact [OF o(1) z(1)])
  finally show ?thesis .
qed

lemma utime_spec:
  assumes "paced s"
  shows "\<exists>t s'. utime s = Some (of_nat (micros t), s') \<and> clocked s s' \<and> now s < t \<and> t < now s' \<and> now s' \<le> now s + 7 * max_pace"
proof -
  define s0 where "s0 = snd (read_ctrl s)"
  have s0: "ctrl_read s0 = now s0" "now s < now s0" "now s0 \<le> now s + max_pace" "paced s0" "clocked s s0"
  proof -
    show "clocked s s0" unfolding s0_def by (rule read_ctrl_clocked)
    then show "paced s0" using assms clocked_sels(5) by blast
    have "pace s (accesses s) < max_pace" using assms by (simp add: paced_def)
    then show "ctrl_read s0 = now s0" "now s < now s0" "now s0 \<le> now s + max_pace"
      by (simp_all add: s0_def read_ctrl_def Let_def)
  qed
  define s1 where "s1 = after_pass s0"
  note t0 = after_pass_time [OF s0(4), folded s1_def]
  show ?thesis
  proof (cases "zero_events (now s1) = zero_events (ctrl_read s0)")
    case True
    have "ctrl_read s0 \<le> now s0" using s0(1) by simp
    from pass_value [OF this _ s0(4)] True have "utime s = Some (of_nat (micros (now (tick s0))), s1)"
      unfolding utime_def s0_def [symmetric] by (subst utime_loop_pass) (simp add: s1_def)
    moreover have "clocked s s1" unfolding s1_def by (rule clocked_trans [OF s0(5) after_pass_clocked])
    ultimately show ?thesis using t0(1-4) s0(2,3)
      by (intro exI [of _ "now (tick s0)"] exI [of _ s1]) auto
  next
    case False
    define s2 where "s2 = after_pass s1"
    note t1 = after_pass_time [OF t0(6), folded s2_def]
    have le: "zero_events (now s0) \<le> zero_events (now s1)" "zero_events (now s1) \<le> zero_events (now s2)"
      using t0(1-3) t1(1-3) by (auto intro!: zero_events_mono)
    have "now s2 + 1 \<le> now s0 + 1 + systick_period" using t0(4) t1(4) by (simp add: max_pace_def period_ticks)
    then have "zero_events (now s2) \<le> (now s0 + 1 + systick_period) div systick_period"
      unfolding zero_events_def by (rule div_le_mono)
    also have "\<dots> = zero_events (now s0) + 1" by (simp add: zero_events_def period_ticks)
    finally have z: "zero_events (now s2) = zero_events (ctrl_read s1)" using False le s0(1) t0(5) by simp
    have "ctrl_read s1 \<le> now s1" using t0(5) by simp
    from pass_value [OF this _ t0(6)] z have "utime_loop s1 = Some (of_nat (micros (now (tick s1))), s2)"
      by (subst utime_loop_pass) (simp add: s2_def)
    then have "utime s = Some (of_nat (micros (now (tick s1))), s2)"
      unfolding utime_def s0_def [symmetric] using False by (subst utime_loop_pass) (simp add: s1_def)
    moreover have "clocked s s2" unfolding s1_def s2_def
      by (rule clocked_trans [OF clocked_trans [OF s0(5) after_pass_clocked] after_pass_clocked])
    ultimately show ?thesis using t0(1-4) t1(1-4) s0(2,3)
      by (intro exI [of _ "now (tick s1)"] exI [of _ s2]) auto
  qed
qed

section \<open>Waiting\<close>

lemma micros_mono: "a \<le> b \<Longrightarrow> micros a \<le> micros b"
  by (simp add: micros_def div_le_mono)

lemma micros_less: "micros a < micros b + u \<Longrightarrow> a < b + ticksPerUs * (u + 1)"
proof -
  assume "micros a < micros b + u"
  then have "a div 144 + 1 \<le> b div 144 + u" by (simp add: micros_def period_ticks(2))
  moreover have "a < 144 + 144 * (a div 144)" "144 * (b div 144) \<le> b"
    by (rule dividend_less_times_div, simp) (rule times_div_less_eq_dividend)
  ultimately show ?thesis by (simp add: period_ticks(2) algebra_simps)
qed

lemma usleep_loop_spec:
  assumes "paced s" "t0 < now s" "now s \<le> t0 + ticksPerUs * (u + 1) + 7 * max_pace"
    and "u < 2 ^ 31" "t0 < 2 ^ 62"
  shows "\<exists>t s'. usleep_loop (of_nat (micros t0)) (int u) s = Some s' \<and> clocked s s' \<and> t < now s' \<and> micros t0 + u \<le> micros t
     \<and> now s' \<le> t0 + ticksPerUs * (u + 1) + 14 * max_pace"
  using assms
proof (induction "t0 + ticksPerUs * (u + 1) - now s" arbitrary: s rule: less_induct)
  case less
  from utime_spec [OF less.prems(1)] obtain t s1 where s1: "utime s = Some (of_nat (micros t), s1)" "clocked s s1"
    "now s < t" "t < now s1" "now s1 \<le> now s + 7 * max_pace" by blast
  have le: "micros t0 \<le> micros t" using s1(3) less.prems(2) by (intro micros_mono) simp
  have tb: "t < 2 ^ 63" using s1(4,5) less.prems(3-5) by (simp add: period_ticks(2) max_pace_def)
  then have mb: "micros t < 2 ^ 64" using div_le_dividend [of t 144] by (simp add: micros_def period_ticks(2))
  have un: "unat (of_nat n :: u64) = n" if "n < 2 ^ 64" for n using that by (simp add: unsigned_of_nat take_bit_nat_eq_self)
  have ge: "(of_nat (micros t) :: u64) - of_nat (micros t0) \<ge> word_of_int (int u) \<longleftrightarrow> micros t0 + u \<le> micros t"
  proof -
    have "(of_nat (micros t) :: u64) - of_nat (micros t0) = of_nat (micros t - micros t0)" using le by simp
    moreover have "u < 2 ^ 64" using less.prems(4) by simp
    ultimately show ?thesis using mb le un [of "micros t - micros t0"] un [of u]
      by (auto simp: word_le_nat_alt)
  qed
  have nl: "\<not> (of_nat (micros t) :: u64) < of_nat (micros t0)"
    using mb le un [of "micros t"] un [of "micros t0"] by (auto simp: word_less_nat_alt)
  show ?case
  proof (cases "micros t0 + u \<le> micros t")
    case True
    have "usleep_loop (of_nat (micros t0)) (int u) s = Some s1"
      by (subst usleep_loop.simps) (use s1(1) ge True in simp)
    then show ?thesis using s1 True less.prems(3) by (intro exI [of _ t] exI [of _ s1]) simp
  next
    case False
    have K: "t < t0 + ticksPerUs * (u + 1)" using False by (intro micros_less) simp
    have "\<exists>t s'. usleep_loop (of_nat (micros t0)) (int u) s1 = Some s' \<and> clocked s1 s' \<and> t < now s' \<and> micros t0 + u \<le> micros t
       \<and> now s' \<le> t0 + ticksPerUs * (u + 1) + 14 * max_pace"
      by (rule less.hyps) (use K s1(3-5) less.prems clocked_sels(5) [OF s1(2)] in auto)
    moreover have "usleep_loop (of_nat (micros t0)) (int u) s = usleep_loop (of_nat (micros t0)) (int u) s1"
      by (subst usleep_loop.simps) (use s1(1) ge False nl in simp)
    ultimately show ?thesis using clocked_trans [OF s1(2)] by (metis (no_types, lifting))
  qed
qed

section \<open>The list of timers\<close>

fun linked :: "(nat \<Rightarrow> stmr_t option) \<Rightarrow> nat option \<Rightarrow> nat list \<Rightarrow> bool" where
  "linked m p [] \<longleftrightarrow> p = None"
| "linked m p (a # as) \<longleftrightarrow> p = Some a \<and> (\<exists>b. m a = Some b \<and> linked m (t_next b) as)"

definition tlist :: "'a timers_scheme \<Rightarrow> nat list \<Rightarrow> bool" where
  "tlist s as \<longleftrightarrow> linked (tmrs s) (stmrs s) as \<and> distinct as"

text \<open>All fields but \<open>next\<close>.\<close>

definition payload_of :: "stmr_t option \<Rightarrow> stmr_t option" where
  "payload_of = map_option (t_next_update (\<lambda>_. None))"

lemma linked_cong: "(\<And>a. a \<in> set as \<Longrightarrow> map_option t_next (m' a) = map_option t_next (m a)) \<Longrightarrow> linked m' p as = linked m p as"
proof (induction as arbitrary: p)
  case (Cons a as)
  have "map_option t_next (m' a) = map_option t_next (m a)" using Cons.prems by simp
  then show ?case using Cons by (cases "m a"; cases "m' a") auto
qed simp

lemma linked_split: "linked m p (xs @ a # ys) \<Longrightarrow> \<exists>b. m a = Some b \<and> linked m (t_next b) ys"
  by (induction xs arbitrary: p) auto

lemma upd_tmr_Some: "tmrs s a = Some b \<Longrightarrow> upd_tmr a f s = Some (s\<lparr>tmrs := (tmrs s)(a \<mapsto> f b)\<rparr>)"
  by (simp add: upd_tmr_def)

lemma stmr_add_spec:
  assumes "tlist s as" "tmrs s x = Some b" "x \<notin> set as"
  shows "\<exists>s'. stmr_add x s = Some s' \<and> tlist s' (x # as) \<and> (\<forall>a. payload_of (tmrs s' a) = payload_of (tmrs s a))"
proof -
  have "linked ((tmrs s)(x \<mapsto> b\<lparr>t_next := stmrs s\<rparr>)) (stmrs s) as"
    using assms by (subst linked_cong [of as _ "tmrs s"]) (auto simp: tlist_def)
  then show ?thesis using assms
    by (auto simp: stmr_add_def upd_tmr_Some tlist_def payload_of_def fun_eq_iff)
qed

lemma free_loop_spec:
  assumes "linked (tmrs s) (Some t) (t # as)" "distinct (t # as)" "x \<noteq> t" "linked (tmrs s) p (xs @ t # as)" "distinct (xs @ t # as)"
  shows "\<exists>s'. free_loop x t s = Some s' \<and> stmrs s' = stmrs s \<and> linked (tmrs s') p (xs @ t # remove1 x as)
     \<and> (\<forall>a. payload_of (tmrs s' a) = payload_of (tmrs s a))"
  using assms
proof (induction as arbitrary: t xs)
  case Nil
  then show ?case by (subst free_loop.simps) auto
next
  case (Cons n as)
  from Cons.prems(1) obtain b c where b: "tmrs s t = Some b" "t_next b = Some n" "tmrs s n = Some c" "linked (tmrs s) (t_next c) as"
    by auto
  show ?case
  proof (cases "n = x")
    case True
    define m where "m = (tmrs s)(t \<mapsto> b\<lparr>t_next := t_next c\<rparr>, x \<mapsto> c\<lparr>t_next := None\<rparr>)"
    have m: "free_loop x t s = Some (s\<lparr>tmrs := m\<rparr>)"
      by (subst free_loop.simps) (use b True Cons.prems(3) in \<open>simp add: upd_tmr_Some m_def\<close>)
    have mt: "m t = Some (b\<lparr>t_next := t_next c\<rparr>)" "\<And>a. a \<noteq> x \<Longrightarrow> a \<noteq> t \<Longrightarrow> m a = tmrs s a"
      using Cons.prems(3) by (simp_all add: m_def)
    have nx: "x \<notin> set (xs @ t # as)" "t \<notin> set as" "t \<notin> set xs" using Cons.prems(5) True by auto
    have "m a = tmrs s a" if "a \<in> set as" for a using that nx mt(2) [of a] by auto
    then have as: "linked m (t_next c) as" using b(4) by (subst linked_cong [of as _ "tmrs s"]) auto
    have "linked m q (ys @ t # as)" if "linked (tmrs s) q (ys @ t # n # as)" "set ys \<subseteq> set xs" for q ys
      using that
    proof (induction ys arbitrary: q)
      case Nil
      then show ?case using as nx b mt(1) by auto
    next
      case (Cons y ys)
      then have "y \<noteq> x" "y \<noteq> t" using nx by auto
      then show ?case using Cons mt(2) by auto
    qed
    from this [OF Cons.prems(4)] have "linked m p (xs @ t # as)" by simp
    then show ?thesis using m b True Cons.prems(3) by (auto simp: payload_of_def fun_eq_iff m_def)
  next
    case False
    have st: "free_loop x t s = free_loop x n s"
      by (subst free_loop.simps) (use b False in simp)
    have "\<exists>s'. free_loop x n s = Some s' \<and> stmrs s' = stmrs s \<and> linked (tmrs s') p ((xs @ [t]) @ n # remove1 x as)
     \<and> (\<forall>a. payload_of (tmrs s' a) = payload_of (tmrs s a))"
      by (rule Cons.IH) (use Cons.prems b False in auto)
    then show ?thesis using False unfolding st by simp
  qed
qed

lemma stmr_free_spec:
  assumes "tlist s as"
  shows "\<exists>s'. stmr_free x s = Some s' \<and> tlist s' (remove1 x as) \<and> (\<forall>a. payload_of (tmrs s' a) = payload_of (tmrs s a))"
proof (cases as)
  case Nil
  then show ?thesis using assms by (auto simp: tlist_def stmr_free_def)
next
  case (Cons h rest)
  from assms obtain b where b: "stmrs s = Some h" "tmrs s h = Some b" "linked (tmrs s) (t_next b) rest" "distinct as"
    by (auto simp: tlist_def Cons)
  show ?thesis
  proof (cases "x = h")
    case True
    have "linked ((tmrs s)(h \<mapsto> b\<lparr>t_next := None\<rparr>)) (t_next b) rest"
      using b Cons by (subst linked_cong [of rest _ "tmrs s"]) auto
    then show ?thesis using b Cons True
      by (auto simp: stmr_free_def upd_tmr_Some tlist_def payload_of_def fun_eq_iff)
  next
    case False
    have "\<exists>s'. free_loop x h s = Some s' \<and> stmrs s' = stmrs s \<and> linked (tmrs s') (stmrs s) ([] @ h # remove1 x rest)
       \<and> (\<forall>a. payload_of (tmrs s' a) = payload_of (tmrs s a))"
      by (rule free_loop_spec) (use assms b Cons False in \<open>auto simp: tlist_def\<close>)
    then show ?thesis using b Cons False by (auto simp: stmr_free_def tlist_def)
  qed
qed

section \<open>Running the timers\<close>

lemma ucast_of_nat_32: "ucast (of_nat n :: u64) = (of_nat n :: u32)"
  by (rule bit_word_eqI) (simp add: bit_simps)

definition due :: "u32 \<Rightarrow> stmr_t \<Rightarrow> bool" where
  "due time b \<longleftrightarrow> t_flags b AND STMR_ACTIVE \<noteq> 0 \<and> t_period b \<le> time - t_event b"

definition due_timers :: "u32 \<Rightarrow> (nat \<Rightarrow> stmr_t option) \<Rightarrow> nat list \<Rightarrow> nat list" where
  "due_timers time m as = filter (\<lambda>a. case m a of None \<Rightarrow> False | Some b \<Rightarrow> due time b) as"

text \<open>The timer functions of a client: \<open>effect f t\<close> is what the function \<open>f\<close> does for timer \<open>t\<close>.\<close>

locale timer_calls =
  fixes call :: "nat \<Rightarrow> nat \<Rightarrow> 'a timers_scheme \<Rightarrow> 'a timers_scheme option"
    and known :: "nat set" and effect :: "nat \<Rightarrow> nat \<Rightarrow> 'a \<Rightarrow> 'a"
  assumes calls: "f \<in> known \<Longrightarrow> \<exists>s'. call f t s = Some (s'\<lparr>timers.more := effect f t (timers.more s)\<rparr>) \<and> clocked s s'"
begin

definition ready :: "(nat \<Rightarrow> stmr_t option) \<Rightarrow> nat \<Rightarrow> bool" where
  "ready m a \<longleftrightarrow> (\<exists>b f. m a = Some b \<and> t_proc b = Some f \<and> f \<in> known)"

definition run_effect :: "(nat \<Rightarrow> stmr_t option) \<Rightarrow> nat \<Rightarrow> 'a \<Rightarrow> 'a" where
  "run_effect m a = (case m a of None \<Rightarrow> id | Some b \<Rightarrow> effect (the (t_proc b)) a)"

definition restarted :: "(nat \<Rightarrow> stmr_t option) \<Rightarrow> (nat \<Rightarrow> stmr_t option) \<Rightarrow> nat list \<Rightarrow> nat \<Rightarrow> nat \<Rightarrow> bool" where
  "restarted m m' as n n' \<longleftrightarrow> (\<forall>a. if a \<in> set as
      then \<exists>b t. m a = Some b \<and> n < t \<and> t < n' \<and> m' a = Some (b\<lparr>t_event := of_nat (micros t)\<rparr>) else m' a = m a)"

lemma stmr_loop_spec:
  assumes "linked (tmrs s) p as" "distinct as" "paced s" "\<forall>a \<in> set as. ready (tmrs s) a"
  shows "\<exists>s'. stmr_loop call time p s = Some s' \<and> stmrs s' = stmrs s \<and> paced s' \<and> now s \<le> now s'
     \<and> timers.more s' = fold (run_effect (tmrs s)) (due_timers time (tmrs s) as) (timers.more s)
     \<and> restarted (tmrs s) (tmrs s') (due_timers time (tmrs s) as) (now s) (now s')"
  using assms
proof (induction as arbitrary: p s)
  case Nil
  then show ?case by (subst stmr_loop.simps) (simp add: due_timers_def restarted_def)
next
  case (Cons t as)
  from Cons.prems(1) obtain b where b: "p = Some t" "tmrs s t = Some b" "linked (tmrs s) (t_next b) as" by auto
  from Cons.prems(4) b(2) obtain f where f: "t_proc b = Some f" "f \<in> known" by (auto simp: ready_def)
  show ?case
  proof (cases "due time b")
    case False
    have st: "stmr_loop call time p s = stmr_loop call time (t_next b) s"
      by (subst stmr_loop.simps) (use b False in \<open>auto simp: due_def not_le\<close>)
    have d: "due_timers time (tmrs s) (t # as) = due_timers time (tmrs s) as" using b False by (simp add: due_timers_def)
    show ?thesis unfolding st d by (rule Cons.IH) (use b Cons.prems in auto)
  next
    case True
    from calls [OF f(2), of t s] obtain s1 where s1:
      "call f t s = Some (s1\<lparr>timers.more := effect f t (timers.more s)\<rparr>)" "clocked s s1" by blast
    let ?s1 = "s1\<lparr>timers.more := effect f t (timers.more s)\<rparr>"
    have p1: "paced ?s1" "now s \<le> now ?s1" "tmrs ?s1 = tmrs s" "stmrs ?s1 = stmrs s"
      using Cons.prems(3) clocked_sels [OF s1(2)] by (simp_all add: paced_def)
    from utime_spec [OF p1(1)] obtain u s2 where s2: "utime ?s1 = Some (of_nat (micros u), s2)" "clocked ?s1 s2"
      "now ?s1 < u" "u < now s2" by blast
    note c2 = clocked_sels [OF s2(2)]
    define b' where "b' = b\<lparr>t_event := of_nat (micros u)\<rparr>"
    define s3 where "s3 = s2\<lparr>tmrs := (tmrs s)(t \<mapsto> b')\<rparr>"
    have u: "upd_tmr t (\<lambda>b. b\<lparr>t_event := ucast (of_nat (micros u) :: u64)\<rparr>) s2 = Some s3"
      using b(2) c2(1) p1(3) by (simp add: upd_tmr_def s3_def b'_def ucast_of_nat_32)
    have st: "stmr_loop call time p s = stmr_loop call time (t_next b) s3"
      by (subst stmr_loop.simps) (use b True f s1(1) s2(1) u in \<open>auto simp: due_def not_less\<close>)
    have t: "t \<notin> set as" using Cons.prems(2) by simp
    have m3: "tmrs s3 = (tmrs s)(t \<mapsto> b')" "stmrs s3 = stmrs s" "now s3 = now s2" "paced s3"
      "timers.more s3 = effect f t (timers.more s)"
      using c2 p1 by (simp_all add: s3_def paced_def)
    have l3: "linked (tmrs s3) (t_next b) as" using b(3) t by (subst linked_cong [of as _ "tmrs s"]) (auto simp: m3)
    have r3: "\<forall>a \<in> set as. ready (tmrs s3) a" using Cons.prems(4) t by (auto simp: m3 ready_def)
    have d3: "due_timers time (tmrs s3) as = due_timers time (tmrs s) as"
      unfolding due_timers_def using t by (intro filter_cong) (auto simp: m3)
    have e3: "fold (run_effect (tmrs s3)) (due_timers time (tmrs s) as) x = fold (run_effect (tmrs s)) (due_timers time (tmrs s) as) x" for x
      using t by (intro fold_cong) (auto simp: due_timers_def m3 run_effect_def)
    have d: "due_timers time (tmrs s) (t # as) = t # due_timers time (tmrs s) as" using b True by (simp add: due_timers_def)
    from Cons.IH [OF l3 _ m3(4) r3] Cons.prems(2) obtain s' where s':
      "stmr_loop call time (t_next b) s3 = Some s'" "stmrs s' = stmrs s3" "paced s'" "now s3 \<le> now s'"
      "timers.more s' = fold (run_effect (tmrs s)) (due_timers time (tmrs s) as) (timers.more s3)"
      "restarted (tmrs s3) (tmrs s') (due_timers time (tmrs s) as) (now s3) (now s')" unfolding d3 e3 by auto
    have "restarted (tmrs s) (tmrs s') (t # due_timers time (tmrs s) as) (now s) (now s')"
      unfolding restarted_def
    proof
      fix a
      have sa: "if a \<in> set (due_timers time (tmrs s) as)
         then \<exists>b t. tmrs s3 a = Some b \<and> now s3 < t \<and> t < now s' \<and> tmrs s' a = Some (b\<lparr>t_event := of_nat (micros t)\<rparr>)
         else tmrs s' a = tmrs s3 a" using s'(6) unfolding restarted_def by (rule spec)
      show "if a \<in> set (t # due_timers time (tmrs s) as)
         then \<exists>b t. tmrs s a = Some b \<and> now s < t \<and> t < now s' \<and> tmrs s' a = Some (b\<lparr>t_event := of_nat (micros t)\<rparr>)
         else tmrs s' a = tmrs s a"
      proof (cases "a = t")
        case True
        then have "a \<notin> set (due_timers time (tmrs s) as)" using t by (simp add: due_timers_def)
        then have "tmrs s' a = Some b'" using sa True by (simp add: m3)
        then show ?thesis using True b(2) s2(3,4) p1(2) s'(4) m3(3) by (auto simp: b'_def intro!: exI [of _ u])
      next
        case False
        have "now s \<le> now s3" using p1(2) c2(4) m3(3) by simp
        then show ?thesis using sa False by (auto simp: m3(1) split: if_splits intro: le_less_trans)
      qed
    qed
    moreover have "run_effect (tmrs s) t = effect f t" using b(2) f(1) by (simp add: run_effect_def)
    ultimately show ?thesis using s' p1(2) c2(4) m3 unfolding st d
      by (intro exI [of _ s']) simp
  qed
qed

end

section \<open>What extends the state is left alone\<close>

lemma read_more [simp]: "timers.more (snd (read_val s)) = timers.more s" "timers.more (snd (read_addition s)) = timers.more s"
  "timers.more (snd (read_ctrl s)) = timers.more s"
  by (simp_all add: read_val_def read_addition_def read_ctrl_def tick_def Let_def)

lemma utime_loop_more:
  assumes "utime_loop s = Some r"
  shows "timers.more (snd r) = timers.more s"
proof (rule utime_loop.raw_induct [where P = "\<lambda>s r. timers.more (snd r) = timers.more s", OF _ assms])
  fix f :: "'a timers_scheme \<Rightarrow> (u64 \<times> 'a timers_scheme) option" and s r
  assume IH: "\<And>s r. f s = Some r \<Longrightarrow> timers.more (snd r) = timers.more s"
    and eq: "(let (ticks, s) = read_val s; (res, s) = read_addition s; (flag, s) = read_ctrl s in
      if flag then f s else Some (res + ucast (1000 - ticks div of_nat ticksPerUs), s)) = Some r"
  let ?t = "snd (read_ctrl (snd (read_addition (snd (read_val s)))))"
  have "timers.more (snd r) = timers.more ?t"
    using eq IH [of ?t r] by (auto simp: Let_def case_prod_beta split: if_splits)
  then show "timers.more (snd r) = timers.more s" by simp
qed

lemma utime_more: "utime s = Some (t, s') \<Longrightarrow> timers.more s' = timers.more s"
  using utime_loop_more [of "snd (read_ctrl s)" "(t, s')"] by (simp add: utime_def)

lemma usleep_loop_more:
  assumes "usleep_loop t us s = Some s'"
  shows "timers.more s' = timers.more s"
proof (rule usleep_loop.raw_induct [where P = "\<lambda>t us s s'. timers.more s' = timers.more s", OF _ assms])
  fix f :: "u64 \<Rightarrow> int \<Rightarrow> 'a timers_scheme \<Rightarrow> 'a timers_scheme option" and t us s s'
  assume IH: "\<And>t us s s'. f t us s = Some s' \<Longrightarrow> timers.more s' = timers.more s"
    and eq: "do { (t1, s) \<leftarrow> utime s; if t1 - t \<ge> word_of_int us then Some s else if t1 < t then Some s else f t us s } = Some s'"
  from eq obtain t1 u where u: "utime s = Some (t1, u)"
    "(if t1 - t \<ge> word_of_int us then Some u else if t1 < t then Some u else f t us u) = Some s'"
    by (auto split: bind_splits)
  show "timers.more s' = timers.more s" using u(2) utime_more [OF u(1)] IH [of t us u s'] by (auto split: if_splits)
qed

lemma usleep_more: "usleep us s = Some s' \<Longrightarrow> timers.more s' = timers.more s"
  by (auto simp: usleep_def usleep_loop_more utime_more split: bind_splits)

lemma stmr_run_more: "stmr_run t s = Some s' \<Longrightarrow> timers.more s' = timers.more s"
  by (auto simp: stmr_run_def upd_tmr_def dest!: utime_more split: bind_splits option.splits)

section \<open>Properties\<close>

text \<open>A board that has just started, every access one tick.\<close>

definition booted :: "timers" where
  "booted = \<lparr>tmrs = Map.empty, stmrs = None, now = 0, ctrl_read = 0, accesses = 0, pace = (\<lambda>k. 0)\<rparr>"

lemma booted_ok: "paced booted" "tlist booted []"
  by (simp_all add: paced_def booted_def max_pace_def tlist_def)

text \<open>
  C30: The clock is exact and its retry loop ends. However the accesses are spaced, up to
  \<open>max_pace\<close> ticks each, \<open>utime\<close> returns the microseconds elapsed at a moment between its call and
  its return: the re-read on COUNTFLAG removes the race between the counter and the handler.
\<close>

theorem utime_exact:
  assumes "paced s"
  shows "\<exists>t s'. utime s = Some (of_nat (1 + t div ticksPerUs), s') \<and> clocked s s' \<and> now s < t \<and> t < now s'
     \<and> now s' \<le> now s + 7 * max_pace"
  using utime_spec [OF assms] by (simp add: micros_def)

theorem utime_exact_witness:
  "\<exists>t s'. utime booted = Some (of_nat (1 + t div ticksPerUs), s') \<and> t < now s'"
  using utime_exact [OF booted_ok(1)] by blast

text \<open>
  C31: The busy wait ends, not before the time asked for (to the microsecond the clock resolves)
  and not much later.
\<close>

theorem usleep_waits:
  assumes "paced s" "u < 2 ^ 31" "now s < 2 ^ 61"
  shows "\<exists>s'. usleep (int u) s = Some s' \<and> clocked s s' \<and> now s + ticksPerUs * u \<le> now s' + ticksPerUs
     \<and> now s' \<le> now s + ticksPerUs * (u + 1) + 21 * max_pace"
proof -
  from utime_spec [OF assms(1)] obtain t0 s1 where s1: "utime s = Some (of_nat (micros t0), s1)" "clocked s s1"
    "now s < t0" "t0 < now s1" "now s1 \<le> now s + 7 * max_pace" by blast
  have p1: "paced s1" using assms(1) clocked_sels(5) [OF s1(2)] by simp
  have "t0 < 2 ^ 62" "now s1 \<le> t0 + ticksPerUs * (u + 1) + 7 * max_pace"
    using s1(3-5) assms(3) by (simp_all add: max_pace_def)
  from usleep_loop_spec [OF p1 s1(4) this(2) assms(2) this(1)] obtain t s' where s':
    "usleep_loop (of_nat (micros t0)) (int u) s1 = Some s'" "clocked s1 s'" "t < now s'" "micros t0 + u \<le> micros t"
    "now s' \<le> t0 + ticksPerUs * (u + 1) + 14 * max_pace" by blast
  have "t0 div 144 + u \<le> t div 144" using s'(4) by (simp add: micros_def period_ticks(2))
  moreover have "t0 < 144 + 144 * (t0 div 144)" by (rule dividend_less_times_div) simp
  moreover have "144 * (t div 144) \<le> t" by (rule times_div_less_eq_dividend)
  ultimately have "now s + ticksPerUs * u \<le> now s' + ticksPerUs" using s1(3) s'(3) by (simp add: period_ticks(2))
  moreover have "now s' \<le> now s + ticksPerUs * (u + 1) + 21 * max_pace" using s'(5) s1(4,5) by simp
  ultimately show ?thesis using s1(1) s'(1) clocked_trans [OF s1(2) s'(2)] by (simp add: usleep_def)
qed

theorem usleep_waits_witness:
  "\<exists>s'. usleep 1000 booted = Some s' \<and> 143000 \<le> now s'"
proof -
  have "(1000 :: nat) < 2 ^ 31" "now booted < 2 ^ 61" by (simp_all add: booted_def)
  from usleep_waits [OF booted_ok(1) this] show ?thesis by (auto simp: period_ticks(2) booted_def)
qed

text \<open>
  A timer is due exactly when its period has passed, also across the wrap of the 32-bit
  microsecond count: for an active timer last run at microsecond \<open>e\<close>, any moment up to
  \<open>2 ^ 32\<close> microseconds later.
\<close>

theorem due_across_wrap:
  assumes "e \<le> n" "n < e + 2 ^ 32" "t_event b = of_nat e" "t_flags b AND STMR_ACTIVE \<noteq> 0"
  shows "due (of_nat n) b \<longleftrightarrow> e + unat (t_period b) \<le> n"
proof -
  have "(of_nat n :: u32) - of_nat e = of_nat (n - e)" using assms(1) by simp
  moreover have "unat (of_nat (n - e) :: u32) = n - e" using assms(1,2) by (intro unat32_of_nat) simp
  ultimately show ?thesis using assms by (auto simp: due_def word_le_nat_alt)
qed

theorem due_across_wrap_witness:
  "due (of_nat (2 ^ 32 + 40)) \<lparr>t_period = 50, t_event = of_nat (2 ^ 32 - 10), t_flags = 1, t_data = None, t_proc = None, t_next = None\<rparr>"
  by (subst due_across_wrap [of "2 ^ 32 - 10"]) (simp_all add: STMR_ACTIVE_def)

text \<open>
  The linked timers are a list. \<open>stmr_free\<close> removes the timer it is given, wherever it
  stands, and nothing when it is not linked; the rest keeps its order and no timer loses its
  fields.
\<close>

theorem stmr_free_removes:
  assumes "tlist s as"
  shows "\<exists>s'. stmr_free x s = Some s' \<and> tlist s' (remove1 x as) \<and> (\<forall>a. payload_of (tmrs s' a) = payload_of (tmrs s a))"
  by (rule stmr_free_spec [OF assms])

text \<open>Adding a timer and freeing it restores the list.\<close>

theorem stmr_add_free_roundtrip:
  assumes "tlist s as" "tmrs s x \<noteq> None" "x \<notin> set as"
  shows "\<exists>s1 s2. stmr_add x s = Some s1 \<and> tlist s1 (x # as) \<and> stmr_free x s1 = Some s2 \<and> tlist s2 as
     \<and> (\<forall>a. payload_of (tmrs s2 a) = payload_of (tmrs s a))"
proof -
  from assms(2) obtain b where "tmrs s x = Some b" by blast
  from stmr_add_spec [OF assms(1) this assms(3)] obtain s1 where s1: "stmr_add x s = Some s1" "tlist s1 (x # as)"
    "\<forall>a. payload_of (tmrs s1 a) = payload_of (tmrs s a)" by blast
  from stmr_free_spec [OF s1(2), of x] obtain s2 where "stmr_free x s1 = Some s2" "tlist s2 as"
    "\<forall>a. payload_of (tmrs s2 a) = payload_of (tmrs s1 a)" by auto
  with s1 show ?thesis by auto
qed

definition spare :: stmr_t where
  "spare = \<lparr>t_period = 50000, t_event = 0, t_flags = 1, t_data = None, t_proc = Some 0, t_next = None\<rparr>"

definition two_timers :: "timers" where
  "two_timers = booted\<lparr>tmrs := [0 \<mapsto> spare\<lparr>t_next := Some 1\<rparr>, 1 \<mapsto> spare, 2 \<mapsto> spare], stmrs := Some 0\<rparr>"

lemma two_timers_ok: "tlist two_timers [0, 1]"
  by (simp add: tlist_def two_timers_def booted_def spare_def)

theorem stmr_free_removes_witness:
  "\<exists>s'. stmr_free 1 two_timers = Some s' \<and> tlist s' [0]"
  using stmr_free_removes [OF two_timers_ok, of 1] by auto

theorem stmr_add_free_roundtrip_witness:
  "\<exists>s1 s2. stmr_add 2 two_timers = Some s1 \<and> tlist s1 [2, 0, 1] \<and> stmr_free 2 s1 = Some s2 \<and> tlist s2 [0, 1]"
proof -
  have "tmrs two_timers 2 \<noteq> None" "2 \<notin> set [0 :: nat, 1]" by (simp_all add: two_timers_def)
  from stmr_add_free_roundtrip [OF two_timers_ok this] show ?thesis by blast
qed

end
