(* ===== verification/Usb_Inv.thy ===== *)
theory Usb_Inv
  imports Dcd_Int
begin

text \<open>The invariant of the device and its preservation by the setup stage and by every handler of the
  interrupt routine. What a class must provide for that is the locale \<open>usb_class\<close>.\<close>

unbundle bit_operations_syntax

section \<open>The invariant of the device\<close>

text \<open>\<open>J\<close> is the part of the class driver.\<close>

definition dev_inv :: "('c \<Rightarrow> bool) \<Rightarrow> 'c usb \<Rightarrow> bool" where
  "dev_inv J s \<longleftrightarrow> usb_ok s \<and> (\<forall>r. length (mem s r) = region_size r)
     \<and> device_status s \<in> {USB_OTG_DEFAULT, USB_OTG_ADDRESSED, USB_OTG_CONFIGURED, USB_OTG_SUSPENDED}
     \<and> device_config s \<le> USBD_CFG_MAX_NUM \<and> device_address s < 128 \<and> J (cls s)"

lemma dev_inv_io: "io s t \<Longrightarrow> dev_inv J t = dev_inv J s"
  by (simp add: dev_inv_def usb_ok_io io_sels)

lemma dev_inv_put: "dev_inv J s \<Longrightarrow> ep_ready e \<Longrightarrow> dev_inv J (put_in a e s)" "dev_inv J s \<Longrightarrow> ep_ready e \<Longrightarrow> dev_inv J (put_out a e s)"
  by (simp_all add: dev_inv_def usb_ok_put) (simp_all add: put_in_def put_out_def)

lemma dev_inv_upd [simp]:
  "dev_inv J (s\<lparr>device_state := a\<rparr>) = dev_inv J s" "dev_inv J (s\<lparr>pConfig_descriptor := b\<rparr>) = dev_inv J s"
  "dev_inv J (s\<lparr>DevRemoteWakeup := c\<rparr>) = dev_inv J s" "dev_inv J (s\<lparr>SET_TEST_MODE := d\<rparr>) = dev_inv J s"
  "dev_inv J (s\<lparr>test_mode := e\<rparr>) = dev_inv J s" "dev_inv J (s\<lparr>speed := f\<rparr>) = dev_inv J s" "dev_inv J (s\<lparr>mps := g\<rparr>) = dev_inv J s"
  "dev_inv J (s\<lparr>connection_status := h\<rparr>) = dev_inv J s" "dev_inv J (s\<lparr>reads := i\<rparr>) = dev_inv J s"
  "dev_inv J (s\<lparr>device_old_status := j\<rparr>) = dev_inv J s"
  by (simp_all add: dev_inv_def usb_ok_def)

lemma dev_inv_wr [simp]: "dev_inv J (wr r v s) = dev_inv J s" "dev_inv J (modify_reg r a b s) = dev_inv J s"
  by (rule dev_inv_io; simp)+

definition always :: "('c \<Rightarrow> bool) \<Rightarrow> 'c usb option \<Rightarrow> bool" where
  "always J r \<longleftrightarrow> (\<exists>s. r = Some s \<and> dev_inv J s)"

definition keeps :: "('c \<Rightarrow> bool) \<Rightarrow> 'c usb option \<Rightarrow> bool" where
  "keeps J r \<longleftrightarrow> (\<forall>s. r = Some s \<longrightarrow> dev_inv J s)"

named_theorems totals \<open>operations that never fault\<close>
named_theorems safes \<open>operations that keep the invariant\<close>

lemma total_Some [simp]: "always J (Some s) = dev_inv J s"
  by (simp add: always_def)

lemma safe_Some [simp]: "keeps J (Some s) = dev_inv J s" "keeps J None"
  by (simp_all add: keeps_def)

lemma total_safe: "always J r \<Longrightarrow> keeps J r"
  by (auto simp: always_def keeps_def)

lemma total_bind: "always J r \<Longrightarrow> (\<And>s. dev_inv J s \<Longrightarrow> always J (f s)) \<Longrightarrow> always J (r \<bind> f)"
  by (auto simp: always_def)

lemma safe_bind: "keeps J r \<Longrightarrow> (\<And>s. dev_inv J s \<Longrightarrow> keeps J (f s)) \<Longrightarrow> keeps J (r \<bind> f)"
  by (cases r) (auto simp: keeps_def)

lemma total_if: "(b \<Longrightarrow> always J x) \<Longrightarrow> (\<not> b \<Longrightarrow> always J y) \<Longrightarrow> always J (if b then x else y)"
  by simp

lemma safe_if: "(b \<Longrightarrow> keeps J x) \<Longrightarrow> (\<not> b \<Longrightarrow> keeps J y) \<Longrightarrow> keeps J (if b then x else y)"
  by simp

lemma inv_eps:
  assumes "dev_inv J s"
  shows "in_ep s \<noteq> []" "out_ep s \<noteq> []" "usb_ok s" "length (in_ep s) = 15" "length (out_ep s) = 15" "dev_endpoints s = 4"
  using assms by (auto simp: dev_inv_def usb_ok_def)

lemma exists_iff: "usb_ok s \<Longrightarrow> ep_exists a s \<longleftrightarrow> a AND 0x7F < 4"
  by (auto simp: ep_exists_def usb_ok_def has_ep_def ep_index_def word_less_nat_alt)

lemma the_ep_ready:
  assumes "usb_ok s" "ep_exists a s"
  shows "ep_ready (the_ep a s)"
proof -
  have "ep_index a < 4" using assms exists_iff [OF assms(1)] by (simp add: ep_index_def word_less_nat_alt)
  then show ?thesis using assms(1) by (auto simp: the_ep_def usb_ok_def)
qed

lemma dev_inv_put_ep: "dev_inv J s \<Longrightarrow> ep_ready e \<Longrightarrow> dev_inv J (put_ep a e s)"
  by (simp add: put_ep_def dev_inv_put)

lemma stall_total:
  assumes "dev_inv J s" "a AND 0x7F < 4"
  shows "always J (DCD_EP_Stall a s)" "always J (DCD_EP_ClrStall a s)" "always J (DCD_EP_Close a s)"
    "n \<noteq> 0 \<Longrightarrow> type \<noteq> EP_TYPE_ISOC \<Longrightarrow> always J (DCD_EP_Open a n type s)"
proof -
  have ok: "usb_ok s" using inv_eps [OF assms(1)] by simp
  have ex: "ep_exists a s" using exists_iff [OF ok] assms(2) by simp
  have r: "ep_ready (the_ep a s)" by (rule the_ep_ready [OF ok ex])
  then have "ep_ready ((addressed a (the_ep a s))\<lparr>is_stall := x\<rparr>)" "ep_ready (addressed a (the_ep a s))" for x
    by (simp_all add: ep_ready_def addressed_def)
  then show "always J (DCD_EP_Stall a s)" "always J (DCD_EP_ClrStall a s)" "always J (DCD_EP_Close a s)"
    using DCD_EP_Stall_ok [OF ex] DCD_EP_ClrStall_ok [OF ex] DCD_EP_Close_ok [OF ex] dev_inv_put_ep [OF assms(1), of _ a]
    by (auto simp: always_def dest: dev_inv_io)
  assume n: "n \<noteq> 0" "type \<noteq> EP_TYPE_ISOC"
  have "unat (ucast n :: u32) = unat n" using u16_bound [of n] by (simp add: unsigned_ucast_eq take_bit_nat_eq_self)
  then have "(ucast n :: u32) \<noteq> 0" using n(1) by (metis unat_eq_0)
  then have "ep_ready (opened a n type (the_ep a s))" using n by (simp add: ep_ready_def opened_def addressed_def Let_def)
  then show "always J (DCD_EP_Open a n type s)"
    using DCD_EP_Open_ok [OF ex, of n type] dev_inv_put_ep [OF assms(1), of _ a] by (auto simp: always_def dest: dev_inv_io)
qed

lemma stall_safe:
  assumes "dev_inv J s"
  shows "keeps J (DCD_EP_Stall a s)"  "keeps J (DCD_EP_ClrStall a s)"
proof -
  have ok: "dev_endpoints s = 4" using inv_eps [OF assms] by simp
  have "DCD_EP_Stall a s = None" "DCD_EP_ClrStall a s = None" if "\<not> a AND 0x7F < 4"
  proof -
    have "\<not> has_ep (a AND 0x7F) s" using that ok by (simp add: has_ep_def)
    then show "DCD_EP_Stall a s = None" "DCD_EP_ClrStall a s = None"
      by (rule DCD_EP_Stall_fault, auto simp: DCD_EP_ClrStall_def USB_OTG_EPClearStall_def split: bind_splits)
  qed
  then show "keeps J (DCD_EP_Stall a s)"  "keeps J (DCD_EP_ClrStall a s)"
    using stall_total [OF assms] by (cases "a AND 0x7F < 4"; auto intro: total_safe)+
qed

lemma tx_total:
  assumes "dev_inv J s" "a AND 0x7F < 4"
  shows "always J (DCD_EP_Tx a p n s)" "always J (DCD_EP_PrepareRx a p m s)"
proof -
  have i4: "ep_index a < 4" using assms(2) by (simp add: ep_index_def word_less_nat_alt)
  have r: "ep_ready (in_ep s ! ep_index a)" "ep_ready (out_ep s ! ep_index a)" "length (in_ep s) = 15" "length (out_ep s) = 15"
    "dev_endpoints s = 4" using inv_eps [OF assms(1)] i4 by (auto simp: usb_ok_def)
  have c: "ep_ready (tx_ep a p n (in_ep s ! ep_index a))" "ep_ready (rx_ep a p m (out_ep s ! ep_index a))"
    "ep_ready (cut_ep0 (tx_ep a p n (in_ep s ! ep_index a)))" "ep_ready (cut_ep0 (rx_ep a p m (out_ep s ! ep_index a)))"
    using r(1,2) by (auto simp: ep_ready_def tx_ep_def rx_ep_def cut_ep0_def)
  show "always J (DCD_EP_Tx a p n s)"
  proof (cases "a AND 0x7F = 0")
    case True
    then have "DCD_EP_Tx a p n s = DCD_EP_Tx 0 p n s" 
      by (simp add: DCD_EP_Tx_def get_in_def put_in_def ep_index_def)
    moreover have "ep_index a = 0" using True by (simp add: ep_index_def)
    moreover obtain t where "DCD_EP_Tx 0 p n s = Some t" "io (put_in 0 (cut_ep0 (tx_ep 0 p n (in_ep s ! 0))) s) t"
      using DCD_EP_Tx_ep0 [OF inv_eps(1) [OF assms(1)], of p n] by blast
    moreover have "tx_ep a p n e = tx_ep 0 p n e" for e using True by (simp add: tx_ep_def)
    ultimately show ?thesis using c(3) dev_inv_put(1) [OF assms(1)] by (auto simp: always_def dest: dev_inv_io)
  next
    case False
    from DCD_EP_Tx_ok [of a s p n] i4 r assms(2) False show ?thesis
      using dev_inv_put(1) [OF assms(1) c(1), of a] by (auto simp: always_def ep_ready_def dest: dev_inv_io)
  qed
  show "always J (DCD_EP_PrepareRx a p m s)"
  proof (cases "a AND 0x7F = 0")
    case True
    then have "DCD_EP_PrepareRx a p m s = DCD_EP_PrepareRx 0 p m s" 
      by (simp add: DCD_EP_PrepareRx_def get_out_def put_out_def ep_index_def)
    moreover have "ep_index a = 0" using True by (simp add: ep_index_def)
    moreover obtain t where "DCD_EP_PrepareRx 0 p m s = Some t" "io (put_out 0 (cut_ep0 (rx_ep 0 p m (out_ep s ! 0))) s) t"
      using DCD_EP_PrepareRx_ep0 [OF inv_eps(2) [OF assms(1)], of p m] by blast
    moreover have "rx_ep a p m e = rx_ep 0 p m e" for e using True by (simp add: rx_ep_def)
    ultimately show ?thesis using c(4) dev_inv_put(2) [OF assms(1)] by (auto simp: always_def dest: dev_inv_io)
  next
    case False
    from DCD_EP_PrepareRx_ok [of a s p m] i4 r assms(2) False show ?thesis
      using dev_inv_put(2) [OF assms(1) c(2), of a] by (auto simp: always_def ep_ready_def dest: dev_inv_io)
  qed
qed

section \<open>Control transfers keep it\<close>

lemma small_eps [simp]: "(0 :: u8) AND 0x7F < 4" "(0x80 :: u8) AND 0x7F < 4"
  by simp_all

lemma ep0_outstart_inv [simp]: "dev_inv J (USB_OTG_EP0_OutStart s) = dev_inv J s"
  by (rule dev_inv_io, rule io_core)

lemma send_data_total: "dev_inv J s \<Longrightarrow> always J (USBD_CtlSendData p n s)"
proof -
  assume s: "dev_inv J s"
  let ?t = "(put_in 0 ((in_ep s ! 0)\<lparr>total_data_len := ucast n, rem_data_len := ucast n\<rparr>) s)\<lparr>device_state := USB_OTG_EP0_DATA_IN\<rparr>"
  have "dev_inv J ?t" using s inv_eps [OF s] by (auto intro!: dev_inv_put simp: usb_ok_def ep_ready_def)
  then show ?thesis using inv_eps [OF s] tx_total(1) [of J ?t 0] by (simp add: USBD_CtlSendData_def get_in_def ep_index_def)
qed

lemma prepare_rx_total: "dev_inv J s \<Longrightarrow> always J (USBD_CtlPrepareRx p n s)"
proof -
  assume s: "dev_inv J s"
  let ?t = "(put_out 0 ((out_ep s ! 0)\<lparr>total_data_len := ucast n, rem_data_len := ucast n\<rparr>) s)\<lparr>device_state := USB_OTG_EP0_DATA_OUT\<rparr>"
  have "dev_inv J ?t" using s inv_eps [OF s] by (auto intro!: dev_inv_put simp: usb_ok_def ep_ready_def)
  then show ?thesis using inv_eps [OF s] tx_total(2) [of J ?t 0] by (simp add: USBD_CtlPrepareRx_def get_out_def ep_index_def)
qed

lemma ctl_total [totals]:
  assumes "dev_inv J s"
  shows "always J (USBD_CtlContinueSendData p n s)" "always J (USBD_CtlContinueRx p n s)" "always J (USBD_CtlSendStatus s)"
    "always J (USBD_CtlReceiveStatus s)" "always J (USBD_CtlError s)"
  using assms
  by (auto simp: USBD_CtlContinueSendData_def USBD_CtlContinueRx_def USBD_CtlSendStatus_def USBD_CtlReceiveStatus_def USBD_CtlError_def
    intro!: total_bind tx_total stall_total)

lemmas [totals] = send_data_total prepare_rx_total

lemma store_total:
  assumes "dev_inv J s" "r \<noteq> R_device_config" "off + length d \<le> region_size r"
  shows "always J (store_at (Some (r, off)) d s)"
proof -
  have l: "length (mem s r) = region_size r" using assms(1) by (simp add: dev_inv_def)
  have "store_at (Some (r, off)) d s = Some (s\<lparr>mem := (mem s)(r := take off (mem s r) @ d @ drop (off + length d) (mem s r))\<rparr>)"
    by (rule store_at_Some) (use assms(2,3) l in simp_all)
  moreover have "dev_inv J (s\<lparr>mem := (mem s)(r := take off (mem s r) @ d @ drop (off + length d) (mem s r))\<rparr>)"
    using assms l by (auto simp: dev_inv_def)
  ultimately show ?thesis by simp
qed

lemma store_safe: "dev_inv J s \<Longrightarrow> keeps J (store_at p d s)"
proof (cases p)
  case None
  then show "dev_inv J s \<Longrightarrow> ?thesis" by (simp add: store_at_def)
next
  case (Some q)
  obtain r off where q: "q = (r, off)" by fastforce
  assume s: "dev_inv J s"
  show ?thesis
  proof (cases "wr_at (mem s r) off d")
    case None
    then show ?thesis by (simp add: Some q store_at_def)
  next
    case w: (Some b)
    then have "length b = length (mem s r)" by (rule wr_at_length)
    then have "dev_inv J (s\<lparr>mem := (mem s)(r := b)\<rparr>)" using s by (auto simp: dev_inv_def)
    then show ?thesis using w by (simp add: Some q store_at_def)
  qed
qed

lemma SWAPBYTE_low: "(ucast (SWAPBYTE b i) :: u8) = b ! i"
proof -
  have "SWAPBYTE b i = of_nat (unat (b ! i) + 256 * unat (b ! (i + 1)))"
    by (simp add: SWAPBYTE_def push_bit_eq_mult mult.commute)
  then have "(ucast (SWAPBYTE b i) :: u8) = of_nat (unat (b ! i) + 256 * unat (b ! (i + 1)))" by (simp only: ucast_of_nat_8)
  moreover have "(256 :: u8) * x = 0" for x
  proof -
    have "(256 :: u8) = 0" by simp
    then show ?thesis by (simp only: mult_zero_left)
  qed
  ultimately show ?thesis by simp
qed

definition good_string :: "string \<Rightarrow> bool" where
  "good_string t \<longleftrightarrow> 0 \<notin> set (str_bytes t) \<and> length t \<le> 31"

lemma good_strings: "good_string ''STM32F4 RNDIS''" "good_string ''Fetisov Sergey''" "good_string ''00000000123B''"
  "good_string ''00000000123C''" "good_string ''RNDIS Config''" "good_string ''RNDIS Interface''"
  by code_simp+

lemma string_desc_ok:
  assumes "dev_inv J s" "good_string t"
  shows "\<exists>p n u. string_desc t s = Some (p, n, u) \<and> dev_inv J u"
proof -
  have l: "length (mem s R_StrDesc) = 64" using assms(1) by (simp add: dev_inv_def region_size_def)
  let ?u = "set_str (string_descriptor (str_bytes t) @ drop (2 * length (str_bytes t) + 2) (mem s R_StrDesc)) s"
  have "USBD_GetString (str_bytes t) s = Some (of_nat (2 * length (str_bytes t) + 2), ?u)"
    by (rule GetString_spec) (use assms(2) l in \<open>simp_all add: good_string_def str_bytes_def\<close>)
  moreover have "dev_inv J ?u" using assms l
    by (auto simp: dev_inv_def set_str_def string_descriptor_def good_string_def str_bytes_def region_size_def)
  ultimately show ?thesis by (simp add: string_desc_def)
qed

section \<open>The interface of a class driver\<close>

locale usb_class =
  fixes cb :: "'c class_cb" and J :: "'c \<Rightarrow> bool"
  assumes on_init: "dev_inv J s \<Longrightarrow> always J (Init cb n s)"
    and on_deinit: "dev_inv J s \<Longrightarrow> always J (DeInit cb n s)"
    and on_setup: "dev_inv J s \<Longrightarrow> always J (Setup cb req s)"
    and on_rx_ready: "dev_inv J s \<Longrightarrow> EP0_RxReady cb = Some f \<Longrightarrow> keeps J (f s)"
    and on_tx_sent: "dev_inv J s \<Longrightarrow> EP0_TxSent cb = Some f \<Longrightarrow> keeps J (f s)"
    and on_data_in: "dev_inv J s \<Longrightarrow> DataIn cb = Some g \<Longrightarrow> keeps J (g a s)"
    and on_data_out: "dev_inv J s \<Longrightarrow> DataOut cb = Some g \<Longrightarrow> keeps J (g a s)"
    and on_sof: "dev_inv J s \<Longrightarrow> SOF cb = Some f \<Longrightarrow> keeps J (f s)"
    and on_iso: "dev_inv J s \<Longrightarrow> keeps J (IsoINIncomplete cb s)" "dev_inv J s \<Longrightarrow> keeps J (IsoOUTIncomplete cb s)"
    and on_get_config: "dev_inv J s \<Longrightarrow> \<exists>n t. GetConfigDescriptor cb sp s = Some (Some (R_CfgDesc, 0), n, t) \<and> dev_inv J t"
begin

lemma find_descriptor_total:
  assumes "dev_inv J s"
  shows "\<exists>r. find_descriptor cb req s = Some r \<and> (case r of None \<Rightarrow> True | Some (p, n, t) \<Rightarrow> dev_inv J t)"
proof -
  have c: "\<exists>r. do { (p, n, s) \<leftarrow> GetConfigDescriptor cb (speed s) s; s \<leftarrow> store_at (ptr_add p 1) [2] s;
       Some (Some (p, n, s\<lparr>pConfig_descriptor := p\<rparr>)) } = Some r \<and> (case r of None \<Rightarrow> True | Some (p, n, t) \<Rightarrow> dev_inv J t)"
  proof -
    from on_get_config [OF assms, of "speed s"] obtain n t where t: "GetConfigDescriptor cb (speed s) s = Some (Some (R_CfgDesc, 0), n, t)"
      "dev_inv J t" by blast
    have "always J (store_at (ptr_add (Some (R_CfgDesc, 0)) 1) [2] t)"
      using store_total [OF t(2), of R_CfgDesc 1 "[2]"] by (simp add: ptr_add_def region_size_def)
    then show ?thesis using t by (auto simp: always_def)
  qed
  have st: "\<exists>p n u. string_desc t s = Some (p, n, u) \<and> dev_inv J u" if "good_string t" for t
    using string_desc_ok [OF assms that] .
  note ss = st [OF good_strings(1)] st [OF good_strings(2)] st [OF good_strings(3)] st [OF good_strings(4)] st [OF good_strings(5)] st [OF good_strings(6)]
  show ?thesis using assms c ss
    by (auto simp: find_descriptor_def Let_def USBD_USR_DeviceDescriptor_def USBD_USR_LangIDStrDescriptor_def
      USBD_USR_ManufacturerStrDescriptor_def USBD_USR_ProductStrDescriptor_def USBD_USR_SerialStrDescriptor_def
      USBD_USR_ConfigStrDescriptor_def USBD_USR_InterfaceStrDescriptor_def split: option.splits)
qed

lemma get_descriptor_total: "dev_inv J s \<Longrightarrow> always J (USBD_GetDescriptor cb req s)"
  using find_descriptor_total [of s req]
  by (auto simp: USBD_GetDescriptor_def intro!: totals split: option.splits)


lemma set_address_total: "dev_inv J s \<Longrightarrow> always J (USBD_SetAddress req s)"
proof -
  assume s: "dev_inv J s"
  define a where "a = (ucast (wValue req) :: u8) AND 0x7F"
  have "a \<le> 0x7F" by (simp add: a_def word_and_le1)
  then have a: "a < 128" by (simp add: word_le_nat_alt word_less_nat_alt)
  have "dev_inv J (DCD_EP_SetAddress a (s\<lparr>device_address := a\<rparr>))" using s a by (simp add: DCD_EP_SetAddress_def) (simp add: dev_inv_def usb_ok_def)
  then have "always J (USBD_CtlSendStatus (DCD_EP_SetAddress a (s\<lparr>device_address := a\<rparr>)))" by (rule totals)
  moreover have "dev_inv J (t\<lparr>device_status := (if a \<noteq> 0 then USB_OTG_ADDRESSED else USB_OTG_DEFAULT)\<rparr>)" if "dev_inv J t" for t :: "'c usb"
    using that by (simp add: dev_inv_def usb_ok_def)
  ultimately show ?thesis using s by (auto simp: USBD_SetAddress_def Let_def a_def [symmetric] intro!: totals total_bind)
qed

lemma set_config_total: "dev_inv J s \<Longrightarrow> always J (USBD_SetConfig cb req s)"
proof -
  assume s: "dev_inv J s"
  define n where "n = (ucast (wValue req) :: u8)"
  show ?thesis using s
    by (auto simp: USBD_SetConfig_def Let_def n_def [symmetric] USBD_SetCfg_def USBD_ClrCfg_def not_less
      intro!: totals total_bind on_init on_deinit) (auto simp: dev_inv_def usb_ok_def)
qed

lemma get_config_total: "dev_inv J s \<Longrightarrow> always J (USBD_GetConfig req s)"
  by (auto simp: USBD_GetConfig_def intro!: totals)

lemma get_status_total: "dev_inv J s \<Longrightarrow> always J (USBD_GetStatus req s)"
  by (auto simp: USBD_GetStatus_def Let_def region_size_def intro!: totals total_bind store_total)

lemma set_feature_total: "dev_inv J s \<Longrightarrow> always J (USBD_SetFeature cb req s)"
  by (auto simp: USBD_SetFeature_def Let_def rd_def intro!: totals total_bind on_setup)

lemma clr_feature_total: "dev_inv J s \<Longrightarrow> always J (USBD_ClrFeature cb req s)"
  by (auto simp: USBD_ClrFeature_def intro!: totals total_bind on_setup)

lemma std_dev_total: "dev_inv J s \<Longrightarrow> always J (USBD_StdDevReq cb req s)"
  by (simp add: USBD_StdDevReq_def Let_def totals get_descriptor_total set_address_total set_config_total get_config_total
    get_status_total set_feature_total clr_feature_total)

lemma std_itf_total: "dev_inv J s \<Longrightarrow> always J (USBD_StdItfReq cb req s)"
  by (auto simp: USBD_StdItfReq_def intro!: totals total_bind on_setup)

lemma unless_ep0_total: "dev_inv J s \<Longrightarrow> a AND 0x7F < 4 \<Longrightarrow> always J (stall_unless_ep0 a s)"
  by (simp add: stall_unless_ep0_def stall_total)

lemma get_ep_ok: "dev_inv J s \<Longrightarrow> a AND 0x7F < 4 \<Longrightarrow> \<exists>e. get_ep a s = Some e"
  using exists_iff [of s a] get_ep_Some [of a s] inv_eps(3) [of J s] by blast

lemma std_ep_total:
  assumes "dev_inv J s" "(ucast (wIndex req) :: u8) AND 0x7F < 4"
  shows "always J (USBD_StdEPReq cb req s)"
proof -
  define a where "a = (ucast (wIndex req) :: u8)"
  have a: "a AND 0x7F < 4" using assms(2) by (simp add: a_def)
  obtain e where e: "get_ep a s = Some e" using get_ep_ok [OF assms(1) a] by blast
  show ?thesis using assms(1) e a
    by (auto simp: USBD_StdEPReq_def Let_def a_def [symmetric] region_size_def
      intro!: totals total_bind on_setup unless_ep0_total stall_total store_total)
qed

lemma parse_ok:
  assumes "dev_inv J s"
  shows "\<exists>req t. USBD_ParseSetupRequest s = Some (req, t) \<and> dev_inv J t
     \<and> req = \<lparr>bmRequest = mem s R_setup_packet ! 0, bRequest = mem s R_setup_packet ! 1, wValue = SWAPBYTE (mem s R_setup_packet) 2,
         wIndex = SWAPBYTE (mem s R_setup_packet) 4, wLength = SWAPBYTE (mem s R_setup_packet) 6\<rparr>"
proof -
  have "length (mem s R_setup_packet) = region_size R_setup_packet" using assms by (simp add: dev_inv_def)
  then have l: "length (mem s R_setup_packet) = 24" by (simp add: region_size_def)
  have g: "get_in 0 s = Some (in_ep s ! 0)" using inv_eps [OF assms] by (simp add: get_in_def ep_index_def)
  have "ep_ready ((in_ep s ! 0)\<lparr>ctl_data_len := n\<rparr>)" for n using inv_eps(3) [OF assms] by (auto simp: usb_ok_def ep_ready_def)
  then have "dev_inv J ((put_in 0 ((in_ep s ! 0)\<lparr>ctl_data_len := n\<rparr>) s)\<lparr>device_state := USB_OTG_EP0_SETUP\<rparr>)" for n
    using dev_inv_put(1) [OF assms] by simp
  then show ?thesis using l g by (simp add: USBD_ParseSetupRequest_def load_at_Some Let_def SWAPBYTE_def)
qed

text \<open>The setup packet of the host: its recipient, and the endpoint it names.\<close>

lemma setup_stage_total:
  assumes "dev_inv J s" "mem s R_setup_packet ! 0 AND 0x1F = 2 \<Longrightarrow> mem s R_setup_packet ! 4 AND 0x7F < 4"
  shows "always J (USBD_SetupStage cb s)"
proof -
  from parse_ok [OF assms(1)] obtain req t where t: "USBD_ParseSetupRequest s = Some (req, t)" "dev_inv J t"
    "bmRequest req = mem s R_setup_packet ! 0" "wIndex req = SWAPBYTE (mem s R_setup_packet) 4" by auto
  have "(bmRequest req AND 0x80) AND 0x7F < (4 :: u8)" by (simp add: and.assoc)
  then show ?thesis using t assms(2)
    by (auto simp: USBD_SetupStage_def Let_def SWAPBYTE_low intro!: std_dev_total std_itf_total std_ep_total stall_total)
qed

end

lemma ready_same:
  assumes "\<forall>j < 4. ep_ready (xs ! j)" "i < length xs" "maxpacket e = maxpacket (xs ! i)" "ep_type e = ep_type (xs ! i)"
  shows "\<forall>j < 4. ep_ready (xs[i := e] ! j)"
proof (intro allI impI)
  fix j :: nat
  assume "j < 4"
  then show "ep_ready (xs[i := e] ! j)" using assms by (cases "j = i") (auto simp: ep_ready_def)
qed

lemma dev_inv_same:
  assumes "dev_inv J s" "maxpacket e' = maxpacket e" "ep_type e' = ep_type e"
  shows "get_in a s = Some e \<Longrightarrow> dev_inv J (put_in a e' s)" "get_out a s = Some e \<Longrightarrow> dev_inv J (put_out a e' s)"
proof -
  have r: "\<forall>j < 4. ep_ready (in_ep s ! j)" "\<forall>j < 4. ep_ready (out_ep s ! j)" "length (in_ep s) = 15" "length (out_ep s) = 15" "dev_endpoints s = 4"
    using inv_eps(3) [OF assms(1)] by (simp_all add: usb_ok_def)
  show "dev_inv J (put_in a e' s)" if "get_in a s = Some e"
    using ready_same [OF r(1), of "ep_index a" e'] that assms r
    by (simp add: get_in_def dev_inv_def put_in_def usb_ok_def split: if_splits)
  show "dev_inv J (put_out a e' s)" if "get_out a s = Some e"
    using ready_same [OF r(2), of "ep_index a" e'] that assms r
    by (simp add: get_out_def dev_inv_def put_out_def usb_ok_def split: if_splits)
qed

context usb_class
begin

lemma get_put_in: "dev_inv J s \<Longrightarrow> get_in a s = Some e \<Longrightarrow> ep_ready e' \<Longrightarrow> dev_inv J (put_in a e' s)"
  by (rule dev_inv_put)

lemma ep0_ready: "dev_inv J s \<Longrightarrow> get_in 0 s = Some e \<Longrightarrow> ep_ready e" "dev_inv J s \<Longrightarrow> get_out 0 s = Some f \<Longrightarrow> ep_ready f"
  by (auto simp: dev_inv_def usb_ok_def get_in_def get_out_def ep_index_def split: if_splits)

lemma data_out_stage_keeps:
  assumes "dev_inv J s"
  shows "keeps J (USBD_DataOutStage cb n s)"
proof -
  have g: "get_out 0 s = Some (out_ep s ! 0)" using inv_eps [OF assms] by (simp add: get_out_def ep_index_def)
  have r: "ep_ready (out_ep s ! 0)" using ep0_ready(2) [OF assms g] .
  then have "ep_ready ((out_ep s ! 0)\<lparr>rem_data_len := x\<rparr>)" for x by (simp add: ep_ready_def)
  then have i: "dev_inv J (put_out 0 ((out_ep s ! 0)\<lparr>rem_data_len := x\<rparr>) s)" for x using dev_inv_put(2) [OF assms] by blast
  have a: "keeps J (USBD_CtlContinueRx p m (put_out 0 ((out_ep s ! 0)\<lparr>rem_data_len := x\<rparr>) s))" for p m x
    by (rule total_safe [OF ctl_total(2) [OF i]])
  have b: "keeps J (case EP0_RxReady cb of None \<Rightarrow> Some s | Some f \<Rightarrow> if device_status s = USB_OTG_CONFIGURED then f s else Some s)"
    using assms on_rx_ready by (simp split: option.split)
  have c: "keeps J (case DataOut cb of None \<Rightarrow> Some s | Some f \<Rightarrow> if device_status s = USB_OTG_CONFIGURED then f n s else Some s)"
    using assms on_data_out by (simp split: option.split)
  have d: "keeps J ((case EP0_RxReady cb of None \<Rightarrow> Some s | Some f \<Rightarrow> if device_status s = USB_OTG_CONFIGURED then f s else Some s)
     \<bind> USBD_CtlSendStatus)" by (rule safe_bind [OF b total_safe [OF ctl_total(3)]])
  show ?thesis unfolding USBD_DataOutStage_def g bind.bind_lunit Let_def
    by (intro safe_if a c d) (use assms in simp_all)
qed

lemma data_in_stage_keeps:
  assumes "dev_inv J s"
  shows "keeps J (USBD_DataInStage cb n s)"
proof -
  have g: "get_in 0 s = Some (in_ep s ! 0)" using inv_eps [OF assms] by (simp add: get_in_def ep_index_def)
  have r: "ep_ready (in_ep s ! 0)" using ep0_ready(1) [OF assms g] .
  then have "ep_ready ((in_ep s ! 0)\<lparr>rem_data_len := x\<rparr>)" for x by (simp add: ep_ready_def)
  then have i: "dev_inv J (put_in 0 ((in_ep s ! 0)\<lparr>rem_data_len := x\<rparr>) s)" for x using dev_inv_put(1) [OF assms] by blast
  have z: "keeps J (do { s \<leftarrow> USBD_CtlContinueSendData None 0 s; e \<leftarrow> get_in 0 s; Some (put_in 0 (e\<lparr>ctl_data_len := 0\<rparr>) s) })"
  proof (rule safe_bind [OF total_safe [OF ctl_total(1) [OF assms]]])
    fix t assume t: "dev_inv J t"
    have gt: "get_in 0 t = Some (in_ep t ! 0)" using inv_eps [OF t] by (simp add: get_in_def ep_index_def)
    have "ep_ready ((in_ep t ! 0)\<lparr>ctl_data_len := 0\<rparr>)" using ep0_ready(1) [OF t gt] by (simp add: ep_ready_def)
    then show "keeps J (do { e \<leftarrow> get_in 0 t; Some (put_in 0 (e\<lparr>ctl_data_len := 0\<rparr>) t) })"
      using gt dev_inv_put(1) [OF t] by simp
  qed
  have a: "keeps J (USBD_CtlContinueSendData p m (put_in 0 ((in_ep s ! 0)\<lparr>rem_data_len := x\<rparr>) s))" for p m x
    by (rule total_safe [OF ctl_total(1) [OF i]])
  have b: "keeps J (case EP0_TxSent cb of None \<Rightarrow> Some s | Some f \<Rightarrow> if device_status s = USB_OTG_CONFIGURED then f s else Some s)"
    using assms on_tx_sent by (simp split: option.split)
  have c: "keeps J (case DataIn cb of None \<Rightarrow> Some s | Some f \<Rightarrow> if device_status s = USB_OTG_CONFIGURED then f n s else Some s)"
    using assms on_data_in by (simp split: option.split)
  have d: "keeps J ((case EP0_TxSent cb of None \<Rightarrow> Some s | Some f \<Rightarrow> if device_status s = USB_OTG_CONFIGURED then f s else Some s)
     \<bind> USBD_CtlReceiveStatus)" by (rule safe_bind [OF b total_safe [OF ctl_total(4)]])
  have k: "keeps J (data_in_ep0 cb s)" unfolding data_in_ep0_def g bind.bind_lunit Let_def
    by (intro safe_if a z d) (use assms in simp_all)
  have "keeps J (do { s \<leftarrow> data_in_ep0 cb s; Some (if test_mode s = 1 then (USBD_RunTestMode s)\<lparr>test_mode := 0\<rparr> else s) })"
    by (rule safe_bind [OF k]) (simp add: USBD_RunTestMode_def)
  then show ?thesis using c by (simp add: USBD_DataInStage_def)
qed

lemma reset_total: "dev_inv J s \<Longrightarrow> always J (USBD_Reset s)"
proof -
  assume s: "dev_inv J s"
  have d: "dev_inv J (t\<lparr>device_status := USB_OTG_DEFAULT\<rparr>)" if "dev_inv J t" for t :: "'c usb"
    using that by (simp add: dev_inv_def usb_ok_def)
  have n: "(ucast USB_OTG_MAX_EP0_SIZE :: u16) \<noteq> 0" "EP_TYPE_CTRL \<noteq> EP_TYPE_ISOC"
    by (simp_all add: USB_OTG_MAX_EP0_SIZE_def EP_TYPE_CTRL_def EP_TYPE_ISOC_def)
  show ?thesis unfolding USBD_Reset_def
    by (intro total_bind stall_total(4) s n small_eps) (simp_all add: d)
qed

lemma resume_suspend: "dev_inv J s \<Longrightarrow> dev_inv J (USBD_Resume s)" "dev_inv J s \<Longrightarrow> dev_inv J (USBD_Suspend s)"
  by (auto simp: dev_inv_def usb_ok_def USBD_Resume_def USBD_Suspend_def)

section \<open>Interrupts\<close>

lemma read_words_keeps: "dev_inv J s \<Longrightarrow> keeps J (read_words k p s)"
proof (induction k arbitrary: p s)
  case (Suc k)
  then show ?case by (auto simp: rd_def intro!: safe_bind store_safe)
qed simp

lemma write_packet_keeps: "dev_inv J s \<Longrightarrow> keeps J (USB_OTG_WritePacket p n len s)"
  by (auto simp: USB_OTG_WritePacket_def keeps_def dest: write_words_io dev_inv_io)

lemma empty_fifo_keeps:
  assumes "empty_fifo_loop n st l s = Some t"
  shows "dev_inv J s \<longrightarrow> dev_inv J t"
proof (rule empty_fifo_loop.raw_induct [where P = "\<lambda>n st l s t. dev_inv J s \<longrightarrow> dev_inv J t", OF _ assms], intro impI)
  fix loop :: "u32 \<Rightarrow> u32 \<Rightarrow> u32 \<Rightarrow> 'c usb \<Rightarrow> 'c usb option" and n st l s t
  assume IH: "\<And>n st l s t. loop n st l s = Some t \<Longrightarrow> dev_inv J s \<longrightarrow> dev_inv J t" and s: "dev_inv J s"
    and body: "do {
     e \<leftarrow> get_in (ucast n) s;
     if l < get_fld dtxfsts_txfspcavail st \<and> xfer_count e < xfer_len e \<and> xfer_len e \<noteq> 0 then do {
       let len = tx_chunk e;
       s \<leftarrow> USB_OTG_WritePacket (xfer_buff e) (ucast n) (ucast len) s;
       let s = put_in (ucast n) (e\<lparr>xfer_buff := ptr_add (xfer_buff e) (unat len), xfer_count := xfer_count e + len\<rparr>) s;
       let (txstatus, s) = rd (DTXFSTS (unat n)) s;
       loop n txstatus (words_of len) s }
     else Some s } = Some t"
  from body obtain e where e: "get_in (ucast n) s = Some e" by (auto split: bind_splits)
  show "dev_inv J t"
  proof (cases "l < get_fld dtxfsts_txfspcavail st \<and> xfer_count e < xfer_len e \<and> xfer_len e \<noteq> 0")
    case False
    then show ?thesis using body s unfolding e bind.bind_lunit if_not_P [OF False] by simp
  next
    case True
    define len where "len = tx_chunk e"
    from body True e obtain s1 where s1: "USB_OTG_WritePacket (xfer_buff e) (ucast n) (ucast len) s = Some s1"
      "(let (x, u) = rd (DTXFSTS (unat n)) (put_in (ucast n) (e\<lparr>xfer_buff := ptr_add (xfer_buff e) (unat len), xfer_count := xfer_count e + len\<rparr>) s1)
        in loop n x (words_of len) u) = Some t"
      by (auto simp: len_def Let_def split: bind_splits)
    have "io s s1" using s1(1) by (auto simp: USB_OTG_WritePacket_def split: if_splits intro: write_words_io)
    then have i1: "dev_inv J s1" "get_in (ucast n) s1 = Some e"
      using dev_inv_io [of s s1 J] s e by (auto simp: get_in_def io_sels split: if_splits)
    let ?p = "put_in (ucast n) (e\<lparr>xfer_buff := ptr_add (xfer_buff e) (unat len), xfer_count := xfer_count e + len\<rparr>) s1"
    have "dev_inv J ?p" by (rule dev_inv_same(1) [OF i1(1) _ _ i1(2)]) simp_all
    moreover have "loop n (fst (rd (DTXFSTS (unat n)) ?p)) (words_of len) (snd (rd (DTXFSTS (unat n)) ?p)) = Some t"
      using s1(2) by (simp add: case_prod_beta)
    ultimately show ?thesis using IH by (simp add: rd_def)
  qed
qed

lemma write_fifo_keeps: "dev_inv J s \<Longrightarrow> keeps J (DCD_WriteEmptyTxFifo n s)"
  unfolding keeps_def
proof (intro allI impI)
  fix t
  assume s: "dev_inv J s" and "DCD_WriteEmptyTxFifo n s = Some t"
  from this(2) obtain x l where "empty_fifo_loop n x l (s\<lparr>reads := reads s + 1\<rparr>) = Some t"
    by (auto simp: DCD_WriteEmptyTxFifo_def rd_def split: bind_splits if_splits)
  from empty_fifo_keeps [OF this] s show "dev_inv J t" by simp
qed

lemma rx_status_keeps:
  assumes "dev_inv J s"
  shows "keeps J (rx_status st s)"
proof -
  have e: "keeps J (do { e \<leftarrow> get_out n t; Some (put_out n (f e) t) })"
    if "dev_inv J t" "\<And>e. maxpacket (f e) = maxpacket e" "\<And>e. ep_type (f e) = ep_type e" for n f t
    using that dev_inv_same(2) [OF that(1)] by (cases "get_out n t") auto
  have d: "keeps J (do { e \<leftarrow> get_out n s; s \<leftarrow> USB_OTG_ReadPacket (xfer_buff e) c s; Some (put_out n (f e) s) })"
    if "\<And>e. maxpacket (f e) = maxpacket e" "\<And>e. ep_type (f e) = ep_type e" for n c f
  proof (cases "get_out n s")
    case (Some x)
    have io: "get_out n t = Some x" if "read_words k p s = Some t" for k p t
    proof -
      have "out_ep t = out_ep u" if "read_words k p u = Some t" for u
        using that
      proof (induction k arbitrary: p u)
        case (Suc k)
        then obtain v where v: "store_at p (le32 (fst (rd (DFIFO 0) u))) (snd (rd (DFIFO 0) u)) = Some v" "read_words k (ptr_add p 4) v = Some t"
          by (auto simp: case_prod_beta split: bind_splits)
        have "out_ep v = out_ep u" using v(1)
          by (auto simp: store_at_def rd_def split: option.splits if_splits bind_splits)
        then show ?case using Suc.IH [OF v(2)] by simp
      qed simp
      then show ?thesis using that Some by (auto simp: get_out_def split: if_splits)
    qed
    have "keeps J (USB_OTG_ReadPacket (xfer_buff x) c s)"
      unfolding USB_OTG_ReadPacket_def by (rule read_words_keeps [OF assms])
    then show ?thesis using Some that io
      by (auto simp: keeps_def USB_OTG_ReadPacket_def split: bind_splits intro!: dev_inv_same(2) [where e = x])
  qed simp
  have p: "keeps J (do { s \<leftarrow> USB_OTG_ReadPacket q 8 s; e \<leftarrow> get_out n s; Some (put_out n (f e) s) })"
    if "\<And>e. maxpacket (f e) = maxpacket e" "\<And>e. ep_type (f e) = ep_type e" for n f q
    by (rule safe_bind) (use assms that in \<open>auto simp: USB_OTG_ReadPacket_def intro: read_words_keeps e\<close>)
  show ?thesis unfolding rx_status_def Let_def by (intro safe_if d p) (use assms in simp_all)
qed

lemma rx_isr_keeps: "dev_inv J s \<Longrightarrow> keeps J (DCD_HandleRxStatusQueueLevel_ISR s)"
proof -
  assume s: "dev_inv J s"
  have m: "keeps J (map_option (modify_reg r a b) x)" if "keeps J x" for r a b x
    using that by (auto simp: keeps_def)
  show ?thesis using s by (auto simp: DCD_HandleRxStatusQueueLevel_ISR_def rd_def Let_def intro!: m rx_status_keeps)
qed

lemma keeps_pair:
  assumes "\<And>v s. x = Some (v, s) \<Longrightarrow> dev_inv J s" "\<And>v s. dev_inv J s \<Longrightarrow> keeps J (f (v, s))"
  shows "keeps J (x \<bind> f)"
  using assms by (cases x) (auto simp: keeps_def)

lemma in_ep_isr_keeps:
  assumes "dev_inv J s"
  shows "keeps J (in_ep_isr cb n s)"
  unfolding in_ep_isr_def
proof (rule keeps_pair, goal_cases)
  case (1 v t)
  then show ?case using assms by (auto simp: DCD_ReadDevInEP_def rd_def Let_def split: if_splits)
next
  case (2 v t)
  have a: "dev_inv J (snd (ack_in n f vs))" if "dev_inv J (snd vs)" for f vs
    using that by (simp add: ack_in_def CLEAR_IN_EP_INTR_def Let_def)
  have "dev_inv J (snd (CLEAR_IN_EP_INTR n epint_xfercompl (modify_reg DIEPEMPMSK (push_bit (unat n) 1) 0 t)))"
    using 2 by (simp add: CLEAR_IN_EP_INTR_def Let_def)
  note x = data_in_stage_keeps [OF this, of "ucast n"]
  show ?case unfolding prod.case
  proof (rule keeps_pair, goal_cases)
    case (1 w u)
    then show ?case using 2 x by (auto simp: keeps_def case_prod_beta Let_def split: if_splits bind_splits)
  next
    case (2 w u)
    define vs where "vs = ack_in n epint_epdisabled (ack_in n epint_inepnakeff (ack_in n epint_intktxfemp (ack_in n epint_timeout (w, u))))"
    have i: "dev_inv J (snd vs)" using 2 by (simp add: vs_def a)
    have "keeps J (DCD_WriteEmptyTxFifo n (snd vs) \<bind> (\<lambda>s. Some (snd (CLEAR_IN_EP_INTR n epint_emptyintr s))))"
      by (rule safe_bind [OF write_fifo_keeps [OF i]]) (simp add: CLEAR_IN_EP_INTR_def Let_def)
    then show ?case using i by (simp add: vs_def [symmetric] case_prod_beta)
  qed
qed

lemma std_ep_keeps:
  assumes "dev_inv J s"
  shows "keeps J (USBD_StdEPReq cb req s)"
proof -
  define a where "a = (ucast (wIndex req) :: u8)"
  have u: "keeps J (stall_unless_ep0 a t)" if "dev_inv J t" for t
    using that by (simp add: stall_unless_ep0_def stall_safe)
  have st: "keeps J (Setup cb req t)" if "dev_inv J t" for t by (rule total_safe [OF on_setup [OF that]])
  have ss: "keeps J (USBD_CtlSendStatus t)" if "dev_inv J t" for t by (rule total_safe [OF ctl_total(3) [OF that]])
  have er: "keeps J (USBD_CtlError t)" if "dev_inv J t" for t by (rule total_safe [OF ctl_total(5) [OF that]])
  have sd: "keeps J (USBD_CtlSendData p n t)" if "dev_inv J t" for p n t by (rule total_safe [OF send_data_total [OF that]])
  have gs: "keeps J (do { e \<leftarrow> get_ep a s; s \<leftarrow> store_at p (f e) s; USBD_CtlSendData p n s })" for p f n
    by (cases "get_ep a s") (auto intro!: safe_bind store_safe assms sd)
  have cl: "keeps J (do { s \<leftarrow> DCD_EP_ClrStall a s; Setup cb req s })" by (rule safe_bind [OF stall_safe(2) [OF assms] st])
  show ?thesis unfolding USBD_StdEPReq_def Let_def a_def [symmetric]
    by (intro safe_if gs u er assms safe_bind [OF _ ss] safe_bind [OF _ safe_bind [OF st ss]] cl) (use assms in simp_all)
qed

lemma setup_stage_keeps:
  assumes "dev_inv J s"
  shows "keeps J (USBD_SetupStage cb s)"
proof -
  from parse_ok [OF assms] obtain req t where t: "USBD_ParseSetupRequest s = Some (req, t)" "dev_inv J t" by blast
  have "keeps J (DCD_EP_Stall a t)" for a by (rule stall_safe(1) [OF t(2)])
  then show ?thesis unfolding USBD_SetupStage_def t(1) bind.bind_lunit prod.case Let_def
    by (intro safe_if std_ep_keeps [OF t(2)] total_safe [OF std_dev_total [OF t(2)]] total_safe [OF std_itf_total [OF t(2)]])
qed

lemma out_ep_isr_keeps:
  assumes "dev_inv J s"
  shows "keeps J (out_ep_isr cb n s)"
  unfolding out_ep_isr_def
proof (rule keeps_pair, goal_cases)
  case (1 v t)
  then show ?case using assms by (auto simp: USB_OTG_ReadDevOutEP_itr_def rd_def Let_def split: if_splits)
next
  case (2 v t)
  have "dev_inv J (snd (CLEAR_OUT_EP_INTR n epint_xfercompl t))"
    using 2 by (simp add: CLEAR_OUT_EP_INTR_def Let_def)
  note x = data_out_stage_keeps [OF this, of "ucast n"]
  show ?case unfolding prod.case
  proof (rule keeps_pair, goal_cases)
    case (1 w u)
    then show ?case using 2 x by (auto simp: keeps_def case_prod_beta Let_def split: if_splits bind_splits)
  next
    case (2 w u)
    define vs where "vs = (if get_fld epint_epdisabled w \<noteq> 0 then CLEAR_OUT_EP_INTR n epint_epdisabled u else (w, u))"
    have i: "dev_inv J (snd vs)" using 2 by (simp add: vs_def CLEAR_OUT_EP_INTR_def Let_def)
    have "keeps J (USBD_SetupStage cb (snd vs) \<bind> (\<lambda>s. Some (snd (CLEAR_OUT_EP_INTR n epint_setup s))))"
      by (rule safe_bind [OF setup_stage_keeps [OF i]]) (simp add: CLEAR_OUT_EP_INTR_def Let_def)
    then show ?case using i unfolding vs_def by (cases "get_fld epint_epdisabled w = 0") (simp_all add: case_prod_beta)
  qed
qed

lemma each_ep_keeps:
  assumes "\<And>n s. dev_inv J s \<Longrightarrow> keeps J (isr n s)"
  shows "dev_inv J s \<Longrightarrow> keeps J (each_ep isr w n s)"
proof (induction "unat w" arbitrary: w n s rule: less_induct)
  case less
  show ?case
  proof (cases "w = 0")
    case True
    then show ?thesis using less.prems by (simp add: each_ep.simps)
  next
    case False
    have f: "keeps J (if w AND 1 \<noteq> 0 then isr n s else Some s)" using less.prems assms by simp
    show ?thesis unfolding each_ep.simps [of isr w] if_not_P [OF False]
      by (rule safe_bind [OF f]) (rule less.hyps, use drop_bit_shrinks [OF False] in simp_all)
  qed
qed

lemma bus_events:
  assumes "dev_inv J s"
  shows "keeps J (DCD_HandleInEP_ISR cb s)" "keeps J (DCD_HandleOutEP_ISR cb s)" "dev_inv J (DCD_HandleResume_ISR s)"
    "dev_inv J (DCD_HandleUSBSuspend_ISR s)" "dev_inv J (DCD_SessionRequest_ISR s)" "dev_inv J (DCD_HandleEnumDone_ISR s)"
    "keeps J (DCD_HandleSof_ISR cb s)" "keeps J (DCD_IsoINIncomplete_ISR cb s)" "keeps J (DCD_IsoOUTIncomplete_ISR cb s)"
    "keeps J (DCD_OTG_ISR cb s)" "keeps J (DCD_HandleUsbReset_ISR s)"
proof -
  have m: "keeps J (map_option (wr r a) x)" if "keeps J x" for r a x
    using that by (auto simp: keeps_def)
  show "keeps J (DCD_HandleInEP_ISR cb s)" "keeps J (DCD_HandleOutEP_ISR cb s)"
    using assms by (auto simp: DCD_HandleInEP_ISR_def DCD_HandleOutEP_ISR_def USB_OTG_ReadDevAllInEPItr_def
      USB_OTG_ReadDevAllOutEp_itr_def rd_def Let_def intro!: each_ep_keeps in_ep_isr_keeps out_ep_isr_keeps)
  show "dev_inv J (DCD_HandleResume_ISR s)" "dev_inv J (DCD_HandleUSBSuspend_ISR s)" "dev_inv J (DCD_SessionRequest_ISR s)"
    using assms resume_suspend
    by (auto simp: DCD_HandleResume_ISR_def DCD_HandleUSBSuspend_ISR_def DCD_SessionRequest_ISR_def USBD_DevConnected_def rd_def)
  have "dev_inv J (USB_OTG_EP0Activate s)" using dev_inv_io [OF io_core(11)] assms by blast
  then show "dev_inv J (DCD_HandleEnumDone_ISR s)"
    by (simp add: DCD_HandleEnumDone_ISR_def USB_OTG_GetDeviceSpeed_def rd_def Let_def)
  show "keeps J (DCD_HandleSof_ISR cb s)" "keeps J (DCD_IsoINIncomplete_ISR cb s)" "keeps J (DCD_IsoOUTIncomplete_ISR cb s)"
    using assms by (auto simp: DCD_HandleSof_ISR_def USBD_SOF_def DCD_IsoINIncomplete_ISR_def DCD_IsoOUTIncomplete_ISR_def
      USBD_IsoINIncomplete_def USBD_IsoOUTIncomplete_def split: option.split intro!: m on_sof on_iso)
  show "keeps J (DCD_OTG_ISR cb s)"
    unfolding DCD_OTG_ISR_def rd_def prod.case Let_def USBD_DevDisconnected_def
    by (intro safe_bind [where f = "\<lambda>s. Some (wr GOTGINT x s)" for x] safe_if safe_bind [OF total_safe [OF on_deinit]]) (use assms in simp_all)
  show "keeps J (DCD_HandleUsbReset_ISR s)"
  proof -
    have fl: "dev_inv J (USB_OTG_FlushTxFifo n t)" if "dev_inv J t" for n t
      using dev_inv_io [OF io_core(4)] that by blast
    have fo: "dev_inv J (fold (\<lambda>i s. wr (DOEPINT i) 0xFF (wr (DIEPINT i) 0xFF s)) xs t)" if "dev_inv J t" for xs t
      using that by (induction xs arbitrary: t) simp_all
    show ?thesis using assms by (auto simp: DCD_HandleUsbReset_ISR_def rd_def Let_def intro!: total_safe [OF reset_total] fl fo)
  qed
qed

lemma on_flag_keeps: "dev_inv J s \<Longrightarrow> (\<And>s. dev_inv J s \<Longrightarrow> keeps J (h s)) \<Longrightarrow> keeps J (on_flag v f h s)"
  by (simp add: on_flag_def)

lemma handler_keeps:
  assumes "dev_inv J s"
  shows "keeps J (USBD_OTG_ISR_Handler cb s)"
proof -
  define t where "t = snd (USB_OTG_ReadCoreItr (snd (USB_OTG_IsDeviceMode s)))"
  have t: "dev_inv J t" using assms by (simp add: t_def USB_OTG_ReadCoreItr_def USB_OTG_IsDeviceMode_def USB_OTG_GetMode_def rd_def)
  have u: "dev_inv J (snd (USB_OTG_IsDeviceMode s))" using assms by (simp add: USB_OTG_IsDeviceMode_def USB_OTG_GetMode_def rd_def)
  show ?thesis unfolding USBD_OTG_ISR_Handler_def case_prod_beta Let_def t_def [symmetric]
    by (intro safe_if safe_bind on_flag_keeps) (use t u bus_events rx_isr_keeps in simp_all)
qed

end

end
