(* ===== verification/Rndis.thy ===== *)
theory Rndis
  imports Usbd_Core
begin

text \<open>
  The RNDIS class driver, \<open>src/lrndis/rndis-stm32/usbd_rndis_core.c\<close>, with the messages of
  \<open>rndis_protocol.h\<close> and the object identifiers of \<open>ndis.h\<close>.

  Its static variables are the record \<open>rndis\<close>, the class state of the device; its buffers are
  objects of the device's memory. A message is the bytes of its packed structure, fields of 32
  bits, little-endian. The receive callback \<open>rndis_rxproc\<close> is a function of the bytes from the
  pointer it is given to the end of that object, the size argument and the state of its owner,
  the type \<open>'r\<close>.
\<close>

unbundle bit_operations_syntax

section \<open>Constants\<close>

definition RNDIS_NOTIFICATION_IN_EP :: u8 where "RNDIS_NOTIFICATION_IN_EP = 0x81"
definition RNDIS_DATA_IN_EP :: u8 where "RNDIS_DATA_IN_EP = 0x82"
definition RNDIS_DATA_OUT_EP :: u8 where "RNDIS_DATA_OUT_EP = 0x03"
definition RNDIS_NOTIFICATION_IN_SZ :: nat where "RNDIS_NOTIFICATION_IN_SZ = 8"
definition RNDIS_DATA_IN_SZ :: nat where "RNDIS_DATA_IN_SZ = 64"
definition RNDIS_DATA_OUT_SZ :: nat where "RNDIS_DATA_OUT_SZ = 64"
definition RNDIS_MTU :: nat where "RNDIS_MTU = 1500"
definition ETH_HEADER_SIZE :: nat where "ETH_HEADER_SIZE = 14"
definition ETH_MAX_PACKET_SIZE :: nat where "ETH_MAX_PACKET_SIZE = ETH_HEADER_SIZE + RNDIS_MTU"
definition RNDIS_HDR :: nat where "RNDIS_HDR = 44"
definition RNDIS_RX_BUFFER_SIZE :: nat where "RNDIS_RX_BUFFER_SIZE = ETH_MAX_PACKET_SIZE + RNDIS_HDR"
definition station_hwaddr :: bytes where "station_hwaddr = [0x20, 0x89, 0x84, 0x6A, 0x96, 0xAB]"
definition rndis_vendor :: bytes where "rndis_vendor = str_bytes ''fetisov''"

definition RNDIS_STATUS_SUCCESS :: u32 where "RNDIS_STATUS_SUCCESS = 0"
definition RNDIS_STATUS_FAILURE :: u32 where "RNDIS_STATUS_FAILURE = 0xC0000001"
definition RNDIS_STATUS_NOT_SUPPORTED :: u32 where "RNDIS_STATUS_NOT_SUPPORTED = 0xC00000BB"

definition REMOTE_NDIS_PACKET_MSG :: u32 where "REMOTE_NDIS_PACKET_MSG = 1"
definition REMOTE_NDIS_INITIALIZE_MSG :: u32 where "REMOTE_NDIS_INITIALIZE_MSG = 2"
definition REMOTE_NDIS_QUERY_MSG :: u32 where "REMOTE_NDIS_QUERY_MSG = 4"
definition REMOTE_NDIS_SET_MSG :: u32 where "REMOTE_NDIS_SET_MSG = 5"
definition REMOTE_NDIS_RESET_MSG :: u32 where "REMOTE_NDIS_RESET_MSG = 6"
definition REMOTE_NDIS_KEEPALIVE_MSG :: u32 where "REMOTE_NDIS_KEEPALIVE_MSG = 8"
definition REMOTE_NDIS_INITIALIZE_CMPLT :: u32 where "REMOTE_NDIS_INITIALIZE_CMPLT = 0x80000002"
definition REMOTE_NDIS_QUERY_CMPLT :: u32 where "REMOTE_NDIS_QUERY_CMPLT = 0x80000004"
definition REMOTE_NDIS_SET_CMPLT :: u32 where "REMOTE_NDIS_SET_CMPLT = 0x80000005"
definition REMOTE_NDIS_RESET_CMPLT :: u32 where "REMOTE_NDIS_RESET_CMPLT = 0x80000006"
definition REMOTE_NDIS_KEEPALIVE_CMPLT :: u32 where "REMOTE_NDIS_KEEPALIVE_CMPLT = 0x80000008"

definition OID_GEN_SUPPORTED_LIST :: u32 where "OID_GEN_SUPPORTED_LIST = 0x00010101"
definition OID_GEN_CURRENT_PACKET_FILTER :: u32 where "OID_GEN_CURRENT_PACKET_FILTER = 0x0001010E"
definition OID_GEN_VENDOR_DESCRIPTION :: u32 where "OID_GEN_VENDOR_DESCRIPTION = 0x0001010D"
definition OID_GEN_CURRENT_LOOKAHEAD :: u32 where "OID_GEN_CURRENT_LOOKAHEAD = 0x0001010F"
definition OID_GEN_PROTOCOL_OPTIONS :: u32 where "OID_GEN_PROTOCOL_OPTIONS = 0x00010112"
definition OID_GEN_RNDIS_CONFIG_PARAMETER :: u32 where "OID_GEN_RNDIS_CONFIG_PARAMETER = 0x0001021B"
definition OID_802_3_PERMANENT_ADDRESS :: u32 where "OID_802_3_PERMANENT_ADDRESS = 0x01010101"
definition OID_802_3_CURRENT_ADDRESS :: u32 where "OID_802_3_CURRENT_ADDRESS = 0x01010102"
definition OID_802_3_MULTICAST_LIST :: u32 where "OID_802_3_MULTICAST_LIST = 0x01010103"

definition OIDSupportedList :: "u32 list" where
  "OIDSupportedList = [0x00010101, 0x00010102, 0x00010103, 0x00010104, 0x00010106, 0x00010107, 0x0001010A, 0x0001010B,
     0x0001010C, 0x0001010D, 0x00010116, 0x0001010E, 0x00010111, 0x00010112, 0x00010113, 0x00010114, 0x00010115,
     0x01010101, 0x01010102, 0x01010103, 0x01010104, 0x01010105]"

definition ENC_BUF_SIZE :: nat where "ENC_BUF_SIZE = length OIDSupportedList * 4 + 32"

definition usbd_cdc_CfgDesc :: bytes where
  "usbd_cdc_CfgDesc =
    [9, 0x02, 0xDE, 0xAD, 0x02, 0x01, 0x00, 0x40, 0x01,
     0x08, 0x0B, 0x00, 0x02, 0xE0, 0x01, 0x03, 0x00,
     9, 0x04, 0x00, 0x00, 1, 0xE0, 0x01, 0x03, 0,
     0x05, 0x24, 0x00, 0x10, 0x01,
     0x05, 0x24, 0x01, 0x00, 0x01,
     0x04, 0x24, 0x02, 0x00,
     0x05, 0x24, 0x06, 0x00, 0x01,
     7, 0x05, 0x81, 0x03, 8, 0, 0x01,
     9, 0x04, 0x01, 0x00, 2, 0x0A, 0x00, 0x00, 0x00,
     7, 0x05, 0x82, 0x02, 0x40, 0, 0,
     7, 0x05, 0x03, 0x02, 0x40, 0, 0]"

section \<open>State\<close>

datatype tx_state = TX_STATE_READY | TX_STATE_NEED_SENDING | TX_STATE_SENDING_HDR | TX_STATE_SENDING_DATA | TX_STATE_SENDING_PADDING

datatype rndis_state = rndis_uninitialized | rndis_initialized | rndis_data_initialized

record 'r rndis =
  txok :: u32
  rxok :: u32
  txbad :: u32
  rxbad :: u32
  oid_packet_filter :: u32
  tx_ptr :: ptr
  tx_size :: int
  tx_state :: tx_state
  tx_need_padding :: bool
  rndis_rxproc :: "(bytes \<Rightarrow> int \<Rightarrow> 'r \<Rightarrow> 'r option) option"
  rndis_state :: rndis_state
  rndis_received :: int
  rndis_MessageLength :: int
  client :: 'r

type_synonym 'r dev = "'r rndis usb"

definition upd_cls :: "('r rndis \<Rightarrow> 'r rndis) \<Rightarrow> 'r dev \<Rightarrow> 'r dev" where
  "upd_cls f s = s\<lparr>cls := f (cls s)\<rparr>"

definition get32 :: "region \<Rightarrow> nat \<Rightarrow> 'c usb \<Rightarrow> u32 option" where
  "get32 r off s = map_option of_le32 (load_at (Some (r, off)) 4 s)"

definition put32 :: "region \<Rightarrow> nat \<Rightarrow> u32 \<Rightarrow> 'c usb \<Rightarrow> 'c usb option" where
  "put32 r off v s = store_at (Some (r, off)) (le32 v) s"

text \<open>Assignments to fields of the message in \<open>encapsulated_buffer\<close>, in order.\<close>

fun put_fields :: "(nat \<times> u32) list \<Rightarrow> 'c usb \<Rightarrow> 'c usb option" where
  "put_fields [] s = Some s"
| "put_fields ((off, v) # fs) s = do { s \<leftarrow> put32 R_encapsulated off v s; put_fields fs s }"

section \<open>Configuration\<close>

definition usbd_rndis_init :: "u8 \<Rightarrow> 'r dev \<Rightarrow> 'r dev option" where
  "usbd_rndis_init cfgidx s = do {
     s \<leftarrow> DCD_EP_Open RNDIS_NOTIFICATION_IN_EP (of_nat RNDIS_NOTIFICATION_IN_SZ) EP_TYPE_INTR s;
     s \<leftarrow> DCD_EP_Open RNDIS_DATA_IN_EP (of_nat RNDIS_DATA_IN_SZ) EP_TYPE_BULK s;
     s \<leftarrow> DCD_EP_Open RNDIS_DATA_OUT_EP (of_nat RNDIS_DATA_OUT_SZ) EP_TYPE_BULK s;
     DCD_EP_PrepareRx RNDIS_DATA_OUT_EP (Some (R_usb_rx, 0)) (of_nat RNDIS_DATA_OUT_SZ) s }"

definition usbd_rndis_deinit :: "u8 \<Rightarrow> 'r dev \<Rightarrow> 'r dev option" where
  "usbd_rndis_deinit cfgidx s = do {
     s \<leftarrow> DCD_EP_Close RNDIS_NOTIFICATION_IN_EP s;
     s \<leftarrow> DCD_EP_Close RNDIS_DATA_IN_EP s;
     DCD_EP_Close RNDIS_DATA_OUT_EP s }"

definition usbd_rndis_get_cfg :: "u8 \<Rightarrow> 'r dev \<Rightarrow> (ptr \<times> u16 \<times> 'r dev) option" where
  "usbd_rndis_get_cfg sp s = (let n = length usbd_cdc_CfgDesc in do {
     s \<leftarrow> store_at (Some (R_CfgDesc, 2)) [of_nat n AND 0xFF] s;
     s \<leftarrow> store_at (Some (R_CfgDesc, 3)) [of_nat (n div 256) AND 0xFF] s;
     Some (Some (R_CfgDesc, 0), of_nat n, s) })"

section \<open>Control messages\<close>

definition usbd_rndis_setup :: "setup_req \<Rightarrow> 'r dev \<Rightarrow> 'r dev option" where
  "usbd_rndis_setup req s =
     (if bmRequest req AND 0x60 = 0x20 then
        (if wLength req \<noteq> 0 then
           (if bmRequest req AND 0x80 \<noteq> 0 then do {
              n \<leftarrow> get32 R_encapsulated 4 s;
              USBD_CtlSendData (Some (R_encapsulated, 0)) (ucast n) s }
            else USBD_CtlPrepareRx (Some (R_encapsulated, 0)) (wLength req) s)
         else Some s)
      else Some s)"

definition rndis_notify :: "'r dev \<Rightarrow> 'r dev option" where
  "rndis_notify s = DCD_EP_Tx RNDIS_NOTIFICATION_IN_EP (Some (R_notify, 0)) 8 s"

definition rndis_query_cmplt32 :: "u32 \<Rightarrow> u32 \<Rightarrow> 'r dev \<Rightarrow> 'r dev option" where
  "rndis_query_cmplt32 status data s = do {
     s \<leftarrow> put_fields [(0, REMOTE_NDIS_QUERY_CMPLT), (4, 24 + 4), (16, 4), (20, 16), (12, status), (24, data)] s;
     rndis_notify s }"

definition rndis_query_cmplt :: "u32 \<Rightarrow> bytes \<Rightarrow> 'r dev \<Rightarrow> 'r dev option" where
  "rndis_query_cmplt status data s = (let size = of_nat (length data) in do {
     s \<leftarrow> put_fields [(0, REMOTE_NDIS_QUERY_CMPLT), (4, 24 + size), (16, size), (20, 16), (12, status)] s;
     s \<leftarrow> store_at (Some (R_encapsulated, 24)) data s;
     rndis_notify s })"

text \<open>The queries answered with one number: status and value.\<close>

definition query32 :: "'r rndis \<Rightarrow> (u32 \<times> u32 \<times> u32) list" where
  "query32 c = (let S = RNDIS_STATUS_SUCCESS; N = RNDIS_STATUS_NOT_SUPPORTED in
    [(0x00010116, S, 0x00001000),
     (0x00010103, S, 0),
     (0x00010104, S, 0),
     (0x00010202, S, 0),
     (0x00010102, S, 0),
     (0x00010107, S, 12000000 div 100),
     (0x0001010C, S, 0x00FFFFFF),
     (OID_GEN_CURRENT_PACKET_FILTER, S, oid_packet_filter c),
     (0x00010106, S, of_nat (ETH_MAX_PACKET_SIZE - ETH_HEADER_SIZE)),
     (0x00010111, S, of_nat ETH_MAX_PACKET_SIZE),
     (0x0001010A, S, of_nat ETH_MAX_PACKET_SIZE),
     (0x0001010B, S, of_nat ETH_MAX_PACKET_SIZE),
     (0x00010114, S, 0),
     (OID_GEN_RNDIS_CONFIG_PARAMETER, S, 0),
     (0x01010104, S, 1),
     (OID_802_3_MULTICAST_LIST, N, 0),
     (0x01010105, N, 0),
     (0x00010113, S, 0),
     (0x01020101, S, 0),
     (0x01020102, S, 0),
     (0x01020103, S, 0),
     (0x00020101, S, txok c),
     (0x00020102, S, rxok c),
     (0x00020104, S, rxbad c),
     (0x00020103, S, txbad c),
     (0x00020105, S, 0)])"

definition rndis_query :: "'r dev \<Rightarrow> 'r dev option" where
  "rndis_query s = do {
     oid \<leftarrow> get32 R_encapsulated 12 s;
     if oid = OID_GEN_SUPPORTED_LIST then rndis_query_cmplt RNDIS_STATUS_SUCCESS (concat (map le32 OIDSupportedList)) s
     else if oid = OID_802_3_CURRENT_ADDRESS then rndis_query_cmplt RNDIS_STATUS_SUCCESS station_hwaddr s
     else if oid = OID_802_3_PERMANENT_ADDRESS then rndis_query_cmplt RNDIS_STATUS_SUCCESS station_hwaddr s
     else if oid = OID_GEN_VENDOR_DESCRIPTION then rndis_query_cmplt RNDIS_STATUS_SUCCESS (rndis_vendor @ [0]) s
     else (case map_of (query32 (cls s)) oid of
         Some (status, v) \<Rightarrow> rndis_query_cmplt32 status v s
       | None \<Rightarrow> rndis_query_cmplt RNDIS_STATUS_FAILURE [] s) }"

definition rndis_handle_config_parm :: "u32 \<Rightarrow> u32 \<Rightarrow> u32 \<Rightarrow> u32 \<Rightarrow> 'r dev \<Rightarrow> 'r dev" where
  "rndis_handle_config_parm keyoffset valoffset keylen vallen s = s"

definition rndis_packetFilter :: "u32 \<Rightarrow> 'r dev \<Rightarrow> 'r dev" where
  "rndis_packetFilter newfilter s = s"

text \<open>
  Message and completion share the buffer: the field \<open>Status\<close> of the completion is the field
  \<open>Oid\<close> of the message, which is read before. The information buffer lies at an offset the host
  gives, counted from \<open>RequestId\<close>.
\<close>

definition rndis_handle_set_msg :: "'r dev \<Rightarrow> 'r dev option" where
  "rndis_handle_set_msg s = do {
     oid \<leftarrow> get32 R_encapsulated 12 s;
     s \<leftarrow> put_fields [(0, REMOTE_NDIS_SET_CMPLT), (4, 16), (12, RNDIS_STATUS_SUCCESS)] s;
     s \<leftarrow> (if oid = OID_GEN_RNDIS_CONFIG_PARAMETER then do {
              off \<leftarrow> get32 R_encapsulated 20 s;
              let p = 8 + unat off;
              a \<leftarrow> get32 R_encapsulated p s;
              b \<leftarrow> get32 R_encapsulated (p + 12) s;
              c \<leftarrow> get32 R_encapsulated (p + 4) s;
              d \<leftarrow> get32 R_encapsulated (p + 16) s;
              Some (rndis_handle_config_parm a b c d s) }
            else if oid = OID_GEN_CURRENT_PACKET_FILTER then do {
              off \<leftarrow> get32 R_encapsulated 20 s;
              v \<leftarrow> get32 R_encapsulated (8 + unat off) s;
              let s = upd_cls (\<lambda>c. c\<lparr>oid_packet_filter := v\<rparr>) s;
              Some (if v \<noteq> 0 then upd_cls (\<lambda>c. c\<lparr>rndis_state := rndis_data_initialized\<rparr>) (rndis_packetFilter v s)
                    else upd_cls (\<lambda>c. c\<lparr>rndis_state := rndis_initialized\<rparr>) s) }
            else if oid = OID_GEN_CURRENT_LOOKAHEAD \<or> oid = OID_GEN_PROTOCOL_OPTIONS \<or> oid = OID_802_3_MULTICAST_LIST
            then Some s
            else put32 R_encapsulated 12 RNDIS_STATUS_FAILURE s);
     rndis_notify s }"

definition usbd_rndis_ep0_recv :: "'r dev \<Rightarrow> 'r dev option" where
  "usbd_rndis_ep0_recv s = do {
     t \<leftarrow> get32 R_encapsulated 0 s;
     if t = REMOTE_NDIS_INITIALIZE_MSG then do {
       s \<leftarrow> put_fields [(0, REMOTE_NDIS_INITIALIZE_CMPLT), (4, 52), (16, 1), (20, 0), (12, RNDIS_STATUS_SUCCESS), (24, 1), (28, 0),
              (32, 1), (36, of_nat RNDIS_RX_BUFFER_SIZE), (40, 0), (44, 0), (48, 0)] s;
       rndis_notify (upd_cls (\<lambda>c. c\<lparr>rndis_state := rndis_initialized\<rparr>) s) }
     else if t = REMOTE_NDIS_QUERY_MSG then rndis_query s
     else if t = REMOTE_NDIS_SET_MSG then rndis_handle_set_msg s
     else if t = REMOTE_NDIS_RESET_MSG then do {
       let s = upd_cls (\<lambda>c. c\<lparr>rndis_state := rndis_uninitialized\<rparr>) s;
       s \<leftarrow> put_fields [(0, REMOTE_NDIS_RESET_CMPLT), (4, 16), (8, RNDIS_STATUS_SUCCESS), (12, 1)] s;
       rndis_notify s }
     else if t = REMOTE_NDIS_KEEPALIVE_MSG then do {
       s \<leftarrow> put_fields [(0, REMOTE_NDIS_KEEPALIVE_CMPLT), (4, 16), (12, RNDIS_STATUS_SUCCESS)] s;
       rndis_notify s }
     else Some s }"

section \<open>Frames to the host\<close>

definition rndis_header :: "u32 \<Rightarrow> u32 \<Rightarrow> bytes" where
  "rndis_header MessageLength DataLength =
     le32 REMOTE_NDIS_PACKET_MSG @ le32 MessageLength @ le32 (of_nat RNDIS_HDR - 8) @ le32 DataLength @ replicate 28 0"

definition usbd_rndis_data_in :: "u8 \<Rightarrow> 'r dev \<Rightarrow> 'r dev option" where
  "usbd_rndis_data_in epnum s = (let c = cls s in
     if epnum AND 0x0F \<noteq> RNDIS_DATA_IN_EP AND 0x0F then Some s
     else if tx_state c = TX_STATE_NEED_SENDING then (let
       len = of_nat RNDIS_HDR + word_of_int (tx_size c) :: u32;
       pad = len AND 63 = 0;
       len = (if pad then len + 1 else len);
       n = min (int (RNDIS_DATA_IN_SZ - RNDIS_HDR)) (tx_size c) in do {
       s \<leftarrow> store_at (Some (R_first, 0)) (rndis_header len (word_of_int (tx_size c))) s;
       d \<leftarrow> (if n < 0 then None else load_at (tx_ptr c) (nat n) s);
       s \<leftarrow> store_at (Some (R_first, RNDIS_HDR)) d s;
       let s = upd_cls (\<lambda>c. c\<lparr>tx_need_padding := pad, tx_ptr := ptr_add (tx_ptr c) (nat n), tx_size := tx_size c - n\<rparr>) s;
       s \<leftarrow> DCD_EP_Tx RNDIS_DATA_IN_EP (Some (R_first, 0)) (of_nat RNDIS_HDR + word_of_int n) s;
       Some (upd_cls (\<lambda>c. c\<lparr>tx_state := TX_STATE_SENDING_HDR\<rparr>) s) })
     else if tx_state c = TX_STATE_SENDING_HDR \<and> tx_size c > 0 then do {
       s \<leftarrow> DCD_EP_Tx RNDIS_DATA_IN_EP (tx_ptr c) (word_of_int (tx_size c)) s;
       Some (upd_cls (\<lambda>c. c\<lparr>tx_state := TX_STATE_SENDING_DATA\<rparr>) s) }
     else if (tx_state c = TX_STATE_SENDING_HDR \<or> tx_state c = TX_STATE_SENDING_DATA) \<and> tx_need_padding c then do {
       s \<leftarrow> DCD_EP_Tx RNDIS_DATA_IN_EP (Some (R_pad, 0)) 1 s;
       Some (upd_cls (\<lambda>c. c\<lparr>tx_state := TX_STATE_SENDING_PADDING\<rparr>) s) }
     else Some (upd_cls (\<lambda>c. c\<lparr>tx_state := TX_STATE_READY\<rparr>) s))"

definition rndis_can_send :: "'r dev \<Rightarrow> bool" where
  "rndis_can_send s \<longleftrightarrow> tx_state (cls s) = TX_STATE_READY"

definition rndis_send :: "ptr \<Rightarrow> int \<Rightarrow> 'r dev \<Rightarrow> (bool \<times> 'r dev) option" where
  "rndis_send data sz s =
     (if sz \<le> 0 \<or> sz > int ETH_MAX_PACKET_SIZE \<or> tx_state (cls s) \<noteq> TX_STATE_READY then Some (False, s)
      else do {
        s \<leftarrow> usbd_rndis_data_in RNDIS_DATA_IN_EP
          (upd_cls (\<lambda>c. c\<lparr>tx_ptr := data, tx_size := sz, tx_state := TX_STATE_NEED_SENDING\<rparr>) s);
        Some (True, s) })"

section \<open>Frames from the host\<close>

text \<open>Sizes are compared as unsigned 32-bit numbers, and the sum in the check wraps.\<close>

definition handle_packet :: "int \<Rightarrow> 'r dev \<Rightarrow> 'r dev option" where
  "handle_packet sz s =
     (if (word_of_int sz :: u32) < of_nat RNDIS_HDR then Some s else do {
        MessageType \<leftarrow> get32 R_rndis_rx 0 s;
        MessageLength \<leftarrow> get32 R_rndis_rx 4 s;
        if MessageType \<noteq> REMOTE_NDIS_PACKET_MSG \<or> MessageLength \<noteq> word_of_int sz then Some s else do {
          DataOffset \<leftarrow> get32 R_rndis_rx 8 s;
          DataLength \<leftarrow> get32 R_rndis_rx 12 s;
          if DataOffset + 8 + DataLength \<noteq> word_of_int sz
          then Some (upd_cls (\<lambda>c. c\<lparr>rxbad := rxbad c + 1\<rparr>) s)
          else (let s = upd_cls (\<lambda>c. c\<lparr>rxok := rxok c + 1\<rparr>) s in
            case rndis_rxproc (cls s) of None \<Rightarrow> Some s
            | Some f \<Rightarrow> (let off = unat (DataOffset + 8) in
                if off > length (mem s R_rndis_rx) then None else do {
                  r \<leftarrow> f (drop off (mem s R_rndis_rx)) (sint DataLength) (client (cls s));
                  Some (upd_cls (\<lambda>c. c\<lparr>client := r\<rparr>) s) })) } })"

definition data_out_fragment :: "u32 \<Rightarrow> 'r dev \<Rightarrow> 'r dev option" where
  "data_out_fragment count s = (let received = rndis_received (cls s) in
     if received < 0 then None else do {
     d \<leftarrow> load_at (Some (R_usb_rx, 0)) (unat count) s;
     s \<leftarrow> store_at (Some (R_rndis_rx, nat received)) d s;
     s \<leftarrow> (if received = 0 then do {
              l \<leftarrow> get32 R_rndis_rx 4 s;
              Some (upd_cls (\<lambda>c. c\<lparr>rndis_MessageLength := sint l\<rparr>) s) }
            else Some s);
     let received = sint (word_of_int received + count :: u32);
     let s = upd_cls (\<lambda>c. c\<lparr>rndis_received := received\<rparr>) s;
     if count \<noteq> of_nat RNDIS_DATA_OUT_SZ \<or> received = rndis_MessageLength (cls s) then do {
       s \<leftarrow> handle_packet received s;
       Some (upd_cls (\<lambda>c. c\<lparr>rndis_received := 0\<rparr>) s) }
     else Some s })"

text \<open>The inner test of the code repeats the outer one negated; its else branch is never taken.\<close>

definition usbd_rndis_data_out :: "u8 \<Rightarrow> 'r dev \<Rightarrow> 'r dev option" where
  "usbd_rndis_data_out epnum s =
     (if epnum = RNDIS_DATA_OUT_EP then do {
        e \<leftarrow> get_out epnum s;
        let sum = word_of_int (rndis_received (cls s)) + xfer_count e;
        s \<leftarrow> (if sum > of_nat RNDIS_RX_BUFFER_SIZE
             then Some (upd_cls (\<lambda>c. c\<lparr>rxbad := rxbad c + 1, rndis_received := 0\<rparr>) s)
             else data_out_fragment (xfer_count e) s);
        DCD_EP_PrepareRx RNDIS_DATA_OUT_EP (Some (R_usb_rx, 0)) (of_nat RNDIS_DATA_OUT_SZ) s }
      else Some s)"

section \<open>The class\<close>

definition usbd_rndis_sof :: "'r dev \<Rightarrow> 'r dev option" where
  "usbd_rndis_sof s = Some s"

definition rndis_iso_in_incomplete :: "'r dev \<Rightarrow> 'r dev option" where
  "rndis_iso_in_incomplete s = Some s"

definition rndis_iso_out_incomplete :: "'r dev \<Rightarrow> 'r dev option" where
  "rndis_iso_out_incomplete s = Some s"

definition usbd_rndis_cb :: "'r rndis class_cb" where
  "usbd_rndis_cb = \<lparr>Init = usbd_rndis_init, DeInit = usbd_rndis_deinit, Setup = usbd_rndis_setup, EP0_TxSent = None,
     EP0_RxReady = Some usbd_rndis_ep0_recv, DataIn = Some usbd_rndis_data_in, DataOut = Some usbd_rndis_data_out,
     SOF = Some usbd_rndis_sof, IsoINIncomplete = rndis_iso_in_incomplete, IsoOUTIncomplete = rndis_iso_out_incomplete,
     GetConfigDescriptor = usbd_rndis_get_cfg\<rparr>"

end
