(* ===== verification/Rndis_Spec.thy ===== *)
theory Rndis_Spec
  imports Rndis
begin

text \<open>
  What the RNDIS driver does with whole messages: a frame handed to \<open>rndis_send\<close> and the transfers
  that carry it to the host; the packets of a message from the host and the frame that reaches
  the receive callback; a control message and its completion.
\<close>

unbundle bit_operations_syntax

lemma usb_ok_cls [simp]: "usb_ok (upd_cls f s) = usb_ok s"
  by (simp add: upd_cls_def)

section \<open>Frames to the host, as a whole\<close>

definition transfer :: "'c usb \<Rightarrow> bytes option" where
  "transfer s = (let e = in_ep s ! 2 in load_at (xfer_buff e) (unat (xfer_len e)) s)"

lemma tx_data_in:
  assumes "usb_ok s"
  shows "\<exists>s'. DCD_EP_Tx RNDIS_DATA_IN_EP p n s = Some s' \<and> usb_ok s' \<and> cls s' = cls s \<and> mem s' = mem s
     \<and> transfer s' = load_at p (unat n) s"
proof -
  have a: "ep_index RNDIS_DATA_IN_EP = 2" "RNDIS_DATA_IN_EP AND 0x7F = 2" by (simp_all add: ep_index_def RNDIS_DATA_IN_EP_def)
  let ?e = "tx_ep RNDIS_DATA_IN_EP p n (in_ep s ! 2)"
  have r: "ep_ready (in_ep s ! 2)" "2 < length (in_ep s)" "dev_endpoints s = 4" using assms by (auto simp: usb_ok_def)
  obtain s' where s': "DCD_EP_Tx RNDIS_DATA_IN_EP p n s = Some s'" "io (put_in RNDIS_DATA_IN_EP ?e s) s'"
    using DCD_EP_Tx_ok [of RNDIS_DATA_IN_EP s p n] a r by (auto simp: ep_ready_def)
  have "ep_ready ?e" using r(1) by (simp add: ep_ready_def tx_ep_def)
  then have "usb_ok s'" using usb_ok_io [OF s'(2)] usb_ok_put(1) [OF assms] by blast
  moreover have "in_ep s' ! 2 = ?e" using r(2) io_sels(18) [OF s'(2)] by (simp add: put_in_def a)
  moreover have "load_at q k s' = load_at q k s" for q k
    by (rule load_cong) (simp_all add: io_sels [OF s'(2)] put_in_def)
  ultimately show ?thesis using s' by (simp add: io_sels put_in_def transfer_def tx_ep_def)
qed

text \<open>
  The transfers of a frame: the one pending, and those the driver starts on the completions that
  follow, until it is ready again.
\<close>

fun completions :: "nat \<Rightarrow> 'r dev \<Rightarrow> (bytes list \<times> 'r dev) option" where
  "completions 0 s = None"
| "completions (Suc k) s = do {
     d \<leftarrow> transfer s;
     s \<leftarrow> usbd_rndis_data_in 2 s;
     if rndis_can_send s then Some ([d], s)
     else do { (ds, s) \<leftarrow> completions k s; Some (d # ds, s) } }"

definition rndis_message :: "bytes \<Rightarrow> bytes" where
  "rndis_message d = (let n = RNDIS_HDR + length d; pad = n mod RNDIS_DATA_IN_SZ = 0 in
     rndis_header (of_nat (if pad then n + 1 else n)) (of_nat (length d)) @ d @ (if pad then [0] else []))"

lemma rndis_header_length: "length (rndis_header a b) = RNDIS_HDR"
  by (simp add: rndis_header_def RNDIS_HDR_def)

lemma data_in_step:
  shows "tx_state (cls s) = TX_STATE_SENDING_HDR \<Longrightarrow> tx_size (cls s) > 0 \<Longrightarrow> usbd_rndis_data_in 2 s = do {
       s \<leftarrow> DCD_EP_Tx RNDIS_DATA_IN_EP (tx_ptr (cls s)) (word_of_int (tx_size (cls s))) s;
       Some (upd_cls (\<lambda>c. c\<lparr>tx_state := TX_STATE_SENDING_DATA\<rparr>) s) }"
    and "tx_state (cls s) = TX_STATE_SENDING_HDR \<and> tx_size (cls s) \<le> 0 \<or> tx_state (cls s) = TX_STATE_SENDING_DATA \<Longrightarrow>
       tx_need_padding (cls s) \<Longrightarrow> usbd_rndis_data_in 2 s = do {
       s \<leftarrow> DCD_EP_Tx RNDIS_DATA_IN_EP (Some (R_pad, 0)) 1 s;
       Some (upd_cls (\<lambda>c. c\<lparr>tx_state := TX_STATE_SENDING_PADDING\<rparr>) s) }"
    and "tx_state (cls s) = TX_STATE_SENDING_HDR \<and> tx_size (cls s) \<le> 0 \<and> \<not> tx_need_padding (cls s)
       \<or> tx_state (cls s) = TX_STATE_SENDING_DATA \<and> \<not> tx_need_padding (cls s) \<or> tx_state (cls s) = TX_STATE_SENDING_PADDING \<Longrightarrow>
       usbd_rndis_data_in 2 s = Some (upd_cls (\<lambda>c. c\<lparr>tx_state := TX_STATE_READY\<rparr>) s)"
  by (auto simp: usbd_rndis_data_in_def RNDIS_DATA_IN_EP_def Let_def)

lemma load_at_upd [simp]: "load_at p n (upd_cls f s) = load_at p n s" "load_at p n (s\<lparr>cls := c\<rparr>) = load_at p n s"
  by (rule load_cong; simp add: upd_cls_def)+

lemma upd_cls_sels [simp]: "cls (upd_cls f s) = f (cls s)" "mem (upd_cls f s) = mem s" "in_ep (upd_cls f s) = in_ep s"
  "out_ep (upd_cls f s) = out_ep s" "transfer (upd_cls f s) = transfer s"
  by (simp_all add: upd_cls_def transfer_def load_at_upd Let_def)

lemma padding_step:
  assumes "usb_ok s" "tx_state (cls s) = TX_STATE_SENDING_HDR \<or> tx_state (cls s) = TX_STATE_SENDING_DATA"
    "tx_state (cls s) = TX_STATE_SENDING_HDR \<longrightarrow> tx_size (cls s) = 0"
    "transfer s = Some d" "take 1 (mem s R_pad) = [0]"
  shows "\<exists>s'. completions (Suc (Suc k)) s = Some (if tx_need_padding (cls s) then [d, [0]] else [d], s')
     \<and> usb_ok s' \<and> mem s' = mem s \<and> cls s' = (cls s)\<lparr>tx_state := TX_STATE_READY\<rparr>"
proof (cases "tx_need_padding (cls s)")
  case False
  let ?u = "upd_cls (\<lambda>c. c\<lparr>tx_state := TX_STATE_READY\<rparr>) s"
  have "usbd_rndis_data_in 2 s = Some ?u" by (rule data_in_step(3)) (use assms(2,3) False in auto)
  then show ?thesis using assms(1,4) False by (simp add: rndis_can_send_def)
next
  case True
  from tx_data_in [OF assms(1), of "Some (R_pad, 0)" 1] obtain t where t: "DCD_EP_Tx RNDIS_DATA_IN_EP (Some (R_pad, 0)) 1 s = Some t"
    "usb_ok t" "cls t = cls s" "mem t = mem s" "transfer t = load_at (Some (R_pad, 0)) 1 s" by auto
  let ?t = "upd_cls (\<lambda>c. c\<lparr>tx_state := TX_STATE_SENDING_PADDING\<rparr>) t"
  let ?u = "upd_cls (\<lambda>c. c\<lparr>tx_state := TX_STATE_READY\<rparr>) ?t"
  have "usbd_rndis_data_in 2 s = do {
       s \<leftarrow> DCD_EP_Tx RNDIS_DATA_IN_EP (Some (R_pad, 0)) 1 s;
       Some (upd_cls (\<lambda>c. c\<lparr>tx_state := TX_STATE_SENDING_PADDING\<rparr>) s) }"
    by (rule data_in_step(2)) (use assms(2,3) True in auto)
  then have st: "usbd_rndis_data_in 2 s = Some ?t" using t(1) by simp
  have x: "load_at (Some (R_pad, 0)) 1 s = Some [0]"
    using assms(5) by (cases "mem s R_pad") (simp_all add: load_at_def load_def rd_at_Some)
  have tr: "transfer ?t = Some [0]" using t(5) x by simp
  have st2: "usbd_rndis_data_in 2 ?t = Some ?u" by (rule data_in_step(3)) simp
  have "\<not> rndis_can_send ?t" "rndis_can_send ?u" by (simp_all add: rndis_can_send_def)
  moreover have "usb_ok ?u" "mem ?u = mem s" "cls ?u = (cls s)\<lparr>tx_state := TX_STATE_READY\<rparr>"
    using t by simp_all
  ultimately show ?thesis using assms(4) st st2 tr True by simp
qed

lemma and_63: "(w :: u32) AND 63 = 0 \<longleftrightarrow> unat w mod 64 = 0"
proof -
  have "w AND 63 = take_bit 6 w" using take_bit_eq_mask [of 6 w] by (simp add: mask_numeral)
  moreover have "unat (take_bit 6 w) = unat w mod 64" using unat_mod [of w 64] by (simp add: take_bit_eq_mod)
  ultimately show ?thesis by (simp add: unat_eq_0 [symmetric])
qed

lemma rndis_send_hdr:
  assumes "usb_ok s" "rndis_can_send s" "p = Some (r, off)" "r \<noteq> R_first" "r \<noteq> R_device_config" "load_at p n s = Some d"
    "0 < n" "n \<le> ETH_MAX_PACKET_SIZE" "length (mem s R_first) = RNDIS_DATA_IN_SZ"
  shows "\<exists>s' b. rndis_send p (int n) s = Some (True, s') \<and> usb_ok s'
     \<and> cls s' = (cls s)\<lparr>tx_state := TX_STATE_SENDING_HDR, tx_size := int n - int (min 20 n), tx_ptr := ptr_add p (min 20 n),
                   tx_need_padding := ((RNDIS_HDR + n) mod RNDIS_DATA_IN_SZ = 0)\<rparr>
     \<and> mem s' = (mem s)(R_first := b) \<and> length b = RNDIS_DATA_IN_SZ
     \<and> transfer s' = Some (take (RNDIS_HDR + min 20 n) (rndis_message d))"
proof -
  define pad where "pad = ((RNDIS_HDR + n) mod RNDIS_DATA_IN_SZ = 0)"
  define m where "m = min 20 n"
  define len :: u32 where "len = of_nat (if pad then RNDIS_HDR + n + 1 else RNDIS_HDR + n)"
  define h where "h = rndis_header len (of_nat n)"
  have n: "n \<le> 1514" using assms(8) by (simp add: ETH_MAX_PACKET_SIZE_def ETH_HEADER_SIZE_def RNDIS_MTU_def)
  have ld: "length d = n" using load_at_length [OF assms(6)] .
  have h: "length h = 44" by (simp add: h_def rndis_header_length RNDIS_HDR_def)
  have l64: "length (mem s R_first) = 64" using assms(9) by (simp add: RNDIS_DATA_IN_SZ_def)
  have w: "of_nat RNDIS_HDR + word_of_int (int n) = (of_nat (RNDIS_HDR + n) :: u32)" by simp
  have "unat (of_nat (RNDIS_HDR + n) :: u32) = RNDIS_HDR + n" by (rule unat32_of_nat) (use n in \<open>simp add: RNDIS_HDR_def\<close>)
  then have pd: "(of_nat (RNDIS_HDR + n) :: u32) AND 63 = 0 \<longleftrightarrow> pad" by (simp add: and_63 pad_def RNDIS_DATA_IN_SZ_def)
  have ln: "(if pad then of_nat (RNDIS_HDR + n) + 1 else of_nat (RNDIS_HDR + n)) = len" by (simp add: len_def)
  have mn: "min (int (RNDIS_DATA_IN_SZ - RNDIS_HDR)) (int n) = int m" by (simp add: m_def RNDIS_DATA_IN_SZ_def RNDIS_HDR_def)
  define c0 where "c0 = (cls s)\<lparr>tx_ptr := p, tx_size := int n, tx_state := TX_STATE_NEED_SENDING\<rparr>"
  define s0 where "s0 = s\<lparr>cls := c0\<rparr>"
  define s1 where "s1 = s0\<lparr>mem := (mem s)(R_first := h @ drop 44 (mem s R_first))\<rparr>"
  have st1: "store_at (Some (R_first, 0)) h s0 = Some s1" by (subst store_at_Some) (simp_all add: h l64 s0_def s1_def)
  have "load_at p n s1 = Some d" unfolding s1_def
    using load_at_other [OF assms(3,4), of n s0] assms(6) by (simp add: s0_def)
  from load_at_part [OF this, of 0 m] have ld1: "load_at p m s1 = Some (take m d)" by (simp add: assms(3) ptr_add_def m_def)
  define b where "b = h @ take m d @ drop (44 + m) (mem s R_first)"
  define s2 where "s2 = s1\<lparr>mem := (mem s)(R_first := b)\<rparr>"
  have m20: "m \<le> 20" "m \<le> n" by (simp_all add: m_def)
  have st2: "store_at (Some (R_first, 44)) (take m d) s1 = Some s2"
    by (subst store_at_Some) (use m20 in \<open>simp_all add: h l64 ld s1_def s2_def b_def s0_def min_def add.commute\<close>)
  define c3 where "c3 = c0\<lparr>tx_need_padding := pad, tx_ptr := ptr_add p m, tx_size := int n - int m\<rparr>"
  define s3 where "s3 = s2\<lparr>cls := c3\<rparr>"
  have ok3: "usb_ok s3" using assms(1) by (simp add: s3_def s2_def s1_def s0_def usb_ok_def)
  from tx_data_in [OF ok3, of "Some (R_first, 0)" "of_nat RNDIS_HDR + word_of_int (int m)"] obtain s4 where
    s4: "DCD_EP_Tx RNDIS_DATA_IN_EP (Some (R_first, 0)) (of_nat RNDIS_HDR + word_of_int (int m)) s3 = Some s4" "usb_ok s4"
    "cls s4 = cls s3" "mem s4 = mem s3" "transfer s4 = load_at (Some (R_first, 0)) (unat (of_nat RNDIS_HDR + word_of_int (int m) :: u32)) s3" by blast
  have lb: "length b = 64" using h m20 ld l64 by (simp add: b_def)
  have "unat (of_nat RNDIS_HDR + word_of_int (int m) :: u32) = 44 + m"
    using unat32_of_nat [of "44 + m"] m20 by (simp add: RNDIS_HDR_def)
  then have tr: "transfer s4 = Some (take (44 + m) b)" using s4(5) lb m20
    by (subst (asm) load_at_Some) (simp_all add: s3_def s2_def)
  have cm: "take (44 + m) b = take (RNDIS_HDR + m) (rndis_message d)"
    using m20 by (simp add: b_def h rndis_message_def ld Let_def RNDIS_HDR_def [symmetric] pad_def [symmetric])
      (simp add: h_def len_def RNDIS_HDR_def rndis_header_length pad_def)
  define s5 where "s5 = upd_cls (\<lambda>c. c\<lparr>tx_state := TX_STATE_SENDING_HDR\<rparr>) s4"
  have di: "usbd_rndis_data_in RNDIS_DATA_IN_EP s0 = Some s5"
  proof -
    have c0: "cls s0 = c0" "tx_state c0 = TX_STATE_NEED_SENDING" "tx_size c0 = int n" "tx_ptr c0 = p"
      by (simp_all add: s0_def c0_def)
    have c2: "upd_cls (\<lambda>c. c\<lparr>tx_need_padding := pad, tx_ptr := ptr_add (tx_ptr c) (nat (int m)), tx_size := tx_size c - int m\<rparr>) s2 = s3"
      by (simp add: upd_cls_def s3_def s2_def s1_def s0_def c3_def c0_def)
    have sz: "\<not> int m < 0" by simp
    have st1': "store_at (Some (R_first, 0)) (rndis_header len (of_nat n)) s0 = Some s1" using st1 by (simp add: h_def)
    have st2': "store_at (Some (R_first, RNDIS_HDR)) (take m d) s1 = Some s2" using st2 by (simp add: RNDIS_HDR_def)
    note s4' = s4(1) [unfolded of_int_of_nat_eq]
    show ?thesis
      unfolding usbd_rndis_data_in_def Let_def c0 mn of_int_of_nat_eq w [unfolded of_int_of_nat_eq] pd ln
      by (simp only: c0 simp_thms if_True if_False refl sz st1' bind.bind_lunit nat_int ld1 st2' c2 [unfolded nat_int] s4' s5_def)
  qed
  have "rndis_send p (int n) s = Some (True, s5)"
    using assms(2,7,8) di by (simp add: rndis_send_def rndis_can_send_def upd_cls_def s0_def c0_def)
  moreover have "usb_ok s5" using s4(2) by (simp add: s5_def)
  moreover have "cls s5 = (cls s)\<lparr>tx_state := TX_STATE_SENDING_HDR, tx_size := int n - int m, tx_ptr := ptr_add p m, tx_need_padding := pad\<rparr>"
    by (simp add: s5_def s4(3) s3_def c3_def c0_def)
  moreover have "mem s5 = (mem s)(R_first := b)" by (simp add: s5_def s4(4) s3_def s2_def)
  moreover have "transfer s5 = Some (take (RNDIS_HDR + m) (rndis_message d))" using tr cm by (simp add: s5_def)
  ultimately show ?thesis using lb unfolding m_def pad_def by (auto simp: RNDIS_DATA_IN_SZ_def)
qed

lemma rndis_message_parts:
  assumes "length d = n"
  shows "take (RNDIS_HDR + min 20 n) (rndis_message d) @ drop 20 d @ (if (RNDIS_HDR + n) mod RNDIS_DATA_IN_SZ = 0 then [0] else [])
     = rndis_message d"
proof -
  have "take (min 20 n) d @ drop 20 d = d" using assms by (cases "n \<le> 20") simp_all
  then have "take (min 20 n) d @ drop 20 d @ x = d @ x" for x by (simp only: append_assoc [symmetric])
  from this [of "[]"] this show ?thesis using assms by (simp add: rndis_message_def Let_def rndis_header_length)
qed

lemma rndis_send_message:
  assumes "usb_ok s" "rndis_can_send s" "p = Some (r, off)" "r \<noteq> R_first" "r \<noteq> R_device_config" "load_at p n s = Some d"
    "0 < n" "n \<le> ETH_MAX_PACKET_SIZE" "length (mem s R_first) = RNDIS_DATA_IN_SZ" "take 1 (mem s R_pad) = [0]"
  shows "\<exists>s1 ds s2. rndis_send p (int n) s = Some (True, s1) \<and> completions 3 s1 = Some (ds, s2) \<and> concat ds = rndis_message d
     \<and> rndis_can_send s2 \<and> usb_ok s2 \<and> (\<forall>x \<in> set (butlast ds). length x mod RNDIS_DATA_IN_SZ = 0)
     \<and> length (last ds) mod RNDIS_DATA_IN_SZ \<noteq> 0"
proof -
  have ld: "length d = n" using load_at_length [OF assms(6)] .
  define pad where "pad = ((RNDIS_HDR + n) mod RNDIS_DATA_IN_SZ = 0)"
  define hd where "hd = take (RNDIS_HDR + min 20 n) (rndis_message d)"
  have parts: "hd @ drop 20 d @ (if pad then [0] else []) = rndis_message d"
    using rndis_message_parts [OF ld] by (simp add: hd_def pad_def)
  have lh: "length hd = 44 + min 20 n"
    by (simp add: hd_def rndis_message_def Let_def rndis_header_length ld RNDIS_HDR_def)
  from rndis_send_hdr [OF assms(1-9)] obtain s1 b where s1: "rndis_send p (int n) s = Some (True, s1)" "usb_ok s1"
     "cls s1 = (cls s)\<lparr>tx_state := TX_STATE_SENDING_HDR, tx_size := int n - int (min 20 n), tx_ptr := ptr_add p (min 20 n), tx_need_padding := pad\<rparr>"
     "mem s1 = (mem s)(R_first := b)" "transfer s1 = Some hd" unfolding pad_def hd_def by blast
  have p1: "take 1 (mem s1 R_pad) = [0]" using assms(10) s1(4) by simp
  show ?thesis
  proof (cases "n \<le> 20")
    case True
    have "\<exists>s2. completions (Suc (Suc 1)) s1 = Some (if tx_need_padding (cls s1) then [hd, [0]] else [hd], s2)
       \<and> usb_ok s2 \<and> mem s2 = mem s1 \<and> cls s2 = (cls s1)\<lparr>tx_state := TX_STATE_READY\<rparr>"
      by (rule padding_step [OF s1(2) _ _ s1(5) p1]) (use True in \<open>simp_all add: s1(3)\<close>)
    then obtain s2 where s2: "completions 3 s1 = Some (if pad then [hd, [0]] else [hd], s2)" "usb_ok s2"
       "cls s2 = (cls s1)\<lparr>tx_state := TX_STATE_READY\<rparr>" by (auto simp: s1(3) numeral_3_eq_3)
    have d: "drop 20 d = []" using True ld by simp
    have c: "concat (if pad then [hd, [0]] else [hd]) = rndis_message d" using parts d by (simp split: if_splits)
    have "length hd = 44 + n" using lh True by simp
    moreover have "pad \<longleftrightarrow> (44 + n) mod 64 = 0" by (simp add: pad_def RNDIS_HDR_def RNDIS_DATA_IN_SZ_def)
    ultimately show ?thesis using s1(1) s2 c by (auto simp: rndis_can_send_def RNDIS_DATA_IN_SZ_def)
  next
    case False
    have "load_at (ptr_add p 20) (n - 20) s = Some (drop 20 d)"
      using load_at_part [OF assms(6), of 20 "n - 20"] False ld by simp
    moreover have "load_at (ptr_add p 20) (n - 20) s1 = load_at (ptr_add p 20) (n - 20) s"
      using assms(3,4,5) s1(4) by (simp add: load_at_def ptr_add_def load_def)
    ultimately have l1: "load_at (ptr_add p 20) (n - 20) s1 = Some (drop 20 d)" by simp
    have w: "word_of_int (int n - 20) = (of_nat (n - 20) :: u32)" using False by (simp add: of_nat_diff)
    have n: "n \<le> 1514" using assms(8) by (simp add: ETH_MAX_PACKET_SIZE_def ETH_HEADER_SIZE_def RNDIS_MTU_def)
    have u: "unat (of_nat (n - 20) :: u32) = n - 20" by (rule unat32_of_nat) (use n in simp)
    from tx_data_in [OF s1(2), of "ptr_add p 20" "of_nat (n - 20)"] obtain t where
      t: "DCD_EP_Tx RNDIS_DATA_IN_EP (ptr_add p 20) (of_nat (n - 20)) s1 = Some t" "usb_ok t" "cls t = cls s1" "mem t = mem s1"
      "transfer t = Some (drop 20 d)" unfolding u l1 by blast
    define t' where "t' = upd_cls (\<lambda>c. c\<lparr>tx_state := TX_STATE_SENDING_DATA\<rparr>) t"
    have m20: "min 20 n = 20" using False by simp
    have "usbd_rndis_data_in 2 s1 = do {
       s \<leftarrow> DCD_EP_Tx RNDIS_DATA_IN_EP (tx_ptr (cls s1)) (word_of_int (tx_size (cls s1))) s1;
       Some (upd_cls (\<lambda>c. c\<lparr>tx_state := TX_STATE_SENDING_DATA\<rparr>) s) }"
      by (rule data_in_step(1)) (use False in \<open>simp_all add: s1(3)\<close>)
    also have "\<dots> = Some t'" using t(1) unfolding w [symmetric] by (simp add: s1(3) m20 t'_def)
    finally have st: "usbd_rndis_data_in 2 s1 = Some t'" .
    have t': "usb_ok t'" "transfer t' = Some (drop 20 d)" "take 1 (mem t' R_pad) = [0]" "tx_state (cls t') = TX_STATE_SENDING_DATA"
      "tx_need_padding (cls t') = pad" "\<not> rndis_can_send t'"
      using t p1 by (simp_all add: t'_def s1(3) rndis_can_send_def)
    have "\<exists>s2. completions (Suc (Suc 0)) t' = Some (if tx_need_padding (cls t') then [drop 20 d, [0]] else [drop 20 d], s2)
       \<and> usb_ok s2 \<and> mem s2 = mem t' \<and> cls s2 = (cls t')\<lparr>tx_state := TX_STATE_READY\<rparr>"
      by (rule padding_step [OF t'(1) _ _ t'(2,3)]) (simp_all add: t'(4))
    then obtain s2 where s2: "completions (Suc (Suc 0)) t' = Some (if pad then [drop 20 d, [0]] else [drop 20 d], s2)" "usb_ok s2"
       "cls s2 = (cls t')\<lparr>tx_state := TX_STATE_READY\<rparr>" unfolding t'(5) by blast
    have cs: "completions 3 s1 = Some (hd # (if pad then [drop 20 d, [0]] else [drop 20 d]), s2)"
      unfolding numeral_3_eq_3 by (subst completions.simps(2)) (simp only: s1(5) st t'(6) s2(1) bind.bind_lunit if_False prod.case)
    have c: "concat (hd # (if pad then [drop 20 d, [0]] else [drop 20 d])) = rndis_message d" using parts by (simp split: if_splits)
    have "length hd = 64" using lh m20 by simp
    moreover have "pad \<longleftrightarrow> (44 + n) mod 64 = 0" by (simp add: pad_def RNDIS_HDR_def RNDIS_DATA_IN_SZ_def)
    moreover have "(44 + n) mod 64 = 0 \<longleftrightarrow> (n - 20) mod 64 = 0"
    proof -
      have "44 + n = (n - 20) + 64" using False by simp
      then show ?thesis by (simp only: mod_add_self2)
    qed
    ultimately show ?thesis using s1(1) cs s2(2,3) c ld by (auto simp: rndis_can_send_def RNDIS_DATA_IN_SZ_def)
  qed
qed

section \<open>Frames from the host, as a whole\<close>

text \<open>A packet has arrived: its bytes are in \<open>usb_rx_buffer\<close>, its length in the endpoint.\<close>

definition host_packet :: "bytes \<Rightarrow> 'c usb \<Rightarrow> 'c usb" where
  "host_packet d s = s\<lparr>mem := (mem s)(R_usb_rx := d @ drop (length d) (mem s R_usb_rx)),
     out_ep := (out_ep s)[3 := (out_ep s ! 3)\<lparr>xfer_count := of_nat (length d)\<rparr>]\<rparr>"

fun receive :: "bytes list \<Rightarrow> 'r dev \<Rightarrow> 'r dev option" where
  "receive [] s = Some s"
| "receive (d # ds) s = do { s \<leftarrow> usbd_rndis_data_out 3 (host_packet d s); receive ds s }"

lemma receive_append: "receive (xs @ ys) s = receive xs s \<bind> receive ys"
proof (induction xs arbitrary: s)
  case (Cons d xs)
  then show ?case by (cases "usbd_rndis_data_out 3 (host_packet d s)") simp_all
qed simp

definition carries :: "bytes \<Rightarrow> bytes \<Rightarrow> bool" where
  "carries m d \<longleftrightarrow> (let field = \<lambda>i. of_le32 (take 4 (drop i m)); off = unat (field 8) + 8 in
     RNDIS_HDR \<le> length m \<and> length m \<le> RNDIS_RX_BUFFER_SIZE \<and> field 0 = REMOTE_NDIS_PACKET_MSG \<and> field 4 = of_nat (length m)
     \<and> off + unat (field 12) = length m \<and> d = drop off m)"

definition rx_idle :: "'r dev \<Rightarrow> bool" where
  "rx_idle s \<longleftrightarrow> usb_ok s \<and> length (mem s R_usb_rx) = RNDIS_DATA_OUT_SZ \<and> length (mem s R_rndis_rx) = RNDIS_RX_BUFFER_SIZE"

lemma prepare_rx:
  assumes "usb_ok s"
  shows "\<exists>s'. DCD_EP_PrepareRx RNDIS_DATA_OUT_EP p n s = Some s' \<and> usb_ok s' \<and> cls s' = cls s \<and> mem s' = mem s"
proof -
  have a: "ep_index RNDIS_DATA_OUT_EP = 3" "RNDIS_DATA_OUT_EP AND 0x7F = 3" by (simp_all add: ep_index_def RNDIS_DATA_OUT_EP_def)
  let ?e = "rx_ep RNDIS_DATA_OUT_EP p n (out_ep s ! 3)"
  have r: "ep_ready (out_ep s ! 3)" "3 < length (out_ep s)" "dev_endpoints s = 4" using assms by (auto simp: usb_ok_def)
  obtain s' where s': "DCD_EP_PrepareRx RNDIS_DATA_OUT_EP p n s = Some s'" "io (put_out RNDIS_DATA_OUT_EP ?e s) s'"
    using DCD_EP_PrepareRx_ok [of RNDIS_DATA_OUT_EP s p n] a r by (auto simp: ep_ready_def)
  have "ep_ready ?e" using r(1) by (simp add: ep_ready_def rx_ep_def)
  then have "usb_ok s'" using usb_ok_io [OF s'(2)] usb_ok_put(2) [OF assms] by blast
  then show ?thesis using s' by (simp add: io_sels put_out_def)
qed

lemma host_packet_ok: "rx_idle s \<Longrightarrow> length d \<le> RNDIS_DATA_OUT_SZ \<Longrightarrow> rx_idle (host_packet d s)"
  by (auto simp: rx_idle_def host_packet_def usb_ok_def nth_list_update ep_ready_def)

lemma get32_take:
  assumes "take n (mem s R_rndis_rx) = take n m" "i + 4 \<le> n" "n \<le> length m"
  shows "get32 R_rndis_rx i s = Some (of_le32 (take 4 (drop i m)))"
proof -
  have "length (take n (mem s R_rndis_rx)) = n" using assms by simp
  then have "n \<le> length (mem s R_rndis_rx)" by simp
  moreover have "take 4 (drop i (take n (mem s R_rndis_rx))) = take 4 (drop i (take n m))" using assms(1) by simp
  then have "take 4 (drop i (mem s R_rndis_rx)) = take 4 (drop i m)" using assms(2) by (simp add: drop_take min_absorb1)
  ultimately show ?thesis using assms(2) by (simp add: get32_def load_at_Some)
qed

lemma handle_packet_carries:
  assumes "carries m d" "take (length m) (mem s R_rndis_rx) = m" "rndis_rxproc (cls s) = Some f"
  shows "\<exists>b. handle_packet (int (length m)) s = do {
     r \<leftarrow> f (d @ b) (int (length d)) (client (cls s));
     Some (upd_cls (\<lambda>c. c\<lparr>rxok := rxok c + 1, client := r\<rparr>) s) }"
proof -
  define o1 where "o1 = of_le32 (take 4 (drop 8 m))"
  define l1 where "l1 = of_le32 (take 4 (drop 12 m))"
  from assms(1) have m: "44 \<le> length m" "length m \<le> 1558" "of_le32 (take 4 m) = REMOTE_NDIS_PACKET_MSG"
    "of_le32 (take 4 (drop 4 m)) = of_nat (length m)" "unat o1 + 8 + unat l1 = length m" "d = drop (unat o1 + 8) m"
    by (simp_all add: carries_def Let_def RNDIS_HDR_def RNDIS_RX_BUFFER_SIZE_def ETH_MAX_PACKET_SIZE_def ETH_HEADER_SIZE_def
      RNDIS_MTU_def o1_def l1_def)
  have um: "unat (of_nat (length m) :: u32) = length m" by (rule unat32_of_nat) (use m in simp)
  have g: "get32 R_rndis_rx i s = Some (of_le32 (take 4 (drop i m)))" if "i + 4 \<le> length m" for i
    by (rule get32_take [of "length m"]) (use assms(2) that in simp_all)
  have o8: "unat (o1 + 8) = unat o1 + 8" by (subst unat_add_small) (use m(2,5) in simp_all)
  have "unat (o1 + 8 + l1) = length m" by (subst unat_add_small) (use m(2,5) o8 in simp_all)
  then have sum: "o1 + 8 + l1 = of_nat (length m)" using um by (simp add: word_unat_eq_iff)
  have big: "\<not> (of_nat (length m) :: u32) < of_nat RNDIS_HDR"
    using m(1) um by (simp add: word_less_nat_alt RNDIS_HDR_def)
  have off: "\<not> unat (o1 + 8) > length (mem s R_rndis_rx)"
  proof -
    have "length m \<le> length (mem s R_rndis_rx)" using arg_cong [OF assms(2), of length] by simp
    then show ?thesis using o8 m(5) by simp
  qed
  have "drop (unat (o1 + 8)) (mem s R_rndis_rx) = drop (unat (o1 + 8)) (m @ drop (length m) (mem s R_rndis_rx))"
    using append_take_drop_id [of "length m" "mem s R_rndis_rx"] assms(2) by simp
  then have dr: "drop (unat (o1 + 8)) (mem s R_rndis_rx) = d @ drop (length m) (mem s R_rndis_rx)"
    using o8 m(5,6) by simp
  have "length d = unat l1" using m(5,6) by simp
  moreover have "sint l1 = int (unat l1)" by (rule sint_small) (use m(2,5) in simp)
  ultimately have ll: "sint l1 = int (length d)" by simp
  have "handle_packet (int (length m)) s = (do {
       r \<leftarrow> f (drop (unat (o1 + 8)) (mem s R_rndis_rx)) (sint l1) (client (cls s));
       Some (upd_cls (\<lambda>c. c\<lparr>client := r\<rparr>) (upd_cls (\<lambda>c. c\<lparr>rxok := rxok c + 1\<rparr>) s)) })"
    unfolding handle_packet_def of_int_of_nat_eq using m(1) g [of 0] g [of 4] g [of 8] g [of 12] m(3,4) big off sum assms(3)
    by (simp add: o1_def [symmetric] l1_def [symmetric] Let_def)
  then show ?thesis by (intro exI [of _ "drop (length m) (mem s R_rndis_rx)"]) (simp add: dr ll upd_cls_def)
qed

lemma handle_packet_delivers:
  assumes "carries m d" "take (length m) (mem s R_rndis_rx) = m" "rndis_rxproc (cls s) = Some f"
    "\<And>b. f (d @ b) (int (length d)) (client (cls s)) = Some r"
  shows "handle_packet (int (length m)) s = Some (upd_cls (\<lambda>c. c\<lparr>rxok := rxok c + 1, client := r\<rparr>) s)"
  using handle_packet_carries [OF assms(1-3)] by (auto simp: assms(4))

text \<open>Both lengths of the header pass the check when their sum wraps; the data then lies behind the buffer.\<close>

lemma handle_packet_wraps:
  assumes "length (mem s R_rndis_rx) = RNDIS_RX_BUFFER_SIZE" "rndis_rxproc (cls s) = Some f" "RNDIS_HDR \<le> n" "n \<le> RNDIS_RX_BUFFER_SIZE"
    "take 16 (mem s R_rndis_rx) = le32 REMOTE_NDIS_PACKET_MSG @ le32 (of_nat n) @ le32 off @ le32 (of_nat n - (off + 8))"
    "unat (off + 8) > RNDIS_RX_BUFFER_SIZE"
  shows "handle_packet (int n) s = None"
proof -
  have n: "44 \<le> n" "n \<le> 1558" and l: "length (mem s R_rndis_rx) = 1558"
    using assms(1,3,4) by (simp_all add: RNDIS_HDR_def RNDIS_RX_BUFFER_SIZE_def ETH_MAX_PACKET_SIZE_def ETH_HEADER_SIZE_def RNDIS_MTU_def)
  have un: "unat (of_nat n :: u32) = n" by (rule unat32_of_nat) (use n in simp)
  have g: "get32 R_rndis_rx i s = Some (of_le32 (take 4 (drop i (take 16 (mem s R_rndis_rx)))))" if "i + 4 \<le> 16" for i
    by (rule get32_take [of 16]) (use that l in simp_all)
  have big: "\<not> (of_nat n :: u32) < of_nat RNDIS_HDR" using n(1) un by (simp add: word_less_nat_alt RNDIS_HDR_def)
  have "RNDIS_RX_BUFFER_SIZE = 1558" by (simp add: RNDIS_RX_BUFFER_SIZE_def ETH_MAX_PACKET_SIZE_def ETH_HEADER_SIZE_def RNDIS_MTU_def RNDIS_HDR_def)
  then show ?thesis using assms(2,6) g [of 0] g [of 4] g [of 8] g [of 12] big l
    unfolding handle_packet_def of_int_of_nat_eq assms(5) by (simp add: Let_def)
qed

text \<open>The state while a message \<open>m\<close> is coming in: its first \<open>k\<close> bytes are in the buffer.\<close>

definition partial :: "bytes \<Rightarrow> nat \<Rightarrow> 'r dev \<Rightarrow> bool" where
  "partial m k s \<longleftrightarrow> rx_idle s \<and> rndis_received (cls s) = int k \<and> take k (mem s R_rndis_rx) = take k m
     \<and> (k = 0 \<or> rndis_MessageLength (cls s) = int (length m))"

lemma data_out_packet:
  assumes "carries m d" "partial m k s" "k < length m" "q = take 64 (drop k m)" "k mod 64 = 0"
  shows "\<exists>t. usbd_rndis_data_out 3 (host_packet q s) = do {
       s \<leftarrow> (if k + length q = length m then do { s \<leftarrow> handle_packet (int (length m)) t; Some (upd_cls (\<lambda>c. c\<lparr>rndis_received := 0\<rparr>) s) } else Some t);
       DCD_EP_PrepareRx RNDIS_DATA_OUT_EP (Some (R_usb_rx, 0)) (of_nat RNDIS_DATA_OUT_SZ) s }
     \<and> partial m (k + length q) t \<and> cls t = (cls s)\<lparr>rndis_MessageLength := int (length m), rndis_received := int (k + length q)\<rparr>"
proof -
  from assms(1) have m: "44 \<le> length m" "length m \<le> 1558" "of_le32 (take 4 (drop 4 m)) = of_nat (length m)"
    by (simp_all add: carries_def Let_def RNDIS_HDR_def RNDIS_RX_BUFFER_SIZE_def ETH_MAX_PACKET_SIZE_def ETH_HEADER_SIZE_def
      RNDIS_MTU_def)
  have lq: "length q = min 64 (length m - k)" using assms(4) by simp
  define h where "h = host_packet q s"
  have ok: "rx_idle h" unfolding h_def by (rule host_packet_ok) (use assms(2) lq in \<open>simp_all add: partial_def RNDIS_DATA_OUT_SZ_def\<close>)
  have hs: "cls h = cls s" "mem h R_rndis_rx = mem s R_rndis_rx" by (simp_all add: h_def host_packet_def)
  have lr: "length (mem s R_rndis_rx) = 1558"
    using assms(2) by (simp add: partial_def rx_idle_def RNDIS_RX_BUFFER_SIZE_def ETH_MAX_PACKET_SIZE_def ETH_HEADER_SIZE_def RNDIS_MTU_def RNDIS_HDR_def)
  have un: "unat (of_nat n :: u32) = n" if "n \<le> 1558" for n by (rule unat32_of_nat) (use that in simp)
  have cnt: "get_out RNDIS_DATA_OUT_EP h = Some (out_ep h ! 3)" "xfer_count (out_ep h ! 3) = of_nat (length q)"
    using ok assms(2) by (simp_all add: get_out_def ep_index_def RNDIS_DATA_OUT_EP_def rx_idle_def usb_ok_def h_def host_packet_def partial_def)
  have rec: "rndis_received (cls h) = int k" using assms(2) by (simp add: partial_def hs)
  have s3: "(of_nat k :: u32) + of_nat (length q) = of_nat (k + length q)" by simp
  have le: "k + length q \<le> 1558" using lq m(2) assms(3) by simp
  have fits: "\<not> of_nat RNDIS_RX_BUFFER_SIZE < (of_nat (k + length q) :: u32)"
    using un [OF le] un [of 1558] le
    by (simp add: word_less_nat_alt RNDIS_RX_BUFFER_SIZE_def ETH_MAX_PACKET_SIZE_def ETH_HEADER_SIZE_def RNDIS_MTU_def RNDIS_HDR_def)
  have q0: "load_at (Some (R_usb_rx, 0)) (unat (of_nat (length q) :: u32)) h = Some q"
  proof -
    have "length (mem h R_usb_rx) = 64" using ok by (simp add: rx_idle_def RNDIS_DATA_OUT_SZ_def)
    then have "load_at (Some (R_usb_rx, 0)) (length q) h = Some (take (length q) (mem h R_usb_rx))"
      using lq by (subst load_at_Some) simp_all
    then show ?thesis using le by (simp add: un h_def host_packet_def)
  qed
  define rx where "rx = take k (mem s R_rndis_rx) @ q @ drop (k + length q) (mem s R_rndis_rx)"
  define t1 where "t1 = h\<lparr>mem := (mem h)(R_rndis_rx := rx)\<rparr>"
  have st: "store_at (Some (R_rndis_rx, k)) q h = Some t1"
    using le by (subst store_at_Some) (simp_all add: hs lr t1_def rx_def)
  have "take (k + length q) rx = take k m @ q"
    using assms(2,3) lr lq m(2) by (simp add: rx_def partial_def)
  moreover have qt: "q = take (length q) (drop k m)" by (cases "64 \<le> length m - k") (use assms(4) in simp_all)
  ultimately have tk: "take (k + length q) rx = take (k + length q) m" by (simp only: take_add qt [symmetric])
  define t where "t = upd_cls (\<lambda>c. c\<lparr>rndis_MessageLength := int (length m), rndis_received := int (k + length q)\<rparr>) t1"
  have len: "k = 0 \<Longrightarrow> get32 R_rndis_rx 4 t1 = Some (of_nat (length m))"
    using tk lq m(1,3) get32_take [of "length q" t1 m 4] by (simp add: t1_def)
  have sm: "sint (of_nat (length m) :: u32) = int (length m)" using un [OF m(2)] m(2) by (subst sint_small) simp_all
  have sr: "sint (of_nat (k + length q) :: u32) = int (k + length q)" using un [OF le] le by (subst sint_small) simp_all
  have ml: "(if k = 0 then Some (upd_cls (\<lambda>c. c\<lparr>rndis_MessageLength := int (length m)\<rparr>) t1) else Some t1)
     = Some (upd_cls (\<lambda>c. c\<lparr>rndis_MessageLength := int (length m)\<rparr>) t1)"
    using assms(2) by (auto simp: partial_def upd_cls_def t1_def hs)
  have c64: "((of_nat (length q) :: u32) \<noteq> of_nat RNDIS_DATA_OUT_SZ \<or> int (k + length q) = int (length m)) \<longleftrightarrow> k + length q = length m"
  proof -
    have "(of_nat (length q) :: u32) = of_nat RNDIS_DATA_OUT_SZ \<longleftrightarrow> length q = 64"
      using un [of "length q"] un [of 64] lq by (auto simp: word_unat_eq_iff RNDIS_DATA_OUT_SZ_def)
    then show ?thesis using lq assms(3) by auto
  qed
  have t: "upd_cls (\<lambda>c. c\<lparr>rndis_received := int (k + length q)\<rparr>) (upd_cls (\<lambda>c. c\<lparr>rndis_MessageLength := int (length m)\<rparr>) t1) = t"
    by (simp add: t_def upd_cls_def)
  have ct: "cls t = (cls s)\<lparr>rndis_MessageLength := int (length m), rndis_received := int (k + length q)\<rparr>"
    by (simp add: t_def t1_def hs)
  have fr: "data_out_fragment (of_nat (length q)) h =
     (if k + length q = length m then do { s \<leftarrow> handle_packet (int (length m)) t; Some (upd_cls (\<lambda>c. c\<lparr>rndis_received := 0\<rparr>) s) } else Some t)"
  proof -
    have rm: "rndis_MessageLength (cls t) = int (length m)" by (simp add: ct)
    have ml': "(if int k = 0 then get32 R_rndis_rx 4 t1 \<bind> (\<lambda>l. Some (upd_cls (\<lambda>c. c\<lparr>rndis_MessageLength := sint l\<rparr>) t1)) else Some t1)
       = Some (upd_cls (\<lambda>c. c\<lparr>rndis_MessageLength := int (length m)\<rparr>) t1)"
      using ml len sm by (cases "k = 0") simp_all
    show ?thesis
      unfolding data_out_fragment_def Let_def rec q0 bind.bind_lunit nat_int st of_int_of_nat_eq s3 sr ml' t rm c64
      by (simp add: s3 sr ml' t rm c64 del: of_nat_add) 
  qed
  have pt: "partial m (k + length q) t"
    using ok tk lr le by (auto simp: partial_def rx_idle_def ct t_def t1_def rx_def RNDIS_RX_BUFFER_SIZE_def
      ETH_MAX_PACKET_SIZE_def ETH_HEADER_SIZE_def RNDIS_MTU_def RNDIS_HDR_def)
  have "usbd_rndis_data_out 3 h = do {
       s \<leftarrow> data_out_fragment (of_nat (length q)) h;
       DCD_EP_PrepareRx RNDIS_DATA_OUT_EP (Some (R_usb_rx, 0)) (of_nat RNDIS_DATA_OUT_SZ) s }"
    unfolding usbd_rndis_data_out_def RNDIS_DATA_OUT_EP_def
    using cnt fits rec by (simp add: RNDIS_DATA_OUT_EP_def)
  then show ?thesis unfolding fr using pt ct by (auto simp: h_def)
qed

lemma receive_rest:
  assumes "carries m d" "\<And>b. f (d @ b) (int (length d)) c = Some r"
  shows "partial m k s \<Longrightarrow> k < length m \<Longrightarrow> k mod 64 = 0 \<Longrightarrow> rndis_rxproc (cls s) = Some f \<Longrightarrow> client (cls s) = c \<Longrightarrow>
     \<exists>s'. receive (packets (drop k m)) s = Some s' \<and> rx_idle s'
       \<and> cls s' = (cls s)\<lparr>rndis_MessageLength := int (length m), rndis_received := 0, rxok := rxok (cls s) + 1, client := r\<rparr>"
proof (induction "length m - k" arbitrary: k s rule: less_induct)
  case less
  define q where "q = take 64 (drop k m)"
  obtain t where t: "usbd_rndis_data_out 3 (host_packet q s) = do {
       s \<leftarrow> (if k + length q = length m then do { s \<leftarrow> handle_packet (int (length m)) t; Some (upd_cls (\<lambda>c. c\<lparr>rndis_received := 0\<rparr>) s) } else Some t);
       DCD_EP_PrepareRx RNDIS_DATA_OUT_EP (Some (R_usb_rx, 0)) (of_nat RNDIS_DATA_OUT_SZ) s }"
      "partial m (k + length q) t" "cls t = (cls s)\<lparr>rndis_MessageLength := int (length m), rndis_received := int (k + length q)\<rparr>"
    using data_out_packet [OF assms(1) less.prems(1,2) q_def less.prems(3)] by (elim exE conjE) (rule that)
  have idle: "rx_idle t" using t(2) by (simp add: partial_def)
  then have ok: "usb_ok t" by (simp add: rx_idle_def)
  show ?case
  proof (cases "length m - k \<le> 64")
    case True
    then have q: "q = drop k m" "k + length q = length m" using less.prems(2) by (simp_all add: q_def)
    have "take (length m) (mem t R_rndis_rx) = m" using t(2) q(2) by (simp add: partial_def)
    then have h: "handle_packet (int (length m)) t = Some (upd_cls (\<lambda>c. c\<lparr>rxok := rxok c + 1, client := r\<rparr>) t)"
      by (intro handle_packet_delivers [OF assms(1), where f = f]) (use t(3) less.prems(4,5) assms(2) in simp_all)
    let ?u = "upd_cls (\<lambda>c. c\<lparr>rndis_received := 0\<rparr>) (upd_cls (\<lambda>c. c\<lparr>rxok := rxok c + 1, client := r\<rparr>) t)"
    from prepare_rx [of ?u "Some (R_usb_rx, 0)" "of_nat RNDIS_DATA_OUT_SZ"] ok obtain v where
      v: "DCD_EP_PrepareRx RNDIS_DATA_OUT_EP (Some (R_usb_rx, 0)) (of_nat RNDIS_DATA_OUT_SZ) ?u = Some v" "usb_ok v" "cls v = cls ?u" "mem v = mem ?u" by auto
    have "usbd_rndis_data_out 3 (host_packet q s) = Some v" using t(1) q(2) h v(1) by simp
    moreover have "packets (drop k m) = [q]" using True q(1) by (subst packets.simps) simp
    moreover have "rx_idle v" using v(2,4) idle by (simp add: rx_idle_def)
    ultimately show ?thesis using v(3) t(3) by (intro exI [of _ v]) simp
  next
    case False
    then have q: "length q = 64" "k + length q < length m" by (simp_all add: q_def)
    from prepare_rx [OF ok, of "Some (R_usb_rx, 0)" "of_nat RNDIS_DATA_OUT_SZ"] obtain v where
      v: "DCD_EP_PrepareRx RNDIS_DATA_OUT_EP (Some (R_usb_rx, 0)) (of_nat RNDIS_DATA_OUT_SZ) t = Some v" "usb_ok v" "cls v = cls t" "mem v = mem t" by auto
    have st: "usbd_rndis_data_out 3 (host_packet q s) = Some v" using t(1) q v(1) by simp
    have pv: "partial m (k + 64) v" using t(2) v q(1) by (simp add: partial_def rx_idle_def)
    have "\<exists>s'. receive (packets (drop (k + 64) m)) v = Some s' \<and> rx_idle s'
       \<and> cls s' = (cls v)\<lparr>rndis_MessageLength := int (length m), rndis_received := 0, rxok := rxok (cls v) + 1, client := r\<rparr>"
      by (rule less.hyps [OF _ pv]) (use q False less.prems v(3) t(3) in simp_all)
    moreover have "packets (drop k m) = q # packets (drop (k + 64) m)"
      using False by (subst packets.simps) (simp add: q_def add.commute)
    ultimately show ?thesis using st v(3) t(3) by auto
  qed
qed

lemma receive_one:
  assumes "carries m d" "\<And>b. f (d @ b) (int (length d)) (client (cls s)) = Some r" "rx_idle s" "rndis_received (cls s) = 0"
    "rndis_rxproc (cls s) = Some f"
  shows "\<exists>s'. receive (packets m) s = Some s' \<and> rx_idle s'
       \<and> cls s' = (cls s)\<lparr>rndis_MessageLength := int (length m), rndis_received := 0, rxok := rxok (cls s) + 1, client := r\<rparr>"
proof -
  have "partial m 0 s" using assms(3,4) by (simp add: partial_def)
  moreover have "0 < length m" using assms(1) by (auto simp: carries_def Let_def RNDIS_HDR_def)
  ultimately have "\<exists>s'. receive (packets (drop 0 m)) s = Some s' \<and> rx_idle s'
       \<and> cls s' = (cls s)\<lparr>rndis_MessageLength := int (length m), rndis_received := 0, rxok := rxok (cls s) + 1, client := r\<rparr>"
    by (intro receive_rest [where f = f]) (use assms in simp_all)
  then show ?thesis by simp
qed

lemma receive_many:
  assumes "list_all2 carries ms ds" "\<And>d b c. d \<in> set ds \<Longrightarrow> P c \<Longrightarrow> f (d @ b) (int (length d)) c = Some (g d c) \<and> P (g d c)"
    "P (client (cls s))" "rx_idle s" "rndis_received (cls s) = 0" "rndis_rxproc (cls s) = Some f"
  shows "\<exists>s'. receive (concat (map packets ms)) s = Some s' \<and> rx_idle s' \<and> rndis_received (cls s') = 0
     \<and> client (cls s') = fold g ds (client (cls s)) \<and> rxok (cls s') = rxok (cls s) + of_nat (length ds) \<and> rxbad (cls s') = rxbad (cls s)"
  using assms
proof (induction ms ds arbitrary: s rule: list_all2_induct)
  case (Cons m ms d ds)
  have f: "f (d @ b) (int (length d)) (client (cls s)) = Some (g d (client (cls s)))" "P (g d (client (cls s)))" for b
    using Cons.prems(1) [of d "client (cls s)"] Cons.prems(2) by simp_all
  from receive_one [OF Cons.hyps(1) f(1) Cons.prems(3-5)] obtain t where
    t: "receive (packets m) s = Some t" "rx_idle t"
      "cls t = (cls s)\<lparr>rndis_MessageLength := int (length m), rndis_received := 0, rxok := rxok (cls s) + 1, client := g d (client (cls s))\<rparr>" by blast
  have "\<exists>s'. receive (concat (map packets ms)) t = Some s' \<and> rx_idle s' \<and> rndis_received (cls s') = 0
     \<and> client (cls s') = fold g ds (client (cls t)) \<and> rxok (cls s') = rxok (cls t) + of_nat (length ds) \<and> rxbad (cls s') = rxbad (cls t)"
    by (rule Cons.IH) (use Cons.prems t f(2) in simp_all)
  then show ?case using t by (auto simp: receive_append add.commute add.left_commute)
qed simp

section \<open>Control messages, as a whole\<close>

definition patch :: "nat \<Rightarrow> bytes \<Rightarrow> bytes \<Rightarrow> bytes" where
  "patch off d b = take off b @ d @ drop (off + length d) b"

definition field :: "nat \<Rightarrow> bytes \<Rightarrow> bytes" where
  "field i b = take 4 (drop i b)"

lemma patch_length [simp]: "off + length d \<le> length b \<Longrightarrow> length (patch off d b) = length b"
  by (simp add: patch_def)

lemma field_patch_same: "off + 4 \<le> length b \<Longrightarrow> length d = 4 \<Longrightarrow> field off (patch off d b) = d"
  by (simp add: patch_def field_def)

lemma field_patch_other:
  assumes "off + length d \<le> length b" "i + 4 \<le> off \<or> off + length d \<le> i"
  shows "field i (patch off d b) = field i b"
  using assms(2)
proof
  assume "i + 4 \<le> off"
  then show ?thesis using assms(1) by (simp add: patch_def field_def drop_take)
next
  assume "off + length d \<le> i"
  then have "drop i (patch off d b) = drop i b" using assms(1) by (simp add: patch_def add.commute)
  then show ?thesis by (simp add: field_def)
qed

definition set_enc :: "bytes \<Rightarrow> 'c usb \<Rightarrow> 'c usb" where
  "set_enc b s = s\<lparr>mem := (mem s)(R_encapsulated := b)\<rparr>"

lemma set_enc_sels [simp]: "mem (set_enc b s) R_encapsulated = b" "cls (set_enc b s) = cls s" "in_ep (set_enc b s) = in_ep s"
  "usb_ok (set_enc b s) = usb_ok s" "set_enc b (set_enc c s) = set_enc b s"
  by (simp_all add: set_enc_def usb_ok_def)

lemma store_enc:
  assumes "off + length d \<le> length (mem s R_encapsulated)"
  shows "store_at (Some (R_encapsulated, off)) d s = Some (set_enc (patch off d (mem s R_encapsulated)) s)"
  using assms by (simp add: store_at_Some patch_def set_enc_def)

definition patch_fields :: "(nat \<times> u32) list \<Rightarrow> bytes \<Rightarrow> bytes" where
  "patch_fields fs b = fold (\<lambda>(off, v). patch off (le32 v)) fs b"

lemma patch_fields_length [simp]: "\<forall>(off, v) \<in> set fs. off + 4 \<le> length b \<Longrightarrow> length (patch_fields fs b) = length b"
  by (induction fs arbitrary: b) (auto simp: patch_fields_def)

lemma put_fields_enc:
  assumes "\<forall>(off, v) \<in> set fs. off + 4 \<le> length (mem s R_encapsulated)"
  shows "put_fields fs s = Some (set_enc (patch_fields fs (mem s R_encapsulated)) s)"
  using assms
proof (induction fs arbitrary: s)
  case Nil
  then show ?case by (simp add: patch_fields_def set_enc_def)
next
  case (Cons fv fs)
  obtain off v where fv: "fv = (off, v)" by fastforce
  have "put32 R_encapsulated off v s = Some (set_enc (patch off (le32 v) (mem s R_encapsulated)) s)"
    unfolding put32_def by (rule store_enc) (use Cons.prems fv in auto)
  then show ?case using Cons.IH [of "set_enc (patch off (le32 v) (mem s R_encapsulated)) s"] Cons.prems fv
    by (auto simp: patch_fields_def)
qed

lemma get32_enc: "i + 4 \<le> length (mem s R_encapsulated) \<Longrightarrow> get32 R_encapsulated i s = Some (of_le32 (field i (mem s R_encapsulated)))"
  by (simp add: get32_def load_at_Some field_def)

definition notified :: "'c usb \<Rightarrow> 'c usb \<Rightarrow> bool" where
  "notified s s' \<longleftrightarrow> in_ep s' ! 1 = tx_ep RNDIS_NOTIFICATION_IN_EP (Some (R_notify, 0)) 8 (in_ep s ! 1)"

lemma notify_ok:
  assumes "usb_ok s"
  shows "\<exists>s'. rndis_notify s = Some s' \<and> usb_ok s' \<and> cls s' = cls s \<and> mem s' = mem s \<and> notified s s'"
proof -
  have a: "ep_index RNDIS_NOTIFICATION_IN_EP = 1" "RNDIS_NOTIFICATION_IN_EP AND 0x7F = 1"
    by (simp_all add: ep_index_def RNDIS_NOTIFICATION_IN_EP_def)
  let ?e = "tx_ep RNDIS_NOTIFICATION_IN_EP (Some (R_notify, 0)) 8 (in_ep s ! 1)"
  have r: "ep_ready (in_ep s ! 1)" "1 < length (in_ep s)" "dev_endpoints s = 4" using assms by (auto simp: usb_ok_def)
  obtain s' where s': "rndis_notify s = Some s'" "io (put_in RNDIS_NOTIFICATION_IN_EP ?e s) s'"
    using DCD_EP_Tx_ok [of RNDIS_NOTIFICATION_IN_EP s "Some (R_notify, 0)" 8] a r by (auto simp: ep_ready_def rndis_notify_def)
  have "ep_ready ?e" using r(1) by (simp add: ep_ready_def tx_ep_def)
  then have "usb_ok s'" using usb_ok_io [OF s'(2)] usb_ok_put(1) [OF assms] by blast
  then show ?thesis using s' r(2) by (simp add: io_sels [OF s'(2)] put_in_def notified_def a)
qed

definition ctl_ok :: "'r dev \<Rightarrow> bool" where
  "ctl_ok s \<longleftrightarrow> usb_ok s \<and> length (mem s R_encapsulated) = ENC_BUF_SIZE"

lemma enc_size: "ENC_BUF_SIZE = 120"
  by (simp add: ENC_BUF_SIZE_def OIDSupportedList_def)

text \<open>What a query is answered with: the status and the information.\<close>

definition query_answer :: "'r rndis \<Rightarrow> u32 \<Rightarrow> u32 \<times> bytes" where
  "query_answer c oid =
     (if oid = OID_GEN_SUPPORTED_LIST then (RNDIS_STATUS_SUCCESS, concat (map le32 OIDSupportedList))
      else if oid = OID_802_3_CURRENT_ADDRESS \<or> oid = OID_802_3_PERMANENT_ADDRESS then (RNDIS_STATUS_SUCCESS, station_hwaddr)
      else if oid = OID_GEN_VENDOR_DESCRIPTION then (RNDIS_STATUS_SUCCESS, str_bytes ''fetisov'' @ [0])
      else case map_of (query32 c) oid of Some (status, v) \<Rightarrow> (status, le32 v) | None \<Rightarrow> (RNDIS_STATUS_FAILURE, []))"

definition query_reply :: "u32 \<Rightarrow> bytes \<Rightarrow> bytes \<Rightarrow> bytes" where
  "query_reply status info rid = le32 REMOTE_NDIS_QUERY_CMPLT @ le32 (24 + of_nat (length info)) @ rid @ le32 status
     @ le32 (of_nat (length info)) @ le32 16 @ info"

text \<open>The first \<open>24 + n\<close> bytes of a buffer are its six fields and \<open>n\<close> bytes.\<close>

lemma buffer_fields:
  assumes "24 + n \<le> length b"
  shows "take (24 + n) b = field 0 b @ field 4 b @ field 8 b @ field 12 b @ field 16 b @ field 20 b @ take n (drop 24 b)"
proof -
  have "take (4 + k) x = take 4 x @ take k (drop 4 x)" for k :: nat and x :: bytes by (rule take_add)
  from this [of "20 + n" b] this [of "16 + n" "drop 4 b"] this [of "12 + n" "drop 8 b"] this [of "8 + n" "drop 12 b"]
    this [of "4 + n" "drop 16 b"] this [of n "drop 20 b"] show ?thesis by (simp add: field_def add.commute)
qed

lemma answer_length: "length (snd (query_answer c oid)) \<le> 88"
proof -
  have "length (concat (map le32 OIDSupportedList)) = 88" by (simp add: OIDSupportedList_def)
  then show ?thesis by (simp add: query_answer_def station_hwaddr_def str_bytes_def split: option.split)
qed

lemma query_cmplt_ok:
  assumes "ctl_ok s" "length info \<le> 88"
  shows "\<exists>s'. rndis_query_cmplt status info s = Some s' \<and> ctl_ok s' \<and> cls s' = cls s \<and> notified s s'
     \<and> take (24 + length info) (mem s' R_encapsulated) = query_reply status info (field 8 (mem s R_encapsulated))"
proof -
  define n :: u32 where "n = of_nat (length info)"
  define b0 where "b0 = mem s R_encapsulated"
  define b1 where "b1 = patch_fields [(0, REMOTE_NDIS_QUERY_CMPLT), (4, 24 + n), (16, n), (20, 16), (12, status)] b0"
  define b2 where "b2 = patch 24 info b1"
  have l: "length b0 = 120" "usb_ok s" using assms(1) by (simp_all add: ctl_ok_def enc_size b0_def)
  have l1: "length b1 = 120" by (simp add: b1_def l)
  have l2: "length b2 = 120" using assms(2) by (simp add: b2_def l1)
  have p: "put_fields [(0, REMOTE_NDIS_QUERY_CMPLT), (4, 24 + n), (16, n), (20, 16), (12, status)] s = Some (set_enc b1 s)"
    unfolding b1_def b0_def by (rule put_fields_enc) (use l in \<open>simp add: b0_def\<close>)
  have st: "store_at (Some (R_encapsulated, 24)) info (set_enc b1 s) = Some (set_enc b2 s)"
    using assms(2) by (subst store_enc) (simp_all add: l1 b2_def)
  have "usb_ok (set_enc b2 s)" using l by simp
  from notify_ok [OF this] obtain s' where s': "rndis_notify (set_enc b2 s) = Some s'" "usb_ok s'" "cls s' = cls s"
    "mem s' = mem (set_enc b2 s)" "notified s s'" by (auto simp: notified_def)
  have f: "field 0 b1 = le32 REMOTE_NDIS_QUERY_CMPLT" "field 4 b1 = le32 (24 + n)" "field 8 b1 = field 8 b0"
    "field 12 b1 = le32 status" "field 16 b1 = le32 n" "field 20 b1 = le32 16"
    by (simp_all add: b1_def patch_fields_def field_patch_other field_patch_same l)
  have f2: "field i b2 = field i b1" if "i + 4 \<le> 24" for i
    unfolding b2_def by (rule field_patch_other) (use that assms(2) l1 in simp_all)
  have "take (24 + length info) b2 = query_reply status info (field 8 b0)"
  proof -
    have i: "take (length info) (drop 24 b2) = info" using l1 by (simp add: b2_def patch_def)
    have "24 + length info \<le> length b2" using l2 assms(2) by simp
    from buffer_fields [OF this] show ?thesis unfolding i by (simp add: f2 f query_reply_def n_def)
  qed
  then show ?thesis using p st s' l2 by (intro exI [of _ s']) (simp add: rndis_query_cmplt_def Let_def n_def [symmetric] ctl_ok_def enc_size b0_def del: put_fields.simps)
qed

lemma put_fields_append: "put_fields (xs @ ys) s = put_fields xs s \<bind> put_fields ys"
proof (induction xs arbitrary: s)
  case (Cons x xs)
  obtain off v where "x = (off, v)" by fastforce
  then show ?case using Cons.IH by (cases "put32 R_encapsulated off v s") simp_all
qed simp

lemma query_cmplt32: "rndis_query_cmplt32 status v s = rndis_query_cmplt status (le32 v) s"
proof -
  have a: "[(0, REMOTE_NDIS_QUERY_CMPLT), (4, 24 + 4), (16, 4), (20, 16), (12, status), (24, v)]
     = [(0, REMOTE_NDIS_QUERY_CMPLT), (4, 24 + 4), (16, 4), (20, 16), (12, status)] @ [(24 :: nat, v)]" by simp
  have b: "put_fields [(24, v)] t = store_at (Some (R_encapsulated, 24)) (le32 v) t" for t :: "'b dev"
    by (cases "store_at (Some (R_encapsulated, 24)) (le32 v) t") (simp_all add: put32_def)
  show ?thesis unfolding rndis_query_cmplt32_def rndis_query_cmplt_def a put_fields_append b Let_def
    by (simp del: put_fields.simps)
qed

lemma rndis_query_ok:
  assumes "ctl_ok s"
  shows "\<exists>s'. rndis_query s = Some s' \<and> ctl_ok s' \<and> cls s' = cls s \<and> notified s s'
     \<and> (case query_answer (cls s) (of_le32 (field 12 (mem s R_encapsulated))) of (status, info) \<Rightarrow>
         take (24 + length info) (mem s' R_encapsulated) = query_reply status info (field 8 (mem s R_encapsulated)))"
proof -
  define oid where "oid = of_le32 (field 12 (mem s R_encapsulated))"
  have "rndis_query s = (case query_answer (cls s) oid of (status, info) \<Rightarrow> rndis_query_cmplt status info s)"
    using assms by (simp add: rndis_query_def query_answer_def get32_enc ctl_ok_def enc_size oid_def [symmetric] query_cmplt32
      rndis_vendor_def split: option.split)
  then show ?thesis using query_cmplt_ok [OF assms answer_length [of "cls s" oid]]
    by (cases "query_answer (cls s) oid") (auto simp: oid_def)
qed

definition next_cls :: "bytes \<Rightarrow> 'r rndis \<Rightarrow> 'r rndis" where
  "next_cls m c = (let t = of_le32 (field 0 m); v = of_le32 (field (8 + unat (of_le32 (field 20 m))) m) in
     if t = REMOTE_NDIS_INITIALIZE_MSG then c\<lparr>rndis_state := rndis_initialized\<rparr>
     else if t = REMOTE_NDIS_RESET_MSG then c\<lparr>rndis_state := rndis_uninitialized\<rparr>
     else if t = REMOTE_NDIS_SET_MSG \<and> of_le32 (field 12 m) = OID_GEN_CURRENT_PACKET_FILTER
     then c\<lparr>oid_packet_filter := v, rndis_state := (if v \<noteq> 0 then rndis_data_initialized else rndis_initialized)\<rparr>
     else c)"

definition replied :: "bytes \<Rightarrow> bytes \<Rightarrow> bool" where
  "replied m b \<longleftrightarrow> field 0 b = le32 (of_le32 (field 0 m) OR 0x80000000)
     \<and> 16 \<le> unat (of_le32 (field 4 b)) \<and> unat (of_le32 (field 4 b)) \<le> ENC_BUF_SIZE
     \<and> (of_le32 (field 0 m) = REMOTE_NDIS_RESET_MSG \<or> field 8 b = field 8 m)"

text \<open>A completion made of fields only, after a change of the class state.\<close>

lemma fields_reply:
  assumes "ctl_ok s" "\<forall>(off, v) \<in> set fs. off + 4 \<le> 120"
  shows "\<exists>s'. do { t \<leftarrow> put_fields fs s; rndis_notify (upd_cls f t) } = Some s' \<and> ctl_ok s' \<and> cls s' = f (cls s) \<and> notified s s'
     \<and> mem s' R_encapsulated = patch_fields fs (mem s R_encapsulated)"
proof -
  have l: "length (mem s R_encapsulated) = 120" "usb_ok s" using assms(1) by (simp_all add: ctl_ok_def enc_size)
  define b where "b = patch_fields fs (mem s R_encapsulated)"
  have p: "put_fields fs s = Some (set_enc b s)" unfolding b_def by (rule put_fields_enc) (use assms(2) l in simp)
  have "usb_ok (upd_cls f (set_enc b s))" using l by simp
  from notify_ok [OF this] obtain s' where "rndis_notify (upd_cls f (set_enc b s)) = Some s'" "usb_ok s'" "cls s' = f (cls s)"
    "mem s' R_encapsulated = b" "notified s s'" by (auto simp: notified_def)
  moreover have "length b = 120" unfolding b_def using l assms(2) by (subst patch_fields_length) simp_all
  ultimately show ?thesis using p by (intro exI [of _ s']) (simp add: ctl_ok_def enc_size b_def)
qed

lemmas message_types = REMOTE_NDIS_INITIALIZE_MSG_def REMOTE_NDIS_QUERY_MSG_def REMOTE_NDIS_SET_MSG_def REMOTE_NDIS_RESET_MSG_def
  REMOTE_NDIS_KEEPALIVE_MSG_def REMOTE_NDIS_INITIALIZE_CMPLT_def REMOTE_NDIS_QUERY_CMPLT_def REMOTE_NDIS_SET_CMPLT_def
  REMOTE_NDIS_RESET_CMPLT_def REMOTE_NDIS_KEEPALIVE_CMPLT_def

lemma upd_cls_id [simp]: "upd_cls (\<lambda>c. c) s = s"
  by (simp add: upd_cls_def)

lemma initialize_reply:
  assumes "ctl_ok s" "of_le32 (field 0 (mem s R_encapsulated)) = REMOTE_NDIS_INITIALIZE_MSG"
  shows "\<exists>s'. usbd_rndis_ep0_recv s = Some s' \<and> ctl_ok s' \<and> notified s s' \<and> cls s' = next_cls (mem s R_encapsulated) (cls s)
     \<and> replied (mem s R_encapsulated) (mem s' R_encapsulated)"
proof -
  define fs :: "(nat \<times> u32) list" where "fs = [(0, REMOTE_NDIS_INITIALIZE_CMPLT), (4, 52), (16, 1), (20, 0), (12, RNDIS_STATUS_SUCCESS), (24, 1),
     (28, 0), (32, 1), (36, of_nat RNDIS_RX_BUFFER_SIZE), (40, 0), (44, 0), (48, 0)]"
  have l: "length (mem s R_encapsulated) = 120" using assms(1) by (simp add: ctl_ok_def enc_size)
  from fields_reply [OF assms(1), of fs "\<lambda>c. c\<lparr>rndis_state := rndis_initialized\<rparr>"] obtain s' where
    s': "do { t \<leftarrow> put_fields fs s; rndis_notify (upd_cls (\<lambda>c. c\<lparr>rndis_state := rndis_initialized\<rparr>) t) } = Some s'" "ctl_ok s'" "notified s s'"
      "cls s' = (cls s)\<lparr>rndis_state := rndis_initialized\<rparr>" "mem s' R_encapsulated = patch_fields fs (mem s R_encapsulated)"
    by (auto simp: fs_def)
  have "usbd_rndis_ep0_recv s = Some s'"
    using s'(1) l assms(2) by (simp add: usbd_rndis_ep0_recv_def get32_enc fs_def del: put_fields.simps)
  moreover have "replied (mem s R_encapsulated) (mem s' R_encapsulated)"
    unfolding replied_def s'(5) by (simp add: patch_fields_def field_patch_other field_patch_same l assms(2) fs_def enc_size)
      (simp add: message_types)
  ultimately show ?thesis using s' assms(2) by (intro exI [of _ s']) (simp add: next_cls_def Let_def)
qed

lemma reset_reply:
  assumes "ctl_ok s" "of_le32 (field 0 (mem s R_encapsulated)) = REMOTE_NDIS_RESET_MSG"
  shows "\<exists>s'. usbd_rndis_ep0_recv s = Some s' \<and> ctl_ok s' \<and> notified s s' \<and> cls s' = next_cls (mem s R_encapsulated) (cls s)
     \<and> replied (mem s R_encapsulated) (mem s' R_encapsulated)"
proof -
  define fs :: "(nat \<times> u32) list" where "fs = [(0, REMOTE_NDIS_RESET_CMPLT), (4, 16), (8, RNDIS_STATUS_SUCCESS), (12, 1)]"
  define t where "t = upd_cls (\<lambda>c. c\<lparr>rndis_state := rndis_uninitialized\<rparr>) s"
  have l: "length (mem s R_encapsulated) = 120" using assms(1) by (simp add: ctl_ok_def enc_size)
  have t: "ctl_ok t" "mem t = mem s" "in_ep t = in_ep s" using assms(1) by (simp_all add: t_def ctl_ok_def)
  from fields_reply [OF t(1), of fs "\<lambda>c. c"] obtain s' where
    s': "put_fields fs t \<bind> rndis_notify = Some s'" "ctl_ok s'" "notified s s'"
      "cls s' = (cls s)\<lparr>rndis_state := rndis_uninitialized\<rparr>" "mem s' R_encapsulated = patch_fields fs (mem s R_encapsulated)"
    using t(2,3) by (auto simp: fs_def t_def notified_def)
  have "usbd_rndis_ep0_recv s = Some s'"
    using s'(1) l assms(2) by (simp add: usbd_rndis_ep0_recv_def get32_enc fs_def t_def message_types del: put_fields.simps)
  moreover have "replied (mem s R_encapsulated) (mem s' R_encapsulated)"
    unfolding replied_def s'(5) by (simp add: patch_fields_def field_patch_other field_patch_same l assms(2) fs_def enc_size)
      (simp add: message_types)
  ultimately show ?thesis using s' assms(2) by (intro exI [of _ s']) (simp add: next_cls_def Let_def message_types)
qed

lemma keepalive_reply:
  assumes "ctl_ok s" "of_le32 (field 0 (mem s R_encapsulated)) = REMOTE_NDIS_KEEPALIVE_MSG"
  shows "\<exists>s'. usbd_rndis_ep0_recv s = Some s' \<and> ctl_ok s' \<and> notified s s' \<and> cls s' = next_cls (mem s R_encapsulated) (cls s)
     \<and> replied (mem s R_encapsulated) (mem s' R_encapsulated)"
proof -
  define fs :: "(nat \<times> u32) list" where "fs = [(0, REMOTE_NDIS_KEEPALIVE_CMPLT), (4, 16), (12, RNDIS_STATUS_SUCCESS)]"
  have l: "length (mem s R_encapsulated) = 120" using assms(1) by (simp add: ctl_ok_def enc_size)
  from fields_reply [OF assms(1), of fs "\<lambda>c. c"] obtain s' where
    s': "put_fields fs s \<bind> rndis_notify = Some s'" "ctl_ok s'" "notified s s'" "cls s' = cls s"
      "mem s' R_encapsulated = patch_fields fs (mem s R_encapsulated)" by (auto simp: fs_def)
  have "usbd_rndis_ep0_recv s = Some s'"
    using s'(1) l assms(2) by (simp add: usbd_rndis_ep0_recv_def get32_enc fs_def message_types del: put_fields.simps)
  moreover have "replied (mem s R_encapsulated) (mem s' R_encapsulated)"
    unfolding replied_def s'(5) by (simp add: patch_fields_def field_patch_other field_patch_same l assms(2) fs_def enc_size)
      (simp add: message_types)
  ultimately show ?thesis using s' assms(2) by (intro exI [of _ s']) (simp add: next_cls_def Let_def message_types)
qed

lemma field_of_reply:
  assumes "take (24 + n) b = query_reply status info rid" "length rid = 4"
  shows "field 0 b = le32 REMOTE_NDIS_QUERY_CMPLT" "field 4 b = le32 (24 + of_nat (length info))" "field 8 b = rid"
proof -
  have r: "field i b = field i (query_reply status info rid)" if "i + 4 \<le> 24" for i
    using that by (simp add: field_def drop_take min_absorb1 flip: assms(1))
  show "field 0 b = le32 REMOTE_NDIS_QUERY_CMPLT" "field 4 b = le32 (24 + of_nat (length info))" "field 8 b = rid"
    using assms(2) by (simp_all add: r) (simp_all add: query_reply_def field_def)
qed

lemma query_message_reply:
  assumes "ctl_ok s" "of_le32 (field 0 (mem s R_encapsulated)) = REMOTE_NDIS_QUERY_MSG"
  shows "\<exists>s'. usbd_rndis_ep0_recv s = Some s' \<and> ctl_ok s' \<and> notified s s' \<and> cls s' = next_cls (mem s R_encapsulated) (cls s)
     \<and> replied (mem s R_encapsulated) (mem s' R_encapsulated)"
proof -
  have l: "length (mem s R_encapsulated) = 120" using assms(1) by (simp add: ctl_ok_def enc_size)
  obtain status info where a: "query_answer (cls s) (of_le32 (field 12 (mem s R_encapsulated))) = (status, info)" by fastforce
  have i: "length info \<le> 88" using answer_length [of "cls s" "of_le32 (field 12 (mem s R_encapsulated))"] by (simp add: a)
  from rndis_query_ok [OF assms(1)] obtain s' where s': "rndis_query s = Some s'" "ctl_ok s'" "cls s' = cls s" "notified s s'"
    "take (24 + length info) (mem s' R_encapsulated) = query_reply status info (field 8 (mem s R_encapsulated))" unfolding a by auto
  have "length (field 8 (mem s R_encapsulated)) = 4" by (simp add: field_def l)
  note f = field_of_reply [OF s'(5) this]
  have "unat (24 + of_nat (length info) :: u32) = 24 + length info"
    using unat32_of_nat [of "24 + length info"] i by simp
  then have "replied (mem s R_encapsulated) (mem s' R_encapsulated)"
    using i by (simp add: replied_def f assms(2) enc_size) (simp add: message_types)
  moreover have "usbd_rndis_ep0_recv s = Some s'"
    using s'(1) l assms(2) by (simp add: usbd_rndis_ep0_recv_def get32_enc message_types)
  ultimately show ?thesis using s' assms(2) by (intro exI [of _ s']) (simp add: next_cls_def Let_def message_types)
qed

lemma set_message_reply:
  assumes "ctl_ok s" "of_le32 (field 0 (mem s R_encapsulated)) = REMOTE_NDIS_SET_MSG"
    "8 \<le> unat (of_le32 (field 20 (mem s R_encapsulated)))" "unat (of_le32 (field 20 (mem s R_encapsulated))) \<le> 92"
  shows "\<exists>s'. usbd_rndis_ep0_recv s = Some s' \<and> ctl_ok s' \<and> notified s s' \<and> cls s' = next_cls (mem s R_encapsulated) (cls s)
     \<and> replied (mem s R_encapsulated) (mem s' R_encapsulated)"
proof -
  define b0 where "b0 = mem s R_encapsulated"
  define oid where "oid = of_le32 (field 12 b0)"
  define off where "off = of_le32 (field 20 b0)"
  define b1 where "b1 = patch_fields [(0, REMOTE_NDIS_SET_CMPLT), (4, 16), (12, RNDIS_STATUS_SUCCESS)] b0"
  define v where "v = of_le32 (field (8 + unat off) b0)"
  have l: "length b0 = 120" "usb_ok s" using assms(1) by (simp_all add: ctl_ok_def enc_size b0_def)
  have l1: "length b1 = 120" by (simp add: b1_def l)
  have p: "put_fields [(0, REMOTE_NDIS_SET_CMPLT), (4, 16), (12, RNDIS_STATUS_SUCCESS)] s = Some (set_enc b1 s)"
    unfolding b1_def b0_def by (rule put_fields_enc) (use l in \<open>simp add: b0_def\<close>)
  have keep: "field i b1 = field i b0" if "i = 8 \<or> 16 \<le> i" for i
    using that by (auto simp: b1_def patch_fields_def field_patch_other l)
  have f: "field 0 b1 = le32 REMOTE_NDIS_SET_CMPLT" "field 4 b1 = le32 16"
    by (simp_all add: b1_def patch_fields_def field_patch_other field_patch_same l)
  have off: "8 \<le> unat off" "unat off \<le> 92" using assms(3,4) by (simp_all add: off_def b0_def)
  have g: "get32 R_encapsulated i (set_enc b1 s) = Some (of_le32 (field i b1))" if "i + 4 \<le> 120" for i
    using get32_enc [of i "set_enc b1 s"] that by (simp add: l1)
  define b2 where "b2 = (if oid = OID_GEN_RNDIS_CONFIG_PARAMETER \<or> oid = OID_GEN_CURRENT_PACKET_FILTER \<or> oid = OID_GEN_CURRENT_LOOKAHEAD
     \<or> oid = OID_GEN_PROTOCOL_OPTIONS \<or> oid = OID_802_3_MULTICAST_LIST then b1 else patch 12 (le32 RNDIS_STATUS_FAILURE) b1)"
  have l2: "length b2 = 120" by (simp add: b2_def l1)
  have f2: "field 0 b2 = le32 REMOTE_NDIS_SET_CMPLT" "field 4 b2 = le32 16" "field 8 b2 = field 8 b0"
    by (simp_all add: b2_def f keep field_patch_other l1)
  define c where "c = next_cls b0 (cls s)"
  have c: "c = (if oid = OID_GEN_CURRENT_PACKET_FILTER
     then (cls s)\<lparr>oid_packet_filter := v, rndis_state := (if v \<noteq> 0 then rndis_data_initialized else rndis_initialized)\<rparr> else cls s)"
    using assms(2) by (simp add: c_def next_cls_def Let_def b0_def [symmetric] oid_def v_def off_def message_types)
  define u where "u = (set_enc b2 s)\<lparr>cls := c\<rparr>"
  have "usb_ok u" using l(2) by (simp add: u_def usb_ok_def set_enc_def)
  from notify_ok [OF this] obtain s' where s': "rndis_notify u = Some s'" "usb_ok s'" "cls s' = c" "mem s' R_encapsulated = b2" "notified s s'"
    by (auto simp: notified_def u_def)
  have o0: "get32 R_encapsulated 12 s = Some oid" using get32_enc [of 12 s] l by (simp add: b0_def oid_def)
  have o20: "get32 R_encapsulated 20 (set_enc b1 s) = Some off" using g [of 20] keep [of 20] by (simp add: off_def)
  have ov: "get32 R_encapsulated (8 + unat off) (set_enc b1 s) = Some v"
    using g [of "8 + unat off"] keep [of "8 + unat off"] off by (simp add: v_def)
  have st: "store_at (Some (R_encapsulated, 12)) (le32 RNDIS_STATUS_FAILURE) (set_enc b1 s) = Some (set_enc (patch 12 (le32 RNDIS_STATUS_FAILURE) b1) s)"
    by (subst store_enc) (simp_all add: l1)
  have "rndis_handle_set_msg s = rndis_notify u"
    unfolding rndis_handle_set_msg_def o0 p bind.bind_lunit u_def c b2_def
    using o20 ov g off st by (simp add: put32_def rndis_handle_config_parm_def rndis_packetFilter_def upd_cls_def set_enc_def Let_def
      OID_GEN_RNDIS_CONFIG_PARAMETER_def OID_GEN_CURRENT_PACKET_FILTER_def del: put_fields.simps)
  then have "usbd_rndis_ep0_recv s = Some s'"
    using s'(1) l assms(2) get32_enc [of 0 s] by (simp add: usbd_rndis_ep0_recv_def message_types b0_def)
  moreover have "replied b0 (mem s' R_encapsulated)"
    using assms(2) by (simp add: replied_def f2 s'(4) enc_size b0_def [symmetric]) (simp add: message_types)
  ultimately show ?thesis using s' l2 by (intro exI [of _ s']) (simp add: b0_def [symmetric] c_def ctl_ok_def enc_size)
qed

section \<open>Properties\<close>

definition idle_rndis :: "'r \<Rightarrow> 'r rndis" where
  "idle_rndis r = \<lparr>txok = 0, rxok = 0, txbad = 0, rxbad = 0, oid_packet_filter = 0, tx_ptr = None, tx_size = 0, tx_state = TX_STATE_READY,
     tx_need_padding = False, rndis_rxproc = None, rndis_state = rndis_uninitialized, rndis_received = 0, rndis_MessageLength = 0, client = r\<rparr>"

abbreviation idle_dev :: "'r \<Rightarrow> 'r dev" where
  "idle_dev r \<equiv> idle_usb (idle_rndis r)"

text \<open>
  C37: A frame reaches the host unchanged. Handing up to 1514 bytes to the idle driver starts
  transfers whose bytes, put together, are exactly one RNDIS message: the header with the right
  lengths and the frame, and one byte more when the message would end on a full packet. All
  transfers but the last are made of full packets, so the host sees one message; then the driver
  is ready again.
\<close>

theorem rndis_frame_sent:
  assumes "usb_ok s" "rndis_can_send s" "r \<noteq> R_first" "r \<noteq> R_device_config" "load_at (Some (r, off)) n s = Some d"
    "0 < n" "n \<le> ETH_MAX_PACKET_SIZE" "length (mem s R_first) = RNDIS_DATA_IN_SZ" "take 1 (mem s R_pad) = [0]"
  shows "\<exists>s1 ds s2. rndis_send (Some (r, off)) (int n) s = Some (True, s1) \<and> completions 3 s1 = Some (ds, s2)
     \<and> concat ds = rndis_message d \<and> rndis_can_send s2 \<and> usb_ok s2
     \<and> (\<forall>x \<in> set (butlast ds). length x mod RNDIS_DATA_IN_SZ = 0) \<and> length (last ds) mod RNDIS_DATA_IN_SZ \<noteq> 0"
  by (rule rndis_send_message [OF assms(1,2) refl assms(3-9)])

theorem rndis_frame_sent_witness:
  "\<exists>s1 ds s2. rndis_send (Some (R_frame, 0)) 20 (idle_dev ()) = Some (True, s1) \<and> completions 3 s1 = Some (ds, s2)
     \<and> concat ds = rndis_header 65 20 @ replicate 20 0 @ [0]"
proof -
  let ?s = "idle_dev ()"
  have "usb_ok ?s" "rndis_can_send ?s" "R_frame \<noteq> R_first" "R_frame \<noteq> R_device_config" "load_at (Some (R_frame, 0)) 20 ?s = Some (replicate 20 0)"
    "0 < (20 :: nat)" "20 \<le> ETH_MAX_PACKET_SIZE" "length (mem ?s R_first) = RNDIS_DATA_IN_SZ" "take 1 (mem ?s R_pad) = [0]"
    by (simp_all add: rndis_can_send_def idle_rndis_def load_at_Some region_size_def ETH_MAX_PACKET_SIZE_def ETH_HEADER_SIZE_def RNDIS_MTU_def
      RNDIS_DATA_IN_SZ_def)
  from rndis_frame_sent [OF this] show ?thesis by (auto simp: rndis_message_def Let_def RNDIS_HDR_def RNDIS_DATA_IN_SZ_def)
qed

text \<open>A host that sends control messages one after the other; each lies in the 120 bytes of the buffer.\<close>

fun control_session :: "bytes list \<Rightarrow> 'r dev \<Rightarrow> (bytes list \<times> 'r dev) option" where
  "control_session [] s = Some ([], s)"
| "control_session (m # ms) s = do {
     s \<leftarrow> usbd_rndis_ep0_recv (set_enc m s);
     (bs, t) \<leftarrow> control_session ms s;
     Some (mem s R_encapsulated # bs, t) }"

definition control_message :: "bytes \<Rightarrow> bool" where
  "control_message m \<longleftrightarrow> length m = ENC_BUF_SIZE \<and> (let t = of_le32 (field 0 m); off = unat (of_le32 (field 20 m)) in
     t \<in> {REMOTE_NDIS_INITIALIZE_MSG, REMOTE_NDIS_QUERY_MSG, REMOTE_NDIS_RESET_MSG, REMOTE_NDIS_KEEPALIVE_MSG}
     \<or> t = REMOTE_NDIS_SET_MSG \<and> 8 \<le> off \<and> off \<le> 92)"

lemma control_message_step:
  assumes "usb_ok s" "control_message m"
  shows "\<exists>t. usbd_rndis_ep0_recv (set_enc m s) = Some t \<and> usb_ok t \<and> cls t = next_cls m (cls s) \<and> replied m (mem t R_encapsulated)
     \<and> notified s t"
proof -
  have s: "ctl_ok (set_enc m s)" using assms by (simp add: ctl_ok_def control_message_def)
  show ?thesis using assms(2) initialize_reply [OF s] query_message_reply [OF s] reset_reply [OF s] keepalive_reply [OF s] set_message_reply [OF s]
    by (fastforce simp: control_message_def Let_def ctl_ok_def notified_def)
qed


definition initialize_msg :: bytes where
  "initialize_msg = le32 REMOTE_NDIS_INITIALIZE_MSG @ replicate 116 0"

definition filter_msg :: bytes where
  "filter_msg = le32 REMOTE_NDIS_SET_MSG @ le32 32 @ le32 7 @ le32 OID_GEN_CURRENT_PACKET_FILTER @ le32 4 @ le32 20 @ le32 0 @ le32 9 @ replicate 88 0"


text \<open>
  A query is answered as the table of identifiers says, for every identifier: the completion
  carries the request id, the status and the information with its length and offset, and fits
  the buffer; an unknown identifier gets the failure status and no information.
\<close>

theorem rndis_query_answered:
  assumes "usb_ok s" "length (mem s R_encapsulated) = ENC_BUF_SIZE"
  shows "\<exists>s'. rndis_query s = Some s' \<and> usb_ok s' \<and> cls s' = cls s
     \<and> (case query_answer (cls s) (of_le32 (field 12 (mem s R_encapsulated))) of (status, info) \<Rightarrow> 24 + length info \<le> ENC_BUF_SIZE
         \<and> take (24 + length info) (mem s' R_encapsulated) = query_reply status info (field 8 (mem s R_encapsulated)))"
proof -
  have "ctl_ok s" using assms by (simp add: ctl_ok_def)
  from rndis_query_ok [OF this] show ?thesis using answer_length [of "cls s" "of_le32 (field 12 (mem s R_encapsulated))"]
    by (auto simp: ctl_ok_def enc_size split: prod.splits)
qed

theorem rndis_query_answered_witness:
  "\<exists>s'. rndis_query (set_enc (replicate 12 7 @ le32 OID_802_3_CURRENT_ADDRESS @ replicate 104 0) (idle_dev ())) = Some s'
     \<and> take 30 (mem s' R_encapsulated) = query_reply RNDIS_STATUS_SUCCESS station_hwaddr (replicate 4 7)"
proof -
  let ?b = "replicate 12 7 @ le32 OID_802_3_CURRENT_ADDRESS @ replicate 104 0"
  have "usb_ok (set_enc ?b (idle_dev ()))" "length (mem (set_enc ?b (idle_dev ())) R_encapsulated) = ENC_BUF_SIZE" by (simp_all add: enc_size)
  from rndis_query_answered [OF this] obtain s' where s': "rndis_query (set_enc ?b (idle_dev ())) = Some s'"
    "case query_answer (idle_rndis ()) (of_le32 (field 12 ?b)) of (status, info) \<Rightarrow>
       take (24 + length info) (mem s' R_encapsulated) = query_reply status info (field 8 ?b)" by (auto simp: case_prod_beta)
  have f: "field 12 ?b = le32 OID_802_3_CURRENT_ADDRESS" "field 8 ?b = replicate 4 7" by (simp_all add: field_def)
  have "OID_802_3_CURRENT_ADDRESS \<noteq> OID_GEN_SUPPORTED_LIST" by (simp add: OID_802_3_CURRENT_ADDRESS_def OID_GEN_SUPPORTED_LIST_def)
  then have "query_answer (idle_rndis ()) OID_802_3_CURRENT_ADDRESS = (RNDIS_STATUS_SUCCESS, station_hwaddr)" by (simp add: query_answer_def)
  moreover have "length station_hwaddr = 6" by (simp add: station_hwaddr_def)
  ultimately show ?thesis using s' unfolding f by (intro exI [of _ s']) simp
qed

text \<open>
  A hostile host gets past the length check of \<open>handle_packet\<close>: the sum of offset and length
  is taken modulo \<open>2 ^ 32\<close>, so a large offset passes and the receive callback is given a pointer
  behind the receive buffer.
\<close>

theorem rndis_length_check_wraps:
  assumes "length (mem s R_rndis_rx) = RNDIS_RX_BUFFER_SIZE" "rndis_rxproc (cls s) = Some f" "RNDIS_HDR \<le> n" "n \<le> RNDIS_RX_BUFFER_SIZE"
    "take 16 (mem s R_rndis_rx) = le32 REMOTE_NDIS_PACKET_MSG @ le32 (of_nat n) @ le32 off @ le32 (of_nat n - (off + 8))"
    "unat (off + 8) > RNDIS_RX_BUFFER_SIZE"
  shows "handle_packet (int n) s = None"
  by (rule handle_packet_wraps [OF assms])

definition hooked_dev :: "(bytes \<Rightarrow> int \<Rightarrow> 'r \<Rightarrow> 'r option) \<Rightarrow> bytes \<Rightarrow> 'r \<Rightarrow> 'r dev" where
  "hooked_dev f rx r = upd_cls (\<lambda>c. c\<lparr>rndis_rxproc := Some f\<rparr>) (idle_dev r)\<lparr>mem := (mem (idle_dev r))(R_rndis_rx := rx)\<rparr>"

theorem rndis_length_check_wraps_witness:
  "handle_packet 64 (hooked_dev (\<lambda>d n. Some) (le32 1 @ le32 64 @ le32 0x10000 @ le32 (64 - 0x10008) @ replicate 1542 0) ()) = None"
proof -
  let ?s = "hooked_dev (\<lambda>d n. Some) (le32 1 @ le32 64 @ le32 0x10000 @ le32 (64 - 0x10008) @ replicate 1542 0) ()"
  have "length (mem ?s R_rndis_rx) = RNDIS_RX_BUFFER_SIZE" "rndis_rxproc (cls ?s) = Some (\<lambda>d n. Some)" "RNDIS_HDR \<le> 64"
    "64 \<le> RNDIS_RX_BUFFER_SIZE" "take 16 (mem ?s R_rndis_rx) = le32 REMOTE_NDIS_PACKET_MSG @ le32 (of_nat 64) @ le32 0x10000 @ le32 (of_nat 64 - (0x10000 + 8))"
    "unat (0x10000 + 8 :: u32) > RNDIS_RX_BUFFER_SIZE"
    by (simp_all add: hooked_dev_def RNDIS_RX_BUFFER_SIZE_def ETH_MAX_PACKET_SIZE_def ETH_HEADER_SIZE_def RNDIS_MTU_def RNDIS_HDR_def
      REMOTE_NDIS_PACKET_MSG_def)
  from rndis_length_check_wraps [OF this] show ?thesis by simp
qed

end
