(* ===== verification/Rndis_Dev.thy ===== *)
theory Rndis_Dev
  imports Usb_Inv Rndis_Spec
begin

text \<open>The RNDIS class provides what the device stack asks of a class: \<open>usb_class\<close> is interpreted on
  \<open>usbd_rndis_cb\<close>, and the invariant of the device holds in every state the firmware reaches.\<close>

unbundle bit_operations_syntax

section \<open>The class in the device\<close>

definition rndis_inv :: "'r rndis \<Rightarrow> bool" where
  "rndis_inv c \<longleftrightarrow> tx_state c \<noteq> TX_STATE_NEED_SENDING \<and> 0 \<le> tx_size c \<and> tx_size c \<le> int ETH_MAX_PACKET_SIZE
     \<and> 0 \<le> rndis_received c \<and> rndis_received c \<le> int RNDIS_RX_BUFFER_SIZE"

lemma dev_inv_cls: "dev_inv J s \<Longrightarrow> K (f (cls s)) \<Longrightarrow> dev_inv K (upd_cls f s)"
  by (simp add: dev_inv_def) (simp add: upd_cls_def)

lemma rndis_eps [simp]: "RNDIS_NOTIFICATION_IN_EP AND 0x7F < (4 :: u8)" "RNDIS_DATA_IN_EP AND 0x7F < (4 :: u8)"
  "RNDIS_DATA_OUT_EP AND 0x7F < (4 :: u8)"
  by (simp_all add: RNDIS_NOTIFICATION_IN_EP_def RNDIS_DATA_IN_EP_def RNDIS_DATA_OUT_EP_def)

lemma init_total: "dev_inv J s \<Longrightarrow> always J (usbd_rndis_init n s)"
  unfolding usbd_rndis_init_def
  by (intro total_bind stall_total(4) tx_total(2) rndis_eps)
    (simp_all add: RNDIS_NOTIFICATION_IN_SZ_def RNDIS_DATA_IN_SZ_def RNDIS_DATA_OUT_SZ_def EP_TYPE_INTR_def EP_TYPE_BULK_def EP_TYPE_ISOC_def)

lemma deinit_total: "dev_inv J s \<Longrightarrow> always J (usbd_rndis_deinit n s)"
  unfolding usbd_rndis_deinit_def by (intro total_bind stall_total(3) rndis_eps) simp_all

lemma get32_some:
  assumes "dev_inv J s" "r \<noteq> R_device_config" "i + 4 \<le> region_size r"
  shows "\<exists>v. get32 r i s = Some v"
proof -
  have "length (mem s r) = region_size r" using assms(1) by (simp add: dev_inv_def)
  then show ?thesis using assms(2,3) by (simp add: get32_def load_at_Some)
qed

lemma rndis_setup_total: "dev_inv J s \<Longrightarrow> always J (usbd_rndis_setup req s)"
  using get32_some [of J s R_encapsulated 4]
  by (auto simp: usbd_rndis_setup_def region_size_def intro!: send_data_total prepare_rx_total)

lemma notify_total: "dev_inv J s \<Longrightarrow> always J (rndis_notify s)"
  unfolding rndis_notify_def by (rule tx_total(1)) simp_all

lemma put_fields_keeps: "dev_inv J s \<Longrightarrow> keeps J (put_fields fs s)"
proof (induction fs arbitrary: s)
  case (Cons fv fs)
  obtain off v where "fv = (off, v)" by fastforce
  then show ?case using Cons by (auto simp: put32_def intro!: safe_bind store_safe)
qed simp

lemma keeps_value: "(\<And>v. keeps J (f v)) \<Longrightarrow> keeps J (x \<bind> f)"
  by (cases x) auto

lemma cmplt_keeps: "dev_inv J s \<Longrightarrow> keeps J (rndis_query_cmplt a b s)" "dev_inv J s \<Longrightarrow> keeps J (rndis_query_cmplt32 a c s)"
  unfolding rndis_query_cmplt_def rndis_query_cmplt32_def Let_def
  by (intro safe_bind put_fields_keeps store_safe total_safe [OF notify_total]; simp)+

lemma query_keeps: "dev_inv J s \<Longrightarrow> keeps J (rndis_query s)"
  by (auto simp: rndis_query_def split: option.split intro!: keeps_value cmplt_keeps)

lemma state_inv [simp]: "rndis_inv (c\<lparr>rndis_state := x\<rparr>) = rndis_inv c" "rndis_inv (c\<lparr>oid_packet_filter := y\<rparr>) = rndis_inv c"
  "rndis_inv (c\<lparr>rxok := z\<rparr>) = rndis_inv c" "rndis_inv (c\<lparr>rxbad := z\<rparr>) = rndis_inv c" "rndis_inv (c\<lparr>client := r\<rparr>) = rndis_inv c"
  "rndis_inv (c\<lparr>rndis_MessageLength := l\<rparr>) = rndis_inv c"
  by (simp_all add: rndis_inv_def)

lemma inv_of [dest]: "dev_inv J s \<Longrightarrow> J (cls s)"
  by (simp add: dev_inv_def)

lemma set_msg_keeps: "dev_inv rndis_inv s \<Longrightarrow> keeps rndis_inv (rndis_handle_set_msg s)"
proof -
  assume s: "dev_inv rndis_inv s"
  have u: "dev_inv rndis_inv (upd_cls (\<lambda>c. c\<lparr>rndis_state := x\<rparr>) t)" "dev_inv rndis_inv (upd_cls (\<lambda>c. c\<lparr>oid_packet_filter := y\<rparr>) t)"
    if "dev_inv rndis_inv t" for x y and t :: "'a dev"
    using that by (auto intro!: dev_inv_cls)
  have b: "keeps rndis_inv (if c1 then (do { off \<leftarrow> g1; a \<leftarrow> ga off; b \<leftarrow> gb off; c \<leftarrow> gc off; d \<leftarrow> gd off; Some (rndis_handle_config_parm a b c d t) })
     else if c2 then (do { off \<leftarrow> g1; v \<leftarrow> gv off; let s = upd_cls (\<lambda>c. c\<lparr>oid_packet_filter := v\<rparr>) t;
              Some (if v \<noteq> 0 then upd_cls (\<lambda>c. c\<lparr>rndis_state := rndis_data_initialized\<rparr>) (rndis_packetFilter v s)
                    else upd_cls (\<lambda>c. c\<lparr>rndis_state := rndis_initialized\<rparr>) s) })
     else if c3 then Some t else put32 R_encapsulated 12 RNDIS_STATUS_FAILURE t)"
    if "dev_inv rndis_inv t" for c1 c2 c3 g1 ga gb gc gd gv and t :: "'a dev"
    using that by (auto simp: rndis_handle_config_parm_def rndis_packetFilter_def put32_def Let_def intro!: keeps_value u store_safe)
  show ?thesis unfolding rndis_handle_set_msg_def Let_def
    by (intro keeps_value safe_bind put_fields_keeps s b [unfolded Let_def] total_safe [OF notify_total]) assumption+
qed

lemma reply_keeps:
  assumes "dev_inv J s" "\<And>t. dev_inv J t \<Longrightarrow> dev_inv J (f t)"
  shows "keeps J (put_fields fs s \<bind> (\<lambda>t. rndis_notify (f t)))"
  by (rule safe_bind [OF put_fields_keeps [OF assms(1)]]) (rule total_safe [OF notify_total [OF assms(2)]])

lemma ep0_recv_keeps:
  assumes "dev_inv rndis_inv s"
  shows "keeps rndis_inv (usbd_rndis_ep0_recv s)"
proof -
  have u: "dev_inv rndis_inv (upd_cls (\<lambda>c. c\<lparr>rndis_state := x\<rparr>) t)" if "dev_inv rndis_inv t" for x and t :: "'a dev"
    using that by (auto intro!: dev_inv_cls)
  show ?thesis unfolding usbd_rndis_ep0_recv_def Let_def
    by (rule keeps_value) (intro safe_if reply_keeps [where f = "\<lambda>t. t"] reply_keeps query_keeps set_msg_keeps u assms; simp add: assms)
qed

lemma data_in_total:
  assumes "dev_inv rndis_inv s"
  shows "always rndis_inv (usbd_rndis_data_in n s)"
proof -
  have n: "tx_state (cls s) \<noteq> TX_STATE_NEED_SENDING" using inv_of [OF assms] by (simp add: rndis_inv_def)
  have u: "dev_inv rndis_inv (upd_cls (\<lambda>c. c\<lparr>tx_state := x\<rparr>) t)" if "dev_inv rndis_inv t" "x \<noteq> TX_STATE_NEED_SENDING" for x and t :: "'a dev"
    using that inv_of [OF that(1)] by (auto intro!: dev_inv_cls simp: rndis_inv_def)
  show ?thesis unfolding usbd_rndis_data_in_def Let_def if_not_P [OF n]
    by (intro total_if total_bind tx_total(1) rndis_eps assms) (simp_all add: u assms)
qed

lemma keeps_value2: "(\<And>v. x = Some v \<Longrightarrow> keeps J (f v)) \<Longrightarrow> keeps J (x \<bind> f)"
  by (cases x) auto

lemma handle_packet_keeps:
  assumes "dev_inv rndis_inv s"
  shows "keeps rndis_inv (handle_packet sz s)"
proof -
  have u: "dev_inv rndis_inv (upd_cls (\<lambda>c. c\<lparr>rxok := f c\<rparr>) t)" "dev_inv rndis_inv (upd_cls (\<lambda>c. c\<lparr>rxbad := f c\<rparr>) t)"
    "dev_inv rndis_inv (upd_cls (\<lambda>c. c\<lparr>client := r\<rparr>) t)" if "dev_inv rndis_inv t" for f r and t :: "'a dev"
    using that by (auto intro!: dev_inv_cls)
  show ?thesis using assms
    by (auto simp: handle_packet_def Let_def split: option.split intro!: keeps_value u)
qed

lemma fragment_keeps:
  assumes "dev_inv rndis_inv s" "\<not> word_of_int (rndis_received (cls s)) + n > (of_nat RNDIS_RX_BUFFER_SIZE :: u32)"
  shows "keeps rndis_inv (data_out_fragment n s)"
proof -
  define w where "w = word_of_int (rndis_received (cls s)) + n"
  have un: "unat (of_nat RNDIS_RX_BUFFER_SIZE :: u32) = 1558"
    by (subst unat32_of_nat) (simp_all add: RNDIS_RX_BUFFER_SIZE_def ETH_MAX_PACKET_SIZE_def ETH_HEADER_SIZE_def RNDIS_MTU_def RNDIS_HDR_def)
  have w: "unat w \<le> 1558" using assms(2) un by (simp add: w_def word_le_nat_alt not_less)
  then have sw: "sint w = int (unat w)" by (intro sint_small) simp
  have r: "dev_inv rndis_inv (upd_cls (\<lambda>c. c\<lparr>rndis_received := x\<rparr>) t)" if "dev_inv rndis_inv t" "0 \<le> x" "x \<le> 1558" for x and t :: "'a dev"
    using that inv_of [OF that(1)]
    by (auto intro!: dev_inv_cls simp: rndis_inv_def RNDIS_RX_BUFFER_SIZE_def ETH_MAX_PACKET_SIZE_def ETH_HEADER_SIZE_def RNDIS_MTU_def RNDIS_HDR_def)
  have l: "dev_inv rndis_inv (upd_cls (\<lambda>c. c\<lparr>rndis_MessageLength := x\<rparr>) t)" if "dev_inv rndis_inv t" for x and t :: "'a dev"
    using that by (auto intro!: dev_inv_cls)
  have f: "keeps rndis_inv (if b then get32 q i t \<bind> (\<lambda>l. Some (upd_cls (\<lambda>c. c\<lparr>rndis_MessageLength := sint l\<rparr>) t)) else Some t)"
    if "dev_inv rndis_inv t" for b q i and t :: "'a dev"
    using that by (auto intro!: keeps_value l)
  have e: "keeps rndis_inv (if b then handle_packet m t \<bind> (\<lambda>s. Some (upd_cls (\<lambda>c. c\<lparr>rndis_received := 0\<rparr>) s)) else Some t)"
    if "dev_inv rndis_inv t" for b m and t :: "'a dev"
    using that by (auto intro!: safe_bind handle_packet_keeps r)
  show ?thesis unfolding data_out_fragment_def Let_def w_def [symmetric]
    by (intro safe_if) (simp, (rule keeps_value, rule safe_bind [OF store_safe [OF assms(1)]], rule safe_bind [OF f], assumption, rule e, rule r, assumption, use w sw in linarith, use w sw in linarith))
qed

lemma data_out_keeps:
  assumes "dev_inv rndis_inv s"
  shows "keeps rndis_inv (usbd_rndis_data_out n s)"
proof -
  have b: "dev_inv rndis_inv (upd_cls (\<lambda>c. c\<lparr>rxbad := rxbad c + 1, rndis_received := 0\<rparr>) s)"
    using assms inv_of [OF assms] by (auto intro!: dev_inv_cls simp: rndis_inv_def)
  show ?thesis unfolding usbd_rndis_data_out_def Let_def
    by (intro safe_if keeps_value safe_bind [where f = "DCD_EP_PrepareRx a p m" for a p m] fragment_keeps total_safe [OF tx_total(2)] rndis_eps)
      (use assms b in simp_all)
qed

lemma get_cfg_ok: "dev_inv J s \<Longrightarrow> \<exists>n t. usbd_rndis_get_cfg sp s = Some (Some (R_CfgDesc, 0), n, t) \<and> dev_inv J t"
proof -
  assume s: "dev_inv J s"
  define n where "n = length usbd_cdc_CfgDesc"
  have "always J (store_at (Some (R_CfgDesc, 2)) [of_nat n AND 0xFF] s)" by (rule store_total [OF s]) (simp_all add: region_size_def)
  then obtain t where t: "store_at (Some (R_CfgDesc, 2)) [of_nat n AND 0xFF] s = Some t" "dev_inv J t" by (auto simp: always_def)
  have "always J (store_at (Some (R_CfgDesc, 3)) [of_nat (n div 256) AND 0xFF] t)" by (rule store_total [OF t(2)]) (simp_all add: region_size_def)
  then obtain u where "store_at (Some (R_CfgDesc, 3)) [of_nat (n div 256) AND 0xFF] t = Some u" "dev_inv J u" by (auto simp: always_def)
  with t(1) show ?thesis by (simp add: usbd_rndis_get_cfg_def Let_def n_def [symmetric])
qed

interpretation rndis_class: usb_class usbd_rndis_cb rndis_inv
  by unfold_locales (auto simp: usbd_rndis_cb_def usbd_rndis_sof_def rndis_iso_in_incomplete_def rndis_iso_out_incomplete_def
    init_total deinit_total rndis_setup_total ep0_recv_keeps total_safe [OF data_in_total] data_out_keeps get_cfg_ok)

section \<open>From power on\<close>

lemma io_step: "io s (f s) \<Longrightarrow> io (f s) t \<Longrightarrow> io s t"
  by (rule io_trans)

lemma core_reset_io: "io s (USB_OTG_CoreReset s)"
proof -
  obtain b x t where p: "poll poll_limit GRSTCTL grstctl_ahbidle 0 s = (b, x, t)" by (cases "poll poll_limit GRSTCTL grstctl_ahbidle 0 s")
  note io1 = poll_io [OF p]
  let ?t = "wr GRSTCTL (set_fld grstctl_csftrst 1 x) t"
  obtain c y u where q: "poll poll_limit GRSTCTL grstctl_csftrst 1 ?t = (c, y, u)" by (cases "poll poll_limit GRSTCTL grstctl_csftrst 1 ?t")
  have "io t ?t" by simp
  with poll_io [OF q] have "io t u" by (blast intro: io_trans)
  with io1 have "io s u" by (rule io_trans)
  then show ?thesis using p q io1 by (simp add: USB_OTG_CoreReset_def)
qed

lemma core_init_io: "io s (USB_OTG_CoreInit s)"
proof -
  define t where "t = wr GUSBCFG (set_fld gusbcfg_physel 1 (fst (rd GUSBCFG s))) (snd (rd GUSBCFG s))"
  have "io s t" by (simp add: t_def rd_def)
  also have "io t (USB_OTG_CoreReset t)" by (rule core_reset_io)
  finally show ?thesis by (simp add: USB_OTG_CoreInit_def Let_def case_prod_beta t_def)
qed

lemma io_right: "io t u \<Longrightarrow> io s u = io s t"
  by (blast intro: io_trans io_sym)

lemma core_init_dev_io: "io s (USB_OTG_CoreInitDev s)"
proof -
  have f: "io u (fold idle_in_ep xs t) = io u t" "io u (fold idle_out_ep xs t) = io u t" for u t :: "'a usb" and xs
    by (rule io_right, rule io_fold, rule io_core)+
  show ?thesis
    by (simp add: USB_OTG_CoreInitDev_def Let_def rd_def f io_core [THEN io_right])
qed

lemma init_eps_ok:
  assumes "n \<le> length es"
  shows "\<exists>es'. init_eps dir n es = Some es' \<and> length es' = length es \<and> (\<forall>i < n. ep_ready (es' ! i))"
proof -
  have "length (fold (\<lambda>i es. es[i := init_ep dir i (es ! i)]) [0..<m] es) = length es
      \<and> (\<forall>i < m. ep_ready (fold (\<lambda>i es. es[i := init_ep dir i (es ! i)]) [0..<m] es ! i))" if "m \<le> n" for m
    using that
  proof (induction m)
    case (Suc m)
    have r: "ep_ready (init_ep dir m e)" for e
      by (simp add: init_ep_def ep_ready_def USB_OTG_MAX_EP0_SIZE_def EP_TYPE_CTRL_def EP_TYPE_ISOC_def)
    show ?case using Suc assms r by (auto simp: nth_list_update less_Suc_eq)
  qed simp
  from this [of n] show ?thesis using assms by (simp add: init_eps_def)
qed

definition fresh :: "('c \<Rightarrow> bool) \<Rightarrow> 'c usb \<Rightarrow> bool" where
  "fresh J s \<longleftrightarrow> length (in_ep s) = 15 \<and> length (out_ep s) = 15 \<and> (\<forall>r. length (mem s r) = region_size r)
     \<and> device_config s \<le> USBD_CFG_MAX_NUM \<and> J (cls s)"

lemma init_ok:
  assumes "fresh J s"
  shows "\<exists>t. USBD_Init s = Some t \<and> dev_inv J t \<and> device_status t = USB_OTG_DEFAULT \<and> cls t = cls s"
proof -
  define s0 where "s0 = (USB_OTG_SelectCore s)\<lparr>device_status := USB_OTG_DEFAULT, device_address := 0\<rparr>"
  have d4: "unat (dev_endpoints s0) = 4" by (simp add: s0_def USB_OTG_SelectCore_def)
  have l: "length (in_ep s0) = 15" "length (out_ep s0) = 15" using assms by (simp_all add: s0_def USB_OTG_SelectCore_def fresh_def)
  obtain ie where ie: "init_eps 1 4 (in_ep s0) = Some ie" "length ie = 15" "\<forall>i < 4. ep_ready (ie ! i)"
    using init_eps_ok [of 4 "in_ep s0" 1] l by auto
  obtain oe where oe: "init_eps 0 4 (out_ep s0) = Some oe" "length oe = 15" "\<forall>i < 4. ep_ready (oe ! i)"
    using init_eps_ok [of 4 "out_ep s0" 0] l by auto
  define s1 where "s1 = s0\<lparr>in_ep := ie, out_ep := oe\<rparr>"
  have i1: "dev_inv J s1" using assms ie(2,3) oe(2,3)
    by (simp add: s1_def s0_def USB_OTG_SelectCore_def dev_inv_def usb_ok_def fresh_def)
  define t where "t = USB_OTG_EnableGlobalInt (USB_OTG_CoreInitDev (USB_OTG_SetCurrentMode DEVICE_MODE (USB_OTG_CoreInit (USB_OTG_DisableGlobalInt s1))))"
  have io: "io s1 t"
    by (simp add: t_def io_core [THEN io_right] core_init_dev_io [THEN io_right] core_init_io [THEN io_right])
  have "USBD_Init s = Some t"
    using ie(1) oe(1) d4 by (simp add: USBD_Init_def USBD_DeInit_def DCD_Init_def Let_def s0_def [symmetric] s1_def [symmetric] t_def)
  moreover have "dev_inv J t" using dev_inv_io [OF io] i1 by simp
  moreover have "device_status t = USB_OTG_DEFAULT" "cls t = cls s"
    using io_sels [OF io] by (simp_all add: s1_def s0_def USB_OTG_SelectCore_def)
  ultimately show ?thesis by blast
qed

section \<open>Reachable states\<close>

lemma cross_bind: "keeps K x \<Longrightarrow> (\<And>s. dev_inv K s \<Longrightarrow> keeps J (f s)) \<Longrightarrow> keeps J (x \<bind> f)"
  by (cases x) (auto simp: keeps_def)

definition sized :: "int \<Rightarrow> 'r rndis \<Rightarrow> bool" where
  "sized n c \<longleftrightarrow> tx_size c = n \<and> 0 \<le> rndis_received c \<and> rndis_received c \<le> int RNDIS_RX_BUFFER_SIZE"

lemma send_keeps:
  assumes "dev_inv rndis_inv s" "rndis_send p n s = Some (b, t)"
  shows "dev_inv rndis_inv t"
proof (cases "n \<le> 0 \<or> n > int ETH_MAX_PACKET_SIZE \<or> tx_state (cls s) \<noteq> TX_STATE_READY")
  case True
  then show ?thesis using assms by (simp add: rndis_send_def)
next
  case False
  define u where "u = upd_cls (\<lambda>c. c\<lparr>tx_ptr := p, tx_size := n, tx_state := TX_STATE_NEED_SENDING\<rparr>) s"
  define m where "m = min (int (RNDIS_DATA_IN_SZ - RNDIS_HDR)) n"
  have m: "0 \<le> m" "m \<le> n" "n \<le> int ETH_MAX_PACKET_SIZE" using False by (simp_all add: m_def)
  have c: "cls u = (cls s)\<lparr>tx_ptr := p, tx_size := n, tx_state := TX_STATE_NEED_SENDING\<rparr>" by (simp add: u_def)
  have e: "\<not> RNDIS_DATA_IN_EP AND 0x0F \<noteq> RNDIS_DATA_IN_EP AND 0x0F" by simp
  have st: "tx_state (cls u) = TX_STATE_NEED_SENDING" "tx_size (cls u) = n" by (simp_all add: c)
  have u: "dev_inv (sized n) u" unfolding u_def by (rule dev_inv_cls [OF assms(1)])
      (use inv_of [OF assms(1)] in \<open>simp add: sized_def rndis_inv_def\<close>)
  have k: "dev_inv (sized (n - m)) (upd_cls (\<lambda>c. c\<lparr>tx_need_padding := x, tx_ptr := ptr_add (tx_ptr c) y, tx_size := tx_size c - m\<rparr>) v)"
    if "dev_inv (sized n) v" for x y and v :: "'a dev"
    using that by (auto simp: dev_inv_def sized_def) (auto simp: upd_cls_def)
  have h: "dev_inv rndis_inv (upd_cls (\<lambda>c. c\<lparr>tx_state := TX_STATE_SENDING_HDR\<rparr>) v)" if "dev_inv (sized (n - m)) v" for v :: "'a dev"
    using that m by (auto simp: dev_inv_def sized_def rndis_inv_def) (auto simp: upd_cls_def)
  have "keeps rndis_inv (usbd_rndis_data_in RNDIS_DATA_IN_EP u)"
    unfolding usbd_rndis_data_in_def Let_def if_not_P [OF e] if_P [OF st(1)] st(2) m_def [symmetric]
    by (rule cross_bind [OF store_safe [OF u]], rule keeps_value, rule cross_bind [OF store_safe], assumption,
      rule cross_bind [OF total_safe [OF tx_total(1)]], rule k, assumption, rule rndis_eps, simp add: h)
  moreover have "usbd_rndis_data_in RNDIS_DATA_IN_EP u = Some t"
    using assms(2) False by (auto simp: rndis_send_def u_def split: bind_splits if_splits)
  ultimately show ?thesis by (simp add: keeps_def)
qed

text \<open>
  What happens to the device: the start, interrupts, frames handed to \<open>rndis_send\<close>, and what its
  owner does between: filling the frame buffer, taking a frame, setting the receive callback.
\<close>

inductive reachable :: "'r dev \<Rightarrow> bool" where
  power_on: "fresh rndis_inv s \<Longrightarrow> USBD_Init s = Some t \<Longrightarrow> reachable t"
| interrupt: "reachable s \<Longrightarrow> USBD_OTG_ISR_Handler usbd_rndis_cb s = Some t \<Longrightarrow> reachable t"
| send: "reachable s \<Longrightarrow> rndis_send p n s = Some (b, t) \<Longrightarrow> reachable t"
| frame: "reachable s \<Longrightarrow> length d = region_size R_frame \<Longrightarrow> reachable (s\<lparr>mem := (mem s)(R_frame := d)\<rparr>)"
| taken: "reachable s \<Longrightarrow> reachable (upd_cls (\<lambda>c. c\<lparr>client := r\<rparr>) s)"
| hooked: "reachable s \<Longrightarrow> reachable (upd_cls (\<lambda>c. c\<lparr>rndis_rxproc := f\<rparr>) s)"

theorem reachable_inv:
  assumes "reachable s"
  shows "dev_inv rndis_inv s"
  using assms
proof induction
  case (power_on s t)
  then show ?case using init_ok by fastforce
next
  case (interrupt s t)
  then show ?case using rndis_class.handler_keeps [of s] by (simp add: keeps_def)
next
  case (send s p n b t)
  then show ?case using send_keeps by blast
next
  case (frame s d)
  then show ?case by (auto simp: dev_inv_def)
next
  case (taken s r)
  then show ?case by (auto intro!: dev_inv_cls)
next
  case (hooked s f)
  show ?case by (rule dev_inv_cls [OF hooked.IH]) (use inv_of [OF hooked.IH] in \<open>simp add: rndis_inv_def\<close>)
qed

section \<open>Enumeration\<close>

text \<open>The host's setup packet, as the interrupt routine leaves it.\<close>

definition with_setup :: "bytes \<Rightarrow> 'c usb \<Rightarrow> 'c usb" where
  "with_setup p s = s\<lparr>mem := (mem s)(R_setup_packet := p @ drop (length p) (mem s R_setup_packet))\<rparr>"

lemma with_setup_inv: "dev_inv J s \<Longrightarrow> length p \<le> 24 \<Longrightarrow> dev_inv J (with_setup p s)"
  by (auto simp: dev_inv_def with_setup_def region_size_def)

lemma with_setup_sels [simp]:
  "cls (with_setup p s) = cls s" "device_status (with_setup p s) = device_status s" "device_config (with_setup p s) = device_config s"
  "device_address (with_setup p s) = device_address s" "in_ep (with_setup p s) = in_ep s" "out_ep (with_setup p s) = out_ep s"
  "mem (with_setup p s) R_setup_packet = p @ drop (length p) (mem s R_setup_packet)"
  by (simp_all add: with_setup_def)

text \<open>What the parser hands on.\<close>

definition parsed :: "'c usb \<Rightarrow> 'c usb" where
  "parsed s = (put_in 0 ((in_ep s ! 0)\<lparr>ctl_data_len := ucast (SWAPBYTE (mem s R_setup_packet) 6)\<rparr>) s)\<lparr>device_state := USB_OTG_EP0_SETUP\<rparr>"

lemma parsed_inv:
  assumes "dev_inv J s"
  shows "dev_inv J (parsed s)"
proof -
  have "ep_ready ((in_ep s ! 0)\<lparr>ctl_data_len := n\<rparr>)" for n using inv_eps(3) [OF assms] by (auto simp: usb_ok_def ep_ready_def)
  then show ?thesis using dev_inv_put(1) [OF assms] by (simp add: parsed_def)
qed

lemma parse_setup:
  assumes "dev_inv J s" "length p = 8"
  shows "USBD_ParseSetupRequest (with_setup p s) =
     Some (\<lparr>bmRequest = p ! 0, bRequest = p ! 1, wValue = SWAPBYTE p 2, wIndex = SWAPBYTE p 4, wLength = SWAPBYTE p 6\<rparr>,
       parsed (with_setup p s))"
proof -
  define s1 where "s1 = with_setup p s"
  have i: "dev_inv J s1" using with_setup_inv [OF assms(1), of p] assms(2) by (simp add: s1_def)
  have "length (mem s1 R_setup_packet) = region_size R_setup_packet" using i by (simp add: dev_inv_def)
  then have l: "load_at (Some (R_setup_packet, 0)) 8 s1 = Some p"
    using assms(2) by (subst load_at_Some) (simp_all add: region_size_def s1_def)
  have g: "get_in 0 s1 = Some (in_ep s1 ! 0)" using inv_eps [OF i] by (simp add: get_in_def ep_index_def)
  have "SWAPBYTE (mem s1 R_setup_packet) 6 = SWAPBYTE p 6" using assms(2) by (simp add: SWAPBYTE_def s1_def nth_append)
  then show ?thesis using l g by (simp add: USBD_ParseSetupRequest_def Let_def s1_def parsed_def)
qed

lemma send_status:
  assumes "in_ep s \<noteq> []"
  shows "\<exists>e t. USBD_CtlSendStatus s = Some t \<and> io (put_in 0 e (s\<lparr>device_state := USB_OTG_EP0_STATUS_IN\<rparr>)) t"
proof -
  let ?s = "s\<lparr>device_state := USB_OTG_EP0_STATUS_IN\<rparr>"
  from DCD_EP_Tx_ep0 [of ?s None 0] assms obtain t where
    t: "DCD_EP_Tx 0 None 0 ?s = Some t" "io (put_in 0 (cut_ep0 (tx_ep 0 None 0 (in_ep s ! 0))) ?s) t" by auto
  have "io t (USB_OTG_EP0_OutStart t)" by (rule io_core)
  then show ?thesis using t io_trans [OF t(2)] by (auto simp: USBD_CtlSendStatus_def)
qed

lemma rndis_init_opens:
  assumes "usb_ok s"
  shows "\<exists>t. usbd_rndis_init n s = Some t \<and> cls t = cls s \<and> mem t = mem s \<and> device_status t = device_status s
     \<and> device_config t = device_config s \<and> device_address t = device_address s \<and> length (in_ep t) = 15
     \<and> in_ep t ! 1 = opened RNDIS_NOTIFICATION_IN_EP 8 EP_TYPE_INTR (in_ep s ! 1)
     \<and> in_ep t ! 2 = opened RNDIS_DATA_IN_EP 64 EP_TYPE_BULK (in_ep s ! 2)
     \<and> out_ep t ! 3 = rx_ep RNDIS_DATA_OUT_EP (Some (R_usb_rx, 0)) 64 (opened RNDIS_DATA_OUT_EP 64 EP_TYPE_BULK (out_ep s ! 3))"
proof -
  have l: "length (in_ep s) = 15" "length (out_ep s) = 15" "dev_endpoints s = 4" using assms by (auto simp: usb_ok_def)
  let ?i = RNDIS_NOTIFICATION_IN_EP and ?d = RNDIS_DATA_IN_EP and ?o = RNDIS_DATA_OUT_EP
  have ix: "ep_index ?i = 1" "ep_index ?d = 2" "ep_index ?o = 3" "dir_in ?i" "dir_in ?d" "\<not> dir_in ?o"
    by (simp_all add: ep_index_def dir_in_def RNDIS_NOTIFICATION_IN_EP_def RNDIS_DATA_IN_EP_def RNDIS_DATA_OUT_EP_def)
  have ex: "ep_exists a u" if "a AND 0x7F < 4" "length (in_ep u) = 15" "length (out_ep u) = 15" "dev_endpoints u = 4" for a and u :: "'a dev"
    using that by (simp add: ep_exists_def has_ep_def ep_index_def word_less_nat_alt)
  have "ep_exists ?i s" by (rule ex) (use l in simp_all)
  from DCD_EP_Open_ok [OF this, of 8 EP_TYPE_INTR] obtain s1 where s1: "DCD_EP_Open ?i 8 EP_TYPE_INTR s = Some s1"
    "io (put_in ?i (opened ?i 8 EP_TYPE_INTR (in_ep s ! 1)) s) s1" by (auto simp: put_ep_def the_ep_def ix)
  note a1 = io_sels [OF s1(2)]
  have "ep_exists ?d s1" by (rule ex) (use l in \<open>simp_all add: a1 put_in_def\<close>)
  from DCD_EP_Open_ok [OF this, of 64 EP_TYPE_BULK] obtain s2 where s2: "DCD_EP_Open ?d 64 EP_TYPE_BULK s1 = Some s2"
    "io (put_in ?d (opened ?d 64 EP_TYPE_BULK (in_ep s ! 2)) s1) s2" by (auto simp: put_ep_def the_ep_def ix a1 put_in_def)
  note a2 = io_sels [OF s2(2)]
  have "ep_exists ?o s2" by (rule ex) (use l in \<open>simp_all add: a1 a2 put_in_def\<close>)
  from DCD_EP_Open_ok [OF this, of 64 EP_TYPE_BULK] obtain s3 where s3: "DCD_EP_Open ?o 64 EP_TYPE_BULK s2 = Some s3"
    "io (put_out ?o (opened ?o 64 EP_TYPE_BULK (out_ep s ! 3)) s2) s3" by (auto simp: put_ep_def the_ep_def ix a1 a2 put_in_def)
  note a3 = io_sels [OF s3(2)]
  have o3: "out_ep s3 ! 3 = opened ?o 64 EP_TYPE_BULK (out_ep s ! 3)" "length (out_ep s3) = 15" "dev_endpoints s3 = 4"
    using l by (simp_all add: a1 a2 a3 put_in_def put_out_def ix)
  have m: "maxpacket (opened ?o 64 EP_TYPE_BULK e) \<noteq> 0" "ep_type (opened ?o 64 EP_TYPE_BULK e) \<noteq> EP_TYPE_ISOC"
    "?o AND 0x7F < 4" "?o AND 0x7F \<noteq> 0" for e
    by (simp_all add: RNDIS_DATA_OUT_EP_def opened_def addressed_def dir_in_def Let_def EP_TYPE_BULK_def EP_TYPE_ISOC_def)
  from DCD_EP_PrepareRx_ok [of ?o s3 "Some (R_usb_rx, 0)" 64] obtain s4 where
    s4: "DCD_EP_PrepareRx ?o (Some (R_usb_rx, 0)) 64 s3 = Some s4"
      "io (put_out ?o (rx_ep ?o (Some (R_usb_rx, 0)) 64 (opened ?o 64 EP_TYPE_BULK (out_ep s ! 3))) s3) s4"
    using o3 m by (auto simp: ix)
  note a4 = io_sels [OF s4(2)]
  have "usbd_rndis_init n s = Some s4"
    using s1(1) s2(1) s3(1) s4(1) by (simp add: usbd_rndis_init_def RNDIS_NOTIFICATION_IN_SZ_def RNDIS_DATA_IN_SZ_def RNDIS_DATA_OUT_SZ_def)
  then show ?thesis using l by (simp add: a1 a2 a3 a4 put_in_def put_out_def ix)
qed

lemma setup_set_address:
  assumes "dev_inv J s" "device_status s \<noteq> USB_OTG_CONFIGURED" "0 < a" "a < 128"
  shows "\<exists>t. USBD_SetupStage cb (with_setup [0, 5, a, 0, 0, 0, 0, 0] s) = Some t \<and> device_address t = a
     \<and> device_status t = USB_OTG_ADDRESSED \<and> cls t = cls s \<and> device_config t = device_config s"
proof -
  let ?p = "[0, 5, a, 0, 0, 0, 0, 0] :: bytes"
  define t where "t = parsed (with_setup ?p s)"
  have i: "dev_inv J (with_setup ?p s)" using with_setup_inv [OF assms(1), of ?p] by simp
  then have t: "dev_inv J t" unfolding t_def by (rule parsed_inv)
  have f: "cls t = cls s" "device_status t = device_status s" "device_config t = device_config s"
    by (simp_all add: t_def parsed_def put_in_def)
  have sw: "SWAPBYTE ?p 2 = ucast a" "SWAPBYTE ?p 4 = 0" "SWAPBYTE ?p 6 = 0" by (simp_all add: SWAPBYTE_def)
  have a: "(ucast (ucast a :: u16) :: u8) AND 0x7F = a"
  proof -
    have "unat a < 128" using assms(4) by (simp add: word_less_nat_alt)
    then have "take_bit 7 a = a" by (simp add: word_unat_eq_iff unsigned_take_bit_eq take_bit_nat_eq_self)
    moreover have "(ucast (ucast a :: u16) :: u8) = a" by (rule bit_word_eqI) (simp add: bit_simps)
    moreover have "a AND 0x7F = take_bit 7 a" by (simp add: take_bit_eq_mask mask_eq_exp_minus_1)
    ultimately show ?thesis by simp
  qed
  define u where "u = DCD_EP_SetAddress a (t\<lparr>device_address := a\<rparr>)"
  have "io (t\<lparr>device_address := a\<rparr>) u" by (simp add: u_def DCD_EP_SetAddress_def)
  note us = io_sels [OF this]
  have "in_ep u \<noteq> []" using inv_eps(1) [OF t] us by simp
  from send_status [OF this] obtain e v where v: "USBD_CtlSendStatus u = Some v" "io (put_in 0 e (u\<lparr>device_state := USB_OTG_EP0_STATUS_IN\<rparr>)) v" by blast
  have "USBD_SetupStage cb (with_setup ?p s) = Some (v\<lparr>device_status := USB_OTG_ADDRESSED\<rparr>)"
    using parse_setup [OF assms(1), of ?p] assms(2,3) v(1)
    by (simp add: USBD_SetupStage_def Let_def USBD_StdDevReq_def USBD_SetAddress_def sw a t_def [symmetric] f u_def [symmetric] word_gt_0)
  then show ?thesis using io_sels [OF v(2)] us f by (simp add: put_in_def)
qed

lemma setup_set_config:
  fixes s :: "'r dev"
  assumes "dev_inv J s" "device_status s = USB_OTG_ADDRESSED"
  shows "\<exists>t. USBD_SetupStage usbd_rndis_cb (with_setup [0, 9, 1, 0, 0, 0, 0, 0] s) = Some t \<and> device_status t = USB_OTG_CONFIGURED
     \<and> device_config t = 1 \<and> device_address t = device_address s \<and> cls t = cls s
     \<and> in_ep t ! 1 = opened RNDIS_NOTIFICATION_IN_EP 8 EP_TYPE_INTR (in_ep s ! 1)
     \<and> in_ep t ! 2 = opened RNDIS_DATA_IN_EP 64 EP_TYPE_BULK (in_ep s ! 2)
     \<and> out_ep t ! 3 = rx_ep RNDIS_DATA_OUT_EP (Some (R_usb_rx, 0)) 64 (opened RNDIS_DATA_OUT_EP 64 EP_TYPE_BULK (out_ep s ! 3))"
proof -
  let ?p = "[0, 9, 1, 0, 0, 0, 0, 0] :: bytes"
  define t where "t = parsed (with_setup ?p s)"
  have i: "dev_inv J (with_setup ?p s)" using with_setup_inv [OF assms(1), of ?p] by simp
  then have t: "dev_inv J t" unfolding t_def by (rule parsed_inv)
  have f: "cls t = cls s" "device_status t = device_status s" "device_address t = device_address s" "out_ep t = out_ep s"
    "in_ep t ! 1 = in_ep s ! 1" "in_ep t ! 2 = in_ep s ! 2"
    by (simp_all add: t_def parsed_def put_in_def ep_index_def)
  have sw: "SWAPBYTE ?p 2 = 1" by (simp add: SWAPBYTE_def)
  define u where "u = t\<lparr>device_config := 1, device_status := USB_OTG_CONFIGURED\<rparr>"
  have "usb_ok u" using inv_eps(3) [OF t] by (simp add: u_def usb_ok_def)
  from rndis_init_opens [OF this, of 1] obtain v where v: "usbd_rndis_init 1 u = Some v" "cls v = cls u" "device_status v = device_status u"
    "device_config v = device_config u" "device_address v = device_address u" "length (in_ep v) = 15"
    "in_ep v ! 1 = opened RNDIS_NOTIFICATION_IN_EP 8 EP_TYPE_INTR (in_ep u ! 1)"
    "in_ep v ! 2 = opened RNDIS_DATA_IN_EP 64 EP_TYPE_BULK (in_ep u ! 2)"
    "out_ep v ! 3 = rx_ep RNDIS_DATA_OUT_EP (Some (R_usb_rx, 0)) 64 (opened RNDIS_DATA_OUT_EP 64 EP_TYPE_BULK (out_ep u ! 3))"
    by (elim exE conjE) (rule that)
  from v(6) have "in_ep v \<noteq> []" by auto
  from send_status [OF this] obtain e w where w: "USBD_CtlSendStatus v = Some w" "io (put_in 0 e (v\<lparr>device_state := USB_OTG_EP0_STATUS_IN\<rparr>)) w" by blast
  have "USBD_SetupStage usbd_rndis_cb (with_setup ?p s) = Some w"
    using parse_setup [OF assms(1), of ?p] assms(2) v(1) w(1)
    by (simp add: USBD_SetupStage_def Let_def USBD_StdDevReq_def USBD_SetConfig_def USBD_CFG_MAX_NUM_def USBD_SetCfg_def usbd_rndis_cb_def
      sw t_def [symmetric] f u_def [symmetric])
  then show ?thesis using io_sels [OF w(2)] v f by (simp add: put_in_def ep_index_def u_def)
qed

lemma reset_ok:
  assumes "usb_ok s"
  shows "\<exists>t. USBD_Reset s = Some t \<and> usb_ok t \<and> cls t = cls s \<and> mem t = mem s \<and> device_status t = USB_OTG_DEFAULT"
proof -
  let ?n = "ucast USB_OTG_MAX_EP0_SIZE :: u16"
  have r: "ep_ready (opened a ?n EP_TYPE_CTRL e)" for a e
    by (simp add: ep_ready_def opened_def addressed_def Let_def USB_OTG_MAX_EP0_SIZE_def EP_TYPE_CTRL_def EP_TYPE_ISOC_def EP_TYPE_BULK_def)
  have step: "\<exists>t. DCD_EP_Open a ?n EP_TYPE_CTRL u = Some t \<and> usb_ok t \<and> cls t = cls u \<and> mem t = mem u" if "usb_ok u" "a AND 0x7F < 4" for a and u :: "'a usb"
  proof -
    have "ep_exists a u" using exists_iff [OF that(1)] that(2) by simp
    from DCD_EP_Open_ok [OF this, of ?n EP_TYPE_CTRL] obtain t where
      t: "DCD_EP_Open a ?n EP_TYPE_CTRL u = Some t" "io (put_ep a (opened a ?n EP_TYPE_CTRL (the_ep a u)) u) t" by blast
    have "usb_ok (put_ep a (opened a ?n EP_TYPE_CTRL (the_ep a u)) u)" using usb_ok_put [OF that(1) r] by (simp add: put_ep_def)
    then show ?thesis using t usb_ok_io [OF t(2)] io_sels [OF t(2)] by (auto simp: put_ep_def put_in_def put_out_def)
  qed
  from step [of s 0] assms obtain a where a: "DCD_EP_Open 0 ?n EP_TYPE_CTRL s = Some a" "usb_ok a" "cls a = cls s" "mem a = mem s" by auto
  from step [of a "0x80"] a(2) obtain b where b: "DCD_EP_Open 0x80 ?n EP_TYPE_CTRL a = Some b" "usb_ok b" "cls b = cls a" "mem b = mem a" by auto
  show ?thesis using a b by (auto simp: USBD_Reset_def) (simp add: usb_ok_def)
qed

section \<open>Properties\<close>

lemma idle_fresh: "fresh rndis_inv (idle_dev r)"
  by (simp add: fresh_def rndis_inv_def idle_rndis_def)

lemma idle_start: "\<exists>t. USBD_Init (idle_dev r) = Some t \<and> dev_inv rndis_inv t \<and> device_status t = USB_OTG_DEFAULT \<and> cls t = idle_rndis r \<and> reachable t"
  using init_ok [OF idle_fresh] by (metis idle_usb_sels(2) idle_fresh reachable.power_on)

text \<open>
  C33: The invariant of the device holds in every state the firmware reaches: from the start on,
  over any sequence of interrupts (with any register contents), frames sent and changes by the
  owner of the driver. The endpoint arrays are whole and every endpoint with registers is usable,
  no object changes its size, the device is in one of its four states with a 7-bit address and a
  configuration that exists, and the driver's counters stay inside its buffers.
\<close>

theorem device_invariant:
  assumes "reachable s"
  shows "length (in_ep s) = 15 \<and> length (out_ep s) = 15 \<and> (\<forall>i < 4. maxpacket (in_ep s ! i) \<noteq> 0 \<and> maxpacket (out_ep s ! i) \<noteq> 0)
     \<and> (\<forall>r. length (mem s r) = region_size r)
     \<and> device_status s \<in> {USB_OTG_DEFAULT, USB_OTG_ADDRESSED, USB_OTG_CONFIGURED, USB_OTG_SUSPENDED}
     \<and> device_config s \<le> USBD_CFG_MAX_NUM \<and> device_address s < 128
     \<and> tx_state (cls s) \<noteq> TX_STATE_NEED_SENDING \<and> 0 \<le> tx_size (cls s) \<and> tx_size (cls s) \<le> int ETH_MAX_PACKET_SIZE
     \<and> 0 \<le> rndis_received (cls s) \<and> rndis_received (cls s) \<le> int RNDIS_RX_BUFFER_SIZE"
  using reachable_inv [OF assms] by (auto simp: dev_inv_def usb_ok_def ep_ready_def rndis_inv_def)

theorem device_invariant_witness:
  "\<exists>t. USBD_Init (idle_dev ()) = Some t \<and> length (in_ep t) = 15 \<and> device_address t < 128 \<and> rndis_received (cls t) \<le> 1558"
proof -
  from idle_start [of "()"] obtain t where t: "USBD_Init (idle_dev ()) = Some t" "reachable t" by blast
  from device_invariant [OF t(2)] have "length (in_ep t) = 15" "device_address t < 128" "rndis_received (cls t) \<le> int RNDIS_RX_BUFFER_SIZE"
    by - (elim conjE, assumption)+
  moreover have "int RNDIS_RX_BUFFER_SIZE = 1558"
    by (simp add: RNDIS_RX_BUFFER_SIZE_def ETH_MAX_PACKET_SIZE_def ETH_HEADER_SIZE_def RNDIS_MTU_def RNDIS_HDR_def)
  ultimately show ?thesis using t(1) by auto
qed

text \<open>
  C34: No setup packet makes the device fault. In every reachable state and for all eight bytes
  the setup stage succeeds and keeps the invariant, provided a request to an endpoint names one
  of the four that have registers.
\<close>

theorem setup_never_faults:
  assumes "reachable s" "length p = 8" "p ! 0 AND 0x1F = 2 \<Longrightarrow> p ! 4 AND 0x7F < 4"
  shows "\<exists>t. USBD_SetupStage usbd_rndis_cb (with_setup p s) = Some t \<and> dev_inv rndis_inv t"
proof -
  have i: "dev_inv rndis_inv (with_setup p s)" using with_setup_inv [OF reachable_inv [OF assms(1)], of p] assms(2) by simp
  have "mem (with_setup p s) R_setup_packet ! 0 = p ! 0" "mem (with_setup p s) R_setup_packet ! 4 = p ! 4"
    using assms(2) by (simp_all add: nth_append)
  then show ?thesis using rndis_class.setup_stage_total [OF i] assms(3) by (simp add: always_def)
qed

theorem setup_never_faults_witness:
  "\<exists>s t. USBD_Init (idle_dev ()) = Some s \<and> USBD_SetupStage usbd_rndis_cb (with_setup [0x80, 6, 0, 1, 0, 0, 18, 0] s) = Some t"
proof -
  from idle_start [of "()"] obtain s where s: "USBD_Init (idle_dev ()) = Some s" "reachable s" by blast
  have "length [0x80, 6, 0, 1, 0, 0, 18, 0 :: u8] = 8"
    "[0x80, 6, 0, 1, 0, 0, 18, 0 :: u8] ! 0 AND 0x1F = 2 \<Longrightarrow> [0x80, 6, 0, 1, 0, 0, 18, 0 :: u8] ! 4 AND 0x7F < 4" by simp_all
  from setup_never_faults [OF s(2) this] s(1) show ?thesis by blast
qed





end
