(* ===== verification/App.thy ===== *)
theory App
  imports Timers Rndis_Dev Pbuf
begin

text \<open>
  The application, \<open>src/project/app.c\<close>: frames between the RNDIS driver and the IP stack, the
  main loop and its two timers, the form handler of the web page.

  The state extends that of the timers. The frame on its way in is the client state of the RNDIS
  class, as the interrupt routine writes it through \<open>rndis_rxproc\<close>. What \<open>ethernet_input\<close> and
  \<open>tcp_tmr\<close> of lwIP do, whose state is \<open>'n\<close>, and what the interrupts do to the device while the
  application waits are parameters. \<open>__disable_irq\<close> makes what it guards one step. A led is on or
  off; the drivers behind \<open>STM_EVAL_LEDOn\<close> are not modelled.
\<close>

unbundle bit_operations_syntax

section \<open>State\<close>

datatype led = LED_ORANGE | LED_GREEN | LED_RED | LED_BLUE

definition LINK_LED :: led where "LINK_LED = LED_BLUE"

record inbox =
  received :: bytes
  recvSize :: int

record 'n app = timers +
  usb :: "inbox dev"
  bufs :: pbuf_mem
  lwip :: 'n
  lit :: "led \<Rightarrow> bool"
  led_g :: bool
  led_o :: bool
  led_r :: bool
  outputs :: int

section \<open>Frames\<close>

definition on_packet :: "bytes \<Rightarrow> int \<Rightarrow> inbox \<Rightarrow> inbox option" where
  "on_packet data sz b = (if sz < 0 \<or> nat sz > length data then None else do {
     r \<leftarrow> wr_at (received b) 0 (take (nat sz) data);
     Some (b\<lparr>received := r, recvSize := sz\<rparr>) })"

definition set_led :: "led \<Rightarrow> bool \<Rightarrow> ('n, 'a) app_scheme \<Rightarrow> ('n, 'a) app_scheme" where
  "set_led l b s = s\<lparr>lit := (lit s)(l := b)\<rparr>"

text \<open>The timers \<open>link_led_off\<close> and \<open>tcp_timer\<close> are at the addresses 0 and 1; their functions have these numbers.\<close>

definition link_led_off :: nat where "link_led_off = 0"
definition tcp_timer :: nat where "tcp_timer = 1"

definition TIMER_PROC :: "nat \<Rightarrow> u32 \<Rightarrow> u32 \<Rightarrow> stmr_t" where
  "TIMER_PROC f period active = \<lparr>t_period = period, t_event = 0, t_flags = active, t_data = None, t_proc = Some f, t_next = None\<rparr>"

definition TCP_TMR_INTERVAL :: u32 where "TCP_TMR_INTERVAL = 250"

definition app_timers :: "nat \<Rightarrow> stmr_t option" where
  "app_timers = [link_led_off \<mapsto> TIMER_PROC link_led_off (50 * 1000) 1, tcp_timer \<mapsto> TIMER_PROC tcp_timer (TCP_TMR_INTERVAL * 1000) 1]"

definition timer_proc :: "('n \<Rightarrow> 'n) \<Rightarrow> nat \<Rightarrow> nat \<Rightarrow> ('n, 'a) app_scheme \<Rightarrow> ('n, 'a) app_scheme option" where
  "timer_proc tcp_tmr f t s =
     (if f = link_led_off then Some (set_led LINK_LED False s)
      else if f = tcp_timer then Some (s\<lparr>lwip := tcp_tmr (lwip s)\<rparr>)
      else None)"

definition clear_recvSize :: "inbox dev \<Rightarrow> inbox dev" where
  "clear_recvSize = upd_cls (\<lambda>c. c\<lparr>client := (client c)\<lparr>recvSize := 0\<rparr>\<rparr>)"

definition usb_polling :: "(nat \<Rightarrow> ('n, 'a) app_scheme \<Rightarrow> ('n, 'a) app_scheme option) \<Rightarrow> ('n, 'a) app_scheme \<Rightarrow> ('n, 'a) app_scheme option" where
  "usb_polling ethernet_input s = (let b = client (cls (usb s)); n = recvSize b in
     if n = 0 then Some s else do {
     (frame, m) \<leftarrow> pbuf_alloc PBUF_RAW (word_of_int n) PBUF_POOL (bufs s);
     let s = s\<lparr>bufs := m\<rparr>;
     case frame of None \<Rightarrow> Some s
     | Some p \<Rightarrow> do {
         d \<leftarrow> (if n < 0 then None else rd_at (received b) 0 (nat n));
         m \<leftarrow> payload_write p 0 d (bufs s);
         m \<leftarrow> upd p (\<lambda>x. x\<lparr>p_len := word_of_int n\<rparr>) m;
         s \<leftarrow> ethernet_input p (s\<lparr>bufs := m, usb := clear_recvSize (usb s)\<rparr>);
         (k, m) \<leftarrow> pbuf_free (Some p) (bufs s);
         stmr_run link_led_off (set_led LINK_LED True (s\<lparr>bufs := m\<rparr>)) } })"

text \<open>\<open>irq\<close> is what the interrupts do to the device during one \<open>msleep (1)\<close>.\<close>

fun wait_can_send :: "(inbox dev \<Rightarrow> inbox dev option) \<Rightarrow> nat \<Rightarrow> ('n, 'a) app_scheme \<Rightarrow> ('n, 'a) app_scheme option" where
  "wait_can_send irq 0 s = Some s"
| "wait_can_send irq (Suc k) s = (if rndis_can_send (usb s) then Some s else do {
     s \<leftarrow> usleep 1000 s;
     u \<leftarrow> irq (usb s);
     wait_can_send irq k (s\<lparr>usb := u\<rparr>) })"

text \<open>The size so far, or \<open>None\<close> for a frame that is too long.\<close>

fun copy_frame :: "nat \<Rightarrow> nat option \<Rightarrow> nat \<Rightarrow> ('n, 'a) app_scheme \<Rightarrow> (nat option \<times> ('n, 'a) app_scheme) option" where
  "copy_frame fuel None sz s = Some (Some sz, s)"
| "copy_frame 0 (Some q) sz s = None"
| "copy_frame (Suc fuel) (Some q) sz s = do {
     b \<leftarrow> heap (bufs s) q;
     if sz + unat (p_len b) > RNDIS_MTU + 14 then Some (None, s)
     else do {
       d \<leftarrow> payload_read q 0 (unat (p_len b)) (bufs s);
       u \<leftarrow> store_at (Some (R_frame, sz)) d (usb s);
       copy_frame fuel (p_next b) (sz + unat (p_len b)) (s\<lparr>usb := u\<rparr>) } }"

definition linkoutput_fn :: "(inbox dev \<Rightarrow> inbox dev option) \<Rightarrow> nat \<Rightarrow> ('n, 'a) app_scheme \<Rightarrow> (err_t \<times> ('n, 'a) app_scheme) option" where
  "linkoutput_fn irq p s = do {
     s \<leftarrow> wait_can_send irq 200 s;
     (n, s) \<leftarrow> copy_frame chain_fuel (Some p) 0 s;
     case n of None \<Rightarrow> Some (ERR_ARG, s)
     | Some sz \<Rightarrow>
         if \<not> rndis_can_send (usb s) then Some (ERR_USE, s)
         else do {
           (ok, u) \<leftarrow> rndis_send (Some (R_frame, 0)) (int sz) (usb s);
           Some (ERR_OK, s\<lparr>usb := u, outputs := outputs s + 1\<rparr>) } }"

section \<open>Start and main loop\<close>

definition hwaddr :: bytes where "hwaddr = [0x20, 0x89, 0x84, 0x6A, 0x96, 0]"

definition sys_now :: "('n, 'a) app_scheme \<Rightarrow> (u32 \<times> ('n, 'a) app_scheme) option" where
  "sys_now s = do { (t, s) \<leftarrow> mtime s; Some (ucast t, s) }"

definition init_periph :: "('n, 'a) app_scheme \<Rightarrow> ('n, 'a) app_scheme option" where
  "init_periph s = do {
     u \<leftarrow> USBD_Init (usb s);
     Some (s\<lparr>usb := upd_cls (\<lambda>c. c\<lparr>rndis_rxproc := Some on_packet\<rparr>) u\<rparr>) }"

definition init_lwip :: "(('n, 'a) app_scheme \<Rightarrow> ('n, 'a) app_scheme option) \<Rightarrow> ('n, 'a) app_scheme \<Rightarrow> ('n, 'a) app_scheme option" where
  "init_lwip lwip_start s = do { s \<leftarrow> lwip_start s; s \<leftarrow> stmr_add tcp_timer s; stmr_add link_led_off s }"

definition main_turn :: "('n \<Rightarrow> 'n) \<Rightarrow> (nat \<Rightarrow> ('n, 'a) app_scheme \<Rightarrow> ('n, 'a) app_scheme option) \<Rightarrow> ('n, 'a) app_scheme \<Rightarrow> ('n, 'a) app_scheme option" where
  "main_turn tcp_tmr ethernet_input s = do { s \<leftarrow> usb_polling ethernet_input s; stmr (timer_proc tcp_tmr) s }"

section \<open>The web page\<close>

text \<open>Names and values of the form are strings; \<open>*values[i]\<close> is the first byte, zero when the string is empty.\<close>

fun ctl_params :: "(bytes \<times> bytes) list \<Rightarrow> ('n, 'a) app_scheme \<Rightarrow> ('n, 'a) app_scheme" where
  "ctl_params [] s = s"
| "ctl_params ((p, v) # ps) s = (let on = (case v of [] \<Rightarrow> False | c # cs \<Rightarrow> c = 49);
     s = (if p = str_bytes ''g'' then s\<lparr>led_g := on\<rparr> else s);
     s = (if p = str_bytes ''o'' then s\<lparr>led_o := on\<rparr> else s);
     s = (if p = str_bytes ''r'' then s\<lparr>led_r := on\<rparr> else s) in ctl_params ps s)"

definition ctl_cgi_handler :: "(bytes \<times> bytes) list \<Rightarrow> ('n, 'a) app_scheme \<Rightarrow> bytes \<times> ('n, 'a) app_scheme" where
  "ctl_cgi_handler ps s = (let s = ctl_params ps s in
     (str_bytes ''/state.shtml'', set_led LED_RED (led_r s) (set_led LED_ORANGE (led_o s) (set_led LED_GREEN (led_g s) s))))"

definition state_cgi_handler :: "(bytes \<times> bytes) list \<Rightarrow> bytes" where
  "state_cgi_handler ps = str_bytes ''/state.shtml''"

section \<open>Timers\<close>

definition timer_effect :: "('n \<Rightarrow> 'n) \<Rightarrow> nat \<Rightarrow> nat \<Rightarrow> ('n, 'a) app_ext \<Rightarrow> ('n, 'a) app_ext" where
  "timer_effect tcp_tmr f t m = timers.more (the (timer_proc tcp_tmr f t (timers.extend booted m)))"

lemma timer_proc_effect:
  assumes "f \<in> {link_led_off, tcp_timer}"
  shows "timer_proc tcp_tmr f t s = Some (s\<lparr>timers.more := timer_effect tcp_tmr f t (timers.more s)\<rparr>)"
  using assms by (cases s) (auto simp: timer_proc_def timer_effect_def set_led_def timers.extend_def booted_def link_led_off_def tcp_timer_def)

interpretation app_calls: timer_calls "timer_proc tcp_tmr" "{link_led_off, tcp_timer}" "timer_effect tcp_tmr"
  by unfold_locales (blast intro: timer_proc_effect clocked_refl)

lemma app_more:
  assumes "timers.more s = timers.more t"
  shows "lit s = lit t" "lwip s = lwip t" "usb s = usb t" "bufs s = bufs t" "outputs s = outputs t"
  using assms by (cases s; cases t; simp)+

lemma timer_effect_more: "timer_effect tcp_tmr f t (timers.more s) = timers.more (the (timer_proc tcp_tmr f t s))"
  by (cases s) (auto simp: timer_proc_def timer_effect_def set_led_def timers.extend_def booted_def)

lemma app_stmr:
  assumes "tlist s [link_led_off, tcp_timer]" "paced s" "tmrs s link_led_off = Some bl" "tmrs s tcp_timer = Some bt"
    "t_proc bl = Some link_led_off" "t_proc bt = Some tcp_timer"
  shows "\<exists>s' n. stmr (timer_proc tcp_tmr) s = Some s' \<and> stmrs s' = stmrs s \<and> now s < n \<and> n < now s' \<and>
     (let time = of_nat (1 + n div ticksPerUs) in
       lit s' = (if due time bl then (lit s)(LINK_LED := False) else lit s) \<and>
       lwip s' = (if due time bt then tcp_tmr (lwip s) else lwip s) \<and> usb s' = usb s \<and> bufs s' = bufs s \<and>
       (\<forall>(a, b) \<in> {(link_led_off, bl), (tcp_timer, bt)}. if due time b
          then \<exists>t. n < t \<and> t < now s' \<and> tmrs s' a = Some (b\<lparr>t_event := of_nat (1 + t div ticksPerUs)\<rparr>) else tmrs s' a = Some b))"
proof -
  let ?as = "[link_led_off, tcp_timer]"
  from utime_spec [OF assms(2)] obtain n s1 where s1: "utime s = Some (of_nat (micros n), s1)" "clocked s s1" "now s < n" "n < now s1" by blast
  note c = clocked_sels [OF s1(2)]
  have m: "timers.more s1 = timers.more s" using s1(2) by (auto simp: clocked_def)
  have l: "linked (tmrs s1) (stmrs s1) ?as" "distinct ?as" "paced s1" using assms(1,2) c by (simp_all add: tlist_def)
  have r: "\<forall>a \<in> set ?as. app_calls.ready (tmrs s1) a" using assms(3-6) c by (auto simp: app_calls.ready_def)
  define time :: u32 where "time = of_nat (micros n)"
  define ds where "ds = due_timers time (tmrs s) ?as"
  from app_calls.stmr_loop_spec [OF l r, of tcp_tmr time] obtain s' where
    s': "stmr_loop (timer_proc tcp_tmr) time (stmrs s1) s1 = Some s'" "stmrs s' = stmrs s1" "now s1 \<le> now s'"
      "timers.more s' = fold (app_calls.run_effect tcp_tmr (tmrs s)) ds (timers.more s)"
      "app_calls.restarted (tmrs s) (tmrs s') ds (now s1) (now s')"
    using c(1) m by (auto simp: ds_def)
  have st: "stmr (timer_proc tcp_tmr) s = Some s'" using s1(1) s'(1) by (simp add: stmr_def ucast_of_nat_32 time_def)
  have ne: "link_led_off \<noteq> tcp_timer" by (simp add: link_led_off_def tcp_timer_def)
  have ds: "ds = (if due time bl then [link_led_off] else []) @ (if due time bt then [tcp_timer] else [])"
    using assms(3,4) by (simp add: ds_def due_timers_def)
  have e: "app_calls.run_effect tcp_tmr (tmrs s) link_led_off (timers.more t) = timers.more (set_led LINK_LED False t)"
    "app_calls.run_effect tcp_tmr (tmrs s) tcp_timer (timers.more t) = timers.more (t\<lparr>lwip := tcp_tmr (lwip t)\<rparr>)" for t
    using assms(3-6) ne by (simp_all add: app_calls.run_effect_def timer_effect_more timer_proc_def)
  define u where "u = (if due time bl then set_led LINK_LED False s else s)"
  define v where "v = (if due time bt then u\<lparr>lwip := tcp_tmr (lwip u)\<rparr> else u)"
  have "timers.more s' = timers.more v" using s'(4) by (simp add: ds e u_def v_def)
  note am = app_more [OF this]
  have sts: "if due time b then \<exists>t. n < t \<and> t < now s' \<and> tmrs s' a = Some (b\<lparr>t_event := of_nat (1 + t div ticksPerUs)\<rparr>) else tmrs s' a = Some b"
    if "a \<in> set ?as" "tmrs s a = Some b" "a \<in> set ds \<longleftrightarrow> due time b" for a b
  proof -
    have "if a \<in> set ds then \<exists>b t. tmrs s a = Some b \<and> now s1 < t \<and> t < now s' \<and> tmrs s' a = Some (b\<lparr>t_event := of_nat (micros t)\<rparr>)
      else tmrs s' a = tmrs s a" using s'(5) unfolding app_calls.restarted_def by (rule spec)
    then show ?thesis using that s1(4) by (auto simp: micros_def intro: less_trans split: if_splits)
  qed
  have "\<forall>(a, b) \<in> {(link_led_off, bl), (tcp_timer, bt)}. if due time b
      then \<exists>t. n < t \<and> t < now s' \<and> tmrs s' a = Some (b\<lparr>t_event := of_nat (1 + t div ticksPerUs)\<rparr>) else tmrs s' a = Some b"
    using sts [of link_led_off bl] sts [of tcp_timer bt] assms(3,4) ne by (simp add: ds)
  moreover have "n < now s'" using s1(4) s'(3) by simp
  moreover have "time = of_nat (1 + n div ticksPerUs)" by (simp add: time_def micros_def)
  ultimately show ?thesis using st s'(2) c(2) s1(3) am by (intro exI [of _ s'] exI [of _ n]) (auto simp: Let_def u_def v_def set_led_def)
qed

section \<open>Frames to the host\<close>

definition set_frame :: "bytes \<Rightarrow> ('n, 'a) app_scheme \<Rightarrow> ('n, 'a) app_scheme" where
  "set_frame f s = s\<lparr>usb := (usb s)\<lparr>mem := (mem (usb s))(R_frame := f)\<rparr>\<rparr>"

lemma set_frame_sels [simp]:
  "bufs (set_frame f s) = bufs s" "mem (usb (set_frame f s)) = (mem (usb s))(R_frame := f)" "set_frame f (set_frame g s) = set_frame f s"
  "cls (usb (set_frame f s)) = cls (usb s)" "in_ep (usb (set_frame f s)) = in_ep (usb s)" "usb_ok (usb (set_frame f s)) = usb_ok (usb s)"
  "rndis_can_send (usb (set_frame f s)) = rndis_can_send (usb s)" "outputs (set_frame f s) = outputs s"
  by (simp_all add: set_frame_def rndis_can_send_def)

lemma copy_frame_spec:
  assumes "pchain (bufs s) q as" "length as \<le> fuel" "length (mem (usb s) R_frame) = 1518" "sz \<le> 1514"
  shows "\<exists>f. length f = 1518 \<and> (let n = sz + length (chain_data (bufs s) as) in
     copy_frame fuel q sz s = Some (if n \<le> 1514 then Some n else None, set_frame f s)
     \<and> (n \<le> 1514 \<longrightarrow> take n f = take sz (mem (usb s) R_frame) @ chain_data (bufs s) as))"
  using assms
proof (induction as arbitrary: q sz s fuel)
  case Nil
  have "set_frame (mem (usb s) R_frame) s = s" by (simp add: set_frame_def)
  then show ?case using Nil by (intro exI [of _ "mem (usb s) R_frame"]) simp
next
  case (Cons a as)
  from Cons.prems(1) obtain b where b: "q = Some a" "heap (bufs s) a = Some b" "in_block (bufs s) a b" "pchain (bufs s) (p_next b) as"
    by (auto split: option.splits)
  from Cons.prems(2) obtain k where k: "fuel = Suc k" "length as \<le> k" by (cases fuel) auto
  define l where "l = unat (p_len b)"
  define F where "F = mem (usb s) R_frame"
  have l: "length (buf_data (bufs s) a) = l" using b by (simp add: buf_data_def in_block_def l_def)
  show ?case
  proof (cases "sz + l > 1514")
    case True
    have "set_frame F s = s" by (simp add: set_frame_def F_def)
    moreover have "copy_frame fuel q sz s = Some (None, s)" using True b k by (simp add: l_def RNDIS_MTU_def)
    ultimately show ?thesis using True l Cons.prems(3) by (intro exI [of _ F]) (auto simp: Let_def F_def)
  next
    case False
    have rd: "payload_read a 0 (unat (p_len b)) (bufs s) = Some (buf_data (bufs s) a)"
      using b by (simp add: payload_read_def buf_data_def in_block_def rd_at_Some)
    define G where "G = take sz F @ buf_data (bufs s) a @ drop (sz + l) F"
    have lF: "length F = 1518" using Cons.prems(3) by (simp add: F_def)
    have lG: "length G = 1518" using lF False l by (simp add: G_def)
    have stt: "store_at (Some (R_frame, sz)) (buf_data (bufs s) a) (usb s) = Some ((usb s)\<lparr>mem := (mem (usb s))(R_frame := G)\<rparr>)"
      using False lF l by (subst store_at_Some) (simp_all add: G_def F_def l)
    have tG: "take (sz + l) G = take sz F @ buf_data (bufs s) a" using lF False l by (simp add: G_def)
    have st: "copy_frame fuel q sz s = copy_frame k (p_next b) (sz + l) (set_frame G s)"
      using b k rd stt False by (simp add: l_def set_frame_def RNDIS_MTU_def)
    have "sz + l \<le> 1514" "pchain (bufs (set_frame G s)) (p_next b) as" "length (mem (usb (set_frame G s)) R_frame) = 1518"
      using False b lG by simp_all
    from Cons.IH [OF this(2) k(2) this(3,1)] show ?thesis unfolding st
      by (simp add: tG l Let_def add.assoc F_def)
  qed
qed

lemma linkoutput_ready:
  assumes "rndis_can_send (usb s)"
  shows "linkoutput_fn irq p s = do {
     (n, s) \<leftarrow> copy_frame chain_fuel (Some p) 0 s;
     case n of None \<Rightarrow> Some (ERR_ARG, s)
     | Some sz \<Rightarrow>
         if \<not> rndis_can_send (usb s) then Some (ERR_USE, s)
         else do {
           (ok, u) \<leftarrow> rndis_send (Some (R_frame, 0)) (int sz) (usb s);
           Some (ERR_OK, s\<lparr>usb := u, outputs := outputs s + 1\<rparr>) } }"
proof -
  have "wait_can_send irq 200 s = Some s" using assms by (simp add: eval_nat_numeral)
  then show ?thesis by (simp add: linkoutput_fn_def)
qed

definition out_ok :: "('n, 'a) app_scheme \<Rightarrow> bool" where
  "out_ok s \<longleftrightarrow> usb_ok (usb s) \<and> rndis_can_send (usb s) \<and> length (mem (usb s) R_first) = 64 \<and> length (mem (usb s) R_frame) = 1518
     \<and> take 1 (mem (usb s) R_pad) = [0]"

lemma linkoutput_sends:
  assumes "pchain (bufs s) (Some p) as" "length as \<le> chain_fuel" "out_ok s" "chain_data (bufs s) as = d" "d \<noteq> []" "length d \<le> 1514"
  shows "\<exists>s' ds u. linkoutput_fn irq p s = Some (ERR_OK, s') \<and> bufs s' = bufs s \<and> outputs s' = outputs s + 1
     \<and> completions 3 (usb s') = Some (ds, u) \<and> concat ds = rndis_message d \<and> rndis_can_send u
     \<and> (\<forall>x \<in> set (butlast ds). length x mod 64 = 0) \<and> length (last ds) mod 64 \<noteq> 0"
proof -
  have ok: "usb_ok (usb s)" "rndis_can_send (usb s)" "length (mem (usb s) R_first) = 64" "length (mem (usb s) R_frame) = 1518"
    "take 1 (mem (usb s) R_pad) = [0]" using assms(3) by (simp_all add: out_ok_def)
  from copy_frame_spec [OF assms(1,2) ok(4), of 0] obtain f where
    f: "length f = 1518" "copy_frame chain_fuel (Some p) 0 s = Some (Some (length d), set_frame f s)" "take (length d) f = d"
    using assms(4,6) by (auto simp: Let_def)
  let ?u = "usb (set_frame f s)"
  have "load_at (Some (R_frame, 0)) (length d) ?u = Some d"
    using f(1,3) assms(6) by (subst load_at_Some) simp_all
  then obtain s1 ds s2 where s: "rndis_send (Some (R_frame, 0)) (int (length d)) ?u = Some (True, s1)"
      "completions 3 s1 = Some (ds, s2)" "concat ds = rndis_message d" "rndis_can_send s2"
      "\<forall>x \<in> set (butlast ds). length x mod 64 = 0" "length (last ds) mod 64 \<noteq> 0"
    using rndis_send_message [of ?u "Some (R_frame, 0)" R_frame 0 "length d" d] ok assms(5,6)
    by (auto simp: ETH_MAX_PACKET_SIZE_def ETH_HEADER_SIZE_def RNDIS_MTU_def RNDIS_DATA_IN_SZ_def)
  then show ?thesis using f(2) ok(2) by (simp add: linkoutput_ready)
qed

lemma linkoutput_too_long:
  assumes "pchain (bufs s) (Some p) as" "length as \<le> chain_fuel" "out_ok s" "length (chain_data (bufs s) as) > 1514"
  shows "\<exists>f. length f = 1518 \<and> linkoutput_fn irq p s = Some (ERR_ARG, set_frame f s)"
proof -
  have ok: "rndis_can_send (usb s)" "length (mem (usb s) R_frame) = 1518" using assms(3) by (simp_all add: out_ok_def)
  from copy_frame_spec [OF assms(1,2) ok(2), of 0] obtain f where
    f: "length f = 1518" "copy_frame chain_fuel (Some p) 0 s = Some (None, set_frame f s)" using assms(4) by (auto simp: Let_def)
  then show ?thesis using ok(1) by (auto simp: linkoutput_ready)
qed

section \<open>Frames from the host\<close>

lemma u16_int: "0 \<le> n \<Longrightarrow> n < 65536 \<Longrightarrow> unat (word_of_int n :: u16) = nat n"
  by (simp add: unsigned_of_int take_bit_int_eq_self)

lemma received_pbuf:
  assumes "pool_ok slots m" "pool m = p # ps" "0 < n" "n \<le> 1514" "length d = nat n"
  shows "\<exists>m1 m2 m3. pbuf_alloc PBUF_RAW (word_of_int n) PBUF_POOL m = Some (Some p, m1) \<and> payload_write p 0 d m1 = Some m2
     \<and> upd p (\<lambda>x. x\<lparr>p_len := word_of_int n\<rparr>) m2 = Some m3 \<and> owned m3 p [p] \<and> pool m3 = ps \<and> chain_data m3 [p] = d
     \<and> (\<forall>x. x \<noteq> p \<longrightarrow> heap m3 x = heap m x)"
proof -
  define b where "b = \<lparr>p_next = None, p_payload = 0, p_tot_len = word_of_int n, p_len = word_of_int n, p_type = PBUF_POOL, p_flags = 0, p_ref = 1\<rparr>"
  have un: "unat (word_of_int n :: u16) = nat n" using assms(3,4) by (intro u16_int) simp_all
  have on: "of_nat (nat n) = (word_of_int n :: u16)" using assms(3) by simp
  define m1 where "m1 = m\<lparr>pool := ps, heap := (heap m)(p \<mapsto> b)\<rparr>"
  have a: "pbuf_alloc PBUF_RAW (word_of_int n) PBUF_POOL m = Some (Some p, m1)"
    using assms(2,4) on by (simp add: pbuf_alloc_def memp_malloc_pool_def layer_offset_def LWIP_MEM_ALIGN_SIZE_def
        PBUF_POOL_BUFSIZE_ALIGNED_def un b_def m1_def Let_def)
  have l: "length (blk m p) = 1516" using assms(1,2) by (auto simp: pool_ok_def PBUF_POOL_BUFSIZE_ALIGNED_def)
  define m2 where "m2 = m1\<lparr>blk := (blk m)(p := d @ drop (length d) (blk m p))\<rparr>"
  have w: "payload_write p 0 d m1 = Some m2"
    using l assms(4,5) by (simp add: payload_write_def m1_def m2_def b_def wr_at_Some)
  have u: "upd p (\<lambda>x. x\<lparr>p_len := word_of_int n\<rparr>) m2 = Some m2" by (simp add: upd_def m2_def m1_def b_def)
  have bd: "buf_data m2 p = d" using assms(5) un by (simp add: buf_data_def m2_def m1_def b_def)
  have "owned m2 p [p]" using l un assms(4,5) bd
    by (simp add: owned_def exclusive_def ref_one_def not_custom_def) (simp add: m2_def m1_def b_def in_block_def)
  then show ?thesis using a w u bd by (intro exI [of _ m1] exI [of _ m2]) (auto simp: m2_def m1_def)
qed

lemma usb_polling_delivers:
  assumes "pool_ok slots (bufs s)" "pool (bufs s) = p # ps" "client (cls (usb s)) = b" "0 < recvSize b" "recvSize b \<le> 1514"
    "length (received b) = 1514"
  shows "\<exists>m. owned m p [p] \<and> pool m = ps \<and> chain_data m [p] = take (nat (recvSize b)) (received b)
     \<and> (\<forall>x. x \<noteq> p \<longrightarrow> heap m x = heap (bufs s) x)
     \<and> usb_polling ethernet_input s = do {
         s \<leftarrow> ethernet_input p (s\<lparr>bufs := m, usb := clear_recvSize (usb s)\<rparr>);
         (k, m) \<leftarrow> pbuf_free (Some p) (bufs s);
         stmr_run link_led_off (set_led LINK_LED True (s\<lparr>bufs := m\<rparr>)) }"
proof -
  define d where "d = take (nat (recvSize b)) (received b)"
  have d: "length d = nat (recvSize b)" using assms(4-6) by (simp add: d_def)
  from received_pbuf [OF assms(1,2,4,5) d] obtain m1 m2 m3 where
    m: "pbuf_alloc PBUF_RAW (word_of_int (recvSize b)) PBUF_POOL (bufs s) = Some (Some p, m1)" "payload_write p 0 d m1 = Some m2"
      "upd p (\<lambda>x. x\<lparr>p_len := word_of_int (recvSize b)\<rparr>) m2 = Some m3" "owned m3 p [p]" "pool m3 = ps" "chain_data m3 [p] = d"
      "\<forall>x. x \<noteq> p \<longrightarrow> heap m3 x = heap (bufs s) x" by blast
  have "rd_at (received b) 0 (nat (recvSize b)) = Some d" using assms(4-6) by (simp add: rd_at_Some d_def)
  then show ?thesis using m assms(3,4) by (intro exI [of _ m3]) (simp add: usb_polling_def Let_def d_def [symmetric])
qed

text \<open>With \<open>on_packet\<close> as the receive callback, a message of at most 1514 bytes of data ends up in the inbox.\<close>

lemma on_packet_takes:
  assumes "length (received b) = 1514" "length d \<le> 1514"
  shows "on_packet (d @ x) (int (length d)) b = Some (b\<lparr>received := d @ drop (length d) (received b), recvSize := int (length d)\<rparr>)"
  using assms by (simp add: on_packet_def wr_at_Some)

lemma on_packet_overflows:
  assumes "length (received b) = 1514" "length d > 1514"
  shows "on_packet (d @ x) (int (length d)) b = None"
  using assms by (simp add: on_packet_def wr_at_def)

section \<open>The inbox\<close>

text \<open>\<open>on_packet\<close> as what the frames do to the inbox.\<close>

definition deliver :: "bytes \<Rightarrow> inbox \<Rightarrow> inbox" where
  "deliver d b = b\<lparr>received := d @ drop (length d) (received b), recvSize := int (length d)\<rparr>"

lemma deliver_fold:
  assumes "length (received b) = 1514" "\<forall>d \<in> set ds. length d \<le> 1514" "ds \<noteq> []"
  shows "recvSize (fold deliver ds b) = int (length (last ds)) \<and> take (length (last ds)) (received (fold deliver ds b)) = last ds
     \<and> length (received (fold deliver ds b)) = 1514"
  using assms
proof (induction ds rule: rev_induct)
  case (snoc d ds)
  have "length (received (fold deliver ds b)) = 1514" using snoc by (cases "ds = []") auto
  moreover have "length d \<le> 1514" using snoc.prems by simp
  ultimately show ?case by (simp add: deliver_def [of d])
qed simp

section \<open>The device stays in its reachable states\<close>

lemma store_frame_reachable:
  assumes "reachable u" "store_at (Some (R_frame, off)) d u = Some v"
  shows "reachable v"
proof -
  from assms(2) obtain b where b: "wr_at (mem u R_frame) off d = Some b" "v = u\<lparr>mem := (mem u)(R_frame := b)\<rparr>"
    by (auto simp: store_at_def split: bind_splits)
  have "length (mem u R_frame) = region_size R_frame" using reachable_inv [OF assms(1)] by (simp add: dev_inv_def)
  then have "length b = region_size R_frame" using wr_at_length [OF b(1)] by simp
  then show ?thesis using b(2) reachable.frame [OF assms(1)] by simp
qed

lemma copy_frame_reachable:
  "copy_frame fuel q sz s = Some (n, s') \<Longrightarrow> reachable (usb s) \<Longrightarrow> reachable (usb s')"
proof (induction fuel q sz s rule: copy_frame.induct)
  case (3 fuel q sz s)
  then show ?case using store_frame_reachable by (fastforce split: bind_splits if_splits)
qed auto

lemma wait_reachable:
  assumes "\<And>u v. reachable u \<Longrightarrow> irq u = Some v \<Longrightarrow> reachable v"
  shows "wait_can_send irq k s = Some s' \<Longrightarrow> reachable (usb s) \<Longrightarrow> reachable (usb s')"
proof (induction k arbitrary: s)
  case (Suc k)
  show ?case
  proof (cases "rndis_can_send (usb s)")
    case False
    with Suc.prems(1) obtain t u where t: "usleep 1000 s = Some t" "irq (usb t) = Some u" "wait_can_send irq k (t\<lparr>usb := u\<rparr>) = Some s'"
      by (auto split: bind_splits)
    have "usb t = usb s" using usleep_more [OF t(1)] by (rule app_more)
    then have "reachable u" using Suc.prems(2) assms t(2) by simp
    then show ?thesis using Suc.IH [OF t(3)] by simp
  qed (use Suc.prems in simp)
qed simp

lemma clear_reachable: "reachable u \<Longrightarrow> reachable (clear_recvSize u)"
proof -
  assume "reachable u"
  then have "reachable (upd_cls (\<lambda>c. c\<lparr>client := (client (cls u))\<lparr>recvSize := 0\<rparr>\<rparr>) u)" by (rule reachable.taken)
  moreover have "clear_recvSize u = upd_cls (\<lambda>c. c\<lparr>client := (client (cls u))\<lparr>recvSize := 0\<rparr>\<rparr>) u"
    by (simp add: clear_recvSize_def upd_cls_def)
  ultimately show ?thesis by simp
qed

lemma linkoutput_reachable:
  assumes "\<And>u v. reachable u \<Longrightarrow> irq u = Some v \<Longrightarrow> reachable v" "linkoutput_fn irq p s = Some (e, s')" "reachable (usb s)"
  shows "reachable (usb s')"
proof -
  from assms(2) obtain t n u where t: "wait_can_send irq 200 s = Some t" "copy_frame chain_fuel (Some p) 0 t = Some (n, u)"
    "(case n of None \<Rightarrow> Some (ERR_ARG, u)
     | Some sz \<Rightarrow> if \<not> rndis_can_send (usb u) then Some (ERR_USE, u) else do {
           (ok, v) \<leftarrow> rndis_send (Some (R_frame, 0)) (int sz) (usb u);
           Some (ERR_OK, u\<lparr>usb := v, outputs := outputs u + 1\<rparr>) }) = Some (e, s')"
    unfolding linkoutput_fn_def by (auto split: bind_splits)
  have "reachable (usb t)" by (rule wait_reachable [OF _ t(1) assms(3)]) (rule assms(1))
  then have "reachable (usb u)" by (rule copy_frame_reachable [OF t(2)])
  then show ?thesis using t(3) reachable.send by (auto split: option.splits if_splits bind_splits)
qed

lemma polling_reachable:
  assumes "\<And>p t u. reachable (usb t) \<Longrightarrow> ethernet_input p t = Some u \<Longrightarrow> reachable (usb u)" "usb_polling ethernet_input s = Some s'" "reachable (usb s)"
  shows "reachable (usb s')"
proof (cases "recvSize (client (cls (usb s))) = 0")
  case False
  then obtain frame m where a: "pbuf_alloc PBUF_RAW (word_of_int (recvSize (client (cls (usb s))))) PBUF_POOL (bufs s) = Some (frame, m)"
    using assms(2) by (auto simp: usb_polling_def Let_def split: bind_splits)
  show ?thesis
  proof (cases frame)
    case None
    then show ?thesis using assms(2,3) False a by (auto simp: usb_polling_def Let_def)
  next
    case (Some p)
    then obtain m1 t k m2 where t: "ethernet_input p (s\<lparr>bufs := m1, usb := clear_recvSize (usb s)\<rparr>) = Some t"
      "stmr_run link_led_off (set_led LINK_LED True (t\<lparr>bufs := m2\<rparr>)) = Some s'"
      using assms(2) False a by (auto simp: usb_polling_def Let_def split: bind_splits)
    have "reachable (usb t)" using assms(1) [OF _ t(1)] clear_reachable [OF assms(3)] by simp
    then show ?thesis using app_more(3) [OF stmr_run_more [OF t(2)]] by (simp add: set_led_def)
  qed
qed (use assms in \<open>simp add: usb_polling_def\<close>)

section \<open>Properties\<close>

definition inbox0 :: inbox where
  "inbox0 = \<lparr>received = replicate 1514 0, recvSize = 0\<rparr>"

text \<open>
  An example: the board after a minute, the device idle, the two timers linked, and in the
  inbox the frame \<open>d\<close>.
\<close>

definition app_at :: "bytes \<Rightarrow> nat app" where
  "app_at d = \<lparr>tmrs = [link_led_off \<mapsto> (TIMER_PROC link_led_off 50000 1)\<lparr>t_next := Some tcp_timer\<rparr>, tcp_timer \<mapsto> TIMER_PROC tcp_timer 250000 1],
     stmrs = Some link_led_off, now = 144 * 60000, ctrl_read = 0, accesses = 0, pace = \<lambda>k. 0,
     usb = idle_dev (deliver d inbox0), bufs = memp_init zeroed, lwip = 0, lit = \<lambda>_. True, led_g = False, led_o = False, led_r = False, outputs = 0\<rparr>"

text \<open>
  One round of the timers. Each of the two timers of the application runs exactly when it is
  active and its period has passed at the moment \<open>n\<close> the clock is read, once; the link timer puts
  the led out, the TCP timer runs the stack's timer function; a timer that ran starts its next
  period when it ran, the other is left alone.
\<close>

theorem app_timers_run:
  assumes "tlist s [link_led_off, tcp_timer]" "paced s" "tmrs s link_led_off = Some bl" "tmrs s tcp_timer = Some bt"
    "t_proc bl = Some link_led_off" "t_proc bt = Some tcp_timer"
  shows "\<exists>s' n. stmr (timer_proc tcp_tmr) s = Some s' \<and> stmrs s' = stmrs s \<and> now s < n \<and> n < now s' \<and>
     (let time = of_nat (1 + n div ticksPerUs) in
       lit s' = (if due time bl then (lit s)(LINK_LED := False) else lit s) \<and>
       lwip s' = (if due time bt then tcp_tmr (lwip s) else lwip s) \<and> usb s' = usb s \<and> bufs s' = bufs s \<and>
       (\<forall>(a, b) \<in> {(link_led_off, bl), (tcp_timer, bt)}. if due time b
          then \<exists>t. n < t \<and> t < now s' \<and> tmrs s' a = Some (b\<lparr>t_event := of_nat (1 + t div ticksPerUs)\<rparr>) else tmrs s' a = Some b))"
  by (rule app_stmr [OF assms])

theorem app_timers_run_witness:
  "\<exists>s'. stmr (timer_proc Suc) (app_at []) = Some s' \<and> stmrs s' = Some link_led_off \<and> 144 * 60000 < now s'"
proof -
  have ne: "link_led_off \<noteq> tcp_timer" by (simp add: link_led_off_def tcp_timer_def)
  let ?bl = "(TIMER_PROC link_led_off 50000 1)\<lparr>t_next := Some tcp_timer\<rparr>" and ?bt = "TIMER_PROC tcp_timer 250000 1"
  have a: "tlist (app_at []) [link_led_off, tcp_timer]" "paced (app_at [])" "tmrs (app_at []) link_led_off = Some ?bl"
    "tmrs (app_at []) tcp_timer = Some ?bt" "t_proc ?bl = Some link_led_off" "t_proc ?bt = Some tcp_timer"
    using ne by (simp_all add: tlist_def app_at_def paced_def max_pace_def TIMER_PROC_def)
  have "stmrs (app_at []) = Some link_led_off" "now (app_at []) = 144 * 60000" by (simp_all add: app_at_def)
  then show ?thesis using app_timers_run [OF a, of Suc] by (metis less_trans)
qed

text \<open>
  C39: Frames from the host. Any number of RNDIS messages, cut into packets of 64 bytes, that carry
  frames of at most 1514 bytes is taken in: the counter of good frames goes up by their number and
  the inbox holds exactly the last frame (the application polls for it; an earlier one that was
  not polled is overwritten).
\<close>

theorem frames_reach_inbox:
  assumes "list_all2 carries ms ds" "ds \<noteq> []" "\<forall>d \<in> set ds. length d \<le> 1514" "rx_idle u" "rndis_received (cls u) = 0"
    "rndis_rxproc (cls u) = Some on_packet" "length (received (client (cls u))) = 1514"
  shows "\<exists>v. receive (concat (map packets ms)) u = Some v \<and> rxok (cls v) = rxok (cls u) + of_nat (length ds) \<and> rxbad (cls v) = rxbad (cls u)
     \<and> recvSize (client (cls v)) = int (length (last ds)) \<and> take (length (last ds)) (received (client (cls v))) = last ds"
proof -
  have "\<exists>s'. receive (concat (map packets ms)) u = Some s' \<and> rx_idle s' \<and> rndis_received (cls s') = 0
     \<and> client (cls s') = fold deliver ds (client (cls u)) \<and> rxok (cls s') = rxok (cls u) + of_nat (length ds) \<and> rxbad (cls s') = rxbad (cls u)"
    by (rule receive_many [where P = "\<lambda>b. length (received b) = 1514" and f = on_packet])
      (use assms on_packet_takes in \<open>auto simp: deliver_def\<close>)
  then show ?thesis using deliver_fold [OF assms(7,3,2)] by auto
qed

definition small_message :: bytes where
  "small_message = rndis_header 46 2 @ [1, 2]"

theorem frames_reach_inbox_witness:
  "\<exists>v. receive [small_message, small_message] (upd_cls (\<lambda>c. c\<lparr>rndis_rxproc := Some on_packet\<rparr>) (idle_dev inbox0)) = Some v
     \<and> rxok (cls v) = 2 \<and> take 2 (received (client (cls v))) = [1, 2]"
proof -
  let ?u = "upd_cls (\<lambda>c. c\<lparr>rndis_rxproc := Some on_packet\<rparr>) (idle_dev inbox0)"
  have m: "length small_message = 46" by (simp add: small_message_def rndis_header_length RNDIS_HDR_def)
  have "carries small_message [1, 2]"
    by (simp add: carries_def Let_def m RNDIS_HDR_def RNDIS_RX_BUFFER_SIZE_def ETH_MAX_PACKET_SIZE_def ETH_HEADER_SIZE_def RNDIS_MTU_def)
      (simp add: small_message_def rndis_header_def RNDIS_HDR_def)
  then have c: "list_all2 carries [small_message, small_message] [[1, 2], [1, 2]]" "[[1, 2], [1, 2 :: u8]] \<noteq> []" "\<forall>d \<in> set [[1, 2], [1, 2 :: u8]]. length d \<le> 1514"
    by simp_all
  have u: "rx_idle ?u" "rndis_received (cls ?u) = 0" "rndis_rxproc (cls ?u) = Some on_packet" "length (received (client (cls ?u))) = 1514"
    by (simp_all add: rx_idle_def idle_rndis_def inbox0_def region_size_def RNDIS_DATA_OUT_SZ_def RNDIS_RX_BUFFER_SIZE_def
      ETH_MAX_PACKET_SIZE_def ETH_HEADER_SIZE_def RNDIS_MTU_def RNDIS_HDR_def)
  have p: "concat (map packets [small_message, small_message]) = [small_message, small_message]"
    by (simp add: packets.simps m)
  have "rxok (cls ?u) = 0" by (simp add: idle_rndis_def)
  then show ?thesis using frames_reach_inbox [OF c u] unfolding p by (auto simp: numeral_2_eq_2)
qed

text \<open>
  A frame longer than 1514 bytes overruns the inbox. The driver accepts messages whose data
  begins before the end of the header, up to 1550 bytes, and \<open>on_packet\<close> copies them without a
  bound into an array of 1514.
\<close>

theorem long_frame_overruns_inbox:
  assumes "carries m d" "length d > 1514" "take (length m) (mem u R_rndis_rx) = m" "rndis_rxproc (cls u) = Some on_packet"
    "length (received (client (cls u))) = 1514"
  shows "handle_packet (int (length m)) u = None"
  using handle_packet_carries [OF assms(1,3,4)] on_packet_overflows [OF assms(5,2)] by auto

definition long_message :: bytes where
  "long_message = le32 REMOTE_NDIS_PACKET_MSG @ le32 1558 @ le32 0 @ le32 1550 @ replicate 1542 0"

theorem long_frame_overruns_inbox_witness:
  "handle_packet 1558 (hooked_dev on_packet long_message inbox0) = None"
proof -
  let ?u = "hooked_dev on_packet long_message inbox0" and ?d = "drop 8 long_message"
  have m: "length long_message = 1558" by (simp add: long_message_def)
  have "carries long_message ?d"
    by (simp add: carries_def Let_def m RNDIS_HDR_def RNDIS_RX_BUFFER_SIZE_def ETH_MAX_PACKET_SIZE_def ETH_HEADER_SIZE_def RNDIS_MTU_def)
      (simp add: long_message_def)
  moreover have "length ?d > 1514" "take (length long_message) (mem ?u R_rndis_rx) = long_message" "rndis_rxproc (cls ?u) = Some on_packet"
    "length (received (client (cls ?u))) = 1514" by (simp_all add: m hooked_dev_def idle_rndis_def inbox0_def)
  ultimately have "handle_packet (int (length long_message)) ?u = None" by (rule long_frame_overruns_inbox)
  then show ?thesis by (simp add: m)
qed


text \<open>
  A received frame is handed to the stack. With a free buffer in the pool \<open>usb_polling\<close> passes
  \<open>ethernet_input\<close> one buffer it owns alone that holds exactly the received bytes, with the inbox
  empty again; then it frees the buffer, lights the led and starts the led's timer.
\<close>

theorem usb_polling_hands_over:
  assumes "pool_ok slots (bufs s)" "pool (bufs s) = p # ps" "0 < recvSize (client (cls (usb s)))" "recvSize (client (cls (usb s))) \<le> 1514"
    "length (received (client (cls (usb s)))) = 1514"
  shows "\<exists>m. owned m p [p] \<and> pool m = ps \<and> (\<forall>x. x \<noteq> p \<longrightarrow> heap m x = heap (bufs s) x)
     \<and> chain_data m [p] = take (nat (recvSize (client (cls (usb s))))) (received (client (cls (usb s))))
     \<and> usb_polling ethernet_input s = do {
         s \<leftarrow> ethernet_input p (s\<lparr>bufs := m, usb := clear_recvSize (usb s)\<rparr>);
         (k, m) \<leftarrow> pbuf_free (Some p) (bufs s);
         stmr_run link_led_off (set_led LINK_LED True (s\<lparr>bufs := m\<rparr>)) }"
  using usb_polling_delivers [OF assms(1,2) refl assms(3-5)] by blast

theorem usb_polling_hands_over_witness:
  "\<exists>m. chain_data m [15] = [1, 2, 3]
     \<and> usb_polling (\<lambda>p t. Some t) (app_at [1, 2, 3]) = do {
         (k, m) \<leftarrow> pbuf_free (Some 15) m;
         stmr_run link_led_off (set_led LINK_LED True ((app_at [1, 2, 3])\<lparr>usb := clear_recvSize (usb (app_at [1, 2, 3])), bufs := m\<rparr>)) }"
proof -
  let ?s = "app_at [1, 2, 3]"
  have s: "pool_ok {0..<16} (bufs ?s)" "pool (bufs ?s) = 15 # rev [0..<15]" "0 < recvSize (client (cls (usb ?s)))"
    "recvSize (client (cls (usb ?s))) \<le> 1514" "length (received (client (cls (usb ?s)))) = 1514"
    using pool_ok_init by (simp_all add: app_at_def memp_init_def PBUF_POOL_SIZE_def idle_rndis_def deliver_def inbox0_def upt_rec)
  have r: "take (nat (recvSize (client (cls (usb ?s))))) (received (client (cls (usb ?s)))) = [1, 2, 3]"
    by (simp add: app_at_def idle_rndis_def deliver_def inbox0_def)
  obtain m where m: "chain_data m [15] = [1, 2, 3]" "usb_polling (\<lambda>p t. Some t) ?s = do {
         s \<leftarrow> Some (?s\<lparr>bufs := m, usb := clear_recvSize (usb ?s)\<rparr>);
         (k, m) \<leftarrow> pbuf_free (Some 15) (bufs s);
         stmr_run link_led_off (set_led LINK_LED True (s\<lparr>bufs := m\<rparr>)) }"
    using usb_polling_hands_over [OF s, of "\<lambda>p t. Some t"] unfolding r by (elim exE conjE) (rule that)
  then show ?thesis by (intro exI [of _ m]) simp
qed

text \<open>
  C40: Output. \<open>linkoutput_fn\<close> on a ready device sends the packet in the chain of buffers, however it
  is split: the transfers that follow carry exactly the RNDIS message of the chain's data, and the
  chain is left as it was.
\<close>

theorem linkoutput_sends_packet:
  assumes "pchain (bufs s) (Some p) as" "length as \<le> chain_fuel" "out_ok s" "chain_data (bufs s) as = d" "d \<noteq> []" "length d \<le> 1514"
  shows "\<exists>s' ds u. linkoutput_fn irq p s = Some (ERR_OK, s') \<and> bufs s' = bufs s \<and> outputs s' = outputs s + 1
     \<and> completions 3 (usb s') = Some (ds, u) \<and> concat ds = rndis_message d \<and> rndis_can_send u
     \<and> (\<forall>x \<in> set (butlast ds). length x mod 64 = 0) \<and> length (last ds) mod 64 \<noteq> 0"
  by (rule linkoutput_sends [OF assms])

text \<open>Two buffers that hold \<open>k\<close> and \<open>n\<close> bytes.\<close>

definition split_packet :: "nat \<Rightarrow> nat \<Rightarrow> nat app" where
  "split_packet k n = (app_at [])\<lparr>bufs := (memp_init zeroed)\<lparr>heap :=
     [0 \<mapsto> \<lparr>p_next = Some 1, p_payload = 0, p_tot_len = of_nat (k + n), p_len = of_nat k, p_type = PBUF_POOL, p_flags = 0, p_ref = 1\<rparr>,
      1 \<mapsto> \<lparr>p_next = None, p_payload = 0, p_tot_len = of_nat n, p_len = of_nat n, p_type = PBUF_POOL, p_flags = 0, p_ref = 1\<rparr>]\<rparr>\<rparr>"

lemma split_packet_ok:
  assumes "k \<le> 1516" "n \<le> 1516"
  shows "pchain (bufs (split_packet k n)) (Some 0) [0, 1]" "length [0 :: nat, 1] \<le> chain_fuel" "out_ok (split_packet k n)"
    "chain_data (bufs (split_packet k n)) [0, 1] = replicate (k + n) 0"
proof -
  have u: "unat (of_nat k :: u16) = k" "unat (of_nat n :: u16) = n" using assms by (simp_all add: unsigned_of_nat take_bit_nat_eq_self)
  show "pchain (bufs (split_packet k n)) (Some 0) [0, 1]" "length [0 :: nat, 1] \<le> chain_fuel"
    using assms u by (simp_all add: split_packet_def in_block_def chain_fuel_def) (simp_all add: memp_init_def zeroed_def PBUF_POOL_BUFSIZE_ALIGNED_def)
  show "out_ok (split_packet k n)"
    by (simp add: out_ok_def split_packet_def app_at_def rndis_can_send_def idle_rndis_def region_size_def)
  show "chain_data (bufs (split_packet k n)) [0, 1] = replicate (k + n) 0"
    using assms u by (simp add: split_packet_def buf_data_def memp_init_def zeroed_def PBUF_POOL_BUFSIZE_ALIGNED_def min_def replicate_add)
qed

theorem linkoutput_sends_packet_witness:
  "\<exists>s' ds u. linkoutput_fn Some 0 (split_packet 14 46) = Some (ERR_OK, s') \<and> completions 3 (usb s') = Some (ds, u)
     \<and> concat ds = rndis_message (replicate 60 0)"
proof -
  have "(14 :: nat) \<le> 1516" "(46 :: nat) \<le> 1516" by simp_all
  note s = split_packet_ok [OF this]
  have d: "replicate (14 + 46) (0 :: u8) \<noteq> []" "length (replicate (14 + 46) (0 :: u8)) \<le> 1514" by simp_all
  from linkoutput_sends_packet [OF s d, of Some] show ?thesis by auto
qed

text \<open>
  Output of a packet of more than 1514 bytes is refused with ERR_ARG on every such chain, before
  anything is sent: of the device only the contents of the frame buffer change.
\<close>

theorem linkoutput_refuses_long_packet:
  assumes "pchain (bufs s) (Some p) as" "length as \<le> chain_fuel" "out_ok s" "length (chain_data (bufs s) as) > 1514"
  shows "\<exists>f. length f = 1518 \<and> linkoutput_fn irq p s = Some (ERR_ARG, s\<lparr>usb := (usb s)\<lparr>mem := (mem (usb s))(R_frame := f)\<rparr>\<rparr>)"
  using linkoutput_too_long [OF assms] by (simp add: set_frame_def)

theorem linkoutput_refuses_long_packet_witness:
  "\<exists>s'. linkoutput_fn Some 0 (split_packet 1500 15) = Some (ERR_ARG, s') \<and> in_ep (usb s') = in_ep (usb (split_packet 1500 15))"
proof -
  have "(1500 :: nat) \<le> 1516" "(15 :: nat) \<le> 1516" by simp_all
  note s = split_packet_ok [OF this]
  have d: "length (chain_data (bufs (split_packet 1500 15)) [0, 1]) > 1514" unfolding s(4) by simp
  from linkoutput_refuses_long_packet [OF s(1-3) d, of Some] show ?thesis by auto
qed

text \<open>
  The application keeps the device in its reachable states, whatever the interrupts do while it
  waits and whatever the stack does with a frame, as long as these do.
\<close>

theorem application_keeps_device:
  assumes "\<And>u v. reachable u \<Longrightarrow> irq u = Some v \<Longrightarrow> reachable v"
    "\<And>p t u. reachable (usb t) \<Longrightarrow> ethernet_input p t = Some u \<Longrightarrow> reachable (usb u)" "reachable (usb s)"
  shows "(linkoutput_fn irq p s = Some (e, s1) \<longrightarrow> reachable (usb s1)) \<and> (usb_polling ethernet_input s = Some s2 \<longrightarrow> reachable (usb s2))"
  using linkoutput_reachable [of irq p s e s1] polling_reachable [of ethernet_input s s2] assms by blast

end
