(* ===== verification/Mem.thy ===== *)
theory Mem
  imports Prelude
begin

text \<open>
  The heap of lwIP, \<open>src/core/mem.c\<close>, in the configuration of \<open>lwipopts.h\<close> (\<open>MEM_SIZE\<close> 10000, alignment
  4, no pools, one thread): \<open>mem_init\<close>, \<open>mem_malloc\<close>, \<open>mem_free\<close> with \<open>plug_holes\<close>, \<open>mem_trim\<close> and
  \<open>mem_calloc\<close> over the bytes of the array \<open>ram_heap\<close>.

  A pointer is its offset from \<open>ram\<close>; the headers \<open>struct mem\<close> lie in the array between the blocks
  they describe, so that a block that overlapped a header or another block would show. Reading or
  writing outside the array is \<open>None\<close>. The assertions have no effect (see \<open>Pbuf\<close>), the statistics are
  left out.

  The heap represents a list of blocks, each with its size and whether it is used: \<open>heap_ok\<close>. The
  operations are refined to first fit, split and merge on that list.
\<close>

section \<open>The heap\<close>

record mem =
  m_next :: u16
  m_prev :: u16
  m_used :: u8

record mem_heap =
  ram :: bytes
  lfree :: nat

definition MEM_SIZE_ALIGNED :: nat where "MEM_SIZE_ALIGNED = 10000"
definition SIZEOF_STRUCT_MEM :: nat where "SIZEOF_STRUCT_MEM = 8"
definition MIN_SIZE_ALIGNED :: nat where "MIN_SIZE_ALIGNED = 12"

text \<open>\<open>ram_end\<close> as an offset; the array has room for two headers behind the heap.\<close>

abbreviation ram_end :: nat where "ram_end \<equiv> MEM_SIZE_ALIGNED"

definition ram_size :: nat where "ram_size = MEM_SIZE_ALIGNED + 2 * SIZEOF_STRUCT_MEM"

text \<open>\<open>LWIP_MEM_ALIGN_SIZE\<close>, assigned to a 16-bit variable.\<close>

definition mem_align :: "u16 \<Rightarrow> u16" where
  "mem_align n = (n + 3) AND NOT 3"

definition get_mem :: "nat \<Rightarrow> mem_heap \<Rightarrow> mem option" where
  "get_mem p h = do {
     n \<leftarrow> rd_at (ram h) p 2;
     v \<leftarrow> rd_at (ram h) (p + 2) 2;
     u \<leftarrow> byte_at (ram h) (p + 4);
     Some \<lparr>m_next = of_le16 n, m_prev = of_le16 v, m_used = u\<rparr> }"

definition put_ram :: "nat \<Rightarrow> bytes \<Rightarrow> mem_heap \<Rightarrow> mem_heap option" where
  "put_ram p d h = map_option (\<lambda>b. h\<lparr>ram := b\<rparr>) (wr_at (ram h) p d)"

definition set_next :: "nat \<Rightarrow> u16 \<Rightarrow> mem_heap \<Rightarrow> mem_heap option" where
  "set_next p v = put_ram p (le16 v)"

definition set_prev :: "nat \<Rightarrow> u16 \<Rightarrow> mem_heap \<Rightarrow> mem_heap option" where
  "set_prev p v = put_ram (p + 2) (le16 v)"

definition set_used :: "nat \<Rightarrow> u8 \<Rightarrow> mem_heap \<Rightarrow> mem_heap option" where
  "set_used p v = put_ram (p + 4) [v]"

definition mem_init :: "mem_heap \<Rightarrow> mem_heap option" where
  "mem_init h = do {
     h \<leftarrow> set_next 0 (of_nat MEM_SIZE_ALIGNED) h;
     h \<leftarrow> set_prev 0 0 h;
     h \<leftarrow> set_used 0 0 h;
     h \<leftarrow> set_used ram_end 1 h;
     h \<leftarrow> set_next ram_end (of_nat MEM_SIZE_ALIGNED) h;
     h \<leftarrow> set_prev ram_end (of_nat MEM_SIZE_ALIGNED) h;
     Some (h\<lparr>lfree := 0\<rparr>) }"

section \<open>Freeing\<close>

definition plug_holes :: "nat \<Rightarrow> mem_heap \<Rightarrow> mem_heap option" where
  "plug_holes p h = do {
     m \<leftarrow> get_mem p h;
     let nmem = unat (m_next m);
     n \<leftarrow> get_mem nmem h;
     h \<leftarrow> (if p \<noteq> nmem \<and> m_used n = 0 \<and> nmem \<noteq> ram_end then do {
              let h = (if lfree h = nmem then h\<lparr>lfree := p\<rparr> else h);
              h \<leftarrow> set_next p (m_next n) h;
              set_prev (unat (m_next n)) (of_nat p) h }
            else Some h);
     m \<leftarrow> get_mem p h;
     let pmem = unat (m_prev m);
     v \<leftarrow> get_mem pmem h;
     if pmem \<noteq> p \<and> m_used v = 0 then do {
       let h = (if lfree h = p then h\<lparr>lfree := pmem\<rparr> else h);
       h \<leftarrow> set_next pmem (m_next m) h;
       set_prev (unat (m_next m)) (of_nat pmem) h }
     else Some h }"

definition mem_free :: "nat option \<Rightarrow> mem_heap \<Rightarrow> mem_heap option" where
  "mem_free rmem h = (case rmem of None \<Rightarrow> Some h | Some r \<Rightarrow>
     if r \<ge> ram_end then Some h
     else if r < SIZEOF_STRUCT_MEM then None
     else (let p = r - SIZEOF_STRUCT_MEM in do {
       h \<leftarrow> set_used p 0 h;
       plug_holes p (if p < lfree h then h\<lparr>lfree := p\<rparr> else h) }))"

section \<open>Shrinking\<close>

definition mem_trim :: "nat \<Rightarrow> u16 \<Rightarrow> mem_heap \<Rightarrow> (nat option \<times> mem_heap) option" where
  "mem_trim r newsize h = (let newsize = max (unat (mem_align newsize)) MIN_SIZE_ALIGNED in
     if newsize > MEM_SIZE_ALIGNED then Some (None, h)
     else if r \<ge> ram_end then Some (Some r, h)
     else if r < SIZEOF_STRUCT_MEM then None
     else (let p = r - SIZEOF_STRUCT_MEM in do {
       m \<leftarrow> get_mem p h;
       let sz = unat (m_next m - of_nat p - of_nat SIZEOF_STRUCT_MEM :: u16);
       if newsize > sz then Some (None, h)
       else if newsize = sz then Some (Some r, h)
       else do {
         m2 \<leftarrow> get_mem (unat (m_next m)) h;
         let ptr2 = p + SIZEOF_STRUCT_MEM + newsize;
         if m_used m2 = 0 then do {
           let h = (if lfree h = unat (m_next m) then h\<lparr>lfree := ptr2\<rparr> else h);
           h \<leftarrow> set_used ptr2 0 h;
           h \<leftarrow> set_next ptr2 (m_next m2) h;
           h \<leftarrow> set_prev ptr2 (of_nat p) h;
           h \<leftarrow> set_next p (of_nat ptr2) h;
           h \<leftarrow> (if m_next m2 \<noteq> of_nat MEM_SIZE_ALIGNED then set_prev (unat (m_next m2)) (of_nat ptr2) h else Some h);
           Some (Some r, h) }
         else if newsize + SIZEOF_STRUCT_MEM + MIN_SIZE_ALIGNED \<le> sz then do {
           let h = (if ptr2 < lfree h then h\<lparr>lfree := ptr2\<rparr> else h);
           h \<leftarrow> set_used ptr2 0 h;
           h \<leftarrow> set_next ptr2 (m_next m) h;
           h \<leftarrow> set_prev ptr2 (of_nat p) h;
           h \<leftarrow> set_next p (of_nat ptr2) h;
           h \<leftarrow> (if m_next m \<noteq> of_nat MEM_SIZE_ALIGNED then set_prev (unat (m_next m)) (of_nat ptr2) h else Some h);
           Some (Some r, h) }
         else Some (Some r, h) } }))"

section \<open>Allocation\<close>

text \<open>The search for a block that is free and large enough, from \<open>ptr\<close> on.\<close>

partial_function (option) fit_loop :: "nat \<Rightarrow> nat \<Rightarrow> mem_heap \<Rightarrow> nat option option" where
  "fit_loop sz ptr h = (if ptr < MEM_SIZE_ALIGNED - sz then do {
     m \<leftarrow> get_mem ptr h;
     if m_used m = 0 \<and> int (unat (m_next m)) - int (ptr + SIZEOF_STRUCT_MEM) \<ge> int sz then Some (Some ptr)
     else fit_loop sz (unat (m_next m)) h }
   else Some None)"

text \<open>The found block is split when the rest has room for a header and a smallest block.\<close>

definition take_block :: "nat \<Rightarrow> nat \<Rightarrow> mem_heap \<Rightarrow> mem_heap option" where
  "take_block sz p h = do {
     m \<leftarrow> get_mem p h;
     if int (unat (m_next m)) - int (p + SIZEOF_STRUCT_MEM) \<ge> int (sz + SIZEOF_STRUCT_MEM + MIN_SIZE_ALIGNED) then do {
       let ptr2 = p + SIZEOF_STRUCT_MEM + sz;
       h \<leftarrow> set_used ptr2 0 h;
       h \<leftarrow> set_next ptr2 (m_next m) h;
       h \<leftarrow> set_prev ptr2 (of_nat p) h;
       h \<leftarrow> set_next p (of_nat ptr2) h;
       h \<leftarrow> set_used p 1 h;
       if m_next m \<noteq> of_nat MEM_SIZE_ALIGNED then set_prev (unat (m_next m)) (of_nat ptr2) h else Some h }
     else set_used p 1 h }"

partial_function (option) next_free :: "nat \<Rightarrow> mem_heap \<Rightarrow> nat option" where
  "next_free cur h = do {
     m \<leftarrow> get_mem cur h;
     if m_used m \<noteq> 0 \<and> cur \<noteq> ram_end then next_free (unat (m_next m)) h else Some cur }"

definition mem_malloc :: "u16 \<Rightarrow> mem_heap \<Rightarrow> (nat option \<times> mem_heap) option" where
  "mem_malloc sz h = (if sz = 0 then Some (None, h)
     else (let sz = max (unat (mem_align sz)) MIN_SIZE_ALIGNED in
       if sz > MEM_SIZE_ALIGNED then Some (None, h)
       else do {
         f \<leftarrow> fit_loop sz (lfree h) h;
         case f of None \<Rightarrow> Some (None, h)
         | Some p \<Rightarrow> do {
             h \<leftarrow> take_block sz p h;
             h \<leftarrow> (if p = lfree h then do { c \<leftarrow> next_free p h; Some (h\<lparr>lfree := c\<rparr>) } else Some h);
             Some (Some (p + SIZEOF_STRUCT_MEM), h) } }))"

definition mem_calloc :: "u16 \<Rightarrow> u16 \<Rightarrow> mem_heap \<Rightarrow> (nat option \<times> mem_heap) option" where
  "mem_calloc count sz h = do {
     (p, h) \<leftarrow> mem_malloc (count * sz) h;
     case p of None \<Rightarrow> Some (None, h)
     | Some r \<Rightarrow> do { h \<leftarrow> put_ram r (replicate (unat count * unat sz) 0) h; Some (Some r, h) } }"

section \<open>Headers\<close>

declare add_2_eq_Suc [simp del] add_2_eq_Suc' [simp del]

definition header :: "bytes \<Rightarrow> nat \<Rightarrow> mem" where
  "header b p = \<lparr>m_next = of_le16 (take 2 (drop p b)), m_prev = of_le16 (take 2 (drop (p + 2) b)), m_used = b ! (p + 4)\<rparr>"

definition edit :: "nat \<Rightarrow> mem \<Rightarrow> bytes \<Rightarrow> bytes" where
  "edit p m b = take p b @ (le16 (m_next m) @ le16 (m_prev m) @ [m_used m]) @ drop (p + 5) b"

lemma edit_length [simp]: "p + 8 \<le> length b \<Longrightarrow> length (edit p m b) = length b"
  by (simp add: edit_def)

lemma edit_nth: "p + 8 \<le> length b \<Longrightarrow> i < p \<or> p + 5 \<le> i \<Longrightarrow> edit p m b ! i = b ! i"
  by (auto simp: edit_def nth_append)

lemma header_edit:
  assumes "p + 8 \<le> length b" "q + 8 \<le> length b" "q = p \<or> q + 8 \<le> p \<or> p + 8 \<le> q"
  shows "header (edit p m b) q = (if q = p then m else header b q)"
proof (cases "q = p")
  case True
  have d: "drop p (edit p m b) = le16 (m_next m) @ le16 (m_prev m) @ m_used m # drop (p + 5) b"
    using assms(1) by (simp add: edit_def)
  have "drop (p + 2) (edit p m b) = drop 2 (drop p (edit p m b))" by (simp add: add.commute)
  also have "\<dots> = le16 (m_prev m) @ m_used m # drop (p + 5) b" unfolding d by simp
  finally have d2: "drop (p + 2) (edit p m b) = le16 (m_prev m) @ m_used m # drop (p + 5) b" .
  have "edit p m b ! (p + 4) = drop p (edit p m b) ! 4" using assms(1) by simp
  also have "\<dots> = m_used m" unfolding d by (simp add: nth_append)
  finally show ?thesis using True by (simp add: header_def d d2)
next
  case False
  then have i: "edit p m b ! i = b ! i" if "q \<le> i" "i < q + 5" for i
    using assms(3) that by (intro edit_nth [OF assms(1)]) auto
  have "take 2 (drop q (edit p m b)) = take 2 (drop q b)" "take 2 (drop (q + 2) (edit p m b)) = take 2 (drop (q + 2) b)"
    using assms(1,2) i by (auto intro!: nth_equalityI)
  with False i show ?thesis by (simp add: header_def)
qed

lemma edit_edit [simp]: "p + 8 \<le> length b \<Longrightarrow> edit p m (edit p m' b) = edit p m b"
  by (simp add: edit_def)

lemma mem_update_all [simp]: "m\<lparr>m_used := u, m_next := n, m_prev := v\<rparr> = \<lparr>m_next = n, m_prev = v, m_used = u\<rparr>" for m :: mem
  by simp

lemma get_mem_ok: "p + 8 \<le> length (ram h) \<Longrightarrow> get_mem p h = Some (header (ram h) p)"
  by (simp add: get_mem_def rd_at_def byte_at_def header_def add.commute)

lemma header_bytes:
  assumes "p + 8 \<le> length b"
  shows "take 2 (drop p b) = le16 (m_next (header b p))" "take 2 (drop (p + 2) b) = le16 (m_prev (header b p))"
    "b ! (p + 4) = m_used (header b p)"
  using assms by (simp_all add: header_def le16.enc_dec)

lemma set_field_ok:
  assumes "p + 8 \<le> length (ram h)"
  shows "set_next p v h = Some (h\<lparr>ram := edit p ((header (ram h) p)\<lparr>m_next := v\<rparr>) (ram h)\<rparr>)"
    "set_prev p v h = Some (h\<lparr>ram := edit p ((header (ram h) p)\<lparr>m_prev := v\<rparr>) (ram h)\<rparr>)"
    "set_used p u h = Some (h\<lparr>ram := edit p ((header (ram h) p)\<lparr>m_used := u\<rparr>) (ram h)\<rparr>)"
proof -
  let ?b = "ram h" and ?m = "header (ram h) p"
  note hb = header_bytes [OF assms]
  have b4: "drop (p + 4) ?b = m_used ?m # drop (p + 5) ?b"
    using assms hb(3) Cons_nth_drop_Suc [of "p + 4" ?b] by (simp add: add.commute)
  have b2: "drop (p + 2) ?b = le16 (m_prev ?m) @ drop (p + 4) ?b"
    using append_take_drop_id [of 2 "drop (p + 2) ?b"] hb(2) by (simp add: add.commute)
  have b0: "drop p ?b = le16 (m_next ?m) @ drop (p + 2) ?b"
    using append_take_drop_id [of 2 "drop p ?b"] hb(1) by (simp add: add.commute)
  have t2: "take (p + 2) ?b = take p ?b @ le16 (m_next ?m)" using hb(1) by (simp add: take_add)
  have "take (p + 4) ?b = take (p + 2) ?b @ take 2 (drop (p + 2) ?b)" using take_add [of "p + 2" 2 ?b] by (simp add: add.assoc)
  then have t4: "take (p + 4) ?b = take p ?b @ le16 (m_next ?m) @ le16 (m_prev ?m)" using hb(2) t2 by simp
  show "set_next p v h = Some (h\<lparr>ram := edit p (?m\<lparr>m_next := v\<rparr>) ?b\<rparr>)"
    using assms by (simp add: set_next_def put_ram_def wr_at_def edit_def b2 b4)
  show "set_prev p v h = Some (h\<lparr>ram := edit p (?m\<lparr>m_prev := v\<rparr>) ?b\<rparr>)"
    using assms by (simp add: set_prev_def put_ram_def wr_at_def edit_def t2 b4 [unfolded add.commute [of p]] b4 add.commute [of p 5])
  show "set_used p u h = Some (h\<lparr>ram := edit p (?m\<lparr>m_used := u\<rparr>) ?b\<rparr>)"
    using assms by (simp add: set_used_def put_ram_def wr_at_def edit_def t4 add.commute [of p 5])
qed

section \<open>The list of blocks\<close>

type_synonym blocks = "(nat \<times> bool) list"

definition span :: "blocks \<Rightarrow> nat" where
  "span bs = sum_list (map fst bs)"

lemma span_simps [simp]: "span [] = 0" "span (x # bs) = fst x + span bs" "span (as @ bs) = span as + span bs"
  by (simp_all add: span_def)

text \<open>The headers the list asks for; \<open>pv\<close> is the offset of the block before.\<close>

fun nodes :: "nat \<Rightarrow> nat \<Rightarrow> blocks \<Rightarrow> (nat \<times> mem) list" where
  "nodes pv o1 [] = []"
| "nodes pv o1 ((n, u) # bs) =
     (o1, \<lparr>m_next = of_nat (o1 + n), m_prev = of_nat pv, m_used = of_bool u\<rparr>) # nodes o1 (o1 + n) bs"

fun last_at :: "nat \<Rightarrow> nat \<Rightarrow> blocks \<Rightarrow> nat" where
  "last_at pv o1 [] = pv"
| "last_at pv o1 ((n, u) # bs) = last_at o1 (o1 + n) bs"

lemma nodes_append: "nodes pv o1 (as @ bs) = nodes pv o1 as @ nodes (last_at pv o1 as) (o1 + span as) bs"
  by (induction pv o1 as rule: nodes.induct) (simp_all add: add.assoc)

lemma last_at_append [simp]: "last_at pv o1 (as @ bs) = last_at (last_at pv o1 as) (o1 + span as) bs"
  by (induction pv o1 as rule: last_at.induct) (simp_all add: add.assoc)

definition sized :: "blocks \<Rightarrow> bool" where
  "sized bs \<longleftrightarrow> (\<forall>(n, u) \<in> set bs. 20 \<le> n \<and> 4 dvd n)"

lemma sized_simps [simp]:
  "sized []" "sized ((n, u) # bs) \<longleftrightarrow> 20 \<le> n \<and> 4 dvd n \<and> sized bs" "sized (as @ bs) \<longleftrightarrow> sized as \<and> sized bs"
  by (auto simp: sized_def)

lemma sized_span: "sized bs \<Longrightarrow> 4 dvd span bs"
  by (induction bs) auto

lemma nodes_range: "(p, m) \<in> set (nodes pv o1 bs) \<Longrightarrow> sized bs \<Longrightarrow> o1 \<le> p \<and> p + 20 \<le> o1 + span bs"
  by (induction pv o1 bs rule: nodes.induct) fastforce+

fun lowest :: "nat \<Rightarrow> blocks \<Rightarrow> nat" where
  "lowest o1 [] = o1"
| "lowest o1 ((n, u) # bs) = (if u then lowest (o1 + n) bs else o1)"

definition all_used :: "blocks \<Rightarrow> bool" where
  "all_used bs \<longleftrightarrow> (\<forall>x \<in> set bs. snd x)"

lemma all_used_simps [simp]:
  "all_used []" "all_used (x # bs) \<longleftrightarrow> snd x \<and> all_used bs" "all_used (as @ bs) \<longleftrightarrow> all_used as \<and> all_used bs"
  by (auto simp: all_used_def)

lemma lowest_append: "lowest o1 (as @ bs) = (if all_used as then lowest (o1 + span as) bs else lowest o1 as)"
  by (induction o1 as rule: lowest.induct) (simp_all add: add.assoc)

lemma lowest_bounds: "o1 \<le> lowest o1 bs \<and> lowest o1 bs \<le> o1 + span bs"
  by (induction o1 bs rule: lowest.induct) auto

lemma lowest_free: "\<not> all_used bs \<Longrightarrow> sized bs \<Longrightarrow> lowest o1 bs < o1 + span bs"
  by (induction o1 bs rule: lowest.induct) auto

definition coalesced :: "blocks \<Rightarrow> bool" where
  "coalesced bs \<longleftrightarrow> successively (\<lambda>x y. snd x \<or> snd y) bs"

lemma coalesced_Cons [simp]: "coalesced (x # bs) \<longleftrightarrow> coalesced bs \<and> (bs = [] \<or> snd x \<or> snd (hd bs))"
  by (cases bs) (auto simp: coalesced_def)

lemma coalesced_Nil [simp]: "coalesced []"
  by (simp add: coalesced_def)

lemma coalesced_append:
  "coalesced (as @ bs) \<longleftrightarrow> coalesced as \<and> coalesced bs \<and> (as = [] \<or> bs = [] \<or> snd (last as) \<or> snd (hd bs))"
  by (auto simp: coalesced_def successively_append_iff)

definition rep :: "bytes \<Rightarrow> blocks \<Rightarrow> bool" where
  "rep b bs \<longleftrightarrow> (\<forall>(p, m) \<in> set (nodes 0 0 bs). header b p = m) \<and> m_used (header b ram_end) \<noteq> 0"

definition heap_ok :: "mem_heap \<Rightarrow> blocks \<Rightarrow> bool" where
  "heap_ok h bs \<longleftrightarrow> length (ram h) = ram_size \<and> sized bs \<and> span bs = MEM_SIZE_ALIGNED \<and> coalesced bs \<and> rep (ram h) bs
     \<and> lfree h = lowest 0 bs"

text \<open>The header behind a prefix of the list.\<close>

lemma rep_at:
  assumes "rep b (as @ (n, u) # bs)"
  shows "header b (span as) = \<lparr>m_next = of_nat (span as + n), m_prev = of_nat (last_at 0 0 as), m_used = of_bool u\<rparr>"
  using assms by (auto simp: rep_def nodes_append)

text \<open>Replacing a part of the list.\<close>

lemma rep_replace:
  assumes "rep b (as @ ms @ bs)" "sized (as @ ms @ bs)" "span ms' = span ms" "span (as @ ms @ bs) = MEM_SIZE_ALIGNED"
    and out: "\<And>q. q + 8 \<le> ram_size \<Longrightarrow> q + 8 \<le> span as \<or> span as + span ms + 8 \<le> q \<Longrightarrow> header b' q = header b q"
    and here: "\<And>p m. (p, m) \<in> set (nodes (last_at 0 0 as) (span as) ms') \<Longrightarrow> header b' p = m"
    and nxt: "m_next (header b' (span as + span ms)) = m_next (header b (span as + span ms))"
      "m_used (header b' (span as + span ms)) = m_used (header b (span as + span ms))"
      "bs \<noteq> [] \<Longrightarrow> m_prev (header b' (span as + span ms)) = of_nat (last_at 0 0 (as @ ms'))"
  shows "rep b' (as @ ms' @ bs)"
proof -
  let ?e = "span as + span ms"
  have size: "ram_size = MEM_SIZE_ALIGNED + 16" by (simp add: ram_size_def SIZEOF_STRUCT_MEM_def)
  have old: "header b p = m" if "(p, m) \<in> set (nodes 0 0 (as @ ms @ bs))" for p m using assms(1) that by (auto simp: rep_def)
  have "header b' p = m" if "(p, m) \<in> set (nodes 0 0 as)" for p m
    using nodes_range [OF that] old [of p m] that assms(2,4) by (auto simp: nodes_append size intro!: trans [OF out])
  moreover have "header b' p = m" if pm: "(p, m) \<in> set (nodes (last_at 0 0 (as @ ms')) ?e bs)" for p m
  proof (cases bs)
    case (Cons x cs)
    obtain n u where x: "x = (n, u)" by force
    have n: "20 \<le> n" "sized cs" using assms(2) Cons x by simp_all
    from pm Cons x consider "p = ?e" "m = \<lparr>m_next = of_nat (?e + n), m_prev = of_nat (last_at 0 0 (as @ ms')), m_used = of_bool u\<rparr>"
      | "(p, m) \<in> set (nodes ?e (?e + n) cs)" by auto
    then show ?thesis
    proof cases
      case 1
      have "header b ?e = \<lparr>m_next = of_nat (?e + n), m_prev = of_nat (last_at 0 0 (as @ ms)), m_used = of_bool u\<rparr>"
        using rep_at [of b "as @ ms" n u cs] assms(1) Cons x by simp
      with 1 nxt Cons show ?thesis by (intro mem.equality) simp_all
    next
      case 2
      have "header b p = m" using old [of p m] 2 Cons x by (simp add: nodes_append)
      moreover have "?e + 20 \<le> p" "p + 20 \<le> MEM_SIZE_ALIGNED" using nodes_range [OF 2 n(2)] n(1) assms(4) Cons x by auto
      ultimately show ?thesis using out [of p] size by simp
    qed
  qed (use pm in simp)
  moreover have "m_used (header b' ram_end) \<noteq> 0"
  proof (cases bs)
    case Nil
    then show ?thesis using nxt(2) assms(1,4) by (simp add: rep_def)
  next
    case (Cons x cs)
    then have "?e + 20 \<le> ram_end" using assms(2,4) by (cases x) simp
    then show ?thesis using out [of ram_end] assms(1) size by (simp add: rep_def)
  qed
  ultimately show ?thesis using here assms(3) by (auto simp: rep_def nodes_append)
qed

section \<open>Taking a block\<close>

lemma u16_offset: "e \<le> MEM_SIZE_ALIGNED \<Longrightarrow> unat (of_nat e :: u16) = e"
  by (simp add: MEM_SIZE_ALIGNED_def unat16_of_nat)

lemma u16_end: "e \<le> MEM_SIZE_ALIGNED \<Longrightarrow> (of_nat e :: u16) = of_nat MEM_SIZE_ALIGNED \<longleftrightarrow> e = MEM_SIZE_ALIGNED"
  using u16_offset [of e] u16_offset [of MEM_SIZE_ALIGNED] by (auto dest: arg_cong [of _ _ unat])

definition split_block :: "nat \<Rightarrow> nat \<Rightarrow> blocks" where
  "split_block k n = (if k + 28 \<le> n then [(k + 8, True), (n - k - 8, False)] else [(n, True)])"

lemma int_gap: "int (unat w) - int a \<ge> int b \<longleftrightarrow> a + b \<le> unat w"
  by linarith

lemmas take_block_unfold = take_block_def [unfolded int_gap SIZEOF_STRUCT_MEM_def MIN_SIZE_ALIGNED_def]

text \<open>What the two cases write, with the end \<open>e\<close> of the block and the place \<open>q\<close> of the new header.\<close>

lemma take_block_split:
  assumes "header (ram h) p = \<lparr>m_next = of_nat e, m_prev = v, m_used = 0\<rparr>" "e \<le> MEM_SIZE_ALIGNED" "p + 8 + k = q" "p + 20 \<le> q" "q + 20 \<le> e"
    "length (ram h) = ram_size"
  shows "\<exists>b. take_block k p h = Some (h\<lparr>ram := b\<rparr>) \<and> length b = ram_size
     \<and> header b p = \<lparr>m_next = of_nat q, m_prev = v, m_used = 1\<rparr> \<and> header b q = \<lparr>m_next = of_nat e, m_prev = of_nat p, m_used = 0\<rparr>
     \<and> header b e = (if e = MEM_SIZE_ALIGNED then header (ram h) e else (header (ram h) e)\<lparr>m_prev := of_nat q\<rparr>)
     \<and> (\<forall>x. x + 8 \<le> ram_size \<and> (x + 8 \<le> p \<or> e + 8 \<le> x) \<longrightarrow> header b x = header (ram h) x)
     \<and> (\<forall>i. i < p \<or> e + 8 \<le> i \<longrightarrow> b ! i = ram h ! i)"
proof -
  have e: "unat (of_nat e :: u16) = e" by (rule u16_offset [OF assms(2)])
  have k: "p + 8 + (k + 8 + 12) \<le> e" using assms(3,5) by simp
  have d: "p + 8 \<le> ram_size" "q + 8 \<le> ram_size" "e + 8 \<le> ram_size" using assms(2,4,5) by (simp_all add: ram_size_def SIZEOF_STRUCT_MEM_def)
  note dis = d assms(4,5,6)
  define b1 where "b1 = edit p \<lparr>m_next = of_nat q, m_prev = v, m_used = 1\<rparr> (edit q \<lparr>m_next = of_nat e, m_prev = of_nat p, m_used = 0\<rparr> (ram h))"
  define b where "b = (if e = MEM_SIZE_ALIGNED then b1 else edit e ((header (ram h) e)\<lparr>m_prev := of_nat q\<rparr>) b1)"
  have "take_block k p h = Some (h\<lparr>ram := b\<rparr>)"
    using dis k by (simp add: take_block_unfold get_mem_ok assms(1,3) e set_field_ok header_edit u16_end [OF assms(2)] b_def b1_def
        del: of_nat_add of_nat_numeral)
  then show ?thesis using dis by (intro exI [of _ b]) (auto simp: b_def b1_def header_edit edit_nth)
qed

lemma take_block_ok:
  assumes "length (ram h) = ram_size" "rep (ram h) (as @ (n, False) # bs)" "sized (as @ (n, False) # bs)"
    "span (as @ (n, False) # bs) = MEM_SIZE_ALIGNED" "12 \<le> k" "k + 8 \<le> n"
  shows "\<exists>b. take_block k (span as) h = Some (h\<lparr>ram := b\<rparr>) \<and> length b = ram_size \<and> rep b (as @ split_block k n @ bs)
     \<and> (\<forall>i. i < span as \<or> span as + n + 8 \<le> i \<longrightarrow> b ! i = ram h ! i)"
proof -
  define p e q where "p = span as" and "e = p + n" and "q = p + 8 + k"
  have pe: "e \<le> MEM_SIZE_ALIGNED" "p + 8 \<le> ram_size" "p + 20 \<le> e" "e + 8 \<le> ram_size"
    using assms(3,4) by (auto simp: p_def e_def ram_size_def SIZEOF_STRUCT_MEM_def)
  have m: "header (ram h) p = \<lparr>m_next = of_nat e, m_prev = of_nat (last_at 0 0 as), m_used = 0\<rparr>"
    using rep_at [OF assms(2)] by (simp add: p_def e_def)
  have e: "unat (of_nat e :: u16) = e" by (rule u16_offset [OF pe(1)])
  have bs: "bs = [] \<longleftrightarrow> e = MEM_SIZE_ALIGNED" using assms(3,4) by (cases bs) (auto simp: p_def e_def)
  show ?thesis
  proof (cases "k + 28 \<le> n")
    case True
    then have q: "p + 8 + k = q" "p + 20 \<le> q" "q + 20 \<le> e" using assms(5) by (auto simp: e_def q_def)
    from take_block_split [OF m pe(1) q assms(1)] obtain b where b: "take_block k p h = Some (h\<lparr>ram := b\<rparr>)" "length b = ram_size"
      "header b p = \<lparr>m_next = of_nat q, m_prev = of_nat (last_at 0 0 as), m_used = 1\<rparr>" "header b q = \<lparr>m_next = of_nat e, m_prev = of_nat p, m_used = 0\<rparr>"
      "header b e = (if e = MEM_SIZE_ALIGNED then header (ram h) e else (header (ram h) e)\<lparr>m_prev := of_nat q\<rparr>)"
      "\<And>x. x + 8 \<le> ram_size \<Longrightarrow> x + 8 \<le> p \<or> e + 8 \<le> x \<Longrightarrow> header b x = header (ram h) x"
      "\<And>i. i < p \<or> e + 8 \<le> i \<Longrightarrow> b ! i = ram h ! i" by blast
    have qe: "q + (n - k - 8) = e" "p + (k + 8) = q" using True by (simp_all add: e_def q_def)
    have "rep b (as @ [(k + 8, True), (n - k - 8, False)] @ bs)"
    proof (rule rep_replace [of "ram h" as "[(n, False)]" bs])
      show "header b x = m" if "(x, m) \<in> set (nodes (last_at 0 0 as) (span as) [(k + 8, True), (n - k - 8, False)])" for x m
        using that b(3,4) qe by (auto simp: p_def simp del: of_nat_add)
    qed (use assms(2-4) b(5,6) bs qe True in \<open>auto simp: p_def [symmetric] e_def [symmetric] split: if_splits\<close>)
    then show ?thesis using b(1,2,7) True by (auto simp: split_block_def p_def e_def)
  next
    case False
    let ?b = "edit p \<lparr>m_next = of_nat e, m_prev = of_nat (last_at 0 0 as), m_used = 1\<rparr> (ram h)"
    have h: "header ?b x = (if x = p then \<lparr>m_next = of_nat e, m_prev = of_nat (last_at 0 0 as), m_used = 1\<rparr> else header (ram h) x)"
      if "x + 8 \<le> ram_size" "x = p \<or> x + 8 \<le> p \<or> e \<le> x" for x
      using that pe assms(1) by (auto simp: header_edit)
    have "\<not> p + 8 + (k + 8 + 12) \<le> e" using False by (simp add: e_def)
    then have "take_block k p h = Some (h\<lparr>ram := ?b\<rparr>)"
      using pe assms(1) by (simp add: take_block_unfold get_mem_ok m e set_field_ok del: of_nat_add of_nat_numeral)
    moreover have "rep ?b (as @ [(n, True)] @ bs)"
    proof (rule rep_replace [of "ram h" as "[(n, False)]" bs])
      show "header ?b x = header (ram h) x" if "x + 8 \<le> ram_size" "x + 8 \<le> span as \<or> span as + span [(n, False)] + 8 \<le> x" for x
        using that h [of x] pe by (auto simp: p_def e_def)
      show "m_prev (header ?b (span as + span [(n, False)])) = of_nat (last_at 0 0 (as @ [(n, True)]))" if "bs \<noteq> []"
        using that h [of e] pe rep_at [of "ram h" "as @ [(n, False)]"] assms(2) by (cases bs) (auto simp: p_def e_def)
    qed (use assms(2-4) h pe in \<open>auto simp: p_def [symmetric] e_def [symmetric]\<close>)
    moreover have "?b ! i = ram h ! i" if "i < span as \<or> span as + n + 8 \<le> i" for i
      using that pe assms(1) by (auto simp: edit_nth p_def [symmetric] e_def [symmetric])
    ultimately show ?thesis using pe assms(1) False by (auto simp: p_def split_block_def)
  qed
qed

section \<open>Searching\<close>

fun fit :: "nat \<Rightarrow> nat \<Rightarrow> blocks \<Rightarrow> nat option" where
  "fit k o1 [] = None"
| "fit k o1 ((n, u) # bs) = (if \<not> u \<and> k + 8 \<le> n then Some o1 else fit k (o1 + n) bs)"

lemma fit_used: "all_used as \<Longrightarrow> fit k o1 (as @ bs) = fit k (o1 + span as) bs"
  by (induction k o1 as rule: fit.induct) (simp_all add: add.assoc)

lemma fit_small: "span bs \<le> k \<Longrightarrow> fit k o1 bs = None"
  by (induction k o1 bs rule: fit.induct) auto

lemma fit_Some:
  "fit k o1 bs = Some p \<Longrightarrow> \<exists>as n cs. bs = as @ (n, False) # cs \<and> p = o1 + span as \<and> k + 8 \<le> n"
proof (induction k o1 bs rule: fit.induct)
  case (2 k o1 n u bs)
  show ?case
  proof (cases "\<not> u \<and> k + 8 \<le> n")
    case True
    with 2(2) show ?thesis by (intro exI [of _ "[]"]) auto
  next
    case False
    with 2 obtain as m cs where "bs = as @ (m, False) # cs" "p = o1 + n + span as" "k + 8 \<le> m" by auto
    then show ?thesis by (intro exI [of _ "(n, u) # as"]) auto
  qed
qed simp

lemma fit_None: "fit k o1 bs = None \<longleftrightarrow> (\<forall>(n, u) \<in> set bs. u \<or> n < k + 8)"
  by (induction k o1 bs rule: fit.induct) auto

lemma block_next:
  assumes "length (ram h) = ram_size" "rep (ram h) (as @ (n, u) # bs)" "span (as @ (n, u) # bs) = MEM_SIZE_ALIGNED"
  shows "get_mem (span as) h = Some \<lparr>m_next = of_nat (span as + n), m_prev = of_nat (last_at 0 0 as), m_used = of_bool u\<rparr>"
    "unat (of_nat (span as + n) :: u16) = span as + n"
proof -
  have "span as + n \<le> MEM_SIZE_ALIGNED" using assms(3) by simp
  then show "unat (of_nat (span as + n) :: u16) = span as + n" by (rule u16_offset)
  have "span as + 8 \<le> length (ram h)" using assms(1,3) by (simp add: ram_size_def SIZEOF_STRUCT_MEM_def)
  then show "get_mem (span as) h = Some \<lparr>m_next = of_nat (span as + n), m_prev = of_nat (last_at 0 0 as), m_used = of_bool u\<rparr>"
    by (simp only: get_mem_ok rep_at [OF assms(2)])
qed

lemma fit_loop_fit:
  assumes "length (ram h) = ram_size" "rep (ram h) (as @ bs)" "sized (as @ bs)" "span (as @ bs) = MEM_SIZE_ALIGNED"
  shows "fit_loop k (span as) h = Some (fit k (span as) bs)"
  using assms
proof (induction bs arbitrary: as)
  case Nil
  have "\<not> span as < MEM_SIZE_ALIGNED - k" using Nil by auto
  then show ?case by (subst fit_loop.simps) simp
next
  case (Cons x bs)
  obtain n u where x: "x = (n, u)" by force
  note b = block_next [OF Cons.prems(1) Cons.prems(2,4) [unfolded x]]
  have "fit_loop k (span (as @ [x])) h = Some (fit k (span (as @ [x])) bs)" by (rule Cons.IH) (use Cons.prems in simp_all)
  then have IH: "fit_loop k (span as + n) h = Some (fit k (span as + n) bs)" by (simp add: x)
  show ?case
  proof (cases "span as < MEM_SIZE_ALIGNED - k")
    case True
    have g: "int k \<le> int (unat (of_nat (span as + n) :: u16)) - int (span as + 8) \<longleftrightarrow> k + 8 \<le> n" unfolding b(2) by auto
    show ?thesis
    proof (cases "\<not> u \<and> k + 8 \<le> n")
      case True
      then show ?thesis using \<open>span as < _\<close> g b(1) by (subst fit_loop.simps) (simp add: x SIZEOF_STRUCT_MEM_def)
    next
      case False
      then have "fit_loop k (span as) h = fit_loop k (unat (of_nat (span as + n) :: u16)) h"
        using \<open>span as < _\<close> g b(1) by (subst fit_loop.simps) (auto simp: SIZEOF_STRUCT_MEM_def)
      then show ?thesis using False IH unfolding b(2) by (auto simp: x)
    qed
  next
    case False
    then have "span (x # bs) \<le> k" using Cons.prems(4) by simp
    from fit_small [OF this] show ?thesis using False by (subst fit_loop.simps) simp
  qed
qed

lemma next_free_lowest:
  assumes "length (ram h) = ram_size" "rep (ram h) (as @ bs)" "sized (as @ bs)" "span (as @ bs) = MEM_SIZE_ALIGNED"
  shows "next_free (span as) h = Some (lowest (span as) bs)"
  using assms
proof (induction bs arbitrary: as)
  case Nil
  then show ?case by (subst next_free.simps) (simp add: get_mem_ok ram_size_def SIZEOF_STRUCT_MEM_def)
next
  case (Cons x bs)
  obtain n u where x: "x = (n, u)" by force
  note b = block_next [OF Cons.prems(1) Cons.prems(2,4) [unfolded x]]
  have "next_free (span (as @ [x])) h = Some (lowest (span (as @ [x])) bs)" by (rule Cons.IH) (use Cons.prems in simp_all)
  then have IH: "next_free (span as + n) h = Some (lowest (span as + n) bs)" by (simp add: x)
  have "span as \<noteq> ram_end" using Cons.prems(3,4) by (auto simp: x)
  then have "next_free (span as) h = (if u then next_free (unat (of_nat (span as + n) :: u16)) h else Some (span as))"
    using b(1) by (subst next_free.simps) simp
  then show ?case using IH unfolding b(2) by (simp add: x)
qed

lemma first_free:
  "\<exists>as cs. bs = as @ cs \<and> all_used as \<and> lowest o1 bs = o1 + span as \<and> (cs = [] \<or> \<not> snd (hd cs))"
proof (induction o1 bs rule: lowest.induct)
  case (2 o1 n u bs)
  show ?case
  proof (cases u)
    case True
    with 2 obtain as cs where "bs = as @ cs" "all_used as" "lowest (o1 + n) bs = o1 + n + span as" "cs = [] \<or> \<not> snd (hd cs)" by auto
    then show ?thesis using True by (intro exI [of _ "(n, u) # as"] exI [of _ cs]) simp
  next
    case False
    then show ?thesis by (intro exI [of _ "[]"] exI [of _ "(n, u) # bs"]) simp
  qed
qed simp

section \<open>Allocation refines first fit\<close>

text \<open>The bytes a request asks for, as the 16-bit arithmetic computes it.\<close>

definition request :: "u16 \<Rightarrow> nat" where
  "request sz = max (unat (mem_align sz)) 12"

lemma mem_align_unat: "unat (mem_align n) = unat (n + 3) div 4 * 4"
proof -
  have "x AND NOT (mask 2) = push_bit 2 (drop_bit 2 x)" for x :: u16
    by (rule bit_word_eqI) (auto simp: bit_simps)
  moreover have "(mask 2 :: u16) = 3" by (simp add: mask_eq_exp_minus_1)
  ultimately have "mem_align n = push_bit 2 (drop_bit 2 (n + 3))" by (simp add: mem_align_def)
  moreover have d: "unat (drop_bit 2 (n + 3)) = unat (n + 3) div 4" unfolding unat_drop_bit_eq by (simp add: drop_bit_eq_div)
  moreover have "unat (n + 3) div 4 * 4 < 65536" using u16_bound [of "n + 3"] by linarith
  ultimately show ?thesis using unat_push [of "drop_bit 2 (n + 3)" 2] by (simp only: d) simp
qed

lemma request_simps: "12 \<le> request n" "4 dvd request n"
  by (simp_all add: request_def mem_align_unat max_def)

lemma request_small: "unat n \<le> 65532 \<Longrightarrow> request n = max ((unat n + 3) div 4 * 4) 12"
  by (simp add: request_def mem_align_unat unat_word_ariths)

lemma request_covers: "unat n \<le> 65532 \<Longrightarrow> unat n \<le> request n"
  by (simp add: request_small)

lemma split_block_facts:
  assumes "12 \<le> k" "4 dvd k" "k + 8 \<le> n" "4 dvd n"
  shows "span (split_block k n) = n" "sized (split_block k n)" "split_block k n \<noteq> []" "snd (hd (split_block k n))"
    "\<exists>m. split_block k n = (m, True) # tl (split_block k n) \<and> k + 8 \<le> m"
proof -
  have "4 dvd n - k - 8" using assms by presburger
  then show "sized (split_block k n)" using assms by (auto simp: split_block_def)
qed (use assms in \<open>auto simp: split_block_def\<close>)

lemma lowest_split:
  assumes "12 \<le> k" "k + 8 \<le> n"
  shows "lowest 0 (as @ split_block k n @ cs) = (if all_used as then lowest (span as) (split_block k n @ cs) else lowest 0 as)"
  by (simp add: lowest_append)

theorem mem_malloc_fit:
  assumes "heap_ok h bs" "sz \<noteq> 0"
  shows "case fit (request sz) 0 bs of
      None \<Rightarrow> mem_malloc sz h = Some (None, h)
    | Some p \<Rightarrow> \<exists>h' as n cs. bs = as @ (n, False) # cs \<and> p = span as \<and> request sz + 8 \<le> n
        \<and> mem_malloc sz h = Some (Some (p + 8), h') \<and> heap_ok h' (as @ split_block (request sz) n @ cs)
        \<and> (\<forall>i. i < span as \<or> span as + n + 8 \<le> i \<longrightarrow> ram h' ! i = ram h ! i)"
proof -
  define k where "k = request sz"
  note k = request_simps [of sz, folded k_def]
  have ok: "length (ram h) = ram_size" "rep (ram h) bs" "sized bs" "span bs = MEM_SIZE_ALIGNED" "coalesced bs" "lfree h = lowest 0 bs"
    using assms(1) by (simp_all add: heap_ok_def)
  from first_free [of bs 0] obtain us ts where us: "bs = us @ ts" "all_used us" "lowest 0 bs = span us" by auto
  have search: "fit_loop k (lfree h) h = Some (fit k 0 bs)"
    using fit_loop_fit [of h us ts k] ok us fit_used [OF us(2), of k 0 ts] by simp
  have m: "mem_malloc sz h = (if k > MEM_SIZE_ALIGNED then Some (None, h) else case fit k 0 bs of None \<Rightarrow> Some (None, h)
      | Some p \<Rightarrow> do { h \<leftarrow> take_block k p h; h \<leftarrow> (if p = lfree h then do { c \<leftarrow> next_free p h; Some (h\<lparr>lfree := c\<rparr>) } else Some h);
                    Some (Some (p + 8), h) })"
    using assms(2) search by (simp add: mem_malloc_def Let_def request_def [symmetric] k_def [symmetric] MIN_SIZE_ALIGNED_def SIZEOF_STRUCT_MEM_def split: option.splits)
  show ?thesis
  proof (cases "fit k 0 bs")
    case None
    then show ?thesis using m by (simp add: k_def [symmetric])
  next
    case (Some p)
    from fit_Some [OF Some] obtain as n cs where bs: "bs = as @ (n, False) # cs" "p = span as" "k + 8 \<le> n" by auto
    have n: "4 dvd n" "n \<le> MEM_SIZE_ALIGNED" using ok(3,4) by (simp_all add: bs)
    note sf = split_block_facts [OF k bs(3) n(1)]
    from take_block_ok [OF ok(1) ok(2-4) [unfolded bs(1)] k(1) bs(3)] obtain b where
      b: "take_block k p h = Some (h\<lparr>ram := b\<rparr>)" "length b = ram_size" "rep b (as @ split_block k n @ cs)"
        "\<forall>i. i < span as \<or> span as + n + 8 \<le> i \<longrightarrow> b ! i = ram h ! i" using bs(2) by auto
    let ?bs = "as @ split_block k n @ cs"
    have new: "sized ?bs" "span ?bs = MEM_SIZE_ALIGNED" using ok(3,4) sf by (simp_all add: bs)
    have "coalesced ?bs" using ok(5) by (auto simp: bs coalesced_append split_block_def)
    define h' where "h' = h\<lparr>ram := b, lfree := lowest 0 ?bs\<rparr>"
    have "mem_malloc sz h = Some (Some (p + 8), h')"
    proof (cases "p = lfree h")
      case True
      have "next_free p (h\<lparr>ram := b\<rparr>) = Some (lowest p (split_block k n @ cs))"
        using next_free_lowest [of "h\<lparr>ram := b\<rparr>" as "split_block k n @ cs"] b new bs(2) by simp
      moreover have "all_used as"
      proof (rule ccontr)
        assume "\<not> all_used as"
        then have "lowest 0 bs < span as" using lowest_free [of as 0] ok(3) by (simp add: bs lowest_append)
        with True ok(6) bs(2) show False by simp
      qed
      ultimately show ?thesis using True m b(1) Some bs n k(1) by (simp add: h'_def lowest_append)
    next
      case False
      then have "\<not> all_used as" using ok(6) by (auto simp: bs lowest_append)
      then show ?thesis using False m b(1) Some bs n k(1) ok(6) by (simp add: h'_def lowest_append)
    qed
    moreover have "heap_ok h' ?bs" using new \<open>coalesced ?bs\<close> b(2,3) by (simp add: heap_ok_def h'_def)
    ultimately show ?thesis using Some bs b(4) by (auto simp: k_def [symmetric] h'_def intro!: exI [of _ as])
  qed
qed

section \<open>Freeing merges\<close>

text \<open>Giving a block back joins it with the free blocks on its two sides.\<close>

fun join_next :: "nat \<Rightarrow> blocks \<Rightarrow> blocks" where
  "join_next n ((m, False) # bs) = (n + m, False) # bs"
| "join_next n bs = (n, False) # bs"

fun free_block :: "blocks \<Rightarrow> nat \<Rightarrow> blocks \<Rightarrow> blocks" where
  "free_block [] n bs = join_next n bs"
| "free_block [(m, False)] n bs = (case join_next n bs of (k, u) # cs \<Rightarrow> (m + k, False) # cs | [] \<Rightarrow> [])"
| "free_block (x # as) n bs = x # free_block as n bs"

lemma free_block_last:
  "free_block (as @ [(m, False)]) n bs = as @ free_block [(m, False)] n bs"
  "as = [] \<or> snd (last as) \<Longrightarrow> free_block as n bs = as @ join_next n bs"
proof -
  show "free_block (as @ [(m, False)]) n bs = as @ free_block [(m, False)] n bs"
  proof (induction as)
    case (Cons x as)
    then show ?case by (cases x; cases "snd x"; cases as) auto
  qed simp
  show "as = [] \<or> snd (last as) \<Longrightarrow> free_block as n bs = as @ join_next n bs"
  proof (induction as)
    case (Cons x as)
    then show ?case by (cases x; cases "snd x"; cases as) auto
  qed simp
qed

text \<open>Two writes join a free block with the block behind it.\<close>

lemma join_ok:
  assumes "length (ram h) = ram_size" "rep (ram h) (as @ (n, False) # (m, u) # bs)" "sized (as @ (n, False) # (m, u) # bs)"
    "span (as @ (n, False) # (m, u) # bs) = MEM_SIZE_ALIGNED" "e = span as + n + m"
  shows "\<exists>b. do { h \<leftarrow> set_next (span as) (of_nat e) h; set_prev e (of_nat (span as)) h } = Some (h\<lparr>ram := b\<rparr>) \<and> length b = ram_size
     \<and> rep b (as @ (n + m, False) # bs) \<and> (\<forall>i. i < span as \<or> e + 8 \<le> i \<longrightarrow> b ! i = ram h ! i)"
proof -
  define p where "p = span as"
  have d: "p + 40 \<le> e" "e + 8 \<le> ram_size" "e \<le> MEM_SIZE_ALIGNED"
    using assms(3-5) by (simp_all add: p_def ram_size_def SIZEOF_STRUCT_MEM_def)
  have hp: "header (ram h) p = \<lparr>m_next = of_nat (p + n), m_prev = of_nat (last_at 0 0 as), m_used = 0\<rparr>"
    using rep_at [OF assms(2)] by (simp add: p_def)
  define b where "b = edit e ((header (ram h) e)\<lparr>m_prev := of_nat p\<rparr>)
    (edit p \<lparr>m_next = of_nat e, m_prev = of_nat (last_at 0 0 as), m_used = 0\<rparr> (ram h))"
  have "do { h \<leftarrow> set_next p (of_nat e) h; set_prev e (of_nat p) h } = Some (h\<lparr>ram := b\<rparr>)"
    using d assms(1) by (simp add: set_field_ok hp header_edit b_def del: of_nat_add)
  moreover have hb: "header b x = (if x = p then \<lparr>m_next = of_nat e, m_prev = of_nat (last_at 0 0 as), m_used = 0\<rparr>
      else if x = e then (header (ram h) e)\<lparr>m_prev := of_nat p\<rparr> else header (ram h) x)"
    if "x + 8 \<le> ram_size" "x = p \<or> x = e \<or> x + 8 \<le> p \<or> e + 8 \<le> x" for x
    using that d assms(1) by (auto simp: b_def header_edit)
  have e: "p + (n + m) = e" using assms(5) by (simp add: p_def)
  have "rep b (as @ [(n + m, False)] @ bs)"
  proof (rule rep_replace [of "ram h" as "[(n, False), (m, u)]" bs])
    show "header b x = header (ram h) x" if "x + 8 \<le> ram_size" "x + 8 \<le> span as \<or> span as + span [(n, False), (m, u)] + 8 \<le> x" for x
      using that hb [of x] d e by (auto simp: p_def [symmetric])
    show "header b x = y" if "(x, y) \<in> set (nodes (last_at 0 0 as) (span as) [(n + m, False)])" for x y
      using that hb [of p] d e by (simp add: p_def [symmetric] del: of_nat_add)
  qed (use assms(2-4) hb [of e] d e in \<open>auto simp: p_def [symmetric]\<close>)
  moreover have "length b = ram_size" "\<forall>i. i < p \<or> e + 8 \<le> i \<longrightarrow> b ! i = ram h ! i"
    using d assms(1) by (auto simp: b_def edit_nth)
  ultimately show ?thesis by (auto simp: p_def)
qed

lemma unuse_ok:
  assumes "length (ram h) = ram_size" "rep (ram h) (as @ (n, True) # bs)" "sized (as @ (n, True) # bs)"
    "span (as @ (n, True) # bs) = MEM_SIZE_ALIGNED"
  shows "\<exists>b. set_used (span as) 0 h = Some (h\<lparr>ram := b\<rparr>) \<and> length b = ram_size \<and> rep b (as @ (n, False) # bs)
     \<and> (\<forall>i. i < span as \<or> span as + 8 \<le> i \<longrightarrow> b ! i = ram h ! i)"
proof -
  define p where "p = span as"
  have d: "p + n + 8 \<le> ram_size" "20 \<le> n" using assms(3,4) by (simp_all add: p_def ram_size_def SIZEOF_STRUCT_MEM_def)
  have hp: "header (ram h) p = \<lparr>m_next = of_nat (p + n), m_prev = of_nat (last_at 0 0 as), m_used = 1\<rparr>"
    using rep_at [OF assms(2)] by (simp add: p_def)
  define b where "b = edit p \<lparr>m_next = of_nat (p + n), m_prev = of_nat (last_at 0 0 as), m_used = 0\<rparr> (ram h)"
  have "set_used p 0 h = Some (h\<lparr>ram := b\<rparr>)" using d assms(1) by (simp add: set_field_ok hp b_def)
  moreover have hb: "header b x = (if x = p then \<lparr>m_next = of_nat (p + n), m_prev = of_nat (last_at 0 0 as), m_used = 0\<rparr> else header (ram h) x)"
    if "x + 8 \<le> ram_size" "x = p \<or> x + 8 \<le> p \<or> p + 8 \<le> x" for x
    using that d assms(1) by (auto simp: b_def header_edit)
  have "rep b (as @ [(n, False)] @ bs)"
  proof (rule rep_replace [of "ram h" as "[(n, True)]" bs])
    show "header b x = header (ram h) x" if "x + 8 \<le> ram_size" "x + 8 \<le> span as \<or> span as + span [(n, True)] + 8 \<le> x" for x
      using that hb [of x] d by (auto simp: p_def [symmetric])
    show "m_prev (header b (span as + span [(n, True)])) = of_nat (last_at 0 0 (as @ [(n, False)]))" if "bs \<noteq> []"
      using that hb [of "p + n"] d rep_at [of "ram h" "as @ [(n, True)]"] assms(2) by (cases bs) (auto simp: p_def)
  qed (use assms(2-4) hb d in \<open>auto simp: p_def [symmetric]\<close>)
  moreover have "length b = ram_size" "\<forall>i. i < p \<or> p + 8 \<le> i \<longrightarrow> b ! i = ram h ! i"
    using d assms(1) by (auto simp: b_def edit_nth)
  ultimately show ?thesis by (auto simp: p_def)
qed

text \<open>The forward half and the backward half of \<open>plug_holes\<close>.\<close>

definition plug_next :: "nat \<Rightarrow> mem_heap \<Rightarrow> mem_heap option" where
  "plug_next p h = do {
     m \<leftarrow> get_mem p h;
     let nmem = unat (m_next m);
     n \<leftarrow> get_mem nmem h;
     if p \<noteq> nmem \<and> m_used n = 0 \<and> nmem \<noteq> ram_end then do {
       let h = (if lfree h = nmem then h\<lparr>lfree := p\<rparr> else h);
       h \<leftarrow> set_next p (m_next n) h;
       set_prev (unat (m_next n)) (of_nat p) h }
     else Some h }"

definition plug_prev :: "nat \<Rightarrow> mem_heap \<Rightarrow> mem_heap option" where
  "plug_prev p h = do {
     m \<leftarrow> get_mem p h;
     let pmem = unat (m_prev m);
     v \<leftarrow> get_mem pmem h;
     if pmem \<noteq> p \<and> m_used v = 0 then do {
       let h = (if lfree h = p then h\<lparr>lfree := pmem\<rparr> else h);
       h \<leftarrow> set_next pmem (m_next m) h;
       set_prev (unat (m_next m)) (of_nat pmem) h }
     else Some h }"

lemma plug_holes_halves: "plug_holes p h = do { h \<leftarrow> plug_next p h; plug_prev p h }"
  unfolding plug_holes_def plug_next_def plug_prev_def Let_def
  by (cases "get_mem p h"; simp)

definition shape :: "mem_heap \<Rightarrow> blocks \<Rightarrow> bool" where
  "shape h bs \<longleftrightarrow> length (ram h) = ram_size \<and> rep (ram h) bs \<and> sized bs \<and> span bs = MEM_SIZE_ALIGNED"

lemma shape_next:
  assumes "shape h (as @ (n, u) # bs)"
  shows "get_mem (span as + n) h = Some (header (ram h) (span as + n))" "unat (of_nat (span as + n) :: u16) = span as + n"
    "m_used (header (ram h) (span as + n)) = (case bs of [] \<Rightarrow> m_used (header (ram h) ram_end) | x # _ \<Rightarrow> of_bool (snd x))"
    "span as + n = ram_end \<longleftrightarrow> bs = []" "n \<noteq> 0"
proof -
  have e: "span as + n \<le> MEM_SIZE_ALIGNED" "length (ram h) = ram_size" using assms by (simp_all add: shape_def)
  then show "get_mem (span as + n) h = Some (header (ram h) (span as + n))"
    by (simp add: get_mem_ok ram_size_def SIZEOF_STRUCT_MEM_def)
  show "unat (of_nat (span as + n) :: u16) = span as + n" by (rule u16_offset [OF e(1)])
  show "m_used (header (ram h) (span as + n)) = (case bs of [] \<Rightarrow> m_used (header (ram h) ram_end) | x # _ \<Rightarrow> of_bool (snd x))"
    using assms rep_at [of "ram h" "as @ [(n, u)]"] by (cases bs) (auto simp: shape_def)
  show "span as + n = ram_end \<longleftrightarrow> bs = []" "n \<noteq> 0" using assms by (cases bs; auto simp: shape_def)+
qed

lemma rep_end: "rep b bs \<Longrightarrow> m_used (header b ram_end) \<noteq> 0"
  by (simp add: rep_def)

lemma plug_next_ok:
  assumes "shape h (as @ (n, False) # bs)" "lfree h = lowest 0 (as @ (n, False) # bs)"
  shows "\<exists>b. plug_next (span as) h = Some (h\<lparr>ram := b\<rparr>) \<and> shape (h\<lparr>ram := b\<rparr>) (as @ join_next n bs)
     \<and> (\<forall>i. i < span as \<or> span as + fst (hd (join_next n bs)) + 8 \<le> i \<longrightarrow> b ! i = ram h ! i)"
proof -
  note s = assms(1) [unfolded shape_def]
  note nx = shape_next [OF assms(1)]
  have g: "get_mem (span as) h = Some \<lparr>m_next = of_nat (span as + n), m_prev = of_nat (last_at 0 0 as), m_used = 0\<rparr>"
    using block_next(1) [of h as n False bs] s by simp
  have low: "lfree h \<le> span as" using assms(2) lowest_bounds [of 0 as] by (simp add: lowest_append)
  show ?thesis
  proof (cases "bs \<noteq> [] \<and> \<not> snd (hd bs)")
    case True
    then obtain m cs where bs: "bs = (m, False) # cs" by (cases bs) auto
    define e where "e = span as + n + m"
    have hn: "header (ram h) (span as + n) = \<lparr>m_next = of_nat e, m_prev = of_nat (last_at 0 0 (as @ [(n, False)])), m_used = 0\<rparr>"
      using rep_at [of "ram h" "as @ [(n, False)]" m False cs] s by (simp add: bs e_def)
    have e: "unat (of_nat e :: u16) = e" using s by (intro u16_offset) (simp add: bs e_def)
    have j: "shape h (as @ (n, False) # (m, False) # cs)" using assms(1) by (simp add: bs)
    from join_ok [of h as n m False cs e] j obtain b where
      b: "do { h \<leftarrow> set_next (span as) (of_nat e) h; set_prev e (of_nat (span as)) h } = Some (h\<lparr>ram := b\<rparr>)" "length b = ram_size"
        "rep b (as @ (n + m, False) # cs)" "\<forall>i. i < span as \<or> e + 8 \<le> i \<longrightarrow> b ! i = ram h ! i"
      by (auto simp: shape_def e_def)
    have "plug_next (span as) h = do { h \<leftarrow> set_next (span as) (of_nat e) h; set_prev e (of_nat (span as)) h }"
      using True nx(4,5) low by (simp add: plug_next_def g nx(1,2) hn e del: of_nat_add)
    then show ?thesis using b j by (intro exI [of _ b]) (auto simp: shape_def bs e_def)
  next
    case False
    then have "join_next n bs = (n, False) # bs" by (cases "(n, bs)" rule: join_next.cases) auto
    moreover have "m_used (header (ram h) (span as + n)) \<noteq> 0" using False nx(3) rep_end s by (auto split: list.splits)
    then have "plug_next (span as) h = Some h" by (simp add: plug_next_def g nx(1,2) del: of_nat_add)
    ultimately show ?thesis using assms(1) by (intro exI [of _ "ram h"]) simp
  qed
qed

lemma plug_prev_ok:
  assumes "shape h (as @ (k, False) # cs)" "lfree h = lowest 0 (as @ (k, False) # cs)"
  shows "\<exists>b ds j. plug_prev (span as) h = Some (h\<lparr>ram := b\<rparr>) \<and> shape (h\<lparr>ram := b\<rparr>) (ds @ (j, False) # cs)
     \<and> (if as = [] \<or> snd (last as) then ds = as \<and> j = k else \<exists>m. as = ds @ [(m, False)] \<and> j = m + k)
     \<and> (\<forall>i. i < span ds \<or> span ds + j + 8 \<le> i \<longrightarrow> b ! i = ram h ! i)"
proof -
  note s = assms(1) [unfolded shape_def]
  define e where "e = span as + k"
  have e: "unat (of_nat e :: u16) = e" using s by (intro u16_offset) (simp add: e_def)
  have g: "get_mem (span as) h = Some \<lparr>m_next = of_nat e, m_prev = of_nat (last_at 0 0 as), m_used = 0\<rparr>"
    using block_next(1) [of h as k False cs] s by (simp add: e_def)
  show ?thesis
  proof (cases as rule: rev_cases)
    case Nil
    then have "plug_prev (span as) h = Some h" using g by (simp add: plug_prev_def)
    with Nil assms(1) show ?thesis by (intro exI [of _ "ram h"] exI [of _ as]) simp
  next
    case (snoc ds x)
    obtain m u where x: "x = (m, u)" by force
    have j: "shape h (ds @ (m, u) # (k, False) # cs)" using assms(1) by (simp add: snoc x)
    have pv: "last_at 0 0 as = span ds" "unat (of_nat (span ds) :: u16) = span ds" "m \<noteq> 0"
      using j by (auto simp: snoc x shape_def intro!: u16_offset)
    have gp: "get_mem (span ds) h = Some \<lparr>m_next = of_nat (span ds + m), m_prev = of_nat (last_at 0 0 ds), m_used = of_bool u\<rparr>"
      using block_next(1) [of h ds m u "(k, False) # cs"] j by (simp add: shape_def)
    show ?thesis
    proof (cases u)
      case True
      then have "plug_prev (span as) h = Some h" using g by (simp add: plug_prev_def pv gp)
      with True assms(1) show ?thesis by (intro exI [of _ "ram h"] exI [of _ as] exI [of _ k]) (simp add: snoc x)
    next
      case False
      from join_ok [of h ds m k False cs e] j False obtain b where
        b: "do { h \<leftarrow> set_next (span ds) (of_nat e) h; set_prev e (of_nat (span ds)) h } = Some (h\<lparr>ram := b\<rparr>)" "length b = ram_size"
          "rep b (ds @ (m + k, False) # cs)" "\<forall>i. i < span ds \<or> e + 8 \<le> i \<longrightarrow> b ! i = ram h ! i"
        by (auto simp: shape_def e_def snoc x)
      have "lfree h \<le> span ds" using assms(2) lowest_bounds [of 0 ds] False by (simp add: snoc x lowest_append)
      then have "plug_prev (span as) h = do { h \<leftarrow> set_next (span ds) (of_nat e) h; set_prev e (of_nat (span ds)) h }"
        using g False pv e gp by (simp add: plug_prev_def snoc x Let_def del: of_nat_add)
      then have "plug_prev (span as) h = Some (h\<lparr>ram := b\<rparr>) \<and> shape (h\<lparr>ram := b\<rparr>) (ds @ (m + k, False) # cs)
          \<and> (\<forall>i. i < span ds \<or> span ds + (m + k) + 8 \<le> i \<longrightarrow> b ! i = ram h ! i)"
        using b j by (auto simp: shape_def e_def snoc x)
      with False show ?thesis by (intro exI [of _ b] exI [of _ ds] exI [of _ "m + k"]) (simp add: snoc x)
    qed
  qed
qed

section \<open>Used blocks and their data\<close>

fun used :: "nat \<Rightarrow> blocks \<Rightarrow> (nat \<times> nat) list" where
  "used o1 [] = []"
| "used o1 ((n, u) # bs) = (if u then (o1, n) # used (o1 + n) bs else used (o1 + n) bs)"

lemma used_append [simp]: "used o1 (as @ bs) = used o1 as @ used (o1 + span as) bs"
  by (induction o1 as rule: used.induct) (simp_all add: add.assoc)

lemma used_range: "(p, n) \<in> set (used o1 bs) \<Longrightarrow> o1 \<le> p \<and> p + n \<le> o1 + span bs"
  by (induction o1 bs rule: used.induct) (auto split: if_splits)

definition same_data :: "(nat \<times> nat) list \<Rightarrow> bytes \<Rightarrow> bytes \<Rightarrow> bool" where
  "same_data us b b' \<longleftrightarrow> (\<forall>p n i. (p, n) \<in> set us \<and> p + 8 \<le> i \<and> i < p + n \<longrightarrow> b' ! i = b ! i)"

lemma same_data_frame:
  assumes "\<forall>i. i < span as \<or> span as + n + 8 \<le> i \<longrightarrow> b' ! i = b ! i"
  shows "same_data (used 0 as @ used (span as + n) cs) b b'"
  unfolding same_data_def
proof (intro allI impI)
  fix p m i
  assume "(p, m) \<in> set (used 0 as @ used (span as + n) cs) \<and> p + 8 \<le> i \<and> i < p + m"
  then have "i < span as \<or> span as + n + 8 \<le> i"
    using used_range [of p m 0 as] used_range [of p m "span as + n" cs] by auto
  with assms show "b' ! i = b ! i" by blast
qed

lemma same_data_trans: "same_data us a b \<Longrightarrow> same_data us b c \<Longrightarrow> same_data us a c"
  by (simp add: same_data_def)

lemma same_data_sub: "same_data us a b \<Longrightarrow> set vs \<subseteq> set us \<Longrightarrow> same_data vs a b"
  unfolding same_data_def by blast

lemma join_next_split: "\<exists>k cs. join_next n bs = (k, False) # cs \<and> k + span cs = n + span bs \<and> (\<forall>o1. used (o1 + k) cs = used (o1 + n) bs)"
  by (cases "(n, bs)" rule: join_next.cases) (auto simp: add.assoc)

lemma used_free_block: "used 0 (free_block as n bs) = used 0 as @ used (span as + n) bs"
proof -
  obtain k cs where j: "join_next n bs = (k, False) # cs" "\<And>o1. used (o1 + k) cs = used (o1 + n) bs"
    using join_next_split by metis
  show ?thesis
  proof (cases as rule: rev_cases)
    case (snoc ds x)
    then show ?thesis
    proof (cases x)
      case (Pair m u)
      then show ?thesis using snoc j(1) j(2) [of "span ds + m"]
        by (cases u) (simp_all add: free_block_last(1) free_block_last(2) [of "ds @ [(m, True)]"] add.assoc)
    qed
  qed (use j j(2) [of 0] in simp)
qed

section \<open>Freeing refines the merge\<close>

lemma coalesced_join:
  "coalesced bs \<Longrightarrow> join_next n bs = (k, u) # cs \<Longrightarrow> coalesced cs \<and> (cs = [] \<or> snd (hd cs))"
  by (cases "(n, bs)" rule: join_next.cases) auto

lemma mem_free_merge:
  assumes "heap_ok h (as @ (n, True) # bs)"
  shows "\<exists>h'. mem_free (Some (span as + 8)) h = Some h' \<and> heap_ok h' (free_block as n bs)
     \<and> same_data (used 0 (free_block as n bs)) (ram h) (ram h')"
proof -
  define p where "p = span as"
  have ok: "length (ram h) = ram_size" "rep (ram h) (as @ (n, True) # bs)" "sized (as @ (n, True) # bs)" "span (as @ (n, True) # bs) = MEM_SIZE_ALIGNED"
    "coalesced (as @ (n, True) # bs)" "lfree h = lowest 0 (as @ (n, True) # bs)"
    using assms by (simp_all add: heap_ok_def)
  have r: "\<not> p + 8 \<ge> ram_end" using ok(3,4) by (simp add: p_def)
  from unuse_ok [OF ok(1-4)] obtain b1 where b1: "set_used p 0 h = Some (h\<lparr>ram := b1\<rparr>)" "length b1 = ram_size" "rep b1 (as @ (n, False) # bs)"
    "\<And>i. i < p \<or> p + 8 \<le> i \<Longrightarrow> b1 ! i = ram h ! i" unfolding p_def by blast
  define lf where "lf = lowest 0 (as @ (n, False) # bs)"
  have lf: "(if p < lfree h then h\<lparr>ram := b1, lfree := p\<rparr> else h\<lparr>ram := b1\<rparr>) = h\<lparr>ram := b1, lfree := lf\<rparr>"
  proof (cases "all_used as")
    case True
    then have "lf = p" "p < lfree h" using ok(3,6) lowest_bounds [of "p + n" bs] by (simp_all add: lf_def p_def lowest_append)
    then show ?thesis by simp
  next
    case False
    then have "lfree h = lf" "lf < p" using ok(3,6) lowest_free [OF False, of 0] by (simp_all add: lf_def p_def lowest_append)
    then show ?thesis by simp
  qed
  define h1 where "h1 = h\<lparr>ram := b1, lfree := lf\<rparr>"
  have s1: "shape h1 (as @ (n, False) # bs)" "lfree h1 = lowest 0 (as @ (n, False) # bs)"
    using b1(2,3) ok(3,4) by (simp_all add: h1_def shape_def lf_def)
  obtain k cs where j: "join_next n bs = (k, False) # cs" "k + span cs = n + span bs" using join_next_split by metis
  from plug_next_ok [OF s1] obtain b2 where b2: "plug_next p h1 = Some (h1\<lparr>ram := b2\<rparr>)" "shape (h1\<lparr>ram := b2\<rparr>) (as @ (k, False) # cs)"
    "\<And>i. i < p \<or> p + k + 8 \<le> i \<Longrightarrow> b2 ! i = b1 ! i" unfolding p_def j(1) by (auto simp: h1_def)
  have l2: "lfree (h1\<lparr>ram := b2\<rparr>) = lowest 0 (as @ (k, False) # cs)" by (simp add: h1_def lf_def lowest_append)
  from plug_prev_ok [OF b2(2) l2] obtain b3 ds m where b3: "plug_prev p (h1\<lparr>ram := b2\<rparr>) = Some (h1\<lparr>ram := b3\<rparr>)"
    "shape (h1\<lparr>ram := b3\<rparr>) (ds @ (m, False) # cs)"
    "if as = [] \<or> snd (last as) then ds = as \<and> m = k else \<exists>l. as = ds @ [(l, False)] \<and> m = l + k"
    "\<And>i. i < span ds \<or> span ds + m + 8 \<le> i \<Longrightarrow> b3 ! i = b2 ! i" unfolding p_def by auto
  have fb: "free_block as n bs = ds @ (m, False) # cs"
    using b3(3) by (cases "as = [] \<or> snd (last as)") (auto simp: free_block_last j(1))
  have ds: "span ds \<le> p" "span ds + m = p + k" using b3(3) by (auto simp: p_def split: if_splits)
  have lds: "lf = lowest 0 (ds @ (m, False) # cs)" using b3(3) by (auto simp: lf_def lowest_append split: if_splits)
  have co: "coalesced as" "coalesced bs" using ok(5) by (simp_all add: coalesced_append)
  have "ds = [] \<or> snd (last ds)" "coalesced ds" using b3(3) co(1) by (auto simp: coalesced_append split: if_splits)
  with coalesced_join [OF co(2) j(1)] have c: "coalesced (ds @ (m, False) # cs)" by (auto simp: coalesced_append)
  define h3 where "h3 = h1\<lparr>ram := b3\<rparr>"
  have "mem_free (Some (p + 8)) h = Some h3"
    using r b1(1) b2(1) b3(1) lf by (simp add: mem_free_def SIZEOF_STRUCT_MEM_def plug_holes_halves h1_def h3_def cong: if_cong)
  moreover have "heap_ok h3 (free_block as n bs)" using b3(2) c lds by (simp add: fb heap_ok_def shape_def h3_def h1_def)
  moreover have "b3 ! i = ram h ! i" if "i < span ds \<or> span ds + m + 8 \<le> i" for i
    using that ds b1(4) [of i] b2(3) [of i] b3(4) [of i] by (cases "i < span ds") auto
  then have "same_data (used 0 ds @ used (span ds + m) cs) (ram h) b3" by (intro same_data_frame) blast
  then have "same_data (used 0 (free_block as n bs)) (ram h) (ram h3)" by (simp add: fb h3_def)
  ultimately show ?thesis by (auto simp: p_def)
qed

text \<open>The allocation with the used blocks spelled out.\<close>

lemma mem_malloc_used:
  assumes "heap_ok h bs" "mem_malloc sz h = Some (Some r, h')"
  shows "\<exists>as n cs. bs = as @ (n, False) # cs \<and> r = span as + 8 \<and> request sz + 8 \<le> n \<and> 4 dvd r
     \<and> heap_ok h' (as @ split_block (request sz) n @ cs) \<and> same_data (used 0 bs) (ram h) (ram h')"
proof -
  have "sz \<noteq> 0" using assms(2) by (auto simp: mem_malloc_def)
  from mem_malloc_fit [OF assms(1) this] assms(2) obtain p where p: "fit (request sz) 0 bs = Some p" by (cases "fit (request sz) 0 bs") auto
  with mem_malloc_fit [OF assms(1) \<open>sz \<noteq> 0\<close>] assms(2) obtain as n cs where
    x: "bs = as @ (n, False) # cs" "r = span as + 8" "request sz + 8 \<le> n" "heap_ok h' (as @ split_block (request sz) n @ cs)"
      "\<forall>i. i < span as \<or> span as + n + 8 \<le> i \<longrightarrow> ram h' ! i = ram h ! i" by auto
  have "sized as" using assms(1) by (simp add: heap_ok_def x)
  then have "4 dvd r" using sized_span [of as] by (simp add: x)
  moreover have "same_data (used 0 as @ used (span as + n) cs) (ram h) (ram h')" by (rule same_data_frame [OF x(5)])
  ultimately show ?thesis using x by (intro exI [of _ as] exI [of _ n] exI [of _ cs]) (auto simp: ac_simps)
qed

end
