(* ===== verification/Mem_Client.thy ===== *)
theory Mem_Client
  imports Mem
begin

text \<open>
  What the users of the heap of \<open>mem.c\<close> get: blocks that stay apart and keep their bytes through any
  sequence of allocations, writes and frees, and the whole heap back in the end. Then shrinking, and
  the requests that wrap.
\<close>

section \<open>Blocks apart\<close>

lemma used_apart:
  "(p, n) \<in> set (used o1 bs) \<Longrightarrow> (q, m) \<in> set (used o1 bs) \<Longrightarrow> sized bs \<Longrightarrow> p = q \<and> n = m \<or> p + n \<le> q \<or> q + m \<le> p"
proof (induction o1 bs rule: used.induct)
  case (2 o1 k u bs)
  then show ?case using used_range [of p n "o1 + k" bs] used_range [of q m "o1 + k" bs] by (auto split: if_splits)
qed simp

lemma used_distinct: "sized bs \<Longrightarrow> distinct (map fst (used o1 bs))"
proof (induction o1 bs rule: used.induct)
  case (2 o1 k u bs)
  moreover have "o1 \<notin> fst ` set (used (o1 + k) bs)" using used_range [of o1 _ "o1 + k" bs] 2(3) by force
  ultimately show ?case by simp
qed simp

lemma used_size: "(p, n) \<in> set (used o1 bs) \<Longrightarrow> sized bs \<Longrightarrow> 20 \<le> n \<and> (4 dvd o1 \<longrightarrow> 4 dvd p)"
  by (induction o1 bs rule: used.induct) (auto split: if_splits)

lemma used_none: "used o1 bs = [] \<Longrightarrow> coalesced bs \<Longrightarrow> bs = [] \<or> (\<exists>n. bs = [(n, False)])"
proof (induction bs rule: induct_list012)
  case (2 x)
  then show ?case by (cases x) (auto split: if_splits)
next
  case (3 x y zs)
  then show ?case by (cases x; cases y) (auto split: if_splits)
qed simp

lemma nodes_used: "(q, m) \<in> set (nodes pv o1 bs) \<Longrightarrow> (p, n) \<in> set (used o1 bs) \<Longrightarrow> sized bs \<Longrightarrow> q = p \<or> q + 20 \<le> p \<or> p + n \<le> q"
proof (induction pv o1 bs rule: nodes.induct)
  case (2 pv o1 k u bs)
  then show ?case using nodes_range [of q m o1 "o1 + k" bs] used_range [of p n "o1 + k" bs] by (auto split: if_splits)
qed simp

lemma header_cong:
  assumes "length b' = length b" "q + 8 \<le> length b" "\<And>i. q \<le> i \<Longrightarrow> i < q + 5 \<Longrightarrow> b' ! i = b ! i"
  shows "header b' q = header b q"
proof -
  have "take 2 (drop q b') = take 2 (drop q b)" "take 2 (drop (q + 2) b') = take 2 (drop (q + 2) b)"
    using assms by (auto intro!: nth_equalityI)
  with assms(2,3) show ?thesis by (simp add: header_def)
qed

text \<open>A write into the data of a used block leaves the structure of the heap alone.\<close>

lemma write_inside:
  assumes "heap_ok h bs" "(p, n) \<in> set (used 0 bs)" "p + 8 \<le> a" "a + length d \<le> p + n"
  shows "\<exists>h'. put_ram a d h = Some h' \<and> heap_ok h' bs \<and> (\<forall>i. i < a \<or> a + length d \<le> i \<longrightarrow> i < ram_size \<longrightarrow> ram h' ! i = ram h ! i)
     \<and> take (length d) (drop a (ram h')) = d"
proof -
  have ok: "length (ram h) = ram_size" "sized bs" "span bs = MEM_SIZE_ALIGNED" "rep (ram h) bs" using assms(1) by (simp_all add: heap_ok_def)
  have size: "ram_size = MEM_SIZE_ALIGNED + 16" by (simp add: ram_size_def SIZEOF_STRUCT_MEM_def)
  have r: "p + n \<le> MEM_SIZE_ALIGNED" using used_range [OF assms(2)] ok(3) by simp
  then obtain b where b: "wr_at (ram h) a d = Some b" using assms(4) ok(1) size by (auto simp: wr_at_def)
  have l: "length b = ram_size" using wr_at_length [OF b] ok(1) by simp
  have eq: "b ! i = ram h ! i" if "i < a \<or> a + length d \<le> i" "i < ram_size" for i
    using wr_at_nth [OF b, of i] that ok(1) by auto
  have hd: "header b q = header (ram h) q" if "q + 8 \<le> ram_size" "q = p \<or> q + 20 \<le> p \<or> p + n \<le> q" for q
    by (rule header_cong) (use l ok(1) that assms(3,4) in \<open>auto intro!: eq\<close>)
  have "header b q = m" if "(q, m) \<in> set (nodes 0 0 bs)" for q m
  proof -
    have "q + 20 \<le> MEM_SIZE_ALIGNED" using nodes_range [OF that ok(2)] ok(3) by simp
    then have "header b q = header (ram h) q" using nodes_used [OF that assms(2) ok(2)] size by (intro hd) auto
    with ok(4) that show ?thesis by (auto simp: rep_def)
  qed
  moreover have "m_used (header b ram_end) \<noteq> 0" using hd [of ram_end] r ok(4) size by (simp add: rep_def)
  ultimately have "rep b bs" by (auto simp: rep_def)
  then have "heap_ok (h\<lparr>ram := b\<rparr>) bs" using assms(1) l by (simp add: heap_ok_def)
  moreover have "take (length d) (drop a b) = d" using rd_wr_same [OF b] by (simp add: rd_at_def split: if_splits)
  ultimately show ?thesis using b eq by (auto simp: put_ram_def)
qed

section \<open>A client\<close>

text \<open>
  A client holds blocks, each with the bytes it expects there. It asks for a block (and finds what
  bytes the heap left there), writes into a block inside the size it asked for, and frees a block.
\<close>

datatype heap_op = Malloc u16 | Store nat nat bytes | Free nat

type_synonym held = "(nat \<times> bytes) list"

definition held_block :: "nat \<Rightarrow> nat \<Rightarrow> mem_heap \<Rightarrow> nat \<times> bytes" where
  "held_block r n h = (r, take n (drop r (ram h)))"

fun client_op :: "heap_op \<Rightarrow> mem_heap \<times> held \<Rightarrow> (mem_heap \<times> held) option" where
  "client_op (Malloc sz) (h, live) = do {
     (r, h) \<leftarrow> mem_malloc sz h;
     Some (h, case r of None \<Rightarrow> live | Some r \<Rightarrow> live @ [held_block r (unat sz) h]) }"
| "client_op (Store k off d) (h, live) =
     (if k < length live \<and> off + length d \<le> length (snd (live ! k)) then do {
        h \<leftarrow> put_ram (fst (live ! k) + off) d h;
        Some (h, live[k := (fst (live ! k), take off (snd (live ! k)) @ d @ drop (off + length d) (snd (live ! k)))]) }
      else Some (h, live))"
| "client_op (Free k) (h, live) =
     (if k < length live then do {
        h \<leftarrow> mem_free (Some (fst (live ! k))) h;
        Some (h, take k live @ drop (Suc k) live) }
      else Some (h, live))"

fun client :: "heap_op list \<Rightarrow> mem_heap \<times> held \<Rightarrow> (mem_heap \<times> held) option" where
  "client [] s = Some s"
| "client (x # xs) s = do { s \<leftarrow> client_op x s; client xs s }"

text \<open>The sizes the 16-bit rounding does not wrap.\<close>

fun small_op :: "heap_op \<Rightarrow> bool" where
  "small_op (Malloc sz) \<longleftrightarrow> unat sz \<le> 65532"
| "small_op _ \<longleftrightarrow> True"

definition holds :: "mem_heap \<Rightarrow> blocks \<Rightarrow> nat \<times> bytes \<Rightarrow> bool" where
  "holds h bs x \<longleftrightarrow> (case x of (r, d) \<Rightarrow> \<exists>p n. r = p + 8 \<and> (p, n) \<in> set (used 0 bs) \<and> length d + 8 \<le> n \<and> take (length d) (drop r (ram h)) = d)"

definition client_ok :: "mem_heap \<times> held \<Rightarrow> bool" where
  "client_ok s \<longleftrightarrow> (case s of (h, live) \<Rightarrow> \<exists>bs. heap_ok h bs \<and> distinct (map fst live) \<and> (\<forall>x \<in> set live. holds h bs x)
     \<and> fst ` set live = (\<lambda>x. fst x + 8) ` set (used 0 bs))"

lemma holds_keep:
  assumes "holds h bs (r, d)" "heap_ok h bs" "heap_ok h' bs'" "(r - 8, n) \<in> set (used 0 bs')" "(r - 8, n) \<in> set (used 0 bs)"
    "\<And>i. r \<le> i \<Longrightarrow> i < r + length d \<Longrightarrow> ram h' ! i = ram h ! i"
  shows "holds h' bs' (r, d)"
proof -
  from assms(1) obtain p m where p: "r = p + 8" "(p, m) \<in> set (used 0 bs)" "length d + 8 \<le> m" "take (length d) (drop r (ram h)) = d"
    by (auto simp: holds_def)
  have s: "sized bs" "span bs = MEM_SIZE_ALIGNED" "length (ram h) = ram_size" "length (ram h') = ram_size"
    using assms(2,3) by (simp_all add: heap_ok_def)
  have "m = n" using used_apart [OF p(2), of p n] assms(5) p(1) s(1) used_size [OF p(2) s(1)] used_size [of p n 0 bs] by auto
  moreover have "r + length d \<le> ram_size"
    using used_range [OF p(2)] p(1,3) s(2) by (simp add: ram_size_def)
  then have "take (length d) (drop r (ram h')) = take (length d) (drop r (ram h))"
    using s(3,4) assms(6) by (auto intro!: nth_equalityI)
  ultimately show ?thesis using p assms(4) by (auto simp: holds_def)
qed

lemma malloc_op:
  assumes "client_ok (h, live)" "unat sz \<le> 65532"
  shows "\<exists>s. client_op (Malloc sz) (h, live) = Some s \<and> client_ok s"
proof -
  from assms(1) obtain bs where bs: "heap_ok h bs" "distinct (map fst live)" "\<forall>x \<in> set live. holds h bs x"
    "fst ` set live = (\<lambda>x. fst x + 8) ` set (used 0 bs)" by (auto simp: client_ok_def)
  show ?thesis
  proof (cases "sz = 0 \<or> fit (request sz) 0 bs = None")
    case True
    then have "mem_malloc sz h = Some (None, h)" using mem_malloc_fit [OF bs(1), of sz] by (auto simp: mem_malloc_def)
    with assms(1) show ?thesis by simp
  next
    case False
    then obtain p h' where "mem_malloc sz h = Some (Some (p + 8), h')" using mem_malloc_fit [OF bs(1), of sz] by auto
    moreover from mem_malloc_used [OF bs(1) this] obtain as n cs where x: "bs = as @ (n, False) # cs" "p = span as" "request sz + 8 \<le> n"
      "heap_ok h' (as @ split_block (request sz) n @ cs)" "same_data (used 0 bs) (ram h) (ram h')" by auto
    let ?bs = "as @ split_block (request sz) n @ cs" and ?d = "take (unat sz) (drop (p + 8) (ram h'))"
    have ok: "sized bs" "span bs = MEM_SIZE_ALIGNED" "sized ?bs" "span ?bs = MEM_SIZE_ALIGNED" "length (ram h') = ram_size"
      using bs(1) x(4) by (simp_all add: heap_ok_def)
    define m where "m = (if request sz + 28 \<le> n then request sz + 8 else n)"
    have "span (split_block (request sz) n) = n" using x(3) by (simp add: split_block_def)
    moreover have "used p (split_block (request sz) n) = [(p, m)]" by (simp add: split_block_def m_def)
    ultimately have m: "used 0 ?bs = used 0 as @ (p, m) # used (span as + n) cs" "request sz + 8 \<le> m"
      using x(2,3) by (simp_all add: m_def)
    have ub: "used 0 bs = used 0 as @ used (span as + n) cs" by (simp add: x)
    have "p + m \<le> MEM_SIZE_ALIGNED" using used_range [of p m 0 ?bs, unfolded m(1)] ok(4) by simp
    then have "length ?d = unat sz" using request_covers [OF assms(2)] m(2) ok(5) by (simp add: ram_size_def)
    then have "holds h' ?bs (p + 8, ?d)" using m request_covers [OF assms(2)] by (auto simp: holds_def)
    moreover have "holds h' ?bs y" if "y \<in> set live" for y
    proof -
      obtain r d where y: "y = (r, d)" by force
      from bs(3) that y obtain q k where q: "r = q + 8" "(q, k) \<in> set (used 0 bs)" "length d + 8 \<le> k" by (fastforce simp: holds_def)
      have "ram h' ! i = ram h ! i" if "q + 8 \<le> i" "i < q + k" for i
        using x(5) q(2) that unfolding same_data_def by blast
      moreover have "(q, k) \<in> set (used 0 ?bs)" unfolding m(1) using q(2) ub by auto
      moreover have "holds h bs (r, d)" using bs(3) that y by blast
      ultimately show ?thesis unfolding y using q
        by (intro holds_keep [OF _ bs(1) x(4), of _ _ k]) auto
    qed
    moreover have "p \<notin> fst ` set (used 0 bs)" using used_distinct [OF ok(3), of 0, unfolded m(1)] unfolding ub by (auto simp: image_iff)
    then have "p + 8 \<notin> fst ` set live" unfolding bs(4) by force
    ultimately have "client_ok (h', live @ [held_block (p + 8) (unat sz) h'])"
      using x(4) bs(2,4) unfolding client_ok_def held_block_def
      by (auto intro!: exI [of _ ?bs] simp: m(1) ub simp del: used_append)
    with \<open>mem_malloc sz h = _\<close> show ?thesis by simp
  qed
qed

lemma store_op:
  assumes "client_ok (h, live)"
  shows "\<exists>s. client_op (Store k off d) (h, live) = Some s \<and> client_ok s"
proof (cases "k < length live \<and> off + length d \<le> length (snd (live ! k))")
  case True
  from assms obtain bs where bs: "heap_ok h bs" "distinct (map fst live)" "\<forall>x \<in> set live. holds h bs x"
    "fst ` set live = (\<lambda>x. fst x + 8) ` set (used 0 bs)" by (auto simp: client_ok_def)
  obtain r e where re: "live ! k = (r, e)" by force
  have inl: "(r, e) \<in> set live" using True re nth_mem by metis
  with bs(3) obtain p n where p: "r = p + 8" "(p, n) \<in> set (used 0 bs)" "length e + 8 \<le> n" "take (length e) (drop r (ram h)) = e"
    by (fastforce simp: holds_def)
  have ol: "off + length d \<le> length e" using True re by simp
  from write_inside [OF bs(1) p(2), of "r + off" d] p(1,3) ol obtain h' where h': "put_ram (r + off) d h = Some h'" "heap_ok h' bs"
    "\<And>i. i < r + off \<or> r + off + length d \<le> i \<Longrightarrow> i < ram_size \<Longrightarrow> ram h' ! i = ram h ! i" "take (length d) (drop (r + off) (ram h')) = d" by auto
  have s: "sized bs" "span bs = MEM_SIZE_ALIGNED" "length (ram h) = ram_size" "length (ram h') = ram_size" using bs(1) h'(2) by (simp_all add: heap_ok_def)
  have rs: "p + n \<le> ram_size" using used_range [OF p(2)] s(2) by (simp add: ram_size_def)
  let ?e = "take off e @ d @ drop (off + length d) e"
  have "ram h' = take (r + off) (ram h) @ d @ drop (r + off + length d) (ram h)"
    using h'(1) by (auto simp: put_ram_def wr_at_def split: if_splits)
  moreover have "take (length e) (drop r (take (r + off) (ram h) @ d @ drop (r + off + length d) (ram h))) =
      take off (take (length e) (drop r (ram h))) @ d @ drop (off + length d) (take (length e) (drop r (ram h)))"
    by (rule take_drop_splice) (use p(1,3) rs s(3) ol in auto)
  ultimately have "take (length e) (drop r (ram h')) = ?e" by (simp only: p(4))
  then have "holds h' bs (r, ?e)" using p ol by (auto simp: holds_def)
  moreover have "holds h' bs y" if "y \<in> set live" "fst y \<noteq> r" for y
  proof -
    obtain q c where y: "y = (q, c)" by force
    from bs(3) that y obtain t m where t: "q = t + 8" "(t, m) \<in> set (used 0 bs)" "length c + 8 \<le> m" by (fastforce simp: holds_def)
    have "t + m \<le> p \<or> p + n \<le> t" using used_apart [OF t(2) p(2) s(1)] that(2) p(1) t(1) y by auto
    moreover have "t + m \<le> ram_size" using used_range [OF t(2)] s(2) by (simp add: ram_size_def)
    moreover have "holds h bs (q, c)" using bs(3) that y by blast
    ultimately show ?thesis unfolding y using t p(1,3) ol
      by (intro holds_keep [OF _ bs(1) h'(2), of _ _ m]) (auto intro!: h'(3))
  qed
  moreover have "x = (r, ?e) \<or> x \<in> set live \<and> fst x \<noteq> r" if "x \<in> set (live[k := (r, ?e)])" for x
  proof -
    from that obtain j where j: "j < length live" "x = live[k := (r, ?e)] ! j" by (auto simp: in_set_conv_nth)
    show ?thesis
    proof (cases "j = k")
      case False
      then have "fst (live ! j) \<noteq> fst (live ! k)" using nth_eq_iff_index_eq [OF bs(2), of j k] j(1) True by simp
      with False j re show ?thesis by simp
    qed (use j in simp)
  qed
  ultimately have "\<forall>x \<in> set (live[k := (r, ?e)]). holds h' bs x" by blast
  moreover have m: "map fst (live[k := (r, ?e)]) = map fst live" using True re by (simp add: map_update list_update_same_conv)
  then have "fst ` set (live[k := (r, ?e)]) = fst ` set live" by (metis list.set_map)
  ultimately have "client_ok (h', live[k := (r, ?e)])" using h'(2) bs(2,4) m by (auto simp: client_ok_def)
  with True h'(1) re show ?thesis by simp
qed (use assms in auto)

lemma used_split: "(p, n) \<in> set (used o1 bs) \<Longrightarrow> \<exists>as cs. bs = as @ (n, True) # cs \<and> p = o1 + span as"
proof (induction o1 bs rule: used.induct)
  case (2 o1 k u bs)
  show ?case
  proof (cases "u \<and> (p, n) = (o1, k)")
    case True
    then show ?thesis by (intro exI [of _ "[] :: blocks"] exI [of _ bs]) simp
  next
    case False
    with 2 obtain as cs where "bs = as @ (n, True) # cs" "p = o1 + k + span as" by (auto split: if_splits)
    then show ?thesis by (intro exI [of _ "(k, u) # as"] exI [of _ cs]) simp
  qed
qed simp

lemma free_op:
  assumes "client_ok (h, live)"
  shows "\<exists>s. client_op (Free k) (h, live) = Some s \<and> client_ok s"
proof (cases "k < length live")
  case True
  from assms obtain bs where bs: "heap_ok h bs" "distinct (map fst live)" "\<forall>x \<in> set live. holds h bs x"
    "fst ` set live = (\<lambda>x. fst x + 8) ` set (used 0 bs)" by (auto simp: client_ok_def)
  obtain r d where rd: "live ! k = (r, d)" by force
  have "(r, d) \<in> set live" using True rd nth_mem by metis
  with bs(3) obtain p n where p: "r = p + 8" "(p, n) \<in> set (used 0 bs)" by (fastforce simp: holds_def)
  from used_split [OF p(2)] obtain as cs where x: "bs = as @ (n, True) # cs" "p = span as" by auto
  from mem_free_merge [OF bs(1) [unfolded x(1)]] obtain h' where h': "mem_free (Some r) h = Some h'" "heap_ok h' (free_block as n cs)"
    "same_data (used 0 (free_block as n cs)) (ram h) (ram h')" by (auto simp: p(1) x(2))
  have u: "used 0 bs = used 0 as @ (p, n) # used (span as + n) cs" by (simp add: x)
  have u': "used 0 (free_block as n cs) = used 0 as @ used (span as + n) cs" by (rule used_free_block)
  have s: "sized bs" using bs(1) by (simp add: heap_ok_def)
  let ?live = "take k live @ drop (Suc k) live"
  have live: "live = take k live @ (r, d) # drop (Suc k) live" using True rd id_take_nth_drop [of k live] by simp
  have d: "distinct (map fst (take k live @ (r, d) # drop (Suc k) live))" using bs(2) live by simp
  have "holds h' (free_block as n cs) y" if "y \<in> set ?live" for y
  proof -
    obtain q c where y: "y = (q, c)" by force
    have "y \<in> set live" using that by (subst live) auto
    then have hy: "holds h bs (q, c)" using bs(3) y by blast
    then obtain t m where t: "q = t + 8" "(t, m) \<in> set (used 0 bs)" "length c + 8 \<le> m" by (auto simp: holds_def)
    have "q \<noteq> r" using d that y by force
    then have tm: "(t, m) \<in> set (used 0 (free_block as n cs))" using t(1,2) p(1) unfolding u u' by auto
    have "ram h' ! i = ram h ! i" if "t + 8 \<le> i" "i < t + m" for i
      using h'(3) tm that unfolding same_data_def by blast
    then show ?thesis unfolding y using t tm
      by (intro holds_keep [OF hy bs(1) h'(2), of m]) auto
  qed
  moreover have "fst ` set ?live = (\<lambda>x. fst x + 8) ` set (used 0 (free_block as n cs))"
  proof -
    have "fst ` set ?live = fst ` set live - {r}" using d by (subst (3) live) (auto simp: image_Un)
    also have "\<dots> = (\<lambda>x. fst x + 8) ` set (used 0 bs) - {p + 8}" by (simp only: bs(4) p(1))
    also have "\<dots> = (\<lambda>x. fst x + 8) ` set (used 0 (free_block as n cs))"
      using used_distinct [OF s, of 0] unfolding u u' by force
    finally show ?thesis .
  qed
  moreover have "distinct (map fst ?live)" using d by simp
  ultimately have "client_ok (h', ?live)" using h'(2) by (auto simp: client_ok_def)
  with True h'(1) rd show ?thesis by simp
qed (use assms in auto)

lemma client_serves: "client_ok s \<Longrightarrow> \<forall>x \<in> set ops. small_op x \<Longrightarrow> \<exists>t. client ops s = Some t \<and> client_ok t"
proof (induction ops arbitrary: s)
  case (Cons x ops)
  obtain h live where s: "s = (h, live)" by force
  have "\<exists>u. client_op x s = Some u \<and> client_ok u"
    using Cons.prems malloc_op store_op free_op unfolding s by (cases x) auto
  then obtain u where u: "client_op x s = Some u" "client_ok u" by blast
  from Cons.IH [OF u(2)] Cons.prems(2) u(1) show ?case by simp
qed simp

lemma mem_init_ok:
  assumes "length (ram h) = ram_size"
  shows "\<exists>h'. mem_init h = Some h' \<and> heap_ok h' [(10000, False)]"
proof -
  define b where "b = edit ram_end \<lparr>m_next = of_nat MEM_SIZE_ALIGNED, m_prev = of_nat MEM_SIZE_ALIGNED, m_used = 1\<rparr>
    (edit 0 \<lparr>m_next = of_nat MEM_SIZE_ALIGNED, m_prev = 0, m_used = 0\<rparr> (ram h))"
  have size: "(8::nat) \<le> ram_size" "ram_end + 8 \<le> ram_size" "8 \<le> ram_end" by (simp_all add: ram_size_def MEM_SIZE_ALIGNED_def SIZEOF_STRUCT_MEM_def)
  have e: "edit p (m\<lparr>m_next := x, m_prev := y, m_used := u\<rparr>) c = edit p \<lparr>m_next = x, m_prev = y, m_used = u\<rparr> c"
    "edit p (m\<lparr>m_used := u, m_next := x, m_prev := y\<rparr>) c = edit p \<lparr>m_next = x, m_prev = y, m_used = u\<rparr> c" for p c x y u and m :: mem
    by (cases m; simp)+
  have "mem_init h = Some (h\<lparr>ram := b, lfree := 0\<rparr>)"
    using size assms by (simp add: mem_init_def set_field_ok header_edit b_def e del: of_nat_numeral)
  moreover have "header b 0 = \<lparr>m_next = of_nat MEM_SIZE_ALIGNED, m_prev = 0, m_used = 0\<rparr>" "m_used (header b ram_end) = 1"
    using size assms by (simp_all add: b_def header_edit)
  then have "rep b [(10000, False)]" by (simp add: rep_def MEM_SIZE_ALIGNED_def)
  moreover have "length b = ram_size" using size assms by (simp add: b_def)
  ultimately show ?thesis by (simp add: heap_ok_def MEM_SIZE_ALIGNED_def)
qed

section \<open>Shrinking a block\<close>

definition new_hole :: "nat \<Rightarrow> nat \<Rightarrow> nat \<Rightarrow> mem_heap \<Rightarrow> mem_heap option" where
  "new_hole p q e h = do {
     h \<leftarrow> set_used q 0 h;
     h \<leftarrow> set_next q (of_nat e) h;
     h \<leftarrow> set_prev q (of_nat p) h;
     h \<leftarrow> set_next p (of_nat q) h;
     if (of_nat e :: u16) \<noteq> of_nat MEM_SIZE_ALIGNED then set_prev e (of_nat q) h else Some h }"

lemma new_hole_ok:
  assumes "header (ram h) p = \<lparr>m_next = x, m_prev = v, m_used = u\<rparr>" "e \<le> MEM_SIZE_ALIGNED" "p + 20 \<le> q" "q + 20 \<le> e" "length (ram h) = ram_size"
  shows "\<exists>b. new_hole p q e h = Some (h\<lparr>ram := b\<rparr>) \<and> length b = ram_size
     \<and> header b p = \<lparr>m_next = of_nat q, m_prev = v, m_used = u\<rparr> \<and> header b q = \<lparr>m_next = of_nat e, m_prev = of_nat p, m_used = 0\<rparr>
     \<and> header b e = (if e = MEM_SIZE_ALIGNED then header (ram h) e else (header (ram h) e)\<lparr>m_prev := of_nat q\<rparr>)
     \<and> (\<forall>y. y + 8 \<le> ram_size \<and> (y + 8 \<le> p \<or> e + 8 \<le> y) \<longrightarrow> header b y = header (ram h) y)
     \<and> (\<forall>i. i < p \<or> p + 8 \<le> i \<and> i < q \<or> e + 8 \<le> i \<longrightarrow> b ! i = ram h ! i)"
proof -
  have d: "p + 8 \<le> ram_size" "q + 8 \<le> ram_size" "e + 8 \<le> ram_size" using assms(2-4) by (simp_all add: ram_size_def SIZEOF_STRUCT_MEM_def)
  note dis = d assms(3,4,5)
  define b1 where "b1 = edit p \<lparr>m_next = of_nat q, m_prev = v, m_used = u\<rparr> (edit q \<lparr>m_next = of_nat e, m_prev = of_nat p, m_used = 0\<rparr> (ram h))"
  define b where "b = (if e = MEM_SIZE_ALIGNED then b1 else edit e ((header (ram h) e)\<lparr>m_prev := of_nat q\<rparr>) b1)"
  have "new_hole p q e h = Some (h\<lparr>ram := b\<rparr>)"
    using dis by (simp add: new_hole_def assms(1) set_field_ok header_edit u16_end [OF assms(2)] b_def b1_def del: of_nat_add of_nat_numeral)
  then show ?thesis using dis by (intro exI [of _ b]) (auto simp: b_def b1_def header_edit edit_nth)
qed

definition trim_block :: "nat \<Rightarrow> nat \<Rightarrow> blocks \<Rightarrow> blocks" where
  "trim_block k n bs = (if n = k + 8 then (n, True) # bs else case bs of
       (m, False) # cs \<Rightarrow> (k + 8, True) # (n + m - k - 8, False) # cs
     | _ \<Rightarrow> if k + 28 \<le> n then (k + 8, True) # (n - k - 8, False) # bs else (n, True) # bs)"

lemma mem_trim_cut:
  assumes "heap_ok h (as @ ms @ cs)" "ms = (n, True) # ns" "span ms = k + 8 + j" "20 \<le> j" "4 dvd j" "4 dvd k" "12 \<le> k" "k + 8 < n"
    "ns = [] \<and> (cs = [] \<or> snd (hd cs)) \<or> (\<exists>m. ns = [(m, False)])"
  shows "\<exists>b. new_hole (span as) (span as + 8 + k) (span as + span ms) h = Some (h\<lparr>ram := b\<rparr>)
     \<and> heap_ok (h\<lparr>ram := b, lfree := lowest 0 (as @ [(k + 8, True), (j, False)] @ cs)\<rparr>) (as @ [(k + 8, True), (j, False)] @ cs)
     \<and> (\<forall>i. i < span as \<or> span as + 8 \<le> i \<and> i < span as + 8 + k \<or> span as + span ms + 8 \<le> i \<longrightarrow> b ! i = ram h ! i)"
proof -
  define p q e where "p = span as" and "q = span as + 8 + k" and "e = span as + span ms"
  have ok: "length (ram h) = ram_size" "rep (ram h) (as @ ms @ cs)" "sized (as @ ms @ cs)" "span (as @ ms @ cs) = MEM_SIZE_ALIGNED"
    "coalesced (as @ ms @ cs)" using assms(1) by (simp_all add: heap_ok_def)
  have hp: "header (ram h) p = \<lparr>m_next = of_nat (p + n), m_prev = of_nat (last_at 0 0 as), m_used = 1\<rparr>"
    using rep_at [of "ram h" as n True "ns @ cs"] ok(2) by (simp add: assms(2) p_def)
  have d: "e \<le> MEM_SIZE_ALIGNED" "p + 20 \<le> q" "q + 20 \<le> e" "q + j = e" "p + (k + 8) = q"
    using ok(4) assms(3,4,7) by (simp_all add: e_def p_def q_def)
  from new_hole_ok [OF hp d(1-3) ok(1)] obtain b where b: "new_hole p q e h = Some (h\<lparr>ram := b\<rparr>)" "length b = ram_size"
    "header b p = \<lparr>m_next = of_nat q, m_prev = of_nat (last_at 0 0 as), m_used = 1\<rparr>" "header b q = \<lparr>m_next = of_nat e, m_prev = of_nat p, m_used = 0\<rparr>"
    "header b e = (if e = MEM_SIZE_ALIGNED then header (ram h) e else (header (ram h) e)\<lparr>m_prev := of_nat q\<rparr>)"
    "\<And>y. y + 8 \<le> ram_size \<Longrightarrow> y + 8 \<le> p \<or> e + 8 \<le> y \<Longrightarrow> header b y = header (ram h) y"
    "\<And>i. i < p \<or> p + 8 \<le> i \<and> i < q \<or> e + 8 \<le> i \<Longrightarrow> b ! i = ram h ! i" by blast
  have cs: "e = MEM_SIZE_ALIGNED \<longleftrightarrow> cs = []" using ok(3,4) by (cases cs) (auto simp: e_def)
  let ?bs = "as @ [(k + 8, True), (j, False)] @ cs"
  have "rep b ?bs"
  proof (rule rep_replace [of "ram h" as ms cs])
    show "header b x = m" if "(x, m) \<in> set (nodes (last_at 0 0 as) (span as) [(k + 8, True), (j, False)])" for x m
      using that b(3,4) d(4,5) by (auto simp: p_def simp del: of_nat_add)
    show "m_next (header b (span as + span ms)) = m_next (header (ram h) (span as + span ms))"
      "m_used (header b (span as + span ms)) = m_used (header (ram h) (span as + span ms))"
      using b(5) by (simp_all add: e_def [symmetric])
    show "m_prev (header b (span as + span ms)) = of_nat (last_at 0 0 (as @ [(k + 8, True), (j, False)]))" if "cs \<noteq> []"
      using b(5) that cs d(5) by (simp add: e_def p_def del: of_nat_add)
  qed (use ok b(6) assms(3) in \<open>auto simp: p_def e_def\<close>)
  moreover have "coalesced ?bs" using ok(5) assms(2,9) by (auto simp: coalesced_append)
  moreover have "sized ?bs" "span ?bs = MEM_SIZE_ALIGNED" using ok(3,4) assms(3-7) by simp_all
  ultimately have "heap_ok (h\<lparr>ram := b, lfree := lowest 0 ?bs\<rparr>) ?bs" using b(2) by (simp add: heap_ok_def)
  then show ?thesis using b(1,7) by (auto simp: p_def q_def e_def)
qed

lemma put_ram_lfree: "put_ram p d (h\<lparr>lfree := x\<rparr>) = map_option (\<lambda>h. h\<lparr>lfree := x\<rparr>) (put_ram p d h)"
  by (cases "wr_at (ram h) p d") (simp_all add: put_ram_def)

lemma new_hole_lfree: "new_hole p q e h = Some (h\<lparr>ram := b\<rparr>) \<Longrightarrow> new_hole p q e (h\<lparr>lfree := x\<rparr>) = Some (h\<lparr>ram := b, lfree := x\<rparr>)"
  by (auto simp: new_hole_def set_next_def set_prev_def set_used_def put_ram_lfree bind_eq_Some_conv split: if_splits)

lemma same_data_insert: "same_data (xs @ y # zs) a b \<longleftrightarrow> same_data (xs @ zs) a b \<and> same_data [y] a b"
  unfolding same_data_def by (simp add: all_conj_distrib [symmetric]) blast

lemma lowest_swap: "lowest 0 (as @ (n, True) # bs) = (if all_used as then lowest (span as + n) bs else lowest 0 as)"
  "lowest 0 (as @ (n, False) # bs) = (if all_used as then span as else lowest 0 as)"
  by (simp_all add: lowest_append)

lemma mem_trim_list:
  assumes "heap_ok h (as @ (n, True) # bs)"
  shows "\<exists>h'. mem_trim (span as + 8) sz h = Some (if n < request sz + 8 then None else Some (span as + 8), h')
     \<and> heap_ok h' (if n < request sz + 8 then as @ (n, True) # bs else as @ trim_block (request sz) n bs)
     \<and> same_data (used 0 as @ (span as, min n (request sz + 8)) # used (span as + n) bs) (ram h) (ram h')"
proof -
  define k p where "k = request sz" and "p = span as"
  note k = request_simps [of sz, folded k_def]
  have ok: "length (ram h) = ram_size" "rep (ram h) (as @ (n, True) # bs)" "sized (as @ (n, True) # bs)" "span (as @ (n, True) # bs) = MEM_SIZE_ALIGNED"
    "coalesced (as @ (n, True) # bs)" "lfree h = lowest 0 (as @ (n, True) # bs)"
    using assms by (simp_all add: heap_ok_def)
  have n: "20 \<le> n" "4 dvd n" "p + n \<le> MEM_SIZE_ALIGNED" using ok(3,4) by (simp_all add: p_def)
  have sh: "shape h (as @ (n, True) # bs)" using ok by (simp add: shape_def)
  note nx = shape_next [OF sh, folded p_def]
  have g: "get_mem p h = Some \<lparr>m_next = of_nat (p + n), m_prev = of_nat (last_at 0 0 as), m_used = 1\<rparr>"
    using block_next(1) [OF ok(1,2,4)] by (simp add: p_def)
  have "(of_nat (p + n) - of_nat p - of_nat SIZEOF_STRUCT_MEM :: u16) = of_nat (n - 8)"
    using n(1) by (simp add: SIZEOF_STRUCT_MEM_def of_nat_diff)
  then have sz: "unat (of_nat (p + n) - of_nat p - of_nat SIZEOF_STRUCT_MEM :: u16) = n - 8"
    using n(3) by (simp only:) (simp add: unat16_of_nat MEM_SIZE_ALIGNED_def)
  have r: "\<not> p + 8 \<ge> ram_end" using n by simp
  have refl: "same_data us (ram h) (ram h)" for us by (simp add: same_data_def)
  have trim: "mem_trim (p + 8) sz h = (if k > MEM_SIZE_ALIGNED \<or> k > n - 8 then Some (None, h) else if k = n - 8 then Some (Some (p + 8), h)
     else do {
         m2 \<leftarrow> get_mem (p + n) h;
         if m_used m2 = 0 then do {
           h \<leftarrow> new_hole p (p + 8 + k) (unat (m_next m2)) (if lfree h = p + n then h\<lparr>lfree := p + 8 + k\<rparr> else h);
           Some (Some (p + 8), h) }
         else if k + 8 + 12 \<le> n - 8 then do {
           h \<leftarrow> new_hole p (p + 8 + k) (p + n) (if p + 8 + k < lfree h then h\<lparr>lfree := p + 8 + k\<rparr> else h);
           Some (Some (p + 8), h) }
         else Some (Some (p + 8), h) })"
    using r sz nx(2) g
    by (auto simp: mem_trim_def Let_def request_def [symmetric] k_def [symmetric] MIN_SIZE_ALIGNED_def SIZEOF_STRUCT_MEM_def new_hole_def
        simp del: of_nat_add cong: if_cong split: bind_splits)
  note trim' = trim [unfolded p_def]
  consider "n < k + 8" | "n = k + 8" | (merge) m cs where "k + 8 < n" "bs = (m, False) # cs"
    | (cut) "k + 28 \<le> n" "bs = [] \<or> snd (hd bs)" | (keep) "k + 8 < n" "n < k + 28" "bs = [] \<or> snd (hd bs)"
    by (cases bs) (fastforce, force)
  moreover have between: "\<not> k > MEM_SIZE_ALIGNED" "\<not> k > n - 8" "k \<noteq> n - 8" if "k + 8 < n" using that n by auto
  ultimately show ?thesis
  proof cases
    case 1
    then have "k > n - 8" using n by simp
    with 1 trim' assms refl show ?thesis by (simp add: k_def [symmetric])
  next
    case 2
    then have "\<not> (k > MEM_SIZE_ALIGNED \<or> k > n - 8)" "k = n - 8" using n by simp_all
    with 2 trim' assms refl show ?thesis by (simp add: k_def [symmetric] trim_block_def)
  next
    case merge
    define j where "j = n + m - k - 8"
    have m: "20 \<le> m" "4 dvd m" using ok(3) merge(2) by simp_all
    have "4 dvd j" using n(2) m(2) k(2) merge(1) unfolding j_def by presburger
    then have "\<exists>b. new_hole (span as) (span as + 8 + k) (span as + span [(n, True), (m, False)]) h = Some (h\<lparr>ram := b\<rparr>)
     \<and> heap_ok (h\<lparr>ram := b, lfree := lowest 0 (as @ [(k + 8, True), (j, False)] @ cs)\<rparr>) (as @ [(k + 8, True), (j, False)] @ cs)
     \<and> (\<forall>i. i < span as \<or> span as + 8 \<le> i \<and> i < span as + 8 + k \<or> span as + span [(n, True), (m, False)] + 8 \<le> i \<longrightarrow> b ! i = ram h ! i)"
      using assms merge m k by (intro mem_trim_cut [of _ _ _ _ _ "[(m, False)]"]) (simp_all add: j_def)
    then obtain b where b: "new_hole p (p + 8 + k) (p + n + m) h = Some (h\<lparr>ram := b\<rparr>)"
      "heap_ok (h\<lparr>ram := b, lfree := lowest 0 (as @ [(k + 8, True), (j, False)] @ cs)\<rparr>) (as @ [(k + 8, True), (j, False)] @ cs)"
      "\<And>i. i < p \<or> p + 8 \<le> i \<and> i < p + 8 + k \<or> p + n + m + 8 \<le> i \<Longrightarrow> b ! i = ram h ! i" by (auto simp: p_def add.assoc)
    have e: "get_mem (p + n) h = Some \<lparr>m_next = of_nat (p + n + m), m_prev = of_nat p, m_used = 0\<rparr>" "unat (of_nat (p + n + m) :: u16) = p + n + m"
      using block_next [of h "as @ [(n, True)]" m False cs] ok(1,2,4) merge(2) by (simp_all add: p_def add.assoc del: of_nat_add)
    have lf: "(if lfree h = p + n then h\<lparr>lfree := p + 8 + k\<rparr> else h) = h\<lparr>lfree := lowest 0 (as @ [(k + 8, True), (j, False)] @ cs)\<rparr>"
    proof (cases "all_used as")
      case False
      then have "lfree h = lowest 0 as" "lowest 0 as < p" using ok(3,6) lowest_free [OF False, of 0] by (simp_all add: p_def lowest_append)
      with False show ?thesis by (simp add: lowest_append)
    qed (use ok(6) merge(2) in \<open>simp add: lowest_append p_def add.assoc add.commute\<close>)
    have "mem_trim (span as + 8) sz h = Some (Some (span as + 8), h\<lparr>ram := b, lfree := lowest 0 (as @ [(k + 8, True), (j, False)] @ cs)\<rparr>)"
      using merge(1) n e lf new_hole_lfree [OF b(1)] between by (simp add: trim p_def [symmetric] del: of_nat_add)
    moreover have "same_data (used 0 as @ used (span as + (n + m)) cs) (ram h) b"
      by (rule same_data_frame) (use b(3) in \<open>auto simp: p_def\<close>)
    moreover have "same_data [(p, k + 8)] (ram h) b" using b(3) by (auto simp: same_data_def)
    ultimately show ?thesis using merge b(2) by (simp add: k_def [symmetric] trim_block_def j_def same_data_insert p_def add.assoc)
  next
    case cut
    define j where "j = n - k - 8"
    have "4 dvd j" using n(2) k(2) cut(1) unfolding j_def by presburger
    then have "\<exists>b. new_hole (span as) (span as + 8 + k) (span as + span [(n, True)]) h = Some (h\<lparr>ram := b\<rparr>)
     \<and> heap_ok (h\<lparr>ram := b, lfree := lowest 0 (as @ [(k + 8, True), (j, False)] @ bs)\<rparr>) (as @ [(k + 8, True), (j, False)] @ bs)
     \<and> (\<forall>i. i < span as \<or> span as + 8 \<le> i \<and> i < span as + 8 + k \<or> span as + span [(n, True)] + 8 \<le> i \<longrightarrow> b ! i = ram h ! i)"
      using assms cut k by (intro mem_trim_cut [of _ _ _ _ n "[]"]) (simp_all add: j_def)
    then obtain b where b: "new_hole p (p + 8 + k) (p + n) h = Some (h\<lparr>ram := b\<rparr>)"
      "heap_ok (h\<lparr>ram := b, lfree := lowest 0 (as @ [(k + 8, True), (j, False)] @ bs)\<rparr>) (as @ [(k + 8, True), (j, False)] @ bs)"
      "\<And>i. i < p \<or> p + 8 \<le> i \<and> i < p + 8 + k \<or> p + n + 8 \<le> i \<Longrightarrow> b ! i = ram h ! i" by (auto simp: p_def)
    have e: "get_mem (p + n) h = Some (header (ram h) (p + n))" "m_used (header (ram h) (p + n)) \<noteq> 0"
      using nx(1,3) cut(2) rep_end [OF ok(2)] by (auto split: list.splits)
    have lf: "(if p + 8 + k < lfree h then h\<lparr>lfree := p + 8 + k\<rparr> else h) = h\<lparr>lfree := lowest 0 (as @ [(k + 8, True), (j, False)] @ bs)\<rparr>"
    proof (cases "all_used as")
      case True
      then have "lfree h = lowest (p + n) bs" using ok(6) by (simp add: lowest_append p_def)
      then have "p + 8 + k < lfree h" using lowest_bounds [of "p + n" bs] cut(1) by simp
      with True show ?thesis by (simp add: lowest_append p_def add.assoc add.commute)
    next
      case False
      then have "lfree h = lowest 0 as" "lowest 0 as < p" using ok(3,6) lowest_free [OF False, of 0] by (simp_all add: p_def lowest_append)
      with False show ?thesis by (simp add: lowest_append)
    qed
    have "mem_trim (span as + 8) sz h = Some (Some (span as + 8), h\<lparr>ram := b, lfree := lowest 0 (as @ [(k + 8, True), (j, False)] @ bs)\<rparr>)"
      using cut(1) n e lf new_hole_lfree [OF b(1)] between by (simp add: trim p_def [symmetric] del: of_nat_add)
    moreover have "same_data (used 0 as @ used (span as + n) bs) (ram h) b"
      by (rule same_data_frame) (use b(3) in \<open>auto simp: p_def\<close>)
    moreover have "same_data [(p, k + 8)] (ram h) b" using b(3) by (auto simp: same_data_def)
    moreover have "trim_block k n bs = (k + 8, True) # (j, False) # bs"
      using cut by (cases bs) (auto simp: trim_block_def j_def)
    ultimately show ?thesis using cut b(2) by (simp add: k_def [symmetric] same_data_insert p_def)
  next
    case keep
    have e: "get_mem (p + n) h = Some (header (ram h) (p + n))" "m_used (header (ram h) (p + n)) \<noteq> 0"
      using nx(1,3) keep(3) rep_end [OF ok(2)] by (auto split: list.splits)
    have "\<not> 20 + k \<le> n - 8" using keep(1,2) n(1) by auto
    then have "mem_trim (span as + 8) sz h = Some (Some (span as + 8), h)"
      using keep n e between by (simp add: trim p_def [symmetric])
    moreover have "trim_block k n bs = (n, True) # bs" using keep by (cases bs) (auto simp: trim_block_def)
    ultimately show ?thesis using keep assms refl by (simp add: k_def [symmetric])
  qed
qed

section \<open>What the heap guarantees\<close>

definition empty_heap :: mem_heap where
  "empty_heap = \<lparr>ram = replicate ram_size 0, lfree = 0\<rparr>"

lemma empty_heap_init: "\<exists>h. mem_init empty_heap = Some h \<and> heap_ok h [(10000, False)]"
  by (rule mem_init_ok) (simp add: empty_heap_def)

lemma one_block: "heap_ok h [(n, False)] \<Longrightarrow> lfree h = 0 \<and> get_mem 0 h = Some \<lparr>m_next = of_nat MEM_SIZE_ALIGNED, m_prev = 0, m_used = 0\<rparr>"
  using block_next(1) [of h "[]" n False "[]"] by (auto simp: heap_ok_def)



text \<open>
  C3: Allocation is first fit and complete. \<open>mem_malloc\<close> always returns; it fails exactly when no free
  block is large enough for the rounded size; else it takes the first one that is, cuts off a new free
  block when the rest is large enough, and touches the bytes of no used block.
\<close>

theorem mem_malloc_first_fit:
  assumes "heap_ok h bs" "sz \<noteq> 0"
  shows "if \<forall>(n, u) \<in> set bs. u \<or> n < request sz + 8 then mem_malloc sz h = Some (None, h)
     else \<exists>as n cs h'. bs = as @ (n, False) # cs \<and> request sz + 8 \<le> n \<and> (\<forall>(m, u) \<in> set as. u \<or> m < request sz + 8)
       \<and> mem_malloc sz h = Some (Some (span as + 8), h') \<and> heap_ok h' (as @ split_block (request sz) n @ cs)
       \<and> same_data (used 0 bs) (ram h) (ram h')"
proof (cases "fit (request sz) 0 bs")
  case None
  then show ?thesis using mem_malloc_fit [OF assms] fit_None [of "request sz" 0 bs] by simp
next
  case (Some p)
  from mem_malloc_fit [OF assms] Some obtain h' where m: "mem_malloc sz h = Some (Some (p + 8), h')" by auto
  from mem_malloc_used [OF assms(1) m] obtain as n cs where x: "bs = as @ (n, False) # cs" "p = span as" "request sz + 8 \<le> n"
    "heap_ok h' (as @ split_block (request sz) n @ cs)" "same_data (used 0 bs) (ram h) (ram h')" by auto
  have s: "sized as" using assms(1) by (simp add: heap_ok_def x(1))
  have "fit (request sz) 0 as = None"
  proof (rule ccontr)
    assume "fit (request sz) 0 as \<noteq> None"
    then obtain q where q: "fit (request sz) 0 as = Some q" by blast
    have "fit k o1 as = Some q \<Longrightarrow> fit k o1 (as @ ds) = Some q" for k o1 as ds
      by (induction k o1 as rule: fit.induct) (auto split: if_splits)
    from this [OF q] Some have "q = p" by (simp add: x(1))
    moreover from fit_Some [OF q] s have "q < span as" by auto
    ultimately show False using x(2) by simp
  qed
  then have "\<forall>(m, u) \<in> set as. u \<or> m < request sz + 8" by (simp only: fit_None)
  moreover have "\<not> (\<forall>(n, u) \<in> set bs. u \<or> n < request sz + 8)" using x(1,3) by auto
  ultimately show ?thesis using m x by auto
qed

theorem mem_malloc_first_fit_witness:
  "\<exists>h h'. mem_init empty_heap = Some h \<and> mem_malloc 100 h = Some (Some 8, h') \<and> heap_ok h' [(108, True), (9892, False)]"
proof -
  obtain h where h: "mem_init empty_heap = Some h" "heap_ok h [(10000, False)]" using empty_heap_init by blast
  have r: "request 100 = 100" by (simp add: request_def mem_align_def)
  from mem_malloc_first_fit [OF h(2), of 100] obtain as n cs h' where x: "[(10000, False)] = as @ (n, False) # cs"
    "mem_malloc 100 h = Some (Some (span as + 8), h')" "heap_ok h' (as @ split_block 100 n @ cs)" unfolding r by auto
  have "as = [] \<and> cs = [] \<and> n = 10000" using x(1) by (cases as) auto
  with x h(1) show ?thesis by (auto simp: split_block_def)
qed

text \<open>Freeing undoes an allocation: the list of blocks is the one before, and no byte of a used block changed.\<close>

theorem mem_free_undoes_malloc:
  assumes "heap_ok h bs" "mem_malloc sz h = Some (Some r, h1)"
  shows "\<exists>h2. mem_free (Some r) h1 = Some h2 \<and> heap_ok h2 bs \<and> lfree h2 = lfree h \<and> same_data (used 0 bs) (ram h) (ram h2)"
proof -
  from mem_malloc_used [OF assms] obtain as n cs where x: "bs = as @ (n, False) # cs" "r = span as + 8" "request sz + 8 \<le> n"
    "heap_ok h1 (as @ split_block (request sz) n @ cs)" "same_data (used 0 bs) (ram h) (ram h1)" by auto
  have co: "coalesced (as @ (n, False) # cs)" using assms(1) by (simp add: heap_ok_def x(1))
  then have l: "as = [] \<or> snd (last as)" "cs = [] \<or> snd (hd cs)" by (auto simp: coalesced_append)
  define m where "m = (if request sz + 28 \<le> n then request sz + 8 else n)"
  define ds where "ds = (if request sz + 28 \<le> n then (n - request sz - 8, False) # cs else cs)"
  have sp: "split_block (request sz) n @ cs = (m, True) # ds" by (simp add: split_block_def m_def ds_def)
  have "join_next m ds = (n, False) # cs"
  proof (cases "request sz + 28 \<le> n")
    case False
    with l(2) show ?thesis by (cases cs) (auto simp: m_def ds_def intro: join_next.simps)
  qed (simp add: m_def ds_def)
  then have fb: "free_block as m ds = bs" using free_block_last(2) [OF l(1)] by (simp add: x(1))
  from x(4) have h1: "heap_ok h1 (as @ (m, True) # ds)" by (simp only: sp)
  from mem_free_merge [OF h1] obtain h2 where h2: "mem_free (Some r) h1 = Some h2" "heap_ok h2 bs" "same_data (used 0 bs) (ram h1) (ram h2)"
    by (auto simp: x(2) fb)
  moreover have "lfree h2 = lfree h" using h2(2) assms(1) by (simp add: heap_ok_def)
  ultimately show ?thesis using same_data_trans [OF x(5)] by blast
qed

theorem mem_free_undoes_malloc_witness:
  "\<exists>h h1 h2. mem_init empty_heap = Some h \<and> mem_malloc 100 h = Some (Some 8, h1) \<and> mem_free (Some 8) h1 = Some h2 \<and> heap_ok h2 [(10000, False)]"
proof -
  obtain h where h: "mem_init empty_heap = Some h" "heap_ok h [(10000, False)]" using empty_heap_init by blast
  have "request 100 = 100" by (simp add: request_def mem_align_def)
  then obtain h1 where m: "mem_malloc 100 h = Some (Some 8, h1)" using mem_malloc_fit [OF h(2), of 100] by (auto simp: Cons_eq_append_conv)
  from mem_free_undoes_malloc [OF h(2) m] m h(1) show ?thesis by blast
qed

text \<open>
  Shrinking. \<open>mem_trim\<close> to a size the block has keeps the block in its place with its first bytes,
  gives the rest to a free block (joined with a free one behind it) when it is large enough, and
  leaves all other used blocks alone; a larger size is refused and changes nothing.
\<close>

theorem mem_trim_shrinks:
  assumes "heap_ok h (as @ (n, True) # bs)"
  shows "\<exists>h'. mem_trim (span as + 8) sz h = Some (if n < request sz + 8 then None else Some (span as + 8), h')
     \<and> heap_ok h' (if n < request sz + 8 then as @ (n, True) # bs else as @ trim_block (request sz) n bs)
     \<and> same_data (used 0 as @ (span as, min n (request sz + 8)) # used (span as + n) bs) (ram h) (ram h')"
  by (rule mem_trim_list [OF assms])

theorem mem_trim_shrinks_witness:
  "\<exists>h h1 h2. mem_init empty_heap = Some h \<and> mem_malloc 100 h = Some (Some 8, h1) \<and> mem_trim 8 20 h1 = Some (Some 8, h2)
     \<and> heap_ok h2 [(28, True), (9972, False)]"
proof -
  obtain h where h: "mem_init empty_heap = Some h" "heap_ok h [(10000, False)]" using empty_heap_init by blast
  have r: "request 100 = 100" "request 20 = 20" by (simp_all add: request_def mem_align_def)
  then obtain h1 where m: "mem_malloc 100 h = Some (Some 8, h1)" "heap_ok h1 ([] @ (108, True) # [(9892, False)])"
    using mem_malloc_fit [OF h(2), of 100] by (auto simp: Cons_eq_append_conv split_block_def)
  from mem_trim_shrinks [OF m(2), of 20] m(1) h(1) show ?thesis by (auto simp: r trim_block_def)
qed

text \<open>
  A request of 65533 bytes or more wraps to zero when it is rounded up to the alignment: the heap
  answers it with a block of the smallest size, 12 bytes.
\<close>

theorem mem_malloc_wraps:
  assumes "heap_ok h bs" "65533 \<le> unat sz" "\<exists>n. (n, False) \<in> set bs"
  shows "\<exists>as n cs h'. bs = as @ (n, False) # cs \<and> mem_malloc sz h = Some (Some (span as + 8), h') \<and> heap_ok h' (as @ split_block 12 n @ cs)"
proof -
  have "unat (sz + 3) = (unat sz + 3) mod 65536" by (simp add: unat_word_ariths)
  moreover have "(unat sz + 3) mod 65536 < 3" using assms(2) u16_bound [of sz] by (simp add: mod_if) linarith
  ultimately have r: "request sz = 12" by (simp add: request_def mem_align_unat)
  from assms(3) obtain n where n: "(n, False) \<in> set bs" by blast
  have "20 \<le> n" using assms(1) n by (auto simp: heap_ok_def sized_def)
  then have "\<not> (\<forall>(n, u) \<in> set bs. u \<or> n < 12 + 8)" using n by force
  moreover have "sz \<noteq> 0" using assms(2) by auto
  ultimately obtain p where "fit 12 0 bs = Some p" by (cases "fit 12 0 bs") (auto simp: fit_None)
  with mem_malloc_fit [OF assms(1) \<open>sz \<noteq> 0\<close>] show ?thesis unfolding r by auto
qed

theorem mem_malloc_wraps_witness:
  "\<exists>h h'. mem_init empty_heap = Some h \<and> mem_malloc 65535 h = Some (Some 8, h') \<and> heap_ok h' [(20, True), (9980, False)]"
proof -
  obtain h where h: "mem_init empty_heap = Some h" "heap_ok h [(10000, False)]" using empty_heap_init by blast
  from mem_malloc_wraps [OF h(2), of 65535] h(1) show ?thesis by (auto simp: Cons_eq_append_conv split_block_def)
qed

end
