(* ===== verification/Pbuf_Ops.thy ===== *)
theory Pbuf_Ops
  imports Pbuf
begin

text \<open>
  The rest of \<open>src/core/pbuf.c\<close>: copying one packet into another, coalescing, custom buffers and the
  search functions. \<open>Etharp\<close> copies the packets it queues with them, \<open>ip_frag\<close> and the web server use
  the others.

  The lemmas say what a copy into one large enough buffer leaves, and what the comparisons and
  searches return in terms of the bytes of the packet.
\<close>

section \<open>Copying a packet\<close>

text \<open>\<open>p\<close> is the last buffer of one packet and more packets follow.\<close>

definition packet_queue :: "nat option \<Rightarrow> pbuf_mem \<Rightarrow> bool option" where
  "packet_queue p s = (case p of None \<Rightarrow> Some False
     | Some a \<Rightarrow> do { b \<leftarrow> heap s a; Some (p_len b = p_tot_len b \<and> p_next b \<noteq> None) })"

text \<open>Every turn moves on in one of the two chains, so the fuel is only reached by a cyclic chain.\<close>

fun copy_loop :: "nat \<Rightarrow> nat \<Rightarrow> nat \<Rightarrow> nat \<Rightarrow> nat \<Rightarrow> pbuf_mem \<Rightarrow> (err_t \<times> pbuf_mem) option" where
  "copy_loop 0 t ot f off s = None"
| "copy_loop (Suc fuel) t ot f off s = do {
     tb \<leftarrow> heap s t;
     fb \<leftarrow> heap s f;
     let l = (if int (unat (p_len tb)) - int ot \<ge> int (unat (p_len fb)) - int off
              then unat (p_len fb) - off else unat (p_len tb) - ot);
     d \<leftarrow> payload_read f off l s;
     s \<leftarrow> payload_write t ot d s;
     let (f1, off1) = (if off + l \<ge> unat (p_len fb) then (p_next fb, 0) else (Some f, off + l));
     let (t1, ot1) = (if ot + l = unat (p_len tb) then (p_next tb, 0) else (Some t, ot + l));
     if t1 = None \<and> f1 \<noteq> None then Some (ERR_ARG, s)
     else do {
       qf \<leftarrow> packet_queue f1 s;
       qt \<leftarrow> packet_queue t1 s;
       if qf \<or> qt then Some (ERR_VAL, s)
       else (case f1 of None \<Rightarrow> Some (ERR_OK, s)
         | Some f2 \<Rightarrow> (case t1 of None \<Rightarrow> None | Some t2 \<Rightarrow> copy_loop fuel t2 ot1 f2 off1 s)) } }"

definition pbuf_copy :: "nat option \<Rightarrow> nat option \<Rightarrow> pbuf_mem \<Rightarrow> (err_t \<times> pbuf_mem) option" where
  "pbuf_copy p_to p_from s = (case (p_to, p_from) of
     (Some t, Some f) \<Rightarrow> do {
       tb \<leftarrow> heap s t;
       fb \<leftarrow> heap s f;
       if p_tot_len tb \<ge> p_tot_len fb then copy_loop (2 * chain_fuel) t 0 f 0 s else Some (ERR_ARG, s) }
   | _ \<Rightarrow> Some (ERR_ARG, s))"

definition pbuf_coalesce :: "nat \<Rightarrow> pbuf_layer \<Rightarrow> pbuf_mem \<Rightarrow> (nat \<times> pbuf_mem) option" where
  "pbuf_coalesce p layer s = do {
     b \<leftarrow> heap s p;
     if p_next b = None then Some (p, s)
     else do {
       (q, s) \<leftarrow> pbuf_alloc layer (p_tot_len b) PBUF_RAM s;
       case q of None \<Rightarrow> Some (p, s)
       | Some q \<Rightarrow> do {
           (err, s) \<leftarrow> pbuf_copy (Some q) (Some p) s;
           (k, s) \<leftarrow> pbuf_free (Some p) s;
           Some (q, s) } } }"

text \<open>
  A custom buffer lies in the caller's structure at \<open>p\<close>; \<open>payload_mem\<close> is the caller's memory or
  \<open>NULL\<close>, when no byte can be reached through the buffer.
\<close>

definition pbuf_alloced_custom ::
  "pbuf_layer \<Rightarrow> u16 \<Rightarrow> pbuf_type \<Rightarrow> nat \<Rightarrow> bytes option \<Rightarrow> u16 \<Rightarrow> pbuf_mem \<Rightarrow> nat option \<times> pbuf_mem" where
  "pbuf_alloced_custom l n type p payload_mem payload_mem_len s = (let offset = layer_offset l in
     if LWIP_MEM_ALIGN_SIZE offset + unat n > unat payload_mem_len then (None, s)
     else (let b = \<lparr>p_next = None, p_payload = (if payload_mem = None then 0 else LWIP_MEM_ALIGN_SIZE offset),
                   p_tot_len = n, p_len = n, p_type = type, p_flags = PBUF_FLAG_IS_CUSTOM, p_ref = 1\<rparr>
           in (Some p, s\<lparr>heap := (heap s)(p \<mapsto> b), blk := (blk s)(p := case payload_mem of None \<Rightarrow> [] | Some m \<Rightarrow> m)\<rparr>)))"

section \<open>Searching\<close>

text \<open>The buffer that holds the byte at an offset, and the offset in it.\<close>

fun at_offset :: "nat \<Rightarrow> nat option \<Rightarrow> u16 \<Rightarrow> pbuf_mem \<Rightarrow> (nat option \<times> u16) option" where
  "at_offset fuel None n s = Some (None, n)"
| "at_offset 0 (Some a) n s = None"
| "at_offset (Suc fuel) (Some a) n s = do {
     b \<leftarrow> heap s a;
     if p_len b \<le> n then at_offset fuel (p_next b) (n - p_len b) s else Some (Some a, n) }"

definition pbuf_get_at :: "nat option \<Rightarrow> u16 \<Rightarrow> pbuf_mem \<Rightarrow> u8 option" where
  "pbuf_get_at p offset s = do {
     (q, n) \<leftarrow> at_offset chain_fuel p offset s;
     case q of None \<Rightarrow> Some 0
     | Some a \<Rightarrow> do { b \<leftarrow> heap s a; byte_at (blk s a) (p_payload b + unat n) } }"

fun memcmp_loop :: "nat option \<Rightarrow> u16 \<Rightarrow> u16 \<Rightarrow> bytes \<Rightarrow> pbuf_mem \<Rightarrow> u16 option" where
  "memcmp_loop q start i [] s = Some 0"
| "memcmp_loop q start i (b # bs) s = do {
     a \<leftarrow> pbuf_get_at q (start + i) s;
     if a \<noteq> b then Some (i + 1) else memcmp_loop q start (i + 1) bs s }"

definition pbuf_memcmp :: "nat option \<Rightarrow> u16 \<Rightarrow> bytes \<Rightarrow> u16 \<Rightarrow> pbuf_mem \<Rightarrow> u16 option" where
  "pbuf_memcmp p offset s2 n s = do {
     (q, start) \<leftarrow> at_offset chain_fuel p offset s;
     case q of None \<Rightarrow> Some 0xFFFF
     | Some a \<Rightarrow> if length s2 < unat n then None else memcmp_loop (Some a) start 0 (take (unat n) s2) s }"

partial_function (option) memfind_loop :: "nat \<Rightarrow> bytes \<Rightarrow> u16 \<Rightarrow> u16 \<Rightarrow> u16 \<Rightarrow> pbuf_mem \<Rightarrow> u16 option" where
  "memfind_loop p m mem_len max_i i s = (if i \<le> max_i then do {
     plus \<leftarrow> pbuf_memcmp (Some p) i m mem_len s;
     if plus = 0 then Some i else memfind_loop p m mem_len max_i (i + plus) s }
   else Some 0xFFFF)"

definition pbuf_memfind :: "nat \<Rightarrow> bytes \<Rightarrow> u16 \<Rightarrow> u16 \<Rightarrow> pbuf_mem \<Rightarrow> u16 option" where
  "pbuf_memfind p m mem_len start_offset s = do {
     b \<leftarrow> heap s p;
     if unat (p_tot_len b) \<ge> unat mem_len + unat start_offset
     then memfind_loop p m mem_len (p_tot_len b - mem_len) start_offset s else Some 0xFFFF }"

text \<open>\<open>substr\<close> is a string in memory up to its terminator, or \<open>NULL\<close>.\<close>

definition pbuf_strstr :: "nat \<Rightarrow> bytes option \<Rightarrow> pbuf_mem \<Rightarrow> u16 option" where
  "pbuf_strstr p substr s = (case substr of None \<Rightarrow> Some 0xFFFF | Some str \<Rightarrow>
     if str = [] then Some 0xFFFF
     else do {
       b \<leftarrow> heap s p;
       if p_tot_len b = 0xFFFF then Some 0xFFFF
       else if length str \<ge> 0xFFFF then Some 0xFFFF
       else pbuf_memfind p (str @ [0]) (of_nat (length str)) 0 s })"

section \<open>A copy into one buffer\<close>

text \<open>No buffer behind the first is empty, as the stack builds its packets.\<close>

definition filled_tail :: "pbuf_mem \<Rightarrow> nat list \<Rightarrow> bool" where
  "filled_tail s as \<longleftrightarrow> (\<forall>a \<in> set (tl as). buf_data s a \<noteq> [])"

lemma payload_write_at:
  assumes "heap s a = Some b" "in_block s a b" "off + length d \<le> unat (p_len b)"
  shows "\<exists>x. payload_write a off d s = Some (s\<lparr>blk := (blk s)(a := x)\<rparr>) \<and> length x = length (blk s a)
     \<and> buf_data (s\<lparr>blk := (blk s)(a := x)\<rparr>) a = take off (buf_data s a) @ d @ drop (off + length d) (buf_data s a)"
proof -
  define x where "x = take (p_payload b + off) (blk s a) @ d @ drop (p_payload b + off + length d) (blk s a)"
  have "payload_write a off d s = Some (s\<lparr>blk := (blk s)(a := x)\<rparr>)"
    using assms by (simp add: payload_write_def in_block_def wr_at_def x_def)
  moreover have "length x = length (blk s a)" using assms by (simp add: x_def in_block_def)
  moreover have "buf_data (s\<lparr>blk := (blk s)(a := x)\<rparr>) a = take off (buf_data s a) @ d @ drop (off + length d) (buf_data s a)"
    using assms take_drop_splice [of "p_payload b" "unat (p_len b)" "blk s a" off d]
    by (simp add: buf_data_def in_block_def x_def)
  ultimately show ?thesis by blast
qed

lemma copy_loop_single:
  assumes "pchain s (Some f) fs" "tot_lens s 0 fs" "filled_tail s fs" "t \<notin> set fs" "length fs \<le> fuel"
    and "heap s t = Some tb" "in_block s t tb" "p_next tb = None" "ot + length (chain_data s fs) \<le> unat (p_len tb)"
  shows "\<exists>x. copy_loop fuel t ot f 0 s = Some (ERR_OK, s\<lparr>blk := (blk s)(t := x)\<rparr>) \<and> length x = length (blk s t)
     \<and> buf_data (s\<lparr>blk := (blk s)(t := x)\<rparr>) t
         = take ot (buf_data s t) @ chain_data s fs @ drop (ot + length (chain_data s fs)) (buf_data s t)"
  using assms
proof (induction fs arbitrary: f s ot fuel)
  case Nil
  then show ?case by simp
next
  case (Cons a fs)
  from Cons.prems obtain fb where fb: "f = a" "heap s a = Some fb" "in_block s a fb" "pchain s (p_next fb) fs"
    by (auto split: option.splits)
  obtain fl where fl: "fuel = Suc fl" "length fs \<le> fl" using Cons.prems(5) by (cases fuel) auto
  have len: "length (buf_data s a) = unat (p_len fb)" using fb by (intro buf_data_length)
  have rd: "payload_read a 0 (unat (p_len fb)) s = Some (buf_data s a)"
    using fb by (simp add: payload_read_def rd_at_def in_block_def buf_data_def)
  have room: "ot + unat (p_len fb) + length (chain_data s fs) \<le> unat (p_len tb)" using Cons.prems(9) len by simp
  from payload_write_at [OF Cons.prems(6,7), of ot "buf_data s a"] room len obtain x where
    x: "payload_write t ot (buf_data s a) s = Some (s\<lparr>blk := (blk s)(t := x)\<rparr>)" "length x = length (blk s t)"
      "buf_data (s\<lparr>blk := (blk s)(t := x)\<rparr>) t = take ot (buf_data s t) @ buf_data s a @ drop (ot + unat (p_len fb)) (buf_data s t)"
    by auto
  let ?s = "s\<lparr>blk := (blk s)(t := x)\<rparr>"
  have nt: "t \<notin> set fs" "t \<noteq> a" using Cons.prems(4) by auto
  have ed: "hd_edit s ?s t" using Cons.prems(6) x(2) by (simp add: hd_edit_def)
  note ch = hd_edit_rest(1,2) [OF ed nt(1)] and tl = hd_edit_rest(3) [OF ed nt(1), of 0]
  have bd: "buf_data ?s b = buf_data s b" if "b \<in> set fs" for b
    using that nt(1) by (cases "b = t") (auto simp: buf_data_def split: option.split)
  have tl': "tot_lens s 0 fs" using Cons.prems(2) by (auto split: option.splits)
  have nq: "packet_queue (p_next fb) ?s = Some False \<and> (p_next fb = None \<longleftrightarrow> fs = [])
      \<and> (fs \<noteq> [] \<longrightarrow> unat (p_len fb) + ot < unat (p_len tb))"
  proof (cases fs)
    case Nil
    then show ?thesis using fb(4) by (simp add: packet_queue_def)
  next
    case (Cons c cs)
    then obtain cb where cb: "p_next fb = Some c" "heap s c = Some cb" "in_block s c cb" "pchain s (p_next cb) cs"
      using fb(4) by (auto split: option.splits)
    have l: "unat (p_tot_len cb) = length (buf_data s c) + length (chain_data s cs)" "length (buf_data s c) = unat (p_len cb)"
      using tl' cb by (simp_all add: Cons buf_data_length)
    have ne: "buf_data s c \<noteq> []" using Cons.prems(3) by (simp add: filled_tail_def Cons)
    have "\<not> (p_len cb = p_tot_len cb \<and> p_next cb \<noteq> None)"
    proof
      assume q: "p_len cb = p_tot_len cb \<and> p_next cb \<noteq> None"
      then have "cs \<noteq> []" "chain_data s cs = []" using cb(4) l by auto
      then obtain d ds where "cs = d # ds" by (cases cs) auto
      then show False using Cons.prems(3) \<open>chain_data s cs = []\<close> by (simp add: filled_tail_def Cons)
    qed
    then have "packet_queue (p_next fb) ?s = Some False" using cb by (simp add: packet_queue_def)
    moreover have "unat (p_len fb) + ot < unat (p_len tb)"
      using room ne by (cases "buf_data s c") (simp_all add: Cons)
    ultimately show ?thesis using cb(1) by (simp add: Cons)
  qed
  have qt: "packet_queue (Some t) ?s = Some False" using Cons.prems(6,8) by (simp add: packet_queue_def)
  have ge: "uint (p_len fb) \<le> uint (p_len tb) - int ot"
  proof -
    have "int (ot + unat (p_len fb)) \<le> int (unat (p_len tb))" using room by linarith
    then show ?thesis by simp
  qed
  have step: "copy_loop fuel t ot f 0 s = (case p_next fb of None \<Rightarrow> Some (ERR_OK, ?s)
      | Some f2 \<Rightarrow> copy_loop fl t (ot + unat (p_len fb)) f2 0 ?s)"
  proof (cases "ot + unat (p_len fb) = unat (p_len tb)")
    case True
    then have "fs = []" using nq by auto
    then have "p_next fb = None" using nq by simp
    then show ?thesis using True ge fb(2) rd x(1) Cons.prems(6,8) nq
      by (simp add: fl(1) fb(1) packet_queue_def)
  next
    case False
    then show ?thesis using ge fb(2) rd x(1) room Cons.prems(6) nq qt
      by (auto simp: fl(1) fb(1) split: option.split)
  qed
  show ?case
  proof (cases fs)
    case Nil
    then show ?thesis using step nq x len by (intro exI [of _ x]) (simp del: fun_upd_apply)
  next
    case (Cons c cs)
    then have pn: "p_next fb = Some c" using fb(4) by (auto split: option.splits)
    have ft: "filled_tail ?s fs"
      using Cons.prems(3) bd by (auto simp: filled_tail_def Cons)
    have p1: "pchain ?s (Some c) fs" using fb(4) ch(1) pn by (simp del: pchain.simps)
    have p2: "tot_lens ?s 0 fs" using tl tl' by simp
    have p6: "heap ?s t = Some tb" using Cons.prems(6) by simp
    have p7: "in_block ?s t tb" using Cons.prems(7) x(2) by (simp add: in_block_def)
    have p9: "ot + unat (p_len fb) + length (chain_data ?s fs) \<le> unat (p_len tb)" using room ch by simp
    from Cons.IH [OF p1 p2 ft nt(1) fl(2) p6 p7 Cons.prems(8) p9] obtain y where
      y: "copy_loop fl t (ot + unat (p_len fb)) c 0 ?s = Some (ERR_OK, ?s\<lparr>blk := (blk ?s)(t := y)\<rparr>)"
      "length y = length (blk ?s t)"
      "buf_data (?s\<lparr>blk := (blk ?s)(t := y)\<rparr>) t = take (ot + unat (p_len fb)) (buf_data ?s t) @ chain_data ?s fs
         @ drop (ot + unat (p_len fb) + length (chain_data ?s fs)) (buf_data ?s t)"
      by blast
    have lt: "ot \<le> length (buf_data s t)" using room Cons.prems(6,7) by (simp add: buf_data_length)
    show ?thesis using step y x len pn ch lt
      by (intro exI [of _ y]) (simp add: add.assoc add.commute add.left_commute fun_upd_same del: fun_upd_apply)
  qed
qed

section \<open>Buffers from the heap\<close>

text \<open>The heap answers with addresses that no buffer has and that are not slots of the pool.\<close>

definition fresh_ram :: "nat set \<Rightarrow> pbuf_mem \<Rightarrow> bool" where
  "fresh_ram slots m \<longleftrightarrow> (\<forall>n h p. mem_malloc m n h = Some p \<longrightarrow> h p = None \<and> p \<notin> slots)"

text \<open>\<open>one_ram m p d\<close>: \<open>p\<close> is a heap buffer nobody else refers to, a packet of its own with the data \<open>d\<close>.\<close>

definition one_ram :: "pbuf_mem \<Rightarrow> nat \<Rightarrow> bytes \<Rightarrow> bool" where
  "one_ram m p d \<longleftrightarrow> owned m p [p] \<and> of_type m {PBUF_RAM} p \<and> chain_data m [p] = d"

lemma one_ramE:
  assumes "one_ram m p d"
  obtains b where "heap m p = Some b" "p_next b = None" "p_type b = PBUF_RAM" "p_ref b = 1"
    "p_flags b AND PBUF_FLAG_IS_CUSTOM = 0" "in_block m p b" "unat (p_len b) = length d" "p_tot_len b = p_len b"
    "buf_data m p = d"
  using assms
  by (auto simp: one_ram_def owned_def exclusive_def of_type_def ref_one_def not_custom_def buf_data_length
      word_unat_eq_iff split: option.splits)

lemma one_ramI:
  assumes "heap m p = Some b" "p_next b = None" "p_type b = PBUF_RAM" "p_ref b = 1" "p_flags b AND PBUF_FLAG_IS_CUSTOM = 0"
    "in_block m p b" "p_tot_len b = p_len b" "buf_data m p = d"
  shows "one_ram m p d"
  using assms buf_data_length [OF assms(1,6)]
  by (simp add: one_ram_def owned_def exclusive_def of_type_def ref_one_def not_custom_def)

lemma one_ram_cong:
  assumes "heap m' p = heap m p" "blk m' p = blk m p"
  shows "one_ram m' p d = one_ram m p d"
  using assms
  by (auto simp: one_ram_def owned_def exclusive_def of_type_def ref_one_def not_custom_def in_block_def buf_data_def
      split: option.splits)

lemma align_add16: "LWIP_MEM_ALIGN_SIZE (SIZEOF_STRUCT_PBUF + k) = 16 + LWIP_MEM_ALIGN_SIZE k"
  unfolding LWIP_MEM_ALIGN_SIZE_def SIZEOF_STRUCT_PBUF_def by presburger

lemma pbuf_alloc_ram_layer:
  assumes "pool_ok slots m" "fresh_ram slots m" "16 + LWIP_MEM_ALIGN_SIZE (layer_offset layer) + LWIP_MEM_ALIGN_SIZE (unat n) < 65536"
  shows "\<exists>r m'. pbuf_alloc layer n PBUF_RAM m = Some (r, m') \<and> pool_ok slots m' \<and> fresh_ram slots m' \<and> pool m' = pool m \<and> (case r of
      None \<Rightarrow> m' = m
    | Some p \<Rightarrow> heap m p = None \<and> p \<notin> slots \<and> (\<exists>d. one_ram m' p d \<and> length d = unat n) \<and> (\<forall>x. x \<noteq> p \<longrightarrow> heap m' x = heap m x \<and> blk m' x = blk m x)
        \<and> map_option p_payload (heap m' p) = Some (LWIP_MEM_ALIGN_SIZE (layer_offset layer))
        \<and> length (blk m' p) = LWIP_MEM_ALIGN_SIZE (layer_offset layer) + LWIP_MEM_ALIGN_SIZE (unat n))"
proof -
  define off where "off = LWIP_MEM_ALIGN_SIZE (layer_offset layer)"
  define sz where "sz = 16 + off + LWIP_MEM_ALIGN_SIZE (unat n)"
  have sz: "off + unat n \<le> sz - 16" "sz < 65536" "sz - 16 = off + LWIP_MEM_ALIGN_SIZE (unat n)"
    using assms(3) by (simp_all add: sz_def off_def LWIP_MEM_ALIGN_SIZE_def)
  have k: "(LWIP_MEM_ALIGN_SIZE (SIZEOF_STRUCT_PBUF + layer_offset layer) + LWIP_MEM_ALIGN_SIZE (unat n)) mod 65536 = sz"
    using sz(2) by (simp add: align_add16 sz_def off_def)
  show ?thesis
  proof (cases "mem_malloc m sz (heap m)")
    case None
    then show ?thesis using assms(1,2) by (simp add: pbuf_alloc_def k)
  next
    case (Some p)
    let ?b = "\<lparr>p_next = None, p_payload = off, p_tot_len = n, p_len = n, p_type = PBUF_RAM, p_flags = 0, p_ref = 1\<rparr>"
    let ?x = "take (sz - 16) (blk m p @ replicate (sz - 16) 0)"
    let ?m = "m\<lparr>heap := (heap m)(p \<mapsto> ?b), blk := (blk m)(p := ?x)\<rparr>"
    have p: "heap m p = None" "p \<notin> slots" using assms(2) Some by (auto simp: fresh_ram_def)
    have run: "pbuf_alloc layer n PBUF_RAM m = Some (Some p, ?m)"
      using Some unfolding pbuf_alloc_def Let_def pbuf_type.case k off_def [symmetric]
      by (simp add: SIZEOF_STRUCT_PBUF_def del: take_append)
    have lx: "length ?x = sz - 16" by simp
    have ib: "in_block ?m p ?b" using sz(1) lx by (simp add: in_block_def del: take_append length_take length_append)
    have one: "one_ram ?m p (buf_data ?m p)"
      by (rule one_ramI [of _ _ ?b]) (use ib in simp_all)
    have "length (buf_data ?m p) = unat n" by (subst buf_data_length [of ?m p ?b]) (use ib in simp_all)
    moreover have "pool_ok slots ?m"
    proof -
      have t: "of_type ?m {PBUF_POOL} x = of_type m {PBUF_POOL} x" for x using p(1) by (simp add: of_type_def)
      have "p \<notin> set (pool m)" using assms(1) p(2) by (auto simp: pool_ok_def)
      then show ?thesis using assms(1) p(2) unfolding pool_ok_def t by auto
    qed
    moreover have "fresh_ram slots ?m" using assms(2) by (simp add: fresh_ram_def)
    ultimately show ?thesis using p one sz(3) lx
      by (intro exI [of _ "Some p"] exI [of _ ?m]) (auto simp: run off_def [symmetric] simp del: take_append length_take length_append)
  qed
qed

lemma pbuf_alloc_ram:
  assumes "pool_ok slots m" "fresh_ram slots m" "unat n \<le> 65516"
  shows "\<exists>r m'. pbuf_alloc PBUF_RAW n PBUF_RAM m = Some (r, m') \<and> pool_ok slots m' \<and> fresh_ram slots m' \<and> pool m' = pool m \<and> (case r of
      None \<Rightarrow> m' = m
    | Some p \<Rightarrow> heap m p = None \<and> p \<notin> slots \<and> (\<exists>d. one_ram m' p d \<and> length d = unat n) \<and> (\<forall>x. x \<noteq> p \<longrightarrow> heap m' x = heap m x \<and> blk m' x = blk m x))"
proof -
  have "16 + LWIP_MEM_ALIGN_SIZE (layer_offset PBUF_RAW) + LWIP_MEM_ALIGN_SIZE (unat n) < 65536"
    using assms(3) by (simp add: layer_offset_def LWIP_MEM_ALIGN_SIZE_def)
  from pbuf_alloc_ram_layer [OF assms(1,2) this] show ?thesis by (elim exE conjE) (intro exI conjI, assumption+, auto split: option.splits)
qed

text \<open>Copying a packet into a fresh heap buffer of its length.\<close>

lemma pbuf_copy_to_ram:
  assumes "one_ram m t e" "owned m f fs" "filled_tail m fs" "t \<notin> set fs" "length fs \<le> chain_fuel"
    and "length e = length (chain_data m fs)"
  shows "\<exists>m'. pbuf_copy (Some t) (Some f) m = Some (ERR_OK, m') \<and> one_ram m' t (chain_data m fs) \<and> heap m' = heap m
     \<and> pool m' = pool m \<and> ref_pool m' = ref_pool m \<and> mem_malloc m' = mem_malloc m
     \<and> (\<forall>x. x \<noteq> t \<longrightarrow> blk m' x = blk m x) \<and> (\<forall>x. length (blk m' x) = length (blk m x))"
proof -
  from assms(1) obtain tb where tb: "heap m t = Some tb" "p_next tb = None" "p_type tb = PBUF_RAM" "p_ref tb = 1"
    "p_flags tb AND PBUF_FLAG_IS_CUSTOM = 0" "in_block m t tb" "unat (p_len tb) = length e" "p_tot_len tb = p_len tb"
    "buf_data m t = e" by (rule one_ramE)
  from assms(2) obtain fb where fb: "heap m f = Some fb" "unat (p_tot_len fb) = length (chain_data m fs)"
    by (cases fs) (auto simp: owned_def exclusive_def split: option.splits)
  have "\<exists>x. copy_loop (2 * chain_fuel) t 0 f 0 m = Some (ERR_OK, m\<lparr>blk := (blk m)(t := x)\<rparr>) \<and> length x = length (blk m t)
     \<and> buf_data (m\<lparr>blk := (blk m)(t := x)\<rparr>) t
         = take 0 (buf_data m t) @ chain_data m fs @ drop (0 + length (chain_data m fs)) (buf_data m t)"
    by (rule copy_loop_single [where tb = tb]) (use assms tb in \<open>simp_all add: owned_def exclusive_def\<close>)
  then obtain x where x: "copy_loop (2 * chain_fuel) t 0 f 0 m = Some (ERR_OK, m\<lparr>blk := (blk m)(t := x)\<rparr>)"
    "length x = length (blk m t)" "buf_data (m\<lparr>blk := (blk m)(t := x)\<rparr>) t = chain_data m fs"
    using tb(9) assms(6) by (auto simp del: fun_upd_apply)
  let ?m = "m\<lparr>blk := (blk m)(t := x)\<rparr>"
  have "pbuf_copy (Some t) (Some f) m = Some (ERR_OK, ?m)"
    using tb fb assms(6) x(1) by (simp add: pbuf_copy_def word_le_nat_alt del: fun_upd_apply)
  moreover have "one_ram ?m t (chain_data m fs)"
    by (rule one_ramI [OF _ tb(2-5)]) (use tb x in \<open>simp_all add: in_block_def del: fun_upd_apply add: fun_upd_same\<close>)
  ultimately show ?thesis using x(2) by (intro exI [of _ ?m]) auto
qed

lemma pbuf_free_ram:
  assumes "one_ram m p d"
  shows "\<exists>k m'. pbuf_free (Some p) m = Some (k, m') \<and> heap m' = (heap m)(p := None) \<and> blk m' = blk m
     \<and> pool m' = pool m \<and> ref_pool m' = ref_pool m \<and> mem_malloc m' = mem_malloc m"
proof -
  from assms have e: "exclusive m p [p]" "of_type m {PBUF_RAM} p" by (simp_all add: one_ram_def owned_def)
  then have "\<not> of_type m {PBUF_POOL} p" "\<not> of_type m {PBUF_ROM, PBUF_REF} p"
    by (auto simp: of_type_def split: option.splits)
  with pbuf_free_exclusive [OF e(1)] show ?thesis by (auto simp: chain_fuel_def fun_eq_iff)
qed

end
