(* ===== verification/Etharp.thy ===== *)
theory Etharp
  imports Ip Pbuf_Ops
begin

text \<open>
  Ethernet and ARP, \<open>src/netif/etharp.c\<close>, in the configuration of \<open>lwipopts.h\<close>: 10 entries, one packet
  queued per entry (\<open>ARP_QUEUEING\<close> 0), static entries, no VLAN, no AUTOIP, no hints per interface.

  Interfaces have addresses; the structs are in \<open>netifs\<close>. A frame handed to \<open>netif->linkoutput\<close> is
  recorded in \<open>frames\<close>; \<open>link_out\<close> gives the answers of the driver, one per frame sent, in any way. The
  driver neither keeps nor changes the packet, which \<open>App.linkoutput_sends_packet\<close> proves of
  \<open>linkoutput_fn\<close>. The assertions have no effect (see \<open>Pbuf\<close>); the statistics are left out.
\<close>

section \<open>The table\<close>

datatype etharp_state = ETHARP_STATE_EMPTY | ETHARP_STATE_PENDING | ETHARP_STATE_STABLE
  | ETHARP_STATE_STABLE_REREQUESTING | ETHARP_STATE_STATIC

fun etharp_state_number :: "etharp_state \<Rightarrow> nat" where
  "etharp_state_number ETHARP_STATE_EMPTY = 0"
| "etharp_state_number ETHARP_STATE_PENDING = 1"
| "etharp_state_number ETHARP_STATE_STABLE = 2"
| "etharp_state_number ETHARP_STATE_STABLE_REREQUESTING = 3"
| "etharp_state_number ETHARP_STATE_STATIC = 4"

lemma etharp_state_number_inj: "etharp_state_number a = etharp_state_number b \<longleftrightarrow> a = b"
  by (cases a; cases b; simp)

text \<open>The code compares states as numbers.\<close>

instantiation etharp_state :: linorder
begin

definition less_eq_etharp_state :: "etharp_state \<Rightarrow> etharp_state \<Rightarrow> bool" where
  "less_eq_etharp_state a b \<longleftrightarrow> etharp_state_number a \<le> etharp_state_number b"

definition less_etharp_state :: "etharp_state \<Rightarrow> etharp_state \<Rightarrow> bool" where
  "less_etharp_state a b \<longleftrightarrow> etharp_state_number a < etharp_state_number b"

instance
  by standard (auto simp: less_eq_etharp_state_def less_etharp_state_def etharp_state_number_inj)

end

record etharp_entry =
  ae_q :: "nat option"
  ae_ipaddr :: u32
  ae_netif :: "nat option"
  ae_ethaddr :: bytes
  ae_state :: etharp_state
  ae_ctime :: u8

record eth_netif = netif +
  nif_gw :: u32
  nif_hwaddr :: bytes

record eth =
  ebufs :: pbuf_mem
  netifs :: "nat \<Rightarrow> eth_netif option"
  eth_netif_list :: "nat list"
  eth_netif_default :: "nat option"
  arp_table :: "etharp_entry list"
  etharp_cached_entry :: nat
  frames :: "(nat \<times> bytes) list"
  link_out :: "nat \<Rightarrow> err_t"

definition ARP_TABLE_SIZE :: nat where "ARP_TABLE_SIZE = 10"
definition ARP_MAXAGE :: u8 where "ARP_MAXAGE = 240"
definition ARP_AGE_REREQUEST_USED :: u8 where "ARP_AGE_REREQUEST_USED = ARP_MAXAGE - 12"
definition ARP_MAXPENDING :: u8 where "ARP_MAXPENDING = 2"
definition HWTYPE_ETHERNET :: u16 where "HWTYPE_ETHERNET = 1"
definition ETHARP_HWADDR_LEN :: nat where "ETHARP_HWADDR_LEN = 6"
definition ETHARP_FLAG_TRY_HARD :: u8 where "ETHARP_FLAG_TRY_HARD = 1"
definition ETHARP_FLAG_FIND_ONLY :: u8 where "ETHARP_FLAG_FIND_ONLY = 2"
definition ETHARP_FLAG_STATIC_ENTRY :: u8 where "ETHARP_FLAG_STATIC_ENTRY = 4"
definition SIZEOF_ETH_HDR :: nat where "SIZEOF_ETH_HDR = 14"
definition SIZEOF_ETHARP_PACKET :: nat where "SIZEOF_ETHARP_PACKET = SIZEOF_ETH_HDR + 28"
definition ETHTYPE_ARP :: u16 where "ETHTYPE_ARP = 0x0806"
definition ETHTYPE_IP :: u16 where "ETHTYPE_IP = 0x0800"
definition ARP_REQUEST :: u16 where "ARP_REQUEST = 1"
definition ARP_REPLY :: u16 where "ARP_REPLY = 2"
definition NETIF_FLAG_ETHARP :: u8 where "NETIF_FLAG_ETHARP = 0x20"
definition PBUF_FLAG_LLBCAST :: u8 where "PBUF_FLAG_LLBCAST = 8"
definition PBUF_FLAG_LLMCAST :: u8 where "PBUF_FLAG_LLMCAST = 0x10"
definition ethbroadcast :: bytes where "ethbroadcast = replicate 6 0xFF"
definition ethzero :: bytes where "ethzero = replicate 6 0"

text \<open>\<open>LL_MULTICAST_ADDR_0\<close> to \<open>LL_MULTICAST_ADDR_2\<close>.\<close>

definition LL_MULTICAST_ADDR :: bytes where "LL_MULTICAST_ADDR = [0x01, 0x00, 0x5E]"

definition ip_addr_islinklocal :: "u32 \<Rightarrow> bool" where
  "ip_addr_islinklocal a \<longleftrightarrow> a AND htonl 0xFFFF0000 = htonl 0xA9FE0000"

definition entry :: "nat \<Rightarrow> 'a eth_scheme \<Rightarrow> etharp_entry" where
  "entry i s = arp_table s ! i"

definition upd_entry :: "nat \<Rightarrow> (etharp_entry \<Rightarrow> etharp_entry) \<Rightarrow> 'a eth_scheme \<Rightarrow> 'a eth_scheme" where
  "upd_entry i f s = s\<lparr>arp_table := (arp_table s)[i := f (entry i s)]\<rparr>"

definition on_bufs :: "(pbuf_mem \<Rightarrow> ('b \<times> pbuf_mem) option) \<Rightarrow> 'a eth_scheme \<Rightarrow> ('b \<times> 'a eth_scheme) option" where
  "on_bufs f s = map_option (\<lambda>(r, m). (r, s\<lparr>ebufs := m\<rparr>)) (f (ebufs s))"

definition do_bufs :: "(pbuf_mem \<Rightarrow> pbuf_mem option) \<Rightarrow> 'a eth_scheme \<Rightarrow> 'a eth_scheme option" where
  "do_bufs f s = map_option (\<lambda>m. s\<lparr>ebufs := m\<rparr>) (f (ebufs s))"

definition free_pbuf :: "nat \<Rightarrow> 'a eth_scheme \<Rightarrow> 'a eth_scheme option" where
  "free_pbuf p s = map_option (\<lambda>(k, m). s\<lparr>ebufs := m\<rparr>) (pbuf_free (Some p) (ebufs s))"

definition linkoutput :: "nat \<Rightarrow> nat \<Rightarrow> 'a eth_scheme \<Rightarrow> (err_t \<times> 'a eth_scheme) option" where
  "linkoutput netif p s = do {
     b \<leftarrow> heap (ebufs s) p;
     d \<leftarrow> pbuf_copy_partial (Some p) (p_tot_len b) 0 (ebufs s);
     Some (link_out s (length (frames s)), s\<lparr>frames := frames s @ [(netif, d)]\<rparr>) }"

section \<open>Entries\<close>

definition etharp_free_entry :: "nat \<Rightarrow> 'a eth_scheme \<Rightarrow> 'a eth_scheme option" where
  "etharp_free_entry i s = do {
     s \<leftarrow> (case ae_q (entry i s) of None \<Rightarrow> Some s
          | Some q \<Rightarrow> do { s \<leftarrow> free_pbuf q s; Some (upd_entry i (\<lambda>e. e\<lparr>ae_q := None\<rparr>) s) });
     Some (upd_entry i (\<lambda>e. e\<lparr>ae_state := ETHARP_STATE_EMPTY\<rparr>) s) }"

fun for_entries :: "(nat \<Rightarrow> 'a eth_scheme \<Rightarrow> 'a eth_scheme option) \<Rightarrow> nat list \<Rightarrow> 'a eth_scheme \<Rightarrow> 'a eth_scheme option" where
  "for_entries f [] s = Some s"
| "for_entries f (i # is) s = do { s \<leftarrow> f i s; for_entries f is s }"

definition tmr_entry :: "nat \<Rightarrow> 'a eth_scheme \<Rightarrow> 'a eth_scheme option" where
  "tmr_entry i s = (let state = ae_state (entry i s) in
     if state \<noteq> ETHARP_STATE_EMPTY \<and> state \<noteq> ETHARP_STATE_STATIC then
       (let s = upd_entry i (\<lambda>e. e\<lparr>ae_ctime := ae_ctime e + 1\<rparr>) s in
        if ae_ctime (entry i s) \<ge> ARP_MAXAGE
           \<or> ae_state (entry i s) = ETHARP_STATE_PENDING \<and> ae_ctime (entry i s) \<ge> ARP_MAXPENDING
        then etharp_free_entry i s
        else if ae_state (entry i s) = ETHARP_STATE_STABLE_REREQUESTING
        then Some (upd_entry i (\<lambda>e. e\<lparr>ae_state := ETHARP_STATE_STABLE\<rparr>) s)
        else Some s)
     else Some s)"

definition etharp_tmr :: "'a eth_scheme \<Rightarrow> 'a eth_scheme option" where
  "etharp_tmr = for_entries tmr_entry [0..<ARP_TABLE_SIZE]"

text \<open>The candidates the search remembers, \<open>ARP_TABLE_SIZE\<close> for none, and their ages.\<close>

record arp_cand =
  c_empty :: nat
  old_stable :: nat
  old_pending :: nat
  old_queue :: nat
  age_stable :: u8
  age_pending :: u8
  age_queue :: u8

definition no_cand :: arp_cand where
  "no_cand = \<lparr>c_empty = ARP_TABLE_SIZE, old_stable = ARP_TABLE_SIZE, old_pending = ARP_TABLE_SIZE, old_queue = ARP_TABLE_SIZE,
     age_stable = 0, age_pending = 0, age_queue = 0\<rparr>"

definition note_entry :: "nat \<Rightarrow> etharp_entry \<Rightarrow> arp_cand \<Rightarrow> arp_cand" where
  "note_entry i e c =
     (if ae_state e = ETHARP_STATE_PENDING then
        (if ae_q e \<noteq> None then
           (if ae_ctime e \<ge> age_queue c then c\<lparr>old_queue := i, age_queue := ae_ctime e\<rparr> else c)
         else if ae_ctime e \<ge> age_pending c then c\<lparr>old_pending := i, age_pending := ae_ctime e\<rparr> else c)
      else if ae_state e \<ge> ETHARP_STATE_STABLE then
        (if ae_state e < ETHARP_STATE_STATIC \<and> ae_ctime e \<ge> age_stable c
         then c\<lparr>old_stable := i, age_stable := ae_ctime e\<rparr> else c)
      else c)"

fun arp_scan :: "u32 option \<Rightarrow> nat \<Rightarrow> etharp_entry list \<Rightarrow> arp_cand \<Rightarrow> nat + arp_cand" where
  "arp_scan ipaddr i [] c = Inr c"
| "arp_scan ipaddr i (e # es) c =
     (if c_empty c = ARP_TABLE_SIZE \<and> ae_state e = ETHARP_STATE_EMPTY then arp_scan ipaddr (Suc i) es (c\<lparr>c_empty := i\<rparr>)
      else if ae_state e \<noteq> ETHARP_STATE_EMPTY then
        (if ipaddr = Some (ae_ipaddr e) then Inl i else arp_scan ipaddr (Suc i) es (note_entry i e c))
      else arp_scan ipaddr (Suc i) es c)"

text \<open>The entry to recycle.\<close>

definition recycle :: "arp_cand \<Rightarrow> nat option" where
  "recycle c =
     (if old_stable c < ARP_TABLE_SIZE then Some (old_stable c)
      else if old_pending c < ARP_TABLE_SIZE then Some (old_pending c)
      else if old_queue c < ARP_TABLE_SIZE then Some (old_queue c)
      else None)"

definition new_entry :: "u32 option \<Rightarrow> nat \<Rightarrow> 'a eth_scheme \<Rightarrow> 'a eth_scheme" where
  "new_entry ipaddr i = upd_entry i (\<lambda>e. e\<lparr>ae_ipaddr := (case ipaddr of None \<Rightarrow> ae_ipaddr e | Some a \<Rightarrow> a), ae_ctime := 0\<rparr>)"

definition etharp_find_entry :: "u32 option \<Rightarrow> u8 \<Rightarrow> 'a eth_scheme \<Rightarrow> ((err_t + nat) \<times> 'a eth_scheme) option" where
  "etharp_find_entry ipaddr flags s = (case arp_scan ipaddr 0 (arp_table s) no_cand of
       Inl i \<Rightarrow> Some (Inr i, s)
     | Inr c \<Rightarrow>
         if flags AND ETHARP_FLAG_FIND_ONLY \<noteq> 0 \<or> c_empty c = ARP_TABLE_SIZE \<and> flags AND ETHARP_FLAG_TRY_HARD = 0
         then Some (Inl ERR_MEM, s)
         else if c_empty c < ARP_TABLE_SIZE then Some (Inr (c_empty c), new_entry ipaddr (c_empty c) s)
         else (case recycle c of None \<Rightarrow> Some (Inl ERR_MEM, s)
           | Some i \<Rightarrow> do { s \<leftarrow> etharp_free_entry i s; Some (Inr i, new_entry ipaddr i s) }))"

section \<open>Sending and updating\<close>

definition etharp_send_ip :: "nat \<Rightarrow> nat \<Rightarrow> bytes \<Rightarrow> bytes \<Rightarrow> 'a eth_scheme \<Rightarrow> (err_t \<times> 'a eth_scheme) option" where
  "etharp_send_ip netif p src dst s = do {
     s \<leftarrow> do_bufs (payload_write p 0 (dst @ src @ le16 (htons ETHTYPE_IP))) s;
     linkoutput netif p s }"

definition not_unicast :: "u32 \<Rightarrow> eth_netif \<Rightarrow> bool" where
  "not_unicast ipaddr n \<longleftrightarrow> ip_addr_isany ipaddr \<or> ip4_addr_isbroadcast ipaddr (netif.truncate n) \<or> ip_addr_ismulticast ipaddr"

definition etharp_update_arp_entry :: "nat \<Rightarrow> u32 \<Rightarrow> bytes \<Rightarrow> u8 \<Rightarrow> 'a eth_scheme \<Rightarrow> (err_t \<times> 'a eth_scheme) option" where
  "etharp_update_arp_entry netif ipaddr ethaddr flags s = do {
     n \<leftarrow> netifs s netif;
     if not_unicast ipaddr n then Some (ERR_ARG, s)
     else do {
       (r, s) \<leftarrow> etharp_find_entry (Some ipaddr) flags s;
       case r of Inl err \<Rightarrow> Some (err, s)
       | Inr i \<Rightarrow> do {
           let s = upd_entry i (\<lambda>e. e\<lparr>ae_state := (if flags AND ETHARP_FLAG_STATIC_ENTRY \<noteq> 0 then ETHARP_STATE_STATIC
                                            else ETHARP_STATE_STABLE),
                                   ae_netif := Some netif, ae_ethaddr := ethaddr, ae_ctime := 0\<rparr>) s;
           case ae_q (entry i s) of None \<Rightarrow> Some (ERR_OK, s)
           | Some p \<Rightarrow> do {
               let s = upd_entry i (\<lambda>e. e\<lparr>ae_q := None\<rparr>) s;
               (err, s) \<leftarrow> etharp_send_ip netif p (nif_hwaddr n) ethaddr s;
               s \<leftarrow> free_pbuf p s;
               Some (ERR_OK, s) } } } }"

text \<open>\<open>ip_route\<close> as the address of the interface.\<close>

definition eth_route :: "u32 \<Rightarrow> 'a eth_scheme \<Rightarrow> nat option" where
  "eth_route dest s =
     (case List.find (\<lambda>a. case netifs s a of None \<Rightarrow> False
             | Some n \<Rightarrow> netif_is_up (netif.truncate n) \<and> ip_addr_netcmp dest (nif_ip n) (nif_mask n)) (eth_netif_list s) of
        Some a \<Rightarrow> Some a
      | None \<Rightarrow> (case eth_netif_default s of None \<Rightarrow> None
          | Some a \<Rightarrow> (case netifs s a of None \<Rightarrow> None
              | Some n \<Rightarrow> if netif_is_up (netif.truncate n) then Some a else None)))"

definition etharp_add_static_entry :: "u32 \<Rightarrow> bytes \<Rightarrow> 'a eth_scheme \<Rightarrow> (err_t \<times> 'a eth_scheme) option" where
  "etharp_add_static_entry ipaddr ethaddr s = (case eth_route ipaddr s of
       None \<Rightarrow> Some (ERR_RTE, s)
     | Some netif \<Rightarrow> etharp_update_arp_entry netif ipaddr ethaddr (ETHARP_FLAG_TRY_HARD OR ETHARP_FLAG_STATIC_ENTRY) s)"

definition etharp_remove_static_entry :: "u32 \<Rightarrow> 'a eth_scheme \<Rightarrow> (err_t \<times> 'a eth_scheme) option" where
  "etharp_remove_static_entry ipaddr s = do {
     (r, s) \<leftarrow> etharp_find_entry (Some ipaddr) ETHARP_FLAG_FIND_ONLY s;
     case r of Inl err \<Rightarrow> Some (err, s)
     | Inr i \<Rightarrow> if ae_state (entry i s) \<noteq> ETHARP_STATE_STATIC then Some (ERR_ARG, s)
              else do { s \<leftarrow> etharp_free_entry i s; Some (ERR_OK, s) } }"

definition etharp_cleanup_netif :: "nat \<Rightarrow> 'a eth_scheme \<Rightarrow> 'a eth_scheme option" where
  "etharp_cleanup_netif netif = for_entries (\<lambda>i s.
     if ae_state (entry i s) \<noteq> ETHARP_STATE_EMPTY \<and> ae_netif (entry i s) = Some netif then etharp_free_entry i s else Some s)
     [0..<ARP_TABLE_SIZE]"

text \<open>The index, the hardware address and the address of the entry, or \<open>None\<close> for -1.\<close>

definition etharp_find_addr :: "u32 \<Rightarrow> 'a eth_scheme \<Rightarrow> ((nat \<times> bytes \<times> u32) option \<times> 'a eth_scheme) option" where
  "etharp_find_addr ipaddr s = do {
     (r, s) \<leftarrow> etharp_find_entry (Some ipaddr) ETHARP_FLAG_FIND_ONLY s;
     case r of Inl err \<Rightarrow> Some (None, s)
     | Inr i \<Rightarrow> if ae_state (entry i s) \<ge> ETHARP_STATE_STABLE
              then Some (Some (i, ae_ethaddr (entry i s), ae_ipaddr (entry i s)), s) else Some (None, s) }"

section \<open>ARP messages\<close>

definition etharp_raw :: "nat \<Rightarrow> bytes \<Rightarrow> bytes \<Rightarrow> bytes \<Rightarrow> u32 \<Rightarrow> bytes \<Rightarrow> u32 \<Rightarrow> u16 \<Rightarrow> 'a eth_scheme
    \<Rightarrow> (err_t \<times> 'a eth_scheme) option" where
  "etharp_raw netif ethsrc ethdst hwsrc ipsrc hwdst ipdst opcode s = do {
     (p, s) \<leftarrow> on_bufs (pbuf_alloc PBUF_RAW (of_nat SIZEOF_ETHARP_PACKET) PBUF_RAM) s;
     case p of None \<Rightarrow> Some (ERR_MEM, s)
     | Some p \<Rightarrow> do {
         s \<leftarrow> do_bufs (payload_write p 0 (ethdst @ ethsrc @ le16 (htons ETHTYPE_ARP)
                @ le16 (htons HWTYPE_ETHERNET) @ le16 (htons ETHTYPE_IP) @ [of_nat ETHARP_HWADDR_LEN, 4] @ le16 (htons opcode)
                @ hwsrc @ le32 ipsrc @ hwdst @ le32 ipdst)) s;
         (result, s) \<leftarrow> linkoutput netif p s;
         s \<leftarrow> free_pbuf p s;
         Some (result, s) } }"

definition etharp_request :: "nat \<Rightarrow> u32 \<Rightarrow> 'a eth_scheme \<Rightarrow> (err_t \<times> 'a eth_scheme) option" where
  "etharp_request netif ipaddr s = do {
     n \<leftarrow> netifs s netif;
     etharp_raw netif (nif_hwaddr n) ethbroadcast (nif_hwaddr n) (nif_ip n) ethzero ipaddr ARP_REQUEST s }"

text \<open>Fields of a received ARP packet, and the packet made into the reply.\<close>

definition hdr_field :: "bytes \<Rightarrow> nat \<Rightarrow> nat \<Rightarrow> bytes" where
  "hdr_field h off n = take n (drop off h)"

definition arp_valid :: "bytes \<Rightarrow> bool" where
  "arp_valid h \<longleftrightarrow> of_le16 (hdr_field h 14 2) = htons HWTYPE_ETHERNET \<and> h ! 18 = of_nat ETHARP_HWADDR_LEN \<and> h ! 19 = 4
     \<and> of_le16 (hdr_field h 16 2) = htons ETHTYPE_IP"

definition arp_reply :: "bytes \<Rightarrow> u32 \<Rightarrow> bytes \<Rightarrow> bytes" where
  "arp_reply h ip ethaddr =
     hdr_field h 22 6 @ ethaddr @ hdr_field h 12 8 @ le16 (htons ARP_REPLY)
     @ ethaddr @ le32 ip @ hdr_field h 22 6 @ hdr_field h 28 4"

definition etharp_arp_input :: "nat \<Rightarrow> bytes \<Rightarrow> nat \<Rightarrow> 'a eth_scheme \<Rightarrow> 'a eth_scheme option" where
  "etharp_arp_input netif ethaddr p s = do {
     b \<leftarrow> heap (ebufs s) p;
     n \<leftarrow> netifs s netif;
     if unat (p_len b) < SIZEOF_ETHARP_PACKET then free_pbuf p s
     else do {
       h \<leftarrow> payload_read p 0 SIZEOF_ETHARP_PACKET (ebufs s);
       if \<not> arp_valid h then free_pbuf p s
       else do {
         let sipaddr = of_le32 (hdr_field h 28 4);
         let dipaddr = of_le32 (hdr_field h 38 4);
         let for_us = (\<not> ip_addr_isany (nif_ip n) \<and> dipaddr = nif_ip n);
         (err, s) \<leftarrow> etharp_update_arp_entry netif sipaddr (hdr_field h 22 6)
                       (if for_us then ETHARP_FLAG_TRY_HARD else ETHARP_FLAG_FIND_ONLY) s;
         h \<leftarrow> payload_read p 0 SIZEOF_ETHARP_PACKET (ebufs s);
         s \<leftarrow> (if of_le16 (hdr_field h 20 2) = htons ARP_REQUEST \<and> for_us then do {
                  s \<leftarrow> do_bufs (payload_write p 0 (arp_reply h (nif_ip n) ethaddr)) s;
                  (err, s) \<leftarrow> linkoutput netif p s;
                  Some s }
                else Some s);
         free_pbuf p s } } }"

section \<open>Output\<close>

text \<open>The first buffer of the chain that is not read-only, for which the packet must be copied.\<close>

fun copy_needed :: "nat \<Rightarrow> nat option \<Rightarrow> pbuf_mem \<Rightarrow> nat option option" where
  "copy_needed fuel None s = Some None"
| "copy_needed 0 (Some a) s = None"
| "copy_needed (Suc fuel) (Some a) s = do {
     b \<leftarrow> heap s a;
     if p_type b \<noteq> PBUF_ROM then Some (Some a) else copy_needed fuel (p_next b) s }"

text \<open>The buffer to queue: a copy, or the packet itself with one more reference.\<close>

definition take_over :: "nat \<Rightarrow> pbuf_mem \<Rightarrow> (nat option \<times> pbuf_mem) option" where
  "take_over q m = do {
     c \<leftarrow> copy_needed chain_fuel (Some q) m;
     case c of
       Some a \<Rightarrow> do {
         b \<leftarrow> heap m a;
         (p, m) \<leftarrow> pbuf_alloc PBUF_RAW (p_tot_len b) PBUF_RAM m;
         case p of None \<Rightarrow> Some (None, m)
         | Some p \<Rightarrow> do {
             (err, m) \<leftarrow> pbuf_copy (Some p) (Some q) m;
             if err \<noteq> ERR_OK then do { (k, m) \<leftarrow> pbuf_free (Some p) m; Some (None, m) }
             else Some (Some p, m) } }
     | None \<Rightarrow> do { m \<leftarrow> pbuf_ref (Some q) m; Some (Some q, m) } }"

definition etharp_query :: "nat \<Rightarrow> u32 \<Rightarrow> nat option \<Rightarrow> 'a eth_scheme \<Rightarrow> (err_t \<times> 'a eth_scheme) option" where
  "etharp_query netif ipaddr q s = do {
     n \<leftarrow> netifs s netif;
     if not_unicast ipaddr n then Some (ERR_ARG, s)
     else do {
       (r, s) \<leftarrow> etharp_find_entry (Some ipaddr) ETHARP_FLAG_TRY_HARD s;
       case r of Inl err \<Rightarrow> Some (err, s)
       | Inr i \<Rightarrow> do {
           let s = (if ae_state (entry i s) = ETHARP_STATE_EMPTY
                    then upd_entry i (\<lambda>e. e\<lparr>ae_state := ETHARP_STATE_PENDING\<rparr>) s else s);
           (result, s) \<leftarrow> (if ae_state (entry i s) = ETHARP_STATE_PENDING \<or> q = None then etharp_request netif ipaddr s
                          else Some (ERR_MEM, s));
           case q of None \<Rightarrow> Some (result, s)
           | Some q \<Rightarrow>
               if ae_state (entry i s) \<ge> ETHARP_STATE_STABLE then
                 etharp_send_ip netif q (nif_hwaddr n) (ae_ethaddr (entry i s)) (s\<lparr>etharp_cached_entry := i\<rparr>)
               else if ae_state (entry i s) = ETHARP_STATE_PENDING then do {
                 (p, s) \<leftarrow> on_bufs (take_over q) s;
                 case p of None \<Rightarrow> Some (ERR_MEM, s)
                 | Some p \<Rightarrow> do {
                     s \<leftarrow> (case ae_q (entry i s) of None \<Rightarrow> Some s | Some old \<Rightarrow> free_pbuf old s);
                     Some (ERR_OK, upd_entry i (\<lambda>e. e\<lparr>ae_q := Some p\<rparr>) s) } }
               else Some (result, s) } } }"

definition etharp_output_to_arp_index :: "nat \<Rightarrow> nat \<Rightarrow> nat \<Rightarrow> 'a eth_scheme \<Rightarrow> (err_t \<times> 'a eth_scheme) option" where
  "etharp_output_to_arp_index netif q arp_idx s = do {
     n \<leftarrow> netifs s netif;
     s \<leftarrow> (if ae_state (entry arp_idx s) = ETHARP_STATE_STABLE \<and> ae_ctime (entry arp_idx s) \<ge> ARP_AGE_REREQUEST_USED then do {
              (err, s) \<leftarrow> etharp_request netif (ae_ipaddr (entry arp_idx s)) s;
              Some (if err = ERR_OK then upd_entry arp_idx (\<lambda>e. e\<lparr>ae_state := ETHARP_STATE_STABLE_REREQUESTING\<rparr>) s else s) }
            else Some s);
     etharp_send_ip netif q (nif_hwaddr n) (ae_ethaddr (entry arp_idx s)) s }"

definition mcast_addr :: "u32 \<Rightarrow> bytes" where
  "mcast_addr ipaddr = LL_MULTICAST_ADDR @ [le32 ipaddr ! 1 AND 0x7F, le32 ipaddr ! 2, le32 ipaddr ! 3]"

definition stable_for :: "u32 \<Rightarrow> 'a eth_scheme \<Rightarrow> nat \<Rightarrow> bool" where
  "stable_for ipaddr s i \<longleftrightarrow> ae_state (entry i s) \<ge> ETHARP_STATE_STABLE \<and> ipaddr = ae_ipaddr (entry i s)"

definition etharp_output :: "nat \<Rightarrow> nat \<Rightarrow> u32 \<Rightarrow> 'a eth_scheme \<Rightarrow> (err_t \<times> 'a eth_scheme) option" where
  "etharp_output netif q ipaddr s = do {
     n \<leftarrow> netifs s netif;
     (r, s) \<leftarrow> on_bufs (pbuf_header (Some q) (int SIZEOF_ETH_HDR)) s;
     if r \<noteq> 0 then Some (ERR_BUF, s)
     else if ip4_addr_isbroadcast ipaddr (netif.truncate n) then etharp_send_ip netif q (nif_hwaddr n) ethbroadcast s
     else if ip_addr_ismulticast ipaddr then etharp_send_ip netif q (nif_hwaddr n) (mcast_addr ipaddr) s
     else (let outside = (\<not> ip_addr_netcmp ipaddr (nif_ip n) (nif_mask n) \<and> \<not> ip_addr_islinklocal ipaddr) in
       if outside \<and> ip_addr_isany (nif_gw n) then Some (ERR_RTE, s)
       else (let dst = (if outside then nif_gw n else ipaddr) in
         if stable_for dst s (etharp_cached_entry s) then etharp_output_to_arp_index netif q (etharp_cached_entry s) s
         else (case List.find (stable_for dst s) [0..<ARP_TABLE_SIZE] of
             Some i \<Rightarrow> etharp_output_to_arp_index netif q i (s\<lparr>etharp_cached_entry := i\<rparr>)
           | None \<Rightarrow> etharp_query netif dst (Some q) s))) }"

section \<open>Input\<close>

text \<open>\<open>ip_input\<close> is the function of the IP layer.\<close>

definition ll_flags :: "bytes \<Rightarrow> u8" where
  "ll_flags dest = (if dest ! 0 AND 1 \<noteq> 0 then
       (if dest ! 0 = LL_MULTICAST_ADDR ! 0 then
          (if dest ! 1 = LL_MULTICAST_ADDR ! 1 \<and> dest ! 2 = LL_MULTICAST_ADDR ! 2 then PBUF_FLAG_LLMCAST else 0)
        else if dest = ethbroadcast then PBUF_FLAG_LLBCAST else 0)
     else 0)"

definition ethernet_input :: "(nat \<Rightarrow> nat \<Rightarrow> 'a eth_scheme \<Rightarrow> 'a eth_scheme option) \<Rightarrow> nat \<Rightarrow> nat \<Rightarrow> 'a eth_scheme
    \<Rightarrow> (err_t \<times> 'a eth_scheme) option" where
  "ethernet_input ip_input p netif s = do {
     b \<leftarrow> heap (ebufs s) p;
     s \<leftarrow> (if unat (p_len b) \<le> SIZEOF_ETH_HDR then free_pbuf p s
          else do {
            h \<leftarrow> payload_read p 0 SIZEOF_ETH_HDR (ebufs s);
            n \<leftarrow> netifs s netif;
            s \<leftarrow> do_bufs (upd p (\<lambda>b. b\<lparr>p_flags := p_flags b OR ll_flags (hdr_field h 0 6)\<rparr>)) s;
            if of_le16 (hdr_field h 12 2) = htons ETHTYPE_IP then
              (if nif_flags n AND NETIF_FLAG_ETHARP = 0 then free_pbuf p s
               else do {
                 (r, s) \<leftarrow> on_bufs (pbuf_header (Some p) (- int SIZEOF_ETH_HDR)) s;
                 if r \<noteq> 0 then free_pbuf p s else ip_input p netif s })
            else if of_le16 (hdr_field h 12 2) = htons ETHTYPE_ARP then
              (if nif_flags n AND NETIF_FLAG_ETHARP = 0 then free_pbuf p s
               else etharp_arp_input netif (nif_hwaddr n) p s)
            else free_pbuf p s });
     Some (ERR_OK, s) }"

end
