(* ===== verification/Arp_Table.thy ===== *)
theory Arp_Table
  imports Etharp
begin

text \<open>
  The table of \<open>Etharp\<close>: what the search finds and which entry it recycles, the invariant of the table
  and of the queued packets in memory, and its preservation by the operations on entries.
\<close>

section \<open>The search\<close>

text \<open>\<open>oldest T k P i a\<close>: among the first \<open>k\<close> entries, \<open>i\<close> is the last of the oldest ones with \<open>P\<close>, of age \<open>a\<close>.\<close>

definition oldest :: "etharp_entry list \<Rightarrow> nat \<Rightarrow> (etharp_entry \<Rightarrow> bool) \<Rightarrow> nat \<Rightarrow> u8 \<Rightarrow> bool" where
  "oldest T k P i a \<longleftrightarrow> (if i = ARP_TABLE_SIZE then a = 0 \<and> (\<forall>j < k. \<not> P (T ! j))
     else i < k \<and> P (T ! i) \<and> a = ae_ctime (T ! i) \<and> (\<forall>j < k. P (T ! j) \<longrightarrow> ae_ctime (T ! j) \<le> a))"

definition is_empty :: "etharp_entry \<Rightarrow> bool" where "is_empty e \<longleftrightarrow> ae_state e = ETHARP_STATE_EMPTY"
definition is_dynamic :: "etharp_entry \<Rightarrow> bool" where
  "is_dynamic e \<longleftrightarrow> ETHARP_STATE_STABLE \<le> ae_state e \<and> ae_state e < ETHARP_STATE_STATIC"
definition is_waiting :: "etharp_entry \<Rightarrow> bool" where "is_waiting e \<longleftrightarrow> ae_state e = ETHARP_STATE_PENDING \<and> ae_q e = None"
definition is_queueing :: "etharp_entry \<Rightarrow> bool" where "is_queueing e \<longleftrightarrow> ae_state e = ETHARP_STATE_PENDING \<and> ae_q e \<noteq> None"

definition first_empty :: "etharp_entry list \<Rightarrow> nat \<Rightarrow> nat \<Rightarrow> bool" where
  "first_empty T k i \<longleftrightarrow> (if i = ARP_TABLE_SIZE then \<forall>j < k. \<not> is_empty (T ! j)
     else i < k \<and> is_empty (T ! i) \<and> (\<forall>j < i. \<not> is_empty (T ! j)))"

definition cand_ok :: "etharp_entry list \<Rightarrow> nat \<Rightarrow> arp_cand \<Rightarrow> bool" where
  "cand_ok T k c \<longleftrightarrow> first_empty T k (c_empty c) \<and> oldest T k is_dynamic (old_stable c) (age_stable c)
     \<and> oldest T k is_waiting (old_pending c) (age_pending c) \<and> oldest T k is_queueing (old_queue c) (age_queue c)"

lemma oldest_skip: "oldest T k P i a \<Longrightarrow> \<not> P (T ! k) \<Longrightarrow> oldest T (Suc k) P i a"
  by (auto simp: oldest_def less_Suc_eq split: if_splits)

lemma oldest_step:
  assumes "oldest T k P i a" "k < ARP_TABLE_SIZE" "b \<longleftrightarrow> P (T ! k) \<and> a \<le> ae_ctime (T ! k)"
  shows "oldest T (Suc k) P (if b then k else i) (if b then ae_ctime (T ! k) else a)"
  using assms by (auto simp: oldest_def less_Suc_eq split: if_splits intro: order_trans)

lemma note_entry_fields:
  "c_empty (note_entry k e c) = c_empty c"
  "old_stable (note_entry k e c) = (if is_dynamic e \<and> age_stable c \<le> ae_ctime e then k else old_stable c)"
  "age_stable (note_entry k e c) = (if is_dynamic e \<and> age_stable c \<le> ae_ctime e then ae_ctime e else age_stable c)"
  "old_pending (note_entry k e c) = (if is_waiting e \<and> age_pending c \<le> ae_ctime e then k else old_pending c)"
  "age_pending (note_entry k e c) = (if is_waiting e \<and> age_pending c \<le> ae_ctime e then ae_ctime e else age_pending c)"
  "old_queue (note_entry k e c) = (if is_queueing e \<and> age_queue c \<le> ae_ctime e then k else old_queue c)"
  "age_queue (note_entry k e c) = (if is_queueing e \<and> age_queue c \<le> ae_ctime e then ae_ctime e else age_queue c)"
  by (cases "ae_state e"; simp add: note_entry_def is_dynamic_def is_waiting_def is_queueing_def
      less_eq_etharp_state_def less_etharp_state_def)+

lemma note_entry_ok:
  assumes "cand_ok T k c" "\<not> is_empty (T ! k)" "k < ARP_TABLE_SIZE"
  shows "cand_ok T (Suc k) (note_entry k (T ! k) c)"
proof -
  have "first_empty T (Suc k) (c_empty c)"
    using assms by (auto simp: cand_ok_def first_empty_def less_Suc_eq split: if_splits)
  then show ?thesis
    using assms(1,3) unfolding cand_ok_def note_entry_fields
    by (intro conjI oldest_step) simp_all
qed

lemma is_empty_others: "is_empty e \<Longrightarrow> \<not> is_dynamic e \<and> \<not> is_waiting e \<and> \<not> is_queueing e"
  by (simp add: is_empty_def is_dynamic_def is_waiting_def is_queueing_def less_eq_etharp_state_def)

lemma arp_scan_spec:
  assumes "cand_ok T k c" "k \<le> length T" "length T = ARP_TABLE_SIZE" "\<forall>j < k. \<not> is_empty (T ! j) \<longrightarrow> ip \<noteq> Some (ae_ipaddr (T ! j))"
  shows "case arp_scan ip k (drop k T) c of
      Inl i \<Rightarrow> i < ARP_TABLE_SIZE \<and> \<not> is_empty (T ! i) \<and> ip = Some (ae_ipaddr (T ! i))
    | Inr c' \<Rightarrow> cand_ok T ARP_TABLE_SIZE c' \<and> (\<forall>j < ARP_TABLE_SIZE. \<not> is_empty (T ! j) \<longrightarrow> ip \<noteq> Some (ae_ipaddr (T ! j)))"
  using assms
proof (induction "length T - k" arbitrary: k c)
  case 0
  then show ?case by simp
next
  case (Suc n)
  then have k: "k < length T" "k < ARP_TABLE_SIZE" by simp_all
  have d: "drop k T = T ! k # drop (Suc k) T" using k(1) by (simp add: Cons_nth_drop_Suc)
  have IH: "case arp_scan ip (Suc k) (drop (Suc k) T) c' of
      Inl i \<Rightarrow> i < ARP_TABLE_SIZE \<and> \<not> is_empty (T ! i) \<and> ip = Some (ae_ipaddr (T ! i))
    | Inr c' \<Rightarrow> cand_ok T ARP_TABLE_SIZE c' \<and> (\<forall>j < ARP_TABLE_SIZE. \<not> is_empty (T ! j) \<longrightarrow> ip \<noteq> Some (ae_ipaddr (T ! j)))"
    if "cand_ok T (Suc k) c'" "\<not> is_empty (T ! k) \<longrightarrow> ip \<noteq> Some (ae_ipaddr (T ! k))" for c'
    using Suc that k by (intro Suc.hyps(1)) (auto simp: less_Suc_eq)
  consider (e) "c_empty c = ARP_TABLE_SIZE" "is_empty (T ! k)" | (m) "\<not> is_empty (T ! k)" "ip = Some (ae_ipaddr (T ! k))"
    | (n) "\<not> is_empty (T ! k)" "ip \<noteq> Some (ae_ipaddr (T ! k))" | (s) "c_empty c \<noteq> ARP_TABLE_SIZE" "is_empty (T ! k)"
    by blast
  then show ?case
  proof cases
    case e
    then have "cand_ok T (Suc k) (c\<lparr>c_empty := k\<rparr>)"
      using Suc.prems(1) k(2) is_empty_others [OF e(2)] by (auto simp: cand_ok_def first_empty_def oldest_skip)
    from IH [OF this] e show ?thesis by (simp add: d is_empty_def)
  next
    case m
    then show ?thesis using k(2) by (simp add: d is_empty_def)
  next
    case n
    from IH [OF note_entry_ok [OF Suc.prems(1) n(1) k(2)]] n show ?thesis by (simp add: d is_empty_def)
  next
    case s
    then have "cand_ok T (Suc k) c"
      using Suc.prems(1) k(2) is_empty_others [OF s(2)]
      by (auto simp: cand_ok_def first_empty_def oldest_skip split: if_splits)
    from IH [OF this] s show ?thesis by (simp add: d is_empty_def)
  qed
qed

lemma arp_scan_table:
  assumes "length T = ARP_TABLE_SIZE"
  shows "case arp_scan ip 0 T no_cand of
      Inl i \<Rightarrow> i < ARP_TABLE_SIZE \<and> \<not> is_empty (T ! i) \<and> ip = Some (ae_ipaddr (T ! i))
    | Inr c \<Rightarrow> cand_ok T ARP_TABLE_SIZE c \<and> (\<forall>j < ARP_TABLE_SIZE. \<not> is_empty (T ! j) \<longrightarrow> ip \<noteq> Some (ae_ipaddr (T ! j)))"
proof -
  have "cand_ok T 0 no_cand" by (simp add: cand_ok_def no_cand_def oldest_def first_empty_def)
  from arp_scan_spec [OF this _ assms] show ?thesis by simp
qed

section \<open>The invariant\<close>

text \<open>
  \<open>H\<close> is the set of buffers somebody else holds. The table's queued packets are buffers of the heap of
  its own; together they are all the buffers there are.
\<close>

definition entry_ok :: "pbuf_mem \<Rightarrow> etharp_entry \<Rightarrow> bool" where
  "entry_ok m e \<longleftrightarrow> (case ae_q e of None \<Rightarrow> True
       | Some p \<Rightarrow> ae_state e = ETHARP_STATE_PENDING \<and> (\<exists>d. one_ram m p d \<and> SIZEOF_ETH_HDR \<le> length d))
     \<and> (ae_state e \<ge> ETHARP_STATE_STABLE \<longrightarrow> length (ae_ethaddr e) = 6)"

definition queued :: "etharp_entry list \<Rightarrow> nat set" where
  "queued T = {p. \<exists>e \<in> set T. ae_q e = Some p}"

definition apart :: "etharp_entry list \<Rightarrow> bool" where
  "apart T \<longleftrightarrow> (\<forall>i < length T. \<forall>j < length T. i \<noteq> j \<longrightarrow>
     (\<not> is_empty (T ! i) \<longrightarrow> \<not> is_empty (T ! j) \<longrightarrow> ae_ipaddr (T ! i) \<noteq> ae_ipaddr (T ! j))
     \<and> (ae_q (T ! i) = None \<or> ae_q (T ! i) \<noteq> ae_q (T ! j)))"

definition arp_inv :: "nat set \<Rightarrow> nat set \<Rightarrow> pbuf_mem \<Rightarrow> etharp_entry list \<Rightarrow> bool" where
  "arp_inv slots H m T \<longleftrightarrow> pool_ok slots m \<and> fresh_ram slots m \<and> length T = ARP_TABLE_SIZE
     \<and> (\<forall>i < ARP_TABLE_SIZE. entry_ok m (T ! i)) \<and> apart T
     \<and> dom (heap m) = H \<union> queued T \<and> H \<inter> queued T = {} \<and> finite H"

definition eth_ok :: "nat set \<Rightarrow> nat set \<Rightarrow> 'a eth_scheme \<Rightarrow> bool" where
  "eth_ok slots H s \<longleftrightarrow> arp_inv slots H (ebufs s) (arp_table s) \<and> etharp_cached_entry s < ARP_TABLE_SIZE
     \<and> (\<forall>a n. netifs s a = Some n \<longrightarrow> length (nif_hwaddr n) = 6)"

text \<open>The buffers in \<open>H\<close> are untouched.\<close>

definition keeps :: "nat set \<Rightarrow> pbuf_mem \<Rightarrow> pbuf_mem \<Rightarrow> bool" where
  "keeps H m m' \<longleftrightarrow> (\<forall>x \<in> H. heap m' x = heap m x \<and> blk m' x = blk m x)"

lemma keeps_refl [simp, intro]: "keeps H m m"
  by (simp add: keeps_def)

lemma keeps_trans: "keeps H m m' \<Longrightarrow> keeps H m' m'' \<Longrightarrow> keeps H m m''"
  by (simp add: keeps_def)

lemma keeps_mono: "keeps H m m' \<Longrightarrow> H' \<subseteq> H \<Longrightarrow> keeps H' m m'"
  by (auto simp: keeps_def)

lemma keeps_chain:
  assumes "keeps H m m'" "set as \<subseteq> H"
  shows "pchain m' q as = pchain m q as" "chain_data m' as = chain_data m as" "tot_lens m' k as = tot_lens m k as"
    "owned m' p as = owned m p as" "filled_tail m' as = filled_tail m as"
proof -
  have h: "heap m' a = heap m a" "blk m' a = blk m a" if "a \<in> set as" for a
    using that assms by (auto simp: keeps_def)
  show c: "pchain m' q as = pchain m q as" and d: "chain_data m' as = chain_data m as" for q
    by (rule pchain_upd chain_data_upd; use h in simp)+
  show t: "tot_lens m' k as = tot_lens m k as" for k
    using h by (induction as) (auto simp: buf_data_def chain_data_upd [of _ m' m] split: option.split)
  show "owned m' p as = owned m p as"
    using c t h by (simp add: owned_def exclusive_def ref_one_def not_custom_def)
  show "filled_tail m' as = filled_tail m as"
  proof -
    have "buf_data m' a = buf_data m a" if "a \<in> set (tl as)" for a
      using h [of a] that by (cases as) (auto simp: buf_data_def split: option.split)
    then show ?thesis by (simp add: filled_tail_def)
  qed
qed

lemma entry_ok_cong:
  assumes "\<And>p. ae_q e = Some p \<Longrightarrow> heap m' p = heap m p \<and> blk m' p = blk m p"
  shows "entry_ok m' e = entry_ok m e"
  using assms one_ram_cong [of m' _ m] by (auto simp: entry_ok_def split: option.split)

lemma queued_nth: "p \<in> queued T \<longleftrightarrow> (\<exists>i < length T. ae_q (T ! i) = Some p)"
  by (auto simp: queued_def in_set_conv_nth Bex_def)

lemma apartD:
  assumes "apart T" "i < length T" "j < length T" "i \<noteq> j"
  shows "ae_q (T ! i) = Some p \<Longrightarrow> ae_q (T ! j) \<noteq> Some p"
    "\<not> is_empty (T ! i) \<Longrightarrow> \<not> is_empty (T ! j) \<Longrightarrow> ae_ipaddr (T ! i) \<noteq> ae_ipaddr (T ! j)"
proof -
  have "ae_q (T ! i) = None \<or> ae_q (T ! i) \<noteq> ae_q (T ! j)"
    "\<not> is_empty (T ! i) \<longrightarrow> \<not> is_empty (T ! j) \<longrightarrow> ae_ipaddr (T ! i) \<noteq> ae_ipaddr (T ! j)"
    using assms unfolding apart_def by blast+
  then show "ae_q (T ! i) = Some p \<Longrightarrow> ae_q (T ! j) \<noteq> Some p"
    "\<not> is_empty (T ! i) \<Longrightarrow> \<not> is_empty (T ! j) \<Longrightarrow> ae_ipaddr (T ! i) \<noteq> ae_ipaddr (T ! j)" by auto
qed

lemma queued_update:
  assumes "i < length T" "apart T"
  shows "queued (T[i := e]) = (queued T - set_option (ae_q (T ! i))) \<union> set_option (ae_q e)"
proof (intro set_eqI iffI)
  fix p assume "p \<in> queued (T[i := e])"
  then obtain j where j: "j < length T" "ae_q (T[i := e] ! j) = Some p" by (auto simp: queued_nth)
  then show "p \<in> (queued T - set_option (ae_q (T ! i))) \<union> set_option (ae_q e)"
    using assms apartD(1) [OF assms(2), of j i p] by (cases "j = i") (auto simp: queued_nth)
next
  fix p assume p: "p \<in> (queued T - set_option (ae_q (T ! i))) \<union> set_option (ae_q e)"
  then show "p \<in> queued (T[i := e])"
  proof
    assume "p \<in> queued T - set_option (ae_q (T ! i))"
    then obtain j where "j < length T" "ae_q (T ! j) = Some p" "j \<noteq> i" by (auto simp: queued_nth)
    then show ?thesis by (auto simp: queued_nth)
  qed (use assms in \<open>auto simp: queued_nth\<close>)
qed

text \<open>A change of an entry that keeps its queued packet.\<close>

lemma arp_inv_update:
  assumes "arp_inv slots H m T" "i < ARP_TABLE_SIZE" "entry_ok m e" "ae_q e = ae_q (T ! i)"
    and "\<not> is_empty e \<longrightarrow> (\<forall>j < ARP_TABLE_SIZE. j \<noteq> i \<longrightarrow> \<not> is_empty (T ! j) \<longrightarrow> ae_ipaddr (T ! j) \<noteq> ae_ipaddr e)"
  shows "arp_inv slots H m (T[i := e])"
proof -
  have l: "length T = ARP_TABLE_SIZE" "apart T" using assms(1) by (simp_all add: arp_inv_def)
  have q: "queued (T[i := e]) = queued T"
    using queued_update [of i T e] l assms(2,4) by (auto simp: queued_nth)
  have "apart (T[i := e])"
    unfolding apart_def using l assms(2,4,5) by (auto simp: apart_def nth_list_update)
  then show ?thesis using assms(1-3) q by (auto simp: arp_inv_def nth_list_update)
qed

text \<open>An entry gives its queued packet away, to a new holder or to nobody.\<close>

lemma arp_inv_dequeue:
  assumes "arp_inv slots H m T" "i < ARP_TABLE_SIZE" "ae_q (T ! i) = Some p" "entry_ok m e" "ae_q e = None"
    and "\<not> is_empty e \<longrightarrow> (\<forall>j < ARP_TABLE_SIZE. j \<noteq> i \<longrightarrow> \<not> is_empty (T ! j) \<longrightarrow> ae_ipaddr (T ! j) \<noteq> ae_ipaddr e)"
  shows "arp_inv slots (insert p H) m (T[i := e])" "p \<notin> H"
proof -
  have l: "length T = ARP_TABLE_SIZE" "apart T" using assms(1) by (simp_all add: arp_inv_def)
  have q: "queued (T[i := e]) = queued T - {p}" using queued_update [of i T e] l assms(2,3,5) by simp
  have pq: "p \<in> queued T" using l assms(2,3) by (auto simp: queued_nth)
  have "apart (T[i := e])"
    unfolding apart_def using l assms(2,5,6) by (auto simp: apart_def nth_list_update)
  moreover have "dom (heap m) = insert p H \<union> (queued T - {p})" "H \<inter> queued T = {}"
    using assms(1) pq by (auto simp: arp_inv_def)
  ultimately show "arp_inv slots (insert p H) m (T[i := e])" using assms(1,2,4) q
    by (auto simp: arp_inv_def nth_list_update)
  show "p \<notin> H" using pq assms(1) by (auto simp: arp_inv_def)
qed

lemma arp_inv_enqueue:
  assumes "arp_inv slots (insert p H) m T" "p \<notin> H" "i < ARP_TABLE_SIZE" "ae_q (T ! i) = None" "entry_ok m e" "ae_q e = Some p"
    and "\<not> is_empty e \<longrightarrow> (\<forall>j < ARP_TABLE_SIZE. j \<noteq> i \<longrightarrow> \<not> is_empty (T ! j) \<longrightarrow> ae_ipaddr (T ! j) \<noteq> ae_ipaddr e)"
  shows "arp_inv slots H m (T[i := e])"
proof -
  have l: "length T = ARP_TABLE_SIZE" "apart T" using assms(1) by (simp_all add: arp_inv_def)
  have q: "queued (T[i := e]) = insert p (queued T)" using queued_update [of i T e] l assms(3,4,6) by simp
  have pq: "p \<notin> queued T" using assms(1) by (auto simp: arp_inv_def)
  then have n: "ae_q (T ! j) \<noteq> Some p" "Some p \<noteq> ae_q (T ! j)" if "j < ARP_TABLE_SIZE" for j
    using that l by (auto simp: queued_nth)
  have "apart (T[i := e])"
    unfolding apart_def using l assms(3,4,6,7) n by (auto simp: apart_def nth_list_update)
  then show ?thesis using assms(1-3,5) q by (auto simp: arp_inv_def nth_list_update)
qed

text \<open>The memory changes, but not for the queued packets.\<close>

lemma arp_inv_mem:
  assumes "arp_inv slots H m T" "pool_ok slots m'" "fresh_ram slots m'" "keeps (queued T) m m'"
    and "dom (heap m') = H' \<union> queued T" "H' \<inter> queued T = {}" "finite H'"
  shows "arp_inv slots H' m' T"
proof -
  have "entry_ok m' (T ! i) = entry_ok m (T ! i)" if "i < length T" for i
    using that assms(4) by (intro entry_ok_cong) (auto simp: keeps_def queued_nth)
  then show ?thesis using assms by (auto simp: arp_inv_def)
qed

lemma arp_inv_finite: "arp_inv slots H m T \<Longrightarrow> finite (dom (heap m))"
proof -
  assume "arp_inv slots H m T"
  then have d: "dom (heap m) = H \<union> queued T" "finite H" by (simp_all add: arp_inv_def)
  have "Some ` queued T \<subseteq> ae_q ` set T" by (force simp: queued_def)
  then have "finite (Some ` queued T)" by (rule finite_subset) simp
  then have "finite (queued T)" by (rule finite_imageD) simp
  then show "finite (dom (heap m))" using d by simp
qed

lemma fresh_ram_same: "fresh_ram slots m \<Longrightarrow> mem_malloc m' = mem_malloc m \<Longrightarrow> fresh_ram slots m'"
  by (simp add: fresh_ram_def)

text \<open>Freeing a heap buffer, or a chain, of a holder.\<close>

lemma arp_inv_free:
  assumes "arp_inv slots H m T" "owned m p as" "set as \<subseteq> H" "length as \<le> chain_fuel"
  shows "\<exists>k m'. pbuf_free (Some p) m = Some (k, m') \<and> arp_inv slots (H - set as) m' T \<and> keeps (H - set as) m m'
     \<and> mem_malloc m' = mem_malloc m \<and> heap m' = (\<lambda>x. if x \<in> set as then None else heap m x) \<and> blk m' = blk m"
proof -
  have ex: "exclusive m p as" using assms(2) by (simp add: owned_def)
  from pbuf_free_exclusive [OF ex assms(4)] obtain m' where m':
    "pbuf_free (Some p) m = Some (of_nat (length as), m')" "heap m' = (\<lambda>x. if x \<in> set as then None else heap m x)"
    "blk m' = blk m" "mem_malloc m' = mem_malloc m" by blast
  have po: "pool_ok slots m'" using assms(1) by (intro pool_ok_free [OF _ ex assms(4) m'(1)]) (simp add: arp_inv_def)
  have d: "H \<inter> queued T = {}" "dom (heap m) = H \<union> queued T" "finite H" using assms(1) by (simp_all add: arp_inv_def)
  have "arp_inv slots (H - set as) m' T"
  proof (rule arp_inv_mem [OF assms(1) po])
    show "fresh_ram slots m'" using assms(1) m'(4) fresh_ram_same [of slots m m'] by (simp add: arp_inv_def)
    show "keeps (queued T) m m'" using d assms(3) by (auto simp: keeps_def m'(2,3))
    have "dom (heap m') = dom (heap m) - set as" by (auto simp: m'(2) split: if_splits)
    then show "dom (heap m') = H - set as \<union> queued T" using d assms(3) by auto
  qed (use d in auto)
  moreover have "keeps (H - set as) m m'" by (auto simp: keeps_def m'(2,3))
  ultimately show ?thesis using m' by blast
qed

section \<open>Operations on entries\<close>

lemma upd_entry_sels [simp]:
  "ebufs (upd_entry i f s) = ebufs s" "netifs (upd_entry i f s) = netifs s" "frames (upd_entry i f s) = frames s"
  "etharp_cached_entry (upd_entry i f s) = etharp_cached_entry s" "link_out (upd_entry i f s) = link_out s"
  "arp_table (upd_entry i f s) = (arp_table s)[i := f (entry i s)]"
  by (simp_all add: upd_entry_def)

lemma entry_upd [simp]: "i < length (arp_table s) \<Longrightarrow> entry j (upd_entry i f s) = (if j = i then f (entry i s) else entry j s)"
  by (simp add: entry_def nth_list_update)

lemma upd_entry_upd [simp]: "i < length (arp_table s) \<Longrightarrow> upd_entry i g (upd_entry i f s) = upd_entry i (g \<circ> f) s"
  by (simp add: upd_entry_def entry_def)

lemma upd_entry_bufs: "upd_entry i f (s\<lparr>ebufs := m\<rparr>) = (upd_entry i f s)\<lparr>ebufs := m\<rparr>"
  by (simp add: upd_entry_def entry_def)

lemma entry_bufs [simp]: "entry i (s\<lparr>ebufs := m\<rparr>) = entry i s" "entry i (s\<lparr>frames := fs\<rparr>) = entry i s"
  "entry i (s\<lparr>etharp_cached_entry := c\<rparr>) = entry i s"
  by (simp_all add: entry_def)

text \<open>What an operation may do: the table, the memory of others and the frames.\<close>

definition arp_step :: "nat set \<Rightarrow> nat set \<Rightarrow> nat set \<Rightarrow> 'a eth_scheme \<Rightarrow> 'a eth_scheme \<Rightarrow> bool" where
  "arp_step slots H H' s s' \<longleftrightarrow> eth_ok slots H' s' \<and> keeps (H \<inter> H') (ebufs s) (ebufs s') \<and> netifs s' = netifs s
     \<and> link_out s' = link_out s \<and> mem_malloc (ebufs s') = mem_malloc (ebufs s)
     \<and> (\<exists>fs. frames s' = frames s @ fs)"

lemma arp_step_refl: "eth_ok slots H s \<Longrightarrow> arp_step slots H H s s"
  by (simp add: arp_step_def)

lemma arp_step_trans:
  assumes "arp_step slots H H1 s s1" "arp_step slots H1 H2 s1 s2" "H \<inter> H2 \<subseteq> H1"
  shows "arp_step slots H H2 s s2"
  using assms keeps_mono [of "H \<inter> H1" "ebufs s" "ebufs s1" "H \<inter> H2"] keeps_mono [of "H1 \<inter> H2" "ebufs s1" "ebufs s2" "H \<inter> H2"]
  by (auto simp: arp_step_def intro: keeps_trans)

lemma eth_ok_table: "eth_ok slots H s \<Longrightarrow> length (arp_table s) = ARP_TABLE_SIZE"
  by (simp add: eth_ok_def arp_inv_def)

lemma eth_ok_entry: "eth_ok slots H s \<Longrightarrow> i < ARP_TABLE_SIZE \<Longrightarrow> entry_ok (ebufs s) (entry i s)"
  by (simp add: eth_ok_def arp_inv_def entry_def)

lemma eth_ok_distinct:
  assumes "eth_ok slots H s" "i < ARP_TABLE_SIZE" "j < ARP_TABLE_SIZE" "i \<noteq> j" "\<not> is_empty (entry i s)" "\<not> is_empty (entry j s)"
  shows "ae_ipaddr (entry i s) \<noteq> ae_ipaddr (entry j s)"
  using assms apartD(2) [of "arp_table s" i j] by (simp add: eth_ok_def arp_inv_def entry_def)

text \<open>Changing an entry in place.\<close>

lemma upd_entry_step:
  assumes "eth_ok slots H s" "i < ARP_TABLE_SIZE" "entry_ok (ebufs s) (f (entry i s))" "ae_q (f (entry i s)) = ae_q (entry i s)"
    and "\<not> is_empty (f (entry i s)) \<longrightarrow> (\<forall>j < ARP_TABLE_SIZE. j \<noteq> i \<longrightarrow> \<not> is_empty (entry j s) \<longrightarrow> ae_ipaddr (entry j s) \<noteq> ae_ipaddr (f (entry i s)))"
  shows "arp_step slots H H s (upd_entry i f s)"
  using assms arp_inv_update [of slots H "ebufs s" "arp_table s" i "f (entry i s)"]
  by (simp add: arp_step_def eth_ok_def entry_def)

lemma arp_inv_same:
  assumes "arp_inv slots H m T" "i < ARP_TABLE_SIZE" "ae_q (T ! i) = Some p" 
  shows "\<exists>d. one_ram m p d \<and> 14 \<le> length d" "ae_state (T ! i) = ETHARP_STATE_PENDING" "p \<notin> slots"
proof -
  have e: "entry_ok m (T ! i)" using assms(1,2) by (simp add: arp_inv_def)
  then show d: "\<exists>d. one_ram m p d \<and> 14 \<le> length d" "ae_state (T ! i) = ETHARP_STATE_PENDING"
    using assms(3) by (simp_all add: entry_ok_def SIZEOF_ETH_HDR_def)
  then obtain d where "one_ram m p d" by blast
  then obtain b where b: "heap m p = Some b" "p_type b = PBUF_RAM" by (rule one_ramE)
  show "p \<notin> slots"
  proof
    assume "p \<in> slots"
    moreover have "set (pool m) \<union> {a. of_type m {PBUF_POOL} a} = slots" "\<forall>a \<in> set (pool m). heap m a = None"
      using assms(1) by (simp_all add: arp_inv_def pool_ok_def)
    ultimately show False using b by (auto simp: of_type_def)
  qed
qed

lemma etharp_free_entry_step:
  assumes "eth_ok slots H s" "i < ARP_TABLE_SIZE"
  shows "\<exists>s'. etharp_free_entry i s = Some s' \<and> arp_step slots H H s s'
     \<and> arp_table s' = (arp_table s)[i := (entry i s)\<lparr>ae_q := None, ae_state := ETHARP_STATE_EMPTY\<rparr>]
     \<and> frames s' = frames s \<and> etharp_cached_entry s' = etharp_cached_entry s"
proof (cases "ae_q (entry i s)")
  case None
  have "(arp_table s)[i := (entry i s)\<lparr>ae_state := ETHARP_STATE_EMPTY\<rparr>]
      = (arp_table s)[i := (entry i s)\<lparr>ae_q := None, ae_state := ETHARP_STATE_EMPTY\<rparr>]"
    by (rule arg_cong [of _ _ "\<lambda>e. (arp_table s)[i := e]"]) (use None in simp)
  moreover have "arp_step slots H H s (upd_entry i (\<lambda>e. e\<lparr>ae_state := ETHARP_STATE_EMPTY\<rparr>) s)"
    by (rule upd_entry_step) (use assms None in \<open>simp_all add: entry_ok_def is_empty_def less_eq_etharp_state_def\<close>)
  ultimately show ?thesis using None by (simp add: etharp_free_entry_def)
next
  case (Some p)
  let ?e = "(entry i s)\<lparr>ae_q := None, ae_state := ETHARP_STATE_EMPTY\<rparr>"
  let ?T = "(arp_table s)[i := ?e]"
  have inv: "arp_inv slots H (ebufs s) (arp_table s)" using assms(1) by (simp add: eth_ok_def)
  have q: "ae_q (arp_table s ! i) = Some p" using Some by (simp add: entry_def)
  have e: "entry_ok (ebufs s) ?e" "is_empty ?e" by (simp_all add: entry_ok_def is_empty_def less_eq_etharp_state_def)
  from arp_inv_dequeue [OF inv assms(2) q e(1)] e(2)
  have d: "arp_inv slots (insert p H) (ebufs s) ?T" "p \<notin> H" by simp_all
  from arp_inv_same(1) [OF inv assms(2) q] obtain x where "one_ram (ebufs s) p x" by blast
  then have ow: "owned (ebufs s) p [p]" by (simp add: one_ram_def)
  from arp_inv_free [OF d(1) ow] d(2) obtain k m' where m': "pbuf_free (Some p) (ebufs s) = Some (k, m')"
    "arp_inv slots H m' ?T" "keeps H (ebufs s) m'" "mem_malloc m' = mem_malloc (ebufs s)" by (auto simp: chain_fuel_def)
  let ?s = "s\<lparr>ebufs := m', arp_table := ?T\<rparr>"
  have "etharp_free_entry i s = Some ?s"
    using Some m'(1) eth_ok_table [OF assms(1)] assms(2)
    by (simp add: etharp_free_entry_def free_pbuf_def upd_entry_def entry_def)
  moreover have "arp_step slots H H s ?s" using assms(1) m' by (simp add: arp_step_def eth_ok_def)
  ultimately show ?thesis by simp
qed

lemma for_entries_step:
  assumes "\<And>i s. eth_ok slots H s \<Longrightarrow> i \<in> set is \<Longrightarrow> \<exists>s'. f i s = Some s' \<and> arp_step slots H H s s'" "eth_ok slots H s"
  shows "\<exists>s'. for_entries f is s = Some s' \<and> arp_step slots H H s s'"
  using assms
proof (induction "is" arbitrary: s)
  case Nil
  then show ?case by (simp add: arp_step_refl)
next
  case (Cons i "is")
  then obtain s1 where s1: "f i s = Some s1" "arp_step slots H H s s1" by (metis list.set_intros(1))
  moreover have "eth_ok slots H s1" using s1(2) by (simp add: arp_step_def)
  moreover from this obtain s2 where "for_entries f is s1 = Some s2" "arp_step slots H H s1 s2"
    using Cons.IH [of s1] Cons.prems(1) by auto
  ultimately show ?case by (auto intro: arp_step_trans)
qed

lemma etharp_find_entry_step:
  assumes "eth_ok slots H s"
  shows "\<exists>r s'. etharp_find_entry (Some ip) flags s = Some (r, s') \<and> arp_step slots H H s s' \<and> frames s' = frames s
     \<and> etharp_cached_entry s' = etharp_cached_entry s \<and> (case r of
        Inl err \<Rightarrow> err = ERR_MEM \<and> s' = s
      | Inr i \<Rightarrow> i < ARP_TABLE_SIZE \<and> ae_ipaddr (entry i s') = ip
          \<and> (\<not> is_empty (entry i s') \<and> s' = s \<or> is_empty (entry i s') \<and> ae_q (entry i s') = None
              \<and> (\<forall>j < ARP_TABLE_SIZE. \<not> is_empty (entry j s) \<longrightarrow> ae_ipaddr (entry j s) \<noteq> ip))
          \<and> (\<forall>j < ARP_TABLE_SIZE. j \<noteq> i \<longrightarrow> entry j s' = entry j s)
          \<and> (\<forall>j < ARP_TABLE_SIZE. j \<noteq> i \<longrightarrow> \<not> is_empty (entry j s') \<longrightarrow> ae_ipaddr (entry j s') \<noteq> ip))"
proof -
  note len = eth_ok_table [OF assms]
  have new: "arp_step slots H H s (new_entry (Some ip) i s)" "entry i (new_entry (Some ip) i s) = (entry i s)\<lparr>ae_ipaddr := ip, ae_ctime := 0\<rparr>"
      "\<And>j. j \<noteq> i \<Longrightarrow> entry j (new_entry (Some ip) i s) = entry j s" "frames (new_entry (Some ip) i s) = frames s"
      "etharp_cached_entry (new_entry (Some ip) i s) = etharp_cached_entry s"
    if "eth_ok slots H s" "i < ARP_TABLE_SIZE" "is_empty (entry i s)" for i and s :: "'a eth_scheme"
  proof -
    note l = eth_ok_table [OF that(1)]
    show "arp_step slots H H s (new_entry (Some ip) i s)" unfolding new_entry_def
      by (rule upd_entry_step) (use that eth_ok_entry [OF that(1,2)] in
          \<open>simp_all add: entry_ok_def is_empty_def less_eq_etharp_state_def split: option.splits\<close>)
  qed (use that eth_ok_table [OF that(1)] in \<open>simp_all add: new_entry_def\<close>)
  show ?thesis
  proof (cases "arp_scan (Some ip) 0 (arp_table s) no_cand")
    case (Inl i)
    then have i: "i < ARP_TABLE_SIZE" "\<not> is_empty (entry i s)" "ip = ae_ipaddr (entry i s)"
      using arp_scan_table [OF len, of "Some ip"] by (simp_all add: entry_def)
    then show ?thesis using Inl assms eth_ok_distinct [OF assms _ i(1)]
      by (auto simp: etharp_find_entry_def arp_step_refl)
  next
    case (Inr c)
    then have c: "cand_ok (arp_table s) ARP_TABLE_SIZE c"
      and no: "\<forall>j < ARP_TABLE_SIZE. \<not> is_empty (entry j s) \<longrightarrow> ae_ipaddr (entry j s) \<noteq> ip"
      using arp_scan_table [OF len, of "Some ip"] by (auto simp: entry_def)
    define A where "A \<longleftrightarrow> flags AND ETHARP_FLAG_FIND_ONLY \<noteq> 0 \<or> c_empty c = ARP_TABLE_SIZE \<and> flags AND ETHARP_FLAG_TRY_HARD = 0"
    have run: "etharp_find_entry (Some ip) flags s = (if A then Some (Inl ERR_MEM, s)
         else if c_empty c < ARP_TABLE_SIZE then Some (Inr (c_empty c), new_entry (Some ip) (c_empty c) s)
         else (case recycle c of None \<Rightarrow> Some (Inl ERR_MEM, s)
           | Some i \<Rightarrow> do { s \<leftarrow> etharp_free_entry i s; Some (Inr i, new_entry (Some ip) i s) }))"
      unfolding etharp_find_entry_def A_def by (simp add: Inr)
    have "A \<or> \<not> A \<and> c_empty c < ARP_TABLE_SIZE \<or> \<not> A \<and> \<not> c_empty c < ARP_TABLE_SIZE \<and> recycle c = None
       \<or> (\<exists>i. \<not> A \<and> \<not> c_empty c < ARP_TABLE_SIZE \<and> recycle c = Some i)" by auto
    then consider (no) "etharp_find_entry (Some ip) flags s = Some (Inl ERR_MEM, s)"
      | (empty) "c_empty c < ARP_TABLE_SIZE" "etharp_find_entry (Some ip) flags s = Some (Inr (c_empty c), new_entry (Some ip) (c_empty c) s)"
      | (old) i where "recycle c = Some i" "etharp_find_entry (Some ip) flags s
          = do { s \<leftarrow> etharp_free_entry i s; Some (Inr i, new_entry (Some ip) i s) }"
      by (elim disjE conjE exE) (simp_all add: run)
    then show ?thesis
    proof cases
      case no
      then show ?thesis using assms by (simp add: arp_step_refl)
    next
      case empty
      then have e: "is_empty (entry (c_empty c) s)" using c by (auto simp: cand_ok_def first_empty_def entry_def)
      have q: "ae_q (entry (c_empty c) s) = None"
        using eth_ok_entry [OF assms empty(1)] e by (auto simp: entry_ok_def is_empty_def split: option.splits)
      show ?thesis using new [OF assms empty(1) e] empty e q no by (simp add: is_empty_def)
    next
      case (old i)
      then have i: "i < ARP_TABLE_SIZE" by (auto simp: recycle_def split: if_splits)
      from etharp_free_entry_step [OF assms i] obtain s1 where s1: "etharp_free_entry i s = Some s1" "arp_step slots H H s s1"
        "arp_table s1 = (arp_table s)[i := (entry i s)\<lparr>ae_q := None, ae_state := ETHARP_STATE_EMPTY\<rparr>]"
        "frames s1 = frames s" "etharp_cached_entry s1 = etharp_cached_entry s" by blast
      have o: "eth_ok slots H s1" using s1(2) by (simp add: arp_step_def)
      have e: "entry i s1 = (entry i s)\<lparr>ae_q := None, ae_state := ETHARP_STATE_EMPTY\<rparr>" "\<And>j. j \<noteq> i \<Longrightarrow> entry j s1 = entry j s"
        using i len by (simp_all add: entry_def s1(3))
      have em: "is_empty (entry i s1)" by (simp add: e is_empty_def)
      show ?thesis using new [OF o i em] old s1 i no e em arp_step_trans [OF s1(2) new(1) [OF o i em]]
        by (simp add: is_empty_def)
    qed
  qed
qed

end
