(* ===== verification/Arp_Ops.thy ===== *)
theory Arp_Ops
  imports Arp_Table
begin

text \<open>
  Sending frames and ARP packets, and the update of an entry: what leaves on the link, what the table
  holds afterwards, and that the invariant of \<open>Arp_Table\<close> is kept.
\<close>

section \<open>Sending\<close>

lemma le16_htons: "le16 (htons w) = be16 w"
proof -
  have "ucast (htons w) = (ucast (drop_bit 8 w) :: u8)" "ucast (drop_bit 8 (htons w)) = (ucast w :: u8)"
    unfolding htons_def and_255 drop_and_65280
    by (rule bit_word_eqI; auto simp: bit_simps dest: bit_imp_le_length)+
  then show ?thesis by (simp add: le16_def be16_def)
qed

lemma linkoutput_chain:
  assumes "owned (ebufs s) p (p # rest)" "length (p # rest) \<le> chain_fuel"
  shows "linkoutput netif p s = Some (link_out s (length (frames s)), s\<lparr>frames := frames s @ [(netif, chain_data (ebufs s) (p # rest))]\<rparr>)"
proof -
  from assms(1) obtain b where b: "heap (ebufs s) p = Some b" "unat (p_tot_len b) = length (chain_data (ebufs s) (p # rest))"
    by (auto simp: owned_def exclusive_def split: option.splits)
  have "pchain (ebufs s) (Some p) (p # rest)" using assms(1) by (simp add: owned_def exclusive_def)
  from copy_partial_loop_chain [OF this assms(2), of "unat (p_tot_len b)" 0 "[]"] b show ?thesis
    by (simp add: linkoutput_def pbuf_copy_partial_def del: pchain.simps)
qed

lemma ethertype_bytes: "le16 (htons ETHTYPE_IP) = [8, 0]" "le16 (htons ETHTYPE_ARP) = [8, 6]"
  by (simp_all add: ETHTYPE_IP_def ETHTYPE_ARP_def htons_def le16_def)

definition eth_frame :: "bytes \<Rightarrow> bytes \<Rightarrow> bytes \<Rightarrow> bytes" where
  "eth_frame dst src d = dst @ src @ [8, 0] @ d"

lemma etharp_send_ip_chain:
  assumes "owned (ebufs s) p (p # rest)" "length (p # rest) \<le> chain_fuel" "heap (ebufs s) p = Some b" "14 \<le> unat (p_len b)"
    and "length src = 6" "length dst = 6"
  shows "\<exists>m. etharp_send_ip netif p src dst s = Some (link_out s (length (frames s)),
       s\<lparr>ebufs := m, frames := frames s @ [(netif, eth_frame dst src (drop 14 (chain_data (ebufs s) (p # rest))))]\<rparr>)
     \<and> hd_edit (ebufs s) m p \<and> owned m p (p # rest)
     \<and> chain_data m (p # rest) = eth_frame dst src (drop 14 (chain_data (ebufs s) (p # rest)))"
proof -
  let ?h = "dst @ src @ [8, 0]"
  have "0 + length ?h \<le> unat (p_len b)" using assms(4-6) by simp
  from payload_write_chain [OF assms(1,3) this] obtain m where m: "payload_write p 0 ?h (ebufs s) = Some m"
    "hd_edit (ebufs s) m p" "owned m p (p # rest)"
    "chain_data m (p # rest) = ?h @ drop 14 (chain_data (ebufs s) (p # rest))"
    using assms(5,6) by (auto simp del: chain_data_simps)
  have "linkoutput netif p (s\<lparr>ebufs := m\<rparr>) = Some (link_out s (length (frames s)),
      s\<lparr>ebufs := m, frames := frames s @ [(netif, chain_data m (p # rest))]\<rparr>)"
    using linkoutput_chain [of "s\<lparr>ebufs := m\<rparr>" p rest] m(3) assms(2) by simp
  then have "etharp_send_ip netif p src dst s = Some (link_out s (length (frames s)),
       s\<lparr>ebufs := m, frames := frames s @ [(netif, ?h @ drop 14 (chain_data (ebufs s) (p # rest)))]\<rparr>)"
    using m(1,4) by (simp add: etharp_send_ip_def do_bufs_def ethertype_bytes del: chain_data_simps)
  with m(2-4) show ?thesis by (auto simp: eth_frame_def simp del: chain_data_simps)
qed

lemma hd_edit_dom: "hd_edit m m' p \<Longrightarrow> dom (heap m') = dom (heap m)"
  using hd_edit_fields(5) [of m m' p] by (auto simp: dom_def)

lemma hd_edit_keeps: "hd_edit m m' p \<Longrightarrow> p \<notin> H \<Longrightarrow> keeps H m m'"
  by (auto simp: keeps_def hd_edit_def)

lemma arp_inv_hd_edit:
  assumes "arp_inv slots H m T" "hd_edit m m' p" "p \<in> H"
  shows "arp_inv slots H m' T"
proof (rule arp_inv_mem [OF assms(1)])
  have i: "pool_ok slots m" "fresh_ram slots m" "dom (heap m) = H \<union> queued T" "H \<inter> queued T = {}" "finite H"
    using assms(1) by (simp_all add: arp_inv_def)
  show "pool_ok slots m'" using hd_edit_pool_ok [OF assms(2)] i(1) by simp
  show "fresh_ram slots m'" using i(2) assms(2) fresh_ram_same [of slots m m'] by (simp add: hd_edit_def)
  show "keeps (queued T) m m'" using i(4) assms(2,3) by (intro hd_edit_keeps) auto
  show "dom (heap m') = H \<union> queued T" "H \<inter> queued T = {}" "finite H" using i(3-5) hd_edit_dom [OF assms(2)] by simp_all
qed

lemma etharp_send_ip_step:
  assumes "eth_ok slots H s" "owned (ebufs s) p (p # rest)" "length (p # rest) \<le> chain_fuel" "p \<in> H"
    and "heap (ebufs s) p = Some b" "14 \<le> unat (p_len b)" "length src = 6" "length dst = 6"
  shows "\<exists>s'. etharp_send_ip netif p src dst s = Some (link_out s (length (frames s)), s') \<and> arp_step slots (H - {p}) H s s'
     \<and> frames s' = frames s @ [(netif, eth_frame dst src (drop 14 (chain_data (ebufs s) (p # rest))))]
     \<and> arp_table s' = arp_table s \<and> etharp_cached_entry s' = etharp_cached_entry s
     \<and> hd_edit (ebufs s) (ebufs s') p \<and> owned (ebufs s') p (p # rest)
     \<and> chain_data (ebufs s') (p # rest) = eth_frame dst src (drop 14 (chain_data (ebufs s) (p # rest)))"
proof -
  from etharp_send_ip_chain [OF assms(2,3,5-8), of netif] obtain m where m: "etharp_send_ip netif p src dst s = Some (link_out s (length (frames s)),
       s\<lparr>ebufs := m, frames := frames s @ [(netif, eth_frame dst src (drop 14 (chain_data (ebufs s) (p # rest))))]\<rparr>)"
     "hd_edit (ebufs s) m p" "owned m p (p # rest)"
     "chain_data m (p # rest) = eth_frame dst src (drop 14 (chain_data (ebufs s) (p # rest)))" by blast
  have "arp_inv slots H m (arp_table s)" using assms(1,4) m(2) by (auto simp: eth_ok_def intro: arp_inv_hd_edit)
  moreover have "keeps (H - {p}) (ebufs s) m" using m(2) by (intro hd_edit_keeps) auto
  moreover have "mem_malloc m = mem_malloc (ebufs s)" using m(2) by (simp add: hd_edit_def)
  moreover have "(H - {p}) \<inter> H = H - {p}" by auto
  ultimately have "arp_step slots (H - {p}) H s
      (s\<lparr>ebufs := m, frames := frames s @ [(netif, eth_frame dst src (drop 14 (chain_data (ebufs s) (p # rest))))]\<rparr>)"
    using assms(1) by (simp add: arp_step_def eth_ok_def del: chain_data_simps)
  with m show ?thesis by (simp del: chain_data_simps)
qed

section \<open>ARP packets of our own\<close>

text \<open>A heap that never runs out.\<close>

definition has_ram :: "pbuf_mem \<Rightarrow> bool" where
  "has_ram m \<longleftrightarrow> (\<forall>n h. finite (dom h) \<longrightarrow> (\<exists>p. mem_malloc m n h = Some p))"

definition arp_packet :: "bytes \<Rightarrow> bytes \<Rightarrow> u16 \<Rightarrow> bytes \<Rightarrow> u32 \<Rightarrow> bytes \<Rightarrow> u32 \<Rightarrow> bytes" where
  "arp_packet ethdst ethsrc opcode hwsrc ipsrc hwdst ipdst =
     ethdst @ ethsrc @ [8, 6, 0, 1, 8, 0, 6, 4] @ be16 opcode @ hwsrc @ le32 ipsrc @ hwdst @ le32 ipdst"

lemma arp_inv_alloc_layer:
  assumes "arp_inv slots H m T" "pbuf_alloc layer n PBUF_RAM m = Some (r, m')" "16 + LWIP_MEM_ALIGN_SIZE (layer_offset layer) + LWIP_MEM_ALIGN_SIZE (unat n) < 65536"
  shows "mem_malloc m' = mem_malloc m" "has_ram m \<Longrightarrow> r \<noteq> None" "case r of None \<Rightarrow> m' = m
    | Some p \<Rightarrow> arp_inv slots (insert p H) m' T \<and> p \<notin> H \<and> heap m p = None \<and> (\<exists>d. one_ram m' p d \<and> length d = unat n) \<and> keeps (H \<union> queued T) m m'
        \<and> map_option p_payload (heap m' p) = Some (LWIP_MEM_ALIGN_SIZE (layer_offset layer))
        \<and> length (blk m' p) = LWIP_MEM_ALIGN_SIZE (layer_offset layer) + LWIP_MEM_ALIGN_SIZE (unat n)"
proof -
  have i: "pool_ok slots m" "fresh_ram slots m" "dom (heap m) = H \<union> queued T" "H \<inter> queued T = {}"
    using assms(1) by (simp_all add: arp_inv_def)
  from pbuf_alloc_ram_layer [OF i(1,2) assms(3)] assms(2) have a: "pool_ok slots m'" "fresh_ram slots m'"
    "case r of None \<Rightarrow> m' = m
    | Some p \<Rightarrow> heap m p = None \<and> p \<notin> slots \<and> (\<exists>d. one_ram m' p d \<and> length d = unat n) \<and> (\<forall>x. x \<noteq> p \<longrightarrow> heap m' x = heap m x \<and> blk m' x = blk m x)
        \<and> map_option p_payload (heap m' p) = Some (LWIP_MEM_ALIGN_SIZE (layer_offset layer))
        \<and> length (blk m' p) = LWIP_MEM_ALIGN_SIZE (layer_offset layer) + LWIP_MEM_ALIGN_SIZE (unat n)"
    by auto
  show "mem_malloc m' = mem_malloc m"
    using assms(2) by (auto simp: pbuf_alloc_def Let_def split: option.splits)
  show "r \<noteq> None" if hr: "has_ram m"
  proof -
    obtain q where "mem_malloc m ((LWIP_MEM_ALIGN_SIZE (SIZEOF_STRUCT_PBUF + layer_offset layer)
        + LWIP_MEM_ALIGN_SIZE (unat n)) mod 65536) (heap m) = Some q"
      using hr arp_inv_finite [OF assms(1)] unfolding has_ram_def by fast
    then show ?thesis using assms(2) by (cases r) (simp_all add: pbuf_alloc_def Let_def)
  qed
  show "case r of None \<Rightarrow> m' = m
    | Some p \<Rightarrow> arp_inv slots (insert p H) m' T \<and> p \<notin> H \<and> heap m p = None \<and> (\<exists>d. one_ram m' p d \<and> length d = unat n) \<and> keeps (H \<union> queued T) m m'
        \<and> map_option p_payload (heap m' p) = Some (LWIP_MEM_ALIGN_SIZE (layer_offset layer))
        \<and> length (blk m' p) = LWIP_MEM_ALIGN_SIZE (layer_offset layer) + LWIP_MEM_ALIGN_SIZE (unat n)"
  proof (cases r)
    case None
    then show ?thesis using a(3) by simp
  next
    case (Some p)
    with a(3) obtain d where p: "heap m p = None" "one_ram m' p d" "length d = unat n"
      "\<forall>x. x \<noteq> p \<longrightarrow> heap m' x = heap m x \<and> blk m' x = blk m x"
      "map_option p_payload (heap m' p) = Some (LWIP_MEM_ALIGN_SIZE (layer_offset layer))"
      "length (blk m' p) = LWIP_MEM_ALIGN_SIZE (layer_offset layer) + LWIP_MEM_ALIGN_SIZE (unat n)" by auto
    have n: "p \<notin> H \<union> queued T" using p(1) i(3) by (metis domIff)
    then have k: "keeps (H \<union> queued T) m m'" using p(4) by (auto simp: keeps_def)
    have "dom (heap m') = insert p H \<union> queued T"
    proof -
      from p(2) obtain b where "heap m' p = Some b" by (rule one_ramE)
      then have "dom (heap m') = insert p (dom (heap m))" using p(4)
        by (auto simp: dom_def)
      then show ?thesis by (simp add: i(3))
    qed
    with arp_inv_mem [OF assms(1) a(1,2) keeps_mono [OF k]] n i(4) assms(1) have "arp_inv slots (insert p H) m' T"
      by (auto simp: arp_inv_def)
    with Some p n k show ?thesis by auto
  qed
qed

lemma arp_inv_alloc:
  assumes "arp_inv slots H m T" "pbuf_alloc PBUF_RAW n PBUF_RAM m = Some (r, m')" "unat n \<le> 65516"
  shows "mem_malloc m' = mem_malloc m" "has_ram m \<Longrightarrow> r \<noteq> None" "case r of None \<Rightarrow> m' = m
    | Some p \<Rightarrow> arp_inv slots (insert p H) m' T \<and> p \<notin> H \<and> heap m p = None \<and> (\<exists>d. one_ram m' p d \<and> length d = unat n) \<and> keeps (H \<union> queued T) m m'"
proof -
  have b: "16 + LWIP_MEM_ALIGN_SIZE (layer_offset PBUF_RAW) + LWIP_MEM_ALIGN_SIZE (unat n) < 65536"
    using assms(3) by (simp add: layer_offset_def LWIP_MEM_ALIGN_SIZE_def)
  note a = arp_inv_alloc_layer [OF assms(1,2) b]
  show "mem_malloc m' = mem_malloc m" "has_ram m \<Longrightarrow> r \<noteq> None" using a(1,2) by simp_all
  show "case r of None \<Rightarrow> m' = m
    | Some p \<Rightarrow> arp_inv slots (insert p H) m' T \<and> p \<notin> H \<and> heap m p = None \<and> (\<exists>d. one_ram m' p d \<and> length d = unat n) \<and> keeps (H \<union> queued T) m m'"
    using a(3) by (auto split: option.splits)
qed

lemma arp_inv_free_ram:
  assumes "arp_inv slots (insert p H) m T" "one_ram m p d" "p \<notin> H"
  shows "\<exists>k m'. pbuf_free (Some p) m = Some (k, m') \<and> arp_inv slots H m' T \<and> keeps H m m' \<and> mem_malloc m' = mem_malloc m"
proof -
  have "owned m p [p]" using assms(2) by (simp add: one_ram_def)
  from arp_inv_free [OF assms(1) this] assms(3) show ?thesis by (auto simp: chain_fuel_def)
qed

lemma etharp_raw_step:
  assumes "eth_ok slots H s" "length ethsrc = 6" "length ethdst = 6" "length hwsrc = 6" "length hwdst = 6"
  shows "\<exists>r s'. etharp_raw netif ethsrc ethdst hwsrc ipsrc hwdst ipdst opcode s = Some (r, s') \<and> arp_step slots H H s s'
     \<and> arp_table s' = arp_table s \<and> etharp_cached_entry s' = etharp_cached_entry s
     \<and> (r = ERR_MEM \<and> frames s' = frames s \<and> \<not> has_ram (ebufs s)
        \<or> r = link_out s (length (frames s)) \<and> frames s' = frames s @ [(netif, arp_packet ethdst ethsrc opcode hwsrc ipsrc hwdst ipdst)])"
proof -
  let ?d = "ethdst @ ethsrc @ le16 (htons ETHTYPE_ARP) @ le16 (htons HWTYPE_ETHERNET) @ le16 (htons ETHTYPE_IP)
      @ [of_nat ETHARP_HWADDR_LEN, 4] @ le16 (htons opcode) @ hwsrc @ le32 ipsrc @ hwdst @ le32 ipdst"
  have pk: "?d = arp_packet ethdst ethsrc opcode hwsrc ipsrc hwdst ipdst"
    by (simp add: arp_packet_def ethertype_bytes ETHARP_HWADDR_LEN_def)
      (simp add: le16_htons HWTYPE_ETHERNET_def be16_def)
  have ld: "length ?d = 42" using assms(2-5) by (simp add: le16_def le32_def)
  have inv: "arp_inv slots H (ebufs s) (arp_table s)" using assms(1) by (simp add: eth_ok_def)
  have n: "unat (of_nat SIZEOF_ETHARP_PACKET :: u16) = 42" by (simp add: SIZEOF_ETHARP_PACKET_def SIZEOF_ETH_HDR_def)
  have "\<exists>r m. pbuf_alloc PBUF_RAW (of_nat SIZEOF_ETHARP_PACKET) PBUF_RAM (ebufs s) = Some (r, m)"
    using pbuf_alloc_ram [of slots "ebufs s" "of_nat SIZEOF_ETHARP_PACKET"] inv n by (auto simp: arp_inv_def)
  then obtain r m where a: "pbuf_alloc PBUF_RAW (of_nat SIZEOF_ETHARP_PACKET) PBUF_RAM (ebufs s) = Some (r, m)" by blast
  note al = arp_inv_alloc [OF inv a, unfolded n, simplified]
  show ?thesis
  proof (cases r)
    case None
    then have "etharp_raw netif ethsrc ethdst hwsrc ipsrc hwdst ipdst opcode s = Some (ERR_MEM, s)"
      using a al(3) by (simp add: etharp_raw_def on_bufs_def)
    then show ?thesis using arp_step_refl [OF assms(1)] al(2) None by blast
  next
    case (Some p)
    with al(3) obtain d where p: "arp_inv slots (insert p H) m (arp_table s)" "p \<notin> H" "one_ram m p d" "length d = 42"
      "keeps (H \<union> queued (arp_table s)) (ebufs s) m" by auto
    from p(3) obtain b where b: "heap m p = Some b" "unat (p_len b) = 42" "buf_data m p = d"
      by (rule one_ramE) (use p(4) in auto)
    have ow: "owned m p [p]" using p(3) by (simp add: one_ram_def)
    from payload_write_chain [OF ow b(1), of 0 ?d] ld b p(4) obtain m2 where
      m2: "payload_write p 0 ?d m = Some m2" "hd_edit m m2 p" "owned m2 p [p]" "heap m2 = heap m" "chain_data m2 [p] = ?d"
      by (auto simp del: append.simps)
    have inv2: "arp_inv slots (insert p H) m2 (arp_table s)" by (rule arp_inv_hd_edit [OF p(1) m2(2)]) simp
    have one: "one_ram m2 p ?d" using p(3) m2(3,4,5) by (simp add: one_ram_def of_type_def)
    from arp_inv_free_ram [OF inv2 one p(2)] obtain k m3 where m3: "pbuf_free (Some p) m2 = Some (k, m3)"
      "arp_inv slots H m3 (arp_table s)" "keeps H m2 m3" "mem_malloc m3 = mem_malloc m2" by blast
    let ?s = "s\<lparr>ebufs := m3, frames := frames s @ [(netif, ?d)]\<rparr>"
    have lo: "linkoutput netif p (s\<lparr>ebufs := m2\<rparr>) = Some (link_out s (length (frames s)), s\<lparr>ebufs := m2, frames := frames s @ [(netif, ?d)]\<rparr>)"
      using linkoutput_chain [of "s\<lparr>ebufs := m2\<rparr>" p "[]"] m2(3,5) by (simp add: chain_fuel_def)
    have run: "etharp_raw netif ethsrc ethdst hwsrc ipsrc hwdst ipdst opcode s = Some (link_out s (length (frames s)), ?s)"
      using a Some m2(1) lo m3(1) by (simp add: etharp_raw_def on_bufs_def do_bufs_def free_pbuf_def)
    have "keeps H (ebufs s) m3"
      using keeps_mono [OF p(5), of H] hd_edit_keeps [OF m2(2) p(2)] m3(3) by (auto intro: keeps_trans)
    moreover have "mem_malloc m3 = mem_malloc (ebufs s)" using m3(4) m2(2) al(1) by (simp add: hd_edit_def)
    ultimately have "arp_step slots H H s ?s" using assms(1) m3(2) by (simp add: arp_step_def eth_ok_def)
    with run pk show ?thesis by simp
  qed
qed

lemma etharp_request_step:
  assumes "eth_ok slots H s" "netifs s netif = Some n"
  shows "\<exists>r s'. etharp_request netif ip s = Some (r, s') \<and> arp_step slots H H s s'
     \<and> arp_table s' = arp_table s \<and> etharp_cached_entry s' = etharp_cached_entry s
     \<and> (r = ERR_MEM \<and> frames s' = frames s \<and> \<not> has_ram (ebufs s)
        \<or> r = link_out s (length (frames s))
          \<and> frames s' = frames s @ [(netif, arp_packet ethbroadcast (nif_hwaddr n) ARP_REQUEST (nif_hwaddr n) (nif_ip n) ethzero ip)])"
  using assms etharp_raw_step [of slots H s "nif_hwaddr n" ethbroadcast "nif_hwaddr n" ethzero netif "nif_ip n" ip ARP_REQUEST]
  by (simp add: etharp_request_def eth_ok_def ethbroadcast_def ethzero_def)

section \<open>Updating an entry\<close>

lemma entry_of_table: "arp_table s' = arp_table s \<Longrightarrow> entry i s' = entry i s"
  by (simp add: entry_def)

text \<open>The packet queued for an address.\<close>

definition queued_for :: "u32 \<Rightarrow> nat \<Rightarrow> 'a eth_scheme \<Rightarrow> nat option" where
  "queued_for ip i s = (if \<not> is_empty (entry i s) \<and> ae_ipaddr (entry i s) = ip then ae_q (entry i s) else None)"

lemma state_cases:
  "is_empty e \<or> is_dynamic e \<or> is_waiting e \<or> is_queueing e \<or> ae_state e = ETHARP_STATE_STATIC"
  by (cases "ae_state e") (auto simp: is_empty_def is_dynamic_def is_waiting_def is_queueing_def
      less_eq_etharp_state_def less_etharp_state_def)

text \<open>The search succeeds when the address is known, or when it may recycle and not all entries are static.\<close>

lemma etharp_find_entry_succeeds:
  assumes "etharp_find_entry (Some ip) flags s = Some (Inl err, s')" "length (arp_table s) = ARP_TABLE_SIZE"
  shows "\<forall>i < ARP_TABLE_SIZE. \<not> is_empty (entry i s) \<longrightarrow> ae_ipaddr (entry i s) \<noteq> ip"
    "flags AND ETHARP_FLAG_FIND_ONLY = 0 \<Longrightarrow> flags AND ETHARP_FLAG_TRY_HARD \<noteq> 0 \<Longrightarrow> i < ARP_TABLE_SIZE
      \<Longrightarrow> ae_state (entry i s) = ETHARP_STATE_STATIC"
proof -
  from assms(1) obtain c where c: "arp_scan (Some ip) 0 (arp_table s) no_cand = Inr c"
    by (auto simp: etharp_find_entry_def split: sum.splits)
  then have k: "cand_ok (arp_table s) ARP_TABLE_SIZE c" "\<forall>i < ARP_TABLE_SIZE. \<not> is_empty (entry i s) \<longrightarrow> ae_ipaddr (entry i s) \<noteq> ip"
    using arp_scan_table [OF assms(2), of "Some ip"] by (auto simp: entry_def)
  then show "\<forall>i < ARP_TABLE_SIZE. \<not> is_empty (entry i s) \<longrightarrow> ae_ipaddr (entry i s) \<noteq> ip" by simp
  assume f: "flags AND ETHARP_FLAG_FIND_ONLY = 0" "flags AND ETHARP_FLAG_TRY_HARD \<noteq> 0" and i: "i < ARP_TABLE_SIZE"
  have "\<not> c_empty c < ARP_TABLE_SIZE" "recycle c = None"
    using assms(1) c f by (auto simp: etharp_find_entry_def split: option.splits if_splits bind_splits)
  then have "c_empty c = ARP_TABLE_SIZE" "old_stable c = ARP_TABLE_SIZE" "old_pending c = ARP_TABLE_SIZE" "old_queue c = ARP_TABLE_SIZE"
    using k(1) by (auto simp: recycle_def cand_ok_def first_empty_def oldest_def split: if_splits)
  then have "\<not> is_empty (entry i s)" "\<not> is_dynamic (entry i s)" "\<not> is_waiting (entry i s)" "\<not> is_queueing (entry i s)"
    using k(1) i by (auto simp: cand_ok_def first_empty_def oldest_def entry_def split: if_splits)
  then show "ae_state (entry i s) = ETHARP_STATE_STATIC" using state_cases [of "entry i s"] by blast
qed

definition set_entry :: "nat \<Rightarrow> bytes \<Rightarrow> u8 \<Rightarrow> etharp_entry \<Rightarrow> etharp_entry" where
  "set_entry netif ethaddr flags e = e\<lparr>ae_state := (if flags AND ETHARP_FLAG_STATIC_ENTRY \<noteq> 0 then ETHARP_STATE_STATIC
       else ETHARP_STATE_STABLE), ae_netif := Some netif, ae_ethaddr := ethaddr, ae_ctime := 0\<rparr>"

lemma set_entry_sels [simp]:
  "\<not> is_empty (set_entry netif ethaddr flags e)" "ae_q (set_entry netif ethaddr flags e) = ae_q e"
  "ae_ipaddr (set_entry netif ethaddr flags e) = ae_ipaddr e" "ae_ethaddr (set_entry netif ethaddr flags e) = ethaddr"
  by (simp_all add: set_entry_def is_empty_def)

lemma etharp_update_step:
  assumes "eth_ok slots H s" "netifs s netif = Some n" "length ethaddr = 6" "\<not> not_unicast ip n"
  shows "\<exists>r s'. etharp_update_arp_entry netif ip ethaddr flags s = Some (r, s') \<and> arp_step slots H H s s'
     \<and> etharp_cached_entry s' = etharp_cached_entry s
     \<and> (r = ERR_MEM \<and> s' = s \<and> (\<exists>err. etharp_find_entry (Some ip) flags s = Some (Inl err, s)) \<or>
        r = ERR_OK \<and> (\<exists>i < ARP_TABLE_SIZE. (\<exists>e. entry i s' = (set_entry netif ethaddr flags e)\<lparr>ae_ipaddr := ip, ae_q := None\<rparr>)
          \<and> (\<forall>j < ARP_TABLE_SIZE. j \<noteq> i \<longrightarrow> entry j s' = entry j s)
          \<and> (\<forall>j < ARP_TABLE_SIZE. j \<noteq> i \<longrightarrow> \<not> is_empty (entry j s') \<longrightarrow> ae_ipaddr (entry j s') \<noteq> ip)
          \<and> frames s' = frames s @ (case queued_for ip i s of None \<Rightarrow> []
              | Some p \<Rightarrow> [(netif, eth_frame ethaddr (nif_hwaddr n) (drop 14 (chain_data (ebufs s) [p])))])))"
proof -
  from etharp_find_entry_step [OF assms(1), of ip flags] obtain f s1 where f: "etharp_find_entry (Some ip) flags s = Some (f, s1)"
    "arp_step slots H H s s1" "frames s1 = frames s" "etharp_cached_entry s1 = etharp_cached_entry s" "case f of
        Inl err \<Rightarrow> err = ERR_MEM \<and> s1 = s
      | Inr i \<Rightarrow> i < ARP_TABLE_SIZE \<and> ae_ipaddr (entry i s1) = ip
          \<and> (\<not> is_empty (entry i s1) \<and> s1 = s \<or> is_empty (entry i s1) \<and> ae_q (entry i s1) = None
              \<and> (\<forall>j < ARP_TABLE_SIZE. \<not> is_empty (entry j s) \<longrightarrow> ae_ipaddr (entry j s) \<noteq> ip))
          \<and> (\<forall>j < ARP_TABLE_SIZE. j \<noteq> i \<longrightarrow> entry j s1 = entry j s)
          \<and> (\<forall>j < ARP_TABLE_SIZE. j \<noteq> i \<longrightarrow> \<not> is_empty (entry j s1) \<longrightarrow> ae_ipaddr (entry j s1) \<noteq> ip)" by blast
  show ?thesis
  proof (cases f)
    case (Inl err)
    then have "etharp_update_arp_entry netif ip ethaddr flags s = Some (ERR_MEM, s)"
      using f(1,5) assms(2,4) by (simp add: etharp_update_arp_entry_def)
    then show ?thesis using f(1,5) Inl arp_step_refl [OF assms(1)] by simp
  next
    case (Inr i)
    with f(5) have i: "i < ARP_TABLE_SIZE" "ae_ipaddr (entry i s1) = ip"
      "\<not> is_empty (entry i s1) \<and> s1 = s \<or> is_empty (entry i s1) \<and> ae_q (entry i s1) = None
              \<and> (\<forall>j < ARP_TABLE_SIZE. \<not> is_empty (entry j s) \<longrightarrow> ae_ipaddr (entry j s) \<noteq> ip)"
      "\<forall>j < ARP_TABLE_SIZE. j \<noteq> i \<longrightarrow> entry j s1 = entry j s"
      "\<forall>j < ARP_TABLE_SIZE. j \<noteq> i \<longrightarrow> \<not> is_empty (entry j s1) \<longrightarrow> ae_ipaddr (entry j s1) \<noteq> ip" by auto
    have ok1: "eth_ok slots H s1" and ni: "netifs s1 = netifs s" using f(2) by (simp_all add: arp_step_def)
    note len = eth_ok_table [OF ok1]
    let ?e = "(set_entry netif ethaddr flags (entry i s1))\<lparr>ae_q := None\<rparr>"
    have e: "entry_ok m ?e" "ae_q ?e = None" "ae_ipaddr ?e = ip" for m
      using assms(3) i(2) by (simp_all add: entry_ok_def set_entry_def)
    have d: "\<forall>j < ARP_TABLE_SIZE. j \<noteq> i \<longrightarrow> \<not> is_empty (arp_table s1 ! j) \<longrightarrow> ae_ipaddr (arp_table s1 ! j) \<noteq> ae_ipaddr ?e"
      using i(5) e(3) by (simp add: entry_def)
    have qf: "queued_for ip i s = ae_q (entry i s1)"
      using i(1,2,3) by (auto simp: queued_for_def)
    have inv: "arp_inv slots H (ebufs s1) (arp_table s1)" using ok1 by (simp add: eth_ok_def)
    have ex: "\<exists>e. ?e = (set_entry netif ethaddr flags e)\<lparr>ae_ipaddr := ip, ae_q := None\<rparr>"
      using i(2) by (intro exI [of _ "entry i s1"]) (simp add: set_entry_def)
    show ?thesis
    proof (cases "ae_q (entry i s1)")
      case None
      let ?s = "upd_entry i (set_entry netif ethaddr flags) s1"
      have eq: "set_entry netif ethaddr flags (entry i s1) = ?e" using None by (simp add: set_entry_def)
      have run: "etharp_update_arp_entry netif ip ethaddr flags s = Some (ERR_OK, ?s)"
        using f(1) Inr assms(2,4) None i(1) len
        by (simp add: etharp_update_arp_entry_def set_entry_def [abs_def] Let_def)
      have "entry_ok (ebufs s1) (set_entry netif ethaddr flags (entry i s1))" by (subst eq) (rule e(1))
      then have "arp_step slots H H s1 ?s"
        by (rule upd_entry_step [OF ok1 i(1)]) (use i(2,5) in simp_all)
      with f(2) have "arp_step slots H H s ?s" by (rule arp_step_trans) simp
      moreover have "\<exists>e. entry i ?s = (set_entry netif ethaddr flags e)\<lparr>ae_ipaddr := ip, ae_q := None\<rparr>"
        using ex i(1) len eq by (simp del: set_entry_sels)
      ultimately show ?thesis using run i(1,4,5) f(3,4) qf None len
        by (intro exI [of _ ERR_OK] exI [of _ ?s]) (simp, blast)
    next
      case (Some p)
      have q: "ae_q (arp_table s1 ! i) = Some p" using Some by (simp add: entry_def)
      from arp_inv_same(1) [OF inv i(1) q] obtain x where x: "one_ram (ebufs s1) p x" "14 \<le> length x" by blast
      then obtain b where b: "heap (ebufs s1) p = Some b" "unat (p_len b) = length x" by (rule_tac one_ramE [OF x(1)])
      from x(1) have ow: "owned (ebufs s1) p [p]" and cd: "chain_data (ebufs s1) [p] = x" by (simp_all add: one_ram_def)
      let ?T = "(arp_table s1)[i := ?e]"
      note dq = arp_inv_dequeue [OF inv i(1) q e(1,2), OF impI, OF d]
      define s2 where "s2 = upd_entry i (\<lambda>e. (set_entry netif ethaddr flags e)\<lparr>ae_q := None\<rparr>) s1"
      have s2: "ebufs s2 = ebufs s1" "arp_table s2 = ?T" "netifs s2 = netifs s1" "frames s2 = frames s1" "link_out s2 = link_out s1"
        "etharp_cached_entry s2 = etharp_cached_entry s1" by (simp_all add: s2_def)
      have ok2: "eth_ok slots (insert p H) s2" using ok1 dq(1) s2 by (simp add: eth_ok_def)
      have hw: "length (nif_hwaddr n) = 6" using assms(1,2) by (simp add: eth_ok_def)
      from etharp_send_ip_step [OF ok2, of p "[]" b "nif_hwaddr n" ethaddr netif] s2 ow b x(2) hw assms(3) obtain s3 where
        s3: "etharp_send_ip netif p (nif_hwaddr n) ethaddr s2 = Some (link_out s2 (length (frames s2)), s3)"
          "arp_step slots (insert p H - {p}) (insert p H) s2 s3"
          "frames s3 = frames s1 @ [(netif, eth_frame ethaddr (nif_hwaddr n) (drop 14 (chain_data (ebufs s1) [p])))]"
          "arp_table s3 = ?T" "etharp_cached_entry s3 = etharp_cached_entry s1" "owned (ebufs s3) p [p]"
        by (auto simp: chain_fuel_def simp del: chain_data_simps)
      have inv3: "arp_inv slots (insert p H) (ebufs s3) ?T" using s3(2,4) by (simp add: arp_step_def eth_ok_def)
      from arp_inv_free [OF inv3 s3(6)] dq(2) obtain k m where m: "pbuf_free (Some p) (ebufs s3) = Some (k, m)"
        "arp_inv slots H m ?T" "keeps H (ebufs s3) m" "mem_malloc m = mem_malloc (ebufs s3)" by (auto simp: chain_fuel_def)
      let ?s = "s3\<lparr>ebufs := m\<rparr>"
      have run: "etharp_update_arp_entry netif ip ethaddr flags s = Some (ERR_OK, ?s)"
        using f(1) Inr assms(2,4) Some i(1) len s3(1) m(1)
        by (simp add: etharp_update_arp_entry_def set_entry_def [abs_def] Let_def s2_def o_def free_pbuf_def)
      have kp: "keeps H (ebufs s1) (ebufs s3)" using s3(2) s2(1) dq(2) by (auto simp: arp_step_def intro: keeps_mono)
      have "arp_step slots H H s1 ?s"
        using s3(2,3,4) s2 m kp by (auto simp: arp_step_def eth_ok_def intro: keeps_trans)
      with f(2) have st: "arp_step slots H H s ?s" by (rule arp_step_trans) simp
      have cs: "chain_data (ebufs s) [p] = chain_data (ebufs s1) [p]" using i(3) Some by auto
      have en: "entry j ?s = (if j = i then ?e else entry j s1)" for j
        using i(1) len s3(4) by (simp add: entry_def)
      have "\<exists>e. entry i ?s = (set_entry netif ethaddr flags e)\<lparr>ae_ipaddr := ip, ae_q := None\<rparr>" using ex en [of i] by simp
      moreover have "\<forall>j < ARP_TABLE_SIZE. j \<noteq> i \<longrightarrow> entry j ?s = entry j s" using i(4) en by simp
      moreover have "\<forall>j < ARP_TABLE_SIZE. j \<noteq> i \<longrightarrow> \<not> is_empty (entry j ?s) \<longrightarrow> ae_ipaddr (entry j ?s) \<noteq> ip" using i(5) en by simp
      moreover have "frames ?s = frames s @ (case queued_for ip i s of None \<Rightarrow> []
              | Some p \<Rightarrow> [(netif, eth_frame ethaddr (nif_hwaddr n) (drop 14 (chain_data (ebufs s) [p])))])"
        using s3(3) f(3) qf Some cs by (simp del: chain_data_simps)
      moreover have "etharp_cached_entry ?s = etharp_cached_entry s" using s3(5) f(4) by simp
      ultimately show ?thesis using run st i(1) by blast
    qed
  qed
qed

end
