(* ===== verification/Arp_Output.thy ===== *)
theory Arp_Output
  imports Arp_Ops
begin

text \<open>
  Taking over a packet that waits for an address, queries and \<open>etharp_output\<close>: what is sent or queued,
  and that the packet stays with its holder and the invariant is kept.
\<close>

section \<open>Taking a packet over\<close>

lemma has_ram_same: "mem_malloc m' = mem_malloc m \<Longrightarrow> has_ram m' = has_ram m"
  by (simp add: has_ram_def)

lemma arp_stepD:
  assumes "arp_step slots H H' s s'"
  shows "eth_ok slots H' s'" "keeps (H \<inter> H') (ebufs s) (ebufs s')" "netifs s' = netifs s" "link_out s' = link_out s"
    "mem_malloc (ebufs s') = mem_malloc (ebufs s)" "has_ram (ebufs s') = has_ram (ebufs s)"
  using assms by (auto simp: arp_step_def has_ram_def)

lemma take_over_step:
  assumes "arp_inv slots H m T" "owned m q (q # rest)" "filled_tail m (q # rest)" "set (q # rest) \<subseteq> H"
    and "length (q # rest) \<le> chain_fuel" "heap m q = Some b" "p_type b \<noteq> PBUF_ROM" "length (chain_data m (q # rest)) \<le> 65516"
  shows "\<exists>r m'. take_over q m = Some (r, m') \<and> keeps (H \<union> queued T) m m' \<and> mem_malloc m' = mem_malloc m \<and> (case r of
      None \<Rightarrow> m' = m \<and> \<not> has_ram m
    | Some p \<Rightarrow> arp_inv slots (insert p H) m' T \<and> p \<notin> H \<and> one_ram m' p (chain_data m (q # rest)))"
proof -
  have "copy_needed (Suc k) (Some q) m = Some (Some q)" for k using assms(6,7) by simp
  from this [of 65535] have cn: "copy_needed chain_fuel (Some q) m = Some (Some q)" by (simp add: chain_fuel_def del: copy_needed.simps)
  have tl: "unat (p_tot_len b) = length (chain_data m (q # rest))"
    using assms(2,6) by (auto simp: owned_def)
  have ps: "pool_ok slots m" "fresh_ram slots m" using assms(1) by (simp_all add: arp_inv_def)
  from pbuf_alloc_ram [OF ps, of "p_tot_len b"] tl assms(8) obtain r m1 where
    a: "pbuf_alloc PBUF_RAW (p_tot_len b) PBUF_RAM m = Some (r, m1)" by auto
  note al = arp_inv_alloc [OF assms(1) a, unfolded tl, OF assms(8)]
  show ?thesis
  proof (cases r)
    case None
    then have "take_over q m = Some (None, m)" using al(3) a cn assms(6) by (simp add: take_over_def)
    then show ?thesis using al(2) None by auto
  next
    case (Some p)
    with al(3) obtain d where p: "arp_inv slots (insert p H) m1 T" "p \<notin> H" "one_ram m1 p d"
      "length d = length (chain_data m (q # rest))" "keeps (H \<union> queued T) m m1" by auto
    have k: "keeps H m m1" using p(5) by (rule keeps_mono) simp
    note kc = keeps_chain [OF k assms(4)]
    have pn: "p \<notin> set (q # rest)" using p(2) assms(4) by auto
    from pbuf_copy_to_ram [OF p(3), of q "q # rest"] assms(2,3,5) kc pn p(4) obtain m2 where
      m2: "pbuf_copy (Some p) (Some q) m1 = Some (ERR_OK, m2)" "one_ram m2 p (chain_data m (q # rest))" "heap m2 = heap m1"
        "pool m2 = pool m1" "ref_pool m2 = ref_pool m1" "mem_malloc m2 = mem_malloc m1" "\<forall>x. x \<noteq> p \<longrightarrow> blk m2 x = blk m1 x"
        "\<forall>x. length (blk m2 x) = length (blk m1 x)"
      by (auto simp del: chain_data_simps)
    have ed: "hd_edit m1 m2 p" using m2 by (simp add: hd_edit_def split: option.split)
    have inv2: "arp_inv slots (insert p H) m2 T" by (rule arp_inv_hd_edit [OF p(1) ed]) simp
    have "p \<notin> queued T" using p(1) by (auto simp: arp_inv_def)
    then have "keeps (H \<union> queued T) m1 m2" using p(2) by (intro hd_edit_keeps [OF ed]) simp
    then have "keeps (H \<union> queued T) m m2" using p(5) by (rule keeps_trans [rotated])
    moreover have "take_over q m = Some (Some p, m2)" using a Some cn assms(6) m2(1) by (simp add: take_over_def)
    ultimately show ?thesis using inv2 p(2) m2(2,6) al(1) by auto
  qed
qed

section \<open>Queries\<close>

text \<open>A packet of its holder that starts with room for the Ethernet header.\<close>

definition framed :: "pbuf_mem \<Rightarrow> nat set \<Rightarrow> nat \<Rightarrow> nat list \<Rightarrow> bool" where
  "framed m H q rest \<longleftrightarrow> owned m q (q # rest) \<and> filled_tail m (q # rest) \<and> set (q # rest) \<subseteq> H \<and> length (q # rest) \<le> chain_fuel
     \<and> length (chain_data m (q # rest)) \<le> 65516
     \<and> (case heap m q of None \<Rightarrow> False | Some b \<Rightarrow> p_type b \<noteq> PBUF_ROM \<and> SIZEOF_ETH_HDR \<le> unat (p_len b))"

lemma framed_keeps:
  assumes "framed m H q rest" "keeps H m m'"
  shows "framed m' H q rest" "chain_data m' (q # rest) = chain_data m (q # rest)"
proof -
  have s: "set (q # rest) \<subseteq> H" using assms(1) by (simp add: framed_def)
  note k = keeps_chain [OF assms(2) s]
  show "chain_data m' (q # rest) = chain_data m (q # rest)" by (rule k(2))
  have "heap m' q = heap m q" using assms(2) s by (simp add: keeps_def)
  then show "framed m' H q rest" using assms(1) unfolding framed_def k(2,4,5) by simp
qed

lemma framedE:
  assumes "framed m H q rest"
  obtains b where "heap m q = Some b" "p_type b \<noteq> PBUF_ROM" "14 \<le> unat (p_len b)" "owned m q (q # rest)" "filled_tail m (q # rest)"
    "set (q # rest) \<subseteq> H" "length (q # rest) \<le> chain_fuel" "14 \<le> length (chain_data m (q # rest))"
proof -
  from assms obtain b where b: "heap m q = Some b" "p_type b \<noteq> PBUF_ROM" "14 \<le> unat (p_len b)"
    by (auto simp: framed_def SIZEOF_ETH_HDR_def split: option.splits)
  moreover have "14 \<le> length (chain_data m (q # rest))"
    using b assms by (auto simp: framed_def owned_def exclusive_def buf_data_length)
  ultimately show ?thesis using that assms by (simp add: framed_def del: chain_data_simps)
qed

definition arp_ask :: "nat \<Rightarrow> eth_netif \<Rightarrow> u32 \<Rightarrow> nat \<times> bytes" where
  "arp_ask netif n ip = (netif, arp_packet ethbroadcast (nif_hwaddr n) ARP_REQUEST (nif_hwaddr n) (nif_ip n) ethzero ip)"

text \<open>The result of a query: the packet is sent, or queued after a request.\<close>

definition query_result :: "nat \<Rightarrow> eth_netif \<Rightarrow> u32 \<Rightarrow> bytes \<Rightarrow> err_t \<Rightarrow> 'a eth_scheme \<Rightarrow> 'a eth_scheme \<Rightarrow> bool" where
  "query_result netif n ip d r s s' \<longleftrightarrow>
     (\<exists>i < ARP_TABLE_SIZE. ETHARP_STATE_STABLE \<le> ae_state (entry i s) \<and> ae_ipaddr (entry i s) = ip \<and> arp_table s' = arp_table s
        \<and> r = link_out s (length (frames s)) \<and> frames s' = frames s @ [(netif, eth_frame (ae_ethaddr (entry i s)) (nif_hwaddr n) (drop 14 d))])
     \<or> (\<exists>i < ARP_TABLE_SIZE. ae_state (entry i s') = ETHARP_STATE_PENDING \<and> ae_ipaddr (entry i s') = ip
        \<and> (\<not> is_empty (entry i s) \<and> ae_ipaddr (entry i s) = ip \<or> (\<forall>j < ARP_TABLE_SIZE. \<not> is_empty (entry j s) \<longrightarrow> ae_ipaddr (entry j s) \<noteq> ip))
        \<and> (\<forall>j < ARP_TABLE_SIZE. j \<noteq> i \<longrightarrow> entry j s' = entry j s)
        \<and> (if r = ERR_OK then \<exists>p. ae_q (entry i s') = Some p \<and> one_ram (ebufs s') p d else r = ERR_MEM \<and> \<not> has_ram (ebufs s))
        \<and> (frames s' = frames s @ [arp_ask netif n ip] \<or> frames s' = frames s \<and> \<not> has_ram (ebufs s)))"

lemma query_pending:
  assumes "eth_ok slots H s" "netifs s netif = Some n" "framed (ebufs s) H q rest" "i < ARP_TABLE_SIZE"
    and "ae_state (entry i s) = ETHARP_STATE_PENDING" "d = chain_data (ebufs s) (q # rest)"
    and "run = do { (result, s) \<leftarrow> etharp_request netif ip s;
         (p, s) \<leftarrow> on_bufs (take_over q) s;
         case p of None \<Rightarrow> Some (ERR_MEM, s)
         | Some p \<Rightarrow> do {
             s \<leftarrow> (case ae_q (entry i s) of None \<Rightarrow> Some s | Some old \<Rightarrow> free_pbuf old s);
             Some (ERR_OK, upd_entry i (\<lambda>e. e\<lparr>ae_q := Some p\<rparr>) s) } }"
  shows "\<exists>r s'. run = Some (r, s') \<and> arp_step slots H H s s' \<and> etharp_cached_entry s' = etharp_cached_entry s
     \<and> (\<exists>q. entry i s' = (entry i s)\<lparr>ae_q := q\<rparr>) \<and> (\<forall>j < ARP_TABLE_SIZE. j \<noteq> i \<longrightarrow> entry j s' = entry j s)
     \<and> (if r = ERR_OK then \<exists>p. ae_q (entry i s') = Some p \<and> one_ram (ebufs s') p d else r = ERR_MEM \<and> \<not> has_ram (ebufs s))
     \<and> (frames s' = frames s @ [arp_ask netif n ip] \<or> frames s' = frames s \<and> \<not> has_ram (ebufs s))"
proof -
  from etharp_request_step [OF assms(1,2), of ip] obtain r1 s1 where s1: "etharp_request netif ip s = Some (r1, s1)"
    "arp_step slots H H s s1" "arp_table s1 = arp_table s" "etharp_cached_entry s1 = etharp_cached_entry s"
    "frames s1 = frames s @ [arp_ask netif n ip] \<or> frames s1 = frames s \<and> \<not> has_ram (ebufs s)"
    by (auto simp: arp_ask_def)
  note d1 = arp_stepD [OF s1(2)]
  have k1: "keeps H (ebufs s) (ebufs s1)" using d1(2) by simp
  note fr = framed_keeps [OF assms(3) k1]
  from fr(1) obtain b where b: "heap (ebufs s1) q = Some b" "p_type b \<noteq> PBUF_ROM" "owned (ebufs s1) q (q # rest)"
    "filled_tail (ebufs s1) (q # rest)" "set (q # rest) \<subseteq> H" "length (q # rest) \<le> chain_fuel" by (rule framedE)
  have inv1: "arp_inv slots H (ebufs s1) (arp_table s1)" using d1(1) by (simp add: eth_ok_def)
  have l: "length (chain_data (ebufs s1) (q # rest)) \<le> 65516" using fr(1) by (simp add: framed_def)
  have dd: "chain_data (ebufs s1) (q # rest) = d" using fr(2) assms(6) by (simp del: chain_data_simps)
  from take_over_step [OF inv1 b(3-6) b(1,2) l, unfolded dd] obtain p m2 where
    m2: "take_over q (ebufs s1) = Some (p, m2)" "keeps (H \<union> queued (arp_table s1)) (ebufs s1) m2" "mem_malloc m2 = mem_malloc (ebufs s1)"
      "case p of None \<Rightarrow> m2 = ebufs s1 \<and> \<not> has_ram (ebufs s1)
       | Some p \<Rightarrow> arp_inv slots (insert p H) m2 (arp_table s1) \<and> p \<notin> H \<and> one_ram m2 p d"
    by blast
  have e1: "entry j s1 = entry j s" for j using s1(3) by (rule entry_of_table)
  show ?thesis
  proof (cases p)
    case None
    then have "run = Some (ERR_MEM, s1)" using s1(1) m2(1,4) by (simp add: assms(7) on_bufs_def)
    moreover have "\<exists>q. entry i s1 = (entry i s)\<lparr>ae_q := q\<rparr>" using e1 by (intro exI [of _ "ae_q (entry i s)"]) simp
    ultimately show ?thesis using s1(2,4,5) m2(4) None d1(6) e1 by (intro exI [of _ ERR_MEM] exI [of _ s1]) auto
  next
    case (Some p')
    with m2(4) have p': "arp_inv slots (insert p' H) m2 (arp_table s1)" "p' \<notin> H" "one_ram m2 p' d" by auto
    let ?e = "(entry i s)\<lparr>ae_q := Some p'\<rparr>"
    let ?T = "(arp_table s)[i := ?e]"
    have nt: "\<forall>j < ARP_TABLE_SIZE. j \<noteq> i \<longrightarrow> \<not> is_empty (arp_table s ! j) \<longrightarrow> ae_ipaddr (arp_table s ! j) \<noteq> ae_ipaddr (entry i s)"
      using eth_ok_distinct [OF assms(1) _ assms(4)] assms(5) by (simp add: entry_def is_empty_def)
    have eo: "entry_ok m ?e" if "one_ram m p' d" for m
    proof -
      have "14 \<le> length d" using framedE [OF assms(3)] assms(6) by metis
      then show ?thesis using that assms(5) by (auto simp: entry_ok_def SIZEOF_ETH_HDR_def less_eq_etharp_state_def)
    qed
    have fin: "\<exists>m3. (case ae_q (entry i s) of None \<Rightarrow> Some (s1\<lparr>ebufs := m2\<rparr>) | Some old \<Rightarrow> free_pbuf old (s1\<lparr>ebufs := m2\<rparr>)) = Some (s1\<lparr>ebufs := m3\<rparr>)
        \<and> arp_inv slots H m3 ?T \<and> keeps H m2 m3 \<and> mem_malloc m3 = mem_malloc m2 \<and> one_ram m3 p' d"
    proof (cases "ae_q (entry i s)")
      case None
      have "arp_inv slots H m2 ?T"
        by (rule arp_inv_enqueue [OF p'(1) [unfolded s1(3)] p'(2) assms(4) _ eo [OF p'(3)]])
          (use None nt in \<open>simp_all add: entry_def\<close>)
      then show ?thesis using None p'(3) by (intro exI [of _ m2]) simp
    next
      case (Some old)
      let ?f = "(entry i s)\<lparr>ae_q := None\<rparr>"
      have q: "ae_q (arp_table s ! i) = Some old" using Some by (simp add: entry_def)
      have e0: "entry_ok m2 ?f" "ae_q ?f = None" using assms(5) by (simp_all add: entry_ok_def less_eq_etharp_state_def)
      from arp_inv_dequeue [OF p'(1) [unfolded s1(3)] assms(4) q e0] nt
      have dq: "arp_inv slots (insert old (insert p' H)) m2 ((arp_table s)[i := ?f])" "old \<notin> insert p' H" by auto
      from arp_inv_same(1) [OF p'(1) [unfolded s1(3)] assms(4) q] obtain x where "one_ram m2 old x" by blast
      then have "owned m2 old [old]" by (simp add: one_ram_def)
      from arp_inv_free [OF dq(1) this] dq(2) obtain k m3 where m3: "pbuf_free (Some old) m2 = Some (k, m3)"
        "arp_inv slots (insert p' H) m3 ((arp_table s)[i := ?f])" "keeps (insert p' H) m2 m3" "mem_malloc m3 = mem_malloc m2"
        by (auto simp: chain_fuel_def)
      have len: "length (arp_table s) = ARP_TABLE_SIZE" using assms(1) by (rule eth_ok_table)
      have one: "one_ram m3 p' d" using p'(3) m3(3) one_ram_cong [of m3 p' m2 d] by (simp add: keeps_def)
      have "arp_inv slots H m3 (((arp_table s)[i := ?f])[i := (entry i s)\<lparr>ae_q := Some p'\<rparr>])"
        by (rule arp_inv_enqueue [OF m3(2) p'(2) assms(4) _ eo [OF one]])
          (use nt len assms(4) in \<open>simp_all add: nth_list_update\<close>)
      then have "arp_inv slots H m3 ?T" by simp
      then show ?thesis using Some m3 one by (intro exI [of _ m3]) (auto simp: free_pbuf_def intro: keeps_mono)
    qed
    then obtain m3 where m3: "(case ae_q (entry i s) of None \<Rightarrow> Some (s1\<lparr>ebufs := m2\<rparr>) | Some old \<Rightarrow> free_pbuf old (s1\<lparr>ebufs := m2\<rparr>)) = Some (s1\<lparr>ebufs := m3\<rparr>)"
        "arp_inv slots H m3 ?T" "keeps H m2 m3" "mem_malloc m3 = mem_malloc m2" "one_ram m3 p' d" by blast
    let ?s = "upd_entry i (\<lambda>e. e\<lparr>ae_q := Some p'\<rparr>) (s1\<lparr>ebufs := m3\<rparr>)"
    have run: "run = Some (ERR_OK, ?s)" using s1(1) m2(1) Some m3(1) e1 by (simp add: assms(7) on_bufs_def)
    have len: "length (arp_table s) = ARP_TABLE_SIZE" using assms(1) by (rule eth_ok_table)
    have "keeps H (ebufs s) m3" using k1 keeps_mono [OF m2(2), of H] m3(3) by (auto intro: keeps_trans)
    then have st: "arp_step slots H H s ?s"
      using d1(1,3,4,5) m3(2,4) m2(3) s1(3,5) e1 by (auto simp: arp_step_def eth_ok_def)
    have en: "entry j ?s = (if j = i then ?e else entry j s)" for j
      using assms(4) len s1(3) e1 by (simp add: entry_def nth_list_update)
    show ?thesis using run st s1(4,5) m3(5) by (intro exI [of _ ERR_OK] exI [of _ ?s]) (auto simp: en)
  qed
qed

lemma etharp_query_step:
  assumes "eth_ok slots H s" "netifs s netif = Some n" "framed (ebufs s) H q rest" "\<not> not_unicast ip n"
  shows "\<exists>r s'. etharp_query netif ip (Some q) s = Some (r, s') \<and> arp_step slots (H - {q}) H s s' \<and> owned (ebufs s') q (q # rest)
     \<and> (r = ERR_MEM \<and> s' = s \<and> (\<exists>err. etharp_find_entry (Some ip) ETHARP_FLAG_TRY_HARD s = Some (Inl err, s))
       \<or> query_result netif n ip (chain_data (ebufs s) (q # rest)) r s s')"
proof -
  define d where "d = chain_data (ebufs s) (q # rest)"
  from framedE [OF assms(3)] obtain b where b: "heap (ebufs s) q = Some b" "14 \<le> unat (p_len b)" "owned (ebufs s) q (q # rest)"
    "set (q # rest) \<subseteq> H" "length (q # rest) \<le> chain_fuel" by metis
  have hw: "length (nif_hwaddr n) = 6" using assms(1,2) by (simp add: eth_ok_def)
  from etharp_find_entry_step [OF assms(1), of ip ETHARP_FLAG_TRY_HARD] obtain f s1 where
    f: "etharp_find_entry (Some ip) ETHARP_FLAG_TRY_HARD s = Some (f, s1)" "arp_step slots H H s s1" "frames s1 = frames s"
       "etharp_cached_entry s1 = etharp_cached_entry s" "case f of
        Inl err \<Rightarrow> err = ERR_MEM \<and> s1 = s
      | Inr i \<Rightarrow> i < ARP_TABLE_SIZE \<and> ae_ipaddr (entry i s1) = ip
          \<and> (\<not> is_empty (entry i s1) \<and> s1 = s \<or> is_empty (entry i s1) \<and> ae_q (entry i s1) = None
              \<and> (\<forall>j < ARP_TABLE_SIZE. \<not> is_empty (entry j s) \<longrightarrow> ae_ipaddr (entry j s) \<noteq> ip))
          \<and> (\<forall>j < ARP_TABLE_SIZE. j \<noteq> i \<longrightarrow> entry j s1 = entry j s)
          \<and> (\<forall>j < ARP_TABLE_SIZE. j \<noteq> i \<longrightarrow> \<not> is_empty (entry j s1) \<longrightarrow> ae_ipaddr (entry j s1) \<noteq> ip)" by blast
  note d1 = arp_stepD [OF f(2)]
  show ?thesis
  proof (cases f)
    case (Inl err)
    then have "etharp_query netif ip (Some q) s = Some (ERR_MEM, s)" using f(1,5) assms(2,4) by (simp add: etharp_query_def)
    moreover have "arp_step slots (H - {q}) H s s" using assms(1) by (simp add: arp_step_def)
    ultimately show ?thesis using f(1,5) Inl b(3) by auto
  next
    case (Inr i)
    with f(5) have i: "i < ARP_TABLE_SIZE" "ae_ipaddr (entry i s1) = ip"
      "\<not> is_empty (entry i s1) \<and> s1 = s \<or> is_empty (entry i s1) \<and> ae_q (entry i s1) = None
              \<and> (\<forall>j < ARP_TABLE_SIZE. \<not> is_empty (entry j s) \<longrightarrow> ae_ipaddr (entry j s) \<noteq> ip)"
      "\<forall>j < ARP_TABLE_SIZE. j \<noteq> i \<longrightarrow> entry j s1 = entry j s"
      "\<forall>j < ARP_TABLE_SIZE. j \<noteq> i \<longrightarrow> \<not> is_empty (entry j s1) \<longrightarrow> ae_ipaddr (entry j s1) \<noteq> ip" by auto
    note len1 = eth_ok_table [OF d1(1)]
    show ?thesis
    proof (cases "ETHARP_STATE_STABLE \<le> ae_state (entry i s1)")
      case True
      then have ne: "\<not> is_empty (entry i s1)" "ae_state (entry i s1) \<noteq> ETHARP_STATE_EMPTY" "ae_state (entry i s1) \<noteq> ETHARP_STATE_PENDING"
        by (auto simp: is_empty_def less_eq_etharp_state_def)
      then have s1: "s1 = s" using i(3) by blast
      let ?s = "s\<lparr>etharp_cached_entry := i\<rparr>"
      have ok: "eth_ok slots H ?s" using assms(1) i(1) by (simp add: eth_ok_def)
      have et: "length (ae_ethaddr (entry i s)) = 6" using eth_ok_entry [OF assms(1) i(1)] True s1 by (simp add: entry_ok_def)
      from etharp_send_ip_step [OF ok, of q rest b "nif_hwaddr n" "ae_ethaddr (entry i s)" netif] b hw et obtain s2 where
        s2: "etharp_send_ip netif q (nif_hwaddr n) (ae_ethaddr (entry i s)) ?s = Some (link_out s (length (frames s)), s2)"
          "arp_step slots (H - {q}) H ?s s2"
          "frames s2 = frames s @ [(netif, eth_frame (ae_ethaddr (entry i s)) (nif_hwaddr n) (drop 14 d))]"
          "arp_table s2 = arp_table s" "owned (ebufs s2) q (q # rest)"
        by (auto simp: d_def simp del: chain_data_simps)
      have run: "etharp_query netif ip (Some q) s = Some (link_out s (length (frames s)), s2)"
        using f(1) Inr assms(2,4) ne True s1 s2(1) by (simp add: etharp_query_def)
      have "arp_step slots (H - {q}) H s s2" using s2(2) by (simp add: arp_step_def)
      moreover have "query_result netif n ip d (link_out s (length (frames s))) s s2"
        unfolding query_result_def using i(1,2) True s1 s2(3,4) by blast
      ultimately show ?thesis using run s2(5) d_def by blast
    next
      case False
      then have st: "is_empty (entry i s1) \<or> ae_state (entry i s1) = ETHARP_STATE_PENDING"
        by (cases "ae_state (entry i s1)") (auto simp: is_empty_def less_eq_etharp_state_def)
      define s2 where "s2 = (if ae_state (entry i s1) = ETHARP_STATE_EMPTY then upd_entry i (\<lambda>e. e\<lparr>ae_state := ETHARP_STATE_PENDING\<rparr>) s1 else s1)"
      have up: "arp_step slots H H s1 (upd_entry i (\<lambda>e. e\<lparr>ae_state := ETHARP_STATE_PENDING\<rparr>) s1)" if "is_empty (entry i s1)"
        by (rule upd_entry_step [OF d1(1) i(1)])
          (use that i(2,3,5) in \<open>auto simp: entry_ok_def is_empty_def less_eq_etharp_state_def\<close>)
      have st2: "arp_step slots H H s1 s2" using up arp_step_refl [OF d1(1)] by (simp add: s2_def is_empty_def)
      note d2 = arp_stepD [OF st2]
      have e2: "entry i s2 = (entry i s1)\<lparr>ae_state := ETHARP_STATE_PENDING\<rparr>" "j \<noteq> i \<Longrightarrow> entry j s2 = entry j s1" for j
        using st i(1) len1 by (auto simp: s2_def is_empty_def)
      have "frames s2 = frames s1" "etharp_cached_entry s2 = etharp_cached_entry s1" "ebufs s2 = ebufs s1" by (simp_all add: s2_def)
      note o2 = this
      have k12: "keeps H (ebufs s) (ebufs s2)" using d1(2) o2(3) by simp
      note fr = framed_keeps [OF assms(3) k12]
      have n2: "netifs s2 netif = Some n" using d1(3) d2(3) assms(2) by simp
      have "ae_state (entry i s2) = ETHARP_STATE_PENDING" by (simp add: e2)
      from query_pending [OF d2(1) n2 fr(1) i(1) this refl refl, of ip] obtain r s3 where s3:
        "do { (result, s) \<leftarrow> etharp_request netif ip s2;
         (p, s) \<leftarrow> on_bufs (take_over q) s;
         case p of None \<Rightarrow> Some (ERR_MEM, s)
         | Some p \<Rightarrow> do {
             s \<leftarrow> (case ae_q (entry i s) of None \<Rightarrow> Some s | Some old \<Rightarrow> free_pbuf old s);
             Some (ERR_OK, upd_entry i (\<lambda>e. e\<lparr>ae_q := Some p\<rparr>) s) } } = Some (r, s3)"
        "arp_step slots H H s2 s3" "\<exists>q. entry i s3 = (entry i s2)\<lparr>ae_q := q\<rparr>" "\<forall>j < ARP_TABLE_SIZE. j \<noteq> i \<longrightarrow> entry j s3 = entry j s2"
        "if r = ERR_OK then \<exists>p. ae_q (entry i s3) = Some p \<and> one_ram (ebufs s3) p (chain_data (ebufs s2) (q # rest))
           else r = ERR_MEM \<and> \<not> has_ram (ebufs s2)"
        "frames s3 = frames s2 @ [arp_ask netif n ip] \<or> frames s3 = frames s2 \<and> \<not> has_ram (ebufs s2)" by blast
      note d3 = arp_stepD [OF s3(2)]
      from etharp_request_step [OF d2(1) n2, of ip] obtain r' s' where rq: "etharp_request netif ip s2 = Some (r', s')"
        "arp_table s' = arp_table s2" by blast
      have "etharp_query netif ip (Some q) s = Some (r, s3)"
      proof -
        have p2: "\<not> ETHARP_STATE_STABLE \<le> ae_state (entry i s')" "ae_state (entry i s') = ETHARP_STATE_PENDING"
          using entry_of_table [OF rq(2), of i] by (simp_all add: e2 less_eq_etharp_state_def)
        have p2': "ae_state (entry i s2) = ETHARP_STATE_PENDING" by (simp add: e2)
        show ?thesis using f(1) Inr assms(2,4) rq(1) p2 p2' s3(1)
          by (simp add: etharp_query_def s2_def [symmetric])
      qed
      moreover have "arp_step slots H H s s3"
        using arp_step_trans [OF arp_step_trans [OF f(2) st2] s3(2)] by simp
      then have "arp_step slots (H - {q}) H s s3" by (auto simp: arp_step_def intro: keeps_mono)
      moreover have "owned (ebufs s3) q (q # rest)"
        using framed_keeps(1) [OF fr(1), of "ebufs s3"] d3(2) by (auto simp: framed_def)
      moreover have "query_result netif n ip d r s s3"
      proof -
        have "ae_state (entry i s3) = ETHARP_STATE_PENDING" "ae_ipaddr (entry i s3) = ip" using s3(3) e2(1) i(2) by auto
        moreover have "\<forall>j < ARP_TABLE_SIZE. j \<noteq> i \<longrightarrow> entry j s3 = entry j s" using s3(4) e2(2) i(4) by simp
        moreover have "\<not> is_empty (entry i s) \<and> ae_ipaddr (entry i s) = ip
            \<or> (\<forall>j < ARP_TABLE_SIZE. \<not> is_empty (entry j s) \<longrightarrow> ae_ipaddr (entry j s) \<noteq> ip)" using i(2,3) by auto
        moreover have "chain_data (ebufs s2) (q # rest) = d" using fr(2) d_def by simp
        ultimately show ?thesis unfolding query_result_def
          using s3(5,6) i(1) o2(1) f(3) d1(6) d2(6) by (intro disjI2 exI [of _ i]) (simp del: chain_data_simps split: if_splits)
      qed
      ultimately show ?thesis using d_def by blast
    qed
  qed
qed

section \<open>Output\<close>

lemma hd_edit_filled:
  assumes "hd_edit m m' q" "q \<notin> set rest"
  shows "filled_tail m' (q # rest) = filled_tail m (q # rest)"
proof -
  have "buf_data m' a = buf_data m a" if "a \<in> set rest" for a
  proof -
    have "a \<noteq> q" using that assms(2) by auto
    then show ?thesis using assms(1) by (simp add: hd_edit_def buf_data_def split: option.split)
  qed
  then show ?thesis by (simp add: filled_tail_def)
qed

text \<open>A packet of its holder that the IP layer hands down.\<close>

definition outgoing :: "pbuf_mem \<Rightarrow> nat set \<Rightarrow> nat \<Rightarrow> nat list \<Rightarrow> bool" where
  "outgoing m H q rest \<longleftrightarrow> owned m q (q # rest) \<and> filled_tail m (q # rest) \<and> set (q # rest) \<subseteq> H \<and> length (q # rest) \<le> chain_fuel
     \<and> length (chain_data m (q # rest)) \<le> 65502 \<and> of_type m {PBUF_RAM, PBUF_POOL} q"

definition header_room :: "pbuf_mem \<Rightarrow> nat \<Rightarrow> bool" where
  "header_room m q \<longleftrightarrow> (case heap m q of None \<Rightarrow> False | Some b \<Rightarrow> SIZEOF_ETH_HDR \<le> p_payload b)"

lemma output_header:
  assumes "eth_ok slots H s" "outgoing (ebufs s) H q rest" "header_room (ebufs s) q"
  shows "\<exists>m h. on_bufs (pbuf_header (Some q) (int SIZEOF_ETH_HDR)) s = Some (0, s\<lparr>ebufs := m\<rparr>) \<and> arp_step slots (H - {q}) H s (s\<lparr>ebufs := m\<rparr>)
     \<and> framed m H q rest \<and> length h = 14 \<and> chain_data m (q # rest) = h @ chain_data (ebufs s) (q # rest)"
proof -
  from assms(2,3) obtain b where b: "heap (ebufs s) q = Some b" "p_type b = PBUF_RAM \<or> p_type b = PBUF_POOL" "14 \<le> p_payload b"
    by (auto simp: outgoing_def header_room_def of_type_def SIZEOF_ETH_HDR_def split: option.splits)
  have o: "owned (ebufs s) q (q # rest)" "q \<notin> set rest" "q \<in> H" "length (chain_data (ebufs s) (q # rest)) \<le> 65502"
    "set (q # rest) \<subseteq> H" "filled_tail (ebufs s) (q # rest)" "length (q # rest) \<le> chain_fuel"
    using assms(2) by (auto simp: outgoing_def owned_def exclusive_def simp del: chain_data_simps)
  have tl: "unat (p_tot_len b) = length (chain_data (ebufs s) (q # rest))" using o(1) b(1) by (simp add: owned_def)
  have le: "unat (p_tot_len b) + 14 < 65536" using tl o(4) by simp
  from pbuf_header_chain [OF o(1) b(1,2) _ b(3) le] obtain m b' h where m: "pbuf_header (Some q) 14 (ebufs s) = Some (0, m)"
    "hd_edit (ebufs s) m q" "owned m q (q # rest)" "heap m q = Some b'" "unat (p_len b') = unat (p_len b) + 14" "p_type b' = p_type b"
    "length h = 14" "chain_data m (q # rest) = h @ chain_data (ebufs s) (q # rest)" by auto
  have "framed m H q rest"
    using m(3-8) o b(2) hd_edit_filled [OF m(2) o(2)] by (auto simp: framed_def SIZEOF_ETH_HDR_def simp del: chain_data_simps)
  moreover have "arp_inv slots H m (arp_table s)" using assms(1) m(2) o(3) by (auto simp: eth_ok_def intro: arp_inv_hd_edit)
  then have "arp_step slots (H - {q}) H s (s\<lparr>ebufs := m\<rparr>)"
    using assms(1) hd_edit_keeps [OF m(2), of "(H - {q}) \<inter> H"] m(2) by (simp add: arp_step_def eth_ok_def hd_edit_def)
  ultimately show ?thesis using m(1,7,8) by (intro exI [of _ m] exI [of _ h]) (simp add: on_bufs_def SIZEOF_ETH_HDR_def)
qed

lemma etharp_output_to_arp_index_step:
  assumes "eth_ok slots H s" "netifs s netif = Some n" "framed (ebufs s) H q rest" "i < ARP_TABLE_SIZE" "ETHARP_STATE_STABLE \<le> ae_state (entry i s)"
  shows "\<exists>r s' fs. etharp_output_to_arp_index netif q i s = Some (r, s') \<and> arp_step slots (H - {q}) H s s' \<and> owned (ebufs s') q (q # rest)
     \<and> (fs = [] \<or> fs = [arp_ask netif n (ae_ipaddr (entry i s))] \<and> ARP_AGE_REREQUEST_USED \<le> ae_ctime (entry i s))
     \<and> frames s' = frames s @ fs @ [(netif, eth_frame (ae_ethaddr (entry i s)) (nif_hwaddr n) (drop 14 (chain_data (ebufs s) (q # rest))))]"
proof -
  define ask where "ask \<longleftrightarrow> ae_state (entry i s) = ETHARP_STATE_STABLE \<and> ARP_AGE_REREQUEST_USED \<le> ae_ctime (entry i s)"
  have "\<exists>s1 fs. (if ask then do {
              (err, s) \<leftarrow> etharp_request netif (ae_ipaddr (entry i s)) s;
              Some (if err = ERR_OK then upd_entry i (\<lambda>e. e\<lparr>ae_state := ETHARP_STATE_STABLE_REREQUESTING\<rparr>) s else s) }
            else Some s) = Some s1 \<and> arp_step slots H H s s1 \<and> frames s1 = frames s @ fs
     \<and> (fs = [] \<or> fs = [arp_ask netif n (ae_ipaddr (entry i s))] \<and> ask) \<and> ae_ethaddr (entry i s1) = ae_ethaddr (entry i s)"
  proof (cases ask)
    case True
    from etharp_request_step [OF assms(1,2), of "ae_ipaddr (entry i s)"] obtain r s1 where
      s1: "etharp_request netif (ae_ipaddr (entry i s)) s = Some (r, s1)" "arp_step slots H H s s1" "arp_table s1 = arp_table s"
        "frames s1 = frames s \<or> frames s1 = frames s @ [arp_ask netif n (ae_ipaddr (entry i s))]" by (auto simp: arp_ask_def)
    have e: "entry j s1 = entry j s" for j using s1(3) by (rule entry_of_table)
    note d = arp_stepD [OF s1(2)]
    have "arp_step slots H H s1 (upd_entry i (\<lambda>e. e\<lparr>ae_state := ETHARP_STATE_STABLE_REREQUESTING\<rparr>) s1)"
      by (rule upd_entry_step [OF d(1) assms(4)])
        (use eth_ok_entry [OF assms(1,4)] eth_ok_distinct [OF assms(1) _ assms(4)] assms(5) e True in
          \<open>auto simp: entry_ok_def is_empty_def less_eq_etharp_state_def ask_def split: option.splits\<close>)
    from arp_step_trans [OF s1(2) this] have "arp_step slots H H s (upd_entry i (\<lambda>e. e\<lparr>ae_state := ETHARP_STATE_STABLE_REREQUESTING\<rparr>) s1)"
      by simp
    then show ?thesis using s1 True e assms(4) eth_ok_table [OF d(1)] by (cases "r = ERR_OK") auto
  next
    case False
    then show ?thesis using arp_step_refl [OF assms(1)] by simp
  qed
  then obtain s1 fs where s1: "(if ask then do {
              (err, s) \<leftarrow> etharp_request netif (ae_ipaddr (entry i s)) s;
              Some (if err = ERR_OK then upd_entry i (\<lambda>e. e\<lparr>ae_state := ETHARP_STATE_STABLE_REREQUESTING\<rparr>) s else s) }
            else Some s) = Some s1" "arp_step slots H H s s1" "frames s1 = frames s @ fs"
    "fs = [] \<or> fs = [arp_ask netif n (ae_ipaddr (entry i s))] \<and> ask" "ae_ethaddr (entry i s1) = ae_ethaddr (entry i s)" by blast
  note d = arp_stepD [OF s1(2)]
  have "keeps H (ebufs s) (ebufs s1)" using d(2) by simp
  note fr = framed_keeps [OF assms(3) this]
  from framedE [OF fr(1)] obtain b where b: "heap (ebufs s1) q = Some b" "14 \<le> unat (p_len b)" "owned (ebufs s1) q (q # rest)"
    "set (q # rest) \<subseteq> H" "length (q # rest) \<le> chain_fuel" by metis
  have l: "length (nif_hwaddr n) = 6" "length (ae_ethaddr (entry i s)) = 6"
    using assms(1,2) eth_ok_entry [OF assms(1,4)] assms(5) by (auto simp: eth_ok_def entry_ok_def)
  from etharp_send_ip_step [OF d(1) b(3,5) _ b(1,2) l, of netif] b(4) obtain s2 where
    s2: "etharp_send_ip netif q (nif_hwaddr n) (ae_ethaddr (entry i s)) s1 = Some (link_out s1 (length (frames s1)), s2)"
      "arp_step slots (H - {q}) H s1 s2" "owned (ebufs s2) q (q # rest)"
      "frames s2 = frames s1 @ [(netif, eth_frame (ae_ethaddr (entry i s)) (nif_hwaddr n) (drop 14 (chain_data (ebufs s1) (q # rest))))]"
    by (auto simp del: chain_data_simps)
  have run: "etharp_output_to_arp_index netif q i s = Some (link_out s1 (length (frames s1)), s2)"
    using assms(2) s1(1,5) s2(1) by (simp add: etharp_output_to_arp_index_def ask_def)
  have "arp_step slots (H - {q}) H s s1" using s1(2) by (auto simp: arp_step_def intro: keeps_mono)
  then have "arp_step slots (H - {q}) H s s2" using s2(2)
    by (auto simp: arp_step_def intro: keeps_trans)
  then show ?thesis using run s2(3,4) s1(3,4) fr(2)
    by (intro exI [of _ "link_out s1 (length (frames s1))"] exI [of _ s2] exI [of _ fs]) (auto simp: ask_def simp del: chain_data_simps)
qed

lemma find_stable:
  "List.find (stable_for ip s) [0..<ARP_TABLE_SIZE] = Some i \<Longrightarrow> i < ARP_TABLE_SIZE \<and> stable_for ip s i"
  "List.find (stable_for ip s) [0..<ARP_TABLE_SIZE] = None \<Longrightarrow> i < ARP_TABLE_SIZE \<Longrightarrow> \<not> stable_for ip s i"
  by (auto simp: find_Some_iff find_None_iff)

lemma etharp_output_step:
  assumes "eth_ok slots H s" "netifs s netif = Some n" "outgoing (ebufs s) H q rest"
  shows "\<exists>r s'. etharp_output netif q ip s = Some (r, s') \<and> arp_step slots (H - {q}) H s s' \<and> owned (ebufs s') q (q # rest)"
proof (cases "header_room (ebufs s) q")
  case False
  from assms(3) obtain b where b: "heap (ebufs s) q = Some b" "p_type b = PBUF_RAM \<or> p_type b = PBUF_POOL"
    by (auto simp: outgoing_def of_type_def split: option.splits)
  with False have "on_bufs (pbuf_header (Some q) (int SIZEOF_ETH_HDR)) s = Some (1, s)"
    by (auto simp: header_room_def SIZEOF_ETH_HDR_def on_bufs_def pbuf_header_def)
  then have "etharp_output netif q ip s = Some (ERR_BUF, s)" using assms(2) by (simp add: etharp_output_def)
  then show ?thesis using assms(1,3) by (auto simp: arp_step_def outgoing_def)
next
  case True
  from output_header [OF assms(1,3) True] obtain m h where
    m: "on_bufs (pbuf_header (Some q) (int SIZEOF_ETH_HDR)) s = Some (0, s\<lparr>ebufs := m\<rparr>)" "arp_step slots (H - {q}) H s (s\<lparr>ebufs := m\<rparr>)"
      "framed m H q rest" by blast
  let ?s = "s\<lparr>ebufs := m\<rparr>"
  note d = arp_stepD [OF m(2)]
  have fr: "framed (ebufs ?s) H q rest" and n: "netifs ?s netif = Some n" using m(3) assms(2) by simp_all
  from framedE [OF fr] obtain b where b: "heap (ebufs ?s) q = Some b" "14 \<le> unat (p_len b)" "owned (ebufs ?s) q (q # rest)"
    "set (q # rest) \<subseteq> H" "length (q # rest) \<le> chain_fuel" by metis
  have l: "length (nif_hwaddr n) = 6" "length ethbroadcast = 6" "length (mcast_addr ip) = 6"
    using assms(1,2) by (auto simp: eth_ok_def ethbroadcast_def mcast_addr_def LL_MULTICAST_ADDR_def)
  have tr: ?thesis if "etharp_output netif q ip s = Some (r, s')" "arp_step slots (H - {q}) H ?s s'" "owned (ebufs s') q (q # rest)" for r s'
    using that m(2) by (auto simp: arp_step_def intro: keeps_trans)
  let ?out = "\<not> ip_addr_netcmp ip (nif_ip n) (nif_mask n) \<and> \<not> ip_addr_islinklocal ip"
  let ?dst = "if ?out then nif_gw n else ip"
  note run = etharp_output_def [of netif q ip s]
  consider (send) dst where "etharp_output netif q ip s = etharp_send_ip netif q (nif_hwaddr n) dst ?s" "length dst = 6"
    | (rte) "etharp_output netif q ip s = Some (ERR_RTE, ?s)"
    | (idx) i s1 where "etharp_output netif q ip s = etharp_output_to_arp_index netif q i s1" "s1 = ?s \<or> s1 = ?s\<lparr>etharp_cached_entry := i\<rparr>"
        "i < ARP_TABLE_SIZE" "stable_for ?dst s1 i"
    | (query) dst where "etharp_output netif q ip s = etharp_query netif dst (Some q) ?s"
  proof (cases "ip4_addr_isbroadcast ip (netif.truncate n) \<or> ip_addr_ismulticast ip")
    case True
    have "etharp_output netif q ip s = etharp_send_ip netif q (nif_hwaddr n) ethbroadcast ?s"
      if "ip4_addr_isbroadcast ip (netif.truncate n)" using that m(1) assms(2) by (simp add: run)
    moreover have "etharp_output netif q ip s = etharp_send_ip netif q (nif_hwaddr n) (mcast_addr ip) ?s"
      if "\<not> ip4_addr_isbroadcast ip (netif.truncate n)" using that True m(1) assms(2) by (simp add: run)
    ultimately show ?thesis using send l(2,3) by blast
  next
    case nb: False
    show ?thesis
    proof (cases "?out \<and> ip_addr_isany (nif_gw n)")
      case True
      then show ?thesis using rte nb m(1) assms(2) by (simp add: run)
    next
      case ng: False
      have e: "etharp_output netif q ip s = (if stable_for ?dst ?s (etharp_cached_entry s)
           then etharp_output_to_arp_index netif q (etharp_cached_entry s) ?s
         else (case List.find (stable_for ?dst ?s) [0..<ARP_TABLE_SIZE] of
             Some i \<Rightarrow> etharp_output_to_arp_index netif q i (?s\<lparr>etharp_cached_entry := i\<rparr>)
           | None \<Rightarrow> etharp_query netif ?dst (Some q) ?s))"
        using nb ng m(1) assms(2)
        by (cases "ip_addr_netcmp ip (nif_ip n) (nif_mask n)"; cases "ip_addr_islinklocal ip") (simp_all add: run Let_def)
      have c: "etharp_cached_entry s < ARP_TABLE_SIZE" using assms(1) by (simp add: eth_ok_def)
      have sf: "stable_for ?dst (?s\<lparr>etharp_cached_entry := i\<rparr>) j = stable_for ?dst ?s j" for i j by (simp add: stable_for_def)
      show ?thesis
      proof (cases "stable_for ?dst ?s (etharp_cached_entry s)")
        case True
        then show ?thesis using idx [of "etharp_cached_entry s" ?s] e c by simp
      next
        case False
        then show ?thesis using idx [of _ "?s\<lparr>etharp_cached_entry := _\<rparr>"] query [of ?dst] e find_stable(1) sf
          by (cases "List.find (stable_for ?dst ?s) [0..<ARP_TABLE_SIZE]") fastforce+
      qed
    qed
  qed
  then show ?thesis
  proof cases
    case (send dst)
    from etharp_send_ip_step [OF d(1) b(3,5) _ b(1,2) l(1) send(2), of netif] b(4) obtain s2 where
      "etharp_send_ip netif q (nif_hwaddr n) dst ?s = Some (link_out ?s (length (frames ?s)), s2)" "arp_step slots (H - {q}) H ?s s2"
      "owned (ebufs s2) q (q # rest)" by (auto simp del: chain_data_simps)
    then show ?thesis using tr send(1) by metis
  next
    case rte
    have "arp_step slots (H - {q}) H ?s ?s" using d(1) by (simp add: arp_step_def)
    then show ?thesis using tr [OF rte] b(3) by blast
  next
    case (idx i s1)
    have s1: "eth_ok slots H s1" "netifs s1 netif = Some n" "framed (ebufs s1) H q rest" "ETHARP_STATE_STABLE \<le> ae_state (entry i s1)"
      using idx(2,3,4) d(1) n fr by (auto simp: eth_ok_def stable_for_def)
    from etharp_output_to_arp_index_step [OF s1(1-3) idx(3) s1(4)] obtain r s2 where
      s2: "etharp_output_to_arp_index netif q i s1 = Some (r, s2)" "arp_step slots (H - {q}) H s1 s2" "owned (ebufs s2) q (q # rest)" by blast
    have "arp_step slots (H - {q}) H ?s s2" using s2(2) idx(2) by (auto simp: arp_step_def)
    then show ?thesis using tr idx(1) s2(1,3) by metis
  next
    case (query dst)
    show ?thesis
    proof (cases "not_unicast dst n")
      case True
      then have "etharp_output netif q ip s = Some (ERR_ARG, ?s)" using query n by (simp add: etharp_query_def)
      moreover have "arp_step slots (H - {q}) H ?s ?s" using d(1) by (simp add: arp_step_def)
      ultimately show ?thesis using tr b(3) by blast
    next
      case False
      from etharp_query_step [OF d(1) n fr False] obtain r s2 where "etharp_query netif dst (Some q) ?s = Some (r, s2)"
        "arp_step slots (H - {q}) H ?s s2" "owned (ebufs s2) q (q # rest)" by blast
      then show ?thesis using tr query by metis
    qed
  qed
qed

end
