(* ===== verification/Arp_Input.thy ===== *)
theory Arp_Input
  imports Arp_Output
begin

text \<open>
  What reception does to the invariant of the ARP layer (\<open>Arp_Table\<close>), for every received packet: the packet is freed,
  \<open>etharp_update_arp_entry\<close> updates the table with the sender of a valid ARP packet, \<open>etharp_arp_input\<close> answers a request for
  the own address by editing the received packet in place and sending it back, and \<open>ethernet_input\<close> dispatches a frame by
  its type. The IP layer is a parameter with the contract \<open>consumes\<close>: it frees what it is given.
\<close>

section \<open>Receiving ARP packets\<close>

lemma arp_step_free:
  assumes "eth_ok slots H s" "owned (ebufs s) p as" "set as \<subseteq> H" "length as \<le> chain_fuel"
  shows "\<exists>s'. free_pbuf p s = Some s' \<and> arp_step slots (H - set as) (H - set as) s s' \<and> arp_table s' = arp_table s
     \<and> frames s' = frames s \<and> etharp_cached_entry s' = etharp_cached_entry s \<and> (\<forall>x \<in> set as. heap (ebufs s') x = None)"
proof -
  have "arp_inv slots H (ebufs s) (arp_table s)" using assms(1) by (simp add: eth_ok_def)
  from arp_inv_free [OF this assms(2-4)] obtain k m where m: "pbuf_free (Some p) (ebufs s) = Some (k, m)"
    "arp_inv slots (H - set as) m (arp_table s)" "keeps (H - set as) (ebufs s) m" "mem_malloc m = mem_malloc (ebufs s)"
    "heap m = (\<lambda>x. if x \<in> set as then None else heap (ebufs s) x)" by blast
  then show ?thesis using assms(1) by (simp add: free_pbuf_def arp_step_def eth_ok_def)
qed

lemma payload_read_chain:
  assumes "owned m p (p # rest)" "heap m p = Some b" "n \<le> unat (p_len b)"
  shows "payload_read p 0 n m = Some (take n (chain_data m (p # rest)))" "n \<le> length (chain_data m (p # rest))"
proof -
  have "in_block m p b" using assms(1,2) by (auto simp: owned_def exclusive_def)
  then have "payload_read p 0 n m = Some (take n (buf_data m p))" "length (buf_data m p) = unat (p_len b)"
    using assms(2,3) by (auto simp: payload_read_def rd_at_def in_block_def buf_data_def min_def)
  then show "payload_read p 0 n m = Some (take n (chain_data m (p # rest)))" "n \<le> length (chain_data m (p # rest))"
    using assms(3) by simp_all
qed

lemma hdr_field_length [simp]: "off + n \<le> length h \<Longrightarrow> length (hdr_field h off n) = n"
  by (simp add: hdr_field_def)

lemma arp_reply_length: "length h = 42 \<Longrightarrow> length ethaddr = 6 \<Longrightarrow> length (arp_reply h ip ethaddr) = 42"
  by (simp add: arp_reply_def)

text \<open>A received packet, in the hands of the caller.\<close>

definition received_in :: "pbuf_mem \<Rightarrow> nat set \<Rightarrow> nat \<Rightarrow> nat list \<Rightarrow> bool" where
  "received_in m H p rest \<longleftrightarrow> owned m p (p # rest) \<and> set (p # rest) \<subseteq> H \<and> length (p # rest) \<le> chain_fuel"

definition arp_for_us :: "eth_netif \<Rightarrow> bytes \<Rightarrow> bool" where
  "arp_for_us n h \<longleftrightarrow> \<not> ip_addr_isany (nif_ip n) \<and> of_le32 (hdr_field h 38 4) = nif_ip n"

definition arp_flags :: "eth_netif \<Rightarrow> bytes \<Rightarrow> u8" where
  "arp_flags n h = (if arp_for_us n h then ETHARP_FLAG_TRY_HARD else ETHARP_FLAG_FIND_ONLY)"

definition answers :: "nat \<Rightarrow> eth_netif \<Rightarrow> bytes \<Rightarrow> (nat \<times> bytes) list" where
  "answers netif n d = (if of_le16 (hdr_field d 20 2) = htons ARP_REQUEST \<and> arp_for_us n (take 42 d)
     then [(netif, arp_reply (take 42 d) (nif_ip n) (nif_hwaddr n) @ drop 42 d)] else [])"

text \<open>An ARP packet that is long enough and valid updates the table with its sender and is answered when it asks for us.\<close>

lemma etharp_update_any:
  assumes "eth_ok slots H s" "netifs s netif = Some n" "length ethaddr = 6"
  shows "\<exists>r s'. etharp_update_arp_entry netif ip ethaddr flags s = Some (r, s') \<and> arp_step slots H H s s'"
proof (cases "not_unicast ip n")
  case True
  then show ?thesis using assms(2) arp_step_refl [OF assms(1)] by (simp add: etharp_update_arp_entry_def)
next
  case False
  from etharp_update_step [OF assms False, of flags] show ?thesis by blast
qed

lemma etharp_arp_input_step:
  assumes "eth_ok slots H s" "netifs s netif = Some n" "received_in (ebufs s) H p rest" "d = chain_data (ebufs s) (p # rest)"
  shows "\<exists>s'. etharp_arp_input netif (nif_hwaddr n) p s = Some s'
     \<and> arp_step slots (H - set (p # rest)) (H - set (p # rest)) s s'
     \<and> (\<forall>x \<in> set (p # rest). heap (ebufs s') x = None)
     \<and> (\<forall>b. heap (ebufs s) p = Some b \<longrightarrow>
         (if unat (p_len b) < 42 \<or> \<not> arp_valid (take 42 d) then arp_table s' = arp_table s \<and> frames s' = frames s
          else (\<exists>r s1. etharp_update_arp_entry netif (of_le32 (hdr_field (take 42 d) 28 4)) (hdr_field (take 42 d) 22 6) (arp_flags n (take 42 d)) s = Some (r, s1)
              \<and> arp_table s' = arp_table s1 \<and> etharp_cached_entry s' = etharp_cached_entry s1 \<and> frames s' = frames s1 @ answers netif n d)))"
proof -
  have o: "owned (ebufs s) p (p # rest)" "set (p # rest) \<subseteq> H" "length (p # rest) \<le> chain_fuel"
    using assms(3) by (simp_all add: received_in_def)
  from o(1) obtain b where b: "heap (ebufs s) p = Some b" by (auto simp: owned_def exclusive_def split: option.splits)
  have dropped: ?thesis if "etharp_arp_input netif (nif_hwaddr n) p s = free_pbuf p s" "unat (p_len b) < 42 \<or> \<not> arp_valid (take 42 d)"
    using arp_step_free [OF assms(1) o] that b by auto
  have sz: "SIZEOF_ETHARP_PACKET = 42" by (simp add: SIZEOF_ETHARP_PACKET_def SIZEOF_ETH_HDR_def)
  show ?thesis
  proof (cases "unat (p_len b) < 42")
    case True
    then show ?thesis using b assms(2) by (intro dropped) (simp_all add: etharp_arp_input_def sz)
  next
    case long: False
    let ?h = "take 42 d"
    have rd: "payload_read p 0 42 (ebufs s) = Some ?h" and ld: "42 \<le> length d"
      using payload_read_chain [OF o(1) b, of 42] long assms(4) by (simp_all del: chain_data_simps)
    then have lh: "length ?h = 42" by simp
    show ?thesis
    proof (cases "arp_valid ?h")
      case False
      then show ?thesis using b assms(2) rd long by (intro dropped) (simp_all add: etharp_arp_input_def sz)
    next
      case True
      let ?ip = "of_le32 (hdr_field ?h 28 4)" and ?mac = "hdr_field ?h 22 6"
      have mac: "length ?mac = 6" using lh by simp
      from etharp_update_any [OF assms(1,2) mac] obtain r s1 where
        s1: "etharp_update_arp_entry netif ?ip ?mac (arp_flags n ?h) s = Some (r, s1)" "arp_step slots H H s s1" by blast
      note d1 = arp_stepD [OF s1(2)]
      have k: "keeps H (ebufs s) (ebufs s1)" using d1(2) by simp
      note kc = keeps_chain [OF k o(2)]
      have o1: "owned (ebufs s1) p (p # rest)" using kc(4) o(1) by simp
      have b1: "heap (ebufs s1) p = Some b" using b k o(2) by (simp add: keeps_def)
      have rd1: "payload_read p 0 42 (ebufs s1) = Some ?h"
        using payload_read_chain [OF o1 b1, of 42] long kc(2) assms(4) by (simp del: chain_data_simps)
      have dd: "chain_data (ebufs s1) (p # rest) = d" using kc(2) assms(4) by (simp del: chain_data_simps)
      define ask where "ask \<longleftrightarrow> of_le16 (hdr_field ?h 20 2) = htons ARP_REQUEST \<and> arp_for_us n ?h"
      have an: "answers netif n d = (if ask then [(netif, arp_reply ?h (nif_ip n) (nif_hwaddr n) @ drop 42 d)] else [])"
        using ld by (simp add: answers_def ask_def hdr_field_def drop_take)
      have hw: "length (nif_hwaddr n) = 6" using assms(1,2) by (simp add: eth_ok_def)
      have "\<exists>s2. (if ask then do {
                  s \<leftarrow> do_bufs (payload_write p 0 (arp_reply ?h (nif_ip n) (nif_hwaddr n))) s1;
                  (err, s) \<leftarrow> linkoutput netif p s;
                  Some s }
                else Some s1) = Some s2 \<and> arp_step slots (H - set (p # rest)) H s1 s2 \<and> arp_table s2 = arp_table s1
          \<and> etharp_cached_entry s2 = etharp_cached_entry s1 \<and> frames s2 = frames s1 @ answers netif n d \<and> owned (ebufs s2) p (p # rest)"
      proof (cases ask)
        case True
        have lr: "0 + length (arp_reply ?h (nif_ip n) (nif_hwaddr n)) \<le> unat (p_len b)" "length (arp_reply ?h (nif_ip n) (nif_hwaddr n)) = 42"
          using arp_reply_length [OF lh hw] long by simp_all
        from payload_write_chain [OF o1 b1 lr(1)] obtain m where m: "payload_write p 0 (arp_reply ?h (nif_ip n) (nif_hwaddr n)) (ebufs s1) = Some m"
          "hd_edit (ebufs s1) m p" "owned m p (p # rest)" "chain_data m (p # rest) = arp_reply ?h (nif_ip n) (nif_hwaddr n) @ drop 42 d"
          using lr(2) dd by (auto simp del: chain_data_simps)
        let ?s = "s1\<lparr>ebufs := m, frames := frames s1 @ [(netif, arp_reply ?h (nif_ip n) (nif_hwaddr n) @ drop 42 d)]\<rparr>"
        have "linkoutput netif p (s1\<lparr>ebufs := m\<rparr>) = Some (link_out s1 (length (frames s1)), ?s)"
          using linkoutput_chain [of "s1\<lparr>ebufs := m\<rparr>" p rest] m(3,4) o(3) by (simp del: chain_data_simps)
        moreover have "arp_inv slots H m (arp_table s1)" using d1(1) m(2) o(2) by (auto simp: eth_ok_def intro: arp_inv_hd_edit)
        then have "arp_step slots (H - set (p # rest)) H s1 ?s"
          using d1(1) hd_edit_keeps [OF m(2), of "(H - set (p # rest)) \<inter> H"] m(2) by (simp add: arp_step_def eth_ok_def hd_edit_def)
        ultimately show ?thesis using True m(1,3) an by (simp add: do_bufs_def)
      next
        case False
        then show ?thesis using an o1 d1(1) by (simp add: arp_step_def)
      qed
      then obtain s2 where s2: "(if ask then do {
                  s \<leftarrow> do_bufs (payload_write p 0 (arp_reply ?h (nif_ip n) (nif_hwaddr n))) s1;
                  (err, s) \<leftarrow> linkoutput netif p s;
                  Some s }
                else Some s1) = Some s2" "arp_step slots (H - set (p # rest)) H s1 s2" "arp_table s2 = arp_table s1"
          "etharp_cached_entry s2 = etharp_cached_entry s1" "frames s2 = frames s1 @ answers netif n d" "owned (ebufs s2) p (p # rest)" by blast
      note d2 = arp_stepD [OF s2(2)]
      from arp_step_free [OF d2(1) s2(6) o(2,3)] obtain s3 where s3: "free_pbuf p s2 = Some s3"
        "arp_step slots (H - set (p # rest)) (H - set (p # rest)) s2 s3" "arp_table s3 = arp_table s2" "frames s3 = frames s2"
        "etharp_cached_entry s3 = etharp_cached_entry s2" "\<forall>x \<in> set (p # rest). heap (ebufs s3) x = None" by blast
      have "etharp_arp_input netif (nif_hwaddr n) p s = Some s3"
      proof -
        have "etharp_arp_input netif (nif_hwaddr n) p s = do {
            s \<leftarrow> (if ask then do {
                  s \<leftarrow> do_bufs (payload_write p 0 (arp_reply ?h (nif_ip n) (nif_hwaddr n))) s1;
                  (err, s) \<leftarrow> linkoutput netif p s;
                  Some s }
                else Some s1);
            free_pbuf p s }"
          using b assms(2) rd long True s1(1) rd1
          by (simp add: etharp_arp_input_def sz arp_flags_def arp_for_us_def ask_def Let_def)
        then show ?thesis using s2(1) s3(1) by simp
      qed
      moreover have "arp_step slots (H - set (p # rest)) (H - set (p # rest)) s s3"
      proof -
        have "keeps (H - set (p # rest)) (ebufs s) (ebufs s1)" by (rule keeps_mono [OF k]) auto
        moreover have "keeps (H - set (p # rest)) (ebufs s1) (ebufs s2)" by (rule keeps_mono [OF d2(2)]) auto
        moreover have "keeps (H - set (p # rest)) (ebufs s2) (ebufs s3)" using arp_stepD(2) [OF s3(2)] by simp
        ultimately have "keeps (H - set (p # rest)) (ebufs s) (ebufs s3)" by (blast intro: keeps_trans)
        then show ?thesis using s1(2) s2(2) s3(2) by (auto simp: arp_step_def)
      qed
      ultimately show ?thesis using s1(1) s2(3-5) s3(3-6) b long True by auto
    qed
  qed
qed

section \<open>Receiving frames\<close>

text \<open>The part of a received packet behind its first bytes.\<close>

lemma pbuf_header_drop:
  assumes "owned m p (p # rest)" "heap m p = Some b" "0 < n" "n \<le> unat (p_len b)"
  shows "\<exists>m'. pbuf_header (Some p) (- int n) m = Some (0, m') \<and> hd_edit m m' p \<and> owned m' p (p # rest)
     \<and> chain_data m' (p # rest) = drop n (chain_data m (p # rest))"
proof -
  define b' where "b' = b\<lparr>p_payload := nat (int (p_payload b) - (- int n)), p_len := p_len b + of_int (- int n),
      p_tot_len := p_tot_len b + of_int (- int n)\<rparr>"
  let ?m = "m\<lparr>heap := (heap m)(p \<mapsto> b')\<rparr>"
  from assms(1,2) have m: "in_block m p b" "p \<notin> set rest"
    "unat (p_tot_len b) = length (buf_data m p) + length (chain_data m rest)"
    by (auto simp: owned_def exclusive_def)
  have len: "length (buf_data m p) = unat (p_len b)" using assms(2) m(1) by (rule buf_data_length)
  have nb: "n < 65536" using assms(4) u16_bound [of "p_len b"] by simp
  have sub: "unat (w + of_int (- int n) :: u16) = unat w - n" if "n \<le> unat w" for w
  proof -
    have "of_nat n \<le> w" using that nb by (simp add: word_le_nat_alt unat16_of_nat)
    then have "unat (w - of_nat n) = unat w - n" using nb by (simp add: unat_sub unat16_of_nat)
    then show ?thesis by simp
  qed
  have l: "unat (p_len b') = unat (p_len b) - n" "unat (p_tot_len b') = unat (p_tot_len b) - n"
    unfolding b'_def using sub assms(4) m(3) len by (simp_all del: of_int_minus)
  have f: "p_payload b' = p_payload b + n" "p_next b' = p_next b" "p_ref b' = p_ref b" "p_flags b' = p_flags b" "p_type b' = p_type b"
    by (simp_all add: b'_def nat_add_distrib)
  have run: "pbuf_header (Some p) (- int n) m = Some (0, ?m)"
  proof -
    have "int n \<le> int (unat (p_len b))" using assms(4) by (simp only: of_nat_le_iff)
    then have "\<not> int n > uint (p_len b)" by simp
    then show ?thesis using assms(2,3) by (auto simp: pbuf_header_def Let_def b'_def)
  qed
  have ed: "hd_edit m ?m p" using assms(2) f by (simp add: hd_edit_def)
  have ib: "in_block ?m p b'" using m(1) f l assms(4) by (simp add: in_block_def)
  have ow: "owned ?m p (p # rest)"
    by (rule hd_edit_owned [OF ed assms(1) _ ib]) (use m(3) len l assms(4) in simp_all)
  have "buf_data ?m p = drop n (buf_data m p)"
    using assms(2,4) f l m(1) by (simp add: buf_data_def drop_take add.commute)
  then have "chain_data ?m (p # rest) = drop n (chain_data m (p # rest))"
    using hd_edit_rest(2) [OF ed m(2)] len assms(4) by simp
  with run ed ow show ?thesis by blast
qed

text \<open>What the IP layer does with a packet: it frees it, and keeps the invariant and the buffers of others.\<close>

definition consumes :: "nat set \<Rightarrow> (nat \<Rightarrow> nat \<Rightarrow> 'a eth_scheme \<Rightarrow> 'a eth_scheme option) \<Rightarrow> bool" where
  "consumes slots f \<longleftrightarrow> (\<forall>H p rest netif n s. eth_ok slots H s \<longrightarrow> received_in (ebufs s) H p rest \<longrightarrow> netifs s netif = Some n \<longrightarrow>
     (\<exists>s'. f p netif s = Some s' \<and> arp_step slots (H - set (p # rest)) (H - set (p # rest)) s s'
        \<and> (\<forall>x \<in> set (p # rest). heap (ebufs s') x = None)))"

lemma set_flags_step:
  assumes "eth_ok slots H s" "received_in (ebufs s) H p rest" "heap (ebufs s) p = Some b" "f AND PBUF_FLAG_IS_CUSTOM = 0"
  shows "\<exists>m. do_bufs (upd p (\<lambda>b. b\<lparr>p_flags := p_flags b OR f\<rparr>)) s = Some (s\<lparr>ebufs := m\<rparr>)
     \<and> arp_step slots (H - {p}) H s (s\<lparr>ebufs := m\<rparr>) \<and> received_in m H p rest \<and> chain_data m (p # rest) = chain_data (ebufs s) (p # rest)
     \<and> heap m p = Some (b\<lparr>p_flags := p_flags b OR f\<rparr>) \<and> keeps (- {p}) (ebufs s) m"
proof -
  let ?b = "b\<lparr>p_flags := p_flags b OR f\<rparr>"
  let ?m = "(ebufs s)\<lparr>heap := (heap (ebufs s))(p \<mapsto> ?b)\<rparr>"
  have o: "owned (ebufs s) p (p # rest)" "set (p # rest) \<subseteq> H" using assms(2) by (simp_all add: received_in_def)
  have nc: "(p_flags b OR f) AND PBUF_FLAG_IS_CUSTOM = 0"
  proof -
    have "p_flags b AND PBUF_FLAG_IS_CUSTOM = 0" using o(1) assms(3) by (auto simp: owned_def exclusive_def not_custom_def)
    then show ?thesis using assms(4) by (simp add: bit.conj_disj_distrib2)
  qed
  have pr: "p \<notin> set rest" using o(1) by (auto simp: owned_def exclusive_def)
  have h: "heap ?m x = heap (ebufs s) x" if "x \<noteq> p" for x using that by simp
  have ch: "pchain ?m q rest = pchain (ebufs s) q rest" "chain_data ?m rest = chain_data (ebufs s) rest" for q
    by (rule pchain_upd chain_data_upd; use pr in auto)+
  have bd: "buf_data ?m p = buf_data (ebufs s) p" using assms(3) by (simp add: buf_data_def)
  have "keeps (set rest) (ebufs s) ?m" using pr by (auto simp: keeps_def)
  from keeps_chain(3) [OF this subset_refl] have tl: "tot_lens ?m 0 rest = tot_lens (ebufs s) 0 rest" .
  have ow: "owned ?m p (p # rest)"
    using o(1) ch bd tl assms(3) nc pr
    by (auto simp: owned_def exclusive_def ref_one_def not_custom_def in_block_def split: option.splits)
  have "dom (heap ?m) = dom (heap (ebufs s))" using assms(3) by auto
  moreover have inv: "arp_inv slots H (ebufs s) (arp_table s)" using assms(1) by (simp add: eth_ok_def)
  moreover have "pool_ok slots ?m"
  proof -
    have "of_type ?m T x = of_type (ebufs s) T x" for T x using assms(3) by (simp add: of_type_def)
    moreover have "p \<notin> set (pool (ebufs s))" using inv assms(3) by (auto simp: arp_inv_def pool_ok_def)
    ultimately show ?thesis using inv by (auto simp: arp_inv_def pool_ok_def)
  qed
  moreover have "p \<notin> queued (arp_table s)" using o(2) inv by (auto simp: arp_inv_def)
  ultimately have "arp_inv slots H ?m (arp_table s)"
    by (intro arp_inv_mem [OF inv]) (auto simp: arp_inv_def fresh_ram_def keeps_def)
  then have "arp_step slots (H - {p}) H s (s\<lparr>ebufs := ?m\<rparr>)" using assms(1) by (auto simp: arp_step_def eth_ok_def keeps_def)
  moreover have "chain_data ?m (p # rest) = chain_data (ebufs s) (p # rest)" using bd ch(2) by simp
  ultimately show ?thesis using ow o(2) assms(2,3)
    by (intro exI [of _ ?m]) (simp add: do_bufs_def upd_def received_in_def keeps_def del: chain_data_simps)
qed

lemma ll_flags_custom: "ll_flags d AND PBUF_FLAG_IS_CUSTOM = 0"
  by (simp add: ll_flags_def PBUF_FLAG_IS_CUSTOM_def PBUF_FLAG_LLBCAST_def PBUF_FLAG_LLMCAST_def)

lemma arp_step_then:
  assumes "arp_step slots (H - {p}) H s s1" "arp_step slots (H - set (p # rest)) (H - set (p # rest)) s1 s2"
  shows "arp_step slots (H - set (p # rest)) (H - set (p # rest)) s s2"
proof -
  have "keeps (H - set (p # rest)) (ebufs s) (ebufs s1)" using arp_stepD(2) [OF assms(1)] by (rule keeps_mono) auto
  moreover have "keeps (H - set (p # rest)) (ebufs s1) (ebufs s2)" using arp_stepD(2) [OF assms(2)] by simp
  ultimately have "keeps (H - set (p # rest)) (ebufs s) (ebufs s2)" by (rule keeps_trans)
  then show ?thesis using assms by (auto simp: arp_step_def)
qed

lemma ethernet_input_step:
  assumes "eth_ok slots H s" "netifs s netif = Some n" "received_in (ebufs s) H p rest" "d = chain_data (ebufs s) (p # rest)"
    and "consumes slots ip_input"
  shows "\<exists>s'. ethernet_input ip_input p netif s = Some (ERR_OK, s') \<and> arp_step slots (H - set (p # rest)) (H - set (p # rest)) s s'
     \<and> (\<forall>x \<in> set (p # rest). heap (ebufs s') x = None)
     \<and> (\<forall>b. heap (ebufs s) p = Some b \<longrightarrow> 14 < unat (p_len b) \<longrightarrow> of_le16 (hdr_field d 12 2) = htons ETHTYPE_ARP
          \<longrightarrow> nif_flags n AND NETIF_FLAG_ETHARP \<noteq> 0
          \<longrightarrow> (\<exists>m. arp_step slots (H - {p}) H s (s\<lparr>ebufs := m\<rparr>) \<and> received_in m H p rest \<and> chain_data m (p # rest) = d
                \<and> keeps (- {p}) (ebufs s) m \<and> map_option p_len (heap m p) = Some (p_len b) \<and> etharp_arp_input netif (nif_hwaddr n) p (s\<lparr>ebufs := m\<rparr>) = Some s'))"
proof -
  have o: "owned (ebufs s) p (p # rest)" "set (p # rest) \<subseteq> H" "length (p # rest) \<le> chain_fuel"
    using assms(3) by (simp_all add: received_in_def)
  from o(1) obtain b where b: "heap (ebufs s) p = Some b" by (auto simp: owned_def exclusive_def split: option.splits)
  have sz: "SIZEOF_ETH_HDR = 14" by (simp add: SIZEOF_ETH_HDR_def)
  show ?thesis
  proof (cases "unat (p_len b) \<le> 14")
    case True
    then have "ethernet_input ip_input p netif s = do { s \<leftarrow> free_pbuf p s; Some (ERR_OK, s) }"
      using b by (simp add: ethernet_input_def sz)
    then show ?thesis using arp_step_free [OF assms(1) o] b True by auto
  next
    case long: False
    have rd: "payload_read p 0 14 (ebufs s) = Some (take 14 d)" and ld: "14 \<le> length d"
      using payload_read_chain [OF o(1) b, of 14] long assms(4) by (simp_all del: chain_data_simps)
    let ?f = "ll_flags (hdr_field (take 14 d) 0 6)"
    from set_flags_step [OF assms(1,3) b ll_flags_custom] obtain m where
      m: "do_bufs (upd p (\<lambda>b. b\<lparr>p_flags := p_flags b OR ?f\<rparr>)) s = Some (s\<lparr>ebufs := m\<rparr>)" "arp_step slots (H - {p}) H s (s\<lparr>ebufs := m\<rparr>)"
        "received_in m H p rest" "chain_data m (p # rest) = d" "heap m p = Some (b\<lparr>p_flags := p_flags b OR ?f\<rparr>)"
        "keeps (- {p}) (ebufs s) m"
      using assms(4) by blast
    let ?s = "s\<lparr>ebufs := m\<rparr>"
    note d1 = arp_stepD [OF m(2)]
    have n1: "netifs ?s netif = Some n" "received_in (ebufs ?s) H p rest" using assms(2) m(3) by simp_all
    have om: "owned (ebufs ?s) p (p # rest)" using m(3) by (simp add: received_in_def)
    have ty: "hdr_field (take 14 d) 12 2 = hdr_field d 12 2" using ld by (simp add: hdr_field_def drop_take)
    have et: "htons ETHTYPE_ARP \<noteq> htons ETHTYPE_IP" by (simp add: ETHTYPE_ARP_def ETHTYPE_IP_def htons_def)
    have run: "ethernet_input ip_input p netif s = do { s \<leftarrow>
            (if of_le16 (hdr_field d 12 2) = htons ETHTYPE_IP then
              (if nif_flags n AND NETIF_FLAG_ETHARP = 0 then free_pbuf p ?s
               else do {
                 (r, s) \<leftarrow> on_bufs (pbuf_header (Some p) (- int SIZEOF_ETH_HDR)) ?s;
                 if r \<noteq> 0 then free_pbuf p s else ip_input p netif s })
            else if of_le16 (hdr_field d 12 2) = htons ETHTYPE_ARP then
              (if nif_flags n AND NETIF_FLAG_ETHARP = 0 then free_pbuf p ?s
               else etharp_arp_input netif (nif_hwaddr n) p ?s)
            else free_pbuf p ?s); Some (ERR_OK, s) }"
      using b long rd assms(2) m(1) by (simp add: ethernet_input_def sz ty)
    have fin: "?thesis" if "ethernet_input ip_input p netif s = do { s \<leftarrow> g; Some (ERR_OK, s) }" "g = Some s'"
        "arp_step slots (H - set (p # rest)) (H - set (p # rest)) ?s s'" "\<forall>x \<in> set (p # rest). heap (ebufs s') x = None"
        "of_le16 (hdr_field d 12 2) = htons ETHTYPE_ARP \<longrightarrow> nif_flags n AND NETIF_FLAG_ETHARP \<noteq> 0 \<longrightarrow> etharp_arp_input netif (nif_hwaddr n) p ?s = Some s'"
        for g s'
      using that arp_step_then [OF m(2) that(3)] m(2-6) b by (intro exI [of _ s']) auto
    from arp_step_free [OF d1(1) om o(2,3)] obtain sf where
      sf: "free_pbuf p ?s = Some sf" "arp_step slots (H - set (p # rest)) (H - set (p # rest)) ?s sf" "\<forall>x \<in> set (p # rest). heap (ebufs sf) x = None"
      by blast
    consider (arp) "of_le16 (hdr_field d 12 2) = htons ETHTYPE_ARP" "nif_flags n AND NETIF_FLAG_ETHARP \<noteq> 0"
      | (ip) "of_le16 (hdr_field d 12 2) = htons ETHTYPE_IP" "nif_flags n AND NETIF_FLAG_ETHARP \<noteq> 0"
      | (free) "nif_flags n AND NETIF_FLAG_ETHARP = 0 \<or> of_le16 (hdr_field d 12 2) \<noteq> htons ETHTYPE_ARP \<and> of_le16 (hdr_field d 12 2) \<noteq> htons ETHTYPE_IP"
      by blast
    then show ?thesis
    proof cases
      case arp
      from etharp_arp_input_step [OF d1(1) n1 refl] obtain s' where s': "etharp_arp_input netif (nif_hwaddr n) p ?s = Some s'"
        "arp_step slots (H - set (p # rest)) (H - set (p # rest)) ?s s'" "\<forall>x \<in> set (p # rest). heap (ebufs s') x = None" by blast
      show ?thesis by (rule fin [OF _ s'(1-3)]) (use arp et s'(1) in \<open>simp_all add: run\<close>)
    next
      case ip
      have "14 \<le> unat (p_len (b\<lparr>p_flags := p_flags b OR ?f\<rparr>))" using long by simp
      from pbuf_header_drop [OF om _ _ this] m(5) obtain m2 where m2: "pbuf_header (Some p) (- int 14) m = Some (0, m2)" "hd_edit m m2 p"
        "owned m2 p (p # rest)" by auto
      let ?s2 = "s\<lparr>ebufs := m2\<rparr>"
      have pH: "p \<in> H" using o(2) by simp
      have "arp_inv slots H m2 (arp_table s)" using d1(1) m2(2) pH by (auto simp: eth_ok_def intro: arp_inv_hd_edit)
      then have st: "arp_step slots (H - {p}) H ?s ?s2"
        using d1(1) hd_edit_keeps [OF m2(2), of "(H - {p}) \<inter> H"] m2(2) by (simp add: arp_step_def eth_ok_def hd_edit_def)
      have ri: "received_in (ebufs ?s2) H p rest" using m2(3) o(2,3) by (simp add: received_in_def)
      from assms(5) arp_stepD(1) [OF st] ri n1(1) obtain s' where s': "ip_input p netif ?s2 = Some s'"
        "arp_step slots (H - set (p # rest)) (H - set (p # rest)) ?s2 s'" "\<forall>x \<in> set (p # rest). heap (ebufs s') x = None"
        unfolding consumes_def by (metis (no_types, lifting) eth.select_convs(2) eth.surjective eth.update_convs(1))
      show ?thesis
        by (rule fin [OF _ _ arp_step_then [OF st s'(2)] s'(3)])
          (use ip et s'(1) m2(1) in \<open>simp_all add: run on_bufs_def sz\<close>)
    next
      case free
      show ?thesis by (rule fin [OF _ sf]) (use free in \<open>auto simp: run\<close>)
    qed
  qed
qed

end
