(* ===== verification/Arp_Events.thy ===== *)
theory Arp_Events
  imports Arp_Input
begin

text \<open>
  The rest of the interface of \<open>Etharp\<close> as steps of the invariant: the timer and what it does to an entry,
  the administration of the table, and the traffic from outside as a list of events. \<open>new_packet\<close> is the
  buffer a driver or a sender fills.
\<close>

section \<open>The timer\<close>

text \<open>What a tick does to an entry.\<close>

definition aged :: "etharp_entry \<Rightarrow> etharp_entry" where
  "aged e = (if is_empty e \<or> ae_state e = ETHARP_STATE_STATIC then e
     else (let e = e\<lparr>ae_ctime := ae_ctime e + 1\<rparr> in
       if ARP_MAXAGE \<le> ae_ctime e \<or> ae_state e = ETHARP_STATE_PENDING \<and> ARP_MAXPENDING \<le> ae_ctime e
       then e\<lparr>ae_q := None, ae_state := ETHARP_STATE_EMPTY\<rparr>
       else if ae_state e = ETHARP_STATE_STABLE_REREQUESTING then e\<lparr>ae_state := ETHARP_STATE_STABLE\<rparr> else e))"

lemma tmr_entry_step:
  assumes "eth_ok slots H s" "i < ARP_TABLE_SIZE"
  shows "\<exists>s'. tmr_entry i s = Some s' \<and> arp_step slots H H s s' \<and> arp_table s' = (arp_table s)[i := aged (entry i s)]
     \<and> frames s' = frames s \<and> etharp_cached_entry s' = etharp_cached_entry s"
proof (cases "is_empty (entry i s) \<or> ae_state (entry i s) = ETHARP_STATE_STATIC")
  case True
  then have "tmr_entry i s = Some s" "aged (entry i s) = entry i s" by (auto simp: tmr_entry_def aged_def is_empty_def)
  then show ?thesis using arp_step_refl [OF assms(1)] by (simp add: entry_def)
next
  case False
  let ?f = "\<lambda>e. e\<lparr>ae_ctime := ae_ctime e + 1\<rparr>"
  let ?s = "upd_entry i ?f s"
  have i: "i < length (arp_table s)" using assms eth_ok_table [OF assms(1)] by simp
  have eo: "entry_ok (ebufs s) (entry i s)" using assms by (rule eth_ok_entry)
  have d: "\<forall>j < ARP_TABLE_SIZE. j \<noteq> i \<longrightarrow> \<not> is_empty (entry j s) \<longrightarrow> ae_ipaddr (entry j s) \<noteq> ae_ipaddr (entry i s)"
    using eth_ok_distinct [OF assms(1) _ assms(2)] False by blast
  have u: "arp_step slots H H s (upd_entry i g s)"
    if "ae_q (g (entry i s)) = ae_q (entry i s)" "ae_ethaddr (g (entry i s)) = ae_ethaddr (entry i s)"
      "ae_ipaddr (g (entry i s)) = ae_ipaddr (entry i s)"
      "ae_state (g (entry i s)) = ae_state (entry i s) \<or> ae_q (entry i s) = None \<and> ETHARP_STATE_STABLE \<le> ae_state (entry i s)" for g
  proof (rule upd_entry_step [OF assms(1,2)])
    show "entry_ok (ebufs s) (g (entry i s))" using eo that by (auto simp: entry_ok_def split: option.splits)
  qed (use that d in auto)
  have st: "arp_step slots H H s ?s" by (rule u) simp_all
  show ?thesis
  proof (cases "ARP_MAXAGE \<le> ae_ctime (entry i ?s) \<or> ae_state (entry i ?s) = ETHARP_STATE_PENDING \<and> ARP_MAXPENDING \<le> ae_ctime (entry i ?s)")
    case expired: True
    from etharp_free_entry_step [OF arp_stepD(1) [OF st] assms(2)] obtain s' where s': "etharp_free_entry i ?s = Some s'"
      "arp_step slots H H ?s s'" "arp_table s' = (arp_table ?s)[i := (entry i ?s)\<lparr>ae_q := None, ae_state := ETHARP_STATE_EMPTY\<rparr>]"
      "frames s' = frames ?s" "etharp_cached_entry s' = etharp_cached_entry ?s" by blast
    have "tmr_entry i s = Some s'" using False expired s'(1) by (simp add: tmr_entry_def Let_def is_empty_def)
    moreover have "arp_step slots H H s s'" by (rule arp_step_trans [OF st s'(2)]) simp
    moreover have "aged (entry i s) = (entry i ?s)\<lparr>ae_q := None, ae_state := ETHARP_STATE_EMPTY\<rparr>"
      using False expired i by (simp add: aged_def Let_def)
    ultimately show ?thesis using s' by simp
  next
    case young: False
    show ?thesis
    proof (cases "ae_state (entry i s) = ETHARP_STATE_STABLE_REREQUESTING")
      case True
      then have q: "ae_q (entry i s) = None" using eo by (auto simp: entry_ok_def split: option.splits)
      let ?g = "(\<lambda>e. e\<lparr>ae_state := ETHARP_STATE_STABLE\<rparr>) \<circ> ?f"
      have "tmr_entry i s = Some (upd_entry i ?g s)"
        using True young i by (simp add: tmr_entry_def Let_def)
      moreover have "arp_step slots H H s (upd_entry i ?g s)"
        by (rule u) (use q True in \<open>simp_all add: less_eq_etharp_state_def\<close>)
      moreover have "aged (entry i s) = ?g (entry i s)"
        using False True young i by (simp add: aged_def Let_def)
      ultimately show ?thesis by simp
    next
      case other: False
      have "tmr_entry i s = Some ?s" using False young other i by (auto simp: tmr_entry_def Let_def is_empty_def)
      moreover have "aged (entry i s) = ?f (entry i s)" using False young other i by (auto simp: aged_def Let_def)
      ultimately show ?thesis using st by simp
    qed
  qed
qed

lemma tmr_entries_step:
  assumes "eth_ok slots H s" "k \<le> ARP_TABLE_SIZE"
  shows "\<exists>s'. for_entries tmr_entry [k..<ARP_TABLE_SIZE] s = Some s' \<and> arp_step slots H H s s'
     \<and> frames s' = frames s \<and> etharp_cached_entry s' = etharp_cached_entry s
     \<and> (\<forall>i < ARP_TABLE_SIZE. entry i s' = (if i < k then entry i s else aged (entry i s)))"
  using assms
proof (induction "ARP_TABLE_SIZE - k" arbitrary: k s)
  case 0
  then show ?case using arp_step_refl [OF 0(2)] by simp
next
  case (Suc n)
  then have k: "k < ARP_TABLE_SIZE" by simp
  from tmr_entry_step [OF Suc.prems(1) k] obtain s1 where s1: "tmr_entry k s = Some s1" "arp_step slots H H s s1"
    "arp_table s1 = (arp_table s)[k := aged (entry k s)]" "frames s1 = frames s" "etharp_cached_entry s1 = etharp_cached_entry s" by blast
  have e: "entry i s1 = (if i = k then aged (entry i s) else entry i s)" if "i < ARP_TABLE_SIZE" for i
    using s1(3) that eth_ok_table [OF Suc.prems(1)] by (simp add: entry_def nth_list_update)
  have "n = ARP_TABLE_SIZE - Suc k" "Suc k \<le> ARP_TABLE_SIZE" using Suc.hyps(2) k by linarith+
  from Suc.hyps(1) [OF this(1) arp_stepD(1) [OF s1(2)] this(2)] obtain s2 where
    s2: "for_entries tmr_entry [Suc k..<ARP_TABLE_SIZE] s1 = Some s2" "arp_step slots H H s1 s2" "frames s2 = frames s1"
      "etharp_cached_entry s2 = etharp_cached_entry s1"
      "\<forall>i < ARP_TABLE_SIZE. entry i s2 = (if i < Suc k then entry i s1 else aged (entry i s1))"
    by blast
  have "for_entries tmr_entry [k..<ARP_TABLE_SIZE] s = Some s2"
    using s1(1) s2(1) k by (simp add: upt_conv_Cons)
  moreover have "arp_step slots H H s s2" by (rule arp_step_trans [OF s1(2) s2(2)]) simp
  ultimately show ?case using s1(4,5) s2(3-5) e by (auto simp: less_Suc_eq)
qed

lemma etharp_tmr_step:
  assumes "eth_ok slots H s"
  shows "\<exists>s'. etharp_tmr s = Some s' \<and> arp_step slots H H s s' \<and> frames s' = frames s
     \<and> etharp_cached_entry s' = etharp_cached_entry s \<and> (\<forall>i < ARP_TABLE_SIZE. entry i s' = aged (entry i s))"
  using tmr_entries_step [OF assms, of 0] by (simp add: etharp_tmr_def)

section \<open>Administration\<close>

lemma etharp_add_static_step:
  assumes "eth_ok slots H s" "length ethaddr = 6"
  shows "\<exists>r s'. etharp_add_static_entry ip ethaddr s = Some (r, s') \<and> arp_step slots H H s s'"
proof (cases "eth_route ip s")
  case None
  then show ?thesis using arp_step_refl [OF assms(1)] by (simp add: etharp_add_static_entry_def)
next
  case (Some netif)
  then have "\<exists>n. netifs s netif = Some n"
    by (auto simp: eth_route_def find_Some_iff split: option.splits if_splits)
  then obtain n where "netifs s netif = Some n" ..
  from etharp_update_any [OF assms(1) this assms(2), of ip "ETHARP_FLAG_TRY_HARD OR ETHARP_FLAG_STATIC_ENTRY"] Some
  show ?thesis by (simp add: etharp_add_static_entry_def)
qed

lemma etharp_find_entry_index:
  assumes "eth_ok slots H s"
  shows "\<exists>r s'. etharp_find_entry (Some ip) flags s = Some (r, s') \<and> arp_step slots H H s s' \<and> (\<forall>i. r = Inr i \<longrightarrow> i < ARP_TABLE_SIZE)"
  using etharp_find_entry_step [OF assms, of ip flags] by (elim exE conjE) (intro exI conjI, assumption, assumption, auto)

lemma etharp_remove_static_step:
  assumes "eth_ok slots H s"
  shows "\<exists>r s'. etharp_remove_static_entry ip s = Some (r, s') \<and> arp_step slots H H s s'"
proof -
  from etharp_find_entry_index [OF assms, of ip ETHARP_FLAG_FIND_ONLY] obtain r s1 where
    s1: "etharp_find_entry (Some ip) ETHARP_FLAG_FIND_ONLY s = Some (r, s1)" "arp_step slots H H s s1" "\<forall>i. r = Inr i \<longrightarrow> i < ARP_TABLE_SIZE"
    by blast
  show ?thesis
  proof (cases r)
    case (Inl err)
    then show ?thesis using s1 by (simp add: etharp_remove_static_entry_def)
  next
    case (Inr i)
    show ?thesis
    proof (cases "ae_state (entry i s1) = ETHARP_STATE_STATIC")
      case True
      from etharp_free_entry_step [OF arp_stepD(1) [OF s1(2)], of i] s1(3) Inr obtain s2 where
        "etharp_free_entry i s1 = Some s2" "arp_step slots H H s1 s2" by auto
      then show ?thesis using True Inr s1(1) arp_step_trans [OF s1(2), of H s2] by (simp add: etharp_remove_static_entry_def)
    next
      case False
      then show ?thesis using Inr s1(1,2) by (simp add: etharp_remove_static_entry_def)
    qed
  qed
qed

lemma etharp_cleanup_step:
  assumes "eth_ok slots H s"
  shows "\<exists>s'. etharp_cleanup_netif netif s = Some s' \<and> arp_step slots H H s s'"
  unfolding etharp_cleanup_netif_def
proof (rule for_entries_step [OF _ assms])
  fix i and s :: "'a eth_scheme"
  assume "eth_ok slots H s" "i \<in> set [0..<ARP_TABLE_SIZE]"
  then show "\<exists>s'. (if ae_state (entry i s) \<noteq> ETHARP_STATE_EMPTY \<and> ae_netif (entry i s) = Some netif then etharp_free_entry i s else Some s) = Some s'
     \<and> arp_step slots H H s s'"
    using etharp_free_entry_step [of slots H s i] arp_step_refl [of slots H s] by auto
qed

section \<open>New packets\<close>

text \<open>A packet of the data \<open>d\<close> in one buffer of the pool, as \<open>usb_polling\<close> makes it of a received frame.\<close>

definition new_packet :: "pbuf_layer \<Rightarrow> bytes \<Rightarrow> 'a eth_scheme \<Rightarrow> (nat option \<times> 'a eth_scheme) option" where
  "new_packet layer d s = do {
     (p, s) \<leftarrow> on_bufs (pbuf_alloc layer (of_nat (length d)) PBUF_POOL) s;
     case p of None \<Rightarrow> Some (None, s)
     | Some p \<Rightarrow> do { s \<leftarrow> do_bufs (payload_write p 0 d) s; Some (Some p, s) } }"

lemma arp_inv_pending: "arp_inv slots H m T \<Longrightarrow> arp_inv slots H (m\<lparr>pbuf_free_ooseq_pending := x\<rparr>) T"
  by (rule arp_inv_mem [of slots H m T]) (simp_all add: arp_inv_def fresh_ram_def keeps_def)

lemma new_packet_step:
  assumes "eth_ok slots H s" "LWIP_MEM_ALIGN_SIZE (layer_offset layer) + length d \<le> 1516"
  shows "\<exists>r s'. new_packet layer d s = Some (r, s') \<and> arp_table s' = arp_table s \<and> frames s' = frames s
     \<and> etharp_cached_entry s' = etharp_cached_entry s \<and> (case r of
       None \<Rightarrow> pool (ebufs s) = [] \<and> arp_step slots H H s s'
     | Some p \<Rightarrow> p \<notin> H \<and> arp_step slots H (insert p H) s s' \<and> received_in (ebufs s') (insert p H) p [] \<and> chain_data (ebufs s') [p] = d
         \<and> (\<exists>b. heap (ebufs s') p = Some b \<and> p_payload b = LWIP_MEM_ALIGN_SIZE (layer_offset layer) \<and> unat (p_len b) = length d
               \<and> p_type b = PBUF_POOL) \<and> keeps (- {p}) (ebufs s) (ebufs s'))"
proof (cases "pool (ebufs s)")
  case Nil
  have "arp_inv slots H (ebufs s\<lparr>pbuf_free_ooseq_pending := True\<rparr>) (arp_table s)"
    by (rule arp_inv_pending) (use assms(1) in \<open>simp add: eth_ok_def\<close>)
  then show ?thesis using Nil assms(1) pbuf_alloc_empty [OF Nil]
    by (simp add: new_packet_def on_bufs_def arp_step_def eth_ok_def keeps_def)
next
  case (Cons q qs)
  let ?m = "ebufs s" and ?o = "LWIP_MEM_ALIGN_SIZE (layer_offset layer)" and ?n = "of_nat (length d) :: u16"
  have inv: "arp_inv slots H ?m (arp_table s)" using assms(1) by (simp add: eth_ok_def)
  then have po: "pool_ok slots ?m" by (simp add: arp_inv_def)
  have un: "unat ?n = length d" using assms(2) by (simp add: unat16_of_nat)
  define b where "b = \<lparr>p_next = None, p_payload = ?o, p_tot_len = ?n, p_len = ?n, p_type = PBUF_POOL, p_flags = 0, p_ref = 1\<rparr>"
  have len: "length (blk ?m q) = 1516" using po Cons by (auto simp: pool_ok_def PBUF_POOL_BUFSIZE_ALIGNED_def)
  define m1 where "m1 = ?m\<lparr>pool := qs, heap := (heap ?m)(q \<mapsto> b)\<rparr>"
  define m2 where "m2 = m1\<lparr>blk := (blk ?m)(q := take ?o (blk ?m q) @ d @ drop (?o + length d) (blk ?m q))\<rparr>"
  have "min (length d) (PBUF_POOL_BUFSIZE_ALIGNED - ?o) = length d" using assms(2) by (simp add: PBUF_POOL_BUFSIZE_ALIGNED_def)
  then have al: "pbuf_alloc layer ?n PBUF_POOL ?m = Some (Some q, m1)"
    by (simp add: pbuf_alloc_def Let_def memp_malloc_pool_def Cons un m1_def b_def chain_fuel_def)
  have wr: "payload_write q 0 d m1 = Some m2"
    using len assms(2) by (simp add: payload_write_def m1_def m2_def b_def wr_at_Some)
  have ib: "in_block m2 q b" using len un assms(2) by (simp add: in_block_def m2_def b_def)
  have bd: "buf_data m2 q = d" using un len assms(2) by (simp add: buf_data_def m2_def m1_def b_def)
  have hq: "heap m2 q = Some b" by (simp add: m2_def m1_def)
  have "p_next b = None" "p_ref b = 1" "p_flags b = 0" "unat (p_tot_len b) = length d" by (simp_all add: b_def un)
  then have ow: "owned m2 q [q]" using hq ib bd by (simp add: owned_def exclusive_def ref_one_def not_custom_def)
  have nq: "heap ?m q = None" using po Cons by (auto simp: pool_ok_def)
  then have qH: "q \<notin> H \<union> queued (arp_table s)" using inv by (auto simp: arp_inv_def)
  have "pool_ok slots (set_pool qs ?m\<lparr>heap := (heap ?m)(q \<mapsto> b)\<rparr>)" by (rule pool_ok_first [OF po Cons]) (simp add: b_def)
  moreover have "set_pool qs ?m\<lparr>heap := (heap ?m)(q \<mapsto> b)\<rparr> = m1" by (simp add: m1_def set_pool_def)
  ultimately have p1: "pool_ok slots m1" by simp
  have p2: "pool_ok slots m2" by (rule pool_ok_same [OF p1]) (use len assms(2) in \<open>simp_all add: m2_def m1_def\<close>)
  have "arp_inv slots (insert q H) m2 (arp_table s)"
  proof (rule arp_inv_mem [OF inv p2])
    show "fresh_ram slots m2" by (rule fresh_ram_same [of slots ?m]) (use inv in \<open>simp_all add: arp_inv_def m2_def m1_def\<close>)
    show "keeps (queued (arp_table s)) ?m m2" using qH by (auto simp: keeps_def m2_def m1_def)
    show "dom (heap m2) = insert q H \<union> queued (arp_table s)" using inv by (auto simp: arp_inv_def m2_def m1_def)
    show "insert q H \<inter> queued (arp_table s) = {}" "finite (insert q H)" using inv qH by (auto simp: arp_inv_def)
  qed
  moreover have "keeps (H \<inter> insert q H) ?m m2" using qH by (auto simp: keeps_def m2_def m1_def)
  ultimately have "arp_step slots H (insert q H) s (s\<lparr>ebufs := m2\<rparr>)"
    using assms(1) by (simp add: arp_step_def eth_ok_def m2_def m1_def)
  moreover have "new_packet layer d s = Some (Some q, s\<lparr>ebufs := m2\<rparr>)"
    by (simp add: new_packet_def on_bufs_def do_bufs_def al wr)
  moreover have "received_in m2 (insert q H) q []" using ow by (simp add: received_in_def chain_fuel_def)
  moreover have "p_payload b = ?o" "unat (p_len b) = length d" "p_type b = PBUF_POOL" using un by (simp_all add: b_def)
  moreover have "keeps (- {q}) ?m m2" by (simp add: keeps_def m2_def m1_def)
  ultimately show ?thesis using qH bd hq
    by (intro exI [of _ "Some q"] exI [of _ "s\<lparr>ebufs := m2\<rparr>"]) simp
qed

section \<open>Events\<close>

text \<open>What reaches the layer from outside: a received frame, a packet to send, the timer and the administration.\<close>

datatype eth_event = Frame nat bytes | Packet nat u32 bytes | Tick | Add_Static u32 bytes | Remove_Static u32 | Cleanup nat

definition frame_in :: "(nat \<Rightarrow> nat \<Rightarrow> 'a eth_scheme \<Rightarrow> 'a eth_scheme option) \<Rightarrow> nat \<Rightarrow> bytes \<Rightarrow> 'a eth_scheme \<Rightarrow> 'a eth_scheme option" where
  "frame_in ip_input netif d s = do {
     (p, s) \<leftarrow> new_packet PBUF_RAW d s;
     case p of None \<Rightarrow> Some s
     | Some p \<Rightarrow> do { (e, s) \<leftarrow> ethernet_input ip_input p netif s; Some s } }"

definition packet_out :: "nat \<Rightarrow> u32 \<Rightarrow> bytes \<Rightarrow> 'a eth_scheme \<Rightarrow> 'a eth_scheme option" where
  "packet_out netif ip d s = do {
     (p, s) \<leftarrow> new_packet PBUF_LINK d s;
     case p of None \<Rightarrow> Some s
     | Some p \<Rightarrow> do { (e, s) \<leftarrow> etharp_output netif p ip s; free_pbuf p s } }"

fun eth_do :: "(nat \<Rightarrow> nat \<Rightarrow> 'a eth_scheme \<Rightarrow> 'a eth_scheme option) \<Rightarrow> eth_event \<Rightarrow> 'a eth_scheme \<Rightarrow> 'a eth_scheme option" where
  "eth_do ip_input (Frame netif d) s = frame_in ip_input netif d s"
| "eth_do ip_input (Packet netif ip d) s = packet_out netif ip d s"
| "eth_do ip_input Tick s = etharp_tmr s"
| "eth_do ip_input (Add_Static ip mac) s = map_option snd (etharp_add_static_entry ip mac s)"
| "eth_do ip_input (Remove_Static ip) s = map_option snd (etharp_remove_static_entry ip s)"
| "eth_do ip_input (Cleanup netif) s = etharp_cleanup_netif netif s"

fun eth_run :: "(nat \<Rightarrow> nat \<Rightarrow> 'a eth_scheme \<Rightarrow> 'a eth_scheme option) \<Rightarrow> eth_event list \<Rightarrow> 'a eth_scheme \<Rightarrow> 'a eth_scheme option" where
  "eth_run ip_input [] s = Some s"
| "eth_run ip_input (ev # evs) s = do { s \<leftarrow> eth_do ip_input ev s; eth_run ip_input evs s }"

text \<open>Frames and packets of an interface that exists, not longer than the driver's buffer.\<close>

fun event_ok :: "(nat \<Rightarrow> eth_netif option) \<Rightarrow> eth_event \<Rightarrow> bool" where
  "event_ok ifs (Frame netif d) = (ifs netif \<noteq> None \<and> length d \<le> 1514)"
| "event_ok ifs (Packet netif ip d) = (ifs netif \<noteq> None \<and> length d \<le> 1500)"
| "event_ok ifs (Add_Static ip mac) = (length mac = 6)"
| "event_ok ifs ev = True"

lemma layer_offsets: "LWIP_MEM_ALIGN_SIZE (layer_offset PBUF_RAW) = 0" "LWIP_MEM_ALIGN_SIZE (layer_offset PBUF_LINK) = 16"
  by (simp_all add: layer_offset_def LWIP_MEM_ALIGN_SIZE_def PBUF_LINK_HLEN_def)

lemma received_frame:
  assumes "eth_ok slots H s" "length d \<le> 1514"
  obtains (dropped) s1 where "pool (ebufs s) = []" "new_packet PBUF_RAW d s = Some (None, s1)" "arp_step slots H H s s1" "arp_table s1 = arp_table s" "frames s1 = frames s"
  | (taken) p s1 b where "new_packet PBUF_RAW d s = Some (Some p, s1)" "arp_step slots H (insert p H) s s1" "p \<notin> H" "arp_table s1 = arp_table s"
      "frames s1 = frames s" "etharp_cached_entry s1 = etharp_cached_entry s"
      "received_in (ebufs s1) (insert p H) p []" "chain_data (ebufs s1) [p] = d" "heap (ebufs s1) p = Some b" "unat (p_len b) = length d"
      "keeps (- {p}) (ebufs s) (ebufs s1)"
proof -
  have "LWIP_MEM_ALIGN_SIZE (layer_offset PBUF_RAW) + length d \<le> 1516" using assms(2) by (simp add: layer_offsets)
  from new_packet_step [OF assms(1) this] obtain r s1 where s1: "new_packet PBUF_RAW d s = Some (r, s1)" "arp_table s1 = arp_table s"
    "frames s1 = frames s" "etharp_cached_entry s1 = etharp_cached_entry s" and c: "case r of
       None \<Rightarrow> pool (ebufs s) = [] \<and> arp_step slots H H s s1
     | Some p \<Rightarrow> p \<notin> H \<and> arp_step slots H (insert p H) s s1 \<and> received_in (ebufs s1) (insert p H) p [] \<and> chain_data (ebufs s1) [p] = d
         \<and> (\<exists>b. heap (ebufs s1) p = Some b \<and> p_payload b = LWIP_MEM_ALIGN_SIZE (layer_offset PBUF_RAW) \<and> unat (p_len b) = length d
               \<and> p_type b = PBUF_POOL) \<and> keeps (- {p}) (ebufs s) (ebufs s1)"
    by blast
  show ?thesis
  proof (cases r)
    case None
    then show ?thesis using s1 c by (intro dropped [of s1]) simp_all
  next
    case (Some p)
    with c obtain b where "heap (ebufs s1) p = Some b" "unat (p_len b) = length d" by auto
    then show ?thesis using s1 c Some by (intro taken [of p s1 b]) simp_all
  qed
qed

lemma arp_step_inner:
  assumes "arp_step slots H (insert p H) s s1" "arp_step slots (insert p H - {p}) (insert p H - {p}) s1 s2" "p \<notin> H"
  shows "arp_step slots H H s s2"
proof -
  have "insert p H - {p} = H" using assms(3) by auto
  then have "arp_step slots H H s1 s2" using assms(2) by simp
  moreover have "keeps H (ebufs s) (ebufs s1)" using arp_stepD(2) [OF assms(1)] by (rule keeps_mono) auto
  ultimately show ?thesis using assms(1) by (auto simp: arp_step_def intro: keeps_trans)
qed

lemma frame_in_step:
  assumes "eth_ok slots H s" "netifs s netif = Some n" "length d \<le> 1514" "consumes slots ip_input"
  shows "\<exists>s'. frame_in ip_input netif d s = Some s' \<and> arp_step slots H H s s'"
  using assms(1,3)
proof (cases rule: received_frame)
  case (dropped s1)
  then show ?thesis by (simp add: frame_in_def)
next
  case (taken p s1 b)
  note d1 = arp_stepD [OF taken(2)]
  have n1: "netifs s1 netif = Some n" using d1(3) assms(2) by simp
  from ethernet_input_step [OF d1(1) n1 taken(7) refl assms(4)] obtain s2 where
    s2: "ethernet_input ip_input p netif s1 = Some (ERR_OK, s2)" "arp_step slots (insert p H - {p}) (insert p H - {p}) s1 s2" by auto
  then show ?thesis using taken(1) arp_step_inner [OF taken(2) s2(2) taken(3)] by (simp add: frame_in_def)
qed

text \<open>A packet with room for the header of the link.\<close>

lemma outgoing_packet:
  assumes "eth_ok slots H s" "length d \<le> 1500"
  obtains (dropped) s1 where "pool (ebufs s) = []" "new_packet PBUF_LINK d s = Some (None, s1)" "arp_step slots H H s s1"
  | (taken) p s1 where "new_packet PBUF_LINK d s = Some (Some p, s1)" "arp_step slots H (insert p H) s s1" "p \<notin> H" "arp_table s1 = arp_table s"
      "frames s1 = frames s" "etharp_cached_entry s1 = etharp_cached_entry s"
      "outgoing (ebufs s1) (insert p H) p []" "chain_data (ebufs s1) [p] = d" "header_room (ebufs s1) p"
      "keeps (- {p}) (ebufs s) (ebufs s1)"
proof -
  have "LWIP_MEM_ALIGN_SIZE (layer_offset PBUF_LINK) + length d \<le> 1516" using assms(2) by (simp add: layer_offsets)
  from new_packet_step [OF assms(1) this] obtain r s1 where s1: "new_packet PBUF_LINK d s = Some (r, s1)" "arp_table s1 = arp_table s"
    "frames s1 = frames s" "etharp_cached_entry s1 = etharp_cached_entry s" and c: "case r of
       None \<Rightarrow> pool (ebufs s) = [] \<and> arp_step slots H H s s1
     | Some p \<Rightarrow> p \<notin> H \<and> arp_step slots H (insert p H) s s1 \<and> received_in (ebufs s1) (insert p H) p [] \<and> chain_data (ebufs s1) [p] = d
         \<and> (\<exists>b. heap (ebufs s1) p = Some b \<and> p_payload b = LWIP_MEM_ALIGN_SIZE (layer_offset PBUF_LINK) \<and> unat (p_len b) = length d
               \<and> p_type b = PBUF_POOL) \<and> keeps (- {p}) (ebufs s) (ebufs s1)"
    by blast
  show ?thesis
  proof (cases r)
    case None
    then show ?thesis using s1 c by (intro dropped [of s1]) simp_all
  next
    case (Some p)
    with c obtain b where b: "heap (ebufs s1) p = Some b" "p_payload b = 16" "p_type b = PBUF_POOL" by (auto simp: layer_offsets)
    have "outgoing (ebufs s1) (insert p H) p []" using Some c b assms(2)
      by (simp add: outgoing_def received_in_def filled_tail_def of_type_def del: chain_data_simps)
    moreover have "header_room (ebufs s1) p" using b by (simp add: header_room_def SIZEOF_ETH_HDR_def)
    ultimately show ?thesis using s1 c Some by (intro taken [of p s1]) simp_all
  qed
qed

lemma sent_then_freed:
  assumes "arp_step slots (insert p H - {p}) (insert p H) s1 s2" "owned (ebufs s2) p [p]" "arp_step slots H (insert p H) s s1" "p \<notin> H"
  shows "\<exists>s3. free_pbuf p s2 = Some s3 \<and> arp_step slots H H s s3 \<and> arp_table s3 = arp_table s2 \<and> frames s3 = frames s2
     \<and> etharp_cached_entry s3 = etharp_cached_entry s2 \<and> keeps H (ebufs s2) (ebufs s3) \<and> blk (ebufs s3) = blk (ebufs s2)
     \<and> (\<forall>x. x \<noteq> p \<longrightarrow> heap (ebufs s3) x = heap (ebufs s2) x)"
proof -
  have h: "insert p H - {p} = H" using assms(4) by auto
  have e: "eth_ok slots (insert p H) s2" using assms(1) by (simp add: arp_step_def)
  then have inv: "arp_inv slots (insert p H) (ebufs s2) (arp_table s2)" by (simp add: eth_ok_def)
  from arp_inv_free [OF inv assms(2)] h obtain k m where m: "pbuf_free (Some p) (ebufs s2) = Some (k, m)" "arp_inv slots H m (arp_table s2)"
    "keeps H (ebufs s2) m" "mem_malloc m = mem_malloc (ebufs s2)" "heap m = (\<lambda>x. if x = p then None else heap (ebufs s2) x)" "blk m = blk (ebufs s2)"
    by (auto simp: chain_fuel_def)
  have k1: "keeps H (ebufs s) (ebufs s1)" using arp_stepD(2) [OF assms(3)] by (rule keeps_mono) auto
  have k2: "keeps H (ebufs s1) (ebufs s2)" using arp_stepD(2) [OF assms(1)] h by (auto simp: keeps_def)
  have "arp_step slots H H s (s2\<lparr>ebufs := m\<rparr>)"
    using keeps_trans [OF k1 keeps_trans [OF k2 m(3)]] assms(1,3) m(2,4) e by (auto simp: arp_step_def eth_ok_def)
  then show ?thesis using m by (simp add: free_pbuf_def)
qed

lemma packet_out_step:
  assumes "eth_ok slots H s" "netifs s netif = Some n" "length d \<le> 1500"
  shows "\<exists>s'. packet_out netif ip d s = Some s' \<and> arp_step slots H H s s'"
  using assms(1,3)
proof (cases rule: outgoing_packet)
  case (dropped s1)
  then show ?thesis by (simp add: packet_out_def)
next
  case (taken p s1)
  note d1 = arp_stepD [OF taken(2)]
  have n1: "netifs s1 netif = Some n" using d1(3) assms(2) by simp
  from etharp_output_step [OF d1(1) n1 taken(7), of ip] obtain r s2 where
    s2: "etharp_output netif p ip s1 = Some (r, s2)" "arp_step slots (insert p H - {p}) (insert p H) s1 s2" "owned (ebufs s2) p [p]" by blast
  from sent_then_freed [OF s2(2,3) taken(2,3)] obtain s3 where "free_pbuf p s2 = Some s3" "arp_step slots H H s s3" by blast
  then show ?thesis using taken(1) s2(1) by (simp add: packet_out_def)
qed

lemma eth_do_step:
  assumes "eth_ok slots H s" "event_ok (netifs s) ev" "consumes slots ip_input"
  shows "\<exists>s'. eth_do ip_input ev s = Some s' \<and> arp_step slots H H s s'"
proof (cases ev)
  case (Frame netif d)
  then show ?thesis using assms frame_in_step [OF assms(1), of netif _ d ip_input] by auto
next
  case (Packet netif ip d)
  then show ?thesis using assms packet_out_step [OF assms(1), of netif _ d ip] by auto
next
  case Tick
  then show ?thesis using etharp_tmr_step [OF assms(1)] by auto
next
  case (Add_Static ip mac)
  then show ?thesis using assms(2) etharp_add_static_step [OF assms(1), of mac ip] by auto
next
  case (Remove_Static ip)
  then show ?thesis using etharp_remove_static_step [OF assms(1), of ip] by auto
next
  case (Cleanup netif)
  then show ?thesis using etharp_cleanup_step [OF assms(1), of netif] by auto
qed

lemma eth_run_step:
  assumes "eth_ok slots H s" "\<forall>ev \<in> set evs. event_ok (netifs s) ev" "consumes slots ip_input"
  shows "\<exists>s'. eth_run ip_input evs s = Some s' \<and> arp_step slots H H s s'"
  using assms(1,2)
proof (induction evs arbitrary: s)
  case Nil
  then show ?case using arp_step_refl by auto
next
  case (Cons ev evs)
  from eth_do_step [OF Cons.prems(1) _ assms(3)] Cons.prems(2) obtain s1 where s1: "eth_do ip_input ev s = Some s1" "arp_step slots H H s s1"
    by auto
  from Cons.IH [OF arp_stepD(1) [OF s1(2)]] Cons.prems(2) arp_stepD(3) [OF s1(2)] obtain s2 where
    "eth_run ip_input evs s1 = Some s2" "arp_step slots H H s1 s2" by auto
  then show ?case using s1 arp_step_trans [OF s1(2), of H s2] by auto
qed

text \<open>Nobody but the table holds buffers between events, so the whole pool is free and the heap holds the queued packets only.\<close>

lemma eth_ok_buffers:
  assumes "eth_ok slots {} s"
  shows "set (pool (ebufs s)) = slots" "dom (heap (ebufs s)) = queued (arp_table s)" "card (queued (arp_table s)) \<le> ARP_TABLE_SIZE"
proof -
  have inv: "arp_inv slots {} (ebufs s) (arp_table s)" using assms by (simp add: eth_ok_def)
  have "of_type (ebufs s) {PBUF_POOL} a \<Longrightarrow> False" for a
  proof -
    assume a: "of_type (ebufs s) {PBUF_POOL} a"
    then have "a \<in> dom (heap (ebufs s))" by (auto simp: of_type_def split: option.splits)
    then obtain i where i: "i < ARP_TABLE_SIZE" "ae_q (arp_table s ! i) = Some a" using inv by (auto simp: arp_inv_def queued_nth)
    from arp_inv_same(1) [OF inv i] obtain d where "one_ram (ebufs s) a d" by blast
    then show False using a by (auto simp: of_type_def elim!: one_ramE)
  qed
  moreover have "set (pool (ebufs s)) \<union> {a. of_type (ebufs s) {PBUF_POOL} a} = slots" using inv by (simp add: arp_inv_def pool_ok_def)
  ultimately show "set (pool (ebufs s)) = slots" by auto
  show "dom (heap (ebufs s)) = queued (arp_table s)" using inv by (simp add: arp_inv_def)
  have "Some ` queued (arp_table s) \<subseteq> ae_q ` set (arp_table s)" by (force simp: queued_def)
  then have "card (Some ` queued (arp_table s)) \<le> card (ae_q ` set (arp_table s))" by (intro card_mono) simp_all
  also have "\<dots> \<le> card (set (arp_table s))" by (rule card_image_le) simp
  also have "\<dots> \<le> length (arp_table s)" by (rule card_length)
  finally show "card (queued (arp_table s)) \<le> ARP_TABLE_SIZE"
    using eth_ok_table [OF assms] by (simp add: card_image)
qed

lemma consumes_free: "consumes slots (\<lambda>p netif. free_pbuf p)"
  unfolding consumes_def using arp_step_free by (fastforce simp: received_in_def)

end
