(* ===== verification/Arp_Lookup.thy ===== *)
theory Arp_Lookup
  imports Arp_Events
begin

text \<open>
  The table read as what it promises: which entry a new address takes (the cheapest by \<open>cost\<close>), how entries
  age over many ticks, and what the lookups find.
\<close>

section \<open>Which entry a new address takes\<close>

text \<open>The cost of an entry: nothing for an empty one, then dynamic, waiting and queueing ones, older ones first; static ones are never taken.\<close>

definition cost :: "etharp_entry \<Rightarrow> nat" where
  "cost e = (case ae_state e of ETHARP_STATE_EMPTY \<Rightarrow> 0
     | ETHARP_STATE_STABLE \<Rightarrow> 256 + (255 - unat (ae_ctime e))
     | ETHARP_STATE_STABLE_REREQUESTING \<Rightarrow> 256 + (255 - unat (ae_ctime e))
     | ETHARP_STATE_PENDING \<Rightarrow> (if ae_q e = None then 512 else 768) + (255 - unat (ae_ctime e))
     | ETHARP_STATE_STATIC \<Rightarrow> 1024)"

lemma cost_cases:
  "is_empty e \<Longrightarrow> cost e = 0" "is_dynamic e \<Longrightarrow> cost e = 256 + (255 - unat (ae_ctime e))"
  "is_waiting e \<Longrightarrow> cost e = 512 + (255 - unat (ae_ctime e))" "is_queueing e \<Longrightarrow> cost e = 768 + (255 - unat (ae_ctime e))"
  "ae_state e = ETHARP_STATE_STATIC \<Longrightarrow> cost e = 1024"
  by (cases "ae_state e"; simp add: cost_def is_empty_def is_dynamic_def is_waiting_def is_queueing_def
      less_eq_etharp_state_def less_etharp_state_def)+

lemma u8_max: "unat (a :: u8) \<le> 255"
  using unsigned_less [of a, where 'a = nat] by simp

lemma oldestD:
  assumes "oldest T k P i a" "i \<noteq> ARP_TABLE_SIZE" "j < k" "P (T ! j)"
  shows "i < k" "P (T ! i)" "unat (ae_ctime (T ! j)) \<le> unat (ae_ctime (T ! i))"
  using assms by (auto simp: oldest_def word_le_nat_alt)

lemma oldest_none: "oldest T k P ARP_TABLE_SIZE a \<Longrightarrow> j < k \<Longrightarrow> \<not> P (T ! j)"
  by (simp add: oldest_def)

lemma oldest_some: "oldest T k P i a \<Longrightarrow> i \<noteq> ARP_TABLE_SIZE \<Longrightarrow> i < k \<and> P (T ! i)"
  by (simp add: oldest_def)

text \<open>The candidate the search takes costs least.\<close>

lemma least_destructive:
  assumes "cand_ok T ARP_TABLE_SIZE c" "j < ARP_TABLE_SIZE"
  shows "c_empty c < ARP_TABLE_SIZE \<Longrightarrow> cost (T ! c_empty c) = 0"
    "c_empty c = ARP_TABLE_SIZE \<Longrightarrow> recycle c = Some i \<Longrightarrow> cost (T ! i) \<le> cost (T ! j) \<and> cost (T ! i) < 1024"
    "c_empty c = ARP_TABLE_SIZE \<Longrightarrow> recycle c = None \<Longrightarrow> cost (T ! j) = 1024"
proof -
  have f: "first_empty T ARP_TABLE_SIZE (c_empty c)" and s: "oldest T ARP_TABLE_SIZE is_dynamic (old_stable c) (age_stable c)"
    and w: "oldest T ARP_TABLE_SIZE is_waiting (old_pending c) (age_pending c)"
    and q: "oldest T ARP_TABLE_SIZE is_queueing (old_queue c) (age_queue c)"
    using assms(1) by (simp_all add: cand_ok_def)
  show "c_empty c < ARP_TABLE_SIZE \<Longrightarrow> cost (T ! c_empty c) = 0"
    using f by (intro cost_cases) (simp add: first_empty_def)
  have ne: "\<not> is_empty (T ! j)" if "c_empty c = ARP_TABLE_SIZE" using f that assms(2) by (simp add: first_empty_def)
  have bj: "unat (ae_ctime (T ! x)) \<le> 255" for x by (rule u8_max)
  show "cost (T ! j) = 1024" if e: "c_empty c = ARP_TABLE_SIZE" and n: "recycle c = None"
  proof -
    have "old_stable c = ARP_TABLE_SIZE" "old_pending c = ARP_TABLE_SIZE" "old_queue c = ARP_TABLE_SIZE"
      using n oldest_some [OF s] oldest_some [OF w] oldest_some [OF q] by (auto simp: recycle_def split: if_splits)
    then have "\<not> is_dynamic (T ! j)" "\<not> is_waiting (T ! j)" "\<not> is_queueing (T ! j)"
      using s w q assms(2) oldest_none by simp_all
    then show ?thesis using ne [OF e] state_cases [of "T ! j"] cost_cases(5) by blast
  qed
  show "cost (T ! i) \<le> cost (T ! j) \<and> cost (T ! i) < 1024" if e: "c_empty c = ARP_TABLE_SIZE" and n: "recycle c = Some i"
  proof -
    consider (cs) "old_stable c \<noteq> ARP_TABLE_SIZE" "i = old_stable c"
      | (cw) "old_stable c = ARP_TABLE_SIZE" "old_pending c \<noteq> ARP_TABLE_SIZE" "i = old_pending c"
      | (cq) "old_stable c = ARP_TABLE_SIZE" "old_pending c = ARP_TABLE_SIZE" "old_queue c \<noteq> ARP_TABLE_SIZE" "i = old_queue c"
      using n oldest_some [OF s] oldest_some [OF w] oldest_some [OF q] by (fastforce simp: recycle_def split: if_splits)
    then show ?thesis
    proof cases
      case cs
      have "cost (T ! i) = 256 + (255 - unat (ae_ctime (T ! i)))" using oldest_some [OF s] cs by (simp add: cost_cases(2))
      moreover have "cost (T ! j) \<ge> cost (T ! i)"
        using state_cases [of "T ! j"] ne [OF e] calculation oldestD(3) [OF s cs(1) assms(2)] cs(2) by (elim disjE) (simp_all add: cost_cases)
      ultimately show ?thesis by simp
    next
      case cw
      have nd: "\<not> is_dynamic (T ! j)" using s cw(1) assms(2) oldest_none by simp
      have "cost (T ! i) = 512 + (255 - unat (ae_ctime (T ! i)))" using oldest_some [OF w] cw by (simp add: cost_cases(3))
      moreover have "cost (T ! j) \<ge> cost (T ! i)"
        using state_cases [of "T ! j"] ne [OF e] nd calculation oldestD(3) [OF w cw(2) assms(2)] cw(3) by (elim disjE) (simp_all add: cost_cases)
      ultimately show ?thesis by simp
    next
      case cq
      have nd: "\<not> is_dynamic (T ! j)" "\<not> is_waiting (T ! j)" using s w cq(1,2) assms(2) oldest_none by simp_all
      have "cost (T ! i) = 768 + (255 - unat (ae_ctime (T ! i)))" using oldest_some [OF q] cq by (simp add: cost_cases(4))
      moreover have "cost (T ! j) \<ge> cost (T ! i)"
        using state_cases [of "T ! j"] ne [OF e] nd calculation oldestD(3) [OF q cq(3) assms(2)] cq(4) by (elim disjE) (simp_all add: cost_cases)
      ultimately show ?thesis by simp
    qed
  qed
qed

lemma find_entry_least:
  assumes "eth_ok slots H s" "\<forall>j < ARP_TABLE_SIZE. \<not> is_empty (entry j s) \<longrightarrow> ae_ipaddr (entry j s) \<noteq> ip"
    and "flags AND ETHARP_FLAG_FIND_ONLY = 0" "flags AND ETHARP_FLAG_TRY_HARD \<noteq> 0"
  shows "\<exists>r s'. etharp_find_entry (Some ip) flags s = Some (r, s') \<and> (case r of
      Inl err \<Rightarrow> err = ERR_MEM \<and> s' = s \<and> (\<forall>j < ARP_TABLE_SIZE. cost (entry j s) = 1024)
    | Inr i \<Rightarrow> i < ARP_TABLE_SIZE \<and> cost (entry i s) < 1024 \<and> (\<forall>j < ARP_TABLE_SIZE. cost (entry i s) \<le> cost (entry j s)))"
proof -
  have l: "length (arp_table s) = ARP_TABLE_SIZE" by (rule eth_ok_table [OF assms(1)])
  from etharp_find_entry_index [OF assms(1), of ip flags] obtain r s' where
    r: "etharp_find_entry (Some ip) flags s = Some (r, s')" "\<forall>i. r = Inr i \<longrightarrow> i < ARP_TABLE_SIZE" by blast
  have "arp_scan (Some ip) 0 (arp_table s) no_cand \<noteq> Inl i" for i
    using arp_scan_table [OF l, of "Some ip"] assms(2) by (auto simp: entry_def split: sum.splits)
  then obtain c where c: "arp_scan (Some ip) 0 (arp_table s) no_cand = Inr c" by (metis sum.exhaust)
  then have ok: "cand_ok (arp_table s) ARP_TABLE_SIZE c" using arp_scan_table [OF l, of "Some ip"] by simp
  have emp: "c_empty c \<noteq> ARP_TABLE_SIZE \<Longrightarrow> c_empty c < ARP_TABLE_SIZE" using ok by (auto simp: cand_ok_def first_empty_def)
  note ld = least_destructive [OF ok, folded entry_def]
  show ?thesis
  proof (cases "c_empty c = ARP_TABLE_SIZE")
    case False
    then have "r = Inr (c_empty c)" using r(1) c emp assms(3,4) by (simp add: etharp_find_entry_def)
    then show ?thesis using r ld(1) [of 0] emp [OF False] by (simp add: ARP_TABLE_SIZE_def)
  next
    case full: True
    show ?thesis
    proof (cases "recycle c")
      case None
      then have "r = Inl ERR_MEM" "s' = s" using r(1) c full assms(3,4) by (simp_all add: etharp_find_entry_def)
      then show ?thesis using r ld(3) [OF _ full None] by simp
    next
      case (Some i)
      then have "r = Inr i" using r(1) c full assms(3,4) by (auto simp: etharp_find_entry_def split: bind_splits)
      then show ?thesis using r ld(2) [OF _ full Some] by (auto simp: ARP_TABLE_SIZE_def)
    qed
  qed
qed

section \<open>Ageing\<close>

fun ticks :: "nat \<Rightarrow> 'a eth_scheme \<Rightarrow> 'a eth_scheme option" where
  "ticks 0 s = Some s"
| "ticks (Suc n) s = do { s \<leftarrow> etharp_tmr s; ticks n s }"

lemma ticks_step:
  assumes "eth_ok slots H s"
  shows "\<exists>s'. ticks n s = Some s' \<and> arp_step slots H H s s' \<and> frames s' = frames s
     \<and> (\<forall>i < ARP_TABLE_SIZE. entry i s' = (aged ^^ n) (entry i s))"
  using assms
proof (induction n arbitrary: s)
  case 0
  then show ?case using arp_step_refl [OF 0] by simp
next
  case (Suc n)
  from etharp_tmr_step [OF Suc.prems] obtain s1 where s1: "etharp_tmr s = Some s1" "arp_step slots H H s s1" "frames s1 = frames s"
    "\<forall>i < ARP_TABLE_SIZE. entry i s1 = aged (entry i s)" by blast
  from Suc.IH [OF arp_stepD(1) [OF s1(2)]] obtain s2 where s2: "ticks n s1 = Some s2" "arp_step slots H H s1 s2" "frames s2 = frames s1"
    "\<forall>i < ARP_TABLE_SIZE. entry i s2 = (aged ^^ n) (entry i s1)" by blast
  have "(aged ^^ n) (aged e) = (aged ^^ Suc n) e" for e by (simp add: funpow_swap1)
  then show ?case using s1 s2 arp_step_trans [OF s1(2) s2(2)] by auto
qed

lemma aged_empty: "is_empty e \<Longrightarrow> (aged ^^ n) e = e"
  by (induction n) (simp_all add: aged_def)

lemma aged_static: "ae_state e = ETHARP_STATE_STATIC \<Longrightarrow> (aged ^^ n) e = e"
  by (induction n) (simp_all add: aged_def)

lemma is_empty_funpow: "is_empty ((aged ^^ k) e) \<Longrightarrow> k \<le> n \<Longrightarrow> is_empty ((aged ^^ n) e)"
  using aged_empty [of "(aged ^^ k) e" "n - k"] by (metis comp_apply funpow_add le_add_diff_inverse2)

lemma aged_pending:
  assumes "ae_state e = ETHARP_STATE_PENDING" "ae_ctime e = 0"
  shows "aged e = e\<lparr>ae_ctime := 1\<rparr>" "2 \<le> n \<Longrightarrow> is_empty ((aged ^^ n) e)"
proof -
  show a: "aged e = e\<lparr>ae_ctime := 1\<rparr>"
    using assms by (simp add: aged_def Let_def is_empty_def ARP_MAXAGE_def ARP_MAXPENDING_def word_le_nat_alt)
  have "is_empty (aged (aged e))"
    unfolding a using assms by (simp add: aged_def Let_def is_empty_def ARP_MAXAGE_def ARP_MAXPENDING_def word_le_nat_alt)
  then have "is_empty ((aged ^^ 2) e)" by (simp add: numeral_2_eq_2)
  then show "2 \<le> n \<Longrightarrow> is_empty ((aged ^^ n) e)" by (rule is_empty_funpow)
qed

lemma aged_dynamic_step:
  assumes "is_dynamic e" "unat (ae_ctime e) < 240"
  shows "if unat (ae_ctime e) + 1 < 240 then is_dynamic (aged e) \<and> unat (ae_ctime (aged e)) = unat (ae_ctime e) + 1
      \<and> ae_ipaddr (aged e) = ae_ipaddr e \<and> ae_ethaddr (aged e) = ae_ethaddr e else is_empty (aged e)"
proof -
  have u: "unat (ae_ctime e + 1) = unat (ae_ctime e) + 1" using assms(2) by (simp add: unat_word_ariths)
  have m: "ARP_MAXAGE \<le> ae_ctime e + 1 \<longleftrightarrow> 240 \<le> unat (ae_ctime e) + 1"
    by (simp add: ARP_MAXAGE_def word_le_nat_alt u)
  show ?thesis using assms m u
    by (cases "ae_state e") (simp_all add: aged_def Let_def is_dynamic_def is_empty_def less_eq_etharp_state_def less_etharp_state_def)
qed

lemma aged_dynamic:
  assumes "is_dynamic e" "unat (ae_ctime e) < 240"
  shows "if unat (ae_ctime e) + n < 240 then is_dynamic ((aged ^^ n) e) \<and> unat (ae_ctime ((aged ^^ n) e)) = unat (ae_ctime e) + n
      \<and> ae_ipaddr ((aged ^^ n) e) = ae_ipaddr e \<and> ae_ethaddr ((aged ^^ n) e) = ae_ethaddr e else is_empty ((aged ^^ n) e)"
proof (induction n)
  case 0
  then show ?case using assms by simp
next
  case (Suc n)
  show ?case
  proof (cases "unat (ae_ctime e) + n < 240")
    case True
    then show ?thesis using Suc.IH aged_dynamic_step [of "(aged ^^ n) e"] by (simp split: if_splits)
  next
    case False
    then show ?thesis using Suc.IH is_empty_funpow [of n e "Suc n"] by simp
  qed
qed

section \<open>Lookups\<close>

text \<open>What the search finds for an address that is in the table.\<close>

lemma find_entry_present:
  assumes "eth_ok slots H s" "i < ARP_TABLE_SIZE" "\<not> is_empty (entry i s)" "ae_ipaddr (entry i s) = ip"
  shows "etharp_find_entry (Some ip) flags s = Some (Inr i, s)"
proof -
  have l: "length (arp_table s) = ARP_TABLE_SIZE" by (rule eth_ok_table [OF assms(1)])
  have "arp_scan (Some ip) 0 (arp_table s) no_cand = Inl i"
  proof (cases "arp_scan (Some ip) 0 (arp_table s) no_cand")
    case (Inl k)
    then have "k < ARP_TABLE_SIZE" "\<not> is_empty (entry k s)" "ae_ipaddr (entry k s) = ip"
      using arp_scan_table [OF l, of "Some ip"] by (simp_all add: entry_def)
    then show ?thesis using Inl eth_ok_distinct [OF assms(1), of k i] assms(2-4) by auto
  next
    case (Inr c)
    then have "\<forall>j < ARP_TABLE_SIZE. \<not> is_empty (entry j s) \<longrightarrow> ip \<noteq> ae_ipaddr (entry j s)"
      using arp_scan_table [OF l, of "Some ip"] by (simp add: entry_def)
    then show ?thesis using assms(2-4) by auto
  qed
  then show ?thesis by (simp add: etharp_find_entry_def)
qed

lemma find_entry_absent:
  assumes "eth_ok slots H s" "\<forall>j < ARP_TABLE_SIZE. \<not> is_empty (entry j s) \<longrightarrow> ae_ipaddr (entry j s) \<noteq> ip" "flags AND ETHARP_FLAG_FIND_ONLY \<noteq> 0"
  shows "etharp_find_entry (Some ip) flags s = Some (Inl ERR_MEM, s)"
proof -
  have l: "length (arp_table s) = ARP_TABLE_SIZE" by (rule eth_ok_table [OF assms(1)])
  have "arp_scan (Some ip) 0 (arp_table s) no_cand \<noteq> Inl i" for i
    using arp_scan_table [OF l, of "Some ip"] assms(2) by (auto simp: entry_def split: sum.splits)
  then obtain c where "arp_scan (Some ip) 0 (arp_table s) no_cand = Inr c" by (metis sum.exhaust)
  then show ?thesis using assms(3) by (simp add: etharp_find_entry_def)
qed

lemma etharp_find_addr_present:
  assumes "eth_ok slots H s" "i < ARP_TABLE_SIZE" "ETHARP_STATE_STABLE \<le> ae_state (entry i s)" "ae_ipaddr (entry i s) = ip"
  shows "etharp_find_addr ip s = Some (Some (i, ae_ethaddr (entry i s), ip), s)"
proof -
  have "\<not> is_empty (entry i s)" using assms(3) by (auto simp: is_empty_def less_eq_etharp_state_def)
  then show ?thesis using find_entry_present [OF assms(1,2) _ assms(4)] assms(3,4) by (simp add: etharp_find_addr_def)
qed

lemma etharp_find_addr_absent:
  assumes "eth_ok slots H s" "\<forall>j < ARP_TABLE_SIZE. \<not> is_empty (entry j s) \<longrightarrow> ae_ipaddr (entry j s) \<noteq> ip"
  shows "etharp_find_addr ip s = Some (None, s)"
proof -
  have "ETHARP_FLAG_FIND_ONLY AND ETHARP_FLAG_FIND_ONLY \<noteq> 0" by (simp add: ETHARP_FLAG_FIND_ONLY_def)
  then show ?thesis using find_entry_absent [OF assms] by (simp add: etharp_find_addr_def)
qed

text \<open>The table as a map from addresses to hardware addresses.\<close>

definition known :: "'a eth_scheme \<Rightarrow> u32 \<Rightarrow> bytes option" where
  "known s ip = map_option (\<lambda>i. ae_ethaddr (entry i s)) (List.find (stable_for ip s) [0..<ARP_TABLE_SIZE])"

lemma stable_nonempty: "stable_for ip s i \<Longrightarrow> \<not> is_empty (entry i s) \<and> ae_ipaddr (entry i s) = ip"
  by (auto simp: stable_for_def is_empty_def less_eq_etharp_state_def)

lemma known_at:
  assumes "eth_ok slots H s" "i < ARP_TABLE_SIZE" "ETHARP_STATE_STABLE \<le> ae_state (entry i s)" "ae_ipaddr (entry i s) = ip"
  shows "known s ip = Some (ae_ethaddr (entry i s))"
proof -
  have sf: "stable_for ip s i" using assms(3,4) by (simp add: stable_for_def)
  then obtain k where k: "List.find (stable_for ip s) [0..<ARP_TABLE_SIZE] = Some k"
    using find_stable(2) [of ip s i] assms(2) by (cases "List.find (stable_for ip s) [0..<ARP_TABLE_SIZE]") auto
  note kk = find_stable(1) [OF k]
  have "k = i"
  proof (rule ccontr)
    assume "k \<noteq> i"
    from eth_ok_distinct [OF assms(1) conjunct1 [OF kk] assms(2) this] stable_nonempty [OF sf] stable_nonempty [OF conjunct2 [OF kk]]
    show False by auto
  qed
  then show ?thesis using k by (simp add: known_def)
qed

lemma known_None: "known s ip = None \<longleftrightarrow> (\<forall>i < ARP_TABLE_SIZE. \<not> stable_for ip s i)"
  using find_stable(1) [of ip s] find_stable(2) [of ip s]
  by (cases "List.find (stable_for ip s) [0..<ARP_TABLE_SIZE]") (auto simp: known_def)

lemma find_addr_known:
  assumes "eth_ok slots H s"
  shows "\<exists>r. etharp_find_addr ip s = Some (r, s) \<and> map_option (\<lambda>(i, mac, a). mac) r = known s ip"
proof (cases "\<exists>i < ARP_TABLE_SIZE. \<not> is_empty (entry i s) \<and> ae_ipaddr (entry i s) = ip")
  case True
  then obtain i where i: "i < ARP_TABLE_SIZE" "\<not> is_empty (entry i s)" "ae_ipaddr (entry i s) = ip" by blast
  show ?thesis
  proof (cases "ETHARP_STATE_STABLE \<le> ae_state (entry i s)")
    case True
    then show ?thesis using etharp_find_addr_present [OF assms i(1) True i(3)] known_at [OF assms i(1) True i(3)] by simp
  next
    case False
    have "known s ip = None"
    proof -
      have "\<not> stable_for ip s j" if "j < ARP_TABLE_SIZE" for j
      proof
        assume sj: "stable_for ip s j"
        have "j \<noteq> i" using sj False by (auto simp: stable_for_def)
        from eth_ok_distinct [OF assms that i(1) this] stable_nonempty [OF sj] i(2,3) show False by auto
      qed
      then show ?thesis by (simp add: known_None)
    qed
    then show ?thesis using find_entry_present [OF assms i] False by (simp add: etharp_find_addr_def)
  qed
next
  case False
  then have "known s ip = None" using stable_nonempty by (fastforce simp: known_None)
  then show ?thesis using etharp_find_addr_absent [OF assms] False by auto
qed

end
