(* ===== verification/Arp_Traffic.thy ===== *)
theory Arp_Traffic
  imports Arp_Lookup
begin

text \<open>
  ARP packets on the wire, a received ARP packet end to end, a packet to a host that is not known yet and the
  reply that releases it.
\<close>

section \<open>ARP packets on the wire\<close>

lemma arp_packet_length: "length d = 6 \<Longrightarrow> length s = 6 \<Longrightarrow> length hs = 6 \<Longrightarrow> length ht = 6 \<Longrightarrow> length (arp_packet d s op hs is ht it) = 42"
  by (simp add: arp_packet_def)

lemma hdr_field_append: "length a = off \<Longrightarrow> hdr_field (a @ b) off n = take n b"
  by (simp add: hdr_field_def)

lemma arp_packet_fields:
  assumes "length dst = 6" "length src = 6" "length hs = 6" "length ht = 6" and p: "p = arp_packet dst src op hs is ht it @ pad"
  shows "hdr_field p 12 2 = [8, 6]" "hdr_field p 12 8 = [8, 6, 0, 1, 8, 0, 6, 4]" "hdr_field p 14 2 = [0, 1]" "hdr_field p 16 2 = [8, 0]"
    "p ! 18 = 6" "p ! 19 = 4" "hdr_field p 20 2 = be16 op" "hdr_field p 22 6 = hs" "hdr_field p 28 4 = le32 is" "hdr_field p 32 6 = ht"
    "hdr_field p 38 4 = le32 it" "take 42 p = arp_packet dst src op hs is ht it" "drop 42 p = pad"
proof -
  have e: "p = dst @ src @ [8, 6] @ [0, 1] @ [8, 0] @ [6, 4] @ be16 op @ hs @ le32 is @ ht @ le32 it @ pad"
    by (simp add: p arp_packet_def)
  have l: "length (le32 x) = 4" for x by (simp add: le32_def)
  have h: "hdr_field (a @ b @ c) off n = b" if "length a = off" "length b = n" for a b c :: bytes and off n
    using that by (simp add: hdr_field_def)
  note hh = h [of "dst @ src" 12 "[8,6]" 2 "[0, 1] @ [8, 0] @ [6, 4] @ be16 op @ hs @ le32 is @ ht @ le32 it @ pad"]
    h [of "dst @ src" 12 "[8,6] @ [0, 1] @ [8, 0] @ [6, 4]" 8 "be16 op @ hs @ le32 is @ ht @ le32 it @ pad"]
    h [of "dst @ src @ [8,6]" 14 "[0,1]" 2 "[8, 0] @ [6, 4] @ be16 op @ hs @ le32 is @ ht @ le32 it @ pad"]
    h [of "dst @ src @ [8,6] @ [0,1]" 16 "[8,0]" 2 "[6, 4] @ be16 op @ hs @ le32 is @ ht @ le32 it @ pad"]
    h [of "dst @ src @ [8,6] @ [0,1] @ [8,0] @ [6,4]" 20 "be16 op" 2 "hs @ le32 is @ ht @ le32 it @ pad"]
    h [of "dst @ src @ [8,6] @ [0,1] @ [8,0] @ [6,4] @ be16 op" 22 hs 6 "le32 is @ ht @ le32 it @ pad"]
    h [of "dst @ src @ [8,6] @ [0,1] @ [8,0] @ [6,4] @ be16 op @ hs" 28 "le32 is" 4 "ht @ le32 it @ pad"]
    h [of "dst @ src @ [8,6] @ [0,1] @ [8,0] @ [6,4] @ be16 op @ hs @ le32 is" 32 ht 6 "le32 it @ pad"]
    h [of "dst @ src @ [8,6] @ [0,1] @ [8,0] @ [6,4] @ be16 op @ hs @ le32 is @ ht" 38 "le32 it" 4 pad]
  show "hdr_field p 12 2 = [8, 6]" "hdr_field p 12 8 = [8, 6, 0, 1, 8, 0, 6, 4]" "hdr_field p 14 2 = [0, 1]" "hdr_field p 16 2 = [8, 0]"
    "hdr_field p 20 2 = be16 op" "hdr_field p 22 6 = hs" "hdr_field p 28 4 = le32 is" "hdr_field p 32 6 = ht" "hdr_field p 38 4 = le32 it"
    using hh assms(1-4) l unfolding e by simp_all
  show "p ! 18 = 6" "p ! 19 = 4" using assms(1-4) by (simp_all add: e nth_append)
  show "take 42 p = arp_packet dst src op hs is ht it" "drop 42 p = pad" using arp_packet_length [OF assms(1-4), of op "is" it] by (simp_all add: p)
qed

lemma arp_packet_valid:
  assumes "length dst = 6" "length src = 6" "length hs = 6" "length ht = 6"
  shows "arp_valid (arp_packet dst src op hs is ht it)" "of_le16 (hdr_field (arp_packet dst src op hs is ht it) 12 2) = htons ETHTYPE_ARP"
  using arp_packet_fields [OF assms refl, of op "is" it "[]"]
  by (simp_all add: arp_valid_def HWTYPE_ETHERNET_def ETHTYPE_IP_def ETHTYPE_ARP_def ETHARP_HWADDR_LEN_def htons_def of_le16_def)

lemma of_le16_be16: "of_le16 (be16 w) = htons w"
  by (metis le16_htons codec_dec_enc(1))

lemma arp_reply_packet:
  assumes "length dst = 6" "length src = 6" "length hs = 6" "length ht = 6"
  shows "arp_reply (arp_packet dst src op hs is ht it) ip mac = arp_packet hs mac ARP_REPLY mac ip hs is"
  using arp_packet_fields [OF assms refl, of op "is" it "[]"] by (simp add: arp_reply_def arp_packet_def le16_htons)

lemma htons_ops: "htons ARP_REQUEST \<noteq> htons ARP_REPLY"
  by (simp add: htons_def ARP_REQUEST_def ARP_REPLY_def)

section \<open>A frame with an ARP packet\<close>

lemma frame_in_arp:
  fixes s :: "'a eth_scheme"
  assumes "eth_ok slots H s" "pool (ebufs s) \<noteq> []" "netifs s netif = Some n" "nif_flags n AND NETIF_FLAG_ETHARP \<noteq> 0" "consumes slots ip_input"
    and "42 \<le> length d" "length d \<le> 1514" "of_le16 (hdr_field d 12 2) = htons ETHTYPE_ARP" "arp_valid (take 42 d)"
  shows "\<exists>(s1 :: 'a eth_scheme) H1 r s2 s3. frame_in ip_input netif d s = Some s3 \<and> arp_step slots H H s s3
     \<and> eth_ok slots H1 s1 \<and> arp_table s1 = arp_table s \<and> frames s1 = frames s \<and> netifs s1 = netifs s \<and> keeps (queued (arp_table s)) (ebufs s) (ebufs s1)
     \<and> etharp_update_arp_entry netif (of_le32 (hdr_field (take 42 d) 28 4)) (hdr_field (take 42 d) 22 6) (arp_flags n (take 42 d)) s1 = Some (r, s2)
     \<and> arp_table s3 = arp_table s2 \<and> frames s3 = frames s2 @ answers netif n d"
  using assms(1,7)
proof (cases rule: received_frame)
  case dropped
  then show ?thesis using assms(2) by simp
next
  case (taken p s1 b)
  note d1 = arp_stepD [OF taken(2)]
  have n1: "netifs s1 netif = Some n" using d1(3) assms(3) by simp
  have lb: "14 < unat (p_len b)" "\<not> unat (p_len b) < 42" using taken(10) assms(6) by simp_all
  from ethernet_input_step [OF d1(1) n1 taken(7) refl assms(5)] taken(8,9) lb(1) assms(4,8) obtain s2 m where
    s2: "ethernet_input ip_input p netif s1 = Some (ERR_OK, s2)" "arp_step slots (insert p H - {p}) (insert p H - {p}) s1 s2"
    and m: "arp_step slots (insert p H - {p}) (insert p H) s1 (s1\<lparr>ebufs := m\<rparr>)" "received_in m (insert p H) p []" "chain_data m [p] = d"
      "keeps (- {p}) (ebufs s1) m" "map_option p_len (heap m p) = Some (p_len b)" "etharp_arp_input netif (nif_hwaddr n) p (s1\<lparr>ebufs := m\<rparr>) = Some s2"
    by (auto simp del: chain_data_simps)
  from m(5) obtain b2 where b2: "heap m p = Some b2" "p_len b2 = p_len b" by auto
  have a: "netifs (s1\<lparr>ebufs := m\<rparr>) netif = Some n" "received_in (ebufs (s1\<lparr>ebufs := m\<rparr>)) (insert p H) p []" "d = chain_data (ebufs (s1\<lparr>ebufs := m\<rparr>)) [p]"
    using n1 m(2,3) by simp_all
  from etharp_arp_input_step [OF arp_stepD(1) [OF m(1)] a] m(6) b2 lb(2) assms(9) obtain r s3 where
    s3: "etharp_update_arp_entry netif (of_le32 (hdr_field (take 42 d) 28 4)) (hdr_field (take 42 d) 22 6) (arp_flags n (take 42 d)) (s1\<lparr>ebufs := m\<rparr>) = Some (r, s3)"
      "arp_table s2 = arp_table s3" "frames s2 = frames s3 @ answers netif n d"
    by auto
  have "p \<notin> queued (arp_table s)"
  proof -
    have "arp_inv slots (insert p H) (ebufs s1) (arp_table s1)" using d1(1) by (simp add: eth_ok_def)
    then show ?thesis using taken(4) by (auto simp: arp_inv_def)
  qed
  let ?t = "s1\<lparr>ebufs := m\<rparr>"
  have "keeps (queued (arp_table s)) (ebufs s) (ebufs ?t)" "arp_table ?t = arp_table s" "frames ?t = frames s" "netifs ?t = netifs s"
    using \<open>p \<notin> queued (arp_table s)\<close> taken(4,5,11) m(4) d1(3) by (auto simp: keeps_def)
  moreover have "frame_in ip_input netif d s = Some s2" using taken(1) s2(1) by (simp add: frame_in_def)
  ultimately show ?thesis using arp_step_inner [OF taken(2) s2(2) taken(3)] s3 arp_stepD(1) [OF m(1)] by blast
qed

text \<open>An ARP packet of a host, as it is on the wire.\<close>

lemma frame_in_packet:
  fixes s :: "'a eth_scheme"
  assumes "eth_ok slots H s" "pool (ebufs s) \<noteq> []" "netifs s netif = Some n" "nif_flags n AND NETIF_FLAG_ETHARP \<noteq> 0" "consumes slots ip_input"
    and "length dst = 6" "length src = 6" "length mac = 6" "length thw = 6" "length pad \<le> 1472" "\<not> not_unicast ip n"
    and "d = arp_packet dst src op mac ip thw tip @ pad"
  shows "\<exists>(s1 :: 'a eth_scheme) H1 r s2 s3. frame_in ip_input netif d s = Some s3 \<and> arp_step slots H H s s3
     \<and> eth_ok slots H1 s1 \<and> arp_table s1 = arp_table s \<and> frames s1 = frames s \<and> keeps (queued (arp_table s)) (ebufs s) (ebufs s1)
     \<and> (r = ERR_MEM \<and> s2 = s1 \<and> (\<exists>err. etharp_find_entry (Some ip) (arp_flags n (take 42 d)) s1 = Some (Inl err, s1)) \<or>
        r = ERR_OK \<and> (\<exists>i < ARP_TABLE_SIZE. (\<exists>e. entry i s3 = (set_entry netif mac (arp_flags n (take 42 d)) e)\<lparr>ae_ipaddr := ip, ae_q := None\<rparr>)
          \<and> (\<forall>j < ARP_TABLE_SIZE. j \<noteq> i \<longrightarrow> entry j s3 = entry j s)
          \<and> (\<forall>j < ARP_TABLE_SIZE. j \<noteq> i \<longrightarrow> \<not> is_empty (entry j s3) \<longrightarrow> ae_ipaddr (entry j s3) \<noteq> ip)
          \<and> frames s2 = frames s1 @ (case queued_for ip i s1 of None \<Rightarrow> []
              | Some p \<Rightarrow> [(netif, eth_frame mac (nif_hwaddr n) (drop 14 (chain_data (ebufs s1) [p])))])))
     \<and> (r = ERR_MEM \<longrightarrow> arp_table s3 = arp_table s \<and> frames s2 = frames s)
     \<and> frames s3 = frames s2 @ (if op = ARP_REQUEST \<and> \<not> ip_addr_isany (nif_ip n) \<and> tip = nif_ip n
          then [(netif, arp_packet mac (nif_hwaddr n) ARP_REPLY (nif_hwaddr n) (nif_ip n) mac ip @ pad)] else [])"
proof -
  note f = arp_packet_fields [OF assms(6-9,12)]
  have ft: "hdr_field (take 42 d) 28 4 = le32 ip" "hdr_field (take 42 d) 22 6 = mac" "hdr_field (take 42 d) 38 4 = le32 tip"
    using arp_packet_fields [OF assms(6-9) refl, of op ip tip "[]"] by (simp_all add: f(12))
  have len: "42 \<le> length d" "length d \<le> 1514" using assms(10,12) arp_packet_length [OF assms(6-9), of op ip tip] by simp_all
  have ty: "of_le16 (hdr_field d 12 2) = htons ETHTYPE_ARP" using f(1) by (simp add: ETHTYPE_ARP_def htons_def of_le16_def)
  have va: "arp_valid (take 42 d)" using arp_packet_valid(1) [OF assms(6-9)] by (simp add: f(12))
  from frame_in_arp [OF assms(1-5) len ty va, unfolded ft codec_dec_enc] obtain s1 :: "'a eth_scheme" and H1 r s2 s3 where
    s3: "frame_in ip_input netif d s = Some s3" "arp_step slots H H s s3"
     "eth_ok slots H1 s1" "arp_table s1 = arp_table s" "frames s1 = frames s" "netifs s1 = netifs s" "keeps (queued (arp_table s)) (ebufs s) (ebufs s1)"
     "etharp_update_arp_entry netif ip mac (arp_flags n (take 42 d)) s1 = Some (r, s2)"
     "arp_table s3 = arp_table s2" "frames s3 = frames s2 @ answers netif n d"
    by blast
  have e1: "entry i s1 = entry i s" "entry i s3 = entry i s2" for i using s3(4,9) by (simp_all add: entry_def)
  have n1: "netifs s1 netif = Some n" using s3(6) assms(3) by simp
  have hop: "htons op = htons ARP_REQUEST \<longleftrightarrow> op = ARP_REQUEST" by (metis htons_htons)
  have an: "answers netif n d = (if op = ARP_REQUEST \<and> \<not> ip_addr_isany (nif_ip n) \<and> tip = nif_ip n
          then [(netif, arp_packet mac (nif_hwaddr n) ARP_REPLY (nif_hwaddr n) (nif_ip n) mac ip @ pad)] else [])"
    using f(7,12,13) ft(3) hop arp_reply_packet [OF assms(6-9)]
    by (simp add: answers_def arp_for_us_def of_le16_be16)
  from etharp_update_step [OF s3(3) n1 assms(8,11), of "arp_flags n (take 42 d)"] s3(8)
  have u: "r = ERR_MEM \<and> s2 = s1 \<and> (\<exists>err. etharp_find_entry (Some ip) (arp_flags n (take 42 d)) s1 = Some (Inl err, s1)) \<or>
        r = ERR_OK \<and> (\<exists>i < ARP_TABLE_SIZE. (\<exists>e. entry i s3 = (set_entry netif mac (arp_flags n (take 42 d)) e)\<lparr>ae_ipaddr := ip, ae_q := None\<rparr>)
          \<and> (\<forall>j < ARP_TABLE_SIZE. j \<noteq> i \<longrightarrow> entry j s3 = entry j s)
          \<and> (\<forall>j < ARP_TABLE_SIZE. j \<noteq> i \<longrightarrow> \<not> is_empty (entry j s3) \<longrightarrow> ae_ipaddr (entry j s3) \<noteq> ip)
          \<and> frames s2 = frames s1 @ (case queued_for ip i s1 of None \<Rightarrow> []
              | Some p \<Rightarrow> [(netif, eth_frame mac (nif_hwaddr n) (drop 14 (chain_data (ebufs s1) [p])))]))"
    unfolding e1 by auto
  then have "r = ERR_MEM \<longrightarrow> arp_table s3 = arp_table s \<and> frames s2 = frames s" using s3(4,5,9) by auto
  with s3(1-5,7) u s3(10) [unfolded an] show ?thesis by blast
qed

text \<open>The table learns that \<open>mac\<close> is at \<open>ip\<close>, and \<open>qs\<close> is the packet that waited for it, if one did.\<close>

definition unknown :: "u32 \<Rightarrow> 'a eth_scheme \<Rightarrow> bool" where
  "unknown ip s \<longleftrightarrow> (\<forall>i < ARP_TABLE_SIZE. \<not> is_empty (entry i s) \<longrightarrow> ae_ipaddr (entry i s) \<noteq> ip)"

definition entered :: "nat \<Rightarrow> eth_netif \<Rightarrow> u32 \<Rightarrow> bytes \<Rightarrow> 'a eth_scheme \<Rightarrow> 'a eth_scheme \<Rightarrow> (nat \<times> bytes) list \<Rightarrow> nat \<Rightarrow> bool" where
  "entered netif n ip mac s s' qs i \<longleftrightarrow> i < ARP_TABLE_SIZE
     \<and> ae_state (entry i s') = ETHARP_STATE_STABLE \<and> ae_ipaddr (entry i s') = ip \<and> ae_ethaddr (entry i s') = mac
     \<and> (\<forall>j < ARP_TABLE_SIZE. j \<noteq> i \<longrightarrow> entry j s' = entry j s \<and> (is_empty (entry j s) \<or> ae_ipaddr (entry j s) \<noteq> ip))
     \<and> qs = (case queued_for ip i s of None \<Rightarrow> []
              | Some p \<Rightarrow> [(netif, eth_frame mac (nif_hwaddr n) (drop 14 (chain_data (ebufs s) [p])))])"

lemma enteredD:
  assumes "entered netif n ip mac s s' qs i" "eth_ok slots H s'"
  shows "known s' ip = Some mac" "qs = [] \<or> \<not> unknown ip s \<and> (\<exists>x. qs = [(netif, eth_frame mac (nif_hwaddr n) x)])"
    "j < ARP_TABLE_SIZE \<Longrightarrow> \<not> is_empty (entry j s) \<Longrightarrow> ae_ipaddr (entry j s) = ip \<Longrightarrow> j = i"
proof -
  have e: "i < ARP_TABLE_SIZE" "ae_state (entry i s') = ETHARP_STATE_STABLE" "ae_ipaddr (entry i s') = ip" "ae_ethaddr (entry i s') = mac"
    using assms(1) by (simp_all add: entered_def)
  then show "known s' ip = Some mac" using known_at [OF assms(2) e(1) _ e(3)] by simp
  show "qs = [] \<or> \<not> unknown ip s \<and> (\<exists>x. qs = [(netif, eth_frame mac (nif_hwaddr n) x)])"
    using assms(1) by (auto simp: entered_def queued_for_def unknown_def split: option.splits if_splits)
  show "j < ARP_TABLE_SIZE \<Longrightarrow> \<not> is_empty (entry j s) \<Longrightarrow> ae_ipaddr (entry j s) = ip \<Longrightarrow> j = i"
    using assms(1) by (auto simp: entered_def)
qed

lemma arp_flags_cases: "arp_flags n d = ETHARP_FLAG_TRY_HARD \<or> arp_flags n d = ETHARP_FLAG_FIND_ONLY"
  "arp_flags n d AND ETHARP_FLAG_STATIC_ENTRY = 0"
  by (simp_all add: arp_flags_def ETHARP_FLAG_STATIC_ENTRY_def ETHARP_FLAG_TRY_HARD_def ETHARP_FLAG_FIND_ONLY_def)

lemma arp_packet_received:
  fixes s :: "'a eth_scheme"
  assumes "eth_ok slots H s" "pool (ebufs s) \<noteq> []" "netifs s netif = Some n" "nif_flags n AND NETIF_FLAG_ETHARP \<noteq> 0" "consumes slots ip_input"
    and "length dst = 6" "length src = 6" "length mac = 6" "length thw = 6" "length pad \<le> 1472" "\<not> not_unicast ip n"
  shows "\<exists>s' qs. frame_in ip_input netif (arp_packet dst src op mac ip thw tip @ pad) s = Some s' \<and> arp_step slots H H s s'
     \<and> frames s' = frames s @ qs @ (if op = ARP_REQUEST \<and> \<not> ip_addr_isany (nif_ip n) \<and> tip = nif_ip n
          then [(netif, arp_packet mac (nif_hwaddr n) ARP_REPLY (nif_hwaddr n) (nif_ip n) mac ip @ pad)] else [])
     \<and> ((\<exists>i. entered netif n ip mac s s' qs i) \<or> unknown ip s \<and> qs = []
          \<and> (\<not> ip_addr_isany (nif_ip n) \<longrightarrow> tip = nif_ip n \<longrightarrow> (\<forall>i < ARP_TABLE_SIZE. ae_state (entry i s) = ETHARP_STATE_STATIC)))"
proof -
  define d where "d = arp_packet dst src op mac ip thw tip @ pad"
  let ?f = "arp_flags n (take 42 d)"
  from frame_in_packet [OF assms d_def] obtain s1 :: "'a eth_scheme" and H1 r s2 s3 where
    s3: "frame_in ip_input netif d s = Some s3" "arp_step slots H H s s3" "eth_ok slots H1 s1" "arp_table s1 = arp_table s" "frames s1 = frames s"
      "keeps (queued (arp_table s)) (ebufs s) (ebufs s1)"
     and r: "r = ERR_MEM \<and> s2 = s1 \<and> (\<exists>err. etharp_find_entry (Some ip) ?f s1 = Some (Inl err, s1)) \<or>
        r = ERR_OK \<and> (\<exists>i < ARP_TABLE_SIZE. (\<exists>e. entry i s3 = (set_entry netif mac ?f e)\<lparr>ae_ipaddr := ip, ae_q := None\<rparr>)
          \<and> (\<forall>j < ARP_TABLE_SIZE. j \<noteq> i \<longrightarrow> entry j s3 = entry j s)
          \<and> (\<forall>j < ARP_TABLE_SIZE. j \<noteq> i \<longrightarrow> \<not> is_empty (entry j s3) \<longrightarrow> ae_ipaddr (entry j s3) \<noteq> ip)
          \<and> frames s2 = frames s1 @ (case queued_for ip i s1 of None \<Rightarrow> []
              | Some p \<Rightarrow> [(netif, eth_frame mac (nif_hwaddr n) (drop 14 (chain_data (ebufs s1) [p])))]))"
     and fr: "frames s3 = frames s2 @ (if op = ARP_REQUEST \<and> \<not> ip_addr_isany (nif_ip n) \<and> tip = nif_ip n
          then [(netif, arp_packet mac (nif_hwaddr n) ARP_REPLY (nif_hwaddr n) (nif_ip n) mac ip @ pad)] else [])" by blast
  have e: "entry j s1 = entry j s" for j using s3(4) by (simp add: entry_def)
  from r show ?thesis
  proof (elim disjE conjE exE)
    fix err assume f: "s2 = s1" "etharp_find_entry (Some ip) ?f s1 = Some (Inl err, s1)"
    note fe = etharp_find_entry_succeeds [OF f(2) eth_ok_table [OF s3(3)], unfolded e]
    have "\<forall>i < ARP_TABLE_SIZE. ae_state (entry i s) = ETHARP_STATE_STATIC" if "\<not> ip_addr_isany (nif_ip n)" "tip = nif_ip n"
    proof -
      have "hdr_field (take 42 d) 38 4 = le32 tip"
        using arp_packet_fields(11) [OF assms(6-9) refl, of op ip tip "[]"] arp_packet_fields(12) [OF assms(6-9) d_def] by simp
      then have "?f = ETHARP_FLAG_TRY_HARD" using that by (simp add: arp_flags_def arp_for_us_def)
      then show ?thesis using fe(2) by (simp add: ETHARP_FLAG_TRY_HARD_def ETHARP_FLAG_FIND_ONLY_def)
    qed
    moreover have "unknown ip s" using fe(1) by (auto simp: unknown_def)
    ultimately show ?thesis using s3(1,2,5) fr f(1) unfolding d_def [symmetric] by (intro exI [of _ s3] exI [of _ "[]"]) simp
  next
    fix i e' assume i: "i < ARP_TABLE_SIZE" "entry i s3 = (set_entry netif mac ?f e')\<lparr>ae_ipaddr := ip, ae_q := None\<rparr>"
      "\<forall>j < ARP_TABLE_SIZE. j \<noteq> i \<longrightarrow> entry j s3 = entry j s"
      "\<forall>j < ARP_TABLE_SIZE. j \<noteq> i \<longrightarrow> \<not> is_empty (entry j s3) \<longrightarrow> ae_ipaddr (entry j s3) \<noteq> ip"
      "frames s2 = frames s1 @ (case queued_for ip i s1 of None \<Rightarrow> []
              | Some p \<Rightarrow> [(netif, eth_frame mac (nif_hwaddr n) (drop 14 (chain_data (ebufs s1) [p])))])"
    let ?qs = "case queued_for ip i s of None \<Rightarrow> []
              | Some p \<Rightarrow> [(netif, eth_frame mac (nif_hwaddr n) (drop 14 (chain_data (ebufs s) [p])))]"
    have "chain_data (ebufs s1) [p] = chain_data (ebufs s) [p]" if "queued_for ip i s = Some p" for p
      using that i(1) eth_ok_table [OF assms(1)]
      by (intro keeps_chain(2) [OF s3(6)]) (auto simp: queued_for_def queued_nth entry_def split: if_splits)
    moreover have "queued_for ip i s1 = queued_for ip i s" by (simp add: queued_for_def e)
    ultimately have "frames s2 = frames s @ ?qs" using i(5) s3(5) by (simp del: chain_data_simps split: option.split)
    moreover have "entered netif n ip mac s s3 ?qs i"
      using i(1-4) arp_flags_cases(2) by (auto simp: entered_def set_entry_def simp del: chain_data_simps)
    ultimately show ?thesis using s3(1,2) fr unfolding d_def [symmetric] by (intro exI [of _ s3] exI [of _ ?qs]) auto
  qed
qed

section \<open>A packet to an unknown host\<close>

text \<open>A neighbour: a host address of the network of the interface.\<close>

definition neighbour :: "eth_netif \<Rightarrow> u32 \<Rightarrow> bool" where
  "neighbour n ip \<longleftrightarrow> \<not> not_unicast ip n \<and> ip_addr_netcmp ip (nif_ip n) (nif_mask n)"

lemma unknown_stable: "unknown ip s \<Longrightarrow> i < ARP_TABLE_SIZE \<Longrightarrow> \<not> stable_for ip s i"
  using stable_nonempty [of ip s i] by (auto simp: unknown_def)

lemma etharp_output_asks:
  assumes "eth_ok slots H s" "netifs s netif = Some n" "outgoing (ebufs s) H q rest" "header_room (ebufs s) q" "neighbour n ip" "unknown ip s"
    and "has_ram (ebufs s)" "\<exists>i < ARP_TABLE_SIZE. ae_state (entry i s) \<noteq> ETHARP_STATE_STATIC"
  shows "\<exists>s'. etharp_output netif q ip s = Some (ERR_OK, s') \<and> arp_step slots (H - {q}) H s s' \<and> owned (ebufs s') q (q # rest)
     \<and> frames s' = frames s @ [arp_ask netif n ip]
     \<and> (\<exists>i < ARP_TABLE_SIZE. ae_state (entry i s') = ETHARP_STATE_PENDING \<and> ae_ipaddr (entry i s') = ip
          \<and> (\<exists>p x. ae_q (entry i s') = Some p \<and> one_ram (ebufs s') p x \<and> drop 14 x = chain_data (ebufs s) (q # rest)))"
proof -
  from output_header [OF assms(1,3,4)] obtain m h where m: "on_bufs (pbuf_header (Some q) (int SIZEOF_ETH_HDR)) s = Some (0, s\<lparr>ebufs := m\<rparr>)"
    "arp_step slots (H - {q}) H s (s\<lparr>ebufs := m\<rparr>)" "framed m H q rest" "length h = 14" "chain_data m (q # rest) = h @ chain_data (ebufs s) (q # rest)"
    by blast
  let ?s = "s\<lparr>ebufs := m\<rparr>"
  note d1 = arp_stepD [OF m(2)]
  have nu: "\<not> not_unicast ip n" "ip_addr_netcmp ip (nif_ip n) (nif_mask n)" using assms(5) by (simp_all add: neighbour_def)
  then have nb: "\<not> ip4_addr_isbroadcast ip (netif.truncate n)" "\<not> ip_addr_ismulticast ip" by (simp_all add: not_unicast_def)
  have un: "unknown ip ?s" using assms(6) by (simp add: unknown_def)
  have ca: "etharp_cached_entry s < ARP_TABLE_SIZE" using assms(1) by (simp add: eth_ok_def)
  have no: "\<not> stable_for ip ?s (etharp_cached_entry s)" by (rule unknown_stable [OF un ca])
  have nf: "List.find (stable_for ip ?s) [0..<ARP_TABLE_SIZE] = None"
    using unknown_stable [OF un] find_stable(1) [of ip ?s] by (cases "List.find (stable_for ip ?s) [0..<ARP_TABLE_SIZE]") auto
  have run: "etharp_output netif q ip s = etharp_query netif ip (Some q) ?s"
    using assms(2) m(1) nb nu(2) no nf by (simp add: etharp_output_def Let_def)
  have n1: "netifs ?s netif = Some n" "framed (ebufs ?s) H q rest" using assms(2) m(3) by simp_all
  from etharp_query_step [OF d1(1) n1 nu(1)] obtain r s2 where
    s2: "etharp_query netif ip (Some q) ?s = Some (r, s2)" "arp_step slots (H - {q}) H ?s s2" "owned (ebufs s2) q (q # rest)"
    and c: "r = ERR_MEM \<and> s2 = ?s \<and> (\<exists>err. etharp_find_entry (Some ip) ETHARP_FLAG_TRY_HARD ?s = Some (Inl err, ?s))
       \<or> query_result netif n ip (chain_data (ebufs ?s) (q # rest)) r ?s s2" by blast
  have hr: "has_ram (ebufs ?s)" using d1(6) assms(7) by simp
  have "query_result netif n ip (chain_data (ebufs ?s) (q # rest)) r ?s s2"
  proof (rule ccontr)
    assume "\<not> ?thesis"
    with c obtain err where "etharp_find_entry (Some ip) ETHARP_FLAG_TRY_HARD ?s = Some (Inl err, ?s)" by blast
    from etharp_find_entry_succeeds(2) [OF this] eth_ok_table [OF d1(1)] assms(8) show False
      by (auto simp: ETHARP_FLAG_TRY_HARD_def ETHARP_FLAG_FIND_ONLY_def)
  qed
  moreover have "\<not> (\<exists>i < ARP_TABLE_SIZE. ETHARP_STATE_STABLE \<le> ae_state (entry i ?s) \<and> ae_ipaddr (entry i ?s) = ip)"
    using unknown_stable [OF un] by (auto simp: stable_for_def)
  ultimately obtain i where i: "i < ARP_TABLE_SIZE" "ae_state (entry i s2) = ETHARP_STATE_PENDING" "ae_ipaddr (entry i s2) = ip"
    "if r = ERR_OK then \<exists>p. ae_q (entry i s2) = Some p \<and> one_ram (ebufs s2) p (chain_data (ebufs ?s) (q # rest)) else r = ERR_MEM \<and> \<not> has_ram (ebufs ?s)"
    "frames s2 = frames ?s @ [arp_ask netif n ip] \<or> frames s2 = frames ?s \<and> \<not> has_ram (ebufs ?s)"
    unfolding query_result_def by blast
  have "r = ERR_OK" using i(4) hr by (auto split: if_splits)
  moreover have "arp_step slots (H - {q}) H s s2" using arp_step_trans [OF m(2), of "H" s2] s2(2) m(2)
    by (auto simp: arp_step_def intro: keeps_trans)
  moreover have "drop 14 (chain_data (ebufs ?s) (q # rest)) = chain_data (ebufs s) (q # rest)" using m(4,5) by (simp del: chain_data_simps)
  moreover from i(4) calculation(1) obtain p where "ae_q (entry i s2) = Some p" "one_ram (ebufs s2) p (chain_data (ebufs ?s) (q # rest))" by auto
  moreover have "etharp_output netif q ip s = Some (r, s2)" using run s2(1) by simp
  moreover have "frames s2 = frames s @ [arp_ask netif n ip]" using i(5) hr by auto
  ultimately show ?thesis using s2(3) i(1-3) by blast
qed

lemma packet_out_asks:
  assumes "eth_ok slots H s" "netifs s netif = Some n" "length d \<le> 1500" "pool (ebufs s) \<noteq> []" "neighbour n ip" "unknown ip s"
    and "has_ram (ebufs s)" "\<exists>i < ARP_TABLE_SIZE. ae_state (entry i s) \<noteq> ETHARP_STATE_STATIC"
  shows "\<exists>s'. packet_out netif ip d s = Some s' \<and> arp_step slots H H s s' \<and> frames s' = frames s @ [arp_ask netif n ip]
     \<and> (\<exists>i < ARP_TABLE_SIZE. ae_state (entry i s') = ETHARP_STATE_PENDING \<and> ae_ipaddr (entry i s') = ip
          \<and> (\<exists>p x. ae_q (entry i s') = Some p \<and> one_ram (ebufs s') p x \<and> drop 14 x = d))"
  using assms(1,3)
proof (cases rule: outgoing_packet)
  case (dropped s1)
  then show ?thesis using assms(4) by simp
next
  case (taken p s1)
  note d1 = arp_stepD [OF taken(2)]
  have e: "entry i s1 = entry i s" for i using taken(4) by (simp add: entry_def)
  have a: "netifs s1 netif = Some n" "unknown ip s1" "has_ram (ebufs s1)" "\<exists>i < ARP_TABLE_SIZE. ae_state (entry i s1) \<noteq> ETHARP_STATE_STATIC"
    using d1(3,6) assms(2,6-8) e by (simp_all add: unknown_def)
  from etharp_output_asks [OF d1(1) a(1) taken(7,9) assms(5) a(2-4)] obtain s2 i q x where
    s2: "etharp_output netif p ip s1 = Some (ERR_OK, s2)" "arp_step slots (insert p H - {p}) (insert p H) s1 s2" "owned (ebufs s2) p [p]"
      "frames s2 = frames s1 @ [arp_ask netif n ip]" "i < ARP_TABLE_SIZE" "ae_state (entry i s2) = ETHARP_STATE_PENDING" "ae_ipaddr (entry i s2) = ip"
      "ae_q (entry i s2) = Some q" "one_ram (ebufs s2) q x" "drop 14 x = chain_data (ebufs s1) [p]" by blast
  from sent_then_freed [OF s2(2,3) taken(2,3)] obtain s3 where s3: "free_pbuf p s2 = Some s3" "arp_step slots H H s s3" "arp_table s3 = arp_table s2"
    "frames s3 = frames s2" "blk (ebufs s3) = blk (ebufs s2)" "\<forall>x. x \<noteq> p \<longrightarrow> heap (ebufs s3) x = heap (ebufs s2) x" by blast
  have "q \<noteq> p"
  proof -
    have "arp_inv slots (insert p H) (ebufs s2) (arp_table s2)" using arp_stepD(1) [OF s2(2)] by (simp add: eth_ok_def)
    moreover have "q \<in> queued (arp_table s2)" using s2(5,8) eth_ok_table [OF arp_stepD(1) [OF s2(2)]] by (auto simp: queued_nth entry_def)
    ultimately show ?thesis by (auto simp: arp_inv_def)
  qed
  then have "one_ram (ebufs s3) q x" using s2(9) s3(5,6) one_ram_cong [of "ebufs s3" q "ebufs s2"] by simp
  moreover have "entry i s3 = entry i s2" using s3(3) by (simp add: entry_def)
  moreover have "packet_out netif ip d s = Some s3" using taken(1) s2(1) s3(1) by (simp add: packet_out_def)
  moreover have "frames s3 = frames s @ [arp_ask netif n ip]" "drop 14 x = d" using s2(4,10) s3(4) taken(5,8) by simp_all
  ultimately show ?thesis using s2(5-8) s3(2) by metis
qed

text \<open>The reply of the host, when its packet is waiting.\<close>

lemma reply_sends_packet:
  fixes s :: "'a eth_scheme"
  assumes "eth_ok slots H s" "pool (ebufs s) \<noteq> []" "netifs s netif = Some n" "nif_flags n AND NETIF_FLAG_ETHARP \<noteq> 0" "consumes slots ip_input"
    and "length dst = 6" "length src = 6" "length mac = 6" "length thw = 6" "length pad \<le> 1472" "\<not> not_unicast ip n"
    and "i < ARP_TABLE_SIZE" "ae_state (entry i s) = ETHARP_STATE_PENDING" "ae_ipaddr (entry i s) = ip" "ae_q (entry i s) = Some p"
    and "one_ram (ebufs s) p x"
  shows "\<exists>s'. frame_in ip_input netif (arp_packet dst src ARP_REPLY mac ip thw tip @ pad) s = Some s' \<and> arp_step slots H H s s'
     \<and> frames s' = frames s @ [(netif, eth_frame mac (nif_hwaddr n) (drop 14 x))] \<and> known s' ip = Some mac"
proof -
  have nop: "(ARP_REPLY = ARP_REQUEST) = False" by (simp add: ARP_REPLY_def ARP_REQUEST_def)
  have ne: "\<not> is_empty (entry i s)" "\<not> unknown ip s" using assms(12-14) by (auto simp: is_empty_def unknown_def)
  from arp_packet_received [OF assms(1-11), of ARP_REPLY tip, unfolded nop] ne(2) obtain s' qs k where
    s': "frame_in ip_input netif (arp_packet dst src ARP_REPLY mac ip thw tip @ pad) s = Some s'" "arp_step slots H H s s'"
      "frames s' = frames s @ qs" "entered netif n ip mac s s' qs k" by auto
  note en = enteredD [OF s'(4) arp_stepD(1) [OF s'(2)]]
  have "queued_for ip k s = Some p" using en(3) [OF assms(12) ne(1) assms(14)] ne(1) assms(14,15) by (simp add: queued_for_def)
  then have "qs = [(netif, eth_frame mac (nif_hwaddr n) (drop 14 x))]"
    using s'(4) assms(16) by (simp add: entered_def one_ram_def del: chain_data_simps)
  then show ?thesis using s'(1-3) en(1) by auto
qed

end
