(* ===== verification/Arp_Props.thy ===== *)
theory Arp_Props
  imports Arp_Traffic
begin

text \<open>
  The properties of the ARP layer, with the board of the firmware as the example.
\<close>

section \<open>Properties\<close>

text \<open>
  An example: the board with its interface up and the table \<open>T\<close>; the heap takes the address after the
  highest one in use.
\<close>

definition bump :: "nat \<Rightarrow> (nat \<Rightarrow> pbuf option) \<Rightarrow> nat option" where
  "bump n h = (if finite (dom h) then Some (17 + Max (insert 0 (dom h))) else None)"

definition board_netif :: eth_netif where
  "board_netif = \<lparr>nif_ip = of_le32 [192, 168, 7, 1], nif_mask = of_le32 [255, 255, 255, 0], nif_mtu = 1500, nif_flags = 0x33,
     nif_gw = 0, nif_hwaddr = [0x20, 0x89, 0x84, 0x6A, 0x96, 0]\<rparr>"

definition blank_entry :: etharp_entry where
  "blank_entry = \<lparr>ae_q = None, ae_ipaddr = 0, ae_netif = None, ae_ethaddr = ethzero, ae_state = ETHARP_STATE_EMPTY, ae_ctime = 0\<rparr>"

definition board :: "etharp_entry list \<Rightarrow> eth" where
  "board T = \<lparr>ebufs = (memp_init zeroed)\<lparr>mem_malloc := bump\<rparr>, netifs = [0 \<mapsto> board_netif], eth_netif_list = [0],
     eth_netif_default = Some 0, arp_table = T, etharp_cached_entry = 0, frames = [], link_out = (\<lambda>_. ERR_OK)\<rparr>"

lemma board_sels [simp]:
  "netifs (board T) = [0 \<mapsto> board_netif]" "arp_table (board T) = T" "frames (board T) = []" "etharp_cached_entry (board T) = 0"
  "nif_flags board_netif AND NETIF_FLAG_ETHARP \<noteq> 0" "length (nif_hwaddr board_netif) = 6" "entry i (board T) = T ! i"
  by (simp_all add: board_def board_netif_def NETIF_FLAG_ETHARP_def entry_def)

lemma bump_fresh: "bump n h = Some p \<Longrightarrow> h p = None \<and> 16 < p"
proof -
  assume b: "bump n h = Some p"
  then have f: "finite (dom h)" and p: "p = 17 + Max (insert 0 (dom h))" by (auto simp: bump_def split: if_splits)
  have "x < p" if "x \<in> dom h" for x
  proof -
    have "x \<le> Max (insert 0 (dom h))" by (rule Max_ge) (use f that in auto)
    then show ?thesis using p by linarith
  qed
  then show ?thesis using p by (cases "h p") auto
qed

lemma board_ram: "has_ram (ebufs (board T))"
  by (simp add: has_ram_def board_def bump_def)

lemma board_ok:
  assumes "length T = 10" "\<forall>e \<in> set T. ae_q e = None \<and> length (ae_ethaddr e) = 6"
    and "\<forall>i < 10. \<forall>j < 10. i \<noteq> j \<longrightarrow> \<not> is_empty (T ! i) \<longrightarrow> \<not> is_empty (T ! j) \<longrightarrow> ae_ipaddr (T ! i) \<noteq> ae_ipaddr (T ! j)"
  shows "eth_ok {0..<16} {} (board T)"
proof -
  have q: "ae_q (T ! i) = None" "length (ae_ethaddr (T ! i)) = 6" if "i < 10" for i using assms(1,2) that by auto
  have "pool_ok {0..<16} (ebufs (board T))"
    using pool_ok_init by (auto simp: board_def pool_ok_def of_type_def)
  moreover have "fresh_ram {0..<16} (ebufs (board T))" using bump_fresh by (fastforce simp: fresh_ram_def board_def)
  moreover have "queued T = {}" using assms(2) by (auto simp: queued_def)
  moreover have "dom (heap (ebufs (board T))) = {}" by (simp add: board_def memp_init_def zeroed_def)
  moreover have "apart T" using assms(1,3) q by (auto simp: apart_def)
  ultimately have "arp_inv {0..<16} {} (ebufs (board T)) T"
    using assms(1) q by (simp add: arp_inv_def entry_ok_def ARP_TABLE_SIZE_def)
  then show ?thesis by (simp add: eth_ok_def ARP_TABLE_SIZE_def)
qed

lemma blank_is_empty [simp]: "is_empty blank_entry" "ae_q blank_entry = None" "length (ae_ethaddr blank_entry) = 6"
  by (simp_all add: blank_entry_def is_empty_def ethzero_def)

lemma board_blank: "eth_ok {0..<16} {} (board (replicate 10 blank_entry))"
  by (rule board_ok) simp_all

lemma board_pool: "pool (ebufs (board T)) \<noteq> []"
  by (simp add: board_def memp_init_def PBUF_POOL_SIZE_def)

definition host :: u32 where "host = of_le32 [192, 168, 7, 2]"
definition host_mac :: bytes where "host_mac = [2, 0, 0, 0, 0, 1]"

lemma host_facts: "neighbour board_netif host" "\<not> not_unicast host board_netif" "length host_mac = 6" "\<not> ip_addr_isany (nif_ip board_netif)"
  by (simp_all add: neighbour_def not_unicast_def host_def host_mac_def board_netif_def ip_addr_isany_def IPADDR_ANY_def
      ip4_addr_isbroadcast_def ip_addr_ismulticast_def ip_addr_netcmp_def of_le32_def htonl_def NETIF_FLAG_BROADCAST_def
      IPADDR_BROADCAST_def netif.truncate_def)

text \<open>
  Any traffic. Whatever frames arrive, packets are sent, ticks pass and entries are added or
  removed, in any order, the layer runs without a fault; afterwards the table is sound (addresses
  are unique, a packet waits only on a pending entry), the whole pool is free again and the heap
  holds exactly the packets queued in the table, at most one per entry: nothing leaks.
\<close>

theorem arp_serves_any_traffic:
  assumes "eth_ok slots {} s" "\<forall>ev \<in> set evs. event_ok (netifs s) ev" "consumes slots ip_input"
  shows "\<exists>s'. eth_run ip_input evs s = Some s' \<and> eth_ok slots {} s' \<and> set (pool (ebufs s')) = slots
     \<and> dom (heap (ebufs s')) = queued (arp_table s') \<and> card (queued (arp_table s')) \<le> ARP_TABLE_SIZE"
proof -
  from eth_run_step [OF assms] obtain s' where s': "eth_run ip_input evs s = Some s'" "arp_step slots {} {} s s'" by blast
  then show ?thesis using eth_ok_buffers [OF arp_stepD(1) [OF s'(2)]] arp_stepD(1) [OF s'(2)] by blast
qed

theorem arp_serves_any_traffic_witness:
  "\<exists>s'. eth_run (\<lambda>p netif. free_pbuf p) [Packet 0 host [1, 2, 3], Frame 0 [1, 2], Add_Static host host_mac, Tick, Cleanup 0]
      (board (replicate 10 blank_entry)) = Some s' \<and> set (pool (ebufs s')) = {0..<16}"
proof -
  let ?evs = "[Packet 0 host [1, 2, 3], Frame 0 [1, 2], Add_Static host host_mac, Tick, Cleanup 0]"
  have "\<forall>ev \<in> set ?evs. event_ok (netifs (board (replicate 10 blank_entry))) ev" by (simp add: host_facts)
  from arp_serves_any_traffic [OF board_blank this consumes_free] show ?thesis by blast
qed

text \<open>
  C15: Resolution. A packet to an unknown neighbour is not sent but asked for: exactly one ARP
  request for the address is broadcast, and the packet waits. When the host replies, in a packet
  of any destination and with any padding, exactly the waiting packet is sent, framed for the
  hardware address in the reply, and the address is known from then on.
\<close>

theorem arp_resolves:
  assumes "eth_ok slots {} s" "slots \<noteq> {}" "netifs s netif = Some n" "nif_flags n AND NETIF_FLAG_ETHARP \<noteq> 0" "consumes slots ip_input"
    and "has_ram (ebufs s)" "neighbour n ip" "unknown ip s" "\<exists>i < ARP_TABLE_SIZE. ae_state (entry i s) \<noteq> ETHARP_STATE_STATIC"
    and "length d \<le> 1500" "length dst = 6" "length src = 6" "length mac = 6" "length thw = 6" "length pad \<le> 1472"
  shows "\<exists>s1 s2. eth_do ip_input (Packet netif ip d) s = Some s1 \<and> frames s1 = frames s @ [arp_ask netif n ip]
     \<and> eth_do ip_input (Frame netif (arp_packet dst src ARP_REPLY mac ip thw tip @ pad)) s1 = Some s2
     \<and> frames s2 = frames s1 @ [(netif, eth_frame mac (nif_hwaddr n) d)] \<and> known s2 ip = Some mac \<and> eth_ok slots {} s2"
proof -
  have pool: "pool (ebufs t) \<noteq> []" if "eth_ok slots {} t" for t using eth_ok_buffers(1) [OF that] assms(2) by auto
  from packet_out_asks [OF assms(1,3,10) pool [OF assms(1)] assms(7,8,6,9)] obtain s1 i p x where
    s1: "packet_out netif ip d s = Some s1" "arp_step slots {} {} s s1" "frames s1 = frames s @ [arp_ask netif n ip]"
      "i < ARP_TABLE_SIZE" "ae_state (entry i s1) = ETHARP_STATE_PENDING" "ae_ipaddr (entry i s1) = ip"
      "ae_q (entry i s1) = Some p" "one_ram (ebufs s1) p x" "drop 14 x = d" by blast
  note d1 = arp_stepD [OF s1(2)]
  have nu: "\<not> not_unicast ip n" using assms(7) by (simp add: neighbour_def)
  have n1: "netifs s1 netif = Some n" using d1(3) assms(3) by simp
  from reply_sends_packet [OF d1(1) pool [OF d1(1)] n1 assms(4,5,11-15) nu s1(4-8), of tip] obtain s2 where
    s2: "frame_in ip_input netif (arp_packet dst src ARP_REPLY mac ip thw tip @ pad) s1 = Some s2" "arp_step slots {} {} s1 s2"
      "frames s2 = frames s1 @ [(netif, eth_frame mac (nif_hwaddr n) (drop 14 x))]" "known s2 ip = Some mac" by blast
  then show ?thesis using s1(1,3,9) arp_stepD(1) [OF s2(2)] by auto
qed

theorem arp_resolves_witness:
  "\<exists>s1 s2. eth_do (\<lambda>p netif. free_pbuf p) (Packet 0 host [1, 2, 3]) (board (replicate 10 blank_entry)) = Some s1
     \<and> eth_do (\<lambda>p netif. free_pbuf p) (Frame 0 (arp_packet (nif_hwaddr board_netif) host_mac ARP_REPLY host_mac host (nif_hwaddr board_netif) (nif_ip board_netif) @ [])) s1 = Some s2
     \<and> frames s2 = frames s1 @ [(0, eth_frame host_mac (nif_hwaddr board_netif) [1, 2, 3])] \<and> known s2 host = Some host_mac"
proof -
  have "unknown host (board (replicate 10 blank_entry))" "\<exists>i < ARP_TABLE_SIZE. ae_state (entry i (board (replicate 10 blank_entry))) \<noteq> ETHARP_STATE_STATIC"
    by (simp_all add: unknown_def ARP_TABLE_SIZE_def) (auto simp: blank_entry_def intro: exI [of _ 0])
  from arp_resolves [OF board_blank _ _ _ consumes_free board_ram host_facts(1) this, of 0 "[1, 2, 3]" "nif_hwaddr board_netif" host_mac host_mac
      "nif_hwaddr board_netif" "[]" "nif_ip board_netif"]
  show ?thesis by (auto simp: host_facts)
qed

text \<open>
  C16: Requests. An ARP request for the address of the interface is answered by exactly one reply,
  to the sender, that carries the hardware address of the interface; the only other frame that can
  leave, before it, is a packet that waited for the sender.
\<close>

theorem arp_request_answered:
  fixes s :: "'a eth_scheme"
  assumes "eth_ok slots {} s" "slots \<noteq> {}" "netifs s netif = Some n" "nif_flags n AND NETIF_FLAG_ETHARP \<noteq> 0" "consumes slots ip_input"
    and "length dst = 6" "length src = 6" "length mac = 6" "length thw = 6" "length pad \<le> 1472" "\<not> not_unicast ip n"
    and "\<not> ip_addr_isany (nif_ip n)"
  shows "\<exists>s' out. eth_do ip_input (Frame netif (arp_packet dst src ARP_REQUEST mac ip thw (nif_ip n) @ pad)) s = Some s' \<and> eth_ok slots {} s'
     \<and> frames s' = frames s @ out @ [(netif, arp_packet mac (nif_hwaddr n) ARP_REPLY (nif_hwaddr n) (nif_ip n) mac ip @ pad)]
     \<and> (out = [] \<or> \<not> unknown ip s \<and> (\<exists>x. out = [(netif, eth_frame mac (nif_hwaddr n) x)]))
     \<and> ((\<exists>i < ARP_TABLE_SIZE. ae_state (entry i s) \<noteq> ETHARP_STATE_STATIC) \<longrightarrow> known s' ip = Some mac)"
proof -
  have pool: "pool (ebufs s) \<noteq> []" using eth_ok_buffers(1) [OF assms(1)] assms(2) by auto
  from arp_packet_received [OF assms(1) pool assms(3-11), of ARP_REQUEST "nif_ip n"] assms(12) obtain s' qs where
    s': "frame_in ip_input netif (arp_packet dst src ARP_REQUEST mac ip thw (nif_ip n) @ pad) s = Some s'" "arp_step slots {} {} s s'"
      "frames s' = frames s @ qs @ [(netif, arp_packet mac (nif_hwaddr n) ARP_REPLY (nif_hwaddr n) (nif_ip n) mac ip @ pad)]"
      "(\<exists>i. entered netif n ip mac s s' qs i) \<or> qs = [] \<and> (\<forall>i < ARP_TABLE_SIZE. ae_state (entry i s) = ETHARP_STATE_STATIC)" by auto
  note ok = arp_stepD(1) [OF s'(2)]
  from s'(4) have "qs = [] \<or> \<not> unknown ip s \<and> (\<exists>x. qs = [(netif, eth_frame mac (nif_hwaddr n) x)])"
    "(\<exists>i < ARP_TABLE_SIZE. ae_state (entry i s) \<noteq> ETHARP_STATE_STATIC) \<longrightarrow> known s' ip = Some mac"
    using enteredD(1,2) [OF _ ok] by blast+
  then show ?thesis using s'(1,3) ok by (intro exI [of _ s'] exI [of _ qs]) simp
qed

theorem arp_request_answered_witness:
  "\<exists>s' out. eth_do (\<lambda>p netif. free_pbuf p) (Frame 0 (arp_packet ethbroadcast host_mac ARP_REQUEST host_mac host ethzero (nif_ip board_netif) @ replicate 18 0))
       (board (replicate 10 blank_entry)) = Some s' \<and> known s' host = Some host_mac
     \<and> frames s' = out @ [(0, arp_packet host_mac (nif_hwaddr board_netif) ARP_REPLY (nif_hwaddr board_netif) (nif_ip board_netif) host_mac host @ replicate 18 0)]"
proof -
  have "\<exists>i < ARP_TABLE_SIZE. ae_state (entry i (board (replicate 10 blank_entry))) \<noteq> ETHARP_STATE_STATIC"
    by (simp add: ARP_TABLE_SIZE_def) (auto simp: blank_entry_def intro: exI [of _ 0])
  with arp_request_answered [OF board_blank _ _ _ consumes_free, of 0 board_netif ethbroadcast host_mac host_mac ethzero "replicate 18 0" host]
  show ?thesis by (auto simp: host_facts ethbroadcast_def ethzero_def)
qed

lemma aged_q: "ae_q ((aged ^^ n) e) = ae_q e \<or> ae_q ((aged ^^ n) e) = None"
proof (induction n)
  case (Suc n)
  have "ae_q (aged x) = ae_q x \<or> ae_q (aged x) = None" for x by (simp add: aged_def Let_def)
  then show ?case using Suc by (metis comp_apply funpow.simps(2))
qed simp

lemma expired_packet_freed:
  assumes "eth_ok slots H s" "i < ARP_TABLE_SIZE" "arp_step slots H H s s'" "\<forall>i < ARP_TABLE_SIZE. entry i s' = (aged ^^ n) (entry i s)"
    and "is_empty (entry i s')" "ae_q (entry i s) = Some p"
  shows "heap (ebufs s') p = None"
proof -
  note ok = arp_stepD(1) [OF assms(3)]
  have "arp_inv slots H (ebufs s) (arp_table s)" and inv': "arp_inv slots H (ebufs s') (arp_table s')"
    using assms(1) ok by (simp_all add: eth_ok_def)
  moreover have "p \<in> queued (arp_table s)"
    using assms(2,6) eth_ok_table [OF assms(1)] by (auto simp: queued_nth entry_def)
  ultimately have pH: "p \<notin> H" and ap: "apart (arp_table s)" by (auto simp: arp_inv_def)
  have "p \<notin> queued (arp_table s')"
  proof
    assume "p \<in> queued (arp_table s')"
    then obtain j where j: "j < ARP_TABLE_SIZE" "ae_q (entry j s') = Some p"
      using eth_ok_table [OF ok] by (auto simp: queued_nth entry_def)
    then have "ae_q (entry j s) = Some p" using assms(4) aged_q [of n "entry j s"] by auto
    then have "j = i" using apartD(1) [OF ap, of i j p] assms(2,6) j(1) eth_ok_table [OF assms(1)] by (auto simp: entry_def)
    then show False using j(2) assms(5) eth_ok_entry [OF ok assms(2)] by (simp add: entry_ok_def is_empty_def)
  qed
  then show ?thesis using inv' pH by (auto simp: arp_inv_def)
qed

text \<open>
  C19: Ageing. A static entry never ages. A pending entry lives through one tick, with its packet, and
  is gone after two, its packet freed. A dynamic entry keeps its address through ticks up to age 239 and is
  empty after that.
\<close>

theorem arp_entries_age:
  assumes "eth_ok slots H s" "i < ARP_TABLE_SIZE"
  shows "\<exists>s'. ticks n s = Some s' \<and> eth_ok slots H s' \<and> frames s' = frames s
     \<and> (ae_state (entry i s) = ETHARP_STATE_STATIC \<longrightarrow> entry i s' = entry i s)
     \<and> (ae_state (entry i s) = ETHARP_STATE_PENDING \<longrightarrow> ae_ctime (entry i s) = 0 \<longrightarrow>
          (if n < 2 then ae_state (entry i s') = ETHARP_STATE_PENDING \<and> ae_q (entry i s') = ae_q (entry i s) \<and> ae_ipaddr (entry i s') = ae_ipaddr (entry i s)
           else is_empty (entry i s') \<and> (\<forall>p. ae_q (entry i s) = Some p \<longrightarrow> heap (ebufs s') p = None)))
     \<and> (is_dynamic (entry i s) \<longrightarrow> unat (ae_ctime (entry i s)) < 240 \<longrightarrow>
          (if unat (ae_ctime (entry i s)) + n < 240
           then is_dynamic (entry i s') \<and> ae_ipaddr (entry i s') = ae_ipaddr (entry i s) \<and> ae_ethaddr (entry i s') = ae_ethaddr (entry i s)
           else is_empty (entry i s')))"
proof -
  from ticks_step [OF assms(1), of n] obtain s' where s': "ticks n s = Some s'" "arp_step slots H H s s'" "frames s' = frames s"
    "\<forall>i < ARP_TABLE_SIZE. entry i s' = (aged ^^ n) (entry i s)" by blast
  note ok = arp_stepD(1) [OF s'(2)]
  have e: "entry i s' = (aged ^^ n) (entry i s)" using s'(4) assms(2) by simp
  have "ae_state (entry i s) = ETHARP_STATE_STATIC \<longrightarrow> entry i s' = entry i s" using e aged_static by simp
  moreover have "if n < 2 then ae_state (entry i s') = ETHARP_STATE_PENDING \<and> ae_q (entry i s') = ae_q (entry i s) \<and> ae_ipaddr (entry i s') = ae_ipaddr (entry i s)
           else is_empty (entry i s') \<and> (\<forall>p. ae_q (entry i s) = Some p \<longrightarrow> heap (ebufs s') p = None)"
    if p: "ae_state (entry i s) = ETHARP_STATE_PENDING" "ae_ctime (entry i s) = 0"
  proof (cases "n < 2")
    case True
    then have "n = 0 \<or> n = 1" by auto
    then show ?thesis using e p aged_pending(1) [OF p] by auto
  next
    case False
    then have "is_empty (entry i s')" using aged_pending(2) [OF p, of n] e by simp
    then show ?thesis using False expired_packet_freed [OF assms s'(2,4)] by simp
  qed
  moreover have "if unat (ae_ctime (entry i s)) + n < 240
           then is_dynamic (entry i s') \<and> ae_ipaddr (entry i s') = ae_ipaddr (entry i s) \<and> ae_ethaddr (entry i s') = ae_ethaddr (entry i s)
           else is_empty (entry i s')" if "is_dynamic (entry i s)" "unat (ae_ctime (entry i s)) < 240"
    using aged_dynamic [OF that, of n] e by (simp split: if_splits)
  ultimately show ?thesis using s'(1,3) ok by blast
qed

definition stable_entry :: "u32 \<Rightarrow> bytes \<Rightarrow> u8 \<Rightarrow> etharp_entry" where
  "stable_entry ip mac age = \<lparr>ae_q = None, ae_ipaddr = ip, ae_netif = Some 0, ae_ethaddr = mac, ae_state = ETHARP_STATE_STABLE, ae_ctime = age\<rparr>"

lemma board_one:
  assumes "ae_q e = None" "length (ae_ethaddr e) = 6"
  shows "eth_ok {0..<16} {} (board (e # replicate 9 blank_entry))"
  by (rule board_ok) (use assms in \<open>auto simp: nth_Cons split: nat.splits\<close>)

theorem arp_entries_age_witness:
  "\<exists>s s'. ticks 139 (board (stable_entry host host_mac 100 # replicate 9 blank_entry)) = Some s \<and> ae_ethaddr (entry 0 s) = host_mac
     \<and> ticks 140 (board (stable_entry host host_mac 100 # replicate 9 blank_entry)) = Some s' \<and> is_empty (entry 0 s')"
proof -
  let ?b = "board (stable_entry host host_mac 100 # replicate 9 blank_entry)"
  have ok: "eth_ok {0..<16} {} ?b" by (rule board_one) (simp_all add: stable_entry_def host_facts)
  have d: "is_dynamic (entry 0 ?b)" "unat (ae_ctime (entry 0 ?b)) = 100"  "ae_ethaddr (entry 0 ?b) = host_mac" "0 < ARP_TABLE_SIZE"
    by (simp_all add: stable_entry_def is_dynamic_def less_eq_etharp_state_def less_etharp_state_def ARP_TABLE_SIZE_def)
  show ?thesis using arp_entries_age [OF ok d(4), of 139] arp_entries_age [OF ok d(4), of 140] d(1-3) by auto
qed

text \<open>
  C20: A static entry does not last. Any ARP packet that names its address as the sender, request or
  reply and to whomever it is addressed, makes the entry dynamic with the hardware address of the packet.
\<close>

theorem static_entry_overwritten:
  fixes s :: "'a eth_scheme"
  assumes "eth_ok slots {} s" "slots \<noteq> {}" "netifs s netif = Some n" "nif_flags n AND NETIF_FLAG_ETHARP \<noteq> 0" "consumes slots ip_input"
    and "length dst = 6" "length src = 6" "length mac = 6" "length thw = 6" "length pad \<le> 1472" "\<not> not_unicast ip n"
    and "i < ARP_TABLE_SIZE" "ae_state (entry i s) = ETHARP_STATE_STATIC" "ae_ipaddr (entry i s) = ip"
  shows "\<exists>s'. eth_do ip_input (Frame netif (arp_packet dst src op mac ip thw tip @ pad)) s = Some s'
     \<and> ae_state (entry i s') = ETHARP_STATE_STABLE \<and> known s' ip = Some mac"
proof -
  have pool: "pool (ebufs s) \<noteq> []" using eth_ok_buffers(1) [OF assms(1)] assms(2) by auto
  have ne: "\<not> is_empty (entry i s)" "\<not> unknown ip s" using assms(12-14) by (auto simp: is_empty_def unknown_def)
  from arp_packet_received [OF assms(1) pool assms(3-11), of op tip] ne(2) obtain s' qs k where
    s': "frame_in ip_input netif (arp_packet dst src op mac ip thw tip @ pad) s = Some s'" "arp_step slots {} {} s s'"
      "entered netif n ip mac s s' qs k" by blast
  note en = enteredD [OF s'(3) arp_stepD(1) [OF s'(2)]]
  have "ae_state (entry i s') = ETHARP_STATE_STABLE" using en(3) [OF assms(12) ne(1) assms(14)] s'(3) by (simp add: entered_def)
  then show ?thesis using s'(1) en(1) by auto
qed

theorem static_entry_overwritten_witness:
  "\<exists>s'. eth_do (\<lambda>p netif. free_pbuf p) (Frame 0 (arp_packet ethbroadcast [6, 6, 6, 6, 6, 6] ARP_REPLY [6, 6, 6, 6, 6, 6] host ethzero 0 @ []))
       (board ((stable_entry host host_mac 0)\<lparr>ae_state := ETHARP_STATE_STATIC\<rparr> # replicate 9 blank_entry)) = Some s'
     \<and> known s' host = Some [6, 6, 6, 6, 6, 6]"
proof -
  let ?b = "board ((stable_entry host host_mac 0)\<lparr>ae_state := ETHARP_STATE_STATIC\<rparr> # replicate 9 blank_entry)"
  have ok: "eth_ok {0..<16} {} ?b" by (rule board_one) (simp_all add: stable_entry_def host_facts)
  have i: "0 < ARP_TABLE_SIZE" "ae_state (entry 0 ?b) = ETHARP_STATE_STATIC" "ae_ipaddr (entry 0 ?b) = host"
    by (simp_all add: stable_entry_def ARP_TABLE_SIZE_def)
  have l: "length ethbroadcast = 6" "length ethzero = 6" by (simp_all add: ethbroadcast_def ethzero_def)
  from static_entry_overwritten [OF ok _ _ _ consumes_free l(1) _ _ l(2) _ _ i, of 0 board_netif "[6, 6, 6, 6, 6, 6]" "[6, 6, 6, 6, 6, 6]" "[]" ARP_REPLY 0]
  show ?thesis by (auto simp: host_facts)
qed

lemma find_addr_eq:
  assumes "eth_ok slots H s"
  shows "etharp_find_addr ip s = Some (map_option (\<lambda>i. (i, ae_ethaddr (entry i s), ip)) (List.find (stable_for ip s) [0..<ARP_TABLE_SIZE]), s)"
proof (cases "List.find (stable_for ip s) [0..<ARP_TABLE_SIZE]")
  case None
  have "etharp_find_addr ip s = Some (None, s)"
  proof (cases "unknown ip s")
    case True
    then show ?thesis using etharp_find_addr_absent [OF assms] by (simp add: unknown_def)
  next
    case False
    then obtain i where i: "i < ARP_TABLE_SIZE" "\<not> is_empty (entry i s)" "ae_ipaddr (entry i s) = ip" by (auto simp: unknown_def)
    then have "\<not> ETHARP_STATE_STABLE \<le> ae_state (entry i s)" using find_stable(2) [OF None i(1)] by (simp add: stable_for_def)
    then show ?thesis using find_entry_present [OF assms i] by (simp add: etharp_find_addr_def)
  qed
  then show ?thesis using None by simp
next
  case (Some i)
  from find_stable(1) [OF Some] have i: "i < ARP_TABLE_SIZE" "ETHARP_STATE_STABLE \<le> ae_state (entry i s)" "ae_ipaddr (entry i s) = ip"
    by (simp_all add: stable_for_def)
  show ?thesis using etharp_find_addr_present [OF assms i] Some by simp
qed

lemma find_addr_others:
  assumes "eth_ok slots H s" "eth_ok slots H s'" "\<forall>j < ARP_TABLE_SIZE. j \<noteq> i \<longrightarrow> entry j s' = entry j s" "ae_ipaddr (entry i s') \<noteq> x"
  shows "\<exists>r r'. etharp_find_addr x s = Some (r, s) \<and> etharp_find_addr x s' = Some (r', s') \<and> (r' = r \<or> r' = None)"
proof (cases "List.find (stable_for x s') [0..<ARP_TABLE_SIZE]")
  case None
  then show ?thesis using find_addr_eq [OF assms(1), of x] find_addr_eq [OF assms(2), of x] by simp
next
  case (Some j)
  note j = find_stable(1) [OF Some]
  then have "j \<noteq> i" using assms(4) by (auto simp: stable_for_def)
  then have e: "entry j s' = entry j s" using assms(3) j by simp
  then have "etharp_find_addr x s = Some (Some (j, ae_ethaddr (entry j s), x), s)"
    using j by (intro etharp_find_addr_present [OF assms(1)]) (auto simp: stable_for_def)
  then show ?thesis using find_addr_eq [OF assms(2), of x] Some e by simp
qed

text \<open>
  C17: Lookup. When an update succeeds, the address is found with the new hardware address; every other
  address is found as before, or not at all, when the update took over its entry.
\<close>

theorem arp_lookup_after_update:
  assumes "eth_ok slots H s" "netifs s netif = Some n" "length mac = 6" "etharp_update_arp_entry netif ip mac flags s = Some (ERR_OK, s')"
  shows "(\<exists>i. etharp_find_addr ip s' = Some (Some (i, mac, ip), s'))
     \<and> (\<forall>x. x \<noteq> ip \<longrightarrow> (\<exists>r r'. etharp_find_addr x s = Some (r, s) \<and> etharp_find_addr x s' = Some (r', s') \<and> (r' = r \<or> r' = None)))"
proof -
  have "\<not> not_unicast ip n" using assms(2,4) by (auto simp: etharp_update_arp_entry_def)
  from etharp_update_step [OF assms(1-3) this, of flags] assms(4) obtain i e where ok: "arp_step slots H H s s'"
    and i: "i < ARP_TABLE_SIZE" "entry i s' = (set_entry netif mac flags e)\<lparr>ae_ipaddr := ip, ae_q := None\<rparr>"
      "\<forall>j < ARP_TABLE_SIZE. j \<noteq> i \<longrightarrow> entry j s' = entry j s" by auto
  note ok' = arp_stepD(1) [OF ok]
  have st: "ETHARP_STATE_STABLE \<le> ae_state (entry i s')" "ae_ipaddr (entry i s') = ip" "ae_ethaddr (entry i s') = mac"
    using i(2) by (simp_all add: set_entry_def less_eq_etharp_state_def)
  have "\<exists>i. etharp_find_addr ip s' = Some (Some (i, mac, ip), s')"
    using etharp_find_addr_present [OF ok' i(1) st(1,2)] st(3) by simp
  moreover have "\<exists>r r'. etharp_find_addr x s = Some (r, s) \<and> etharp_find_addr x s' = Some (r', s') \<and> (r' = r \<or> r' = None)"
    if "x \<noteq> ip" for x
    by (rule find_addr_others [OF assms(1) ok' i(3)]) (use st(2) that in simp)
  ultimately show ?thesis by blast
qed

theorem arp_lookup_after_update_witness:
  "\<exists>s' i. etharp_update_arp_entry 0 host host_mac ETHARP_FLAG_TRY_HARD (board (replicate 10 blank_entry)) = Some (ERR_OK, s')
     \<and> etharp_find_addr host s' = Some (Some (i, host_mac, host), s')"
proof -
  let ?b = "board (replicate 10 blank_entry)"
  have n: "netifs ?b 0 = Some board_netif" by simp
  from etharp_update_step [OF board_blank n host_facts(3,2), of ETHARP_FLAG_TRY_HARD] obtain r s' where
    u: "etharp_update_arp_entry 0 host host_mac ETHARP_FLAG_TRY_HARD ?b = Some (r, s')"
      "r = ERR_OK \<or> (\<exists>err. etharp_find_entry (Some host) ETHARP_FLAG_TRY_HARD ?b = Some (Inl err, ?b))" by blast
  have "ae_state (entry 0 ?b) \<noteq> ETHARP_STATE_STATIC" by (simp add: blank_entry_def)
  then have "r = ERR_OK" using u(2) etharp_find_entry_succeeds(2) [of host ETHARP_FLAG_TRY_HARD ?b _ ?b 0]
    by (auto simp: ARP_TABLE_SIZE_def ETHARP_FLAG_TRY_HARD_def ETHARP_FLAG_FIND_ONLY_def)
  then show ?thesis using u(1) arp_lookup_after_update [OF board_blank n host_facts(3), of host ETHARP_FLAG_TRY_HARD s'] by auto
qed

text \<open>
  C18: Recycling. For a new address the search takes an entry that costs least: an empty one, then the
  oldest dynamic one, then the oldest one that waits without a packet, then the oldest with a packet;
  it never takes a static one and gives up only when all are static.
\<close>

theorem arp_recycles_least:
  assumes "eth_ok slots H s" "unknown ip s" "flags AND ETHARP_FLAG_FIND_ONLY = 0" "flags AND ETHARP_FLAG_TRY_HARD \<noteq> 0"
  shows "\<exists>r s'. etharp_find_entry (Some ip) flags s = Some (r, s') \<and> (case r of
      Inl err \<Rightarrow> err = ERR_MEM \<and> s' = s \<and> (\<forall>j < ARP_TABLE_SIZE. cost (entry j s) = 1024)
    | Inr i \<Rightarrow> i < ARP_TABLE_SIZE \<and> cost (entry i s) < 1024 \<and> (\<forall>j < ARP_TABLE_SIZE. cost (entry i s) \<le> cost (entry j s)))"
  using find_entry_least [OF assms(1) _ assms(3,4)] assms(2) unfolding unknown_def by blast

theorem arp_recycles_least_witness:
  "\<exists>i s'. etharp_find_entry (Some host) ETHARP_FLAG_TRY_HARD (board (replicate 10 blank_entry)) = Some (Inr i, s')
     \<and> (\<forall>j < ARP_TABLE_SIZE. cost (entry i (board (replicate 10 blank_entry))) \<le> cost (entry j (board (replicate 10 blank_entry))))"
proof -
  let ?b = "board (replicate 10 blank_entry)"
  have f: "unknown host ?b" "ETHARP_FLAG_TRY_HARD AND ETHARP_FLAG_FIND_ONLY = 0" "ETHARP_FLAG_TRY_HARD AND ETHARP_FLAG_TRY_HARD \<noteq> 0"
    by (simp_all add: unknown_def ARP_TABLE_SIZE_def ETHARP_FLAG_TRY_HARD_def ETHARP_FLAG_FIND_ONLY_def)
  have c: "cost (entry 0 ?b) = 0" "0 < ARP_TABLE_SIZE" by (simp_all add: cost_cases(1) ARP_TABLE_SIZE_def)
  from arp_recycles_least [OF board_blank f] obtain r s' where r: "etharp_find_entry (Some host) ETHARP_FLAG_TRY_HARD ?b = Some (r, s')"
    "case r of Inl err \<Rightarrow> err = ERR_MEM \<and> s' = ?b \<and> (\<forall>j < ARP_TABLE_SIZE. cost (entry j ?b) = 1024)
      | Inr i \<Rightarrow> i < ARP_TABLE_SIZE \<and> cost (entry i ?b) < 1024 \<and> (\<forall>j < ARP_TABLE_SIZE. cost (entry i ?b) \<le> cost (entry j ?b))" by blast
  show ?thesis
  proof (cases r)
    case (Inl err)
    then show ?thesis using r(2) c by fastforce
  next
    case (Inr i)
    then show ?thesis using r by auto
  qed
qed

end
