(* ===== verification/Arp_App.thy ===== *)
theory Arp_App
  imports Arp_Props App
begin

text \<open>
  The ARP layer behind \<open>usb_polling\<close> of the application.
\<close>

section \<open>The stack behind the application\<close>

text \<open>\<open>ethernet_input\<close> on the state of the application: the buffers are the application's, the rest of the stack is \<open>lwip\<close>.\<close>

definition via_eth :: "(nat \<Rightarrow> nat \<Rightarrow> eth \<Rightarrow> eth option) \<Rightarrow> nat \<Rightarrow> nat \<Rightarrow> (eth, 'a) app_scheme \<Rightarrow> (eth, 'a) app_scheme option" where
  "via_eth ip_input netif p t = do {
     (e, x) \<leftarrow> ethernet_input ip_input p netif ((lwip t)\<lparr>ebufs := bufs t\<rparr>);
     Some (t\<lparr>lwip := x, bufs := ebufs x\<rparr>) }"

definition stack :: "(eth, 'a) app_scheme \<Rightarrow> eth" where
  "stack s = (lwip s)\<lparr>ebufs := bufs s\<rparr>"

lemma usb_polling_packet:
  assumes "client (cls (usb s)) = b" "0 < recvSize b" "recvSize b \<le> 1514" "length (received b) = 1514"
    and "new_packet PBUF_RAW (take (nat (recvSize b)) (received b)) (stack s) = Some (Some p, x)"
    and "heap (ebufs x) p = Some c" "unat (p_len c) = nat (recvSize b)"
  shows "usb_polling input s = do {
         s \<leftarrow> input p (s\<lparr>bufs := ebufs x, usb := clear_recvSize (usb s)\<rparr>);
         (k, m) \<leftarrow> pbuf_free (Some p) (bufs s);
         stmr_run link_led_off (set_led LINK_LED True (s\<lparr>bufs := m\<rparr>)) }"
    and "stack (s\<lparr>bufs := ebufs x, usb := clear_recvSize (usb s)\<rparr>) = x"
proof -
  let ?d = "take (nat (recvSize b)) (received b)"
  have l: "length ?d = nat (recvSize b)" using assms(2-4) by simp
  have w: "of_nat (length ?d) = (word_of_int (recvSize b) :: u16)" unfolding l using assms(2) by simp
  from assms(5) obtain m1 m2 where m: "pbuf_alloc PBUF_RAW (word_of_int (recvSize b)) PBUF_POOL (bufs s) = Some (Some p, m1)"
    "payload_write p 0 ?d m1 = Some m2" "x = (stack s)\<lparr>ebufs := m2\<rparr>"
    unfolding new_packet_def on_bufs_def do_bufs_def w by (auto simp: stack_def split: option.splits bind_splits)
  have pl: "p_len c = word_of_int (recvSize b)"
    using assms(2,3,7) u16_int [of "recvSize b"] by (simp add: word_unat_eq_iff)
  have hm: "heap m2 p = Some c" using assms(6) m(3) by simp
  then have "(heap m2)(p \<mapsto> c) = heap m2" by (simp add: fun_upd_idem)
  then have u: "upd p (\<lambda>x. x\<lparr>p_len := word_of_int (recvSize b)\<rparr>) m2 = Some m2"
    using hm pl [symmetric] by (simp add: upd_def)
  have "rd_at (received b) 0 (nat (recvSize b)) = Some ?d" using assms(2-4) by (simp add: rd_at_Some)
  then show "usb_polling input s = do {
         s \<leftarrow> input p (s\<lparr>bufs := ebufs x, usb := clear_recvSize (usb s)\<rparr>);
         (k, m) \<leftarrow> pbuf_free (Some p) (bufs s);
         stmr_run link_led_off (set_led LINK_LED True (s\<lparr>bufs := m\<rparr>)) }"
    using assms(1,2) m u by (simp add: usb_polling_def Let_def)
  show "stack (s\<lparr>bufs := ebufs x, usb := clear_recvSize (usb s)\<rparr>) = x" using m(3) by (simp add: stack_def)
qed


definition board_app :: "bytes \<Rightarrow> eth app" where
  "board_app d = \<lparr>tmrs = tmrs (app_at d), stmrs = stmrs (app_at d), now = 144 * 60000, ctrl_read = 0, accesses = 0, pace = \<lambda>k. 0,
     usb = idle_dev (deliver d inbox0), bufs = ebufs (board (replicate 10 blank_entry)), lwip = board (replicate 10 blank_entry),
     lit = \<lambda>_. True, led_g = False, led_o = False, led_r = False, outputs = 0\<rparr>"


end
