(* ===== verification/Icmp.thy ===== *)
theory Icmp
  imports Etharp Udp
begin

text \<open>
  The input side of IP and ICMP over the interfaces of \<open>Etharp\<close>: \<open>ip_input\<close>, \<open>ip_output_if\<close> and
  \<open>ip_output\<close> of \<open>src/core/ipv4/ip.c\<close> and all of \<open>icmp.c\<close>, with \<open>netif->output\<close> being \<open>etharp_output\<close> as
  \<open>output_fn\<close> of \<open>app.c\<close> sets it.

  The handlers of the other protocols, reassembly and fragmentation are the record \<open>ip_env\<close>. A pointer to
  the IP header is the buffer it points into and the offset in its block: it stays when the payload pointer
  of the buffer moves. Statistics and the debug output have no effect in this build.
\<close>

section \<open>State\<close>

record ip4 = eth +
  ip_ident :: u16
  cur_src :: u32
  cur_dest :: u32
  cur_netif :: "nat option"
  cur_header :: "(nat \<times> nat) option"

record 's ip_env =
  raw_input :: "nat \<Rightarrow> nat \<Rightarrow> 's \<Rightarrow> (u8 \<times> 's) option"
  udp_handler :: "nat \<Rightarrow> nat \<Rightarrow> 's \<Rightarrow> 's option"
  tcp_handler :: "nat \<Rightarrow> nat \<Rightarrow> 's \<Rightarrow> 's option"
  ip_reass :: "nat \<Rightarrow> 's \<Rightarrow> (nat option \<times> 's) option"
  frag_output :: "nat \<Rightarrow> nat \<Rightarrow> u32 \<Rightarrow> 's \<Rightarrow> (err_t \<times> 's) option"

definition IP_PROTO_ICMP :: u8 where "IP_PROTO_ICMP = 1"
definition IP_PROTO_TCP :: u8 where "IP_PROTO_TCP = 6"
definition IP_MF :: u16 where "IP_MF = 0x2000"
definition IP_OFFMASK :: u16 where "IP_OFFMASK = 0x1FFF"
definition ICMP_TTL :: u8 where "ICMP_TTL = 255"
definition ICMP_ER :: u8 where "ICMP_ER = 0"
definition ICMP_DUR :: u8 where "ICMP_DUR = 3"
definition ICMP_ECHO :: u8 where "ICMP_ECHO = 8"
definition ICMP_TE :: u8 where "ICMP_TE = 11"
definition ICMP_DUR_PROTO :: u8 where "ICMP_DUR_PROTO = 2"
definition SIZEOF_ICMP_ECHO_HDR :: nat where "SIZEOF_ICMP_ECHO_HDR = 8"
definition ICMP_DEST_UNREACH_DATASIZE :: nat where "ICMP_DEST_UNREACH_DATASIZE = 8"
definition DHCP_ACCEPT_PORT :: u16 where "DHCP_ACCEPT_PORT = 67"

text \<open>Memory access through a pointer into the block of a buffer.\<close>

definition blk_read :: "nat \<Rightarrow> nat \<Rightarrow> nat \<Rightarrow> pbuf_mem \<Rightarrow> bytes option" where
  "blk_read a off n m = do { b \<leftarrow> heap m a; rd_at (blk m a) off n }"

definition blk_write :: "nat \<Rightarrow> nat \<Rightarrow> bytes \<Rightarrow> pbuf_mem \<Rightarrow> pbuf_mem option" where
  "blk_write a off d m = do { b \<leftarrow> heap m a; x \<leftarrow> wr_at (blk m a) off d; Some (m\<lparr>blk := (blk m)(a := x)\<rparr>) }"

definition ip_field :: "nat \<times> nat \<Rightarrow> nat \<Rightarrow> nat \<Rightarrow> 'a eth_scheme \<Rightarrow> bytes option" where
  "ip_field h off n s = blk_read (fst h) (snd h + off) n (ebufs s)"

definition set_ip_field :: "nat \<times> nat \<Rightarrow> nat \<Rightarrow> bytes \<Rightarrow> 'a eth_scheme \<Rightarrow> 'a eth_scheme option" where
  "set_ip_field h off d s = do_bufs (blk_write (fst h) (snd h + off) d) s"

section \<open>Output\<close>

text \<open>\<open>dest\<close> is \<open>None\<close> for \<open>IP_HDRINCL\<close>; a source address of \<open>NULL\<close> is \<open>IPADDR_ANY\<close>.\<close>

definition ip4_output_if :: "'b ip4_scheme ip_env \<Rightarrow> nat \<Rightarrow> u32 \<Rightarrow> u32 option \<Rightarrow> u8 \<Rightarrow> u8 \<Rightarrow> u8 \<Rightarrow> nat \<Rightarrow> 'b ip4_scheme
    \<Rightarrow> (err_t \<times> 'b ip4_scheme) option" where
  "ip4_output_if env p src dest ttl tos proto netif s = do {
     n \<leftarrow> netifs s netif;
     (r, to, s) \<leftarrow> (case dest of
         Some to \<Rightarrow> do {
           (r, s) \<leftarrow> on_bufs (pbuf_header (Some p) (int IP_HLEN)) s;
           if r \<noteq> 0 then Some (ERR_BUF, to, s)
           else do {
             b \<leftarrow> heap (ebufs s) p;
             s \<leftarrow> do_bufs (payload_write p 0 (ip_header tos (p_tot_len b) (ip_ident s) ttl proto
                     (if ip_addr_isany src then nif_ip n else src) to)) s;
             Some (ERR_OK, to, s\<lparr>ip_ident := ip_ident s + 1\<rparr>) } }
       | None \<Rightarrow> do { a \<leftarrow> payload_read p 16 4 (ebufs s); Some (ERR_OK, of_le32 a, s) });
     if r \<noteq> ERR_OK then Some (r, s)
     else do {
       b \<leftarrow> heap (ebufs s) p;
       if nif_mtu n \<noteq> 0 \<and> p_tot_len b > nif_mtu n then frag_output env p netif to s
       else etharp_output netif p to s } }"

definition ip4_output :: "'b ip4_scheme ip_env \<Rightarrow> nat \<Rightarrow> u32 \<Rightarrow> u32 \<Rightarrow> u8 \<Rightarrow> u8 \<Rightarrow> u8 \<Rightarrow> 'b ip4_scheme
    \<Rightarrow> (err_t \<times> 'b ip4_scheme) option" where
  "ip4_output env p src dest ttl tos proto s = (case eth_route dest s of
       None \<Rightarrow> Some (ERR_RTE, s)
     | Some netif \<Rightarrow> ip4_output_if env p src (Some dest) ttl tos proto netif s)"

section \<open>ICMP\<close>

text \<open>
  The message about \<open>p\<close>: the first bytes behind its payload pointer, whether the packet has them or
  not, behind an ICMP header.
\<close>

definition icmp_send_response :: "'b ip4_scheme ip_env \<Rightarrow> nat \<Rightarrow> u8 \<Rightarrow> u8 \<Rightarrow> 'b ip4_scheme \<Rightarrow> 'b ip4_scheme option" where
  "icmp_send_response env p type code s = do {
     (q, s) \<leftarrow> on_bufs (pbuf_alloc PBUF_IP (of_nat (SIZEOF_ICMP_ECHO_HDR + IP_HLEN + ICMP_DEST_UNREACH_DATASIZE)) PBUF_RAM) s;
     case q of None \<Rightarrow> Some s
     | Some q \<Rightarrow> do {
         s \<leftarrow> do_bufs (payload_write q 0 [type, code]) s;
         s \<leftarrow> do_bufs (payload_write q 4 [0, 0, 0, 0]) s;
         d \<leftarrow> payload_read p 0 (IP_HLEN + ICMP_DEST_UNREACH_DATASIZE) (ebufs s);
         s \<leftarrow> do_bufs (payload_write q SIZEOF_ICMP_ECHO_HDR d) s;
         s \<leftarrow> do_bufs (payload_write q 2 [0, 0]) s;
         b \<leftarrow> heap (ebufs s) q;
         d \<leftarrow> payload_read q 0 (unat (p_len b)) (ebufs s);
         s \<leftarrow> do_bufs (payload_write q 2 (le16 (inet_chksum (odd (p_payload b)) d))) s;
         a \<leftarrow> payload_read p 12 4 (ebufs s);
         (err, s) \<leftarrow> ip4_output env q IPADDR_ANY (of_le32 a) ICMP_TTL 0 IP_PROTO_ICMP s;
         free_pbuf q s } }"

definition icmp_dest_unreach :: "'b ip4_scheme ip_env \<Rightarrow> nat \<Rightarrow> u8 \<Rightarrow> 'b ip4_scheme \<Rightarrow> 'b ip4_scheme option" where
  "icmp_dest_unreach env p t = icmp_send_response env p ICMP_DUR t"

definition icmp_time_exceeded :: "'b ip4_scheme ip_env \<Rightarrow> nat \<Rightarrow> u8 \<Rightarrow> 'b ip4_scheme \<Rightarrow> 'b ip4_scheme option" where
  "icmp_time_exceeded env p t = icmp_send_response env p ICMP_TE t"

text \<open>
  The buffer the reply is written into, with its IP header: the packet itself when there is room for the
  headers in front of it, else a copy. \<open>None\<close> is the jump to \<open>memerr\<close>.
\<close>

definition icmp_room :: "nat \<Rightarrow> nat \<times> nat \<Rightarrow> nat \<Rightarrow> 'a eth_scheme \<Rightarrow> ((nat \<times> nat \<times> nat) option \<times> 'a eth_scheme) option" where
  "icmp_room p h hlen s = do {
     (r, s) \<leftarrow> on_bufs (pbuf_header (Some p) (int (PBUF_IP_HLEN + PBUF_LINK_HLEN))) s;
     if r \<noteq> 0 then do {
       (r, s) \<leftarrow> on_bufs (pbuf_header (Some p) (int hlen)) s;
       if r \<noteq> 0 then Some (None, s)
       else do {
         b \<leftarrow> heap (ebufs s) p;
         (q, s) \<leftarrow> on_bufs (pbuf_alloc PBUF_LINK (p_tot_len b) PBUF_RAM) s;
         case q of None \<Rightarrow> Some (None, s)
         | Some q \<Rightarrow> do {
             (err, s) \<leftarrow> on_bufs (pbuf_copy (Some q) (Some p)) s;
             if err \<noteq> ERR_OK then Some (None, s)
             else do {
               b \<leftarrow> heap (ebufs s) q;
               let h = (q, p_payload b);
               (r, s) \<leftarrow> on_bufs (pbuf_header (Some q) (- int hlen)) s;
               if r \<noteq> 0 then Some (None, s)
               else do { s \<leftarrow> free_pbuf p s; Some (Some (q, h), s) } } } } }
     else do {
       (r, s) \<leftarrow> on_bufs (pbuf_header (Some p) (- int (PBUF_IP_HLEN + PBUF_LINK_HLEN))) s;
       Some (if r \<noteq> 0 then None else Some (p, h), s) } }"

text \<open>The checksum of the reply from that of the request.\<close>

definition echo_chksum :: "u16 \<Rightarrow> u16" where
  "echo_chksum c = (if c \<ge> htons (0xFFFF - push_bit 8 (ucast ICMP_ECHO)) then c + (htons (push_bit 8 (ucast ICMP_ECHO)) + 1)
     else c + htons (push_bit 8 (ucast ICMP_ECHO)))"

definition icmp_reply :: "'b ip4_scheme ip_env \<Rightarrow> nat \<Rightarrow> nat \<Rightarrow> nat \<times> nat \<Rightarrow> nat \<Rightarrow> 'b ip4_scheme \<Rightarrow> 'b ip4_scheme option" where
  "icmp_reply env p inp h hlen s = do {
     s \<leftarrow> set_ip_field h 12 (le32 (cur_dest s)) s;
     s \<leftarrow> set_ip_field h 16 (le32 (cur_src s)) s;
     s \<leftarrow> do_bufs (payload_write p 0 [ICMP_ER]) s;
     c \<leftarrow> payload_read p 2 2 (ebufs s);
     s \<leftarrow> do_bufs (payload_write p 2 (le16 (echo_chksum (of_le16 c)))) s;
     s \<leftarrow> set_ip_field h 8 [ICMP_TTL] s;
     s \<leftarrow> set_ip_field h 10 [0, 0] s;
     d \<leftarrow> ip_field h 0 IP_HLEN s;
     s \<leftarrow> set_ip_field h 10 (le16 (inet_chksum (odd (snd h)) d)) s;
     (r, s) \<leftarrow> on_bufs (pbuf_header (Some p) (int hlen)) s;
     s \<leftarrow> (if r \<noteq> 0 then Some s
          else map_option snd (ip4_output_if env p (cur_dest s) None ICMP_TTL 0 IP_PROTO_ICMP inp s));
     free_pbuf p s }"

definition icmp_echo :: "'b ip4_scheme ip_env \<Rightarrow> nat \<Rightarrow> nat \<Rightarrow> nat \<times> nat \<Rightarrow> nat \<Rightarrow> 'b ip4_scheme \<Rightarrow> 'b ip4_scheme option" where
  "icmp_echo env p inp h hlen s = do {
     n \<leftarrow> netifs s inp;
     b \<leftarrow> heap (ebufs s) p;
     if ip_addr_ismulticast (cur_dest s) \<or> ip4_addr_isbroadcast (cur_dest s) (netif.truncate n) then free_pbuf p s
     else if unat (p_tot_len b) < SIZEOF_ICMP_ECHO_HDR then free_pbuf p s
     else do {
       c \<leftarrow> inet_chksum_pbuf (Some p) (ebufs s);
       if c \<noteq> 0 then free_pbuf p s
       else do {
         (room, s) \<leftarrow> icmp_room p h hlen s;
         case room of None \<Rightarrow> free_pbuf p s | Some (p, h) \<Rightarrow> icmp_reply env p inp h hlen s } } }"

definition icmp_input :: "'b ip4_scheme ip_env \<Rightarrow> nat \<Rightarrow> nat \<Rightarrow> 'b ip4_scheme \<Rightarrow> 'b ip4_scheme option" where
  "icmp_input env p inp s = do {
     b \<leftarrow> heap (ebufs s) p;
     let h = (p, p_payload b);
     v \<leftarrow> ip_field h 0 1 s;
     let hlen = unat (hd v AND 0x0F) * 4;
     (r, s) \<leftarrow> on_bufs (pbuf_header (Some p) (- int hlen)) s;
     b \<leftarrow> heap (ebufs s) p;
     if r \<noteq> 0 \<or> unat (p_tot_len b) < 4 then free_pbuf p s
     else do {
       t \<leftarrow> payload_read p 0 1 (ebufs s);
       if hd t = ICMP_ECHO then icmp_echo env p inp h hlen s else free_pbuf p s } }"

section \<open>Input\<close>

text \<open>The interface the packet is for, the receiving one first.\<close>

definition ip_accepts :: "u32 \<Rightarrow> eth_netif \<Rightarrow> bool" where
  "ip_accepts dest n \<longleftrightarrow> netif_is_up (netif.truncate n) \<and> \<not> ip_addr_isany (nif_ip n)
     \<and> (dest = nif_ip n \<or> ip4_addr_isbroadcast dest (netif.truncate n))"

definition ip_for :: "nat \<Rightarrow> 'b ip4_scheme \<Rightarrow> nat option" where
  "ip_for inp s = List.find (\<lambda>a. case netifs s a of None \<Rightarrow> False | Some n \<Rightarrow> ip_accepts (cur_dest s) n)
     (inp # filter (\<lambda>a. a \<noteq> inp) (eth_netif_list s))"

text \<open>The packet goes to its protocol.\<close>

definition ip_deliver :: "'b ip4_scheme ip_env \<Rightarrow> nat \<Rightarrow> nat \<Rightarrow> nat \<times> nat \<Rightarrow> 'b ip4_scheme \<Rightarrow> 'b ip4_scheme option" where
  "ip_deliver env p inp h s = do {
     (eaten, s) \<leftarrow> raw_input env p inp (s\<lparr>cur_netif := Some inp, cur_header := Some h\<rparr>);
     s \<leftarrow> (if eaten \<noteq> 0 then Some s
       else do {
         proto \<leftarrow> ip_field h 9 1 s;
         if hd proto = IP_PROTO_UDP then udp_handler env p inp s
         else if hd proto = IP_PROTO_TCP then tcp_handler env p inp s
         else if hd proto = IP_PROTO_ICMP then icmp_input env p inp s
         else do {
           n \<leftarrow> netifs s inp;
           s \<leftarrow> (if \<not> ip4_addr_isbroadcast (cur_dest s) (netif.truncate n) \<and> \<not> ip_addr_ismulticast (cur_dest s)
             then do {
               s \<leftarrow> do_bufs (upd p (\<lambda>b. b\<lparr>p_payload := snd h\<rparr>)) s;
               icmp_dest_unreach env p ICMP_DUR_PROTO s }
             else Some s);
           free_pbuf p s } });
     Some (s\<lparr>cur_netif := None, cur_header := None, cur_src := IPADDR_ANY, cur_dest := IPADDR_ANY\<rparr>) }"

text \<open>
  The packet has passed the checks of its header: is it for us, may its source be, is it a fragment? A
  datagram to the DHCP server is accepted whatever its address.
\<close>

definition ip_addressed :: "'b ip4_scheme ip_env \<Rightarrow> nat \<Rightarrow> nat \<Rightarrow> nat \<times> nat \<Rightarrow> nat \<Rightarrow> 'b ip4_scheme \<Rightarrow> 'b ip4_scheme option" where
  "ip_addressed env p inp h hlen s = do {
     n \<leftarrow> netifs s inp;
     (netif, check_ip_src) \<leftarrow> (case ip_for inp s of
         Some a \<Rightarrow> Some (Some a, True)
       | None \<Rightarrow> do {
           proto \<leftarrow> ip_field h 9 1 s;
           if hd proto \<noteq> IP_PROTO_UDP then Some (None, True)
           else do {
             port \<leftarrow> ip_field h (hlen + 2) 2 s;
             Some (if of_le16 port = htons DHCP_ACCEPT_PORT then (Some inp, False) else (None, True)) } });
     if check_ip_src \<and> \<not> ip_addr_isany (cur_src s)
        \<and> (ip4_addr_isbroadcast (cur_src s) (netif.truncate n) \<or> ip_addr_ismulticast (cur_src s))
     then free_pbuf p s
     else if netif = None then free_pbuf p s
     else do {
       off \<leftarrow> ip_field h 6 2 s;
       if of_le16 off AND htons (IP_OFFMASK OR IP_MF) \<noteq> 0
       then do {
         (q, s) \<leftarrow> ip_reass env p s;
         case q of None \<Rightarrow> Some s
         | Some q \<Rightarrow> do { b \<leftarrow> heap (ebufs s) q; ip_deliver env q inp (q, p_payload b) s } }
       else ip_deliver env p inp h s } }"

definition ip_input :: "'b ip4_scheme ip_env \<Rightarrow> nat \<Rightarrow> nat \<Rightarrow> 'b ip4_scheme \<Rightarrow> 'b ip4_scheme option" where
  "ip_input env p inp s = do {
     b \<leftarrow> heap (ebufs s) p;
     let h = (p, p_payload b);
     v \<leftarrow> ip_field h 0 1 s;
     if drop_bit 4 (hd v) \<noteq> 4 then free_pbuf p s
     else do {
       let hlen = unat (hd v AND 0x0F) * 4;
       l \<leftarrow> ip_field h 2 2 s;
       let len = htons (of_le16 l);
       if hlen > unat (p_len b) \<or> len > p_tot_len b then free_pbuf p s
       else do {
         d \<leftarrow> ip_field h 0 hlen s;
         if inet_chksum (odd (snd h)) d \<noteq> 0 then free_pbuf p s
         else do {
           s \<leftarrow> do_bufs (pbuf_realloc p len) s;
           to \<leftarrow> ip_field h 16 4 s;
           from \<leftarrow> ip_field h 12 4 s;
           ip_addressed env p inp h hlen (s\<lparr>cur_dest := of_le32 to, cur_src := of_le32 from\<rparr>) } } } }"

end
