(* ===== verification/Ip_Reass.thy ===== *)
theory Ip_Reass
  imports Icmp
begin

text \<open>
  Reassembly of fragments, the first half of \<open>src/core/ipv4/ip_frag.c\<close>: the list of incomplete datagrams, the fragments of
  each in a list that runs through their own payload, and the timer.

  A datagram is a \<open>struct ip_reassdata\<close> in a store by address, \<open>reass_pool\<close> the free list of its
  pool; what is freed is gone from the store. A fragment is enqueued by
  writing a \<open>struct ip_reass_helper\<close> over its IP header. The pointer in it is four bytes: the buffer at \<open>a\<close> is the number
  \<open>a + 1\<close>, so that zero is \<open>NULL\<close>. Walks along a list have the fuel of chains of buffers.
  \<open>ip_frag\<close> is not here: it makes custom buffers, which the buffer model leaves out.
\<close>

section \<open>State\<close>

record reassdata =
  ra_next :: "nat option"
  ra_p :: "nat option"
  ra_iphdr :: bytes
  ra_datagram_len :: u16
  ra_flags :: u8
  ra_timer :: u8

record ip4r = ip4 +
  reass :: "nat \<Rightarrow> reassdata option"
  reass_pool :: "nat list"
  reassdatagrams :: "nat option"
  ip_reass_pbufcount :: u16

definition IP_REASS_FLAG_LASTFRAG :: u8 where "IP_REASS_FLAG_LASTFRAG = 1"
definition IP_REASS_MAXAGE :: u8 where "IP_REASS_MAXAGE = 3"
definition IP_REASS_MAX_PBUFS :: nat where "IP_REASS_MAX_PBUFS = 10"
definition ICMP_TE_FRAG :: u8 where "ICMP_TE_FRAG = 1"

definition upd_reass :: "nat \<Rightarrow> (reassdata \<Rightarrow> reassdata) \<Rightarrow> 'b ip4r_scheme \<Rightarrow> 'b ip4r_scheme option" where
  "upd_reass a f s = do { r \<leftarrow> reass s a; Some (s\<lparr>reass := (reass s)(a \<mapsto> f r)\<rparr>) }"

text \<open>The helper in the payload of a fragment.\<close>

definition ptr_bytes :: "nat option \<Rightarrow> bytes" where
  "ptr_bytes p = le32 (case p of None \<Rightarrow> 0 | Some a \<Rightarrow> of_nat (a + 1))"

definition of_ptr :: "bytes \<Rightarrow> nat option" where
  "of_ptr b = (let n = unat (of_le32 b) in if n = 0 then None else Some (n - 1))"

definition iprh_next_pbuf :: "nat \<Rightarrow> 'a eth_scheme \<Rightarrow> nat option option" where
  "iprh_next_pbuf p s = map_option of_ptr (payload_read p 0 4 (ebufs s))"

definition iprh_start :: "nat \<Rightarrow> 'a eth_scheme \<Rightarrow> u16 option" where
  "iprh_start p s = map_option of_le16 (payload_read p 4 2 (ebufs s))"

definition iprh_end :: "nat \<Rightarrow> 'a eth_scheme \<Rightarrow> u16 option" where
  "iprh_end p s = map_option of_le16 (payload_read p 6 2 (ebufs s))"

definition set_next_pbuf :: "nat \<Rightarrow> nat option \<Rightarrow> 'a eth_scheme \<Rightarrow> 'a eth_scheme option" where
  "set_next_pbuf p q s = do_bufs (payload_write p 0 (ptr_bytes q)) s"

text \<open>Fields of a header of 20 bytes.\<close>

definition IP_ADDRESSES_AND_ID_MATCH :: "bytes \<Rightarrow> bytes \<Rightarrow> bool" where
  "IP_ADDRESSES_AND_ID_MATCH a b \<longleftrightarrow> hdr_field a 12 4 = hdr_field b 12 4 \<and> hdr_field a 16 4 = hdr_field b 16 4
     \<and> hdr_field a 4 2 = hdr_field b 4 2"

definition frag_len :: "bytes \<Rightarrow> u16" where
  "frag_len h = htons (of_le16 (hdr_field h 2 2)) - of_nat (unat (hd h AND 0x0F) * 4)"

definition frag_offset :: "bytes \<Rightarrow> u16" where
  "frag_offset h = (htons (of_le16 (hdr_field h 6 2)) AND IP_OFFMASK) * 8"

section \<open>Removing datagrams\<close>

definition ip_reass_dequeue_datagram :: "nat \<Rightarrow> nat option \<Rightarrow> 'b ip4r_scheme \<Rightarrow> 'b ip4r_scheme option" where
  "ip_reass_dequeue_datagram ipr prev s = do {
     r \<leftarrow> reass s ipr;
     s \<leftarrow> (if reassdatagrams s = Some ipr then Some (s\<lparr>reassdatagrams := ra_next r\<rparr>)
          else do { a \<leftarrow> prev; upd_reass a (\<lambda>x. x\<lparr>ra_next := ra_next r\<rparr>) s });
     Some (s\<lparr>reass := (reass s)(ipr := None), reass_pool := ipr # reass_pool s\<rparr>) }"

fun free_frags :: "nat \<Rightarrow> nat option \<Rightarrow> u16 \<Rightarrow> 'a eth_scheme \<Rightarrow> (u16 \<times> 'a eth_scheme) option" where
  "free_frags fuel None freed s = Some (freed, s)"
| "free_frags 0 (Some p) freed s = None"
| "free_frags (Suc fuel) (Some p) freed s = do {
     n \<leftarrow> iprh_next_pbuf p s;
     clen \<leftarrow> pbuf_clen (Some p) (ebufs s);
     s \<leftarrow> free_pbuf p s;
     free_frags fuel n (freed + ucast clen) s }"

text \<open>The header of the first fragment is put back for the message about it.\<close>

definition ip_reass_free_complete_datagram :: "'b ip4r_scheme ip_env \<Rightarrow> nat \<Rightarrow> nat option \<Rightarrow> 'b ip4r_scheme \<Rightarrow> (u16 \<times> 'b ip4r_scheme) option" where
  "ip_reass_free_complete_datagram env ipr prev s = do {
     r \<leftarrow> reass s ipr;
     p \<leftarrow> ra_p r;
     start \<leftarrow> iprh_start p s;
     (freed, s) \<leftarrow> (if start = 0 then do {
         n \<leftarrow> iprh_next_pbuf p s;
         s \<leftarrow> upd_reass ipr (\<lambda>x. x\<lparr>ra_p := n\<rparr>) s;
         s \<leftarrow> do_bufs (payload_write p 0 (ra_iphdr r)) s;
         s \<leftarrow> icmp_time_exceeded env p ICMP_TE_FRAG s;
         clen \<leftarrow> pbuf_clen (Some p) (ebufs s);
         s \<leftarrow> free_pbuf p s;
         Some (ucast clen, s) }
       else Some (0, s));
     r \<leftarrow> reass s ipr;
     (freed, s) \<leftarrow> free_frags chain_fuel (ra_p r) freed s;
     s \<leftarrow> ip_reass_dequeue_datagram ipr prev s;
     Some (freed, s\<lparr>ip_reass_pbufcount := ip_reass_pbufcount s - freed\<rparr>) }"

text \<open>The oldest datagram the fragment does not belong to, and \<open>prev\<close>, the one before the end of the list; the number of other datagrams.\<close>

fun oldest_scan :: "nat \<Rightarrow> bytes \<Rightarrow> nat option \<Rightarrow> nat option \<Rightarrow> nat option \<Rightarrow> nat \<Rightarrow> 'b ip4r_scheme \<Rightarrow> (nat option \<times> nat option \<times> nat) option" where
  "oldest_scan fuel hdr None old prev others s = Some (old, prev, others)"
| "oldest_scan 0 hdr (Some a) old prev others s = None"
| "oldest_scan (Suc fuel) hdr (Some a) old prev others s = do {
     r \<leftarrow> reass s a;
     (old, others) \<leftarrow> (if IP_ADDRESSES_AND_ID_MATCH (ra_iphdr r) hdr then Some (old, others)
       else case old of None \<Rightarrow> Some (Some a, others + 1)
         | Some b \<Rightarrow> do { d \<leftarrow> reass s b; Some (if ra_timer r \<le> ra_timer d then Some a else old, others + 1) });
     oldest_scan fuel hdr (ra_next r) old (if ra_next r \<noteq> None then Some a else prev) others s }"

text \<open>The fuel of the loop: a turn that is repeated has removed a datagram.\<close>

fun remove_oldest :: "nat \<Rightarrow> 'b ip4r_scheme ip_env \<Rightarrow> bytes \<Rightarrow> nat \<Rightarrow> nat \<Rightarrow> 'b ip4r_scheme \<Rightarrow> (nat \<times> 'b ip4r_scheme) option" where
  "remove_oldest 0 env hdr needed freed s = None"
| "remove_oldest (Suc fuel) env hdr needed freed s = do {
     (old, prev, others) \<leftarrow> oldest_scan chain_fuel hdr (reassdatagrams s) None None 0 s;
     (freed, s) \<leftarrow> (case old of None \<Rightarrow> Some (freed, s)
       | Some a \<Rightarrow> do { (k, s) \<leftarrow> ip_reass_free_complete_datagram env a prev s; Some (freed + unat k, s) });
     if freed < needed \<and> others > 1 then remove_oldest fuel env hdr needed freed s else Some (freed, s) }"

definition ip_reass_remove_oldest_datagram :: "'b ip4r_scheme ip_env \<Rightarrow> bytes \<Rightarrow> nat \<Rightarrow> 'b ip4r_scheme \<Rightarrow> (nat \<times> 'b ip4r_scheme) option" where
  "ip_reass_remove_oldest_datagram env hdr needed s = remove_oldest chain_fuel env hdr needed 0 s"

fun reass_tmr_loop :: "nat \<Rightarrow> 'b ip4r_scheme ip_env \<Rightarrow> nat option \<Rightarrow> nat option \<Rightarrow> 'b ip4r_scheme \<Rightarrow> 'b ip4r_scheme option" where
  "reass_tmr_loop fuel env None prev s = Some s"
| "reass_tmr_loop 0 env (Some a) prev s = None"
| "reass_tmr_loop (Suc fuel) env (Some a) prev s = do {
     r \<leftarrow> reass s a;
     if ra_timer r > 0 then do {
       s \<leftarrow> upd_reass a (\<lambda>x. x\<lparr>ra_timer := ra_timer x - 1\<rparr>) s;
       reass_tmr_loop fuel env (ra_next r) (Some a) s }
     else do {
       (k, s) \<leftarrow> ip_reass_free_complete_datagram env a prev s;
       reass_tmr_loop fuel env (ra_next r) prev s } }"

definition ip_reass_tmr :: "'b ip4r_scheme ip_env \<Rightarrow> 'b ip4r_scheme \<Rightarrow> 'b ip4r_scheme option" where
  "ip_reass_tmr env s = reass_tmr_loop chain_fuel env (reassdatagrams s) None s"

section \<open>Adding fragments\<close>

definition new_reassdata :: "bytes \<Rightarrow> nat option \<Rightarrow> reassdata" where
  "new_reassdata hdr nxt = \<lparr>ra_next = nxt, ra_p = None, ra_iphdr = hdr, ra_datagram_len = 0, ra_flags = 0, ra_timer = IP_REASS_MAXAGE\<rparr>"

definition memp_malloc_reass :: "'b ip4r_scheme \<Rightarrow> nat option \<times> 'b ip4r_scheme" where
  "memp_malloc_reass s = (case reass_pool s of [] \<Rightarrow> (None, s) | a # as \<Rightarrow> (Some a, s\<lparr>reass_pool := as\<rparr>))"

definition ip_reass_enqueue_new_datagram :: "'b ip4r_scheme ip_env \<Rightarrow> bytes \<Rightarrow> nat \<Rightarrow> 'b ip4r_scheme \<Rightarrow> (nat option \<times> 'b ip4r_scheme) option" where
  "ip_reass_enqueue_new_datagram env hdr clen s = do {
     (ipr, s) \<leftarrow> (case memp_malloc_reass s of
         (Some a, s) \<Rightarrow> Some (Some a, s)
       | (None, s) \<Rightarrow> do {
           (k, s) \<leftarrow> ip_reass_remove_oldest_datagram env hdr clen s;
           Some (if k \<ge> clen then memp_malloc_reass s else (None, s)) });
     case ipr of None \<Rightarrow> Some (None, s)
     | Some a \<Rightarrow> Some (Some a, s\<lparr>reass := (reass s)(a \<mapsto> new_reassdata hdr (reassdatagrams s)), reassdatagrams := Some a\<rparr>) }"

text \<open>
  The search for the place of the fragment \<open>new\<close>: \<open>prev\<close> is the fragment whose helper is \<open>iprh_prev\<close>.
  \<open>Discard\<close> is the jump to \<open>freepbuf\<close>, \<open>Found\<close> the end of the loop, with the fragment that follows.
\<close>

datatype place = Discard | Found "nat option" "nat option" bool

fun chain_frag :: "nat \<Rightarrow> nat \<Rightarrow> nat \<Rightarrow> u16 \<Rightarrow> u16 \<Rightarrow> nat option \<Rightarrow> nat option \<Rightarrow> bool \<Rightarrow> 'b ip4r_scheme \<Rightarrow> (place \<times> 'b ip4r_scheme) option" where
  "chain_frag fuel ipr new start end None prev valid s = Some (Found None prev valid, s)"
| "chain_frag 0 ipr new start end (Some q) prev valid s = None"
| "chain_frag (Suc fuel) ipr new start end (Some q) prev valid s = do {
     q_start \<leftarrow> iprh_start q s;
     q_end \<leftarrow> iprh_end q s;
     if start < q_start then do {
       s \<leftarrow> set_next_pbuf new (Some q) s;
       case prev of
         Some b \<Rightarrow> do {
           b_end \<leftarrow> iprh_end b s;
           if start < b_end \<or> end > q_start then Some (Discard, s)
           else do { s \<leftarrow> set_next_pbuf b (Some new) s; Some (Found (Some q) prev valid, s) } }
       | None \<Rightarrow> do { s \<leftarrow> upd_reass ipr (\<lambda>x. x\<lparr>ra_p := Some new\<rparr>) s; Some (Found (Some q) prev valid, s) } }
     else if start = q_start then Some (Discard, s)
     else if start < q_end then Some (Discard, s)
     else do {
       valid \<leftarrow> (case prev of None \<Rightarrow> Some valid
         | Some b \<Rightarrow> do { b_end \<leftarrow> iprh_end b s; Some (if b_end \<noteq> q_start then False else valid) });
       n \<leftarrow> iprh_next_pbuf q s;
       chain_frag fuel ipr new start end n (Some q) valid s } }"

text \<open>No holes behind the fragment \<open>b\<close>?\<close>

fun no_holes :: "nat \<Rightarrow> nat \<Rightarrow> 'a eth_scheme \<Rightarrow> bool option" where
  "no_holes 0 b s = None"
| "no_holes (Suc fuel) b s = do {
     n \<leftarrow> iprh_next_pbuf b s;
     case n of None \<Rightarrow> Some True
     | Some q \<Rightarrow> do {
         b_end \<leftarrow> iprh_end b s;
         q_start \<leftarrow> iprh_start q s;
         if b_end \<noteq> q_start then Some False else no_holes fuel q s } }"

definition ip_reass_chain_frag_into_datagram_and_validate :: "nat \<Rightarrow> nat \<Rightarrow> 'b ip4r_scheme \<Rightarrow> (bool \<times> 'b ip4r_scheme) option" where
  "ip_reass_chain_frag_into_datagram_and_validate ipr new_p s = do {
     hdr \<leftarrow> payload_read new_p 0 IP_HLEN (ebufs s);
     let start = frag_offset hdr;
     let end = start + frag_len hdr;
     s \<leftarrow> do_bufs (payload_write new_p 0 (ptr_bytes None @ le16 start @ le16 end)) s;
     r \<leftarrow> reass s ipr;
     (pl, s) \<leftarrow> chain_frag chain_fuel ipr new_p start end (ra_p r) None True s;
     case pl of
       Discard \<Rightarrow> do {
         clen \<leftarrow> pbuf_clen (Some new_p) (ebufs s);
         s \<leftarrow> free_pbuf new_p (s\<lparr>ip_reass_pbufcount := ip_reass_pbufcount s - ucast clen\<rparr>);
         Some (False, s) }
     | Found q prev valid \<Rightarrow> do {
         (valid, s) \<leftarrow> (if q \<noteq> None then Some (valid, s)
           else case prev of
               Some b \<Rightarrow> do {
                 s \<leftarrow> set_next_pbuf b (Some new_p) s;
                 b_end \<leftarrow> iprh_end b s;
                 Some (if b_end \<noteq> start then False else valid, s) }
             | None \<Rightarrow> do { s \<leftarrow> upd_reass ipr (\<lambda>x. x\<lparr>ra_p := Some new_p\<rparr>) s; Some (valid, s) });
         r \<leftarrow> reass s ipr;
         if ra_flags r AND IP_REASS_FLAG_LASTFRAG = 0 then Some (False, s)
         else if \<not> valid then Some (False, s)
         else do {
           p \<leftarrow> ra_p r;
           first \<leftarrow> iprh_start p s;
           if first \<noteq> 0 then Some (False, s)
           else do { ok \<leftarrow> no_holes chain_fuel new_p s; Some (ok, s) } } } }"

text \<open>The datagram the fragment belongs to, and the one before it in the list.\<close>

fun find_datagram :: "nat \<Rightarrow> bytes \<Rightarrow> nat option \<Rightarrow> nat option \<Rightarrow> 'b ip4r_scheme \<Rightarrow> (nat option \<times> nat option) option" where
  "find_datagram fuel hdr None prev s = Some (None, prev)"
| "find_datagram 0 hdr (Some a) prev s = None"
| "find_datagram (Suc fuel) hdr (Some a) prev s = do {
     r \<leftarrow> reass s a;
     if IP_ADDRESSES_AND_ID_MATCH (ra_iphdr r) hdr then Some (Some a, prev)
     else find_datagram fuel hdr (ra_next r) (Some a) s }"

text \<open>The fragments behind the first, their headers hidden, are appended to it.\<close>

fun join_frags :: "nat \<Rightarrow> nat \<Rightarrow> nat option \<Rightarrow> 'a eth_scheme \<Rightarrow> 'a eth_scheme option" where
  "join_frags fuel p None s = Some s"
| "join_frags 0 p (Some r) s = None"
| "join_frags (Suc fuel) p (Some r) s = do {
     n \<leftarrow> iprh_next_pbuf r s;
     (k, s) \<leftarrow> on_bufs (pbuf_header (Some r) (- int IP_HLEN)) s;
     s \<leftarrow> do_bufs (pbuf_cat (Some p) (Some r)) s;
     join_frags fuel p n s }"

text \<open>The datagram is complete: its header is put back over the first helper, with the length of the whole.\<close>

definition reass_complete :: "nat \<Rightarrow> nat option \<Rightarrow> 'b ip4r_scheme \<Rightarrow> (nat option \<times> 'b ip4r_scheme) option" where
  "reass_complete ipr prev s = do {
     s \<leftarrow> upd_reass ipr (\<lambda>x. x\<lparr>ra_datagram_len := ra_datagram_len x + of_nat IP_HLEN\<rparr>) s;
     d \<leftarrow> reass s ipr;
     p \<leftarrow> ra_p d;
     r \<leftarrow> iprh_next_pbuf p s;
     s \<leftarrow> do_bufs (payload_write p 0 (ra_iphdr d)) s;
     s \<leftarrow> do_bufs (payload_write p 2 (be16 (ra_datagram_len d))) s;
     s \<leftarrow> do_bufs (payload_write p 6 [0, 0]) s;
     s \<leftarrow> do_bufs (payload_write p 10 [0, 0]) s;
     b \<leftarrow> heap (ebufs s) p;
     h \<leftarrow> payload_read p 0 IP_HLEN (ebufs s);
     s \<leftarrow> do_bufs (payload_write p 10 (le16 (inet_chksum (odd (p_payload b)) h))) s;
     s \<leftarrow> join_frags chain_fuel p r s;
     s \<leftarrow> ip_reass_dequeue_datagram ipr prev s;
     clen \<leftarrow> pbuf_clen (Some p) (ebufs s);
     Some (Some p, s\<lparr>ip_reass_pbufcount := ip_reass_pbufcount s - ucast clen\<rparr>) }"

definition ip_reass_input :: "'b ip4r_scheme ip_env \<Rightarrow> nat \<Rightarrow> 'b ip4r_scheme \<Rightarrow> (nat option \<times> 'b ip4r_scheme) option" where
  "ip_reass_input env p s = do {
     hdr \<leftarrow> payload_read p 0 IP_HLEN (ebufs s);
     if unat (hd hdr AND 0x0F) * 4 \<noteq> IP_HLEN then do { s \<leftarrow> free_pbuf p s; Some (None, s) }
     else do {
       clen \<leftarrow> pbuf_clen (Some p) (ebufs s);
       (room, s) \<leftarrow> (if unat (ip_reass_pbufcount s) + unat clen > IP_REASS_MAX_PBUFS then do {
           (k, s) \<leftarrow> ip_reass_remove_oldest_datagram env hdr (unat clen) s;
           Some (k \<noteq> 0 \<and> unat (ip_reass_pbufcount s) + unat clen \<le> IP_REASS_MAX_PBUFS, s) }
         else Some (True, s));
       if \<not> room then do { s \<leftarrow> free_pbuf p s; Some (None, s) }
       else do {
         (ipr, prev) \<leftarrow> find_datagram chain_fuel hdr (reassdatagrams s) None s;
         (ipr, s) \<leftarrow> (case ipr of
             None \<Rightarrow> ip_reass_enqueue_new_datagram env hdr (unat clen) s
           | Some a \<Rightarrow> do {
               s \<leftarrow> upd_reass a (\<lambda>x. if frag_offset hdr = 0 \<and> frag_offset (ra_iphdr x) \<noteq> 0 then x\<lparr>ra_iphdr := hdr\<rparr> else x) s;
               Some (Some a, s) });
         case ipr of None \<Rightarrow> do { s \<leftarrow> free_pbuf p s; Some (None, s) }
         | Some a \<Rightarrow> do {
             let s = s\<lparr>ip_reass_pbufcount := ip_reass_pbufcount s + ucast clen\<rparr>;
             s \<leftarrow> (if of_le16 (hdr_field hdr 6 2) AND htons IP_MF = 0
               then upd_reass a (\<lambda>x. x\<lparr>ra_flags := ra_flags x OR IP_REASS_FLAG_LASTFRAG,
                      ra_datagram_len := frag_offset hdr + frag_len hdr\<rparr>) s
               else Some s);
             (complete, s) \<leftarrow> ip_reass_chain_frag_into_datagram_and_validate a p s;
             if complete then reass_complete a prev s else Some (None, s) } } } }"

end
