(* ===== verification/One_Pbuf.thy ===== *)
theory One_Pbuf
  imports Icmp Arp_Lookup
begin

text \<open>
  A received frame lies in one buffer of the pool. The operations of \<open>Pbuf\<close> on such a buffer as equations:
  the buffer is its flags, its block and the position and length of the payload in the block.
\<close>

section \<open>One buffer of the pool\<close>

definition one_pbuf :: "nat \<Rightarrow> u8 \<Rightarrow> bytes \<Rightarrow> nat \<Rightarrow> nat \<Rightarrow> pbuf_mem \<Rightarrow> pbuf_mem" where
  "one_pbuf p f x pos len m = m\<lparr>heap := (heap m)(p \<mapsto> \<lparr>p_next = None, p_payload = pos, p_tot_len = of_nat len,
       p_len = of_nat len, p_type = PBUF_POOL, p_flags = f, p_ref = 1\<rparr>), blk := (blk m)(p := x)\<rparr>"

definition overwrite :: "nat \<Rightarrow> bytes \<Rightarrow> bytes \<Rightarrow> bytes" where
  "overwrite off d x = take off x @ d @ drop (off + length d) x"

lemma overwrite_length [simp]: "off + length d \<le> length x \<Longrightarrow> length (overwrite off d x) = length x"
  by (simp add: overwrite_def)

lemma one_pbuf_sels [simp]:
  "heap (one_pbuf p f x pos len m) p = Some \<lparr>p_next = None, p_payload = pos, p_tot_len = of_nat len,
       p_len = of_nat len, p_type = PBUF_POOL, p_flags = f, p_ref = 1\<rparr>"
  "blk (one_pbuf p f x pos len m) p = x"
  "q \<noteq> p \<Longrightarrow> heap (one_pbuf p f x pos len m) q = heap m q" "q \<noteq> p \<Longrightarrow> blk (one_pbuf p f x pos len m) q = blk m q"
  "pool (one_pbuf p f x pos len m) = pool m" "mem_malloc (one_pbuf p f x pos len m) = mem_malloc m"
  by (simp_all add: one_pbuf_def)

lemma one_pbuf_again: "one_pbuf p f x pos len (one_pbuf p f' x' pos' len' m) = one_pbuf p f x pos len m"
  by (simp add: one_pbuf_def)

lemma u16_of_nat_minus: "n \<le> len \<Longrightarrow> (of_nat len :: u16) + of_int (- int n) = of_nat (len - n)"
  by (simp add: of_nat_diff)

lemma one_pbuf_header_down:
  assumes "0 < n" "n \<le> len" "len < 65536"
  shows "pbuf_header (Some p) (- int n) (one_pbuf p f x pos len m) = Some (0, one_pbuf p f x (pos + n) (len - n) m)"
proof -
  have "uint (of_nat len :: u16) = int len" using assms(3) by (simp add: uint_nat unat16_of_nat)
  moreover have "(of_nat len :: u16) - of_nat n = of_nat (len - n)" using assms(2) by (simp add: of_nat_diff)
  moreover have "nat (int pos + int n) = pos + n" by simp
  ultimately show ?thesis using assms
    by (simp add: pbuf_header_def one_pbuf_sels(1)) (simp add: one_pbuf_def)
qed

lemma one_pbuf_header_short:
  assumes "len < n" "len < 65536"
  shows "pbuf_header (Some p) (- int n) (one_pbuf p f x pos len m) = Some (1, one_pbuf p f x pos len m)"
proof -
  have "uint (of_nat len :: u16) = int len" using assms(2) by (simp add: uint_nat unat16_of_nat)
  then show ?thesis using assms by (simp add: pbuf_header_def)
qed

lemma one_pbuf_header_up:
  assumes "0 < n" "n \<le> pos"
  shows "pbuf_header (Some p) (int n) (one_pbuf p f x pos len m) = Some (0, one_pbuf p f x (pos - n) (len + n) m)"
proof -
  have "nat (int pos - int n) = pos - n" using assms(2) by (simp add: nat_diff_distrib)
  then show ?thesis using assms by (simp add: pbuf_header_def) (simp add: one_pbuf_def)
qed

lemma one_pbuf_header_full:
  "pos < n \<Longrightarrow> pbuf_header (Some p) (int n) (one_pbuf p f x pos len m) = Some (1, one_pbuf p f x pos len m)"
  by (simp add: pbuf_header_def)

lemma one_pbuf_write:
  assumes "pos + off + length d \<le> length x"
  shows "payload_write p off d (one_pbuf p f x pos len m) = Some (one_pbuf p f (overwrite (pos + off) d x) pos len m)"
  using assms by (simp add: payload_write_def wr_at_Some overwrite_def) (simp add: one_pbuf_def)

lemma one_pbuf_read:
  assumes "pos + off + n \<le> length x"
  shows "payload_read p off n (one_pbuf p f x pos len m) = Some (take n (drop (pos + off) x))"
  using assms by (simp add: payload_read_def rd_at_Some)

lemma one_pbuf_blk_write:
  assumes "off + length d \<le> length x"
  shows "blk_write p off d (one_pbuf p f x pos len m) = Some (one_pbuf p f (overwrite off d x) pos len m)"
  using assms by (simp add: blk_write_def wr_at_Some overwrite_def) (simp add: one_pbuf_def)

lemma one_pbuf_blk_read:
  assumes "off + n \<le> length x"
  shows "blk_read p off n (one_pbuf p f x pos len m) = Some (take n (drop off x))"
  using assms by (simp add: blk_read_def rd_at_Some)

lemma one_pbuf_realloc:
  assumes "unat k \<le> len" "len < 65536"
  shows "pbuf_realloc p k (one_pbuf p f x pos len m) = Some (one_pbuf p f x pos (unat k) m)"
proof (cases "unat k = len")
  case True
  then have "k = of_nat len" by (simp flip: True)
  then show ?thesis using True by (simp add: pbuf_realloc_def)
next
  case False
  have l: "unat (of_nat len :: u16) = len" using assms(2) by (simp add: unat16_of_nat)
  have lt: "\<not> of_nat len \<le> k" "\<not> k > of_nat len" using False assms(1) l by (simp_all add: word_le_nat_alt word_less_nat_alt)
  have "realloc_loop chain_fuel p k (k - of_nat len) (one_pbuf p f x pos len m) = Some (p, k, one_pbuf p f x pos len m)"
  proof -
    have "realloc_loop (Suc 65535) p k (k - of_nat len) (one_pbuf p f x pos len m) = Some (p, k, one_pbuf p f x pos len m)"
      using lt(2) by (simp only: realloc_loop.simps one_pbuf_sels bind.bind_lunit pbuf.simps if_False)
    then show ?thesis by (simp add: chain_fuel_def)
  qed
  then show ?thesis using lt(1) by (simp add: pbuf_realloc_def upd_def) (simp add: one_pbuf_def)
qed


text \<open>What the invariants say of such a buffer.\<close>

lemma one_pbuf_owned:
  assumes "pos + len \<le> length x" "len < 65536" "f AND PBUF_FLAG_IS_CUSTOM = 0"
  shows "owned (one_pbuf p f x pos len m) p [p]" "chain_data (one_pbuf p f x pos len m) [p] = take len (drop pos x)"
proof -
  have "unat (of_nat len :: u16) = len" using assms(2) by (simp add: unat16_of_nat)
  then show "owned (one_pbuf p f x pos len m) p [p]" "chain_data (one_pbuf p f x pos len m) [p] = take len (drop pos x)"
    using assms(1,3) by (simp_all add: owned_def exclusive_def in_block_def ref_one_def not_custom_def buf_data_def)
qed

lemma one_pbuf_of:
  assumes "owned m p [p]" "heap m p = Some b" "p_type b = PBUF_POOL"
  shows "m = one_pbuf p (p_flags b) (blk m p) (p_payload b) (unat (p_len b)) m" "p_flags b AND PBUF_FLAG_IS_CUSTOM = 0"
    "p_payload b + unat (p_len b) \<le> length (blk m p)" "chain_data m [p] = take (unat (p_len b)) (drop (p_payload b) (blk m p))"
proof -
  have b: "p_next b = None" "p_ref b = 1" "p_tot_len b = p_len b" "p_flags b AND PBUF_FLAG_IS_CUSTOM = 0" "in_block m p b"
    using assms(1,2) by (auto simp: owned_def exclusive_def ref_one_def not_custom_def buf_data_length word_unat_eq_iff)
  have "(heap m)(p \<mapsto> b) = heap m" using assms(2) by (simp add: fun_upd_idem)
  moreover have "\<lparr>p_next = None, p_payload = p_payload b, p_tot_len = of_nat (unat (p_len b)), p_len = of_nat (unat (p_len b)),
      p_type = PBUF_POOL, p_flags = p_flags b, p_ref = 1\<rparr> = b"
    using b(1-3) assms(3) by (cases b) simp
  ultimately show "m = one_pbuf p (p_flags b) (blk m p) (p_payload b) (unat (p_len b)) m"
    by (simp add: one_pbuf_def)
  show "p_flags b AND PBUF_FLAG_IS_CUSTOM = 0" by (rule b(4))
  show "p_payload b + unat (p_len b) \<le> length (blk m p)" using b(5) by (simp add: in_block_def)
  show "chain_data m [p] = take (unat (p_len b)) (drop (p_payload b) (blk m p))" using assms(2) by (simp add: buf_data_def)
qed

lemma one_pbuf_edit: "length x' = length x \<Longrightarrow> hd_edit (one_pbuf p f x pos len m) (one_pbuf p f x' pos' len' m) p"
  by (simp add: hd_edit_def one_pbuf_def)

lemma one_pbuf_chksum:
  assumes "pos + len \<le> length x" "len < 65536"
  shows "\<exists>w. inet_chksum_pbuf (Some p) (one_pbuf p f x pos len m) = Some w \<and> unat w = 65535 - norm16 (le_sum (take len (drop pos x)))"
proof -
  have "unat (of_nat len :: u16) = len" using assms(2) by (simp add: unat16_of_nat)
  then have "pchain (one_pbuf p f x pos len m) (Some p) [p]" "chain_data (one_pbuf p f x pos len m) [p] = take len (drop pos x)"
    using assms(1) by (simp_all add: in_block_def buf_data_def)
  then show ?thesis using inet_chksum_pbuf_chain [of "one_pbuf p f x pos len m" "Some p" "[p]"] by (simp add: chain_fuel_def)
qed

lemma norm16_full: "65535 - norm16 n = 0 \<longleftrightarrow> norm16 n = 65535"
  using norm16_le [of n] by auto

lemma inet_chksum_zero:
  assumes "length d \<le> 131072"
  shows "inet_chksum b d = 0 \<longleftrightarrow> norm16 (le_sum d) = 65535"
  using assms unat_chksum2 [of d b] norm16_full [of "le_sum d"]
  by (simp add: inet_chksum_def word_unat_eq_iff unat_not16)

lemma one_pbuf_chksum_zero:
  assumes "pos + len \<le> length x" "len < 65536"
  shows "\<exists>w. inet_chksum_pbuf (Some p) (one_pbuf p f x pos len m) = Some w \<and> (w = 0 \<longleftrightarrow> inet_chksum False (take len (drop pos x)) = 0)"
proof -
  from one_pbuf_chksum [OF assms] obtain w where w: "inet_chksum_pbuf (Some p) (one_pbuf p f x pos len m) = Some w"
    "unat w = 65535 - norm16 (le_sum (take len (drop pos x)))" by blast
  have "w = 0 \<longleftrightarrow> 65535 - norm16 (le_sum (take len (drop pos x))) = 0" by (simp add: word_unat_eq_iff w(2))
  then show ?thesis using w(1) norm16_full assms(2) inet_chksum_zero [of "take len (drop pos x)" False] by auto
qed

lemma one_pbuf_outgoing:
  assumes "pos + len \<le> length x" "len \<le> 65502" "f AND PBUF_FLAG_IS_CUSTOM = 0" "p \<in> H"
  shows "outgoing (one_pbuf p f x pos len m) H p []" "header_room (one_pbuf p f x pos len m) p \<longleftrightarrow> 14 \<le> pos"
  using one_pbuf_owned [OF assms(1) _ assms(3)] assms(2,4)
  by (simp_all add: outgoing_def filled_tail_def chain_fuel_def of_type_def header_room_def SIZEOF_ETH_HDR_def del: chain_data_simps)

section \<open>Steps\<close>

text \<open>A state whose packet is the buffer \<open>p\<close>: the rest of the memory is that of \<open>s\<close>.\<close>

definition with_pbuf :: "nat \<Rightarrow> u8 \<Rightarrow> bytes \<Rightarrow> nat \<Rightarrow> nat \<Rightarrow> 'a eth_scheme \<Rightarrow> 'a eth_scheme" where
  "with_pbuf p f x pos len s = s\<lparr>ebufs := one_pbuf p f x pos len (ebufs s)\<rparr>"

lemma with_pbuf_sels [simp]:
  "ebufs (with_pbuf p f x pos len s) = one_pbuf p f x pos len (ebufs s)" "netifs (with_pbuf p f x pos len s) = netifs s"
  "eth_netif_list (with_pbuf p f x pos len s) = eth_netif_list s" "eth_netif_default (with_pbuf p f x pos len s) = eth_netif_default s"
  "arp_table (with_pbuf p f x pos len s) = arp_table s" "etharp_cached_entry (with_pbuf p f x pos len s) = etharp_cached_entry s"
  "frames (with_pbuf p f x pos len s) = frames s" "link_out (with_pbuf p f x pos len s) = link_out s"
  by (simp_all add: with_pbuf_def)

lemma with_pbuf_ip4 [simp]:
  "ip_ident (with_pbuf p f x pos len s) = ip_ident s" "cur_src (with_pbuf p f x pos len s) = cur_src s"
  "cur_dest (with_pbuf p f x pos len s) = cur_dest s" "cur_netif (with_pbuf p f x pos len s) = cur_netif s"
  by (simp_all add: with_pbuf_def)

lemma on_with_pbuf:
  "g (one_pbuf p f x pos len (ebufs s)) = Some (r, one_pbuf p f' x' pos' len' (ebufs s))
     \<Longrightarrow> on_bufs g (with_pbuf p f x pos len s) = Some (r, with_pbuf p f' x' pos' len' s)"
  by (simp add: on_bufs_def with_pbuf_def)

lemma do_with_pbuf:
  "g (one_pbuf p f x pos len (ebufs s)) = Some (one_pbuf p f' x' pos' len' (ebufs s))
     \<Longrightarrow> do_bufs g (with_pbuf p f x pos len s) = Some (with_pbuf p f' x' pos' len' s)"
  by (simp add: do_bufs_def with_pbuf_def)

lemma with_pbuf_step:
  assumes "eth_ok slots H (with_pbuf p f x pos len s)" "p \<in> H" "length x' = length x"
  shows "arp_step slots (H - {p}) H (with_pbuf p f x pos len s) (with_pbuf p f x' pos' len' s)"
proof -
  have ed: "hd_edit (one_pbuf p f x pos len (ebufs s)) (one_pbuf p f x' pos' len' (ebufs s)) p" by (rule one_pbuf_edit [OF assms(3)])
  have "arp_inv slots H (one_pbuf p f x' pos' len' (ebufs s)) (arp_table s)"
    using assms(1,2) ed by (auto simp: eth_ok_def intro: arp_inv_hd_edit)
  moreover have "keeps ((H - {p}) \<inter> H) (one_pbuf p f x pos len (ebufs s)) (one_pbuf p f x' pos' len' (ebufs s))"
    by (rule hd_edit_keeps [OF ed]) auto
  ultimately show ?thesis using assms(1) by (simp add: arp_step_def eth_ok_def)
qed

end
