(* ===== verification/Icmp_Run.thy ===== *)
theory Icmp_Run
  imports One_Pbuf
begin

text \<open>
  What ICMP does to the invariant of the ARP layer (\<open>Arp_Table\<close>): the output of a packet, a message about a
  packet, and a received ICMP packet with a header of at least 20 bytes, which is freed whatever is in it. The
  equations say which branch of the code a packet takes.
\<close>

section \<open>Output\<close>

text \<open>Interfaces that need no fragments for what fits a received frame.\<close>

definition mtu_ok :: "'a eth_scheme \<Rightarrow> bool" where
  "mtu_ok s \<longleftrightarrow> (\<forall>a n. netifs s a = Some n \<longrightarrow> nif_mtu n = 0 \<or> 1500 \<le> nif_mtu n)"

lemma ip4_output_if_incl:
  assumes "eth_ok slots H s" "netifs s netif = Some n" "outgoing (ebufs s) H q []" "mtu_ok s" "heap (ebufs s) q = Some b"
    and "20 \<le> unat (p_len b)" "unat (p_len b) \<le> 1500"
  shows "ip4_output_if env q src None ttl tos proto netif s
     = etharp_output netif q (of_le32 (take 4 (drop 16 (chain_data (ebufs s) [q])))) s"
proof -
  have o: "owned (ebufs s) q [q]" using assms(3) by (simp add: outgoing_def)
  then have ib: "in_block (ebufs s) q b" and tl: "p_tot_len b = p_len b" using assms(5)
    by (auto simp: owned_def exclusive_def buf_data_length word_unat_eq_iff)
  have rd: "payload_read q 16 4 (ebufs s) = Some (take 4 (drop 16 (chain_data (ebufs s) [q])))"
    using assms(5,6) ib by (simp add: payload_read_def rd_at_Some in_block_def buf_data_def drop_take take_take min_def add.commute)
  have "\<not> (nif_mtu n \<noteq> 0 \<and> p_tot_len b > nif_mtu n)"
  proof -
    have "nif_mtu n = 0 \<or> 1500 \<le> nif_mtu n" using assms(2,4) by (simp add: mtu_ok_def)
    moreover have "p_tot_len b \<le> 1500" using assms(7) tl by (simp add: word_le_nat_alt)
    ultimately show ?thesis by (auto simp: word_le_nat_alt word_less_nat_alt)
  qed
  then show ?thesis using assms(2,5) rd by (auto simp: ip4_output_if_def)
qed

lemma ip4_output_if_step:
  assumes "eth_ok slots H s" "netifs s netif = Some n" "outgoing (ebufs s) H q []" "mtu_ok s" "heap (ebufs s) q = Some b"
    and "20 \<le> p_payload b" "unat (p_len b) \<le> 1480"
  shows "\<exists>r s'. ip4_output_if env q src (Some dest) ttl tos proto netif s = Some (r, s') \<and> arp_step slots (H - {q}) H s s' \<and> owned (ebufs s') q [q]"
proof -
  have o: "owned (ebufs s) q [q]" "q \<in> H" "of_type (ebufs s) {PBUF_RAM, PBUF_POOL} q" using assms(3) by (auto simp: outgoing_def)
  then have tl: "p_tot_len b = p_len b" "p_type b = PBUF_RAM \<or> p_type b = PBUF_POOL" using assms(5)
    by (auto simp: owned_def exclusive_def buf_data_length word_unat_eq_iff of_type_def)
  have le: "unat (p_tot_len b) + 20 < 65536" using assms(7) tl by simp
  have "(0 :: nat) < 20" by simp
  from pbuf_header_chain [OF o(1) assms(5) tl(2) this assms(6) le] obtain m1 b1 where m1: "pbuf_header (Some q) (int 20) (ebufs s) = Some (0, m1)"
    "hd_edit (ebufs s) m1 q" "owned m1 q [q]" "heap m1 q = Some b1" "unat (p_len b1) = unat (p_len b) + 20"
    "unat (p_tot_len b1) = unat (p_tot_len b) + 20" "p_type b1 = p_type b" by blast
  let ?h = "ip_header tos (p_tot_len b1) (ip_ident s) ttl proto (if ip_addr_isany src then nif_ip n else src) dest"
  from payload_write_chain [OF m1(3,4), of 0 ?h] m1(5) obtain m2 where m2: "payload_write q 0 ?h m1 = Some m2" "hd_edit m1 m2 q" "owned m2 q [q]"
    "heap m2 = heap m1" by auto
  have ed: "hd_edit (ebufs s) m2 q" using m1(2) m2(2) by (rule hd_edit_trans)
  let ?s = "s\<lparr>ebufs := m2, ip_ident := ip_ident s + 1\<rparr>"
  have inv: "arp_inv slots H m2 (arp_table s)" using assms(1) ed o(2) by (auto simp: eth_ok_def intro: arp_inv_hd_edit)
  have st: "arp_step slots (H - {q}) H s ?s"
    using assms(1) inv hd_edit_keeps [OF ed, of "(H - {q}) \<inter> H"] ed by (simp add: arp_step_def eth_ok_def hd_edit_def)
  have lc: "length (chain_data m2 [q]) \<le> 65502"
    using m2(3,4) m1(4,6) assms(7) tl(1) by (simp add: owned_def)
  have out: "outgoing (ebufs ?s) H q []"
    using m2(3,4) m1(4,7) tl(2) o(2) lc by (auto simp: outgoing_def filled_tail_def chain_fuel_def of_type_def simp del: chain_data_simps)
  have n: "netifs ?s netif = Some n" using assms(2) by simp
  from etharp_output_step [OF arp_stepD(1) [OF st] n out, of dest] obtain r s' where
    s': "etharp_output netif q dest ?s = Some (r, s')" "arp_step slots (H - {q}) H ?s s'" "owned (ebufs s') q [q]" by blast
  have "\<not> (nif_mtu n \<noteq> 0 \<and> p_tot_len b1 > nif_mtu n)"
  proof -
    have "nif_mtu n = 0 \<or> 1500 \<le> nif_mtu n" using assms(2,4) by (simp add: mtu_ok_def)
    moreover have "p_tot_len b1 \<le> 1500" using assms(7) tl m1(6) by (simp add: word_le_nat_alt)
    ultimately show ?thesis by (auto simp: word_le_nat_alt word_less_nat_alt)
  qed
  then have "ip4_output_if env q src (Some dest) ttl tos proto netif s = Some (r, s')"
    using assms(2) m1(1,4) m2(1,4) s'(1) by (auto simp: ip4_output_if_def on_bufs_def do_bufs_def IP_HLEN_def)
  moreover have "arp_step slots (H - {q}) H s s'" using st s'(2) by (auto simp: arp_step_def intro: keeps_trans)
  ultimately show ?thesis using s'(3) by blast
qed

lemma ip4_output_step:
  assumes "eth_ok slots H s" "outgoing (ebufs s) H q []" "mtu_ok s" "heap (ebufs s) q = Some b"
    and "20 \<le> p_payload b" "unat (p_len b) \<le> 1480"
  shows "\<exists>r s'. ip4_output env q src dest ttl tos proto s = Some (r, s') \<and> arp_step slots (H - {q}) H s s' \<and> owned (ebufs s') q [q]"
proof (cases "eth_route dest s")
  case None
  have "arp_step slots (H - {q}) H s s" using assms(1) by (simp add: arp_step_def)
  then show ?thesis using None assms(2) by (simp add: ip4_output_def outgoing_def)
next
  case (Some netif)
  then have "\<exists>n. netifs s netif = Some n"
    by (auto simp: eth_route_def find_Some_iff split: option.splits if_splits)
  then obtain n where "netifs s netif = Some n" ..
  from ip4_output_if_step [OF assms(1) this assms(2-6)] Some show ?thesis by (simp add: ip4_output_def)
qed


section \<open>ICMP messages\<close>

lemma write_single:
  assumes "owned m q [q]" "heap m q = Some b" "off + length d \<le> unat (p_len b)"
  shows "\<exists>m'. payload_write q off d m = Some m' \<and> hd_edit m m' q \<and> owned m' q [q] \<and> heap m' = heap m"
  using payload_write_chain [OF assms] by blast

lemma icmp_send_response_step:
  assumes "eth_ok slots H s" "mtu_ok s" "p \<in> H" "heap (ebufs s) p = Some bp" "p_payload bp + 28 \<le> length (blk (ebufs s) p)"
  shows "\<exists>s'. icmp_send_response env p type code s = Some s' \<and> arp_step slots H H s s'"
proof -
  have inv: "arp_inv slots H (ebufs s) (arp_table s)" using assms(1) by (simp add: eth_ok_def)
  have sz: "of_nat (SIZEOF_ICMP_ECHO_HDR + IP_HLEN + ICMP_DEST_UNREACH_DATASIZE) = (36 :: u16)"
    by (simp add: SIZEOF_ICMP_ECHO_HDR_def IP_HLEN_def ICMP_DEST_UNREACH_DATASIZE_def)
  have al: "LWIP_MEM_ALIGN_SIZE (layer_offset PBUF_IP) = 36" "LWIP_MEM_ALIGN_SIZE 36 = 36"
    by (simp_all add: layer_offset_def LWIP_MEM_ALIGN_SIZE_def PBUF_LINK_HLEN_def PBUF_IP_HLEN_def)
  have bd: "16 + LWIP_MEM_ALIGN_SIZE (layer_offset PBUF_IP) + LWIP_MEM_ALIGN_SIZE (unat (36 :: u16)) < 65536" by (simp add: al)
  have "pool_ok slots (ebufs s)" "fresh_ram slots (ebufs s)" using inv by (simp_all add: arp_inv_def)
  from pbuf_alloc_ram_layer [OF this bd] obtain r m where a: "pbuf_alloc PBUF_IP 36 PBUF_RAM (ebufs s) = Some (r, m)" by blast
  note aa = arp_inv_alloc_layer [OF inv a bd]
  show ?thesis
  proof (cases r)
    case None
    then have "icmp_send_response env p type code s = Some s" using a aa(3) unfolding icmp_send_response_def sz by (simp add: on_bufs_def)
    then show ?thesis using arp_step_refl [OF assms(1)] by blast
  next
    case (Some q)
    with aa(3) obtain d where q: "arp_inv slots (insert q H) m (arp_table s)" "q \<notin> H" "one_ram m q d" "length d = 36"
      "keeps (H \<union> queued (arp_table s)) (ebufs s) m" "map_option p_payload (heap m q) = Some 36" by (auto simp: al)
    from q(3) obtain b where b: "heap m q = Some b" "p_type b = PBUF_RAM" "unat (p_len b) = 36" by (rule one_ramE) (use q(4) in auto)
    have pl: "p_payload b = 36" using q(6) b(1) by simp
    have o: "owned m q [q]" using q(3) by (simp add: one_ram_def)
    have pq: "p \<noteq> q" using assms(3) q(2) by auto
    have hp: "heap m p = Some bp" "blk m p = blk (ebufs s) p" using q(5) assms(3,4) by (auto simp: keeps_def)
    define dp where "dp = take 28 (drop (p_payload bp) (blk (ebufs s) p))"
    have ldp: "length dp = 28" using assms(5) by (simp add: dp_def)
    from write_single [OF o b(1), of 0 "[type, code]"] b(3) obtain m1 where m1: "payload_write q 0 [type, code] m = Some m1"
      "hd_edit m m1 q" "owned m1 q [q]" "heap m1 = heap m" by auto
    then have b1: "heap m1 q = Some b" using b(1) by simp
    from write_single [OF m1(3) b1, of 4 "[0, 0, 0, 0]"] b(3) obtain m2 where m2: "payload_write q 4 [0, 0, 0, 0] m1 = Some m2"
      "hd_edit m1 m2 q" "owned m2 q [q]" "heap m2 = heap m1" by auto
    then have b2: "heap m2 q = Some b" using b1 by simp
    from write_single [OF m2(3) b2, of 8 dp] b(3) ldp obtain m3 where m3: "payload_write q 8 dp m2 = Some m3"
      "hd_edit m2 m3 q" "owned m3 q [q]" "heap m3 = heap m2" by auto
    then have b3: "heap m3 q = Some b" using b2 by simp
    from write_single [OF m3(3) b3, of 2 "[0, 0]"] b(3) obtain m4 where m4: "payload_write q 2 [0, 0] m3 = Some m4"
      "hd_edit m3 m4 q" "owned m4 q [q]" "heap m4 = heap m3" by auto
    then have b4: "heap m4 q = Some b" using b3 by simp
    have r4: "payload_read q 0 36 m4 = Some (chain_data m4 [q])"
      using payload_read_chain [OF m4(3) b4, of 36] b(3) m4(3) b4 by (simp add: owned_def exclusive_def buf_data_length)
    let ?c = "le16 (inet_chksum False (chain_data m4 [q]))"
    from write_single [OF m4(3) b4, of 2 ?c] b(3) obtain m5 where m5: "payload_write q 2 ?c m4 = Some m5"
      "hd_edit m4 m5 q" "owned m5 q [q]" "heap m5 = heap m4" by auto
    then have b5: "heap m5 q = Some b" using b4 by simp
    have ed: "hd_edit m m5 q" using m1(2) m2(2) m3(2) m4(2) m5(2) by (blast intro: hd_edit_trans)
    have e2: "hd_edit m m2 q" using m1(2) m2(2) by (blast intro: hd_edit_trans)
    have p2: "heap m2 p = Some bp" "blk m2 p = blk (ebufs s) p" and p5: "heap m5 p = Some bp" "blk m5 p = blk (ebufs s) p"
      using e2 ed hp pq by (auto simp: hd_edit_def)
    have rp: "payload_read p 0 28 m2 = Some dp" using p2 assms(5) by (simp add: payload_read_def rd_at_Some dp_def)
    have ra: "payload_read p 12 4 m5 = Some (take 4 (drop (p_payload bp + 12) (blk (ebufs s) p)))"
      using p5 assms(5) by (simp add: payload_read_def rd_at_Some)
    let ?s = "s\<lparr>ebufs := m5\<rparr>"
    have inv5: "arp_inv slots (insert q H) m5 (arp_table s)" by (rule arp_inv_hd_edit [OF q(1) ed]) simp
    have "keeps H m m5" using hd_edit_keeps [OF ed q(2)] .
    then have k: "keeps H (ebufs s) m5" using keeps_mono [OF q(5), of H] by (auto intro: keeps_trans)
    have mm: "mem_malloc m5 = mem_malloc (ebufs s)" using ed aa(1) by (simp add: hd_edit_def)
    have st: "arp_step slots H (insert q H) s ?s"
      using assms(1) inv5 keeps_mono [OF k, of "H \<inter> insert q H"] mm by (simp add: arp_step_def eth_ok_def)
    have lc: "length (chain_data m5 [q]) = 36" using m5(3) b5 b(3) by (simp add: owned_def exclusive_def buf_data_length)
    have out: "outgoing (ebufs ?s) (insert q H) q []"
      using m5(3) b5 b(2) lc by (simp add: outgoing_def filled_tail_def chain_fuel_def of_type_def del: chain_data_simps)
    have mt: "mtu_ok ?s" using assms(2) by (simp add: mtu_ok_def)
    have h5: "heap (ebufs ?s) q = Some b" using b5 by simp
    have bnd: "20 \<le> p_payload b" "unat (p_len b) \<le> 1480" using pl b(3) by simp_all
    from ip4_output_step [OF arp_stepD(1) [OF st] out mt h5 bnd, of env IPADDR_ANY "of_le32 (take 4 (drop (p_payload bp + 12) (blk (ebufs s) p)))" ICMP_TTL 0 IP_PROTO_ICMP]
    obtain r2 s2 where s2: "ip4_output env q IPADDR_ANY (of_le32 (take 4 (drop (p_payload bp + 12) (blk (ebufs s) p)))) ICMP_TTL 0 IP_PROTO_ICMP ?s = Some (r2, s2)"
      "arp_step slots (insert q H - {q}) (insert q H) ?s s2" "owned (ebufs s2) q [q]" by blast
    from sent_then_freed [OF s2(2,3) st q(2)] obtain s3 where s3: "free_pbuf q s2 = Some s3" "arp_step slots H H s s3" by blast
    have "icmp_send_response env p type code s = Some s3"
      unfolding icmp_send_response_def sz using a Some m1(1) m2(1) m3(1) m4(1) m5(1) rp b4 r4 b(3) ra s2(1) s3(1) pl
      by (simp add: on_bufs_def do_bufs_def SIZEOF_ICMP_ECHO_HDR_def IP_HLEN_def ICMP_DEST_UNREACH_DATASIZE_def)
    then show ?thesis using s3(2) by blast
  qed
qed

section \<open>A packet in one buffer\<close>

text \<open>The packet is in the hands of the IP layer.\<close>

definition packet_at :: "nat set \<Rightarrow> nat set \<Rightarrow> nat \<Rightarrow> u8 \<Rightarrow> bytes \<Rightarrow> nat \<Rightarrow> nat \<Rightarrow> 'a eth_scheme \<Rightarrow> bool" where
  "packet_at slots H p f x pos len s \<longleftrightarrow> eth_ok slots H (with_pbuf p f x pos len s) \<and> p \<in> H \<and> f AND PBUF_FLAG_IS_CUSTOM = 0
     \<and> length x = 1516 \<and> pos + len \<le> 1514"

text \<open>The outcome of a handler: the packet has been freed.\<close>

definition freed :: "nat set \<Rightarrow> nat set \<Rightarrow> nat \<Rightarrow> 'a eth_scheme \<Rightarrow> 'a eth_scheme option \<Rightarrow> bool" where
  "freed slots H p s r \<longleftrightarrow> (\<exists>s'. r = Some s' \<and> arp_step slots (H - {p}) (H - {p}) s s' \<and> heap (ebufs s') p = None)"

lemma packet_at_move:
  assumes "packet_at slots H p f x pos len s" "length x' = 1516" "pos' + len' \<le> 1514"
  shows "packet_at slots H p f x' pos' len' s" "arp_step slots (H - {p}) H (with_pbuf p f x pos len s) (with_pbuf p f x' pos' len' s)"
proof -
  have "eth_ok slots H (with_pbuf p f x pos len s)" "p \<in> H" "length x' = length x" using assms(1,2) by (simp_all add: packet_at_def)
  from with_pbuf_step [OF this] show st: "arp_step slots (H - {p}) H (with_pbuf p f x pos len s) (with_pbuf p f x' pos' len' s)" .
  show "packet_at slots H p f x' pos' len' s" using assms arp_stepD(1) [OF st] by (simp add: packet_at_def)
qed

lemma freed_then:
  assumes "arp_step slots (H - {p}) H s s1" "freed slots H p s1 r"
  shows "freed slots H p s r"
proof -
  from assms(2) obtain s' where s': "r = Some s'" "arp_step slots (H - {p}) (H - {p}) s1 s'" "heap (ebufs s') p = None"
    by (auto simp: freed_def)
  have "keeps (H - {p}) (ebufs s) (ebufs s1)" using arp_stepD(2) [OF assms(1)] by (rule keeps_mono) auto
  moreover have "keeps (H - {p}) (ebufs s1) (ebufs s')" using arp_stepD(2) [OF s'(2)] by simp
  ultimately have "keeps (H - {p}) (ebufs s) (ebufs s')" by (rule keeps_trans)
  then have "arp_step slots (H - {p}) (H - {p}) s s'" using assms(1) s'(2) by (auto simp: arp_step_def)
  then show ?thesis using s' by (auto simp: freed_def)
qed

lemma freed_free:
  assumes "eth_ok slots H s" "owned (ebufs s) p [p]" "p \<in> H"
  shows "freed slots H p s (free_pbuf p s)"
  using arp_step_free [OF assms(1,2)] assms(3) by (auto simp: freed_def chain_fuel_def)

lemma packet_at_free:
  assumes "packet_at slots H p f x pos len s"
  shows "freed slots H p (with_pbuf p f x pos len s) (free_pbuf p (with_pbuf p f x pos len s))"
  by (rule freed_free) (use assms one_pbuf_owned [of pos len x f p] in \<open>simp_all add: packet_at_def\<close>)

lemma packet_at_moved_free:
  assumes "packet_at slots H p f x pos len s" "length x' = 1516" "pos' + len' \<le> 1514"
  shows "freed slots H p (with_pbuf p f x pos len s) (free_pbuf p (with_pbuf p f x' pos' len' s))"
  by (rule freed_then [OF packet_at_move(2) [OF assms] packet_at_free [OF packet_at_move(1) [OF assms]]])

lemma with_pbuf_upd [simp]:
  "(with_pbuf p f x pos len s)\<lparr>cur_dest := a\<rparr> = with_pbuf p f x pos len (s\<lparr>cur_dest := a\<rparr>)"
  "(with_pbuf p f x pos len s)\<lparr>cur_src := a\<rparr> = with_pbuf p f x pos len (s\<lparr>cur_src := a\<rparr>)"
  "(with_pbuf p f x pos len s)\<lparr>cur_netif := b\<rparr> = with_pbuf p f x pos len (s\<lparr>cur_netif := b\<rparr>)"
  "(with_pbuf p f x pos len s)\<lparr>cur_header := c\<rparr> = with_pbuf p f x pos len (s\<lparr>cur_header := c\<rparr>)"
  by (simp_all add: with_pbuf_def)

lemma eth_ok_fields [simp]:
  "eth_ok slots H (s\<lparr>cur_dest := a\<rparr>) = eth_ok slots H s" "eth_ok slots H (s\<lparr>cur_src := a\<rparr>) = eth_ok slots H s"
  "eth_ok slots H (s\<lparr>cur_netif := b\<rparr>) = eth_ok slots H s" "eth_ok slots H (s\<lparr>cur_header := c\<rparr>) = eth_ok slots H s"
  by (simp_all add: eth_ok_def)

lemma packet_at_fields [simp]:
  "packet_at slots H p f x pos len (s\<lparr>cur_dest := a\<rparr>) = packet_at slots H p f x pos len s"
  "packet_at slots H p f x pos len (s\<lparr>cur_src := a\<rparr>) = packet_at slots H p f x pos len s"
  "packet_at slots H p f x pos len (s\<lparr>cur_netif := b\<rparr>) = packet_at slots H p f x pos len s"
  "packet_at slots H p f x pos len (s\<lparr>cur_header := c\<rparr>) = packet_at slots H p f x pos len s"
  by (simp_all add: packet_at_def flip: with_pbuf_upd)

lemma mtu_ok_sels [simp]:
  "mtu_ok (with_pbuf p f x pos len s) = mtu_ok s" "mtu_ok (s\<lparr>cur_dest := a\<rparr>) = mtu_ok s" "mtu_ok (s\<lparr>cur_src := a\<rparr>) = mtu_ok s"
  "mtu_ok (s\<lparr>cur_netif := b\<rparr>) = mtu_ok s" "mtu_ok (s\<lparr>cur_header := c\<rparr>) = mtu_ok s"
  by (simp_all add: mtu_ok_def)

text \<open>The operations on such a packet.\<close>

lemma at_field: "o1 + off + n \<le> length x \<Longrightarrow> ip_field (p, o1) off n (with_pbuf p f x pos len s) = Some (take n (drop (o1 + off) x))"
  by (simp add: ip_field_def one_pbuf_blk_read)

lemma at_set_field:
  "o1 + off + length d \<le> length x \<Longrightarrow> set_ip_field (p, o1) off d (with_pbuf p f x pos len s) = Some (with_pbuf p f (overwrite (o1 + off) d x) pos len s)"
  unfolding set_ip_field_def by (rule do_with_pbuf) (simp add: one_pbuf_blk_write)

lemma at_write:
  "pos + off + length d \<le> length x \<Longrightarrow> do_bufs (payload_write p off d) (with_pbuf p f x pos len s) = Some (with_pbuf p f (overwrite (pos + off) d x) pos len s)"
  by (rule do_with_pbuf) (simp add: one_pbuf_write)

lemma at_read:
  "pos + off + n \<le> length x \<Longrightarrow> payload_read p off n (ebufs (with_pbuf p f x pos len s)) = Some (take n (drop (pos + off) x))"
  by (simp add: one_pbuf_read)

lemma at_header_down:
  "0 < n \<Longrightarrow> n \<le> len \<Longrightarrow> len < 65536 \<Longrightarrow>
     on_bufs (pbuf_header (Some p) (- int n)) (with_pbuf p f x pos len s) = Some (0, with_pbuf p f x (pos + n) (len - n) s)"
  by (rule on_with_pbuf) (rule one_pbuf_header_down)

lemma at_header_short:
  "len < n \<Longrightarrow> len < 65536 \<Longrightarrow> on_bufs (pbuf_header (Some p) (- int n)) (with_pbuf p f x pos len s) = Some (1, with_pbuf p f x pos len s)"
  by (rule on_with_pbuf) (rule one_pbuf_header_short)

lemma at_header_up:
  "0 < n \<Longrightarrow> n \<le> pos \<Longrightarrow> on_bufs (pbuf_header (Some p) (int n)) (with_pbuf p f x pos len s) = Some (0, with_pbuf p f x (pos - n) (len + n) s)"
  by (rule on_with_pbuf) (rule one_pbuf_header_up)

lemma at_heap:
  "heap (ebufs (with_pbuf p f x pos len s)) p = Some \<lparr>p_next = None, p_payload = pos, p_tot_len = of_nat len,
       p_len = of_nat len, p_type = PBUF_POOL, p_flags = f, p_ref = 1\<rparr>"
  by simp

lemma at_room:
  assumes "34 \<le> pos" "pos + len \<le> 1516"
  shows "icmp_room p h hlen (with_pbuf p f x pos len s) = Some (Some (p, h), with_pbuf p f x pos len s)"
proof -
  have 1: "on_bufs (pbuf_header (Some p) (int (PBUF_IP_HLEN + PBUF_LINK_HLEN))) (with_pbuf p f x pos len s) = Some (0, with_pbuf p f x (pos - 34) (len + 34) s)"
    using at_header_up [of 34 pos] assms(1) by (simp add: PBUF_IP_HLEN_def PBUF_LINK_HLEN_def)
  have 2: "on_bufs (pbuf_header (Some p) (- int (PBUF_IP_HLEN + PBUF_LINK_HLEN))) (with_pbuf p f x (pos - 34) (len + 34) s) = Some (0, with_pbuf p f x pos len s)"
    using at_header_down [of 34 "len + 34" p f x "pos - 34" s] assms by (simp add: PBUF_IP_HLEN_def PBUF_LINK_HLEN_def)
  show ?thesis unfolding icmp_room_def 1 by (simp add: 2 del: of_nat_add)
qed

section \<open>The reply\<close>

definition reply_blk :: "nat \<Rightarrow> u32 \<Rightarrow> u32 \<Rightarrow> bytes \<Rightarrow> bytes" where
  "reply_blk hlen src dest x = (let x = overwrite 26 (le32 src) x; x = overwrite 30 (le32 dest) x; x = overwrite (14 + hlen) [ICMP_ER] x;
       x = overwrite (14 + hlen + 2) (le16 (echo_chksum (of_le16 (take 2 (drop (14 + hlen + 2) x))))) x;
       x = overwrite 22 [ICMP_TTL] x; x = overwrite 24 [0, 0] x
     in overwrite 24 (le16 (inet_chksum False (take 20 (drop 14 x)))) x)"

lemma reply_blk_length: "length x = 1516 \<Longrightarrow> hlen \<le> 60 \<Longrightarrow> length (reply_blk hlen a b x) = 1516"
  by (simp add: reply_blk_def Let_def)

lemma at_reply:
  assumes "length x = 1516" "14 + hlen + len \<le> 1516" "0 < hlen" "hlen \<le> 60"
  shows "icmp_reply env p inp (p, 14) hlen (with_pbuf p f x (14 + hlen) len s) = do {
      s \<leftarrow> map_option snd (ip4_output_if env p (cur_dest s) None ICMP_TTL 0 IP_PROTO_ICMP inp
             (with_pbuf p f (reply_blk hlen (cur_dest s) (cur_src s) x) 14 (hlen + len) s));
      free_pbuf p s }"
proof -
  have hu: "on_bufs (pbuf_header (Some p) (int hlen)) (with_pbuf p f y (14 + hlen) len s) = Some (0, with_pbuf p f y 14 (hlen + len) s)" for y
    using at_header_up [of hlen "14 + hlen" p f y len s] assms(3) by (simp add: add.commute)
  show ?thesis
    unfolding icmp_reply_def IP_HLEN_def reply_blk_def Let_def
    using assms by (simp add: at_field at_set_field at_write one_pbuf_read hu del: of_nat_add)
qed


lemma icmp_reply_step:
  assumes "packet_at slots H p f x (14 + hlen) len s" "20 \<le> hlen" "hlen \<le> 60" "mtu_ok s" "netifs s inp = Some n"
  shows "freed slots H p (with_pbuf p f x (14 + hlen) len s) (icmp_reply env p inp (p, 14) hlen (with_pbuf p f x (14 + hlen) len s))"
proof -
  let ?x = "reply_blk hlen (cur_dest s) (cur_src s) x"
  let ?t = "with_pbuf p f ?x 14 (hlen + len) s"
  have b: "length x = 1516" "14 + (hlen + len) \<le> 1514" "f AND PBUF_FLAG_IS_CUSTOM = 0" "p \<in> H" using assms(1) by (auto simp: packet_at_def)
  have lx: "length ?x = 1516" using b(1) assms(3) by (rule reply_blk_length)
  note mv = packet_at_move [OF assms(1) lx b(2)]
  have ok: "eth_ok slots H ?t" using mv(1) by (simp add: packet_at_def)
  have out: "outgoing (ebufs ?t) H p []"
    using one_pbuf_outgoing(1) [of 14 "hlen + len" ?x f p H] b lx by simp
  have n: "netifs ?t inp = Some n" "mtu_ok ?t" using assms(4,5) by simp_all
  have pl: "unat (of_nat (hlen + len) :: u16) = hlen + len" using b(2) by (intro unat16_of_nat) simp
  have io: "ip4_output_if env p (cur_dest s) None ICMP_TTL 0 IP_PROTO_ICMP inp ?t
     = etharp_output inp p (of_le32 (take 4 (drop 16 (chain_data (ebufs ?t) [p])))) ?t"
    by (rule ip4_output_if_incl [OF ok n(1) out n(2) at_heap]) (use pl b(2) assms(2) in simp_all)
  from etharp_output_step [OF ok n(1) out, of "of_le32 (take 4 (drop 16 (chain_data (ebufs ?t) [p])))"] obtain r s' where
    s': "etharp_output inp p (of_le32 (take 4 (drop 16 (chain_data (ebufs ?t) [p])))) ?t = Some (r, s')" "arp_step slots (H - {p}) H ?t s'"
      "owned (ebufs s') p [p]" by blast
  have "icmp_reply env p inp (p, 14) hlen (with_pbuf p f x (14 + hlen) len s) = free_pbuf p s'"
    using at_reply [of x hlen len env p inp f s] b(1,2) assms(2,3) io s'(1) by simp
  moreover have "freed slots H p s' (free_pbuf p s')" by (rule freed_free [OF arp_stepD(1) [OF s'(2)] s'(3) b(4)])
  ultimately show ?thesis using freed_then [OF mv(2) freed_then [OF s'(2)]] by simp
qed

lemma icmp_echo_eq:
  assumes "packet_at slots H p f x (14 + hlen) len s" "20 \<le> hlen" "hlen \<le> 60" "netifs s inp = Some n"
  shows "icmp_echo env p inp (p, 14) hlen (with_pbuf p f x (14 + hlen) len s) =
     (if ip_addr_ismulticast (cur_dest s) \<or> ip4_addr_isbroadcast (cur_dest s) (netif.truncate n) \<or> len < 8
         \<or> inet_chksum False (take len (drop (14 + hlen) x)) \<noteq> 0
      then free_pbuf p (with_pbuf p f x (14 + hlen) len s)
      else icmp_reply env p inp (p, 14) hlen (with_pbuf p f x (14 + hlen) len s))"
proof -
  have b: "length x = 1516" "14 + hlen + len \<le> 1514" using assms(1) by (auto simp: packet_at_def)
  from one_pbuf_chksum_zero [of "14 + hlen" len x p f "ebufs s"] b obtain w where w: "inet_chksum_pbuf (Some p) (one_pbuf p f x (14 + hlen) len (ebufs s)) = Some w"
    "w = 0 \<longleftrightarrow> inet_chksum False (take len (drop (14 + hlen) x)) = 0" by auto
  have l: "unat (of_nat len :: u16) = len" using b(2) by (intro unat16_of_nat) simp
  show ?thesis
    unfolding icmp_echo_def using assms(2,4) b w l at_room [of "14 + hlen" len p "(p, 14)" hlen f x s]
    by (auto simp: SIZEOF_ICMP_ECHO_HDR_def)
qed

lemma icmp_input_eq:
  assumes "packet_at slots H p f x 14 len s" "hlen = unat (x ! 14 AND 0x0F) * 4" "0 < hlen" "netifs s inp = Some n"
  shows "icmp_input env p inp (with_pbuf p f x 14 len s) =
     (if len < hlen then free_pbuf p (with_pbuf p f x 14 len s)
      else if len - hlen < 4 \<or> x ! (14 + hlen) \<noteq> ICMP_ECHO then free_pbuf p (with_pbuf p f x (14 + hlen) (len - hlen) s)
      else icmp_echo env p inp (p, 14) hlen (with_pbuf p f x (14 + hlen) (len - hlen) s))"
proof -
  have b: "length x = 1516" "14 + len \<le> 1514" using assms(1) by (auto simp: packet_at_def)
  have l: "unat (of_nat (len - k) :: u16) = len - k" for k using b(2) by (intro unat16_of_nat) simp
  have "take 1 (drop k x) = [x ! k]" if "k < 1516" for k using that b(1) by (simp add: take_Suc_conv_app_nth Cons_nth_drop_Suc [symmetric])
  then have v: "ip_field (p, 14) 0 1 (with_pbuf p f x 14 len s) = Some [x ! 14]"
    and t: "14 + hlen < 1516 \<Longrightarrow> payload_read p 0 1 (one_pbuf p f x (14 + hlen) k m) = Some [x ! (14 + hlen)]" for k m
    using b by (simp_all add: at_field one_pbuf_read)
  have start: "icmp_input env p inp (with_pbuf p f x 14 len s) = do {
     (r, s) \<leftarrow> on_bufs (pbuf_header (Some p) (- int hlen)) (with_pbuf p f x 14 len s);
     b \<leftarrow> heap (ebufs s) p;
     if r \<noteq> 0 \<or> unat (p_tot_len b) < 4 then free_pbuf p s
     else do {
       t \<leftarrow> payload_read p 0 1 (ebufs s);
       if hd t = ICMP_ECHO then icmp_echo env p inp (p, 14) hlen s else free_pbuf p s } }"
    by (simp only: icmp_input_def at_heap bind.bind_lunit Let_def pbuf.simps v list.sel assms(2) [symmetric])
  show ?thesis
  proof (cases "len < hlen")
    case True
    then show ?thesis unfolding start using at_header_short [OF True, of p f x 14 s] b(2) by simp
  next
    case False
    then show ?thesis unfolding start using at_header_down [of hlen len p f x 14 s] b(2) assms(3) l [of hlen] t by auto
  qed
qed

lemma ihl_bound: "unat ((w :: u8) AND 0x0F) * 4 \<le> 60"
proof -
  have "w AND 0x0F \<le> 0x0F" by (rule word_and_le1)
  then have "unat (w AND 0x0F) \<le> 15" by (simp add: word_le_nat_alt)
  then show ?thesis by simp
qed

lemma icmp_input_step:
  assumes "packet_at slots H p f x 14 len s" "5 \<le> x ! 14 AND 0x0F" "mtu_ok s" "netifs s inp = Some n"
  shows "freed slots H p (with_pbuf p f x 14 len s) (icmp_input env p inp (with_pbuf p f x 14 len s))"
proof -
  define hlen where "hlen = unat (x ! 14 AND 0x0F) * 4"
  have h: "20 \<le> hlen" "hlen \<le> 60" using assms(2) ihl_bound [of "x ! 14"] by (simp_all add: hlen_def word_le_nat_alt)
  have b: "length x = 1516" "14 + len \<le> 1514" using assms(1) by (auto simp: packet_at_def)
  have "0 < hlen" using h(1) by simp
  note e = icmp_input_eq [OF assms(1) hlen_def this assms(4), of env]
  show ?thesis
  proof (cases "len < hlen")
    case True
    then show ?thesis unfolding e using packet_at_free [OF assms(1)] by simp
  next
    case False
    then have "14 + hlen + (len - hlen) \<le> 1514" using b(2) by simp
    note mv = packet_at_move [OF assms(1) b(1) this]
    have "freed slots H p (with_pbuf p f x (14 + hlen) (len - hlen) s) (icmp_echo env p inp (p, 14) hlen (with_pbuf p f x (14 + hlen) (len - hlen) s))"
      unfolding icmp_echo_eq [OF mv(1) h assms(4)]
      using packet_at_free [OF mv(1)] icmp_reply_step [OF mv(1) h assms(3,4)] by simp
    then have "freed slots H p (with_pbuf p f x 14 len s) (icmp_echo env p inp (p, 14) hlen (with_pbuf p f x (14 + hlen) (len - hlen) s))"
      by (rule freed_then [OF mv(2)])
    moreover have "freed slots H p (with_pbuf p f x 14 len s) (free_pbuf p (with_pbuf p f x (14 + hlen) (len - hlen) s))"
      by (rule freed_then [OF mv(2) packet_at_free [OF mv(1)]])
    ultimately show ?thesis unfolding e using False by simp
  qed
qed

end
