(* ===== verification/Reass_Frags.thy ===== *)
theory Reass_Frags
  imports Ip_Reass Icmp_Run
begin

text \<open>
  The list of fragments of a datagram (\<open>Ip_Reass\<close>). \<open>frags m q fs\<close> says that the memory \<open>m\<close> holds the fragments \<open>fs\<close> from the
  pointer \<open>q\<close> on, \<open>edits A m m'\<close> that only the payload of the buffers in \<open>A\<close> changed. Adding a fragment is \<open>place_frag\<close> on the
  list (\<open>frag_chained\<close>), and the datagram is handed on when \<open>taken_complete\<close> holds.
\<close>

section \<open>Fragments in memory\<close>

datatype fragment = Fragment (fr_p: nat) (fr_start: u16) (fr_end: u16) (fr_data: bytes)

definition ptr_ok :: "nat option \<Rightarrow> bool" where
  "ptr_ok p \<longleftrightarrow> (case p of None \<Rightarrow> True | Some a \<Rightarrow> a + 1 < 2 ^ 32)"

lemma ptr_bytes_length [simp]: "length (ptr_bytes p) = 4"
  by (simp add: ptr_bytes_def)

lemma of_ptr_bytes [simp]: "ptr_ok p \<Longrightarrow> of_ptr (ptr_bytes p) = p"
  by (cases p) (simp_all add: ptr_ok_def of_ptr_def ptr_bytes_def Let_def unat32_of_nat del: of_nat_add of_nat_Suc)

text \<open>The bytes of an enqueued fragment: the helper, what is left of the header, the data.\<close>

definition frag_bytes :: "nat option \<Rightarrow> u16 \<Rightarrow> u16 \<Rightarrow> bytes \<Rightarrow> bytes" where
  "frag_bytes n st en d = ptr_bytes n @ le16 st @ le16 en @ d"

definition frag :: "pbuf_mem \<Rightarrow> nat \<Rightarrow> nat option \<Rightarrow> u16 \<Rightarrow> u16 \<Rightarrow> bytes \<Rightarrow> bool" where
  "frag m p n st en d \<longleftrightarrow> owned m p [p] \<and> ptr_ok n \<and> (\<exists>h. length h = 12 \<and> chain_data m [p] = frag_bytes n st en (h @ d))"

text \<open>A segment of the list of fragments from the pointer \<open>q\<close> to the pointer \<open>r\<close>.\<close>

fun fseg :: "pbuf_mem \<Rightarrow> nat option \<Rightarrow> fragment list \<Rightarrow> nat option \<Rightarrow> bool" where
  "fseg m q [] r \<longleftrightarrow> q = r"
| "fseg m q (f # fs) r \<longleftrightarrow> q = Some (fr_p f) \<and> (\<exists>n. frag m (fr_p f) n (fr_start f) (fr_end f) (fr_data f) \<and> fseg m n fs r)"

abbreviation frags :: "pbuf_mem \<Rightarrow> nat option \<Rightarrow> fragment list \<Rightarrow> bool" where
  "frags m q fs \<equiv> fseg m q fs None"

lemma fseg_append: "fseg m q (xs @ ys) r \<longleftrightarrow> (\<exists>p. fseg m q xs p \<and> fseg m p ys r)"
  by (induction xs arbitrary: q) auto

lemma payload_read_single:
  assumes "owned m p [p]" "off + k \<le> length (chain_data m [p])"
  shows "payload_read p off k m = Some (take k (drop off (chain_data m [p])))"
proof -
  from assms(1) obtain b where b: "heap m p = Some b" "in_block m p b" by (auto simp: owned_def exclusive_def split: option.splits)
  then show ?thesis using payload_read_in_block [OF b, of off k] buf_data_length [OF b] assms(2) by (simp add: chain_data_def)
qed

lemma payload_write_single:
  assumes "owned m p [p]" "off + length d \<le> length (chain_data m [p])"
  shows "\<exists>m'. payload_write p off d m = Some m' \<and> hd_edit m m' p \<and> owned m' p [p] \<and> heap m' = heap m
     \<and> chain_data m' [p] = take off (chain_data m [p]) @ d @ drop (off + length d) (chain_data m [p])"
proof -
  from assms(1) obtain b where b: "heap m p = Some b" "in_block m p b" by (auto simp: owned_def exclusive_def split: option.splits)
  then show ?thesis using payload_write_chain [OF assms(1) b(1), of off d] buf_data_length [OF b] assms(2) by (simp add: chain_data_def)
qed

lemma owned_heap: "owned m p [p] \<Longrightarrow> \<exists>b. heap m p = Some b \<and> in_block m p b \<and> p_next b = None \<and> unat (p_len b) = length (chain_data m [p])"
  by (auto simp: owned_def exclusive_def chain_data_def buf_data_length split: option.splits)

lemma frag_reads:
  assumes "frag (ebufs s) p n st en d"
  shows "iprh_next_pbuf p s = Some n" "iprh_start p s = Some st" "iprh_end p s = Some en"
proof -
  from assms obtain h where o: "owned (ebufs s) p [p]" "ptr_ok n" and c: "chain_data (ebufs s) [p] = frag_bytes n st en (h @ d)" "length h = 12" by (auto simp: frag_def)
  note r = payload_read_single [OF o(1)]
  have "payload_read p 0 4 (ebufs s) = Some (ptr_bytes n)" using r [of 0 4] c by (simp add: frag_bytes_def)
  then show "iprh_next_pbuf p s = Some n" using o(2) by (simp add: iprh_next_pbuf_def)
  have "payload_read p 4 2 (ebufs s) = Some (le16 st)" using r [of 4 2] c by (simp add: frag_bytes_def)
  then show "iprh_start p s = Some st" by (simp add: iprh_start_def)
  have "payload_read p 6 2 (ebufs s) = Some (le16 en)" using r [of 6 2] c by (simp add: frag_bytes_def)
  then show "iprh_end p s = Some en" by (simp add: iprh_end_def)
qed

lemma frag_keeps: "keeps H m m' \<Longrightarrow> p \<in> H \<Longrightarrow> frag m' p n st en d = frag m p n st en d"
  using keeps_chain(2,4) [of H m m' "[p]"] by (simp add: frag_def)

lemma fseg_keeps: "keeps H m m' \<Longrightarrow> fr_p ` set fs \<subseteq> H \<Longrightarrow> fseg m' q fs r = fseg m q fs r"
  by (induction fs arbitrary: q) (auto simp: frag_keeps)

text \<open>What writing to one fragment leaves alone.\<close>

definition edits :: "nat set \<Rightarrow> pbuf_mem \<Rightarrow> pbuf_mem \<Rightarrow> bool" where
  "edits A m m' \<longleftrightarrow> heap m' = heap m \<and> pool m' = pool m \<and> ref_pool m' = ref_pool m \<and> mem_malloc m' = mem_malloc m
     \<and> (\<forall>a. a \<notin> A \<longrightarrow> blk m' a = blk m a) \<and> (\<forall>a. length (blk m' a) = length (blk m a))"

lemma edits_refl [simp]: "edits A m m"
  by (simp add: edits_def)

lemma edits_trans: "edits A m m' \<Longrightarrow> edits A m' m'' \<Longrightarrow> edits A m m''"
  by (simp add: edits_def)

lemma edits_mono: "edits A m m' \<Longrightarrow> A \<subseteq> B \<Longrightarrow> edits B m m'"
  by (auto simp: edits_def)

lemma edits_keeps: "edits A m m' \<Longrightarrow> A \<inter> H = {} \<Longrightarrow> keeps H m m'"
  by (auto simp: edits_def keeps_def)

lemma fseg_edits: "edits A m m' \<Longrightarrow> A \<inter> fr_p ` set fs = {} \<Longrightarrow> fseg m' q fs r = fseg m q fs r"
  by (rule fseg_keeps [OF edits_keeps]) auto

lemma edits_one:
  assumes "hd_edit m m' p" "heap m' = heap m"
  shows "edits {p} m m'"
proof -
  have "length (blk m' a) = length (blk m a)" for a by (rule hd_edit_fields(4) [OF assms(1)])
  then show ?thesis using assms by (simp add: edits_def hd_edit_def)
qed

lemma set_next_frag:
  assumes "frag (ebufs s) p n st en d" "ptr_ok q"
  shows "\<exists>m. set_next_pbuf p q s = Some (s\<lparr>ebufs := m\<rparr>) \<and> frag m p q st en d \<and> edits {p} (ebufs s) m"
proof -
  from assms(1) obtain h where o: "owned (ebufs s) p [p]" and c: "chain_data (ebufs s) [p] = frag_bytes n st en (h @ d)" "length h = 12" by (auto simp: frag_def)
  from payload_write_single [OF o, of 0 "ptr_bytes q"] c obtain m where
    m: "payload_write p 0 (ptr_bytes q) (ebufs s) = Some m" "hd_edit (ebufs s) m p" "owned m p [p]" "heap m = heap (ebufs s)"
      "chain_data m [p] = frag_bytes q st en (h @ d)" by (auto simp: frag_bytes_def)
  then show ?thesis using assms(2) c(2) edits_one [OF m(2,4)] by (auto simp: set_next_pbuf_def do_bufs_def frag_def)
qed

text \<open>The helper is written over the header of a packet.\<close>

lemma helper_written:
  assumes "owned (ebufs s) p [p]" "chain_data (ebufs s) [p] = h @ d" "length h = 20"
  shows "\<exists>m. do_bufs (payload_write p 0 (ptr_bytes None @ le16 st @ le16 en)) s = Some (s\<lparr>ebufs := m\<rparr>) \<and> frag m p None st en d \<and> edits {p} (ebufs s) m"
proof -
  from payload_write_single [OF assms(1), of 0 "ptr_bytes None @ le16 st @ le16 en"] assms(2,3) obtain m where
    m: "payload_write p 0 (ptr_bytes None @ le16 st @ le16 en) (ebufs s) = Some m" "hd_edit (ebufs s) m p" "owned m p [p]" "heap m = heap (ebufs s)"
      "chain_data m [p] = frag_bytes None st en (drop 8 h @ d)" by (auto simp: frag_bytes_def)
  have "frag m p None st en d" unfolding frag_def using m(3,5) assms(3) by (intro conjI exI [of _ "drop 8 h"]) (simp_all add: ptr_ok_def)
  then show ?thesis using m(1) edits_one [OF m(2,4)] by (auto simp: do_bufs_def)
qed

section \<open>The place of a fragment\<close>

text \<open>
  What the search of the code does on the list \<open>ys\<close> of fragments still to be looked at, behind those in \<open>xs\<close>: \<open>None\<close> discards the new
  fragment, else it goes between the two lists of the result.
\<close>

fun place_frag :: "fragment \<Rightarrow> fragment list \<Rightarrow> fragment list \<Rightarrow> (fragment list \<times> fragment list) option" where
  "place_frag f xs [] = Some (xs, [])"
| "place_frag f xs (g # gs) =
     (if fr_start f < fr_start g
      then (if xs \<noteq> [] \<and> (fr_start f < fr_end (last xs) \<or> fr_end f > fr_start g) then None else Some (xs, g # gs))
      else if fr_start f = fr_start g \<or> fr_start f < fr_end g then None
      else place_frag f (xs @ [g]) gs)"

definition contiguous :: "fragment list \<Rightarrow> bool" where
  "contiguous fs \<longleftrightarrow> successively (\<lambda>f g. fr_end f = fr_start g) fs"

lemma contiguous_snoc: "contiguous (xs @ [g]) \<longleftrightarrow> contiguous xs \<and> (xs = [] \<or> fr_end (last xs) = fr_start g)"
  by (auto simp: contiguous_def successively_append_iff)

lemma place_frag_parts: "place_frag f xs ys = Some (as, bs) \<Longrightarrow> as @ bs = xs @ ys"
  by (induction f xs ys rule: place_frag.induct) (auto split: if_splits)

definition last_p :: "fragment list \<Rightarrow> nat option" where
  "last_p xs = (if xs = [] then None else Some (fr_p (last xs)))"

definition head_p :: "fragment list \<Rightarrow> nat option" where
  "head_p xs = (case xs of [] \<Rightarrow> None | f # fs \<Rightarrow> Some (fr_p f))"

lemma fseg_head: "fseg m q xs r \<Longrightarrow> xs \<noteq> [] \<Longrightarrow> q = head_p xs"
  by (cases xs) (auto simp: head_p_def)

lemma fseg_ptr: "fseg m q xs r \<Longrightarrow> ptr_ok q \<Longrightarrow> ptr_ok r"
  by (induction xs arbitrary: q) (auto simp: frag_def)

lemma last_frag:
  assumes "fseg (ebufs s) q xs r" "xs \<noteq> []"
  shows "\<exists>n. frag (ebufs s) (fr_p (last xs)) n (fr_start (last xs)) (fr_end (last xs)) (fr_data (last xs))"
  using assms by (induction xs arbitrary: q) auto

text \<open>The pointer at the end of a segment is set.\<close>

lemma fseg_set_last:
  assumes "fseg (ebufs s) q xs r" "xs \<noteq> []" "distinct (map fr_p xs)" "ptr_ok p"
  shows "\<exists>m. set_next_pbuf (fr_p (last xs)) p s = Some (s\<lparr>ebufs := m\<rparr>) \<and> fseg m q xs p \<and> edits {fr_p (last xs)} (ebufs s) m"
proof -
  from assms(2) obtain ys b where xs: "xs = ys @ [b]" by (cases xs rule: rev_cases) auto
  from assms(1) have ys: "fseg (ebufs s) q ys (Some (fr_p b))" "frag (ebufs s) (fr_p b) r (fr_start b) (fr_end b) (fr_data b)"
    by (auto simp: xs fseg_append)
  from set_next_frag [OF ys(2) assms(4)] obtain m where m: "set_next_pbuf (fr_p b) p s = Some (s\<lparr>ebufs := m\<rparr>)"
    "frag m (fr_p b) p (fr_start b) (fr_end b) (fr_data b)" "edits {fr_p b} (ebufs s) m" by blast
  have "fseg m q ys (Some (fr_p b))" using fseg_edits [OF m(3), of ys] ys(1) assms(3) by (auto simp: xs)
  then show ?thesis using m by (auto simp: xs fseg_append)
qed

text \<open>The search finds the place and links the fragment in when others follow.\<close>

definition new_frag :: "pbuf_mem \<Rightarrow> fragment \<Rightarrow> nat option \<Rightarrow> bool" where
  "new_frag m f n \<longleftrightarrow> frag m (fr_p f) n (fr_start f) (fr_end f) (fr_data f) \<and> ptr_ok (Some (fr_p f))"

lemma new_frag_edits: "edits A m m' \<Longrightarrow> fr_p f \<notin> A \<Longrightarrow> new_frag m' f n = new_frag m f n"
  using frag_keeps [OF edits_keeps, of A m m' "{fr_p f}" "fr_p f"] by (auto simp: new_frag_def)

lemma owned_new: "new_frag m f n \<Longrightarrow> owned m (fr_p f) [fr_p f]"
  by (simp add: new_frag_def frag_def)

definition all_p :: "fragment list \<Rightarrow> nat set" where
  "all_p fs = fr_p ` set fs"

text \<open>The fragment is linked in between two segments.\<close>

lemma link_between:
  fixes s :: "'b ip4r_scheme"
  assumes "reass s ipr = Some r" "fseg (ebufs s) (ra_p r) xs q" "frags (ebufs s) q' ys" "new_frag (ebufs s) f q'"
    and "distinct (map fr_p (f # xs @ ys))" "ys = [] \<or> q' = head_p ys"
  shows "\<exists>m. (case last_p xs of None \<Rightarrow> upd_reass ipr (\<lambda>x. x\<lparr>ra_p := Some (fr_p f)\<rparr>) s | Some b \<Rightarrow> set_next_pbuf b (Some (fr_p f)) s)
       = Some (s\<lparr>ebufs := m, reass := (reass s)(ipr \<mapsto> r\<lparr>ra_p := head_p (xs @ [f])\<rparr>)\<rparr>)
     \<and> frags m (head_p (xs @ [f])) (xs @ f # ys) \<and> edits (all_p xs) (ebufs s) m"
proof (cases "xs = []")
  case True
  then show ?thesis using assms(1,3,4)
    by (intro exI [of _ "ebufs s"]) (auto simp: last_p_def upd_reass_def head_p_def new_frag_def)
next
  case False
  have d: "distinct (map fr_p xs)" "ptr_ok (Some (fr_p f))" using assms(4,5) by (auto simp: new_frag_def)
  from fseg_set_last [OF assms(2) False d] obtain m where
    m: "set_next_pbuf (fr_p (last xs)) (Some (fr_p f)) s = Some (s\<lparr>ebufs := m\<rparr>)" "fseg m (ra_p r) xs (Some (fr_p f))"
      "edits {fr_p (last xs)} (ebufs s) m" by blast
  have ap: "fr_p (last xs) \<notin> fr_p ` set (f # ys)" using assms(5) imageI [OF last_in_set [OF False], of fr_p] by auto
  have "frags m q' ys" using fseg_edits [OF m(3), of ys] assms(3) ap by auto
  moreover have "new_frag m f q'" using new_frag_edits [OF m(3), of f] assms(4) ap by auto
  ultimately have "frags m (ra_p r) (xs @ f # ys)" using m(2) by (auto simp: fseg_append new_frag_def)
  moreover have "head_p (xs @ [f]) = ra_p r" using fseg_head [OF assms(2) False] False by (cases xs) (simp_all add: head_p_def)
  moreover have "(reass s)(ipr \<mapsto> r\<lparr>ra_p := ra_p r\<rparr>) = reass s" using assms(1) by auto
  moreover have "edits (all_p xs) (ebufs s) m" using m(3) by (rule edits_mono) (use last_in_set [OF False] in \<open>simp add: all_p_def\<close>)
  ultimately show ?thesis using m(1) False by (intro exI [of _ m]) (simp add: last_p_def)
qed

lemma chain_frag_place:
  fixes s :: "'b ip4r_scheme"
  assumes "reass s ipr = Some r" "fseg (ebufs s) (ra_p r) xs q" "frags (ebufs s) q ys" "new_frag (ebufs s) f None"
    and "distinct (map fr_p (f # xs @ ys))" "length ys \<le> fuel" "ptr_ok q"
  shows "case place_frag f xs ys of
       None \<Rightarrow> \<exists>m. chain_frag fuel ipr (fr_p f) (fr_start f) (fr_end f) q (last_p xs) (contiguous xs) s = Some (Discard, s\<lparr>ebufs := m\<rparr>)
         \<and> edits {fr_p f} (ebufs s) m \<and> owned m (fr_p f) [fr_p f]
     | Some (as, bs) \<Rightarrow>
         if bs = [] then chain_frag fuel ipr (fr_p f) (fr_start f) (fr_end f) q (last_p xs) (contiguous xs) s = Some (Found None (last_p as) (contiguous as), s)
         else \<exists>m. chain_frag fuel ipr (fr_p f) (fr_start f) (fr_end f) q (last_p xs) (contiguous xs) s
               = Some (Found (head_p bs) (last_p as) (contiguous as), s\<lparr>ebufs := m, reass := (reass s)(ipr \<mapsto> r\<lparr>ra_p := head_p (as @ [f])\<rparr>)\<rparr>)
             \<and> frags m (head_p (as @ [f])) (as @ f # bs) \<and> edits (insert (fr_p f) (all_p as)) (ebufs s) m"
  using assms(2,3,5,6,7)
proof (induction ys arbitrary: xs q fuel)
  case Nil
  then show ?case by simp
next
  case (Cons g gs)
  from Cons.prems(4) obtain k where k: "fuel = Suc k" "length gs \<le> k" by (cases fuel) auto
  from Cons.prems(2) obtain n where q: "q = Some (fr_p g)" and g: "frag (ebufs s) (fr_p g) n (fr_start g) (fr_end g) (fr_data g)" "frags (ebufs s) n gs" by auto
  note rd = frag_reads [OF g(1)]
  let ?run = "\<lambda>q xs. chain_frag fuel ipr (fr_p f) (fr_start f) (fr_end f) q (last_p xs) (contiguous xs) s"
  have ow: "owned (ebufs s) (fr_p f) [fr_p f]" using owned_new [OF assms(4)] .
  consider (before) "fr_start f < fr_start g" | (same) "\<not> fr_start f < fr_start g" "fr_start f = fr_start g \<or> fr_start f < fr_end g"
    | (behind) "\<not> fr_start f < fr_start g" "\<not> (fr_start f = fr_start g \<or> fr_start f < fr_end g)" by blast
  then show ?case
  proof cases
    case before
    have pq: "ptr_ok (Some (fr_p g))" using Cons.prems(5) q by simp
    from set_next_frag [of s "fr_p f" None "fr_start f" "fr_end f" "fr_data f" "Some (fr_p g)"] assms(4) pq obtain m where
      m: "set_next_pbuf (fr_p f) (Some (fr_p g)) s = Some (s\<lparr>ebufs := m\<rparr>)" "frag m (fr_p f) (Some (fr_p g)) (fr_start f) (fr_end f) (fr_data f)"
        "edits {fr_p f} (ebufs s) m" by (auto simp: new_frag_def)
    let ?s = "s\<lparr>ebufs := m\<rparr>"
    have nf: "new_frag m f (Some (fr_p g))" using m(2) assms(4) by (simp add: new_frag_def)
    have seg: "fseg m (ra_p r) xs q" "frags m q (g # gs)"
      using fseg_edits [OF m(3), of xs] fseg_edits [OF m(3), of "g # gs"] Cons.prems(1-3) by (auto simp del: fseg.simps)
    show ?thesis
    proof (cases "xs \<noteq> [] \<and> (fr_start f < fr_end (last xs) \<or> fr_end f > fr_start g)")
      case True
      from last_frag [of ?s, OF _ conjunct1 [OF True]] seg(1) obtain l where
        "frag m (fr_p (last xs)) l (fr_start (last xs)) (fr_end (last xs)) (fr_data (last xs))" by auto
      then have "iprh_end (fr_p (last xs)) ?s = Some (fr_end (last xs))" by (simp add: frag_reads)
      then have "?run q xs = Some (Discard, ?s)" using True before by (auto simp: k(1) q rd m(1) last_p_def)
      then show ?thesis using before True m(3) owned_new [OF nf] by auto
    next
      case False
      from link_between [of ?s ipr r xs q q "g # gs" f] assms(1) seg nf q Cons.prems(3) obtain m2 where
        m2: "(case last_p xs of None \<Rightarrow> upd_reass ipr (\<lambda>x. x\<lparr>ra_p := Some (fr_p f)\<rparr>) ?s | Some b \<Rightarrow> set_next_pbuf b (Some (fr_p f)) ?s)
            = Some (?s\<lparr>ebufs := m2, reass := (reass ?s)(ipr \<mapsto> r\<lparr>ra_p := head_p (xs @ [f])\<rparr>)\<rparr>)"
          "frags m2 (head_p (xs @ [f])) (xs @ f # g # gs)" "edits (all_p xs) m m2" by (auto simp: head_p_def)
      have "?run q xs = Some (Found (Some (fr_p g)) (last_p xs) (contiguous xs), s\<lparr>ebufs := m2, reass := (reass s)(ipr \<mapsto> r\<lparr>ra_p := head_p (xs @ [f])\<rparr>)\<rparr>)"
      proof (cases "xs = []")
        case True
        then show ?thesis using m2(1) before by (simp add: k(1) q rd m(1) last_p_def)
      next
        case ne: False
        from last_frag [of ?s, OF _ ne] seg(1) obtain l where
          "frag m (fr_p (last xs)) l (fr_start (last xs)) (fr_end (last xs)) (fr_data (last xs))" by auto
        then have "iprh_end (fr_p (last xs)) ?s = Some (fr_end (last xs))" by (simp add: frag_reads)
        then show ?thesis using m2(1) before False ne by (simp add: k(1) q rd m(1) last_p_def)
      qed
      moreover have "edits (insert (fr_p f) (all_p xs)) (ebufs s) m2"
        by (rule edits_trans [OF edits_mono [OF m(3)] edits_mono [OF m2(3)]]) auto
      moreover have "place_frag f xs (g # gs) = Some (xs, g # gs)" using before False by auto
      ultimately show ?thesis using m2(2) by (auto simp: head_p_def)
    qed
  next
    case same
    then have "?run q xs = Some (Discard, s)" by (auto simp: k(1) q rd)
    then show ?thesis using same ow by (auto intro!: exI [of _ "ebufs s"])
  next
    case behind
    have c: "contiguous (xs @ [g]) \<longleftrightarrow> contiguous xs \<and> (xs = [] \<or> fr_end (last xs) = fr_start g)" by (rule contiguous_snoc)
    have run: "?run q xs = chain_frag k ipr (fr_p f) (fr_start f) (fr_end f) n (last_p (xs @ [g])) (contiguous (xs @ [g])) s"
    proof (cases "xs = []")
      case True
      then show ?thesis using behind by (simp add: k(1) q rd last_p_def c contiguous_def)
    next
      case False
      from last_frag [OF Cons.prems(1) False] obtain l where
        "frag (ebufs s) (fr_p (last xs)) l (fr_start (last xs)) (fr_end (last xs)) (fr_data (last xs))" by auto
      then have e: "iprh_end (fr_p (last xs)) s = Some (fr_end (last xs))" by (simp add: frag_reads)
      show ?thesis using behind False by (auto simp: k(1) q rd last_p_def c e)
    qed
    have seg: "fseg (ebufs s) (ra_p r) (xs @ [g]) n" using Cons.prems(1) q g(1) by (auto simp: fseg_append)
    have di: "distinct (map fr_p (f # (xs @ [g]) @ gs))" using Cons.prems(3) by simp
    have pl: "place_frag f xs (g # gs) = place_frag f (xs @ [g]) gs" using behind by auto
    have pn: "ptr_ok n" using g(1) by (simp add: frag_def)
    show ?thesis unfolding pl run by (rule Cons.IH [OF seg g(2) di k(2) pn])
  qed
qed

lemma no_holes_contiguous:
  "fseg (ebufs s) (Some (fr_p f)) (f # ys) None \<Longrightarrow> length ys < fuel \<Longrightarrow> no_holes fuel (fr_p f) s = Some (contiguous (f # ys))"
proof (induction ys arbitrary: f fuel)
  case Nil
  from Nil.prems obtain k where k: "fuel = Suc k" by (cases fuel) auto
  from Nil.prems(1) have "iprh_next_pbuf (fr_p f) s = Some None" by (auto dest: frag_reads)
  then show ?case by (simp add: k contiguous_def)
next
  case (Cons g gs)
  from Cons.prems obtain k where k: "fuel = Suc k" "length gs < k" by (cases fuel) auto
  from Cons.prems(1) obtain n where f: "frag (ebufs s) (fr_p f) (Some (fr_p g)) (fr_start f) (fr_end f) (fr_data f)"
    and g: "frag (ebufs s) (fr_p g) n (fr_start g) (fr_end g) (fr_data g)" "frags (ebufs s) n gs" by auto
  have "no_holes k (fr_p g) s = Some (contiguous (g # gs))" by (rule Cons.IH [OF _ k(2)]) (use g in auto)
  then show ?case by (simp add: k(1) frag_reads [OF f] frag_reads [OF g(1)] contiguous_def)
qed

text \<open>When the code takes the datagram for complete, the last fragment having been seen: there is no check between the fragment before the new one and the new one, unless it is at the end.\<close>

definition taken_complete :: "fragment list \<Rightarrow> fragment \<Rightarrow> fragment list \<Rightarrow> bool" where
  "taken_complete as f bs \<longleftrightarrow> contiguous as \<and> (bs = [] \<longrightarrow> as = [] \<or> fr_end (last as) = fr_start f)
     \<and> fr_start (hd (as @ [f])) = 0 \<and> contiguous (f # bs)"

lemma pbuf_clen_single: "owned m p [p] \<Longrightarrow> pbuf_clen (Some p) m = Some 1"
  using clen_loop_chain [of m "Some p" "[p]" chain_fuel 0] by (simp add: pbuf_clen_def owned_def exclusive_def chain_fuel_def)

lemma free_single:
  assumes "owned (ebufs s) p [p]"
  shows "\<exists>m. free_pbuf p s = Some (s\<lparr>ebufs := m\<rparr>) \<and> heap m = (heap (ebufs s))(p := None) \<and> blk m = blk (ebufs s)"
  using pbuf_free_exclusive [of "ebufs s" p "[p]"] assms by (auto simp: owned_def chain_fuel_def free_pbuf_def fun_eq_iff)

lemma keeps_of_heap: "heap m' = (heap m)(p := None) \<Longrightarrow> blk m' = blk m \<Longrightarrow> p \<notin> H \<Longrightarrow> keeps H m m'"
  by (auto simp: keeps_def)

lemma fseg_head_start:
  assumes "fseg (ebufs s) q (f # fs) r"
  shows "\<exists>p. q = Some p \<and> iprh_start p s = Some (fr_start f)"
  using assms by (auto dest: frag_reads)

lemma frag_chained:
  fixes s :: "'b ip4r_scheme"
  assumes "reass s ipr = Some r" "frags (ebufs s) (ra_p r) fs" "owned (ebufs s) p [p]" "chain_data (ebufs s) [p] = h @ d" "length h = 20"
    and "ptr_ok (Some p)" "ptr_ok (ra_p r)" "distinct (map fr_p fs)" "p \<notin> all_p fs" "length fs < chain_fuel"
    and "f = Fragment p (frag_offset h) (frag_offset h + frag_len h) d"
  shows "case place_frag f [] fs of
       None \<Rightarrow> \<exists>m. ip_reass_chain_frag_into_datagram_and_validate ipr p s = Some (False, s\<lparr>ip_reass_pbufcount := ip_reass_pbufcount s - 1, ebufs := m\<rparr>)
         \<and> frags m (ra_p r) fs \<and> heap m = (heap (ebufs s))(p := None)
     | Some (as, bs) \<Rightarrow> \<exists>m. ip_reass_chain_frag_into_datagram_and_validate ipr p s
           = Some (ra_flags r AND IP_REASS_FLAG_LASTFRAG \<noteq> 0 \<and> taken_complete as f bs, s\<lparr>ebufs := m, reass := (reass s)(ipr \<mapsto> r\<lparr>ra_p := head_p (as @ [f])\<rparr>)\<rparr>)
         \<and> frags m (head_p (as @ [f])) (as @ f # bs) \<and> edits (insert p (all_p fs)) (ebufs s) m"
proof -
  let ?st = "frag_offset h" and ?en = "frag_offset h + frag_len h"
  from helper_written [OF assms(3-5)] obtain m where
    m: "do_bufs (payload_write p 0 (ptr_bytes None @ le16 ?st @ le16 ?en)) s = Some (s\<lparr>ebufs := m\<rparr>)" "frag m p None ?st ?en d" "edits {p} (ebufs s) m" by blast
  let ?s = "s\<lparr>ebufs := m\<rparr>"
  have rd: "payload_read p 0 IP_HLEN (ebufs s) = Some h" using payload_read_single [OF assms(3), of 0 20] assms(4,5) by (simp add: IP_HLEN_def)
  have f: "fr_p f = p" "fr_start f = ?st" "fr_end f = ?en" "fr_data f = d" by (simp_all add: assms(11))
  have nf: "new_frag (ebufs ?s) f None" using m(2) assms(6) by (simp add: new_frag_def f)
  have fs: "frags m (ra_p r) fs" using fseg_edits [OF m(3), of fs] assms(2,9) by (simp add: all_p_def)
  have di: "distinct (map fr_p (f # [] @ fs))" using assms(8,9) by (simp add: f all_p_def)
  have r: "reass ?s ipr = Some r" using assms(1) by simp
  have e0: "fseg (ebufs ?s) (ra_p r) [] (ra_p r)" "frags (ebufs ?s) (ra_p r) fs" "length fs \<le> chain_fuel" using fs assms(10) by simp_all
  have c0: "last_p [] = None" "contiguous [] = True" by (simp_all add: last_p_def contiguous_def)
  note cf = chain_frag_place [OF r e0(1,2) nf di e0(3) assms(7), unfolded c0, unfolded f]
  have start: "ip_reass_chain_frag_into_datagram_and_validate ipr p s = do {
      (pl, s) \<leftarrow> chain_frag chain_fuel ipr p ?st ?en (ra_p r) None True ?s;
      case pl of
        Discard \<Rightarrow> do {
          clen \<leftarrow> pbuf_clen (Some p) (ebufs s);
          s \<leftarrow> free_pbuf p (s\<lparr>ip_reass_pbufcount := ip_reass_pbufcount s - ucast clen\<rparr>);
          Some (False, s) }
      | Found q prev valid \<Rightarrow> do {
          (valid, s) \<leftarrow> (if q \<noteq> None then Some (valid, s)
            else case prev of
                Some b \<Rightarrow> do {
                  s \<leftarrow> set_next_pbuf b (Some p) s;
                  b_end \<leftarrow> iprh_end b s;
                  Some (if b_end \<noteq> ?st then False else valid, s) }
              | None \<Rightarrow> do { s \<leftarrow> upd_reass ipr (\<lambda>x. x\<lparr>ra_p := Some p\<rparr>) s; Some (valid, s) });
          r \<leftarrow> reass s ipr;
          if ra_flags r AND IP_REASS_FLAG_LASTFRAG = 0 then Some (False, s)
          else if \<not> valid then Some (False, s)
          else do {
            p' \<leftarrow> ra_p r;
            first \<leftarrow> iprh_start p' s;
            if first \<noteq> 0 then Some (False, s)
            else do { ok \<leftarrow> no_holes chain_fuel p s; Some (ok, s) } } } }"
    unfolding ip_reass_chain_frag_into_datagram_and_validate_def rd bind.bind_lunit Let_def m(1) r by (rule refl)
  have finish: "do {
          r \<leftarrow> reass t ipr;
          if ra_flags r AND IP_REASS_FLAG_LASTFRAG = 0 then Some (False, t)
          else if \<not> valid then Some (False, t)
          else do {
            p' \<leftarrow> ra_p r;
            first \<leftarrow> iprh_start p' t;
            if first \<noteq> 0 then Some (False, t)
            else do { ok \<leftarrow> no_holes chain_fuel p t; Some (ok, t) } } }
      = Some (ra_flags r AND IP_REASS_FLAG_LASTFRAG \<noteq> 0 \<and> taken_complete as f bs, t)"
    if "t = s\<lparr>ebufs := m', reass := (reass s)(ipr \<mapsto> r\<lparr>ra_p := head_p (as @ [f])\<rparr>)\<rparr>" "frags m' (head_p (as @ [f])) (as @ f # bs)"
      "valid \<longleftrightarrow> contiguous as \<and> (bs = [] \<longrightarrow> as = [] \<or> fr_end (last as) = fr_start f)" "length bs < chain_fuel" for t m' as bs valid
  proof -
    from that(2) obtain q where q: "fseg m' (head_p (as @ [f])) as q" "fseg m' q (f # bs) None" by (auto simp: fseg_append)
    have "no_holes chain_fuel (fr_p f) t = Some (contiguous (f # bs))"
      by (rule no_holes_contiguous) (use q(2) that(1,4) in auto)
    moreover have "\<exists>p. head_p (as @ [f]) = Some p \<and> iprh_start p t = Some (fr_start (hd (as @ [f])))"
      using fseg_head_start [of t "head_p (as @ [f])" "hd (as @ f # bs)" "tl (as @ f # bs)" None] that(1,2)
      by (cases as) auto
    ultimately show ?thesis using that(1,3) f(1) by (auto simp: taken_complete_def)
  qed
  show ?thesis
  proof (cases "place_frag f [] fs")
    case None
    with cf obtain m1 where m1: "chain_frag chain_fuel ipr p ?st ?en (ra_p r) None True ?s = Some (Discard, ?s\<lparr>ebufs := m1\<rparr>)"
      "edits {p} m m1" "owned m1 p [p]" by auto
    from free_single [of "s\<lparr>ebufs := m1, ip_reass_pbufcount := ip_reass_pbufcount s - 1\<rparr>" p] m1(3) obtain m2 where
      m2: "free_pbuf p (s\<lparr>ebufs := m1, ip_reass_pbufcount := ip_reass_pbufcount s - 1\<rparr>) = Some (s\<lparr>ip_reass_pbufcount := ip_reass_pbufcount s - 1, ebufs := m2\<rparr>)"
        "heap m2 = (heap m1)(p := None)" "blk m2 = blk m1" by auto
    have "frags m1 (ra_p r) fs" using fseg_edits [OF m1(2), of fs] fs assms(9) by (simp add: all_p_def)
    then have "frags m2 (ra_p r) fs" using fseg_keeps [OF keeps_of_heap [OF m2(2,3)], of "all_p fs" fs] assms(9) by (simp add: all_p_def)
    moreover have "heap m2 = (heap (ebufs s))(p := None)" using m2(2) m1(2) m(3) by (simp add: edits_def)
    ultimately show ?thesis unfolding start m1(1) using None m2(1) pbuf_clen_single [OF m1(3)] by auto
  next
    case (Some ab)
    obtain as bs where ab: "ab = (as, bs)" by (cases ab)
    have part: "fs = as @ bs" using place_frag_parts [of f "[]" fs as bs] Some ab by simp
    show ?thesis
    proof (cases "bs = []")
      case True
      have run: "chain_frag chain_fuel ipr p ?st ?en (ra_p r) None True ?s = Some (Found None (last_p as) (contiguous as), ?s)"
        using cf Some ab True by simp
      from link_between [of ?s ipr r as None None "[]" f] r fs nf di part True obtain m1 where
        m1: "(case last_p as of None \<Rightarrow> upd_reass ipr (\<lambda>x. x\<lparr>ra_p := Some (fr_p f)\<rparr>) ?s | Some b \<Rightarrow> set_next_pbuf b (Some (fr_p f)) ?s)
            = Some (?s\<lparr>ebufs := m1, reass := (reass ?s)(ipr \<mapsto> r\<lparr>ra_p := head_p (as @ [f])\<rparr>)\<rparr>)"
          "frags m1 (head_p (as @ [f])) (as @ f # [])" "edits (all_p as) m m1" by auto
      define t where "t = s\<lparr>ebufs := m1, reass := (reass s)(ipr \<mapsto> r\<lparr>ra_p := head_p (as @ [f])\<rparr>)\<rparr>"
      have e: "iprh_end (fr_p (last as)) t = Some (fr_end (last as))" if "as \<noteq> []"
      proof -
        from m1(2) obtain q where "fseg (ebufs t) (head_p (as @ [f])) as q" by (auto simp: t_def fseg_append)
        from last_frag [OF this that] show ?thesis by (auto dest: frag_reads)
      qed
      have "ip_reass_chain_frag_into_datagram_and_validate ipr p s = Some (ra_flags r AND IP_REASS_FLAG_LASTFRAG \<noteq> 0 \<and> taken_complete as f bs, t)"
      proof (cases "as = []")
        case ae: True
        have "upd_reass ipr (\<lambda>x. x\<lparr>ra_p := Some p\<rparr>) ?s = Some t" using m1(1) ae by (simp add: last_p_def t_def f)
        then show ?thesis unfolding start run
          using finish [OF t_def, of bs True] m1(2) True ae by (simp add: last_p_def contiguous_def chain_fuel_def)
      next
        case ae: False
        have "set_next_pbuf (fr_p (last as)) (Some p) ?s = Some t" using m1(1) ae by (simp add: last_p_def t_def f)
        then show ?thesis unfolding start run
          using finish [OF t_def, of bs "if fr_end (last as) \<noteq> ?st then False else contiguous as"] m1(2) True ae e
          by (simp add: last_p_def chain_fuel_def f)
      qed
      moreover have "edits (insert p (all_p fs)) (ebufs s) m1"
        by (rule edits_trans [OF edits_mono [OF m(3)] edits_mono [OF m1(3)]]) (auto simp: part True)
      ultimately show ?thesis using Some ab m1(2) True by (auto simp: t_def)
    next
      case False
      with cf Some ab obtain m1 where
        m1: "chain_frag chain_fuel ipr p ?st ?en (ra_p r) None True ?s
             = Some (Found (head_p bs) (last_p as) (contiguous as), ?s\<lparr>ebufs := m1, reass := (reass ?s)(ipr \<mapsto> r\<lparr>ra_p := head_p (as @ [f])\<rparr>)\<rparr>)"
          "frags m1 (head_p (as @ [f])) (as @ f # bs)" "edits (insert p (all_p as)) m m1" by (auto simp: f)
      define t where "t = s\<lparr>ebufs := m1, reass := (reass s)(ipr \<mapsto> r\<lparr>ra_p := head_p (as @ [f])\<rparr>)\<rparr>"
      have t: "?s\<lparr>ebufs := m1, reass := (reass ?s)(ipr \<mapsto> r\<lparr>ra_p := head_p (as @ [f])\<rparr>)\<rparr> = t" by (simp add: t_def)
      have "head_p bs \<noteq> None" "length bs < chain_fuel" using False part assms(10) by (auto simp: head_p_def split: list.splits)
      then have "ip_reass_chain_frag_into_datagram_and_validate ipr p s = Some (ra_flags r AND IP_REASS_FLAG_LASTFRAG \<noteq> 0 \<and> taken_complete as f bs, t)"
        unfolding start m1(1) t using finish [OF t_def m1(2), of "contiguous as"] False by simp
      moreover have "edits (insert p (all_p fs)) (ebufs s) m1"
        by (rule edits_trans [OF edits_mono [OF m(3)] edits_mono [OF m1(3)]]) (auto simp: part all_p_def)
      ultimately show ?thesis using Some ab m1(2) by (auto simp: t_def)
    qed
  qed
qed

end
