(* ===== verification/Reass_Run.thy ===== *)
theory Reass_Run
  imports Reass_Frags
begin

text \<open>
  A complete datagram and the whole of \<open>ip_reass_input\<close>: its fragments become one chain of buffers (\<open>reass_complete_chain\<close>);
  \<open>ip_reass_step\<close> is a fragment of a datagram that is in the list, \<open>ip_reass_first\<close> one of a new datagram, \<open>reass_run_rest\<close>
  the fragments that follow the first in order.
\<close>

section \<open>Joining buffers\<close>

definition joined :: "pbuf_mem \<Rightarrow> nat list \<Rightarrow> u16 \<Rightarrow> nat \<Rightarrow> pbuf_mem" where
  "joined m as w t = m\<lparr>heap := \<lambda>x. if x \<in> set as
     then map_option (\<lambda>b. b\<lparr>p_tot_len := p_tot_len b + w, p_next := if x = last as then Some t else p_next b\<rparr>) (heap m x) else heap m x\<rparr>"

definition grown :: "pbuf_mem \<Rightarrow> nat set \<Rightarrow> u16 \<Rightarrow> pbuf_mem" where
  "grown m A w = m\<lparr>heap := \<lambda>x. if x \<in> A then map_option (\<lambda>b. b\<lparr>p_tot_len := p_tot_len b + w\<rparr>) (heap m x) else heap m x\<rparr>"

lemma cat_loop_chain:
  "pchain m (Some p) as \<Longrightarrow> distinct as \<Longrightarrow> length as \<le> fuel \<Longrightarrow> cat_loop fuel p w m = Some (last as, grown m (set (butlast as)) w)"
proof (induction fuel p w m arbitrary: as rule: cat_loop.induct)
  case (2 fuel p w m)
  then obtain b xs where as: "as = p # xs" "heap m p = Some b" "pchain m (p_next b) xs" "length xs \<le> fuel" "p \<notin> set xs" "distinct xs"
    by (cases as) (auto split: option.splits)
  show ?case
  proof (cases "p_next b")
    case None
    then have "xs = []" using as(3) by (cases xs) auto
    then show ?thesis using as None by (simp add: grown_def)
  next
    case (Some n)
    then have xs: "xs \<noteq> []" using as(3) by auto
    let ?m = "m\<lparr>heap := (heap m)(p \<mapsto> b\<lparr>p_tot_len := p_tot_len b + w\<rparr>)\<rparr>"
    have u: "upd p (\<lambda>x. x\<lparr>p_tot_len := p_tot_len x + w\<rparr>) m = Some ?m" using as(2) by (simp add: upd_def)
    have "pchain ?m (Some n) xs = pchain m (Some n) xs" by (rule pchain_upd) (use as(5) in auto)
    then have "pchain ?m (Some n) xs" using as(3) Some by simp
    from 2(1) [OF as(2) Some u this as(6,4)] have "cat_loop fuel n w ?m = Some (last xs, grown ?m (set (butlast xs)) w)" .
    moreover have "grown ?m (set (butlast xs)) w = grown m (set (butlast as)) w"
    proof (rule pbuf_mem.equality)
      show "heap (grown ?m (set (butlast xs)) w) = heap (grown m (set (butlast as)) w)"
        using as(1,2,5) xs by (intro ext) (auto simp: grown_def dest: in_set_butlastD)
    qed (simp_all add: grown_def)
    ultimately show ?thesis using as(1,2) Some u xs by simp
  qed
qed auto

lemma joined_sels [simp]: "blk (joined m as w t) = blk m" "pool (joined m as w t) = pool m" "ref_pool (joined m as w t) = ref_pool m"
  "mem_malloc (joined m as w t) = mem_malloc m" "x \<notin> set as \<Longrightarrow> heap (joined m as w t) x = heap m x"
  by (simp_all add: joined_def)

lemma joined_data: "buf_data (joined m as w t) = buf_data m"
  by (rule ext) (auto simp: buf_data_def joined_def split: option.split)

lemma joined_chain_data: "chain_data (joined m as w t) xs = chain_data m xs"
  by (simp add: chain_data_def joined_data)

lemma joined_tail:
  assumes "pchain m q xs" "xs \<noteq> []" "set xs \<subseteq> set as" "last xs = last as" "distinct xs" "tot_lens m 0 xs" "owned m t [t]" "t \<notin> set as"
    and "unat w = length (chain_data m [t])" "length (chain_data m xs) + length (chain_data m [t]) < 65536"
  shows "pchain (joined m as w t) q (xs @ [t]) \<and> tot_lens (joined m as w t) 0 (xs @ [t])"
  using assms(1-6,10)
proof (induction xs arbitrary: q)
  case (Cons a xs)
  let ?m = "joined m as w t"
  from Cons.prems(1) obtain b where b: "q = Some a" "heap m a = Some b" "in_block m a b" "pchain m (p_next b) xs" by (auto split: option.splits)
  have h: "heap ?m a = Some (b\<lparr>p_tot_len := p_tot_len b + w, p_next := if a = last as then Some t else p_next b\<rparr>)"
    using b(2) Cons.prems(3) by (simp add: joined_def)
  have tot: "unat (p_tot_len b) = length (chain_data m (a # xs))" "tot_lens m 0 xs" using Cons.prems(6) b(2) by auto
  have w: "unat (p_tot_len b + w) = length (chain_data m (a # xs)) + length (chain_data m [t])"
    using tot(1) assms(9) Cons.prems(7) by (simp add: unat_word_ariths del: chain_data_simps)
  have cd: "length (chain_data ?m ((a # xs) @ [t])) = length (chain_data m (a # xs)) + length (chain_data m [t])"
    by (simp add: joined_data chain_data_def)
  have tt: "pchain m (Some t) [t]" "tot_lens m 0 [t]" using assms(7) by (auto simp: owned_def exclusive_def)
  have te: "pchain ?m (Some t) [t]" "tot_lens ?m 0 [t]" using tt assms(8) by (auto simp: in_block_def chain_data_def joined_data split: option.splits)
  show ?case
  proof (cases "xs = []")
    case True
    then show ?thesis using b(1-3) h Cons.prems(4) te w cd by (auto simp: in_block_def)
  next
    case False
    have na: "a \<noteq> last as" using Cons.prems(4,5) False last_in_set [OF False] by auto
    have "pchain ?m (p_next b) (xs @ [t]) \<and> tot_lens ?m 0 (xs @ [t])"
      by (rule Cons.IH) (use b(4) False Cons.prems tot(2) in auto)
    then show ?thesis using b(1-3) h na w cd by (auto simp: in_block_def)
  qed
qed simp

lemma pbuf_cat_chain:
  assumes "owned m p as" "owned m t [t]" "t \<notin> set as" "length as \<le> chain_fuel" "length (chain_data m as) + length (chain_data m [t]) < 65536"
  shows "\<exists>w. pbuf_cat (Some p) (Some t) m = Some (joined m as w t) \<and> owned (joined m as w t) p (as @ [t])
     \<and> chain_data (joined m as w t) (as @ [t]) = chain_data m as @ chain_data m [t]"
proof -
  have as: "pchain m (Some p) as" "distinct as" "tot_lens m 0 as" "as \<noteq> []" using assms(1) by (auto simp: owned_def exclusive_def)
  from assms(2) obtain tb where tb: "heap m t = Some tb" "unat (p_tot_len tb) = length (chain_data m [t])" by (auto simp: owned_def exclusive_def split: option.splits)
  define w where "w = p_tot_len tb"
  have run: "cat_loop chain_fuel p w m = Some (last as, grown m (set (butlast as)) w)" by (rule cat_loop_chain [OF as(1,2) assms(4)])
  have la: "last as \<notin> set (butlast as)" "last as \<in> set as" using as(2,4) by (cases as rule: rev_cases; simp)+
  have "\<exists>b. heap m a = Some b" if "a \<in> set as" for a
    using assms(1) that by (auto simp: owned_def exclusive_def ref_one_def split: option.splits)
  then obtain lb where lb: "heap m (last as) = Some lb" using la(2) by blast
  have sa: "set as = insert (last as) (set (butlast as))" using as(4) by (cases as rule: rev_cases) auto
  have "upd (last as) (\<lambda>x. x\<lparr>p_tot_len := p_tot_len x + w, p_next := Some t\<rparr>) (grown m (set (butlast as)) w) = Some (joined m as w t)"
    using lb la(1) by (auto simp: upd_def grown_def joined_def fun_eq_iff sa)
  then have cat: "pbuf_cat (Some p) (Some t) m = Some (joined m as w t)" using tb(1) run by (simp add: pbuf_cat_def w_def [symmetric])
  have "pchain (joined m as w t) (Some p) (as @ [t]) \<and> tot_lens (joined m as w t) 0 (as @ [t])"
    by (rule joined_tail [OF as(1,4) order.refl refl as(2,3) assms(2,3)]) (use tb(2) assms(5) in \<open>simp_all add: w_def\<close>)
  moreover have "ref_one (joined m as w t) x = ref_one m x" "not_custom (joined m as w t) x = not_custom m x" for x
    by (auto simp: ref_one_def not_custom_def joined_def split: option.split)
  ultimately have "owned (joined m as w t) p (as @ [t])" using assms(1-3) by (auto simp: owned_def exclusive_def)
  then show ?thesis using cat by (intro exI [of _ w]) (simp add: joined_data chain_data_def)
qed

section \<open>A complete datagram\<close>

lemma keeps_joined: "H \<inter> set as = {} \<Longrightarrow> keeps H m (joined m as w t)"
  unfolding keeps_def by (intro ballI conjI joined_sels(5)) auto

lemma keeps_hd_edit: "hd_edit m m' p \<Longrightarrow> p \<notin> H \<Longrightarrow> keeps H m m'"
  by (auto simp: hd_edit_def keeps_def)

lemma join_frags_chain:
  assumes "frags (ebufs s) q ys" "owned (ebufs s) p as" "distinct (as @ map fr_p ys)" "length as + length ys \<le> chain_fuel" "length ys \<le> fuel"
    and "length (chain_data (ebufs s) as) + length (concat (map fr_data ys)) < 65536"
  shows "\<exists>m. join_frags fuel p q s = Some (s\<lparr>ebufs := m\<rparr>) \<and> owned m p (as @ map fr_p ys)
     \<and> chain_data m (as @ map fr_p ys) = chain_data (ebufs s) as @ concat (map fr_data ys)"
  using assms
proof (induction ys arbitrary: q s as fuel)
  case Nil
  then show ?case by (intro exI [of _ "ebufs s"]) simp
next
  case (Cons f ys)
  from Cons.prems(5) obtain k where k: "fuel = Suc k" "length ys \<le> k" by (cases fuel) auto
  let ?r = "fr_p f" and ?m = "ebufs s"
  from Cons.prems(1) obtain n where q: "q = Some ?r" and f: "frag ?m ?r n (fr_start f) (fr_end f) (fr_data f)" and ys: "frags ?m n ys" by auto
  from f obtain h where o: "owned ?m ?r [?r]" and c: "chain_data ?m [?r] = frag_bytes n (fr_start f) (fr_end f) (h @ fr_data f)" "length h = 12"
    by (auto simp: frag_def)
  from owned_heap [OF o] obtain b where b: "heap ?m ?r = Some b" "unat (p_len b) = length (chain_data ?m [?r])" by blast
  have "20 \<le> unat (p_len b)" using b(2) c by (simp add: frag_bytes_def)
  from pbuf_header_drop [OF o b(1) _ this] obtain m1 where
    m1: "pbuf_header (Some ?r) (- int 20) ?m = Some (0, m1)" "hd_edit ?m m1 ?r" "owned m1 ?r [?r]" "chain_data m1 [?r] = drop 20 (chain_data ?m [?r])" by auto
  have d1: "chain_data m1 [?r] = fr_data f" using m1(4) c by (simp add: frag_bytes_def)
  have dis: "?r \<notin> set as" "?r \<notin> fr_p ` set ys" "set as \<inter> fr_p ` set ys = {}" using Cons.prems(3) by auto
  note k1 = keeps_hd_edit [OF m1(2)]
  have as1: "owned m1 p as" "chain_data m1 as = chain_data ?m as" using keeps_chain(2,4) [OF k1 [OF dis(1)], of as] Cons.prems(2) by auto
  have ys1: "frags m1 n ys" using fseg_keeps [OF k1 [OF dis(2)], of ys] ys by simp
  have sm: "length (chain_data m1 as) + length (chain_data m1 [?r]) < 65536" using Cons.prems(6) by (simp add: as1(2) d1 del: chain_data_simps)
  have la: "length as \<le> chain_fuel" using Cons.prems(4) by simp
  from pbuf_cat_chain [OF as1(1) m1(3) dis(1) la sm] obtain w where w: "pbuf_cat (Some p) (Some ?r) m1 = Some (joined m1 as w ?r)"
    "owned (joined m1 as w ?r) p (as @ [?r])" "chain_data (joined m1 as w ?r) (as @ [?r]) = chain_data m1 as @ chain_data m1 [?r]" by blast
  let ?s = "s\<lparr>ebufs := joined m1 as w ?r\<rparr>"
  have "frags (ebufs ?s) n ys" using fseg_keeps [OF keeps_joined [of "fr_p ` set ys" as m1 w ?r], of ys] ys1 dis(3) by auto
  moreover have "owned (ebufs ?s) p (as @ [?r])" "distinct ((as @ [?r]) @ map fr_p ys)" "length (as @ [?r]) + length ys \<le> chain_fuel"
    using w(2) Cons.prems(3,4) by auto
  moreover have "length (chain_data (ebufs ?s) (as @ [?r])) + length (concat (map fr_data ys)) < 65536"
    using Cons.prems(6) w(3) as1(2) d1 by (simp del: chain_data_simps)
  ultimately obtain m2 where m2: "join_frags k p n ?s = Some (?s\<lparr>ebufs := m2\<rparr>)" "owned m2 p ((as @ [?r]) @ map fr_p ys)"
    "chain_data m2 ((as @ [?r]) @ map fr_p ys) = chain_data (ebufs ?s) (as @ [?r]) @ concat (map fr_data ys)"
    using Cons.IH [of ?s n "as @ [?r]" k] k(2) by blast
  have "join_frags fuel p q s = Some (s\<lparr>ebufs := m2\<rparr>)"
    using m2(1) m1(1) w(1) by (simp add: k(1) q frag_reads [OF f] on_bufs_def do_bufs_def IP_HLEN_def)
  then show ?case using m2(2,3) w(3) as1(2) d1 by (intro exI [of _ m2]) (simp del: chain_data_simps)
qed

text \<open>The header of the datagram from the header kept for it and its length.\<close>

definition whole_header :: "bytes \<Rightarrow> u16 \<Rightarrow> bytes" where
  "whole_header h len = (let g = (\<lambda>c. take 2 h @ be16 len @ take 2 (drop 4 h) @ [0, 0] @ take 2 (drop 8 h) @ c @ take 8 (drop 12 h))
     in g (le16 (inet_chksum False (g [0, 0]))))"

lemma whole_header_length: "length h = 20 \<Longrightarrow> length (whole_header h len) = 20"
  by (simp add: whole_header_def Let_def)

lemma do_payload_write:
  assumes "owned (ebufs s) p [p]" "chain_data (ebufs s) [p] = a @ w @ c" "length w = length d" "length a = off"
  shows "\<exists>m. do_bufs (payload_write p off d) s = Some (s\<lparr>ebufs := m\<rparr>) \<and> owned m p [p] \<and> chain_data m [p] = a @ d @ c \<and> edits {p} (ebufs s) m"
proof -
  have "off + length d \<le> length (chain_data (ebufs s) [p])" unfolding assms(2) using assms(3,4) by simp
  from payload_write_single [OF assms(1) this] obtain m where
    m: "payload_write p off d (ebufs s) = Some m" "hd_edit (ebufs s) m p" "owned m p [p]" "heap m = heap (ebufs s)"
      "chain_data m [p] = take off (chain_data (ebufs s) [p]) @ d @ drop (off + length d) (chain_data (ebufs s) [p])" by blast
  have "chain_data m [p] = a @ d @ c" unfolding m(5) assms(2) using assms(3,4) by simp
  then show ?thesis using m(1,3) edits_one [OF m(2,4)] by (intro exI [of _ m]) (simp add: do_bufs_def)
qed

lemma inet_chksum_aligned:
  assumes "length d \<le> 0x20000"
  shows "inet_chksum b d = inet_chksum False d"
proof -
  have "lwip_standard_chksum2 b d = lwip_standard_chksum2 False d" using assms by (simp add: word_unat_eq_iff unat_chksum2)
  then show ?thesis by (simp add: inet_chksum_def)
qed

lemma header_restored:
  assumes "owned (ebufs s) p [p]" "chain_data (ebufs s) [p] = z @ d" "length z = 20" "length h = 20"
  shows "\<exists>m. do {
     s \<leftarrow> do_bufs (payload_write p 0 h) s;
     s \<leftarrow> do_bufs (payload_write p 2 (be16 len)) s;
     s \<leftarrow> do_bufs (payload_write p 6 [0, 0]) s;
     s \<leftarrow> do_bufs (payload_write p 10 [0, 0]) s;
     b \<leftarrow> heap (ebufs s) p;
     h \<leftarrow> payload_read p 0 IP_HLEN (ebufs s);
     do_bufs (payload_write p 10 (le16 (inet_chksum (odd (p_payload b)) h))) s }
     = Some (s\<lparr>ebufs := m\<rparr>) \<and> owned m p [p] \<and> chain_data m [p] = whole_header h len @ d \<and> edits {p} (ebufs s) m"
proof -
  define h0 h1 h2 h3 h4 h5 where "h0 = take 2 h" "h1 = take 2 (drop 2 h)" "h2 = take 2 (drop 4 h)" "h3 = take 2 (drop 6 h)"
    "h4 = take 2 (drop 8 h)" "h5 = take 2 (drop 10 h)"
  define h6 where "h6 = take 8 (drop 12 h)"
  have "drop k h = take 2 (drop k h) @ drop (k + 2) h" for k
    using append_take_drop_id [of 2 "drop k h"] by (simp add: add.commute)
  from this [of 0] this [of 2] this [of 4] this [of 6] this [of 8] this [of 10] assms(4) have h: "h = h0 @ h1 @ h2 @ h3 @ h4 @ h5 @ h6"
    unfolding h0_h1_h2_h3_h4_h5_def h6_def by simp
  have l: "length h0 = 2" "length h1 = 2" "length h2 = 2" "length h3 = 2" "length h4 = 2" "length h5 = 2" "length h6 = 8"
    using assms(4) by (simp_all add: h0_h1_h2_h3_h4_h5_def h6_def)
  from do_payload_write [OF assms(1), of "[]" z d h 0] assms(2-4) obtain m1 where
    m1: "do_bufs (payload_write p 0 h) s = Some (s\<lparr>ebufs := m1\<rparr>)" "owned m1 p [p]" "chain_data m1 [p] = h @ d" "edits {p} (ebufs s) m1" by auto
  from do_payload_write [of "s\<lparr>ebufs := m1\<rparr>" p h0 h1 "h2 @ h3 @ h4 @ h5 @ h6 @ d" "be16 len" 2] m1(2,3) l obtain m2 where
    m2: "do_bufs (payload_write p 2 (be16 len)) (s\<lparr>ebufs := m1\<rparr>) = Some (s\<lparr>ebufs := m2\<rparr>)" "owned m2 p [p]"
      "chain_data m2 [p] = h0 @ be16 len @ h2 @ h3 @ h4 @ h5 @ h6 @ d" "edits {p} m1 m2" by (auto simp: h)
  from do_payload_write [of "s\<lparr>ebufs := m2\<rparr>" p "h0 @ be16 len @ h2" h3 "h4 @ h5 @ h6 @ d" "[0, 0]" 6] m2(2,3) l obtain m3 where
    m3: "do_bufs (payload_write p 6 [0, 0]) (s\<lparr>ebufs := m2\<rparr>) = Some (s\<lparr>ebufs := m3\<rparr>)" "owned m3 p [p]"
      "chain_data m3 [p] = h0 @ be16 len @ h2 @ [0, 0] @ h4 @ h5 @ h6 @ d" "edits {p} m2 m3" by auto
  from do_payload_write [of "s\<lparr>ebufs := m3\<rparr>" p "h0 @ be16 len @ h2 @ [0, 0] @ h4" h5 "h6 @ d" "[0, 0]" 10] m3(2,3) l obtain m4 where
    m4: "do_bufs (payload_write p 10 [0, 0]) (s\<lparr>ebufs := m3\<rparr>) = Some (s\<lparr>ebufs := m4\<rparr>)" "owned m4 p [p]"
      "chain_data m4 [p] = h0 @ be16 len @ h2 @ [0, 0] @ h4 @ [0, 0] @ h6 @ d" "edits {p} m3 m4" by auto
  let ?z = "h0 @ be16 len @ h2 @ [0, 0] @ h4 @ [0, 0] @ h6"
  from owned_heap [OF m4(2)] obtain b where b: "heap m4 p = Some b" by blast
  have rd: "payload_read p 0 IP_HLEN m4 = Some ?z"
    using payload_read_single [OF m4(2), of 0 20] m4(3) l by (simp add: IP_HLEN_def)
  have ck: "inet_chksum (odd (p_payload b)) ?z = inet_chksum False ?z" using l by (intro inet_chksum_aligned) simp
  from do_payload_write [of "s\<lparr>ebufs := m4\<rparr>" p "h0 @ be16 len @ h2 @ [0, 0] @ h4" "[0, 0]" "h6 @ d" "le16 (inet_chksum False ?z)" 10] m4(2,3) l obtain m5 where
    m5: "do_bufs (payload_write p 10 (le16 (inet_chksum False ?z))) (s\<lparr>ebufs := m4\<rparr>) = Some (s\<lparr>ebufs := m5\<rparr>)" "owned m5 p [p]"
      "chain_data m5 [p] = h0 @ be16 len @ h2 @ [0, 0] @ h4 @ le16 (inet_chksum False ?z) @ h6 @ d" "edits {p} m4 m5" by auto
  have w: "whole_header h len @ d = h0 @ be16 len @ h2 @ [0, 0] @ h4 @ le16 (inet_chksum False ?z) @ h6 @ d"
    by (simp add: whole_header_def Let_def h0_h1_h2_h3_h4_h5_def h6_def)
  have "edits {p} (ebufs s) m5" using m1(4) m2(4) m3(4) m4(4) m5(4) by (blast intro: edits_trans)
  then show ?thesis using m1(1) m2(1) m3(1) m4(1) b rd ck m5(1-3) w by (intro exI [of _ m5]) simp
qed

section \<open>The list of datagrams\<close>

fun dseg :: "(nat \<Rightarrow> reassdata option) \<Rightarrow> nat option \<Rightarrow> nat list \<Rightarrow> nat option \<Rightarrow> bool" where
  "dseg R q [] r \<longleftrightarrow> q = r"
| "dseg R q (a # as) r \<longleftrightarrow> q = Some a \<and> (\<exists>d. R a = Some d \<and> dseg R (ra_next d) as r)"

lemma dseg_append: "dseg R q (xs @ ys) r \<longleftrightarrow> (\<exists>p. dseg R q xs p \<and> dseg R p ys r)"
  by (induction xs arbitrary: q) auto

lemma dseg_other: "a \<notin> set xs \<Longrightarrow> dseg (R(a := v)) q xs r = dseg R q xs r"
  by (induction xs arbitrary: q) auto

lemma dseg_same: "R a = Some d \<Longrightarrow> ra_next d' = ra_next d \<Longrightarrow> dseg (R(a \<mapsto> d')) q xs r = dseg R q xs r"
  by (induction xs arbitrary: q) auto

definition before_p :: "nat list \<Rightarrow> nat option" where
  "before_p xs = (if xs = [] then None else Some (last xs))"

lemma before_p_snoc [simp]: "before_p (xs @ [x]) = Some x"
  by (simp add: before_p_def)

text \<open>With the right predecessor a datagram leaves the list.\<close>

lemma dequeue_ok:
  fixes s :: "'b ip4r_scheme"
  assumes "dseg (reass s) (reassdatagrams s) (xs @ a # ys) None" "distinct (xs @ a # ys)"
  shows "\<exists>R q. ip_reass_dequeue_datagram a (before_p xs) s = Some (s\<lparr>reassdatagrams := q, reass := R, reass_pool := a # reass_pool s\<rparr>)
     \<and> dseg R q (xs @ ys) None \<and> R a = None"
proof -
  from assms(1) obtain d where d: "reass s a = Some d" "dseg (reass s) (ra_next d) ys None" "dseg (reass s) (reassdatagrams s) xs (Some a)"
    by (auto simp: dseg_append)
  show ?thesis
  proof (cases xs rule: rev_cases)
    case Nil
    then have "reassdatagrams s = Some a" using d(3) by simp
    then show ?thesis using d(1,2) assms(2) Nil
      by (intro exI [of _ "(reass s)(a := None)"] exI [of _ "ra_next d"]) (simp add: ip_reass_dequeue_datagram_def dseg_other)
  next
    case (snoc zs x)
    from d(3) obtain e where e: "reass s x = Some e" "ra_next e = Some a" "dseg (reass s) (reassdatagrams s) zs (Some x)" by (auto simp: snoc dseg_append)
    have "reassdatagrams s \<noteq> Some a" using d(3) assms(2) snoc by (cases zs) auto
    let ?R = "((reass s)(x \<mapsto> e\<lparr>ra_next := ra_next d\<rparr>))(a := None)"
    have "dseg ?R (ra_next d) ys None" "dseg ?R (reassdatagrams s) zs (Some x)" using d(2) e(3) assms(2) by (simp_all add: snoc dseg_other)
    then have "dseg ?R (reassdatagrams s) (xs @ ys) None" using assms(2) by (auto simp: snoc dseg_append)
    moreover have "ip_reass_dequeue_datagram a (before_p xs) s = Some (s\<lparr>reassdatagrams := reassdatagrams s, reass := ?R, reass_pool := a # reass_pool s\<rparr>)"
      using d(1) e(1) \<open>reassdatagrams s \<noteq> Some a\<close> by (simp add: ip_reass_dequeue_datagram_def upd_reass_def snoc)
    ultimately show ?thesis by (intro exI [of _ ?R] exI [of _ "reassdatagrams s"]) simp
  qed
qed

lemma find_datagram_list:
  assumes "dseg (reass s) q (xs @ a # ys) None" "\<forall>x \<in> set xs. \<forall>r. reass s x = Some r \<longrightarrow> \<not> IP_ADDRESSES_AND_ID_MATCH (ra_iphdr r) h"
    and "reass s a = Some r" "IP_ADDRESSES_AND_ID_MATCH (ra_iphdr r) h" "length xs < fuel"
  shows "find_datagram fuel h q (before_p zs) s = Some (Some a, before_p (zs @ xs))"
  using assms(1,2,5)
proof (induction xs arbitrary: q zs fuel)
  case Nil
  then obtain k where "fuel = Suc k" by (cases fuel) auto
  then show ?case using Nil assms(3,4) by simp
next
  case (Cons x xs)
  then obtain k where k: "fuel = Suc k" "length xs < k" by (cases fuel) auto
  from Cons.prems(1) obtain d where d: "q = Some x" "reass s x = Some d" "dseg (reass s) (ra_next d) (xs @ a # ys) None" by auto
  have "find_datagram k h (ra_next d) (before_p (zs @ [x])) s = Some (Some a, before_p ((zs @ [x]) @ xs))"
    by (rule Cons.IH [OF d(3) _ k(2)]) (use Cons.prems(2) in simp)
  then show ?case using d(1,2) Cons.prems(2) k(1) by simp
qed

lemma pbuf_clen_owned: "owned m p as \<Longrightarrow> length as \<le> chain_fuel \<Longrightarrow> pbuf_clen (Some p) m = Some (of_nat (length as))"
  using clen_loop_chain [of m "Some p" as chain_fuel 0] by (simp add: pbuf_clen_def owned_def exclusive_def)

lemma reass_complete_chain:
  fixes s :: "'b ip4r_scheme"
  assumes "reass s a = Some r" "frags (ebufs s) (ra_p r) (g # gs)" "length (ra_iphdr r) = 20" "distinct (map fr_p (g # gs))" "length gs < 255"
    and "20 + length (concat (map fr_data (g # gs))) < 65536" "dseg (reass s) (reassdatagrams s) (xs @ a # ys) None" "distinct (xs @ a # ys)"
  shows "\<exists>s'. reass_complete a (before_p xs) s = Some (Some (fr_p g), s') \<and> owned (ebufs s') (fr_p g) (map fr_p (g # gs))
     \<and> chain_data (ebufs s') (map fr_p (g # gs)) = whole_header (ra_iphdr r) (ra_datagram_len r + 20) @ concat (map fr_data (g # gs))
     \<and> dseg (reass s') (reassdatagrams s') (xs @ ys) None \<and> reass s' a = None
     \<and> ip_reass_pbufcount s' = ip_reass_pbufcount s - of_nat (length (g # gs))"
proof -
  let ?r = "r\<lparr>ra_datagram_len := ra_datagram_len r + 20\<rparr>" and ?p = "fr_p g"
  let ?s = "s\<lparr>reass := (reass s)(a \<mapsto> ?r)\<rparr>"
  from assms(2) obtain n where g: "ra_p r = Some ?p" "frag (ebufs s) ?p n (fr_start g) (fr_end g) (fr_data g)" "frags (ebufs s) n gs" by auto
  then obtain h where o: "owned (ebufs s) ?p [?p]" and c: "chain_data (ebufs s) [?p] = frag_bytes n (fr_start g) (fr_end g) (h @ fr_data g)" "length h = 12"
    by (auto simp: frag_def)
  have u: "upd_reass a (\<lambda>x. x\<lparr>ra_datagram_len := ra_datagram_len x + of_nat IP_HLEN\<rparr>) s = Some ?s"
    using assms(1) by (simp add: upd_reass_def IP_HLEN_def)
  have nx: "iprh_next_pbuf ?p ?s = Some n" using frag_reads(1) [of ?s ?p n] g(2) by simp
  have z: "owned (ebufs ?s) ?p [?p]" "chain_data (ebufs ?s) [?p] = (ptr_bytes n @ le16 (fr_start g) @ le16 (fr_end g) @ h) @ fr_data g"
    "length (ptr_bytes n @ le16 (fr_start g) @ le16 (fr_end g) @ h) = 20" using o c by (simp_all add: frag_bytes_def)
  from header_restored [OF z assms(3), of "ra_datagram_len r + 20"] obtain m where
    m: "do {
       s \<leftarrow> do_bufs (payload_write ?p 0 (ra_iphdr r)) ?s;
       s \<leftarrow> do_bufs (payload_write ?p 2 (be16 (ra_datagram_len r + 20))) s;
       s \<leftarrow> do_bufs (payload_write ?p 6 [0, 0]) s;
       s \<leftarrow> do_bufs (payload_write ?p 10 [0, 0]) s;
       b \<leftarrow> heap (ebufs s) ?p;
       h \<leftarrow> payload_read ?p 0 IP_HLEN (ebufs s);
       do_bufs (payload_write ?p 10 (le16 (inet_chksum (odd (p_payload b)) h))) s } = Some (?s\<lparr>ebufs := m\<rparr>)"
      "owned m ?p [?p]" "chain_data m [?p] = whole_header (ra_iphdr r) (ra_datagram_len r + 20) @ fr_data g" "edits {?p} (ebufs s) m" by auto
  have gs: "frags m n gs" using fseg_edits [OF m(4), of gs] g(3) assms(4) by auto
  have wl: "length (whole_header (ra_iphdr r) (ra_datagram_len r + 20)) = 20" using assms(3) by (rule whole_header_length)
  have "\<exists>m2. join_frags chain_fuel ?p n (?s\<lparr>ebufs := m\<rparr>) = Some (?s\<lparr>ebufs := m\<rparr>\<lparr>ebufs := m2\<rparr>) \<and> owned m2 ?p ([?p] @ map fr_p gs)
     \<and> chain_data m2 ([?p] @ map fr_p gs) = chain_data (ebufs (?s\<lparr>ebufs := m\<rparr>)) [?p] @ concat (map fr_data gs)"
    by (rule join_frags_chain) (use gs m(2,3) assms(4,5,6) wl in \<open>simp_all add: chain_fuel_def del: chain_data_simps\<close>)
  then obtain m2 where m2: "join_frags chain_fuel ?p n (?s\<lparr>ebufs := m\<rparr>) = Some (?s\<lparr>ebufs := m2\<rparr>)" "owned m2 ?p (map fr_p (g # gs))"
    "chain_data m2 (map fr_p (g # gs)) = whole_header (ra_iphdr r) (ra_datagram_len r + 20) @ concat (map fr_data (g # gs))"
    using m(3) by (auto simp del: chain_data_simps)
  have dl: "dseg (reass (?s\<lparr>ebufs := m2\<rparr>)) (reassdatagrams (?s\<lparr>ebufs := m2\<rparr>)) (xs @ a # ys) None"
    using assms(7) dseg_same [of "reass s" a r ?r] assms(1) by simp
  from dequeue_ok [OF dl assms(8)] obtain R q where
    dq: "ip_reass_dequeue_datagram a (before_p xs) (?s\<lparr>ebufs := m2\<rparr>) = Some (?s\<lparr>ebufs := m2, reassdatagrams := q, reass := R, reass_pool := a # reass_pool s\<rparr>)"
      "dseg R q (xs @ ys) None" "R a = None" by auto
  have cl: "pbuf_clen (Some ?p) m2 = Some (of_nat (length (g # gs)))" using pbuf_clen_owned [OF m2(2)] assms(5) by (simp add: chain_fuel_def)
  have uc: "ucast (of_nat (length (g # gs)) :: u8) = (of_nat (length (g # gs)) :: u16)"
    using unat8_of_nat [of "length (g # gs)"] unat16_of_nat [of "length (g # gs)"] assms(5) by (intro word_unat_eq_iff [THEN iffD2]) (simp add: unat_ucast8)
  let ?t = "?s\<lparr>ebufs := m2, reassdatagrams := q, reass := R, reass_pool := a # reass_pool s, ip_reass_pbufcount := ip_reass_pbufcount s - of_nat (length (g # gs))\<rparr>"
  have "reass_complete a (before_p xs) s = Some (Some ?p, ?t)"
  proof -
    have "reass_complete a (before_p xs) s = do {
       s \<leftarrow> do {
         s \<leftarrow> do_bufs (payload_write ?p 0 (ra_iphdr r)) ?s;
         s \<leftarrow> do_bufs (payload_write ?p 2 (be16 (ra_datagram_len r + 20))) s;
         s \<leftarrow> do_bufs (payload_write ?p 6 [0, 0]) s;
         s \<leftarrow> do_bufs (payload_write ?p 10 [0, 0]) s;
         b \<leftarrow> heap (ebufs s) ?p;
         h \<leftarrow> payload_read ?p 0 IP_HLEN (ebufs s);
         do_bufs (payload_write ?p 10 (le16 (inet_chksum (odd (p_payload b)) h))) s };
       s \<leftarrow> join_frags chain_fuel ?p n s;
       s \<leftarrow> ip_reass_dequeue_datagram a (before_p xs) s;
       clen \<leftarrow> pbuf_clen (Some ?p) (ebufs s);
       Some (Some ?p, s\<lparr>ip_reass_pbufcount := ip_reass_pbufcount s - ucast clen\<rparr>) }"
      unfolding reass_complete_def u by (simp add: g(1) nx bind_assoc)
    then show ?thesis unfolding m(1) using m2(1) dq(1) cl uc by simp
  qed
  then show ?thesis using m2(2,3) dq(2,3) by (intro exI [of _ ?t]) simp
qed

section \<open>One fragment\<close>

text \<open>A packet with a header of 20 bytes in one buffer.\<close>

definition ip_packet_at :: "pbuf_mem \<Rightarrow> nat \<Rightarrow> bytes \<Rightarrow> bytes \<Rightarrow> bool" where
  "ip_packet_at m p h d \<longleftrightarrow> owned m p [p] \<and> chain_data m [p] = h @ d \<and> length h = 20 \<and> hd h AND 0x0F = 5 \<and> ptr_ok (Some p)"

definition is_last :: "bytes \<Rightarrow> bool" where
  "is_last h \<longleftrightarrow> of_le16 (hdr_field h 6 2) AND htons IP_MF = 0"

definition fragment_of :: "nat \<Rightarrow> bytes \<Rightarrow> bytes \<Rightarrow> fragment" where
  "fragment_of p h d = Fragment p (frag_offset h) (frag_offset h + frag_len h) d"

text \<open>What a fragment with the header \<open>h\<close> changes in its datagram.\<close>

definition noted :: "bytes \<Rightarrow> reassdata \<Rightarrow> reassdata" where
  "noted h r = (let r = (if frag_offset h = 0 \<and> frag_offset (ra_iphdr r) \<noteq> 0 then r\<lparr>ra_iphdr := h\<rparr> else r) in
     if is_last h then r\<lparr>ra_flags := ra_flags r OR IP_REASS_FLAG_LASTFRAG, ra_datagram_len := frag_offset h + frag_len h\<rparr> else r)"

lemma noted_fields [simp]: "ra_p (noted h r) = ra_p r" "ra_next (noted h r) = ra_next r"
  by (simp_all add: noted_def Let_def)

text \<open>The datagram \<open>a\<close> with the fragments \<open>fs\<close>, behind the datagrams \<open>xs\<close> and before \<open>ys\<close>, is the one of the header \<open>h\<close>.\<close>

definition datagram_at :: "'b ip4r_scheme \<Rightarrow> nat list \<Rightarrow> nat \<Rightarrow> nat list \<Rightarrow> reassdata \<Rightarrow> fragment list \<Rightarrow> bytes \<Rightarrow> bool" where
  "datagram_at s xs a ys r fs h \<longleftrightarrow> dseg (reass s) (reassdatagrams s) (xs @ a # ys) None \<and> distinct (xs @ a # ys) \<and> length xs < chain_fuel
     \<and> (\<forall>x \<in> set xs. \<forall>d. reass s x = Some d \<longrightarrow> \<not> IP_ADDRESSES_AND_ID_MATCH (ra_iphdr d) h)
     \<and> reass s a = Some r \<and> IP_ADDRESSES_AND_ID_MATCH (ra_iphdr r) h \<and> length (ra_iphdr r) = 20
     \<and> frags (ebufs s) (ra_p r) fs \<and> distinct (map fr_p fs) \<and> ptr_ok (ra_p r)"

lemma count_reass: "s\<lparr>ip_reass_pbufcount := c, reass := R\<rparr> = s\<lparr>reass := R, ip_reass_pbufcount := c\<rparr>"
  by simp

lemma ip_reass_step:
  fixes s :: "'b ip4r_scheme"
  assumes "ip_packet_at (ebufs s) p h d" "datagram_at s xs a ys r fs h" "p \<notin> all_p fs" "length fs < 255"
    and "unat (ip_reass_pbufcount s) < IP_REASS_MAX_PBUFS" "20 + length (concat (map fr_data fs)) + length d < 65536"
  shows "case place_frag (fragment_of p h d) [] fs of
       None \<Rightarrow> \<exists>s'. ip_reass_input env p s = Some (None, s') \<and> frags (ebufs s') (ra_p r) fs \<and> heap (ebufs s') = (heap (ebufs s))(p := None)
         \<and> reass s' = (reass s)(a \<mapsto> noted h r) \<and> reassdatagrams s' = reassdatagrams s \<and> ip_reass_pbufcount s' = ip_reass_pbufcount s
     | Some (as, bs) \<Rightarrow>
         if ra_flags (noted h r) AND IP_REASS_FLAG_LASTFRAG \<noteq> 0 \<and> taken_complete as (fragment_of p h d) bs
         then \<exists>s'. ip_reass_input env p s = Some (head_p (as @ [fragment_of p h d]), s')
           \<and> owned (ebufs s') (fr_p (hd (as @ [fragment_of p h d]))) (map fr_p (as @ fragment_of p h d # bs))
           \<and> chain_data (ebufs s') (map fr_p (as @ fragment_of p h d # bs))
               = whole_header (ra_iphdr (noted h r)) (ra_datagram_len (noted h r) + 20) @ concat (map fr_data (as @ fragment_of p h d # bs))
           \<and> dseg (reass s') (reassdatagrams s') (xs @ ys) None \<and> reass s' a = None
           \<and> ip_reass_pbufcount s' = ip_reass_pbufcount s - of_nat (length fs)
         else \<exists>m. ip_reass_input env p s = Some (None, s\<lparr>ebufs := m, ip_reass_pbufcount := ip_reass_pbufcount s + 1,
               reass := (reass s)(a \<mapsto> (noted h r)\<lparr>ra_p := head_p (as @ [fragment_of p h d])\<rparr>)\<rparr>)
           \<and> frags m (head_p (as @ [fragment_of p h d])) (as @ fragment_of p h d # bs) \<and> edits (insert p (all_p fs)) (ebufs s) m"
proof -
  let ?f = "fragment_of p h d" and ?r = "noted h r"
  have pk: "owned (ebufs s) p [p]" "chain_data (ebufs s) [p] = h @ d" "length h = 20" "hd h AND 0x0F = 5" "ptr_ok (Some p)"
    using assms(1) by (simp_all add: ip_packet_at_def)
  have dg: "dseg (reass s) (reassdatagrams s) (xs @ a # ys) None" "distinct (xs @ a # ys)" "length xs < chain_fuel"
     "\<forall>x \<in> set xs. \<forall>d. reass s x = Some d \<longrightarrow> \<not> IP_ADDRESSES_AND_ID_MATCH (ra_iphdr d) h"
     "reass s a = Some r" "IP_ADDRESSES_AND_ID_MATCH (ra_iphdr r) h" "length (ra_iphdr r) = 20"
     "frags (ebufs s) (ra_p r) fs" "distinct (map fr_p fs)" "ptr_ok (ra_p r)"
    using assms(2) by (simp_all add: datagram_at_def)
  have rd: "payload_read p 0 IP_HLEN (ebufs s) = Some h" using payload_read_single [OF pk(1), of 0 20] pk(2,3) by (simp add: IP_HLEN_def)
  have hl: "unat (hd h AND 0x0F) * 4 = IP_HLEN" using pk(4) by (simp add: IP_HLEN_def)
  have cl: "pbuf_clen (Some p) (ebufs s) = Some 1" by (rule pbuf_clen_single [OF pk(1)])
  have room: "\<not> unat (ip_reass_pbufcount s) + unat (1 :: u8) > IP_REASS_MAX_PBUFS" using assms(5) by simp
  have find: "find_datagram chain_fuel h (reassdatagrams s) None s = Some (Some a, before_p xs)"
    using find_datagram_list [OF dg(1,4,5,6,3), of "[]"] by (simp add: before_p_def)
  let ?s = "s\<lparr>ip_reass_pbufcount := ip_reass_pbufcount s + 1, reass := (reass s)(a \<mapsto> ?r)\<rparr>"
  have run: "ip_reass_input env p s = do {
      (complete, s) \<leftarrow> ip_reass_chain_frag_into_datagram_and_validate a p ?s;
      if complete then reass_complete a (before_p xs) s else Some (None, s) }"
  proof (cases "is_last h")
    case True
    then have mf: "of_le16 (hdr_field h 6 2) AND htons IP_MF = 0" by (simp add: is_last_def)
    show ?thesis unfolding ip_reass_input_def rd bind.bind_lunit hl cl
      using room mf True dg(5) by (simp add: find upd_reass_def noted_def Let_def)
  next
    case False
    then have mf: "of_le16 (hdr_field h 6 2) AND htons IP_MF \<noteq> 0" by (simp add: is_last_def)
    show ?thesis unfolding ip_reass_input_def rd bind.bind_lunit hl cl
      unfolding count_reass using room mf False dg(5) by (simp add: find upd_reass_def noted_def Let_def)
  qed
  have r3: "reass ?s a = Some ?r" "frags (ebufs ?s) (ra_p ?r) fs" "owned (ebufs ?s) p [p]" "chain_data (ebufs ?s) [p] = h @ d" "ptr_ok (ra_p ?r)" "length fs < chain_fuel"
    using dg(8,10) pk(1,2) assms(4) by (simp_all add: chain_fuel_def)
  note fc = frag_chained [OF r3(1-4) pk(3,5) r3(5) dg(9) assms(3) r3(6) fragment_of_def]
  show ?thesis
  proof (cases "place_frag ?f [] fs")
    case None
    with fc obtain m where m: "ip_reass_chain_frag_into_datagram_and_validate a p ?s
        = Some (False, ?s\<lparr>ip_reass_pbufcount := ip_reass_pbufcount ?s - 1, ebufs := m\<rparr>)" "frags m (ra_p r) fs" "heap m = (heap (ebufs s))(p := None)"
      by auto
    then show ?thesis unfolding run m(1) using None by simp
  next
    case (Some ab)
    obtain as bs where ab: "ab = (as, bs)" by (cases ab)
    have part: "fs = as @ bs" using place_frag_parts [of ?f "[]" fs as bs] Some ab by simp
    from fc Some ab obtain m where
      m: "ip_reass_chain_frag_into_datagram_and_validate a p ?s = Some (ra_flags ?r AND IP_REASS_FLAG_LASTFRAG \<noteq> 0 \<and> taken_complete as ?f bs,
           ?s\<lparr>ebufs := m, reass := (reass ?s)(a \<mapsto> ?r\<lparr>ra_p := head_p (as @ [?f])\<rparr>)\<rparr>)"
        "frags m (head_p (as @ [?f])) (as @ ?f # bs)" "edits (insert p (all_p fs)) (ebufs s) m" by auto
    let ?t = "s\<lparr>ebufs := m, ip_reass_pbufcount := ip_reass_pbufcount s + 1, reass := (reass s)(a \<mapsto> ?r\<lparr>ra_p := head_p (as @ [?f])\<rparr>)\<rparr>"
    have t: "?s\<lparr>ebufs := m, reass := (reass ?s)(a \<mapsto> ?r\<lparr>ra_p := head_p (as @ [?f])\<rparr>)\<rparr> = ?t" by simp
    show ?thesis
    proof (cases "ra_flags ?r AND IP_REASS_FLAG_LASTFRAG \<noteq> 0 \<and> taken_complete as ?f bs")
      case False
      then have "ip_reass_input env p s = Some (None, ?t)" unfolding run m(1) t by auto
      then show ?thesis using False Some ab m(2,3) by auto
    next
      case True
      obtain g gs where g: "as @ ?f # bs = g # gs" by (cases as) auto
      have hd: "head_p (as @ [?f]) = Some (fr_p g)" "fr_p (hd (as @ [?f])) = fr_p g" using g by (cases as; auto simp: head_p_def)+
      have len: "length gs = length fs" using g part by (metis length_append length_Cons add_Suc_right nat.inject)
      have dat: "length (concat (map fr_data (g # gs))) = length (concat (map fr_data fs)) + length d"
        by (simp only: g [symmetric] part) (simp add: fragment_of_def)
      have cond: "reass ?t a = Some (?r\<lparr>ra_p := Some (fr_p g)\<rparr>)" "frags (ebufs ?t) (ra_p (?r\<lparr>ra_p := Some (fr_p g)\<rparr>)) (g # gs)"
        "length (ra_iphdr (?r\<lparr>ra_p := Some (fr_p g)\<rparr>)) = 20" "length gs < 255" "20 + length (concat (map fr_data (g # gs))) < 65536"
        using m(2) hd(1) g dg(7) pk(3) assms(4,6) len dat by (auto simp: noted_def Let_def)
      have di: "distinct (map fr_p (g # gs))" using dg(9) assms(3) by (simp only: g [symmetric] part) (auto simp: fragment_of_def all_p_def)
      have dl: "dseg (reass ?t) (reassdatagrams ?t) (xs @ a # ys) None" using dg(1) dseg_same [of "reass s" a r] dg(5) by simp
      from reass_complete_chain [OF cond(1-3) di cond(4,5) dl dg(2)] obtain s' where
        s': "reass_complete a (before_p xs) ?t = Some (Some (fr_p g), s')" "owned (ebufs s') (fr_p g) (map fr_p (g # gs))"
          "chain_data (ebufs s') (map fr_p (g # gs)) = whole_header (ra_iphdr ?r) (ra_datagram_len ?r + 20) @ concat (map fr_data (g # gs))"
          "dseg (reass s') (reassdatagrams s') (xs @ ys) None" "reass s' a = None"
          "ip_reass_pbufcount s' = ip_reass_pbufcount s + 1 - of_nat (length (g # gs))" by auto
      have "ip_reass_input env p s = Some (head_p (as @ [?f]), s')" unfolding run m(1) t using True s'(1) hd(1) by simp
      moreover have "ip_reass_pbufcount s' = ip_reass_pbufcount s - of_nat (length fs)" using s'(6) len by simp
      ultimately show ?thesis unfolding Some ab option.case prod.case if_P [OF True] g hd(2) using s'(2-5) by blast
    qed
  qed
qed

section \<open>The fragments of a datagram in order\<close>

fun reass_run :: "'b ip4r_scheme ip_env \<Rightarrow> nat list \<Rightarrow> 'b ip4r_scheme \<Rightarrow> (nat option list \<times> 'b ip4r_scheme) option" where
  "reass_run env [] s = Some ([], s)"
| "reass_run env (p # ps) s = do { (r, s) \<leftarrow> ip_reass_input env p s; (rs, s) \<leftarrow> reass_run env ps s; Some (r # rs, s) }"

type_synonym ip_packet = "nat \<times> bytes \<times> bytes"

definition pk_p :: "ip_packet \<Rightarrow> nat" where "pk_p k = fst k"
definition pk_h :: "ip_packet \<Rightarrow> bytes" where "pk_h k = fst (snd k)"
definition pk_d :: "ip_packet \<Rightarrow> bytes" where "pk_d k = snd (snd k)"
definition pk_frag :: "ip_packet \<Rightarrow> fragment" where "pk_frag k = fragment_of (pk_p k) (pk_h k) (pk_d k)"

lemma pk_frag_fields [simp]: "fr_p (pk_frag k) = pk_p k" "fr_data (pk_frag k) = pk_d k" "fr_start (pk_frag k) = frag_offset (pk_h k)"
  by (simp_all add: pk_frag_def fragment_of_def)

lemma place_frag_behind:
  "\<forall>g \<in> set as. fr_start g < fr_start f \<and> fr_end g \<le> fr_start f \<Longrightarrow> place_frag f zs (as @ bs) = place_frag f (zs @ as) bs"
  by (induction as arbitrary: zs) auto

lemma contiguous_ends:
  "contiguous as \<Longrightarrow> \<forall>g \<in> set as. fr_start g < fr_end g \<Longrightarrow> as \<noteq> [] \<Longrightarrow> \<forall>g \<in> set as. fr_end g \<le> fr_end (last as)"
proof (induction as rule: rev_induct)
  case (snoc a as)
  show ?case
  proof (cases "as = []")
    case False
    then have "\<forall>g \<in> set as. fr_end g \<le> fr_end (last as)" "fr_end (last as) = fr_start a" using snoc by (auto simp: contiguous_snoc)
    then show ?thesis using snoc.prems(2) by fastforce
  qed simp
qed simp

lemma place_frag_end:
  assumes "contiguous (as @ [f])" "\<forall>g \<in> set as. fr_start g < fr_end g"
  shows "place_frag f [] as = Some (as, [])"
proof -
  have "\<forall>g \<in> set as. fr_start g < fr_start f \<and> fr_end g \<le> fr_start f"
  proof
    fix g assume g: "g \<in> set as"
    then have "as \<noteq> []" by auto
    then have "contiguous as" "fr_end (last as) = fr_start f" using assms(1) by (auto simp: contiguous_snoc)
    with contiguous_ends [OF _ assms(2) \<open>as \<noteq> []\<close>] g have "fr_end g \<le> fr_start f" by auto
    moreover have "fr_start g < fr_end g" using assms(2) g by simp
    ultimately show "fr_start g < fr_start f \<and> fr_end g \<le> fr_start f" by simp
  qed
  from place_frag_behind [OF this, of "[]" "[]"] show ?thesis by simp
qed

lemma ip_packet_keeps: "edits A m m' \<Longrightarrow> p \<notin> A \<Longrightarrow> ip_packet_at m' p h d = ip_packet_at m p h d"
  using keeps_chain(2,4) [OF edits_keeps, of A m m' "{p}" "[p]"] by (auto simp: ip_packet_at_def)

text \<open>A fragment of a datagram not seen yet: as if its entry had been there.\<close>

lemma find_datagram_none:
  "dseg (reass s) q ds None \<Longrightarrow> \<forall>x \<in> set ds. \<forall>r. reass s x = Some r \<longrightarrow> \<not> IP_ADDRESSES_AND_ID_MATCH (ra_iphdr r) h \<Longrightarrow> length ds \<le> fuel
   \<Longrightarrow> \<exists>prev'. find_datagram fuel h q prev s = Some (None, prev')"
proof (induction ds arbitrary: q prev fuel)
  case (Cons x xs)
  then obtain k where "fuel = Suc k" "length xs \<le> k" by (cases fuel) auto
  then show ?case using Cons by auto
qed simp

lemma ip_reass_first:
  fixes s :: "'b ip4r_scheme"
  assumes "ip_packet_at (ebufs s) p h d" "dseg (reass s) (reassdatagrams s) ds None" "length ds < chain_fuel"
    and "\<forall>x \<in> set ds. \<forall>r. reass s x = Some r \<longrightarrow> \<not> IP_ADDRESSES_AND_ID_MATCH (ra_iphdr r) h"
    and "reass_pool s = a # free" "unat (ip_reass_pbufcount s) < IP_REASS_MAX_PBUFS" "\<not> is_last h"
    and "r = new_reassdata h (reassdatagrams s)" "e = s\<lparr>reass_pool := free, reass := (reass s)(a \<mapsto> r), reassdatagrams := Some a\<rparr>"
  shows "\<exists>m. ip_reass_input env p s = Some (None, e\<lparr>ebufs := m, ip_reass_pbufcount := ip_reass_pbufcount s + 1, reass := (reass e)(a \<mapsto> r\<lparr>ra_p := Some p\<rparr>)\<rparr>)
     \<and> frags m (Some p) [fragment_of p h d] \<and> edits {p} (ebufs s) m"
proof -
  have pk: "owned (ebufs s) p [p]" "chain_data (ebufs s) [p] = h @ d" "length h = 20" "hd h AND 0x0F = 5" "ptr_ok (Some p)"
    using assms(1) by (simp_all add: ip_packet_at_def)
  have rd: "payload_read p 0 IP_HLEN (ebufs s) = Some h" using payload_read_single [OF pk(1), of 0 20] pk(2,3) by (simp add: IP_HLEN_def)
  have hl: "unat (hd h AND 0x0F) * 4 = IP_HLEN" using pk(4) by (simp add: IP_HLEN_def)
  have cl: "pbuf_clen (Some p) (ebufs s) = Some 1" by (rule pbuf_clen_single [OF pk(1)])
  have room: "\<not> unat (ip_reass_pbufcount s) + unat (1 :: u8) > IP_REASS_MAX_PBUFS" using assms(6) by simp
  from find_datagram_none [OF assms(2,4)] assms(3) obtain prev where find: "find_datagram chain_fuel h (reassdatagrams s) None s = Some (None, prev)"
    using less_imp_le by blast
  have en: "ip_reass_enqueue_new_datagram env h k s = Some (Some a, e)" for k
    by (simp add: ip_reass_enqueue_new_datagram_def memp_malloc_reass_def assms(5,8,9))
  have mf: "of_le16 (hdr_field h 6 2) AND htons IP_MF \<noteq> 0" using assms(7) by (simp add: is_last_def)
  let ?e = "e\<lparr>ip_reass_pbufcount := ip_reass_pbufcount s + 1\<rparr>" and ?f = "fragment_of p h d"
  have ec: "ip_reass_pbufcount e = ip_reass_pbufcount s" by (simp add: assms(9))
  have run: "ip_reass_input env p s = do {
      (complete, t) \<leftarrow> ip_reass_chain_frag_into_datagram_and_validate a p ?e;
      if complete then reass_complete a prev t else Some (None, t) }"
    unfolding ip_reass_input_def rd bind.bind_lunit hl cl using room mf by (simp add: find en ec)
  have fl: "ra_p r = None" "ra_flags r = 0" by (simp_all add: assms(8) new_reassdata_def)
  have c: "reass ?e a = Some r" "frags (ebufs ?e) (ra_p r) []" "owned (ebufs ?e) p [p]" "chain_data (ebufs ?e) [p] = h @ d" "ptr_ok (ra_p r)"
    "distinct (map fr_p [])" "p \<notin> all_p []" "length ([] :: fragment list) < chain_fuel"
    using pk(1,2) fl by (simp_all add: assms(9) ptr_ok_def all_p_def chain_fuel_def)
  from frag_chained [OF c(1-4) pk(3,5) c(5-8) fragment_of_def] fl obtain m where
    m: "ip_reass_chain_frag_into_datagram_and_validate a p ?e = Some (False, ?e\<lparr>ebufs := m, reass := (reass ?e)(a \<mapsto> r\<lparr>ra_p := head_p [?f]\<rparr>)\<rparr>)"
      "frags m (head_p [?f]) [?f]" "edits (insert p (all_p [])) (ebufs e) m" by (auto simp: assms(9))
  have h: "head_p [?f] = Some p" by (simp add: head_p_def fragment_of_def)
  have "edits {p} (ebufs s) m" using m(3) by (simp add: all_p_def assms(9))
  then show ?thesis using m(1,2) unfolding run m(1) h by (intro exI [of _ m]) (simp del: fseg.simps)
qed

text \<open>The rest of the fragments, in order.\<close>

definition in_order :: "fragment list \<Rightarrow> ip_packet list \<Rightarrow> bool" where
  "in_order fs ks \<longleftrightarrow> contiguous (fs @ map pk_frag ks) \<and> (\<forall>g \<in> set (fs @ map pk_frag ks). fr_start g < fr_end g)
     \<and> distinct (map fr_p (fs @ map pk_frag ks))"

lemma in_order_snoc: "in_order fs (k # ks) = in_order (fs @ [pk_frag k]) ks"
  by (simp add: in_order_def)

lemma reass_run_rest:
  fixes s :: "'b ip4r_scheme"
  assumes "datagram_at s [] a ys r fs h0" "fs \<noteq> []" "fr_start (hd fs) = 0" "frag_offset (ra_iphdr r) = 0" "ra_flags r AND IP_REASS_FLAG_LASTFRAG = 0"
    and "in_order fs (ks @ [l])" "\<forall>k \<in> set (ks @ [l]). ip_packet_at (ebufs s) (pk_p k) (pk_h k) (pk_d k) \<and> IP_ADDRESSES_AND_ID_MATCH (ra_iphdr r) (pk_h k)"
    and "\<forall>k \<in> set ks. \<not> is_last (pk_h k)" "is_last (pk_h l)" "unat (ip_reass_pbufcount s) + length ks < IP_REASS_MAX_PBUFS"
    and "length fs + length ks < 255" "20 + length (concat (map fr_data (fs @ map pk_frag (ks @ [l])))) < 65536"
  shows "\<exists>s'. reass_run env (map pk_p (ks @ [l])) s = Some (replicate (length ks) None @ [Some (fr_p (hd fs))], s')
     \<and> owned (ebufs s') (fr_p (hd fs)) (map fr_p (fs @ map pk_frag (ks @ [l])))
     \<and> chain_data (ebufs s') (map fr_p (fs @ map pk_frag (ks @ [l])))
         = whole_header (ra_iphdr r) (fr_end (pk_frag l) + 20) @ concat (map fr_data (fs @ map pk_frag (ks @ [l])))
     \<and> dseg (reass s') (reassdatagrams s') ys None \<and> reass s' a = None \<and> ip_reass_pbufcount s' = ip_reass_pbufcount s - of_nat (length fs)"
  using assms(1-8,10-12)
proof (induction ks arbitrary: s r fs)
  case Nil
  let ?p = "pk_p l" and ?h = "pk_h l" and ?d = "pk_d l" and ?r = "noted (pk_h l) r"
  have io: "contiguous (fs @ [pk_frag l])" "\<forall>g \<in> set fs. fr_start g < fr_end g" "pk_p l \<notin> all_p fs"
    using Nil.prems(6) by (auto simp: in_order_def all_p_def)
  have pl: "place_frag (pk_frag l) [] fs = Some (fs, [])" by (rule place_frag_end [OF io(1,2)])
  have tc: "taken_complete fs (pk_frag l) []" using io(1) Nil.prems(2,3) by (auto simp: taken_complete_def contiguous_snoc) (simp add: contiguous_def)
  have dg: "datagram_at s [] a ys r fs ?h" using Nil.prems(1,7) by (auto simp: datagram_at_def)
  have pk: "ip_packet_at (ebufs s) ?p ?h ?d" using Nil.prems(7) by simp
  have nr: "ra_flags ?r AND IP_REASS_FLAG_LASTFRAG \<noteq> 0" "ra_iphdr ?r = ra_iphdr r" "ra_datagram_len ?r = fr_end (pk_frag l)"
    using Nil.prems(4) assms(9) by (simp_all add: noted_def Let_def IP_REASS_FLAG_LASTFRAG_def bit.conj_disj_distrib2 pk_frag_def fragment_of_def)
  have sz: "length fs < 255" "unat (ip_reass_pbufcount s) < IP_REASS_MAX_PBUFS" "20 + length (concat (map fr_data fs)) + length ?d < 65536"
    using Nil.prems(9-11) by simp_all
  from ip_reass_step [OF pk dg io(3) sz, of env] pl tc nr Nil.prems(2) obtain s' where
    s': "ip_reass_input env ?p s = Some (head_p (fs @ [pk_frag l]), s')" "owned (ebufs s') (fr_p (hd (fs @ [pk_frag l]))) (map fr_p (fs @ [pk_frag l]))"
      "chain_data (ebufs s') (map fr_p (fs @ [pk_frag l])) = whole_header (ra_iphdr r) (fr_end (pk_frag l) + 20) @ concat (map fr_data (fs @ [pk_frag l]))"
      "dseg (reass s') (reassdatagrams s') ys None" "reass s' a = None" "ip_reass_pbufcount s' = ip_reass_pbufcount s - of_nat (length fs)"
    unfolding pk_frag_def [symmetric] by auto
  have hd: "head_p (fs @ [pk_frag l]) = Some (fr_p (hd fs))" "fr_p (hd (fs @ [pk_frag l])) = fr_p (hd fs)" using Nil.prems(2) by (cases fs; simp add: head_p_def)+
  show ?case using s' unfolding hd by (intro exI [of _ s']) simp
next
  case (Cons k ks)
  let ?p = "pk_p k" and ?h = "pk_h k" and ?d = "pk_d k" and ?f = "pk_frag k"
  have io: "contiguous (fs @ [?f])" "\<forall>g \<in> set fs. fr_start g < fr_end g" "?p \<notin> all_p fs"
    using Cons.prems(6) by (auto simp: in_order_def all_p_def contiguous_def successively_append_iff)
  have pl: "place_frag ?f [] fs = Some (fs, [])" by (rule place_frag_end [OF io(1,2)])
  have dg: "datagram_at s [] a ys r fs ?h" using Cons.prems(1,7) by (auto simp: datagram_at_def)
  have pk: "ip_packet_at (ebufs s) ?p ?h ?d" using Cons.prems(7) by simp
  have nr: "noted ?h r = r" using Cons.prems(4,8) by (simp add: noted_def Let_def)
  have sz: "length fs < 255" "unat (ip_reass_pbufcount s) < IP_REASS_MAX_PBUFS" "20 + length (concat (map fr_data fs)) + length ?d < 65536"
    using Cons.prems(9-11) by simp_all
  have hd: "head_p (fs @ [?f]) = ra_p r" using dg Cons.prems(2) by (cases fs) (auto simp: datagram_at_def head_p_def)
  have rr: "r\<lparr>ra_p := ra_p r\<rparr> = r" by simp
  from ip_reass_step [OF pk dg io(3) sz, of env] pl nr Cons.prems(5) obtain m where
    m: "ip_reass_input env ?p s = Some (None, s\<lparr>ebufs := m, ip_reass_pbufcount := ip_reass_pbufcount s + 1, reass := (reass s)(a \<mapsto> r)\<rparr>)"
      "frags m (ra_p r) (fs @ [?f])" "edits (insert ?p (all_p fs)) (ebufs s) m"
    unfolding pk_frag_def [symmetric] by (auto simp: hd rr)
  let ?t = "s\<lparr>ebufs := m, ip_reass_pbufcount := ip_reass_pbufcount s + 1, reass := (reass s)(a \<mapsto> r)\<rparr>"
  have id: "(reass s)(a \<mapsto> r) = reass s" using dg by (auto simp: datagram_at_def)
  have t1: "datagram_at ?t [] a ys r (fs @ [?f]) h0" using Cons.prems(1,6) m(2) by (auto simp: datagram_at_def id in_order_def)
  have t2: "in_order (fs @ [?f]) (ks @ [l])" using Cons.prems(6) by (simp add: in_order_def)
  have t3: "\<forall>k \<in> set (ks @ [l]). ip_packet_at (ebufs ?t) (pk_p k) (pk_h k) (pk_d k) \<and> IP_ADDRESSES_AND_ID_MATCH (ra_iphdr r) (pk_h k)"
  proof
    fix k' assume k': "k' \<in> set (ks @ [l])"
    have "pk_p k' \<in> pk_p ` set (ks @ [l])" using k' by (rule imageI)
    moreover have "insert ?p (all_p fs) \<inter> pk_p ` set (ks @ [l]) = {}" using Cons.prems(6) by (auto simp: in_order_def all_p_def)
    ultimately have "pk_p k' \<notin> insert ?p (all_p fs)" by blast
    from ip_packet_keeps [OF m(3) this] show "ip_packet_at (ebufs ?t) (pk_p k') (pk_h k') (pk_d k') \<and> IP_ADDRESSES_AND_ID_MATCH (ra_iphdr r) (pk_h k')"
      using Cons.prems(7) k' by auto
  qed
  have cu: "unat (ip_reass_pbufcount s + 1) = unat (ip_reass_pbufcount s) + 1"
    using Cons.prems(9) by (simp add: unat_word_ariths IP_REASS_MAX_PBUFS_def)
  have t4: "fs @ [?f] \<noteq> []" "fr_start (hd (fs @ [?f])) = 0" "\<forall>k \<in> set ks. \<not> is_last (pk_h k)" "unat (ip_reass_pbufcount ?t) + length ks < IP_REASS_MAX_PBUFS"
    "length (fs @ [?f]) + length ks < 255" "20 + length (concat (map fr_data ((fs @ [?f]) @ map pk_frag (ks @ [l])))) < 65536"
    using Cons.prems(2,3,8-11) cu by simp_all
  from Cons.IH [OF t1 t4(1,2) Cons.prems(4,5) t2 t3 t4(3-6)] obtain s' where
    s': "reass_run env (map pk_p (ks @ [l])) ?t = Some (replicate (length ks) None @ [Some (fr_p (hd (fs @ [?f])))], s')"
     "owned (ebufs s') (fr_p (hd (fs @ [?f]))) (map fr_p ((fs @ [?f]) @ map pk_frag (ks @ [l])))"
     "chain_data (ebufs s') (map fr_p ((fs @ [?f]) @ map pk_frag (ks @ [l])))
         = whole_header (ra_iphdr r) (fr_end (pk_frag l) + 20) @ concat (map fr_data ((fs @ [?f]) @ map pk_frag (ks @ [l])))"
     "dseg (reass s') (reassdatagrams s') ys None" "reass s' a = None" "ip_reass_pbufcount s' = ip_reass_pbufcount ?t - of_nat (length (fs @ [?f]))" by blast
  have h2: "hd (fs @ [?f]) = hd fs" using Cons.prems(2) by simp
  have "reass_run env (map pk_p ((k # ks) @ [l])) s = Some (replicate (length (k # ks)) None @ [Some (fr_p (hd fs))], s')"
    using m(1) s'(1) by (simp add: h2)
  moreover have "ip_reass_pbufcount s' = ip_reass_pbufcount s - of_nat (length fs)" using s'(6) by simp
  ultimately show ?case using s'(2-5) unfolding h2 by (intro exI [of _ s']) simp
qed

end
