(* ===== verification/Ip_Run.thy ===== *)
theory Ip_Run
  imports Icmp_Run
begin

text \<open>
  What \<open>ip_input\<close> does to the invariant of the ARP layer, for every received packet with a header of at least 20 bytes
  that is not a fragment: it is freed. The same of frames, through \<open>ethernet_input\<close>.
\<close>

section \<open>Delivery\<close>

text \<open>
  The contract of the other protocols: they free a packet whose header is at least 20 bytes long. There is no raw control block.
\<close>

definition handles :: "nat set \<Rightarrow> (nat \<Rightarrow> nat \<Rightarrow> 'a eth_scheme \<Rightarrow> 'a eth_scheme option) \<Rightarrow> bool" where
  "handles slots g \<longleftrightarrow> (\<forall>H p f x len inp n s. packet_at slots H p f x 14 len s \<longrightarrow> 5 \<le> x ! 14 AND 0x0F \<longrightarrow> netifs s inp = Some n
     \<longrightarrow> freed slots H p (with_pbuf p f x 14 len s) (g p inp (with_pbuf p f x 14 len s)))"

definition env_ok :: "nat set \<Rightarrow> 'b ip4_scheme ip_env \<Rightarrow> bool" where
  "env_ok slots env \<longleftrightarrow> (\<forall>p inp s. raw_input env p inp s = Some (0, s)) \<and> handles slots (udp_handler env) \<and> handles slots (tcp_handler env)"

lemma handles_free: "handles slots (\<lambda>p inp. free_pbuf p)"
  by (simp add: handles_def packet_at_free)

lemma arp_step_fields [simp]:
  "arp_step slots H H' (s\<lparr>cur_dest := a\<rparr>) t = arp_step slots H H' s t" "arp_step slots H H' (s\<lparr>cur_src := a\<rparr>) t = arp_step slots H H' s t"
  "arp_step slots H H' (s\<lparr>cur_netif := b\<rparr>) t = arp_step slots H H' s t" "arp_step slots H H' (s\<lparr>cur_header := c\<rparr>) t = arp_step slots H H' s t"
  "arp_step slots H H' s (t\<lparr>cur_dest := a\<rparr>) = arp_step slots H H' s t" "arp_step slots H H' s (t\<lparr>cur_src := a\<rparr>) = arp_step slots H H' s t"
  "arp_step slots H H' s (t\<lparr>cur_netif := b\<rparr>) = arp_step slots H H' s t" "arp_step slots H H' s (t\<lparr>cur_header := c\<rparr>) = arp_step slots H H' s t"
  by (simp_all add: arp_step_def)

lemma freed_fields [simp]:
  "freed slots H p (s\<lparr>cur_dest := a\<rparr>) r = freed slots H p s r" "freed slots H p (s\<lparr>cur_src := a\<rparr>) r = freed slots H p s r"
  "freed slots H p (s\<lparr>cur_netif := b\<rparr>) r = freed slots H p s r" "freed slots H p (s\<lparr>cur_header := c\<rparr>) r = freed slots H p s r"
  by (simp_all add: freed_def)

lemma freed_with_fields:
  "freed slots H p (with_pbuf p f x pos len (s\<lparr>cur_dest := a\<rparr>)) r = freed slots H p (with_pbuf p f x pos len s) r"
  "freed slots H p (with_pbuf p f x pos len (s\<lparr>cur_src := a\<rparr>)) r = freed slots H p (with_pbuf p f x pos len s) r"
  "freed slots H p (with_pbuf p f x pos len (s\<lparr>cur_netif := b\<rparr>)) r = freed slots H p (with_pbuf p f x pos len s) r"
  "freed slots H p (with_pbuf p f x pos len (s\<lparr>cur_header := c\<rparr>)) r = freed slots H p (with_pbuf p f x pos len s) r"
  by (simp_all flip: with_pbuf_upd)

lemma freed_reset:
  assumes "freed slots H p s r"
  shows "freed slots H p s (do { s \<leftarrow> r; Some (s\<lparr>cur_netif := a, cur_header := b, cur_src := c, cur_dest := d\<rparr>) })"
  using assms by (auto simp: freed_def)

lemma dest_unreach_step:
  assumes "packet_at slots H p f x 14 len s" "mtu_ok s"
  shows "\<exists>s'. icmp_dest_unreach env p t (with_pbuf p f x 14 len s) = Some s' \<and> arp_step slots H H (with_pbuf p f x 14 len s) s'
     \<and> freed slots H p (with_pbuf p f x 14 len s) (free_pbuf p s')"
proof -
  let ?t = "with_pbuf p f x 14 len s"
  have b: "length x = 1516" "14 + len \<le> 1514" "eth_ok slots H ?t" "p \<in> H" "f AND PBUF_FLAG_IS_CUSTOM = 0" using assms(1) by (auto simp: packet_at_def)
  have r: "p_payload \<lparr>p_next = None, p_payload = 14, p_tot_len = of_nat len, p_len = of_nat len, p_type = PBUF_POOL, p_flags = f, p_ref = 1\<rparr> + 28
      \<le> length (blk (ebufs ?t) p)" using b(1) by simp
  have m: "mtu_ok ?t" using assms(2) by simp
  from icmp_send_response_step [OF b(3) m b(4) at_heap r] obtain s' where s': "icmp_dest_unreach env p t ?t = Some s'" "arp_step slots H H ?t s'"
    unfolding icmp_dest_unreach_def by blast
  note d = arp_stepD [OF s'(2)]
  have "owned (ebufs ?t) p [p]" using one_pbuf_owned(1) [of 14 len x f p] b by simp
  moreover have "set [p] \<subseteq> H" "keeps H (ebufs ?t) (ebufs s')" using b(4) d(2) by simp_all
  ultimately have o: "owned (ebufs s') p [p]" using keeps_chain(4) by blast
  have "arp_step slots (H - {p}) H ?t s'" using s'(2) by (auto simp: arp_step_def intro: keeps_mono)
  from freed_then [OF this freed_free [OF d(1) o b(4)]] s' show ?thesis by blast
qed

lemma byte_at: "k < length x \<Longrightarrow> take 1 (drop k x) = [x ! k]"
  by (simp add: Cons_nth_drop_Suc [symmetric])

text \<open>Which handler a packet gets.\<close>

lemma ip_deliver_eq:
  assumes "packet_at slots H p f x 14 len s" "env_ok slots env" "netifs s inp = Some n"
  shows "ip_deliver env p inp (p, 14) (with_pbuf p f x 14 len s) = do {
     s \<leftarrow> (let t = with_pbuf p f x 14 len (s\<lparr>cur_netif := Some inp, cur_header := Some (p, 14)\<rparr>) in
       if x ! 23 = IP_PROTO_UDP then udp_handler env p inp t
       else if x ! 23 = IP_PROTO_TCP then tcp_handler env p inp t
       else if x ! 23 = IP_PROTO_ICMP then icmp_input env p inp t
       else if ip4_addr_isbroadcast (cur_dest s) (netif.truncate n) \<or> ip_addr_ismulticast (cur_dest s) then free_pbuf p t
       else do { s \<leftarrow> icmp_dest_unreach env p ICMP_DUR_PROTO t; free_pbuf p s });
     Some (s\<lparr>cur_netif := None, cur_header := None, cur_src := IPADDR_ANY, cur_dest := IPADDR_ANY\<rparr>) }"
proof -
  let ?t = "with_pbuf p f x 14 len (s\<lparr>cur_netif := Some inp, cur_header := Some (p, 14)\<rparr>)"
  have b: "length x = 1516" using assms(1) by (simp add: packet_at_def)
  have v: "ip_field (p, 14) 9 1 ?t = Some [x ! 23]" using b byte_at [of 23 x] by (simp add: at_field)
  have u: "do_bufs (upd p (\<lambda>b. b\<lparr>p_payload := 14\<rparr>)) ?t = Some ?t"
    by (rule do_with_pbuf) (simp add: upd_def, simp add: one_pbuf_def)
  have r: "raw_input env p inp t = Some (0, t)" for t using assms(2) by (simp add: env_ok_def)
  show ?thesis unfolding ip_deliver_def r with_pbuf_upd bind.bind_lunit prod.case Let_def v
    using assms(3) u by simp
qed

lemma ip_deliver_step:
  assumes "packet_at slots H p f x 14 len s" "env_ok slots env" "netifs s inp = Some n" "5 \<le> x ! 14 AND 0x0F" "mtu_ok s"
  shows "freed slots H p (with_pbuf p f x 14 len s) (ip_deliver env p inp (p, 14) (with_pbuf p f x 14 len s))"
proof -
  let ?s = "s\<lparr>cur_netif := Some inp, cur_header := Some (p, 14)\<rparr>"
  let ?t = "with_pbuf p f x 14 len ?s"
  have pa: "packet_at slots H p f x 14 len ?s" "mtu_ok ?s" "netifs ?s inp = Some n" using assms(1,3,5) by simp_all
  have h: "freed slots H p ?t (udp_handler env p inp ?t)" "freed slots H p ?t (tcp_handler env p inp ?t)"
    using assms(2,4) pa(1,3) unfolding env_ok_def handles_def by blast+
  have i: "freed slots H p ?t (icmp_input env p inp ?t)" by (rule icmp_input_step [OF pa(1) assms(4) pa(2,3)])
  from dest_unreach_step [OF pa(1,2), of env ICMP_DUR_PROTO] have d: "freed slots H p ?t (do { s \<leftarrow> icmp_dest_unreach env p ICMP_DUR_PROTO ?t; free_pbuf p s })"
    by auto
  have "freed slots H p ?t (ip_deliver env p inp (p, 14) (with_pbuf p f x 14 len s))"
    unfolding ip_deliver_eq [OF assms(1-3)] Let_def
    by (rule freed_reset) (use h i d packet_at_free [OF pa(1)] in simp)
  then show ?thesis by (simp add: freed_with_fields)
qed

section \<open>Input\<close>

text \<open>A packet that is accepted whatever its address: a datagram to the DHCP server.\<close>

definition to_dhcp :: "bytes \<Rightarrow> nat \<Rightarrow> bool" where
  "to_dhcp x hlen \<longleftrightarrow> x ! 23 = IP_PROTO_UDP \<and> of_le16 (take 2 (drop (14 + hlen + 2) x)) = htons DHCP_ACCEPT_PORT"

definition bad_source :: "u32 \<Rightarrow> eth_netif \<Rightarrow> bool" where
  "bad_source a n \<longleftrightarrow> \<not> ip_addr_isany a \<and> (ip4_addr_isbroadcast a (netif.truncate n) \<or> ip_addr_ismulticast a)"

definition is_fragment :: "bytes \<Rightarrow> bool" where
  "is_fragment b \<longleftrightarrow> of_le16 b AND htons (IP_OFFMASK OR IP_MF) \<noteq> 0"

lemma ip_addressed_eq:
  assumes "packet_at slots H p f x 14 len s" "netifs s inp = Some n" "hlen \<le> 60" "\<not> is_fragment (take 2 (drop 20 x))"
  shows "ip_addressed env p inp (p, 14) hlen (with_pbuf p f x 14 len s) =
     (if ip_for inp s = None \<and> to_dhcp x hlen then ip_deliver env p inp (p, 14) (with_pbuf p f x 14 len s)
      else if bad_source (cur_src s) n \<or> ip_for inp s = None then free_pbuf p (with_pbuf p f x 14 len s)
      else ip_deliver env p inp (p, 14) (with_pbuf p f x 14 len s))"
proof -
  let ?t = "with_pbuf p f x 14 len s"
  have b: "length x = 1516" using assms(1) by (simp add: packet_at_def)
  have v: "ip_field (p, 14) 9 1 ?t = Some [x ! 23]" "ip_field (p, 14) (hlen + 2) 2 ?t = Some (take 2 (drop (14 + hlen + 2) x))"
    "ip_field (p, 14) 6 2 ?t = Some (take 2 (drop 20 x))"
    using b byte_at [of 23 x] assms(3) by (simp_all add: at_field add.assoc)
  have i: "ip_for inp ?t = ip_for inp s" unfolding ip_for_def with_pbuf_sels with_pbuf_ip4 by (rule refl)
  show ?thesis
    unfolding ip_addressed_def i v using assms(2,4)
    by (cases "ip_for inp s") (auto simp: to_dhcp_def bad_source_def is_fragment_def)
qed

lemma ip_addressed_step:
  assumes "packet_at slots H p f x 14 len s" "env_ok slots env" "netifs s inp = Some n" "5 \<le> x ! 14 AND 0x0F" "mtu_ok s"
    and "hlen \<le> 60" "\<not> is_fragment (take 2 (drop 20 x))"
  shows "freed slots H p (with_pbuf p f x 14 len s) (ip_addressed env p inp (p, 14) hlen (with_pbuf p f x 14 len s))"
  unfolding ip_addressed_eq [OF assms(1,3,6,7)]
  using ip_deliver_step [OF assms(1-5)] packet_at_free [OF assms(1)] by simp

lemma ip_input_eq:
  assumes "packet_at slots H p f x 14 len s" "hlen = unat (x ! 14 AND 0x0F) * 4" "k = htons (of_le16 (take 2 (drop 16 x)))"
  shows "ip_input env p inp (with_pbuf p f x 14 len s) =
     (if drop_bit 4 (x ! 14) \<noteq> 4 \<or> len < hlen \<or> len < unat k \<or> inet_chksum False (take hlen (drop 14 x)) \<noteq> 0
      then free_pbuf p (with_pbuf p f x 14 len s)
      else ip_addressed env p inp (p, 14) hlen (with_pbuf p f x 14 (unat k)
             (s\<lparr>cur_dest := of_le32 (take 4 (drop 30 x)), cur_src := of_le32 (take 4 (drop 26 x))\<rparr>)))"
proof -
  let ?t = "with_pbuf p f x 14 len s"
  have b: "length x = 1516" "14 + len \<le> 1514" using assms(1) by (simp_all add: packet_at_def)
  have h: "hlen \<le> 60" unfolding assms(2) by (rule ihl_bound)
  have l: "unat (of_nat len :: u16) = len" using b(2) by (intro unat16_of_nat) simp
  have v: "ip_field (p, 14) 0 1 ?t = Some [x ! 14]" "ip_field (p, 14) 2 2 ?t = Some (take 2 (drop 16 x))"
    "ip_field (p, 14) 0 hlen ?t = Some (take hlen (drop 14 x))"
    using b(1) byte_at [of 14 x] h by (simp_all add: at_field)
  have w: "ip_field (p, 14) 16 4 (with_pbuf p f x 14 j s) = Some (take 4 (drop 30 x))"
    "ip_field (p, 14) 12 4 (with_pbuf p f x 14 j s) = Some (take 4 (drop 26 x))" for j
    using b(1) by (simp_all add: at_field)
  have r: "do_bufs (pbuf_realloc p k) ?t = Some (with_pbuf p f x 14 (unat k) s)" if "unat k \<le> len"
    by (rule do_with_pbuf) (use one_pbuf_realloc [OF that] b(2) in simp)
  have lt: "k > of_nat len \<longleftrightarrow> len < unat k" by (simp add: word_less_nat_alt l)
  show ?thesis
    unfolding ip_input_def at_heap bind.bind_lunit Let_def pbuf.simps v list.sel assms(2) [symmetric] assms(3) [symmetric] lt l
    using r w by (auto simp: not_less)
qed

lemma ip_input_step:
  assumes "packet_at slots H p f x 14 len s" "env_ok slots env" "netifs s inp = Some n" "mtu_ok s"
    and "5 \<le> x ! 14 AND 0x0F" "22 \<le> 14 + len \<longrightarrow> \<not> is_fragment (take 2 (drop 20 x))"
  shows "freed slots H p (with_pbuf p f x 14 len s) (ip_input env p inp (with_pbuf p f x 14 len s))"
proof -
  define hlen where "hlen = unat (x ! 14 AND 0x0F) * 4"
  define k where "k = htons (of_le16 (take 2 (drop 16 x)))"
  have h: "20 \<le> hlen" "hlen \<le> 60" using assms(5) ihl_bound [of "x ! 14"] by (simp_all add: hlen_def word_le_nat_alt)
  have b: "length x = 1516" "14 + len \<le> 1514" using assms(1) by (auto simp: packet_at_def)
  note e = ip_input_eq [OF assms(1) hlen_def k_def]
  show ?thesis
  proof (cases "drop_bit 4 (x ! 14) \<noteq> 4 \<or> len < hlen \<or> len < unat k \<or> inet_chksum False (take hlen (drop 14 x)) \<noteq> 0")
    case True
    then show ?thesis unfolding e using packet_at_free [OF assms(1)] by simp
  next
    case False
    let ?s = "s\<lparr>cur_dest := of_le32 (take 4 (drop 30 x)), cur_src := of_le32 (take 4 (drop 26 x))\<rparr>"
    from False have "14 + unat k \<le> 1514" using b(2) by simp
    note mv = packet_at_move [OF assms(1) b(1) this]
    have "freed slots H p (with_pbuf p f x 14 (unat k) ?s) (ip_addressed env p inp (p, 14) hlen (with_pbuf p f x 14 (unat k) ?s))"
      by (rule ip_addressed_step [of _ _ _ _ _ _ _ _ _ n]) (use mv(1) assms(2-6) h False in simp_all)
    then show ?thesis unfolding e using False freed_then [OF mv(2)] by (simp add: freed_with_fields)
  qed
qed

section \<open>Frames\<close>

lemma new_packet_bufs: "new_packet layer d s = Some (r, s1) \<Longrightarrow> \<exists>m. s1 = s\<lparr>ebufs := m\<rparr>"
  by (auto simp: new_packet_def on_bufs_def do_bufs_def split: option.splits bind_splits)

lemma hdr_field_take: "off + n \<le> k \<Longrightarrow> hdr_field (take k d) off n = hdr_field d off n"
  by (simp add: hdr_field_def drop_take)

text \<open>A frame that holds an IP packet: \<open>ip_input\<close> is called on it in one buffer, behind the header.\<close>

lemma frame_in_ip:
  fixes s :: "'a eth_scheme"
  assumes "eth_ok slots H s" "pool (ebufs s) \<noteq> []" "netifs s netif = Some n" "nif_flags n AND NETIF_FLAG_ETHARP \<noteq> 0"
    and "14 < length d" "length d \<le> 1514" "of_le16 (hdr_field d 12 2) = htons ETHTYPE_IP"
  shows "\<exists>p f x m. frame_in input netif d s = input p netif (with_pbuf p f x 14 (length d - 14) (s\<lparr>ebufs := m\<rparr>))
     \<and> packet_at slots (insert p H) p f x 14 (length d - 14) (s\<lparr>ebufs := m\<rparr>) \<and> p \<notin> H \<and> take (length d) x = d
     \<and> arp_step slots H (insert p H) s (with_pbuf p f x 14 (length d - 14) (s\<lparr>ebufs := m\<rparr>))"
  using assms(1,6)
proof (cases rule: received_frame)
  case dropped
  then show ?thesis using assms(2) by simp
next
  case (taken p s1 b)
  from new_packet_bufs [OF taken(1)] obtain m1 where s1: "s1 = s\<lparr>ebufs := m1\<rparr>" by blast
  note d1 = arp_stepD [OF taken(2)]
  have o: "owned m1 p [p]" and hb: "heap m1 p = Some b" using taken(7,9) s1 by (simp_all add: received_in_def)
  have po: "pool_ok slots m1" using d1(1) s1 by (simp add: eth_ok_def arp_inv_def)
  have "LWIP_MEM_ALIGN_SIZE (layer_offset PBUF_RAW) + length d \<le> 1516" using assms(6) by (simp add: layer_offsets)
  from new_packet_step [OF assms(1) this] taken(1,9) have bt: "p_type b = PBUF_POOL" "p_payload b = 0" by (auto simp: layer_offsets)
  have "p \<in> slots" using po hb bt(1) by (auto simp: pool_ok_def of_type_def)
  then have lb: "length (blk m1 p) = 1516" using po by (simp add: pool_ok_def PBUF_POOL_BUFSIZE_ALIGNED_def)
  note op = one_pbuf_of [OF o hb bt(1)]
  let ?x = "blk m1 p" and ?l = "length d"
  have wp: "s1 = with_pbuf p (p_flags b) ?x 0 ?l s1"
    using op(1) bt(2) taken(10) s1 by (simp add: with_pbuf_def)
  have dx: "take ?l ?x = d" using op(4) taken(8,10) bt(2) s1 by simp
  have pa: "packet_at slots (insert p H) p (p_flags b) ?x 0 ?l s1"
    using d1(1) wp op(2) lb assms(6) by (simp add: packet_at_def)
  let ?f = "p_flags b OR ll_flags (hdr_field (take 14 d) 0 6)"
  let ?t = "with_pbuf p ?f ?x 14 (?l - 14) s1"
  have nc: "?f AND PBUF_FLAG_IS_CUSTOM = 0" using op(2) ll_flags_custom by (simp add: bit.conj_disj_distrib2)
  have up: "do_bufs (upd p (\<lambda>b. b\<lparr>p_flags := p_flags b OR ll_flags (hdr_field (take 14 d) 0 6)\<rparr>)) s1 = Some (with_pbuf p ?f ?x 0 ?l s1)"
    by (subst wp, rule do_with_pbuf) (simp add: upd_def, simp add: one_pbuf_def)
  have hd: "on_bufs (pbuf_header (Some p) (- int SIZEOF_ETH_HDR)) (with_pbuf p ?f ?x 0 ?l s1) = Some (0, ?t)"
    using at_header_down [of 14 ?l p ?f ?x 0 s1] assms(5,6) by (simp add: SIZEOF_ETH_HDR_def)
  have rd: "payload_read p 0 14 (ebufs s1) = Some (take 14 d)"
  proof -
    have "take 14 ?x = take 14 d" using dx assms(5) by (metis less_imp_le_nat min.absorb1 take_take)
    then show ?thesis using at_read [of 0 0 14 ?x p "p_flags b" ?l s1] lb wp by simp
  qed
  have pl: "unat (p_len b) = ?l" "\<not> ?l \<le> 14" using taken(10) assms(5) by simp_all
  have ty: "of_le16 (hdr_field (take 14 d) 12 2) = htons ETHTYPE_IP" using assms(7) by (simp add: hdr_field_take)
  have n1: "netifs s1 netif = Some n" using assms(3) s1 by simp
  have "ethernet_input input p netif s1 = do { s \<leftarrow> input p netif ?t; Some (ERR_OK, s) }"
    unfolding ethernet_input_def using taken(9) pl rd n1 up hd ty assms(4) by (simp add: SIZEOF_ETH_HDR_def)
  then have "frame_in input netif d s = input p netif ?t"
    using taken(1) by (cases "input p netif ?t") (simp_all add: frame_in_def)
  moreover have "arp_inv slots (insert p H) (one_pbuf p ?f ?x 14 (?l - 14) (ebufs s1)) (arp_table s1)"
  proof -
    have ol: "outgoing (ebufs s1) (insert p H) p []" by (subst wp, subst with_pbuf_sels, rule one_pbuf_outgoing) (use lb assms(6) op(2) in simp_all)
    from set_flags_step [OF d1(1) taken(7,9) ll_flags_custom, of "hdr_field (take 14 d) 0 6"] up have
      "eth_ok slots (insert p H) (with_pbuf p ?f ?x 0 ?l s1)" by (auto dest: arp_stepD)
    then have "packet_at slots (insert p H) p ?f ?x 0 ?l s1" using nc lb assms(6) by (simp add: packet_at_def)
    from packet_at_move(1) [OF this lb, of 14 "?l - 14"] assms(6) show ?thesis by (simp add: packet_at_def eth_ok_def)
  qed
  then have pt: "packet_at slots (insert p H) p ?f ?x 14 (?l - 14) s1"
    using d1(1) nc lb assms(5,6) by (simp add: packet_at_def eth_ok_def)
  moreover have "arp_step slots H (insert p H) s ?t"
  proof -
    have "keeps (H \<inter> insert p H) (ebufs s1) (ebufs ?t)" using taken(3) by (auto simp: keeps_def one_pbuf_def)
    then show ?thesis using taken(2) pt by (auto simp: arp_step_def packet_at_def intro: keeps_trans)
  qed
  ultimately show ?thesis using taken(3) dx s1 by blast
qed

text \<open>Other frames never reach \<open>ip_input\<close>.\<close>

lemma ethernet_input_other:
  assumes "received_in (ebufs s) H p []" "d = chain_data (ebufs s) [p]"
    and "14 < length d \<longrightarrow> of_le16 (hdr_field d 12 2) = htons ETHTYPE_IP \<longrightarrow> (\<exists>n. netifs s netif = Some n \<and> nif_flags n AND NETIF_FLAG_ETHARP = 0)"
  shows "ethernet_input f p netif s = ethernet_input g p netif s"
proof -
  have o: "owned (ebufs s) p [p]" using assms(1) by (simp add: received_in_def)
  then obtain b where b: "heap (ebufs s) p = Some b" "unat (p_len b) = length d"
    using assms(2) by (auto simp: owned_def exclusive_def buf_data_length split: option.splits)
  show ?thesis
  proof (cases "length d \<le> 14")
    case True
    then show ?thesis using b by (simp add: ethernet_input_def SIZEOF_ETH_HDR_def)
  next
    case False
    then have "payload_read p 0 14 (ebufs s) = Some (take 14 d)" using payload_read_chain(1) [OF o b(1), of 14] b(2) assms(2) by simp
    then have e: "ethernet_input h p netif s = do {
         n \<leftarrow> netifs s netif;
         s \<leftarrow> do_bufs (upd p (\<lambda>b. b\<lparr>p_flags := p_flags b OR ll_flags (hdr_field d 0 6)\<rparr>)) s;
         s \<leftarrow> (if of_le16 (hdr_field d 12 2) = htons ETHTYPE_IP then
           (if nif_flags n AND NETIF_FLAG_ETHARP = 0 then free_pbuf p s
            else do { (r, s) \<leftarrow> on_bufs (pbuf_header (Some p) (- int SIZEOF_ETH_HDR)) s; if r \<noteq> 0 then free_pbuf p s else h p netif s })
          else if of_le16 (hdr_field d 12 2) = htons ETHTYPE_ARP then
           (if nif_flags n AND NETIF_FLAG_ETHARP = 0 then free_pbuf p s else etharp_arp_input netif (nif_hwaddr n) p s)
          else free_pbuf p s);
         Some (ERR_OK, s) }" for h
      using False b by (simp add: ethernet_input_def SIZEOF_ETH_HDR_def hdr_field_take cong: if_cong)
    show ?thesis
    proof (cases "of_le16 (hdr_field d 12 2) = htons ETHTYPE_IP")
      case True
      with assms(3) False obtain n where "netifs s netif = Some n" "nif_flags n AND NETIF_FLAG_ETHARP = 0" by auto
      then show ?thesis using True by (simp add: e)
    qed (simp add: e)
  qed
qed

text \<open>
  The frames the theorems are about: if it is an IP packet its header is at least 20 bytes long and it is not a fragment.
\<close>

definition frame_sane :: "bytes \<Rightarrow> bool" where
  "frame_sane d \<longleftrightarrow> (14 < length d \<longrightarrow> of_le16 (hdr_field d 12 2) = htons ETHTYPE_IP \<longrightarrow>
     5 \<le> d ! 14 AND 0x0F \<and> (22 \<le> length d \<longrightarrow> \<not> is_fragment (hdr_field d 20 2)))"

lemma frame_in_ip_step:
  fixes s :: "'b ip4_scheme"
  assumes "eth_ok slots H s" "netifs s netif = Some n" "length d \<le> 1514" "env_ok slots env" "mtu_ok s" "frame_sane d"
  shows "\<exists>s'. frame_in (ip_input env) netif d s = Some s' \<and> arp_step slots H H s s'"
proof (cases "pool (ebufs s) \<noteq> [] \<and> 14 < length d \<and> of_le16 (hdr_field d 12 2) = htons ETHTYPE_IP \<and> nif_flags n AND NETIF_FLAG_ETHARP \<noteq> 0")
  case True
  with frame_in_ip [OF assms(1) _ assms(2) _ _ assms(3), of "ip_input env"] obtain p f x m where
    p: "frame_in (ip_input env) netif d s = ip_input env p netif (with_pbuf p f x 14 (length d - 14) (s\<lparr>ebufs := m\<rparr>))"
      "packet_at slots (insert p H) p f x 14 (length d - 14) (s\<lparr>ebufs := m\<rparr>)" "p \<notin> H" "take (length d) x = d"
      "arp_step slots H (insert p H) s (with_pbuf p f x 14 (length d - 14) (s\<lparr>ebufs := m\<rparr>))" by blast
  have x: "x ! 14 = d ! 14" using p(4) True by (metis nth_take)
  have y: "take 2 (drop 20 x) = hdr_field d 20 2" if "22 \<le> length d"
  proof -
    have "hdr_field (take (length d) x) 20 2 = hdr_field x 20 2" using that by (simp add: hdr_field_take)
    then show ?thesis by (simp add: p(4) hdr_field_def)
  qed
  have "freed slots (insert p H) p (with_pbuf p f x 14 (length d - 14) (s\<lparr>ebufs := m\<rparr>))
      (ip_input env p netif (with_pbuf p f x 14 (length d - 14) (s\<lparr>ebufs := m\<rparr>)))"
    by (rule ip_input_step [OF p(2) assms(4), of netif n])
      (use assms(2,5,6) True x y in \<open>auto simp: frame_sane_def mtu_ok_def\<close>)
  then obtain s' where "ip_input env p netif (with_pbuf p f x 14 (length d - 14) (s\<lparr>ebufs := m\<rparr>)) = Some s'"
    "arp_step slots (insert p H - {p}) (insert p H - {p}) (with_pbuf p f x 14 (length d - 14) (s\<lparr>ebufs := m\<rparr>)) s'" by (auto simp: freed_def)
  then show ?thesis using p(1) arp_step_inner [OF p(5) _ p(3)] by auto
next
  case False
  have "frame_in (ip_input env) netif d s = frame_in (\<lambda>p netif. free_pbuf p) netif d s"
    using assms(1,3)
  proof (cases rule: received_frame)
    case (dropped s1)
    then show ?thesis by (simp add: frame_in_def)
  next
    case (taken p s1 b)
    have "netifs s1 netif = Some n" using arp_stepD(3) [OF taken(2)] assms(2) by simp
    moreover have "pool (ebufs s) \<noteq> []"
    proof
      assume "pool (ebufs s) = []"
      then show False using taken(1) pbuf_alloc_empty [of "ebufs s" PBUF_RAW "of_nat (length d)"] by (simp add: new_packet_def on_bufs_def)
    qed
    ultimately have "ethernet_input (ip_input env) p netif s1 = ethernet_input (\<lambda>p netif. free_pbuf p) p netif s1"
      using False taken(8) by (intro ethernet_input_other [OF taken(7) refl]) auto
    then show ?thesis using taken(1) by (simp add: frame_in_def)
  qed
  then show ?thesis using frame_in_step [OF assms(1-3) consumes_free] by simp
qed

end
