(* ===== verification/Icmp_Echo.thy ===== *)
theory Icmp_Echo
  imports Ip_Run Arp_Traffic
begin

text \<open>
  The bytes of an echo reply, and where it goes.
\<close>

section \<open>The bytes of a reply\<close>

text \<open>An IP header, its addresses and checksum as they are in memory; options follow it.\<close>

definition ip4_hdr :: "u8 \<Rightarrow> u8 \<Rightarrow> u16 \<Rightarrow> u16 \<Rightarrow> u16 \<Rightarrow> u8 \<Rightarrow> u8 \<Rightarrow> u16 \<Rightarrow> u32 \<Rightarrow> u32 \<Rightarrow> bytes" where
  "ip4_hdr vhl tos len ident off ttl proto chk src dest =
     [vhl, tos] @ be16 len @ be16 ident @ be16 off @ [ttl, proto] @ le16 chk @ le32 src @ le32 dest"

lemma ip4_hdr_length [simp]: "length (ip4_hdr vhl tos len ident off ttl proto chk src dest) = 20"
  by (simp add: ip4_hdr_def be16_def)

definition icmp_msg :: "u8 \<Rightarrow> u8 \<Rightarrow> u16 \<Rightarrow> bytes \<Rightarrow> bytes" where
  "icmp_msg type code chk rest = [type, code] @ le16 chk @ rest"

lemma icmp_msg_length [simp]: "length (icmp_msg type code chk rest) = 4 + length rest"
  by (simp add: icmp_msg_def)

lemma overwrite_at: "length a = off \<Longrightarrow> length b = length w \<Longrightarrow> overwrite off w (a @ b @ c) = a @ w @ c"
  by (simp add: overwrite_def)

lemma take_at: "length a = off \<Longrightarrow> length b = n \<Longrightarrow> take n (drop off (a @ b @ c)) = b"
  by simp

lemma be16_length [simp]: "length (be16 w) = 2"
  by (simp add: be16_def)

lemma reply_blk_bytes:
  assumes "length pre = 14" "hlen = 20 + length opts"
  shows "reply_blk hlen a b (pre @ ip4_hdr vhl tos len ident off ttl proto chk src dest @ opts @ icmp_msg type code c rest @ post)
     = pre @ ip4_hdr vhl tos len ident off ICMP_TTL proto (inet_chksum False (ip4_hdr vhl tos len ident off ICMP_TTL proto 0 a b)) a b
         @ opts @ icmp_msg ICMP_ER code (echo_chksum c) rest @ post"
proof -
  define A where "A = pre @ [vhl, tos] @ be16 len @ be16 ident @ be16 off"
  have A: "length A = 22" using assms(1) by (simp add: A_def)
  let ?X = "\<lambda>t k s d y z. A @ [t, proto] @ k @ le32 s @ le32 d @ opts @ [y, code] @ z @ rest @ post"
  have x0: "pre @ ip4_hdr vhl tos len ident off ttl proto chk src dest @ opts @ icmp_msg type code c rest @ post = ?X ttl (le16 chk) src dest type (le16 c)"
    by (simp add: A_def ip4_hdr_def icmp_msg_def)
  have s1: "overwrite 26 (le32 a) (?X ttl (le16 chk) src dest type (le16 c)) = ?X ttl (le16 chk) a dest type (le16 c)"
    using overwrite_at [of "A @ [ttl, proto] @ le16 chk" 26 "le32 src" "le32 a"] A by simp
  have s2: "overwrite 30 (le32 b) (?X ttl (le16 chk) a dest type (le16 c)) = ?X ttl (le16 chk) a b type (le16 c)"
    using overwrite_at [of "A @ [ttl, proto] @ le16 chk @ le32 a" 30 "le32 dest" "le32 b"] A by simp
  have s3: "overwrite (14 + hlen) [ICMP_ER] (?X ttl (le16 chk) a b type (le16 c)) = ?X ttl (le16 chk) a b ICMP_ER (le16 c)"
    using overwrite_at [of "A @ [ttl, proto] @ le16 chk @ le32 a @ le32 b @ opts" "14 + hlen" "[type]" "[ICMP_ER]"] A assms(2) by simp
  have r: "take 2 (drop (14 + hlen + 2) (?X ttl (le16 chk) a b ICMP_ER (le16 c))) = le16 c"
    using take_at [of "A @ [ttl, proto] @ le16 chk @ le32 a @ le32 b @ opts @ [ICMP_ER, code]" "14 + hlen + 2" "le16 c" 2] A assms(2) by simp
  have s4: "overwrite (14 + hlen + 2) w (?X ttl (le16 chk) a b ICMP_ER (le16 c)) = ?X ttl (le16 chk) a b ICMP_ER w" if "length w = 2" for w
    using overwrite_at [of "A @ [ttl, proto] @ le16 chk @ le32 a @ le32 b @ opts @ [ICMP_ER, code]" "14 + hlen + 2" "le16 c" w] A assms(2) that by simp
  have s5: "overwrite 22 [ICMP_TTL] (?X ttl (le16 chk) a b ICMP_ER w) = ?X ICMP_TTL (le16 chk) a b ICMP_ER w" for w
    using overwrite_at [of A 22 "[ttl]" "[ICMP_TTL]"] A by simp
  have s6: "overwrite 24 v (?X ICMP_TTL u a b ICMP_ER w) = ?X ICMP_TTL v a b ICMP_ER w" if "length u = 2" "length v = 2" for u v w
    using overwrite_at [of "A @ [ICMP_TTL, proto]" 24 u v] A that by simp
  have h: "take 20 (drop 14 (?X ICMP_TTL [0, 0] a b ICMP_ER w)) = ip4_hdr vhl tos len ident off ICMP_TTL proto 0 a b" for w
  proof -
    have "le16 0 = [0, 0]" by (simp add: le16_def)
    then have e: "?X ICMP_TTL [0, 0] a b ICMP_ER w = pre @ ip4_hdr vhl tos len ident off ICMP_TTL proto 0 a b @ (opts @ [ICMP_ER, code] @ w @ rest @ post)"
      by (simp add: A_def ip4_hdr_def)
    show ?thesis unfolding e by (rule take_at [OF assms(1) ip4_hdr_length])
  qed
  have z: "length [0, 0 :: u8] = 2" by simp
  have "reply_blk hlen a b (?X ttl (le16 chk) src dest type (le16 c))
      = ?X ICMP_TTL (le16 (inet_chksum False (ip4_hdr vhl tos len ident off ICMP_TTL proto 0 a b))) a b ICMP_ER (le16 (echo_chksum c))"
    unfolding reply_blk_def Let_def s1 s2 s3 r le16.dec_enc s4 [OF le16.enc_length] s5
      s6 [OF le16.enc_length z] h s6 [OF z le16.enc_length] by (rule refl)
  then show ?thesis unfolding x0 by (simp add: A_def ip4_hdr_def icmp_msg_def)
qed

section \<open>Output to a known host\<close>

lemma not_unicastD:
  "\<not> not_unicast ip n \<Longrightarrow> \<not> ip_addr_isany ip \<and> \<not> ip4_addr_isbroadcast ip (netif.truncate n) \<and> \<not> ip_addr_ismulticast ip"
  by (simp add: not_unicast_def)

lemma etharp_output_known:
  assumes "eth_ok slots H s" "netifs s netif = Some n" "outgoing (ebufs s) H q []" "header_room (ebufs s) q" "neighbour n ip" "known s ip = Some mac"
  shows "\<exists>r s' fs. etharp_output netif q ip s = Some (r, s') \<and> arp_step slots (H - {q}) H s s' \<and> owned (ebufs s') q [q]
     \<and> (fs = [] \<or> fs = [arp_ask netif n ip]) \<and> frames s' = frames s @ fs @ [(netif, eth_frame mac (nif_hwaddr n) (chain_data (ebufs s) [q]))]"
proof -
  from output_header [OF assms(1,3,4)] obtain m h where
    m: "on_bufs (pbuf_header (Some q) (int SIZEOF_ETH_HDR)) s = Some (0, s\<lparr>ebufs := m\<rparr>)" "arp_step slots (H - {q}) H s (s\<lparr>ebufs := m\<rparr>)"
      "framed m H q []" "length h = 14" "chain_data m [q] = h @ chain_data (ebufs s) [q]" by blast
  let ?s = "s\<lparr>ebufs := m\<rparr>"
  have ne: "\<not> ip4_addr_isbroadcast ip (netif.truncate n)" "\<not> ip_addr_ismulticast ip" "ip_addr_netcmp ip (nif_ip n) (nif_mask n)"
    using assms(5) not_unicastD by (auto simp: neighbour_def)
  from assms(6) obtain k where k: "List.find (stable_for ip s) [0..<ARP_TABLE_SIZE] = Some k" "ae_ethaddr (entry k s) = mac"
    by (auto simp: known_def)
  have sf: "stable_for ip (?s\<lparr>etharp_cached_entry := j\<rparr>) = stable_for ip s" "stable_for ip ?s = stable_for ip s" for j
    by (simp_all add: stable_for_def fun_eq_iff)
  have c: "etharp_cached_entry s < ARP_TABLE_SIZE" using assms(1) by (simp add: eth_ok_def)
  have "\<exists>i s1. etharp_output netif q ip s = etharp_output_to_arp_index netif q i s1 \<and> (s1 = ?s \<or> s1 = ?s\<lparr>etharp_cached_entry := i\<rparr>)
      \<and> i < ARP_TABLE_SIZE \<and> stable_for ip s i"
  proof (cases "stable_for ip s (etharp_cached_entry s)")
    case True
    then show ?thesis using m(1) assms(2) ne c sf by (auto simp: etharp_output_def)
  next
    case False
    then show ?thesis using m(1) assms(2) ne k(1) sf find_stable(1) [OF k(1)] by (auto simp: etharp_output_def)
  qed
  then obtain i s1 where i: "etharp_output netif q ip s = etharp_output_to_arp_index netif q i s1" "s1 = ?s \<or> s1 = ?s\<lparr>etharp_cached_entry := i\<rparr>"
      "i < ARP_TABLE_SIZE" "stable_for ip s i" by blast
  have e: "ae_ethaddr (entry i s1) = mac" "ae_ipaddr (entry i s1) = ip"
  proof -
    have "known s ip = Some (ae_ethaddr (entry i s))" by (rule known_at [OF assms(1) i(3)]) (use i(4) in \<open>simp_all add: stable_for_def\<close>)
    then show "ae_ethaddr (entry i s1) = mac" "ae_ipaddr (entry i s1) = ip"
      using assms(6) i(2,4) by (auto simp: entry_def stable_for_def)
  qed
  have s1: "eth_ok slots H s1" "netifs s1 netif = Some n" "framed (ebufs s1) H q []" "ETHARP_STATE_STABLE \<le> ae_state (entry i s1)"
    "frames s1 = frames s" "ebufs s1 = m"
    using i arp_stepD(1) [OF m(2)] m(3) assms(2) by (auto simp: eth_ok_def stable_for_def entry_def)
  from etharp_output_to_arp_index_step [OF s1(1-3) i(3) s1(4)] obtain r s' fs where
    s': "etharp_output_to_arp_index netif q i s1 = Some (r, s')" "arp_step slots (H - {q}) H s1 s'" "owned (ebufs s') q [q]"
      "fs = [] \<or> fs = [arp_ask netif n (ae_ipaddr (entry i s1))]"
      "frames s' = frames s1 @ fs @ [(netif, eth_frame (ae_ethaddr (entry i s1)) (nif_hwaddr n) (drop 14 (chain_data (ebufs s1) [q])))]" by blast
  have "arp_step slots (H - {q}) H ?s s'" using s'(2) i(2) by (auto simp: arp_step_def)
  then have "arp_step slots (H - {q}) H s s'" using m(2) by (auto simp: arp_step_def intro: keeps_trans)
  moreover have "drop 14 (chain_data (ebufs s1) [q]) = chain_data (ebufs s) [q]" using m(4,5) s1(6) by (simp del: chain_data_simps)
  ultimately show ?thesis using i(1) s'(1,3-5) e s1(5) by (intro exI [of _ r] exI [of _ s'] exI [of _ fs]) (simp del: chain_data_simps)
qed

section \<open>The checksum of the reply\<close>

lemma echo_chksum_cases: "echo_chksum c = (if c \<ge> 0xFFF7 then c + 9 else c + 8)"
proof -
  have e: "htons (push_bit 8 (ucast ICMP_ECHO)) = 8" "htons (0xFFFF - push_bit 8 (ucast ICMP_ECHO)) = 0xFFF7"
    by (simp_all add: htons_def ICMP_ECHO_def)
  show ?thesis unfolding echo_chksum_def e by simp
qed

lemma le_sum_icmp: "le_sum (icmp_msg type code c rest) = unat type + 256 * unat code + unat c + le_sum rest"
  by (simp add: icmp_msg_def le_sum_append_even le_sum_le16)

lemma norm16_ones: "norm16 n = 65535 \<longleftrightarrow> 0 < n \<and> n mod 65535 = 0"
proof
  assume a: "norm16 n = 65535"
  then have "n \<noteq> 0" using norm16_eq_0 [of n] by auto
  moreover have "n mod 65535 = 0" using norm16_cong [of n] a by simp
  ultimately show "0 < n \<and> n mod 65535 = 0" by simp
next
  assume "0 < n \<and> n mod 65535 = 0"
  then show "norm16 n = 65535" by (intro norm16_unique [symmetric]) simp_all
qed

lemma echo_reply_sum:
  assumes "inet_chksum b (icmp_msg ICMP_ECHO code c rest) = 0" "length rest \<le> 65536"
  shows "inet_chksum b' (icmp_msg ICMP_ER code (echo_chksum c) rest) = 0 \<longleftrightarrow> \<not> (code = 0 \<and> (\<forall>x \<in> set rest. x = 0))"
proof -
  define R where "R = 256 * unat code + le_sum rest"
  have bd: "length (icmp_msg t code k rest) \<le> 131072" for t k using assms(2) by simp
  have q: "8 + unat c + R > 0" "(8 + unat c + R) mod 65535 = 0"
    using assms(1) inet_chksum_zero [OF bd, of b ICMP_ECHO c] norm16_ones
    by (simp_all add: le_sum_icmp R_def ICMP_ECHO_def add.assoc add.left_commute)
  have r: "inet_chksum b' (icmp_msg ICMP_ER code (echo_chksum c) rest) = 0 \<longleftrightarrow> 0 < unat (echo_chksum c) + R \<and> (unat (echo_chksum c) + R) mod 65535 = 0"
    using inet_chksum_zero [OF bd, of b' ICMP_ER "echo_chksum c"] norm16_ones
    by (simp add: le_sum_icmp R_def ICMP_ER_def add.assoc add.left_commute)
  have z: "R = 0 \<longleftrightarrow> code = 0 \<and> (\<forall>x \<in> set rest. x = 0)" by (simp add: R_def le_sum_eq_0 unat_eq_zero)
  have c: "unat c < 65536" using unsigned_less [of c, where 'a = nat] by simp
  show ?thesis
  proof (cases "c \<ge> 0xFFF7")
    case True
    then have c1: "65527 \<le> unat c" by (simp add: word_le_nat_alt)
    have e: "unat (echo_chksum c) = unat c + 9 - 65536"
    proof -
      have "unat (c + 9) = (unat c + 9) mod 65536" by (simp add: unat_word_ariths)
      also have "\<dots> = unat c + 9 - 65536" using c c1 by (simp add: mod_if)
      finally show ?thesis using True by (simp add: echo_chksum_cases)
    qed
    have "8 + unat c + R = unat (echo_chksum c) + R + 65535" using e c1 by linarith
    then have m: "(unat (echo_chksum c) + R) mod 65535 = 0" using q(2) mod_add_self2 [of "unat (echo_chksum c) + R" 65535] by metis
    have "unat (echo_chksum c) + R = 0 \<longleftrightarrow> R = 0"
    proof
      assume R: "R = 0"
      have "unat (echo_chksum c) < 65535" using e c by linarith
      then show "unat (echo_chksum c) + R = 0" using m R by simp
    qed simp
    then show ?thesis using r m z by auto
  next
    case False
    then have c1: "unat c < 65527" by (simp add: word_le_nat_alt)
    have e: "unat (echo_chksum c) = unat c + 8"
    proof -
      have "unat (c + 8) = (unat c + 8) mod 65536" by (simp add: unat_word_ariths)
      then show ?thesis using False c1 by (simp add: echo_chksum_cases)
    qed
    have "R \<noteq> 0"
    proof
      assume "R = 0"
      then show False using q c1 by simp
    qed
    moreover have "0 < unat (echo_chksum c) + R \<and> (unat (echo_chksum c) + R) mod 65535 = 0" using q e by (simp add: add.commute add.left_commute)
    ultimately show ?thesis using r z by simp
  qed
qed

section \<open>An echo request\<close>

definition ip4_packet :: "u8 \<Rightarrow> u8 \<Rightarrow> u16 \<Rightarrow> u16 \<Rightarrow> u8 \<Rightarrow> u16 \<Rightarrow> u32 \<Rightarrow> u32 \<Rightarrow> bytes \<Rightarrow> bytes \<Rightarrow> bytes" where
  "ip4_packet proto tos ident off ttl chk src dest opts d =
     ip4_hdr (0x40 OR of_nat (5 + length opts div 4)) tos (of_nat (20 + length opts + length d)) ident off ttl proto chk src dest @ opts @ d"

lemma ip4_packet_length [simp]: "length (ip4_packet proto tos ident off ttl chk src dest opts d) = 20 + length opts + length d"
  by (simp add: ip4_packet_def)

definition opts_ok :: "bytes \<Rightarrow> bool" where
  "opts_ok opts \<longleftrightarrow> length opts \<le> 40 \<and> 4 dvd length opts"

lemma v_hl_cases:
  assumes "opts_ok opts"
  shows "drop_bit 4 (0x40 OR of_nat (5 + length opts div 4) :: u8) = 4" "unat ((0x40 OR of_nat (5 + length opts div 4) :: u8) AND 0x0F) * 4 = 20 + length opts"
    "5 \<le> (0x40 OR of_nat (5 + length opts div 4) :: u8) AND 0x0F"
proof -
  define j where "j = 5 + length opts div 4"
  have l: "j * 4 = 20 + length opts" using assms by (auto simp: opts_ok_def j_def)
  have "length opts div 4 \<le> 10" using assms div_le_mono [of "length opts" 40 4] by (simp add: opts_ok_def)
  then have "5 \<le> j" "j \<le> 15" by (simp_all add: j_def)
  then have "j = 5 \<or> j = 6 \<or> j = 7 \<or> j = 8 \<or> j = 9 \<or> j = 10 \<or> j = 11 \<or> j = 12 \<or> j = 13 \<or> j = 14 \<or> j = 15" by presburger
  then have "drop_bit 4 (0x40 OR of_nat j :: u8) = 4 \<and> unat ((0x40 OR of_nat j :: u8) AND 0x0F) = j \<and> 5 \<le> (0x40 OR of_nat j :: u8) AND 0x0F" by auto
  then show "drop_bit 4 (0x40 OR of_nat (5 + length opts div 4) :: u8) = 4" "unat ((0x40 OR of_nat (5 + length opts div 4) :: u8) AND 0x0F) * 4 = 20 + length opts"
    "5 \<le> (0x40 OR of_nat (5 + length opts div 4) :: u8) AND 0x0F"
    using l unfolding j_def by auto
qed

text \<open>The fields of a packet behind an Ethernet header.\<close>

lemma packet_fields:
  assumes "length pre = 14" "x = pre @ ip4_packet proto tos ident off ttl chk src dest opts d @ post"
  shows "x ! 14 = 0x40 OR of_nat (5 + length opts div 4)" "take 2 (drop 16 x) = be16 (of_nat (20 + length opts + length d))"
    "take 2 (drop 20 x) = be16 off" "x ! 23 = proto" "take 4 (drop 26 x) = le32 src" "take 4 (drop 30 x) = le32 dest"
    "take (20 + length opts) (drop 14 x) = take (20 + length opts) (ip4_packet proto tos ident off ttl chk src dest opts d)"
    "take (length d) (drop (14 + (20 + length opts)) x) = d" "d \<noteq> [] \<Longrightarrow> x ! (14 + (20 + length opts)) = hd d"
proof -
  let ?v = "0x40 OR of_nat (5 + length opts div 4)" and ?l = "of_nat (20 + length opts + length d)"
  have x: "x = pre @ [?v, tos] @ be16 ?l @ be16 ident @ be16 off @ [ttl, proto] @ le16 chk @ le32 src @ le32 dest @ opts @ d @ post"
    by (simp add: assms(2) ip4_packet_def ip4_hdr_def)
  show "x ! 14 = ?v" using assms(1) by (simp add: x nth_append)
  show "x ! 23 = proto" using assms(1) by (simp add: x nth_append)
  show "take 2 (drop 16 x) = be16 ?l" using take_at [of "pre @ [?v, tos]" 16 "be16 ?l" 2] assms(1) by (simp add: x)
  show "take 2 (drop 20 x) = be16 off" using take_at [of "pre @ [?v, tos] @ be16 ?l @ be16 ident" 20 "be16 off" 2] assms(1) by (simp add: x)
  show "take 4 (drop 26 x) = le32 src"
    using take_at [of "pre @ [?v, tos] @ be16 ?l @ be16 ident @ be16 off @ [ttl, proto] @ le16 chk" 26 "le32 src" 4] assms(1) by (simp add: x)
  show "take 4 (drop 30 x) = le32 dest"
    using take_at [of "pre @ [?v, tos] @ be16 ?l @ be16 ident @ be16 off @ [ttl, proto] @ le16 chk @ le32 src" 30 "le32 dest" 4] assms(1) by (simp add: x)
  show "take (20 + length opts) (drop 14 x) = take (20 + length opts) (ip4_packet proto tos ident off ttl chk src dest opts d)"
    using assms by simp
  have e: "x = (pre @ ip4_hdr ?v tos ?l ident off ttl proto chk src dest @ opts) @ d @ post" by (simp add: assms(2) ip4_packet_def)
  show "take (length d) (drop (14 + (20 + length opts)) x) = d" unfolding e by (rule take_at) (simp_all add: assms(1))
  show "d \<noteq> [] \<Longrightarrow> x ! (14 + (20 + length opts)) = hd d" unfolding e using assms(1) by (simp add: nth_append hd_conv_nth)
qed

lemma eth_frame_fields:
  assumes "length dmac = 6" "length smac = 6"
  shows "of_le16 (hdr_field (eth_frame dmac smac d) 12 2) = htons ETHTYPE_IP" "length (eth_frame dmac smac d) = 14 + length d"
  using assms by (simp_all add: eth_frame_def hdr_field_def of_le16_def ETHTYPE_IP_def htons_def)

text \<open>The interface takes packets for its own address.\<close>

lemma own_address:
  assumes "netifs s inp = Some n" "netif_is_up (netif.truncate n)" "\<not> not_unicast (nif_ip n) n" "cur_dest s = nif_ip n"
  shows "ip_for inp s = Some inp"
  using assms not_unicastD [OF assms(3)] by (simp add: ip_for_def ip_accepts_def)

text \<open>A packet for the interface, from a neighbour or its like, arrives at \<open>ip_deliver\<close>.\<close>

lemma ip_input_own:
  assumes "packet_at slots H p f x 14 len s" "netifs s inp = Some n" "netif_is_up (netif.truncate n)" "\<not> not_unicast (nif_ip n) n"
    and "x = pre @ ip4_packet proto tos ident off ttl chk src (nif_ip n) opts d @ post" "length pre = 14" "opts_ok opts"
    and "20 + length opts + length d \<le> len" "\<not> bad_source src n" "\<not> is_fragment (be16 off)"
    and "inet_chksum False (take (20 + length opts) (ip4_packet proto tos ident off ttl chk src (nif_ip n) opts d)) = 0"
  shows "ip_input env p inp (with_pbuf p f x 14 len s) = ip_deliver env p inp (p, 14)
       (with_pbuf p f x 14 (20 + length opts + length d) (s\<lparr>cur_dest := nif_ip n, cur_src := src\<rparr>))"
    "packet_at slots H p f x 14 (20 + length opts + length d) (s\<lparr>cur_dest := nif_ip n, cur_src := src\<rparr>)"
    "arp_step slots (H - {p}) H (with_pbuf p f x 14 len s) (with_pbuf p f x 14 (20 + length opts + length d) (s\<lparr>cur_dest := nif_ip n, cur_src := src\<rparr>))"
proof -
  let ?n = "20 + length opts + length d"
  have b: "length x = 1516" "14 + len \<le> 1514" using assms(1) by (auto simp: packet_at_def)
  note fd = packet_fields [OF assms(6,5)]
  have k: "htons (of_le16 (take 2 (drop 16 x))) = of_nat ?n" by (simp only: fd(2) of_le16_be16 htons_htons)
  have uk: "unat (of_nat ?n :: u16) = ?n" using assms(8) b(2) by (intro unat16_of_nat) simp
  note v = v_hl_cases [OF assms(7)]
  have mv: "packet_at slots H p f x 14 ?n s" "arp_step slots (H - {p}) H (with_pbuf p f x 14 len s) (with_pbuf p f x 14 ?n s)"
    using packet_at_move [OF assms(1) b(1), of 14 ?n] assms(8) b(2) by simp_all
  let ?s = "s\<lparr>cur_dest := nif_ip n, cur_src := src\<rparr>"
  show pa: "packet_at slots H p f x 14 ?n ?s" using mv(1) by simp
  show "arp_step slots (H - {p}) H (with_pbuf p f x 14 len s) (with_pbuf p f x 14 ?n ?s)" using mv(2) by (simp flip: with_pbuf_upd)
  have n: "netifs ?s inp = Some n" using assms(2) by simp
  have fr: "\<not> is_fragment (take 2 (drop 20 x))" using assms(10) by (simp add: fd(3))
  have hl: "20 + length opts \<le> 60" using assms(7) by (simp add: opts_ok_def)
  have "ip_for inp ?s = Some inp" by (rule own_address [OF n assms(3,4)]) simp
  then have a: "ip_addressed env p inp (p, 14) (20 + length opts) (with_pbuf p f x 14 ?n ?s) = ip_deliver env p inp (p, 14) (with_pbuf p f x 14 ?n ?s)"
    unfolding ip_addressed_eq [OF pa n hl fr] using assms(9) by simp
  have "20 + length opts = unat (x ! 14 AND 0x0F) * 4" using v(2) fd(1) by simp
  from ip_input_eq [OF assms(1) this refl, of env inp, unfolded k uk fd(1,5,6,7) codec_dec_enc v(1) assms(11)]
  show "ip_input env p inp (with_pbuf p f x 14 len s) = ip_deliver env p inp (p, 14) (with_pbuf p f x 14 ?n ?s)"
    using assms(8) a by simp
qed

lemma reply_step:
  assumes "packet_at slots H p f x (14 + hlen) len s" "20 \<le> hlen" "hlen \<le> 60" "mtu_ok s" "netifs s inp = Some n"
    and "reply_blk hlen (cur_dest s) (cur_src s) x = pre @ ip4_hdr vhl tos l ident off ttl proto chk src dest @ z @ post" "length pre = 14"
    and "20 + length z = hlen + len" "neighbour n dest" "known s dest = Some mac"
  shows "\<exists>s' fs. icmp_reply env p inp (p, 14) hlen (with_pbuf p f x (14 + hlen) len s) = Some s' \<and> heap (ebufs s') p = None
     \<and> arp_step slots (H - {p}) (H - {p}) (with_pbuf p f x (14 + hlen) len s) s' \<and> (fs = [] \<or> fs = [arp_ask inp n dest])
     \<and> frames s' = frames s @ fs @ [(inp, eth_frame mac (nif_hwaddr n) (ip4_hdr vhl tos l ident off ttl proto chk src dest @ z))]"
proof -
  let ?x = "reply_blk hlen (cur_dest s) (cur_src s) x"
  let ?t = "with_pbuf p f ?x 14 (hlen + len) s"
  let ?d = "ip4_hdr vhl tos l ident off ttl proto chk src dest @ z"
  have b: "length x = 1516" "14 + (hlen + len) \<le> 1514" "f AND PBUF_FLAG_IS_CUSTOM = 0" "p \<in> H" using assms(1) by (auto simp: packet_at_def)
  have lx: "length ?x = 1516" using b(1) assms(3) by (rule reply_blk_length)
  note mv = packet_at_move [OF assms(1) lx b(2)]
  have ok: "eth_ok slots H ?t" using mv(1) by (simp add: packet_at_def)
  have out: "outgoing (ebufs ?t) H p []" "header_room (ebufs ?t) p" using one_pbuf_outgoing [of 14 "hlen + len" ?x f p H] b lx by simp_all
  have n: "netifs ?t inp = Some n" "mtu_ok ?t" using assms(4,5) by simp_all
  have pl: "unat (of_nat (hlen + len) :: u16) = hlen + len" using b(2) by (intro unat16_of_nat) simp
  have d: "chain_data (ebufs ?t) [p] = ?d"
  proof -
    have "chain_data (ebufs ?t) [p] = take (hlen + len) (drop 14 ?x)" using one_pbuf_owned(2) [of 14 "hlen + len" ?x f p] b lx by simp
    also have "\<dots> = ?d" using assms(7,8) take_at [of pre 14 ?d "hlen + len" post] by (simp add: assms(6) del: take_append drop_append)
    finally show ?thesis .
  qed
  have to: "of_le32 (take 4 (drop 16 ?d)) = dest"
  proof -
    have "take 4 (drop 16 ?d) = le32 dest"
      using take_at [of "[vhl, tos] @ be16 l @ be16 ident @ be16 off @ [ttl, proto] @ le16 chk @ le32 src" 16 "le32 dest" 4] by (simp add: ip4_hdr_def)
    then show ?thesis by (simp only: codec_dec_enc)
  qed
  have io: "ip4_output_if env p (cur_dest s) None ICMP_TTL 0 IP_PROTO_ICMP inp ?t = etharp_output inp p dest ?t"
  proof -
    have "ip4_output_if env p (cur_dest s) None ICMP_TTL 0 IP_PROTO_ICMP inp ?t
        = etharp_output inp p (of_le32 (take 4 (drop 16 (chain_data (ebufs ?t) [p])))) ?t"
      by (rule ip4_output_if_incl [OF ok n(1) out(1) n(2) at_heap]) (use pl b(2) assms(2) in simp_all)
    then show ?thesis unfolding d to .
  qed
  have "stable_for dest ?t = stable_for dest s" by (simp add: fun_eq_iff stable_for_def entry_def)
  then have kn: "known ?t dest = Some mac" using assms(10) by (simp add: known_def entry_def)
  from etharp_output_known [OF ok n(1) out assms(9) kn] obtain r s1 fs where s1: "etharp_output inp p dest ?t = Some (r, s1)"
    "arp_step slots (H - {p}) H ?t s1" "owned (ebufs s1) p [p]" "fs = [] \<or> fs = [arp_ask inp n dest]"
    "frames s1 = frames ?t @ fs @ [(inp, eth_frame mac (nif_hwaddr n) ?d)]" unfolding d by blast
  have run: "icmp_reply env p inp (p, 14) hlen (with_pbuf p f x (14 + hlen) len s) = free_pbuf p s1"
    using at_reply [of x hlen len env p inp f s] b(1,2) assms(2,3) io s1(1) by simp
  have ow: "set [p] \<subseteq> H" "length [p] \<le> chain_fuel" using b(4) by (simp_all add: chain_fuel_def)
  from arp_step_free [OF arp_stepD(1) [OF s1(2)] s1(3) ow] obtain s2 where s2: "free_pbuf p s1 = Some s2" "frames s2 = frames s1"
    "arp_step slots (H - {p}) (H - {p}) s1 s2" "heap (ebufs s2) p = None" by auto
  have "freed slots H p s1 (Some s2)" using s2 by (simp add: freed_def)
  from freed_then [OF mv(2) freed_then [OF s1(2) this]] have "arp_step slots (H - {p}) (H - {p}) (with_pbuf p f x (14 + hlen) len s) s2"
    by (simp add: freed_def)
  then show ?thesis using run s1(4,5) s2 by auto
qed

text \<open>A request for the interface in a frame.\<close>

definition ip4_frame :: "bytes \<Rightarrow> bytes \<Rightarrow> bytes \<Rightarrow> bytes \<Rightarrow> bytes" where
  "ip4_frame dmac smac pkt pad = eth_frame dmac smac (pkt @ pad)"

lemma frame_in_own:
  fixes s :: "'b ip4_scheme"
  assumes "eth_ok slots {} s" "slots \<noteq> {}" "netifs s netif = Some n" "nif_flags n AND NETIF_FLAG_ETHARP \<noteq> 0"
    and "netif_is_up (netif.truncate n)" "\<not> not_unicast (nif_ip n) n" "length dmac = 6" "length smac = 6" "opts_ok opts"
    and "\<not> bad_source src n" "\<not> is_fragment (be16 off)" "length d + length opts + length pad \<le> 1480"
    and "inet_chksum False (take (20 + length opts) (ip4_packet proto tos ident off ttl chk src (nif_ip n) opts d)) = 0"
  shows "\<exists>p f x m pre post. frame_in (ip_input env) netif (ip4_frame dmac smac (ip4_packet proto tos ident off ttl chk src (nif_ip n) opts d) pad) s
       = ip_deliver env p netif (p, 14) (with_pbuf p f x 14 (20 + length opts + length d) (s\<lparr>ebufs := m, cur_dest := nif_ip n, cur_src := src\<rparr>))
     \<and> packet_at slots {p} p f x 14 (20 + length opts + length d) (s\<lparr>ebufs := m, cur_dest := nif_ip n, cur_src := src\<rparr>)
     \<and> length pre = 14 \<and> x = pre @ ip4_packet proto tos ident off ttl chk src (nif_ip n) opts d @ post
     \<and> arp_step slots {} {p} s (with_pbuf p f x 14 (20 + length opts + length d) (s\<lparr>ebufs := m, cur_dest := nif_ip n, cur_src := src\<rparr>))"
proof -
  let ?pkt = "ip4_packet proto tos ident off ttl chk src (nif_ip n) opts d"
  let ?d = "ip4_frame dmac smac ?pkt pad"
  have pool: "pool (ebufs s) \<noteq> []" using eth_ok_buffers(1) [OF assms(1)] assms(2) by auto
  have fl: "14 < length ?d" "length ?d \<le> 1514" "of_le16 (hdr_field ?d 12 2) = htons ETHTYPE_IP"
    using eth_frame_fields [OF assms(7,8), of "?pkt @ pad"] assms(12) by (simp_all add: ip4_frame_def)
  from frame_in_ip [OF assms(1) pool assms(3,4) fl, of "ip_input env"] obtain p f x m where
    p: "frame_in (ip_input env) netif ?d s = ip_input env p netif (with_pbuf p f x 14 (length ?d - 14) (s\<lparr>ebufs := m\<rparr>))"
      "packet_at slots {p} p f x 14 (length ?d - 14) (s\<lparr>ebufs := m\<rparr>)" "take (length ?d) x = ?d"
      "arp_step slots {} {p} s (with_pbuf p f x 14 (length ?d - 14) (s\<lparr>ebufs := m\<rparr>))" by auto
  define pre where "pre = dmac @ smac @ [8, 0 :: u8]"
  define post where "post = pad @ drop (length ?d) x"
  have pre: "length pre = 14" using assms(7,8) by (simp add: pre_def)
  have "x = ?d @ drop (length ?d) x" using p(3) append_take_drop_id [of "length ?d" x] by simp
  then have x: "x = pre @ ?pkt @ post" by (simp add: ip4_frame_def eth_frame_def pre_def post_def)
  have n: "netifs (s\<lparr>ebufs := m\<rparr>) netif = Some n" using assms(3) by simp
  have len: "20 + length opts + length d \<le> length ?d - 14" using eth_frame_fields(2) [OF assms(7,8)] by (simp add: ip4_frame_def)
  note r = ip_input_own [OF p(2) n assms(5,6) x pre assms(9) len assms(10,11,13)]
  have "arp_step slots {} {p} s (with_pbuf p f x 14 (20 + length opts + length d) (s\<lparr>ebufs := m, cur_dest := nif_ip n, cur_src := src\<rparr>))"
    using p(4) r(3) by (auto simp: arp_step_def keeps_def)
  then show ?thesis using p(1) r(1) [of env] r(2) pre x by (intro exI [of _ p] exI [of _ f] exI [of _ x] exI [of _ m] exI [of _ pre] exI [of _ post]) simp
qed

lemma ip_deliver_icmp:
  assumes "packet_at slots H p f x 14 len s" "env_ok slots env" "netifs s inp = Some n" "x ! 23 = IP_PROTO_ICMP"
  shows "ip_deliver env p inp (p, 14) (with_pbuf p f x 14 len s) = do {
     s \<leftarrow> icmp_input env p inp (with_pbuf p f x 14 len (s\<lparr>cur_netif := Some inp, cur_header := Some (p, 14)\<rparr>));
     Some (s\<lparr>cur_netif := None, cur_header := None, cur_src := IPADDR_ANY, cur_dest := IPADDR_ANY\<rparr>) }"
  unfolding ip_deliver_eq [OF assms(1-3)] Let_def assms(4) by (simp add: IP_PROTO_ICMP_def IP_PROTO_UDP_def IP_PROTO_TCP_def)

definition echo_reply :: "u8 \<Rightarrow> u16 \<Rightarrow> u16 \<Rightarrow> u32 \<Rightarrow> u32 \<Rightarrow> bytes \<Rightarrow> u8 \<Rightarrow> u16 \<Rightarrow> bytes \<Rightarrow> bytes" where
  "echo_reply tos ident off src dest opts code c rest =
     (let h = (\<lambda>chk. ip4_hdr (0x40 OR of_nat (5 + length opts div 4)) tos (of_nat (24 + length opts + length rest)) ident off ICMP_TTL IP_PROTO_ICMP chk src dest)
      in h (inet_chksum False (h 0)) @ opts @ icmp_msg ICMP_ER code (echo_chksum c) rest)"

lemma icmp_input_request:
  assumes "packet_at slots H p f x 14 (24 + length opts + length rest) s" "netifs s inp = Some n" "opts_ok opts" "length pre = 14"
    and "x = pre @ ip4_packet IP_PROTO_ICMP tos ident off ttl chk src (nif_ip n) opts (icmp_msg ICMP_ECHO code c rest) @ post"
    and "\<not> not_unicast (cur_dest s) n" "4 \<le> length rest" "inet_chksum False (icmp_msg ICMP_ECHO code c rest) = 0"
    and "mtu_ok s" "neighbour n (cur_src s)" "known s (cur_src s) = Some mac"
  shows "\<exists>s' fs. icmp_input env p inp (with_pbuf p f x 14 (24 + length opts + length rest) s) = Some s' \<and> heap (ebufs s') p = None
     \<and> arp_step slots (H - {p}) (H - {p}) (with_pbuf p f x 14 (24 + length opts + length rest) s) s' \<and> (fs = [] \<or> fs = [arp_ask inp n (cur_src s)])
     \<and> frames s' = frames s @ fs @ [(inp, eth_frame mac (nif_hwaddr n) (echo_reply tos ident off (cur_dest s) (cur_src s) opts code c rest))]"
proof -
  let ?h = "20 + length opts" and ?l = "4 + length rest" and ?m = "icmp_msg ICMP_ECHO code c rest"
  have N: "24 + length opts + length rest = ?h + ?l" by simp
  note pa = assms(1) [unfolded N]
  have b: "length x = 1516" "14 + (?h + ?l) \<le> 1514" using pa by (auto simp: packet_at_def)
  have hl: "20 \<le> ?h" "?h \<le> 60" using assms(3) by (simp_all add: opts_ok_def)
  note fd = packet_fields [OF assms(4,5)]
  have ty: "x ! (14 + ?h) = ICMP_ECHO" using fd(9) by (simp add: icmp_msg_def)
  have sum: "take ?l (drop (14 + ?h) x) = ?m" using fd(8) by simp
  have hd: "?h = unat (x ! 14 AND 0x0F) * 4" using v_hl_cases(2) [OF assms(3)] fd(1) by simp
  have mv: "packet_at slots H p f x (14 + ?h) ?l s" "arp_step slots (H - {p}) H (with_pbuf p f x 14 (?h + ?l) s) (with_pbuf p f x (14 + ?h) ?l s)"
    using packet_at_move [OF pa b(1), of "14 + ?h" ?l] b(2) by simp_all
  have "icmp_input env p inp (with_pbuf p f x 14 (?h + ?l) s) = icmp_echo env p inp (p, 14) ?h (with_pbuf p f x (14 + ?h) ?l s)"
    using icmp_input_eq [OF pa hd _ assms(2), of env] ty by (simp add: add.assoc)
  also have "\<dots> = icmp_reply env p inp (p, 14) ?h (with_pbuf p f x (14 + ?h) ?l s)"
    using icmp_echo_eq [OF mv(1) hl assms(2), of env] not_unicastD [OF assms(6)] assms(7,8) sum by simp
  finally have run: "icmp_input env p inp (with_pbuf p f x 14 (?h + ?l) s) = icmp_reply env p inp (p, 14) ?h (with_pbuf p f x (14 + ?h) ?l s)" .
  let ?v = "0x40 OR of_nat (5 + length opts div 4) :: u8" and ?k = "of_nat (24 + length opts + length rest) :: u16"
  let ?c = "inet_chksum False (ip4_hdr ?v tos ?k ident off ICMP_TTL IP_PROTO_ICMP 0 (cur_dest s) (cur_src s))"
  have kk: "(of_nat (20 + length opts + length ?m) :: u16) = ?k" by (rule arg_cong [of _ _ of_nat]) simp
  have "x = pre @ ip4_hdr ?v tos ?k ident off ttl IP_PROTO_ICMP chk src (nif_ip n) @ opts @ ?m @ post"
    by (simp only: assms(5) ip4_packet_def kk append_assoc)
  then have blk: "reply_blk ?h (cur_dest s) (cur_src s) x = pre @ ip4_hdr ?v tos ?k ident off ICMP_TTL IP_PROTO_ICMP ?c (cur_dest s) (cur_src s)
      @ (opts @ icmp_msg ICMP_ER code (echo_chksum c) rest) @ post"
    using reply_blk_bytes [OF assms(4) refl, of opts] by (simp only: append_assoc)
  have lz: "20 + length (opts @ icmp_msg ICMP_ER code (echo_chksum c) rest) = ?h + ?l" by simp
  from reply_step [OF mv(1) hl assms(9,2) blk assms(4) lz assms(10,11), of env] obtain s' fs where
    s': "icmp_reply env p inp (p, 14) ?h (with_pbuf p f x (14 + ?h) ?l s) = Some s'" "heap (ebufs s') p = None"
     "arp_step slots (H - {p}) (H - {p}) (with_pbuf p f x (14 + ?h) ?l s) s'" "fs = [] \<or> fs = [arp_ask inp n (cur_src s)]"
     "frames s' = frames s @ fs @ [(inp, eth_frame mac (nif_hwaddr n) (echo_reply tos ident off (cur_dest s) (cur_src s) opts code c rest))]"
    unfolding echo_reply_def Let_def by blast
  have "freed slots H p (with_pbuf p f x (14 + ?h) ?l s) (Some s')" using s' by (simp add: freed_def)
  from freed_then [OF mv(2) this] have "arp_step slots (H - {p}) (H - {p}) (with_pbuf p f x 14 (?h + ?l) s) s'" by (simp add: freed_def)
  then show ?thesis unfolding N run using s'(1,2,4,5) by blast
qed

end
