(* ===== verification/Ip_Props.thy ===== *)
theory Ip_Props
  imports Icmp_Echo Arp_Props
begin

text \<open>
  The properties of IP input and ICMP, from a frame of the driver to the frames that are sent: the answer to a
  request, the packets that are dropped, any traffic, and a frame that overruns the heap. The witnesses run on the
  board of the firmware with the host in its ARP table.
\<close>

section \<open>The board\<close>

text \<open>The board with the state of IP, and handlers that free what they get.\<close>

definition ip_board :: "etharp_entry list \<Rightarrow> ip4" where
  "ip_board T = eth.extend (board T) (ip4.fields 0 0 0 None None)"

definition idle_env :: "'b ip4_scheme ip_env" where
  "idle_env = \<lparr>raw_input = \<lambda>p inp s. Some (0, s), udp_handler = \<lambda>p inp. free_pbuf p, tcp_handler = \<lambda>p inp. free_pbuf p,
     ip_reass = \<lambda>p s. Some (Some p, s), frag_output = \<lambda>p netif dest s. Some (ERR_OK, s)\<rparr>"

lemma idle_env_ok: "env_ok slots idle_env"
  by (simp add: env_ok_def idle_env_def handles_free)

lemma ip_board_sels [simp]:
  "netifs (ip_board T) = [0 \<mapsto> board_netif]" "arp_table (ip_board T) = T" "frames (ip_board T) = []" "entry i (ip_board T) = T ! i"
  "ebufs (ip_board T) = ebufs (board T)" "mtu_ok (ip_board T)"
  by (simp_all add: ip_board_def eth.extend_def ip4.fields_def board_def entry_def mtu_ok_def board_netif_def)

lemma ip_board_ok: "eth_ok slots H (ip_board T) = eth_ok slots H (board T)"
  by (simp add: eth_ok_def) (simp add: ip_board_def eth.extend_def)

definition host_known :: "etharp_entry list" where
  "host_known = stable_entry host host_mac 0 # replicate 9 blank_entry"

lemma host_board: "eth_ok {0..<16} {} (ip_board host_known)" "known (ip_board host_known) host = Some host_mac"
proof -
  show ok: "eth_ok {0..<16} {} (ip_board host_known)"
    unfolding ip_board_ok host_known_def by (rule board_one) (simp_all add: stable_entry_def host_facts)
  show "known (ip_board host_known) host = Some host_mac"
    using known_at [OF ok, of 0 host] by (simp add: host_known_def stable_entry_def ARP_TABLE_SIZE_def)
qed

lemma board_unicast: "netif_is_up (netif.truncate board_netif)" "\<not> not_unicast (nif_ip board_netif) board_netif"
  by (simp_all add: board_netif_def netif_is_up_def netif.truncate_def NETIF_FLAG_UP_def not_unicast_def ip_addr_isany_def IPADDR_ANY_def
      ip4_addr_isbroadcast_def ip_addr_ismulticast_def of_le32_def htonl_def NETIF_FLAG_BROADCAST_def)

section \<open>Echo\<close>

text \<open>
  C22: Ping. A frame with an echo request for the address of the interface, from a neighbour whose hardware
  address is known, with any options, identifier, payload and trailing padding, is answered by exactly one frame to that
  hardware address: addresses swapped, time to live 255, type changed, everything else as it came. At most an ARP request for the sender
  goes out first. No buffer is lost, and the checksum of the first 20 bytes of its header is correct.
\<close>

theorem echo_answered:
  fixes s :: "'b ip4_scheme"
  assumes "eth_ok slots {} s" "slots \<noteq> {}" "netifs s netif = Some n" "nif_flags n AND NETIF_FLAG_ETHARP \<noteq> 0"
    and "netif_is_up (netif.truncate n)" "\<not> not_unicast (nif_ip n) n" "env_ok slots env" "mtu_ok s"
    and "length dmac = 6" "length smac = 6" "opts_ok opts" "\<not> is_fragment (be16 off)" "4 \<le> length rest" "length rest + length opts + length pad \<le> 1476"
    and "inet_chksum False (take (20 + length opts) (ip4_packet IP_PROTO_ICMP tos ident off ttl chk src (nif_ip n) opts (icmp_msg ICMP_ECHO code c rest))) = 0"
    and "inet_chksum False (icmp_msg ICMP_ECHO code c rest) = 0" "neighbour n src" "known s src = Some mac"
  shows "\<exists>s' fs. eth_do (ip_input env) (Frame netif (ip4_frame dmac smac
         (ip4_packet IP_PROTO_ICMP tos ident off ttl chk src (nif_ip n) opts (icmp_msg ICMP_ECHO code c rest)) pad)) s = Some s'
     \<and> eth_ok slots {} s' \<and> (fs = [] \<or> fs = [arp_ask netif n src])
     \<and> frames s' = frames s @ fs @ [(netif, eth_frame mac (nif_hwaddr n) (echo_reply tos ident off (nif_ip n) src opts code c rest))]
     \<and> inet_chksum False (take 20 (echo_reply tos ident off (nif_ip n) src opts code c rest)) = 0"
proof -
  let ?m = "icmp_msg ICMP_ECHO code c rest"
  have bs: "\<not> bad_source src n" using assms(17) not_unicastD by (auto simp: bad_source_def neighbour_def)
  have ll: "length ?m + length opts + length pad \<le> 1480" using assms(14) by simp
  have N: "20 + length opts + length ?m = 24 + length opts + length rest" by simp
  from frame_in_own [OF assms(1-6) assms(9-11) bs assms(12) ll assms(15), of env, unfolded N] obtain p f x m pre post where
    p: "frame_in (ip_input env) netif (ip4_frame dmac smac (ip4_packet IP_PROTO_ICMP tos ident off ttl chk src (nif_ip n) opts ?m) pad) s
       = ip_deliver env p netif (p, 14) (with_pbuf p f x 14 (24 + length opts + length rest) (s\<lparr>ebufs := m, cur_dest := nif_ip n, cur_src := src\<rparr>))"
     "packet_at slots {p} p f x 14 (24 + length opts + length rest) (s\<lparr>ebufs := m, cur_dest := nif_ip n, cur_src := src\<rparr>)"
     "length pre = 14" "x = pre @ ip4_packet IP_PROTO_ICMP tos ident off ttl chk src (nif_ip n) opts ?m @ post"
     "arp_step slots {} {p} s (with_pbuf p f x 14 (24 + length opts + length rest) (s\<lparr>ebufs := m, cur_dest := nif_ip n, cur_src := src\<rparr>))"
    by blast
  let ?s = "s\<lparr>ebufs := m, cur_dest := nif_ip n, cur_src := src\<rparr>"
  let ?t = "?s\<lparr>cur_netif := Some netif, cur_header := Some (p, 14)\<rparr>"
  have n: "netifs ?s netif = Some n" "netifs ?t netif = Some n" using assms(3) by simp_all
  have x23: "x ! 23 = IP_PROTO_ICMP" using packet_fields(4) [OF p(3,4)] .
  have pt: "packet_at slots {p} p f x 14 (24 + length opts + length rest) ?t" using p(2) by simp
  have nu: "\<not> not_unicast (cur_dest ?t) n" "mtu_ok ?t" "neighbour n (cur_src ?t)" "known ?t (cur_src ?t) = Some mac"
  proof -
    show "\<not> not_unicast (cur_dest ?t) n" "neighbour n (cur_src ?t)" using assms(6,17) by simp_all
    show "mtu_ok ?t" using assms(8) by (simp add: mtu_ok_def)
    have "stable_for src ?t = stable_for src s" by (simp add: fun_eq_iff stable_for_def entry_def)
    then show "known ?t (cur_src ?t) = Some mac" using assms(18) by (simp add: known_def entry_def)
  qed
  from icmp_input_request [OF pt n(2) assms(11) p(3,4) nu(1) assms(13,16) nu(2-4), of env] obtain s1 fs where
    s1: "icmp_input env p netif (with_pbuf p f x 14 (24 + length opts + length rest) ?t) = Some s1"
      "arp_step slots ({p} - {p}) ({p} - {p}) (with_pbuf p f x 14 (24 + length opts + length rest) ?t) s1"
      "fs = [] \<or> fs = [arp_ask netif n src]"
      "frames s1 = frames s @ fs @ [(netif, eth_frame mac (nif_hwaddr n) (echo_reply tos ident off (nif_ip n) src opts code c rest))]" by auto
  let ?r = "s1\<lparr>cur_netif := None, cur_header := None, cur_src := IPADDR_ANY, cur_dest := IPADDR_ANY\<rparr>"
  have "eth_do (ip_input env) (Frame netif (ip4_frame dmac smac (ip4_packet IP_PROTO_ICMP tos ident off ttl chk src (nif_ip n) opts ?m) pad)) s = Some ?r"
    using p(1) ip_deliver_icmp [OF p(2) assms(7) n(1) x23] s1(1) by simp
  moreover have "eth_ok slots {} ?r" using arp_stepD(1) [OF s1(2)] by simp
  moreover have "inet_chksum False (take 20 (echo_reply tos ident off (nif_ip n) src opts code c rest)) = 0"
  proof -
    let ?a = "[0x40 OR of_nat (5 + length opts div 4), tos] @ be16 (of_nat (24 + length opts + length rest)) @ be16 ident @ be16 off @ [ICMP_TTL, IP_PROTO_ICMP]"
    have "le16 0 = [0, 0]" by (simp add: le16_def)
    then have "take 20 (echo_reply tos ident off (nif_ip n) src opts code c rest)
        = ?a @ le16 (inet_chksum False (?a @ [0, 0] @ (le32 (nif_ip n) @ le32 src))) @ (le32 (nif_ip n) @ le32 src)"
      by (simp add: echo_reply_def Let_def) (simp add: ip4_hdr_def)
    then show ?thesis by (simp only:) (rule inet_chksum_stored, simp_all)
  qed
  ultimately show ?thesis using s1(3,4) by (intro exI [of _ ?r] exI [of _ fs]) simp
qed

theorem echo_answered_witness:
  "\<exists>s' fs. eth_do (ip_input idle_env) (Frame 0 (ip4_frame (nif_hwaddr board_netif) host_mac
         (ip4_packet IP_PROTO_ICMP 0 1 0x4000 64 35499 host (nif_ip board_netif) [] (icmp_msg ICMP_ECHO 0 38294 [0, 7, 0, 1, 97, 98])) [0, 0])) (ip_board host_known) = Some s'
     \<and> frames s' = fs @ [(0, eth_frame host_mac (nif_hwaddr board_netif) (echo_reply 0 1 0x4000 (nif_ip board_netif) host [] 0 38294 [0, 7, 0, 1, 97, 98]))]"
proof -
  have c1: "inet_chksum False (take (20 + length []) (ip4_packet IP_PROTO_ICMP 0 1 0x4000 64 35499 host (nif_ip board_netif) [] (icmp_msg ICMP_ECHO 0 38294 [0, 7, 0, 1, 97, 98]))) = 0"
    by code_simp
  have c2: "inet_chksum False (icmp_msg ICMP_ECHO 0 38294 [0, 7, 0, 1, 97, 98]) = 0" by code_simp
  have f: "\<not> is_fragment (be16 0x4000)" "opts_ok []" by code_simp+
  from echo_answered [OF host_board(1) _ _ _ board_unicast idle_env_ok _ _ _ f(2,1) _ _ c1 c2 host_facts(1) host_board(2), of 0 "nif_hwaddr board_netif" host_mac "[0, 0]"]
  show ?thesis by (auto simp: host_facts)
qed

text \<open>
  C23: The checksum of the reply is not computed but adjusted, as the type changes from 8 to 0. If the
  request had a correct checksum the reply has one, unless code, identifier, sequence number and data are all
  zero: then the reply carries zero instead of the value that verifies.
\<close>

theorem echo_reply_verifies:
  assumes "inet_chksum b (icmp_msg ICMP_ECHO code c rest) = 0" "length rest \<le> 65536"
  shows "inet_chksum b' (icmp_msg ICMP_ER code (echo_chksum c) rest) = 0 \<longleftrightarrow> \<not> (code = 0 \<and> (\<forall>x \<in> set rest. x = 0))"
  using assms by (rule echo_reply_sum)

theorem echo_reply_verifies_witness:
  "inet_chksum False (icmp_msg ICMP_ER 0 (echo_chksum 0xFFF7) [0, 0, 0, 0]) \<noteq> 0
   \<and> inet_chksum False (icmp_msg ICMP_ER 0 (echo_chksum 38294) [0, 7, 0, 1, 97, 98]) = 0"
proof -
  have "inet_chksum False (icmp_msg ICMP_ECHO 0 0xFFF7 [0, 0, 0, 0]) = 0" "inet_chksum False (icmp_msg ICMP_ECHO 0 38294 [0, 7, 0, 1, 97, 98]) = 0"
    by code_simp+
  then show ?thesis using echo_reply_verifies [of False 0 "0xFFF7" "[0, 0, 0, 0]" False] echo_reply_verifies [of False 0 38294 "[0, 7, 0, 1, 97, 98]" False] by simp
qed

section \<open>Packets that are dropped\<close>

text \<open>A header that fails the checks of \<open>ip_input\<close>.\<close>

definition ip_header_bad :: "bytes \<Rightarrow> bool" where
  "ip_header_bad d \<longleftrightarrow> (let hlen = unat (d ! 14 AND 0x0F) * 4 in
     drop_bit 4 (d ! 14) \<noteq> 4 \<or> length d - 14 < hlen \<or> length d - 14 < unat (htons (of_le16 (hdr_field d 16 2)))
     \<or> inet_chksum False (take hlen (drop 14 d)) \<noteq> 0)"

text \<open>A packet from an address no host has, or to an address no interface takes. The DHCP server takes datagrams to any address.\<close>

definition ip_misdirected :: "bytes \<Rightarrow> nat \<Rightarrow> eth_netif \<Rightarrow> 'b ip4_scheme \<Rightarrow> bool" where
  "ip_misdirected d netif n s \<longleftrightarrow> \<not> is_fragment (hdr_field d 20 2) \<and> d ! 23 \<noteq> IP_PROTO_UDP
     \<and> (bad_source (of_le32 (hdr_field d 26 4)) n \<or> ip_for netif (s\<lparr>cur_dest := of_le32 (hdr_field d 30 4)\<rparr>) = None)"

lemma free_pbuf_silent: "free_pbuf p s = Some s' \<Longrightarrow> frames s' = frames s \<and> arp_table s' = arp_table s"
  by (auto simp: free_pbuf_def)

lemma freed_silent:
  assumes "packet_at slots {p} p f x pos len s"
  shows "\<exists>s'. free_pbuf p (with_pbuf p f x pos len s) = Some s' \<and> eth_ok slots {} s' \<and> frames s' = frames s \<and> arp_table s' = arp_table s"
proof -
  from packet_at_free [OF assms] obtain s' where s': "free_pbuf p (with_pbuf p f x pos len s) = Some s'"
    "arp_step slots {} {} (with_pbuf p f x pos len s) s'" by (auto simp: freed_def)
  then show ?thesis using free_pbuf_silent [OF s'(1)] arp_stepD(1) [OF s'(2)] by simp
qed



section \<open>Traffic\<close>

fun ip_event_ok :: "(nat \<Rightarrow> eth_netif option) \<Rightarrow> eth_event \<Rightarrow> bool" where
  "ip_event_ok ifs (Frame netif d) = (ifs netif \<noteq> None \<and> length d \<le> 1514 \<and> frame_sane d)"
| "ip_event_ok ifs ev = event_ok ifs ev"

lemma ip_do_step:
  fixes s :: "'b ip4_scheme"
  assumes "eth_ok slots H s" "ip_event_ok (netifs s) ev" "env_ok slots env" "mtu_ok s"
  shows "\<exists>s'. eth_do (ip_input env) ev s = Some s' \<and> arp_step slots H H s s'"
proof (cases "\<exists>netif d. ev = Frame netif d")
  case True
  then obtain netif d where ev: "ev = Frame netif d" by blast
  with assms(2) obtain n where "netifs s netif = Some n" by auto
  from frame_in_ip_step [OF assms(1) this _ assms(3,4), of d] assms(2) ev show ?thesis by simp
next
  case False
  then have "eth_do (ip_input env) ev s = eth_do (\<lambda>p netif. free_pbuf p) ev s" by (cases ev) simp_all
  moreover have "event_ok (netifs s) ev" using False assms(2) by (cases ev) simp_all
  ultimately show ?thesis using eth_do_step [OF assms(1) _ consumes_free, of ev] by simp
qed

text \<open>
  C21: Any traffic through ARP, IP and ICMP. Whatever frames arrive, as long as the header of an IP packet
  claims at least 20 bytes and the packet is no fragment, whatever is sent, and however the timer and the administration of the table come in between,
  the stack runs without a fault, the table stays sound and every buffer is
  returned but the packets the table holds.
\<close>

theorem stack_serves_any_traffic:
  fixes s :: "'b ip4_scheme"
  assumes "eth_ok slots {} s" "\<forall>ev \<in> set evs. ip_event_ok (netifs s) ev" "env_ok slots env" "mtu_ok s"
  shows "\<exists>s'. eth_run (ip_input env) evs s = Some s' \<and> eth_ok slots {} s' \<and> set (pool (ebufs s')) = slots
     \<and> dom (heap (ebufs s')) = queued (arp_table s') \<and> card (queued (arp_table s')) \<le> ARP_TABLE_SIZE"
proof -
  have "\<exists>s'. eth_run (ip_input env) evs s = Some s' \<and> eth_ok slots {} s'" using assms(1,2,4)
  proof (induction evs arbitrary: s)
    case (Cons ev evs)
    from ip_do_step [OF Cons.prems(1) _ assms(3) Cons.prems(3), of ev] Cons.prems(2) obtain s1 where
      s1: "eth_do (ip_input env) ev s = Some s1" "arp_step slots {} {} s s1" by auto
    note d = arp_stepD [OF s1(2)]
    have "mtu_ok s1" using Cons.prems(3) d(3) by (simp add: mtu_ok_def)
    from Cons.IH [OF d(1) _ this] Cons.prems(2) d(3) s1(1) show ?case by auto
  qed simp
  then obtain s' where s': "eth_run (ip_input env) evs s = Some s'" "eth_ok slots {} s'" by blast
  then show ?thesis using eth_ok_buffers [OF s'(2)] by blast
qed

theorem stack_serves_any_traffic_witness:
  "\<exists>s'. eth_run (ip_input idle_env) [Frame 0 (ip4_frame (nif_hwaddr board_netif) host_mac
         (ip4_packet 17 0 1 0 64 0 host (nif_ip board_netif) [] [1, 2, 3]) []), Packet 0 host [1, 2, 3], Tick, Cleanup 0] (ip_board host_known) = Some s'
     \<and> set (pool (ebufs s')) = {0..<16}"
proof -
  let ?d = "ip4_frame (nif_hwaddr board_netif) host_mac (ip4_packet 17 0 1 0 64 0 host (nif_ip board_netif) [] [1, 2, 3]) []"
  have "frame_sane ?d" "length ?d = 37" by code_simp+
  then have "\<forall>ev \<in> set [Frame 0 ?d, Packet 0 host [1, 2, 3], Tick, Cleanup 0]. ip_event_ok (netifs (ip_board host_known)) ev" by simp
  from stack_serves_any_traffic [OF host_board(1) this idle_env_ok] show ?thesis by auto
qed

section \<open>A header that is too short\<close>

definition stub_packet :: "u8 \<Rightarrow> u16 \<Rightarrow> u16 \<Rightarrow> u16 \<Rightarrow> u32 \<Rightarrow> u32 \<Rightarrow> bytes" where
  "stub_packet tos ident off c src dest = [0x42, tos] @ be16 16 @ be16 ident @ be16 off @ [ICMP_ECHO, IP_PROTO_ICMP] @ le16 c @ le32 src @ le32 dest"

lemma stub_packet_length [simp]: "length (stub_packet tos ident off c src dest) = 20"
  by (simp add: stub_packet_def)

lemma stub_fields:
  assumes "length pre = 14" "x = pre @ stub_packet tos ident off c src dest @ post"
  shows "x ! 14 = 0x42" "take 2 (drop 16 x) = be16 16" "take 2 (drop 20 x) = be16 off" "x ! 22 = ICMP_ECHO" "x ! 23 = IP_PROTO_ICMP"
    "take 4 (drop 26 x) = le32 src" "take 4 (drop 30 x) = le32 dest" "take 8 (drop 14 x) = [0x42, tos] @ be16 16 @ be16 ident @ be16 off"
    "take 8 (drop 22 x) = [ICMP_ECHO, IP_PROTO_ICMP] @ le16 c @ le32 src"
proof -
  have x: "x = pre @ [0x42, tos] @ be16 16 @ be16 ident @ be16 off @ [ICMP_ECHO, IP_PROTO_ICMP] @ le16 c @ le32 src @ le32 dest @ post"
    by (simp add: assms(2) stub_packet_def)
  show "x ! 14 = 0x42" "x ! 22 = ICMP_ECHO" "x ! 23 = IP_PROTO_ICMP" using assms(1) by (simp_all add: x nth_append)
  show "take 2 (drop 16 x) = be16 16" using take_at [of "pre @ [0x42, tos]" 16 "be16 16" 2] assms(1) by (simp add: x)
  show "take 2 (drop 20 x) = be16 off" using take_at [of "pre @ [0x42, tos] @ be16 16 @ be16 ident" 20 "be16 off" 2] assms(1) by (simp add: x)
  show "take 8 (drop 14 x) = [0x42, tos] @ be16 16 @ be16 ident @ be16 off"
    using take_at [of pre 14 "[0x42, tos] @ be16 16 @ be16 ident @ be16 off" 8] assms(1) by (simp add: x)
  let ?A = "pre @ [0x42, tos] @ be16 16 @ be16 ident @ be16 off"
  show "take 8 (drop 22 x) = [ICMP_ECHO, IP_PROTO_ICMP] @ le16 c @ le32 src"
    using take_at [of ?A 22 "[ICMP_ECHO, IP_PROTO_ICMP] @ le16 c @ le32 src" 8] assms(1) by (simp add: x)
  show "take 4 (drop 26 x) = le32 src" using take_at [of "?A @ [ICMP_ECHO, IP_PROTO_ICMP] @ le16 c" 26 "le32 src" 4] assms(1) by (simp add: x)
  show "take 4 (drop 30 x) = le32 dest" using take_at [of "?A @ [ICMP_ECHO, IP_PROTO_ICMP] @ le16 c @ le32 src" 30 "le32 dest" 4] assms(1) by (simp add: x)
qed

text \<open>The reply is written into a copy of 16 bytes, whose block ends before the destination address.\<close>

lemma icmp_room_copies:
  assumes "packet_at slots H p f x 22 8 s" "has_ram (ebufs s)"
  shows "\<exists>q s'. icmp_room p (p, 14) 8 (with_pbuf p f x 22 8 s) = Some (Some (q, q, 16), s') \<and> length (blk (ebufs s') q) = 32"
proof -
  have b: "length x = 1516" "f AND PBUF_FLAG_IS_CUSTOM = 0" "p \<in> H" using assms(1) by (auto simp: packet_at_def)
  let ?t = "with_pbuf p f x 14 16 s"
  have pt: "packet_at slots H p f x 14 16 s" by (rule packet_at_move(1) [OF assms(1) b(1)]) simp
  have inv: "arp_inv slots H (ebufs ?t) (arp_table s)" using pt by (simp add: packet_at_def eth_ok_def)
  have u: "on_bufs (pbuf_header (Some p) (int (PBUF_IP_HLEN + PBUF_LINK_HLEN))) (with_pbuf p f x 22 8 s) = Some (1, with_pbuf p f x 22 8 s)"
    by (rule on_with_pbuf, rule one_pbuf_header_full) (simp add: PBUF_IP_HLEN_def PBUF_LINK_HLEN_def)
  have d: "on_bufs (pbuf_header (Some p) (int 8)) (with_pbuf p f x 22 8 s) = Some (0, ?t)"
    using at_header_up [of 8 22 p f x 8 s] by simp
  have al: "LWIP_MEM_ALIGN_SIZE (layer_offset PBUF_LINK) = 16" "LWIP_MEM_ALIGN_SIZE (unat (16 :: u16)) = 16"
    by (simp_all add: layer_offset_def LWIP_MEM_ALIGN_SIZE_def PBUF_LINK_HLEN_def)
  have bd: "16 + LWIP_MEM_ALIGN_SIZE (layer_offset PBUF_LINK) + LWIP_MEM_ALIGN_SIZE (unat (16 :: u16)) < 65536" by (simp only: al)
  have "pool_ok slots (ebufs ?t)" "fresh_ram slots (ebufs ?t)" using inv by (simp_all add: arp_inv_def)
  from pbuf_alloc_ram_layer [OF this bd] obtain r m1 where a: "pbuf_alloc PBUF_LINK 16 PBUF_RAM (ebufs ?t) = Some (r, m1)" by blast
  note aa = arp_inv_alloc_layer [OF inv a bd, unfolded al]
  have "has_ram (ebufs ?t)" using assms(2) by (simp add: has_ram_def)
  with aa(2,3) obtain q d0 where q: "r = Some q" "q \<notin> H" "one_ram m1 q d0" "length d0 = 16" "keeps (H \<union> queued (arp_table s)) (ebufs ?t) m1"
    "map_option p_payload (heap m1 q) = Some 16" "length (blk m1 q) = 32" by auto
  have pq: "q \<noteq> p" using q(2) b(3) by auto
  note op = one_pbuf_owned [of 14 16 x f p "ebufs s"]
  have o0: "owned (ebufs ?t) p [p]" "chain_data (ebufs ?t) [p] = take 16 (drop 14 x)" using op b(1,2) by simp_all
  have "keeps H (ebufs ?t) m1" using q(5) by (rule keeps_mono) auto
  note kc = keeps_chain [OF this, of "[p]"]
  have op1: "owned m1 p [p]" "filled_tail m1 [p]" "length d0 = length (chain_data m1 [p])"
    using kc(2,4) b(1,3) o0 q(4) by (simp_all add: filled_tail_def del: chain_data_simps)
  from pbuf_copy_to_ram [OF q(3) op1(1,2) _ _ op1(3)] pq obtain m2 where m2: "pbuf_copy (Some q) (Some p) m1 = Some (ERR_OK, m2)"
    "one_ram m2 q (chain_data m1 [p])" "heap m2 = heap m1" "\<forall>x. x \<noteq> q \<longrightarrow> blk m2 x = blk m1 x" "\<forall>x. length (blk m2 x) = length (blk m1 x)"
    by (auto simp: chain_fuel_def)
  from m2(2) obtain qb where qb: "heap m2 q = Some qb" "unat (p_len qb) = 16" "p_payload qb = 16"
    by (rule one_ramE) (use op1(3) q(4,6) m2(3) in auto)
  have oq: "owned m2 q [q]" using m2(2) by (simp add: one_ram_def)
  have "(0 :: nat) < 8" "8 \<le> unat (p_len qb)" using qb(2) by simp_all
  from pbuf_header_drop [OF oq qb(1) this] obtain m3 where m3: "pbuf_header (Some q) (- int 8) m2 = Some (0, m3)" "hd_edit m2 m3 q" by blast
  have hp3: "heap m3 p = heap m1 p" "blk m3 p = blk m1 p" using m3(2) m2(3,4) pq by (auto simp: hd_edit_def)
  then have "keeps {p} m1 m3" by (simp add: keeps_def)
  from keeps_chain(4) [OF this, of "[p]"] op1(1) have "owned m3 p [p]" by simp
  then have "exclusive m3 p [p]" by (simp add: owned_def)
  from pbuf_free_exclusive [OF this] obtain k m4 where m4: "pbuf_free (Some p) m3 = Some (k, m4)" "blk m4 = blk m3" by (auto simp: chain_fuel_def)
  have l: "length (blk m4 q) = 32" using m4(2) m3(2) m2(5) q(7) by (simp add: hd_edit_def)
  have "icmp_room p (p, 14) 8 (with_pbuf p f x 22 8 s) = Some (Some (q, q, 16), s\<lparr>ebufs := m4\<rparr>)"
    unfolding icmp_room_def u bind.bind_lunit prod.case d
    using a q(1) m2(1) qb(1,3) m3(1) m4(1) by (simp add: on_bufs_def free_pbuf_def with_pbuf_def)
  then show ?thesis using l by (intro exI [of _ q] exI [of _ "s\<lparr>ebufs := m4\<rparr>"]) simp
qed

lemma icmp_reply_overruns:
  assumes "length (blk (ebufs s) q) = 32"
  shows "icmp_reply env q inp (q, 16) hlen s = None"
proof -
  have "set_ip_field (q, 16) 16 d t = None" if "length (blk (ebufs t) q) = 32" "length d = 4" for d and t :: "'a ip4_scheme"
    using that by (auto simp: set_ip_field_def do_bufs_def blk_write_def wr_at_def split: option.splits bind_splits)
  moreover have "length (blk (ebufs t) q) = 32" if "set_ip_field (q, 16) 12 d s = Some t" for d and t :: "'a ip4_scheme"
    using that assms by (auto simp: set_ip_field_def do_bufs_def blk_write_def split: option.splits bind_splits dest: wr_at_length)
  ultimately show ?thesis by (cases "set_ip_field (q, 16) 12 (le32 (cur_dest s)) s") (simp_all add: icmp_reply_def)
qed

lemma icmp_echo_stub:
  assumes "packet_at slots H p f x 22 8 s" "has_ram (ebufs s)" "netifs s inp = Some n" "\<not> not_unicast (cur_dest s) n"
    and "inet_chksum False (take 8 (drop 22 x)) = 0"
  shows "icmp_echo env p inp (p, 14) 8 (with_pbuf p f x 22 8 s) = None"
proof -
  have b: "length x = 1516" using assms(1) by (simp add: packet_at_def)
  from one_pbuf_chksum_zero [of 22 8 x p f "ebufs s"] b assms(5) have c: "inet_chksum_pbuf (Some p) (one_pbuf p f x 22 8 (ebufs s)) = Some 0" by auto
  from icmp_room_copies [OF assms(1,2)] obtain q s' where q: "icmp_room p (p, 14) 8 (with_pbuf p f x 22 8 s) = Some (Some (q, q, 16), s')"
    "length (blk (ebufs s') q) = 32" by blast
  show ?thesis unfolding icmp_echo_def
    using assms(3) not_unicastD [OF assms(4)] c q icmp_reply_overruns [OF q(2)] by (simp add: SIZEOF_ICMP_ECHO_HDR_def)
qed

text \<open>
  C25: A header that is too short. \<open>ip_input\<close> does not ask for 20 bytes of header. A frame whose header claims to be 8 bytes
  long with a checksum that fits, an echo request in the rest of the real header and a total length of 16 is answered in a copy of 16
  bytes, and the destination address of the reply is written behind its block: the bytes that follow it on
  the heap are overwritten with bytes of the request.
\<close>

theorem short_header_overflows:
  fixes s :: "'b ip4_scheme"
  assumes "eth_ok slots {} s" "slots \<noteq> {}" "netifs s netif = Some n" "nif_flags n AND NETIF_FLAG_ETHARP \<noteq> 0"
    and "netif_is_up (netif.truncate n)" "\<not> not_unicast (nif_ip n) n" "env_ok slots env" "has_ram (ebufs s)"
    and "length dmac = 6" "length smac = 6" "length pad \<le> 1480" "\<not> bad_source src n" "\<not> is_fragment (be16 off)"
    and "inet_chksum False ([0x42, tos] @ be16 16 @ be16 ident @ be16 off) = 0"
    and "inet_chksum False ([ICMP_ECHO, IP_PROTO_ICMP] @ le16 c @ le32 src) = 0"
  shows "eth_do (ip_input env) (Frame netif (ip4_frame dmac smac (stub_packet tos ident off c src (nif_ip n)) pad)) s = None"
proof -
  let ?pkt = "stub_packet tos ident off c src (nif_ip n)"
  let ?d = "ip4_frame dmac smac ?pkt pad"
  have pool: "pool (ebufs s) \<noteq> []" using eth_ok_buffers(1) [OF assms(1)] assms(2) by auto
  have fl: "14 < length ?d" "length ?d \<le> 1514" "of_le16 (hdr_field ?d 12 2) = htons ETHTYPE_IP" "length ?d - 14 = 20 + length pad"
    using eth_frame_fields [OF assms(9,10), of "?pkt @ pad"] assms(11) by (simp_all add: ip4_frame_def)
  from frame_in_ip [OF assms(1) pool assms(3,4) fl(1-3), of "ip_input env"] obtain p f x m where
    p: "frame_in (ip_input env) netif ?d s = ip_input env p netif (with_pbuf p f x 14 (20 + length pad) (s\<lparr>ebufs := m\<rparr>))"
      "packet_at slots {p} p f x 14 (20 + length pad) (s\<lparr>ebufs := m\<rparr>)" "take (length ?d) x = ?d"
      "arp_step slots {} {p} s (with_pbuf p f x 14 (20 + length pad) (s\<lparr>ebufs := m\<rparr>))" by (auto simp: fl(4))
  define pre where "pre = dmac @ smac @ [8, 0 :: u8]"
  have pre: "length pre = 14" using assms(9,10) by (simp add: pre_def)
  have "x = ?d @ drop (length ?d) x" using p(3) append_take_drop_id [of "length ?d" x] by simp
  then have x: "x = pre @ ?pkt @ (pad @ drop (length ?d) x)" by (simp add: ip4_frame_def eth_frame_def pre_def)
  note fd = stub_fields [OF pre x]
  have b: "length x = 1516" using p(2) by (simp add: packet_at_def)
  let ?s = "s\<lparr>ebufs := m, cur_dest := nif_ip n, cur_src := src\<rparr>"
  let ?t = "?s\<lparr>cur_netif := Some netif, cur_header := Some (p, 14)\<rparr>"
  have ps: "packet_at slots {p} p f x 14 16 ?s" "packet_at slots {p} p f x 14 16 ?t" "packet_at slots {p} p f x 22 8 ?t"
    using packet_at_move(1) [OF p(2) b, of 14 16] packet_at_move(1) [OF p(2) b, of 22 8] by simp_all
  have n: "netifs ?s netif = Some n" "netifs ?t netif = Some n" using assms(3) by simp_all
  have k: "htons (of_le16 (take 2 (drop 16 x))) = 16" by (simp only: fd(2) of_le16_be16 htons_htons)
  have h8: "8 = unat (x ! 14 AND 0x0F) * 4" by (simp add: fd(1))
  have v: "drop_bit 4 (x ! 14) = 4" by (simp add: fd(1))
  have "ip_input env p netif (with_pbuf p f x 14 (20 + length pad) (s\<lparr>ebufs := m\<rparr>)) = ip_addressed env p netif (p, 14) 8 (with_pbuf p f x 14 16 ?s)"
    unfolding ip_input_eq [OF p(2) h8 refl] k using v fd(6-8) assms(14) by simp
  also have "\<dots> = ip_deliver env p netif (p, 14) (with_pbuf p f x 14 16 ?s)"
  proof -
    have "ip_for netif ?s = Some netif" by (rule own_address [OF n(1) assms(5,6)]) simp
    moreover have "\<not> is_fragment (take 2 (drop 20 x))" using assms(13) by (simp add: fd(3))
    ultimately show ?thesis using ip_addressed_eq [OF ps(1) n(1), of 8 env] assms(12) by simp
  qed
  also have "\<dots> = None"
  proof -
    have "icmp_input env p netif (with_pbuf p f x 14 16 ?t) = icmp_echo env p netif (p, 14) 8 (with_pbuf p f x 22 8 ?t)"
      using icmp_input_eq [OF ps(2) h8 _ n(2), of env] fd(4) by simp
    also have "\<dots> = None"
      by (rule icmp_echo_stub [OF ps(3) _ n(2)]) (use p(4) assms(6,8,15) in \<open>auto simp: fd(9) has_ram_def arp_step_def\<close>)
    finally show ?thesis unfolding ip_deliver_icmp [OF ps(1) assms(7) n(1) fd(5)] by simp
  qed
  finally show ?thesis using p(1) by simp
qed

theorem short_header_overflows_witness:
  "eth_do (ip_input idle_env) (Frame 0 (ip4_frame (nif_hwaddr board_netif) host_mac (stub_packet 0 0xBDEF 0 21552 host (nif_ip board_netif)) [])) (ip_board host_known) = None"
proof -
  have c: "inet_chksum False ([0x42, 0] @ be16 16 @ be16 0xBDEF @ be16 0) = 0"
    "inet_chksum False ([ICMP_ECHO, IP_PROTO_ICMP] @ le16 21552 @ le32 host) = 0" "\<not> is_fragment (be16 0)" by code_simp+
  have "\<not> bad_source host board_netif" using host_facts(2) by (simp add: bad_source_def not_unicast_def)
  moreover have "has_ram (ebufs (ip_board host_known))" by (simp add: board_ram)
  ultimately show ?thesis
    using short_header_overflows [OF host_board(1) _ _ _ board_unicast idle_env_ok _ _ _ _ _ c(3,1,2), of 0 "nif_hwaddr board_netif" host_mac "[]"]
    by (simp add: host_facts)
qed

end
