(* ===== verification/Reass_Props.thy ===== *)
theory Reass_Props
  imports Reass_Run Ip_Props
begin

text \<open>
  What reassembly (\<open>Ip_Reass\<close>) does with the fragments of a datagram: in order they become the packet that was cut; two theorems
  are about what it gets wrong, a hole that is not seen and a list that keeps a freed datagram. The witnesses run on a
  board (\<open>reass_board\<close>) with small packets of the address of the host.
\<close>

section \<open>A board with packets\<close>

definition packet_buf :: "bytes \<Rightarrow> pbuf" where
  "packet_buf b = \<lparr>p_next = None, p_payload = 14, p_tot_len = of_nat (length b), p_len = of_nat (length b), p_type = PBUF_POOL, p_flags = 0, p_ref = 1\<rparr>"

definition packet_mem :: "bytes list \<Rightarrow> pbuf_mem" where
  "packet_mem L = \<lparr>heap = \<lambda>i. if i < length L then Some (packet_buf (L ! i)) else None,
     blk = \<lambda>i. if i < length L then replicate 14 0 @ L ! i else [], pool = [], ref_pool = [], pbuf_free_ooseq_pending = False, mem_malloc = \<lambda>_ _. None\<rparr>"

definition reass_board :: "bytes list \<Rightarrow> (nat \<Rightarrow> reassdata option) \<Rightarrow> nat option \<Rightarrow> nat list \<Rightarrow> u16 \<Rightarrow> ip4r" where
  "reass_board L R q free c = \<lparr>ebufs = packet_mem L, netifs = Map.empty, eth_netif_list = [], eth_netif_default = None, arp_table = [],
     etharp_cached_entry = 0, frames = [], link_out = \<lambda>_. ERR_OK, ip_ident = 0, cur_src = 0, cur_dest = 0, cur_netif = None, cur_header = None,
     reass = R, reass_pool = free, reassdatagrams = q, ip_reass_pbufcount = c\<rparr>"

lemma reass_board_sels [simp]:
  "ebufs (reass_board L R q free c) = packet_mem L" "reass (reass_board L R q free c) = R" "reassdatagrams (reass_board L R q free c) = q"
  "reass_pool (reass_board L R q free c) = free" "ip_reass_pbufcount (reass_board L R q free c) = c"
  by (simp_all add: reass_board_def)

lemma packet_mem_owned:
  assumes "i < length L" "length (L ! i) < 65536"
  shows "owned (packet_mem L) i [i]" "chain_data (packet_mem L) [i] = L ! i"
proof -
  have l: "unat (of_nat (length (L ! i)) :: u16) = length (L ! i)" by (rule unat16_of_nat [OF assms(2)])
  then show c: "chain_data (packet_mem L) [i] = L ! i"
    using assms(1) by (simp add: chain_data_def buf_data_def packet_mem_def packet_buf_def)
  show "owned (packet_mem L) i [i]"
    using assms(1) l c by (simp add: owned_def exclusive_def in_block_def ref_one_def not_custom_def packet_mem_def packet_buf_def)
qed

definition frag_head :: "u16 \<Rightarrow> u16 \<Rightarrow> bytes" where
  "frag_head ident off = [0x45, 0] @ be16 28 @ be16 ident @ be16 off @ [64, 17, 0, 0, 192, 168, 7, 2, 192, 168, 7, 1]"

lemma frag_head_facts: "length (frag_head ident off) = 20" "hd (frag_head ident off) = 0x45"
  by (simp_all add: frag_head_def)

lemma board_packet:
  assumes "i < length L" "L ! i = frag_head ident off @ d" "length d < 1000" "i < 1000"
  shows "ip_packet_at (packet_mem L) i (frag_head ident off) d"
  using packet_mem_owned [OF assms(1)] assms(2-4) by (simp add: ip_packet_at_def frag_head_facts ptr_ok_def)

lemma board_frag:
  assumes "i < length L" "L ! i = frag_bytes n st en (replicate 12 0 @ d)" "length d < 1000" "ptr_ok n"
  shows "frag (packet_mem L) i n st en d"
proof -
  have "length (L ! i) < 65536" using assms(2,3) by (simp add: frag_bytes_def)
  from packet_mem_owned [OF assms(1) this] show ?thesis using assms(2,4) unfolding frag_def by (intro conjI exI [of _ "replicate 12 0"]) simp_all
qed

definition eight :: "u8 \<Rightarrow> bytes" where "eight c = replicate 8 c"

section \<open>Datagrams in fragments\<close>

text \<open>The datagrams in the list, none of which is the one of the header \<open>h\<close>.\<close>

definition others :: "'b ip4r_scheme \<Rightarrow> nat list \<Rightarrow> bytes \<Rightarrow> bool" where
  "others s ds h \<longleftrightarrow> dseg (reass s) (reassdatagrams s) ds None \<and> distinct ds \<and> length ds < chain_fuel
     \<and> (\<forall>x \<in> set ds. \<forall>r. reass s x = Some r \<longrightarrow> \<not> IP_ADDRESSES_AND_ID_MATCH (ra_iphdr r) h)"


text \<open>C26: Fragments of a datagram that arrive in order, each behind the last and the first at offset zero, are kept until the last of them,
  which returns the first buffer: the buffers are one chain whose bytes are the header of the first fragment, with the length of the whole, no
  fragment fields and a new checksum, and the data of the fragments. The other datagrams stay in the list, the descriptor of this
  one is gone from it, and the count of buffers is what it was.\<close>

theorem datagram_reassembled:
  fixes s :: "'b ip4r_scheme"
  assumes "in_order [] (k # ks @ [l])" "frag_offset (pk_h k) = 0" "\<forall>j \<in> set (k # ks). \<not> is_last (pk_h j)" "is_last (pk_h l)"
    and "\<forall>j \<in> set (k # ks @ [l]). ip_packet_at (ebufs s) (pk_p j) (pk_h j) (pk_d j) \<and> IP_ADDRESSES_AND_ID_MATCH (pk_h k) (pk_h j)"
    and "others s ds (pk_h k)" "reass_pool s = a # free" "a \<notin> set ds" "unat (ip_reass_pbufcount s) + length ks + 2 \<le> IP_REASS_MAX_PBUFS"
    and "20 + length (concat (map pk_d (k # ks @ [l]))) < 65536"
  shows "\<exists>s'. reass_run env (map pk_p (k # ks @ [l])) s = Some (replicate (length ks + 1) None @ [Some (pk_p k)], s')
     \<and> owned (ebufs s') (pk_p k) (map pk_p (k # ks @ [l]))
     \<and> chain_data (ebufs s') (map pk_p (k # ks @ [l])) = whole_header (pk_h k) (fr_end (pk_frag l) + 20) @ concat (map pk_d (k # ks @ [l]))
     \<and> dseg (reass s') (reassdatagrams s') ds None \<and> ip_reass_pbufcount s' = ip_reass_pbufcount s"
proof -
  let ?h = "pk_h k" and ?p = "pk_p k" and ?f = "pk_frag k"
  define r where "r = new_reassdata ?h (reassdatagrams s)"
  define e where "e = s\<lparr>reass_pool := free, reass := (reass s)(a \<mapsto> r), reassdatagrams := Some a\<rparr>"
  have pk: "ip_packet_at (ebufs s) ?p ?h (pk_d k)" using assms(5) by simp
  have ot: "dseg (reass s) (reassdatagrams s) ds None" "distinct ds" "length ds < chain_fuel"
    "\<forall>x \<in> set ds. \<forall>r. reass s x = Some r \<longrightarrow> \<not> IP_ADDRESSES_AND_ID_MATCH (ra_iphdr r) ?h" using assms(6) by (simp_all add: others_def)
  have c: "unat (ip_reass_pbufcount s) < IP_REASS_MAX_PBUFS" "\<not> is_last ?h" using assms(3,9) by simp_all
  from ip_reass_first [OF pk ot(1,3,4) assms(7) c r_def e_def, of env] obtain m where
    m: "ip_reass_input env ?p s = Some (None, e\<lparr>ebufs := m, ip_reass_pbufcount := ip_reass_pbufcount s + 1, reass := (reass e)(a \<mapsto> r\<lparr>ra_p := Some ?p\<rparr>)\<rparr>)"
      "frags m (Some ?p) [?f]" "edits {?p} (ebufs s) m" unfolding pk_frag_def [symmetric] by blast
  let ?r = "r\<lparr>ra_p := Some ?p\<rparr>"
  let ?t = "e\<lparr>ebufs := m, ip_reass_pbufcount := ip_reass_pbufcount s + 1, reass := (reass e)(a \<mapsto> ?r)\<rparr>"
  have rf: "ra_iphdr ?r = ?h" "ra_flags ?r = 0" "ra_next ?r = reassdatagrams s" "ra_p ?r = Some ?p" by (simp_all add: r_def new_reassdata_def)
  have te: "reass ?t = (reass s)(a \<mapsto> ?r)" "reassdatagrams ?t = Some a" "ebufs ?t = m" by (simp_all add: e_def)
  have t1: "datagram_at ?t [] a ds ?r [?f] ?h"
  proof -
    have "dseg ((reass s)(a \<mapsto> ?r)) (Some a) ([] @ a # ds) None"
      using ot(1) assms(8) dseg_other [of a ds "reass s" "Some ?r"] rf(3) by simp
    moreover have "length ?h = 20" "ptr_ok (Some ?p)" using pk by (simp_all add: ip_packet_at_def)
    ultimately show ?thesis unfolding datagram_at_def te using m(2) rf(1,4) ot(2) assms(8)
      by (simp add: IP_ADDRESSES_AND_ID_MATCH_def chain_fuel_def del: fseg.simps)
  qed
  have t2: "in_order [?f] (ks @ [l])" using assms(1) in_order_snoc [of "[]" k "ks @ [l]"] by simp
  have t3: "\<forall>j \<in> set (ks @ [l]). ip_packet_at (ebufs ?t) (pk_p j) (pk_h j) (pk_d j) \<and> IP_ADDRESSES_AND_ID_MATCH (ra_iphdr ?r) (pk_h j)"
  proof
    fix j assume j: "j \<in> set (ks @ [l])"
    have "pk_p j \<in> pk_p ` set (ks @ [l])" using j by (rule imageI)
    moreover have "?p \<notin> pk_p ` set (ks @ [l])" using assms(1) by (auto simp: in_order_def)
    ultimately have "pk_p j \<notin> {?p}" by (metis singletonD)
    from ip_packet_keeps [OF m(3) this] show "ip_packet_at (ebufs ?t) (pk_p j) (pk_h j) (pk_d j) \<and> IP_ADDRESSES_AND_ID_MATCH (ra_iphdr ?r) (pk_h j)"
      using assms(5) j rf(1) by auto
  qed
  have cu: "unat (ip_reass_pbufcount s + 1) = unat (ip_reass_pbufcount s) + 1"
    using assms(9) by (simp add: unat_word_ariths IP_REASS_MAX_PBUFS_def)
  have t4: "[?f] \<noteq> []" "fr_start (hd [?f]) = 0" "frag_offset (ra_iphdr ?r) = 0" "ra_flags ?r AND IP_REASS_FLAG_LASTFRAG = 0" "\<forall>j \<in> set ks. \<not> is_last (pk_h j)"
    "unat (ip_reass_pbufcount ?t) + length ks < IP_REASS_MAX_PBUFS" "length [?f] + length ks < 255"
    "20 + length (concat (map fr_data ([?f] @ map pk_frag (ks @ [l])))) < 65536"
    using assms(2,3,9,10) cu rf by (simp_all add: IP_REASS_MAX_PBUFS_def comp_def)
  from reass_run_rest [OF t1 t4(1-4) t2 t3 t4(5) assms(4) t4(6-8), of env] obtain s' where
    s': "reass_run env (map pk_p (ks @ [l])) ?t = Some (replicate (length ks) None @ [Some (fr_p (hd [?f]))], s')"
     "owned (ebufs s') (fr_p (hd [?f])) (map fr_p ([?f] @ map pk_frag (ks @ [l])))"
     "chain_data (ebufs s') (map fr_p ([?f] @ map pk_frag (ks @ [l]))) = whole_header (ra_iphdr ?r) (fr_end (pk_frag l) + 20) @ concat (map fr_data ([?f] @ map pk_frag (ks @ [l])))"
     "dseg (reass s') (reassdatagrams s') ds None" "ip_reass_pbufcount s' = ip_reass_pbufcount ?t - of_nat (length [?f])" by blast
  have eq: "map fr_p ([?f] @ map pk_frag (ks @ [l])) = map pk_p (k # ks @ [l])" "map fr_data ([?f] @ map pk_frag (ks @ [l])) = map pk_d (k # ks @ [l])"
    "fr_p (hd [?f]) = ?p" by simp_all
  have "reass_run env (map pk_p (k # ks @ [l])) s = Some (replicate (length ks + 1) None @ [Some ?p], s')"
    using m(1) s'(1) by simp
  moreover have "ip_reass_pbufcount s' = ip_reass_pbufcount s" using s'(5) by simp
  ultimately show ?thesis using s'(2-4) unfolding eq rf(1) by blast
qed

theorem datagram_reassembled_witness:
  "\<exists>s'. reass_run idle_env [0, 1, 2] (reass_board [frag_head 7 0x2000 @ eight 65, frag_head 7 0x2001 @ eight 66, frag_head 7 2 @ eight 67] Map.empty None [0] 0)
      = Some ([None, None, Some 0], s') \<and> drop 20 (chain_data (ebufs s') [0, 1, 2]) = eight 65 @ eight 66 @ eight 67"
proof -
  let ?L = "[frag_head 7 0x2000 @ eight 65, frag_head 7 0x2001 @ eight 66, frag_head 7 2 @ eight 67]"
  let ?k = "(0, frag_head 7 0x2000, eight 65)" and ?j = "(1, frag_head 7 0x2001, eight 66)" and ?l = "(2, frag_head 7 2, eight 67)"
  have a: "in_order [] (?k # [?j] @ [?l])" by code_simp
  have b: "frag_offset (pk_h ?k) = 0" "\<forall>j \<in> set (?k # [?j]). \<not> is_last (pk_h j)" "is_last (pk_h ?l)" by code_simp+
  have ma: "\<forall>j \<in> set (?k # [?j] @ [?l]). IP_ADDRESSES_AND_ID_MATCH (pk_h ?k) (pk_h j)" by code_simp
  have p: "\<forall>j \<in> set (?k # [?j] @ [?l]). ip_packet_at (packet_mem ?L) (pk_p j) (pk_h j) (pk_d j)"
    using board_packet [of 0 ?L] board_packet [of 1 ?L] board_packet [of 2 ?L] by (simp add: pk_p_def pk_h_def pk_d_def eight_def)
  have w: "length (whole_header (pk_h ?k) (fr_end (pk_frag ?l) + 20)) = 20" by (rule whole_header_length) (simp add: pk_h_def frag_head_facts)
  from datagram_reassembled [OF a b, of "reass_board ?L Map.empty None [0] 0" "[]" 0 "[]" idle_env] p ma w
  show ?thesis by (auto simp: others_def chain_fuel_def IP_REASS_MAX_PBUFS_def pk_p_def pk_d_def eight_def simp del: chain_data_simps)
qed

text \<open>C27: A fragment that goes between two others is compared with the one before it only for overlap: when the last fragment is
  there and what follows is without a gap, the datagram is passed on as complete although bytes between its predecessor
  and the new fragment never arrived.\<close>

theorem reassembly_takes_hole:
  fixes s :: "'b ip4r_scheme"
  assumes "ip_packet_at (ebufs s) p h d" "datagram_at s xs a ys r (as @ bs) h" "p \<notin> all_p (as @ bs)" "as \<noteq> []" "bs \<noteq> []"
    and "ra_flags r AND IP_REASS_FLAG_LASTFRAG \<noteq> 0" "\<not> is_last h" "frag_offset (ra_iphdr r) = 0"
    and "contiguous as" "\<forall>g \<in> set as. fr_start g < fr_end g" "fr_start (hd as) = 0" "fr_end (last as) < frag_offset h"
    and "contiguous (fragment_of p h d # bs)" "frag_offset h < fr_start (hd bs)"
    and "length as + length bs < 255" "unat (ip_reass_pbufcount s) < IP_REASS_MAX_PBUFS" "20 + length (concat (map fr_data (as @ bs))) + length d < 65536"
  shows "\<exists>s'. ip_reass_input env p s = Some (Some (fr_p (hd as)), s')
     \<and> owned (ebufs s') (fr_p (hd as)) (map fr_p as @ p # map fr_p bs)
     \<and> chain_data (ebufs s') (map fr_p as @ p # map fr_p bs)
         = whole_header (ra_iphdr r) (ra_datagram_len r + 20) @ concat (map fr_data as) @ d @ concat (map fr_data bs)"
proof -
  let ?f = "fragment_of p h d"
  have f: "fr_start ?f = frag_offset h" "fr_p ?f = p" "fr_data ?f = d" by (simp_all add: fragment_of_def)
  obtain g gs where bs: "bs = g # gs" using assms(5) by (cases bs) auto
  have ends: "\<forall>g \<in> set as. fr_start g < fr_start ?f \<and> fr_end g \<le> fr_start ?f"
    using contiguous_ends [OF assms(9,10,4)] assms(10,12) f(1) by fastforce
  have fg: "fr_end ?f = fr_start g" using assms(13) bs by (simp add: contiguous_def)
  have "place_frag ?f [] (as @ bs) = place_frag ?f as bs" using place_frag_behind [OF ends, of "[]" bs] by simp
  also have "\<dots> = Some (as, bs)" using assms(12,14) bs fg f(1) by (auto simp: not_less)
  finally have pl: "place_frag ?f [] (as @ bs) = Some (as, bs)" .
  have hd: "hd (as @ [?f]) = hd as" "head_p (as @ [?f]) = Some (fr_p (hd as))" using assms(4) by (cases as; simp add: head_p_def)+
  have tc: "taken_complete as ?f bs" using assms(5,9,11,13) by (simp add: taken_complete_def hd)
  have nr: "noted h r = r" using assms(7,8) by (simp add: noted_def Let_def)
  have sz: "length (as @ bs) < 255" using assms(15) by simp
  from ip_reass_step [OF assms(1-3) sz assms(16,17), of env] pl tc nr assms(6) show ?thesis by (auto simp: hd f)
qed

theorem reassembly_takes_hole_witness:
  "\<exists>s'. ip_reass_input idle_env 2 (reass_board [frag_bytes (Some 1) 0 8 (replicate 12 0 @ eight 65), frag_bytes None 24 32 (replicate 12 0 @ eight 68), frag_head 7 0x2002 @ eight 67]
        [0 \<mapsto> \<lparr>ra_next = None, ra_p = Some 0, ra_iphdr = frag_head 7 0x2000, ra_datagram_len = 32, ra_flags = 1, ra_timer = 3\<rparr>] (Some 0) [] 2) = Some (Some 0, s')
     \<and> chain_data (ebufs s') [0, 2, 1] = whole_header (frag_head 7 0x2000) 52 @ eight 65 @ eight 67 @ eight 68"
proof -
  let ?L = "[frag_bytes (Some 1) 0 8 (replicate 12 0 @ eight 65), frag_bytes None 24 32 (replicate 12 0 @ eight 68), frag_head 7 0x2002 @ eight 67]"
  let ?r = "\<lparr>ra_next = None, ra_p = Some 0, ra_iphdr = frag_head 7 0x2000, ra_datagram_len = 32, ra_flags = 1, ra_timer = 3\<rparr>"
  let ?s = "reass_board ?L [0 \<mapsto> ?r] (Some 0) [] 2" and ?as = "[Fragment 0 0 8 (eight 65)]" and ?bs = "[Fragment 1 24 32 (eight 68)]" and ?h = "frag_head 7 0x2002"
  have p: "ip_packet_at (ebufs ?s) 2 ?h (eight 67)" using board_packet [of 2 ?L] by (simp add: eight_def)
  have "frag (packet_mem ?L) 0 (Some 1) 0 8 (eight 65)" "frag (packet_mem ?L) 1 None 24 32 (eight 68)"
    using board_frag [of 0 ?L] board_frag [of 1 ?L] by (simp_all add: eight_def ptr_ok_def)
  moreover have "IP_ADDRESSES_AND_ID_MATCH (frag_head 7 0x2000) ?h" by code_simp
  ultimately have d: "datagram_at ?s [] 0 [] ?r (?as @ ?bs) ?h"
    by (auto simp: datagram_at_def chain_fuel_def frag_head_facts ptr_ok_def)
  have h: "\<not> is_last ?h" "frag_offset (ra_iphdr ?r) = 0" "fr_end (last ?as) < frag_offset ?h" "contiguous (fragment_of 2 ?h (eight 67) # ?bs)" "frag_offset ?h < fr_start (hd ?bs)"
    by code_simp+
  have c: "contiguous ?as" by (simp add: contiguous_def)
  from reassembly_takes_hole [OF p d _ _ _ _ h(1,2) c _ _ h(3-5), of idle_env] show ?thesis
    by (auto simp: all_p_def IP_REASS_FLAG_LASTFRAG_def IP_REASS_MAX_PBUFS_def eight_def simp del: chain_data_simps)
qed

section \<open>Making room\<close>

lemma free_frags_all:
  "frags (ebufs s) q fs \<Longrightarrow> distinct (map fr_p fs) \<Longrightarrow> length fs \<le> fuel \<Longrightarrow> \<exists>m. free_frags fuel q c s = Some (c + of_nat (length fs), s\<lparr>ebufs := m\<rparr>)"
proof (induction fs arbitrary: q c s fuel)
  case Nil
  then show ?case by (intro exI [of _ "ebufs s"]) simp
next
  case (Cons f fs)
  then obtain k where k: "fuel = Suc k" "length fs \<le> k" by (cases fuel) auto
  from Cons.prems(1) obtain n where q: "q = Some (fr_p f)" "frag (ebufs s) (fr_p f) n (fr_start f) (fr_end f) (fr_data f)" "frags (ebufs s) n fs" by auto
  then have o: "owned (ebufs s) (fr_p f) [fr_p f]" by (simp add: frag_def)
  from free_single [OF o] obtain m where m: "free_pbuf (fr_p f) s = Some (s\<lparr>ebufs := m\<rparr>)" "heap m = (heap (ebufs s))(fr_p f := None)" "blk m = blk (ebufs s)" by blast
  have "frags m n fs" using fseg_keeps [OF keeps_of_heap [OF m(2,3)], of "fr_p ` set fs" fs] q(3) Cons.prems(2) by auto
  then obtain m2 where m2: "free_frags k n (c + 1) (s\<lparr>ebufs := m\<rparr>) = Some (c + 1 + of_nat (length fs), s\<lparr>ebufs := m2\<rparr>)"
    using Cons.IH [of "s\<lparr>ebufs := m\<rparr>" n k "c + 1"] Cons.prems(2) k(2) by auto
  have "free_frags fuel q c s = Some (c + 1 + of_nat (length fs), s\<lparr>ebufs := m2\<rparr>)"
    using m2 m(1) by (simp add: k(1) q(1) frag_reads [OF q(2)] pbuf_clen_single [OF o])
  then show ?case by (intro exI [of _ m2]) (simp add: add.assoc)
qed

text \<open>C28: With the limit of buffers reached and three datagrams in the list, of which the one in the middle is the oldest, a fragment of a
  fourth removes the oldest, but unlinks it from itself: the pointer kept as the one before it is the last that has a
  successor. The search for the datagram of the fragment then follows the list into the freed descriptor.\<close>

theorem oldest_in_the_middle_dangles:
  fixes s :: "'b ip4r_scheme"
  assumes "ip_packet_at (ebufs s) p h d" "ip_reass_pbufcount s = of_nat IP_REASS_MAX_PBUFS"
    and "dseg (reass s) (reassdatagrams s) [a, b, c] None" "distinct [a, b, c]" "reass s a = Some ra" "reass s b = Some rb" "reass s c = Some rc"
    and "\<forall>r \<in> {ra, rb, rc}. \<not> IP_ADDRESSES_AND_ID_MATCH (ra_iphdr r) h" "ra_timer rb \<le> ra_timer ra" "ra_timer rb < ra_timer rc"
    and "frags (ebufs s) (ra_p rb) fs" "distinct (map fr_p fs)" "fs \<noteq> []" "fr_start (hd fs) \<noteq> 0" "length fs \<le> IP_REASS_MAX_PBUFS"
  shows "ip_reass_input env p s = None"
proof -
  have pk: "owned (ebufs s) p [p]" "chain_data (ebufs s) [p] = h @ d" "length h = 20" "hd h AND 0x0F = 5"
    using assms(1) by (simp_all add: ip_packet_at_def)
  have rd: "payload_read p 0 IP_HLEN (ebufs s) = Some h" using payload_read_single [OF pk(1), of 0 20] pk(2,3) by (simp add: IP_HLEN_def)
  have hl: "unat (hd h AND 0x0F) * 4 = IP_HLEN" using pk(4) by (simp add: IP_HLEN_def)
  have cl: "pbuf_clen (Some p) (ebufs s) = Some 1" by (rule pbuf_clen_single [OF pk(1)])
  have full: "unat (ip_reass_pbufcount s) = 10" using assms(2) by (simp add: IP_REASS_MAX_PBUFS_def)
  define fuel where "fuel = chain_fuel - 3"
  have fu: "chain_fuel = Suc (Suc (Suc fuel))" by (simp add: fuel_def chain_fuel_def)
  have li: "reassdatagrams s = Some a" "ra_next ra = Some b" "ra_next rb = Some c" "ra_next rc = None" using assms(3,5-7) by auto
  have scan: "oldest_scan chain_fuel h (reassdatagrams s) None None 0 s = Some (Some b, Some b, 3)"
  proof -
    have "\<not> ra_timer rc \<le> ra_timer rb" using assms(10) by simp
    then show ?thesis using assms(5-9) li by (simp add: fu)
  qed
  obtain f gs where fs: "fs = f # gs" using assms(13) by (cases fs) auto
  from assms(11) fs obtain q where q: "ra_p rb = Some (fr_p f)" "frag (ebufs s) (fr_p f) q (fr_start f) (fr_end f) (fr_data f)" by auto
  have "length fs \<le> chain_fuel" using assms(15) by (simp add: IP_REASS_MAX_PBUFS_def chain_fuel_def)
  from free_frags_all [OF assms(11,12) this, of 0] obtain m where
    m: "free_frags chain_fuel (ra_p rb) 0 s = Some (of_nat (length fs), s\<lparr>ebufs := m\<rparr>)" by auto
  let ?s = "s\<lparr>ebufs := m, reass := (reass s)(b := None), reass_pool := b # reass_pool s, ip_reass_pbufcount := ip_reass_pbufcount s - of_nat (length fs)\<rparr>"
  have st: "iprh_start (fr_p f) s = Some (fr_start f)" by (rule frag_reads(2) [OF q(2)])
  have free: "ip_reass_free_complete_datagram env b (Some b) s = Some (of_nat (length fs), ?s)"
    using assms(4,6,14) li m q(1) st fs
    by (simp add: ip_reass_free_complete_datagram_def ip_reass_dequeue_datagram_def upd_reass_def)
  have un: "unat (of_nat (length fs) :: u16) = length fs" using assms(15) by (intro unat16_of_nat) (simp add: IP_REASS_MAX_PBUFS_def)
  have old: "ip_reass_remove_oldest_datagram env h (unat (1 :: u8)) s = Some (length fs, ?s)"
    unfolding ip_reass_remove_oldest_datagram_def using scan free un fs by (simp add: fu)
  have find: "find_datagram chain_fuel h (reassdatagrams ?s) None ?s = None"
    using assms(4,5,8) li by (simp add: fu)
  have "unat (ip_reass_pbufcount ?s) = 10 - length fs"
  proof -
    have "ip_reass_pbufcount ?s = of_nat (10 - length fs)" using assms(2,15) by (simp add: IP_REASS_MAX_PBUFS_def of_nat_diff)
    then show ?thesis by (simp only:) (rule unat16_of_nat, simp)
  qed
  then have room: "unat (ip_reass_pbufcount ?s) + 1 \<le> IP_REASS_MAX_PBUFS" using fs by (simp add: IP_REASS_MAX_PBUFS_def)
  show ?thesis unfolding ip_reass_input_def rd bind.bind_lunit hl cl
    using full old find room fs by (simp add: IP_REASS_MAX_PBUFS_def)
qed

definition full_board :: ip4r where
  "full_board = (let g = (\<lambda>n st. frag_bytes n st (st + 8) (replicate 12 0 @ eight 65)) in
     reass_board [g (Some 1) 8, g None 16, g (Some 3) 0, g (Some 4) 8, g (Some 5) 16, g None 24, g (Some 7) 0, g (Some 8) 8, g (Some 9) 16, g None 24, frag_head 4 0x2000 @ eight 66]
       [0 \<mapsto> \<lparr>ra_next = Some 1, ra_p = Some 2, ra_iphdr = frag_head 1 0x2000, ra_datagram_len = 0, ra_flags = 0, ra_timer = 3\<rparr>,
        1 \<mapsto> \<lparr>ra_next = Some 2, ra_p = Some 0, ra_iphdr = frag_head 2 0x2001, ra_datagram_len = 0, ra_flags = 0, ra_timer = 1\<rparr>,
        2 \<mapsto> \<lparr>ra_next = None, ra_p = Some 6, ra_iphdr = frag_head 3 0x2000, ra_datagram_len = 0, ra_flags = 0, ra_timer = 2\<rparr>] (Some 0) [3, 4] 10)"

theorem oldest_in_the_middle_dangles_witness: "ip_reass_input idle_env 10 full_board = None"
proof -
  let ?g = "\<lambda>n st. frag_bytes n st (st + 8) (replicate 12 0 @ eight 65)"
  let ?L = "[?g (Some 1) 8, ?g None 16, ?g (Some 3) 0, ?g (Some 4) 8, ?g (Some 5) 16, ?g None 24, ?g (Some 7) 0, ?g (Some 8) 8, ?g (Some 9) 16, ?g None 24, frag_head 4 0x2000 @ eight 66]"
  have e: "ebufs full_board = packet_mem ?L" by (simp add: full_board_def Let_def)
  have p: "ip_packet_at (ebufs full_board) 10 (frag_head 4 0x2000) (eight 66)" unfolding e by (rule board_packet) (simp_all add: eight_def)
  have "frag (packet_mem ?L) 0 (Some 1) 8 16 (eight 65)" "frag (packet_mem ?L) 1 None 16 24 (eight 65)"
    by (rule board_frag; simp add: eight_def ptr_ok_def)+
  then have f: "frags (ebufs full_board) (Some 0) [Fragment 0 8 16 (eight 65), Fragment 1 16 24 (eight 65)]" unfolding e by auto
  have m: "\<not> IP_ADDRESSES_AND_ID_MATCH (frag_head 1 0x2000) (frag_head 4 0x2000)" "\<not> IP_ADDRESSES_AND_ID_MATCH (frag_head 2 0x2001) (frag_head 4 0x2000)"
    "\<not> IP_ADDRESSES_AND_ID_MATCH (frag_head 3 0x2000) (frag_head 4 0x2000)" by code_simp+
  show ?thesis
    by (rule oldest_in_the_middle_dangles [OF p, of 0 1 2 _ _ _ "[Fragment 0 8 16 (eight 65), Fragment 1 16 24 (eight 65)]"])
      (use f m in \<open>auto simp: full_board_def Let_def IP_REASS_MAX_PBUFS_def\<close>)
qed

end
