(* ===== verification/Spec2Isabelle.thy ===== *)
theory Spec2Isabelle
  imports Dhcp_Server Dns_Server Usb_Control App Mem_Client Arp_App Reass_Props
begin

text \<open>
  A USB network adapter for the STM32F4: the board enumerates as an RNDIS device, carries Ethernet
  frames between the host and lwIP, and gives the host an address, a name server and a web page.
  The files below are under \<open>src/\<close>.

  \<^bold>\<open>How the parts interact.\<close> The USB core raises an interrupt; \<open>usb_dcd_int.c\<close> moves packets between
  its FIFOs and the endpoint buffers and calls the stage handlers of \<open>usbd_core.c\<close>, which answer the
  standard requests (\<open>usbd_req.c\<close>, \<open>usbd_ioreq.c\<close>, \<open>usbd_desc.c\<close>) and call the class callbacks of
  \<open>usbd_rndis_core.c\<close>. The class answers control messages, cuts frames into RNDIS messages and puts
  messages together again, and hands a received frame to \<open>on_packet\<close> of \<open>app.c\<close>. The main loop polls
  it into a packet buffer (\<open>pbuf.c\<close>, \<open>memp.c\<close>) for lwIP and runs the software timers (\<open>time.c\<close>). UDP
  datagrams (\<open>udp.c\<close>, \<open>ip.c\<close>, \<open>inet_chksum.c\<close>) reach the DHCP server (\<open>dhserver.c\<close>) and the DNS server
  (\<open>dnserver.c\<close>). What lwIP sends leaves through \<open>linkoutput_fn\<close> and the class.

  \<^bold>\<open>Which theory models what.\<close>
  \<^item> \<open>Prelude\<close>: machine integers as words, byte buffers with loads and stores that fail out of
    bounds, the integer codecs.
  \<^item> \<open>Pbuf\<close> (\<open>pbuf.c\<close>, \<open>memp.c\<close>): the buffers in a store by address, their reference counts and the
    two free lists. The lemmas give allocation, freeing, copying as facts on chains and their data.
  \<^item> \<open>Pbuf_Ops\<close> (\<open>pbuf.c\<close>): copies between chains, custom buffers, comparisons and searches.
  \<^item> \<open>Mem\<close>, \<open>Mem_Client\<close> (\<open>mem.c\<close>): the heap as the bytes of its array, with the block headers in it. It
    represents a list of blocks (\<open>heap_ok\<close>), on which the operations are first fit, split and merge; a
    client that allocates, writes and frees finds its data again and can take the heap apart in any
    order. \<open>Pbuf\<close> only asks which requests for heap memory succeed.
  \<^item> \<open>Chksum\<close> (\<open>inet_chksum.c\<close>, \<open>def.c\<close>): the two summing loops, chains, the pseudo header; all are
    related to one reference sum modulo 65535.
  \<^item> \<open>Ip\<close>, \<open>Udp\<close> (\<open>ip.c\<close>, \<open>ip_addr.c\<close>, \<open>udp.c\<close>): routing, headers, control blocks, ports, input and
    output. What leaves these layers is recorded as an event.
  \<^item> \<open>Dhcp_Server\<close>, \<open>Dns_Server\<close>: tables, parsers and the whole receive handlers, run over queues of
    arbitrary datagrams through \<open>udp_input\<close>.
  \<^item> \<open>Etharp\<close> (\<open>etharp.c\<close>): the ARP table, requests, replies, the queued packets and the dispatch of frames,
    one definition per function. \<open>Arp_Table\<close> has the search and the invariant \<open>eth_ok slots H s\<close>: the table is sound, and
    the buffers in use are the queued packets and those in \<open>H\<close>, which somebody else holds. \<open>arp_step\<close> is what an
    operation may do to it; \<open>Arp_Ops\<close>, \<open>Arp_Output\<close>, \<open>Arp_Input\<close> and \<open>Arp_Events\<close> prove it of every operation, with what is
    sent. \<open>Arp_Lookup\<close> and \<open>Arp_Traffic\<close> say what the table answers over time and what ARP packets do to it;
    \<open>Arp_Props\<close> has the properties, \<open>Arp_App\<close> puts the layer behind \<open>usb_polling\<close>.
  \<^item> \<open>Icmp\<close> (\<open>ip.c\<close>, \<open>icmp.c\<close>): \<open>ip_input\<close>, \<open>ip_output_if\<close> and ICMP over the interfaces of \<open>Etharp\<close>, so that \<open>ip_input env\<close> is
    what \<open>ethernet_input\<close> calls and \<open>etharp_output\<close> is what a reply goes through. The record \<open>ip_env\<close> holds the handlers of the other
    protocols, reassembly and fragmentation. A received packet is one pool buffer: \<open>One_Pbuf\<close> writes the state as
    \<open>with_pbuf p f x pos len s\<close>, the rest of the state and the bytes \<open>x\<close> of the buffer with the payload at \<open>pos\<close>, and has the equation of
    each buffer operation there. \<open>Icmp_Run\<close> and \<open>Ip_Run\<close> have each operation of the layer as an equation and as a step of the ARP
    invariant (\<open>freed\<close>: the packet is gone, the rest is kept), \<open>Icmp_Echo\<close> the bytes of the answer to a request,
    \<open>Ip_Props\<close> the properties. They ask of the other handlers (\<open>env_ok\<close>) that they free a packet with a header of at least 20 bytes, and of
    received packets (\<open>frame_sane\<close>) that they have one and are no fragments; \<open>short_header_overflows\<close> shows why the first is needed.
  \<^item> \<open>Ip_Reass\<close> (\<open>ip_frag.c\<close>): reassembly and its timer; \<open>ip_reass_input env\<close> is what the field for \<open>ip_reass\<close> in \<open>ip_env\<close> stands for.
    Fragments are linked through a helper written over their headers, in which the buffer at \<open>a\<close> is the pointer \<open>a + 1\<close> and zero
    is \<open>NULL\<close>. \<open>Reass_Frags\<close> reads these bytes as a list of fragments and shows adding one as an operation on it, \<open>Reass_Run\<close>
    goes from there to a whole call, \<open>Reass_Props\<close> has the properties. The invariant of the traffic theorems does not cover
    it, since making room for a fragment can leave a freed datagram in the list (\<open>oldest_in_the_middle_dangles\<close>).
  \<^item> \<open>Timers\<close> (\<open>time.c\<close>): the clock as a tick counter that advances at every access, so the tick
    interrupt can come between any two; the list of timers. The locale \<open>timer_calls\<close> states what a
    timer function may do; \<open>App\<close> interprets it.
  \<^item> \<open>Otg_Core\<close>, \<open>Usb_Dcd\<close>, \<open>Usbd_Req\<close>, \<open>Usbd_Core\<close>, \<open>Dcd_Int\<close>: the driver, device controller, request,
    stage and interrupt functions, one definition per function. A register read asks the function
    \<open>hw\<close> of the state, which may answer anything; writes are logged. Buffers are named regions with
    the sizes of the C objects.
  \<^item> \<open>Usb_Control\<close>: one control transfer to the host from the request to the status stage.
  \<^item> \<open>Usb_Inv\<close>: the invariant of the device and the locale \<open>usb_class\<close>, what the stack asks of a class;
    every handler is proved safe in it. \<open>Rndis_Dev\<close> interprets it with the callbacks of the class.
  \<^item> \<open>Rndis\<close> (\<open>usbd_rndis_core.c\<close>), \<open>Rndis_Spec\<close>: the class, and its specification: a frame is one
    message, a message is reassembled from packets, the control channel is a state machine.
  \<^item> \<open>Rndis_Dev\<close>: the states the firmware reaches, as an inductive relation, and what holds in them.
  \<^item> \<open>App\<close> (\<open>app.c\<close>): inbox, polling, output, timers, start, the control page.

  \<^bold>\<open>Conventions.\<close> \<open>None\<close> is a run that leaves the objects it may touch (or never returns); \<open>Some\<close> is a
  run that stayed in bounds, so an equation \<open>f x = Some y\<close> is also a safety statement. Error codes are
  values. A C pointer to a buffer is an address or a region with an offset.

  \<^bold>\<open>Fuel.\<close> \<open>chain_fuel\<close> is 65536: a chain whose length fits the 16-bit fields has fewer buffers. The blocks of a heap of
  10000 bytes are walked until the end, which the lemmas show is reached (\<open>fit_loop\<close>, \<open>next_free\<close>). The
  register polls of the driver run at most 200000 times as in the code (\<open>poll_limit\<close>). Loops whose
  end depends on the hardware or the clock are \<open>partial_function\<close>s: their theorems prove the result,
  \<open>Some\<close>, under the pace of the clock (\<open>max_pace\<close>, the longest time between two accesses) or for any
  hardware.

  \<^bold>\<open>Not modelled.\<close> TCP, raw control blocks, \<open>ip_frag\<close> (it makes custom buffers) and the HTTP server of lwIP (the application takes
  \<open>ethernet_input\<close>, \<open>tcp_tmr\<close> and \<open>netif\<close> set-up as parameters, \<open>Etharp\<close> takes \<open>ip_input\<close>, of which \<open>consumes\<close> asks that
  it frees its packet and keeps the invariant, \<open>Icmp\<close> takes the input functions of the other protocols, \<open>ip_reass\<close> and \<open>ip_frag\<close>), the unused parts of lwIP, the host
  side of the USB library, the peripheral library and board support, which only set registers, the
  real-time clock functions of \<open>time.c\<close>, and \<open>ssi_handler\<close> of \<open>app.c\<close>, which formats with \<open>snprintf\<close>.
\<close>

end
